(* ===== verification/Prelude.thy ===== *)
theory Prelude
  imports Main "HOL-Library.Word" "HOL-Library.Monad_Syntax"
begin

text \<open>
  What every other theory shares: the C integer types and the constants of
  \<^verbatim>\<open>rt-thread/include/rtdef.h\<close> (error codes, alignment macros), the collections of rewrite rules,
  and generic lemmas on lists, options and bit masks.

  Conventions. A C function that can hit \<^verbatim>\<open>RT_ASSERT\<close> (which never returns: the handler in
  \<^verbatim>\<open>kservice.c\<close> spins), the stack check that spins, or a read through a dangling list head is a
  function into \<open>'a option\<close>; \<open>None\<close> is "the system halts here". The returned value and the new
  state are the pair under \<open>Some\<close>. \<open>rt_err_t\<close> is a mathematical integer: the code only stores and
  compares the negated error constants below.
\<close>

unbundle bit_operations_syntax

named_theorems kdefs "unfolding rules for the small state transformers"
named_theorems bitsimps "bits of the masks the scheduler builds"

type_synonym u8 = "8 word"
type_synonym u16 = "16 word"
type_synonym u32 = "32 word"
type_synonym rt_err_t = int

section \<open>Constants of rtdef.h\<close>

abbreviation (input) RT_EOK :: rt_err_t where "RT_EOK \<equiv> 0"
abbreviation (input) RT_ERROR :: rt_err_t where "RT_ERROR \<equiv> 1"
abbreviation (input) RT_ETIMEOUT :: rt_err_t where "RT_ETIMEOUT \<equiv> 2"
abbreviation (input) RT_EFULL :: rt_err_t where "RT_EFULL \<equiv> 3"
abbreviation (input) RT_EEMPTY :: rt_err_t where "RT_EEMPTY \<equiv> 4"
abbreviation (input) RT_ENOMEM :: rt_err_t where "RT_ENOMEM \<equiv> 5"
abbreviation (input) RT_ENOSYS :: rt_err_t where "RT_ENOSYS \<equiv> 6"
abbreviation (input) RT_EBUSY :: rt_err_t where "RT_EBUSY \<equiv> 7"
abbreviation (input) RT_EIO :: rt_err_t where "RT_EIO \<equiv> 8"
abbreviation (input) RT_EINTR :: rt_err_t where "RT_EINTR \<equiv> 9"
abbreviation (input) RT_EINVAL :: rt_err_t where "RT_EINVAL \<equiv> 10"

abbreviation (input) RT_TICK_MAX :: u32 where "RT_TICK_MAX \<equiv> 0xffffffff"
abbreviation (input) RT_WAITING_FOREVER :: u32 where "RT_WAITING_FOREVER \<equiv> 0xffffffff"
abbreviation (input) RT_ALIGN_SIZE :: u32 where "RT_ALIGN_SIZE \<equiv> 8"
abbreviation (input) RT_NAME_MAX :: nat where "RT_NAME_MAX \<equiv> 24"

definition RT_ALIGN :: "u32 \<Rightarrow> u32 \<Rightarrow> u32" where
  "RT_ALIGN sz al = (sz + al - 1) AND NOT (al - 1)"

definition RT_ALIGN_DOWN :: "u32 \<Rightarrow> u32 \<Rightarrow> u32" where
  "RT_ALIGN_DOWN sz al = sz AND NOT (al - 1)"

section \<open>Lists\<close>

lemma removeAll_notin [simp]: "x \<notin> set xs \<Longrightarrow> removeAll x xs = xs"
  by (rule removeAll_id)

lemma removeAll_hd: "distinct (x # xs) \<Longrightarrow> removeAll x (x # xs) = xs"
  by simp

lemma distinct_removeAll_remove1: "distinct xs \<Longrightarrow> removeAll x xs = remove1 x xs"
  by (simp add: distinct_remove1_removeAll)

lemma Some_bind_iff: "(Option.bind m f = Some r) = (\<exists>x. m = Some x \<and> f x = Some r)"
  by (cases m) auto

section \<open>Bit masks\<close>

lemma bit_set_mask [bitsimps]:
  "bit ((w :: 'a :: len word) OR push_bit n 1) i \<longleftrightarrow> bit w i \<or> (i = n \<and> n < LENGTH('a))"
  by (auto simp: bit_simps)

lemma bit_clear_mask [bitsimps]:
  "bit ((w :: 'a :: len word) AND NOT (push_bit n 1)) i \<longleftrightarrow> bit w i \<and> i \<noteq> n"
  by (auto simp: bit_simps dest: bit_imp_le_length)

lemma bit_set_power [bitsimps]:
  "bit ((w :: 'a :: len word) OR 2 ^ n) i \<longleftrightarrow> bit w i \<or> (i = n \<and> n < LENGTH('a))"
  using bit_set_mask [of w n i] by simp

lemma bit_clear_power [bitsimps]:
  "bit ((w :: 'a :: len word) AND NOT (2 ^ n)) i \<longleftrightarrow> bit w i \<and> i \<noteq> n"
  using bit_clear_mask [of w n i] by simp

lemma word_nonzero_iff_bit: "(w :: 'a :: len word) \<noteq> 0 \<longleftrightarrow> (\<exists>i < LENGTH('a). bit w i)"
  by (auto simp: bit_eq_iff dest: bit_imp_le_length)

end
