(* ===== verification/Rt_List.thy ===== *)
theory Rt_List
  imports Prelude
begin

text \<open>
  The intrusive circular doubly linked lists of \<^verbatim>\<open>rt-thread/include/rtservice.h\<close>, at the level of
  the code: a heap of \<open>next\<close> and \<open>prev\<close> pointers, one definition per inline function, its writes
  in the order of the C statements. \<open>cyc h l xs\<close> says that the head \<open>l\<close> links exactly the nodes
  \<open>xs\<close>, in that order, in both directions; the lemmas compute its effect under every operation.

  The locale \<open>list_family\<close> is the interface the kernel relies on: a family of list heads over one
  set of nodes, each node in at most one list. It is interpreted on the pointer heap here, and
  on the kernel's state (where the lists are HOL lists) in the theory \<open>Kernel_State\<close>; so the
  kernel's use of HOL lists is justified by the pointer code.
\<close>

section \<open>The code\<close>

record 'n list_heap =
  lnext :: "'n \<Rightarrow> 'n"
  lprev :: "'n \<Rightarrow> 'n"

definition set_next :: "'n \<Rightarrow> 'n \<Rightarrow> 'n list_heap \<Rightarrow> 'n list_heap" where
  "set_next a b h = h\<lparr>lnext := (lnext h)(a := b)\<rparr>"

definition set_prev :: "'n \<Rightarrow> 'n \<Rightarrow> 'n list_heap \<Rightarrow> 'n list_heap" where
  "set_prev a b h = h\<lparr>lprev := (lprev h)(a := b)\<rparr>"

definition rt_list_init :: "'n \<Rightarrow> 'n list_heap \<Rightarrow> 'n list_heap" where
  "rt_list_init l h = set_next l l (set_prev l l h)"

definition rt_list_insert_after :: "'n \<Rightarrow> 'n \<Rightarrow> 'n list_heap \<Rightarrow> 'n list_heap" where
  "rt_list_insert_after l n h =
     (let h1 = set_prev (lnext h l) n h;
          h2 = set_next n (lnext h1 l) h1;
          h3 = set_next l n h2
      in set_prev n l h3)"

definition rt_list_insert_before :: "'n \<Rightarrow> 'n \<Rightarrow> 'n list_heap \<Rightarrow> 'n list_heap" where
  "rt_list_insert_before l n h =
     (let h1 = set_next (lprev h l) n h;
          h2 = set_prev n (lprev h1 l) h1;
          h3 = set_prev l n h2
      in set_next n l h3)"

definition rt_list_remove :: "'n \<Rightarrow> 'n list_heap \<Rightarrow> 'n list_heap" where
  "rt_list_remove n h =
     (let h1 = set_prev (lnext h n) (lprev h n) h;
          h2 = set_next (lprev h1 n) (lnext h1 n) h1;
          h3 = set_prev n n h2
      in set_next n n h3)"

definition rt_list_isempty :: "'n \<Rightarrow> 'n list_heap \<Rightarrow> bool" where
  "rt_list_isempty l h \<longleftrightarrow> lnext h l = l"

text \<open>The loop of \<open>rt_list_len\<close>, and the nodes a \<open>rt_list_for_each\<close> loop visits; neither need
  return on a corrupt heap, so both are partial.\<close>

partial_function (option) rt_list_len_from :: "'n list_heap \<Rightarrow> 'n \<Rightarrow> 'n \<Rightarrow> nat \<Rightarrow> nat option" where
  "rt_list_len_from h l p len =
     (if lnext h p \<noteq> l then rt_list_len_from h l (lnext h p) (Suc len) else Some len)"

definition rt_list_len :: "'n \<Rightarrow> 'n list_heap \<Rightarrow> nat option" where
  "rt_list_len l h = rt_list_len_from h l l 0"

partial_function (option) rt_list_walk :: "'n list_heap \<Rightarrow> 'n \<Rightarrow> 'n \<Rightarrow> 'n list option" where
  "rt_list_walk h l pos =
     (if pos \<noteq> l then Option.bind (rt_list_walk h l (lnext h pos)) (\<lambda>xs. Some (pos # xs))
      else Some [])"

definition rt_list_for_each :: "'n \<Rightarrow> 'n list_heap \<Rightarrow> 'n list option" where
  "rt_list_for_each l h = rt_list_walk h l (lnext h l)"

section \<open>Chains and cycles\<close>

fun linked :: "'n list_heap \<Rightarrow> 'n list \<Rightarrow> bool" where
  "linked h (x # y # zs) \<longleftrightarrow> lnext h x = y \<and> lprev h y = x \<and> linked h (y # zs)"
| "linked h _ \<longleftrightarrow> True"

definition cyc :: "'n list_heap \<Rightarrow> 'n \<Rightarrow> 'n list \<Rightarrow> bool" where
  "cyc h l xs \<longleftrightarrow> distinct (l # xs) \<and> linked h (l # xs @ [l])"

lemma linked_append:
  "linked h (xs @ y # ys) \<longleftrightarrow> linked h (xs @ [y]) \<and> linked h (y # ys)"
proof (induction xs)
  case (Cons a xs)
  then show ?case by (cases xs) auto
qed simp

lemma linked_prefix: "linked h (xs @ ys) \<Longrightarrow> linked h xs"
  by (induction h xs rule: linked.induct) auto

lemma linked_tail: "linked h (x # xs) \<Longrightarrow> linked h xs"
  by (cases xs) auto

lemma linked_frame:
  assumes "linked h xs" "\<And>a. a \<in> set (butlast xs) \<Longrightarrow> lnext h' a = lnext h a"
    "\<And>a. a \<in> set (tl xs) \<Longrightarrow> lprev h' a = lprev h a"
  shows "linked h' xs"
  using assms
proof (induction h xs rule: linked.induct)
  case (1 h x y zs)
  have "linked h' (y # zs)"
  proof (rule "1.IH")
    show "linked h (y # zs)" using "1.prems"(1) by simp
    show "lnext h' a = lnext h a" if "a \<in> set (butlast (y # zs))" for a
      using that "1.prems"(2)[of a] by simp
    show "lprev h' a = lprev h a" if "a \<in> set (tl (y # zs))" for a
      using that "1.prems"(3)[of a] by simp
  qed
  then show ?case using "1.prems" by simp
qed simp_all

lemma cyc_Nil: "cyc h l [] \<longleftrightarrow> lnext h l = l \<and> lprev h l = l"
  by (auto simp: cyc_def)

lemma cyc_rotate: "cyc h l (ys @ m # zs) \<longleftrightarrow> cyc h m (zs @ l # ys)"
proof -
  have "linked h (l # (ys @ m # zs) @ [l]) \<longleftrightarrow>
      linked h ((l # ys) @ [m]) \<and> linked h (m # zs @ [l])"
    using linked_append [of h "l # ys" m "zs @ [l]"] by simp
  moreover have "linked h (m # (zs @ l # ys) @ [m]) \<longleftrightarrow>
      linked h ((m # zs) @ [l]) \<and> linked h (l # ys @ [m])"
    using linked_append [of h "m # zs" l "ys @ [m]"] by simp
  ultimately show ?thesis unfolding cyc_def by auto
qed

lemma cyc_frame:
  assumes "cyc h l xs" "\<And>a. a \<in> set (l # xs) \<Longrightarrow> lnext h' a = lnext h a \<and> lprev h' a = lprev h a"
  shows "cyc h' l xs"
proof -
  have "linked h' (l # xs @ [l])"
    by (rule linked_frame [of h]) (use assms in \<open>auto simp: cyc_def butlast_append\<close>)
  then show ?thesis using assms(1) by (simp add: cyc_def)
qed

section \<open>Effect of the operations on a cycle\<close>

lemma rt_list_init_cyc: "cyc (rt_list_init l h) l []"
  by (simp add: cyc_Nil rt_list_init_def set_next_def set_prev_def)

lemma cyc_next: "cyc h l xs \<Longrightarrow> lnext h l = hd (xs @ [l])"
  by (cases xs) (auto simp: cyc_def)

lemma linked_snoc: "linked h (xs @ [x, y]) \<longleftrightarrow> linked h (xs @ [x]) \<and> lnext h x = y \<and> lprev h y = x"
  using linked_append [of h xs x "[y]"] by simp

lemma cyc_prev: "cyc h l xs \<Longrightarrow> lprev h l = last (l # xs)"
proof (cases xs rule: rev_cases)
  case (snoc ys y)
  assume "cyc h l xs"
  then have "linked h ((l # ys) @ [y, l])" using snoc by (simp add: cyc_def)
  then have "lprev h l = y" by (subst (asm) linked_snoc) simp
  then show ?thesis using snoc by simp
qed (auto simp: cyc_def)

lemma insert_after_cyc:
  assumes "cyc h l xs" "n \<notin> set (l # xs)"
  shows "cyc (rt_list_insert_after l n h) l (n # xs)"
proof (cases xs)
  case Nil
  then show ?thesis using assms
    by (auto simp: cyc_def rt_list_insert_after_def set_next_def set_prev_def Let_def)
next
  case (Cons x ys)
  let ?h = "rt_list_insert_after l n h"
  have lx: "lnext h l = x" and d: "distinct (l # x # ys)" and lk: "linked h (x # ys @ [l])"
    using assms Cons by (auto simp: cyc_def)
  have n: "n \<noteq> l" "n \<noteq> x" "n \<notin> set ys" using assms Cons by auto
  have "linked ?h (x # ys @ [l])"
    by (rule linked_frame [OF lk])
      (use d n lx in \<open>auto simp: rt_list_insert_after_def set_next_def set_prev_def Let_def butlast_append split: if_splits\<close>)
  moreover have "lnext ?h l = n" "lnext ?h n = x" "lprev ?h n = l" "lprev ?h x = n"
    using d n lx by (auto simp: rt_list_insert_after_def set_next_def set_prev_def Let_def)
  ultimately show ?thesis using d n Cons by (simp add: cyc_def)
qed

lemma insert_after_other:
  "cyc h l xs \<Longrightarrow> a \<notin> set (l # xs) \<Longrightarrow> a \<noteq> n \<Longrightarrow>
   lnext (rt_list_insert_after l n h) a = lnext h a \<and> lprev (rt_list_insert_after l n h) a = lprev h a"
  using cyc_next [of h l xs]
  by (cases xs) (auto simp: rt_list_insert_after_def set_next_def set_prev_def Let_def)

lemma insert_before_eq_after:
  assumes "cyc h l xs" "n \<notin> set (l # xs)"
  shows "rt_list_insert_before l n h = rt_list_insert_after (last (l # xs)) n h"
proof -
  let ?z = "last (l # xs)"
  have p: "lprev h l = ?z" using assms(1) by (rule cyc_prev)
  have q: "lnext h ?z = l"
  proof (cases xs rule: rev_cases)
    case Nil
    then show ?thesis using assms(1) by (simp add: cyc_def)
  next
    case (snoc ys y)
    then have "linked h ((l # ys) @ [y, l])" using assms(1) by (simp add: cyc_def)
    then have "lnext h y = l" by (subst (asm) linked_snoc) simp
    then show ?thesis using snoc by simp
  qed
  have "?z \<in> set (l # xs)" by (rule last_in_set) simp
  then have "?z \<noteq> n" "l \<noteq> n" using assms(2) by auto
  then show ?thesis using p q
    by (auto simp: rt_list_insert_before_def rt_list_insert_after_def set_next_def set_prev_def
        Let_def fun_upd_twist)
qed

lemma insert_before_cyc:
  assumes "cyc h l xs" "n \<notin> set (l # xs)"
  shows "cyc (rt_list_insert_before l n h) l (xs @ [n])"
proof (cases xs rule: rev_cases)
  case Nil
  then show ?thesis using insert_before_eq_after [OF assms] insert_after_cyc [OF assms] by simp
next
  case (snoc ys y)
  then have "cyc h y (l # ys)" using assms(1) cyc_rotate [of h l ys y "[]"] by simp
  then have "cyc (rt_list_insert_after y n h) y (n # l # ys)"
    by (rule insert_after_cyc) (use assms snoc in auto)
  then have "cyc (rt_list_insert_after y n h) l (ys @ [y, n])"
    using cyc_rotate [of _ y "[n]" l ys] by simp
  then show ?thesis using insert_before_eq_after [OF assms] snoc by simp
qed

text \<open>Inserting before a node in the middle of the list, as the priority order of
  \<open>rt_ipc_list_suspend\<close> does.\<close>

lemma insert_before_node_cyc:
  assumes "cyc h l (ys @ m # zs)" "n \<notin> set (l # ys @ m # zs)"
  shows "cyc (rt_list_insert_before m n h) l (ys @ n # m # zs)"
proof -
  have "cyc h m (zs @ l # ys)" using assms(1) by (rule cyc_rotate [THEN iffD1])
  then have "cyc (rt_list_insert_before m n h) m ((zs @ l # ys) @ [n])"
    by (rule insert_before_cyc) (use assms in auto)
  then have "cyc (rt_list_insert_before m n h) m (zs @ l # (ys @ [n]))" by simp
  then have "cyc (rt_list_insert_before m n h) l ((ys @ [n]) @ m # zs)"
    by (rule cyc_rotate [THEN iffD2])
  then show ?thesis by simp
qed

lemma insert_before_other:
  assumes "cyc h l xs" "a \<notin> set (l # xs)" "a \<noteq> n" "n \<notin> set (l # xs)"
  shows "lnext (rt_list_insert_before l n h) a = lnext h a \<and>
    lprev (rt_list_insert_before l n h) a = lprev h a"
proof -
  have "last (l # xs) \<in> set (l # xs)" by (rule last_in_set) simp
  then show ?thesis
    using assms cyc_prev [OF assms(1)]
    by (auto simp: rt_list_insert_before_def set_next_def set_prev_def Let_def)
qed

lemma linked_splice:
  assumes "linked h (zs @ l # ys)" "lnext h (last (l # ys)) = hd (zs @ [l])"
    "lprev h (hd (zs @ [l])) = last (l # ys)"
  shows "linked h (l # ys @ zs @ [l])"
proof -
  have A: "linked h (zs @ [l])" "linked h (l # ys)"
    using assms(1) linked_append [of h zs l ys] by simp_all
  obtain b bs where b: "zs @ [l] = b # bs" by (cases "zs @ [l]") auto
  let ?p = "butlast (l # ys)" and ?z = "last (l # ys)"
  have p: "?p @ [?z] = l # ys" by (rule append_butlast_last_id) simp
  have "linked h (?p @ [?z, b])"
    by (subst linked_snoc) (use A(2) assms(2,3) b p in \<open>simp del: butlast.simps last.simps\<close>)
  moreover have "?p @ [?z, b] = l # ys @ [b]"
    using p by (metis append.assoc append_Cons append_Nil)
  ultimately have "linked h ((l # ys) @ [b])" by (simp only: append_Cons)
  then have "linked h ((l # ys) @ b # bs)"
    using A(1) b linked_append [of h "l # ys" b bs] by simp
  then show ?thesis using b by simp
qed

lemma remove_cyc:
  assumes "cyc h l (ys @ n # zs)"
  shows "cyc (rt_list_remove n h) l (ys @ zs)" "cyc (rt_list_remove n h) n []"
proof -
  let ?h = "rt_list_remove n h"
  have c: "cyc h n (zs @ l # ys)" using assms(1) by (rule cyc_rotate [THEN iffD1])
  have nx: "lnext h n = hd (zs @ [l])" using cyc_next [OF c] by (cases zs) auto
  have pv: "lprev h n = last (l # ys)" using cyc_prev [OF c] by simp
  have d: "distinct (n # zs @ l # ys)" and lk: "linked h (n # zs @ l # ys @ [n])"
    using c by (auto simp: cyc_def)
  have m: "lnext h n \<in> set (zs @ [l])" "lprev h n \<in> set (l # ys)"
    using nx pv last_in_set [of "l # ys"] by (cases zs; simp)+
  have ne: "lnext h n \<noteq> n" "lprev h n \<noteq> n"
    using d m by (metis Un_iff distinct.simps(2) list.set_intros(1) set_ConsD set_append empty_iff empty_set, metis Un_iff distinct.simps(2) set_append)
  have w: "lnext ?h = (lnext h)(lprev h n := lnext h n, n := n)"
       "lprev ?h = (lprev h)(lnext h n := lprev h n, n := n)"
    using ne by (auto simp: rt_list_remove_def set_next_def set_prev_def Let_def)
  have core: "linked h (zs @ l # ys)"
    using linked_prefix [of h "zs @ l # ys" "[n]"] linked_tail [OF lk] by simp
  have "linked ?h (zs @ l # ys)"
  proof (rule linked_frame [OF core])
    fix a assume a: "a \<in> set (butlast (zs @ l # ys))"
    have "distinct (butlast (zs @ l # ys) @ [last (l # ys)])"
      using d append_butlast_last_id [of "zs @ l # ys"] by (simp del: butlast.simps last.simps)
    then have "a \<noteq> last (l # ys)" using a by auto
    moreover have "a \<noteq> n" using in_set_butlastD [OF a] d by auto
    ultimately show "lnext ?h a = lnext h a" using w pv by simp
  next
    fix a assume a: "a \<in> set (tl (zs @ l # ys))"
    then have "a \<noteq> hd (zs @ [l])" "a \<noteq> n" using d by (cases zs; auto)+
    then show "lprev ?h a = lprev h a" using w nx by simp
  qed
  moreover have "lnext ?h (last (l # ys)) = hd (zs @ [l])"
    using w nx pv ne by simp
  moreover have "lprev ?h (hd (zs @ [l])) = last (l # ys)"
    using w nx pv ne by simp
  ultimately have "linked ?h (l # ys @ zs @ [l])" by (rule linked_splice)
  then show "cyc ?h l (ys @ zs)" using d by (auto simp: cyc_def)
  show "cyc ?h n []" using w by (simp add: cyc_Nil)
qed

lemma remove_other:
  assumes "cyc h l (ys @ n # zs)" "a \<notin> set (l # ys @ n # zs)"
  shows "lnext (rt_list_remove n h) a = lnext h a \<and> lprev (rt_list_remove n h) a = lprev h a"
proof -
  have c: "cyc h n (zs @ l # ys)" using assms(1) by (rule cyc_rotate [THEN iffD1])
  have "lnext h n \<in> set (zs @ [l])" using cyc_next [OF c] by (cases zs) auto
  moreover have "lprev h n \<in> set (l # ys)" using cyc_prev [OF c] last_in_set [of "l # ys"] by simp
  moreover have "lnext h n \<noteq> n" "lprev h n \<noteq> n" using c calculation by (auto simp: cyc_def)
  ultimately show ?thesis using assms(2)
    by (auto simp: rt_list_remove_def set_next_def set_prev_def Let_def)
qed

lemma remove_unlinked: "cyc h n [] \<Longrightarrow> rt_list_remove n h = h"
  by (auto simp: cyc_Nil rt_list_remove_def set_next_def set_prev_def Let_def fun_upd_idem)

section \<open>Traversal\<close>

lemma walk_linked:
  "linked h (xs @ [l]) \<Longrightarrow> l \<notin> set xs \<Longrightarrow> rt_list_walk h l (hd (xs @ [l])) = Some xs"
proof (induction xs)
  case (Cons x xs)
  then have "linked h (xs @ [l])" "lnext h x = hd (xs @ [l])" by (cases xs; auto)+
  then show ?case using Cons by (subst rt_list_walk.simps) auto
qed (simp add: rt_list_walk.simps)

lemma for_each_cyc: "cyc h l xs \<Longrightarrow> rt_list_for_each l h = Some xs"
  using walk_linked [of h xs l] cyc_next [of h l xs]
  by (cases xs) (auto simp: rt_list_for_each_def cyc_def)

lemma cyc_unique: "cyc h l xs \<Longrightarrow> cyc h l ys \<Longrightarrow> xs = ys"
  using for_each_cyc by (metis option.inject)

lemma len_from_linked:
  "linked h (p # xs @ [l]) \<Longrightarrow> l \<notin> set xs \<Longrightarrow>
   rt_list_len_from h l p k = Some (k + length xs)"
proof (induction xs arbitrary: p k)
  case (Cons x xs)
  then show ?case by (subst rt_list_len_from.simps) auto
qed (simp add: rt_list_len_from.simps)

lemma len_cyc: "cyc h l xs \<Longrightarrow> rt_list_len l h = Some (length xs)"
  using len_from_linked [of h l xs l 0] by (auto simp: rt_list_len_def cyc_def)

lemma isempty_cyc: "cyc h l xs \<Longrightarrow> rt_list_isempty l h \<longleftrightarrow> xs = []"
  using cyc_next [of h l xs] by (cases xs) (auto simp: rt_list_isempty_def cyc_def)

text \<open>The test of \<open>rt_thread_yield\<close>: the two neighbours of a linked node differ exactly when
  the list holds another node.\<close>

lemma neighbours_differ:
  assumes "cyc h l (ys @ n # zs)"
  shows "lnext h n \<noteq> lprev h n \<longleftrightarrow> length (ys @ n # zs) > 1"
proof -
  have c: "cyc h n (zs @ l # ys)" using assms(1) by (rule cyc_rotate [THEN iffD1])
  have 1: "lnext h n = hd (zs @ [l])" using cyc_next [OF c] by (cases zs) auto
  have 2: "lprev h n = last (l # ys)" using cyc_prev [OF c] by simp
  have d: "distinct (n # zs @ l # ys)" using c by (simp add: cyc_def)
  show ?thesis
  proof (cases zs)
    case Nil
    then show ?thesis using 1 2 d by (cases ys rule: rev_cases) auto
  next
    case (Cons z zs')
    have "last (l # ys) \<in> set (l # ys)" by (rule last_in_set) simp
    then have "z \<noteq> last (l # ys)" using d Cons by auto
    then show ?thesis using 1 2 Cons by simp
  qed
qed

section \<open>Families of lists over one set of nodes\<close>

text \<open>The interface. \<open>lists s q\<close> are the nodes linked at head \<open>q\<close>; a node joins a list only when no
  list holds it. The object containers need \<open>push_front\<close> and \<open>unlink\<close> only; the thread lists also
  insert at the tail and before another node.\<close>

locale linked_lists =
  fixes lists :: "'s \<Rightarrow> 'q \<Rightarrow> 'n list"
    and ok :: "'s \<Rightarrow> bool"
    and push_front :: "'q \<Rightarrow> 'n \<Rightarrow> 's \<Rightarrow> 's"
    and unlink :: "'n \<Rightarrow> 's \<Rightarrow> 's"
  assumes lists_push_front: "ok s \<Longrightarrow> (\<And>p. n \<notin> set (lists s p)) \<Longrightarrow>
      lists (push_front q n s) = (lists s)(q := n # lists s q) \<and> ok (push_front q n s)"
    and lists_unlink: "ok s \<Longrightarrow> lists (unlink n s) = (\<lambda>q. removeAll n (lists s q)) \<and> ok (unlink n s)"
    and lists_exclusive: "ok s \<Longrightarrow> distinct (lists s q) \<and>
      (n \<in> set (lists s q) \<longrightarrow> n \<in> set (lists s p) \<longrightarrow> p = q)"
begin

lemma unlink_unlinks: "ok s \<Longrightarrow> n \<notin> set (lists (unlink n s) q)"
  by (simp add: lists_unlink)

lemma unlink_ok: "ok s \<Longrightarrow> ok (unlink n s)"
  by (simp add: lists_unlink)

lemma unlink_other: "ok s \<Longrightarrow> n \<notin> set (lists s q) \<Longrightarrow> lists (unlink n s) q = lists s q"
  by (simp add: lists_unlink)

lemma move_front_ok: "ok s \<Longrightarrow> ok (push_front q n (unlink n s))"
  using lists_push_front [of "unlink n s" n q] by (simp add: unlink_ok unlink_unlinks)

lemma unlink_push_front:
  assumes "ok s" "\<And>p. n \<notin> set (lists s p)"
  shows "lists (unlink n (push_front q n s)) = lists s"
  using lists_push_front [OF assms, of q] lists_unlink [of "push_front q n s" n] assms(2)
  by (auto simp: fun_eq_iff)

end

locale list_family = linked_lists lists ok push_front unlink
  for lists :: "'s \<Rightarrow> 'q \<Rightarrow> 'n list" and ok push_front unlink +
  fixes push_back :: "'q \<Rightarrow> 'n \<Rightarrow> 's \<Rightarrow> 's"
    and push_before :: "'n \<Rightarrow> 'n \<Rightarrow> 's \<Rightarrow> 's"
  assumes lists_push_back: "ok s \<Longrightarrow> (\<And>p. n \<notin> set (lists s p)) \<Longrightarrow>
      lists (push_back q n s) = (lists s)(q := lists s q @ [n]) \<and> ok (push_back q n s)"
    and lists_push_before: "ok s \<Longrightarrow> (\<And>p. n \<notin> set (lists s p)) \<Longrightarrow>
      lists s q = ys @ m # zs \<Longrightarrow>
      lists (push_before m n s) = (lists s)(q := ys @ n # m # zs) \<and> ok (push_before m n s)"
begin

text \<open>Moving a node, as \<open>rt_thread_resume\<close> and \<open>rt_thread_yield\<close> do: wherever it was, it ends at the
  tail of the target list and nowhere else.\<close>

lemma move_back:
  assumes "ok s"
  shows "lists (push_back q n (unlink n s)) =
    (\<lambda>p. removeAll n (lists s p) @ (if p = q then [n] else []))"
  using lists_push_back [of "unlink n s" n q] lists_unlink [OF assms, of n] unlink_unlinks [OF assms]
  by (auto simp: fun_eq_iff)

lemma move_back_ok: "ok s \<Longrightarrow> ok (push_back q n (unlink n s))"
  using lists_push_back [of "unlink n s" n q] by (simp add: unlink_ok unlink_unlinks)

lemma move_back_mem:
  "ok s \<Longrightarrow> m \<in> set (lists (push_back q n (unlink n s)) p) \<longleftrightarrow>
    (if m = n then p = q else m \<in> set (lists s p))"
  by (auto simp: move_back)

end

section \<open>The pointer heap is such a family\<close>

datatype ('q, 'n) list_node = Head 'q | Node 'n

definition heap_lists :: "('q, 'n) list_node list_heap \<Rightarrow> 'q \<Rightarrow> 'n list" where
  "heap_lists h q = (case rt_list_for_each (Head q) h of None \<Rightarrow> []
     | Some ns \<Rightarrow> concat (map (\<lambda>x. case x of Node n \<Rightarrow> [n] | Head _ \<Rightarrow> []) ns))"

definition heap_rep :: "('q, 'n) list_node list_heap \<Rightarrow> ('q \<Rightarrow> 'n list) \<Rightarrow> bool" where
  "heap_rep h L \<longleftrightarrow> (\<forall>q. cyc h (Head q) (map Node (L q))) \<and>
     (\<forall>n. (\<forall>q. n \<notin> set (L q)) \<longrightarrow> cyc h (Node n) []) \<and>
     (\<forall>p q n. n \<in> set (L p) \<longrightarrow> n \<in> set (L q) \<longrightarrow> p = q)"

definition heap_ok :: "('q, 'n) list_node list_heap \<Rightarrow> bool" where
  "heap_ok h \<longleftrightarrow> (\<exists>L. heap_rep h L)"

lemma concat_nodes [simp]:
  "concat (map ((\<lambda>x. case x of Node n \<Rightarrow> [n] | Head _ \<Rightarrow> []) \<circ> Node) xs) = xs"
  by (induction xs) auto

lemma heap_rep_lists: "heap_rep h L \<Longrightarrow> heap_lists h = L"
proof
  fix q assume "heap_rep h L"
  then have "rt_list_for_each (Head q) h = Some (map Node (L q))"
    by (simp add: heap_rep_def for_each_cyc)
  then show "heap_lists h q = L q" by (simp add: heap_lists_def)
qed

lemma heap_ok_rep: "heap_ok h \<Longrightarrow> heap_rep h (heap_lists h)"
  by (auto simp: heap_ok_def heap_rep_lists)

lemma heap_rep_distinct: "heap_rep h L \<Longrightarrow> distinct (L q)"
  by (auto simp: heap_rep_def cyc_def distinct_map)

text \<open>One rule for all three insertions: a heap that links the grown list at \<open>q\<close> and differs from the
  old one only on \<open>q\<close>'s own cells and on the new node represents the updated family.\<close>

lemma heap_rep_insert:
  fixes h h' :: "('q, 'n) list_node list_heap"
  assumes r: "heap_rep h L" and n: "\<And>p. n \<notin> set (L p)"
    and c: "cyc h' (Head q) (map Node xs)" and xs: "set xs = insert n (set (L q))"
    and o: "\<And>a. a \<notin> set (Head q # map Node (L q)) \<Longrightarrow> a \<noteq> Node n \<Longrightarrow>
      lnext h' a = lnext h a \<and> lprev h' a = lprev h a"
  shows "heap_rep h' (L(q := xs))"
proof -
  have "cyc h' (Head p) (map Node ((L(q := xs)) p))" for p
  proof (cases "p = q")
    case False
    have "cyc h' (Head p) (map Node (L p))"
  proof (rule cyc_frame [of h])
    show "cyc h (Head p) (map Node (L p))" using r by (simp add: heap_rep_def)
    fix a :: "('q, 'n) list_node" assume "a \<in> set (Head p # map Node (L p))"
    then show "lnext h' a = lnext h a \<and> lprev h' a = lprev h a"
      using r False n by (intro o) (auto simp: heap_rep_def)
  qed
    then show ?thesis using False by simp
  qed (simp add: c)
  moreover have "cyc h' (Node m) []" if "\<And>p. m \<notin> set ((L(q := xs)) p)" for m
  proof (rule cyc_frame [of h])
    have m: "m \<noteq> n" "m \<notin> set (L p)" for p
      using that [of q] that [of p] xs by (auto split: if_splits)
    then show "cyc h (Node m) []" using r by (simp add: heap_rep_def)
    fix a :: "('q, 'n) list_node" assume "a \<in> set [Node m]"
    then show "lnext h' a = lnext h a \<and> lprev h' a = lprev h a"
      using m by (intro o) auto
  qed
  moreover have "p = p'" if "m \<in> set ((L(q := xs)) p)" "m \<in> set ((L(q := xs)) p')" for m p p'
    using that xs n r unfolding heap_rep_def by (metis fun_upd_apply insert_iff)
  ultimately show ?thesis unfolding heap_rep_def by blast
qed

lemma heap_push_back:
  assumes "heap_rep h L" "\<And>p. n \<notin> set (L p)"
  shows "heap_rep (rt_list_insert_before (Head q) (Node n) h) (L(q := L q @ [n]))"
proof (rule heap_rep_insert [OF assms])
  have c: "cyc h (Head q) (map Node (L q))" using assms(1) by (simp add: heap_rep_def)
  have n: "Node n \<notin> set (Head q # map Node (L q))" using assms(2) by auto
  show "cyc (rt_list_insert_before (Head q) (Node n) h) (Head q) (map Node (L q @ [n]))"
    using insert_before_cyc [OF c n] by simp
  show "lnext (rt_list_insert_before (Head q) (Node n) h) a = lnext h a \<and>
      lprev (rt_list_insert_before (Head q) (Node n) h) a = lprev h a"
    if "a \<notin> set (Head q # map Node (L q))" "a \<noteq> Node n" for a
    using insert_before_other [OF c that n] .
qed auto

lemma heap_push_front:
  assumes "heap_rep h L" "\<And>p. n \<notin> set (L p)"
  shows "heap_rep (rt_list_insert_after (Head q) (Node n) h) (L(q := n # L q))"
proof (rule heap_rep_insert [OF assms])
  have c: "cyc h (Head q) (map Node (L q))" using assms(1) by (simp add: heap_rep_def)
  have n: "Node n \<notin> set (Head q # map Node (L q))" using assms(2) by auto
  show "cyc (rt_list_insert_after (Head q) (Node n) h) (Head q) (map Node (n # L q))"
    using insert_after_cyc [OF c n] by simp
  show "lnext (rt_list_insert_after (Head q) (Node n) h) a = lnext h a \<and>
      lprev (rt_list_insert_after (Head q) (Node n) h) a = lprev h a"
    if "a \<notin> set (Head q # map Node (L q))" "a \<noteq> Node n" for a
    using insert_after_other [OF c that] .
qed auto

lemma heap_push_before:
  assumes "heap_rep h L" "\<And>p. n \<notin> set (L p)" "L q = ys @ m # zs"
  shows "heap_rep (rt_list_insert_before (Node m) (Node n) h) (L(q := ys @ n # m # zs))"
proof (rule heap_rep_insert [OF assms(1,2)])
  have c: "cyc h (Head q) (map Node ys @ Node m # map Node zs)"
    using assms(1,3) by (auto simp: heap_rep_def dest!: spec [of _ q])
  have n: "Node n \<notin> set (Head q # map Node ys @ Node m # map Node zs)"
    using assms(2) [of q] assms(3) by auto
  show "cyc (rt_list_insert_before (Node m) (Node n) h) (Head q) (map Node (ys @ n # m # zs))"
    using insert_before_node_cyc [OF c n] by simp
  have c': "cyc h (Node m) (map Node zs @ Head q # map Node ys)"
    using c by (rule cyc_rotate [THEN iffD1])
  show "lnext (rt_list_insert_before (Node m) (Node n) h) a = lnext h a \<and>
      lprev (rt_list_insert_before (Node m) (Node n) h) a = lprev h a"
    if "a \<notin> set (Head q # map Node (L q))" "a \<noteq> Node n" for a
    by (rule insert_before_other [OF c']) (use that n assms(3) in auto)
qed (use assms(3) in auto)

lemma heap_unlink:
  fixes h :: "('q, 'n) list_node list_heap"
  assumes r: "heap_rep h L"
  shows "heap_rep (rt_list_remove (Node n) h) (\<lambda>q. removeAll n (L q))"
proof (cases "\<exists>q. n \<in> set (L q)")
  case False
  then have "cyc h (Node n) []" using r by (simp add: heap_rep_def)
  then show ?thesis using False r by (simp add: remove_unlinked)
next
  case True
  then obtain q ys zs where q: "L q = ys @ n # zs" by (meson split_list)
  let ?h = "rt_list_remove (Node n) h"
  have c: "cyc h (Head q) (map Node ys @ Node n # map Node zs)"
    using r q by (auto simp: heap_rep_def dest!: spec [of _ q])
  have dq: "distinct (ys @ n # zs)" using heap_rep_distinct [OF r, of q] q by simp
  have rest: "n \<notin> set (L p)" if "p \<noteq> q" for p
    using r that q unfolding heap_rep_def by (metis in_set_conv_decomp)
  have o: "lnext ?h a = lnext h a \<and> lprev ?h a = lprev h a"
    if "a \<notin> set (Head q # map Node (L q))" for a :: "('q, 'n) list_node"
    by (rule remove_other [OF c]) (use that q in auto)
  have "cyc ?h (Head p) (map Node (removeAll n (L p)))" for p
  proof (cases "p = q")
    case True
    then show ?thesis using remove_cyc(1) [OF c] dq q by simp
  next
    case False
    have "cyc ?h (Head p) (map Node (L p))"
    proof (rule cyc_frame [of h])
      show "cyc h (Head p) (map Node (L p))" using r by (simp add: heap_rep_def)
      fix a :: "('q, 'n) list_node" assume "a \<in> set (Head p # map Node (L p))"
      then show "lnext ?h a = lnext h a \<and> lprev ?h a = lprev h a"
        using False r by (intro o) (auto simp: heap_rep_def)
    qed
    then show ?thesis using rest False by simp
  qed
  moreover have "cyc ?h (Node m) []" if "\<And>p. m \<notin> set (removeAll n (L p))" for m
  proof (cases "m = n")
    case True
    then show ?thesis using remove_cyc(2) [OF c] by simp
  next
    case False
    then have m: "m \<notin> set (L p)" for p using that [of p] by simp
    show ?thesis
    proof (rule cyc_frame [of h])
      show "cyc h (Node m) []" using r m by (simp add: heap_rep_def)
      fix a :: "('q, 'n) list_node" assume "a \<in> set [Node m]"
      then show "lnext ?h a = lnext h a \<and> lprev ?h a = lprev h a" using m by (intro o) auto
    qed
  qed
  moreover have "p = p'" if "m \<in> set (removeAll n (L p))" "m \<in> set (removeAll n (L p'))" for m p p'
    using that r by (auto simp: heap_rep_def)
  ultimately show ?thesis unfolding heap_rep_def by blast
qed

interpretation heap: list_family heap_lists heap_ok
  "\<lambda>q n. rt_list_insert_after (Head q) (Node n)" "\<lambda>n. rt_list_remove (Node n)"
  "\<lambda>q n. rt_list_insert_before (Head q) (Node n)" "\<lambda>m n. rt_list_insert_before (Node m) (Node n)"
proof (unfold_locales, goal_cases)
  case (1 s n q)
  then show ?case using heap_push_front [OF heap_ok_rep] heap_rep_lists heap_ok_def by metis
next
  case (2 s n)
  then show ?case using heap_unlink [OF heap_ok_rep] heap_rep_lists heap_ok_def by metis
next
  case (3 s q n p)
  then show ?case using heap_ok_rep heap_rep_distinct unfolding heap_rep_def by metis
next
  case (4 s n q)
  then show ?case using heap_push_back [OF heap_ok_rep] heap_rep_lists heap_ok_def by metis
next
  case (5 s n q ys m zs)
  then show ?case using heap_push_before [OF heap_ok_rep] heap_rep_lists heap_ok_def by metis
qed

end
