(* ===== verification/Kernel_State.thy ===== *)
theory Kernel_State
  imports Rt_List
begin

text \<open>
  The data of the kernel: the structures of \<^verbatim>\<open>rt-thread/include/rtdef.h\<close> as records and the global
  variables of \<^verbatim>\<open>scheduler.c\<close>, \<^verbatim>\<open>timer.c\<close>, \<^verbatim>\<open>clock.c\<close>, \<^verbatim>\<open>irq.c\<close> and \<^verbatim>\<open>object.c\<close> as one state record
  \<open>kern\<close>, in the configuration of \<^verbatim>\<open>project/nbiot_demo/rtconfig.h\<close> (256 priorities, overflow check,
  soft timers, \<open>RT_DEBUG\<close>; no modules, signals or lightweight processes). Hook pointers are unset,
  as at boot.

  Addresses: a thread is named by a number; an object header by an \<open>oref\<close>, which also names the
  timer embedded in a thread. A list head that links \<open>tlist\<close> nodes is an \<open>lhead\<close>; the lists
  themselves are HOL lists, justified by the theory \<open>Rt_List\<close>, whose locale is interpreted here.
\<close>

section \<open>Structures\<close>

type_synonym tid = nat

datatype oref = Obj nat | TimerOf tid

record rt_object =
  obj_name :: string
  obj_type :: u8
  obj_flag :: u8

abbreviation (input) RT_Object_Class_Thread :: u8 where "RT_Object_Class_Thread \<equiv> 1"
abbreviation (input) RT_Object_Class_Semaphore :: u8 where "RT_Object_Class_Semaphore \<equiv> 2"
abbreviation (input) RT_Object_Class_Mutex :: u8 where "RT_Object_Class_Mutex \<equiv> 3"
abbreviation (input) RT_Object_Class_Event :: u8 where "RT_Object_Class_Event \<equiv> 4"
abbreviation (input) RT_Object_Class_MailBox :: u8 where "RT_Object_Class_MailBox \<equiv> 5"
abbreviation (input) RT_Object_Class_MessageQueue :: u8 where "RT_Object_Class_MessageQueue \<equiv> 6"
abbreviation (input) RT_Object_Class_MemHeap :: u8 where "RT_Object_Class_MemHeap \<equiv> 7"
abbreviation (input) RT_Object_Class_MemPool :: u8 where "RT_Object_Class_MemPool \<equiv> 8"
abbreviation (input) RT_Object_Class_Device :: u8 where "RT_Object_Class_Device \<equiv> 9"
abbreviation (input) RT_Object_Class_Timer :: u8 where "RT_Object_Class_Timer \<equiv> 10"
abbreviation (input) RT_Object_Class_Module :: u8 where "RT_Object_Class_Module \<equiv> 11"
abbreviation (input) RT_Object_Class_Unknown :: u8 where "RT_Object_Class_Unknown \<equiv> 12"
abbreviation (input) RT_Object_Class_Static :: u8 where "RT_Object_Class_Static \<equiv> 0x80"

abbreviation (input) RT_TIMER_FLAG_ACTIVATED :: u8 where "RT_TIMER_FLAG_ACTIVATED \<equiv> 1"
abbreviation (input) RT_TIMER_FLAG_ONE_SHOT :: u8 where "RT_TIMER_FLAG_ONE_SHOT \<equiv> 0"
abbreviation (input) RT_TIMER_FLAG_PERIODIC :: u8 where "RT_TIMER_FLAG_PERIODIC \<equiv> 2"
abbreviation (input) RT_TIMER_FLAG_SOFT_TIMER :: u8 where "RT_TIMER_FLAG_SOFT_TIMER \<equiv> 4"

abbreviation (input) RT_THREAD_INIT :: u8 where "RT_THREAD_INIT \<equiv> 0"
abbreviation (input) RT_THREAD_READY :: u8 where "RT_THREAD_READY \<equiv> 1"
abbreviation (input) RT_THREAD_SUSPEND :: u8 where "RT_THREAD_SUSPEND \<equiv> 2"
abbreviation (input) RT_THREAD_CLOSE :: u8 where "RT_THREAD_CLOSE \<equiv> 4"
abbreviation (input) RT_THREAD_STAT_MASK :: u8 where "RT_THREAD_STAT_MASK \<equiv> 0x0f"

abbreviation (input) RT_IPC_FLAG_FIFO :: u8 where "RT_IPC_FLAG_FIFO \<equiv> 0"
abbreviation (input) RT_IPC_FLAG_PRIO :: u8 where "RT_IPC_FLAG_PRIO \<equiv> 1"

abbreviation (input) RT_THREAD_PRIORITY_MAX :: nat where "RT_THREAD_PRIORITY_MAX \<equiv> 256"

text \<open>A timer's timeout function with its parameter: the built-in timer of a thread calls
  \<open>rt_thread_timeout\<close>; any other function belongs to the application.\<close>

datatype timeout_func = Thread_timeout tid | User_timeout nat

record rt_timer =
  tm_func :: timeout_func
  tm_init_tick :: u32
  tm_timeout_tick :: u32

text \<open>\<open>th_stack_magic\<close> is the byte at the lowest stack address, which the overflow check reads;
  \<open>th_cleanup\<close> says whether the cleanup pointer is set.\<close>

record rt_thread =
  th_sp :: u32
  th_entry :: u32
  th_parameter :: u32
  th_stack_addr :: u32
  th_stack_size :: u32
  th_stack_magic :: u8
  th_error :: rt_err_t
  th_stat :: u8
  th_current_priority :: u8
  th_init_priority :: u8
  th_number :: u8
  th_high_mask :: u8
  th_number_mask :: u32
  th_event_set :: u32
  th_event_info :: u8
  th_init_tick :: u32
  th_remaining_tick :: u32
  th_cleanup :: bool
  th_user_data :: u32

text \<open>The heads of lists of threads: \<open>rt_thread_priority_table\<close>, \<open>rt_thread_defunct\<close>, the
  \<open>suspend_thread\<close> list of an IPC object, the second list of a mailbox.\<close>

datatype lhead = ReadyQ nat | DefunctQ | SuspendQ oref | SenderQ oref

record kern =
  objs :: "oref \<Rightarrow> rt_object"
  containers :: "u8 \<Rightarrow> oref list"
  thr :: "tid \<Rightarrow> rt_thread"
  tmr :: "oref \<Rightarrow> rt_timer"
  queues :: "lhead \<Rightarrow> tid list"
  ready_group :: u32
  ready_table :: "nat \<Rightarrow> u8"
  current :: "tid option"
  cur_prio :: u8
  lock_nest :: "16 word"
  irq_nest :: u8
  tick :: u32
  timer_list :: "oref list"
  soft_timer_list :: "oref list"

abbreviation (input) upd_thr :: "tid \<Rightarrow> (rt_thread \<Rightarrow> rt_thread) \<Rightarrow> kern \<Rightarrow> kern" where
  "upd_thr t f s \<equiv> s\<lparr>thr := (thr s)(t := f (thr s t))\<rparr>"

abbreviation (input) upd_obj :: "oref \<Rightarrow> (rt_object \<Rightarrow> rt_object) \<Rightarrow> kern \<Rightarrow> kern" where
  "upd_obj r f s \<equiv> s\<lparr>objs := (objs s)(r := f (objs s r))\<rparr>"

abbreviation (input) upd_tmr :: "oref \<Rightarrow> (rt_timer \<Rightarrow> rt_timer) \<Rightarrow> kern \<Rightarrow> kern" where
  "upd_tmr r f s \<equiv> s\<lparr>tmr := (tmr s)(r := f (tmr s r))\<rparr>"

text \<open>\<open>RT_ASSERT\<close>: the handler never returns.\<close>

definition RT_ASSERT :: "bool \<Rightarrow> unit option" where
  "RT_ASSERT b = (if b then Some () else None)"

lemma RT_ASSERT_iff [simp]: "RT_ASSERT b = Some u \<longleftrightarrow> b"
  by (simp add: RT_ASSERT_def)

lemma RT_ASSERT_True [simp]: "RT_ASSERT True = Some ()"
  by (simp add: RT_ASSERT_def)

lemma RT_ASSERT_False [simp]: "RT_ASSERT False = None"
  by (simp add: RT_ASSERT_def)

text \<open>The context checks of \<^verbatim>\<open>rtdebug.h\<close> (\<open>RT_DEBUG_CONTEXT_CHECK\<close> is 1).\<close>

definition RT_DEBUG_NOT_IN_INTERRUPT :: "kern \<Rightarrow> unit option" where
  "RT_DEBUG_NOT_IN_INTERRUPT s = RT_ASSERT (irq_nest s = 0)"

definition RT_DEBUG_IN_THREAD_CONTEXT :: "kern \<Rightarrow> unit option" where
  "RT_DEBUG_IN_THREAD_CONTEXT s = do {
     RT_ASSERT (current s \<noteq> None);
     RT_DEBUG_NOT_IN_INTERRUPT s }"

lemma not_in_interrupt_iff [simp]: "RT_DEBUG_NOT_IN_INTERRUPT s = Some u \<longleftrightarrow> irq_nest s = 0"
  by (simp add: RT_DEBUG_NOT_IN_INTERRUPT_def)

lemma in_thread_context_iff [simp]:
  "RT_DEBUG_IN_THREAD_CONTEXT s = Some u \<longleftrightarrow> current s \<noteq> None \<and> irq_nest s = 0"
  by (auto simp: RT_DEBUG_IN_THREAD_CONTEXT_def Some_bind_iff)

abbreviation (input) rt_thread_self :: "kern \<Rightarrow> tid option" where
  "rt_thread_self s \<equiv> current s"

abbreviation (input) thread_stat :: "kern \<Rightarrow> tid \<Rightarrow> u8" where
  "thread_stat s t \<equiv> th_stat (thr s t) AND RT_THREAD_STAT_MASK"

section \<open>The thread lists\<close>

fun insert_before_elem :: "'a \<Rightarrow> 'a \<Rightarrow> 'a list \<Rightarrow> 'a list" where
  "insert_before_elem m n [] = []"
| "insert_before_elem m n (x # xs) = (if x = m then n # x # xs else x # insert_before_elem m n xs)"

definition tlist_remove :: "tid \<Rightarrow> kern \<Rightarrow> kern" where
  "tlist_remove t s = s\<lparr>queues := (\<lambda>q. removeAll t (queues s q))\<rparr>"

definition tlist_insert_before :: "lhead \<Rightarrow> tid \<Rightarrow> kern \<Rightarrow> kern" where
  "tlist_insert_before q t s = s\<lparr>queues := (queues s)(q := queues s q @ [t])\<rparr>"

definition tlist_insert_after :: "lhead \<Rightarrow> tid \<Rightarrow> kern \<Rightarrow> kern" where
  "tlist_insert_after q t s = s\<lparr>queues := (queues s)(q := t # queues s q)\<rparr>"

definition tlist_insert_before_thread :: "tid \<Rightarrow> tid \<Rightarrow> kern \<Rightarrow> kern" where
  "tlist_insert_before_thread m t s = s\<lparr>queues := (\<lambda>q. insert_before_elem m t (queues s q))\<rparr>"

lemmas tlist_defs [kdefs] = tlist_remove_def tlist_insert_before_def tlist_insert_after_def
  tlist_insert_before_thread_def

definition lists_ok :: "kern \<Rightarrow> bool" where
  "lists_ok s \<longleftrightarrow> (\<forall>q. distinct (queues s q)) \<and>
     (\<forall>p q t. t \<in> set (queues s p) \<longrightarrow> t \<in> set (queues s q) \<longrightarrow> p = q)"

lemma lists_ok_cong: "queues a = queues b \<Longrightarrow> lists_ok a = lists_ok b"
  by (simp add: lists_ok_def)

lemma insert_before_elem_notin [simp]: "m \<notin> set xs \<Longrightarrow> insert_before_elem m n xs = xs"
  by (induction xs) auto

lemma insert_before_elem_split [simp]:
  "m \<notin> set ys \<Longrightarrow> insert_before_elem m n (ys @ m # zs) = ys @ n # m # zs"
  by (induction ys) auto

lemma set_insert_before_elem:
  "set (insert_before_elem m n xs) = (if m \<in> set xs then insert n (set xs) else set xs)"
  by (induction xs) auto

lemma distinct_insert_before_elem:
  "distinct xs \<Longrightarrow> n \<notin> set xs \<Longrightarrow> distinct (insert_before_elem m n xs)"
  by (induction xs) (auto simp: set_insert_before_elem)

lemma insert_before_elem_nonempty [simp]: "insert_before_elem m n xs = [] \<longleftrightarrow> xs = []"
  by (cases xs) auto

lemma lists_ok_unlinked_insert:
  assumes "lists_ok s" "\<And>p. t \<notin> set (queues s p)"
    "queues s' = (queues s)(q := xs)" "set xs = insert t (set (queues s q))" "distinct xs"
  shows "lists_ok s'"
  using assms unfolding lists_ok_def by (metis fun_upd_apply insert_iff)

interpretation kq: list_family queues lists_ok tlist_insert_after tlist_remove
  tlist_insert_before tlist_insert_before_thread
proof (unfold_locales, goal_cases)
  case (1 s n q)
  have "lists_ok (tlist_insert_after q n s)"
    by (rule lists_ok_unlinked_insert [OF 1])
      (use 1 in \<open>auto simp: kdefs lists_ok_def\<close>)
  then show ?case by (simp add: kdefs)
next
  case (2 s n)
  then show ?case by (auto simp: kdefs lists_ok_def distinct_removeAll)
next
  case (3 s q n p)
  then show ?case unfolding lists_ok_def by blast
next
  case (4 s n q)
  have "lists_ok (tlist_insert_before q n s)"
    by (rule lists_ok_unlinked_insert [OF 4])
      (use 4 in \<open>auto simp: kdefs lists_ok_def\<close>)
  then show ?case by (simp add: kdefs)
next
  case (5 s n q ys m zs)
  have m: "m \<in> set (queues s q)" "m \<notin> set ys" using 5 unfolding lists_ok_def
    by (auto dest!: spec [of _ q])
  then have o: "m \<notin> set (queues s p)" if "p \<noteq> q" for p
    using 5(1) that unfolding lists_ok_def by blast
  have eq: "queues (tlist_insert_before_thread m n s) = (queues s)(q := ys @ n # m # zs)"
    using o m 5(3) by (auto simp: kdefs fun_eq_iff)
  have "lists_ok (tlist_insert_before_thread m n s)"
    by (rule lists_ok_unlinked_insert [OF 5(1,2) eq])
      (use 5(1,3) 5(2) [of q] in \<open>auto simp: lists_ok_def dest!: spec [of _ q]\<close>)
  then show ?case using eq by simp
qed

end
