(* ===== verification/Bitmap.thy ===== *)
theory Bitmap
  imports Prelude
begin

text \<open>
  The find-first-set function \<open>__rt_ffs\<close> of \<^verbatim>\<open>rt-thread/src/kservice.c\<close> with its lookup table
  (\<open>RT_USING_CPU_FFS\<close> is not configured), and its specification: one more than the index of the
  lowest set bit. The scheduler turns its ready bitmap into a priority with it.
\<close>

definition lowest_bit_bitmap :: "nat list" where
  "lowest_bit_bitmap = [
     0, 0, 1, 0, 2, 0, 1, 0, 3, 0, 1, 0, 2, 0, 1, 0,
     4, 0, 1, 0, 2, 0, 1, 0, 3, 0, 1, 0, 2, 0, 1, 0,
     5, 0, 1, 0, 2, 0, 1, 0, 3, 0, 1, 0, 2, 0, 1, 0,
     4, 0, 1, 0, 2, 0, 1, 0, 3, 0, 1, 0, 2, 0, 1, 0,
     6, 0, 1, 0, 2, 0, 1, 0, 3, 0, 1, 0, 2, 0, 1, 0,
     4, 0, 1, 0, 2, 0, 1, 0, 3, 0, 1, 0, 2, 0, 1, 0,
     5, 0, 1, 0, 2, 0, 1, 0, 3, 0, 1, 0, 2, 0, 1, 0,
     4, 0, 1, 0, 2, 0, 1, 0, 3, 0, 1, 0, 2, 0, 1, 0,
     7, 0, 1, 0, 2, 0, 1, 0, 3, 0, 1, 0, 2, 0, 1, 0,
     4, 0, 1, 0, 2, 0, 1, 0, 3, 0, 1, 0, 2, 0, 1, 0,
     5, 0, 1, 0, 2, 0, 1, 0, 3, 0, 1, 0, 2, 0, 1, 0,
     4, 0, 1, 0, 2, 0, 1, 0, 3, 0, 1, 0, 2, 0, 1, 0,
     6, 0, 1, 0, 2, 0, 1, 0, 3, 0, 1, 0, 2, 0, 1, 0,
     4, 0, 1, 0, 2, 0, 1, 0, 3, 0, 1, 0, 2, 0, 1, 0,
     5, 0, 1, 0, 2, 0, 1, 0, 3, 0, 1, 0, 2, 0, 1, 0,
     4, 0, 1, 0, 2, 0, 1, 0, 3, 0, 1, 0, 2, 0, 1, 0]"

definition rt_ffs :: "u32 \<Rightarrow> nat" where
  "rt_ffs value =
     (if value = 0 then 0
      else if value AND 0xff \<noteq> 0 then lowest_bit_bitmap ! unat (value AND 0xff) + 1
      else if value AND 0xff00 \<noteq> 0
        then lowest_bit_bitmap ! unat (drop_bit 8 (value AND 0xff00)) + 9
      else if value AND 0xff0000 \<noteq> 0
        then lowest_bit_bitmap ! unat (drop_bit 16 (value AND 0xff0000)) + 17
      else lowest_bit_bitmap ! unat (drop_bit 24 (value AND 0xff000000)) + 25)"

definition is_lowest_bit :: "'a :: len word \<Rightarrow> nat \<Rightarrow> bool" where
  "is_lowest_bit w k \<longleftrightarrow> bit w k \<and> (\<forall>i < k. \<not> bit w i)"

text \<open>The table, checked entry by entry.\<close>

fun table_from :: "nat \<Rightarrow> nat list \<Rightarrow> bool" where
  "table_from n [] = True"
| "table_from n (k # ks) =
     ((n = 0 \<or> k < 8 \<and> odd (n div 2 ^ k) \<and> n mod 2 ^ k = 0) \<and> table_from (n + 1) ks)"

lemma table_ok: "table_from 0 lowest_bit_bitmap"
  by (simp add: lowest_bit_bitmap_def)

lemma table_length: "length lowest_bit_bitmap = 256"
  by (simp add: lowest_bit_bitmap_def)

lemma table_from_nth:
  "table_from n ks \<Longrightarrow> i < length ks \<Longrightarrow> 0 < n + i \<Longrightarrow>
   ks ! i < 8 \<and> odd ((n + i) div 2 ^ (ks ! i)) \<and> (n + i) mod 2 ^ (ks ! i) = 0"
proof (induction n ks arbitrary: i rule: table_from.induct)
  case (2 n k ks)
  then show ?case by (cases i) auto
qed simp

lemma table_lowest:
  assumes "0 < n" "n < 256"
  shows "bit n (lowest_bit_bitmap ! n)" "i < lowest_bit_bitmap ! n \<Longrightarrow> \<not> bit n i"
    "lowest_bit_bitmap ! n < 8"
proof -
  have h: "lowest_bit_bitmap ! n < 8 \<and> odd (n div 2 ^ (lowest_bit_bitmap ! n)) \<and>
     n mod 2 ^ (lowest_bit_bitmap ! n) = 0"
    using table_from_nth [OF table_ok, of n] assms by (simp add: table_length)
  then show "bit n (lowest_bit_bitmap ! n)" "lowest_bit_bitmap ! n < 8"
    by (simp_all add: bit_iff_odd)
  have "take_bit (lowest_bit_bitmap ! n) n = 0" using h by (simp add: take_bit_eq_mod)
  then show "\<not> bit n i" if "i < lowest_bit_bitmap ! n"
    using that by (metis bit_0_eq bit_take_bit_iff bot_apply bot_bool_def)
qed

text \<open>One byte of the word, cut out by a mask and a shift.\<close>

lemma byte_lowest:
  fixes v :: u32
  assumes nz: "b \<noteq> 0" and lt: "unat b < 256"
    and b: "\<And>i. bit b i \<longleftrightarrow> i < 8 \<and> bit v (i + k)" and low: "\<And>i. i < k \<Longrightarrow> \<not> bit v i"
  shows "is_lowest_bit v (lowest_bit_bitmap ! unat (b :: u32) + k)"
proof -
  let ?t = "lowest_bit_bitmap ! unat b"
  have "0 < unat b" using nz by (simp add: unat_gt_0)
  note t = table_lowest [OF this lt]
  have bits: "bit (unat b) i \<longleftrightarrow> bit b i" for i
    by (auto simp: bit_unsigned_iff dest: bit_imp_le_length)
  have "bit v (?t + k)" using t(1) b bits by simp
  moreover have "\<not> bit v i" if "i < ?t + k" for i
  proof (cases "i < k")
    case False
    then have "i - k < ?t" using that by simp
    then show ?thesis using t(2) [of "i - k"] t(3) b [of "i - k"] bits False by auto
  qed (simp add: low)
  ultimately show ?thesis by (simp add: is_lowest_bit_def)
qed

lemma mask_bytes:
  "(0xff :: u32) = drop_bit 0 (mask 8)" "(0xff00 :: u32) = push_bit 8 (mask 8)"
  "(0xff0000 :: u32) = push_bit 16 (mask 8)" "(0xff000000 :: u32) = push_bit 24 (mask 8)"
  by (simp_all add: mask_eq_exp_minus_1)

lemma mask_byte:
  assumes "k \<in> {0, 8, 16, 24 :: nat}"
  shows "bit (drop_bit k ((v :: u32) AND push_bit k (mask 8))) i \<longleftrightarrow> i < 8 \<and> bit v (i + k)"
  using assms by (auto simp: bit_simps add.commute dest: bit_imp_le_length)

lemma byte_lt: 
  assumes "\<And>i. bit (b :: u32) i \<Longrightarrow> i < 8"
  shows "unat b < 256"
proof -
  have "take_bit 8 b = b" using assms by (auto intro!: bit_word_eqI simp: bit_simps)
  then have "take_bit 8 (unat b) = unat b" by (metis unsigned_take_bit_eq)
  then have "unat b < 2 ^ 8" by (simp only: take_bit_nat_eq_self_iff)
  then show ?thesis by simp
qed

lemma byte_zero:
  assumes "v AND push_bit k (mask 8) = 0" "k \<in> {0, 8, 16, 24 :: nat}" "k \<le> i" "i < k + 8"
  shows "\<not> bit (v :: u32) i"
  using mask_byte [of k v "i - k"] assms by auto

lemma byte_nonzero:
  assumes "v AND push_bit k (mask 8) \<noteq> 0" "k \<in> {0, 8, 16, 24 :: nat}"
  shows "drop_bit k ((v :: u32) AND push_bit k (mask 8)) \<noteq> 0"
proof -
  obtain i where i: "bit (v AND push_bit k (mask 8)) i"
    using assms(1) by (auto simp: bit_eq_iff)
  then have "k \<le> i" by (auto simp: bit_simps)
  then have "bit (drop_bit k (v AND push_bit k (mask 8))) (i - k)"
    using i by (simp only: bit_drop_bit_eq o_def le_add_diff_inverse2 le_add_diff_inverse)
  then show ?thesis by auto
qed

lemma rt_ffs_masks:
  "rt_ffs value =
     (let b = \<lambda>k. value AND push_bit k (mask 8);
          t = \<lambda>k. lowest_bit_bitmap ! unat (drop_bit k (b k)) + k + 1
      in if value = 0 then 0 else if b 0 \<noteq> 0 then t 0 else if b 8 \<noteq> 0 then t 8
         else if b 16 \<noteq> 0 then t 16 else t 24)"
  unfolding rt_ffs_def Let_def mask_bytes by simp

text \<open>The specification of \<open>__rt_ffs\<close>.\<close>

lemma rt_ffs_zero [simp]: "rt_ffs 0 = 0"
  by (simp add: rt_ffs_def)

lemma rt_ffs_pos: "v \<noteq> 0 \<Longrightarrow> 0 < rt_ffs v"
  by (simp add: rt_ffs_def)

lemma byte_case:
  assumes "v AND push_bit k (mask 8) \<noteq> 0" "k \<in> {0, 8, 16, 24 :: nat}"
    "\<And>i. i < k \<Longrightarrow> \<not> bit (v :: u32) i"
  shows "is_lowest_bit v (lowest_bit_bitmap ! unat (drop_bit k (v AND push_bit k (mask 8))) + k)"
  by (rule byte_lowest [OF byte_nonzero [OF assms(1,2)]])
    (use mask_byte [OF assms(2), of v] assms(3) in \<open>auto intro: byte_lt\<close>)

lemma rt_ffs_lowest:
  assumes "v \<noteq> 0"
  shows "is_lowest_bit v (rt_ffs v - 1)"
proof -
  let ?z = "\<lambda>k. v AND push_bit k (mask 8) = 0"
  have b0: "\<not> bit v i" if "?z 0" "i < 8" for i using byte_zero [of v 0 i] that by simp
  have b8: "\<not> bit v i" if "?z 0" "?z 8" "i < 16" for i
    using byte_zero [of v 8 i] b0 that by (cases "i < 8") auto
  have b16: "\<not> bit v i" if "?z 0" "?z 8" "?z 16" "i < 24" for i
    using byte_zero [of v 16 i] b8 that by (cases "i < 16") auto
  have b24: "\<not> ?z 24" if "?z 0" "?z 8" "?z 16"
  proof
    assume "?z 24"
    then have "\<not> bit v i" if "i < 32" for i
      using byte_zero [of v 24 i] b16 that \<open>?z 0\<close> \<open>?z 8\<close> \<open>?z 16\<close> by (cases "i < 24") auto
    then show False using assms by (auto simp: bit_eq_iff dest: bit_imp_le_length)
  qed
  consider "\<not> ?z 0" | "?z 0" "\<not> ?z 8" | "?z 0" "?z 8" "\<not> ?z 16" | "?z 0" "?z 8" "?z 16"
    by blast
  then show ?thesis
  proof cases
    case 1
    then show ?thesis using assms byte_case [of v 0] by (simp add: rt_ffs_masks add.commute)
  next
    case 2
    then show ?thesis using assms byte_case [of v 8] b0 by (simp add: rt_ffs_masks add.commute)
  next
    case 3
    then show ?thesis using assms byte_case [of v 16] b8 by (simp add: rt_ffs_masks add.commute)
  next
    case 4
    then show ?thesis using assms byte_case [of v 24] b16 b24 by (simp add: rt_ffs_masks add.commute)
  qed
qed

lemma is_lowest_bit_unique: "is_lowest_bit w i \<Longrightarrow> is_lowest_bit w j \<Longrightarrow> i = j"
  unfolding is_lowest_bit_def by (metis linorder_neqE_nat)

lemma rt_ffs_eq: "is_lowest_bit v k \<Longrightarrow> rt_ffs v = k + 1"
proof -
  assume k: "is_lowest_bit v k"
  then have "v \<noteq> 0" by (auto simp: is_lowest_bit_def)
  then show ?thesis using is_lowest_bit_unique [OF k rt_ffs_lowest] rt_ffs_pos [of v] by simp
qed

end
