(* ===== verification/Scheduler.thy ===== *)
theory Scheduler
  imports Kernel_State Bitmap
begin

text \<open>
  \<^verbatim>\<open>rt-thread/src/scheduler.c\<close>: the 256 ready queues, the two-level ready bitmap, the choice of the
  next thread and the scheduler lock. Interrupt masking is the atomicity of a definition; a context
  switch is the change of \<open>current\<close>.

  The lemmas show that the bitmap mirrors the ready queues (\<open>bitmap_ok\<close>) under insertion and removal,
  and that \<open>rt_schedule\<close> picks the first thread of the most urgent non-empty queue.
\<close>

section \<open>The code\<close>

text \<open>\<open>_rt_scheduler_stack_check\<close>: true when the code does not spin. The stack grows downwards.\<close>

definition rt_scheduler_stack_check :: "rt_thread \<Rightarrow> bool" where
  "rt_scheduler_stack_check th \<longleftrightarrow>
     \<not> (th_stack_magic th \<noteq> 0x23 \<or>
        th_sp th \<le> th_stack_addr th \<or>
        th_sp th > th_stack_addr th + th_stack_size th)"

definition rt_system_scheduler_init :: "kern \<Rightarrow> kern" where
  "rt_system_scheduler_init s = s\<lparr>
     lock_nest := 0,
     queues := (\<lambda>q. case q of ReadyQ p \<Rightarrow> if p < RT_THREAD_PRIORITY_MAX then [] else queues s q
                 | DefunctQ \<Rightarrow> [] | _ \<Rightarrow> queues s q),
     cur_prio := 255,
     current := None,
     ready_group := 0,
     ready_table := (\<lambda>i. if i < 32 then 0 else ready_table s i)\<rparr>"

text \<open>The two lookups shared by \<open>rt_system_scheduler_start\<close> and \<open>rt_schedule\<close>: the most urgent
  priority with its bit set, then the first thread of its queue. With an empty bitmap the code would
  index far outside its tables; with an empty queue it would read the list head as a thread.\<close>

definition highest_ready_priority :: "kern \<Rightarrow> nat option" where
  "highest_ready_priority s =
     (if ready_group s = 0 then None
      else let number = rt_ffs (ready_group s) - 1;
               tb = ready_table s number
           in if tb = 0 \<and> number = 0 then None
              else Some (number * 8 + rt_ffs (ucast tb) - 1))"

definition highest_ready_thread :: "kern \<Rightarrow> (nat \<times> tid) option" where
  "highest_ready_thread s = do {
     p \<leftarrow> highest_ready_priority s;
     case queues s (ReadyQ p) of [] \<Rightarrow> None | to_thread # _ \<Rightarrow> Some (p, to_thread) }"

definition rt_system_scheduler_start :: "kern \<Rightarrow> kern option" where
  "rt_system_scheduler_start s = do {
     (_, to_thread) \<leftarrow> highest_ready_thread s;
     Some (s\<lparr>current := Some to_thread\<rparr>) }"

definition rt_schedule :: "kern \<Rightarrow> kern option" where
  "rt_schedule s =
     (if lock_nest s = 0 then do {
        (p, to_thread) \<leftarrow> highest_ready_thread s;
        if Some to_thread \<noteq> current s then do {
          RT_ASSERT (current s \<noteq> None);
          RT_ASSERT (rt_scheduler_stack_check (thr s to_thread));
          Some (s\<lparr>cur_prio := of_nat p, current := Some to_thread\<rparr>) }
        else Some s }
      else Some s)"

definition rt_schedule_insert_thread :: "tid \<Rightarrow> kern \<Rightarrow> kern" where
  "rt_schedule_insert_thread t s =
     (let s1 = upd_thr t (\<lambda>th. th\<lparr>th_stat :=
                 RT_THREAD_READY OR (th_stat th AND NOT RT_THREAD_STAT_MASK)\<rparr>) s;
          th = thr s1 t;
          s2 = tlist_insert_before (ReadyQ (unat (th_current_priority th))) t s1;
          n = unat (th_number th)
      in s2\<lparr>ready_table := (ready_table s2)(n := ready_table s2 n OR th_high_mask th),
            ready_group := ready_group s2 OR th_number_mask th\<rparr>)"

definition rt_schedule_remove_thread :: "tid \<Rightarrow> kern \<Rightarrow> kern" where
  "rt_schedule_remove_thread t s =
     (let s1 = tlist_remove t s;
          th = thr s1 t;
          n = unat (th_number th)
      in if queues s1 (ReadyQ (unat (th_current_priority th))) = [] then
           (let s2 = s1\<lparr>ready_table := (ready_table s1)(n := ready_table s1 n AND NOT (th_high_mask th))\<rparr>
            in if ready_table s2 n = 0
               then s2\<lparr>ready_group := ready_group s2 AND NOT (th_number_mask th)\<rparr>
               else s2)
         else s1)"

definition rt_enter_critical :: "kern \<Rightarrow> kern" where
  "rt_enter_critical s = s\<lparr>lock_nest := lock_nest s + 1\<rparr>"

definition rt_exit_critical :: "kern \<Rightarrow> kern option" where
  "rt_exit_critical s =
     (let n = lock_nest s - 1
      in if sint n \<le> 0 then
           (let s1 = s\<lparr>lock_nest := 0\<rparr>
            in if current s1 \<noteq> None then rt_schedule s1 else Some s1)
         else Some (s\<lparr>lock_nest := n\<rparr>))"

definition rt_critical_level :: "kern \<Rightarrow> 16 word" where
  "rt_critical_level s = lock_nest s"

section \<open>The priority attributes of a thread\<close>

text \<open>What \<open>rt_thread_startup\<close> and \<open>rt_thread_control\<close> compute from the priority.\<close>

definition set_prio_attr :: "rt_thread \<Rightarrow> rt_thread" where
  "set_prio_attr th = (let n = drop_bit 3 (th_current_priority th) in
     th\<lparr>th_number := n, th_number_mask := push_bit (unat n) 1,
        th_high_mask := push_bit (unat (th_current_priority th AND 7)) 1\<rparr>)"

definition prio_ok :: "rt_thread \<Rightarrow> bool" where
  "prio_ok th \<longleftrightarrow> unat (th_number th) = unat (th_current_priority th) div 8 \<and>
     th_number_mask th = push_bit (unat (th_current_priority th) div 8) 1 \<and>
     th_high_mask th = push_bit (unat (th_current_priority th) mod 8) 1"

lemma unat_and_7: "unat (p AND 7 :: u8) = unat p mod 8"
proof -
  have "p AND 7 = take_bit 3 p" by (simp add: take_bit_eq_mask mask_eq_exp_minus_1)
  then have "unat (p AND 7) = take_bit 3 (unat p)" by (simp only: unsigned_take_bit_eq)
  then show ?thesis by (simp add: take_bit_eq_mod)
qed

lemma unat_shift_3: "unat (drop_bit 3 p :: u8) = unat p div 8"
  by (simp only: unat_drop_bit_eq) (simp add: drop_bit_eq_div)

lemma set_prio_attr_ok: "prio_ok (set_prio_attr th)"
  by (simp add: prio_ok_def set_prio_attr_def Let_def unat_and_7 unat_shift_3)

lemma set_prio_attr_simps [simp]:
  "th_current_priority (set_prio_attr th) = th_current_priority th"
  "th_init_priority (set_prio_attr th) = th_init_priority th"
  "th_stat (set_prio_attr th) = th_stat th" "th_error (set_prio_attr th) = th_error th"
  "rt_scheduler_stack_check (set_prio_attr th) = rt_scheduler_stack_check th"
  by (simp_all add: set_prio_attr_def Let_def rt_scheduler_stack_check_def)

lemma prio_ok_cong:
  "th_number a = th_number b \<Longrightarrow> th_number_mask a = th_number_mask b \<Longrightarrow>
   th_high_mask a = th_high_mask b \<Longrightarrow> th_current_priority a = th_current_priority b \<Longrightarrow>
   prio_ok a = prio_ok b"
  by (simp add: prio_ok_def)

lemma prio_ok_upd [simp]:
  "prio_ok (th\<lparr>th_stat := x\<rparr>) = prio_ok th" "prio_ok (th\<lparr>th_error := e\<rparr>) = prio_ok th"
  "prio_ok (th\<lparr>th_remaining_tick := k\<rparr>) = prio_ok th"
  "prio_ok (th\<lparr>th_event_set := y\<rparr>) = prio_ok th" "prio_ok (th\<lparr>th_event_info := z\<rparr>) = prio_ok th"
  by (simp_all add: prio_ok_def)

lemma stat_ready_mask [simp]:
  "(RT_THREAD_READY OR (w AND NOT RT_THREAD_STAT_MASK)) AND RT_THREAD_STAT_MASK = RT_THREAD_READY"
  "(RT_THREAD_SUSPEND OR (w AND NOT RT_THREAD_STAT_MASK)) AND RT_THREAD_STAT_MASK = RT_THREAD_SUSPEND"
  by (simp_all add: bit.conj_disj_distrib2 and.assoc)

section \<open>Bitmap and ready queues\<close>

definition queue_prio_ok :: "kern \<Rightarrow> bool" where
  "queue_prio_ok s \<longleftrightarrow> (\<forall>p t. t \<in> set (queues s (ReadyQ p)) \<longrightarrow>
     p = unat (th_current_priority (thr s t)) \<and> prio_ok (thr s t))"

definition bitmap_ok :: "kern \<Rightarrow> bool" where
  "bitmap_ok s \<longleftrightarrow>
     (\<forall>n < 32. \<forall>b < 8. bit (ready_table s n) b \<longleftrightarrow> queues s (ReadyQ (8 * n + b)) \<noteq> []) \<and>
     (\<forall>n < 32. bit (ready_group s) n \<longleftrightarrow> ready_table s n \<noteq> 0)"

lemma prio_lt: "unat (p :: u8) < 256"
  using unsigned_less [where w = p and ?'a = nat] by simp

lemma split_by_8: "(i :: nat) < 8 \<Longrightarrow> 8 * n + i = p \<longleftrightarrow> n = p div 8 \<and> i = p mod 8"
  by auto

lemma bitmap_insert:
  assumes b: "bitmap_ok s" and p: "p < 256"
    and q: "\<And>k. queues s' (ReadyQ k) \<noteq> [] \<longleftrightarrow> k = p \<or> queues s (ReadyQ k) \<noteq> []"
    and t: "ready_table s' = (ready_table s)(p div 8 := ready_table s (p div 8) OR push_bit (p mod 8) 1)"
    and g: "ready_group s' = ready_group s OR push_bit (p div 8) 1"
  shows "bitmap_ok s'"
proof -
  have 1: "bit (ready_table s' n) i \<longleftrightarrow> queues s' (ReadyQ (8 * n + i)) \<noteq> []" if "n < 32" "i < 8" for n i
  proof -
    have "8 * n + i = p \<longleftrightarrow> n = p div 8 \<and> i = p mod 8" using that(2) by (rule split_by_8)
    moreover have "bit (ready_table s n) i \<longleftrightarrow> queues s (ReadyQ (8 * n + i)) \<noteq> []"
      using b that by (simp add: bitmap_ok_def)
    ultimately show ?thesis using t q by (auto simp: bitsimps)
  qed
  have ne: "ready_table s n OR push_bit (p mod 8) 1 \<noteq> 0" for n
  proof -
    have "bit (ready_table s n OR push_bit (p mod 8) 1) (p mod 8)" by (simp add: bitsimps)
    then show ?thesis by auto
  qed
  have 2: "bit (ready_group s' ) n \<longleftrightarrow> ready_table s' n \<noteq> 0" if "n < 32" for n
  proof (cases "n = p div 8")
    case True
    then show ?thesis using that t g ne [of n] by (simp add: bitsimps)
  next
    case False
    have "bit (ready_group s) n \<longleftrightarrow> ready_table s n \<noteq> 0" using b that unfolding bitmap_ok_def by blast
    then show ?thesis using False that t g by (simp add: bitsimps)
  qed
  show ?thesis using 1 2 by (simp add: bitmap_ok_def)
qed

lemma bitmap_remove:
  assumes b: "bitmap_ok s" and p: "p < 256"
    and q: "\<And>k. k \<noteq> p \<Longrightarrow> queues s' (ReadyQ k) = queues s (ReadyQ k)"
    and e: "queues s' (ReadyQ p) = []"
    and t: "ready_table s' = (ready_table s)(p div 8 := ready_table s (p div 8) AND NOT (push_bit (p mod 8) 1))"
    and g: "ready_group s' = (if ready_table s' (p div 8) = 0
              then ready_group s AND NOT (push_bit (p div 8) 1) else ready_group s)"
  shows "bitmap_ok s'"
proof -
  have 1: "bit (ready_table s' n) i \<longleftrightarrow> queues s' (ReadyQ (8 * n + i)) \<noteq> []" if "n < 32" "i < 8" for n i
  proof -
    have "8 * n + i = p \<longleftrightarrow> n = p div 8 \<and> i = p mod 8" using that(2) by (rule split_by_8)
    moreover have "bit (ready_table s n) i \<longleftrightarrow> queues s (ReadyQ (8 * n + i)) \<noteq> []"
      using b that by (simp add: bitmap_ok_def)
    ultimately show ?thesis using t q e by (cases "8 * n + i = p") (auto simp: bitsimps)
  qed
  have 2: "bit (ready_group s') n \<longleftrightarrow> ready_table s' n \<noteq> 0" if n: "n < 32" for n
  proof (cases "n = p div 8")
    case False
    moreover have "bit (ready_group s) n \<longleftrightarrow> ready_table s n \<noteq> 0" using b n unfolding bitmap_ok_def by blast
    ultimately show ?thesis using t g by (simp add: bitsimps)
  next
    case True
    show ?thesis
    proof (cases "ready_table s' (p div 8) = 0")
      case False
      then have "ready_table s n \<noteq> 0" using t True by auto
      moreover have "bit (ready_group s) n \<longleftrightarrow> ready_table s n \<noteq> 0" using b n unfolding bitmap_ok_def by blast
      ultimately show ?thesis using True False g by simp
    qed (use True g in \<open>simp add: bitsimps\<close>)
  qed
  show ?thesis using 1 2 by (simp add: bitmap_ok_def)
qed

lemma bitmap_same:
  assumes "bitmap_ok s" "\<And>k. queues s' (ReadyQ k) = [] \<longleftrightarrow> queues s (ReadyQ k) = []"
    "ready_table s' = ready_table s" "ready_group s' = ready_group s"
  shows "bitmap_ok s'"
  using assms by (simp add: bitmap_ok_def)

section \<open>The most urgent ready thread\<close>

lemma highest_ready_spec:
  assumes b: "bitmap_ok s"
  shows "highest_ready_priority s = Some p \<longleftrightarrow>
    p < 256 \<and> queues s (ReadyQ p) \<noteq> [] \<and> (\<forall>k < p. queues s (ReadyQ k) = [])"
    (is "_ \<longleftrightarrow> ?least p")
proof -
  have uniq: "p = q" if "?least p" "?least q" for p q
    using that by (metis linorder_neqE_nat)
  have tab: "bit (ready_table s n) i \<longleftrightarrow> queues s (ReadyQ (8 * n + i)) \<noteq> []" if "n < 32" "i < 8" for n i
    using b that by (simp add: bitmap_ok_def)
  have grp: "bit (ready_group s) n \<longleftrightarrow> ready_table s n \<noteq> 0" if "n < 32" for n
    using b that by (simp add: bitmap_ok_def)
  show ?thesis
  proof (cases "ready_group s = 0")
    case True
    have "queues s (ReadyQ p) = []" if "p < 256" for p
    proof -
      have "ready_table s (p div 8) = 0" using grp [of "p div 8"] that True by auto
      then show ?thesis using tab [of "p div 8" "p mod 8"] that by auto
    qed
    then show ?thesis using True by (auto simp: highest_ready_priority_def)
  next
    case False
    define n where "n = rt_ffs (ready_group s) - 1"
    have ln: "is_lowest_bit (ready_group s) n" using rt_ffs_lowest [OF False] by (simp add: n_def)
    then have n32: "n < 32" using bit_imp_le_length [of "ready_group s" n] by (simp add: is_lowest_bit_def)
    have tn: "ready_table s n \<noteq> 0" using ln grp [OF n32] by (simp add: is_lowest_bit_def)
    then obtain j where "bit (ready_table s n) j" by (auto simp: bit_eq_iff)
    then have "bit (ucast (ready_table s n) :: u32) j"
      by (auto simp: bit_ucast_iff dest: bit_imp_le_length)
    then have "(ucast (ready_table s n) :: u32) \<noteq> 0" by auto
    note f = rt_ffs_lowest [OF this] rt_ffs_pos [OF this]
    define i where "i = rt_ffs (ucast (ready_table s n)) - 1"
    have li: "is_lowest_bit (ucast (ready_table s n) :: u32) i" using f(1) by (simp add: i_def)
    then have bi: "bit (ready_table s n) i" "\<And>j. j < i \<Longrightarrow> \<not> bit (ready_table s n) j"
      by (auto simp: is_lowest_bit_def bit_ucast_iff dest: bit_imp_le_length)
    then have i8: "i < 8" using bit_imp_le_length [of "ready_table s n" i] by simp
    have hp: "highest_ready_priority s = Some (8 * n + i)"
      using False tn f(2) unfolding highest_ready_priority_def Let_def n_def [symmetric] i_def by simp
    have "?least (8 * n + i)"
    proof (intro conjI allI impI)
      show "8 * n + i < 256" using n32 i8 by simp
      show "queues s (ReadyQ (8 * n + i)) \<noteq> []" using tab [OF n32 i8] bi(1) by simp
      fix k assume k: "k < 8 * n + i"
      then have k8: "k div 8 < 32" using n32 i8 by simp
      have "8 * (k div 8) + k mod 8 = k" by simp
      then have tk: "bit (ready_table s (k div 8)) (k mod 8) \<longleftrightarrow> queues s (ReadyQ k) \<noteq> []"
        using tab [of "k div 8" "k mod 8"] k8 by simp
      show "queues s (ReadyQ k) = []"
      proof (cases "k div 8 = n")
        case True
        then have "k mod 8 < i" using k by presburger
        then show ?thesis using bi(2) tk True by simp
      next
        case False
        then have "k div 8 < n" using k i8 by presburger
        then have "ready_table s (k div 8) = 0" using ln grp [OF k8] by (auto simp: is_lowest_bit_def)
        then show ?thesis using tk by simp
      qed
    qed
    then show ?thesis using hp uniq by auto
  qed
qed

lemma highest_ready_thread_spec:
  assumes "bitmap_ok s"
  shows "highest_ready_thread s = Some (p, t) \<longleftrightarrow>
    p < 256 \<and> (\<exists>ts. queues s (ReadyQ p) = t # ts) \<and> (\<forall>k < p. queues s (ReadyQ k) = [])"
proof -
  have "highest_ready_thread s = Some (p, t) \<longleftrightarrow>
      highest_ready_priority s = Some p \<and> (\<exists>ts. queues s (ReadyQ p) = t # ts)"
    unfolding highest_ready_thread_def Some_bind_iff by (fastforce split: list.splits)
  then show ?thesis using highest_ready_spec [OF assms, of p] by auto
qed

lemma highest_ready_exists:
  assumes "bitmap_ok s" "u \<in> set (queues s (ReadyQ k))" "k < 256"
  shows "\<exists>p t. highest_ready_thread s = Some (p, t) \<and> p \<le> k"
proof -
  define p where "p = (LEAST i. queues s (ReadyQ i) \<noteq> [])"
  have k: "queues s (ReadyQ k) \<noteq> []" using assms(2) by auto
  then have p: "queues s (ReadyQ p) \<noteq> []" "p \<le> k" unfolding p_def by (rule LeastI, rule Least_le)
  moreover have "\<forall>i < p. queues s (ReadyQ i) = []"
    unfolding p_def using not_less_Least by blast
  moreover obtain t ts where "queues s (ReadyQ p) = t # ts" using p(1) by (cases "queues s (ReadyQ p)") auto
  ultimately show ?thesis using assms(3)
    by (intro exI [of _ p] exI [of _ t]) (simp add: highest_ready_thread_spec [OF assms(1)])
qed

section \<open>Effect of insertion, removal and scheduling\<close>

text \<open>Fields other than the ready structures and the state byte of the thread do not change.\<close>

lemma insert_thread_frame [simp]:
  "objs (rt_schedule_insert_thread t s) = objs s"
  "containers (rt_schedule_insert_thread t s) = containers s"
  "tmr (rt_schedule_insert_thread t s) = tmr s"
  "current (rt_schedule_insert_thread t s) = current s"
  "lock_nest (rt_schedule_insert_thread t s) = lock_nest s"
  "irq_nest (rt_schedule_insert_thread t s) = irq_nest s"
  "tick (rt_schedule_insert_thread t s) = tick s"
  "timer_list (rt_schedule_insert_thread t s) = timer_list s"
  "soft_timer_list (rt_schedule_insert_thread t s) = soft_timer_list s"
  "thr (rt_schedule_insert_thread t s) = (thr s)(t := (thr s t)\<lparr>th_stat :=
     RT_THREAD_READY OR (th_stat (thr s t) AND NOT RT_THREAD_STAT_MASK)\<rparr>)"
  "queues (rt_schedule_insert_thread t s) = (let q = ReadyQ (unat (th_current_priority (thr s t)))
     in (queues s)(q := queues s q @ [t]))"
  by (simp_all add: rt_schedule_insert_thread_def Let_def kdefs)

lemma remove_thread_frame [simp]:
  "objs (rt_schedule_remove_thread t s) = objs s"
  "containers (rt_schedule_remove_thread t s) = containers s"
  "tmr (rt_schedule_remove_thread t s) = tmr s"
  "current (rt_schedule_remove_thread t s) = current s"
  "lock_nest (rt_schedule_remove_thread t s) = lock_nest s"
  "irq_nest (rt_schedule_remove_thread t s) = irq_nest s"
  "tick (rt_schedule_remove_thread t s) = tick s"
  "timer_list (rt_schedule_remove_thread t s) = timer_list s"
  "soft_timer_list (rt_schedule_remove_thread t s) = soft_timer_list s"
  "thr (rt_schedule_remove_thread t s) = thr s"
  "queues (rt_schedule_remove_thread t s) = (\<lambda>q. removeAll t (queues s q))"
  by (simp_all add: rt_schedule_remove_thread_def Let_def kdefs)

lemma insert_thread_bitmap:
  assumes "bitmap_ok s" "prio_ok (thr s t)"
  shows "bitmap_ok (rt_schedule_insert_thread t s)"
proof (rule bitmap_insert [OF assms(1)])
  let ?p = "unat (th_current_priority (thr s t))"
  show "?p < 256" by (rule prio_lt)
  show "queues (rt_schedule_insert_thread t s) (ReadyQ k) \<noteq> [] \<longleftrightarrow>
      k = ?p \<or> queues s (ReadyQ k) \<noteq> []" for k
    by (simp add: Let_def)
  show "ready_table (rt_schedule_insert_thread t s) = (ready_table s)(?p div 8 :=
      ready_table s (?p div 8) OR push_bit (?p mod 8) 1)"
    "ready_group (rt_schedule_insert_thread t s) = ready_group s OR push_bit (?p div 8) 1"
    using assms(2) by (simp_all add: rt_schedule_insert_thread_def Let_def kdefs prio_ok_def)
qed

lemma remove_thread_bitmap:
  assumes "bitmap_ok s" "prio_ok (thr s t)"
    "\<And>k. k \<noteq> unat (th_current_priority (thr s t)) \<Longrightarrow> t \<notin> set (queues s (ReadyQ k))"
  shows "bitmap_ok (rt_schedule_remove_thread t s)"
proof -
  let ?p = "unat (th_current_priority (thr s t))" and ?s = "rt_schedule_remove_thread t s"
  have other: "queues ?s (ReadyQ k) = queues s (ReadyQ k)" if "k \<noteq> ?p" for k
    using assms(3) [OF that] by simp
  show ?thesis
  proof (cases "queues ?s (ReadyQ ?p) = []")
    case True
    then have e: "removeAll t (queues s (ReadyQ ?p)) = []" by simp
    show ?thesis
    proof (rule bitmap_remove [OF assms(1) prio_lt other True])
      show "ready_table ?s = (ready_table s)(?p div 8 :=
          ready_table s (?p div 8) AND NOT (push_bit (?p mod 8) 1))"
        "ready_group ?s = (if ready_table ?s (?p div 8) = 0
          then ready_group s AND NOT (push_bit (?p div 8) 1) else ready_group s)"
        using assms(2) e
        by (simp_all add: rt_schedule_remove_thread_def Let_def kdefs prio_ok_def)
    qed
  next
    case False
    then have e: "removeAll t (queues s (ReadyQ ?p)) \<noteq> []" by simp
    show ?thesis
    proof (rule bitmap_same [OF assms(1)])
      show "queues ?s (ReadyQ k) = [] \<longleftrightarrow> queues s (ReadyQ k) = []" for k
        using other [of k] False by (cases "k = ?p") auto
      show "ready_table ?s = ready_table s" "ready_group ?s = ready_group s"
        using e by (simp_all add: rt_schedule_remove_thread_def Let_def kdefs)
    qed
  qed
qed

lemma insert_thread_lists:
  "lists_ok s \<Longrightarrow> (\<And>q. t \<notin> set (queues s q)) \<Longrightarrow> lists_ok (rt_schedule_insert_thread t s)"
  by (rule lists_ok_unlinked_insert [where t = t and q = "ReadyQ (unat (th_current_priority (thr s t)))"])
    (auto simp: Let_def lists_ok_def)

lemma remove_thread_lists: "lists_ok s \<Longrightarrow> lists_ok (rt_schedule_remove_thread t s)"
  by (auto simp: lists_ok_def distinct_removeAll)

lemma rt_schedule_cases:
  assumes "rt_schedule s = Some s'"
  obtains (locked) "lock_nest s \<noteq> 0" "s' = s"
  | (same) p t where "lock_nest s = 0" "highest_ready_thread s = Some (p, t)" "current s = Some t" "s' = s"
  | (switch) p t where "lock_nest s = 0" "highest_ready_thread s = Some (p, t)" "current s \<noteq> Some t"
      "current s \<noteq> None" "rt_scheduler_stack_check (thr s t)"
      "s' = s\<lparr>cur_prio := of_nat p, current := Some t\<rparr>"
proof (cases "lock_nest s = 0")
  case True
  obtain p t where h: "highest_ready_thread s = Some (p, t)"
    using assms True by (cases "highest_ready_thread s") (auto simp: rt_schedule_def)
  show ?thesis
  proof (cases "current s = Some t")
    case True
    then show ?thesis using same [OF \<open>lock_nest s = 0\<close> h] assms h \<open>lock_nest s = 0\<close>
      by (simp add: rt_schedule_def)
  next
    case False
    then have "Some t \<noteq> current s" by simp
    then have "current s \<noteq> None \<and> rt_scheduler_stack_check (thr s t) \<and>
      s' = s\<lparr>cur_prio := of_nat p, current := Some t\<rparr>"
      using assms h True by (simp add: rt_schedule_def Some_bind_iff split: if_splits)
    then show ?thesis using switch [OF True h False] by simp
  qed
next
  case False
  then have "s' = s" using assms by (simp add: rt_schedule_def)
  then show ?thesis by (rule locked [OF False])
qed

lemma rt_schedule_frame:
  assumes "rt_schedule s = Some s'"
  shows "\<exists>p c. s' = s\<lparr>cur_prio := p, current := c\<rparr>"
proof -
  have "s = s\<lparr>cur_prio := cur_prio s, current := current s\<rparr>" by simp
  then show ?thesis using rt_schedule_cases [OF assms, of "\<exists>p c. s' = s\<lparr>cur_prio := p, current := c\<rparr>"]
    by metis
qed

text \<open>After an unlocked \<open>rt_schedule\<close> the running thread is the first of the most urgent queue.\<close>

lemma rt_schedule_picks:
  assumes "bitmap_ok s" "rt_schedule s = Some s'" "lock_nest s = 0"
  obtains p t ts where "current s' = Some t" "p < 256" "queues s (ReadyQ p) = t # ts"
    "\<And>k. k < p \<Longrightarrow> queues s (ReadyQ k) = []"
  using assms(2)
proof (cases rule: rt_schedule_cases)
  case locked
  then show ?thesis using assms(3) by simp
next
  case (same p t)
  then show ?thesis using that highest_ready_thread_spec [OF assms(1), of p t] by blast
next
  case (switch p t)
  then show ?thesis using that [of t p] highest_ready_thread_spec [OF assms(1), of p t] by auto
qed

text \<open>\<open>rt_schedule\<close> returns whenever some thread is ready and no ready thread has overflowed its stack.\<close>

definition stacks_ok :: "kern \<Rightarrow> bool" where
  "stacks_ok s \<longleftrightarrow> (\<forall>p t. t \<in> set (queues s (ReadyQ p)) \<longrightarrow> rt_scheduler_stack_check (thr s t))"

lemma rt_schedule_returns:
  assumes "bitmap_ok s" "stacks_ok s" "u \<in> set (queues s (ReadyQ k))" "k < 256" "current s \<noteq> None"
  obtains s' where "rt_schedule s = Some s'"
proof -
  obtain p t where pt: "highest_ready_thread s = Some (p, t)"
    using highest_ready_exists [OF assms(1,3,4)] by blast
  then have "t \<in> set (queues s (ReadyQ p))"
    using highest_ready_thread_spec [OF assms(1), of p t] by auto
  then have "rt_scheduler_stack_check (thr s t)" using assms(2) by (auto simp: stacks_ok_def)
  then have "rt_schedule s \<noteq> None" using pt assms(5) by (simp add: rt_schedule_def)
  then show ?thesis using that by blast
qed

end
