(* ===== verification/Kernel_Object.thy ===== *)
theory Kernel_Object
  imports Scheduler
begin

text \<open>
  \<^verbatim>\<open>rt-thread/src/object.c\<close>: the object containers (one list of object headers per class), and the
  registration, removal and search of objects. An object's memory comes from \<open>RT_KERNEL_MALLOC\<close>;
  the dynamic variants take the allocator and the sizes of the structures (a matter of the ABI) as
  arguments. A name is the characters before the terminating zero, at most \<open>RT_NAME_MAX\<close> of them.

  The containers are a second instance of the list interface; the lemmas show that each object is
  registered at most once, under the class its header names.
\<close>

section \<open>The code\<close>

text \<open>The classes of \<open>rt_object_container\<close> in this configuration, in its order.\<close>

definition rt_object_container :: "u8 list" where
  "rt_object_container =
     [RT_Object_Class_Thread, RT_Object_Class_Semaphore, RT_Object_Class_Mutex,
      RT_Object_Class_Event, RT_Object_Class_MailBox, RT_Object_Class_MessageQueue,
      RT_Object_Class_MemHeap, RT_Object_Class_MemPool, RT_Object_Class_Device,
      RT_Object_Class_Timer]"

definition rt_object_get_information :: "u8 \<Rightarrow> u8 option" where
  "rt_object_get_information type = List.find (\<lambda>c. c = type) rt_object_container"

definition rt_name :: "string \<Rightarrow> string" where
  "rt_name name = take RT_NAME_MAX name"

definition container_insert_after :: "u8 \<Rightarrow> oref \<Rightarrow> kern \<Rightarrow> kern" where
  "container_insert_after c r s = s\<lparr>containers := (containers s)(c := r # containers s c)\<rparr>"

definition container_remove :: "oref \<Rightarrow> kern \<Rightarrow> kern" where
  "container_remove r s = s\<lparr>containers := (\<lambda>c. removeAll r (containers s c))\<rparr>"

definition rt_object_init :: "oref \<Rightarrow> u8 \<Rightarrow> string \<Rightarrow> kern \<Rightarrow> kern option" where
  "rt_object_init r type name s = do {
     information \<leftarrow> rt_object_get_information type;
     let s1 = rt_enter_critical s;
     RT_ASSERT (r \<notin> set (containers s1 information));
     s2 \<leftarrow> rt_exit_critical s1;
     let s3 = upd_obj r (\<lambda>ob. ob\<lparr>obj_type := type OR RT_Object_Class_Static,
                obj_name := rt_name name\<rparr>) s2;
     Some (container_insert_after information r s3) }"

definition rt_object_detach :: "oref \<Rightarrow> kern \<Rightarrow> kern" where
  "rt_object_detach r s = container_remove r (upd_obj r (\<lambda>ob. ob\<lparr>obj_type := 0\<rparr>) s)"

text \<open>The memory comes back zeroed, so type, flag and name are set on an empty header.\<close>

definition rt_object_allocate ::
    "(nat \<Rightarrow> 'h \<Rightarrow> nat option \<times> 'h) \<Rightarrow> (u8 \<Rightarrow> nat) \<Rightarrow> u8 \<Rightarrow> string \<Rightarrow> kern \<times> 'h \<Rightarrow>
     (nat option \<times> kern \<times> 'h) option" where
  "rt_object_allocate malloc object_size type name sh = do {
     let (s, h) = sh;
     RT_DEBUG_NOT_IN_INTERRUPT s;
     information \<leftarrow> rt_object_get_information type;
     (case malloc (object_size information) h of
        (None, h1) \<Rightarrow> Some (None, s, h1)
      | (Some a, h1) \<Rightarrow>
          (let s1 = upd_obj (Obj a) (\<lambda>_. \<lparr>obj_name = rt_name name, obj_type = type, obj_flag = 0\<rparr>) s
           in Some (Some a, container_insert_after information (Obj a) s1, h1))) }"

definition rt_object_is_systemobject :: "oref \<Rightarrow> kern \<Rightarrow> bool" where
  "rt_object_is_systemobject r s \<longleftrightarrow> obj_type (objs s r) AND RT_Object_Class_Static \<noteq> 0"

definition rt_object_get_type :: "oref \<Rightarrow> kern \<Rightarrow> u8" where
  "rt_object_get_type r s = obj_type (objs s r) AND NOT RT_Object_Class_Static"

definition rt_object_delete ::
    "(nat \<Rightarrow> 'h \<Rightarrow> 'h option) \<Rightarrow> nat \<Rightarrow> kern \<times> 'h \<Rightarrow> (kern \<times> 'h) option" where
  "rt_object_delete free a sh = do {
     let (s, h) = sh;
     RT_ASSERT (\<not> rt_object_is_systemobject (Obj a) s);
     let s1 = container_remove (Obj a) (upd_obj (Obj a) (\<lambda>ob. ob\<lparr>obj_type := 0\<rparr>) s);
     h1 \<leftarrow> free a h;
     Some (s1, h1) }"

text \<open>The search of \<open>rt_object_find\<close>, \<open>rt_thread_find\<close> and \<open>rt_device_find\<close>.\<close>

definition container_find :: "u8 \<Rightarrow> string \<Rightarrow> kern \<Rightarrow> oref option" where
  "container_find c name s =
     List.find (\<lambda>r. take RT_NAME_MAX (obj_name (objs s r)) = take RT_NAME_MAX name) (containers s c)"

definition rt_object_find :: "string \<Rightarrow> u8 \<Rightarrow> kern \<Rightarrow> (oref option \<times> kern) option" where
  "rt_object_find name type s =
     (if type > RT_Object_Class_Unknown then Some (None, s)
      else do {
        RT_DEBUG_NOT_IN_INTERRUPT s;
        let s1 = rt_enter_critical s;
        information \<leftarrow> rt_object_get_information type;
        let found = container_find information name s1;
        s2 \<leftarrow> rt_exit_critical s1;
        Some (found, s2) })"

section \<open>Containers\<close>

definition containers_ok :: "kern \<Rightarrow> bool" where
  "containers_ok s \<longleftrightarrow> (\<forall>c. distinct (containers s c)) \<and>
     (\<forall>c d r. r \<in> set (containers s c) \<longrightarrow> r \<in> set (containers s d) \<longrightarrow> c = d)"

definition registered_ok :: "kern \<Rightarrow> bool" where
  "registered_ok s \<longleftrightarrow> containers_ok s \<and>
     (\<forall>c r. r \<in> set (containers s c) \<longrightarrow> rt_object_get_type r s = c \<and> c \<in> set rt_object_container)"

lemmas container_defs = container_insert_after_def container_remove_def

interpretation objs: linked_lists containers containers_ok container_insert_after container_remove
proof (unfold_locales, goal_cases)
  case (1 s n q)
  then show ?case unfolding containers_ok_def container_insert_after_def by auto
next
  case (2 s n)
  then show ?case unfolding containers_ok_def container_remove_def by (auto simp: distinct_removeAll)
next
  case (3 s q n p)
  then show ?case unfolding containers_ok_def by blast
qed

lemma get_information_iff:
  "rt_object_get_information type = Some c \<longleftrightarrow> c = type \<and> type \<in> set rt_object_container"
  by (auto simp: rt_object_get_information_def rt_object_container_def)

lemma get_information_simps [simp]:
  "rt_object_get_information RT_Object_Class_Thread = Some RT_Object_Class_Thread"
  "rt_object_get_information RT_Object_Class_Semaphore = Some RT_Object_Class_Semaphore"
  "rt_object_get_information RT_Object_Class_Mutex = Some RT_Object_Class_Mutex"
  "rt_object_get_information RT_Object_Class_Event = Some RT_Object_Class_Event"
  "rt_object_get_information RT_Object_Class_MailBox = Some RT_Object_Class_MailBox"
  "rt_object_get_information RT_Object_Class_MessageQueue = Some RT_Object_Class_MessageQueue"
  "rt_object_get_information RT_Object_Class_MemHeap = Some RT_Object_Class_MemHeap"
  "rt_object_get_information RT_Object_Class_MemPool = Some RT_Object_Class_MemPool"
  "rt_object_get_information RT_Object_Class_Device = Some RT_Object_Class_Device"
  "rt_object_get_information RT_Object_Class_Timer = Some RT_Object_Class_Timer"
  by (simp_all add: rt_object_get_information_def rt_object_container_def)

lemma container_class_bits: "c \<in> set rt_object_container \<Longrightarrow>
    (c OR RT_Object_Class_Static) AND NOT RT_Object_Class_Static = c \<and>
    (c OR RT_Object_Class_Static) AND RT_Object_Class_Static \<noteq> 0 \<and>
    c AND NOT RT_Object_Class_Static = c \<and> c AND RT_Object_Class_Static = 0 \<and> c \<noteq> 0"
  by (auto simp: rt_object_container_def)

text \<open>Entering and leaving the critical section only runs the scheduler.\<close>

lemma exit_critical_frame:
  assumes "rt_exit_critical s = Some s'"
  shows "\<exists>l p c. s' = s\<lparr>lock_nest := l, cur_prio := p, current := c\<rparr>"
proof -
  have i: "s\<lparr>lock_nest := l\<rparr> = s\<lparr>lock_nest := l, cur_prio := cur_prio s, current := current s\<rparr>" for l
    by simp
  show ?thesis
  proof (cases "sint (lock_nest s - 1) \<le> 0 \<and> current s \<noteq> None")
    case True
    then have "rt_schedule (s\<lparr>lock_nest := 0\<rparr>) = Some s'"
      using assms by (simp add: rt_exit_critical_def Let_def)
    then show ?thesis using rt_schedule_frame by fastforce
  next
    case False
    then have "\<exists>l. s' = s\<lparr>lock_nest := l\<rparr>"
      using assms by (auto simp: rt_exit_critical_def Let_def split: if_splits)
    then show ?thesis using i by metis
  qed
qed

lemma critical_frame:
  assumes "rt_exit_critical (rt_enter_critical s) = Some s'"
  shows "\<exists>l p c. s' = s\<lparr>lock_nest := l, cur_prio := p, current := c\<rparr>"
  using exit_critical_frame [OF assms] by (auto simp: rt_enter_critical_def)

lemma object_init_cases:
  assumes "rt_object_init r type name s = Some s'"
  obtains l p c where "type \<in> set rt_object_container" "r \<notin> set (containers s type)"
    "s' = container_insert_after type r (upd_obj r (\<lambda>ob. ob\<lparr>obj_type := type OR RT_Object_Class_Static,
            obj_name := rt_name name\<rparr>) (s\<lparr>lock_nest := l, cur_prio := p, current := c\<rparr>))"
proof -
  obtain s2 where t: "type \<in> set rt_object_container"
    and e: "rt_exit_critical (rt_enter_critical s) = Some s2" and r: "r \<notin> set (containers s type)"
    and s': "s' = container_insert_after type r (upd_obj r (\<lambda>ob. ob\<lparr>obj_type := type OR RT_Object_Class_Static,
            obj_name := rt_name name\<rparr>) s2)"
    using assms
    by (auto simp: rt_object_init_def Some_bind_iff get_information_iff rt_enter_critical_def Let_def)
  from critical_frame [OF e] obtain l p c where "s2 = s\<lparr>lock_nest := l, cur_prio := p, current := c\<rparr>"
    by blast
  then show ?thesis using that t r s' by blast
qed

section \<open>Registration, removal and search\<close>

lemma object_init_registered:
  assumes "registered_ok s" "rt_object_init r type name s = Some s'"
    "\<And>c. r \<notin> set (containers s c)"
  shows "registered_ok s'"
  using assms(2)
proof (cases rule: object_init_cases)
  case (1 l p c)
  let ?s = "s\<lparr>lock_nest := l, cur_prio := p, current := c\<rparr>"
  have c: "containers_ok s'" "containers s' = (containers s)(type := r # containers s type)"
    using assms(1,3) 1(3) by (auto simp: registered_ok_def containers_ok_def container_insert_after_def)
  moreover have "rt_object_get_type q s' = d \<and> d \<in> set rt_object_container"
    if "q \<in> set (containers s' d)" for q d
  proof (cases "q = r")
    case True
    then have "d = type" using that c(2) assms(3) by (auto split: if_splits)
    then show ?thesis using True 1 container_class_bits [OF 1(1)]
      by (simp add: rt_object_get_type_def container_insert_after_def)
  next
    case False
    then have "q \<in> set (containers s d)" using that c(2) by (auto split: if_splits)
    then show ?thesis using False 1 assms(1)
      by (auto simp: registered_ok_def rt_object_get_type_def container_insert_after_def)
  qed
  ultimately show ?thesis by (simp add: registered_ok_def)
qed

lemma object_detach_registered: "registered_ok s \<Longrightarrow> registered_ok (rt_object_detach r s)"
  unfolding registered_ok_def containers_ok_def
  by (auto simp: rt_object_detach_def container_remove_def rt_object_get_type_def distinct_removeAll)

lemma object_detach_unregisters: "r \<notin> set (containers (rt_object_detach r s) c)"
  by (simp add: rt_object_detach_def container_remove_def)

lemma object_init_find:
  assumes "rt_object_init r type name s = Some s'"
  shows "container_find type name s' = Some r"
  using assms
  by (cases rule: object_init_cases) (simp add: container_find_def container_insert_after_def rt_name_def)

end
