(* ===== verification/Timer_Base.thy ===== *)
theory Timer_Base
  imports Kernel_Object
begin

text \<open>
  The part of \<^verbatim>\<open>rt-thread/src/timer.c\<close> that does not run threads: initialisation, removal, stop and
  control of a timer, and the next timeout of a list. \<open>RT_TIMER_SKIP_LIST_LEVEL\<close> has its default
  value 1, so a timer list is one ordered list; its rows are the fields \<open>timer_list\<close> (checked in the
  tick interrupt) and \<open>soft_timer_list\<close> (checked by the timer thread).
\<close>

definition rt_timer_init0 :: "oref \<Rightarrow> timeout_func \<Rightarrow> u32 \<Rightarrow> u8 \<Rightarrow> kern \<Rightarrow> kern" where
  "rt_timer_init0 r timeout time flag s =
     upd_tmr r (\<lambda>_. \<lparr>tm_func = timeout, tm_init_tick = time, tm_timeout_tick = 0\<rparr>)
       (upd_obj r (\<lambda>ob. ob\<lparr>obj_flag := flag AND NOT RT_TIMER_FLAG_ACTIVATED\<rparr>) s)"

definition rt_timer_list_next_timeout :: "oref list \<Rightarrow> kern \<Rightarrow> u32" where
  "rt_timer_list_next_timeout ts s =
     (case ts of [] \<Rightarrow> RT_TICK_MAX | t # _ \<Rightarrow> tm_timeout_tick (tmr s t))"

definition rt_timer_remove :: "oref \<Rightarrow> kern \<Rightarrow> kern" where
  "rt_timer_remove r s = s\<lparr>timer_list := removeAll r (timer_list s),
     soft_timer_list := removeAll r (soft_timer_list s)\<rparr>"

definition rt_timer_init :: "oref \<Rightarrow> string \<Rightarrow> timeout_func \<Rightarrow> u32 \<Rightarrow> u8 \<Rightarrow> kern \<Rightarrow> kern option" where
  "rt_timer_init r name timeout time flag s = do {
     s1 \<leftarrow> rt_object_init r RT_Object_Class_Timer name s;
     Some (rt_timer_init0 r timeout time flag s1) }"

definition rt_timer_detach :: "oref \<Rightarrow> kern \<Rightarrow> (rt_err_t \<times> kern) option" where
  "rt_timer_detach r s = do {
     RT_ASSERT (rt_object_get_type r s = RT_Object_Class_Timer);
     RT_ASSERT (rt_object_is_systemobject r s);
     Some (RT_EOK, rt_object_detach r (rt_timer_remove r s)) }"

definition rt_timer_create ::
    "(nat \<Rightarrow> 'h \<Rightarrow> nat option \<times> 'h) \<Rightarrow> (u8 \<Rightarrow> nat) \<Rightarrow> string \<Rightarrow> timeout_func \<Rightarrow> u32 \<Rightarrow> u8 \<Rightarrow>
     kern \<times> 'h \<Rightarrow> (nat option \<times> kern \<times> 'h) option" where
  "rt_timer_create malloc object_size name timeout time flag sh = do {
     (timer, s1, h1) \<leftarrow> rt_object_allocate malloc object_size RT_Object_Class_Timer name sh;
     (case timer of None \<Rightarrow> Some (None, s1, h1)
      | Some a \<Rightarrow> Some (Some a, rt_timer_init0 (Obj a) timeout time flag s1, h1)) }"

definition rt_timer_delete ::
    "(nat \<Rightarrow> 'h \<Rightarrow> 'h option) \<Rightarrow> nat \<Rightarrow> kern \<times> 'h \<Rightarrow> (rt_err_t \<times> kern \<times> 'h) option" where
  "rt_timer_delete free a sh = do {
     let (s, h) = sh;
     RT_ASSERT (rt_object_get_type (Obj a) s = RT_Object_Class_Timer);
     RT_ASSERT (\<not> rt_object_is_systemobject (Obj a) s);
     (s1, h1) \<leftarrow> rt_object_delete free a (rt_timer_remove (Obj a) s, h);
     Some (RT_EOK, s1, h1) }"

abbreviation (input) timer_activated :: "kern \<Rightarrow> oref \<Rightarrow> bool" where
  "timer_activated s r \<equiv> obj_flag (objs s r) AND RT_TIMER_FLAG_ACTIVATED \<noteq> 0"

definition clear_activated :: "oref \<Rightarrow> kern \<Rightarrow> kern" where
  "clear_activated r s =
     upd_obj r (\<lambda>ob. ob\<lparr>obj_flag := obj_flag ob AND NOT RT_TIMER_FLAG_ACTIVATED\<rparr>) s"

definition rt_timer_stop :: "oref \<Rightarrow> kern \<Rightarrow> (rt_err_t \<times> kern) option" where
  "rt_timer_stop r s = do {
     RT_ASSERT (rt_object_get_type r s = RT_Object_Class_Timer);
     if \<not> timer_activated s r then Some (- RT_ERROR, s)
     else Some (RT_EOK, clear_activated r (rt_timer_remove r s)) }"

abbreviation (input) RT_TIMER_CTRL_SET_TIME :: nat where "RT_TIMER_CTRL_SET_TIME \<equiv> 0"
abbreviation (input) RT_TIMER_CTRL_GET_TIME :: nat where "RT_TIMER_CTRL_GET_TIME \<equiv> 1"
abbreviation (input) RT_TIMER_CTRL_SET_ONESHOT :: nat where "RT_TIMER_CTRL_SET_ONESHOT \<equiv> 2"
abbreviation (input) RT_TIMER_CTRL_SET_PERIODIC :: nat where "RT_TIMER_CTRL_SET_PERIODIC \<equiv> 3"

text \<open>\<open>arg\<close> is the tick that the pointer argument holds; it is returned as the call leaves it.\<close>

definition rt_timer_control :: "oref \<Rightarrow> nat \<Rightarrow> u32 \<Rightarrow> kern \<Rightarrow> (rt_err_t \<times> u32 \<times> kern) option" where
  "rt_timer_control r cmd arg s = do {
     RT_ASSERT (rt_object_get_type r s = RT_Object_Class_Timer);
     Some (if cmd = RT_TIMER_CTRL_GET_TIME then (RT_EOK, tm_init_tick (tmr s r), s)
           else if cmd = RT_TIMER_CTRL_SET_TIME
             then (RT_EOK, arg, upd_tmr r (\<lambda>tm. tm\<lparr>tm_init_tick := arg\<rparr>) s)
           else if cmd = RT_TIMER_CTRL_SET_ONESHOT
             then (RT_EOK, arg, upd_obj r (\<lambda>ob. ob\<lparr>obj_flag := obj_flag ob AND NOT RT_TIMER_FLAG_PERIODIC\<rparr>) s)
           else if cmd = RT_TIMER_CTRL_SET_PERIODIC
             then (RT_EOK, arg, upd_obj r (\<lambda>ob. ob\<lparr>obj_flag := obj_flag ob OR RT_TIMER_FLAG_PERIODIC\<rparr>) s)
           else (RT_EOK, arg, s)) }"

definition rt_timer_next_timeout_tick :: "kern \<Rightarrow> u32" where
  "rt_timer_next_timeout_tick s = rt_timer_list_next_timeout (timer_list s) s"

definition rt_system_timer_init :: "kern \<Rightarrow> kern" where
  "rt_system_timer_init s = s\<lparr>timer_list := []\<rparr>"

text \<open>The order in which \<open>rt_timer_start\<close> links a timer: after every timer that is not later, ticks
  compared modulo \<open>2 ^ 32\<close>.\<close>

fun timer_insert :: "(oref \<Rightarrow> u32) \<Rightarrow> oref \<Rightarrow> u32 \<Rightarrow> oref list \<Rightarrow> oref list" where
  "timer_insert tt r to_tick [] = [r]"
| "timer_insert tt r to_tick (t # ts) =
     (if tt t - to_tick = 0 then t # timer_insert tt r to_tick ts
      else if tt t - to_tick < RT_TICK_MAX div 2 then r # t # ts
      else t # timer_insert tt r to_tick ts)"

section \<open>Lemmas\<close>

lemma set_timer_insert [simp]: "set (timer_insert tt r k ts) = insert r (set ts)"
  by (induction ts) auto

lemma distinct_timer_insert: "r \<notin> set ts \<Longrightarrow> distinct ts \<Longrightarrow> distinct (timer_insert tt r k ts)"
  by (induction ts) auto

lemma timer_insert_cong: "(\<And>t. t \<in> set ts \<Longrightarrow> f t = g t) \<Longrightarrow> timer_insert f r k ts = timer_insert g r k ts"
  by (induction ts) auto

text \<open>Order of a timer list, seen from a tick \<open>b\<close> that no pending timeout precedes: the distances
  from \<open>b\<close> do not decrease and stay below half the tick range, so the comparison modulo \<open>2 ^ 32\<close> is
  the comparison of distances.\<close>

definition ordered_from :: "u32 \<Rightarrow> (oref \<Rightarrow> u32) \<Rightarrow> oref list \<Rightarrow> bool" where
  "ordered_from b tt ts \<longleftrightarrow> sorted (map (\<lambda>t. unat (tt t - b)) ts) \<and>
     (\<forall>t \<in> set ts. tt t - b < RT_TICK_MAX div 2)"

lemma half_tick: "(RT_TICK_MAX div 2 :: u32) = 0x7fffffff"
  by simp

lemma word_diff_less:
  fixes x y :: u32
  assumes "x < 0x7fffffff" "y < 0x7fffffff" "x \<noteq> y"
  shows "x - y < 0x7fffffff \<longleftrightarrow> unat y < unat x"
proof -
  have x: "unat x < 2147483647" and y: "unat y < 2147483647"
    using assms(1,2) by (simp_all add: word_less_nat_alt)
  have "unat (x - y) = (if unat y \<le> unat x then unat x - unat y else 2 ^ 32 + unat x - unat y)"
    by (cases "unat y \<le> unat x") (simp_all add: unat_sub_if')
  moreover have "unat x \<noteq> unat y" using assms(3) by (simp add: word_unat_eq_iff)
  ultimately show ?thesis using x y by (auto simp: word_less_nat_alt)
qed

lemma tick_diff_cases:
  fixes a c b :: u32
  assumes "a - b < 0x7fffffff" "c - b < 0x7fffffff"
  shows "a - c = 0 \<longleftrightarrow> unat (a - b) = unat (c - b)"
    "a - c \<noteq> 0 \<Longrightarrow> a - c < 0x7fffffff \<longleftrightarrow> unat (c - b) < unat (a - b)"
proof -
  have e: "a - c = (a - b) - (c - b)" by simp
  show "a - c = 0 \<longleftrightarrow> unat (a - b) = unat (c - b)"
    by (simp flip: word_unat_eq_iff)
  show "a - c < 0x7fffffff \<longleftrightarrow> unat (c - b) < unat (a - b)" if "a - c \<noteq> 0"
  proof -
    have "a - b \<noteq> c - b" using that by simp
    from word_diff_less [OF assms this] show ?thesis by (simp only: e)
  qed
qed

lemma timer_insert_ordered:
  assumes "ordered_from b tt ts" "tt r = k" "k - b < RT_TICK_MAX div 2"
  shows "ordered_from b tt (timer_insert tt r k ts)"
  using assms(1)
proof (induction ts)
  case Nil
  then show ?case using assms(2,3) by (simp add: ordered_from_def)
next
  case (Cons t ts)
  have kb: "k - b < 0x7fffffff" and tb: "tt t - b < 0x7fffffff"
    using assms(3) Cons.prems by (auto simp: ordered_from_def)
  note c = tick_diff_cases [OF tb kb]
  have "ordered_from b tt ts" using Cons.prems by (simp add: ordered_from_def)
  note IH = Cons.IH [OF this]
  show ?case
  proof (cases "unat (k - b) < unat (tt t - b)")
    case True
    then have "tt t - k \<noteq> 0" using c(1) by auto
    then show ?thesis using True c(2) Cons.prems assms(2) kb
      by (auto simp: ordered_from_def)
  next
    case False
    then have "timer_insert tt r k (t # ts) = t # timer_insert tt r k ts"
      using c by (cases "tt t - k = 0") auto
    then show ?thesis using IH False Cons.prems assms(2) tb by (auto simp: ordered_from_def)
  qed
qed

text \<open>A timer is linked behind those with the same timeout: equal timeouts fire in start order.\<close>

lemma timer_insert_splits:
  assumes "ordered_from b tt ts" "k - b < RT_TICK_MAX div 2"
  shows "timer_insert tt r k ts =
    filter (\<lambda>t. unat (tt t - b) \<le> unat (k - b)) ts @ r # filter (\<lambda>t. unat (k - b) < unat (tt t - b)) ts"
  using assms(1)
proof (induction ts)
  case (Cons t ts)
  have kb: "k - b < 0x7fffffff" and tb: "tt t - b < 0x7fffffff"
    using assms(2) Cons.prems by (auto simp: ordered_from_def)
  note c = tick_diff_cases [OF tb kb]
  have o: "ordered_from b tt ts" using Cons.prems by (simp add: ordered_from_def)
  show ?case
  proof (cases "unat (k - b) < unat (tt t - b)")
    case True
    then have "tt t - k \<noteq> 0" using c(1) by auto
    moreover have "\<forall>u \<in> set ts. unat (k - b) < unat (tt u - b)"
      using Cons.prems True by (auto simp: ordered_from_def)
    then have "filter (\<lambda>t. unat (k - b) < unat (tt t - b)) ts = ts"
      "filter (\<lambda>t. unat (tt t - b) \<le> unat (k - b)) ts = []"
      by (auto simp: filter_id_conv filter_empty_conv not_le)
    ultimately show ?thesis using True c(2) by simp
  next
    case False
    then have "timer_insert tt r k (t # ts) = t # timer_insert tt r k ts"
      using c by (cases "tt t - k = 0") auto
    then show ?thesis using Cons.IH [OF o] False by simp
  qed
qed simp

lemma timer_remove_frame [simp]:
  "objs (rt_timer_remove r s) = objs s" "containers (rt_timer_remove r s) = containers s"
  "thr (rt_timer_remove r s) = thr s" "tmr (rt_timer_remove r s) = tmr s"
  "queues (rt_timer_remove r s) = queues s" "ready_table (rt_timer_remove r s) = ready_table s"
  "ready_group (rt_timer_remove r s) = ready_group s" "current (rt_timer_remove r s) = current s"
  "cur_prio (rt_timer_remove r s) = cur_prio s"
  "lock_nest (rt_timer_remove r s) = lock_nest s" "irq_nest (rt_timer_remove r s) = irq_nest s"
  "tick (rt_timer_remove r s) = tick s"
  "timer_list (rt_timer_remove r s) = removeAll r (timer_list s)"
  "soft_timer_list (rt_timer_remove r s) = removeAll r (soft_timer_list s)"
  by (simp_all add: rt_timer_remove_def)

lemma clear_activated_frame [simp]:
  "objs (clear_activated r s) = (objs s)(r := (objs s r)\<lparr>obj_flag := obj_flag (objs s r) AND NOT RT_TIMER_FLAG_ACTIVATED\<rparr>)"
  "containers (clear_activated r s) = containers s"
  "thr (clear_activated r s) = thr s" "tmr (clear_activated r s) = tmr s"
  "queues (clear_activated r s) = queues s" "ready_table (clear_activated r s) = ready_table s"
  "ready_group (clear_activated r s) = ready_group s" "current (clear_activated r s) = current s"
  "cur_prio (clear_activated r s) = cur_prio s"
  "lock_nest (clear_activated r s) = lock_nest s" "irq_nest (clear_activated r s) = irq_nest s"
  "tick (clear_activated r s) = tick s" "timer_list (clear_activated r s) = timer_list s"
  "soft_timer_list (clear_activated r s) = soft_timer_list s"
  by (simp_all add: clear_activated_def)

end
