(* ===== verification/Thread_Base.thy ===== *)
theory Thread_Base
  imports Timer_Base
begin

text \<open>
  Suspending and resuming a thread (\<open>rt_thread_suspend\<close>, \<open>rt_thread_resume\<close> of
  \<^verbatim>\<open>rt-thread/src/thread.c\<close>), which the timers and all of \<^verbatim>\<open>ipc.c\<close> build on, and the
  invariant \<open>kinv\<close> of the kernel.

  \<open>kinv\<close> is a property of each thread (\<open>tinv\<close>): the state byte agrees with the list the thread is
  linked in, a ready thread is in the queue of its priority, a thread whose timer runs is suspended,
  a closed thread waits in the defunct list; with the exclusiveness of lists, the ready bitmap and
  the timer lists. Because \<open>tinv\<close> reads the cells of one thread only, an operation on one thread
  preserves it for the others (\<open>kinv_step\<close>).
\<close>

section \<open>The code\<close>

abbreviation (input) is_thread :: "kern \<Rightarrow> tid \<Rightarrow> bool" where
  "is_thread s t \<equiv> rt_object_get_type (Obj t) s = RT_Object_Class_Thread"

definition rt_thread_suspend :: "tid \<Rightarrow> kern \<Rightarrow> (rt_err_t \<times> kern) option" where
  "rt_thread_suspend t s = do {
     RT_ASSERT (is_thread s t);
     if thread_stat s t \<noteq> RT_THREAD_READY then Some (- RT_ERROR, s)
     else do {
       let s1 = upd_thr t (\<lambda>th. th\<lparr>th_stat :=
                  RT_THREAD_SUSPEND OR (th_stat th AND NOT RT_THREAD_STAT_MASK)\<rparr>) s;
       let s2 = rt_schedule_remove_thread t s1;
       (_, s3) \<leftarrow> rt_timer_stop (TimerOf t) s2;
       Some (RT_EOK, s3) } }"

definition rt_thread_resume :: "tid \<Rightarrow> kern \<Rightarrow> (rt_err_t \<times> kern) option" where
  "rt_thread_resume t s = do {
     RT_ASSERT (is_thread s t);
     if thread_stat s t \<noteq> RT_THREAD_SUSPEND then Some (- RT_ERROR, s)
     else do {
       let s1 = tlist_remove t s;
       (_, s2) \<leftarrow> rt_timer_stop (TimerOf t) s1;
       Some (RT_EOK, rt_schedule_insert_thread t s2) } }"

section \<open>The invariant\<close>

fun head_stat :: "lhead \<Rightarrow> u8" where
  "head_stat (ReadyQ p) = RT_THREAD_READY"
| "head_stat DefunctQ = RT_THREAD_CLOSE"
| "head_stat (SuspendQ r) = RT_THREAD_SUSPEND"
| "head_stat (SenderQ r) = RT_THREAD_SUSPEND"

definition thread_timer_ok :: "kern \<Rightarrow> tid \<Rightarrow> bool" where
  "thread_timer_ok s t \<longleftrightarrow>
     rt_object_get_type (TimerOf t) s = RT_Object_Class_Timer \<and>
     rt_object_is_systemobject (TimerOf t) s \<and>
     obj_flag (objs s (TimerOf t)) AND RT_TIMER_FLAG_SOFT_TIMER = 0 \<and>
     obj_flag (objs s (TimerOf t)) AND RT_TIMER_FLAG_PERIODIC = 0 \<and>
     tm_func (tmr s (TimerOf t)) = Thread_timeout t"

definition thread_ok :: "kern \<Rightarrow> tid \<Rightarrow> bool" where
  "thread_ok s t \<longleftrightarrow>
     thread_stat s t \<in> {RT_THREAD_INIT, RT_THREAD_READY, RT_THREAD_SUSPEND, RT_THREAD_CLOSE} \<and>
     (thread_stat s t = RT_THREAD_READY \<longrightarrow>
        t \<in> set (queues s (ReadyQ (unat (th_current_priority (thr s t)))))) \<and>
     (thread_stat s t = RT_THREAD_CLOSE \<longrightarrow>
        t \<in> set (queues s DefunctQ) \<and> obj_type (objs s (TimerOf t)) = 0) \<and>
     (thread_stat s t \<in> {RT_THREAD_READY, RT_THREAD_SUSPEND} \<longrightarrow> prio_ok (thr s t)) \<and>
     (thread_stat s t \<noteq> RT_THREAD_CLOSE \<longrightarrow> thread_timer_ok s t)"

definition tinv :: "kern \<Rightarrow> tid \<Rightarrow> bool" where
  "tinv s t \<longleftrightarrow>
     (\<forall>q. t \<in> set (queues s q) \<longrightarrow> is_thread s t \<and> thread_stat s t = head_stat q) \<and>
     (\<forall>p. t \<in> set (queues s (ReadyQ p)) \<longrightarrow> p = unat (th_current_priority (thr s t))) \<and>
     (is_thread s t \<longrightarrow> thread_ok s t) \<and>
     (TimerOf t \<in> set (timer_list s) \<longrightarrow>
        is_thread s t \<and> thread_stat s t = RT_THREAD_SUSPEND \<and> timer_activated s (TimerOf t)) \<and>
     TimerOf t \<notin> set (soft_timer_list s)"

definition kinv :: "kern \<Rightarrow> bool" where
  "kinv s \<longleftrightarrow> lists_ok s \<and> bitmap_ok s \<and> distinct (timer_list s) \<and> distinct (soft_timer_list s) \<and>
     set (timer_list s) \<inter> set (soft_timer_list s) = {} \<and> (\<forall>t. tinv s t)"

lemma kinvD:
  assumes "kinv s"
  shows "lists_ok s" "bitmap_ok s" "tinv s t" "distinct (timer_list s)" "distinct (soft_timer_list s)"
  using assms by (simp_all add: kinv_def)

lemma kinv_queue_prio: "kinv s \<Longrightarrow> queue_prio_ok s"
  unfolding queue_prio_ok_def
proof (intro allI impI)
  fix p t assume k: "kinv s" and m: "t \<in> set (queues s (ReadyQ p))"
  have ti: "tinv s t" using k by (rule kinvD)
  then have "p = unat (th_current_priority (thr s t))" using m unfolding tinv_def by blast
  moreover have "is_thread s t" "thread_stat s t = head_stat (ReadyQ p)"
    using ti m unfolding tinv_def by blast+
  then have "thread_ok s t" "thread_stat s t = RT_THREAD_READY"
    using ti unfolding tinv_def by simp_all
  then have "prio_ok (thr s t)" unfolding thread_ok_def by simp
  ultimately show "p = unat (th_current_priority (thr s t)) \<and> prio_ok (thr s t)" by blast
qed

text \<open>The part of a thread that the invariant reads.\<close>

definition th_core :: "rt_thread \<Rightarrow> u8 \<times> u8 \<times> u8 \<times> u8 \<times> u32" where
  "th_core th = (th_stat th AND RT_THREAD_STAT_MASK, th_current_priority th, th_number th, th_high_mask th,
     th_number_mask th)"

lemma th_core_eqD:
  assumes "th_core a = th_core b"
  shows "th_stat a AND RT_THREAD_STAT_MASK = th_stat b AND RT_THREAD_STAT_MASK"
    "th_current_priority a = th_current_priority b" "prio_ok a = prio_ok b"
  using assms by (simp_all add: th_core_def prio_ok_def)

lemma tinv_cong:
  assumes c: "th_core (thr s' t) = th_core (thr s t)"
    and o: "obj_type (objs s' (Obj t)) = obj_type (objs s (Obj t))"
      "obj_type (objs s' (TimerOf t)) = obj_type (objs s (TimerOf t))"
      "obj_flag (objs s' (TimerOf t)) = obj_flag (objs s (TimerOf t))"
    and f: "tm_func (tmr s' (TimerOf t)) = tm_func (tmr s (TimerOf t))"
    and q: "\<And>q. t \<in> set (queues s' q) \<longleftrightarrow> t \<in> set (queues s q)"
    and m: "TimerOf t \<in> set (timer_list s') \<longleftrightarrow> TimerOf t \<in> set (timer_list s)"
      "TimerOf t \<in> set (soft_timer_list s') \<longleftrightarrow> TimerOf t \<in> set (soft_timer_list s)"
  shows "tinv s' t \<longleftrightarrow> tinv s t"
  unfolding tinv_def thread_ok_def thread_timer_ok_def rt_object_get_type_def
    rt_object_is_systemobject_def th_core_eqD [OF c] o f q m ..

lemma kinv_step:
  assumes "kinv s" "lists_ok s'" "bitmap_ok s'" "distinct (timer_list s')" "distinct (soft_timer_list s')"
    "set (timer_list s') \<inter> set (soft_timer_list s') = {}"
    and t: "tinv s' t"
    and u: "\<And>u. u \<noteq> t \<Longrightarrow> th_core (thr s' u) = th_core (thr s u)"
      "\<And>u. u \<noteq> t \<Longrightarrow> obj_type (objs s' (Obj u)) = obj_type (objs s (Obj u))"
      "\<And>u. u \<noteq> t \<Longrightarrow> obj_type (objs s' (TimerOf u)) = obj_type (objs s (TimerOf u))"
      "\<And>u. u \<noteq> t \<Longrightarrow> obj_flag (objs s' (TimerOf u)) = obj_flag (objs s (TimerOf u))"
      "\<And>u. u \<noteq> t \<Longrightarrow> tm_func (tmr s' (TimerOf u)) = tm_func (tmr s (TimerOf u))"
      "\<And>u q. u \<noteq> t \<Longrightarrow> u \<in> set (queues s' q) \<longleftrightarrow> u \<in> set (queues s q)"
      "\<And>u. u \<noteq> t \<Longrightarrow> TimerOf u \<in> set (timer_list s') \<longleftrightarrow> TimerOf u \<in> set (timer_list s)"
      "\<And>u. u \<noteq> t \<Longrightarrow> TimerOf u \<in> set (soft_timer_list s') \<longleftrightarrow> TimerOf u \<in> set (soft_timer_list s)"
  shows "kinv s'"
proof -
  have "tinv s' x" for x
  proof (cases "x = t")
    case False
    have "tinv s' x \<longleftrightarrow> tinv s x" by (rule tinv_cong) (use False u in blast)+
    then show ?thesis using kinvD(3) [OF assms(1)] by simp
  qed (simp add: t)
  then show ?thesis using assms(2-6) by (simp add: kinv_def)
qed

text \<open>The invariant does not read the running thread, the counters, the timer's ticks or the fields
  of a thread outside its core.\<close>

lemma kinv_frame:
  assumes "kinv s" "queues s' = queues s" "ready_table s' = ready_table s" "ready_group s' = ready_group s"
    "timer_list s' = timer_list s" "soft_timer_list s' = soft_timer_list s"
    "\<And>t. th_core (thr s' t) = th_core (thr s t)"
    "\<And>t. obj_type (objs s' (Obj t)) = obj_type (objs s (Obj t))"
    "\<And>t. objs s' (TimerOf t) = objs s (TimerOf t)"
    "\<And>t. tm_func (tmr s' (TimerOf t)) = tm_func (tmr s (TimerOf t))"
  shows "kinv s'"
  by (rule kinv_step [of s _ undefined])
    (use assms tinv_cong [of s' undefined s] in \<open>simp_all add: kinv_def lists_ok_def bitmap_ok_def\<close>)

section \<open>Stopping the timer of a thread\<close>

lemma flag_clear_idle: "w AND RT_TIMER_FLAG_ACTIVATED = 0 \<Longrightarrow> w AND NOT RT_TIMER_FLAG_ACTIVATED = (w :: u8)"
proof -
  assume "w AND 1 = 0"
  moreover have "w = (w AND NOT 1) OR (w AND 1)"
    by (metis bit.conj_cancel_right bit.conj_disj_distrib bit.disj_cancel_right and.commute and.right_neutral or.commute)
  ultimately show ?thesis by simp
qed

lemma thread_timer_stop:
  assumes "rt_object_get_type (TimerOf t) s = RT_Object_Class_Timer"
    "TimerOf t \<in> set (timer_list s) \<longrightarrow> timer_activated s (TimerOf t)" "TimerOf t \<notin> set (soft_timer_list s)"
  shows "rt_timer_stop (TimerOf t) s =
    Some (if timer_activated s (TimerOf t) then RT_EOK else - RT_ERROR,
      clear_activated (TimerOf t) (rt_timer_remove (TimerOf t) s))"
proof (cases "timer_activated s (TimerOf t)")
  case False
  then have n: "TimerOf t \<notin> set (timer_list s)" using assms(2) by blast
  from False have "obj_flag (objs s (TimerOf t)) AND NOT RT_TIMER_FLAG_ACTIVATED = obj_flag (objs s (TimerOf t))"
    by (intro flag_clear_idle) simp
  then have "clear_activated (TimerOf t) (rt_timer_remove (TimerOf t) s) = s"
    using n assms(3) by (simp add: clear_activated_def rt_timer_remove_def)
  then show ?thesis using False assms(1) by (simp add: rt_timer_stop_def)
qed (use assms(1) in \<open>simp add: rt_timer_stop_def\<close>)

section \<open>Suspending and resuming\<close>

text \<open>The two operations in closed form on a live thread, from which the effect lemmas read off.\<close>

definition park :: "tid \<Rightarrow> kern \<Rightarrow> kern" where
  "park t s = clear_activated (TimerOf t) (rt_timer_remove (TimerOf t) (rt_schedule_remove_thread t
     (upd_thr t (\<lambda>th. th\<lparr>th_stat :=
        RT_THREAD_SUSPEND OR (th_stat th AND NOT RT_THREAD_STAT_MASK)\<rparr>) s)))"

definition unpark :: "tid \<Rightarrow> kern \<Rightarrow> kern" where
  "unpark t s = rt_schedule_insert_thread t (clear_activated (TimerOf t)
     (rt_timer_remove (TimerOf t) (tlist_remove t s)))"

lemma tlist_remove_frame [simp]:
  "objs (tlist_remove t s) = objs s" "containers (tlist_remove t s) = containers s"
  "thr (tlist_remove t s) = thr s" "tmr (tlist_remove t s) = tmr s"
  "ready_table (tlist_remove t s) = ready_table s" "ready_group (tlist_remove t s) = ready_group s"
  "current (tlist_remove t s) = current s" "cur_prio (tlist_remove t s) = cur_prio s"
  "lock_nest (tlist_remove t s) = lock_nest s" "irq_nest (tlist_remove t s) = irq_nest s"
  "tick (tlist_remove t s) = tick s" "timer_list (tlist_remove t s) = timer_list s"
  "soft_timer_list (tlist_remove t s) = soft_timer_list s"
  "queues (tlist_remove t s) = (\<lambda>q. removeAll t (queues s q))"
  by (simp_all add: tlist_remove_def)

lemma tinv_threadD:
  assumes "tinv s t" "is_thread s t"
  shows "thread_stat s t = RT_THREAD_READY \<Longrightarrow> t \<in> set (queues s (ReadyQ (unat (th_current_priority (thr s t)))))"
    "thread_stat s t = RT_THREAD_READY \<Longrightarrow> prio_ok (thr s t)"
    "thread_stat s t = RT_THREAD_SUSPEND \<Longrightarrow> prio_ok (thr s t)"
    "thread_stat s t \<noteq> RT_THREAD_CLOSE \<Longrightarrow> thread_timer_ok s t"
    "thread_stat s t = RT_THREAD_CLOSE \<Longrightarrow> t \<in> set (queues s DefunctQ)"
proof -
  have "thread_ok s t" using assms unfolding tinv_def by blast
  then show "thread_stat s t = RT_THREAD_READY \<Longrightarrow> t \<in> set (queues s (ReadyQ (unat (th_current_priority (thr s t)))))"
    "thread_stat s t = RT_THREAD_READY \<Longrightarrow> prio_ok (thr s t)"
    "thread_stat s t = RT_THREAD_SUSPEND \<Longrightarrow> prio_ok (thr s t)"
    "thread_stat s t \<noteq> RT_THREAD_CLOSE \<Longrightarrow> thread_timer_ok s t"
    "thread_stat s t = RT_THREAD_CLOSE \<Longrightarrow> t \<in> set (queues s DefunctQ)"
    unfolding thread_ok_def by (blast, simp, simp, blast, blast)
qed

lemma tinv_linked:
  assumes "tinv s t" "t \<in> set (queues s q)"
  shows "is_thread s t" "thread_stat s t = head_stat q"
  using assms unfolding tinv_def by blast+

lemma tinv_timer:
  assumes "tinv s t"
  shows "TimerOf t \<in> set (timer_list s) \<longrightarrow> timer_activated s (TimerOf t)"
    "TimerOf t \<notin> set (soft_timer_list s)"
  using assms unfolding tinv_def by blast+

lemma suspend_eq:
  assumes "kinv s" "is_thread s t" "thread_stat s t = RT_THREAD_READY"
  shows "rt_thread_suspend t s = Some (RT_EOK, park t s)"
proof -
  let ?s = "rt_schedule_remove_thread t (upd_thr t (\<lambda>th. th\<lparr>th_stat :=
        RT_THREAD_SUSPEND OR (th_stat th AND NOT RT_THREAD_STAT_MASK)\<rparr>) s)"
  note ti = kinvD(3) [OF assms(1), of t]
  have "thread_timer_ok s t" using tinv_threadD(4) [OF ti assms(2)] assms(3) by simp
  then have "rt_timer_stop (TimerOf t) ?s = Some (if timer_activated ?s (TimerOf t) then RT_EOK else - RT_ERROR,
      clear_activated (TimerOf t) (rt_timer_remove (TimerOf t) ?s))"
    using tinv_timer [OF ti]
    by (intro thread_timer_stop) (simp_all add: thread_timer_ok_def rt_object_get_type_def)
  then show ?thesis using assms(2,3) by (simp add: rt_thread_suspend_def park_def)
qed

lemma resume_eq:
  assumes "kinv s" "is_thread s t" "thread_stat s t = RT_THREAD_SUSPEND"
  shows "rt_thread_resume t s = Some (RT_EOK, unpark t s)"
proof -
  let ?s = "tlist_remove t s"
  note ti = kinvD(3) [OF assms(1), of t]
  have "thread_timer_ok s t" using tinv_threadD(4) [OF ti assms(2)] assms(3) by simp
  then have "rt_timer_stop (TimerOf t) ?s = Some (if timer_activated ?s (TimerOf t) then RT_EOK else - RT_ERROR,
      clear_activated (TimerOf t) (rt_timer_remove (TimerOf t) ?s))"
    using tinv_timer [OF ti]
    by (intro thread_timer_stop) (simp_all add: thread_timer_ok_def rt_object_get_type_def)
  then show ?thesis using assms(2,3) by (simp add: rt_thread_resume_def unpark_def)
qed

lemma park_frame [simp]:
  "objs (park t s) = (objs s)(TimerOf t := (objs s (TimerOf t))\<lparr>obj_flag :=
     obj_flag (objs s (TimerOf t)) AND NOT RT_TIMER_FLAG_ACTIVATED\<rparr>)"
  "containers (park t s) = containers s" "tmr (park t s) = tmr s"
  "thr (park t s) = (thr s)(t := (thr s t)\<lparr>th_stat :=
     RT_THREAD_SUSPEND OR (th_stat (thr s t) AND NOT RT_THREAD_STAT_MASK)\<rparr>)"
  "queues (park t s) = (\<lambda>q. removeAll t (queues s q))"
  "current (park t s) = current s" "lock_nest (park t s) = lock_nest s" "irq_nest (park t s) = irq_nest s"
  "tick (park t s) = tick s" "timer_list (park t s) = removeAll (TimerOf t) (timer_list s)"
  "soft_timer_list (park t s) = removeAll (TimerOf t) (soft_timer_list s)"
  by (simp_all add: park_def)

lemma unpark_frame [simp]:
  "objs (unpark t s) = (objs s)(TimerOf t := (objs s (TimerOf t))\<lparr>obj_flag :=
     obj_flag (objs s (TimerOf t)) AND NOT RT_TIMER_FLAG_ACTIVATED\<rparr>)"
  "containers (unpark t s) = containers s" "tmr (unpark t s) = tmr s"
  "thr (unpark t s) = (thr s)(t := (thr s t)\<lparr>th_stat :=
     RT_THREAD_READY OR (th_stat (thr s t) AND NOT RT_THREAD_STAT_MASK)\<rparr>)"
  "queues (unpark t s) = (\<lambda>q. removeAll t (queues s q) @
     (if q = ReadyQ (unat (th_current_priority (thr s t))) then [t] else []))"
  "current (unpark t s) = current s" "lock_nest (unpark t s) = lock_nest s" "irq_nest (unpark t s) = irq_nest s"
  "tick (unpark t s) = tick s" "timer_list (unpark t s) = removeAll (TimerOf t) (timer_list s)"
  "soft_timer_list (unpark t s) = removeAll (TimerOf t) (soft_timer_list s)"
  by (simp_all add: unpark_def Let_def fun_eq_iff)

lemma flag_clear_keeps [simp]:
  "(w AND -2) AND 4 = w AND (4 :: u8)" "(w AND -2) AND 2 = w AND (2 :: u8)"
proof -
  show "(w AND -2) AND 4 = w AND (4 :: u8)" by (simp add: and.assoc)
  show "(w AND -2) AND 2 = w AND (2 :: u8)" by (simp add: and.assoc)
qed

lemma stat_ready_mask' [simp]:
  "(1 OR w AND - 16) AND 15 = (1 :: u8)" "(2 OR w AND - 16) AND 15 = (2 :: u8)"
  using stat_ready_mask [of w] by simp_all

lemma thread_timer_ok_clear:
  assumes "thread_timer_ok s t"
    "objs s' (TimerOf t) = (objs s (TimerOf t))\<lparr>obj_flag := obj_flag (objs s (TimerOf t)) AND NOT RT_TIMER_FLAG_ACTIVATED\<rparr>"
    "tmr s' (TimerOf t) = tmr s (TimerOf t)"
  shows "thread_timer_ok s' t"
  using assms
  by (simp add: thread_timer_ok_def rt_object_get_type_def rt_object_is_systemobject_def
      flag_clear_keeps)

lemma stat_bits: "(RT_THREAD_READY :: u8) \<noteq> RT_THREAD_SUSPEND" "RT_THREAD_READY \<noteq> (RT_THREAD_CLOSE :: u8)"
  "RT_THREAD_SUSPEND \<noteq> (RT_THREAD_CLOSE :: u8)"
  by simp_all

lemma lists_ok_removeAll: "lists_ok s \<Longrightarrow> queues s' = (\<lambda>q. removeAll t (queues s q)) \<Longrightarrow> lists_ok s'"
  by (auto simp: lists_ok_def distinct_removeAll)

lemma park_kinv:
  assumes "kinv s" "is_thread s t" "thread_stat s t = RT_THREAD_READY"
  shows "kinv (park t s)"
proof (rule kinv_step [OF assms(1), where t = t])
  note k = kinvD [OF assms(1)]
  note ti = k(3) [of t]
  note tt = tinv_threadD [OF ti assms(2)]
  let ?s1 = "upd_thr t (\<lambda>th. th\<lparr>th_stat :=
        RT_THREAD_SUSPEND OR (th_stat th AND NOT RT_THREAD_STAT_MASK)\<rparr>) s"
  show "lists_ok (park t s)" by (rule lists_ok_removeAll [OF k(1)]) simp
  have "bitmap_ok (rt_schedule_remove_thread t ?s1)"
  proof (rule remove_thread_bitmap)
    show "bitmap_ok ?s1" using k(2) by (simp add: bitmap_ok_def)
    show "prio_ok (thr ?s1 t)" using tt(2) [OF assms(3)] by simp
    show "t \<notin> set (queues ?s1 (ReadyQ i))" if "i \<noteq> unat (th_current_priority (thr ?s1 t))" for i
      using that ti unfolding tinv_def by auto
  qed
  then show "bitmap_ok (park t s)" by (simp add: park_def bitmap_ok_def)
  have "thread_timer_ok s t" using tt(4) assms(3) by simp
  then have "thread_timer_ok (park t s) t" by (rule thread_timer_ok_clear) simp_all
  then show "tinv (park t s) t"
    using tt(2) [OF assms(3)] assms(2)
    by (simp add: tinv_def thread_ok_def rt_object_get_type_def)
qed (use assms(1) in \<open>auto simp: kinv_def distinct_removeAll th_core_def\<close>)

lemma unpark_kinv:
  assumes "kinv s" "is_thread s t" "thread_stat s t = RT_THREAD_SUSPEND"
  shows "kinv (unpark t s)"
proof (rule kinv_step [OF assms(1), where t = t])
  note k = kinvD [OF assms(1)]
  note ti = k(3) [of t]
  note tt = tinv_threadD [OF ti assms(2)]
  let ?q = "ReadyQ (unat (th_current_priority (thr s t)))"
  have out: "t \<notin> set (queues s (ReadyQ p))" for p
    using tinv_linked(2) [OF ti, of "ReadyQ p"] assms(3) by auto
  have "lists_ok (tlist_insert_before ?q t (tlist_remove t s))" by (rule kq.move_back_ok [OF k(1)])
  moreover have "queues (tlist_insert_before ?q t (tlist_remove t s)) = queues (unpark t s)"
    by (auto simp: kdefs fun_eq_iff)
  ultimately show "lists_ok (unpark t s)" by (simp add: lists_ok_def)
  let ?s1 = "clear_activated (TimerOf t) (rt_timer_remove (TimerOf t) (tlist_remove t s))"
  have "bitmap_ok ?s1" using k(2) out by (simp add: bitmap_ok_def)
  then show "bitmap_ok (unpark t s)" unfolding unpark_def
    by (rule insert_thread_bitmap) (simp add: tt(3) [OF assms(3)])
  have "thread_timer_ok s t" using tt(4) assms(3) by simp
  then have "thread_timer_ok (unpark t s) t" by (rule thread_timer_ok_clear) simp_all
  then show "tinv (unpark t s) t"
    using tt(3) [OF assms(3)] assms(2)
    by (simp add: tinv_def thread_ok_def rt_object_get_type_def)
qed (use assms(1) in \<open>auto simp: kinv_def distinct_removeAll th_core_def\<close>)

lemma suspend_cases:
  assumes "kinv s" "rt_thread_suspend t s = Some (e, s')"
  obtains (ready) "is_thread s t" "thread_stat s t = RT_THREAD_READY" "e = RT_EOK" "s' = park t s"
  | (other) "is_thread s t" "thread_stat s t \<noteq> RT_THREAD_READY" "e = - RT_ERROR" "s' = s"
proof (cases "thread_stat s t = RT_THREAD_READY")
  case True
  have "is_thread s t" using assms(2) by (auto simp: rt_thread_suspend_def Some_bind_iff)
  then show ?thesis using ready suspend_eq [OF assms(1) _ True] True assms(2) by simp
next
  case False
  then have "is_thread s t \<and> e = - RT_ERROR \<and> s' = s"
    using assms(2) by (auto simp: rt_thread_suspend_def Some_bind_iff)
  then show ?thesis using other False by blast
qed

lemma resume_cases:
  assumes "kinv s" "rt_thread_resume t s = Some (e, s')"
  obtains (suspended) "is_thread s t" "thread_stat s t = RT_THREAD_SUSPEND" "e = RT_EOK" "s' = unpark t s"
  | (other) "is_thread s t" "thread_stat s t \<noteq> RT_THREAD_SUSPEND" "e = - RT_ERROR" "s' = s"
proof (cases "thread_stat s t = RT_THREAD_SUSPEND")
  case True
  have "is_thread s t" using assms(2) by (auto simp: rt_thread_resume_def Some_bind_iff)
  then show ?thesis using suspended resume_eq [OF assms(1) _ True] True assms(2) by simp
next
  case False
  then have "is_thread s t \<and> e = - RT_ERROR \<and> s' = s"
    using assms(2) by (auto simp: rt_thread_resume_def Some_bind_iff)
  then show ?thesis using other False by blast
qed

lemma suspend_kinv: "kinv s \<Longrightarrow> rt_thread_suspend t s = Some (e, s') \<Longrightarrow> kinv s'"
  by (rule suspend_cases [of s t e s']) (simp_all add: park_kinv)

lemma resume_kinv: "kinv s \<Longrightarrow> rt_thread_resume t s = Some (e, s') \<Longrightarrow> kinv s'"
  by (rule resume_cases [of s t e s']) (simp_all add: unpark_kinv)

lemma schedule_kinv:
  assumes "kinv s" "rt_schedule s = Some s'"
  shows "kinv s'"
proof -
  obtain p c where "s' = s\<lparr>cur_prio := p, current := c\<rparr>" using rt_schedule_frame [OF assms(2)] by blast
  then show ?thesis by (intro kinv_frame [OF assms(1)]) simp_all
qed

end
