(* ===== verification/Timer.thy ===== *)
theory Timer
  imports Thread_Base
begin

text \<open>
  The part of \<^verbatim>\<open>rt-thread/src/timer.c\<close> that runs threads: starting a timer, the timeout of a thread
  (\<open>rt_thread_timeout\<close> of \<^verbatim>\<open>thread.c\<close>) and the check of the hard timer list in the tick
  interrupt. The function of an application timer is the argument \<open>cb\<close>. The check is a loop that
  callbacks may prolong without end, so it is a partial function.

  The lemmas show that starting a thread's timer keeps the kernel invariant and the order of the
  list, and that one check at a tick fires exactly the timers that are due, in list order.
\<close>

section \<open>The code\<close>

definition timer_thread :: tid where "timer_thread = 0"

text \<open>The middle of \<open>rt_timer_start\<close>: compute the timeout tick, find the place, link, mark.\<close>

definition timer_link :: "oref \<Rightarrow> kern \<Rightarrow> kern" where
  "timer_link r s =
     (let timeout_tick = tick s + tm_init_tick (tmr s r);
          s1 = upd_tmr r (\<lambda>tm. tm\<lparr>tm_timeout_tick := timeout_tick\<rparr>) s;
          tt = (\<lambda>x. tm_timeout_tick (tmr s1 x));
          s2 = (if obj_flag (objs s1 r) AND RT_TIMER_FLAG_SOFT_TIMER \<noteq> 0
                then s1\<lparr>soft_timer_list := timer_insert tt r timeout_tick (soft_timer_list s1)\<rparr>
                else s1\<lparr>timer_list := timer_insert tt r timeout_tick (timer_list s1)\<rparr>)
      in upd_obj r (\<lambda>ob. ob\<lparr>obj_flag := obj_flag ob OR RT_TIMER_FLAG_ACTIVATED\<rparr>) s2)"

definition rt_timer_start :: "oref \<Rightarrow> kern \<Rightarrow> (rt_err_t \<times> kern) option" where
  "rt_timer_start r s = do {
     RT_ASSERT (rt_object_get_type r s = RT_Object_Class_Timer);
     let s1 = clear_activated r (rt_timer_remove r s);
     RT_ASSERT (tm_init_tick (tmr s1 r) < RT_TICK_MAX div 2);
     let s2 = timer_link r s1;
     if obj_flag (objs s2 r) AND RT_TIMER_FLAG_SOFT_TIMER \<noteq> 0 \<and>
        thread_stat s2 timer_thread \<noteq> RT_THREAD_READY
     then do {
       (_, s3) \<leftarrow> rt_thread_resume timer_thread s2;
       s4 \<leftarrow> rt_schedule s3;
       Some (RT_EOK, s4) }
     else Some (RT_EOK, s2) }"

definition rt_thread_timeout :: "tid \<Rightarrow> kern \<Rightarrow> kern option" where
  "rt_thread_timeout t s = do {
     RT_ASSERT (thread_stat s t = RT_THREAD_SUSPEND);
     RT_ASSERT (is_thread s t);
     let s1 = upd_thr t (\<lambda>th. th\<lparr>th_error := - RT_ETIMEOUT\<rparr>) s;
     let s2 = rt_schedule_insert_thread t (tlist_remove t s1);
     rt_schedule s2 }"

fun run_timeout :: "(nat \<Rightarrow> kern \<Rightarrow> kern option) \<Rightarrow> timeout_func \<Rightarrow> kern \<Rightarrow> kern option" where
  "run_timeout cb (Thread_timeout t) s = rt_thread_timeout t s"
| "run_timeout cb (User_timeout n) s = cb n s"

text \<open>One expired timer of \<open>rt_timer_check\<close> (and of \<open>rt_soft_timer_check\<close>) after its function ran.\<close>

definition timer_finish :: "oref \<Rightarrow> kern \<Rightarrow> kern option" where
  "timer_finish t s =
     (if obj_flag (objs s t) AND RT_TIMER_FLAG_PERIODIC \<noteq> 0 \<and> timer_activated s t
      then do { (_, s1) \<leftarrow> rt_timer_start t (clear_activated t s); Some s1 }
      else Some (clear_activated t s))"

partial_function (option) rt_timer_check_loop ::
    "(nat \<Rightarrow> kern \<Rightarrow> kern option) \<Rightarrow> u32 \<Rightarrow> kern \<Rightarrow> kern option" where
  "rt_timer_check_loop cb current_tick s =
     (case timer_list s of
        [] \<Rightarrow> Some s
      | t # _ \<Rightarrow>
          if current_tick - tm_timeout_tick (tmr s t) < RT_TICK_MAX div 2 then
            Option.bind (run_timeout cb (tm_func (tmr s t)) (rt_timer_remove t s)) (\<lambda>s1.
            Option.bind (timer_finish t s1) (\<lambda>s2.
              rt_timer_check_loop cb (tick s1) s2))
          else Some s)"

definition rt_timer_check :: "(nat \<Rightarrow> kern \<Rightarrow> kern option) \<Rightarrow> kern \<Rightarrow> kern option" where
  "rt_timer_check cb s = rt_timer_check_loop cb (tick s) s"

text \<open>The loop of \<open>rt_soft_timer_check\<close> walks the list from the node \<open>n\<close>, which it fetches before
  the expired timer is unlinked; the scheduler is unlocked while the function runs. \<open>rest\<close> are the
  nodes from \<open>n\<close> on. A node that left the list meanwhile is linked to itself: the code would stay on
  it, which is the \<open>None\<close> of \<open>soft_rest\<close>.\<close>

fun from_node :: "oref \<Rightarrow> oref list \<Rightarrow> oref list option" where
  "from_node n [] = None"
| "from_node n (x # xs) = (if x = n then Some (x # xs) else from_node n xs)"

partial_function (option) rt_soft_timer_loop ::
    "(nat \<Rightarrow> kern \<Rightarrow> kern option) \<Rightarrow> u32 \<Rightarrow> oref option \<Rightarrow> kern \<Rightarrow> kern option" where
  "rt_soft_timer_loop cb current_tick n s =
     (case n of
        None \<Rightarrow> Some s
      | Some t \<Rightarrow>
          if current_tick - tm_timeout_tick (tmr s t) < RT_TICK_MAX div 2 then
            Option.bind (from_node t (soft_timer_list s)) (\<lambda>rest.
            Option.bind (rt_exit_critical (rt_timer_remove t s)) (\<lambda>s1.
            Option.bind (run_timeout cb (tm_func (tmr s1 t)) s1) (\<lambda>s2.
            Option.bind (timer_finish t (rt_enter_critical s2)) (\<lambda>s3.
              rt_soft_timer_loop cb (tick s2)
                (case tl rest of [] \<Rightarrow> None | m # _ \<Rightarrow> Some m) s3))))
          else Some s)"

definition rt_soft_timer_check :: "(nat \<Rightarrow> kern \<Rightarrow> kern option) \<Rightarrow> kern \<Rightarrow> kern option" where
  "rt_soft_timer_check cb s = do {
     let s1 = rt_enter_critical s;
     s2 \<leftarrow> rt_soft_timer_loop cb (tick s)
        (case soft_timer_list s1 of [] \<Rightarrow> None | m # _ \<Rightarrow> Some m) s1;
     rt_exit_critical s2 }"

section \<open>Starting the timer of a suspended thread\<close>

lemma kinv_timers:
  assumes "kinv s" "queues s' = queues s" "ready_table s' = ready_table s" "ready_group s' = ready_group s"
    "distinct (timer_list s')" "distinct (soft_timer_list s')"
    "set (timer_list s') \<inter> set (soft_timer_list s') = {}"
    "\<And>t. TimerOf t \<in> set (timer_list s') \<longleftrightarrow> TimerOf t \<in> set (timer_list s)"
    "\<And>t. TimerOf t \<in> set (soft_timer_list s') \<longleftrightarrow> TimerOf t \<in> set (soft_timer_list s)"
    "\<And>t. th_core (thr s' t) = th_core (thr s t)"
    "\<And>t. obj_type (objs s' (Obj t)) = obj_type (objs s (Obj t))"
    "\<And>t. objs s' (TimerOf t) = objs s (TimerOf t)"
    "\<And>t. tm_func (tmr s' (TimerOf t)) = tm_func (tmr s (TimerOf t))"
  shows "kinv s'"
  by (rule kinv_step [of s _ undefined])
    (use assms tinv_cong [of s' undefined s] in \<open>simp_all add: kinv_def lists_ok_def bitmap_ok_def\<close>)

text \<open>\<open>rt_timer_start\<close> on a hard timer in closed form.\<close>

definition arm :: "oref \<Rightarrow> kern \<Rightarrow> kern" where
  "arm r s = timer_link r (clear_activated r (rt_timer_remove r s))"

lemma start_hard_eq:
  assumes "rt_object_get_type r s = RT_Object_Class_Timer"
    "obj_flag (objs s r) AND RT_TIMER_FLAG_SOFT_TIMER = 0"
    "tm_init_tick (tmr s r) < RT_TICK_MAX div 2"
  shows "rt_timer_start r s = Some (RT_EOK, arm r s)"
proof -
  have "obj_flag (objs (arm r s) r) AND 4 = 0"
    using assms(2) by (simp add: arm_def timer_link_def Let_def flag_clear_keeps bit.conj_disj_distrib2)
  then show ?thesis using assms(1,3)
    by (simp add: rt_timer_start_def arm_def)
qed

lemma arm_frame:
  assumes "obj_flag (objs s r) AND RT_TIMER_FLAG_SOFT_TIMER = 0"
  shows
  "objs (arm r s) = (objs s)(r := (objs s r)\<lparr>obj_flag := obj_flag (objs s r) AND NOT RT_TIMER_FLAG_ACTIVATED
     OR RT_TIMER_FLAG_ACTIVATED\<rparr>)"
  "containers (arm r s) = containers s"
  "tmr (arm r s) = (tmr s)(r := (tmr s r)\<lparr>tm_timeout_tick := tick s + tm_init_tick (tmr s r)\<rparr>)"
  "thr (arm r s) = thr s" "queues (arm r s) = queues s"
  "ready_table (arm r s) = ready_table s" "ready_group (arm r s) = ready_group s"
  "current (arm r s) = current s" "cur_prio (arm r s) = cur_prio s"
  "lock_nest (arm r s) = lock_nest s" "irq_nest (arm r s) = irq_nest s"
  "tick (arm r s) = tick s"
  "timer_list (arm r s) = timer_insert (\<lambda>x. tm_timeout_tick (tmr (arm r s) x)) r
     (tick s + tm_init_tick (tmr s r)) (removeAll r (timer_list s))"
  "soft_timer_list (arm r s) = removeAll r (soft_timer_list s)"
  using assms by (simp_all add: arm_def timer_link_def Let_def flag_clear_keeps)

lemma arm_kinv:
  assumes "kinv s" "is_thread s t" "thread_stat s t = RT_THREAD_SUSPEND"
  shows "kinv (arm (TimerOf t) s)"
proof -
  note k = kinvD [OF assms(1)]
  have tt: "thread_timer_ok s t" using tinv_threadD(4) [OF k(3) assms(2)] assms(3) by simp
  then have sf: "obj_flag (objs s (TimerOf t)) AND RT_TIMER_FLAG_SOFT_TIMER = 0"
    by (simp add: thread_timer_ok_def)
  note fr = arm_frame [OF sf]
  show ?thesis
  proof (rule kinv_step [OF assms(1), where t = t])
    show "tinv (arm (TimerOf t) s) t"
      using k(3) [of t] assms(2,3) tt
      by (simp add: tinv_def thread_ok_def thread_timer_ok_def rt_object_get_type_def
          rt_object_is_systemobject_def fr bit.conj_disj_distrib2 flag_clear_keeps)
  qed (use assms(1) in \<open>auto simp: fr kinv_def lists_ok_def bitmap_ok_def distinct_timer_insert distinct_removeAll\<close>)
qed

section \<open>The timeout of a thread\<close>

definition timed_out :: "rt_thread \<Rightarrow> rt_thread" where
  "timed_out th = th\<lparr>th_error := - RT_ETIMEOUT,
     th_stat := RT_THREAD_READY OR (th_stat th AND NOT RT_THREAD_STAT_MASK)\<rparr>"

definition wake :: "tid \<Rightarrow> kern \<Rightarrow> kern" where
  "wake t s = rt_schedule_insert_thread t (tlist_remove t
     (upd_thr t (\<lambda>th. th\<lparr>th_error := - RT_ETIMEOUT\<rparr>) s))"

lemma wake_frame [simp]:
  "objs (wake t s) = objs s" "containers (wake t s) = containers s" "tmr (wake t s) = tmr s"
  "thr (wake t s) = (thr s)(t := timed_out (thr s t))"
  "queues (wake t s) = (\<lambda>q. removeAll t (queues s q) @
     (if q = ReadyQ (unat (th_current_priority (thr s t))) then [t] else []))"
  "current (wake t s) = current s" "lock_nest (wake t s) = lock_nest s" "irq_nest (wake t s) = irq_nest s"
  "tick (wake t s) = tick s" "timer_list (wake t s) = timer_list s"
  "soft_timer_list (wake t s) = soft_timer_list s"
  by (simp_all add: wake_def Let_def fun_eq_iff timed_out_def)

lemma timed_out_simps [simp]:
  "th_error (timed_out th) = - RT_ETIMEOUT" "th_current_priority (timed_out th) = th_current_priority th"
  "th_stat (timed_out th) AND 15 = 1" "prio_ok (timed_out th) = prio_ok th"
  "rt_scheduler_stack_check (timed_out th) = rt_scheduler_stack_check th"
  by (simp_all add: timed_out_def rt_scheduler_stack_check_def prio_ok_def)

lemma wake_kinv:
  assumes "kinv s" "is_thread s t" "thread_stat s t = RT_THREAD_SUSPEND" "TimerOf t \<notin> set (timer_list s)"
  shows "kinv (wake t s)"
proof (rule kinv_step [OF assms(1), where t = t])
  note k = kinvD [OF assms(1)]
  note ti = k(3) [of t]
  note tt = tinv_threadD [OF ti assms(2)]
  let ?q = "ReadyQ (unat (th_current_priority (thr s t)))"
  have out: "t \<notin> set (queues s (ReadyQ p))" for p
    using tinv_linked(2) [OF ti, of "ReadyQ p"] assms(3) by auto
  have "lists_ok (tlist_insert_before ?q t (tlist_remove t s))" by (rule kq.move_back_ok [OF k(1)])
  moreover have "queues (tlist_insert_before ?q t (tlist_remove t s)) = queues (wake t s)"
    by (auto simp: kdefs fun_eq_iff)
  ultimately show "lists_ok (wake t s)" by (simp add: lists_ok_def)
  let ?s1 = "tlist_remove t (upd_thr t (\<lambda>th. th\<lparr>th_error := - RT_ETIMEOUT\<rparr>) s)"
  have "bitmap_ok ?s1" using k(2) out by (simp add: bitmap_ok_def)
  then show "bitmap_ok (wake t s)" unfolding wake_def
    by (rule insert_thread_bitmap) (simp add: tt(3) [OF assms(3)])
  show "tinv (wake t s) t"
    using tt(3,4) assms ti
    by (simp add: tinv_def thread_ok_def thread_timer_ok_def rt_object_get_type_def
        rt_object_is_systemobject_def)
qed (use assms(1) in \<open>auto simp: kinv_def th_core_def\<close>)

lemma timer_remove_kinv:
  assumes "kinv s"
  shows "kinv (rt_timer_remove r s)"
proof -
  have "tinv (rt_timer_remove r s) t" for t
    using kinvD(3) [OF assms, of t]
    by (auto simp: tinv_def thread_ok_def thread_timer_ok_def rt_object_get_type_def
        rt_object_is_systemobject_def)
  then show ?thesis using assms
    by (auto simp: kinv_def lists_ok_def bitmap_ok_def distinct_removeAll)
qed

lemma clear_activated_kinv:
  assumes "kinv s" "r \<notin> set (timer_list s)"
  shows "kinv (clear_activated r s)"
proof (cases r)
  case (Obj n)
  show ?thesis by (rule kinv_frame [OF assms(1)]) (simp_all add: Obj)
next
  case (TimerOf t)
  show ?thesis
  proof (rule kinv_step [OF assms(1), where t = t])
    show "tinv (clear_activated r s) t"
      using kinvD(3) [OF assms(1), of t] assms(2) TimerOf
      by (simp add: tinv_def thread_ok_def thread_timer_ok_def rt_object_get_type_def
          rt_object_is_systemobject_def flag_clear_keeps)
  qed (use assms(1) TimerOf in \<open>auto simp: kinv_def lists_ok_def bitmap_ok_def\<close>)
qed

text \<open>What \<open>rt_schedule\<close> needs to return: a running thread, and no overflowed stack.\<close>

definition sched_fine :: "kern \<Rightarrow> bool" where
  "sched_fine s \<longleftrightarrow> current s \<noteq> None \<and>
     (\<forall>t. is_thread s t \<longrightarrow> thread_stat s t \<in> {RT_THREAD_READY, RT_THREAD_SUSPEND} \<longrightarrow>
        rt_scheduler_stack_check (thr s t))"

lemma schedule_returns:
  assumes "kinv s" "sched_fine s" "t \<in> set (queues s (ReadyQ p))"
  obtains i c where "rt_schedule s = Some (s\<lparr>cur_prio := i, current := Some c\<rparr>)"
proof -
  have "stacks_ok s" unfolding stacks_ok_def
  proof (intro allI impI)
    fix q u assume "u \<in> set (queues s (ReadyQ q))"
    then have "is_thread s u" "thread_stat s u = RT_THREAD_READY"
      using tinv_linked [OF kinvD(3) [OF assms(1)], of u "ReadyQ q"] by simp_all
    then show "rt_scheduler_stack_check (thr s u)" using assms(2) by (simp add: sched_fine_def)
  qed
  moreover have "p < 256"
    using kinv_queue_prio [OF assms(1)] assms(3) prio_lt unfolding queue_prio_ok_def by blast
  moreover have c: "current s \<noteq> None" using assms(2) by (simp add: sched_fine_def)
  ultimately obtain s' where s': "rt_schedule s = Some s'"
    using rt_schedule_returns [OF kinvD(2) [OF assms(1)] _ assms(3)] by blast
  obtain r where r: "current s = Some r" using c by blast
  have idem: "s = s\<lparr>cur_prio := cur_prio s, current := Some r\<rparr>" using r by simp
  from s' show ?thesis
  proof (cases rule: rt_schedule_cases)
    case locked
    then show ?thesis using that [where i = "cur_prio s" and c = r] s' idem by simp
  next
    case (same p t)
    then show ?thesis using that [where i = "cur_prio s" and c = r] s' idem by simp
  next
    case (switch p t)
    then show ?thesis using that [where i = "of_nat p" and c = t] s' by simp
  qed
qed

section \<open>One check\<close>

text \<open>The effect of firing the timers of the threads \<open>fs\<close>, in that order: each leaves its list,
  gets the timeout error and joins the tail of its ready queue.\<close>

definition fired :: "tid list \<Rightarrow> kern \<Rightarrow> kern \<Rightarrow> bool" where
  "fired fs s s' \<longleftrightarrow>
     queues s' = (\<lambda>q. filter (\<lambda>t. t \<notin> set fs) (queues s q) @
       (case q of ReadyQ p \<Rightarrow> filter (\<lambda>t. unat (th_current_priority (thr s t)) = p) fs | _ \<Rightarrow> [])) \<and>
     thr s' = (\<lambda>t. if t \<in> set fs then timed_out (thr s t) else thr s t) \<and>
     tmr s' = tmr s \<and> tick s' = tick s \<and> lock_nest s' = lock_nest s \<and> irq_nest s' = irq_nest s \<and>
     containers s' = containers s \<and> soft_timer_list s' = soft_timer_list s \<and>
     (\<forall>r. obj_type (objs s' r) = obj_type (objs s r))"

fun timer_threads :: "oref list \<Rightarrow> tid list" where
  "timer_threads [] = []"
| "timer_threads (TimerOf t # rs) = t # timer_threads rs"
| "timer_threads (Obj n # rs) = timer_threads rs"

lemma set_timer_threads: "t \<in> set (timer_threads rs) \<longleftrightarrow> TimerOf t \<in> set rs"
  by (induction rs rule: timer_threads.induct) auto

lemma distinct_timer_threads: "distinct rs \<Longrightarrow> distinct (timer_threads rs)"
  by (induction rs rule: timer_threads.induct) (auto simp: set_timer_threads)

lemma fired_start:
  assumes "queues a = queues s" "thr a = thr s" "tmr a = tmr s" "tick a = tick s"
    "lock_nest a = lock_nest s" "irq_nest a = irq_nest s" "containers a = containers s"
    "soft_timer_list a = soft_timer_list s" "\<And>r. obj_type (objs a r) = obj_type (objs s r)"
  shows "fired fs a s' \<longleftrightarrow> fired fs s s'"
  unfolding fired_def assms ..

lemma filter_neq: "filter (\<lambda>u. u \<noteq> t) xs = removeAll t xs"
  by (induction xs) auto

lemma fired_Cons:
  assumes "fired [t] s s1" "fired fs s1 s'" "t \<notin> set fs"
  shows "fired (t # fs) s s'"
proof -
  have p: "th_current_priority (thr s1 u) = th_current_priority (thr s u)" for u
    using assms(1) by (simp add: fired_def)
  have "filter (\<lambda>u. u \<notin> set fs) (filter (\<lambda>u. u \<notin> set [t]) xs) = filter (\<lambda>u. u \<notin> set (t # fs)) xs" for xs
    by (auto intro: filter_cong)
  then have "queues s' q = filter (\<lambda>u. u \<notin> set (t # fs)) (queues s q) @
      (case q of ReadyQ p \<Rightarrow> filter (\<lambda>t. unat (th_current_priority (thr s t)) = p) (t # fs) | _ \<Rightarrow> [])" for q
    using assms p unfolding fired_def by (cases q) auto
  then show ?thesis using assms by (auto simp: fired_def fun_eq_iff)
qed

definition quiet :: "(nat \<Rightarrow> kern \<Rightarrow> kern option) \<Rightarrow> bool" where
  "quiet cb \<longleftrightarrow> (\<forall>n s. cb n s = Some s)"

definition one_shots :: "kern \<Rightarrow> bool" where
  "one_shots s \<longleftrightarrow> (\<forall>n. Obj n \<in> set (timer_list s) \<longrightarrow>
     (\<exists>k. tm_func (tmr s (Obj n)) = User_timeout k) \<and>
     obj_flag (objs s (Obj n)) AND RT_TIMER_FLAG_PERIODIC = 0)"

lemma fire_thread:
  assumes k: "kinv s" and f: "sched_fine s" and l: "timer_list s = TimerOf t # rs"
  obtains s1 s2 where "rt_thread_timeout t (rt_timer_remove (TimerOf t) s) = Some s1"
    "timer_finish (TimerOf t) s1 = Some s2" "tick s1 = tick s"
    "kinv s2" "sched_fine s2" "fired [t] s s2" "timer_list s2 = rs"
    "\<And>r. r \<noteq> TimerOf t \<Longrightarrow> objs s2 r = objs s r"
proof -
  let ?s = "rt_timer_remove (TimerOf t) s"
  have ti: "tinv s t" and d: "distinct (timer_list s)" using k by (simp_all add: kinv_def)
  have th: "is_thread s t" "thread_stat s t = RT_THREAD_SUSPEND" "timer_activated s (TimerOf t)"
    "TimerOf t \<notin> set (soft_timer_list s)"
    using ti l unfolding tinv_def by auto
  have tk: "thread_timer_ok s t" using tinv_threadD(4) [OF ti th(1)] th(2) by simp
  have k1: "kinv (wake t ?s)"
    by (rule wake_kinv [OF timer_remove_kinv [OF k]]) (use th in \<open>simp_all add: rt_object_get_type_def\<close>)
  have f1: "sched_fine (wake t ?s)" using f th
    by (auto simp: sched_fine_def rt_object_get_type_def)
  have "t \<in> set (queues (wake t ?s) (ReadyQ (unat (th_current_priority (thr s t)))))" by simp
  then obtain i c where sch: "rt_schedule (wake t ?s) = Some ((wake t ?s)\<lparr>cur_prio := i, current := Some c\<rparr>)"
    by (rule schedule_returns [OF k1 f1])
  let ?s1 = "(wake t ?s)\<lparr>cur_prio := i, current := Some c\<rparr>"
  have to: "rt_thread_timeout t ?s = Some ?s1"
    using th sch by (simp add: rt_thread_timeout_def wake_def rt_object_get_type_def)
  have fin: "timer_finish (TimerOf t) ?s1 = Some (clear_activated (TimerOf t) ?s1)"
    using tk by (simp add: timer_finish_def thread_timer_ok_def)
  have "kinv ?s1" by (rule kinv_frame [OF k1]) simp_all
  then have k2: "kinv (clear_activated (TimerOf t) ?s1)"
    by (rule clear_activated_kinv) (use d l in auto)
  have f2: "sched_fine (clear_activated (TimerOf t) ?s1)"
    using f1 by (auto simp: sched_fine_def rt_object_get_type_def)
  have fi: "fired [t] s (clear_activated (TimerOf t) ?s1)"
    using th(4) by (auto simp: fired_def fun_eq_iff filter_neq split: lhead.splits)
  show ?thesis using that [OF to fin _ k2 f2 fi] d l by simp
qed

lemma check_loop_fires:
  assumes "kinv s" "sched_fine s" "quiet cb" "one_shots s"
  shows "\<exists>s'. rt_timer_check_loop cb (tick s) s = Some s' \<and> kinv s' \<and> sched_fine s' \<and>
    fired (timer_threads (takeWhile (\<lambda>r. tick s - tm_timeout_tick (tmr s r) < RT_TICK_MAX div 2) (timer_list s))) s s' \<and>
    timer_list s' = dropWhile (\<lambda>r. tick s - tm_timeout_tick (tmr s r) < RT_TICK_MAX div 2) (timer_list s) \<and>
    (\<forall>r \<in> set (timer_list s'). objs s' r = objs s r)"
  using assms
proof (induction "timer_list s" arbitrary: s)
  case Nil
  then show ?case by (auto simp: rt_timer_check_loop.simps fired_def fun_eq_iff split: lhead.splits)
next
  case (Cons r rs)
  note l = Cons.hyps(2) [symmetric]
  have none: "fired [] s s" by (auto simp: fired_def fun_eq_iff split: lhead.splits)
  show ?case
  proof (cases "tick s - tm_timeout_tick (tmr s r) < RT_TICK_MAX div 2")
    case False
    then show ?thesis using l none Cons.prems by (simp add: rt_timer_check_loop.simps)
  next
    case due: True
    have d: "distinct (r # rs)" "r \<notin> set (soft_timer_list s)"
      using Cons.prems(1) l by (auto simp: kinv_def)
    show ?thesis
    proof (cases r)
      case (TimerOf t)
      obtain s1 s2 where a: "rt_thread_timeout t (rt_timer_remove (TimerOf t) s) = Some s1"
        "timer_finish (TimerOf t) s1 = Some s2" "tick s1 = tick s"
        "kinv s2" "sched_fine s2" "fired [t] s s2" "timer_list s2 = rs"
        "\<And>r. r \<noteq> TimerOf t \<Longrightarrow> objs s2 r = objs s r"
        using fire_thread [OF Cons.prems(1,2)] l TimerOf by metis
      have e: "tick s2 = tick s" "tmr s2 = tmr s" using a(6) by (simp_all add: fired_def)
      have o: "one_shots s2" using Cons.prems(4) l a(7,8) e by (auto simp: one_shots_def)
      have fn: "tm_func (tmr s r) = Thread_timeout t"
        using Cons.prems(1) l TimerOf tinv_threadD(4) [OF kinvD(3) [OF Cons.prems(1)], of t]
        by (auto simp: kinv_def tinv_def thread_timer_ok_def)
      have t: "t \<notin> set (timer_threads (takeWhile P rs))" for P
        using d TimerOf set_takeWhileD [of "TimerOf t" P rs] by (auto simp: set_timer_threads)
      from Cons.hyps(1) [OF a(7) [symmetric] a(4,5) Cons.prems(3) o]
      obtain s' where s': "rt_timer_check_loop cb (tick s) s2 = Some s'" "kinv s'" "sched_fine s'"
        "fired (timer_threads (takeWhile (\<lambda>r. tick s - tm_timeout_tick (tmr s r) < RT_TICK_MAX div 2) rs)) s2 s'"
        "timer_list s' = dropWhile (\<lambda>r. tick s - tm_timeout_tick (tmr s r) < RT_TICK_MAX div 2) rs"
        "\<forall>r \<in> set (timer_list s'). objs s' r = objs s2 r"
        unfolding a(7) e by blast
      have "\<forall>q \<in> set (timer_list s'). q \<noteq> r"
        using s'(5) d(1) set_dropWhileD [of r _ rs] by auto
      then have ob: "\<forall>r \<in> set (timer_list s'). objs s' r = objs s r" using s'(6) a(8) TimerOf by simp
      have "rt_timer_check_loop cb (tick s) s = Some s'"
        using l due a(1-3) s'(1) fn TimerOf by (subst rt_timer_check_loop.simps) simp
      then show ?thesis using s'(2,3,5) ob fired_Cons [OF a(6) s'(4) t] l due TimerOf by simp
    next
      case (Obj n)
      obtain k where k: "tm_func (tmr s r) = User_timeout k"
          "obj_flag (objs s r) AND RT_TIMER_FLAG_PERIODIC = 0"
        using Cons.prems(4) l Obj by (auto simp: one_shots_def)
      let ?s2 = "clear_activated r (rt_timer_remove r s)"
      have k2: "kinv ?s2"
        by (rule clear_activated_kinv [OF timer_remove_kinv [OF Cons.prems(1)]]) simp
      have l2: "timer_list ?s2 = rs" using l d by simp
      have f2: "sched_fine ?s2" using Cons.prems(2) by (auto simp: sched_fine_def rt_object_get_type_def)
      have o2: "one_shots ?s2" using Cons.prems(4) l d by (auto simp: one_shots_def)
      from Cons.hyps(1) [OF l2 [symmetric] k2 f2 Cons.prems(3) o2]
      obtain s' where s': "rt_timer_check_loop cb (tick s) ?s2 = Some s'" "kinv s'" "sched_fine s'"
        "fired (timer_threads (takeWhile (\<lambda>r. tick s - tm_timeout_tick (tmr s r) < RT_TICK_MAX div 2) rs)) ?s2 s'"
        "timer_list s' = dropWhile (\<lambda>r. tick s - tm_timeout_tick (tmr s r) < RT_TICK_MAX div 2) rs"
        "\<forall>r \<in> set (timer_list s'). objs s' r = objs ?s2 r"
        unfolding l2 by auto
      have "\<forall>q \<in> set (timer_list s'). q \<noteq> r"
        using s'(5) d(1) set_dropWhileD [of r _ rs] by auto
      then have ob: "\<forall>r \<in> set (timer_list s'). objs s' r = objs s r" using s'(6) by simp
      have "rt_timer_check_loop cb (tick s) s = Some s'"
        using l due k s'(1) Cons.prems(3)
        by (subst rt_timer_check_loop.simps) (simp add: quiet_def timer_finish_def)
      moreover have "fired (timer_threads (takeWhile (\<lambda>r. tick s - tm_timeout_tick (tmr s r) < RT_TICK_MAX div 2) rs)) s s'"
        using fired_start [of ?s2 s, THEN iffD1, OF _ _ _ _ _ _ _ _ _ s'(4)] d(2) by simp
      ultimately show ?thesis using s'(2,3,5) ob l due Obj by simp
    qed
  qed
qed

section \<open>The order of the list over time\<close>

text \<open>Every pending timeout lies less than half the tick range ahead, in ascending order.\<close>

definition pending_ok :: "kern \<Rightarrow> bool" where
  "pending_ok s \<longleftrightarrow> ordered_from (tick s) (\<lambda>r. tm_timeout_tick (tmr s r)) (timer_list s)"

lemma ordered_from_cong:
  "(\<And>r. r \<in> set ts \<Longrightarrow> f r = g r) \<Longrightarrow> ordered_from b f ts = ordered_from b g ts"
  by (simp add: ordered_from_def cong: map_cong)

lemma ordered_from_filter: "ordered_from b tt ts \<Longrightarrow> ordered_from b tt (filter P ts)"
  by (auto simp: ordered_from_def sorted_filter)

lemma ordered_from_removeAll: "ordered_from b tt ts \<Longrightarrow> ordered_from b tt (removeAll r ts)"
  unfolding removeAll_filter_not_eq by (rule ordered_from_filter)

lemma arm_pending:
  assumes "pending_ok s" "obj_flag (objs s r) AND RT_TIMER_FLAG_SOFT_TIMER = 0"
    "tm_init_tick (tmr s r) < RT_TICK_MAX div 2"
  shows "pending_ok (arm r s)"
proof -
  note fr = arm_frame [OF assms(2)]
  have "ordered_from (tick s) (\<lambda>x. tm_timeout_tick (tmr s x)) (removeAll r (timer_list s))"
    using assms(1) by (auto simp: pending_ok_def intro: ordered_from_removeAll)
  then have "ordered_from (tick s) (\<lambda>x. tm_timeout_tick (tmr (arm r s) x)) (removeAll r (timer_list s))"
    by (subst ordered_from_cong [where g = "\<lambda>x. tm_timeout_tick (tmr s x)"]) (auto simp: fr)
  then have "ordered_from (tick s) (\<lambda>x. tm_timeout_tick (tmr (arm r s) x))
      (timer_insert (\<lambda>x. tm_timeout_tick (tmr (arm r s) x)) r (tick s + tm_init_tick (tmr s r))
        (removeAll r (timer_list s)))"
    by (rule timer_insert_ordered) (use assms(3) in \<open>simp_all add: fr\<close>)
  then show ?thesis unfolding pending_ok_def fr(12) fr(13) .
qed

lemma sorted_le_split:
  assumes "sorted (map (f :: _ \<Rightarrow> nat) xs)"
  shows "takeWhile (\<lambda>x. f x \<le> k) xs = filter (\<lambda>x. f x \<le> k) xs \<and>
    dropWhile (\<lambda>x. f x \<le> k) xs = filter (\<lambda>x. \<not> f x \<le> k) xs"
  using assms
proof (induction xs)
  case (Cons x xs)
  show ?case
  proof (cases "f x \<le> k")
    case False
    then have "\<forall>y \<in> set xs. \<not> f y \<le> k" using Cons.prems by auto
    then show ?thesis using False by (simp add: filter_empty_conv filter_id_conv)
  qed (use Cons in simp)
qed simp

lemma due_iff:
  fixes T k :: u32
  assumes "k - (T - 1) < 0x7fffffff"
  shows "T - k < 0x7fffffff \<longleftrightarrow> unat (k - (T - 1)) \<le> 1"
proof (cases "k - (T - 1) = 1")
  case True
  have "T - k = 1 - (k - (T - 1))" by simp
  then have "T - k = 0" using True by simp
  then show ?thesis using True by simp
next
  case False
  have "1 - (k - (T - 1)) < 0x7fffffff \<longleftrightarrow> unat (k - (T - 1)) < unat (1 :: u32)"
    using False by (intro word_diff_less [OF _ assms]) auto
  moreover have "1 - (k - (T - 1)) = T - k" by simp
  moreover have "unat (k - (T - 1)) \<noteq> 1" using False by (metis unat_1 word_unat_eq_iff)
  ultimately show ?thesis by auto
qed

lemma unat_pred: "x \<noteq> 0 \<Longrightarrow> unat (x - 1 :: u32) = unat x - 1"
  by (simp add: unat_minus_one)

text \<open>Seen from the previous tick, the timers due at tick \<open>T\<close> are a prefix of the list, and the rest
  is ordered from \<open>T\<close>.\<close>

lemma due_prefix:
  fixes T :: u32
  assumes "ordered_from (T - 1) tt ts"
  shows "takeWhile (\<lambda>r. T - tt r < RT_TICK_MAX div 2) ts = filter (\<lambda>r. unat (tt r - (T - 1)) \<le> 1) ts"
    "dropWhile (\<lambda>r. T - tt r < RT_TICK_MAX div 2) ts = filter (\<lambda>r. 1 < unat (tt r - (T - 1))) ts"
    "ordered_from T tt (dropWhile (\<lambda>r. T - tt r < RT_TICK_MAX div 2) ts)"
proof -
  have d: "T - tt r < RT_TICK_MAX div 2 \<longleftrightarrow> unat (tt r - (T - 1)) \<le> 1" if "r \<in> set ts" for r
    using that assms due_iff [of "tt r" T] by (auto simp: ordered_from_def)
  have so: "sorted (map (\<lambda>r. unat (tt r - (T - 1))) ts)" using assms by (simp add: ordered_from_def)
  have "takeWhile (\<lambda>r. T - tt r < RT_TICK_MAX div 2) ts = takeWhile (\<lambda>r. unat (tt r - (T - 1)) \<le> 1) ts"
    using d by (intro takeWhile_cong) auto
  then show "takeWhile (\<lambda>r. T - tt r < RT_TICK_MAX div 2) ts = filter (\<lambda>r. unat (tt r - (T - 1)) \<le> 1) ts"
    using sorted_le_split [OF so] by simp
  have "dropWhile (\<lambda>r. T - tt r < RT_TICK_MAX div 2) ts = dropWhile (\<lambda>r. unat (tt r - (T - 1)) \<le> 1) ts"
    using d by (intro dropWhile_cong) auto
  then show e: "dropWhile (\<lambda>r. T - tt r < RT_TICK_MAX div 2) ts = filter (\<lambda>r. 1 < unat (tt r - (T - 1))) ts"
    using sorted_le_split [OF so] by (simp add: not_le)
  let ?us = "filter (\<lambda>r. 1 < unat (tt r - (T - 1))) ts"
  have step: "unat (tt r - T) = unat (tt r - (T - 1)) - 1" if "1 < unat (tt r - (T - 1))" for r
  proof -
    have "tt r - (T - 1) \<noteq> 0" using that by auto
    moreover have "tt r - T = tt r - (T - 1) - 1" by simp
    ultimately show ?thesis using unat_pred by presburger
  qed
  have "ordered_from T tt ?us" unfolding ordered_from_def
  proof
    have "sorted (map (\<lambda>r. unat (tt r - (T - 1))) ?us)" using so by (rule sorted_filter)
    then have "sorted (map (\<lambda>n. n - 1) (map (\<lambda>r. unat (tt r - (T - 1))) ?us))"
      by (rule sorted_map_mono) (auto intro: mono_onI)
    moreover have "map (\<lambda>n. n - 1) (map (\<lambda>r. unat (tt r - (T - 1))) ?us) = map (\<lambda>r. unat (tt r - T)) ?us"
      using step by simp
    ultimately show "sorted (map (\<lambda>r. unat (tt r - T)) ?us)" by (simp only:)
    show "\<forall>r \<in> set ?us. tt r - T < RT_TICK_MAX div 2"
      using assms step by (fastforce simp: ordered_from_def word_less_nat_alt)
  qed
  then show "ordered_from T tt (dropWhile (\<lambda>r. T - tt r < RT_TICK_MAX div 2) ts)" using e by simp
qed

end
