(* ===== verification/Thread.thy ===== *)
theory Thread
  imports Timer
begin

text \<open>
  The rest of \<^verbatim>\<open>rt-thread/src/thread.c\<close>: initialisation, startup, yield, sleep, control, exit,
  detach and deletion of a thread, with the initial stack frame of
  \<^verbatim>\<open>rt-thread/libcpu/arm/cortex-m4/cpuport.c\<close> (\<open>USE_FPU\<close> is set by the build) and the millisecond
  conversion of \<^verbatim>\<open>clock.c\<close>.

  A function that blocks is cut at its call of \<open>rt_schedule\<close>: it returns \<open>Parked t\<close>, and what the
  thread \<open>t\<close> does when it runs again is the definition with the suffix \<open>_wake\<close>.
\<close>

section \<open>The code\<close>

text \<open>The top of the new stack: 17 words, and the stack pointer below them.\<close>

definition rt_hw_stack_init :: "u32 \<Rightarrow> u32 \<Rightarrow> u32 \<Rightarrow> u32 \<Rightarrow> u32 \<times> u32 list" where
  "rt_hw_stack_init tentry parameter stack_addr texit =
     (let stk = stack_addr + 4;
          stk = RT_ALIGN_DOWN stk 8;
          stk = stk - 68
      in (stk, 0 # replicate 8 0xdeadbeef @ [parameter, 0, 0, 0, 0, texit, tentry, 0x01000000]))"

definition word_byte :: "u32 \<Rightarrow> nat \<Rightarrow> u8" where
  "word_byte w i = ucast (drop_bit (8 * i) w)"

text \<open>The lowest byte of the stack, which the overflow check compares with the fill character: the
  fill, unless the initial frame already covers it.\<close>

definition initial_magic :: "u32 \<Rightarrow> u32 \<times> u32 list \<Rightarrow> u8" where
  "initial_magic stack_start f =
     (let off = unat (stack_start - fst f)
      in if off < 68 then word_byte (snd f ! (off div 4)) (off mod 4) else 0x23)"

definition rt_thread_init0 ::
    "tid \<Rightarrow> u32 \<Rightarrow> u32 \<Rightarrow> u32 \<Rightarrow> u32 \<Rightarrow> u8 \<Rightarrow> u32 \<Rightarrow> u32 \<Rightarrow> kern \<Rightarrow> (rt_err_t \<times> kern) option" where
  "rt_thread_init0 t entry parameter stack_start stack_size priority tik texit s = do {
     let f = rt_hw_stack_init entry parameter (stack_start + stack_size - 4) texit;
     let s1 = upd_thr t (\<lambda>th. th\<lparr>th_entry := entry, th_parameter := parameter,
        th_stack_addr := stack_start, th_stack_size := stack_size,
        th_stack_magic := initial_magic stack_start f, th_sp := fst f,
        th_init_priority := priority, th_current_priority := priority,
        th_number_mask := 0, th_number := 0, th_high_mask := 0,
        th_init_tick := tik, th_remaining_tick := tik,
        th_error := RT_EOK, th_stat := RT_THREAD_INIT, th_cleanup := False, th_user_data := 0\<rparr>) s;
     s2 \<leftarrow> rt_timer_init (TimerOf t) (obj_name (objs s1 (Obj t))) (Thread_timeout t) 0
             RT_TIMER_FLAG_ONE_SHOT s1;
     Some (RT_EOK, s2) }"

definition rt_thread_init ::
    "tid \<Rightarrow> string \<Rightarrow> u32 \<Rightarrow> u32 \<Rightarrow> u32 \<Rightarrow> u32 \<Rightarrow> u8 \<Rightarrow> u32 \<Rightarrow> u32 \<Rightarrow> kern \<Rightarrow> (rt_err_t \<times> kern) option" where
  "rt_thread_init t name entry parameter stack_start stack_size priority tik texit s = do {
     RT_ASSERT (stack_start \<noteq> 0);
     s1 \<leftarrow> rt_object_init (Obj t) RT_Object_Class_Thread name s;
     rt_thread_init0 t entry parameter stack_start stack_size priority tik texit s1 }"

definition rt_thread_startup :: "tid \<Rightarrow> kern \<Rightarrow> (rt_err_t \<times> kern) option" where
  "rt_thread_startup t s = do {
     RT_ASSERT (thread_stat s t = RT_THREAD_INIT);
     RT_ASSERT (is_thread s t);
     let s1 = upd_thr t (\<lambda>th. (set_prio_attr (th\<lparr>th_current_priority := th_init_priority th\<rparr>))
                \<lparr>th_stat := RT_THREAD_SUSPEND\<rparr>) s;
     (_, s2) \<leftarrow> rt_thread_resume t s1;
     if rt_thread_self s2 \<noteq> None then do { s3 \<leftarrow> rt_schedule s2; Some (RT_EOK, s3) }
     else Some (RT_EOK, s2) }"

text \<open>The end of \<open>rt_thread_exit\<close>, \<open>rt_thread_detach\<close> and \<open>rt_thread_delete\<close>.\<close>

definition rt_thread_detach :: "tid \<Rightarrow> kern \<Rightarrow> (rt_err_t \<times> kern) option" where
  "rt_thread_detach t s = do {
     RT_ASSERT (is_thread s t);
     RT_ASSERT (rt_object_is_systemobject (Obj t) s);
     let s1 = (if thread_stat s t \<noteq> RT_THREAD_INIT then rt_schedule_remove_thread t s else s);
     (_, s2) \<leftarrow> rt_timer_detach (TimerOf t) s1;
     let s3 = upd_thr t (\<lambda>th. th\<lparr>th_stat := RT_THREAD_CLOSE\<rparr>) s2;
     if rt_object_is_systemobject (Obj t) s3 \<and> \<not> th_cleanup (thr s3 t)
     then Some (RT_EOK, rt_object_detach (Obj t) s3)
     else Some (RT_EOK, tlist_insert_after DefunctQ t s3) }"

definition rt_thread_delete :: "tid \<Rightarrow> kern \<Rightarrow> (rt_err_t \<times> kern) option" where
  "rt_thread_delete t s = do {
     RT_ASSERT (is_thread s t);
     RT_ASSERT (\<not> rt_object_is_systemobject (Obj t) s);
     let s1 = (if thread_stat s t \<noteq> RT_THREAD_INIT then rt_schedule_remove_thread t s else s);
     (_, s2) \<leftarrow> rt_timer_detach (TimerOf t) s1;
     let s3 = upd_thr t (\<lambda>th. th\<lparr>th_stat := RT_THREAD_CLOSE\<rparr>) s2;
     Some (RT_EOK, tlist_insert_after DefunctQ t s3) }"

definition rt_thread_exit :: "kern \<Rightarrow> kern option" where
  "rt_thread_exit s = do {
     t \<leftarrow> current s;
     let s1 = upd_thr t (\<lambda>th. th\<lparr>th_stat := RT_THREAD_CLOSE\<rparr>) (rt_schedule_remove_thread t s);
     (_, s2) \<leftarrow> rt_timer_detach (TimerOf t) s1;
     let s3 = (if rt_object_is_systemobject (Obj t) s2 \<and> \<not> th_cleanup (thr s2 t)
               then rt_object_detach (Obj t) s2
               else tlist_insert_after DefunctQ t s2);
     rt_schedule s3 }"

definition rt_thread_create ::
    "(nat \<Rightarrow> 'h \<Rightarrow> nat option \<times> 'h) \<Rightarrow> (nat \<Rightarrow> 'h \<Rightarrow> 'h option) \<Rightarrow> (u8 \<Rightarrow> nat) \<Rightarrow> string \<Rightarrow> u32 \<Rightarrow> u32 \<Rightarrow>
     u32 \<Rightarrow> u8 \<Rightarrow> u32 \<Rightarrow> u32 \<Rightarrow> kern \<times> 'h \<Rightarrow> (tid option \<times> kern \<times> 'h) option" where
  "rt_thread_create malloc free object_size name entry parameter stack_size priority tik texit sh = do {
     (thread, s1, h1) \<leftarrow> rt_object_allocate malloc object_size RT_Object_Class_Thread name sh;
     (case thread of
        None \<Rightarrow> Some (None, s1, h1)
      | Some t \<Rightarrow>
          (case malloc (unat stack_size) h1 of
             (None, h2) \<Rightarrow> do {
               (s2, h3) \<leftarrow> rt_object_delete free t (s1, h2);
               Some (None, s2, h3) }
           | (Some stack_start, h2) \<Rightarrow> do {
               (_, s2) \<leftarrow> rt_thread_init0 t entry parameter (of_nat stack_start) stack_size priority tik texit s1;
               Some (Some t, s2, h2) })) }"

text \<open>\<open>tlist.next \<noteq> tlist.prev\<close> says that the ready queue holds another thread (\<open>neighbours_differ\<close>).\<close>

definition rt_thread_yield :: "kern \<Rightarrow> (rt_err_t \<times> kern) option" where
  "rt_thread_yield s = do {
     t \<leftarrow> current s;
     let q = ReadyQ (unat (th_current_priority (thr s t)));
     if thread_stat s t = RT_THREAD_READY \<and> t \<in> set (queues s q) \<and> length (queues s q) > 1
     then do {
       let s1 = tlist_insert_before q t (tlist_remove t s);
       s2 \<leftarrow> rt_schedule s1;
       Some (RT_EOK, s2) }
     else Some (RT_EOK, s) }"

datatype kret = Returned rt_err_t | Parked tid

definition rt_thread_sleep :: "u32 \<Rightarrow> kern \<Rightarrow> (kret \<times> kern) option" where
  "rt_thread_sleep tik s = do {
     t \<leftarrow> current s;
     RT_ASSERT (is_thread s t);
     (_, s1) \<leftarrow> rt_thread_suspend t s;
     (_, _, s2) \<leftarrow> rt_timer_control (TimerOf t) RT_TIMER_CTRL_SET_TIME tik s1;
     (_, s3) \<leftarrow> rt_timer_start (TimerOf t) s2;
     s4 \<leftarrow> rt_schedule s3;
     Some (Parked t, s4) }"

definition rt_thread_sleep_wake :: "tid \<Rightarrow> kern \<Rightarrow> rt_err_t \<times> kern" where
  "rt_thread_sleep_wake t s =
     (RT_EOK, if th_error (thr s t) = - RT_ETIMEOUT
              then upd_thr t (\<lambda>th. th\<lparr>th_error := RT_EOK\<rparr>) s else s)"

definition rt_thread_delay :: "u32 \<Rightarrow> kern \<Rightarrow> (kret \<times> kern) option" where
  "rt_thread_delay tik s = rt_thread_sleep tik s"

abbreviation (input) RT_TICK_PER_SECOND :: int where "RT_TICK_PER_SECOND \<equiv> 100"

text \<open>The parameter is a signed 32-bit integer; the quotients are those of C.\<close>

definition rt_tick_from_millisecond :: "u32 \<Rightarrow> u32" where
  "rt_tick_from_millisecond ms =
     (if sint ms < 0 then RT_WAITING_FOREVER
      else of_int (RT_TICK_PER_SECOND * (sint ms div 1000)) +
           of_int ((RT_TICK_PER_SECOND * (sint ms mod 1000) + 999) div 1000))"

definition rt_thread_mdelay :: "u32 \<Rightarrow> kern \<Rightarrow> (kret \<times> kern) option" where
  "rt_thread_mdelay ms s = (let tik = rt_tick_from_millisecond ms in rt_thread_sleep tik s)"

abbreviation (input) RT_THREAD_CTRL_STARTUP :: nat where "RT_THREAD_CTRL_STARTUP \<equiv> 0"
abbreviation (input) RT_THREAD_CTRL_CLOSE :: nat where "RT_THREAD_CTRL_CLOSE \<equiv> 1"
abbreviation (input) RT_THREAD_CTRL_CHANGE_PRIORITY :: nat where "RT_THREAD_CTRL_CHANGE_PRIORITY \<equiv> 2"

definition rt_thread_control :: "tid \<Rightarrow> nat \<Rightarrow> u8 \<Rightarrow> kern \<Rightarrow> (rt_err_t \<times> kern) option" where
  "rt_thread_control t cmd arg s = do {
     RT_ASSERT (is_thread s t);
     if cmd = RT_THREAD_CTRL_CHANGE_PRIORITY then
       (if thread_stat s t = RT_THREAD_READY then
          (let s1 = rt_schedule_remove_thread t s;
               s2 = upd_thr t (\<lambda>th. set_prio_attr (th\<lparr>th_current_priority := arg\<rparr>)) s1
           in Some (RT_EOK, rt_schedule_insert_thread t s2))
        else Some (RT_EOK, upd_thr t (\<lambda>th. set_prio_attr (th\<lparr>th_current_priority := arg\<rparr>)) s))
     else if cmd = RT_THREAD_CTRL_STARTUP then rt_thread_startup t s
     else if cmd = RT_THREAD_CTRL_CLOSE then rt_thread_delete t s
     else Some (RT_EOK, s) }"

definition rt_thread_find :: "string \<Rightarrow> kern \<Rightarrow> (oref option \<times> kern) option" where
  "rt_thread_find name s = do {
     let s1 = (if rt_thread_self s \<noteq> None then rt_enter_critical s else s);
     information \<leftarrow> rt_object_get_information RT_Object_Class_Thread;
     let found = container_find information name s1;
     s2 \<leftarrow> (if rt_thread_self s1 \<noteq> None then rt_exit_critical s1 else Some s1);
     Some (found, s2) }"

section \<open>Lemmas\<close>

lemma object_detach_frame [simp]:
  "objs (rt_object_detach r s) = (objs s)(r := (objs s r)\<lparr>obj_type := 0\<rparr>)"
  "thr (rt_object_detach r s) = thr s" "tmr (rt_object_detach r s) = tmr s"
  "queues (rt_object_detach r s) = queues s" "ready_table (rt_object_detach r s) = ready_table s"
  "ready_group (rt_object_detach r s) = ready_group s" "current (rt_object_detach r s) = current s"
  "cur_prio (rt_object_detach r s) = cur_prio s" "lock_nest (rt_object_detach r s) = lock_nest s"
  "irq_nest (rt_object_detach r s) = irq_nest s" "tick (rt_object_detach r s) = tick s"
  "timer_list (rt_object_detach r s) = timer_list s"
  "soft_timer_list (rt_object_detach r s) = soft_timer_list s"
  by (simp_all add: rt_object_detach_def container_remove_def)

lemma insert_after_frame [simp]:
  "objs (tlist_insert_after q t s) = objs s" "thr (tlist_insert_after q t s) = thr s"
  "tmr (tlist_insert_after q t s) = tmr s"
  "queues (tlist_insert_after q t s) = (queues s)(q := t # queues s q)"
  "ready_table (tlist_insert_after q t s) = ready_table s"
  "ready_group (tlist_insert_after q t s) = ready_group s" "current (tlist_insert_after q t s) = current s"
  "lock_nest (tlist_insert_after q t s) = lock_nest s" "irq_nest (tlist_insert_after q t s) = irq_nest s"
  "tick (tlist_insert_after q t s) = tick s" "timer_list (tlist_insert_after q t s) = timer_list s"
  "soft_timer_list (tlist_insert_after q t s) = soft_timer_list s"
  "containers (tlist_insert_after q t s) = containers s"
  by (simp_all add: kdefs)

lemma insert_before_frame [simp]:
  "objs (tlist_insert_before q t s) = objs s" "thr (tlist_insert_before q t s) = thr s"
  "tmr (tlist_insert_before q t s) = tmr s"
  "queues (tlist_insert_before q t s) = (queues s)(q := queues s q @ [t])"
  "ready_table (tlist_insert_before q t s) = ready_table s"
  "ready_group (tlist_insert_before q t s) = ready_group s" "current (tlist_insert_before q t s) = current s"
  "lock_nest (tlist_insert_before q t s) = lock_nest s" "irq_nest (tlist_insert_before q t s) = irq_nest s"
  "tick (tlist_insert_before q t s) = tick s" "timer_list (tlist_insert_before q t s) = timer_list s"
  "soft_timer_list (tlist_insert_before q t s) = soft_timer_list s"
  "containers (tlist_insert_before q t s) = containers s"
  by (simp_all add: kdefs)

lemma remove_thread_parts:
  assumes "kinv s" "is_thread s t" "thread_stat s t \<in> {RT_THREAD_READY, RT_THREAD_SUSPEND}"
  shows "lists_ok (rt_schedule_remove_thread t s)" "bitmap_ok (rt_schedule_remove_thread t s)"
proof -
  note k = kinvD [OF assms(1)]
  note ti = k(3) [of t]
  show "lists_ok (rt_schedule_remove_thread t s)" by (rule remove_thread_lists [OF k(1)])
  have "prio_ok (thr s t)" using tinv_threadD [OF ti assms(2)] assms(3) by auto
  then show "bitmap_ok (rt_schedule_remove_thread t s)"
    using ti by (intro remove_thread_bitmap [OF k(2)]) (auto simp: tinv_def)
qed

lemma tinv_unlinked:
  assumes "tinv s t" "thread_stat s t = RT_THREAD_INIT"
  shows "t \<notin> set (queues s q)"
proof
  assume "t \<in> set (queues s q)"
  then have "thread_stat s t = head_stat q" by (rule tinv_linked(2) [OF assms(1)])
  then show False using assms(2) by (cases q) simp_all
qed

subsection \<open>Startup\<close>

lemma startup_suspended_kinv:
  assumes "kinv s" "is_thread s t" "thread_stat s t = RT_THREAD_INIT"
  shows "kinv (upd_thr t (\<lambda>th. (set_prio_attr (th\<lparr>th_current_priority := th_init_priority th\<rparr>))
                \<lparr>th_stat := RT_THREAD_SUSPEND\<rparr>) s)"
proof -
  note k = kinvD [OF assms(1)]
  note ti = k(3) [of t]
  have tk: "thread_timer_ok s t" using tinv_threadD(4) [OF ti assms(2)] assms(3) by simp
  have nt: "TimerOf t \<notin> set (timer_list s)" using ti assms(3) by (auto simp: tinv_def)
  show ?thesis
  proof (rule kinv_step [OF assms(1), where t = t])
    show "tinv (upd_thr t (\<lambda>th. (set_prio_attr (th\<lparr>th_current_priority := th_init_priority th\<rparr>))
                \<lparr>th_stat := RT_THREAD_SUSPEND\<rparr>) s) t"
      using tk nt tinv_unlinked [OF ti assms(3)] tinv_timer(2) [OF ti]
        set_prio_attr_ok [of "(thr s t)\<lparr>th_current_priority := th_init_priority (thr s t)\<rparr>"]
      by (simp add: tinv_def thread_ok_def thread_timer_ok_def rt_object_get_type_def
          rt_object_is_systemobject_def)
  qed (use assms(1) in \<open>auto simp: kinv_def lists_ok_def bitmap_ok_def\<close>)
qed

lemma startup_effect:
  assumes "kinv s" "is_thread s t" "thread_stat s t = RT_THREAD_INIT" "rt_thread_startup t s = Some (e, s')"
  shows "e = RT_EOK \<and> kinv s' \<and> thread_stat s' t = RT_THREAD_READY \<and>
    t = last (queues s' (ReadyQ (unat (th_init_priority (thr s t)))))"
proof -
  let ?s1 = "upd_thr t (\<lambda>th. (set_prio_attr (th\<lparr>th_current_priority := th_init_priority th\<rparr>))
                \<lparr>th_stat := RT_THREAD_SUSPEND\<rparr>) s"
  have k1: "kinv ?s1" by (rule startup_suspended_kinv [OF assms(1-3)])
  have r: "rt_thread_resume t ?s1 = Some (RT_EOK, unpark t ?s1)"
    by (rule resume_eq [OF k1]) (use assms(2) in \<open>simp_all add: rt_object_get_type_def\<close>)
  have k2: "kinv (unpark t ?s1)"
    by (rule unpark_kinv [OF k1]) (use assms(2) in \<open>simp_all add: rt_object_get_type_def\<close>)
  have l: "th_stat (thr (unpark t ?s1) t) AND 15 = 1"
    "last (queues (unpark t ?s1) (ReadyQ (unat (th_init_priority (thr s t))))) = t"
    by simp_all
  have "e = RT_EOK \<and> (s' = unpark t ?s1 \<or> rt_schedule (unpark t ?s1) = Some s')"
    using assms(2-4) r by (auto simp: rt_thread_startup_def Some_bind_iff Let_def split: if_splits)
  then show ?thesis
  proof (elim conjE disjE)
    assume "e = RT_EOK" "s' = unpark t ?s1"
    then show ?thesis using k2 l by simp
  next
    assume e: "e = RT_EOK" and sc: "rt_schedule (unpark t ?s1) = Some s'"
    then obtain p c where s': "s' = (unpark t ?s1)\<lparr>cur_prio := p, current := c\<rparr>"
      using rt_schedule_frame by blast
    have "kinv s'" using schedule_kinv [OF k2 sc] .
    then show ?thesis using e l s' by simp
  qed
qed

subsection \<open>Yield\<close>

lemma kinv_requeue:
  assumes "kinv s" "lists_ok s'" "\<And>q u. u \<in> set (queues s' q) \<longleftrightarrow> u \<in> set (queues s q)"
    "ready_table s' = ready_table s" "ready_group s' = ready_group s"
    "thr s' = thr s" "objs s' = objs s" "tmr s' = tmr s" "timer_list s' = timer_list s"
    "soft_timer_list s' = soft_timer_list s"
  shows "kinv s'"
proof -
  have "queues s' q = [] \<longleftrightarrow> queues s q = []" for q
    using assms(3) by (metis last_in_set list.set(1) empty_iff)
  then have "bitmap_ok s'" by (intro bitmap_same [OF kinvD(2) [OF assms(1)]]) (use assms in auto)
  moreover have "tinv s' t" for t
    using tinv_cong [of s' t s] assms(3,6-10) kinvD(3) [OF assms(1)] by simp
  ultimately show ?thesis using assms by (simp add: kinv_def)
qed

lemma yield_cases:
  assumes "rt_thread_yield s = Some (e, s')"
  obtains (alone) "e = RT_EOK" "s' = s"
  | (rotate) t q where "current s = Some t" "q = ReadyQ (unat (th_current_priority (thr s t)))"
     "t \<in> set (queues s q)" "e = RT_EOK"
     "rt_schedule (tlist_insert_before q t (tlist_remove t s)) = Some s'"
  using assms unfolding rt_thread_yield_def Some_bind_iff Let_def
  by (auto simp: Some_bind_iff split: if_splits)

lemma rotate_kinv:
  assumes "kinv s" "t \<in> set (queues s q)"
  shows "kinv (tlist_insert_before q t (tlist_remove t s))"
proof (rule kinv_requeue [OF assms(1)])
  note k = kinvD [OF assms(1)]
  show "lists_ok (tlist_insert_before q t (tlist_remove t s))" by (rule kq.move_back_ok [OF k(1)])
  show "u \<in> set (queues (tlist_insert_before q t (tlist_remove t s)) p) \<longleftrightarrow> u \<in> set (queues s p)" for p u
    using kq.move_back_mem [OF k(1), of u q t p] assms(2) k(1) by (auto simp: lists_ok_def)
qed simp_all

lemma yield_kinv: "kinv s \<Longrightarrow> rt_thread_yield s = Some (e, s') \<Longrightarrow> kinv s'"
  by (erule yield_cases) (auto intro: schedule_kinv rotate_kinv)

subsection \<open>Priority change\<close>

lemma control_priority_eq:
  "rt_thread_control t RT_THREAD_CTRL_CHANGE_PRIORITY arg s = do {
     RT_ASSERT (is_thread s t);
     Some (RT_EOK, if thread_stat s t = RT_THREAD_READY
       then rt_schedule_insert_thread t (upd_thr t (\<lambda>th. set_prio_attr (th\<lparr>th_current_priority := arg\<rparr>))
              (rt_schedule_remove_thread t s))
       else upd_thr t (\<lambda>th. set_prio_attr (th\<lparr>th_current_priority := arg\<rparr>)) s) }"
  by (simp add: rt_thread_control_def Let_def)

lemma change_priority_kinv:
  assumes "kinv s" "rt_thread_control t RT_THREAD_CTRL_CHANGE_PRIORITY arg s = Some (e, s')"
  shows "kinv s'"
proof -
  note k = kinvD [OF assms(1)]
  note ti = k(3) [of t]
  have th: "is_thread s t" using assms(2) by (auto simp: control_priority_eq Some_bind_iff)
  let ?f = "\<lambda>th. set_prio_attr (th\<lparr>th_current_priority := arg\<rparr>)"
  let ?s1 = "upd_thr t ?f (rt_schedule_remove_thread t s)"
  have po: "prio_ok (?f (thr s t))" by (rule set_prio_attr_ok)
  show ?thesis
  proof (cases "thread_stat s t = RT_THREAD_READY")
    case True
    then have s': "s' = rt_schedule_insert_thread t ?s1"
      using assms(2) th by (simp add: control_priority_eq)
    have "thread_stat s t \<in> {RT_THREAD_READY, RT_THREAD_SUSPEND}" using True by simp
    note rp = remove_thread_parts [OF assms(1) th this]
    have tk: "thread_timer_ok s t" using tinv_threadD(4) [OF ti th] True by simp
    have nt: "TimerOf t \<notin> set (timer_list s)" using ti True by (auto simp: tinv_def)
    show ?thesis unfolding s'
    proof (rule kinv_step [OF assms(1), where t = t])
      show "lists_ok (rt_schedule_insert_thread t ?s1)"
        by (rule insert_thread_lists) (use rp(1) in \<open>simp_all add: lists_ok_def\<close>)
      show "bitmap_ok (rt_schedule_insert_thread t ?s1)"
        by (rule insert_thread_bitmap) (use rp(2) po in \<open>simp_all add: bitmap_ok_def\<close>)
      show "tinv (rt_schedule_insert_thread t ?s1) t"
        using tk nt th po tinv_timer(2) [OF ti]
        by (simp add: tinv_def thread_ok_def thread_timer_ok_def rt_object_get_type_def
            rt_object_is_systemobject_def Let_def)
    qed (use assms(1) in \<open>auto simp: kinv_def Let_def th_core_def\<close>)
  next
    case False
    then have s': "s' = upd_thr t ?f s" using assms(2) th by (simp add: control_priority_eq)
    have nq: "t \<notin> set (queues s (ReadyQ p))" for p using tinv_linked(2) [OF ti, of "ReadyQ p"] False by auto
    show ?thesis unfolding s'
    proof (rule kinv_step [OF assms(1), where t = t])
      show "tinv (upd_thr t ?f s) t"
        using ti th po nq
        by (auto simp: tinv_def thread_ok_def thread_timer_ok_def rt_object_get_type_def
            rt_object_is_systemobject_def)
    qed (use assms(1) in \<open>auto simp: kinv_def lists_ok_def bitmap_ok_def\<close>)
  qed
qed

subsection \<open>Sleep\<close>

text \<open>The state in which a sleeping thread is parked, before the scheduler runs.\<close>

definition asleep :: "tid \<Rightarrow> u32 \<Rightarrow> kern \<Rightarrow> kern" where
  "asleep t tik s = arm (TimerOf t) (upd_tmr (TimerOf t) (\<lambda>tm. tm\<lparr>tm_init_tick := tik\<rparr>) (park t s))"

lemma park_soft_flag:
  "thread_timer_ok s t \<Longrightarrow> obj_flag (objs s (TimerOf t)) AND NOT RT_TIMER_FLAG_ACTIVATED AND RT_TIMER_FLAG_SOFT_TIMER = 0"
  by (simp add: thread_timer_ok_def flag_clear_keeps)

lemma set_init_tick_kinv: "kinv s \<Longrightarrow> kinv (upd_tmr r (\<lambda>tm. tm\<lparr>tm_init_tick := tik\<rparr>) s)"
  by (rule kinv_frame) auto

lemma sleep_eq:
  assumes "kinv s" "current s = Some t" "is_thread s t" "thread_stat s t = RT_THREAD_READY"
    "tik < RT_TICK_MAX div 2"
  shows "rt_thread_sleep tik s = Option.bind (rt_schedule (asleep t tik s)) (\<lambda>s'. Some (Parked t, s'))"
proof -
  have tk: "thread_timer_ok s t"
    using tinv_threadD(4) [OF kinvD(3) [OF assms(1)] assms(3)] assms(4) by simp
  let ?s2 = "upd_tmr (TimerOf t) (\<lambda>tm. tm\<lparr>tm_init_tick := tik\<rparr>) (park t s)"
  have "rt_timer_start (TimerOf t) ?s2 = Some (RT_EOK, arm (TimerOf t) ?s2)"
    by (rule start_hard_eq) (use tk park_soft_flag [OF tk] assms(5) in
      \<open>simp_all add: thread_timer_ok_def rt_object_get_type_def\<close>)
  then show ?thesis
    using assms(2,3) suspend_eq [OF assms(1,3,4)] tk
    by (simp add: rt_thread_sleep_def rt_timer_control_def asleep_def thread_timer_ok_def
        rt_object_get_type_def)
qed

lemma asleep_frame:
  assumes "thread_timer_ok s t"
  shows "thr (asleep t tik s) = thr (park t s)" "queues (asleep t tik s) = queues (park t s)"
    "tick (asleep t tik s) = tick s" "lock_nest (asleep t tik s) = lock_nest s"
    "current (asleep t tik s) = current s"
    "tm_timeout_tick (tmr (asleep t tik s) (TimerOf t)) = tick s + tik"
    "TimerOf t \<in> set (timer_list (asleep t tik s))"
    "obj_type (objs (asleep t tik s) r) = obj_type (objs s r)"
  using park_soft_flag [OF assms] by (simp_all add: asleep_def arm_frame)

lemma asleep_kinv:
  assumes "kinv s" "is_thread s t" "thread_stat s t = RT_THREAD_READY"
  shows "kinv (asleep t tik s)" unfolding asleep_def
  by (rule arm_kinv [OF set_init_tick_kinv [OF park_kinv [OF assms]]])
    (use assms(2) in \<open>simp_all add: rt_object_get_type_def\<close>)

lemma pending_ok_frame:
  "pending_ok s \<Longrightarrow> tick s' = tick s \<Longrightarrow> timer_list s' = timer_list s \<Longrightarrow>
   (\<And>r. tm_timeout_tick (tmr s' r) = tm_timeout_tick (tmr s r)) \<Longrightarrow> pending_ok s'"
  by (simp add: pending_ok_def)

lemma park_pending: "pending_ok s \<Longrightarrow> pending_ok (park t s)"
  by (simp add: pending_ok_def ordered_from_removeAll)

lemma asleep_pending:
  assumes "pending_ok s" "thread_timer_ok s t" "tik < RT_TICK_MAX div 2"
  shows "pending_ok (asleep t tik s)" unfolding asleep_def
proof (rule arm_pending)
  show "pending_ok (upd_tmr (TimerOf t) (\<lambda>tm. tm\<lparr>tm_init_tick := tik\<rparr>) (park t s))"
    by (rule pending_ok_frame [OF park_pending [OF assms(1)]]) simp_all
qed (use park_soft_flag [OF assms(2)] assms(3) in simp_all)

subsection \<open>The end of a thread\<close>

lemma timer_detach_eq:
  assumes "thread_timer_ok s t"
  shows "rt_timer_detach (TimerOf t) s = Some (RT_EOK, rt_object_detach (TimerOf t) (rt_timer_remove (TimerOf t) s))"
  using assms by (simp add: rt_timer_detach_def thread_timer_ok_def)

text \<open>Whatever path ends the thread, it leaves every list it was in; then it either waits in the
  defunct list or is no thread any more.\<close>

lemma closed_kinv:
  assumes k: "kinv s" and b: "bitmap_ok s'" and th: "is_thread s t"
    and q: "queues s' = (\<lambda>q. removeAll t (queues s q)) \<or>
      queues s' = (\<lambda>q. (if q = DefunctQ then [t] else []) @ removeAll t (queues s q))"
    and c: "if obj_type (objs s' (Obj t)) = 0 then queues s' = (\<lambda>q. removeAll t (queues s q))
      else is_thread s' t \<and> thread_stat s' t = RT_THREAD_CLOSE \<and> t \<in> set (queues s' DefunctQ) \<and>
        obj_type (objs s' (TimerOf t)) = 0"
    and l: "timer_list s' = removeAll (TimerOf t) (timer_list s)"
      "soft_timer_list s' = removeAll (TimerOf t) (soft_timer_list s)"
    and o: "\<And>r. r \<noteq> Obj t \<Longrightarrow> r \<noteq> TimerOf t \<Longrightarrow> objs s' r = objs s r"
    and e: "\<And>u. u \<noteq> t \<Longrightarrow> thr s' u = thr s u" "tmr s' = tmr s"
  shows "kinv s'"
proof (rule kinv_step [OF k, where t = t])
  have lk: "lists_ok s" using k by (rule kinvD)
  show "lists_ok s'"
    using q
  proof
    assume Q: "queues s' = (\<lambda>q. (if q = DefunctQ then [t] else []) @ removeAll t (queues s q))"
    have "queues s' = queues (tlist_insert_after DefunctQ t (tlist_remove t s))"
      unfolding Q by (simp add: fun_eq_iff)
    moreover have "lists_ok (tlist_insert_after DefunctQ t (tlist_remove t s))"
      by (rule kq.move_front_ok [OF lk])
    ultimately show ?thesis using lists_ok_cong by blast
  qed (rule lists_ok_removeAll [OF lk])
  show "tinv s' t"
  proof (cases "obj_type (objs s' (Obj t)) = 0")
    case True
    then show ?thesis using c l by (simp add: tinv_def rt_object_get_type_def)
  next
    case False
    then have c': "is_thread s' t" "thread_stat s' t = RT_THREAD_CLOSE" "t \<in> set (queues s' DefunctQ)"
        "obj_type (objs s' (TimerOf t)) = 0"
      using c by simp_all
    have "q = DefunctQ \<and> head_stat q = RT_THREAD_CLOSE" if "t \<in> set (queues s' q)" for q
      using that q by (auto split: if_splits)
    then show ?thesis using c' l by (auto simp: tinv_def thread_ok_def)
  qed
  show "u \<in> set (queues s' p) \<longleftrightarrow> u \<in> set (queues s p)" if "u \<noteq> t" for u p
    using q that by auto
qed (use k b l o e in \<open>auto simp: kinv_def distinct_removeAll\<close>)

text \<open>The common start of the three: \<open>close_pre\<close> is the state with the thread unlinked and its timer
  detached.\<close>

definition close_pre :: "tid \<Rightarrow> kern \<Rightarrow> kern" where
  "close_pre t s = upd_thr t (\<lambda>th. th\<lparr>th_stat := RT_THREAD_CLOSE\<rparr>)
     (rt_object_detach (TimerOf t) (rt_timer_remove (TimerOf t)
        (if thread_stat s t \<noteq> RT_THREAD_INIT then rt_schedule_remove_thread t s else s)))"

lemma close_pre_frame:
  assumes "tinv s t"
  shows "queues (close_pre t s) = (\<lambda>q. removeAll t (queues s q))"
    "objs (close_pre t s) = (objs s)(TimerOf t := (objs s (TimerOf t))\<lparr>obj_type := 0\<rparr>)"
    "tmr (close_pre t s) = tmr s"
    "thr (close_pre t s) = (thr s)(t := (thr s t)\<lparr>th_stat := RT_THREAD_CLOSE\<rparr>)"
    "timer_list (close_pre t s) = removeAll (TimerOf t) (timer_list s)"
    "soft_timer_list (close_pre t s) = removeAll (TimerOf t) (soft_timer_list s)"
    "current (close_pre t s) = current s" "lock_nest (close_pre t s) = lock_nest s"
    "tick (close_pre t s) = tick s" "irq_nest (close_pre t s) = irq_nest s"
  using tinv_unlinked [OF assms] by (simp_all add: close_pre_def fun_eq_iff)

lemma close_pre_bitmap:
  assumes "kinv s" "is_thread s t" "thread_stat s t \<noteq> RT_THREAD_CLOSE"
  shows "bitmap_ok (close_pre t s)"
proof (cases "thread_stat s t = RT_THREAD_INIT")
  case True
  then show ?thesis using kinvD(2) [OF assms(1)] by (simp add: close_pre_def bitmap_ok_def)
next
  case False
  moreover have "thread_ok s t" using kinvD(3) [OF assms(1), of t] assms(2) by (simp add: tinv_def)
  ultimately have "thread_stat s t \<in> {RT_THREAD_READY, RT_THREAD_SUSPEND}"
    using assms(3) by (simp add: thread_ok_def)
  from remove_thread_parts(2) [OF assms(1,2) this] False show ?thesis
    by (simp add: close_pre_def bitmap_ok_def)
qed

lemma live_timer_detach:
  assumes "kinv s" "is_thread s t" "thread_stat s t \<noteq> RT_THREAD_CLOSE"
  shows "rt_timer_detach (TimerOf t) (if thread_stat s t \<noteq> RT_THREAD_INIT then rt_schedule_remove_thread t s else s) =
    Some (RT_EOK, rt_object_detach (TimerOf t) (rt_timer_remove (TimerOf t)
      (if thread_stat s t \<noteq> RT_THREAD_INIT then rt_schedule_remove_thread t s else s)))"
proof -
  have "thread_timer_ok s t" using tinv_threadD(4) [OF kinvD(3) [OF assms(1)] assms(2,3)] .
  then show ?thesis by (intro timer_detach_eq)
    (simp add: thread_timer_ok_def rt_object_get_type_def rt_object_is_systemobject_def)
qed

lemma detach_eq:
  assumes "kinv s" "is_thread s t" "rt_object_is_systemobject (Obj t) s"
    "thread_stat s t \<noteq> RT_THREAD_CLOSE"
  shows "rt_thread_detach t s = Some (RT_EOK,
    if th_cleanup (thr s t) then tlist_insert_after DefunctQ t (close_pre t s)
    else rt_object_detach (Obj t) (close_pre t s))"
  using live_timer_detach [OF assms(1,2,4)] assms(2,3)
  by (auto simp: rt_thread_detach_def close_pre_def Let_def rt_object_is_systemobject_def)

lemma delete_eq:
  assumes "kinv s" "is_thread s t" "\<not> rt_object_is_systemobject (Obj t) s"
    "thread_stat s t \<noteq> RT_THREAD_CLOSE"
  shows "rt_thread_delete t s = Some (RT_EOK, tlist_insert_after DefunctQ t (close_pre t s))"
  using live_timer_detach [OF assms(1,2,4)] assms(2,3)
  by (auto simp: rt_thread_delete_def close_pre_def Let_def rt_object_is_systemobject_def)

lemma defunct_kinv:
  assumes "kinv s" "is_thread s t" "thread_stat s t \<noteq> RT_THREAD_CLOSE"
  shows "kinv (tlist_insert_after DefunctQ t (close_pre t s))"
proof -
  note fr = close_pre_frame [OF kinvD(3) [OF assms(1)]]
  show ?thesis
    by (rule closed_kinv [OF assms(1) _ assms(2)])
      (use assms(2) close_pre_bitmap [OF assms] in
        \<open>auto simp: fr bitmap_ok_def rt_object_get_type_def\<close>)
qed

lemma detached_kinv:
  assumes "kinv s" "is_thread s t" "thread_stat s t \<noteq> RT_THREAD_CLOSE"
  shows "kinv (rt_object_detach (Obj t) (close_pre t s))"
proof -
  note fr = close_pre_frame [OF kinvD(3) [OF assms(1)]]
  show ?thesis
    by (rule closed_kinv [OF assms(1) _ assms(2)])
      (use close_pre_bitmap [OF assms] in \<open>auto simp: fr bitmap_ok_def\<close>)
qed

lemma close_twice:
  assumes "kinv s" "is_thread s t" "thread_stat s t = RT_THREAD_CLOSE"
  shows "rt_thread_detach t s = None" "rt_thread_delete t s = None"
proof -
  have "thread_ok s t" using kinvD(3) [OF assms(1), of t] assms(2) by (simp add: tinv_def)
  then have "obj_type (objs s (TimerOf t)) = 0" using assms(3) by (simp add: thread_ok_def)
  then have "rt_timer_detach (TimerOf t) (rt_schedule_remove_thread t s) = None"
    by (simp add: rt_timer_detach_def rt_object_get_type_def)
  then show "rt_thread_detach t s = None" "rt_thread_delete t s = None"
    using assms(2,3) by (simp_all add: rt_thread_detach_def rt_thread_delete_def Let_def)
qed

lemma detach_kinv:
  assumes "kinv s" "rt_thread_detach t s = Some (e, s')"
  shows "kinv s'"
proof -
  have th: "is_thread s t" "rt_object_is_systemobject (Obj t) s"
    using assms(2) by (auto simp: rt_thread_detach_def Some_bind_iff)
  have live: "thread_stat s t \<noteq> RT_THREAD_CLOSE"
    using close_twice(1) [OF assms(1) th(1)] assms(2) by auto
  show ?thesis
    using detach_eq [OF assms(1) th live] assms(2) defunct_kinv [OF assms(1) th(1) live]
      detached_kinv [OF assms(1) th(1) live]
    by (auto split: if_splits)
qed

lemma delete_kinv:
  assumes "kinv s" "rt_thread_delete t s = Some (e, s')"
  shows "kinv s'"
proof -
  have th: "is_thread s t" "\<not> rt_object_is_systemobject (Obj t) s"
    using assms(2) by (auto simp: rt_thread_delete_def Some_bind_iff)
  have live: "thread_stat s t \<noteq> RT_THREAD_CLOSE"
    using close_twice(2) [OF assms(1) th(1)] assms(2) by auto
  show ?thesis using delete_eq [OF assms(1) th live] assms(2) defunct_kinv [OF assms(1) th(1) live] by simp
qed

lemma exit_eq:
  assumes "kinv s" "current s = Some t" "is_thread s t"
    "thread_stat s t \<in> {RT_THREAD_READY, RT_THREAD_SUSPEND}"
  shows "rt_thread_exit s = rt_schedule
    (if rt_object_is_systemobject (Obj t) s \<and> \<not> th_cleanup (thr s t)
     then rt_object_detach (Obj t) (close_pre t s) else tlist_insert_after DefunctQ t (close_pre t s))"
proof -
  let ?c = "\<lambda>s. upd_thr t (\<lambda>th. th\<lparr>th_stat := RT_THREAD_CLOSE\<rparr>) s"
  have tk: "thread_timer_ok s t"
    using tinv_threadD(4) [OF kinvD(3) [OF assms(1)] assms(3)] assms(4) by auto
  then have "rt_timer_detach (TimerOf t) (?c (rt_schedule_remove_thread t s)) = Some (RT_EOK,
      rt_object_detach (TimerOf t) (rt_timer_remove (TimerOf t) (?c (rt_schedule_remove_thread t s))))"
    by (intro timer_detach_eq)
      (simp add: thread_timer_ok_def rt_object_get_type_def rt_object_is_systemobject_def)
  moreover have "thread_stat s t \<noteq> RT_THREAD_INIT" using assms(4) by auto
  then have "rt_object_detach (TimerOf t) (rt_timer_remove (TimerOf t) (?c (rt_schedule_remove_thread t s))) =
      close_pre t s"
    by (simp add: close_pre_def rt_object_detach_def container_remove_def rt_timer_remove_def)
  moreover have "th_cleanup (thr (close_pre t s) t) = th_cleanup (thr s t)"
    "rt_object_is_systemobject (Obj t) (close_pre t s) = rt_object_is_systemobject (Obj t) s"
    using close_pre_frame [OF kinvD(3) [OF assms(1)], of t] by (simp_all add: rt_object_is_systemobject_def)
  ultimately show ?thesis using assms(2) by (simp add: rt_thread_exit_def Let_def)
qed

lemma exit_kinv:
  assumes "kinv s" "current s = Some t" "is_thread s t"
    "thread_stat s t \<in> {RT_THREAD_READY, RT_THREAD_SUSPEND}" "rt_thread_exit s = Some s'"
  shows "kinv s'"
proof -
  have live: "thread_stat s t \<noteq> RT_THREAD_CLOSE" using assms(4) by auto
  show ?thesis
    using exit_eq [OF assms(1-4)] assms(5) schedule_kinv defunct_kinv [OF assms(1,3) live]
      detached_kinv [OF assms(1,3) live]
    by (auto split: if_splits)
qed

lemma startup_kinv:
  assumes "kinv s" "rt_thread_startup t s = Some (e, s')"
  shows "kinv s'"
  using startup_effect [OF assms(1) _ _ assms(2)] assms(2)
  by (auto simp: rt_thread_startup_def Some_bind_iff)

lemma control_kinv:
  assumes "kinv s" "rt_thread_control t cmd arg s = Some (e, s')"
  shows "kinv s'"
proof (cases "cmd = RT_THREAD_CTRL_CHANGE_PRIORITY")
  case True
  then show ?thesis using change_priority_kinv assms by blast
next
  case False
  then have "s' = s \<or> rt_thread_startup t s = Some (e, s') \<or> rt_thread_delete t s = Some (e, s')"
    using assms(2) by (auto simp: rt_thread_control_def Some_bind_iff split: if_splits)
  then show ?thesis using assms(1) startup_kinv delete_kinv by blast
qed

lemma sleep_kinv:
  assumes "kinv s" "current s = Some t" "thread_stat s t = RT_THREAD_READY" "rt_thread_sleep n s = Some (r, s')"
    "n < RT_TICK_MAX div 2"
  shows "kinv s'"
proof -
  have th: "is_thread s t" using assms(2,4) by (auto simp: rt_thread_sleep_def Some_bind_iff)
  have "rt_schedule (asleep t n s) = Some s'"
    using assms(4) unfolding sleep_eq [OF assms(1,2) th assms(3,5)] Some_bind_iff by auto
  then show ?thesis by (rule schedule_kinv [OF asleep_kinv [OF assms(1) th assms(3)]])
qed

end
