(* ===== verification/Clock.thy ===== *)
theory Clock
  imports Thread
begin

text \<open>
  \<^verbatim>\<open>rt-thread/src/clock.c\<close> and \<^verbatim>\<open>irq.c\<close>: the system tick, which ages the time slice of the running
  thread and checks the hard timers, and the interrupt nesting counter.

  The lemmas follow one tick through all of them: the invariant and the order of the timer list
  survive, the timers that are due fire, the others stay. Iterated, a thread whose timer has \<open>n\<close>
  ticks to go is suspended for \<open>n - 1\<close> ticks and ready after the \<open>n\<close>-th.
\<close>

section \<open>The code\<close>

definition rt_tick_get :: "kern \<Rightarrow> u32" where
  "rt_tick_get s = tick s"

definition rt_tick_set :: "u32 \<Rightarrow> kern \<Rightarrow> kern" where
  "rt_tick_set k s = s\<lparr>tick := k\<rparr>"

text \<open>The time slice of the running thread, in the middle of \<open>rt_tick_increase\<close>.\<close>

definition age_slice :: "tid \<Rightarrow> kern \<Rightarrow> kern option" where
  "age_slice t s =
     (let s1 = upd_thr t (\<lambda>th. th\<lparr>th_remaining_tick := th_remaining_tick th - 1\<rparr>) s
      in if th_remaining_tick (thr s1 t) = 0 then
           map_option snd (rt_thread_yield
             (upd_thr t (\<lambda>th. th\<lparr>th_remaining_tick := th_init_tick th\<rparr>) s1))
         else Some s1)"

definition rt_tick_increase :: "(nat \<Rightarrow> kern \<Rightarrow> kern option) \<Rightarrow> kern \<Rightarrow> kern option" where
  "rt_tick_increase cb s = do {
     let s1 = s\<lparr>tick := tick s + 1\<rparr>;
     t \<leftarrow> rt_thread_self s1;
     s2 \<leftarrow> age_slice t s1;
     rt_timer_check cb s2 }"

definition rt_interrupt_enter :: "kern \<Rightarrow> kern" where
  "rt_interrupt_enter s = s\<lparr>irq_nest := irq_nest s + 1\<rparr>"

definition rt_interrupt_leave :: "kern \<Rightarrow> kern" where
  "rt_interrupt_leave s = s\<lparr>irq_nest := irq_nest s - 1\<rparr>"

definition rt_interrupt_get_nest :: "kern \<Rightarrow> u8" where
  "rt_interrupt_get_nest s = irq_nest s"

fun ticks :: "nat \<Rightarrow> (nat \<Rightarrow> kern \<Rightarrow> kern option) \<Rightarrow> kern \<Rightarrow> kern option" where
  "ticks 0 cb s = Some s"
| "ticks (Suc n) cb s = Option.bind (rt_tick_increase cb s) (ticks n cb)"

section \<open>One tick\<close>

text \<open>Yielding changes the order of one ready queue and the running thread only.\<close>

lemma yield_returns:
  assumes "kinv s" "sched_fine s"
  obtains s' where "rt_thread_yield s = Some (RT_EOK, s')" "kinv s'" "sched_fine s'"
    "thr s' = thr s" "objs s' = objs s" "tmr s' = tmr s" "tick s' = tick s"
    "timer_list s' = timer_list s" "soft_timer_list s' = soft_timer_list s"
    "lock_nest s' = lock_nest s" "irq_nest s' = irq_nest s"
proof -
  obtain t where t: "current s = Some t" using assms(2) by (auto simp: sched_fine_def)
  let ?q = "ReadyQ (unat (th_current_priority (thr s t)))"
  show ?thesis
  proof (cases "thread_stat s t = RT_THREAD_READY \<and> t \<in> set (queues s ?q) \<and> length (queues s ?q) > 1")
    case True
    let ?s = "tlist_insert_before ?q t (tlist_remove t s)"
    have k: "kinv ?s" using rotate_kinv [OF assms(1)] True by blast
    have f: "sched_fine ?s" using assms(2) by (simp add: sched_fine_def rt_object_get_type_def)
    have "t \<in> set (queues ?s ?q)" by simp
    then obtain i c where sc: "rt_schedule ?s = Some (?s\<lparr>cur_prio := i, current := Some c\<rparr>)"
      by (rule schedule_returns [OF k f])
    let ?s' = "?s\<lparr>cur_prio := i, current := Some c\<rparr>"
    have "rt_thread_yield s = Some (RT_EOK, ?s')"
      using t True sc by (simp add: rt_thread_yield_def Let_def)
    moreover have "kinv ?s'" by (rule kinv_frame [OF k]) simp_all
    moreover have "sched_fine ?s'" using f by (simp add: sched_fine_def rt_object_get_type_def)
    ultimately show ?thesis using that by simp
  next
    case False
    then have "rt_thread_yield s = Some (RT_EOK, s)" using t by (auto simp: rt_thread_yield_def Let_def)
    then show ?thesis using that assms by simp
  qed
qed

lemma age_slice_returns:
  assumes "kinv s" "sched_fine s"
  obtains s' where "age_slice t s = Some s'" "kinv s'" "sched_fine s'"
    "objs s' = objs s" "tmr s' = tmr s" "tick s' = tick s"
    "timer_list s' = timer_list s" "soft_timer_list s' = soft_timer_list s"
proof -
  let ?s1 = "upd_thr t (\<lambda>th. th\<lparr>th_remaining_tick := th_remaining_tick th - 1\<rparr>) s"
  let ?s2 = "upd_thr t (\<lambda>th. th\<lparr>th_remaining_tick := th_init_tick th\<rparr>) ?s1"
  have k: "kinv ?s1" "kinv ?s2" by (rule kinv_frame [OF assms(1)]; simp add: th_core_def)+
  have f: "sched_fine ?s1" "sched_fine ?s2"
    using assms(2) by (auto simp: sched_fine_def rt_object_get_type_def rt_scheduler_stack_check_def)
  show ?thesis
  proof (cases "th_remaining_tick (thr ?s1 t) = 0")
    case False
    then show ?thesis using that [of ?s1] k f by (simp add: age_slice_def)
  next
    case True
    from yield_returns [OF k(2) f(2)] obtain s' where y: "rt_thread_yield ?s2 = Some (RT_EOK, s')"
      "kinv s'" "sched_fine s'" "objs s' = objs ?s2" "tmr s' = tmr ?s2" "tick s' = tick ?s2"
      "timer_list s' = timer_list ?s2" "soft_timer_list s' = soft_timer_list ?s2"
      by metis
    have "age_slice t s = Some s'" unfolding age_slice_def Let_def using True y(1) by simp
    then show ?thesis using that [of s'] y by simp
  qed
qed

definition timed :: "kern \<Rightarrow> bool" where
  "timed s \<longleftrightarrow> kinv s \<and> sched_fine s \<and> one_shots s \<and> pending_ok s"

lemma tick_increase_timed:
  assumes "timed s" "quiet cb"
  shows "\<exists>s'. rt_tick_increase cb s = Some s' \<and> timed s' \<and> tick s' = tick s + 1 \<and>
    (\<forall>t. TimerOf t \<in> set (timer_list s) \<longrightarrow>
       (if unat (tm_timeout_tick (tmr s (TimerOf t)) - tick s) \<le> 1
        then thread_stat s' t = RT_THREAD_READY \<and> th_error (thr s' t) = - RT_ETIMEOUT
        else TimerOf t \<in> set (timer_list s') \<and> tmr s' (TimerOf t) = tmr s (TimerOf t)))"
proof -
  have k: "kinv s" and f: "sched_fine s" and o: "one_shots s" and p: "pending_ok s"
    using assms(1) by (simp_all add: timed_def)
  obtain t where t: "current s = Some t" using f by (auto simp: sched_fine_def)
  let ?s1 = "s\<lparr>tick := tick s + 1\<rparr>"
  have "kinv ?s1" by (rule kinv_frame [OF k]) simp_all
  moreover have "sched_fine ?s1" using f by (simp add: sched_fine_def rt_object_get_type_def)
  ultimately obtain s3 where step: "age_slice t ?s1 = Some s3"
    and s3: "kinv s3" "sched_fine s3" "objs s3 = objs s" "tmr s3 = tmr s" "tick s3 = tick s + 1"
      "timer_list s3 = timer_list s" "soft_timer_list s3 = soft_timer_list s"
    by (rule age_slice_returns [where t = t]) simp
  have o3: "one_shots s3" using o s3 by (simp add: one_shots_def)
  let ?due = "\<lambda>r. tick s3 - tm_timeout_tick (tmr s3 r) < RT_TICK_MAX div 2"
  have os: "ordered_from (tick s3 - 1) (\<lambda>r. tm_timeout_tick (tmr s3 r)) (timer_list s3)"
    using p s3 by (simp add: pending_ok_def)
  note dp = due_prefix [OF os]
  from check_loop_fires [OF s3(1,2) assms(2) o3] obtain s' where
    s': "rt_timer_check_loop cb (tick s3) s3 = Some s'" "kinv s'" "sched_fine s'"
      "fired (timer_threads (takeWhile ?due (timer_list s3))) s3 s'"
      "timer_list s' = dropWhile ?due (timer_list s3)"
      "\<And>r. r \<in> set (timer_list s') \<Longrightarrow> objs s' r = objs s3 r"
    by blast
  have e: "tick s' = tick s + 1" "tmr s' = tmr s" using s'(4) s3 by (simp_all add: fired_def)
  have o': "one_shots s'"
    unfolding one_shots_def
  proof (intro allI impI)
    fix n assume n: "Obj n \<in> set (timer_list s')"
    then have "Obj n \<in> set (timer_list s3)" unfolding s'(5) by (rule set_dropWhileD)
    then show "(\<exists>k. tm_func (tmr s' (Obj n)) = User_timeout k) \<and>
        obj_flag (objs s' (Obj n)) AND RT_TIMER_FLAG_PERIODIC = 0"
      using o3 s'(6) [OF n] e s3(4) by (simp add: one_shots_def)
  qed
  have p': "pending_ok s'" using dp(3) s'(5) e s3 by (simp add: pending_ok_def)
  have "rt_tick_increase cb s = Some s'"
    using t step s'(1) by (simp add: rt_tick_increase_def rt_timer_check_def)
  moreover have "timed s'" using s' o' p' by (simp add: timed_def)
  moreover have "if unat (tm_timeout_tick (tmr s (TimerOf t)) - tick s) \<le> 1
        then thread_stat s' t = RT_THREAD_READY \<and> th_error (thr s' t) = - RT_ETIMEOUT
        else TimerOf t \<in> set (timer_list s') \<and> tmr s' (TimerOf t) = tmr s (TimerOf t)"
    if "TimerOf t \<in> set (timer_list s)" for t
  proof (cases "unat (tm_timeout_tick (tmr s (TimerOf t)) - tick s) \<le> 1")
    case True
    then have "TimerOf t \<in> set (takeWhile ?due (timer_list s3))"
      using dp(1) that s3 by simp
    then have "t \<in> set (timer_threads (takeWhile ?due (timer_list s3)))" by (simp add: set_timer_threads)
    then have "thr s' t = timed_out (thr s3 t)" using s'(4) by (simp add: fired_def)
    then show ?thesis using True by simp
  next
    case False
    then show ?thesis using dp(2) that s3 s'(5) e by simp
  qed
  ultimately show ?thesis using e by blast
qed

lemma timer_suspended: "kinv s \<Longrightarrow> TimerOf t \<in> set (timer_list s) \<Longrightarrow> is_thread s t \<and> thread_stat s t = RT_THREAD_SUSPEND"
  using kinvD(3) [of s t] by (simp add: tinv_def)

lemma ticks_wake:
  assumes "timed s" "quiet cb" "TimerOf t \<in> set (timer_list s)"
    "unat (tm_timeout_tick (tmr s (TimerOf t)) - tick s) = Suc n"
  shows "(\<forall>k \<le> n. \<exists>s'. ticks k cb s = Some s' \<and> thread_stat s' t = RT_THREAD_SUSPEND) \<and>
    (\<exists>s'. ticks (Suc n) cb s = Some s' \<and> thread_stat s' t = RT_THREAD_READY \<and>
       th_error (thr s' t) = - RT_ETIMEOUT)"
  using assms(1,3,4)
proof (induction n arbitrary: s)
  case 0
  from tick_increase_timed [OF 0(1) assms(2)] obtain s' where "rt_tick_increase cb s = Some s'"
    "thread_stat s' t = RT_THREAD_READY \<and> th_error (thr s' t) = - RT_ETIMEOUT"
    using 0 by force
  then show ?case using timer_suspended 0 by (auto simp: timed_def)
next
  case (Suc n)
  from tick_increase_timed [OF Suc.prems(1) assms(2)] obtain s' where s': "rt_tick_increase cb s = Some s'"
    "timed s'" "tick s' = tick s + 1" "TimerOf t \<in> set (timer_list s')" "tmr s' (TimerOf t) = tmr s (TimerOf t)"
    using Suc.prems by force
  let ?x = "tm_timeout_tick (tmr s (TimerOf t)) - tick s"
  have "?x \<noteq> 0" using Suc.prems(3) by auto
  moreover have "tm_timeout_tick (tmr s' (TimerOf t)) - tick s' = ?x - 1" using s' by simp
  ultimately have "unat (tm_timeout_tick (tmr s' (TimerOf t)) - tick s') = Suc n"
    using unat_pred [of ?x] Suc.prems(3) by simp
  note IH = Suc.IH [OF s'(2,4) this]
  have "\<exists>s'. ticks k cb s = Some s' \<and> thread_stat s' t = RT_THREAD_SUSPEND" if "k \<le> Suc n" for k
  proof (cases k)
    case 0
    then show ?thesis using timer_suspended Suc.prems by (auto simp: timed_def)
  next
    case (Suc j)
    then show ?thesis using IH that s'(1) by simp
  qed
  then show ?case using IH s'(1) by simp
qed

end
