(* ===== verification/Demo_State.thy ===== *)
theory Demo_State
  imports Clock
begin

text \<open>
  A small running system, on which the properties are instantiated: thread 1 (priority 10) runs,
  thread 2 (priority 255) is ready, thread 3 (priority 5) sleeps until tick 107, thread 4 is
  initialised, thread 5 (priority 7) is suspended; the tick is 100. The objects 11 to 15 are one IPC
  object of each class. \<open>demo_wait q\<close> is the same system with thread 5 waiting in the list \<open>q\<close>.
\<close>

definition demo_thread :: "u8 \<Rightarrow> u8 \<Rightarrow> rt_thread" where
  "demo_thread prio stat = set_prio_attr \<lparr>th_sp = 0x1080, th_entry = 0x8000, th_parameter = 0,
     th_stack_addr = 0x1000, th_stack_size = 0x100, th_stack_magic = 0x23, th_error = 0,
     th_stat = stat, th_current_priority = prio, th_init_priority = prio, th_number = 0,
     th_high_mask = 0, th_number_mask = 0, th_event_set = 0, th_event_info = 0,
     th_init_tick = 10, th_remaining_tick = 5, th_cleanup = False, th_user_data = 0\<rparr>"

definition demo_type :: "nat \<Rightarrow> u8" where
  "demo_type n = (if n \<in> {1, 2, 3, 4, 5} then 0x81 else if n = 11 then 0x82 else if n = 12 then 0x83
     else if n = 13 then 0x84 else if n = 14 then 0x85 else if n = 15 then 0x86 else 0)"

lemma demo_type_thread [simp]: "demo_type n AND - 129 = 1 \<longleftrightarrow> n \<in> {1, 2, 3, 4, 5}"
  by (simp add: demo_type_def)

lemma demo_type_ipc [simp]:
  "demo_type 11 = 0x82" "demo_type 12 = 0x83" "demo_type 13 = 0x84" "demo_type 14 = 0x85"
  "demo_type 15 = 0x86" "demo_type 1 = 0x81" "demo_type (Suc 0) = 0x81" "demo_type 5 = 0x81"
  by (simp_all add: demo_type_def)

definition demo :: kern where
  "demo = \<lparr>
     objs = (\<lambda>r. case r of
         Obj n \<Rightarrow> \<lparr>obj_name = ''t'', obj_type = demo_type n, obj_flag = 1\<rparr>
       | TimerOf t \<Rightarrow> \<lparr>obj_name = ''t'', obj_type = 0x8a, obj_flag = (if t = 3 then 1 else 0)\<rparr>),
     containers = (\<lambda>c. if c = RT_Object_Class_Thread then [Obj 4, Obj 3, Obj 2, Obj 1]
       else if c = RT_Object_Class_Timer then [TimerOf 4, TimerOf 3, TimerOf 2, TimerOf 1] else []),
     thr = (\<lambda>t. if t = 1 then demo_thread 10 RT_THREAD_READY
       else if t = 2 then demo_thread 255 RT_THREAD_READY
       else if t = 3 then demo_thread 5 RT_THREAD_SUSPEND
       else if t = 5 then demo_thread 7 RT_THREAD_SUSPEND
       else demo_thread 20 RT_THREAD_INIT),
     tmr = (\<lambda>r. case r of
         TimerOf t \<Rightarrow> \<lparr>tm_func = Thread_timeout t, tm_init_tick = 7, tm_timeout_tick = 107\<rparr>
       | Obj n \<Rightarrow> \<lparr>tm_func = User_timeout n, tm_init_tick = 0, tm_timeout_tick = 0\<rparr>),
     queues = (\<lambda>q. if q = ReadyQ 10 then [1] else if q = ReadyQ 255 then [2] else []),
     ready_group = 0x80000002,
     ready_table = (\<lambda>n. if n = 1 then 4 else if n = 31 then 128 else 0),
     current = Some 1, cur_prio = 10, lock_nest = 0, irq_nest = 0, tick = 100,
     timer_list = [TimerOf 3], soft_timer_list = []\<rparr>"

lemma demo_thread_simps [simp]:
  "th_stat (demo_thread p st) = st" "th_current_priority (demo_thread p st) = p"
  "th_init_priority (demo_thread p st) = p" "prio_ok (demo_thread p st)"
  "rt_scheduler_stack_check (demo_thread p st)" "th_error (demo_thread p st) = 0"
  "th_init_tick (demo_thread p st) = 10" "th_remaining_tick (demo_thread p st) = 5"
  "th_cleanup (demo_thread p st) = False"
proof -
  show "prio_ok (demo_thread p st)" unfolding demo_thread_def by (rule set_prio_attr_ok)
qed (simp_all add: demo_thread_def rt_scheduler_stack_check_def set_prio_attr_def Let_def)

lemma demo_simps [simp]:
  "objs demo (Obj n) = \<lparr>obj_name = ''t'', obj_type = demo_type n, obj_flag = 1\<rparr>"
  "objs demo (TimerOf t) = \<lparr>obj_name = ''t'', obj_type = 0x8a, obj_flag = (if t = 3 then 1 else 0)\<rparr>"
  "thr demo = (\<lambda>t. if t = 1 then demo_thread 10 RT_THREAD_READY
       else if t = 2 then demo_thread 255 RT_THREAD_READY
       else if t = 3 then demo_thread 5 RT_THREAD_SUSPEND
       else if t = 5 then demo_thread 7 RT_THREAD_SUSPEND
       else demo_thread 20 RT_THREAD_INIT)"
  "tmr demo (TimerOf t) = \<lparr>tm_func = Thread_timeout t, tm_init_tick = 7, tm_timeout_tick = 107\<rparr>"
  "queues demo = (\<lambda>q. if q = ReadyQ 10 then [1] else if q = ReadyQ 255 then [2] else [])"
  "ready_group demo = 0x80000002"
  "ready_table demo = (\<lambda>n. if n = 1 then 4 else if n = 31 then 128 else 0)"
  "current demo = Some 1" "lock_nest demo = 0" "irq_nest demo = 0" "tick demo = 100"
  "timer_list demo = [TimerOf 3]" "soft_timer_list demo = []"
  by (simp_all add: demo_def)

lemma bit_group: "bit (0x80000002 :: int) n \<longleftrightarrow> n = 1 \<or> n = 31"
proof -
  have "(0x80000002 :: int) = 2 ^ 1 OR 2 ^ 31" by simp
  then show ?thesis by (simp only: bit_or_iff bit_exp_iff) auto
qed

lemma int_bits: "bit (4 :: int) b \<longleftrightarrow> b = 2" "bit (128 :: int) b \<longleftrightarrow> b = 7"
proof -
  have "(4 :: int) = 2 ^ 2" "(128 :: int) = 2 ^ 7" by simp_all
  then show "bit (4 :: int) b \<longleftrightarrow> b = 2" "bit (128 :: int) b \<longleftrightarrow> b = 7"
    by (simp_all only: bit_exp_iff) auto
qed

lemma demo_bitmap: "bitmap_ok demo"
proof -
  have "bit (ready_table demo n) b \<longleftrightarrow> queues demo (ReadyQ (8 * n + b)) \<noteq> []" if "n < 32" "b < 8" for n b
  proof -
    have "8 * n + b = 10 \<longleftrightarrow> n = 1 \<and> b = 2" using split_by_8 [OF that(2), of n 10] by simp
    moreover have "8 * n + b = 255 \<longleftrightarrow> n = 31 \<and> b = 7" using split_by_8 [OF that(2), of n 255] by simp
    moreover have "bit (ready_table demo n) b \<longleftrightarrow> n = 1 \<and> b = 2 \<or> n = 31 \<and> b = 7"
      by (auto simp: int_bits)
    ultimately show ?thesis by (simp only: demo_simps) auto
  qed
  moreover have "bit (ready_group demo) n \<longleftrightarrow> ready_table demo n \<noteq> 0" for n
    by (auto simp: bit_group)
  ultimately show ?thesis unfolding bitmap_ok_def by blast
qed

lemma demo_kinv: "kinv demo"
proof -
  have "lists_ok demo" by (simp add: lists_ok_def)
  moreover have "tinv demo t" for t
    by (simp add: tinv_def thread_ok_def thread_timer_ok_def rt_object_get_type_def
        rt_object_is_systemobject_def)
  ultimately show ?thesis using demo_bitmap by (simp add: kinv_def)
qed

lemma demo_fine: "sched_fine demo"
  by (simp add: sched_fine_def)

lemma demo_timed: "timed demo"
  using demo_kinv demo_fine by (simp add: timed_def one_shots_def pending_ok_def ordered_from_def)

definition demo_wait :: "lhead \<Rightarrow> kern" where
  "demo_wait q = demo\<lparr>queues := (queues demo)(q := [5])\<rparr>"

end
