(* ===== verification/Timer_Check.thy ===== *)
theory Timer_Check
  imports Timer "HOL-Library.Multiset"
begin

text \<open>
  One check of the hard timers (\<open>rt_timer_check\<close> of \<^verbatim>\<open>rt-thread/src/timer.c\<close>) with timers of the
  application in the list: their functions are called, periodic ones are started again.

  The functions are those of applications that keep to their own data, which in the state of the kernel
  are the \<open>user_data\<close> words of the threads: what the functions did, and in which order, is what they left
  there. The lemmas follow the check timer by timer (\<open>checked\<close>).
\<close>

section \<open>The data of the application\<close>

definition user_data :: "kern \<Rightarrow> tid \<Rightarrow> u32" where
  "user_data s = (\<lambda>t. th_user_data (thr s t))"

definition set_user_data :: "(tid \<Rightarrow> u32) \<Rightarrow> kern \<Rightarrow> kern" where
  "set_user_data d s = s\<lparr>thr := (\<lambda>t. (thr s t)\<lparr>th_user_data := d t\<rparr>)\<rparr>"

lemma set_user_data_frame [simp]:
  "objs (set_user_data d s) = objs s" "containers (set_user_data d s) = containers s"
  "tmr (set_user_data d s) = tmr s" "thr (set_user_data d s) t = (thr s t)\<lparr>th_user_data := d t\<rparr>"
  "queues (set_user_data d s) = queues s" "ready_table (set_user_data d s) = ready_table s"
  "ready_group (set_user_data d s) = ready_group s" "current (set_user_data d s) = current s"
  "cur_prio (set_user_data d s) = cur_prio s" "lock_nest (set_user_data d s) = lock_nest s"
  "irq_nest (set_user_data d s) = irq_nest s" "tick (set_user_data d s) = tick s"
  "timer_list (set_user_data d s) = timer_list s" "soft_timer_list (set_user_data d s) = soft_timer_list s"
  "user_data (set_user_data d s) = d"
  by (simp_all add: set_user_data_def user_data_def)

lemma set_user_data_kinv: "kinv s \<Longrightarrow> kinv (set_user_data d s)"
  by (rule kinv_frame [of s]) (simp_all add: th_core_def)

text \<open>The function of the timer \<open>n\<close> applies \<open>f n\<close> to the data of the application.\<close>

definition app_functions :: "(nat \<Rightarrow> (tid \<Rightarrow> u32) \<Rightarrow> tid \<Rightarrow> u32) \<Rightarrow> (nat \<Rightarrow> kern \<Rightarrow> kern option) \<Rightarrow> bool" where
  "app_functions f cb \<longleftrightarrow> (\<forall>n s. cb n s = Some (set_user_data (f n (user_data s)) s))"

section \<open>What a check does\<close>

definition due :: "kern \<Rightarrow> oref \<Rightarrow> bool" where
  "due s r \<longleftrightarrow> unat (tm_timeout_tick (tmr s r) - (tick s - 1)) \<le> 1"

definition repeats :: "kern \<Rightarrow> oref \<Rightarrow> bool" where
  "repeats s r \<longleftrightarrow> obj_flag (objs s r) AND RT_TIMER_FLAG_PERIODIC \<noteq> 0 \<and> timer_activated s r"

text \<open>The timers of the application in the list: a function of the application, no soft timer, and a
  period that is positive and below the limit of \<open>rt_timer_start\<close>.\<close>

definition app_timers_ok :: "kern \<Rightarrow> bool" where
  "app_timers_ok s \<longleftrightarrow> (\<forall>n. Obj n \<in> set (timer_list s) \<longrightarrow>
     rt_object_get_type (Obj n) s = RT_Object_Class_Timer \<and> (\<exists>k. tm_func (tmr s (Obj n)) = User_timeout k) \<and>
     obj_flag (objs s (Obj n)) AND RT_TIMER_FLAG_SOFT_TIMER = 0 \<and>
     (repeats s (Obj n) \<longrightarrow> 0 < tm_init_tick (tmr s (Obj n)) \<and> tm_init_tick (tmr s (Obj n)) < RT_TICK_MAX div 2))"

fun user_calls :: "kern \<Rightarrow> oref list \<Rightarrow> nat list" where
  "user_calls s [] = []"
| "user_calls s (r # rs) =
     (case tm_func (tmr s r) of User_timeout k \<Rightarrow> k # user_calls s rs | Thread_timeout t \<Rightarrow> user_calls s rs)"

definition restarted :: "kern \<Rightarrow> oref list \<Rightarrow> oref \<Rightarrow> rt_timer" where
  "restarted s rs r = (if r \<in> set rs \<and> repeats s r
     then (tmr s r)\<lparr>tm_timeout_tick := tick s + tm_init_tick (tmr s r)\<rparr> else tmr s r)"

text \<open>From \<open>s\<close> to \<open>s'\<close> the timers \<open>rs\<close>, all due, have been served in this order.\<close>

definition checked :: "(nat \<Rightarrow> (tid \<Rightarrow> u32) \<Rightarrow> tid \<Rightarrow> u32) \<Rightarrow> oref list \<Rightarrow> kern \<Rightarrow> kern \<Rightarrow> bool" where
  "checked f rs s s' \<longleftrightarrow>
     queues s' = (\<lambda>q. filter (\<lambda>t. t \<notin> set (timer_threads rs)) (queues s q) @
       (case q of ReadyQ p \<Rightarrow> filter (\<lambda>t. unat (th_current_priority (thr s t)) = p) (timer_threads rs) | _ \<Rightarrow> [])) \<and>
     (\<forall>t. thr s' t = (if t \<in> set (timer_threads rs) then timed_out (thr s t) else thr s t)
       \<lparr>th_user_data := fold f (user_calls s rs) (user_data s) t\<rparr>) \<and>
     tmr s' = restarted s rs \<and> tick s' = tick s \<and>
     (\<forall>r. objs s' r = (if r \<in> set rs then (objs s r)\<lparr>obj_flag := (if repeats s r then obj_flag (objs s r)
         else obj_flag (objs s r) AND NOT RT_TIMER_FLAG_ACTIVATED)\<rparr> else objs s r))"

lemma checkedD:
  assumes "checked f rs s s'"
  shows "queues s' (ReadyQ p) = filter (\<lambda>t. t \<notin> set (timer_threads rs)) (queues s (ReadyQ p)) @
      filter (\<lambda>t. unat (th_current_priority (thr s t)) = p) (timer_threads rs)"
    "queues s' (SuspendQ r) = filter (\<lambda>t. t \<notin> set (timer_threads rs)) (queues s (SuspendQ r))"
    "user_data s' = fold f (user_calls s rs) (user_data s)"
    "thr s' t = (if t \<in> set (timer_threads rs) then timed_out (thr s t) else thr s t)\<lparr>th_user_data := user_data s' t\<rparr>"
    "tm_timeout_tick (tmr s' r) = (if r \<in> set rs \<and> repeats s r then tick s + tm_init_tick (tmr s r)
      else tm_timeout_tick (tmr s r))"
    "timer_activated s' r \<longleftrightarrow> timer_activated s r \<and> (r \<in> set rs \<longrightarrow> repeats s r)" "tick s' = tick s"
proof -
  have th: "thr s' t = (if t \<in> set (timer_threads rs) then timed_out (thr s t) else thr s t)
      \<lparr>th_user_data := fold f (user_calls s rs) (user_data s) t\<rparr>" for t using assms unfolding checked_def by blast
  show ud: "user_data s' = fold f (user_calls s rs) (user_data s)" by (rule ext) (simp add: user_data_def th)
  show "thr s' t = (if t \<in> set (timer_threads rs) then timed_out (thr s t) else thr s t)\<lparr>th_user_data := user_data s' t\<rparr>"
    unfolding ud by (rule th)
  show "timer_activated s' r \<longleftrightarrow> timer_activated s r \<and> (r \<in> set rs \<longrightarrow> repeats s r)"
    using assms by (auto simp: checked_def repeats_def and.assoc)
qed (use assms in \<open>simp_all add: checked_def restarted_def\<close>)

lemma clear_set_bit: "w AND a = a \<Longrightarrow> (w AND NOT a) OR a = (w :: 'a::len word)"
proof -
  assume a: "w AND a = a"
  have "(w AND NOT a) OR a = (w OR a) AND (NOT a OR a)" by (rule bit.disj_conj_distrib2)
  also have "\<dots> = w OR a" by simp
  also have "\<dots> = w OR (w AND a)" unfolding a ..
  also have "\<dots> = w" by simp
  finally show ?thesis .
qed

lemma activate_again:
  fixes w :: u8
  assumes "w AND RT_TIMER_FLAG_ACTIVATED \<noteq> 0"
  shows "(w AND NOT RT_TIMER_FLAG_ACTIVATED) OR RT_TIMER_FLAG_ACTIVATED = w"
proof (rule clear_set_bit)
  show "w AND 1 = 1" using assms unfolding and_one_eq by (simp add: odd_iff_mod_2_eq_one [symmetric])
qed

lemma user_data_same [simp]: "(th :: rt_thread)\<lparr>th_user_data := th_user_data th\<rparr> = th"
  by (cases th) simp

lemma timer_threads_Cons: "timer_threads (r # rs) = timer_threads [r] @ timer_threads rs"
  by (cases r) simp_all

lemma checked_Nil: "checked f [] s s"
  by (simp add: checked_def fun_eq_iff restarted_def user_data_def split: lhead.splits)

lemma checked_Cons:
  assumes a: "checked f [r] s s1" and b: "checked f rs s1 s'" and r: "r \<notin> set rs"
  shows "checked f (r # rs) s s'"
proof -
  have tm: "tmr s1 q = restarted s [r] q" for q using a by (simp add: checked_def)
  have fn: "tm_func (tmr s1 q) = tm_func (tmr s q)" for q by (simp add: tm restarted_def)
  have uc: "user_calls s1 qs = user_calls s qs" for qs
    by (induction qs) (simp_all add: fn split: timeout_func.split)
  have ob: "objs s1 q = objs s q" if "q \<noteq> r" for q using a that by (simp add: checked_def)
  have rp: "repeats s1 q = repeats s q" if "q \<noteq> r" for q using ob [OF that] by (simp add: repeats_def)
  have tk: "tick s1 = tick s" "tick s' = tick s" using a b by (simp_all add: checked_def)
  let ?t = "timer_threads [r]" and ?ts = "timer_threads rs"
  have dis: "t \<notin> set ?ts" if "t \<in> set ?t" for t using that r by (cases r) (auto simp: set_timer_threads)
  have th1: "thr s1 t = (if t \<in> set ?t then timed_out (thr s t) else thr s t)
      \<lparr>th_user_data := fold f (user_calls s [r]) (user_data s) t\<rparr>" for t using a unfolding checked_def by blast
  have ud: "user_data s1 = fold f (user_calls s [r]) (user_data s)" by (rule ext) (simp add: user_data_def th1)
  have pr: "th_current_priority (thr s1 t) = th_current_priority (thr s t)" for t by (simp add: th1)
  have calls: "fold f (user_calls s rs) (fold f (user_calls s [r]) d) = fold f (user_calls s (r # rs)) d" for d
    by (simp split: timeout_func.split)
  have q1: "queues s1 q = filter (\<lambda>t. t \<notin> set ?t) (queues s q) @
      (case q of ReadyQ p \<Rightarrow> filter (\<lambda>t. unat (th_current_priority (thr s t)) = p) ?t | _ \<Rightarrow> [])" for q
    using a by (simp add: checked_def)
  have q2: "queues s' q = filter (\<lambda>t. t \<notin> set ?ts) (queues s1 q) @
      (case q of ReadyQ p \<Rightarrow> filter (\<lambda>t. unat (th_current_priority (thr s t)) = p) ?ts | _ \<Rightarrow> [])" for q
    using b by (cases q) (simp_all add: checked_def pr)
  have "filter (\<lambda>t. t \<notin> set ?ts) (filter P ?t) = filter P ?t" for P
    by (rule filter_True) (use dis in auto)
  then have "queues s' q = filter (\<lambda>t. t \<notin> set (timer_threads (r # rs))) (queues s q) @
      (case q of ReadyQ p \<Rightarrow> filter (\<lambda>t. unat (th_current_priority (thr s t)) = p) (timer_threads (r # rs)) | _ \<Rightarrow> [])" for q
    unfolding q2 q1 timer_threads_Cons [of r rs] by (cases q) (auto intro: filter_cong)
  moreover have "thr s' t = (if t \<in> set (timer_threads (r # rs)) then timed_out (thr s t) else thr s t)
      \<lparr>th_user_data := fold f (user_calls s (r # rs)) (user_data s) t\<rparr>" for t
  proof -
    have "thr s' t = (if t \<in> set ?ts then timed_out (thr s1 t) else thr s1 t)
        \<lparr>th_user_data := fold f (user_calls s1 rs) (user_data s1) t\<rparr>" using b unfolding checked_def by blast
    then show ?thesis unfolding timer_threads_Cons [of r rs] uc ud calls th1 using dis [of t]
      by (auto simp: timed_out_def)
  qed
  moreover have "tmr s' = restarted s (r # rs)"
  proof
    fix q
    have "tmr s' q = restarted s1 rs q" using b by (simp add: checked_def)
    then show "tmr s' q = restarted s (r # rs) q"
      using rp [of q] r by (cases "q = r") (auto simp: restarted_def tm tk)
  qed
  moreover have "objs s' q = (if q \<in> set (r # rs) then (objs s q)\<lparr>obj_flag := (if repeats s q then obj_flag (objs s q)
      else obj_flag (objs s q) AND NOT RT_TIMER_FLAG_ACTIVATED)\<rparr> else objs s q)" for q
    using a b r ob [of q] rp [of q] by (cases "q = r") (simp_all add: checked_def)
  ultimately show ?thesis using tk(2) unfolding checked_def by blast
qed

section \<open>One timer\<close>

lemma thread_timeout_objs: "rt_thread_timeout t s = Some s' \<Longrightarrow> objs s' = objs s"
  by (auto simp: rt_thread_timeout_def Some_bind_iff elim!: rt_schedule_cases)

lemma serve_thread:
  assumes "kinv s" "sched_fine s" "timer_list s = TimerOf t # rs" "tm_func (tmr s (TimerOf t)) = Thread_timeout t"
  obtains s1 s2 where "rt_thread_timeout t (rt_timer_remove (TimerOf t) s) = Some s1"
    "timer_finish (TimerOf t) s1 = Some s2" "tick s1 = tick s" "kinv s2" "sched_fine s2"
    "checked f [TimerOf t] s s2" "timer_list s2 = rs" "\<not> repeats s (TimerOf t)"
proof -
  obtain s1 s2 where a: "rt_thread_timeout t (rt_timer_remove (TimerOf t) s) = Some s1"
    "timer_finish (TimerOf t) s1 = Some s2" "tick s1 = tick s" "kinv s2" "sched_fine s2" "fired [t] s s2" "timer_list s2 = rs"
    "\<And>r. r \<noteq> TimerOf t \<Longrightarrow> objs s2 r = objs s r" using fire_thread [OF assms(1-3)] by metis
  have "tinv s t" using assms(1) by (simp add: kinv_def)
  then have np: "obj_flag (objs s (TimerOf t)) AND RT_TIMER_FLAG_PERIODIC = 0"
    using assms(3) tinv_threadD(4) [of s t] unfolding tinv_def by (auto simp: thread_timer_ok_def)
  have o1: "objs s1 = objs s" using thread_timeout_objs [OF a(1)] by simp
  have "s2 = clear_activated (TimerOf t) s1" using a(2) np by (simp add: timer_finish_def o1)
  then have o2: "objs s2 (TimerOf t) = (objs s (TimerOf t))\<lparr>obj_flag := obj_flag (objs s (TimerOf t)) AND NOT RT_TIMER_FLAG_ACTIVATED\<rparr>"
    by (simp add: o1)
  have nr: "\<not> repeats s (TimerOf t)" using np by (simp add: repeats_def)
  have "checked f [TimerOf t] s s2"
    using a(6) a(8) o2 nr assms(4) by (auto simp: checked_def fired_def restarted_def user_data_def fun_eq_iff timed_out_def split: lhead.split)
  then show thesis using that a(1-5,7) nr by blast
qed

lemma arm_app_kinv:
  assumes "kinv s" "obj_flag (objs s (Obj n)) AND RT_TIMER_FLAG_SOFT_TIMER = 0"
  shows "kinv (arm (Obj n) s)"
proof -
  note fr = arm_frame [OF assms(2)]
  show ?thesis by (rule kinv_timers [OF assms(1)])
    (use assms(1) in \<open>auto simp: fr kinv_def distinct_timer_insert distinct_removeAll\<close>)
qed

lemma serve_app:
  assumes "kinv s" "sched_fine s" "app_functions f cb" "app_timers_ok s" "timer_list s = Obj n # rs"
  obtains s1 s2 where "run_timeout cb (tm_func (tmr s (Obj n))) (rt_timer_remove (Obj n) s) = Some s1"
    "timer_finish (Obj n) s1 = Some s2" "tick s1 = tick s" "kinv s2" "sched_fine s2" "checked f [Obj n] s s2"
    "timer_list s2 = (if repeats s (Obj n) then timer_insert (\<lambda>x. tm_timeout_tick (tmr s2 x)) (Obj n)
       (tick s + tm_init_tick (tmr s (Obj n))) rs else rs)"
proof -
  let ?r = "Obj n"
  have d: "?r \<notin> set rs" "?r \<notin> set (soft_timer_list s)" using assms(1,5) by (auto simp: kinv_def)
  obtain k where k: "tm_func (tmr s ?r) = User_timeout k" "rt_object_get_type ?r s = RT_Object_Class_Timer"
    "obj_flag (objs s ?r) AND RT_TIMER_FLAG_SOFT_TIMER = 0"
    "repeats s ?r \<Longrightarrow> tm_init_tick (tmr s ?r) < RT_TICK_MAX div 2"
    using assms(4,5) by (auto simp: app_timers_ok_def)
  define s1 where "s1 = set_user_data (f k (user_data s)) (rt_timer_remove ?r s)"
  let ?c = "clear_activated ?r s1"
  have ud: "user_data (rt_timer_remove ?r s) = user_data s" by (simp add: user_data_def)
  have run: "run_timeout cb (tm_func (tmr s ?r)) (rt_timer_remove ?r s) = Some s1"
    using assms(3) k(1) ud by (simp add: app_functions_def s1_def)
  have k1: "kinv ?c" unfolding s1_def
    by (rule clear_activated_kinv [OF set_user_data_kinv [OF timer_remove_kinv [OF assms(1)]]]) simp
  have f1: "sched_fine ?c" using assms(2)
    by (auto simp: sched_fine_def rt_object_get_type_def s1_def rt_scheduler_stack_check_def)
  have ro: "removeAll ?r (soft_timer_list s) = soft_timer_list s" "removeAll ?r rs = rs" using d by simp_all
  show thesis
  proof (cases "repeats s ?r")
    case False
    have fin: "timer_finish ?r s1 = Some ?c" using False by (auto simp: timer_finish_def repeats_def s1_def)
    have "checked f [?r] s ?c" using False k(1) ro
      by (auto simp: checked_def restarted_def fun_eq_iff s1_def split: lhead.split)
    then show thesis using that [OF run fin _ k1 f1] False assms(5) d(1) by (simp add: s1_def)
  next
    case True
    have sf: "obj_flag (objs ?c ?r) AND RT_TIMER_FLAG_SOFT_TIMER = 0" using k(3) by (simp add: s1_def flag_clear_keeps)
    note fr = arm_frame [OF sf]
    have "rt_timer_start ?r ?c = Some (RT_EOK, arm ?r ?c)"
      by (rule start_hard_eq [OF _ sf]) (use k(2,4) True in \<open>simp_all add: s1_def rt_object_get_type_def\<close>)
    then have fin: "timer_finish ?r s1 = Some (arm ?r ?c)" using True by (simp add: timer_finish_def repeats_def s1_def)
    have ac: "obj_flag (objs s ?r) AND NOT RT_TIMER_FLAG_ACTIVATED AND NOT RT_TIMER_FLAG_ACTIVATED OR
        RT_TIMER_FLAG_ACTIVATED = obj_flag (objs s ?r)"
      using activate_again [of "obj_flag (objs s ?r)"] True by (simp add: repeats_def and.assoc)
    have f2: "sched_fine (arm ?r ?c)" using f1 by (auto simp: sched_fine_def rt_object_get_type_def fr)
    have "checked f [?r] s (arm ?r ?c)" unfolding checked_def fr(1,3,4,5,12) using True k(1) ac
      by (auto simp: restarted_def fun_eq_iff s1_def split: lhead.split)
    moreover have "timer_list (arm ?r ?c) = timer_insert (\<lambda>x. tm_timeout_tick (tmr (arm ?r ?c) x)) ?r
        (tick s + tm_init_tick (tmr s ?r)) rs"
      unfolding fr(13) using assms(5) d(1) by (simp add: s1_def)
    ultimately show thesis using that [OF run fin _ arm_app_kinv [OF k1 sf] f2] True by (simp add: s1_def)
  qed
qed

section \<open>The list\<close>

text \<open>A stable sort that meets a sorted part again changes nothing there.\<close>

lemma sort_key_sorted_append: "sort_key f (sort_key f xs @ ys) = sort_key f (xs @ ys)"
proof (rule properties_for_sort_key)
  fix k assume "k \<in> set (sort_key f (xs @ ys))"
  show "filter (\<lambda>x. f k = f x) (sort_key f (xs @ ys)) = filter (\<lambda>x. f k = f x) (sort_key f xs @ ys)"
    using sort_key_stable [of f "f k" xs] sort_key_stable [of f "f k" "xs @ ys"] by (simp add: eq_commute)
qed simp_all

lemma sort_key_cong:
  assumes "\<And>x. x \<in> set xs \<Longrightarrow> f x = g x"
  shows "sort_key f xs = sort_key g xs"
proof (rule properties_for_sort_key)
  have "map f (sort_key g xs) = map g (sort_key g xs)" using assms by simp
  then show "sorted (map f (sort_key g xs))" by (simp only: sorted_sort_key)
  fix k assume "k \<in> set (sort_key g xs)"
  then have k: "f k = g k" using assms by simp
  have fg: "filter (\<lambda>x. f k = f x) zs = filter (\<lambda>x. g x = g k) zs" if "set zs \<subseteq> set xs" for zs
    using that assms k by (intro filter_cong) (auto simp: subset_iff)
  show "filter (\<lambda>x. f k = f x) (sort_key g xs) = filter (\<lambda>x. f k = f x) xs"
    using sort_key_stable [of g "g k" xs] by (simp add: fg)
qed simp

lemma timer_insert_sort:
  assumes "ordered_from b tt ts" "tt r - b < RT_TICK_MAX div 2"
  shows "timer_insert tt r (tt r) ts = sort_key (\<lambda>x. unat (tt x - b)) (ts @ [r])"
proof (rule properties_for_sort_key [symmetric])
  let ?i = "timer_insert tt r (tt r) ts" and ?f = "\<lambda>x. unat (tt x - b)"
  note e = timer_insert_splits [OF assms, of r]
  show "mset ?i = mset (ts @ [r])" unfolding e
    using multiset_partition [of "mset ts" "\<lambda>x. ?f x \<le> ?f r"] by (simp add: not_le)
  show "sorted (map ?f ?i)" using timer_insert_ordered [OF assms(1) refl assms(2)] by (simp add: ordered_from_def)
  fix k
  show "filter (\<lambda>x. ?f k = ?f x) ?i = filter (\<lambda>x. ?f k = ?f x) (ts @ [r])"
  proof (cases "?f k \<le> ?f r")
    case True
    then have "filter (\<lambda>x. ?f x \<le> ?f r \<and> ?f k = ?f x) ts = filter (\<lambda>x. ?f k = ?f x) ts"
      "filter (\<lambda>x. ?f r < ?f x \<and> ?f k = ?f x) ts = []" by (auto intro!: filter_cong filter_False)
    then show ?thesis unfolding e by (simp add: conj_commute)
  next
    case False
    then have "filter (\<lambda>x. ?f r < ?f x \<and> ?f k = ?f x) ts = filter (\<lambda>x. ?f k = ?f x) ts"
      "filter (\<lambda>x. ?f x \<le> ?f r \<and> ?f k = ?f x) ts = []" by (auto intro!: filter_cong filter_False)
    then show ?thesis using False unfolding e by (simp add: conj_commute)
  qed
qed

lemma minus_tick:
  fixes n :: u32
  assumes "0 < n" "n < 0x7fffffff"
  shows "\<not> - n < 0x7fffffff" "\<not> - n - 1 < 0x7fffffff"
proof -
  let ?u = "uint n"
  have u: "0 < ?u" "?u < 0x7fffffff" using assms by (simp_all add: word_less_def)
  have m: "- a mod 2 ^ 32 = (2 ^ 32 - a :: int)" if "0 < a" "a < 2 ^ 32" for a
    using that by (simp add: zmod_zminus1_eq_if)
  have "uint (- n) = - ?u mod 2 ^ 32" by (simp add: uint_word_ariths)
  then show "\<not> - n < 0x7fffffff" using u m [of ?u] by (simp add: word_less_def)
  have "- n - 1 = - (n + 1)" by simp
  also have "uint \<dots> = - (?u + 1) mod 2 ^ 32" by (simp add: uint_word_ariths mod_simps)
  finally show "\<not> - n - 1 < 0x7fffffff" using u m [of "?u + 1"] by (simp add: word_less_def)
qed

lemma insert_behind_due:
  fixes n T :: u32
  assumes "\<forall>x \<in> set ds. unat (tt x - (T - 1)) \<le> 1" "0 < n" "n < RT_TICK_MAX div 2"
  shows "timer_insert tt r (T + n) (ds @ us) = ds @ timer_insert tt r (T + n) us"
  using assms(1)
proof (induction ds)
  case (Cons x ds)
  have "tt x - (T - 1) = 0 \<or> tt x - (T - 1) = 1"
    using Cons.prems by (auto simp: le_Suc_eq word_unat_eq_iff)
  then have "tt x - (T + n) = - n - 1 \<or> tt x - (T + n) = - n"
    by (auto simp: algebra_simps eq_diff_eq)
  then have "\<not> tt x - (T + n) < RT_TICK_MAX div 2"
    using minus_tick [OF assms(2)] assms(3) unfolding half_tick by metis
  then show ?case using Cons by (simp split: if_splits)
qed simp

section \<open>The loop\<close>

abbreviation (input) timeout_at :: "kern \<Rightarrow> oref \<Rightarrow> u32" where
  "timeout_at s r \<equiv> tm_timeout_tick (tmr s r)"

lemma due_now: "due s r \<Longrightarrow> tick s - timeout_at s r < RT_TICK_MAX div 2"
proof -
  assume d: "due s r"
  then have "timeout_at s r - (tick s - 1) < 0x7fffffff" by (simp add: due_def word_less_nat_alt)
  from due_iff [OF this] d show ?thesis unfolding half_tick due_def by blast
qed

lemma checked_app_timers:
  assumes "app_timers_ok s" "checked f [r] s s1" "set (timer_list s1) \<subseteq> set (timer_list s)"
  shows "app_timers_ok s1"
  unfolding app_timers_ok_def
proof (intro allI impI)
  fix n assume "Obj n \<in> set (timer_list s1)"
  then have n: "Obj n \<in> set (timer_list s)" using assms(3) by blast
  have o: "obj_type (objs s1 (Obj n)) = obj_type (objs s (Obj n))"
    "obj_flag (objs s1 (Obj n)) = (if Obj n = r \<and> \<not> repeats s r then obj_flag (objs s r) AND NOT RT_TIMER_FLAG_ACTIVATED
       else obj_flag (objs s (Obj n)))" using assms(2) by (simp_all add: checked_def)
  have t: "tm_func (tmr s1 (Obj n)) = tm_func (tmr s (Obj n))" "tm_init_tick (tmr s1 (Obj n)) = tm_init_tick (tmr s (Obj n))"
    using assms(2) by (simp_all add: checked_def restarted_def)
  have rp: "repeats s1 (Obj n) \<longrightarrow> repeats s (Obj n)" using o by (auto simp: repeats_def and.assoc)
  have so: "obj_flag (objs s1 (Obj n)) AND RT_TIMER_FLAG_SOFT_TIMER = 0"
    using assms(1) n o(2) by (auto simp: app_timers_ok_def flag_clear_keeps)
  show "rt_object_get_type (Obj n) s1 = RT_Object_Class_Timer \<and> (\<exists>k. tm_func (tmr s1 (Obj n)) = User_timeout k) \<and>
     obj_flag (objs s1 (Obj n)) AND RT_TIMER_FLAG_SOFT_TIMER = 0 \<and>
     (repeats s1 (Obj n) \<longrightarrow> 0 < tm_init_tick (tmr s1 (Obj n)) \<and> tm_init_tick (tmr s1 (Obj n)) < RT_TICK_MAX div 2)"
    using assms(1) n rp so unfolding app_timers_ok_def t rt_object_get_type_def o(1) by blast
qed

text \<open>The first timer of the list is due: it is served, and started again behind the timers that are
  due too, if it is periodic.\<close>

lemma check_one:
  assumes "kinv s" "sched_fine s" "app_functions f cb" "app_timers_ok s" "timer_list s = r # ds @ us"
    "\<forall>x \<in> set (r # ds). due s x"
  obtains s2 where "rt_timer_check_loop cb (tick s) s = rt_timer_check_loop cb (tick s) s2" "kinv s2" "sched_fine s2"
    "checked f [r] s s2" "app_timers_ok s2"
    "timer_list s2 = ds @ (if repeats s r then timer_insert (timeout_at s2) r (timeout_at s2 r) us else us)"
    "repeats s r \<Longrightarrow> timeout_at s2 r - tick s < RT_TICK_MAX div 2 \<and> \<not> tick s - timeout_at s2 r < RT_TICK_MAX div 2"
proof -
  have due: "tick s - timeout_at s r < RT_TICK_MAX div 2" using assms(6) by (intro due_now) simp
  have d: "r \<notin> set ds" using assms(1,5) by (simp add: kinv_def)
  have step: "rt_timer_check_loop cb (tick s) s = rt_timer_check_loop cb (tick s) s2"
    if "run_timeout cb (tm_func (tmr s r)) (rt_timer_remove r s) = Some s1" "timer_finish r s1 = Some s2" "tick s1 = tick s" for s1 s2
    using that assms(5) due by (subst rt_timer_check_loop.simps) simp
  show thesis
  proof (cases r)
    case (TimerOf t)
    have fn: "tm_func (tmr s r) = Thread_timeout t"
      using assms(1,5) TimerOf tinv_threadD(4) [OF kinvD(3) [OF assms(1)], of t]
      by (auto simp: kinv_def tinv_def thread_timer_ok_def)
    obtain s1 s2 where a: "rt_thread_timeout t (rt_timer_remove (TimerOf t) s) = Some s1"
      "timer_finish (TimerOf t) s1 = Some s2" "tick s1 = tick s" "kinv s2" "sched_fine s2"
      "checked f [TimerOf t] s s2" "timer_list s2 = ds @ us" "\<not> repeats s (TimerOf t)"
      by (rule serve_thread [of s t "ds @ us" f]) (use assms fn TimerOf in simp_all)
    have "app_timers_ok s2" by (rule checked_app_timers [OF assms(4) a(6)]) (use a(7) assms(5) in auto)
    then show thesis using that [OF step a(4,5)] a fn TimerOf by simp
  next
    case (Obj n)
    obtain s1 s2 where a: "run_timeout cb (tm_func (tmr s (Obj n))) (rt_timer_remove (Obj n) s) = Some s1"
      "timer_finish (Obj n) s1 = Some s2" "tick s1 = tick s" "kinv s2" "sched_fine s2" "checked f [Obj n] s s2"
      and l: "timer_list s2 = (if repeats s (Obj n) then timer_insert (timeout_at s2) (Obj n)
         (tick s + tm_init_tick (tmr s (Obj n))) (ds @ us) else ds @ us)"
      by (rule serve_app [of s f cb n "ds @ us"]) (use assms Obj in simp_all)
    have ok: "app_timers_ok s2" by (rule checked_app_timers [OF assms(4) a(6)]) (use l assms(5) Obj in auto)
    have tt: "timeout_at s2 r = (if repeats s r then tick s + tm_init_tick (tmr s r) else timeout_at s r)"
      "\<And>x. x \<noteq> r \<Longrightarrow> timeout_at s2 x = timeout_at s x"
      using a(6) Obj by (simp_all add: checked_def restarted_def)
    have n: "0 < tm_init_tick (tmr s r)" "tm_init_tick (tmr s r) < RT_TICK_MAX div 2" if "repeats s r"
      using assms(4,5) that Obj by (auto simp: app_timers_ok_def)
    have dd: "\<forall>x \<in> set ds. unat (timeout_at s2 x - (tick s - 1)) \<le> 1"
    proof
      fix x assume x: "x \<in> set ds"
      then have "x \<noteq> r" using d by auto
      then show "unat (timeout_at s2 x - (tick s - 1)) \<le> 1" using assms(6) x tt(2) by (simp add: due_def)
    qed
    have "timer_list s2 = ds @ (if repeats s r then timer_insert (timeout_at s2) r (timeout_at s2 r) us else us)"
      using insert_behind_due [OF dd n] l Obj tt(1) by auto
    moreover have "timeout_at s2 r - tick s < RT_TICK_MAX div 2 \<and> \<not> tick s - timeout_at s2 r < RT_TICK_MAX div 2"
      if "repeats s r" using n [OF that] minus_tick(1) [OF n(1) [OF that]] that tt(1) unfolding half_tick by simp
    ultimately show thesis using that [OF step a(4,5)] a ok Obj by simp
  qed
qed

text \<open>The whole loop: \<open>ds\<close> are the timers that are due, \<open>us\<close> those that are not.\<close>

lemma check_loop:
  assumes "kinv s" "sched_fine s" "app_functions f cb" "app_timers_ok s" "timer_list s = ds @ us"
    "\<forall>x \<in> set ds. due s x" "\<forall>x \<in> set us. \<not> tick s - timeout_at s x < RT_TICK_MAX div 2"
    "ordered_from (tick s) (timeout_at s) us"
  shows "\<exists>s'. rt_timer_check_loop cb (tick s) s = Some s' \<and> kinv s' \<and> checked f ds s s' \<and>
    ordered_from (tick s) (timeout_at s') (timer_list s') \<and>
    timer_list s' = sort_key (\<lambda>r. unat (timeout_at s' r - tick s)) (us @ filter (repeats s) ds)"
  using assms
proof (induction ds arbitrary: s us)
  case Nil
  have "rt_timer_check_loop cb (tick s) s = Some s"
    using Nil.prems(5,7) by (cases us) (simp_all add: rt_timer_check_loop.simps)
  moreover have "sort_key (\<lambda>r. unat (timeout_at s r - tick s)) us = us"
    by (rule properties_for_sort_key) (use Nil.prems(8) in \<open>simp_all add: ordered_from_def\<close>)
  ultimately show ?case using Nil.prems checked_Nil by simp
next
  case (Cons r ds)
  have d: "distinct (r # ds @ us)" using Cons.prems(1,5) by (simp add: kinv_def)
  obtain s2 where e: "rt_timer_check_loop cb (tick s) s = rt_timer_check_loop cb (tick s) s2" "kinv s2" "sched_fine s2"
    "checked f [r] s s2" "app_timers_ok s2"
    and l: "timer_list s2 = ds @ (if repeats s r then timer_insert (timeout_at s2) r (timeout_at s2 r) us else us)"
    and n: "repeats s r \<Longrightarrow> timeout_at s2 r - tick s < RT_TICK_MAX div 2 \<and> \<not> tick s - timeout_at s2 r < RT_TICK_MAX div 2"
    by (rule check_one [OF Cons.prems(1-4) _ Cons.prems(6)]) (use Cons.prems(5) in auto)
  define us2 where "us2 = (if repeats s r then timer_insert (timeout_at s2) r (timeout_at s2 r) us else us)"
  have tk: "tick s2 = tick s" using e(4) by (simp add: checked_def)
  have same: "timeout_at s2 x = timeout_at s x" "repeats s2 x = repeats s x" if "x \<noteq> r" for x
    using e(4) that by (simp_all add: checked_def restarted_def repeats_def)
  have du: "\<forall>x \<in> set ds. due s2 x"
  proof
    fix x assume x: "x \<in> set ds"
    then have "x \<noteq> r" using d by auto
    then show "due s2 x" using Cons.prems(6) x same(1) by (simp add: due_def tk)
  qed
  have ru: "x \<noteq> r" if "x \<in> set us" for x using d that by auto
  have "ordered_from (tick s) (timeout_at s2) us"
    using Cons.prems(8) ru same(1) by (subst ordered_from_cong [where g = "timeout_at s"]) auto
  note ins = timer_insert_ordered [OF this refl] timer_insert_sort [OF this]
  have o2: "ordered_from (tick s) (timeout_at s2) us2" using ins(1) n \<open>ordered_from (tick s) (timeout_at s2) us\<close>
    by (simp add: us2_def)
  have nd: "\<forall>x \<in> set us2. \<not> tick s - timeout_at s2 x < RT_TICK_MAX div 2"
    using Cons.prems(7) n ru same(1) by (auto simp: us2_def)
  from Cons.IH [OF e(2,3) Cons.prems(3) e(5) l [folded us2_def] du] nd o2
  obtain s' where s': "rt_timer_check_loop cb (tick s) s2 = Some s'" "kinv s'" "checked f ds s2 s'"
    "ordered_from (tick s) (timeout_at s') (timer_list s')"
    "timer_list s' = sort_key (\<lambda>r. unat (timeout_at s' r - tick s)) (us2 @ filter (repeats s2) ds)"
    unfolding tk by blast
  let ?F = "\<lambda>x. unat (timeout_at s' x - tick s)"
  have late: "timeout_at s' x = timeout_at s2 x" if "x \<notin> set ds" for x
    using s'(3) that by (simp add: checked_def restarted_def)
  have "us2 = sort_key ?F (us @ (if repeats s r then [r] else []))"
  proof (cases "repeats s r")
    case True
    have "us2 = sort_key (\<lambda>x. unat (timeout_at s2 x - tick s)) (us @ [r])" using True ins(2) n by (simp add: us2_def)
    also have "\<dots> = sort_key ?F (us @ [r])"
    proof (rule sort_key_cong)
      fix x assume "x \<in> set (us @ [r])"
      then have "x \<notin> set ds" using d by auto
      then show "unat (timeout_at s2 x - tick s) = ?F x" using late by simp
    qed
    finally show ?thesis using True by simp
  next
    case False
    have "map ?F us = map (\<lambda>x. unat (timeout_at s2 x - tick s)) us"
    proof (rule map_cong [OF refl])
      fix x assume "x \<in> set us"
      then have "x \<notin> set ds" using d by auto
      then show "?F x = unat (timeout_at s2 x - tick s)" using late by simp
    qed
    moreover have "sorted (map (\<lambda>x. unat (timeout_at s2 x - tick s)) us)"
      using o2 False by (simp add: us2_def ordered_from_def)
    ultimately have "sorted (map ?F us)" by (simp only:)
    then have "sort_key ?F us = us" by (intro properties_for_sort_key) simp_all
    then show ?thesis using False by (simp add: us2_def)
  qed
  then have "timer_list s' = sort_key ?F ((us @ (if repeats s r then [r] else [])) @ filter (repeats s2) ds)"
    unfolding s'(5) by (simp add: sort_key_sorted_append)
  moreover have "filter (repeats s2) ds = filter (repeats s) ds"
  proof (rule filter_cong [OF refl])
    fix x assume "x \<in> set ds"
    then have "x \<noteq> r" using d by auto
    then show "repeats s2 x = repeats s x" by (rule same(2))
  qed
  ultimately have "timer_list s' = sort_key ?F (us @ filter (repeats s) (r # ds))" by simp
  moreover have "checked f (r # ds) s s'" by (rule checked_Cons [OF e(4) s'(3)]) (use d in simp)
  ultimately show ?case using e(1) s'(1,2,4) by simp
qed

text \<open>A periodic timer with the period 0 is due again at once: the check does not return.\<close>

definition spins :: "oref \<Rightarrow> u32 \<Rightarrow> kern \<Rightarrow> bool" where
  "spins r T s \<longleftrightarrow> timer_list s = [r] \<and> (\<exists>k. tm_func (tmr s r) = User_timeout k) \<and> tm_init_tick (tmr s r) = 0 \<and>
     timeout_at s r = T \<and> tick s = T \<and> rt_object_get_type r s = RT_Object_Class_Timer \<and>
     obj_flag (objs s r) AND RT_TIMER_FLAG_SOFT_TIMER = 0 \<and> repeats s r"

lemma spins_on:
  assumes "spins r T s" "app_functions f cb"
  obtains s1 s2 where "run_timeout cb (tm_func (tmr s r)) (rt_timer_remove r s) = Some s1" "timer_finish r s1 = Some s2"
    "tick s1 = T" "spins r T s2"
proof -
  obtain k where k: "tm_func (tmr s r) = User_timeout k" using assms(1) by (auto simp: spins_def)
  define s1 where "s1 = set_user_data (f k (user_data (rt_timer_remove r s))) (rt_timer_remove r s)"
  let ?c = "clear_activated r s1"
  have sf: "obj_flag (objs ?c r) AND RT_TIMER_FLAG_SOFT_TIMER = 0"
    using assms(1) by (simp add: spins_def s1_def flag_clear_keeps)
  have "rt_timer_start r ?c = Some (RT_EOK, arm r ?c)"
    by (rule start_hard_eq [OF _ sf]) (use assms(1) in \<open>simp_all add: spins_def s1_def rt_object_get_type_def\<close>)
  then have "timer_finish r s1 = Some (arm r ?c)" using assms(1) by (simp add: timer_finish_def repeats_def spins_def s1_def)
  moreover have "obj_flag (objs s r) AND NOT RT_TIMER_FLAG_ACTIVATED AND NOT RT_TIMER_FLAG_ACTIVATED OR
      RT_TIMER_FLAG_ACTIVATED = obj_flag (objs s r)"
    using activate_again [of "obj_flag (objs s r)"] assms(1) by (simp add: spins_def repeats_def and.assoc)
  then have "spins r T (arm r ?c)" using assms(1)
    by (simp add: spins_def arm_frame [OF sf] rt_object_get_type_def repeats_def) (simp add: s1_def)
  moreover have "run_timeout cb (tm_func (tmr s r)) (rt_timer_remove r s) = Some s1"
    using assms(2) k by (simp add: app_functions_def s1_def)
  moreover have "tick s1 = T" using assms(1) by (simp add: spins_def s1_def)
  ultimately show thesis using that by blast
qed

lemma check_never_returns:
  assumes "spins r (tick s) s" "app_functions f cb"
  shows "rt_timer_check cb s = None"
proof -
  have "\<not> (cb = cb' \<and> spins r T s)" if "rt_timer_check_loop cb' T s = Some y" for cb' T s y
  proof (rule rt_timer_check_loop.raw_induct [OF _ that])
    fix loop :: "(nat \<Rightarrow> kern \<Rightarrow> kern option) \<Rightarrow> u32 \<Rightarrow> kern \<Rightarrow> kern option" and cb' T s y
    assume ih: "\<And>cb' T s y. loop cb' T s = Some y \<Longrightarrow> \<not> (cb = cb' \<and> spins r T s)"
      and run: "(case timer_list s of [] \<Rightarrow> Some s
        | t # _ \<Rightarrow> if T - tm_timeout_tick (tmr s t) < RT_TICK_MAX div 2 then
            Option.bind (run_timeout cb' (tm_func (tmr s t)) (rt_timer_remove t s)) (\<lambda>s1.
            Option.bind (timer_finish t s1) (\<lambda>s2. loop cb' (tick s1) s2)) else Some s) = Some y"
    show "\<not> (cb = cb' \<and> spins r T s)"
    proof
      assume a: "cb = cb' \<and> spins r T s"
      obtain s1 s2 where s: "run_timeout cb (tm_func (tmr s r)) (rt_timer_remove r s) = Some s1"
        "timer_finish r s1 = Some s2" "tick s1 = T" "spins r T s2" using spins_on [OF _ assms(2)] a by metis
      have "loop cb T s2 = Some y" using run a s(1-3) by (simp add: spins_def)
      then show False using ih s(4) by blast
    qed
  qed
  then show ?thesis using assms(1) by (cases "rt_timer_check cb s") (auto simp: rt_timer_check_def)
qed

end
