(* ===== verification/Kernel_Props.thy ===== *)
theory Kernel_Props
  imports Demo_State Timer_Check
begin

text \<open>
  The properties of the kernel core: scheduling, the kernel invariant under every thread operation,
  sleeping, the timer list, objects, the pointer lists. Each is instantiated on the system of
  \<open>Demo_State\<close>.
\<close>

section \<open>Scheduling\<close>

text \<open>C1: In every state that satisfies the kernel invariant, an unlocked \<open>rt_schedule\<close> that returns
  has made a ready thread the running one, it is the head of its ready queue, and no ready thread of
  the system is more urgent (has a smaller priority number).\<close>

theorem schedule_most_urgent:
  assumes "kinv s" "lock_nest s = 0" "rt_schedule s = Some s'"
  shows "\<exists>t ts. current s' = Some t \<and> thread_stat s t = RT_THREAD_READY \<and>
    queues s (ReadyQ (unat (th_current_priority (thr s t)))) = t # ts \<and>
    (\<forall>u. is_thread s u \<and> thread_stat s u = RT_THREAD_READY \<longrightarrow>
       th_current_priority (thr s t) \<le> th_current_priority (thr s u))"
proof -
  obtain p t ts where t: "current s' = Some t" "p < 256" "queues s (ReadyQ p) = t # ts"
    and least: "\<And>k. k < p \<Longrightarrow> queues s (ReadyQ k) = []"
    using rt_schedule_picks [OF kinvD(2) [OF assms(1)] assms(3,2)] by metis
  have m: "t \<in> set (queues s (ReadyQ p))" using t(3) by simp
  then have p: "p = unat (th_current_priority (thr s t))"
    using kinv_queue_prio [OF assms(1)] by (simp add: queue_prio_ok_def)
  have "thread_stat s t = RT_THREAD_READY" using tinv_linked(2) [OF kinvD(3) [OF assms(1)] m] by simp
  moreover have "th_current_priority (thr s t) \<le> th_current_priority (thr s u)"
    if "is_thread s u" "thread_stat s u = RT_THREAD_READY" for u
  proof -
    have "queues s (ReadyQ (unat (th_current_priority (thr s u)))) \<noteq> []"
      using tinv_threadD(1) [OF kinvD(3) [OF assms(1)] that] by auto
    then have "\<not> unat (th_current_priority (thr s u)) < p" using least by blast
    then show ?thesis using p by (simp add: word_le_nat_alt)
  qed
  ultimately show ?thesis using t p by blast
qed

lemma demo_schedule: "rt_schedule demo = Some demo"
proof -
  have "highest_ready_thread demo = Some (10, 1)"
    by (simp add: highest_ready_thread_spec [OF demo_bitmap])
  then show ?thesis by (simp add: rt_schedule_def)
qed

theorem schedule_most_urgent_witness:
  "\<exists>t ts. current demo = Some t \<and> thread_stat demo t = RT_THREAD_READY \<and>
    queues demo (ReadyQ (unat (th_current_priority (thr demo t)))) = t # ts \<and>
    (\<forall>u. is_thread demo u \<and> thread_stat demo u = RT_THREAD_READY \<longrightarrow>
       th_current_priority (thr demo t) \<le> th_current_priority (thr demo u))"
  by (rule schedule_most_urgent [OF demo_kinv _ demo_schedule]) simp

section \<open>Sleeping\<close>

lemma asleep_timed:
  assumes "timed s" "is_thread s t" "thread_stat s t = RT_THREAD_READY" "tik < RT_TICK_MAX div 2"
  shows "timed (asleep t tik s)"
proof -
  have k: "kinv s" and f: "sched_fine s" and o: "one_shots s" and p: "pending_ok s"
    using assms(1) by (simp_all add: timed_def)
  have tk: "thread_timer_ok s t"
    using tinv_threadD(4) [OF kinvD(3) [OF k] assms(2)] assms(3) by simp
  note fr = asleep_frame [OF tk]
  have "sched_fine (asleep t tik s)"
    using f assms(2,3) by (auto simp: sched_fine_def fr rt_object_get_type_def rt_scheduler_stack_check_def)
  moreover have "one_shots (asleep t tik s)"
    using o park_soft_flag [OF tk] by (auto simp: one_shots_def asleep_def arm_frame)
  ultimately show ?thesis using asleep_kinv [OF k assms(2,3)] asleep_pending [OF p tk assms(4)]
    by (simp add: timed_def)
qed

text \<open>C3: \<open>rt_thread_sleep\<close> of \<open>n\<close> ticks by the running thread returns control to the scheduler with the
  thread parked, and then, as the tick interrupts come, the thread stays suspended for the first
  \<open>n - 1\<close> of them and is ready with the timeout error right after the \<open>n\<close>-th; no tick halts the
  system. Other threads may sleep and be woken meanwhile; application timers are one-shot and their
  functions do not touch the kernel.\<close>

theorem sleep_exact:
  assumes "timed s" "quiet cb" "current s = Some t" "is_thread s t" "thread_stat s t = RT_THREAD_READY"
    "u \<noteq> t" "u \<in> set (queues s (ReadyQ p))" "0 < n" "n < RT_TICK_MAX div 2"
  shows "\<exists>s0. rt_thread_sleep n s = Some (Parked t, s0) \<and>
    (\<forall>k < unat n. \<exists>s'. ticks k cb s0 = Some s' \<and> thread_stat s' t = RT_THREAD_SUSPEND) \<and>
    (\<exists>s'. ticks (unat n) cb s0 = Some s' \<and> thread_stat s' t = RT_THREAD_READY \<and>
       th_error (thr s' t) = - RT_ETIMEOUT)"
proof -
  have k: "kinv s" using assms(1) by (simp add: timed_def)
  have tk: "thread_timer_ok s t"
    using tinv_threadD(4) [OF kinvD(3) [OF k] assms(4)] assms(5) by simp
  note fr = asleep_frame [OF tk]
  let ?s = "asleep t n s"
  have ti: "timed ?s" by (rule asleep_timed [OF assms(1,4,5,9)])
  have "u \<in> set (queues ?s (ReadyQ p))" using assms(6,7) by (simp add: fr)
  then obtain i c where sc: "rt_schedule ?s = Some (?s\<lparr>cur_prio := i, current := Some c\<rparr>)"
    using schedule_returns [of ?s u p] ti unfolding timed_def by blast
  let ?z = "?s\<lparr>cur_prio := i, current := Some c\<rparr>"
  have ks: "kinv ?s" using ti by (simp add: timed_def)
  have "kinv ?z" by (rule kinv_frame [OF ks]) simp_all
  moreover have "sched_fine ?z" using ti unfolding timed_def sched_fine_def rt_object_get_type_def by simp
  moreover have "one_shots ?z" using ti unfolding timed_def one_shots_def by simp
  moreover have "pending_ok ?z" using ti unfolding timed_def pending_ok_def by simp
  ultimately have ti0: "timed ?z" by (simp add: timed_def)
  have "unat n = Suc (unat n - 1)" using assms(8) by (simp add: word_less_nat_alt)
  moreover have "unat (tm_timeout_tick (tmr ?z (TimerOf t)) - tick ?z) = unat n" by (simp add: fr)
  ultimately have d: "unat (tm_timeout_tick (tmr ?z (TimerOf t)) - tick ?z) = Suc (unat n - 1)" by simp
  have m: "TimerOf t \<in> set (timer_list ?z)" by (simp add: fr)
  have "(\<forall>k \<le> unat n - 1. \<exists>s'. ticks k cb ?z = Some s' \<and> thread_stat s' t = RT_THREAD_SUSPEND) \<and>
    (\<exists>s'. ticks (unat n) cb ?z = Some s' \<and> thread_stat s' t = RT_THREAD_READY \<and>
       th_error (thr s' t) = - RT_ETIMEOUT)"
    using ticks_wake [OF ti0 assms(2) m d] \<open>unat n = Suc (unat n - 1)\<close> by simp
  moreover have "rt_thread_sleep n s = Some (Parked t, ?z)"
    using sleep_eq [OF k assms(3-5,9)] sc by simp
  moreover have "k \<le> unat n - 1" if "k < unat n" for k using that by simp
  ultimately show ?thesis by blast
qed

theorem sleep_exact_witness:
  "\<exists>s0. rt_thread_sleep 3 demo = Some (Parked 1, s0) \<and>
    (\<forall>k < unat (3 :: u32). \<exists>s'. ticks k (\<lambda>_. Some) s0 = Some s' \<and> thread_stat s' 1 = RT_THREAD_SUSPEND) \<and>
    (\<exists>s'. ticks (unat (3 :: u32)) (\<lambda>_. Some) s0 = Some s' \<and> thread_stat s' 1 = RT_THREAD_READY \<and>
       th_error (thr s' 1) = - RT_ETIMEOUT)"
  by (rule sleep_exact [OF demo_timed, where u = 2 and p = 255])
    (simp_all add: quiet_def rt_object_get_type_def)

section \<open>Timers\<close>

text \<open>C4: \<open>rt_timer_check\<close> at tick \<open>T\<close>, on an ordered list of hard timers whose timeouts are not older than
  \<open>T - 1\<close>, with timers of threads and timers of the application, one-shot or periodic. The functions of
  the application are any that keep to its own data (the \<open>user_data\<close> words), and no period is 0.
  The check returns. It has called the functions of exactly the timers whose timeout is \<open>T - 1\<close> or \<open>T\<close>, in
  list order, each once: the data of the application is what these functions make of it one after the
  other; the threads among them have left the lists they waited in, carry the timeout error and stand at
  the tail of their ready queues, and all other threads are untouched. The periodic timers among them are
  started again with a timeout one period after \<open>T\<close>, behind the pending timers that are not later, the
  others are stopped, and the timers that were not due still pend, in order.\<close>

theorem timer_check_exact:
  assumes "kinv s" "sched_fine s" "app_functions f cb" "app_timers_ok s"
    "ordered_from (tick s - 1) (\<lambda>r. tm_timeout_tick (tmr s r)) (timer_list s)"
  shows "\<exists>s'. rt_timer_check cb s = Some s' \<and> kinv s' \<and> pending_ok s' \<and>
    (let ds = filter (due s) (timer_list s); fs = timer_threads ds in
       timer_list s' = sort_key (\<lambda>r. unat (tm_timeout_tick (tmr s' r) - tick s))
         (filter (\<lambda>r. \<not> due s r) (timer_list s) @ filter (repeats s) ds) \<and>
       (\<forall>r. tm_timeout_tick (tmr s' r) = (if r \<in> set ds \<and> repeats s r then tick s + tm_init_tick (tmr s r)
          else tm_timeout_tick (tmr s r))) \<and>
       (\<forall>r. timer_activated s' r \<longleftrightarrow> timer_activated s r \<and> (r \<in> set ds \<longrightarrow> repeats s r)) \<and>
       user_data s' = fold f (user_calls s ds) (user_data s) \<and>
       (\<forall>t. thr s' t = (if t \<in> set fs then timed_out (thr s t) else thr s t)\<lparr>th_user_data := user_data s' t\<rparr>) \<and>
       (\<forall>p. queues s' (ReadyQ p) = filter (\<lambda>t. t \<notin> set fs) (queues s (ReadyQ p)) @
          filter (\<lambda>t. unat (th_current_priority (thr s t)) = p) fs) \<and>
       (\<forall>r. queues s' (SuspendQ r) = filter (\<lambda>t. t \<notin> set fs) (queues s (SuspendQ r))))"
proof -
  note dp = due_prefix [OF assms(5)]
  let ?now = "\<lambda>r. tick s - tm_timeout_tick (tmr s r) < RT_TICK_MAX div 2"
  let ?ds = "filter (due s) (timer_list s)" and ?us = "filter (\<lambda>r. \<not> due s r) (timer_list s)"
  have ds: "takeWhile ?now (timer_list s) = ?ds" unfolding dp(1) due_def ..
  have us: "dropWhile ?now (timer_list s) = ?us" unfolding dp(2) due_def not_le ..
  have split: "timer_list s = ?ds @ ?us" using takeWhile_dropWhile_id [of ?now "timer_list s"] unfolding ds us ..
  have later: "\<forall>x \<in> set ?us. \<not> ?now x" using due_iff assms(5) by (auto simp: ordered_from_def due_def)
  obtain s' where s': "rt_timer_check_loop cb (tick s) s = Some s'" "kinv s'" "checked f ?ds s s'"
    "ordered_from (tick s) (\<lambda>r. tm_timeout_tick (tmr s' r)) (timer_list s')"
    "timer_list s' = sort_key (\<lambda>r. unat (tm_timeout_tick (tmr s' r) - tick s)) (?us @ filter (repeats s) ?ds)"
    using check_loop [OF assms(1-4) split _ later dp(3) [unfolded us]] by auto
  have "pending_ok s'" using s'(4) checkedD(7) [OF s'(3)] by (simp add: pending_ok_def)
  then show ?thesis using s'(1,2,5) checkedD [OF s'(3)] unfolding rt_timer_check_def Let_def
    by (intro exI [of _ s'] conjI allI)
qed

text \<open>The demonstration system at tick 107 with a periodic timer 30 of the application, whose function adds
  one to the word of thread 1, in front of the sleeping thread 3.\<close>

definition demo_periodic :: kern where
  "demo_periodic = demo\<lparr>tick := 107, timer_list := [Obj 30, TimerOf 3],
     objs := (objs demo)(Obj 30 := \<lparr>obj_name = ''tick'', obj_type = 0x8a, obj_flag = 3\<rparr>),
     tmr := (tmr demo)(Obj 30 := \<lparr>tm_func = User_timeout 9, tm_init_tick = 50, tm_timeout_tick = 107\<rparr>)\<rparr>"

lemma demo_periodic_kinv: "kinv demo_periodic"
proof -
  have "lists_ok demo_periodic" by (simp add: lists_ok_def demo_periodic_def)
  moreover have "bitmap_ok demo_periodic" using demo_bitmap by (simp add: bitmap_ok_def demo_periodic_def)
  moreover have "tinv demo_periodic t" for t
    by (auto simp: tinv_def thread_ok_def thread_timer_ok_def rt_object_get_type_def
        rt_object_is_systemobject_def demo_periodic_def split: if_splits)
  ultimately show ?thesis by (simp add: kinv_def demo_periodic_def)
qed

theorem timer_check_exact_witness:
  "\<exists>s'. rt_timer_check (\<lambda>n s. Some (set_user_data ((user_data s)(1 := user_data s 1 + 1)) s)) demo_periodic = Some s' \<and>
    thread_stat s' 3 = RT_THREAD_READY \<and> timer_list s' = [Obj 30] \<and> tm_timeout_tick (tmr s' (Obj 30)) = 157 \<and>
    user_data s' 1 = user_data demo 1 + 1"
proof -
  let ?cb = "\<lambda>n s. Some (set_user_data ((user_data s)(1 := user_data s 1 + 1)) s)"
  have a: "app_functions (\<lambda>n d. d(1 := d 1 + 1)) ?cb" by (simp add: app_functions_def)
  have f: "sched_fine demo_periodic"
    using demo_fine by (simp add: sched_fine_def rt_object_get_type_def demo_periodic_def)
  have t: "app_timers_ok demo_periodic" by (simp add: app_timers_ok_def demo_periodic_def rt_object_get_type_def)
  have o: "ordered_from (tick demo_periodic - 1) (\<lambda>r. tm_timeout_tick (tmr demo_periodic r)) (timer_list demo_periodic)"
    by (simp add: ordered_from_def demo_periodic_def)
  have d: "filter (due demo_periodic) (timer_list demo_periodic) = [Obj 30, TimerOf 3]"
    "filter (\<lambda>r. \<not> due demo_periodic r) (timer_list demo_periodic) = []"
    by (simp_all add: due_def demo_periodic_def)
  have r: "repeats demo_periodic (Obj 30)" "\<not> repeats demo_periodic (TimerOf 3)"
    by (simp_all add: repeats_def demo_periodic_def)
  have u: "user_calls demo_periodic [Obj 30, TimerOf 3] = [9]" "tm_init_tick (tmr demo_periodic (Obj 30)) = 50"
    "tick demo_periodic = 107" "thr demo_periodic = thr demo" "user_data demo_periodic = user_data demo"
    by (simp_all add: demo_periodic_def user_data_def)
  obtain s' where s': "rt_timer_check ?cb demo_periodic = Some s'"
    "timer_list s' = sort_key (\<lambda>r. unat (tm_timeout_tick (tmr s' r) - tick demo_periodic))
       ([] @ filter (repeats demo_periodic) [Obj 30, TimerOf 3])"
    "tm_timeout_tick (tmr s' (Obj 30)) = (if Obj 30 \<in> set [Obj 30, TimerOf 3] \<and> repeats demo_periodic (Obj 30)
       then tick demo_periodic + tm_init_tick (tmr demo_periodic (Obj 30)) else tm_timeout_tick (tmr demo_periodic (Obj 30)))"
    "user_data s' = fold (\<lambda>n d. d(1 := d 1 + 1)) (user_calls demo_periodic [Obj 30, TimerOf 3]) (user_data demo_periodic)"
    "thr s' 3 = (if 3 \<in> set (timer_threads [Obj 30, TimerOf 3]) then timed_out (thr demo_periodic 3) else thr demo_periodic 3)
       \<lparr>th_user_data := user_data s' 3\<rparr>"
    using timer_check_exact [OF demo_periodic_kinv f a t o] unfolding d Let_def by blast
  have "thread_stat s' 3 = RT_THREAD_READY" using s'(5) by simp
  moreover have "timer_list s' = [Obj 30]" using s'(2) r by simp
  moreover have "tm_timeout_tick (tmr s' (Obj 30)) = 157" using s'(3) r(1) u by simp
  moreover have "user_data s' 1 = user_data demo 1 + 1" using s'(4) u by simp
  ultimately show ?thesis using s'(1) by blast
qed

text \<open>C5: \<open>rt_timer_start\<close> links a timer behind every timer of the list that is not later, and before
  every later one, ticks compared modulo \<open>2 ^ 32\<close> as distances from the current tick; so timers with
  equal timeouts fire in the order they were started, and the list stays ordered.\<close>

theorem timer_start_order:
  assumes "pending_ok s" "rt_object_get_type r s = RT_Object_Class_Timer"
    "obj_flag (objs s r) AND RT_TIMER_FLAG_SOFT_TIMER = 0" "tm_init_tick (tmr s r) < RT_TICK_MAX div 2"
  shows "\<exists>s'. rt_timer_start r s = Some (RT_EOK, s') \<and> pending_ok s' \<and> timer_activated s' r \<and>
    tm_timeout_tick (tmr s' r) = tick s + tm_init_tick (tmr s r) \<and>
    timer_list s' =
      filter (\<lambda>x. x \<noteq> r \<and> unat (tm_timeout_tick (tmr s x) - tick s) \<le> unat (tm_init_tick (tmr s r))) (timer_list s) @
      r # filter (\<lambda>x. x \<noteq> r \<and> unat (tm_init_tick (tmr s r)) < unat (tm_timeout_tick (tmr s x) - tick s)) (timer_list s)"
proof -
  note fr = arm_frame [OF assms(3)]
  let ?tt = "\<lambda>x. tm_timeout_tick (tmr (arm r s) x)" and ?k = "tick s + tm_init_tick (tmr s r)"
  have "ordered_from (tick s) (\<lambda>x. tm_timeout_tick (tmr s x)) (removeAll r (timer_list s))"
    using assms(1) by (auto simp: pending_ok_def intro: ordered_from_removeAll)
  then have o: "ordered_from (tick s) ?tt (removeAll r (timer_list s))"
    by (subst ordered_from_cong [where g = "\<lambda>x. tm_timeout_tick (tmr s x)"]) (auto simp: fr)
  have "timer_list (arm r s) = filter (\<lambda>x. unat (?tt x - tick s) \<le> unat (?k - tick s)) (removeAll r (timer_list s)) @
      r # filter (\<lambda>x. unat (?k - tick s) < unat (?tt x - tick s)) (removeAll r (timer_list s))"
    unfolding fr(13) by (rule timer_insert_splits [OF o]) (use assms(4) in simp)
  also have "\<dots> = filter (\<lambda>x. x \<noteq> r \<and> unat (tm_timeout_tick (tmr s x) - tick s) \<le> unat (tm_init_tick (tmr s r))) (timer_list s) @
      r # filter (\<lambda>x. x \<noteq> r \<and> unat (tm_init_tick (tmr s r)) < unat (tm_timeout_tick (tmr s x) - tick s)) (timer_list s)"
    by (simp add: fr filter_neq [symmetric] cong: conj_cong)
  finally show ?thesis
    using start_hard_eq [OF assms(2-4)] arm_pending [OF assms(1,3,4)]
    by (simp add: fr bit.conj_disj_distrib2 and.commute)
qed

theorem timer_start_order_witness:
  "\<exists>s'. rt_timer_start (TimerOf 1) demo = Some (RT_EOK, s') \<and> timer_list s' = [TimerOf 3, TimerOf 1]"
proof -
  have "pending_ok demo" using demo_timed by (simp add: timed_def)
  from timer_start_order [OF this, of "TimerOf 1"] show ?thesis by (auto simp: rt_object_get_type_def)
qed

end
