(* ===== verification/Ipc_Base.thy ===== *)
theory Ipc_Base
  imports Clock
begin

text \<open>
  The common part of \<^verbatim>\<open>rt-thread/src/ipc.c\<close>: putting the running thread on the waiting list of an
  object, in arrival order or in priority order, with or without a timeout, and waking one or all of
  the threads that wait. The waiting lists are the queues \<open>SuspendQ r\<close> (and \<open>SenderQ r\<close>) of the object
  at \<open>r\<close>.

  The lemmas give the effect of the two operations in closed form: \<open>blocked\<close> for a thread that starts
  to wait, \<open>woken\<close> for those that are released.
\<close>

section \<open>The code\<close>

definition rt_ipc_object_init :: "oref \<Rightarrow> kern \<Rightarrow> kern" where
  "rt_ipc_object_init r s = s\<lparr>queues := (queues s)(SuspendQ r := [])\<rparr>"

definition rt_ipc_list_suspend :: "lhead \<Rightarrow> tid \<Rightarrow> u8 \<Rightarrow> kern \<Rightarrow> kern option" where
  "rt_ipc_list_suspend q t flag s = do {
     (_, s1) \<leftarrow> rt_thread_suspend t s;
     Some (if flag = RT_IPC_FLAG_FIFO then tlist_insert_before q t s1
           else if flag = RT_IPC_FLAG_PRIO then
             (case List.find (\<lambda>u. th_current_priority (thr s1 t) < th_current_priority (thr s1 u))
                     (queues s1 q) of
                Some sthread \<Rightarrow> tlist_insert_before_thread sthread t s1
              | None \<Rightarrow> tlist_insert_before q t s1)
           else s1) }"

definition rt_ipc_list_resume :: "lhead \<Rightarrow> kern \<Rightarrow> kern option" where
  "rt_ipc_list_resume q s =
     (case queues s q of
        [] \<Rightarrow> None
      | t # _ \<Rightarrow> do { (_, s1) \<leftarrow> rt_thread_resume t s; Some s1 })"

partial_function (option) rt_ipc_list_resume_all :: "lhead \<Rightarrow> kern \<Rightarrow> kern option" where
  "rt_ipc_list_resume_all q s =
     (case queues s q of
        [] \<Rightarrow> Some s
      | t # _ \<Rightarrow>
          Option.bind (rt_thread_resume t (upd_thr t (\<lambda>th. th\<lparr>th_error := - RT_ERROR\<rparr>) s)) (\<lambda>(_, s1).
            rt_ipc_list_resume_all q s1))"

text \<open>The sequence that every blocking call runs: suspend on the list, arm the thread's timer when a
  timeout is given (a positive signed time), call the scheduler.\<close>

definition ipc_block :: "lhead \<Rightarrow> tid \<Rightarrow> u8 \<Rightarrow> u32 \<Rightarrow> kern \<Rightarrow> kern option" where
  "ipc_block q t flag time s = do {
     s1 \<leftarrow> rt_ipc_list_suspend q t flag s;
     s2 \<leftarrow> (if sint time > 0 then do {
              (_, _, s) \<leftarrow> rt_timer_control (TimerOf t) RT_TIMER_CTRL_SET_TIME time s1;
              (_, s) \<leftarrow> rt_timer_start (TimerOf t) s;
              Some s }
            else Some s1);
     rt_schedule s2 }"

section \<open>A thread starts to wait\<close>

text \<open>Where the thread joins the list: at the end, or before the first less urgent thread.\<close>

definition wait_insert :: "u8 \<Rightarrow> (tid \<Rightarrow> u8) \<Rightarrow> tid \<Rightarrow> tid list \<Rightarrow> tid list" where
  "wait_insert flag prio t ws =
     (if flag = RT_IPC_FLAG_FIFO then ws @ [t]
      else takeWhile (\<lambda>u. prio u \<le> prio t) ws @ t # dropWhile (\<lambda>u. prio u \<le> prio t) ws)"

definition prio_of :: "kern \<Rightarrow> tid \<Rightarrow> u8" where
  "prio_of s t = th_current_priority (thr s t)"

lemma wait_insert_set [simp]: "set (wait_insert flag prio t ws) = insert t (set ws)"
proof -
  have "set (takeWhile P ws) \<union> set (dropWhile P ws) = set ws" for P
    using takeWhile_dropWhile_id [of P ws] by (metis set_append)
  then show ?thesis by (auto simp: wait_insert_def)
qed

lemma wait_insert_distinct: "distinct ws \<Longrightarrow> t \<notin> set ws \<Longrightarrow> distinct (wait_insert flag prio t ws)"
proof -
  assume d: "distinct ws" "t \<notin> set ws"
  have "distinct (xs @ t # ys)" if "distinct (xs @ ys)" "t \<notin> set (xs @ ys)" for xs ys
    using that by auto
  from this [of "takeWhile P ws" "dropWhile P ws" for P] show ?thesis
    using d by (simp add: wait_insert_def)
qed

lemma wait_insert_sorted:
  assumes "sorted (map prio ws)"
  shows "sorted (map prio (wait_insert RT_IPC_FLAG_PRIO prio t ws))"
  using assms
proof (induction ws)
  case (Cons w ws)
  show ?case
  proof (cases "prio w \<le> prio t")
    case True
    have "prio w \<le> prio x" if "x \<in> insert t (set ws)" for x using that Cons.prems True by auto
    moreover have "set (takeWhile P ws @ t # dropWhile P ws) \<subseteq> insert t (set ws)" for P
      using set_takeWhileD [of _ P ws] set_dropWhileD [of _ P ws] by auto
    moreover have "sorted (map prio (wait_insert RT_IPC_FLAG_PRIO prio t ws))"
      using Cons.IH Cons.prems by simp
    ultimately show ?thesis using True by (fastforce simp: wait_insert_def)
  next
    case False
    then have "prio t \<le> prio x" if "x \<in> insert w (set ws)" for x using that Cons.prems by auto
    then show ?thesis using False Cons.prems by (auto simp: wait_insert_def)
  qed
qed (simp add: wait_insert_def)

lemma find_split:
  "case List.find (\<lambda>u. \<not> P u) ws of
     Some u \<Rightarrow> dropWhile P ws = u # tl (dropWhile P ws) \<and> u \<notin> set (takeWhile P ws) \<and> \<not> P u
   | None \<Rightarrow> takeWhile P ws = ws \<and> dropWhile P ws = []"
proof (induction ws)
  case (Cons w ws)
  then show ?case by (cases "P w") (auto split: option.split_asm)
qed simp

text \<open>The state with the thread linked and, given a timeout, its timer armed.\<close>

definition blocked :: "lhead \<Rightarrow> tid \<Rightarrow> u8 \<Rightarrow> u32 \<Rightarrow> kern \<Rightarrow> kern" where
  "blocked q t flag time s =
     (let s1 = park t s;
          s2 = s1\<lparr>queues := (queues s1)(q := wait_insert flag (prio_of s1) t (queues s1 q))\<rparr>
      in if sint time > 0 then arm (TimerOf t) (upd_tmr (TimerOf t) (\<lambda>tm. tm\<lparr>tm_init_tick := time\<rparr>) s2)
         else s2)"

lemma ipc_list_suspend_eq:
  assumes "kinv s" "is_thread s t" "thread_stat s t = RT_THREAD_READY"
    "flag \<in> {RT_IPC_FLAG_FIFO, RT_IPC_FLAG_PRIO}"
  shows "rt_ipc_list_suspend q t flag s =
    Some ((park t s)\<lparr>queues := (queues (park t s))(q := wait_insert flag (prio_of (park t s)) t (queues (park t s) q))\<rparr>)"
proof (cases "flag = RT_IPC_FLAG_FIFO")
  case True
  then show ?thesis using suspend_eq [OF assms(1-3)]
    by (simp add: rt_ipc_list_suspend_def wait_insert_def tlist_insert_before_def)
next
  case False
  then have f: "flag = RT_IPC_FLAG_PRIO" using assms(4) by simp
  let ?s = "park t s" and ?P = "\<lambda>u. prio_of (park t s) u \<le> prio_of (park t s) t"
  let ?ws = "queues ?s q"
  have lk: "lists_ok ?s" using park_kinv [OF assms(1-3)] by (rule kinvD)
  have nt: "t \<notin> set (queues ?s p)" for p by simp
  have P: "(\<lambda>u. th_current_priority (thr ?s t) < th_current_priority (thr ?s u)) = (\<lambda>u. \<not> ?P u)"
    by (simp add: prio_of_def not_le)
  show ?thesis
  proof (cases "List.find (\<lambda>u. \<not> ?P u) ?ws")
    case None
    then have e: "takeWhile ?P ?ws = ?ws \<and> dropWhile ?P ?ws = []"
      using find_split [of ?P ?ws] by (simp only: option.case)
    have "wait_insert flag (prio_of ?s) t ?ws = ?ws @ [t]"
      unfolding wait_insert_def using e f by (simp only:) simp
    then show ?thesis using None f suspend_eq [OF assms(1-3)]
      by (simp add: rt_ipc_list_suspend_def P tlist_insert_before_def del: park_frame)
  next
    case (Some u)
    then have d: "dropWhile ?P ?ws = u # tl (dropWhile ?P ?ws)" "u \<notin> set (takeWhile ?P ?ws)"
      using find_split [of ?P ?ws] by simp_all
    have e: "?ws = takeWhile ?P ?ws @ u # tl (dropWhile ?P ?ws)"
      using d(1) takeWhile_dropWhile_id [of ?P ?ws] by simp
    have "queues (tlist_insert_before_thread u t ?s) =
        (queues ?s)(q := takeWhile ?P ?ws @ t # u # tl (dropWhile ?P ?ws))"
      using kq.lists_push_before [OF lk nt e] by blast
    then have "tlist_insert_before_thread u t ?s =
        ?s\<lparr>queues := (queues ?s)(q := takeWhile ?P ?ws @ t # dropWhile ?P ?ws)\<rparr>"
      using d(1) by (simp add: tlist_insert_before_thread_def)
    then show ?thesis using Some f suspend_eq [OF assms(1-3)]
      by (simp add: rt_ipc_list_suspend_def P wait_insert_def del: park_frame)
  qed
qed

lemma time_less_half:
  fixes time :: u32
  assumes "sint time > 0" "time \<noteq> 0x7fffffff"
  shows "time < 0x7fffffff"
proof -
  have "sint time < 2 ^ 31" using sint_lt [of time] by simp
  then have u: "uint time = sint time" using assms(1) by (simp add: uint_sint take_bit_eq_mod)
  have "uint time \<noteq> uint (0x7fffffff :: u32)" using assms(2) by (metis word_uint_eq_iff)
  then have "uint time < 0x7fffffff" using u \<open>sint time < 2 ^ 31\<close> by simp
  then show ?thesis by (simp add: word_less_def)
qed

text \<open>A usable time argument: the timer refuses half the tick range.\<close>

abbreviation (input) time_ok :: "u32 \<Rightarrow> bool" where
  "time_ok time \<equiv> time \<noteq> 0x7fffffff"

lemma link_kinv:
  assumes "kinv s" "is_thread s t" "thread_stat s t = RT_THREAD_SUSPEND" "\<And>p. t \<notin> set (queues s p)"
    "head_stat q = RT_THREAD_SUSPEND" "set xs = insert t (set (queues s q))" "distinct xs"
  shows "kinv (s\<lparr>queues := (queues s)(q := xs)\<rparr>)"
proof (rule kinv_step [OF assms(1), where t = t])
  let ?s = "s\<lparr>queues := (queues s)(q := xs)\<rparr>"
  show "lists_ok ?s"
    by (rule lists_ok_unlinked_insert [OF kinvD(1) [OF assms(1)] assms(4) _ assms(6,7)]) simp
  have nr: "q \<noteq> ReadyQ p" for p using assms(5) by auto
  show "bitmap_ok ?s"
    by (rule bitmap_same [OF kinvD(2) [OF assms(1)]]) (use nr in auto)
  show "tinv ?s t"
    using kinvD(3) [OF assms(1), of t] assms(2-6) nr
    by (auto simp: tinv_def thread_ok_def thread_timer_ok_def rt_object_get_type_def
        rt_object_is_systemobject_def)
qed (use assms(1,6) in \<open>auto simp: kinv_def\<close>)

lemma linked_park_kinv:
  assumes "kinv s" "is_thread s t" "thread_stat s t = RT_THREAD_READY" "head_stat q = RT_THREAD_SUSPEND"
  shows "kinv ((park t s)\<lparr>queues := (queues (park t s))(q := wait_insert flag f t (queues (park t s) q))\<rparr>)"
proof (rule link_kinv [where t = t])
  show k: "kinv (park t s)" by (rule park_kinv [OF assms(1-3)])
  show "distinct (wait_insert flag f t (queues (park t s) q))"
    by (rule wait_insert_distinct) (use kinvD(1) [OF k] in \<open>simp_all add: lists_ok_def\<close>)
qed (use assms(2,4) in \<open>simp_all add: rt_object_get_type_def\<close>)

lemma ipc_block_eq:
  assumes "kinv s" "is_thread s t" "thread_stat s t = RT_THREAD_READY"
    "flag \<in> {RT_IPC_FLAG_FIFO, RT_IPC_FLAG_PRIO}" "time_ok time"
  shows "ipc_block q t flag time s = rt_schedule (blocked q t flag time s)"
proof -
  have tk: "thread_timer_ok s t"
    using tinv_threadD(4) [OF kinvD(3) [OF assms(1)] assms(2)] assms(3) by simp
  let ?s2 = "(park t s)\<lparr>queues := (queues (park t s))(q := wait_insert flag (prio_of (park t s)) t (queues (park t s) q))\<rparr>"
  let ?s3 = "upd_tmr (TimerOf t) (\<lambda>tm. tm\<lparr>tm_init_tick := time\<rparr>) ?s2"
  have "rt_timer_start (TimerOf t) ?s3 = Some (RT_EOK, arm (TimerOf t) ?s3)" if "sint time > 0"
    by (rule start_hard_eq)
      (use tk park_soft_flag [OF tk] time_less_half [OF that] assms(5) in
        \<open>simp_all add: thread_timer_ok_def rt_object_get_type_def\<close>)
  then show ?thesis using ipc_list_suspend_eq [OF assms(1-4), of q] tk
    by (simp add: ipc_block_def blocked_def rt_timer_control_def thread_timer_ok_def
        rt_object_get_type_def Let_def)
qed

lemma blocked_frame:
  assumes "thread_timer_ok s t"
  shows "thr (blocked q t flag time s) = thr (park t s)"
    "queues (blocked q t flag time s) = (queues (park t s))(q := wait_insert flag (prio_of s) t (queues (park t s) q))"
    "tick (blocked q t flag time s) = tick s" "lock_nest (blocked q t flag time s) = lock_nest s"
    "irq_nest (blocked q t flag time s) = irq_nest s"
    "current (blocked q t flag time s) = current s"
    "obj_type (objs (blocked q t flag time s) r) = obj_type (objs s r)"
    "r \<noteq> TimerOf t \<Longrightarrow> objs (blocked q t flag time s) r = objs s r"
    "sint time > 0 \<Longrightarrow> TimerOf t \<in> set (timer_list (blocked q t flag time s)) \<and>
       tm_timeout_tick (tmr (blocked q t flag time s) (TimerOf t)) = tick s + time"
proof -
  have p: "prio_of (park t s) = prio_of s" by (simp add: prio_of_def fun_eq_iff)
  show "thr (blocked q t flag time s) = thr (park t s)"
    "queues (blocked q t flag time s) = (queues (park t s))(q := wait_insert flag (prio_of s) t (queues (park t s) q))"
    "tick (blocked q t flag time s) = tick s" "lock_nest (blocked q t flag time s) = lock_nest s"
    "irq_nest (blocked q t flag time s) = irq_nest s"
    "current (blocked q t flag time s) = current s"
    "obj_type (objs (blocked q t flag time s) r) = obj_type (objs s r)"
    "r \<noteq> TimerOf t \<Longrightarrow> objs (blocked q t flag time s) r = objs s r"
    "sint time > 0 \<Longrightarrow> TimerOf t \<in> set (timer_list (blocked q t flag time s)) \<and>
       tm_timeout_tick (tmr (blocked q t flag time s) (TimerOf t)) = tick s + time"
    using park_soft_flag [OF assms] by (simp_all add: blocked_def arm_frame Let_def p)
qed

lemma blocked_kinv:
  assumes "kinv s" "is_thread s t" "thread_stat s t = RT_THREAD_READY" "head_stat q = RT_THREAD_SUSPEND"
  shows "kinv (blocked q t flag time s)"
proof -
  let ?s2 = "(park t s)\<lparr>queues := (queues (park t s))(q := wait_insert flag (prio_of (park t s)) t (queues (park t s) q))\<rparr>"
  have k: "kinv ?s2" by (rule linked_park_kinv [OF assms])
  have "kinv (arm (TimerOf t) (upd_tmr (TimerOf t) (\<lambda>tm. tm\<lparr>tm_init_tick := time\<rparr>) ?s2))"
    by (rule arm_kinv [OF set_init_tick_kinv [OF k]]) (use assms(2) in \<open>simp_all add: rt_object_get_type_def\<close>)
  then show ?thesis using k by (simp add: blocked_def Let_def)
qed

lemma blocked_fine:
  assumes "sched_fine s" "thread_timer_ok s t" "is_thread s t" "thread_stat s t = RT_THREAD_READY"
  shows "sched_fine (blocked q t flag time s)"
  unfolding sched_fine_def
proof (intro conjI allI impI)
  note fr = blocked_frame [OF assms(2)]
  show "current (blocked q t flag time s) \<noteq> None" using assms(1) by (simp add: fr sched_fine_def)
  fix u assume u: "is_thread (blocked q t flag time s) u"
    "thread_stat (blocked q t flag time s) u \<in> {RT_THREAD_READY, RT_THREAD_SUSPEND}"
  have "is_thread s u" using u(1) by (simp add: fr rt_object_get_type_def)
  moreover have "thread_stat s u \<in> {RT_THREAD_READY, RT_THREAD_SUSPEND}"
    using u(2) assms(4) by (cases "u = t") (simp_all add: fr)
  ultimately have "rt_scheduler_stack_check (thr s u)" using assms(1) unfolding sched_fine_def by blast
  then show "rt_scheduler_stack_check (thr (blocked q t flag time s) u)"
    by (cases "u = t") (simp_all add: fr rt_scheduler_stack_check_def)
qed

text \<open>Blocking returns when another thread is ready.\<close>

lemma ipc_block_returns:
  assumes "kinv s" "sched_fine s" "is_thread s t" "thread_stat s t = RT_THREAD_READY"
    "flag \<in> {RT_IPC_FLAG_FIFO, RT_IPC_FLAG_PRIO}" "time_ok time" "head_stat q = RT_THREAD_SUSPEND"
    "u \<noteq> t" "u \<in> set (queues s (ReadyQ p))"
  obtains i c where "ipc_block q t flag time s = Some ((blocked q t flag time s)\<lparr>cur_prio := i, current := Some c\<rparr>)"
proof -
  have tk: "thread_timer_ok s t"
    using tinv_threadD(4) [OF kinvD(3) [OF assms(1)] assms(3)] assms(4) by simp
  have "q \<noteq> ReadyQ p" using assms(7) by auto
  then have "u \<in> set (queues (blocked q t flag time s) (ReadyQ p))"
    using assms(8,9) by (simp add: blocked_frame [OF tk])
  then show ?thesis
    using schedule_returns [OF blocked_kinv [OF assms(1,3,4,7)] blocked_fine [OF assms(2) tk assms(3,4)]]
      ipc_block_eq [OF assms(1,3-6)] that by metis
qed

section \<open>Threads are released\<close>

definition readied :: "rt_thread \<Rightarrow> rt_thread" where
  "readied th = th\<lparr>th_stat := RT_THREAD_READY OR (th_stat th AND NOT RT_THREAD_STAT_MASK)\<rparr>"

definition failed :: "rt_thread \<Rightarrow> rt_thread" where
  "failed th = readied (th\<lparr>th_error := - RT_ERROR\<rparr>)"

lemma readied_simps [simp]:
  "th_error (readied th) = th_error th" "th_stat (readied th) AND 15 = 1"
  "th_current_priority (readied th) = th_current_priority th"
  "th_event_set (readied th) = th_event_set th" "th_event_info (readied th) = th_event_info th"
  "th_error (failed th) = - RT_ERROR" "th_stat (failed th) AND 15 = 1"
  "th_current_priority (failed th) = th_current_priority th"
  by (simp_all add: readied_def failed_def)

text \<open>The effect of releasing the threads \<open>ts\<close> in that order: out of their lists, their timers
  stopped, at the tails of their ready queues; nothing else moves.\<close>

definition woken :: "(rt_thread \<Rightarrow> rt_thread) \<Rightarrow> tid list \<Rightarrow> kern \<Rightarrow> kern \<Rightarrow> bool" where
  "woken g ts s s' \<longleftrightarrow>
     queues s' = (\<lambda>q. filter (\<lambda>t. t \<notin> set ts) (queues s q) @
       (case q of ReadyQ p \<Rightarrow> filter (\<lambda>t. unat (th_current_priority (thr s t)) = p) ts | _ \<Rightarrow> [])) \<and>
     thr s' = (\<lambda>t. if t \<in> set ts then g (thr s t) else thr s t) \<and>
     timer_list s' = filter (\<lambda>r. r \<notin> TimerOf ` set ts) (timer_list s) \<and>
     tmr s' = tmr s \<and> tick s' = tick s \<and> lock_nest s' = lock_nest s \<and> irq_nest s' = irq_nest s \<and>
     current s' = current s \<and> containers s' = containers s \<and> soft_timer_list s' = soft_timer_list s \<and>
     (\<forall>r. obj_type (objs s' r) = obj_type (objs s r)) \<and>
     (\<forall>n. objs s' (Obj n) = objs s (Obj n))"

lemma woken_Nil: "woken g [] s s"
  by (auto simp: woken_def fun_eq_iff split: lhead.splits)

lemma woken_Cons:
  assumes "woken g [t] s s1" "woken g ts s1 s'" "t \<notin> set ts"
    "\<And>th. th_current_priority (g th) = th_current_priority th"
  shows "woken g (t # ts) s s'"
proof -
  have p: "th_current_priority (thr s1 u) = th_current_priority (thr s u)" for u
    using assms(1,4) by (simp add: woken_def)
  have "filter (\<lambda>u. u \<notin> set ts) (filter (\<lambda>u. u \<notin> set [t]) xs) = filter (\<lambda>u. u \<notin> set (t # ts)) xs" for xs
    by (auto intro: filter_cong)
  then have "queues s' q = filter (\<lambda>u. u \<notin> set (t # ts)) (queues s q) @
      (case q of ReadyQ p \<Rightarrow> filter (\<lambda>t. unat (th_current_priority (thr s t)) = p) (t # ts) | _ \<Rightarrow> [])" for q
    using assms p unfolding woken_def by (cases q) auto
  moreover have "timer_list s' = filter (\<lambda>r. r \<notin> TimerOf ` set (t # ts)) (timer_list s)"
    using assms(1,2) unfolding woken_def by (auto intro: filter_cong)
  ultimately show ?thesis using assms(1-3) by (auto simp: woken_def fun_eq_iff)
qed

lemma unpark_woken:
  assumes "kinv s"
  shows "woken readied [t] s (unpark t s)"
  using tinv_timer(2) [OF kinvD(3) [OF assms], of t]
  by (auto simp: woken_def fun_eq_iff filter_neq readied_def split: lhead.splits)

lemma head_waits:
  assumes "kinv s" "queues s q = t # ts" "head_stat q = RT_THREAD_SUSPEND"
  shows "is_thread s t" "thread_stat s t = RT_THREAD_SUSPEND"
  using tinv_linked [OF kinvD(3) [OF assms(1)], of t q] assms(2,3) by simp_all

lemma list_resume_eq:
  assumes "kinv s" "queues s q = t # ts" "head_stat q = RT_THREAD_SUSPEND"
  shows "rt_ipc_list_resume q s = Some (unpark t s)" "kinv (unpark t s)"
    "woken readied [t] s (unpark t s)" "queues (unpark t s) q = ts"
proof -
  note h = head_waits [OF assms]
  show "rt_ipc_list_resume q s = Some (unpark t s)"
    using resume_eq [OF assms(1) h] assms(2) by (simp add: rt_ipc_list_resume_def)
  show "kinv (unpark t s)" by (rule unpark_kinv [OF assms(1) h])
  show "woken readied [t] s (unpark t s)" by (rule unpark_woken [OF assms(1)])
  have "distinct (queues s q)" using kinvD(1) [OF assms(1)] by (simp add: lists_ok_def)
  moreover have "q \<noteq> ReadyQ p" for p using assms(3) by auto
  ultimately show "queues (unpark t s) q = ts" using assms(2) by simp
qed

lemma resume_all_eq:
  assumes "kinv s" "head_stat q = RT_THREAD_SUSPEND"
  shows "\<exists>s'. rt_ipc_list_resume_all q s = Some s' \<and> kinv s' \<and> woken failed (queues s q) s s' \<and>
    queues s' q = []"
  using assms(1)
proof (induction "queues s q" arbitrary: s)
  case Nil
  then show ?case by (auto simp: rt_ipc_list_resume_all.simps woken_Nil)
next
  case (Cons t ts)
  note l = Cons.hyps(2) [symmetric]
  let ?s = "upd_thr t (\<lambda>th. th\<lparr>th_error := - RT_ERROR\<rparr>) s"
  have k: "kinv ?s" by (rule kinv_frame [OF Cons.prems]) (simp_all add: th_core_def)
  have l': "queues ?s q = t # ts" using l by simp
  note h = head_waits [OF k l' assms(2)]
  note r = list_resume_eq [OF k l' assms(2)]
  have w: "woken failed [t] s (unpark t ?s)"
    using tinv_timer(2) [OF kinvD(3) [OF Cons.prems], of t]
    by (auto simp: woken_def fun_eq_iff filter_neq readied_def failed_def split: lhead.splits)
  have "distinct (queues s q)" using kinvD(1) [OF Cons.prems] by (simp add: lists_ok_def)
  then have nt: "t \<notin> set ts" using l by simp
  obtain s' where s': "rt_ipc_list_resume_all q (unpark t ?s) = Some s'" "kinv s'"
    "woken failed ts (unpark t ?s) s'" "queues s' q = []"
    using Cons.hyps(1) [OF r(4) [symmetric] r(2)] r(4) by metis
  have "woken failed (t # ts) s s'" by (rule woken_Cons [OF w s'(3) nt]) simp
  moreover have "rt_ipc_list_resume_all q s = Some s'"
    using l s'(1) resume_eq [OF k h] by (subst rt_ipc_list_resume_all.simps) simp
  ultimately show ?case using s' l by auto
qed

end
