(* ===== verification/Semaphore.thy ===== *)
theory Semaphore
  imports Ipc_Base
begin

text \<open>
  The counting semaphore of \<^verbatim>\<open>rt-thread/src/ipc.c\<close>. A semaphore is its own record, with the
  reference of its object header (whose \<open>obj_flag\<close> selects the waiting order); its waiting list is
  \<open>SuspendQ\<close> of that reference.

  \<open>sem_inv\<close> is what makes it correct: a positive value means that nobody waits. It holds in every
  state of the step relation \<open>sem_step\<close>, whose steps are the calls by running threads and interrupts,
  and any step of the rest of the kernel that does not link threads into this list.
\<close>

section \<open>The code\<close>

record rt_semaphore =
  sem_ref :: oref
  sem_value :: u16

definition rt_sem_init :: "oref \<Rightarrow> string \<Rightarrow> u32 \<Rightarrow> u8 \<Rightarrow> kern \<Rightarrow> (rt_err_t \<times> rt_semaphore \<times> kern) option" where
  "rt_sem_init r name value flag s = do {
     RT_ASSERT (value < 0x10000);
     s1 \<leftarrow> rt_object_init r RT_Object_Class_Semaphore name s;
     let s2 = rt_ipc_object_init r s1;
     let s3 = upd_obj r (\<lambda>ob. ob\<lparr>obj_flag := flag\<rparr>) s2;
     Some (RT_EOK, \<lparr>sem_ref = r, sem_value = ucast value\<rparr>, s3) }"

definition rt_sem_detach :: "rt_semaphore \<Rightarrow> kern \<Rightarrow> (rt_err_t \<times> kern) option" where
  "rt_sem_detach sem s = do {
     RT_ASSERT (rt_object_get_type (sem_ref sem) s = RT_Object_Class_Semaphore);
     RT_ASSERT (rt_object_is_systemobject (sem_ref sem) s);
     s1 \<leftarrow> rt_ipc_list_resume_all (SuspendQ (sem_ref sem)) s;
     Some (RT_EOK, rt_object_detach (sem_ref sem) s1) }"

definition rt_sem_create ::
    "(nat \<Rightarrow> 'h \<Rightarrow> nat option \<times> 'h) \<Rightarrow> (u8 \<Rightarrow> nat) \<Rightarrow> string \<Rightarrow> u32 \<Rightarrow> u8 \<Rightarrow> kern \<times> 'h \<Rightarrow>
     (rt_semaphore option \<times> kern \<times> 'h) option" where
  "rt_sem_create malloc object_size name value flag sh = do {
     RT_DEBUG_NOT_IN_INTERRUPT (fst sh);
     RT_ASSERT (value < 0x10000);
     (sem, s1, h1) \<leftarrow> rt_object_allocate malloc object_size RT_Object_Class_Semaphore name sh;
     (case sem of
        None \<Rightarrow> Some (None, s1, h1)
      | Some a \<Rightarrow>
          (let s2 = rt_ipc_object_init (Obj a) s1;
               s3 = upd_obj (Obj a) (\<lambda>ob. ob\<lparr>obj_flag := flag\<rparr>) s2
           in Some (Some \<lparr>sem_ref = Obj a, sem_value = ucast value\<rparr>, s3, h1))) }"

definition rt_sem_delete ::
    "(nat \<Rightarrow> 'h \<Rightarrow> 'h option) \<Rightarrow> nat \<Rightarrow> kern \<times> 'h \<Rightarrow> (rt_err_t \<times> kern \<times> 'h) option" where
  "rt_sem_delete free a sh = do {
     let (s, h) = sh;
     RT_DEBUG_NOT_IN_INTERRUPT s;
     RT_ASSERT (rt_object_get_type (Obj a) s = RT_Object_Class_Semaphore);
     RT_ASSERT (\<not> rt_object_is_systemobject (Obj a) s);
     s1 \<leftarrow> rt_ipc_list_resume_all (SuspendQ (Obj a)) s;
     (s2, h2) \<leftarrow> rt_object_delete free a (s1, h);
     Some (RT_EOK, s2, h2) }"

definition rt_sem_take :: "rt_semaphore \<Rightarrow> u32 \<Rightarrow> kern \<Rightarrow> (kret \<times> rt_semaphore \<times> kern) option" where
  "rt_sem_take sem time s = do {
     RT_ASSERT (rt_object_get_type (sem_ref sem) s = RT_Object_Class_Semaphore);
     if sem_value sem > 0 then Some (Returned RT_EOK, sem\<lparr>sem_value := sem_value sem - 1\<rparr>, s)
     else if time = 0 then Some (Returned (- RT_ETIMEOUT), sem, s)
     else do {
       RT_DEBUG_IN_THREAD_CONTEXT s;
       t \<leftarrow> rt_thread_self s;
       let s1 = upd_thr t (\<lambda>th. th\<lparr>th_error := RT_EOK\<rparr>) s;
       s2 \<leftarrow> ipc_block (SuspendQ (sem_ref sem)) t (obj_flag (objs s1 (sem_ref sem))) time s1;
       Some (Parked t, sem, s2) } }"

definition rt_sem_take_wake :: "tid \<Rightarrow> kern \<Rightarrow> rt_err_t" where
  "rt_sem_take_wake t s = (if th_error (thr s t) \<noteq> RT_EOK then th_error (thr s t) else RT_EOK)"

definition rt_sem_trytake :: "rt_semaphore \<Rightarrow> kern \<Rightarrow> (kret \<times> rt_semaphore \<times> kern) option" where
  "rt_sem_trytake sem s = rt_sem_take sem 0 s"

definition rt_sem_release :: "rt_semaphore \<Rightarrow> kern \<Rightarrow> (rt_err_t \<times> rt_semaphore \<times> kern) option" where
  "rt_sem_release sem s = do {
     RT_ASSERT (rt_object_get_type (sem_ref sem) s = RT_Object_Class_Semaphore);
     (sem1, s1, need_schedule) \<leftarrow>
       (if queues s (SuspendQ (sem_ref sem)) \<noteq> [] then do {
          s1 \<leftarrow> rt_ipc_list_resume (SuspendQ (sem_ref sem)) s;
          Some (sem, s1, True) }
        else Some (sem\<lparr>sem_value := sem_value sem + 1\<rparr>, s, False));
     s2 \<leftarrow> (if need_schedule then rt_schedule s1 else Some s1);
     Some (RT_EOK, sem1, s2) }"

abbreviation (input) RT_IPC_CMD_RESET :: nat where "RT_IPC_CMD_RESET \<equiv> 1"

definition rt_sem_control :: "rt_semaphore \<Rightarrow> nat \<Rightarrow> u32 \<Rightarrow> kern \<Rightarrow> (rt_err_t \<times> rt_semaphore \<times> kern) option" where
  "rt_sem_control sem cmd arg s = do {
     RT_ASSERT (rt_object_get_type (sem_ref sem) s = RT_Object_Class_Semaphore);
     if cmd = RT_IPC_CMD_RESET then do {
       s1 \<leftarrow> rt_ipc_list_resume_all (SuspendQ (sem_ref sem)) s;
       s2 \<leftarrow> rt_schedule s1;
       Some (RT_EOK, sem\<lparr>sem_value := ucast arg\<rparr>, s2) }
     else Some (- RT_ERROR, sem, s) }"

section \<open>The invariant\<close>

text \<open>An object header apart from the threads and their timers.\<close>

definition ipc_header :: "oref \<Rightarrow> u8 \<Rightarrow> kern \<Rightarrow> bool" where
  "ipc_header r c s \<longleftrightarrow> (\<exists>n. r = Obj n) \<and> rt_object_get_type r s = c \<and>
     obj_flag (objs s r) \<in> {RT_IPC_FLAG_FIFO, RT_IPC_FLAG_PRIO}"

definition waiters_clean :: "lhead \<Rightarrow> kern \<Rightarrow> bool" where
  "waiters_clean q s \<longleftrightarrow> (\<forall>t \<in> set (queues s q). th_error (thr s t) = RT_EOK)"

definition sem_inv :: "rt_semaphore \<Rightarrow> kern \<Rightarrow> bool" where
  "sem_inv sem s \<longleftrightarrow> kinv s \<and> ipc_header (sem_ref sem) RT_Object_Class_Semaphore s \<and>
     waiters_clean (SuspendQ (sem_ref sem)) s \<and>
     (sem_value sem > 0 \<longrightarrow> queues s (SuspendQ (sem_ref sem)) = [])"

text \<open>A step of the rest of the system, seen from the waiting list \<open>q\<close> of the object at \<open>r\<close>: threads
  may leave the list (timeout, deletion, resumption) but none is linked into it.\<close>

definition env_step :: "oref \<Rightarrow> lhead \<Rightarrow> kern \<Rightarrow> kern \<Rightarrow> bool" where
  "env_step r q s s' \<longleftrightarrow> kinv s' \<and> obj_type (objs s' r) = obj_type (objs s r) \<and>
     obj_flag (objs s' r) = obj_flag (objs s r) \<and>
     set (queues s' q) \<subseteq> set (queues s q) \<and>
     (\<forall>t \<in> set (queues s' q). th_error (thr s' t) = th_error (thr s t))"

abbreviation (input) runs :: "kern \<Rightarrow> tid \<Rightarrow> bool" where
  "runs s t \<equiv> current s = Some t \<and> is_thread s t \<and> thread_stat s t = RT_THREAD_READY"

inductive sem_step :: "rt_semaphore \<times> kern \<Rightarrow> rt_semaphore \<times> kern \<Rightarrow> bool" where
  take: "runs s t \<Longrightarrow> time_ok time \<Longrightarrow> rt_sem_take sem time s = Some (k, sem', s') \<Longrightarrow>
    sem_step (sem, s) (sem', s')"
| release: "rt_sem_release sem s = Some (e, sem', s') \<Longrightarrow> sem_step (sem, s) (sem', s')"
| control: "rt_sem_control sem cmd arg s = Some (e, sem', s') \<Longrightarrow> sem_step (sem, s) (sem', s')"
| env: "env_step (sem_ref sem) (SuspendQ (sem_ref sem)) s s' \<Longrightarrow> sem_step (sem, s) (sem, s')"

inductive_cases sem_stepE: "sem_step (sem, s) (sem', s')"

section \<open>Lemmas\<close>

lemma schedule_same:
  assumes "rt_schedule s = Some s'"
  shows "queues s' = queues s" "thr s' = thr s" "objs s' = objs s" "tmr s' = tmr s" "tick s' = tick s"
    "timer_list s' = timer_list s" "soft_timer_list s' = soft_timer_list s" "lock_nest s' = lock_nest s"
    "irq_nest s' = irq_nest s" "containers s' = containers s"
  using rt_schedule_frame [OF assms] by auto

lemma ipc_header_same:
  assumes "ipc_header r c s" "obj_type (objs s' r) = obj_type (objs s r)" "obj_flag (objs s' r) = obj_flag (objs s r)"
  shows "ipc_header r c s'"
  using assms by (simp add: ipc_header_def rt_object_get_type_def)

lemma set_error_kinv: "kinv s \<Longrightarrow> kinv (upd_thr t (\<lambda>th. th\<lparr>th_error := e\<rparr>) s)"
  by (rule kinv_frame) (simp_all add: th_core_def)

text \<open>A running thread blocks on the list of an object: what the state looks like afterwards.\<close>

lemma block_effect:
  assumes "kinv s" "runs s t" "flag \<in> {RT_IPC_FLAG_FIFO, RT_IPC_FLAG_PRIO}" "time_ok time"
    "head_stat q = RT_THREAD_SUSPEND" "ipc_block q t flag time s = Some s'"
  shows "kinv s'" "queues s' q = wait_insert flag (prio_of s) t (queues s q)"
    "\<And>p. p \<noteq> q \<Longrightarrow> queues s' p = removeAll t (queues s p)"
    "thread_stat s' t = RT_THREAD_SUSPEND" "th_error (thr s' t) = th_error (thr s t)"
    "th_event_set (thr s' t) = th_event_set (thr s t)" "th_event_info (thr s' t) = th_event_info (thr s t)"
    "\<And>u. u \<noteq> t \<Longrightarrow> thr s' u = thr s u"
    "\<And>u. th_current_priority (thr s' u) = th_current_priority (thr s u)"
    "\<And>n. objs s' (Obj n) = objs s (Obj n)" "tick s' = tick s"
proof -
  have th: "is_thread s t" "thread_stat s t = RT_THREAD_READY" using assms(2) by simp_all
  have tk: "thread_timer_ok s t" using tinv_threadD(4) [OF kinvD(3) [OF assms(1)] th(1)] th(2) by simp
  have sc: "rt_schedule (blocked q t flag time s) = Some s'"
    using ipc_block_eq [OF assms(1) th assms(3,4)] assms(6) by simp
  note fr = blocked_frame [OF tk] and sm = schedule_same [OF sc]
  show "kinv s'" by (rule schedule_kinv [OF blocked_kinv [OF assms(1) th assms(5)] sc])
  have "t \<notin> set (queues s q)"
  proof
    assume "t \<in> set (queues s q)"
    then have "thread_stat s t = head_stat q" using tinv_linked(2) [OF kinvD(3) [OF assms(1)]] by blast
    then show False using th(2) assms(5) by simp
  qed
  then show "queues s' q = wait_insert flag (prio_of s) t (queues s q)"
    by (simp add: sm fr)
  show "\<And>p. p \<noteq> q \<Longrightarrow> queues s' p = removeAll t (queues s p)"
    "thread_stat s' t = RT_THREAD_SUSPEND" "th_error (thr s' t) = th_error (thr s t)"
    "th_event_set (thr s' t) = th_event_set (thr s t)" "th_event_info (thr s' t) = th_event_info (thr s t)"
    "\<And>u. u \<noteq> t \<Longrightarrow> thr s' u = thr s u"
    "\<And>u. th_current_priority (thr s' u) = th_current_priority (thr s u)"
    "\<And>n. objs s' (Obj n) = objs s (Obj n)" "tick s' = tick s"
    by (simp_all add: sm fr)
qed

lemma sem_take_cases:
  assumes "rt_sem_take sem time s = Some (k, sem', s')"
  obtains (now) "sem_value sem > 0" "k = Returned RT_EOK" "sem' = sem\<lparr>sem_value := sem_value sem - 1\<rparr>" "s' = s"
  | (empty) "sem_value sem = 0" "time = 0" "k = Returned (- RT_ETIMEOUT)" "sem' = sem" "s' = s"
  | (wait) t where "sem_value sem = 0" "time \<noteq> 0" "current s = Some t" "k = Parked t" "sem' = sem"
      "ipc_block (SuspendQ (sem_ref sem)) t (obj_flag (objs s (sem_ref sem))) time
         (upd_thr t (\<lambda>th. th\<lparr>th_error := RT_EOK\<rparr>) s) = Some s'"
proof (cases "sem_value sem > 0")
  case True
  then show ?thesis using now assms by (auto simp: rt_sem_take_def Some_bind_iff)
next
  case False
  then have z: "sem_value sem = 0" by (simp add: word_neq_0_conv [symmetric])
  show ?thesis
  proof (cases "time = 0")
    case True
    then show ?thesis using empty z assms by (auto simp: rt_sem_take_def Some_bind_iff)
  next
    case nz: False
    obtain t where "current s = Some t" "k = Parked t" "sem' = sem"
      "ipc_block (SuspendQ (sem_ref sem)) t (obj_flag (objs s (sem_ref sem))) time
         (upd_thr t (\<lambda>th. th\<lparr>th_error := RT_EOK\<rparr>) s) = Some s'"
      using assms z nz by (auto simp: rt_sem_take_def Some_bind_iff)
    then show ?thesis using wait z nz by blast
  qed
qed

lemma sem_release_cases:
  assumes "sem_inv sem s" "rt_sem_release sem s = Some (e, sem', s')"
  obtains (count) "queues s (SuspendQ (sem_ref sem)) = []" "e = RT_EOK"
      "sem' = sem\<lparr>sem_value := sem_value sem + 1\<rparr>" "s' = s"
  | (hand) t ts where "queues s (SuspendQ (sem_ref sem)) = t # ts" "e = RT_EOK" "sem' = sem"
      "rt_schedule (unpark t s) = Some s'"
proof (cases "queues s (SuspendQ (sem_ref sem))")
  case Nil
  then have "e = RT_EOK \<and> sem' = sem\<lparr>sem_value := sem_value sem + 1\<rparr> \<and> s' = s"
    using assms(2) by (simp add: rt_sem_release_def Some_bind_iff)
  then show ?thesis using count Nil by blast
next
  case (Cons t ts)
  have k: "kinv s" using assms(1) by (simp add: sem_inv_def)
  have "rt_ipc_list_resume (SuspendQ (sem_ref sem)) s = Some (unpark t s)"
    by (rule list_resume_eq(1) [OF k Cons]) simp
  then have "e = RT_EOK \<and> sem' = sem \<and> rt_schedule (unpark t s) = Some s'"
    using assms(2) Cons by (simp add: rt_sem_release_def Some_bind_iff)
  then show ?thesis using hand Cons by blast
qed

lemma sem_take_inv:
  assumes "sem_inv sem s" "runs s t" "time_ok time" "rt_sem_take sem time s = Some (k, sem', s')"
  shows "sem_inv sem' s'"
  using assms(4)
proof (cases rule: sem_take_cases)
  case now
  then show ?thesis using assms(1) by (simp add: sem_inv_def)
next
  case empty
  then show ?thesis using assms(1) by simp
next
  case (wait u)
  let ?q = "SuspendQ (sem_ref sem)" and ?s = "upd_thr u (\<lambda>th. th\<lparr>th_error := RT_EOK\<rparr>) s"
  have u: "u = t" using wait(3) assms(2) by simp
  have h: "ipc_header (sem_ref sem) RT_Object_Class_Semaphore s" and w: "waiters_clean ?q s" and k: "kinv s"
    using assms(1) by (simp_all add: sem_inv_def)
  have f: "obj_flag (objs s (sem_ref sem)) \<in> {RT_IPC_FLAG_FIFO, RT_IPC_FLAG_PRIO}"
    using h by (simp add: ipc_header_def)
  have r: "runs ?s u" using assms(2) u by (simp add: rt_object_get_type_def)
  have hq: "head_stat ?q = RT_THREAD_SUSPEND" by simp
  note be = block_effect [OF set_error_kinv [OF k] r f assms(3) hq wait(6)]
  have "ipc_header (sem_ref sem) RT_Object_Class_Semaphore s'"
    using h be(10) by (auto simp: ipc_header_def rt_object_get_type_def)
  moreover have "th_error (thr s' v) = RT_EOK" if "v \<in> set (queues s' ?q)" for v
    using w be(2,5) be(8) [of v] u that by (cases "v = t") (auto simp: waiters_clean_def)
  then have "waiters_clean ?q s'" by (simp add: waiters_clean_def)
  ultimately show ?thesis using be(1) wait(1,5) by (simp add: sem_inv_def)
qed

lemma woken_waiters:
  assumes "woken g ts s s'" "waiters_clean q s" "head_stat q = RT_THREAD_SUSPEND"
  shows "waiters_clean q s'"
  using assms by (cases q) (auto simp: woken_def waiters_clean_def)

lemma woken_header: "woken g ts s s' \<Longrightarrow> ipc_header r c s \<Longrightarrow> ipc_header r c s'"
  by (auto simp: woken_def ipc_header_def rt_object_get_type_def)

lemma woken_schedule:
  "woken g ts s s1 \<Longrightarrow> rt_schedule s1 = Some s2 \<Longrightarrow> \<exists>c. woken g ts s (s2\<lparr>current := c\<rparr>)"
  using schedule_same [of s1 s2] by (auto simp: woken_def)

lemma waiters_clean_cong:
  "queues s' q = queues s q \<Longrightarrow> thr s' = thr s \<Longrightarrow> waiters_clean q s' = waiters_clean q s"
  by (simp add: waiters_clean_def)

lemma sem_release_inv:
  assumes "sem_inv sem s" "rt_sem_release sem s = Some (e, sem', s')"
  shows "sem_inv sem' s'"
  using assms
proof (cases rule: sem_release_cases)
  case count
  then show ?thesis using assms(1) by (simp add: sem_inv_def)
next
  case (hand t ts)
  let ?q = "SuspendQ (sem_ref sem)"
  have k: "kinv s" and w: "waiters_clean ?q s" and h: "ipc_header (sem_ref sem) RT_Object_Class_Semaphore s"
    and z: "sem_value sem = 0"
    using assms(1) hand(1) by (auto simp: sem_inv_def word_neq_0_conv [symmetric])
  have hq: "head_stat ?q = RT_THREAD_SUSPEND" by simp
  note r = list_resume_eq [OF k hand(1) hq]
  note sm = schedule_same [OF hand(4)]
  have "waiters_clean ?q s'"
    using woken_waiters [OF r(3) w hq] waiters_clean_cong [of s' ?q "unpark t s"] sm by simp
  moreover have "ipc_header (sem_ref sem) RT_Object_Class_Semaphore s'"
    using woken_header [OF r(3) h] sm by (simp add: ipc_header_def rt_object_get_type_def)
  ultimately show ?thesis using schedule_kinv [OF r(2) hand(4)] z hand(3) by (simp add: sem_inv_def)
qed

lemma sem_control_inv:
  assumes "sem_inv sem s" "rt_sem_control sem cmd arg s = Some (e, sem', s')"
  shows "sem_inv sem' s'"
proof (cases "cmd = RT_IPC_CMD_RESET")
  case False
  then show ?thesis using assms by (auto simp: rt_sem_control_def Some_bind_iff)
next
  case True
  let ?q = "SuspendQ (sem_ref sem)"
  have k: "kinv s" and w: "waiters_clean ?q s" and h: "ipc_header (sem_ref sem) RT_Object_Class_Semaphore s"
    using assms(1) by (simp_all add: sem_inv_def)
  obtain s1 where s1: "rt_ipc_list_resume_all ?q s = Some s1" "kinv s1" "woken failed (queues s ?q) s s1"
    "queues s1 ?q = []"
    using resume_all_eq [OF k, of ?q] by auto
  have sc: "rt_schedule s1 = Some s'" and sem': "sem' = sem\<lparr>sem_value := ucast arg\<rparr>"
    using assms(2) True s1(1) by (auto simp: rt_sem_control_def Some_bind_iff)
  note sm = schedule_same [OF sc]
  have "ipc_header (sem_ref sem) RT_Object_Class_Semaphore s'"
    using woken_header [OF s1(3) h] sm by (simp add: ipc_header_def rt_object_get_type_def)
  then show ?thesis using schedule_kinv [OF s1(2) sc] sem' s1(4) sm
    by (simp add: sem_inv_def waiters_clean_def)
qed

lemma sem_env_inv:
  assumes "sem_inv sem s" "env_step (sem_ref sem) (SuspendQ (sem_ref sem)) s s'"
  shows "sem_inv sem s'"
  using assms ipc_header_same [of "sem_ref sem" _ s s']
  by (auto simp: sem_inv_def env_step_def waiters_clean_def subset_iff)

lemma sem_step_inv: "sem_step (sem, s) (sem', s') \<Longrightarrow> sem_inv sem s \<Longrightarrow> sem_inv sem' s'"
  by (erule sem_stepE) (blast intro: sem_take_inv sem_release_inv sem_control_inv sem_env_inv)+

end
