(* ===== verification/Ipc_Props.thy ===== *)
theory Ipc_Props
  imports Semaphore Demo_State
begin

text \<open>
  The properties of the semaphore: no lost wake-up in any reachable state, the handoff of a release,
  the order of the waiting list, and the timeout of a take.
\<close>

section \<open>The system of \<open>Demo_State\<close> with a waiting thread\<close>

lemma demo_wait_kinv:
  assumes "head_stat q = RT_THREAD_SUSPEND"
  shows "kinv (demo_wait q)" unfolding demo_wait_def
  by (rule link_kinv [OF demo_kinv, where t = 5])
    (use assms in \<open>auto simp: rt_object_get_type_def\<close>)

lemma demo_wait_simps [simp]:
  "objs (demo_wait q) = objs demo" "thr (demo_wait q) = thr demo" "tmr (demo_wait q) = tmr demo"
  "queues (demo_wait q) = (queues demo)(q := [5])" "current (demo_wait q) = Some 1"
  "lock_nest (demo_wait q) = 0" "irq_nest (demo_wait q) = 0" "tick (demo_wait q) = 100"
  "timer_list (demo_wait q) = [TimerOf 3]" "soft_timer_list (demo_wait q) = []"
  by (simp_all add: demo_wait_def)

lemma demo_wait_fine: "sched_fine (demo_wait q)"
  using demo_fine by (simp add: sched_fine_def rt_object_get_type_def)

definition demo_sem :: "u16 \<Rightarrow> rt_semaphore" where
  "demo_sem v = \<lparr>sem_ref = Obj 11, sem_value = v\<rparr>"

lemma demo_sem_inv: "sem_inv (demo_sem v) demo" "sem_inv (demo_sem 0) (demo_wait (SuspendQ (Obj 11)))"
  using demo_kinv demo_wait_kinv [of "SuspendQ (Obj 11)"]
  by (simp_all add: sem_inv_def ipc_header_def waiters_clean_def demo_sem_def rt_object_get_type_def)

section \<open>Semaphores\<close>

text \<open>C6: However takes, releases and resets of a semaphore interleave with each other and with the rest
  of the kernel, the kernel invariant holds and no thread waits for the semaphore while its value is
  positive.\<close>

theorem sem_no_lost_wakeup:
  assumes "sem_step\<^sup>*\<^sup>* (sem, s) (sem', s')" "sem_inv sem s"
  shows "kinv s' \<and> (sem_value sem' > 0 \<longrightarrow> queues s' (SuspendQ (sem_ref sem')) = [])"
proof -
  have "sem_inv (fst y) (snd y)" if "sem_step\<^sup>*\<^sup>* x y" "sem_inv (fst x) (snd x)" for x y
    using that
  proof (induction rule: rtranclp_induct)
    case (step y z)
    then show ?case using sem_step_inv [of "fst y" "snd y" "fst z" "snd z"] by simp
  qed simp
  from this [OF assms(1)] assms(2) show ?thesis by (simp add: sem_inv_def)
qed

theorem sem_no_lost_wakeup_witness:
  "kinv demo \<and> sem_value (demo_sem 2) > 0 \<and> queues demo (SuspendQ (Obj 11)) = []"
proof -
  have "runs demo 1" by (simp add: rt_object_get_type_def)
  moreover have "rt_sem_take (demo_sem 3) 0 demo = Some (Returned RT_EOK, demo_sem 2, demo)"
    by (simp add: rt_sem_take_def demo_sem_def rt_object_get_type_def)
  ultimately have "sem_step (demo_sem 3, demo) (demo_sem 2, demo)"
    by (intro sem_step.take [of demo 1 0]) simp_all
  then have "sem_step\<^sup>*\<^sup>* (demo_sem 3, demo) (demo_sem 2, demo)" by simp
  from sem_no_lost_wakeup [OF this demo_sem_inv(1)] show ?thesis by (simp add: demo_sem_def)
qed

text \<open>A release hands the semaphore over: it returns without error; if threads wait, the value is
  unchanged, the first of them leaves the list ready to run and its pending take will return without
  error, and the others keep waiting in order; if nobody waits, the value grows by one (modulo
  \<open>2 ^ 16\<close>) and the kernel state is unchanged.\<close>

theorem sem_release_hands_over:
  assumes "sem_inv sem s" "sched_fine s"
  shows "case queues s (SuspendQ (sem_ref sem)) of
      [] \<Rightarrow> rt_sem_release sem s = Some (RT_EOK, sem\<lparr>sem_value := sem_value sem + 1\<rparr>, s)
    | t # ts \<Rightarrow> \<exists>s'. rt_sem_release sem s = Some (RT_EOK, sem, s') \<and> thread_stat s' t = RT_THREAD_READY \<and>
        rt_sem_take_wake t s' = RT_EOK \<and> queues s' (SuspendQ (sem_ref sem)) = ts"
proof (cases "queues s (SuspendQ (sem_ref sem))")
  case Nil
  have "ipc_header (sem_ref sem) RT_Object_Class_Semaphore s" using assms(1) by (simp add: sem_inv_def)
  then show ?thesis using Nil by (simp add: rt_sem_release_def ipc_header_def)
next
  case (Cons t ts)
  let ?q = "SuspendQ (sem_ref sem)"
  have k: "kinv s" and h: "ipc_header (sem_ref sem) RT_Object_Class_Semaphore s" and w: "waiters_clean ?q s"
    using assms(1) by (simp_all add: sem_inv_def)
  have hq: "head_stat ?q = RT_THREAD_SUSPEND" by simp
  note r = list_resume_eq [OF k Cons hq]
  have f: "sched_fine (unpark t s)"
    using assms(2) head_waits [OF k Cons hq]
    by (auto simp: sched_fine_def rt_object_get_type_def rt_scheduler_stack_check_def)
  have "t \<in> set (queues (unpark t s) (ReadyQ (unat (th_current_priority (thr s t)))))" by simp
  then obtain i c where sc: "rt_schedule (unpark t s) = Some ((unpark t s)\<lparr>cur_prio := i, current := Some c\<rparr>)"
    by (rule schedule_returns [OF r(2) f])
  have "rt_sem_release sem s = Some (RT_EOK, sem, (unpark t s)\<lparr>cur_prio := i, current := Some c\<rparr>)"
    using h Cons r(1) sc by (simp add: rt_sem_release_def ipc_header_def)
  moreover have "th_error (thr s t) = RT_EOK" using w Cons by (simp add: waiters_clean_def)
  ultimately show ?thesis using Cons r(4) by (simp add: rt_sem_take_wake_def)
qed

theorem sem_release_hands_over_witness:
  "\<exists>s'. rt_sem_release (demo_sem 0) (demo_wait (SuspendQ (Obj 11))) = Some (RT_EOK, demo_sem 0, s') \<and>
     thread_stat s' 5 = RT_THREAD_READY \<and> rt_sem_take_wake 5 s' = RT_EOK \<and> queues s' (SuspendQ (Obj 11)) = []"
  using sem_release_hands_over [OF demo_sem_inv(2) demo_wait_fine] by (simp add: demo_sem_def)

text \<open>A take that has to wait parks the running thread in the waiting list at the place its order
  demands: at the end in arrival order; in priority order, behind every thread that is at least as
  urgent and before every less urgent one, so that a list sorted by priority stays sorted. The other
  waiting threads keep their order.\<close>

theorem sem_take_order:
  assumes "sem_inv sem s" "runs s t" "sem_value sem = 0" "time \<noteq> 0" "time_ok time"
    "rt_sem_take sem time s = Some (k, sem', s')"
  shows "k = Parked t \<and> sem' = sem \<and> thread_stat s' t = RT_THREAD_SUSPEND \<and>
    (let ws = queues s (SuspendQ (sem_ref sem)); ws' = queues s' (SuspendQ (sem_ref sem)) in
      (obj_flag (objs s (sem_ref sem)) = RT_IPC_FLAG_FIFO \<longrightarrow> ws' = ws @ [t]) \<and>
      (obj_flag (objs s (sem_ref sem)) = RT_IPC_FLAG_PRIO \<longrightarrow> sorted (map (prio_of s) ws) \<longrightarrow>
         sorted (map (prio_of s') ws') \<and>
         (\<exists>as bs. ws = as @ bs \<and> ws' = as @ t # bs \<and>
            (\<forall>u \<in> set as. prio_of s u \<le> prio_of s t) \<and> (\<forall>u \<in> set bs. prio_of s t < prio_of s u))))"
  using assms(6)
proof (cases rule: sem_take_cases)
  case (wait u)
  let ?q = "SuspendQ (sem_ref sem)" and ?s = "upd_thr u (\<lambda>th. th\<lparr>th_error := RT_EOK\<rparr>) s"
  have u: "u = t" using wait(3) assms(2) by simp
  have h: "ipc_header (sem_ref sem) RT_Object_Class_Semaphore s" and k: "kinv s"
    using assms(1) by (simp_all add: sem_inv_def)
  have f: "obj_flag (objs s (sem_ref sem)) \<in> {RT_IPC_FLAG_FIFO, RT_IPC_FLAG_PRIO}"
    using h by (simp add: ipc_header_def)
  have r: "runs ?s u" using assms(2) u by (simp add: rt_object_get_type_def)
  have hq: "head_stat ?q = RT_THREAD_SUSPEND" by simp
  note be = block_effect [OF set_error_kinv [OF k] r f assms(5) hq wait(6)]
  let ?ws = "queues s ?q" and ?P = "\<lambda>v. prio_of s v \<le> prio_of s t"
  have p: "prio_of ?s = prio_of s" "prio_of s' = prio_of s" using be(9) by (auto simp: prio_of_def fun_eq_iff)
  have ws': "queues s' ?q = wait_insert (obj_flag (objs s (sem_ref sem))) (prio_of s) t ?ws"
    using be(2) u p by simp
  have "sorted (map (prio_of s') (queues s' ?q)) \<and>
      (\<exists>as bs. ?ws = as @ bs \<and> queues s' ?q = as @ t # bs \<and>
        (\<forall>u \<in> set as. prio_of s u \<le> prio_of s t) \<and> (\<forall>u \<in> set bs. prio_of s t < prio_of s u))"
    if fl: "obj_flag (objs s (sem_ref sem)) = RT_IPC_FLAG_PRIO" and so: "sorted (map (prio_of s) ?ws)"
  proof
    show "sorted (map (prio_of s') (queues s' ?q))"
      using wait_insert_sorted [OF so, of t] fl ws' p by simp
    have "\<forall>u \<in> set (dropWhile ?P ?ws). prio_of s t < prio_of s u"
    proof (cases "dropWhile ?P ?ws")
      case (Cons d ds)
      then have "\<not> ?P d" using hd_dropWhile [of ?P ?ws] by simp
      moreover have "sorted (map (prio_of s) (takeWhile ?P ?ws @ d # ds))"
        using so Cons takeWhile_dropWhile_id [of ?P ?ws] by simp
      then have "sorted (map (prio_of s) (d # ds))" by (simp only: map_append sorted_append)
      ultimately show ?thesis using Cons by (fastforce simp: not_le)
    next
      case Nil
      then show ?thesis by (simp only: set_simps ball_empty)
    qed
    then show "\<exists>as bs. ?ws = as @ bs \<and> queues s' ?q = as @ t # bs \<and>
        (\<forall>u \<in> set as. prio_of s u \<le> prio_of s t) \<and> (\<forall>u \<in> set bs. prio_of s t < prio_of s u)"
      using ws' fl
      by (intro exI [of _ "takeWhile ?P ?ws"] exI [of _ "dropWhile ?P ?ws"])
        (auto simp: wait_insert_def dest: set_takeWhileD)
  qed
  then show ?thesis using wait(4,5) be(4) ws' u by (simp add: Let_def wait_insert_def)
qed (use assms(3,4) in simp_all)

lemma demo_sem_take:
  "\<exists>s'. rt_sem_take (demo_sem 0) 20 (demo_wait (SuspendQ (Obj 11))) = Some (Parked 1, demo_sem 0, s')"
proof -
  let ?s = "demo_wait (SuspendQ (Obj 11))" and ?q = "SuspendQ (Obj 11)"
  let ?s1 = "upd_thr 1 (\<lambda>th. th\<lparr>th_error := RT_EOK\<rparr>) ?s"
  have k: "kinv ?s1" by (rule set_error_kinv) (simp add: demo_wait_kinv)
  have th: "is_thread ?s1 1" "thread_stat ?s1 1 = RT_THREAD_READY" by (simp_all add: rt_object_get_type_def)
  have f: "sched_fine ?s1"
    using demo_fine by (simp add: sched_fine_def rt_object_get_type_def rt_scheduler_stack_check_def)
  obtain i c where "ipc_block ?q 1 1 20 ?s1 = Some ((blocked ?q 1 1 20 ?s1)\<lparr>cur_prio := i, current := Some c\<rparr>)"
    by (rule ipc_block_returns [OF k f th, of 1 20 ?q 2 255]) simp_all
  then show ?thesis
    by (simp add: rt_sem_take_def demo_sem_def rt_object_get_type_def RT_DEBUG_IN_THREAD_CONTEXT_def
        RT_DEBUG_NOT_IN_INTERRUPT_def)
qed

theorem sem_take_order_witness:
  "\<exists>s'. rt_sem_take (demo_sem 0) 20 (demo_wait (SuspendQ (Obj 11))) = Some (Parked 1, demo_sem 0, s') \<and>
    sorted (map (prio_of s') (queues s' (SuspendQ (Obj 11))))"
proof -
  obtain s' where s': "rt_sem_take (demo_sem 0) 20 (demo_wait (SuspendQ (Obj 11))) = Some (Parked 1, demo_sem 0, s')"
    using demo_sem_take by blast
  show ?thesis
    using sem_take_order [OF demo_sem_inv(2) _ _ _ _ s', of 1] s'
    by (simp add: demo_sem_def rt_object_get_type_def Let_def)
qed

lemma blocked_timed:
  assumes "timed s" "is_thread s t" "thread_stat s t = RT_THREAD_READY" "time_ok time" "sint time > 0"
    "head_stat q = RT_THREAD_SUSPEND"
  shows "timed (blocked q t flag time s)"
proof -
  have k: "kinv s" and f: "sched_fine s" and o: "one_shots s" and p: "pending_ok s"
    using assms(1) by (simp_all add: timed_def)
  have tk: "thread_timer_ok s t" using tinv_threadD(4) [OF kinvD(3) [OF k] assms(2)] assms(3) by simp
  let ?s2 = "(park t s)\<lparr>queues := (queues (park t s))(q := wait_insert flag (prio_of (park t s)) t (queues (park t s) q))\<rparr>"
  let ?s3 = "upd_tmr (TimerOf t) (\<lambda>tm. tm\<lparr>tm_init_tick := time\<rparr>) ?s2"
  have b: "blocked q t flag time s = arm (TimerOf t) ?s3" using assms(5) by (simp add: blocked_def Let_def)
  have sf: "obj_flag (objs ?s3 (TimerOf t)) AND RT_TIMER_FLAG_SOFT_TIMER = 0"
    using park_soft_flag [OF tk] by simp
  have "pending_ok (arm (TimerOf t) ?s3)"
  proof (rule arm_pending)
    show "pending_ok ?s3" by (rule pending_ok_frame [OF park_pending [OF p]]) simp_all
  qed (use sf time_less_half [OF assms(5,4)] in simp_all)
  moreover have "one_shots (arm (TimerOf t) ?s3)"
    using o sf by (auto simp: one_shots_def arm_frame)
  ultimately have "pending_ok (blocked q t flag time s)" "one_shots (blocked q t flag time s)"
    unfolding b by blast+
  then show ?thesis
    using blocked_kinv [OF k assms(2,3,6)] blocked_fine [OF f tk assms(2,3)] unfolding timed_def by blast
qed

lemma timed_running: "timed s \<Longrightarrow> timed (s\<lparr>cur_prio := i, current := Some c\<rparr>)"
proof -
  assume a: "timed s"
  then have k: "kinv s" by (simp add: timed_def)
  have "kinv (s\<lparr>cur_prio := i, current := Some c\<rparr>)" by (rule kinv_frame [OF k]) simp_all
  moreover have "sched_fine (s\<lparr>cur_prio := i, current := Some c\<rparr>)"
    using a unfolding timed_def sched_fine_def rt_object_get_type_def by simp
  moreover have "one_shots (s\<lparr>cur_prio := i, current := Some c\<rparr>)" using a by (simp add: timed_def one_shots_def)
  moreover have "pending_ok (s\<lparr>cur_prio := i, current := Some c\<rparr>)" using a by (simp add: timed_def pending_ok_def)
  ultimately show ?thesis by (simp add: timed_def)
qed

text \<open>C7: A take of an empty semaphore with a timeout of \<open>n > 0\<close> ticks gives up exactly at the \<open>n\<close>-th
  tick interrupt when nobody releases the semaphore: until then the thread is suspended, then it is
  ready, out of the waiting list, and its take returns the timeout error.\<close>

theorem sem_take_timeout:
  assumes "timed s" "quiet cb" "ipc_header (sem_ref sem) RT_Object_Class_Semaphore s" "runs s t"
    "irq_nest s = 0" "sem_value sem = 0" "time_ok time" "sint time > 0" "u \<noteq> t" "u \<in> set (queues s (ReadyQ p))"
  shows "\<exists>s0. rt_sem_take sem time s = Some (Parked t, sem, s0) \<and> t \<in> set (queues s0 (SuspendQ (sem_ref sem))) \<and>
    (\<forall>k < unat time. \<exists>s'. ticks k cb s0 = Some s' \<and> thread_stat s' t = RT_THREAD_SUSPEND) \<and>
    (\<exists>s'. ticks (unat time) cb s0 = Some s' \<and> thread_stat s' t = RT_THREAD_READY \<and>
       rt_sem_take_wake t s' = - RT_ETIMEOUT)"
proof -
  let ?q = "SuspendQ (sem_ref sem)" and ?fl = "obj_flag (objs s (sem_ref sem))"
  let ?s = "upd_thr t (\<lambda>th. th\<lparr>th_error := RT_EOK\<rparr>) s"
  have k: "kinv s" and f: "sched_fine s" using assms(1) by (simp_all add: timed_def)
  have th: "is_thread ?s t" "thread_stat ?s t = RT_THREAD_READY"
    using assms(4) by (simp_all add: rt_object_get_type_def)
  have ks: "kinv ?s" by (rule set_error_kinv [OF k])
  have fs: "sched_fine ?s" using f
    by (auto simp: sched_fine_def rt_object_get_type_def rt_scheduler_stack_check_def)
  have ts: "timed ?s" using assms(1) ks fs by (simp add: timed_def one_shots_def pending_ok_def)
  have fl: "?fl \<in> {RT_IPC_FLAG_FIFO, RT_IPC_FLAG_PRIO}" and ty: "rt_object_get_type (sem_ref sem) s = RT_Object_Class_Semaphore"
    using assms(3) by (simp_all add: ipc_header_def)
  have uq: "u \<in> set (queues ?s (ReadyQ p))" using assms(10) by simp
  have hq: "head_stat ?q = RT_THREAD_SUSPEND" by simp
  obtain i c where b: "ipc_block ?q t ?fl time ?s = Some ((blocked ?q t ?fl time ?s)\<lparr>cur_prio := i, current := Some c\<rparr>)"
    by (rule ipc_block_returns [OF ks fs th fl assms(7) hq assms(9) uq])
  let ?z = "(blocked ?q t ?fl time ?s)\<lparr>cur_prio := i, current := Some c\<rparr>"
  have tk: "thread_timer_ok ?s t" using tinv_threadD(4) [OF kinvD(3) [OF ks] th(1)] th(2) by simp
  note fr = blocked_frame [OF tk]
  have tz: "timed ?z" by (rule timed_running [OF blocked_timed [OF ts th assms(7,8) hq]])
  have nz: "time \<noteq> 0" using assms(8) by auto
  then have n: "unat time = Suc (unat time - 1)" by (simp add: word_less_nat_alt unat_gt_0)
  have m: "TimerOf t \<in> set (timer_list ?z)" using fr(9) [OF assms(8)] by simp
  have d: "unat (tm_timeout_tick (tmr ?z (TimerOf t)) - tick ?z) = Suc (unat time - 1)"
    using fr(9) [OF assms(8)] fr(3) n by simp
  have w: "(\<forall>k \<le> unat time - 1. \<exists>s'. ticks k cb ?z = Some s' \<and> thread_stat s' t = RT_THREAD_SUSPEND) \<and>
    (\<exists>s'. ticks (unat time) cb ?z = Some s' \<and> thread_stat s' t = RT_THREAD_READY \<and>
       th_error (thr s' t) = - RT_ETIMEOUT)"
    using ticks_wake [OF tz assms(2) m d] n by simp
  have "rt_sem_take sem time s = Some (Parked t, sem, ?z)"
    using ty assms(4-6) nz b by (simp add: rt_sem_take_def RT_DEBUG_IN_THREAD_CONTEXT_def RT_DEBUG_NOT_IN_INTERRUPT_def)
  moreover have "t \<in> set (queues ?z ?q)" by (simp add: fr)
  moreover have "k \<le> unat time - 1" if "k < unat time" for k using that by simp
  ultimately show ?thesis using w by (fastforce simp: rt_sem_take_wake_def)
qed

theorem sem_take_timeout_witness:
  "\<exists>s0. rt_sem_take (demo_sem 0) 4 demo = Some (Parked 1, demo_sem 0, s0) \<and>
    (\<exists>s'. ticks 4 (\<lambda>_. Some) s0 = Some s' \<and> rt_sem_take_wake 1 s' = - RT_ETIMEOUT)"
proof -
  have "unat (4 :: u32) = 4" by simp
  then show ?thesis
    using sem_take_timeout [OF demo_timed, of "\<lambda>_. Some" "demo_sem 0" 1 4 2 255] demo_sem_inv(1) [of 0]
    by (force simp: quiet_def sem_inv_def demo_sem_def rt_object_get_type_def)
qed

end
