(* ===== verification/Mutex.thy ===== *)
theory Mutex
  imports Semaphore
begin

text \<open>
  The recursive mutex with priority inheritance of \<^verbatim>\<open>rt-thread/src/ipc.c\<close>.

  \<open>mutex_inv\<close> ties value, owner and recursion count together; with it every operation refines the
  abstract lock \<open>lock\<close> (free, or held by a thread some number of times). \<open>inherits\<close> says that under
  the priority order the owner is at least as urgent as every waiting thread.
\<close>

section \<open>The code\<close>

record rt_mutex =
  mx_ref :: oref
  mx_value :: u16
  mx_original_priority :: u8
  mx_hold :: u8
  mx_owner :: "tid option"

definition new_mutex :: "oref \<Rightarrow> rt_mutex" where
  "new_mutex r = \<lparr>mx_ref = r, mx_value = 1, mx_original_priority = 0xff, mx_hold = 0, mx_owner = None\<rparr>"

definition rt_mutex_init :: "oref \<Rightarrow> string \<Rightarrow> u8 \<Rightarrow> kern \<Rightarrow> (rt_err_t \<times> rt_mutex \<times> kern) option" where
  "rt_mutex_init r name flag s = do {
     s1 \<leftarrow> rt_object_init r RT_Object_Class_Mutex name s;
     let s2 = rt_ipc_object_init r s1;
     let s3 = upd_obj r (\<lambda>ob. ob\<lparr>obj_flag := flag\<rparr>) s2;
     Some (RT_EOK, new_mutex r, s3) }"

definition rt_mutex_detach :: "rt_mutex \<Rightarrow> kern \<Rightarrow> (rt_err_t \<times> kern) option" where
  "rt_mutex_detach m s = do {
     RT_ASSERT (rt_object_get_type (mx_ref m) s = RT_Object_Class_Mutex);
     RT_ASSERT (rt_object_is_systemobject (mx_ref m) s);
     s1 \<leftarrow> rt_ipc_list_resume_all (SuspendQ (mx_ref m)) s;
     Some (RT_EOK, rt_object_detach (mx_ref m) s1) }"

definition rt_mutex_create ::
    "(nat \<Rightarrow> 'h \<Rightarrow> nat option \<times> 'h) \<Rightarrow> (u8 \<Rightarrow> nat) \<Rightarrow> string \<Rightarrow> u8 \<Rightarrow> kern \<times> 'h \<Rightarrow>
     (rt_mutex option \<times> kern \<times> 'h) option" where
  "rt_mutex_create malloc object_size name flag sh = do {
     RT_DEBUG_NOT_IN_INTERRUPT (fst sh);
     (mutex, s1, h1) \<leftarrow> rt_object_allocate malloc object_size RT_Object_Class_Mutex name sh;
     (case mutex of
        None \<Rightarrow> Some (None, s1, h1)
      | Some a \<Rightarrow>
          (let s2 = rt_ipc_object_init (Obj a) s1;
               s3 = upd_obj (Obj a) (\<lambda>ob. ob\<lparr>obj_flag := flag\<rparr>) s2
           in Some (Some (new_mutex (Obj a)), s3, h1))) }"

definition rt_mutex_delete ::
    "(nat \<Rightarrow> 'h \<Rightarrow> 'h option) \<Rightarrow> nat \<Rightarrow> kern \<times> 'h \<Rightarrow> (rt_err_t \<times> kern \<times> 'h) option" where
  "rt_mutex_delete free a sh = do {
     let (s, h) = sh;
     RT_DEBUG_NOT_IN_INTERRUPT s;
     RT_ASSERT (rt_object_get_type (Obj a) s = RT_Object_Class_Mutex);
     RT_ASSERT (\<not> rt_object_is_systemobject (Obj a) s);
     s1 \<leftarrow> rt_ipc_list_resume_all (SuspendQ (Obj a)) s;
     (s2, h2) \<leftarrow> rt_object_delete free a (s1, h);
     Some (RT_EOK, s2, h2) }"

text \<open>Priority inheritance: the owner gets the priority of a more urgent thread that has to wait.\<close>

definition boost :: "tid \<Rightarrow> tid \<Rightarrow> kern \<Rightarrow> kern option" where
  "boost t owner s = (if th_current_priority (thr s t) < th_current_priority (thr s owner)
     then map_option snd (rt_thread_control owner RT_THREAD_CTRL_CHANGE_PRIORITY (th_current_priority (thr s t)) s)
     else Some s)"

text \<open>The end of the inheritance, when the owner gives the mutex up.\<close>

definition restore_priority :: "rt_mutex \<Rightarrow> tid \<Rightarrow> kern \<Rightarrow> kern option" where
  "restore_priority m t s = (if mx_original_priority m \<noteq> th_current_priority (thr s t)
     then map_option snd (rt_thread_control t RT_THREAD_CTRL_CHANGE_PRIORITY (mx_original_priority m) s)
     else Some s)"

text \<open>\<open>rt_mutex_take\<close> from the label \<open>__again\<close>, for the running thread \<open>t\<close>.\<close>

definition rt_mutex_take_again :: "rt_mutex \<Rightarrow> u32 \<Rightarrow> tid \<Rightarrow> kern \<Rightarrow> (kret \<times> rt_mutex \<times> kern) option" where
  "rt_mutex_take_again m time t s =
     (if mx_value m > 0 then
        Some (Returned RT_EOK, m\<lparr>mx_value := mx_value m - 1, mx_owner := Some t,
          mx_original_priority := th_current_priority (thr s t), mx_hold := mx_hold m + 1\<rparr>, s)
      else if time = 0 then
        Some (Returned (- RT_ETIMEOUT), m, upd_thr t (\<lambda>th. th\<lparr>th_error := - RT_ETIMEOUT\<rparr>) s)
      else do {
        owner \<leftarrow> mx_owner m;
        s1 \<leftarrow> boost t owner s;
        s2 \<leftarrow> ipc_block (SuspendQ (mx_ref m)) t (obj_flag (objs s1 (mx_ref m))) time s1;
        Some (Parked t, m, s2) })"

definition rt_mutex_take :: "rt_mutex \<Rightarrow> u32 \<Rightarrow> kern \<Rightarrow> (kret \<times> rt_mutex \<times> kern) option" where
  "rt_mutex_take m time s = do {
     RT_DEBUG_IN_THREAD_CONTEXT s;
     RT_ASSERT (rt_object_get_type (mx_ref m) s = RT_Object_Class_Mutex);
     t \<leftarrow> rt_thread_self s;
     let s1 = upd_thr t (\<lambda>th. th\<lparr>th_error := RT_EOK\<rparr>) s;
     if mx_owner m = Some t then Some (Returned RT_EOK, m\<lparr>mx_hold := mx_hold m + 1\<rparr>, s1)
     else rt_mutex_take_again m time t s1 }"

definition rt_mutex_take_wake :: "rt_mutex \<Rightarrow> u32 \<Rightarrow> tid \<Rightarrow> kern \<Rightarrow> (kret \<times> rt_mutex \<times> kern) option" where
  "rt_mutex_take_wake m time t s =
     (if th_error (thr s t) \<noteq> RT_EOK then
        if th_error (thr s t) = - RT_EINTR then rt_mutex_take_again m time t s
        else Some (Returned (th_error (thr s t)), m, s)
      else Some (Returned RT_EOK, m, s))"

definition rt_mutex_release :: "rt_mutex \<Rightarrow> kern \<Rightarrow> (rt_err_t \<times> rt_mutex \<times> kern) option" where
  "rt_mutex_release m s = do {
     RT_ASSERT (rt_object_get_type (mx_ref m) s = RT_Object_Class_Mutex);
     RT_DEBUG_IN_THREAD_CONTEXT s;
     t \<leftarrow> rt_thread_self s;
     if mx_owner m \<noteq> Some t then
       Some (- RT_ERROR, m, upd_thr t (\<lambda>th. th\<lparr>th_error := - RT_ERROR\<rparr>) s)
     else do {
       let m1 = m\<lparr>mx_hold := mx_hold m - 1\<rparr>;
       if mx_hold m1 = 0 then do {
         s1 \<leftarrow> restore_priority m1 t s;
         (case queues s1 (SuspendQ (mx_ref m)) of
            w # _ \<Rightarrow> do {
              let m2 = m1\<lparr>mx_owner := Some w, mx_original_priority := th_current_priority (thr s1 w),
                          mx_hold := mx_hold m1 + 1\<rparr>;
              s2 \<leftarrow> rt_ipc_list_resume (SuspendQ (mx_ref m)) s1;
              s3 \<leftarrow> rt_schedule s2;
              Some (RT_EOK, m2, s3) }
          | [] \<Rightarrow>
              Some (RT_EOK, m1\<lparr>mx_value := mx_value m1 + 1, mx_owner := None,
                               mx_original_priority := 0xff\<rparr>, s1)) }
       else Some (RT_EOK, m1, s) } }"

definition rt_mutex_control :: "rt_mutex \<Rightarrow> kern \<Rightarrow> rt_err_t option" where
  "rt_mutex_control m s = do {
     RT_ASSERT (rt_object_get_type (mx_ref m) s = RT_Object_Class_Mutex);
     Some (- RT_ERROR) }"

section \<open>The invariant and the steps\<close>

definition mutex_inv :: "rt_mutex \<Rightarrow> kern \<Rightarrow> bool" where
  "mutex_inv m s \<longleftrightarrow> kinv s \<and> ipc_header (mx_ref m) RT_Object_Class_Mutex s \<and>
     waiters_clean (SuspendQ (mx_ref m)) s \<and>
     (case mx_owner m of
        None \<Rightarrow> mx_value m = 1 \<and> mx_hold m = 0 \<and> queues s (SuspendQ (mx_ref m)) = []
      | Some o' \<Rightarrow> mx_value m = 0 \<and> mx_hold m > 0 \<and> o' \<notin> set (queues s (SuspendQ (mx_ref m))))"

text \<open>The recursion count has 8 bits; the steps assume that no thread takes the mutex 256 times.\<close>

inductive mutex_step :: "rt_mutex \<times> kern \<Rightarrow> rt_mutex \<times> kern \<Rightarrow> bool" where
  take: "runs s t \<Longrightarrow> time_ok time \<Longrightarrow> mx_hold m < 0xff \<Longrightarrow> rt_mutex_take m time s = Some (k, m', s') \<Longrightarrow>
    mutex_step (m, s) (m', s')"
| release: "runs s t \<Longrightarrow> rt_mutex_release m s = Some (e, m', s') \<Longrightarrow> mutex_step (m, s) (m', s')"
| env: "env_step (mx_ref m) (SuspendQ (mx_ref m)) s s' \<Longrightarrow> mutex_step (m, s) (m, s')"

inductive_cases mutex_stepE: "mutex_step (m, s) (m', s')"

section \<open>The effect of a priority change\<close>

lemma change_priority_effect:
  assumes "kinv s" "rt_thread_control u RT_THREAD_CTRL_CHANGE_PRIORITY p s = Some (e, s')"
  shows "kinv s'" "th_current_priority (thr s' u) = p" "\<And>v. v \<noteq> u \<Longrightarrow> thr s' v = thr s v"
    "\<And>v. th_error (thr s' v) = th_error (thr s v)"
    "\<And>v. thread_stat s' v = thread_stat s v" "queues s' (SuspendQ r) = queues s (SuspendQ r)"
    "objs s' = objs s" "current s' = current s" "lock_nest s' = lock_nest s" "irq_nest s' = irq_nest s"
    "tick s' = tick s"
proof -
  show "kinv s'" by (rule change_priority_kinv [OF assms])
  have th: "is_thread s u" using assms(2) by (auto simp: control_priority_eq Some_bind_iff)
  have "th_current_priority (thr s' u) = p \<and> (\<forall>v. v \<noteq> u \<longrightarrow> thr s' v = thr s v) \<and>
      (\<forall>v. th_error (thr s' v) = th_error (thr s v)) \<and> (\<forall>v. thread_stat s' v = thread_stat s v) \<and>
      (\<forall>r. queues s' (SuspendQ r) = queues s (SuspendQ r)) \<and>
      objs s' = objs s \<and> current s' = current s \<and> lock_nest s' = lock_nest s \<and>
      irq_nest s' = irq_nest s \<and> tick s' = tick s"
  proof (cases "thread_stat s u = RT_THREAD_READY")
    case True
    have "u \<notin> set (queues s (SuspendQ r))" for r
      using tinv_linked(2) [OF kinvD(3) [OF assms(1)], of u "SuspendQ r"] True by auto
    moreover have "s' = rt_schedule_insert_thread u (upd_thr u (\<lambda>th. set_prio_attr (th\<lparr>th_current_priority := p\<rparr>))
              (rt_schedule_remove_thread u s))"
      using assms(2) True th by (simp add: control_priority_eq)
    ultimately show ?thesis using True by (simp add: Let_def)
  next
    case False
    then have "s' = upd_thr u (\<lambda>th. set_prio_attr (th\<lparr>th_current_priority := p\<rparr>)) s"
      using assms(2) th by (simp add: control_priority_eq)
    then show ?thesis by simp
  qed
  then show "th_current_priority (thr s' u) = p" "\<And>v. v \<noteq> u \<Longrightarrow> thr s' v = thr s v"
    "\<And>v. th_error (thr s' v) = th_error (thr s v)"
    "\<And>v. thread_stat s' v = thread_stat s v" "queues s' (SuspendQ r) = queues s (SuspendQ r)"
    "objs s' = objs s" "current s' = current s" "lock_nest s' = lock_nest s" "irq_nest s' = irq_nest s"
    "tick s' = tick s"
    by blast+
qed

section \<open>Preservation\<close>

lemma boost_effect:
  assumes "kinv s" "boost t u s = Some s'"
  shows "kinv s'" "prio_of s' u = min (prio_of s t) (prio_of s u)" "\<And>v. v \<noteq> u \<Longrightarrow> thr s' v = thr s v"
    "\<And>v. th_error (thr s' v) = th_error (thr s v)"
    "\<And>v. thread_stat s' v = thread_stat s v" "queues s' (SuspendQ r) = queues s (SuspendQ r)"
    "objs s' = objs s" "current s' = current s" "irq_nest s' = irq_nest s"
proof -
  have "kinv s' \<and> prio_of s' u = min (prio_of s t) (prio_of s u) \<and> (\<forall>v. v \<noteq> u \<longrightarrow> thr s' v = thr s v) \<and>
    (\<forall>v. th_error (thr s' v) = th_error (thr s v)) \<and> (\<forall>v. thread_stat s' v = thread_stat s v) \<and>
    queues s' (SuspendQ r) = queues s (SuspendQ r) \<and>
    objs s' = objs s \<and> current s' = current s \<and> irq_nest s' = irq_nest s"
  proof (cases "th_current_priority (thr s t) < th_current_priority (thr s u)")
    case True
    then obtain e where "rt_thread_control u RT_THREAD_CTRL_CHANGE_PRIORITY (th_current_priority (thr s t)) s = Some (e, s')"
      using assms(2) by (auto simp: boost_def)
    note ce = change_priority_effect [OF assms(1) this]
    show ?thesis using ce(1-8,10) True by (simp add: prio_of_def)
  next
    case False
    then have "s' = s" using assms(2) by (simp add: boost_def)
    then show ?thesis using False assms(1) by (simp add: prio_of_def min_def)
  qed
  then show "kinv s'" "prio_of s' u = min (prio_of s t) (prio_of s u)" "\<And>v. v \<noteq> u \<Longrightarrow> thr s' v = thr s v"
    "\<And>v. th_error (thr s' v) = th_error (thr s v)"
    "\<And>v. thread_stat s' v = thread_stat s v" "queues s' (SuspendQ r) = queues s (SuspendQ r)"
    "objs s' = objs s" "current s' = current s" "irq_nest s' = irq_nest s"
    by blast+
qed

lemma mutex_take_cases:
  assumes "runs s t" "mutex_inv m s" "rt_mutex_take m time s = Some (k, m', s')"
  obtains (again) "mx_owner m = Some t" "k = Returned RT_EOK" "m' = m\<lparr>mx_hold := mx_hold m + 1\<rparr>"
      "s' = upd_thr t (\<lambda>th. th\<lparr>th_error := RT_EOK\<rparr>) s"
  | (free) "mx_owner m = None" "k = Returned RT_EOK"
      "m' = m\<lparr>mx_value := 0, mx_owner := Some t, mx_original_priority := th_current_priority (thr s t), mx_hold := 1\<rparr>"
      "s' = upd_thr t (\<lambda>th. th\<lparr>th_error := RT_EOK\<rparr>) s"
  | (busy) u where "mx_owner m = Some u" "u \<noteq> t" "time = 0" "k = Returned (- RT_ETIMEOUT)" "m' = m"
      "s' = upd_thr t (\<lambda>th. th\<lparr>th_error := - RT_ETIMEOUT\<rparr>) s"
  | (wait) u s1 where "mx_owner m = Some u" "u \<noteq> t" "time \<noteq> 0" "k = Parked t" "m' = m"
      "boost t u (upd_thr t (\<lambda>th. th\<lparr>th_error := RT_EOK\<rparr>) s) = Some s1"
      "ipc_block (SuspendQ (mx_ref m)) t (obj_flag (objs s1 (mx_ref m))) time s1 = Some s'"
proof (cases "mx_owner m")
  case None
  then have v: "mx_value m = 1" "mx_hold m = 0" using assms(2) by (simp_all add: mutex_inv_def)
  have "k = Returned RT_EOK \<and> s' = upd_thr t (\<lambda>th. th\<lparr>th_error := RT_EOK\<rparr>) s \<and>
    m' = m\<lparr>mx_value := 0, mx_owner := Some t, mx_original_priority := th_current_priority (thr s t), mx_hold := 1\<rparr>"
    using assms(1,3) None v by (auto simp: rt_mutex_take_def rt_mutex_take_again_def Some_bind_iff)
  then show ?thesis using free None by blast
next
  case (Some u)
  then have v: "mx_value m = 0" using assms(2) by (simp add: mutex_inv_def)
  show ?thesis
  proof (cases "u = t")
    case True
    then have "k = Returned RT_EOK \<and> s' = upd_thr t (\<lambda>th. th\<lparr>th_error := RT_EOK\<rparr>) s \<and>
        m' = m\<lparr>mx_hold := mx_hold m + 1\<rparr>"
      using assms(1,3) Some by (auto simp: rt_mutex_take_def Some_bind_iff)
    then show ?thesis using again Some True by blast
  next
    case ne: False
    show ?thesis
    proof (cases "time = 0")
      case True
      then have "k = Returned (- RT_ETIMEOUT) \<and> m' = m \<and> s' = upd_thr t (\<lambda>th. th\<lparr>th_error := - RT_ETIMEOUT\<rparr>) s"
        using assms(1,3) Some ne v by (auto simp: rt_mutex_take_def rt_mutex_take_again_def Some_bind_iff)
      then show ?thesis using busy Some ne True by blast
    next
      case False
      then obtain s1 where "k = Parked t" "m' = m"
        "boost t u (upd_thr t (\<lambda>th. th\<lparr>th_error := RT_EOK\<rparr>) s) = Some s1"
        "ipc_block (SuspendQ (mx_ref m)) t (obj_flag (objs s1 (mx_ref m))) time s1 = Some s'"
        using assms(1,3) Some ne v
        by (auto simp: rt_mutex_take_def rt_mutex_take_again_def Some_bind_iff Let_def)
      then show ?thesis using wait Some ne False by blast
    qed
  qed
qed

lemma waiters_clean_upd:
  "waiters_clean q s \<Longrightarrow> t \<notin> set (queues s q) \<Longrightarrow> waiters_clean q (upd_thr t f s)"
  by (auto simp: waiters_clean_def)

lemma running_not_waiting:
  assumes "kinv s" "runs s t" "head_stat q = RT_THREAD_SUSPEND"
  shows "t \<notin> set (queues s q)"
  using tinv_linked(2) [OF kinvD(3) [OF assms(1)], of t q] assms(2,3) by auto

lemma hold_step: "h < 0xff \<Longrightarrow> h + 1 > (0 :: u8)"
proof -
  assume a: "h < 0xff"
  have "h + 1 \<noteq> 0"
  proof
    assume "h + 1 = 0"
    then have "h = - 1" by (simp add: eq_neg_iff_add_eq_0)
    then show False using a by simp
  qed
  then show ?thesis by (simp add: word_neq_0_conv)
qed

text \<open>What a waiting call does to the waiting list and its threads.\<close>

lemma mutex_wait_effect:
  assumes "mutex_inv m s" "runs s t" "time_ok time" "mx_owner m = Some u" "u \<noteq> t"
    "boost t u (upd_thr t (\<lambda>th. th\<lparr>th_error := RT_EOK\<rparr>) s) = Some s1"
    "ipc_block (SuspendQ (mx_ref m)) t (obj_flag (objs s1 (mx_ref m))) time s1 = Some s'"
  shows "kinv s'"
    "queues s' (SuspendQ (mx_ref m)) = wait_insert (obj_flag (objs s (mx_ref m))) (prio_of s1) t
       (queues s (SuspendQ (mx_ref m)))"
    "ipc_header (mx_ref m) RT_Object_Class_Mutex s'" "obj_flag (objs s' (mx_ref m)) = obj_flag (objs s (mx_ref m))"
    "waiters_clean (SuspendQ (mx_ref m)) s'"
    "prio_of s' u = min (prio_of s t) (prio_of s u)" "\<And>v. v \<noteq> u \<Longrightarrow> prio_of s' v = prio_of s v"
    "prio_of s' = prio_of s1"
proof -
  let ?q = "SuspendQ (mx_ref m)" and ?s = "upd_thr t (\<lambda>th. th\<lparr>th_error := RT_EOK\<rparr>) s"
  have k: "kinv s" and h: "ipc_header (mx_ref m) RT_Object_Class_Mutex s" and w: "waiters_clean ?q s"
    and nu: "u \<notin> set (queues s ?q)"
    using assms(1,4) by (simp_all add: mutex_inv_def)
  note b = boost_effect [OF set_error_kinv [OF k] assms(6)]
  have r: "runs s1 t"
    using assms(2) b(5) [of t] by (simp add: b(7,8) rt_object_get_type_def)
  have fl: "obj_flag (objs s1 (mx_ref m)) \<in> {RT_IPC_FLAG_FIFO, RT_IPC_FLAG_PRIO}"
    using h by (simp add: b(7) ipc_header_def)
  have hq: "head_stat ?q = RT_THREAD_SUSPEND" by simp
  note be = block_effect [OF b(1) r fl assms(3) hq assms(7)]
  show "kinv s'" by (rule be(1))
  show "queues s' ?q = wait_insert (obj_flag (objs s (mx_ref m))) (prio_of s1) t (queues s ?q)"
    using be(2) b(6) [of "mx_ref m"] by (simp add: b(7))
  then have q': "set (queues s' ?q) = insert t (set (queues s ?q))" by simp
  obtain n where n: "mx_ref m = Obj n" using h by (auto simp: ipc_header_def)
  show "obj_flag (objs s' (mx_ref m)) = obj_flag (objs s (mx_ref m))" using be(10) [of n] n by (simp add: b(7))
  show "ipc_header (mx_ref m) RT_Object_Class_Mutex s'"
    using h be(10) [of n] n by (simp add: b(7) ipc_header_def rt_object_get_type_def)
  have "th_error (thr s' v) = RT_EOK" if v: "v \<in> set (queues s' ?q)" for v
  proof (cases "v = t")
    case True
    then show ?thesis using be(5) b(4) [of t] by simp
  next
    case False
    then show ?thesis using be(8) [of v] b(4) [of v] v q' w by (simp add: waiters_clean_def)
  qed
  then show "waiters_clean ?q s'" by (simp add: waiters_clean_def)
  show p: "prio_of s' = prio_of s1" using be(9) by (simp add: prio_of_def fun_eq_iff)
  show "prio_of s' u = min (prio_of s t) (prio_of s u)" unfolding p using b(2) assms(5) by (simp add: prio_of_def)
  show "prio_of s' v = prio_of s v" if "v \<noteq> u" for v
    unfolding p using b(3) [OF that] by (simp add: prio_of_def)
qed

lemma mutex_take_inv:
  assumes "mutex_inv m s" "runs s t" "time_ok time" "mx_hold m < 0xff" "rt_mutex_take m time s = Some (k, m', s')"
  shows "mutex_inv m' s'"
proof -
  let ?q = "SuspendQ (mx_ref m)"
  have k: "kinv s" and h: "ipc_header (mx_ref m) RT_Object_Class_Mutex s" and w: "waiters_clean ?q s"
    using assms(1) by (simp_all add: mutex_inv_def)
  have hq: "head_stat ?q = RT_THREAD_SUSPEND" by simp
  have nt: "t \<notin> set (queues s ?q)" by (rule running_not_waiting [OF k assms(2) hq])
  have upd: "kinv (upd_thr t (\<lambda>th. th\<lparr>th_error := e\<rparr>) s)"
    "ipc_header (mx_ref m) RT_Object_Class_Mutex (upd_thr t (\<lambda>th. th\<lparr>th_error := e\<rparr>) s)"
    "waiters_clean ?q (upd_thr t (\<lambda>th. th\<lparr>th_error := e\<rparr>) s)" for e
    using set_error_kinv [OF k] h waiters_clean_upd [OF w nt]
    by (simp_all add: ipc_header_def rt_object_get_type_def)
  show ?thesis
    using assms(2,1,5)
  proof (cases rule: mutex_take_cases)
    case again
    then show ?thesis using assms(1) upd hold_step [OF assms(4)] by (simp add: mutex_inv_def)
  next
    case free
    then show ?thesis using assms(1) upd nt by (simp add: mutex_inv_def)
  next
    case (busy u)
    then show ?thesis using assms(1) upd by (simp add: mutex_inv_def)
  next
    case (wait u s1)
    note e = mutex_wait_effect [OF assms(1-3) wait(1,2,6,7)]
    show ?thesis using assms(1) wait(1,2,5) e(1,2,3,5) by (simp add: mutex_inv_def)
  qed
qed

lemma restore_priority_hold: "restore_priority (m\<lparr>mx_hold := x\<rparr>) t s = restore_priority m t s"
  by (simp add: restore_priority_def)

lemma mutex_release_cases:
  assumes "runs s t" "mutex_inv m s" "rt_mutex_release m s = Some (e, m', s')"
  obtains (other) "mx_owner m \<noteq> Some t" "e = - RT_ERROR" "m' = m"
      "s' = upd_thr t (\<lambda>th. th\<lparr>th_error := - RT_ERROR\<rparr>) s"
  | (nested) "mx_owner m = Some t" "mx_hold m > 1" "e = RT_EOK" "m' = m\<lparr>mx_hold := mx_hold m - 1\<rparr>" "s' = s"
  | (free) "mx_owner m = Some t" "mx_hold m = 1" "queues s (SuspendQ (mx_ref m)) = []" "e = RT_EOK"
      "m' = m\<lparr>mx_hold := 0, mx_value := 1, mx_owner := None, mx_original_priority := 0xff\<rparr>"
      "s' = s \<or> rt_thread_control t RT_THREAD_CTRL_CHANGE_PRIORITY (mx_original_priority m) s = Some (RT_EOK, s')"
  | (hand) w ws s1 where "mx_owner m = Some t" "mx_hold m = 1" "queues s (SuspendQ (mx_ref m)) = w # ws"
      "queues s1 (SuspendQ (mx_ref m)) = w # ws" "e = RT_EOK"
      "s1 = s \<or> rt_thread_control t RT_THREAD_CTRL_CHANGE_PRIORITY (mx_original_priority m) s = Some (RT_EOK, s1)"
      "m' = m\<lparr>mx_hold := 1, mx_owner := Some w, mx_original_priority := th_current_priority (thr s1 w)\<rparr>"
      "rt_schedule (unpark w s1) = Some s'"
proof (cases "mx_owner m = Some t")
  case False
  then have "e = - RT_ERROR \<and> m' = m \<and> s' = upd_thr t (\<lambda>th. th\<lparr>th_error := - RT_ERROR\<rparr>) s"
    using assms(1,3) by (auto simp: rt_mutex_release_def Some_bind_iff)
  then show ?thesis using other False by blast
next
  case own: True
  let ?q = "SuspendQ (mx_ref m)"
  have k: "kinv s" and v: "mx_value m = 0" "mx_hold m > 0" using assms(2) own by (simp_all add: mutex_inv_def)
  show ?thesis
  proof (cases "mx_hold m = 1")
    case False
    have "mx_hold m > 1"
      using False v(2) by (metis antisym_conv3 word_less_1 word_neq_0_conv)
    moreover have "mx_hold m - 1 \<noteq> 0" using False by simp
    then have "e = RT_EOK \<and> m' = m\<lparr>mx_hold := mx_hold m - 1\<rparr> \<and> s' = s"
      using assms(1,3) own by (auto simp: rt_mutex_release_def Some_bind_iff Let_def)
    ultimately show ?thesis using nested own by blast
  next
    case True
    obtain s1 where s1: "restore_priority m t s = Some s1"
      using assms(1,3) own True
      by (auto simp: rt_mutex_release_def Some_bind_iff Let_def restore_priority_def split: if_splits)
    then have c: "s1 = s \<or> rt_thread_control t RT_THREAD_CTRL_CHANGE_PRIORITY (mx_original_priority m) s = Some (RT_EOK, s1)"
      by (auto simp: restore_priority_def control_priority_eq Some_bind_iff split: if_splits)
    have rm: "restore_priority (m\<lparr>mx_hold := x\<rparr>) t s = Some s1" for x
      using s1 by (simp only: restore_priority_hold)
    have k1: "kinv s1" and q: "queues s1 ?q = queues s ?q"
      using c k change_priority_effect(1,6) [OF k] by auto
    show ?thesis
    proof (cases "queues s ?q")
      case Nil
      then have "e = RT_EOK \<and> s' = s1 \<and>
          m' = m\<lparr>mx_hold := 0, mx_value := 1, mx_owner := None, mx_original_priority := 0xff\<rparr>"
        using assms(1,3) own True rm q v
        by (auto simp: rt_mutex_release_def Some_bind_iff Let_def)
      then show ?thesis using free own True Nil c by blast
    next
      case (Cons w ws)
      have qc: "queues s1 ?q = w # ws" using q Cons by simp
      have "rt_ipc_list_resume ?q s1 = Some (unpark w s1)" by (rule list_resume_eq(1) [OF k1 qc]) simp
      then have "e = RT_EOK \<and> rt_schedule (unpark w s1) = Some s' \<and>
          m' = m\<lparr>mx_hold := 1, mx_owner := Some w, mx_original_priority := th_current_priority (thr s1 w)\<rparr>"
        using assms(1,3) own True rm qc
        by (auto simp: rt_mutex_release_def Some_bind_iff Let_def)
      then show ?thesis using hand own True Cons qc c by blast
    qed
  qed
qed

lemma restored_effect:
  assumes "kinv s" "s1 = s \<or> rt_thread_control t RT_THREAD_CTRL_CHANGE_PRIORITY p s = Some (RT_EOK, s1)"
  shows "kinv s1" "\<And>v. v \<noteq> t \<Longrightarrow> thr s1 v = thr s v" "\<And>v. th_error (thr s1 v) = th_error (thr s v)"
    "\<And>v. thread_stat s1 v = thread_stat s v" "queues s1 (SuspendQ r) = queues s (SuspendQ r)"
    "objs s1 = objs s" "current s1 = current s"
  using assms change_priority_effect [OF assms(1), of t p RT_EOK s1] by auto

lemma mutex_release_inv:
  assumes "mutex_inv m s" "runs s t" "rt_mutex_release m s = Some (e, m', s')"
  shows "mutex_inv m' s'"
proof -
  let ?q = "SuspendQ (mx_ref m)"
  have k: "kinv s" and h: "ipc_header (mx_ref m) RT_Object_Class_Mutex s" and w: "waiters_clean ?q s"
    using assms(1) by (simp_all add: mutex_inv_def)
  have hq: "head_stat ?q = RT_THREAD_SUSPEND" by simp
  have nt: "t \<notin> set (queues s ?q)" by (rule running_not_waiting [OF k assms(2) hq])
  have keep: "ipc_header (mx_ref m) RT_Object_Class_Mutex s1" "waiters_clean ?q s1" "kinv s1" "queues s1 ?q = queues s ?q"
    if "s1 = s \<or> rt_thread_control t RT_THREAD_CTRL_CHANGE_PRIORITY (mx_original_priority m) s = Some (RT_EOK, s1)" for s1
    using restored_effect [OF k that] h w
    by (auto simp: ipc_header_def rt_object_get_type_def waiters_clean_def)
  show ?thesis
    using assms(2,1,3)
  proof (cases rule: mutex_release_cases)
    case other
    have "kinv (upd_thr t (\<lambda>th. th\<lparr>th_error := - RT_ERROR\<rparr>) s)" by (rule set_error_kinv [OF k])
    then show ?thesis using assms(1) other h waiters_clean_upd [OF w nt]
      by (simp add: mutex_inv_def ipc_header_def rt_object_get_type_def split: option.splits)
  next
    case nested
    have "mx_hold m - 1 \<noteq> 0" using nested(2) by auto
    then have "mx_hold m - 1 > 0" using word_neq_0_conv by blast
    then show ?thesis using assms(1) nested by (simp add: mutex_inv_def)
  next
    case free
    then show ?thesis using keep [OF free(6)] by (simp add: mutex_inv_def)
  next
    case (hand x ws s1)
    note kp = keep [OF hand(6)]
    note r = list_resume_eq [OF kp(3) hand(4) hq] and sm = schedule_same [OF hand(8)]
    have "distinct (x # ws)" using kinvD(1) [OF k] hand(3) by (metis lists_ok_def)
    moreover have "waiters_clean ?q s'"
      using woken_waiters [OF r(3) kp(2) hq] waiters_clean_cong [of s' ?q "unpark x s1"] sm by simp
    moreover have "ipc_header (mx_ref m) RT_Object_Class_Mutex s'"
      using woken_header [OF r(3) kp(1)] sm by (simp add: ipc_header_def rt_object_get_type_def)
    moreover have "queues s' ?q = ws" using r(4) sm(1) by simp
    moreover have "kinv s'" by (rule schedule_kinv [OF r(2) hand(8)])
    moreover have "mx_value m = 0" using assms(1) hand(1) by (simp add: mutex_inv_def)
    ultimately show ?thesis using hand(7) by (simp add: mutex_inv_def)
  qed
qed

lemma mutex_env_inv:
  assumes "mutex_inv m s" "env_step (mx_ref m) (SuspendQ (mx_ref m)) s s'"
  shows "mutex_inv m s'"
  using assms ipc_header_same [of "mx_ref m" _ s s']
  by (auto simp: mutex_inv_def env_step_def waiters_clean_def subset_iff split: option.splits)

lemma mutex_step_inv: "mutex_step (m, s) (m', s') \<Longrightarrow> mutex_inv m s \<Longrightarrow> mutex_inv m' s'"
  by (erule mutex_stepE) (blast intro: mutex_take_inv mutex_release_inv mutex_env_inv)+

section \<open>The abstract lock\<close>

datatype lock = Free | Held tid nat

definition mutex_abs :: "rt_mutex \<Rightarrow> lock" where
  "mutex_abs m = (case mx_owner m of None \<Rightarrow> Free | Some t \<Rightarrow> Held t (unat (mx_hold m)))"

fun lock_take :: "tid \<Rightarrow> lock \<Rightarrow> lock option" where
  "lock_take t Free = Some (Held t 1)"
| "lock_take t (Held u n) = (if u = t then Some (Held t (n + 1)) else None)"

fun lock_release :: "tid \<Rightarrow> tid list \<Rightarrow> lock \<Rightarrow> lock option" where
  "lock_release t ws Free = None"
| "lock_release t ws (Held u n) =
     (if u \<noteq> t then None
      else if n > 1 then Some (Held t (n - 1))
      else case ws of [] \<Rightarrow> Some Free | w # _ \<Rightarrow> Some (Held w 1))"

lemma unat_hold_Suc: "h < 0xff \<Longrightarrow> unat (h + 1 :: u8) = unat h + 1"
proof -
  assume "h < 0xff"
  then have "h + 1 > 0" by (rule hold_step)
  then have "1 + h \<noteq> 0" by (simp add: word_neq_0_conv add.commute)
  from unatSuc [OF this] show ?thesis by (simp add: add.commute)
qed

lemma mutex_take_refines:
  assumes "mutex_inv m s" "runs s t" "mx_hold m < 0xff" "rt_mutex_take m time s = Some (k, m', s')"
  shows "case lock_take t (mutex_abs m) of
      Some l \<Rightarrow> k = Returned RT_EOK \<and> mutex_abs m' = l
    | None \<Rightarrow> k \<noteq> Returned RT_EOK \<and> m' = m"
  using assms(2,1,4)
  by (cases rule: mutex_take_cases) (simp_all add: mutex_abs_def unat_hold_Suc [OF assms(3)])

lemma mutex_release_refines:
  assumes "mutex_inv m s" "runs s t" "rt_mutex_release m s = Some (e, m', s')"
  shows "case lock_release t (queues s (SuspendQ (mx_ref m))) (mutex_abs m) of
      Some l \<Rightarrow> e = RT_EOK \<and> mutex_abs m' = l
    | None \<Rightarrow> e = - RT_ERROR \<and> m' = m"
  using assms(2,1,3)
proof (cases rule: mutex_release_cases)
  case nested
  have "unat (mx_hold m) > 1" using nested(2) by (simp add: word_less_nat_alt)
  moreover have "mx_hold m \<noteq> 0" using nested(2) by auto
  then have "unat (mx_hold m - 1) = unat (mx_hold m) - 1" by (simp add: unat_minus_one)
  ultimately show ?thesis using nested by (simp add: mutex_abs_def)
qed (auto simp: mutex_abs_def split: option.splits)

section \<open>Priority inheritance\<close>

definition inherits :: "rt_mutex \<Rightarrow> kern \<Rightarrow> bool" where
  "inherits m s \<longleftrightarrow> obj_flag (objs s (mx_ref m)) = RT_IPC_FLAG_PRIO \<and>
     sorted (map (prio_of s) (queues s (SuspendQ (mx_ref m)))) \<and>
     (\<forall>u. mx_owner m = Some u \<longrightarrow> (\<forall>w \<in> set (queues s (SuspendQ (mx_ref m))). prio_of s u \<le> prio_of s w))"

lemma inherits_same_prio:
  assumes "inherits m s" "objs s' (mx_ref m) = objs s (mx_ref m)"
    "queues s' (SuspendQ (mx_ref m)) = queues s (SuspendQ (mx_ref m))" "prio_of s' = prio_of s"
  shows "inherits m s'"
  using assms by (simp add: inherits_def)

lemma mutex_take_inherits:
  assumes "mutex_inv m s" "inherits m s" "runs s t" "time_ok time" "rt_mutex_take m time s = Some (k, m', s')"
  shows "inherits m' s'"
proof -
  let ?q = "SuspendQ (mx_ref m)"
  have p: "prio_of (upd_thr t (\<lambda>th. th\<lparr>th_error := e\<rparr>) s) = prio_of s" for e
    by (simp add: prio_of_def fun_eq_iff)
  show ?thesis
    using assms(3,1,5)
  proof (cases rule: mutex_take_cases)
    case again
    then show ?thesis using assms(2) p by (simp add: inherits_def)
  next
    case free
    then show ?thesis using assms(1,2) p by (simp add: inherits_def mutex_inv_def)
  next
    case (busy u)
    then show ?thesis using assms(2) p by (simp add: inherits_def)
  next
    case (wait u s1)
    note e = mutex_wait_effect [OF assms(1,3,4) wait(1,2,6,7)]
    have fl: "obj_flag (objs s (mx_ref m)) = RT_IPC_FLAG_PRIO"
      and so: "sorted (map (prio_of s) (queues s ?q))"
      and le: "\<forall>w \<in> set (queues s ?q). prio_of s u \<le> prio_of s w"
      using assms(2) wait(1) by (simp_all add: inherits_def)
    have nu: "u \<notin> set (queues s ?q)" using assms(1) wait(1) by (simp add: mutex_inv_def)
    have same: "prio_of s' v = prio_of s v" if "v \<in> set (queues s ?q)" for v
      using e(7) nu that by metis
    then have "map (prio_of s1) (queues s ?q) = map (prio_of s) (queues s ?q)" using e(8) by simp
    then have "sorted (map (prio_of s1) (wait_insert RT_IPC_FLAG_PRIO (prio_of s1) t (queues s ?q)))"
      using wait_insert_sorted so by metis
    then have so': "sorted (map (prio_of s') (queues s' ?q))" using e(2,8) fl by simp
    have "prio_of s' u \<le> prio_of s' w" if "w \<in> set (queues s' ?q)" for w
    proof (cases "w = t")
      case True
      then show ?thesis using e(6,7) wait(2) by simp
    next
      case False
      then have "w \<in> set (queues s ?q)" using that e(2) by simp
      then show ?thesis using le same e(6) by (simp add: min.coboundedI2)
    qed
    then show ?thesis using so' fl e(4) wait(1,5) by (simp add: inherits_def)
  qed
qed

lemma mutex_release_inherits:
  assumes "mutex_inv m s" "inherits m s" "runs s t" "rt_mutex_release m s = Some (e, m', s')"
  shows "inherits m' s'"
proof -
  let ?q = "SuspendQ (mx_ref m)"
  have k: "kinv s" using assms(1) by (simp add: mutex_inv_def)
  have hq: "head_stat ?q = RT_THREAD_SUSPEND" by simp
  have nt: "t \<notin> set (queues s ?q)" by (rule running_not_waiting [OF k assms(3) hq])
  show ?thesis
    using assms(3,1,4)
  proof (cases rule: mutex_release_cases)
    case other
    have "prio_of (upd_thr t (\<lambda>th. th\<lparr>th_error := - RT_ERROR\<rparr>) s) = prio_of s"
      by (simp add: prio_of_def fun_eq_iff)
    then show ?thesis using assms(2) other by (simp add: inherits_def)
  next
    case nested
    then show ?thesis using assms(2) by (simp add: inherits_def)
  next
    case free
    then show ?thesis using restored_effect(5,6) [OF k free(6)] assms(2) by (simp add: inherits_def)
  next
    case (hand x ws s1)
    note re = restored_effect [OF k hand(6)]
    note r = list_resume_eq [OF re(1) hand(4) hq] and sm = schedule_same [OF hand(8)]
    have p: "prio_of s' v = prio_of s1 v" for v by (simp add: prio_of_def sm)
    have "prio_of s' v = prio_of s v" if "v \<in> set (x # ws)" for v
      using p re(2) [of v] nt hand(3) that by (metis prio_of_def)
    moreover have "sorted (map (prio_of s) (x # ws))" using assms(2) hand(3) by (simp add: inherits_def)
    ultimately have "sorted (map (prio_of s') (x # ws))" by (simp cong: map_cong)
    moreover have "queues s' ?q = ws" using r(4) sm(1) by simp
    moreover obtain n where "mx_ref m = Obj n" using assms(1) by (auto simp: mutex_inv_def ipc_header_def)
    then have "objs s' (mx_ref m) = objs s (mx_ref m)" using re(6) by (simp add: sm)
    ultimately show ?thesis using assms(2) hand(7) by (simp add: inherits_def)
  qed
qed

end
