(* ===== verification/Event.thy ===== *)
theory Event
  imports Semaphore
begin

text \<open>
  The event flags of \<^verbatim>\<open>rt-thread/src/ipc.c\<close>. A waiting thread keeps the bits it wants and how
  (\<open>AND\<close>, \<open>OR\<close>, \<open>CLEAR\<close>) in its own structure; a send scans the waiting list.

  \<open>ev_scan\<close> is what the scan of a send amounts to: which threads are released, in list order, with
  which bits, and the set that remains. \<open>event_inv\<close>: no waiting thread's condition holds.
\<close>

section \<open>The code\<close>

record rt_event =
  ev_ref :: oref
  ev_set :: u32

abbreviation (input) RT_EVENT_FLAG_AND :: u8 where "RT_EVENT_FLAG_AND \<equiv> 1"
abbreviation (input) RT_EVENT_FLAG_OR :: u8 where "RT_EVENT_FLAG_OR \<equiv> 2"
abbreviation (input) RT_EVENT_FLAG_CLEAR :: u8 where "RT_EVENT_FLAG_CLEAR \<equiv> 4"

definition rt_event_init :: "oref \<Rightarrow> string \<Rightarrow> u8 \<Rightarrow> kern \<Rightarrow> (rt_err_t \<times> rt_event \<times> kern) option" where
  "rt_event_init r name flag s = do {
     s1 \<leftarrow> rt_object_init r RT_Object_Class_Event name s;
     let s2 = upd_obj r (\<lambda>ob. ob\<lparr>obj_flag := flag\<rparr>) s1;
     let s3 = rt_ipc_object_init r s2;
     Some (RT_EOK, \<lparr>ev_ref = r, ev_set = 0\<rparr>, s3) }"

definition rt_event_detach :: "rt_event \<Rightarrow> kern \<Rightarrow> (rt_err_t \<times> kern) option" where
  "rt_event_detach ev s = do {
     RT_ASSERT (rt_object_get_type (ev_ref ev) s = RT_Object_Class_Event);
     RT_ASSERT (rt_object_is_systemobject (ev_ref ev) s);
     s1 \<leftarrow> rt_ipc_list_resume_all (SuspendQ (ev_ref ev)) s;
     Some (RT_EOK, rt_object_detach (ev_ref ev) s1) }"

definition rt_event_create ::
    "(nat \<Rightarrow> 'h \<Rightarrow> nat option \<times> 'h) \<Rightarrow> (u8 \<Rightarrow> nat) \<Rightarrow> string \<Rightarrow> u8 \<Rightarrow> kern \<times> 'h \<Rightarrow>
     (rt_event option \<times> kern \<times> 'h) option" where
  "rt_event_create malloc object_size name flag sh = do {
     RT_DEBUG_NOT_IN_INTERRUPT (fst sh);
     (event, s1, h1) \<leftarrow> rt_object_allocate malloc object_size RT_Object_Class_Event name sh;
     (case event of
        None \<Rightarrow> Some (None, s1, h1)
      | Some a \<Rightarrow>
          (let s2 = upd_obj (Obj a) (\<lambda>ob. ob\<lparr>obj_flag := flag\<rparr>) s1;
               s3 = rt_ipc_object_init (Obj a) s2
           in Some (Some \<lparr>ev_ref = Obj a, ev_set = 0\<rparr>, s3, h1))) }"

definition rt_event_delete ::
    "(nat \<Rightarrow> 'h \<Rightarrow> 'h option) \<Rightarrow> nat \<Rightarrow> kern \<times> 'h \<Rightarrow> (rt_err_t \<times> kern \<times> 'h) option" where
  "rt_event_delete free a sh = do {
     let (s, h) = sh;
     RT_ASSERT (rt_object_get_type (Obj a) s = RT_Object_Class_Event);
     RT_ASSERT (\<not> rt_object_is_systemobject (Obj a) s);
     RT_DEBUG_NOT_IN_INTERRUPT s;
     s1 \<leftarrow> rt_ipc_list_resume_all (SuspendQ (Obj a)) s;
     (s2, h2) \<leftarrow> rt_object_delete free a (s1, h);
     Some (RT_EOK, s2, h2) }"

text \<open>The loop of \<open>rt_event_send\<close>. It fetches the next node before it resumes a thread, and resuming
  unlinks that thread only, so it visits the threads that were in the list when it started.\<close>

fun event_send_loop :: "tid list \<Rightarrow> rt_event \<Rightarrow> kern \<Rightarrow> bool \<Rightarrow> (rt_event \<times> kern \<times> bool) option" where
  "event_send_loop [] ev s need_schedule = Some (ev, s, need_schedule)"
| "event_send_loop (t # ns) ev s need_schedule =
     (let th = thr s t;
          (status, s1) =
            (if th_event_info th AND RT_EVENT_FLAG_AND \<noteq> 0 then
               (th_event_set th AND ev_set ev = th_event_set th, s)
             else if th_event_info th AND RT_EVENT_FLAG_OR \<noteq> 0 then
               (if th_event_set th AND ev_set ev \<noteq> 0
                then (True, upd_thr t (\<lambda>th. th\<lparr>th_event_set := th_event_set th AND ev_set ev\<rparr>) s)
                else (False, s))
             else (False, s))
      in if status then
           (let ev1 = (if th_event_info (thr s1 t) AND RT_EVENT_FLAG_CLEAR \<noteq> 0
                       then ev\<lparr>ev_set := ev_set ev AND NOT (th_event_set (thr s1 t))\<rparr> else ev)
            in Option.bind (rt_thread_resume t s1) (\<lambda>(_, s2). event_send_loop ns ev1 s2 True))
         else event_send_loop ns ev s1 need_schedule)"

definition rt_event_send :: "rt_event \<Rightarrow> u32 \<Rightarrow> kern \<Rightarrow> (rt_err_t \<times> rt_event \<times> kern) option" where
  "rt_event_send ev st s = do {
     RT_ASSERT (rt_object_get_type (ev_ref ev) s = RT_Object_Class_Event);
     if st = 0 then Some (- RT_ERROR, ev, s)
     else do {
       let ev1 = ev\<lparr>ev_set := ev_set ev OR st\<rparr>;
       (ev2, s2, need_schedule) \<leftarrow> event_send_loop (queues s (SuspendQ (ev_ref ev))) ev1 s False;
       s3 \<leftarrow> (if need_schedule then rt_schedule s2 else Some s2);
       Some (RT_EOK, ev2, s3) } }"

text \<open>The value that is stored through \<open>recved\<close>, when there is one, is the second result.\<close>

definition rt_event_recv ::
    "rt_event \<Rightarrow> u32 \<Rightarrow> u8 \<Rightarrow> u32 \<Rightarrow> kern \<Rightarrow> (kret \<times> u32 option \<times> rt_event \<times> kern) option" where
  "rt_event_recv ev st opt timeout s = do {
     RT_DEBUG_IN_THREAD_CONTEXT s;
     RT_ASSERT (rt_object_get_type (ev_ref ev) s = RT_Object_Class_Event);
     if st = 0 then Some (Returned (- RT_ERROR), None, ev, s)
     else do {
       t \<leftarrow> rt_thread_self s;
       let s1 = upd_thr t (\<lambda>th. th\<lparr>th_error := RT_EOK\<rparr>) s;
       RT_ASSERT (opt AND RT_EVENT_FLAG_AND \<noteq> 0 \<or> opt AND RT_EVENT_FLAG_OR \<noteq> 0);
       let status = (if opt AND RT_EVENT_FLAG_AND \<noteq> 0 then ev_set ev AND st = st
                     else ev_set ev AND st \<noteq> 0);
       if status then
         Some (Returned (th_error (thr s1 t)), Some (ev_set ev AND st),
           (if opt AND RT_EVENT_FLAG_CLEAR \<noteq> 0 then ev\<lparr>ev_set := ev_set ev AND NOT st\<rparr> else ev), s1)
       else if timeout = 0 then
         (let s2 = upd_thr t (\<lambda>th. th\<lparr>th_error := - RT_ETIMEOUT\<rparr>) s1
          in Some (Returned (th_error (thr s2 t)), None, ev, s2))
       else do {
         let s2 = upd_thr t (\<lambda>th. th\<lparr>th_event_set := st, th_event_info := opt\<rparr>) s1;
         s3 \<leftarrow> ipc_block (SuspendQ (ev_ref ev)) t (obj_flag (objs s2 (ev_ref ev))) timeout s2;
         Some (Parked t, None, ev, s3) } } }"

definition rt_event_recv_wake :: "tid \<Rightarrow> kern \<Rightarrow> rt_err_t \<times> u32 option" where
  "rt_event_recv_wake t s =
     (if th_error (thr s t) \<noteq> RT_EOK then (th_error (thr s t), None)
      else (th_error (thr s t), Some (th_event_set (thr s t))))"

definition rt_event_control :: "rt_event \<Rightarrow> nat \<Rightarrow> kern \<Rightarrow> (rt_err_t \<times> rt_event \<times> kern) option" where
  "rt_event_control ev cmd s = do {
     RT_ASSERT (rt_object_get_type (ev_ref ev) s = RT_Object_Class_Event);
     if cmd = RT_IPC_CMD_RESET then do {
       s1 \<leftarrow> rt_ipc_list_resume_all (SuspendQ (ev_ref ev)) s;
       s2 \<leftarrow> rt_schedule s1;
       Some (RT_EOK, ev\<lparr>ev_set := 0\<rparr>, s2) }
     else Some (- RT_ERROR, ev, s) }"

section \<open>What a send amounts to\<close>

definition ev_match :: "rt_thread \<Rightarrow> u32 \<Rightarrow> bool" where
  "ev_match th st \<longleftrightarrow>
     (if th_event_info th AND RT_EVENT_FLAG_AND \<noteq> 0 then th_event_set th AND st = th_event_set th
      else th_event_info th AND RT_EVENT_FLAG_OR \<noteq> 0 \<and> th_event_set th AND st \<noteq> 0)"

definition ev_left :: "rt_thread \<Rightarrow> u32 \<Rightarrow> u32" where
  "ev_left th st = (if th_event_info th AND RT_EVENT_FLAG_CLEAR \<noteq> 0
     then st AND NOT (th_event_set th AND st) else st)"

text \<open>The threads released, each with the bits it receives, and the bits that remain.\<close>

fun ev_scan :: "(tid \<Rightarrow> rt_thread) \<Rightarrow> tid list \<Rightarrow> u32 \<Rightarrow> (tid \<times> u32) list \<times> u32" where
  "ev_scan f [] st = ([], st)"
| "ev_scan f (t # ts) st =
     (if ev_match (f t) st
      then ((t, th_event_set (f t) AND st) # fst (ev_scan f ts (ev_left (f t) st)),
            snd (ev_scan f ts (ev_left (f t) st)))
      else ev_scan f ts st)"

definition granted :: "u32 \<Rightarrow> rt_thread \<Rightarrow> rt_thread" where
  "granted g th = readied (th\<lparr>th_event_set := g\<rparr>)"

lemma ev_scan_cong: "(\<And>t. t \<in> set ts \<Longrightarrow> f t = g t) \<Longrightarrow> ev_scan f ts st = ev_scan g ts st"
  by (induction ts arbitrary: st) auto

lemma ev_scan_subset: "fst ` set (fst (ev_scan f ts st)) \<subseteq> set ts"
proof (induction ts arbitrary: st)
  case (Cons t ts)
  then show ?case using Cons [of st] Cons [of "ev_left (f t) st"] by auto
qed simp

lemma ev_scan_distinct: "distinct ts \<Longrightarrow> distinct (map fst (fst (ev_scan f ts st)))"
proof (induction ts arbitrary: st)
  case (Cons t ts)
  have "t \<notin> fst ` set (fst (ev_scan f ts st'))" for st' using ev_scan_subset [of f ts st'] Cons.prems by auto
  then show ?case using Cons by auto
qed simp

lemma and_subset_trans: "a AND b = (a :: u32) \<Longrightarrow> b AND c = b \<Longrightarrow> a AND c = a"
  by (metis and.assoc)

lemma ev_left_shrinks: "ev_left th st AND st = ev_left th st"
  by (simp add: ev_left_def and.commute and.left_commute flip: and.assoc)

lemma ev_scan_shrinks: "snd (ev_scan f ts st) AND st = snd (ev_scan f ts st)"
proof (induction ts arbitrary: st)
  case (Cons t ts)
  show ?case using Cons [of st] and_subset_trans [OF Cons [of "ev_left (f t) st"] ev_left_shrinks]
    by simp
qed simp

lemma ev_match_mono:
  assumes "\<not> ev_match th b" "a AND b = a"
  shows "\<not> ev_match th a"
proof
  assume m: "ev_match th a"
  have e: "th_event_set th AND a = (th_event_set th AND b) AND a"
    using assms(2) by (metis and.assoc and.commute)
  show False
  proof (cases "th_event_info th AND RT_EVENT_FLAG_AND \<noteq> 0")
    case True
    then have "th_event_set th AND a = th_event_set th" using m by (simp add: ev_match_def)
    then have "th_event_set th AND b = th_event_set th" using and_subset_trans assms(2) by blast
    then show False using assms(1) True by (simp add: ev_match_def)
  next
    case False
    then have "th_event_set th AND a \<noteq> 0" "th_event_info th AND RT_EVENT_FLAG_OR \<noteq> 0"
      using m by (simp_all add: ev_match_def)
    then have "th_event_set th AND b \<noteq> 0" using e by auto
    then show False using assms(1) False \<open>th_event_info th AND RT_EVENT_FLAG_OR \<noteq> 0\<close>
      by (simp add: ev_match_def)
  qed
qed

text \<open>A thread that is not released is not satisfied by the bits that remain.\<close>

lemma ev_scan_rest:
  "t \<in> set ts \<Longrightarrow> t \<notin> fst ` set (fst (ev_scan f ts st)) \<Longrightarrow> \<not> ev_match (f t) (snd (ev_scan f ts st))"
proof (induction ts arbitrary: st)
  case (Cons u ts)
  show ?case
  proof (cases "ev_match (f u) st")
    case True
    then show ?thesis using Cons by auto
  next
    case False
    show ?thesis
    proof (cases "t \<in> set ts")
      case True
      then show ?thesis using Cons False by simp
    next
      case nt: False
      then have "t = u" using Cons.prems(1) by simp
      then show ?thesis using False ev_match_mono [OF _ ev_scan_shrinks] by simp
    qed
  qed
qed simp

section \<open>The effect of the loop\<close>

lemma granted_simps [simp]:
  "th_error (granted g th) = th_error th" "th_stat (granted g th) AND 15 = 1"
  "th_current_priority (granted g th) = th_current_priority th" "th_event_set (granted g th) = g"
  by (simp_all add: granted_def)

text \<open>One released thread: its event set narrowed to what it receives, then resumed.\<close>

definition release_with :: "tid \<Rightarrow> u32 \<Rightarrow> kern \<Rightarrow> kern" where
  "release_with t g s = unpark t (upd_thr t (\<lambda>th. th\<lparr>th_event_set := g\<rparr>) s)"

lemma send_loop_Cons:
  assumes "kinv s" "t \<in> set (queues s q)" "head_stat q = RT_THREAD_SUSPEND"
  shows "event_send_loop (t # ts) ev s b =
    (if ev_match (thr s t) (ev_set ev)
     then event_send_loop ts (ev\<lparr>ev_set := ev_left (thr s t) (ev_set ev)\<rparr>)
            (release_with t (th_event_set (thr s t) AND ev_set ev) s) True
     else event_send_loop ts ev s b)"
proof (cases "ev_match (thr s t) (ev_set ev)")
  case False
  then show ?thesis by (auto simp: ev_match_def Let_def split: if_splits)
next
  case True
  let ?g = "th_event_set (thr s t) AND ev_set ev"
  let ?s = "upd_thr t (\<lambda>th. th\<lparr>th_event_set := ?g\<rparr>) s"
  have w: "is_thread s t" "thread_stat s t = RT_THREAD_SUSPEND"
    using tinv_linked [OF kinvD(3) [OF assms(1)] assms(2)] assms(3) by simp_all
  have "kinv ?s" by (rule kinv_frame [OF assms(1)]) (simp_all add: th_core_def)
  then have r: "rt_thread_resume t ?s = Some (RT_EOK, unpark t ?s)"
    by (rule resume_eq) (use w in \<open>simp_all add: rt_object_get_type_def\<close>)
  have same: "?s = s" if "?g = th_event_set (thr s t)" using that by simp
  show ?thesis
  proof (cases "th_event_info (thr s t) AND RT_EVENT_FLAG_AND \<noteq> 0")
    case a: True
    then have g: "?g = th_event_set (thr s t)" using True by (simp add: ev_match_def)
    have r': "rt_thread_resume t s = Some (RT_EOK, unpark t s)" using r same [OF g] by simp
    show ?thesis using True a g r' same [OF g]
      by (simp add: Let_def release_with_def ev_left_def)
  next
    case False
    then have "?g \<noteq> 0" "th_event_info (thr s t) AND RT_EVENT_FLAG_OR \<noteq> 0"
      using True by (simp_all add: ev_match_def)
    then show ?thesis using True False r by (simp add: Let_def release_with_def ev_left_def)
  qed
qed

lemma release_with_effect:
  assumes "kinv s" "t \<in> set (queues s q)" "head_stat q = RT_THREAD_SUSPEND"
  shows "kinv (release_with t g s)" "queues (release_with t g s) q = removeAll t (queues s q)"
    "\<And>u. u \<noteq> t \<Longrightarrow> thr (release_with t g s) u = thr s u"
    "thr (release_with t g s) t = granted g (thr s t)"
    "\<And>n. objs (release_with t g s) (Obj n) = objs s (Obj n)"
    "t \<in> set (queues (release_with t g s) (ReadyQ (unat (th_current_priority (thr s t)))))"
    "current (release_with t g s) = current s" "lock_nest (release_with t g s) = lock_nest s"
    "irq_nest (release_with t g s) = irq_nest s"
proof -
  let ?s = "upd_thr t (\<lambda>th. th\<lparr>th_event_set := g\<rparr>) s"
  have w: "is_thread s t" "thread_stat s t = RT_THREAD_SUSPEND"
    using tinv_linked [OF kinvD(3) [OF assms(1)] assms(2)] assms(3) by simp_all
  have "kinv ?s" by (rule kinv_frame [OF assms(1)]) (simp_all add: th_core_def)
  then show "kinv (release_with t g s)" unfolding release_with_def
    by (rule unpark_kinv) (use w in \<open>simp_all add: rt_object_get_type_def\<close>)
  have "q \<noteq> ReadyQ p" for p using assms(3) by auto
  then show "queues (release_with t g s) q = removeAll t (queues s q)"
    by (simp add: release_with_def)
qed (simp_all add: release_with_def granted_def readied_def)

lemma send_loop_effect:
  assumes "kinv s" "distinct ts" "set ts \<subseteq> set (queues s q)" "head_stat q = RT_THREAD_SUSPEND"
  shows "\<exists>s'. event_send_loop ts ev s b =
      Some (ev\<lparr>ev_set := snd (ev_scan (thr s) ts (ev_set ev))\<rparr>, s', b \<or> fst (ev_scan (thr s) ts (ev_set ev)) \<noteq> []) \<and>
    kinv s' \<and>
    queues s' q = filter (\<lambda>t. t \<notin> fst ` set (fst (ev_scan (thr s) ts (ev_set ev)))) (queues s q) \<and>
    (\<forall>u. u \<notin> fst ` set (fst (ev_scan (thr s) ts (ev_set ev))) \<longrightarrow> thr s' u = thr s u) \<and>
    (\<forall>t g. (t, g) \<in> set (fst (ev_scan (thr s) ts (ev_set ev))) \<longrightarrow> thr s' t = granted g (thr s t)) \<and>
    (\<forall>n. objs s' (Obj n) = objs s (Obj n)) \<and> current s' = current s \<and>
    lock_nest s' = lock_nest s \<and> irq_nest s' = irq_nest s"
  using assms(1-3)
proof (induction ts arbitrary: ev s b)
  case (Cons t ts)
  have t: "t \<in> set (queues s q)" using Cons.prems by simp
  note step = send_loop_Cons [OF Cons.prems(1) t assms(4)]
  show ?case
  proof (cases "ev_match (thr s t) (ev_set ev)")
    case False
    have "set ts \<subseteq> set (queues s q)" "distinct ts" using Cons.prems by simp_all
    from Cons.IH [OF Cons.prems(1) this(2,1), of ev b] show ?thesis
      unfolding step using False by simp
  next
    case True
    let ?g = "th_event_set (thr s t) AND ev_set ev" and ?l = "ev_left (thr s t) (ev_set ev)"
    let ?s = "release_with t ?g s" and ?ev = "ev\<lparr>ev_set := ev_left (thr s t) (ev_set ev)\<rparr>"
    note re = release_with_effect [OF Cons.prems(1) t assms(4), where g = ?g]
    have "set ts \<subseteq> set (queues ?s q)" "distinct ts" using Cons.prems(2,3) re(2) by auto
    note IH = Cons.IH [OF re(1) this(2,1), of ?ev True]
    have nt: "t \<notin> set ts" using Cons.prems(2) by simp
    have sc: "ev_scan (thr ?s) ts ?l = ev_scan (thr s) ts ?l"
      by (rule ev_scan_cong) (use re(3) nt in metis)
    have sub: "t \<notin> fst ` set (fst (ev_scan (thr s) ts ?l))" using ev_scan_subset [of "thr s" ts ?l] nt by blast
    from IH obtain s' where s': "event_send_loop ts ?ev ?s True =
        Some (ev\<lparr>ev_set := snd (ev_scan (thr s) ts ?l)\<rparr>, s', True)" "kinv s'"
      "queues s' q = filter (\<lambda>t. t \<notin> fst ` set (fst (ev_scan (thr s) ts ?l))) (queues ?s q)"
      "\<And>u. u \<notin> fst ` set (fst (ev_scan (thr s) ts ?l)) \<Longrightarrow> thr s' u = thr ?s u"
      "\<And>t g. (t, g) \<in> set (fst (ev_scan (thr s) ts ?l)) \<Longrightarrow> thr s' t = granted g (thr ?s t)"
      "\<And>n. objs s' (Obj n) = objs ?s (Obj n)" "current s' = current ?s" "lock_nest s' = lock_nest ?s"
      "irq_nest s' = irq_nest ?s"
      by (auto simp: sc)
    have q': "queues s' q = filter (\<lambda>u. u \<noteq> t \<and> u \<notin> fst ` set (fst (ev_scan (thr s) ts ?l))) (queues s q)"
      unfolding s'(3) re(2) removeAll_filter_not_eq by (auto intro: filter_cong)
    have "thr s' u = thr s u" if "u \<noteq> t" "u \<notin> fst ` set (fst (ev_scan (thr s) ts ?l))" for u
      using s'(4) [OF that(2)] re(3) [OF that(1)] by simp
    moreover have "thr s' u = granted g (thr s u)"
      if "(u, g) \<in> set ((t, ?g) # fst (ev_scan (thr s) ts ?l))" for u g
    proof (cases "u = t")
      case True
      then have "g = ?g" using that sub by force
      then show ?thesis using True s'(4) [OF sub] re(4) by simp
    next
      case False
      then have "(u, g) \<in> set (fst (ev_scan (thr s) ts ?l))" using that by simp
      then show ?thesis using s'(5) re(3) [OF False] by simp
    qed
    ultimately show ?thesis unfolding step using True s'(1,2,6-9) q' re(5,7-9) by simp
  qed
qed simp

section \<open>The invariant\<close>

definition event_inv :: "rt_event \<Rightarrow> kern \<Rightarrow> bool" where
  "event_inv ev s \<longleftrightarrow> kinv s \<and> ipc_header (ev_ref ev) RT_Object_Class_Event s \<and>
     waiters_clean (SuspendQ (ev_ref ev)) s \<and>
     (\<forall>t \<in> set (queues s (SuspendQ (ev_ref ev))). \<not> ev_match (thr s t) (ev_set ev))"

definition event_env :: "rt_event \<Rightarrow> kern \<Rightarrow> kern \<Rightarrow> bool" where
  "event_env ev s s' \<longleftrightarrow> env_step (ev_ref ev) (SuspendQ (ev_ref ev)) s s' \<and>
     (\<forall>t \<in> set (queues s' (SuspendQ (ev_ref ev))).
        th_event_set (thr s' t) = th_event_set (thr s t) \<and> th_event_info (thr s' t) = th_event_info (thr s t))"

inductive event_step :: "rt_event \<times> kern \<Rightarrow> rt_event \<times> kern \<Rightarrow> bool" where
  send: "rt_event_send ev st s = Some (e, ev', s') \<Longrightarrow> event_step (ev, s) (ev', s')"
| recv: "runs s t \<Longrightarrow> time_ok timeout \<Longrightarrow> rt_event_recv ev st opt timeout s = Some (k, r, ev', s') \<Longrightarrow>
    event_step (ev, s) (ev', s')"
| control: "rt_event_control ev cmd s = Some (e, ev', s') \<Longrightarrow> event_step (ev, s) (ev', s')"
| env: "event_env ev s s' \<Longrightarrow> event_step (ev, s) (ev, s')"

inductive_cases event_stepE: "event_step (ev, s) (ev', s')"

lemma ev_match_cong:
  "th_event_set a = th_event_set b \<Longrightarrow> th_event_info a = th_event_info b \<Longrightarrow> ev_match a st = ev_match b st"
  by (simp add: ev_match_def)

lemma event_send_cases:
  assumes "event_inv ev s" "st \<noteq> 0" "rt_event_send ev st s = Some (e, ev', s')"
  obtains s1 gs r where "ev_scan (thr s) (queues s (SuspendQ (ev_ref ev))) (ev_set ev OR st) = (gs, r)"
    "e = RT_EOK" "ev' = ev\<lparr>ev_set := r\<rparr>" "kinv s1"
    "queues s1 (SuspendQ (ev_ref ev)) = filter (\<lambda>t. t \<notin> fst ` set gs) (queues s (SuspendQ (ev_ref ev)))"
    "\<And>u. u \<notin> fst ` set gs \<Longrightarrow> thr s1 u = thr s u"
    "\<And>t g. (t, g) \<in> set gs \<Longrightarrow> thr s1 t = granted g (thr s t)"
    "\<And>n. objs s1 (Obj n) = objs s (Obj n)"
    "if gs = [] then s' = s1 else rt_schedule s1 = Some s'"
proof -
  let ?q = "SuspendQ (ev_ref ev)" and ?ev = "ev\<lparr>ev_set := ev_set ev OR st\<rparr>"
  have k: "kinv s" using assms(1) by (simp add: event_inv_def)
  have d: "distinct (queues s ?q)" using kinvD(1) [OF k] by (simp add: lists_ok_def)
  obtain gs r where sc: "ev_scan (thr s) (queues s ?q) (ev_set ev OR st) = (gs, r)" by fastforce
  from send_loop_effect [OF k d, of ?q ?ev False] obtain s1 where s1:
    "event_send_loop (queues s ?q) ?ev s False = Some (ev\<lparr>ev_set := r\<rparr>, s1, gs \<noteq> [])" "kinv s1"
    "queues s1 ?q = filter (\<lambda>t. t \<notin> fst ` set gs) (queues s ?q)"
    "\<And>u. u \<notin> fst ` set gs \<Longrightarrow> thr s1 u = thr s u"
    "\<And>t g. (t, g) \<in> set gs \<Longrightarrow> thr s1 t = granted g (thr s t)"
    "\<And>n. objs s1 (Obj n) = objs s (Obj n)"
    by (auto simp: sc)
  have "e = RT_EOK \<and> ev' = ev\<lparr>ev_set := r\<rparr> \<and> (if gs = [] then s' = s1 else rt_schedule s1 = Some s')"
    using assms(2,3) s1(1) by (cases "gs = []") (auto simp: rt_event_send_def Some_bind_iff)
  then show ?thesis using that [OF sc _ _ s1(2-6)] by blast
qed

lemma event_send_inv:
  assumes "event_inv ev s" "rt_event_send ev st s = Some (e, ev', s')"
  shows "event_inv ev' s'"
proof (cases "st = 0")
  case True
  then show ?thesis using assms by (auto simp: rt_event_send_def Some_bind_iff)
next
  case False
  let ?q = "SuspendQ (ev_ref ev)"
  obtain s1 gs r where c: "ev_scan (thr s) (queues s ?q) (ev_set ev OR st) = (gs, r)"
    "e = RT_EOK" "ev' = ev\<lparr>ev_set := r\<rparr>" "kinv s1"
    "queues s1 ?q = filter (\<lambda>t. t \<notin> fst ` set gs) (queues s ?q)"
    "\<And>u. u \<notin> fst ` set gs \<Longrightarrow> thr s1 u = thr s u"
    "\<And>t g. (t, g) \<in> set gs \<Longrightarrow> thr s1 t = granted g (thr s t)"
    "\<And>n. objs s1 (Obj n) = objs s (Obj n)"
    "if gs = [] then s' = s1 else rt_schedule s1 = Some s'"
    by (rule event_send_cases [OF assms(1) False assms(2)]) (rule that; assumption)
  have k': "kinv s'" and sm: "queues s' = queues s1" "thr s' = thr s1" "objs s' = objs s1"
    using c(4,9) schedule_kinv schedule_same by (auto split: if_splits)
  obtain n where n: "ev_ref ev = Obj n" using assms(1) by (auto simp: event_inv_def ipc_header_def)
  have "\<not> ev_match (thr s' t) r \<and> th_error (thr s' t) = RT_EOK" if "t \<in> set (queues s' ?q)" for t
  proof -
    have t: "t \<in> set (queues s ?q)" "t \<notin> fst ` set gs" using that c(5) sm by auto
    then have "\<not> ev_match (thr s t) r" using ev_scan_rest [of t _ "thr s" "ev_set ev OR st"] c(1) by force
    then show ?thesis using c(6) [OF t(2)] sm t(1) assms(1) by (simp add: event_inv_def waiters_clean_def)
  qed
  then show ?thesis using k' c(3) sm c(8) n assms(1)
    by (simp add: event_inv_def waiters_clean_def ipc_header_def rt_object_get_type_def)
qed

lemma event_recv_cases:
  assumes "rt_event_recv ev st opt timeout s = Some (k, r, ev', s')"
  obtains (none) "st = 0" "k = Returned (- RT_ERROR)" "r = None" "ev' = ev" "s' = s"
  | (met) t where "current s = Some t" "k = Returned RT_EOK" "r = Some (ev_set ev AND st)"
      "ev' = ev\<lparr>ev_set := ev_set ev'\<rparr>" "ev_set ev' AND ev_set ev = ev_set ev'"
      "s' = upd_thr t (\<lambda>th. th\<lparr>th_error := RT_EOK\<rparr>) s"
  | (empty) t where "current s = Some t" "timeout = 0" "k = Returned (- RT_ETIMEOUT)" "r = None" "ev' = ev"
      "s' = upd_thr t (\<lambda>th. th\<lparr>th_error := - RT_ETIMEOUT\<rparr>) s"
  | (wait) t where "current s = Some t" "timeout \<noteq> 0" "k = Parked t" "r = None" "ev' = ev"
      "\<not> ev_match ((thr s t)\<lparr>th_event_set := st, th_event_info := opt\<rparr>) (ev_set ev)"
      "ipc_block (SuspendQ (ev_ref ev)) t (obj_flag (objs s (ev_ref ev))) timeout
        (upd_thr t (\<lambda>th. th\<lparr>th_error := RT_EOK, th_event_set := st, th_event_info := opt\<rparr>) s) = Some s'"
proof (cases "st = 0")
  case True
  then show ?thesis using none assms by (auto simp: rt_event_recv_def Some_bind_iff)
next
  case nz: False
  obtain t where t: "current s = Some t" and o: "opt AND RT_EVENT_FLAG_AND \<noteq> 0 \<or> opt AND RT_EVENT_FLAG_OR \<noteq> 0"
    using assms nz by (auto simp: rt_event_recv_def Some_bind_iff Let_def)
  let ?m = "if opt AND RT_EVENT_FLAG_AND \<noteq> 0 then ev_set ev AND st = st else ev_set ev AND st \<noteq> 0"
  have m: "ev_match ((thr s t)\<lparr>th_event_set := st, th_event_info := opt\<rparr>) (ev_set ev) = ?m"
    using o by (auto simp: ev_match_def and.commute)
  have sh: "(ev_set ev AND NOT st) AND ev_set ev = ev_set ev AND NOT st" for st
    by (metis and.assoc and.commute and.idem)
  consider "?m" | "\<not> ?m" "timeout = 0" | "\<not> ?m" "timeout \<noteq> 0" by blast
  then show ?thesis
  proof cases
    case 1
    then have "k = Returned RT_EOK \<and> r = Some (ev_set ev AND st) \<and>
        ev' = (if opt AND RT_EVENT_FLAG_CLEAR \<noteq> 0 then ev\<lparr>ev_set := ev_set ev AND NOT st\<rparr> else ev) \<and>
        s' = upd_thr t (\<lambda>th. th\<lparr>th_error := RT_EOK\<rparr>) s"
      using assms nz t by (auto simp: rt_event_recv_def Some_bind_iff Let_def split: if_split_asm)
    then show ?thesis using met [OF t] sh by (auto split: if_splits)
  next
    case 2
    then have "k = Returned (- RT_ETIMEOUT) \<and> r = None \<and> ev' = ev \<and>
        s' = upd_thr t (\<lambda>th. th\<lparr>th_error := - RT_ETIMEOUT\<rparr>) s"
      using assms nz t by (auto simp: rt_event_recv_def Some_bind_iff Let_def split: if_split_asm)
    then show ?thesis using empty [OF t 2(2)] by blast
  next
    case 3
    then have "k = Parked t \<and> r = None \<and> ev' = ev \<and>
        ipc_block (SuspendQ (ev_ref ev)) t (obj_flag (objs s (ev_ref ev))) timeout
        (upd_thr t (\<lambda>th. th\<lparr>th_error := RT_EOK, th_event_set := st, th_event_info := opt\<rparr>) s) = Some s'"
      using assms nz t by (auto simp: rt_event_recv_def Some_bind_iff Let_def split: if_split_asm)
    then show ?thesis using wait [OF t 3(2)] m 3(1) by blast
  qed
qed

lemma event_recv_inv:
  assumes "event_inv ev s" "runs s t" "time_ok timeout" "rt_event_recv ev st opt timeout s = Some (k, r, ev', s')"
  shows "event_inv ev' s'"
proof -
  let ?q = "SuspendQ (ev_ref ev)"
  have h: "ipc_header (ev_ref ev) RT_Object_Class_Event s" and w: "waiters_clean ?q s" and k: "kinv s"
    and nm: "\<And>u. u \<in> set (queues s ?q) \<Longrightarrow> \<not> ev_match (thr s u) (ev_set ev)"
    using assms(1) by (simp_all add: event_inv_def)
  have f: "obj_flag (objs s (ev_ref ev)) \<in> {RT_IPC_FLAG_FIFO, RT_IPC_FLAG_PRIO}"
    using h by (simp add: ipc_header_def)
  have nq: "t \<notin> set (queues s ?q)"
    using tinv_linked(2) [OF kinvD(3) [OF k], of t ?q] assms(2) by auto
  have err: "event_inv ev'' (upd_thr t (\<lambda>th. th\<lparr>th_error := x\<rparr>) s)"
    if "ev'' = ev\<lparr>ev_set := ev_set ev''\<rparr>" "ev_set ev'' AND ev_set ev = ev_set ev''" for x ev''
  proof -
    have r: "ev_ref ev'' = ev_ref ev" using that(1) by (metis rt_event.select_convs(1) rt_event.surjective rt_event.update_convs(2))
    have "\<not> ev_match (thr s u) (ev_set ev'')" if "u \<in> set (queues s ?q)" for u
      using ev_match_mono [OF nm [OF that] \<open>ev_set ev'' AND ev_set ev = ev_set ev''\<close>] .
    then show ?thesis using set_error_kinv [OF k] h w nq r
      by (auto simp: event_inv_def ipc_header_def waiters_clean_def rt_object_get_type_def)
  qed
  show ?thesis using assms(4)
  proof (cases rule: event_recv_cases)
    case none
    then show ?thesis using assms(1) by simp
  next
    case (met u)
    then show ?thesis using err [OF met(4,5)] assms(2) by simp
  next
    case (empty u)
    then show ?thesis using err [of ev] assms(2) by simp
  next
    case (wait u)
    let ?s = "upd_thr u (\<lambda>th. th\<lparr>th_error := RT_EOK, th_event_set := st, th_event_info := opt\<rparr>) s"
    have u: "u = t" using wait(1) assms(2) by simp
    have k1: "kinv ?s" by (rule kinv_frame [OF k]) (simp_all add: th_core_def)
    have r: "runs ?s u" using assms(2) u by (simp add: rt_object_get_type_def)
    have hq: "head_stat ?q = RT_THREAD_SUSPEND" by simp
    note be = block_effect [OF k1 r f assms(3) hq wait(7)]
    have "ipc_header (ev_ref ev) RT_Object_Class_Event s'"
      using h be(10) by (auto simp: ipc_header_def rt_object_get_type_def)
    moreover have "th_error (thr s' v) = RT_EOK \<and> \<not> ev_match (thr s' v) (ev_set ev)"
      if "v \<in> set (queues s' ?q)" for v
    proof (cases "v = t")
      case True
      then show ?thesis using be(5-7) u wait(6)
        ev_match_cong [of "thr s' t" "(thr s t)\<lparr>th_event_set := st, th_event_info := opt\<rparr>" "ev_set ev"]
        by simp
    next
      case False
      then show ?thesis using w be(2) be(8) [of v] u that nm [of v] by (auto simp: waiters_clean_def)
    qed
    ultimately show ?thesis using be(1) wait(5) by (simp add: event_inv_def waiters_clean_def)
  qed
qed

lemma event_control_inv:
  assumes "event_inv ev s" "rt_event_control ev cmd s = Some (e, ev', s')"
  shows "event_inv ev' s'"
proof (cases "cmd = RT_IPC_CMD_RESET")
  case False
  then show ?thesis using assms by (auto simp: rt_event_control_def Some_bind_iff)
next
  case True
  let ?q = "SuspendQ (ev_ref ev)"
  have k: "kinv s" and h: "ipc_header (ev_ref ev) RT_Object_Class_Event s"
    using assms(1) by (simp_all add: event_inv_def)
  obtain s1 where s1: "rt_ipc_list_resume_all ?q s = Some s1" "kinv s1" "woken failed (queues s ?q) s s1"
    "queues s1 ?q = []"
    using resume_all_eq [OF k, of ?q] by auto
  have sc: "rt_schedule s1 = Some s'" and ev': "ev' = ev\<lparr>ev_set := 0\<rparr>"
    using assms(2) True s1(1) by (auto simp: rt_event_control_def Some_bind_iff)
  note sm = schedule_same [OF sc]
  have "ipc_header (ev_ref ev) RT_Object_Class_Event s'"
    using woken_header [OF s1(3) h] sm by (simp add: ipc_header_def rt_object_get_type_def)
  then show ?thesis using schedule_kinv [OF s1(2) sc] ev' s1(4) sm
    by (simp add: event_inv_def waiters_clean_def)
qed

lemma event_env_inv:
  assumes "event_inv ev s" "event_env ev s s'"
  shows "event_inv ev s'"
proof -
  have e: "env_step (ev_ref ev) (SuspendQ (ev_ref ev)) s s'" using assms(2) by (simp add: event_env_def)
  have "\<not> ev_match (thr s' t) (ev_set ev)" if "t \<in> set (queues s' (SuspendQ (ev_ref ev)))" for t
    using that assms e ev_match_cong [of "thr s' t" "thr s t" "ev_set ev"]
    by (auto simp: event_inv_def event_env_def env_step_def)
  then show ?thesis using assms(1) e ipc_header_same [of "ev_ref ev" _ s s']
    by (auto simp: event_inv_def env_step_def waiters_clean_def subset_iff)
qed

lemma event_step_inv: "event_step (ev, s) (ev', s') \<Longrightarrow> event_inv ev s \<Longrightarrow> event_inv ev' s'"
  by (erule event_stepE) (blast intro: event_send_inv event_recv_inv event_control_inv event_env_inv)+

end
