(* ===== verification/Lock_Props.thy ===== *)
theory Lock_Props
  imports Ipc_Props Mutex Event
begin

text \<open>
  The properties of the mutex (exclusion, refinement of the abstract lock, priority inheritance) and of
  the event flags (no satisfied thread waits, the exact effect of a send).
\<close>

section \<open>Mutexes\<close>

definition demo_mutex :: "tid option \<Rightarrow> u8 \<Rightarrow> rt_mutex" where
  "demo_mutex ow n = \<lparr>mx_ref = Obj 12, mx_value = (if ow = None then 1 else 0),
     mx_original_priority = (if ow = None then 0xff else 10), mx_hold = n, mx_owner = ow\<rparr>"

lemma demo_mutex_inv: "mutex_inv (demo_mutex None 0) demo" "0 < n \<Longrightarrow> mutex_inv (demo_mutex (Some 1) n) demo"
    "mutex_inv (demo_mutex (Some 1) 1) (demo_wait (SuspendQ (Obj 12)))"
  using demo_kinv demo_wait_kinv [of "SuspendQ (Obj 12)"]
  by (simp_all add: mutex_inv_def ipc_header_def waiters_clean_def demo_mutex_def rt_object_get_type_def)

lemma demo_runs: "runs demo 1" "runs (demo_wait q) 1"
  by (simp_all add: rt_object_get_type_def)

lemma demo_error: "upd_thr 1 (\<lambda>th. th\<lparr>th_error := 0\<rparr>) demo = demo"
proof -
  have "(demo_thread 10 RT_THREAD_READY)\<lparr>th_error := 0\<rparr> = demo_thread 10 RT_THREAD_READY"
    by (simp add: demo_thread_def set_prio_attr_def Let_def)
  then have "(thr demo)(1 := (thr demo 1)\<lparr>th_error := 0\<rparr>) = thr demo" by (auto simp: fun_eq_iff)
  then show ?thesis by (metis kern.surjective kern.update_convs(3))
qed

lemma demo_mutex_take: "rt_mutex_take (demo_mutex None 0) 0 demo = Some (Returned RT_EOK, demo_mutex (Some 1) 1, demo)"
  using demo_error by (simp add: rt_mutex_take_def rt_mutex_take_again_def demo_mutex_def rt_object_get_type_def
      RT_DEBUG_IN_THREAD_CONTEXT_def RT_DEBUG_NOT_IN_INTERRUPT_def)

text \<open>C8: However takes and releases of a mutex interleave with each other and with the rest of the
  kernel, the mutex is either free, with value 1, no owner, recursion count 0 and nobody waiting, or it
  has one owner, value 0 and a positive count, and the owner is not among the waiting threads.\<close>

theorem mutex_exclusive:
  assumes "mutex_step\<^sup>*\<^sup>* (m, s) (m', s')" "mutex_inv m s"
  shows "kinv s' \<and> (case mx_owner m' of
      None \<Rightarrow> mx_value m' = 1 \<and> mx_hold m' = 0 \<and> queues s' (SuspendQ (mx_ref m')) = []
    | Some u \<Rightarrow> mx_value m' = 0 \<and> mx_hold m' > 0 \<and> u \<notin> set (queues s' (SuspendQ (mx_ref m'))))"
proof -
  have "mutex_inv (fst y) (snd y)" if "mutex_step\<^sup>*\<^sup>* x y" "mutex_inv (fst x) (snd x)" for x y
    using that
  proof (induction rule: rtranclp_induct)
    case (step y z)
    then show ?case using mutex_step_inv [of "fst y" "snd y" "fst z" "snd z"] by simp
  qed simp
  from this [OF assms(1)] assms(2) show ?thesis by (simp add: mutex_inv_def)
qed

theorem mutex_exclusive_witness:
  "kinv demo \<and> mx_owner (demo_mutex (Some 1) 1) = Some 1 \<and> mx_hold (demo_mutex (Some 1) 1) > 0 \<and>
    1 \<notin> set (queues demo (SuspendQ (Obj 12)))"
proof -
  have "mutex_step (demo_mutex None 0, demo) (demo_mutex (Some 1) 1, demo)"
    by (rule mutex_step.take [OF demo_runs(1) _ _ demo_mutex_take]) (simp_all add: demo_mutex_def)
  then have "mutex_step\<^sup>*\<^sup>* (demo_mutex None 0, demo) (demo_mutex (Some 1) 1, demo)" by simp
  from mutex_exclusive [OF this demo_mutex_inv(1)] show ?thesis by (simp add: demo_mutex_def)
qed

text \<open>C9: Seen through the abstract lock (free, or held by a thread some number of times), a take and a
  release by the running thread do what the lock does, and report success exactly when it allows the
  operation: a take needs the lock free or held by the caller, a release needs the caller to hold it,
  drops one level, and with the last level passes the lock to the first waiting thread if there is one.\<close>

theorem mutex_refines_lock:
  assumes "mutex_inv m s" "runs s t" "mx_hold m < 0xff"
    "rt_mutex_take m time s = Some (k, m1, s1)" "rt_mutex_release m s = Some (e, m2, s2)"
  shows "(case lock_take t (mutex_abs m) of
        Some l \<Rightarrow> k = Returned RT_EOK \<and> mutex_abs m1 = l
      | None \<Rightarrow> k \<noteq> Returned RT_EOK \<and> m1 = m) \<and>
    (case lock_release t (queues s (SuspendQ (mx_ref m))) (mutex_abs m) of
        Some l \<Rightarrow> e = RT_EOK \<and> mutex_abs m2 = l
      | None \<Rightarrow> e = - RT_ERROR \<and> m2 = m)"
  using mutex_take_refines [OF assms(1-4)] mutex_release_refines [OF assms(1,2,5)] by blast

theorem mutex_refines_lock_witness:
  "\<exists>m1 m2. rt_mutex_take (demo_mutex (Some 1) 2) 0 demo = Some (Returned RT_EOK, m1, demo) \<and>
     rt_mutex_release (demo_mutex (Some 1) 2) demo = Some (RT_EOK, m2, demo) \<and>
     mutex_abs m1 = Held 1 3 \<and> mutex_abs m2 = Held 1 1"
proof -
  have t: "rt_mutex_take (demo_mutex (Some 1) 2) 0 demo = Some (Returned RT_EOK, demo_mutex (Some 1) 3, demo)"
    using demo_error by (simp add: rt_mutex_take_def demo_mutex_def rt_object_get_type_def
        RT_DEBUG_IN_THREAD_CONTEXT_def RT_DEBUG_NOT_IN_INTERRUPT_def)
  have r: "rt_mutex_release (demo_mutex (Some 1) 2) demo = Some (RT_EOK, demo_mutex (Some 1) 1, demo)"
    by (simp add: rt_mutex_release_def demo_mutex_def rt_object_get_type_def
        RT_DEBUG_IN_THREAD_CONTEXT_def RT_DEBUG_NOT_IN_INTERRUPT_def)
  have "mx_hold (demo_mutex (Some 1) 2) < 0xff" by (simp add: demo_mutex_def)
  from mutex_refines_lock [OF demo_mutex_inv(2) demo_runs(1) this t r] t r show ?thesis
    by (simp add: mutex_abs_def demo_mutex_def)
qed

text \<open>C10: Priority inheritance. In priority order, takes and releases keep the waiting list sorted by
  priority and the owner at least as urgent as every waiting thread, whatever the priorities were
  before: a waiting take raises the owner, and a release passes the mutex to the most urgent waiter.\<close>

theorem mutex_inheritance:
  assumes "mutex_inv m s" "inherits m s" "runs s t" "time_ok time"
    "rt_mutex_take m time s = Some (k, m', s') \<or> rt_mutex_release m s = Some (e, m', s')"
    "mx_owner m' = Some u" "w \<in> set (queues s' (SuspendQ (mx_ref m')))"
  shows "th_current_priority (thr s' u) \<le> th_current_priority (thr s' w) \<and>
    sorted (map (prio_of s') (queues s' (SuspendQ (mx_ref m'))))"
proof -
  have "inherits m' s'"
    using assms(5) mutex_take_inherits [OF assms(1-4)] mutex_release_inherits [OF assms(1-3)] by blast
  then show ?thesis using assms(6,7) by (simp add: inherits_def prio_of_def)
qed

text \<open>Thread 1 holds the mutex and thread 5, made less urgent, waits for it.\<close>

definition demo_boosted :: kern where
  "demo_boosted = upd_thr 5 (\<lambda>th. set_prio_attr (th\<lparr>th_current_priority := 20\<rparr>)) (demo_wait (SuspendQ (Obj 12)))"

lemma demo_boosted_inv: "mutex_inv (demo_mutex (Some 1) 2) demo_boosted" "inherits (demo_mutex (Some 1) 2) demo_boosted"
proof -
  have "rt_thread_control 5 RT_THREAD_CTRL_CHANGE_PRIORITY 20 (demo_wait (SuspendQ (Obj 12))) = Some (RT_EOK, demo_boosted)"
    by (simp add: control_priority_eq rt_object_get_type_def demo_boosted_def)
  then have "kinv demo_boosted" by (rule change_priority_kinv [OF demo_wait_kinv, rotated]) simp
  then show "mutex_inv (demo_mutex (Some 1) 2) demo_boosted"
    by (simp add: mutex_inv_def ipc_header_def waiters_clean_def demo_mutex_def rt_object_get_type_def demo_boosted_def)
  show "inherits (demo_mutex (Some 1) 2) demo_boosted"
    by (simp add: inherits_def demo_mutex_def prio_of_def demo_boosted_def)
qed

theorem mutex_inheritance_witness:
  "th_current_priority (thr demo_boosted 1) \<le> th_current_priority (thr demo_boosted 5) \<and>
    sorted (map (prio_of demo_boosted) (queues demo_boosted (SuspendQ (mx_ref (demo_mutex (Some 1) 1)))))"
proof (rule mutex_inheritance [OF demo_boosted_inv, where t = 1 and time = 0])
  have "rt_mutex_release (demo_mutex (Some 1) 2) demo_boosted = Some (RT_EOK, demo_mutex (Some 1) 1, demo_boosted)"
    by (simp add: rt_mutex_release_def demo_mutex_def rt_object_get_type_def demo_boosted_def
        RT_DEBUG_IN_THREAD_CONTEXT_def RT_DEBUG_NOT_IN_INTERRUPT_def)
  then show "rt_mutex_take (demo_mutex (Some 1) 2) 0 demo_boosted = Some (k, demo_mutex (Some 1) 1, demo_boosted) \<or>
    rt_mutex_release (demo_mutex (Some 1) 2) demo_boosted = Some (RT_EOK, demo_mutex (Some 1) 1, demo_boosted)" for k
    by blast
qed (simp_all add: demo_mutex_def demo_boosted_def rt_object_get_type_def)

section \<open>Event flags\<close>

definition demo_event :: "u32 \<Rightarrow> rt_event" where
  "demo_event st = \<lparr>ev_ref = Obj 13, ev_set = st\<rparr>"

text \<open>Thread 5 waits for both of the bits 0 and 1 and clears them.\<close>

definition demo_event_wait :: kern where
  "demo_event_wait = upd_thr 5 (\<lambda>th. th\<lparr>th_event_set := 3, th_event_info := 5\<rparr>) (demo_wait (SuspendQ (Obj 13)))"

lemma demo_event_inv: "event_inv (demo_event st) demo" "event_inv (demo_event 1) demo_event_wait"
proof -
  show "event_inv (demo_event st) demo"
    using demo_kinv by (simp add: event_inv_def ipc_header_def waiters_clean_def demo_event_def rt_object_get_type_def)
  have "kinv demo_event_wait" unfolding demo_event_wait_def
    by (rule kinv_frame [OF demo_wait_kinv [of "SuspendQ (Obj 13)"]]) (simp_all add: th_core_def)
  then show "event_inv (demo_event 1) demo_event_wait"
    by (simp add: event_inv_def ipc_header_def waiters_clean_def demo_event_def rt_object_get_type_def
        demo_event_wait_def ev_match_def)
qed

lemma demo_event_fine: "sched_fine demo_event_wait"
  using demo_wait_fine [of "SuspendQ (Obj 13)"]
  by (auto simp: sched_fine_def rt_object_get_type_def demo_event_wait_def rt_scheduler_stack_check_def)

text \<open>C11: However sends, receives and resets of an event interleave with each other and with the rest
  of the kernel, no thread waits for the event while the bits that are set satisfy its request: all the
  bits it wants for an AND wait, at least one of them for an OR wait.\<close>

theorem event_no_lost_wakeup:
  assumes "event_step\<^sup>*\<^sup>* (ev, s) (ev', s')" "event_inv ev s"
  shows "kinv s' \<and> (\<forall>t \<in> set (queues s' (SuspendQ (ev_ref ev'))).
    (th_event_info (thr s' t) AND RT_EVENT_FLAG_AND \<noteq> 0 \<longrightarrow>
       th_event_set (thr s' t) AND ev_set ev' \<noteq> th_event_set (thr s' t)) \<and>
    (th_event_info (thr s' t) AND RT_EVENT_FLAG_AND = 0 \<longrightarrow> th_event_info (thr s' t) AND RT_EVENT_FLAG_OR \<noteq> 0 \<longrightarrow>
       th_event_set (thr s' t) AND ev_set ev' = 0))"
proof -
  have "event_inv (fst y) (snd y)" if "event_step\<^sup>*\<^sup>* x y" "event_inv (fst x) (snd x)" for x y
    using that
  proof (induction rule: rtranclp_induct)
    case (step y z)
    then show ?case using event_step_inv [of "fst y" "snd y" "fst z" "snd z"] by simp
  qed simp
  from this [OF assms(1)] assms(2) have "event_inv ev' s'" by simp
  then show ?thesis by (auto simp: event_inv_def ev_match_def)
qed

theorem event_no_lost_wakeup_witness:
  "kinv demo_event_wait \<and> 5 \<in> set (queues demo_event_wait (SuspendQ (Obj 13))) \<and>
    th_event_set (thr demo_event_wait 5) AND 5 \<noteq> th_event_set (thr demo_event_wait 5)"
proof -
  have w: "queues demo_event_wait (SuspendQ (Obj 13)) = [5]" "th_event_set (thr demo_event_wait 5) = 3"
    "th_event_info (thr demo_event_wait 5) = 5" "objs demo_event_wait (Obj 13) = objs demo (Obj 13)"
    by (simp_all add: demo_event_wait_def)
  then have "rt_event_send (demo_event 1) 4 demo_event_wait = Some (RT_EOK, demo_event 5, demo_event_wait)"
    by (simp add: rt_event_send_def demo_event_def rt_object_get_type_def)
  then have "event_step (demo_event 1, demo_event_wait) (demo_event 5, demo_event_wait)" by (rule event_step.send)
  then have "event_step\<^sup>*\<^sup>* (demo_event 1, demo_event_wait) (demo_event 5, demo_event_wait)" by simp
  from event_no_lost_wakeup [OF this demo_event_inv(2)] w show ?thesis by (simp add: demo_event_def)
qed

lemma send_fine:
  assumes "kinv s" "sched_fine s" "\<And>t g. (t, g) \<in> set gs \<Longrightarrow> t \<in> set (queues s q)"
    "\<And>u. u \<notin> fst ` set gs \<Longrightarrow> thr s1 u = thr s u"
    "\<And>t g. (t, g) \<in> set gs \<Longrightarrow> thr s1 t = granted g (thr s t)"
    "\<And>n. objs s1 (Obj n) = objs s (Obj n)" "current s1 = current s" "head_stat q = RT_THREAD_SUSPEND"
  shows "sched_fine s1"
  unfolding sched_fine_def
proof (intro conjI allI impI)
  show "current s1 \<noteq> None" using assms(2,7) by (simp add: sched_fine_def)
  fix u assume u: "is_thread s1 u" "thread_stat s1 u \<in> {RT_THREAD_READY, RT_THREAD_SUSPEND}"
  have th: "is_thread s u" using u(1) assms(6) by (simp add: rt_object_get_type_def)
  show "rt_scheduler_stack_check (thr s1 u)"
  proof (cases "u \<in> fst ` set gs")
    case True
    then obtain g where g: "(u, g) \<in> set gs" by auto
    have "thread_stat s u = RT_THREAD_SUSPEND"
      using tinv_linked(2) [OF kinvD(3) [OF assms(1)] assms(3) [OF g]] assms(8) by simp
    then have "rt_scheduler_stack_check (thr s u)" using assms(2) th by (simp add: sched_fine_def)
    then show ?thesis using assms(5) [OF g]
      by (simp add: granted_def readied_def rt_scheduler_stack_check_def)
  next
    case False
    then show ?thesis using assms(2) assms(4) [OF False] th u(2) unfolding sched_fine_def by metis
  qed
qed

text \<open>C12: The exact effect of a send. It returns without error. The waiting threads are visited in list
  order with the bits that are set and those sent; a thread whose request they satisfy leaves the list,
  becomes ready and will receive the bits it asked for that are set, and if it asked for clearing, those
  bits are gone for the threads behind it. The others stay in the list in order, unchanged, and the bits
  that remain do not satisfy any of them.\<close>

theorem event_send_exact:
  assumes "event_inv ev s" "sched_fine s" "st \<noteq> 0"
  shows "\<exists>gs r s'. ev_scan (thr s) (queues s (SuspendQ (ev_ref ev))) (ev_set ev OR st) = (gs, r) \<and>
    rt_event_send ev st s = Some (RT_EOK, ev\<lparr>ev_set := r\<rparr>, s') \<and>
    queues s' (SuspendQ (ev_ref ev)) = filter (\<lambda>t. t \<notin> fst ` set gs) (queues s (SuspendQ (ev_ref ev))) \<and>
    (\<forall>(t, g) \<in> set gs. thread_stat s' t = RT_THREAD_READY \<and> rt_event_recv_wake t s' = (RT_EOK, Some g)) \<and>
    (\<forall>t \<in> set (queues s' (SuspendQ (ev_ref ev))). thr s' t = thr s t \<and> \<not> ev_match (thr s t) r)"
proof -
  let ?q = "SuspendQ (ev_ref ev)" and ?ev = "ev\<lparr>ev_set := ev_set ev OR st\<rparr>"
  have k: "kinv s" and w: "waiters_clean ?q s" and h: "ipc_header (ev_ref ev) RT_Object_Class_Event s"
    using assms(1) by (simp_all add: event_inv_def)
  have d: "distinct (queues s ?q)" using kinvD(1) [OF k] by (simp add: lists_ok_def)
  obtain gs r where sc: "ev_scan (thr s) (queues s ?q) (ev_set ev OR st) = (gs, r)" by fastforce
  from send_loop_effect [OF k d, of ?q ?ev False] obtain s1 where s1:
    "event_send_loop (queues s ?q) ?ev s False = Some (ev\<lparr>ev_set := r\<rparr>, s1, gs \<noteq> [])" "kinv s1"
    "queues s1 ?q = filter (\<lambda>t. t \<notin> fst ` set gs) (queues s ?q)"
    "\<And>u. u \<notin> fst ` set gs \<Longrightarrow> thr s1 u = thr s u"
    "\<And>t g. (t, g) \<in> set gs \<Longrightarrow> thr s1 t = granted g (thr s t)"
    "\<And>n. objs s1 (Obj n) = objs s (Obj n)" "current s1 = current s"
    by (auto simp: sc)
  have gs: "t \<in> set (queues s ?q)" if "(t, g) \<in> set gs" for t g
    using ev_scan_subset [of "thr s" "queues s ?q" "ev_set ev OR st"] sc that by force
  have fine: "sched_fine s1" by (rule send_fine [OF k assms(2) gs s1(4-7)]) simp_all
  have "\<exists>i c. rt_schedule s1 = Some (s1\<lparr>cur_prio := i, current := Some c\<rparr>)" if ne: "gs \<noteq> []"
  proof -
    obtain t g where t: "(t, g) \<in> set gs" using ne by (cases gs) auto
    have "is_thread s t" using tinv_linked(1) [OF kinvD(3) [OF k] gs [OF t]] .
    then have "is_thread s1 t" "thread_stat s1 t = RT_THREAD_READY"
      using s1(5) [OF t] s1(6) [of t] by (simp_all add: rt_object_get_type_def)
    from tinv_threadD(1) [OF kinvD(3) [OF s1(2)] this]
    show ?thesis using schedule_returns [OF s1(2) fine] by metis
  qed
  then have "(if gs = [] then Some s1 else rt_schedule s1) \<in> {Some s1} \<union> {Some (s1\<lparr>cur_prio := i, current := Some c\<rparr>) | i c. True}"
    by auto
  then obtain s' where "(if gs = [] then Some s1 else rt_schedule s1) = Some s'" "queues s' = queues s1" "thr s' = thr s1"
    by auto
  then have s': "rt_event_send ev st s = Some (RT_EOK, ev\<lparr>ev_set := r\<rparr>, s')" "queues s' = queues s1" "thr s' = thr s1"
    using s1(1) assms(3) h by (auto simp: rt_event_send_def ipc_header_def split: if_splits)
  have g: "thread_stat s' t = RT_THREAD_READY \<and> rt_event_recv_wake t s' = (RT_EOK, Some g)"
    if "(t, g) \<in> set gs" for t g
    using s1(5) [OF that] s'(3) w gs [OF that] by (simp add: rt_event_recv_wake_def waiters_clean_def)
  have o: "thr s' t = thr s t \<and> \<not> ev_match (thr s t) r" if "t \<in> set (queues s' ?q)" for t
  proof -
    have t: "t \<in> set (queues s ?q)" "t \<notin> fst ` set gs" using that s1(3) s'(2) by auto
    then show ?thesis using ev_scan_rest [of t _ "thr s" "ev_set ev OR st"] sc s1(4) s'(3) by force
  qed
  have "queues s' ?q = filter (\<lambda>t. t \<notin> fst ` set gs) (queues s ?q)" using s1(3) s'(2) by simp
  then show ?thesis using sc s'(1) g o by (intro exI conjI) auto
qed

theorem event_send_exact_witness:
  "\<exists>s'. rt_event_send (demo_event 1) 6 demo_event_wait = Some (RT_EOK, demo_event 4, s') \<and>
    queues s' (SuspendQ (Obj 13)) = [] \<and> thread_stat s' 5 = RT_THREAD_READY \<and>
    rt_event_recv_wake 5 s' = (RT_EOK, Some 3)"
proof -
  have sc: "ev_scan (thr demo_event_wait) [5] 7 = ([(5, 3)], 4)"
    by (simp add: demo_event_wait_def ev_match_def ev_left_def)
  have q: "queues demo_event_wait (SuspendQ (Obj 13)) = [5]" by (simp add: demo_event_wait_def)
  show ?thesis using event_send_exact [OF demo_event_inv(2) demo_event_fine, of 6]
    by (auto simp: demo_event_def q sc simp del: ev_scan.simps)
qed

end
