(* ===== verification/Fifo.thy ===== *)
theory Fifo
  imports Prelude
begin

text \<open>
  The contract shared by the message carriers of the kernel (mailbox, message queue, ring buffer, data
  queue): a bounded first-in first-out store of the values that fit it. \<open>fifo_run\<close> runs a sequence of puts and gets; the locale
  \<open>bounded_fifo\<close> proves once, for every implementation, that what comes out is what went in, in
  order, nothing lost and nothing duplicated, and that the bound is kept.

  \<open>ring_contents\<close> reads a circular array; the lemmas give its contents after a put or a get.
\<close>

section \<open>The interface\<close>

datatype 'a fifo_op = Put 'a | Get

text \<open>The values accepted, the values delivered and the state at the end; a refused operation leaves
  the state alone.\<close>

fun fifo_run :: "('a \<Rightarrow> 's \<Rightarrow> 's option) \<Rightarrow> ('s \<Rightarrow> ('a \<times> 's) option) \<Rightarrow> 'a fifo_op list \<Rightarrow> 's \<Rightarrow>
    'a list \<times> 'a list \<times> 's" where
  "fifo_run put get [] s = ([], [], s)"
| "fifo_run put get (Put x # os) s =
     (case put x s of
        None \<Rightarrow> fifo_run put get os s
      | Some s' \<Rightarrow> (let (i, out, s'') = fifo_run put get os s' in (x # i, out, s'')))"
| "fifo_run put get (Get # os) s =
     (case get s of
        None \<Rightarrow> fifo_run put get os s
      | Some (x, s') \<Rightarrow> (let (i, out, s'') = fifo_run put get os s' in (i, x # out, s'')))"

locale bounded_fifo =
  fixes inv :: "'s \<Rightarrow> bool"
    and fits :: "'a \<Rightarrow> 's \<Rightarrow> bool"
    and contents :: "'s \<Rightarrow> 'a list"
    and cap :: "'s \<Rightarrow> nat"
    and put :: "'a \<Rightarrow> 's \<Rightarrow> 's option"
    and get :: "'s \<Rightarrow> ('a \<times> 's) option"
  assumes bounded: "inv s \<Longrightarrow> length (contents s) \<le> cap s"
    and put_full: "inv s \<Longrightarrow> length (contents s) = cap s \<Longrightarrow> put x s = None"
    and put_unfit: "inv s \<Longrightarrow> \<not> fits x s \<Longrightarrow> put x s = None"
    and put_ok: "inv s \<Longrightarrow> fits x s \<Longrightarrow> length (contents s) < cap s \<Longrightarrow>
      \<exists>s'. put x s = Some s' \<and> inv s' \<and> contents s' = contents s @ [x] \<and> cap s' = cap s"
    and get_empty: "inv s \<Longrightarrow> contents s = [] \<Longrightarrow> get s = None"
    and get_ok: "inv s \<Longrightarrow> contents s = x # xs \<Longrightarrow>
      \<exists>s'. get s = Some (x, s') \<and> inv s' \<and> contents s' = xs \<and> cap s' = cap s"
begin

lemma put_cases:
  assumes "inv s"
  obtains (refused) "put x s = None"
  | (ok) s' where "put x s = Some s'" "inv s'" "contents s' = contents s @ [x]" "cap s' = cap s"
proof -
  consider "length (contents s) = cap s" | "\<not> fits x s" | "fits x s" "length (contents s) < cap s"
    using bounded [OF assms] by fastforce
  then show ?thesis
  proof cases
    case 1
    show ?thesis by (rule refused [OF put_full [OF assms 1]])
  next
    case 2
    show ?thesis by (rule refused [OF put_unfit [OF assms 2]])
  next
    case 3
    from put_ok [OF assms 3] show ?thesis using ok by blast
  qed
qed

lemma get_cases:
  assumes "inv s"
  obtains (empty) "contents s = []" "get s = None"
  | (ok) x xs s' where "contents s = x # xs" "get s = Some (x, s')" "inv s'" "contents s' = xs"
      "cap s' = cap s"
proof (cases "contents s")
  case Nil
  show ?thesis by (rule empty [OF Nil get_empty [OF assms Nil]])
next
  case (Cons x xs)
  from get_ok [OF assms this] show ?thesis using ok [OF Cons] by blast
qed

lemma run_fifo:
  assumes "inv s" "fifo_run put get os s = (i, out, s')"
  shows "inv s' \<and> contents s @ i = out @ contents s' \<and> cap s' = cap s \<and> length (contents s') \<le> cap s"
  using assms
proof (induction os arbitrary: s i out)
  case Nil
  then show ?case using bounded by simp
next
  case (Cons op os)
  show ?case
  proof (cases op)
    case (Put x)
    from Cons.prems(1) show ?thesis
    proof (cases rule: put_cases [where x = x])
      case refused
      then show ?thesis using Cons Put by simp
    next
      case (ok s1)
      obtain i1 where "i = x # i1" "fifo_run put get os s1 = (i1, out, s')"
        using Cons.prems(2) Put ok(1) by (auto simp: Let_def split: prod.splits)
      then show ?thesis using Cons.IH [OF ok(2)] ok(3,4) by simp
    qed
  next
    case Get
    from Cons.prems(1) show ?thesis
    proof (cases rule: get_cases)
      case empty
      then have "fifo_run put get os s = (i, out, s')" using Cons.prems(2) Get by simp
      then show ?thesis by (rule Cons.IH [OF Cons.prems(1)])
    next
      case (ok x xs s1)
      obtain o1 where "out = x # o1" "fifo_run put get os s1 = (i, o1, s')"
        using Cons.prems(2) Get ok(2) by (auto simp: Let_def split: prod.splits)
      then show ?thesis using Cons.IH [OF ok(3)] ok(1,4,5) by simp
    qed
  qed
qed

text \<open>The first values accepted are the first delivered.\<close>

lemma run_prefix:
  assumes "inv s" "contents s = []" "fifo_run put get os s = (i, out, s')"
  shows "out = take (length out) i"
proof -
  have "i = out @ contents s'" using run_fifo [OF assms(1,3)] assms(2) by simp
  then show ?thesis by simp
qed

end

section \<open>Circular arrays\<close>

definition ring_contents :: "'a list \<Rightarrow> nat \<Rightarrow> nat \<Rightarrow> nat \<Rightarrow> 'a list" where
  "ring_contents pool n out k = map (\<lambda>i. pool ! ((out + i) mod n)) [0..<k]"

lemma ring_contents_length [simp]: "length (ring_contents pool n out k) = k"
  by (simp add: ring_contents_def)

lemma ring_contents_0 [simp]: "ring_contents pool n out 0 = []"
  by (simp add: ring_contents_def)

lemma mod_add_cancel_le:
  fixes a i j n :: nat
  assumes "(a + i) mod n = (a + j) mod n" "i \<le> j" "j < n"
  shows "i = j"
proof -
  have "n dvd (a + j) - (a + i)" using assms(1,2) by (metis mod_eq_dvd_iff_nat add_le_cancel_left)
  then have "n dvd j - i" by simp
  then show ?thesis using assms(2,3) by (metis dvd_imp_le diff_is_0_eq dual_order.antisym gr0I less_imp_diff_less not_le)
qed

lemma mod_add_cancel:
  fixes a i j n :: nat
  assumes "(a + i) mod n = (a + j) mod n" "i < n" "j < n"
  shows "i = j"
  using mod_add_cancel_le [of a i n j] mod_add_cancel_le [of a j n i] assms by (cases "i \<le> j") auto

lemma ring_put:
  assumes "k < n" "n \<le> length pool"
  shows "ring_contents (pool[(out + k) mod n := x]) n out (Suc k) = ring_contents pool n out k @ [x]"
proof -
  have "(out + k) mod n < n" using assms(1) by simp
  then have "(out + k) mod n < length pool" using assms(2) by simp
  moreover have "(out + k) mod n \<noteq> (out + i) mod n" if "i < k" for i
    using mod_add_cancel [of out k n i] that assms(1) by auto
  ultimately show ?thesis by (simp add: ring_contents_def)
qed

lemma ring_get:
  assumes "out < n"
  shows "ring_contents pool n out (Suc k) = pool ! out # ring_contents pool n (Suc out mod n) k"
proof -
  have "(out + Suc i) mod n = (Suc out mod n + i) mod n" for i by (simp add: mod_simps)
  then have "map (\<lambda>i. pool ! ((out + i) mod n)) (map Suc [0..<k]) =
      map (\<lambda>i. pool ! ((Suc out mod n + i) mod n)) [0..<k]" by simp
  moreover have "[0..<Suc k] = 0 # map Suc [0..<k]" by (simp only: map_Suc_upt upt_conv_Cons zero_less_Suc)
  ultimately show ?thesis using assms unfolding ring_contents_def by (simp only: list.map) simp
qed

text \<open>Several values at once: a run of stores around the array, and dropping from the front.\<close>

fun ring_write :: "nat \<Rightarrow> nat \<Rightarrow> 'a list \<Rightarrow> 'a list \<Rightarrow> 'a list" where
  "ring_write n p [] pool = pool"
| "ring_write n p (x # xs) pool = ring_write n (Suc p mod n) xs (pool[p := x])"

lemma ring_write_length [simp]: "length (ring_write n p xs pool) = length pool"
  by (induction n p xs pool rule: ring_write.induct) simp_all

lemma ring_write_append:
  "p < n \<Longrightarrow> ring_write n p (xs @ ys) pool = ring_write n ((p + length xs) mod n) ys (ring_write n p xs pool)"
proof (induction n p xs pool rule: ring_write.induct)
  case (2 n p x xs pool)
  then show ?case by (simp add: mod_simps)
qed simp

lemma ring_write_straight:
  "p + length xs \<le> n \<Longrightarrow> n \<le> length pool \<Longrightarrow> ring_write n p xs pool = take p pool @ xs @ drop (p + length xs) pool"
proof (induction n p xs pool rule: ring_write.induct)
  case (2 n p x xs pool)
  show ?case
  proof (cases xs)
    case Nil
    then show ?thesis using 2 by (simp add: upd_conv_take_nth_drop)
  next
    case (Cons y ys)
    then have m: "Suc p mod n = Suc p" using 2(2) by simp
    then show ?thesis using 2 by (simp add: upd_conv_take_nth_drop take_Suc_conv_app_nth ac_simps)
  qed
qed simp

lemma ring_write_contents:
  "k + length xs \<le> n \<Longrightarrow> n \<le> length pool \<Longrightarrow>
   ring_contents (ring_write n ((out + k) mod n) xs pool) n out (k + length xs) = ring_contents pool n out k @ xs"
proof (induction xs arbitrary: k pool)
  case (Cons x xs)
  have m: "Suc ((out + k) mod n) mod n = (out + Suc k) mod n" by (simp add: mod_simps)
  have "ring_contents (ring_write n ((out + Suc k) mod n) xs (pool[(out + k) mod n := x])) n out (Suc k + length xs) =
      ring_contents (pool[(out + k) mod n := x]) n out (Suc k) @ xs"
    using Cons.IH [of "Suc k" "pool[(out + k) mod n := x]"] Cons.prems by simp
  then show ?case using ring_put [of k n pool out x] Cons.prems by (simp add: m)
qed simp

lemma ring_contents_drop:
  "ring_contents pool n ((out + j) mod n) (k - j) = drop j (ring_contents pool n out k)"
proof (rule nth_equalityI)
  fix i assume "i < length (ring_contents pool n ((out + j) mod n) (k - j))"
  then have "j + i < k" "i < k - j" by simp_all
  then show "ring_contents pool n ((out + j) mod n) (k - j) ! i = drop j (ring_contents pool n out k) ! i"
    by (simp add: ring_contents_def mod_simps add.assoc)
qed simp

lemma ring_contents_take: "j \<le> k \<Longrightarrow> take j (ring_contents pool n out k) = ring_contents pool n out j"
  by (simp add: ring_contents_def take_map)

lemma ring_contents_straight:
  assumes "out + k \<le> n" "n \<le> length pool"
  shows "ring_contents pool n out k = take k (drop out pool)"
proof (rule nth_equalityI)
  fix i assume "i < length (ring_contents pool n out k)"
  then show "ring_contents pool n out k ! i = take k (drop out pool) ! i" using assms by (simp add: ring_contents_def)
qed (use assms in simp)

lemma ring_get_nonempty: "ring_contents pool n out k = x # xs \<Longrightarrow> 0 < k"
  by (cases k) simp_all

text \<open>Stepping an index around the array.\<close>

lemma unat_succ_less:
  assumes "(i :: 'a :: len word) < n"
  shows "unat (i + 1) = unat i + 1"
proof -
  have "unat i < unat n" using assms by (simp add: word_less_nat_alt)
  moreover have "unat n < 2 ^ LENGTH('a)" by (rule unsigned_less)
  ultimately have "unat i + 1 < 2 ^ LENGTH('a)" by linarith
  then show ?thesis by (simp add: unat_word_ariths)
qed

lemma ring_step:
  fixes i n :: "'a :: len word"
  assumes "i < n"
  shows "unat (if i + 1 \<ge> n then 0 else i + 1) = Suc (unat i) mod unat n"
proof -
  have u: "unat (i + 1) = Suc (unat i)" using unat_succ_less [OF assms] by simp
  have l: "unat i < unat n" using assms by (simp add: word_less_nat_alt)
  show ?thesis
  proof (cases "i + 1 \<ge> n")
    case True
    then have "unat n \<le> Suc (unat i)" using u by (simp add: word_le_nat_alt)
    then have "unat n = Suc (unat i)" using l by simp
    then show ?thesis using True by simp
  next
    case False
    then have "Suc (unat i) < unat n" using u by (simp add: word_le_nat_alt)
    then show ?thesis using False u by simp
  qed
qed

end
