(* ===== verification/Mailbox.thy ===== *)
theory Mailbox
  imports Semaphore Fifo
begin

text \<open>
  The mailbox of \<^verbatim>\<open>rt-thread/src/ipc.c\<close>: a circular array of 32-bit messages with a waiting list of
  receivers (\<open>SuspendQ\<close>) and one of senders (\<open>SenderQ\<close>).

  \<open>mb_put\<close> and \<open>mb_get\<close> are the accesses to the array; they are an instance of the bounded queue of
  \<open>Fifo\<close>. A blocking call is cut where the thread is switched out: \<open>rt_mb_send_wake\<close> and
  \<open>rt_mb_recv_wake\<close> run from there, with the locals of the call (the time left and the tick at which
  the wait began) as arguments. \<open>mb_step\<close> counts the threads that were released and did not run yet;
  with the counts the invariant \<open>mb_inv\<close> says that no wake-up is lost.
\<close>

section \<open>The code\<close>

text \<open>\<open>mb_pool_at\<close> is the address of the message buffer, \<open>mb_pool\<close> its words.\<close>

record rt_mailbox =
  mb_ref :: oref
  mb_pool_at :: nat
  mb_pool :: "u32 list"
  mb_size :: u16
  mb_entry :: u16
  mb_in_offset :: u16
  mb_out_offset :: u16

definition rt_mb_init ::
    "oref \<Rightarrow> string \<Rightarrow> nat \<Rightarrow> u32 list \<Rightarrow> u32 \<Rightarrow> u8 \<Rightarrow> kern \<Rightarrow> (rt_err_t \<times> rt_mailbox \<times> kern) option" where
  "rt_mb_init r name msgpool words sz flag s = do {
     s1 \<leftarrow> rt_object_init r RT_Object_Class_MailBox name s;
     let s2 = upd_obj r (\<lambda>ob. ob\<lparr>obj_flag := flag\<rparr>) s1;
     let s3 = rt_ipc_object_init r s2;
     Some (RT_EOK, \<lparr>mb_ref = r, mb_pool_at = msgpool, mb_pool = words, mb_size = ucast sz,
       mb_entry = 0, mb_in_offset = 0, mb_out_offset = 0\<rparr>, s3\<lparr>queues := (queues s3)(SenderQ r := [])\<rparr>) }"

definition rt_mb_detach :: "rt_mailbox \<Rightarrow> kern \<Rightarrow> (rt_err_t \<times> kern) option" where
  "rt_mb_detach mb s = do {
     RT_ASSERT (rt_object_get_type (mb_ref mb) s = RT_Object_Class_MailBox);
     RT_ASSERT (rt_object_is_systemobject (mb_ref mb) s);
     s1 \<leftarrow> rt_ipc_list_resume_all (SuspendQ (mb_ref mb)) s;
     s2 \<leftarrow> rt_ipc_list_resume_all (SenderQ (mb_ref mb)) s1;
     Some (RT_EOK, rt_object_detach (mb_ref mb) s2) }"

text \<open>\<open>words a n\<close>: the \<open>n\<close> words that the block at \<open>a\<close> holds when it is handed out.\<close>

definition rt_mb_create ::
    "(nat \<Rightarrow> 'h \<Rightarrow> nat option \<times> 'h) \<Rightarrow> (nat \<Rightarrow> 'h \<Rightarrow> 'h option) \<Rightarrow> (nat \<Rightarrow> nat \<Rightarrow> 'h \<Rightarrow> u32 list) \<Rightarrow>
     (u8 \<Rightarrow> nat) \<Rightarrow> string \<Rightarrow> u32 \<Rightarrow> u8 \<Rightarrow> kern \<times> 'h \<Rightarrow> (rt_mailbox option \<times> kern \<times> 'h) option" where
  "rt_mb_create malloc free words object_size name sz flag sh = do {
     RT_DEBUG_NOT_IN_INTERRUPT (fst sh);
     (mb, s1, h1) \<leftarrow> rt_object_allocate malloc object_size RT_Object_Class_MailBox name sh;
     (case mb of
        None \<Rightarrow> Some (None, s1, h1)
      | Some a \<Rightarrow>
          (let s2 = upd_obj (Obj a) (\<lambda>ob. ob\<lparr>obj_flag := flag\<rparr>) s1;
               s3 = rt_ipc_object_init (Obj a) s2;
               n = ucast sz :: u16
           in case malloc (unat n * 4) h1 of
                (None, h2) \<Rightarrow> map_option (Pair None) (rt_object_delete free a (s3, h2))
              | (Some p, h2) \<Rightarrow>
                  Some (Some \<lparr>mb_ref = Obj a, mb_pool_at = p, mb_pool = words p (unat n) h2, mb_size = n,
                    mb_entry = 0, mb_in_offset = 0, mb_out_offset = 0\<rparr>,
                    s3\<lparr>queues := (queues s3)(SenderQ (Obj a) := [])\<rparr>, h2))) }"

definition rt_mb_delete ::
    "(nat \<Rightarrow> 'h \<Rightarrow> 'h option) \<Rightarrow> rt_mailbox \<Rightarrow> nat \<Rightarrow> kern \<times> 'h \<Rightarrow> (rt_err_t \<times> kern \<times> 'h) option" where
  "rt_mb_delete free mb a sh = do {
     let (s, h) = sh;
     RT_DEBUG_NOT_IN_INTERRUPT s;
     RT_ASSERT (rt_object_get_type (Obj a) s = RT_Object_Class_MailBox);
     RT_ASSERT (\<not> rt_object_is_systemobject (Obj a) s);
     s1 \<leftarrow> rt_ipc_list_resume_all (SuspendQ (Obj a)) s;
     s2 \<leftarrow> rt_ipc_list_resume_all (SenderQ (Obj a)) s1;
     h1 \<leftarrow> free (mb_pool_at mb) h;
     (s3, h2) \<leftarrow> rt_object_delete free a (s2, h1);
     Some (RT_EOK, s3, h2) }"

text \<open>Storing and fetching a message; \<open>None\<close> is an access outside the buffer.\<close>

definition mb_put :: "u32 \<Rightarrow> rt_mailbox \<Rightarrow> rt_mailbox option" where
  "mb_put value mb =
     (if unat (mb_in_offset mb) < length (mb_pool mb) then
        Some (mb\<lparr>mb_pool := (mb_pool mb)[unat (mb_in_offset mb) := value],
          mb_in_offset := (if mb_in_offset mb + 1 \<ge> mb_size mb then 0 else mb_in_offset mb + 1),
          mb_entry := mb_entry mb + 1\<rparr>)
      else None)"

definition mb_get :: "rt_mailbox \<Rightarrow> (u32 \<times> rt_mailbox) option" where
  "mb_get mb =
     (if unat (mb_out_offset mb) < length (mb_pool mb) then
        Some (mb_pool mb ! unat (mb_out_offset mb),
          mb\<lparr>mb_out_offset := (if mb_out_offset mb + 1 \<ge> mb_size mb then 0 else mb_out_offset mb + 1),
             mb_entry := mb_entry mb - 1\<rparr>)
      else None)"

text \<open>The end of a send and of a receive: wake the other side.\<close>

definition mb_wake_one :: "lhead \<Rightarrow> kern \<Rightarrow> kern option" where
  "mb_wake_one q s =
     (if queues s q \<noteq> [] then do { s1 \<leftarrow> rt_ipc_list_resume q s; rt_schedule s1 } else Some s)"

text \<open>The loops, for the running thread \<open>ot\<close>; a pass ends by waiting, by an error or by the access.\<close>

definition mb_send_loop ::
    "rt_mailbox \<Rightarrow> u32 \<Rightarrow> u32 \<Rightarrow> tid option \<Rightarrow> kern \<Rightarrow> (kret \<times> rt_mailbox \<times> kern) option" where
  "mb_send_loop mb value timeout ot s =
     (if mb_entry mb = mb_size mb then do {
        t \<leftarrow> ot;
        let s1 = upd_thr t (\<lambda>th. th\<lparr>th_error := RT_EOK\<rparr>) s;
        if timeout = 0 then Some (Returned (- RT_EFULL), mb, s1)
        else do {
          RT_DEBUG_IN_THREAD_CONTEXT s1;
          s2 \<leftarrow> ipc_block (SenderQ (mb_ref mb)) t (obj_flag (objs s1 (mb_ref mb))) timeout s1;
          Some (Parked t, mb, s2) } }
      else do {
        mb1 \<leftarrow> mb_put value mb;
        s1 \<leftarrow> mb_wake_one (SuspendQ (mb_ref mb)) s;
        Some (Returned RT_EOK, mb1, s1) })"

definition mb_recv_loop ::
    "rt_mailbox \<Rightarrow> u32 \<Rightarrow> tid option \<Rightarrow> kern \<Rightarrow> (kret \<times> u32 option \<times> rt_mailbox \<times> kern) option" where
  "mb_recv_loop mb timeout ot s =
     (if mb_entry mb = 0 then do {
        t \<leftarrow> ot;
        let s1 = upd_thr t (\<lambda>th. th\<lparr>th_error := RT_EOK\<rparr>) s;
        if timeout = 0 then
          Some (Returned (- RT_ETIMEOUT), None, mb, upd_thr t (\<lambda>th. th\<lparr>th_error := - RT_ETIMEOUT\<rparr>) s1)
        else do {
          RT_DEBUG_IN_THREAD_CONTEXT s1;
          s2 \<leftarrow> ipc_block (SuspendQ (mb_ref mb)) t (obj_flag (objs s1 (mb_ref mb))) timeout s1;
          Some (Parked t, None, mb, s2) } }
      else do {
        (value, mb1) \<leftarrow> mb_get mb;
        s1 \<leftarrow> mb_wake_one (SenderQ (mb_ref mb)) s;
        Some (Returned RT_EOK, Some value, mb1, s1) })"

definition rt_mb_send_wait ::
    "rt_mailbox \<Rightarrow> u32 \<Rightarrow> u32 \<Rightarrow> kern \<Rightarrow> (kret \<times> rt_mailbox \<times> kern) option" where
  "rt_mb_send_wait mb value timeout s = do {
     RT_ASSERT (rt_object_get_type (mb_ref mb) s = RT_Object_Class_MailBox);
     if mb_entry mb = mb_size mb \<and> timeout = 0 then Some (Returned (- RT_EFULL), mb, s)
     else mb_send_loop mb value timeout (rt_thread_self s) s }"

definition rt_mb_recv :: "rt_mailbox \<Rightarrow> u32 \<Rightarrow> kern \<Rightarrow> (kret \<times> u32 option \<times> rt_mailbox \<times> kern) option" where
  "rt_mb_recv mb timeout s = do {
     RT_ASSERT (rt_object_get_type (mb_ref mb) s = RT_Object_Class_MailBox);
     if mb_entry mb = 0 \<and> timeout = 0 then Some (Returned (- RT_ETIMEOUT), None, mb, s)
     else mb_recv_loop mb timeout (rt_thread_self s) s }"

text \<open>The time that is left of a wait that began at the tick \<open>start\<close>.\<close>

definition time_left :: "u32 \<Rightarrow> u32 \<Rightarrow> kern \<Rightarrow> u32" where
  "time_left timeout start s =
     (if sint timeout > 0 then
        (let left = timeout - (rt_tick_get s - start) in if sint left < 0 then 0 else left)
      else timeout)"

definition rt_mb_send_wake ::
    "rt_mailbox \<Rightarrow> u32 \<Rightarrow> u32 \<Rightarrow> u32 \<Rightarrow> tid \<Rightarrow> kern \<Rightarrow> (kret \<times> rt_mailbox \<times> kern) option" where
  "rt_mb_send_wake mb value timeout start t s =
     (if th_error (thr s t) \<noteq> RT_EOK then Some (Returned (th_error (thr s t)), mb, s)
      else mb_send_loop mb value (time_left timeout start s) (Some t) s)"

definition rt_mb_recv_wake ::
    "rt_mailbox \<Rightarrow> u32 \<Rightarrow> u32 \<Rightarrow> tid \<Rightarrow> kern \<Rightarrow> (kret \<times> u32 option \<times> rt_mailbox \<times> kern) option" where
  "rt_mb_recv_wake mb timeout start t s =
     (if th_error (thr s t) \<noteq> RT_EOK then Some (Returned (th_error (thr s t)), None, mb, s)
      else mb_recv_loop mb (time_left timeout start s) (Some t) s)"

definition rt_mb_send :: "rt_mailbox \<Rightarrow> u32 \<Rightarrow> kern \<Rightarrow> (kret \<times> rt_mailbox \<times> kern) option" where
  "rt_mb_send mb value s = rt_mb_send_wait mb value 0 s"

definition rt_mb_control :: "rt_mailbox \<Rightarrow> nat \<Rightarrow> kern \<Rightarrow> (rt_err_t \<times> rt_mailbox \<times> kern) option" where
  "rt_mb_control mb cmd s = do {
     RT_ASSERT (rt_object_get_type (mb_ref mb) s = RT_Object_Class_MailBox);
     if cmd = RT_IPC_CMD_RESET then do {
       s1 \<leftarrow> rt_ipc_list_resume_all (SuspendQ (mb_ref mb)) s;
       s2 \<leftarrow> rt_ipc_list_resume_all (SenderQ (mb_ref mb)) s1;
       s3 \<leftarrow> rt_schedule s2;
       Some (RT_EOK, mb\<lparr>mb_entry := 0, mb_in_offset := 0, mb_out_offset := 0\<rparr>, s3) }
     else Some (- RT_ERROR, mb, s) }"


section \<open>The array as a bounded queue\<close>

definition mb_ok :: "rt_mailbox \<Rightarrow> bool" where
  "mb_ok mb \<longleftrightarrow> 0 < mb_size mb \<and> unat (mb_size mb) \<le> length (mb_pool mb) \<and> mb_entry mb \<le> mb_size mb \<and>
     mb_out_offset mb < mb_size mb \<and>
     unat (mb_in_offset mb) = (unat (mb_out_offset mb) + unat (mb_entry mb)) mod unat (mb_size mb)"

definition mb_queue :: "rt_mailbox \<Rightarrow> u32 list" where
  "mb_queue mb = ring_contents (mb_pool mb) (unat (mb_size mb)) (unat (mb_out_offset mb)) (unat (mb_entry mb))"

lemma mb_queue_length [simp]: "length (mb_queue mb) = unat (mb_entry mb)"
  by (simp add: mb_queue_def)

lemma mb_queue_empty: "mb_queue mb = [] \<longleftrightarrow> mb_entry mb = 0"
  by (metis length_0_conv mb_queue_length unat_eq_zero)

lemma mb_put_ok:
  assumes "mb_ok mb" "mb_entry mb < mb_size mb"
  shows "\<exists>mb'. mb_put value mb = Some mb' \<and> mb_ok mb' \<and> mb_queue mb' = mb_queue mb @ [value] \<and>
    mb_size mb' = mb_size mb \<and> mb_ref mb' = mb_ref mb \<and> mb_entry mb' = mb_entry mb + 1"
proof -
  let ?n = "unat (mb_size mb)" and ?o = "unat (mb_out_offset mb)" and ?k = "unat (mb_entry mb)"
    and ?i = "mb_in_offset mb"
  have n: "0 < ?n" "?n \<le> length (mb_pool mb)" and i: "unat ?i = (?o + ?k) mod ?n" and k: "?k < ?n"
    using assms by (simp_all add: mb_ok_def word_less_nat_alt unat_gt_0)
  have il: "unat ?i < ?n" using i n(1) by simp
  have e: "unat (mb_entry mb + 1) = Suc ?k" using unat_succ_less [OF assms(2)] by simp
  have st: "unat (if ?i + 1 \<ge> mb_size mb then 0 else ?i + 1) = Suc (unat ?i) mod ?n"
    by (rule ring_step) (use il in \<open>simp add: word_less_nat_alt\<close>)
  let ?mb = "mb\<lparr>mb_pool := (mb_pool mb)[unat ?i := value],
      mb_in_offset := (if ?i + 1 \<ge> mb_size mb then 0 else ?i + 1), mb_entry := mb_entry mb + 1\<rparr>"
  have "mb_put value mb = Some ?mb" using il n(2) by (simp add: mb_put_def)
  moreover have "mb_ok ?mb" using assms st e i k
    by (simp add: mb_ok_def mod_Suc_eq word_le_nat_alt del: if_split_asm split del: if_split)
  moreover have "mb_queue ?mb = mb_queue mb @ [value]"
    unfolding mb_queue_def using ring_put [OF k n(2)] e i by simp
  ultimately show ?thesis by (intro exI [of _ ?mb]) simp
qed

lemma mb_get_ok:
  assumes "mb_ok mb" "mb_queue mb = v # vs"
  shows "\<exists>mb'. mb_get mb = Some (v, mb') \<and> mb_ok mb' \<and> mb_queue mb' = vs \<and>
    mb_size mb' = mb_size mb \<and> mb_ref mb' = mb_ref mb \<and> mb_entry mb' = mb_entry mb - 1"
proof -
  let ?n = "unat (mb_size mb)" and ?o = "mb_out_offset mb" and ?k = "unat (mb_entry mb)"
  have n: "0 < ?n" "?n \<le> length (mb_pool mb)" and o: "unat ?o < ?n" and k: "?k \<le> ?n"
    and i: "unat (mb_in_offset mb) = (unat ?o + ?k) mod ?n"
    using assms(1) by (simp_all add: mb_ok_def word_less_nat_alt word_le_nat_alt unat_gt_0)
  have e: "mb_entry mb \<noteq> 0" using assms(2) mb_queue_empty [of mb] by auto
  then have e1: "unat (mb_entry mb - 1) = ?k - 1" "0 < ?k" by (simp_all add: unat_minus_one unat_gt_0)
  have st: "unat (if ?o + 1 \<ge> mb_size mb then 0 else ?o + 1) = Suc (unat ?o) mod ?n"
    by (rule ring_step) (use o in \<open>simp add: word_less_nat_alt\<close>)
  let ?mb = "mb\<lparr>mb_out_offset := (if ?o + 1 \<ge> mb_size mb then 0 else ?o + 1), mb_entry := mb_entry mb - 1\<rparr>"
  have g: "mb_get mb = Some (mb_pool mb ! unat ?o, ?mb)" using o n(2) by (simp add: mb_get_def)
  have q: "mb_queue mb = mb_pool mb ! unat ?o # mb_queue ?mb"
    unfolding mb_queue_def using ring_get [OF o, of "mb_pool mb" "?k - 1"] e1 st
    by (simp split del: if_split)
  have "Suc (unat ?o) mod ?n < ?n" using n(1) by simp
  moreover have "(unat ?o + ?k) mod ?n = (Suc (unat ?o) mod ?n + (?k - 1)) mod ?n"
  proof -
    obtain j where "?k = Suc j" using e1(2) gr0_conv_Suc by blast
    then show ?thesis by (simp add: mod_simps)
  qed
  ultimately have "mb_ok ?mb" using assms(1) st e1(1) k i unfolding mb_ok_def word_less_nat_alt word_le_nat_alt
    by (simp split del: if_split)
  then show ?thesis using g q assms(2) by (intro exI [of _ ?mb]) simp
qed

text \<open>The store of a send that finds room and the fetch of a receive that finds a message.\<close>

definition mb_try_put :: "u32 \<Rightarrow> rt_mailbox \<Rightarrow> rt_mailbox option" where
  "mb_try_put value mb = (if mb_entry mb = mb_size mb then None else mb_put value mb)"

definition mb_try_get :: "rt_mailbox \<Rightarrow> (u32 \<times> rt_mailbox) option" where
  "mb_try_get mb = (if mb_entry mb = 0 then None else mb_get mb)"

interpretation mb: bounded_fifo mb_ok "\<lambda>_ _. True" mb_queue "\<lambda>mb. unat (mb_size mb)" mb_try_put mb_try_get
proof (unfold_locales, goal_cases)
  case (1 mb)
  then show ?case by (simp add: mb_ok_def word_le_nat_alt)
next
  case (2 mb v)
  then show ?case by (simp add: mb_try_put_def word_unat_eq_iff)
next
  case (4 mb v)
  then have "mb_entry mb < mb_size mb" by (simp add: word_less_nat_alt)
  then show ?case using mb_put_ok [OF 4(1), of v] by (auto simp: mb_try_put_def)
next
  case (5 mb)
  then show ?case by (simp add: mb_try_get_def mb_queue_empty)
next
  case (6 mb v vs)
  then have "mb_entry mb \<noteq> 0" using mb_queue_empty [of mb] by auto
  then show ?case using mb_get_ok [OF 6] by (auto simp: mb_try_get_def)
qed simp

section \<open>The invariant\<close>

text \<open>A mailbox in the system, with the number of receivers and of senders that were released and did not
  run yet, and the messages accepted and delivered since the last reset.\<close>

record mb_sys =
  box :: rt_mailbox
  krn :: kern
  recvs_due :: nat
  sends_due :: nat
  sent :: "u32 list"
  received :: "u32 list"

definition mb_sound :: "rt_mailbox \<Rightarrow> kern \<Rightarrow> nat \<Rightarrow> nat \<Rightarrow> bool" where
  "mb_sound mb s p q \<longleftrightarrow> kinv s \<and> ipc_header (mb_ref mb) RT_Object_Class_MailBox s \<and> mb_ok mb \<and>
     waiters_clean (SuspendQ (mb_ref mb)) s \<and> waiters_clean (SenderQ (mb_ref mb)) s \<and>
     (queues s (SuspendQ (mb_ref mb)) \<noteq> [] \<longrightarrow> unat (mb_entry mb) \<le> p) \<and>
     (queues s (SenderQ (mb_ref mb)) \<noteq> [] \<longrightarrow> unat (mb_size mb) \<le> unat (mb_entry mb) + q)"

definition mb_inv :: "mb_sys \<Rightarrow> bool" where
  "mb_inv m \<longleftrightarrow> mb_sound (box m) (krn m) (recvs_due m) (sends_due m) \<and> sent m = received m @ mb_queue (box m)"

text \<open>A call that returns without error releases one waiting thread of the other side, if there is one.\<close>

definition released :: "lhead \<Rightarrow> kret \<Rightarrow> kern \<Rightarrow> nat" where
  "released q k s = (if k = Returned RT_EOK \<and> queues s q \<noteq> [] then 1 else 0)"

definition accepted :: "kret \<Rightarrow> 'a \<Rightarrow> 'a list" where
  "accepted k v = (if k = Returned RT_EOK then [v] else [])"

inductive mb_step :: "mb_sys \<Rightarrow> mb_sys \<Rightarrow> bool" where
  send: "runs (krn m) t \<Longrightarrow> time_ok timeout \<Longrightarrow> rt_mb_send_wait (box m) v timeout (krn m) = Some (k, mb', s') \<Longrightarrow>
    mb_step m (m\<lparr>box := mb', krn := s', sent := sent m @ accepted k v,
      recvs_due := recvs_due m + released (SuspendQ (mb_ref (box m))) k (krn m)\<rparr>)"
| send_wake: "runs (krn m) t \<Longrightarrow> th_error (thr (krn m) t) = RT_EOK \<Longrightarrow> sends_due m = Suc q \<Longrightarrow>
    time_ok (time_left timeout start (krn m)) \<Longrightarrow>
    rt_mb_send_wake (box m) v timeout start t (krn m) = Some (k, mb', s') \<Longrightarrow>
    mb_step m (m\<lparr>box := mb', krn := s', sent := sent m @ accepted k v, sends_due := q,
      recvs_due := recvs_due m + released (SuspendQ (mb_ref (box m))) k (krn m)\<rparr>)"
| recv: "runs (krn m) t \<Longrightarrow> time_ok timeout \<Longrightarrow> rt_mb_recv (box m) timeout (krn m) = Some (k, r, mb', s') \<Longrightarrow>
    mb_step m (m\<lparr>box := mb', krn := s', received := received m @ (case r of None \<Rightarrow> [] | Some v \<Rightarrow> [v]),
      sends_due := sends_due m + released (SenderQ (mb_ref (box m))) k (krn m)\<rparr>)"
| recv_wake: "runs (krn m) t \<Longrightarrow> th_error (thr (krn m) t) = RT_EOK \<Longrightarrow> recvs_due m = Suc p \<Longrightarrow>
    time_ok (time_left timeout start (krn m)) \<Longrightarrow>
    rt_mb_recv_wake (box m) timeout start t (krn m) = Some (k, r, mb', s') \<Longrightarrow>
    mb_step m (m\<lparr>box := mb', krn := s', received := received m @ (case r of None \<Rightarrow> [] | Some v \<Rightarrow> [v]),
      recvs_due := p, sends_due := sends_due m + released (SenderQ (mb_ref (box m))) k (krn m)\<rparr>)"
| reset: "rt_mb_control (box m) cmd (krn m) = Some (RT_EOK, mb', s') \<Longrightarrow>
    mb_step m (m\<lparr>box := mb', krn := s', sent := [], received := []\<rparr>)"
| env: "env_step (mb_ref (box m)) (SuspendQ (mb_ref (box m))) (krn m) s' \<Longrightarrow>
    env_step (mb_ref (box m)) (SenderQ (mb_ref (box m))) (krn m) s' \<Longrightarrow> mb_step m (m\<lparr>krn := s'\<rparr>)"

section \<open>Preservation\<close>

lemma wake_one_effect:
  assumes "kinv s" "mb_wake_one q s = Some s'" "head_stat q = RT_THREAD_SUSPEND"
  shows "kinv s'" "\<And>p. head_stat p = RT_THREAD_SUSPEND \<Longrightarrow> set (queues s' p) \<subseteq> set (queues s p)"
    "queues s' q = tl (queues s q)" "\<And>n. objs s' (Obj n) = objs s (Obj n)"
    "\<And>t. th_error (thr s' t) = th_error (thr s t)"
proof -
  have "kinv s' \<and> (\<forall>p. head_stat p = RT_THREAD_SUSPEND \<longrightarrow> set (queues s' p) \<subseteq> set (queues s p)) \<and>
      queues s' q = tl (queues s q) \<and> (\<forall>n. objs s' (Obj n) = objs s (Obj n)) \<and>
      (\<forall>t. th_error (thr s' t) = th_error (thr s t))"
  proof (cases "queues s q")
    case Nil
    then show ?thesis using assms by (simp add: mb_wake_one_def)
  next
    case (Cons t ts)
    note r = list_resume_eq [OF assms(1) Cons assms(3)]
    have sc: "rt_schedule (unpark t s) = Some s'" using assms(2) Cons r(1) by (simp add: mb_wake_one_def)
    note sm = schedule_same [OF sc]
    have "set (queues s' p) \<subseteq> set (queues s p)" if "head_stat p = RT_THREAD_SUSPEND" for p
      using r(3) that unfolding woken_def sm by (cases p) auto
    then show ?thesis using schedule_kinv [OF r(2) sc] r(3,4) Cons sm by (auto simp: woken_def)
  qed
  then show "kinv s'" "\<And>p. head_stat p = RT_THREAD_SUSPEND \<Longrightarrow> set (queues s' p) \<subseteq> set (queues s p)"
    "queues s' q = tl (queues s q)" "\<And>n. objs s' (Obj n) = objs s (Obj n)"
    "\<And>t. th_error (thr s' t) = th_error (thr s t)" by blast+
qed

text \<open>Waking a waiting thread returns; the thread is ready, with the error number it had.\<close>

lemma wake_one_returns:
  assumes "kinv s" "sched_fine s" "queues s q = t # ts" "head_stat q = RT_THREAD_SUSPEND"
  obtains s' where "mb_wake_one q s = Some s'" "thread_stat s' t = RT_THREAD_READY" "queues s' q = ts"
    "\<And>u. th_error (thr s' u) = th_error (thr s u)"
proof -
  note r = list_resume_eq [OF assms(1,3,4)]
  have f: "sched_fine (unpark t s)"
    using assms(2) head_waits [OF assms(1,3,4)]
    by (auto simp: sched_fine_def rt_object_get_type_def rt_scheduler_stack_check_def)
  have "t \<in> set (queues (unpark t s) (ReadyQ (unat (th_current_priority (thr s t)))))" by simp
  then obtain i c where "rt_schedule (unpark t s) = Some ((unpark t s)\<lparr>cur_prio := i, current := Some c\<rparr>)"
    by (rule schedule_returns [OF r(2) f])
  then have e: "mb_wake_one q s = Some ((unpark t s)\<lparr>cur_prio := i, current := Some c\<rparr>)"
    using r(1) assms(3) by (simp add: mb_wake_one_def)
  show ?thesis using r(4) by (intro that [OF e]) simp_all
qed

lemma mb_send_loop_cases:
  assumes "mb_send_loop mb v timeout (Some t) s = Some (k, mb', s')"
  obtains (full) "mb_entry mb = mb_size mb" "k = Returned (- RT_EFULL)" "mb' = mb"
      "s' = upd_thr t (\<lambda>th. th\<lparr>th_error := RT_EOK\<rparr>) s"
  | (wait) "mb_entry mb = mb_size mb" "k = Parked t" "mb' = mb"
      "ipc_block (SenderQ (mb_ref mb)) t (obj_flag (objs s (mb_ref mb))) timeout
        (upd_thr t (\<lambda>th. th\<lparr>th_error := RT_EOK\<rparr>) s) = Some s'"
  | (put) "mb_entry mb \<noteq> mb_size mb" "k = Returned RT_EOK" "mb_put v mb = Some mb'"
      "mb_wake_one (SuspendQ (mb_ref mb)) s = Some s'"
proof (cases "mb_entry mb = mb_size mb")
  case f: True
  show ?thesis
  proof (cases "timeout = 0")
    case True
    then show ?thesis using full f assms by (simp add: mb_send_loop_def Let_def)
  next
    case False
    then show ?thesis using wait f assms by (auto simp: mb_send_loop_def Let_def Some_bind_iff)
  qed
next
  case False
  then show ?thesis using put assms by (auto simp: mb_send_loop_def Some_bind_iff)
qed

lemma mb_recv_loop_cases:
  assumes "mb_recv_loop mb timeout (Some t) s = Some (k, r, mb', s')"
  obtains (empty) "mb_entry mb = 0" "k = Returned (- RT_ETIMEOUT)" "r = None" "mb' = mb"
      "s' = upd_thr t (\<lambda>th. th\<lparr>th_error := - RT_ETIMEOUT\<rparr>) s"
  | (wait) "mb_entry mb = 0" "k = Parked t" "r = None" "mb' = mb"
      "ipc_block (SuspendQ (mb_ref mb)) t (obj_flag (objs s (mb_ref mb))) timeout
        (upd_thr t (\<lambda>th. th\<lparr>th_error := RT_EOK\<rparr>) s) = Some s'"
  | (get) v where "mb_entry mb \<noteq> 0" "k = Returned RT_EOK" "r = Some v" "mb_get mb = Some (v, mb')"
      "mb_wake_one (SenderQ (mb_ref mb)) s = Some s'"
proof (cases "mb_entry mb = 0")
  case f: True
  show ?thesis
  proof (cases "timeout = 0")
    case True
    then show ?thesis using empty f assms by (simp add: mb_recv_loop_def Let_def)
  next
    case False
    then show ?thesis using wait f assms by (auto simp: mb_recv_loop_def Let_def Some_bind_iff)
  qed
next
  case False
  then show ?thesis using get assms by (auto simp: mb_recv_loop_def Some_bind_iff)
qed

text \<open>What changes in the kernel when the running thread fails or waits on one of the lists of a mailbox.\<close>

lemma mb_error_sound:
  assumes "mb_sound mb s p q" "runs s t"
  shows "mb_sound mb (upd_thr t (\<lambda>th. th\<lparr>th_error := e\<rparr>) s) p q"
proof -
  have "t \<notin> set (queues s q')" if "head_stat q' = RT_THREAD_SUSPEND" for q'
    using tinv_linked(2) [OF kinvD(3), of s t q'] assms that by (auto simp: mb_sound_def)
  from this [of "SuspendQ (mb_ref mb)"] this [of "SenderQ (mb_ref mb)"] show ?thesis
    using assms(1) set_error_kinv [of s t e]
    by (auto simp: mb_sound_def ipc_header_def rt_object_get_type_def waiters_clean_def)
qed

lemma mb_wait_sound:
  assumes "mb_sound mb s p q" "runs s t" "time_ok timeout" "ql \<in> {SuspendQ (mb_ref mb), SenderQ (mb_ref mb)}"
    "ipc_block ql t (obj_flag (objs s (mb_ref mb))) timeout (upd_thr t (\<lambda>th. th\<lparr>th_error := RT_EOK\<rparr>) s) = Some s'"
    "ql = SuspendQ (mb_ref mb) \<Longrightarrow> unat (mb_entry mb) \<le> p"
    "ql = SenderQ (mb_ref mb) \<Longrightarrow> unat (mb_size mb) \<le> unat (mb_entry mb) + q"
  shows "mb_sound mb s' p q"
proof -
  let ?s = "upd_thr t (\<lambda>th. th\<lparr>th_error := RT_EOK\<rparr>) s"
  have m: "mb_sound mb ?s p q" by (rule mb_error_sound [OF assms(1,2)])
  have h: "ipc_header (mb_ref mb) RT_Object_Class_MailBox s" and k: "kinv ?s"
    and w: "waiters_clean (SuspendQ (mb_ref mb)) ?s" "waiters_clean (SenderQ (mb_ref mb)) ?s"
    using assms(1) m by (simp_all add: mb_sound_def)
  have f: "obj_flag (objs s (mb_ref mb)) \<in> {RT_IPC_FLAG_FIFO, RT_IPC_FLAG_PRIO}" using h by (simp add: ipc_header_def)
  have r: "runs ?s t" using assms(2) by (simp add: rt_object_get_type_def)
  have hq: "head_stat ql = RT_THREAD_SUSPEND" using assms(4) by auto
  note be = block_effect [OF k r f assms(3) hq assms(5)]
  have sub: "set (queues s' p) \<subseteq> insert t (set (queues ?s p))" for p
    using be(2,3) by (cases "p = ql") auto
  have te: "th_error (thr s' t) = RT_EOK" using be(5) by simp
  have "waiters_clean p s'" if "waiters_clean p ?s" for p
    using that sub [of p] te be(8) unfolding waiters_clean_def by (metis insert_iff subsetD)
  moreover have "ipc_header (mb_ref mb) RT_Object_Class_MailBox s'"
    using h be(10) by (auto simp: ipc_header_def rt_object_get_type_def)
  moreover have "queues ?s p \<noteq> []" if "p \<noteq> ql" "queues s' p \<noteq> []" for p
    using be(3) [OF that(1)] that(2) by auto
  ultimately show ?thesis using m be(1) w assms(4,6,7) unfolding mb_sound_def by blast
qed

lemma mb_send_loop_sound:
  assumes "mb_sound mb s p (Suc q)" "runs s t" "time_ok timeout"
    "mb_send_loop mb v timeout (Some t) s = Some (k, mb', s')"
  shows "mb_sound mb' s' (p + released (SuspendQ (mb_ref mb)) k s) q"
    "mb_queue mb' = mb_queue mb @ accepted k v" "mb_ref mb' = mb_ref mb"
proof -
  have "mb_sound mb' s' (p + released (SuspendQ (mb_ref mb)) k s) q \<and>
      mb_queue mb' = mb_queue mb @ accepted k v \<and> mb_ref mb' = mb_ref mb"
    using assms(4)
  proof (cases rule: mb_send_loop_cases)
    case full
    have "mb_sound mb s p q" using assms(1) full(1) by (simp add: mb_sound_def)
    from mb_error_sound [OF this assms(2)] show ?thesis using full by (simp add: released_def accepted_def)
  next
    case wait
    have "mb_sound mb s p q" using assms(1) wait(1) by (simp add: mb_sound_def)
    then have "mb_sound mb s' p q" by (rule mb_wait_sound [OF _ assms(2,3) _ wait(4)]) (use wait(1) in simp_all)
    then show ?thesis using wait by (simp add: released_def accepted_def)
  next
    case put
    have m: "kinv s" "ipc_header (mb_ref mb) RT_Object_Class_MailBox s" "mb_ok mb"
      "waiters_clean (SuspendQ (mb_ref mb)) s" "waiters_clean (SenderQ (mb_ref mb)) s"
      using assms(1) by (simp_all add: mb_sound_def)
    have l: "mb_entry mb < mb_size mb" using m(3) put(1) by (simp add: mb_ok_def order_less_le)
    have mb': "mb_ok mb'" "mb_queue mb' = mb_queue mb @ [v]" "mb_size mb' = mb_size mb" "mb_ref mb' = mb_ref mb"
      "mb_entry mb' = mb_entry mb + 1"
      using mb_put_ok [OF m(3) l, of v] put(3) by auto
    have e: "unat (mb_entry mb') = Suc (unat (mb_entry mb))" using unat_succ_less [OF l] mb'(5) by simp
    note w = wake_one_effect [OF m(1) put(4), simplified]
    have sub: "set (queues s' (SuspendQ r)) \<subseteq> set (queues s (SuspendQ r))"
      "set (queues s' (SenderQ r)) \<subseteq> set (queues s (SenderQ r))" for r by (auto dest: subsetD [OF w(2), rotated])
    have "ipc_header (mb_ref mb) RT_Object_Class_MailBox s'" using m(2) w(4)
      by (auto simp: ipc_header_def rt_object_get_type_def)
    moreover have "waiters_clean (SuspendQ (mb_ref mb)) s'" "waiters_clean (SenderQ (mb_ref mb)) s'"
      using m(4,5) sub w(5) unfolding waiters_clean_def by (metis subsetD)+
    moreover have "unat (mb_entry mb') \<le> p + released (SuspendQ (mb_ref mb)) k s"
      if "queues s' (SuspendQ (mb_ref mb)) \<noteq> []"
      using that w(3) assms(1) e put(2) by (cases "queues s (SuspendQ (mb_ref mb))") (auto simp: mb_sound_def released_def)
    moreover have "unat (mb_size mb) \<le> unat (mb_entry mb') + q" if "queues s' (SenderQ (mb_ref mb)) \<noteq> []"
      using that sub(2) [of "mb_ref mb"] assms(1) e by (auto simp: mb_sound_def)
    ultimately show ?thesis using w(1) mb' put(2) by (simp add: mb_sound_def accepted_def)
  qed
  then show "mb_sound mb' s' (p + released (SuspendQ (mb_ref mb)) k s) q"
    "mb_queue mb' = mb_queue mb @ accepted k v" "mb_ref mb' = mb_ref mb" by blast+
qed

lemma mb_recv_loop_sound:
  assumes "mb_sound mb s (Suc p) q" "runs s t" "time_ok timeout"
    "mb_recv_loop mb timeout (Some t) s = Some (k, r, mb', s')"
  shows "mb_sound mb' s' p (q + released (SenderQ (mb_ref mb)) k s)"
    "mb_queue mb = (case r of None \<Rightarrow> [] | Some v \<Rightarrow> [v]) @ mb_queue mb'" "mb_ref mb' = mb_ref mb"
proof -
  have "mb_sound mb' s' p (q + released (SenderQ (mb_ref mb)) k s) \<and>
      mb_queue mb = (case r of None \<Rightarrow> [] | Some v \<Rightarrow> [v]) @ mb_queue mb' \<and> mb_ref mb' = mb_ref mb"
    using assms(4)
  proof (cases rule: mb_recv_loop_cases)
    case empty
    have "mb_sound mb s p q" using assms(1) empty(1) by (simp add: mb_sound_def)
    from mb_error_sound [OF this assms(2)] show ?thesis using empty by (simp add: released_def)
  next
    case wait
    have "mb_sound mb s p q" using assms(1) wait(1) by (simp add: mb_sound_def)
    then have "mb_sound mb s' p q" by (rule mb_wait_sound [OF _ assms(2,3) _ wait(5)]) (use wait(1) in simp_all)
    then show ?thesis using wait by (simp add: released_def)
  next
    case (get v)
    have m: "kinv s" "ipc_header (mb_ref mb) RT_Object_Class_MailBox s" "mb_ok mb"
      "waiters_clean (SuspendQ (mb_ref mb)) s" "waiters_clean (SenderQ (mb_ref mb)) s"
      using assms(1) by (simp_all add: mb_sound_def)
    obtain x xs where q: "mb_queue mb = x # xs" using get(1) mb_queue_empty [of mb] by (cases "mb_queue mb") auto
    have mb': "x = v" "mb_ok mb'" "mb_queue mb' = xs" "mb_size mb' = mb_size mb" "mb_ref mb' = mb_ref mb"
      "mb_entry mb' = mb_entry mb - 1"
      using mb_get_ok [OF m(3) q] get(4) by auto
    have e: "unat (mb_entry mb) = Suc (unat (mb_entry mb'))"
      using get(1) mb'(6) by (simp add: unat_minus_one unat_gt_0)
    note w = wake_one_effect [OF m(1) get(5), simplified]
    have sub: "set (queues s' (SuspendQ r)) \<subseteq> set (queues s (SuspendQ r))"
      "set (queues s' (SenderQ r)) \<subseteq> set (queues s (SenderQ r))" for r by (auto dest: subsetD [OF w(2), rotated])
    have "ipc_header (mb_ref mb) RT_Object_Class_MailBox s'" using m(2) w(4)
      by (auto simp: ipc_header_def rt_object_get_type_def)
    moreover have "waiters_clean (SuspendQ (mb_ref mb)) s'" "waiters_clean (SenderQ (mb_ref mb)) s'"
      using m(4,5) sub w(5) unfolding waiters_clean_def by (metis subsetD)+
    moreover have "unat (mb_size mb) \<le> unat (mb_entry mb') + (q + released (SenderQ (mb_ref mb)) k s)"
      if "queues s' (SenderQ (mb_ref mb)) \<noteq> []"
      using that w(3) assms(1) e get(2) by (cases "queues s (SenderQ (mb_ref mb))") (auto simp: mb_sound_def released_def)
    moreover have "unat (mb_entry mb') \<le> p" if "queues s' (SuspendQ (mb_ref mb)) \<noteq> []"
      using that sub(1) [of "mb_ref mb"] assms(1) e by (auto simp: mb_sound_def)
    ultimately show ?thesis using w(1) mb' get(3) q by (simp add: mb_sound_def)
  qed
  then show "mb_sound mb' s' p (q + released (SenderQ (mb_ref mb)) k s)"
    "mb_queue mb = (case r of None \<Rightarrow> [] | Some v \<Rightarrow> [v]) @ mb_queue mb'" "mb_ref mb' = mb_ref mb" by blast+
qed

lemma mb_sound_mono: "mb_sound mb s p q \<Longrightarrow> p \<le> p' \<Longrightarrow> q \<le> q' \<Longrightarrow> mb_sound mb s p' q'"
  by (auto simp: mb_sound_def)

lemma mb_send_sound:
  assumes "mb_sound mb s p q" "runs s t" "time_ok timeout" "rt_mb_send_wait mb v timeout s = Some (k, mb', s')"
  shows "mb_sound mb' s' (p + released (SuspendQ (mb_ref mb)) k s) q \<and>
    mb_queue mb' = mb_queue mb @ accepted k v \<and> mb_ref mb' = mb_ref mb"
proof (cases "mb_entry mb = mb_size mb \<and> timeout = 0")
  case True
  then show ?thesis using assms(1,4)
    by (auto simp: rt_mb_send_wait_def Some_bind_iff released_def accepted_def)
next
  case False
  then have "mb_send_loop mb v timeout (Some t) s = Some (k, mb', s')"
    using assms(2,4) by (auto simp: rt_mb_send_wait_def Some_bind_iff)
  from mb_send_loop_sound [OF mb_sound_mono [OF assms(1)] assms(2,3) this, of p q] show ?thesis by simp
qed

lemma mb_recv_sound:
  assumes "mb_sound mb s p q" "runs s t" "time_ok timeout" "rt_mb_recv mb timeout s = Some (k, r, mb', s')"
  shows "mb_sound mb' s' p (q + released (SenderQ (mb_ref mb)) k s) \<and>
    mb_queue mb = (case r of None \<Rightarrow> [] | Some v \<Rightarrow> [v]) @ mb_queue mb' \<and> mb_ref mb' = mb_ref mb"
proof (cases "mb_entry mb = 0 \<and> timeout = 0")
  case True
  then show ?thesis using assms(1,4)
    by (auto simp: rt_mb_recv_def Some_bind_iff released_def)
next
  case False
  then have "mb_recv_loop mb timeout (Some t) s = Some (k, r, mb', s')"
    using assms(2,4) by (auto simp: rt_mb_recv_def Some_bind_iff)
  from mb_recv_loop_sound [OF mb_sound_mono [OF assms(1)] assms(2,3) this, of p q] show ?thesis by simp
qed

lemma mb_control_sound:
  assumes "mb_sound mb s p q" "rt_mb_control mb cmd s = Some (RT_EOK, mb', s')"
  shows "mb_sound mb' s' p q \<and> mb_queue mb' = []"
proof -
  let ?r = "mb_ref mb"
  have m: "kinv s" "ipc_header ?r RT_Object_Class_MailBox s" "mb_ok mb" using assms(1) by (simp_all add: mb_sound_def)
  obtain s1 where s1: "rt_ipc_list_resume_all (SuspendQ ?r) s = Some s1" "kinv s1"
    "woken failed (queues s (SuspendQ ?r)) s s1" "queues s1 (SuspendQ ?r) = []"
    using resume_all_eq [OF m(1), of "SuspendQ ?r"] by auto
  obtain s2 where s2: "rt_ipc_list_resume_all (SenderQ ?r) s1 = Some s2" "kinv s2"
    "woken failed (queues s1 (SenderQ ?r)) s1 s2" "queues s2 (SenderQ ?r) = []"
    using resume_all_eq [OF s1(2), of "SenderQ ?r"] by auto
  have "cmd = RT_IPC_CMD_RESET" using assms(2) by (auto simp: rt_mb_control_def Some_bind_iff split: if_splits)
  then have sc: "rt_schedule s2 = Some s'" and mb': "mb' = mb\<lparr>mb_entry := 0, mb_in_offset := 0, mb_out_offset := 0\<rparr>"
    using assms(2) s1(1) s2(1) by (auto simp: rt_mb_control_def Some_bind_iff)
  note sm = schedule_same [OF sc]
  have "ipc_header ?r RT_Object_Class_MailBox s'"
    using woken_header [OF s2(3) woken_header [OF s1(3) m(2)]] sm by (simp add: ipc_header_def rt_object_get_type_def)
  moreover have "queues s2 (SuspendQ ?r) = []" using s2(3) s1(4) by (simp add: woken_def)
  ultimately show ?thesis using schedule_kinv [OF s2(2) sc] mb' s2(4) sm m(3)
    by (simp add: mb_sound_def mb_ok_def waiters_clean_def mb_queue_def)
qed

lemma mb_env_sound:
  assumes "mb_sound mb s p q" "env_step (mb_ref mb) (SuspendQ (mb_ref mb)) s s'"
    "env_step (mb_ref mb) (SenderQ (mb_ref mb)) s s'"
  shows "mb_sound mb s' p q"
proof -
  have sub: "set (queues s' ql) \<subseteq> set (queues s ql) \<and> (waiters_clean ql s \<longrightarrow> waiters_clean ql s')"
    if "env_step (mb_ref mb) ql s s'" for ql
    using that by (auto simp: env_step_def waiters_clean_def)
  have ne: "queues s ql \<noteq> []" if "env_step (mb_ref mb) ql s s'" "queues s' ql \<noteq> []" for ql
    using sub [OF that(1)] that(2) by auto
  have "kinv s'" "ipc_header (mb_ref mb) RT_Object_Class_MailBox s'"
    using assms(1,2) ipc_header_same [of "mb_ref mb" _ s s'] by (simp_all add: mb_sound_def env_step_def)
  then show ?thesis using assms(1) sub [OF assms(2)] sub [OF assms(3)] ne [OF assms(2)] ne [OF assms(3)]
    unfolding mb_sound_def by blast
qed

lemma mb_step_inv: "mb_step m m' \<Longrightarrow> mb_inv m \<Longrightarrow> mb_inv m'"
proof (induction rule: mb_step.induct)
  case (send m t timeout v k mb' s')
  then show ?case using mb_send_sound [OF _ send(1-3), of "recvs_due m" "sends_due m"] by (simp add: mb_inv_def)
next
  case (send_wake m t q timeout start v k mb' s')
  have l: "mb_send_loop (box m) v (time_left timeout start (krn m)) (Some t) (krn m) = Some (k, mb', s')"
    using send_wake(2,5) by (simp add: rt_mb_send_wake_def)
  have "mb_sound (box m) (krn m) (recvs_due m) (Suc q)" using send_wake(3,6) by (simp add: mb_inv_def)
  from mb_send_loop_sound [OF this send_wake(1,4) l] show ?case using send_wake(6) by (simp add: mb_inv_def)
next
  case (recv m t timeout k r mb' s')
  then show ?case using mb_recv_sound [OF _ recv(1-3), of "recvs_due m" "sends_due m"] by (simp add: mb_inv_def)
next
  case (recv_wake m t p timeout start k r mb' s')
  have l: "mb_recv_loop (box m) (time_left timeout start (krn m)) (Some t) (krn m) = Some (k, r, mb', s')"
    using recv_wake(2,5) by (simp add: rt_mb_recv_wake_def)
  have "mb_sound (box m) (krn m) (Suc p) (sends_due m)" using recv_wake(3,6) by (simp add: mb_inv_def)
  from mb_recv_loop_sound [OF this recv_wake(1,4) l] show ?case using recv_wake(6) by (simp add: mb_inv_def)
next
  case (reset m cmd mb' s')
  then show ?case using mb_control_sound by (auto simp: mb_inv_def)
next
  case (env m s')
  then show ?case using mb_env_sound by (auto simp: mb_inv_def)
qed

lemma mb_steps_inv: "mb_step\<^sup>*\<^sup>* m m' \<Longrightarrow> mb_inv m \<Longrightarrow> mb_inv m'"
  by (induction rule: rtranclp_induct) (auto intro: mb_step_inv)

end
