(* ===== verification/Message_Queue.thy ===== *)
theory Message_Queue
  imports Mailbox
begin

text \<open>
  The message queue of \<^verbatim>\<open>rt-thread/src/ipc.c\<close>: a pool of equal slots, threaded by \<open>next\<close> pointers into
  a queue of messages and a list of free slots. The slot number \<open>n\<close> stands for the address
  \<open>msg_pool + n * (msg_size + 4)\<close> of its header.

  A send and a receive touch the pool in separate sections with interrupts enabled in between: take a
  free slot, fill it, link it; unlink a slot, copy it out, free it. Each section is a definition
  (\<open>mq_alloc\<close>, \<open>mq_fill\<close>, \<open>mq_link\<close>, \<open>mq_unlink\<close>, \<open>mq_read\<close>, \<open>mq_release\<close>); the calls are their
  compositions, and \<open>mq_section\<close> interleaves the sections of any number of calls.
\<close>

section \<open>The code\<close>

record rt_messagequeue =
  mq_ref :: oref
  mq_pool_at :: nat
  mq_msg_size :: u16
  mq_max_msgs :: u16
  mq_entry :: u16
  mq_head :: "nat option"
  mq_tail :: "nat option"
  mq_free :: "nat option"
  mq_next :: "nat \<Rightarrow> nat option"
  mq_data :: "nat \<Rightarrow> u8 list"

abbreviation (input) MQ_HEADER :: u32 where "MQ_HEADER \<equiv> 4"

text \<open>The loop that threads the free list, from the slot \<open>temp\<close>.\<close>

fun mq_init_free :: "nat list \<Rightarrow> rt_messagequeue \<Rightarrow> rt_messagequeue" where
  "mq_init_free [] mq = mq"
| "mq_init_free (temp # ts) mq =
     mq_init_free ts (mq\<lparr>mq_next := (mq_next mq)(temp := mq_free mq), mq_free := Some temp\<rparr>)"

definition mq_setup :: "oref \<Rightarrow> nat \<Rightarrow> (nat \<Rightarrow> u8 list) \<Rightarrow> u16 \<Rightarrow> u16 \<Rightarrow> rt_messagequeue" where
  "mq_setup r pool bytes msize msgs =
     mq_init_free [0..<unat msgs]
       \<lparr>mq_ref = r, mq_pool_at = pool, mq_msg_size = msize, mq_max_msgs = msgs, mq_entry = 0,
        mq_head = None, mq_tail = None, mq_free = None, mq_next = (\<lambda>_. None), mq_data = bytes\<rparr>"

text \<open>\<open>bytes n\<close>: what the slot \<open>n\<close> of the memory handed over holds.\<close>

definition rt_mq_init ::
    "oref \<Rightarrow> string \<Rightarrow> nat \<Rightarrow> (nat \<Rightarrow> u8 list) \<Rightarrow> u32 \<Rightarrow> u32 \<Rightarrow> u8 \<Rightarrow> kern \<Rightarrow>
     (rt_err_t \<times> rt_messagequeue \<times> kern) option" where
  "rt_mq_init r name msgpool bytes msize pool_size flag s = do {
     s1 \<leftarrow> rt_object_init r RT_Object_Class_MessageQueue name s;
     let s2 = upd_obj r (\<lambda>ob. ob\<lparr>obj_flag := flag\<rparr>) s1;
     let s3 = rt_ipc_object_init r s2;
     let ms = (ucast (RT_ALIGN msize RT_ALIGN_SIZE) :: u16);
     let msgs = (ucast (pool_size div (ucast ms + MQ_HEADER)) :: u16);
     Some (RT_EOK, mq_setup r msgpool bytes ms msgs, s3) }"

definition rt_mq_detach :: "rt_messagequeue \<Rightarrow> kern \<Rightarrow> (rt_err_t \<times> kern) option" where
  "rt_mq_detach mq s = do {
     RT_ASSERT (rt_object_get_type (mq_ref mq) s = RT_Object_Class_MessageQueue);
     RT_ASSERT (rt_object_is_systemobject (mq_ref mq) s);
     s1 \<leftarrow> rt_ipc_list_resume_all (SuspendQ (mq_ref mq)) s;
     Some (RT_EOK, rt_object_detach (mq_ref mq) s1) }"

text \<open>\<open>pool\<close> is the pool pointer of the queue to delete, null when its pool could not be allocated.\<close>

definition rt_mq_delete ::
    "(nat \<Rightarrow> 'h \<Rightarrow> 'h option) \<Rightarrow> nat option \<Rightarrow> nat \<Rightarrow> kern \<times> 'h \<Rightarrow> (rt_err_t \<times> kern \<times> 'h) option" where
  "rt_mq_delete free pool a sh = do {
     let (s, h) = sh;
     RT_DEBUG_NOT_IN_INTERRUPT s;
     RT_ASSERT (rt_object_get_type (Obj a) s = RT_Object_Class_MessageQueue);
     RT_ASSERT (\<not> rt_object_is_systemobject (Obj a) s);
     s1 \<leftarrow> rt_ipc_list_resume_all (SuspendQ (Obj a)) s;
     h1 \<leftarrow> (case pool of None \<Rightarrow> Some h | Some p \<Rightarrow> free p h);
     (s2, h2) \<leftarrow> rt_object_delete free a (s1, h1);
     Some (RT_EOK, s2, h2) }"

definition rt_mq_create ::
    "(nat \<Rightarrow> 'h \<Rightarrow> nat option \<times> 'h) \<Rightarrow> (nat \<Rightarrow> 'h \<Rightarrow> 'h option) \<Rightarrow> (nat \<Rightarrow> 'h \<Rightarrow> nat \<Rightarrow> u8 list) \<Rightarrow>
     (u8 \<Rightarrow> nat) \<Rightarrow> string \<Rightarrow> u32 \<Rightarrow> u32 \<Rightarrow> u8 \<Rightarrow> kern \<times> 'h \<Rightarrow> (rt_messagequeue option \<times> kern \<times> 'h) option" where
  "rt_mq_create malloc free bytes object_size name msize max_msgs flag sh = do {
     RT_DEBUG_NOT_IN_INTERRUPT (fst sh);
     (mq, s1, h1) \<leftarrow> rt_object_allocate malloc object_size RT_Object_Class_MessageQueue name sh;
     (case mq of
        None \<Rightarrow> Some (None, s1, h1)
      | Some a \<Rightarrow>
          (let s2 = upd_obj (Obj a) (\<lambda>ob. ob\<lparr>obj_flag := flag\<rparr>) s1;
               s3 = rt_ipc_object_init (Obj a) s2;
               ms = ucast (RT_ALIGN msize RT_ALIGN_SIZE) :: u16;
               msgs = ucast max_msgs :: u16
           in case malloc (unat ((ucast ms + MQ_HEADER) * ucast msgs :: u32)) h1 of
                (None, h2) \<Rightarrow> map_option (\<lambda>(_, s, h). (None, s, h)) (rt_mq_delete free None a (s3, h2))
              | (Some p, h2) \<Rightarrow> Some (Some (mq_setup (Obj a) p (bytes p h2) ms msgs), s3, h2))) }"

subsection \<open>The sections of a send and of a receive\<close>

definition mq_alloc :: "rt_messagequeue \<Rightarrow> (nat \<times> rt_messagequeue) option" where
  "mq_alloc mq = (case mq_free mq of
      None \<Rightarrow> None
    | Some msg \<Rightarrow> Some (msg, mq\<lparr>mq_free := mq_next mq msg\<rparr>))"

text \<open>\<open>rt_memcpy(msg + 1, buffer, size)\<close>, the buffer given by its bytes.\<close>

definition mq_copy_in :: "nat \<Rightarrow> u8 list \<Rightarrow> rt_messagequeue \<Rightarrow> rt_messagequeue" where
  "mq_copy_in msg buffer mq =
     mq\<lparr>mq_data := (mq_data mq)(msg := buffer @ drop (length buffer) (mq_data mq msg))\<rparr>"

definition mq_fill :: "nat \<Rightarrow> u8 list \<Rightarrow> rt_messagequeue \<Rightarrow> rt_messagequeue" where
  "mq_fill msg buffer mq = mq_copy_in msg buffer (mq\<lparr>mq_next := (mq_next mq)(msg := None)\<rparr>)"

definition mq_link :: "nat \<Rightarrow> rt_messagequeue \<Rightarrow> rt_messagequeue" where
  "mq_link msg mq =
     (let mq1 = (case mq_tail mq of
            None \<Rightarrow> mq
          | Some tail \<Rightarrow> mq\<lparr>mq_next := (mq_next mq)(tail := Some msg)\<rparr>);
          mq2 = mq1\<lparr>mq_tail := Some msg\<rparr>;
          mq3 = (if mq_head mq2 = None then mq2\<lparr>mq_head := Some msg\<rparr> else mq2)
      in mq3\<lparr>mq_entry := mq_entry mq3 + 1\<rparr>)"

definition mq_link_front :: "nat \<Rightarrow> rt_messagequeue \<Rightarrow> rt_messagequeue" where
  "mq_link_front msg mq =
     (let mq1 = mq\<lparr>mq_next := (mq_next mq)(msg := mq_head mq), mq_head := Some msg\<rparr>;
          mq2 = (if mq_tail mq1 = None then mq1\<lparr>mq_tail := Some msg\<rparr> else mq1)
      in mq2\<lparr>mq_entry := mq_entry mq2 + 1\<rparr>)"

text \<open>\<open>None\<close>: the head is null, and the code reads through it.\<close>

definition mq_unlink :: "rt_messagequeue \<Rightarrow> (nat \<times> rt_messagequeue) option" where
  "mq_unlink mq = (case mq_head mq of
      None \<Rightarrow> None
    | Some msg \<Rightarrow>
        (let mq1 = mq\<lparr>mq_head := mq_next mq msg\<rparr>;
             mq2 = (if mq_tail mq1 = Some msg then mq1\<lparr>mq_tail := None\<rparr> else mq1)
         in Some (msg, mq2\<lparr>mq_entry := mq_entry mq2 - 1\<rparr>)))"

definition mq_read :: "nat \<Rightarrow> u32 \<Rightarrow> rt_messagequeue \<Rightarrow> u8 list" where
  "mq_read msg sz mq =
     take (if unat sz > unat (mq_msg_size mq) then unat (mq_msg_size mq) else unat sz) (mq_data mq msg)"

definition mq_release :: "nat \<Rightarrow> rt_messagequeue \<Rightarrow> rt_messagequeue" where
  "mq_release msg mq = mq\<lparr>mq_next := (mq_next mq)(msg := mq_free mq), mq_free := Some msg\<rparr>"

subsection \<open>The calls\<close>

text \<open>\<open>buffer\<close> is the message, \<open>size\<close> its length.\<close>

definition rt_mq_send :: "rt_messagequeue \<Rightarrow> u8 list \<Rightarrow> kern \<Rightarrow> (rt_err_t \<times> rt_messagequeue \<times> kern) option" where
  "rt_mq_send mq buffer s = do {
     RT_ASSERT (rt_object_get_type (mq_ref mq) s = RT_Object_Class_MessageQueue);
     RT_ASSERT (length buffer \<noteq> 0);
     if length buffer > unat (mq_msg_size mq) then Some (- RT_ERROR, mq, s)
     else case mq_alloc mq of
       None \<Rightarrow> Some (- RT_EFULL, mq, s)
     | Some (msg, mq1) \<Rightarrow> do {
         let mq2 = mq_link msg (mq_fill msg buffer mq1);
         s1 \<leftarrow> mb_wake_one (SuspendQ (mq_ref mq)) s;
         Some (RT_EOK, mq2, s1) } }"

definition rt_mq_urgent :: "rt_messagequeue \<Rightarrow> u8 list \<Rightarrow> kern \<Rightarrow> (rt_err_t \<times> rt_messagequeue \<times> kern) option" where
  "rt_mq_urgent mq buffer s = do {
     RT_ASSERT (rt_object_get_type (mq_ref mq) s = RT_Object_Class_MessageQueue);
     RT_ASSERT (length buffer \<noteq> 0);
     if length buffer > unat (mq_msg_size mq) then Some (- RT_ERROR, mq, s)
     else case mq_alloc mq of
       None \<Rightarrow> Some (- RT_EFULL, mq, s)
     | Some (msg, mq1) \<Rightarrow> do {
         let mq2 = mq_link_front msg (mq_copy_in msg buffer mq1);
         s1 \<leftarrow> mb_wake_one (SuspendQ (mq_ref mq)) s;
         Some (RT_EOK, mq2, s1) } }"

definition mq_recv_loop ::
    "rt_messagequeue \<Rightarrow> u32 \<Rightarrow> u32 \<Rightarrow> tid option \<Rightarrow> kern \<Rightarrow> (kret \<times> u8 list option \<times> rt_messagequeue \<times> kern) option" where
  "mq_recv_loop mq sz timeout ot s =
     (if mq_entry mq = 0 then do {
        RT_DEBUG_IN_THREAD_CONTEXT s;
        t \<leftarrow> ot;
        let s1 = upd_thr t (\<lambda>th. th\<lparr>th_error := RT_EOK\<rparr>) s;
        if timeout = 0 then
          Some (Returned (- RT_ETIMEOUT), None, mq, upd_thr t (\<lambda>th. th\<lparr>th_error := - RT_ETIMEOUT\<rparr>) s1)
        else do {
          s2 \<leftarrow> ipc_block (SuspendQ (mq_ref mq)) t (obj_flag (objs s1 (mq_ref mq))) timeout s1;
          Some (Parked t, None, mq, s2) } }
      else do {
        (msg, mq1) \<leftarrow> mq_unlink mq;
        let bytes = mq_read msg sz mq1;
        Some (Returned RT_EOK, Some bytes, mq_release msg mq1, s) })"

definition rt_mq_recv ::
    "rt_messagequeue \<Rightarrow> u32 \<Rightarrow> u32 \<Rightarrow> kern \<Rightarrow> (kret \<times> u8 list option \<times> rt_messagequeue \<times> kern) option" where
  "rt_mq_recv mq sz timeout s = do {
     RT_ASSERT (rt_object_get_type (mq_ref mq) s = RT_Object_Class_MessageQueue);
     RT_ASSERT (sz \<noteq> 0);
     if mq_entry mq = 0 \<and> timeout = 0 then Some (Returned (- RT_ETIMEOUT), None, mq, s)
     else mq_recv_loop mq sz timeout (rt_thread_self s) s }"

definition rt_mq_recv_wake ::
    "rt_messagequeue \<Rightarrow> u32 \<Rightarrow> u32 \<Rightarrow> u32 \<Rightarrow> tid \<Rightarrow> kern \<Rightarrow> (kret \<times> u8 list option \<times> rt_messagequeue \<times> kern) option" where
  "rt_mq_recv_wake mq sz timeout start t s =
     (if th_error (thr s t) \<noteq> RT_EOK then Some (Returned (th_error (thr s t)), None, mq, s)
      else mq_recv_loop mq sz (time_left timeout start s) (Some t) s)"

text \<open>The loop of a reset: every queued slot goes to the free list.\<close>

partial_function (option) mq_drain :: "rt_messagequeue \<Rightarrow> rt_messagequeue option" where
  "mq_drain mq = (case mq_head mq of
      None \<Rightarrow> Some mq
    | Some msg \<Rightarrow>
        (let mq1 = mq\<lparr>mq_head := mq_next mq msg\<rparr>;
             mq2 = (if mq_tail mq1 = Some msg then mq1\<lparr>mq_tail := None\<rparr> else mq1)
         in mq_drain (mq_release msg mq2)))"

definition rt_mq_control :: "rt_messagequeue \<Rightarrow> nat \<Rightarrow> kern \<Rightarrow> (rt_err_t \<times> rt_messagequeue \<times> kern) option" where
  "rt_mq_control mq cmd s = do {
     RT_ASSERT (rt_object_get_type (mq_ref mq) s = RT_Object_Class_MessageQueue);
     if cmd = RT_IPC_CMD_RESET then do {
       s1 \<leftarrow> rt_ipc_list_resume_all (SuspendQ (mq_ref mq)) s;
       mq1 \<leftarrow> mq_drain mq;
       s2 \<leftarrow> rt_schedule s1;
       Some (RT_EOK, mq1\<lparr>mq_entry := 0\<rparr>, s2) }
     else Some (- RT_ERROR, mq, s) }"

section \<open>The pool\<close>

text \<open>\<open>chain nx p xs\<close>: following \<open>nx\<close> from the pointer \<open>p\<close> visits \<open>xs\<close> and ends at null.\<close>

fun chain :: "(nat \<Rightarrow> nat option) \<Rightarrow> nat option \<Rightarrow> nat list \<Rightarrow> bool" where
  "chain nx p [] \<longleftrightarrow> p = None"
| "chain nx p (x # xs) \<longleftrightarrow> p = Some x \<and> chain nx (nx x) xs"

lemma chain_frame: "a \<notin> set xs \<Longrightarrow> chain (nx(a := b)) p xs = chain nx p xs"
  by (induction xs arbitrary: p) auto

lemma chain_unique: "chain nx p xs \<Longrightarrow> chain nx p ys \<Longrightarrow> xs = ys"
proof (induction xs arbitrary: p ys)
  case Nil
  then show ?case by (cases ys) auto
next
  case (Cons x xs)
  then show ?case by (cases ys) auto
qed

lemma chain_snoc:
  "chain nx p (xs @ [x]) \<Longrightarrow> y \<notin> set (xs @ [x]) \<Longrightarrow> x \<notin> set xs \<Longrightarrow> nx y = None \<Longrightarrow>
   chain (nx(x := Some y)) p (xs @ [x, y])"
  by (induction xs arbitrary: p) auto

text \<open>The slots: \<open>qs\<close> queued in order, \<open>fs\<close> free, \<open>fl\<close> in the hands of a call.\<close>

definition mq_ok :: "rt_messagequeue \<Rightarrow> nat list \<Rightarrow> nat list \<Rightarrow> nat set \<Rightarrow> bool" where
  "mq_ok mq qs fs fl \<longleftrightarrow> chain (mq_next mq) (mq_head mq) qs \<and> chain (mq_next mq) (mq_free mq) fs \<and>
     distinct (qs @ fs) \<and> fl \<inter> set (qs @ fs) = {} \<and> set (qs @ fs) \<union> fl = {0..<unat (mq_max_msgs mq)} \<and>
     mq_tail mq = (if qs = [] then None else Some (last qs)) \<and> unat (mq_entry mq) = length qs \<and>
     (\<forall>n < unat (mq_max_msgs mq). length (mq_data mq n) = unat (mq_msg_size mq))"

lemma mq_okD:
  assumes "mq_ok mq qs fs fl"
  shows "chain (mq_next mq) (mq_head mq) qs" "chain (mq_next mq) (mq_free mq) fs" "distinct (qs @ fs)"
    "fl \<inter> set (qs @ fs) = {}" "set (qs @ fs) \<union> fl = {0..<unat (mq_max_msgs mq)}"
    "mq_tail mq = (if qs = [] then None else Some (last qs))" "unat (mq_entry mq) = length qs"
    "\<And>n. n < unat (mq_max_msgs mq) \<Longrightarrow> length (mq_data mq n) = unat (mq_msg_size mq)"
  using assms unfolding mq_ok_def by blast+

lemma distinct_bounded: "distinct xs \<Longrightarrow> set xs \<subseteq> {0..<n} \<Longrightarrow> length xs \<le> n"
  using card_mono [of "{0..<n}" "set xs"] by (simp add: distinct_card)

lemma mq_length:
  assumes "mq_ok mq qs fs fl"
  shows "length qs + length fs \<le> unat (mq_max_msgs mq)"
  using distinct_bounded [OF mq_okD(3) [OF assms]] mq_okD(5) [OF assms] by simp blast

lemma mq_alloc_ok:
  assumes "mq_ok mq qs fs fl"
  shows "case fs of [] \<Rightarrow> mq_alloc mq = None
    | n # fs' \<Rightarrow> \<exists>mq'. mq_alloc mq = Some (n, mq') \<and> mq_ok mq' qs fs' (insert n fl) \<and> n \<notin> fl \<and>
        mq_data mq' = mq_data mq \<and> mq_msg_size mq' = mq_msg_size mq \<and> mq_max_msgs mq' = mq_max_msgs mq \<and>
        mq_ref mq' = mq_ref mq"
proof (cases fs)
  case Nil
  then show ?thesis using mq_okD(2) [OF assms] by (simp add: mq_alloc_def)
next
  case (Cons n fs')
  have f: "mq_free mq = Some n" "chain (mq_next mq) (mq_next mq n) fs'"
    using mq_okD(2) [OF assms] Cons by simp_all
  have "mq_ok (mq\<lparr>mq_free := mq_next mq n\<rparr>) qs fs' (insert n fl)"
    using assms Cons f(2) by (auto simp: mq_ok_def)
  moreover have "n \<notin> fl" using mq_okD(4) [OF assms] Cons by auto
  ultimately show ?thesis using f(1) Cons by (simp add: mq_alloc_def)
qed

lemma mq_fill_ok:
  assumes "mq_ok mq qs fs fl" "n \<in> fl" "length b \<le> unat (mq_msg_size mq)"
  shows "mq_ok (mq_copy_in n b mq) qs fs fl" "mq_ok (mq_fill n b mq) qs fs fl" "mq_next (mq_fill n b mq) n = None"
    "take (length b) (mq_data (mq_fill n b mq) n) = b" "take (length b) (mq_data (mq_copy_in n b mq) n) = b"
    "\<And>m. m \<noteq> n \<Longrightarrow> mq_data (mq_fill n b mq) m = mq_data mq m \<and> mq_data (mq_copy_in n b mq) m = mq_data mq m"
proof -
  have n: "n \<notin> set qs" "n \<notin> set fs" "n < unat (mq_max_msgs mq)"
    using mq_okD(4,5) [OF assms(1)] assms(2) by auto
  have c: "mq_ok (mq_copy_in n b m) qs fs fl" if "mq_ok m qs fs fl" "length b \<le> unat (mq_msg_size m)" for m
    using that by (auto simp: mq_ok_def mq_copy_in_def)
  show "mq_ok (mq_copy_in n b mq) qs fs fl" by (rule c [OF assms(1,3)])
  have "mq_ok (mq\<lparr>mq_next := (mq_next mq)(n := None)\<rparr>) qs fs fl"
    using assms(1) n by (simp add: mq_ok_def chain_frame)
  then show "mq_ok (mq_fill n b mq) qs fs fl" unfolding mq_fill_def by (rule c) (use assms(3) in simp)
qed (simp_all add: mq_fill_def mq_copy_in_def)

lemma mq_link_ok:
  assumes "mq_ok mq qs fs fl" "n \<in> fl" "mq_next mq n = None"
  shows "mq_ok (mq_link n mq) (qs @ [n]) fs (fl - {n})"
proof -
  note d = mq_okD [OF assms(1)]
  have n: "n \<notin> set qs" "n \<notin> set fs" "n < unat (mq_max_msgs mq)" using d(4,5) assms(2) by auto
  have len: "length (n # qs @ fs) \<le> unat (mq_max_msgs mq)"
    by (rule distinct_bounded) (use d(3,5) n in auto)
  then have "unat (mq_entry mq) < unat (mq_max_msgs mq)" using d(7) by simp
  then have e: "unat (mq_entry mq + 1) = Suc (length qs)"
    using unat_succ_less [of "mq_entry mq" "mq_max_msgs mq"] d(7) by (simp add: word_less_nat_alt)
  show ?thesis
  proof (cases qs rule: rev_cases)
    case Nil
    then show ?thesis using assms d n e by (auto simp: mq_ok_def mq_link_def Let_def)
  next
    case (snoc ys y)
    have h: "mq_head mq \<noteq> None" using d(1) snoc by (cases ys) auto
    have y: "y \<notin> set ys" "y \<notin> set fs" using d(3) snoc by auto
    have "chain ((mq_next mq)(y := Some n)) (mq_head mq) (ys @ [y, n])"
      by (rule chain_snoc) (use d(1) snoc n assms(3) y in auto)
    then show ?thesis using assms d n e snoc y h by (auto simp: mq_ok_def mq_link_def Let_def chain_frame)
  qed
qed

lemma mq_link_front_ok:
  assumes "mq_ok mq qs fs fl" "n \<in> fl"
  shows "mq_ok (mq_link_front n mq) (n # qs) fs (fl - {n})"
proof -
  note d = mq_okD [OF assms(1)]
  have n: "n \<notin> set qs" "n \<notin> set fs" "n < unat (mq_max_msgs mq)" using d(4,5) assms(2) by auto
  have "length (n # qs @ fs) \<le> unat (mq_max_msgs mq)" by (rule distinct_bounded) (use d(3,5) n in auto)
  then have "unat (mq_entry mq) < unat (mq_max_msgs mq)" using d(7) by simp
  then have e: "unat (mq_entry mq + 1) = Suc (length qs)"
    using unat_succ_less [of "mq_entry mq" "mq_max_msgs mq"] d(7) by (simp add: word_less_nat_alt)
  show ?thesis using assms d n e by (auto simp: mq_ok_def mq_link_front_def Let_def chain_frame)
qed

lemma mq_unlink_ok:
  assumes "mq_ok mq (n # qs) fs fl"
  shows "\<exists>mq'. mq_unlink mq = Some (n, mq') \<and> mq_ok mq' qs fs (insert n fl) \<and> n \<notin> fl \<and>
    mq_data mq' = mq_data mq \<and> mq_msg_size mq' = mq_msg_size mq \<and> mq_max_msgs mq' = mq_max_msgs mq \<and>
    mq_ref mq' = mq_ref mq"
proof -
  note d = mq_okD [OF assms]
  have "unat (mq_entry mq) = Suc (length qs)" using d(7) by simp
  moreover from this have "mq_entry mq \<noteq> 0" by auto
  ultimately have e: "unat (mq_entry mq - 1) = length qs" by (simp add: unat_minus_one)
  have h: "mq_head mq = Some n" using d(1) by simp
  have l: "qs \<noteq> [] \<Longrightarrow> last qs \<noteq> n" using d(3) last_in_set [of qs] by auto
  define mq' where "mq' = (if mq_tail mq = Some n then mq\<lparr>mq_head := mq_next mq n, mq_tail := None\<rparr>
      else mq\<lparr>mq_head := mq_next mq n\<rparr>)\<lparr>mq_entry := mq_entry mq - 1\<rparr>"
  have "mq_unlink mq = Some (n, mq')" using h by (simp add: mq_unlink_def Let_def mq'_def)
  moreover have "mq_ok mq' qs fs (insert n fl)"
    using assms d e l by (auto simp: mq_ok_def mq'_def)
  moreover have "n \<notin> fl" using d(4) by auto
  ultimately show ?thesis by (simp add: mq'_def)
qed

lemma mq_release_ok:
  assumes "mq_ok mq qs fs fl" "n \<in> fl"
  shows "mq_ok (mq_release n mq) qs (n # fs) (fl - {n})"
proof -
  have n: "n \<notin> set qs" "n \<notin> set fs" using mq_okD(4) [OF assms(1)] assms(2) by auto
  show ?thesis using assms n by (auto simp: mq_ok_def mq_release_def chain_frame)
qed

text \<open>The loop leaves the message count alone, so the count before it is arbitrary.\<close>

lemma mq_drain_ok:
  assumes "mq_ok (mq\<lparr>mq_entry := e\<rparr>) qs fs fl"
  shows "\<exists>mq'. mq_drain mq = Some mq' \<and> mq_ok (mq'\<lparr>mq_entry := 0\<rparr>) [] (rev qs @ fs) fl \<and> mq_ref mq' = mq_ref mq \<and>
    (\<forall>n. n \<notin> set qs \<longrightarrow> mq_next mq' n = mq_next mq n)"
  using assms
proof (induction qs arbitrary: mq e fs)
  case Nil
  have "mq_head mq = None" using mq_okD(1) [OF Nil] by simp
  then show ?case using Nil by (subst mq_drain.simps) (auto simp: mq_ok_def)
next
  case (Cons n qs)
  obtain mq1 where u: "mq_unlink (mq\<lparr>mq_entry := e\<rparr>) = Some (n, mq1)" "mq_ok mq1 qs fs (insert n fl)" "n \<notin> fl"
    using mq_unlink_ok [OF Cons.prems] by blast
  have r: "mq_ok (mq_release n mq1) qs (n # fs) fl" using mq_release_ok [OF u(2), of n] u(3) by simp
  have h: "mq_head mq = Some n" using mq_okD(1) [OF Cons.prems] by simp
  define mq2 where "mq2 = (if mq_tail mq = Some n then mq\<lparr>mq_head := mq_next mq n, mq_tail := None\<rparr>
      else mq\<lparr>mq_head := mq_next mq n\<rparr>)"
  have "mq1 = mq2\<lparr>mq_entry := e - 1\<rparr>" using u(1) h by (auto simp: mq_unlink_def Let_def mq2_def split: if_splits)
  then have "mq_release n mq1 = (mq_release n mq2)\<lparr>mq_entry := e - 1\<rparr>" by (cases mq2) (simp add: mq_release_def)
  then have "mq_ok ((mq_release n mq2)\<lparr>mq_entry := e - 1\<rparr>) qs (n # fs) fl" using r by simp
  from Cons.IH [OF this] obtain mq' where "mq_drain (mq_release n mq2) = Some mq'"
    "mq_ok (mq'\<lparr>mq_entry := 0\<rparr>) [] (rev qs @ n # fs) fl" "mq_ref mq' = mq_ref (mq_release n mq2)"
    "\<And>k. k \<notin> set qs \<Longrightarrow> mq_next mq' k = mq_next (mq_release n mq2) k" by blast
  moreover have "mq_drain mq = mq_drain (mq_release n mq2)"
    using h by (subst mq_drain.simps) (simp add: Let_def mq2_def)
  moreover have "mq_ref (mq_release n mq2) = mq_ref mq"
    "\<And>k. k \<noteq> n \<Longrightarrow> mq_next (mq_release n mq2) k = mq_next mq k"
    by (simp_all add: mq_release_def mq2_def)
  ultimately show ?case by auto
qed

lemma mq_init_free_ok:
  assumes "chain (mq_next mq) (mq_free mq) fs" "distinct (rev ts @ fs)"
  shows "chain (mq_next (mq_init_free ts mq)) (mq_free (mq_init_free ts mq)) (rev ts @ fs)"
    "\<exists>nx fr. mq_init_free ts mq = mq\<lparr>mq_next := nx, mq_free := fr\<rparr>"
  using assms
proof (induction ts arbitrary: mq fs)
  case (Cons t ts)
  have c: "chain ((mq_next mq)(t := mq_free mq)) (mq_free mq) fs"
    if "chain (mq_next mq) (mq_free mq) fs" "distinct (rev (t # ts) @ fs)" for mq fs
    using that chain_frame [of t fs "mq_next mq"] by simp
  {
    case 1
    show ?case using c [OF 1] Cons(1) [of "mq\<lparr>mq_next := (mq_next mq)(t := mq_free mq), mq_free := Some t\<rparr>" "t # fs"] 1
      by (simp add: fun_upd_def)
  next
    case 2
    show ?case using c [OF 2] Cons(2) [of "mq\<lparr>mq_next := (mq_next mq)(t := mq_free mq), mq_free := Some t\<rparr>" "t # fs"] 2
      by (auto simp: fun_upd_def)
  }
next
  case Nil
  {
    case 1
    then show ?case by simp
  next
    case 2
    show ?case by (rule exI [of _ "mq_next mq"], rule exI [of _ "mq_free mq"]) simp
  }
qed

lemma mq_setup_ok:
  assumes "\<And>n. n < unat msgs \<Longrightarrow> length (bytes n) = unat msize"
  shows "mq_ok (mq_setup r pool bytes msize msgs) [] (rev [0..<unat msgs]) {}"
proof -
  let ?m = "\<lparr>mq_ref = r, mq_pool_at = pool, mq_msg_size = msize, mq_max_msgs = msgs, mq_entry = 0,
        mq_head = None, mq_tail = None, mq_free = None, mq_next = (\<lambda>_. None), mq_data = bytes\<rparr>"
  have c: "chain (mq_next ?m) (mq_free ?m) []" "distinct (rev [0..<unat msgs] @ [])" by simp_all
  obtain nx fr where e: "mq_init_free [0..<unat msgs] ?m = ?m\<lparr>mq_next := nx, mq_free := fr\<rparr>"
    using mq_init_free_ok(2) [OF c] by blast
  have "chain nx fr (rev [0..<unat msgs])" using mq_init_free_ok(1) [OF c] unfolding e by simp
  then show ?thesis using assms unfolding mq_setup_def e by (simp add: mq_ok_def)
qed


section \<open>The pool as a bounded queue\<close>

fun walk :: "nat \<Rightarrow> (nat \<Rightarrow> nat option) \<Rightarrow> nat option \<Rightarrow> nat list" where
  "walk 0 nx p = []"
| "walk (Suc k) nx p = (case p of None \<Rightarrow> [] | Some x \<Rightarrow> x # walk k nx (nx x))"

lemma walk_chain: "chain nx p xs \<Longrightarrow> length xs \<le> k \<Longrightarrow> walk k nx p = xs"
proof (induction xs arbitrary: p k)
  case Nil
  then show ?case by (cases k) simp_all
next
  case (Cons x xs)
  then show ?case by (cases k) simp_all
qed

definition mq_slots :: "rt_messagequeue \<Rightarrow> nat list" where
  "mq_slots mq = walk (unat (mq_max_msgs mq)) (mq_next mq) (mq_head mq)"

definition mq_messages :: "rt_messagequeue \<Rightarrow> u8 list list" where
  "mq_messages mq = map (mq_data mq) (mq_slots mq)"

lemma mq_slots_eq: "mq_ok mq qs fs fl \<Longrightarrow> mq_slots mq = qs"
  using walk_chain [of "mq_next mq" "mq_head mq" qs] mq_okD(1) [of mq qs fs fl] mq_length [of mq qs fs fl]
  by (simp add: mq_slots_def)

definition mq_idle :: "rt_messagequeue \<Rightarrow> bool" where
  "mq_idle mq \<longleftrightarrow> (\<exists>qs fs. mq_ok mq qs fs {})"

lemma mq_idle_full: "mq_ok mq qs fs {} \<Longrightarrow> length qs + length fs = unat (mq_max_msgs mq)"
  using mq_okD(3,5) [of mq qs fs "{}"] distinct_card [of "qs @ fs"] by simp

lemma unat_ucast_u16: "unat (ucast (w :: u16) :: u32) = unat w"
  by (simp add: unsigned_ucast_eq take_bit_eq_mod unsigned_less order_less_trans [OF unsigned_less])

text \<open>The pool part of the calls, for messages of exactly the size of a slot.\<close>

definition mq_try_put :: "u8 list \<Rightarrow> rt_messagequeue \<Rightarrow> rt_messagequeue option" where
  "mq_try_put buffer mq =
     (if length buffer \<noteq> unat (mq_msg_size mq) then None
      else map_option (\<lambda>(msg, mq1). mq_link msg (mq_fill msg buffer mq1)) (mq_alloc mq))"

definition mq_try_get :: "rt_messagequeue \<Rightarrow> (u8 list \<times> rt_messagequeue) option" where
  "mq_try_get mq =
     (if mq_entry mq = 0 then None
      else map_option (\<lambda>(msg, mq1). (mq_read msg (ucast (mq_msg_size mq)) mq1, mq_release msg mq1)) (mq_unlink mq))"

lemma mq_link_same [simp]:
  "mq_data (mq_link n mq) = mq_data mq" "mq_msg_size (mq_link n mq) = mq_msg_size mq"
  "mq_max_msgs (mq_link n mq) = mq_max_msgs mq" "mq_ref (mq_link n mq) = mq_ref mq"
  "mq_data (mq_link_front n mq) = mq_data mq" "mq_msg_size (mq_link_front n mq) = mq_msg_size mq"
  "mq_max_msgs (mq_link_front n mq) = mq_max_msgs mq" "mq_ref (mq_link_front n mq) = mq_ref mq"
  "mq_data (mq_release n mq) = mq_data mq" "mq_msg_size (mq_release n mq) = mq_msg_size mq"
  "mq_max_msgs (mq_release n mq) = mq_max_msgs mq" "mq_ref (mq_release n mq) = mq_ref mq"
  "mq_msg_size (mq_fill n b mq) = mq_msg_size mq" "mq_max_msgs (mq_fill n b mq) = mq_max_msgs mq"
  "mq_ref (mq_fill n b mq) = mq_ref mq" "mq_msg_size (mq_copy_in n b mq) = mq_msg_size mq"
  "mq_max_msgs (mq_copy_in n b mq) = mq_max_msgs mq" "mq_ref (mq_copy_in n b mq) = mq_ref mq"
  by (simp_all add: mq_link_def mq_link_front_def mq_release_def mq_fill_def mq_copy_in_def Let_def split: option.split)

text \<open>What a send and an urgent send that find a free slot do to the pool.\<close>

lemma mq_send_pool:
  assumes "mq_ok mq qs (n # fs) {}" "length b \<le> unat (mq_msg_size mq)" "mq_alloc mq = Some (m, mq1)"
  shows "m = n" "mq_ok (mq_link m (mq_fill m b mq1)) (qs @ [n]) fs {}"
    "mq_ok (mq_link_front m (mq_copy_in m b mq1)) (n # qs) fs {}"
    "take (length b) (mq_data (mq_link m (mq_fill m b mq1)) n) = b"
    "take (length b) (mq_data (mq_link_front m (mq_copy_in m b mq1)) n) = b"
    "\<And>k. k \<noteq> n \<Longrightarrow> mq_data (mq_link m (mq_fill m b mq1)) k = mq_data mq k \<and>
       mq_data (mq_link_front m (mq_copy_in m b mq1)) k = mq_data mq k"
    "mq_msg_size mq1 = mq_msg_size mq" "mq_max_msgs mq1 = mq_max_msgs mq" "mq_ref mq1 = mq_ref mq"
proof -
  have a: "m = n" "mq_ok mq1 qs fs {n}" "mq_data mq1 = mq_data mq" "mq_msg_size mq1 = mq_msg_size mq"
    "mq_max_msgs mq1 = mq_max_msgs mq" "mq_ref mq1 = mq_ref mq"
    using mq_alloc_ok [OF assms(1)] assms(3) by auto
  have l: "length b \<le> unat (mq_msg_size mq1)" using assms(2) a(4) by simp
  note f = mq_fill_ok [OF a(2) _ l, of n, simplified]
  show "m = n" "mq_msg_size mq1 = mq_msg_size mq" "mq_max_msgs mq1 = mq_max_msgs mq" "mq_ref mq1 = mq_ref mq"
    by fact+
  show "mq_ok (mq_link m (mq_fill m b mq1)) (qs @ [n]) fs {}"
    using mq_link_ok [OF f(2) _ f(3)] a(1) by simp
  show "mq_ok (mq_link_front m (mq_copy_in m b mq1)) (n # qs) fs {}"
    using mq_link_front_ok [OF f(1), of n] a(1) by simp
  show "take (length b) (mq_data (mq_link m (mq_fill m b mq1)) n) = b"
    "take (length b) (mq_data (mq_link_front m (mq_copy_in m b mq1)) n) = b"
    using f(4,5) a(1) by simp_all
  show "\<And>k. k \<noteq> n \<Longrightarrow> mq_data (mq_link m (mq_fill m b mq1)) k = mq_data mq k \<and>
       mq_data (mq_link_front m (mq_copy_in m b mq1)) k = mq_data mq k"
    using f(6) a(1,3) by simp
qed

interpretation mq: bounded_fifo mq_idle "\<lambda>b mq. length b = unat (mq_msg_size mq)" mq_messages
  "\<lambda>mq. unat (mq_max_msgs mq)" mq_try_put mq_try_get
proof (unfold_locales, goal_cases)
  case (1 mq)
  then show ?case using mq_idle_full mq_slots_eq by (fastforce simp: mq_idle_def mq_messages_def)
next
  case (2 mq b)
  then obtain qs fs where m: "mq_ok mq qs fs {}" by (auto simp: mq_idle_def)
  then have "fs = []" using 2(2) mq_idle_full [OF m] mq_slots_eq [OF m] by (simp add: mq_messages_def)
  then show ?case using mq_alloc_ok [OF m] by (simp add: mq_try_put_def)
next
  case (3 mq b)
  then show ?case by (simp add: mq_try_put_def)
next
  case (4 mq b)
  then obtain qs fs where m: "mq_ok mq qs fs {}" by (auto simp: mq_idle_def)
  have "length qs < unat (mq_max_msgs mq)" using 4(3) mq_slots_eq [OF m] by (simp add: mq_messages_def)
  then obtain n fs' where fs: "fs = n # fs'" using mq_idle_full [OF m] by (cases fs) auto
  obtain mq1 where a: "mq_alloc mq = Some (n, mq1)" using mq_alloc_ok [OF m] fs by auto
  have l: "length b \<le> unat (mq_msg_size mq)" using 4(2) by simp
  note s = mq_send_pool [OF m [unfolded fs] l a]
  let ?m = "mq_link n (mq_fill n b mq1)"
  have "n \<in> set (qs @ fs) \<union> {}" using fs by simp
  then have "n < unat (mq_max_msgs mq)" unfolding mq_okD(5) [OF m] by simp
  then have d: "length (mq_data ?m n) = length b" "n \<notin> set qs"
    using mq_okD(8) [OF s(2), of n] mq_okD(3) [OF m] fs s(7,8) 4(2) by auto
  have "map (mq_data ?m) qs = map (mq_data mq) qs" using s(6) d(2) by (intro map_cong) (auto, metis)
  moreover have "mq_data ?m n = b" using s(4) d(1) by simp
  ultimately have "mq_messages ?m = mq_messages mq @ [b]"
    using mq_slots_eq [OF s(2)] mq_slots_eq [OF m] by (simp add: mq_messages_def)
  then show ?case using a 4(2) s(2,8) by (auto simp: mq_try_put_def mq_idle_def)
next
  case (5 mq)
  then obtain qs fs where m: "mq_ok mq qs fs {}" by (auto simp: mq_idle_def)
  have "qs = []" using 5(2) mq_slots_eq [OF m] by (simp add: mq_messages_def)
  then have "mq_entry mq = 0" using mq_okD(7) [OF m] by (simp add: unat_eq_zero)
  then show ?case by (simp add: mq_try_get_def)
next
  case (6 mq b bs)
  then obtain qs fs where m: "mq_ok mq qs fs {}" by (auto simp: mq_idle_def)
  obtain n qs' where q: "qs = n # qs'" "b = mq_data mq n" "bs = map (mq_data mq) qs'"
    using 6(2) mq_slots_eq [OF m] by (auto simp: mq_messages_def)
  obtain mq1 where u: "mq_unlink mq = Some (n, mq1)" "mq_ok mq1 qs' fs {n}" "mq_data mq1 = mq_data mq"
    "mq_msg_size mq1 = mq_msg_size mq" "mq_max_msgs mq1 = mq_max_msgs mq"
    using mq_unlink_ok [OF m [unfolded q(1)]] by auto
  have r: "mq_ok (mq_release n mq1) qs' (n # fs) {}" using mq_release_ok [OF u(2), of n] by simp
  have "n \<in> set (qs @ fs) \<union> {}" using q(1) by simp
  then have "n < unat (mq_max_msgs mq)" unfolding mq_okD(5) [OF m] by simp
  then have "length (mq_data mq n) = unat (mq_msg_size mq)" by (rule mq_okD(8) [OF m])
  moreover have "mq_entry mq \<noteq> 0" using mq_okD(7) [OF m] q(1) by auto
  moreover from calculation have "mq_read n (ucast (mq_msg_size mq)) mq1 = b" using q(2) u(3,4)
    by (simp add: mq_read_def unat_ucast_u16)
  moreover have "mq_messages (mq_release n mq1) = bs"
    using mq_slots_eq [OF r] q(3) u(3) by (simp add: mq_messages_def)
  ultimately show ?case using u(1,5) r by (auto simp: mq_try_get_def mq_idle_def)
qed


section \<open>Interleaved calls\<close>

text \<open>What a call that holds a slot has done with it: taken it from the free list, filled it for a send,
  filled it for an urgent send, or unlinked it from the queue to read it.\<close>

datatype slot_phase = Allocated | Filled | Copied | Fetched

inductive mq_section :: "rt_messagequeue \<times> (nat \<rightharpoonup> slot_phase) \<Rightarrow> rt_messagequeue \<times> (nat \<rightharpoonup> slot_phase) \<Rightarrow> bool" where
  alloc: "mq_alloc mq = Some (n, mq') \<Longrightarrow> mq_section (mq, held) (mq', held(n \<mapsto> Allocated))"
| fill: "held n = Some Allocated \<Longrightarrow> length b \<le> unat (mq_msg_size mq) \<Longrightarrow>
    mq_section (mq, held) (mq_fill n b mq, held(n \<mapsto> Filled))"
| copy_in: "held n = Some Allocated \<Longrightarrow> length b \<le> unat (mq_msg_size mq) \<Longrightarrow>
    mq_section (mq, held) (mq_copy_in n b mq, held(n \<mapsto> Copied))"
| link: "held n = Some Filled \<Longrightarrow> mq_section (mq, held) (mq_link n mq, held(n := None))"
| link_front: "held n = Some Copied \<Longrightarrow> mq_section (mq, held) (mq_link_front n mq, held(n := None))"
| unlink: "mq_entry mq \<noteq> 0 \<Longrightarrow> mq_unlink mq = Some (n, mq') \<Longrightarrow> mq_section (mq, held) (mq', held(n \<mapsto> Fetched))"
| release: "held n = Some Fetched \<Longrightarrow> mq_section (mq, held) (mq_release n mq, held(n := None))"
| drain: "mq_drain mq = Some mq' \<Longrightarrow> mq_section (mq, held) (mq'\<lparr>mq_entry := 0\<rparr>, held)"

definition mq_shared :: "rt_messagequeue \<times> (nat \<rightharpoonup> slot_phase) \<Rightarrow> bool" where
  "mq_shared st \<longleftrightarrow> (\<exists>qs fs. mq_ok (fst st) qs fs (dom (snd st))) \<and>
     (\<forall>n. snd st n = Some Filled \<longrightarrow> mq_next (fst st) n = None)"

lemma mq_sharedI:
  "mq_ok mq qs fs fl \<Longrightarrow> fl = dom held \<Longrightarrow> (\<And>n. held n = Some Filled \<Longrightarrow> mq_next mq n = None) \<Longrightarrow>
   mq_shared (mq, held)"
  by (auto simp: mq_shared_def)

lemma mq_section_shared: "mq_section st st' \<Longrightarrow> mq_shared st \<Longrightarrow> mq_shared st'"
proof (induction rule: mq_section.induct)
  case (alloc mq n mq' held)
  then obtain qs fs where m: "mq_ok mq qs fs (dom held)" and f: "\<And>n. held n = Some Filled \<Longrightarrow> mq_next mq n = None"
    by (auto simp: mq_shared_def)
  from mq_alloc_ok [OF m] alloc(1) obtain fs' where "mq_ok mq' qs fs' (insert n (dom held))"
    by (cases fs) auto
  moreover have "mq_next mq' = mq_next mq" using alloc(1) by (auto simp: mq_alloc_def split: option.splits)
  ultimately show ?case using f by (intro mq_sharedI) (auto split: if_splits)
next
  case (fill held n b mq)
  then obtain qs fs where m: "mq_ok mq qs fs (dom held)" and f: "\<And>n. held n = Some Filled \<Longrightarrow> mq_next mq n = None"
    by (auto simp: mq_shared_def)
  have "n \<in> dom held" using fill(1) by auto
  note r = mq_fill_ok [OF m this fill(2)]
  show ?case by (rule mq_sharedI [OF r(2)]) (use fill(1) f in \<open>auto simp: mq_fill_def mq_copy_in_def split: if_splits\<close>)
next
  case (copy_in held n b mq)
  then obtain qs fs where m: "mq_ok mq qs fs (dom held)" and f: "\<And>n. held n = Some Filled \<Longrightarrow> mq_next mq n = None"
    by (auto simp: mq_shared_def)
  have "n \<in> dom held" using copy_in(1) by auto
  note r = mq_fill_ok [OF m this copy_in(2)]
  show ?case by (rule mq_sharedI [OF r(1)]) (use copy_in(1) f in \<open>auto simp: mq_copy_in_def split: if_splits\<close>)
next
  case (link held n mq)
  then obtain qs fs where m: "mq_ok mq qs fs (dom held)" and f: "\<And>n. held n = Some Filled \<Longrightarrow> mq_next mq n = None"
    by (auto simp: mq_shared_def)
  have n: "n \<in> dom held" "mq_next mq n = None" using link(1) f by auto
  have t: "mq_tail mq \<noteq> Some k" if "held k = Some Filled" for k
    using mq_okD(4,6) [OF m] that last_in_set [of qs] by (auto split: if_splits)
  show ?case by (rule mq_sharedI [OF mq_link_ok [OF m n]])
      (use f t in \<open>auto simp: mq_link_def Let_def split: option.splits if_splits\<close>)
next
  case (link_front held n mq)
  then obtain qs fs where m: "mq_ok mq qs fs (dom held)" and f: "\<And>n. held n = Some Filled \<Longrightarrow> mq_next mq n = None"
    by (auto simp: mq_shared_def)
  have n: "n \<in> dom held" using link_front(1) by auto
  show ?case by (rule mq_sharedI [OF mq_link_front_ok [OF m n]])
      (use f in \<open>auto simp: mq_link_front_def Let_def split: if_splits\<close>)
next
  case (unlink mq n mq' held)
  then obtain qs fs where m: "mq_ok mq qs fs (dom held)" and f: "\<And>n. held n = Some Filled \<Longrightarrow> mq_next mq n = None"
    by (auto simp: mq_shared_def)
  obtain k qs' where q: "qs = k # qs'" using mq_okD(7) [OF m] unlink(1) by (cases qs) (auto simp: unat_eq_zero)
  have u: "k = n" "mq_ok mq' qs' fs (insert n (dom held))" using mq_unlink_ok [OF m [unfolded q]] unlink(2) by auto
  have "mq_next mq' = mq_next mq" using unlink(2) by (auto simp: mq_unlink_def Let_def split: option.splits)
  then show ?case using f by (intro mq_sharedI [OF u(2)]) (auto split: if_splits)
next
  case (release held n mq)
  then obtain qs fs where m: "mq_ok mq qs fs (dom held)" and f: "\<And>n. held n = Some Filled \<Longrightarrow> mq_next mq n = None"
    by (auto simp: mq_shared_def)
  have n: "n \<in> dom held" using release(1) by auto
  show ?case by (rule mq_sharedI [OF mq_release_ok [OF m n]])
      (use f in \<open>auto simp: mq_release_def split: if_splits\<close>)
next
  case (drain mq mq' held)
  then obtain qs fs where m: "mq_ok mq qs fs (dom held)" and f: "\<And>n. held n = Some Filled \<Longrightarrow> mq_next mq n = None"
    by (auto simp: mq_shared_def)
  have "mq_ok (mq\<lparr>mq_entry := mq_entry mq\<rparr>) qs fs (dom held)" using m by simp
  from mq_drain_ok [OF this] drain(1) have d: "mq_ok (mq'\<lparr>mq_entry := 0\<rparr>) [] (rev qs @ fs) (dom held)"
    "\<And>n. n \<notin> set qs \<Longrightarrow> mq_next mq' n = mq_next mq n" by auto
  have "k \<notin> set qs" if "held k = Some Filled" for k using mq_okD(4) [OF m] that by auto
  then show ?case using d(2) f by (intro mq_sharedI [OF d(1)]) auto
qed

lemma mq_sections_shared: "mq_section\<^sup>*\<^sup>* st st' \<Longrightarrow> mq_shared st \<Longrightarrow> mq_shared st'"
  by (induction rule: rtranclp_induct) (auto intro: mq_section_shared)

end
