(* ===== verification/Message_Props.thy ===== *)
theory Message_Props
  imports Message_Queue Ipc_Props
begin

text \<open>
  The properties of the mailbox and of the message queue: order and completeness of delivery, no lost
  wake-up, the pool of the message queue under interleaved calls, urgent messages, refused calls.
\<close>

section \<open>Mailboxes\<close>

definition demo_box :: "u32 list \<Rightarrow> u16 \<Rightarrow> u16 \<Rightarrow> u16 \<Rightarrow> rt_mailbox" where
  "demo_box ws n i out = \<lparr>mb_ref = Obj 14, mb_pool_at = 0x2000, mb_pool = ws, mb_size = 2, mb_entry = n,
     mb_in_offset = i, mb_out_offset = out\<rparr>"

definition demo_sys :: "rt_mailbox \<Rightarrow> u32 list \<Rightarrow> u32 list \<Rightarrow> mb_sys" where
  "demo_sys mb si ri = \<lparr>box = mb, krn = demo, recvs_due = 0, sends_due = 0, sent = si, received = ri\<rparr>"

lemma demo_box_inv: "mb_inv (demo_sys (demo_box [7, 8] 0 1 1) [] [])"
  using demo_kinv by (simp add: mb_inv_def mb_sound_def demo_sys_def demo_box_def mb_ok_def mb_queue_def
      ipc_header_def waiters_clean_def rt_object_get_type_def)

lemma demo_box_steps:
  "mb_step\<^sup>*\<^sup>* (demo_sys (demo_box [7, 8] 0 1 1) [] []) (demo_sys (demo_box [7, 42] 1 0 1) [42] [])"
proof -
  have r: "runs (krn (demo_sys (demo_box [7, 8] 0 1 1) [] [])) 1"
    by (simp add: demo_sys_def rt_object_get_type_def)
  have "rt_mb_send_wait (box (demo_sys (demo_box [7, 8] 0 1 1) [] [])) 42 0 (krn (demo_sys (demo_box [7, 8] 0 1 1) [] []))
      = Some (Returned RT_EOK, demo_box [7, 42] 1 0 1, demo)"
    by (simp add: demo_sys_def demo_box_def rt_mb_send_wait_def mb_send_loop_def mb_put_def mb_wake_one_def
        rt_object_get_type_def)
  from mb_step.send [OF r _ this]
  have "mb_step (demo_sys (demo_box [7, 8] 0 1 1) [] []) (demo_sys (demo_box [7, 42] 1 0 1) [42] [])"
    by (simp add: demo_sys_def demo_box_def released_def accepted_def)
  then show ?thesis by simp
qed

text \<open>C13: However sends, receives, their wake-ups and resets of a mailbox interleave with each other and
  with the rest of the kernel, the messages accepted since the last reset are, in order, the messages
  delivered followed by the messages in the mailbox, which never holds more than its size: no message is
  lost, duplicated or overtaken.\<close>

theorem mailbox_delivers_in_order:
  assumes "mb_step\<^sup>*\<^sup>* m m'" "mb_inv m"
  shows "sent m' = received m' @ mb_queue (box m') \<and> length (mb_queue (box m')) \<le> unat (mb_size (box m'))"
proof -
  have "mb_inv m'" by (rule mb_steps_inv [OF assms])
  then show ?thesis using mb.bounded [of "box m'"] by (simp add: mb_inv_def mb_sound_def)
qed

theorem mailbox_delivers_in_order_witness:
  "[42] = [] @ mb_queue (demo_box [7, 42] 1 0 1) \<and> length (mb_queue (demo_box [7, 42] 1 0 1)) \<le> 2"
  using mailbox_delivers_in_order [OF demo_box_steps demo_box_inv] by (simp add: demo_sys_def demo_box_def)

text \<open>No wake-up is lost: in every such state, if a thread waits to receive, then for every message in
  the mailbox there is a receiver that was released and still has to run; if a thread waits to send,
  then the same holds for the free places and the senders.\<close>

theorem mailbox_no_lost_wakeup:
  assumes "mb_step\<^sup>*\<^sup>* m m'" "mb_inv m"
  shows "(queues (krn m') (SuspendQ (mb_ref (box m'))) \<noteq> [] \<longrightarrow> unat (mb_entry (box m')) \<le> recvs_due m') \<and>
    (queues (krn m') (SenderQ (mb_ref (box m'))) \<noteq> [] \<longrightarrow>
       unat (mb_size (box m')) - unat (mb_entry (box m')) \<le> sends_due m')"
proof -
  have "mb_inv m'" by (rule mb_steps_inv [OF assms])
  then show ?thesis by (auto simp: mb_inv_def mb_sound_def)
qed

text \<open>Thread 5 waits to receive; the message that thread 1 sends releases it.\<close>

definition demo_wait_sys :: mb_sys where
  "demo_wait_sys = (demo_sys (demo_box [7, 8] 0 1 1) [] [])\<lparr>krn := demo_wait (SuspendQ (Obj 14))\<rparr>"

lemma demo_wait_sys_inv: "mb_inv demo_wait_sys"
  using demo_wait_kinv [of "SuspendQ (Obj 14)"]
  by (simp add: mb_inv_def mb_sound_def demo_wait_sys_def demo_sys_def demo_box_def mb_ok_def mb_queue_def
      ipc_header_def waiters_clean_def rt_object_get_type_def)

theorem mailbox_no_lost_wakeup_witness:
  "queues (krn demo_wait_sys) (SuspendQ (Obj 14)) = [5] \<and> unat (mb_entry (box demo_wait_sys)) \<le> 0"
  using mailbox_no_lost_wakeup [OF rtranclp.rtrancl_refl demo_wait_sys_inv]
  by (simp add: demo_wait_sys_def demo_sys_def demo_box_def)

section \<open>Message queues\<close>

definition demo_mq :: rt_messagequeue where
  "demo_mq = mq_setup (Obj 15) 0x3000 (\<lambda>_. replicate 8 0) 8 2"

lemma demo_mq_ok: "mq_ok demo_mq [] [1, 0] {}"
  using mq_setup_ok [of 2 "\<lambda>_. replicate 8 0" 8 "Obj 15" "0x3000"] by (simp add: demo_mq_def upt_rec)

lemma demo_mq_simps [simp]: "mq_ref demo_mq = Obj 15" "mq_msg_size demo_mq = 8" "mq_max_msgs demo_mq = 2"
  by (simp_all add: demo_mq_def mq_setup_def upt_rec)

text \<open>C14: The slots of a message queue under concurrency: however the critical sections of any number of
  sends, urgent sends, receives and resets interleave, every slot of the pool is in exactly one place:
  queued, free, or in the hands of one call; the links, the head, the tail and the count describe the
  queue. When no call is in progress, no slot has been lost.\<close>

theorem mq_slots_partition:
  assumes "mq_section\<^sup>*\<^sup>* (mq, held) (mq', held')" "mq_shared (mq, held)"
  shows "\<exists>qs fs. chain (mq_next mq') (mq_head mq') qs \<and> chain (mq_next mq') (mq_free mq') fs \<and>
    distinct (qs @ fs) \<and> dom held' \<inter> set (qs @ fs) = {} \<and>
    set (qs @ fs) \<union> dom held' = {0..<unat (mq_max_msgs mq')} \<and> unat (mq_entry mq') = length qs \<and>
    (held' = Map.empty \<longrightarrow> length qs + length fs = unat (mq_max_msgs mq'))"
proof -
  obtain qs fs where m: "mq_ok mq' qs fs (dom held')"
    using mq_sections_shared [OF assms] by (auto simp: mq_shared_def)
  have "held' = Map.empty \<longrightarrow> length qs + length fs = unat (mq_max_msgs mq')"
    using mq_idle_full [of mq' qs fs] m by auto
  then show ?thesis using mq_okD [OF m] by blast
qed

theorem mq_slots_partition_witness:
  "\<exists>mq' qs fs. mq_alloc demo_mq = Some (1, mq') \<and> distinct (qs @ fs) \<and> set (qs @ fs) \<union> {1} = {0..<2 :: nat}"
proof -
  obtain mq' where a: "mq_alloc demo_mq = Some (1, mq')" "mq_max_msgs mq' = 2"
    using mq_alloc_ok [OF demo_mq_ok] by auto
  have "mq_shared (demo_mq, Map.empty)" by (rule mq_sharedI [OF demo_mq_ok]) simp_all
  moreover have "mq_section\<^sup>*\<^sup>* (demo_mq, Map.empty) (mq', Map.empty(1 \<mapsto> Allocated))"
    using mq_section.alloc [OF a(1)] by (rule r_into_rtranclp)
  ultimately obtain qs fs where "distinct (qs @ fs)" "set (qs @ fs) \<union> dom [1 \<mapsto> Allocated] = {0..<unat (mq_max_msgs mq')}"
    using mq_slots_partition by blast
  then show ?thesis using a by (intro exI [of _ mq'] exI [of _ qs] exI [of _ fs]) simp
qed

text \<open>The calls of all threads on one queue, and what they handed over: \<open>mq_order\<close> are the messages that were
  accepted, in the order in which they are to be delivered (a send adds its message at the end, an urgent
  send before all that are still to be delivered, a reset drops these); \<open>mq_fetched\<close> are the receives that
  delivered something, each with the size of its buffer and the bytes it got. Between two calls the kernel
  may go on in any way: its whole state changes freely.\<close>

record mq_sys =
  mq_queue :: rt_messagequeue
  mq_krn :: kern
  mq_order :: "u8 list list"
  mq_fetched :: "(u32 \<times> u8 list) list"

definition fetch :: "u32 \<Rightarrow> u8 list option \<Rightarrow> (u32 \<times> u8 list) list \<Rightarrow> (u32 \<times> u8 list) list" where
  "fetch sz out got = (case out of None \<Rightarrow> got | Some bs \<Rightarrow> got @ [(sz, bs)])"

inductive mq_call :: "mq_sys \<Rightarrow> mq_sys \<Rightarrow> bool" where
  send: "rt_mq_send (mq_queue m) b (mq_krn m) = Some (e, mq', s') \<Longrightarrow>
    mq_call m (m\<lparr>mq_queue := mq', mq_krn := s', mq_order := mq_order m @ (if e = RT_EOK then [b] else [])\<rparr>)"
| urgent: "rt_mq_urgent (mq_queue m) b (mq_krn m) = Some (e, mq', s') \<Longrightarrow>
    mq_call m (m\<lparr>mq_queue := mq', mq_krn := s', mq_order := take (length (mq_fetched m)) (mq_order m) @
      (if e = RT_EOK then [b] else []) @ drop (length (mq_fetched m)) (mq_order m)\<rparr>)"
| recv: "rt_mq_recv (mq_queue m) sz timeout (mq_krn m) = Some (k, out, mq', s') \<Longrightarrow>
    mq_call m (m\<lparr>mq_queue := mq', mq_krn := s', mq_fetched := fetch sz out (mq_fetched m)\<rparr>)"
| wake: "rt_mq_recv_wake (mq_queue m) sz timeout start t (mq_krn m) = Some (k, out, mq', s') \<Longrightarrow>
    mq_call m (m\<lparr>mq_queue := mq', mq_krn := s', mq_fetched := fetch sz out (mq_fetched m)\<rparr>)"
| control: "rt_mq_control (mq_queue m) cmd (mq_krn m) = Some (e, mq', s') \<Longrightarrow>
    mq_call m (m\<lparr>mq_queue := mq', mq_krn := s',
      mq_order := (if e = RT_EOK then take (length (mq_fetched m)) (mq_order m) else mq_order m)\<rparr>)"
| kernel: "mq_call m (m\<lparr>mq_krn := s'\<rparr>)"

text \<open>What a receive into a buffer of \<open>sz\<close> bytes gets of the message \<open>b\<close>: its first \<open>sz\<close> bytes, followed, as
  the length of a message is not stored, by whatever the slot held behind it.\<close>

definition carries :: "u8 list \<Rightarrow> u32 \<times> u8 list \<Rightarrow> bool" where
  "carries b = (\<lambda>(sz, bs). take (length b) bs = take (unat sz) b)"

definition stored :: "rt_messagequeue \<Rightarrow> u8 list \<Rightarrow> nat \<Rightarrow> bool" where
  "stored mq b n \<longleftrightarrow> length b \<le> unat (mq_msg_size mq) \<and> take (length b) (mq_data mq n) = b"

definition mq_history :: "mq_sys \<Rightarrow> bool" where
  "mq_history m \<longleftrightarrow> (\<exists>qs fs dn rest. mq_ok (mq_queue m) qs fs {} \<and> list_all2 carries dn (mq_fetched m) \<and>
     mq_order m = dn @ rest \<and> list_all2 (stored (mq_queue m)) rest qs)"

lemma mq_historyI:
  "mq_ok (mq_queue m) qs fs {} \<Longrightarrow> list_all2 carries dn (mq_fetched m) \<Longrightarrow> mq_order m = dn @ rest \<Longrightarrow>
   list_all2 (stored (mq_queue m)) rest qs \<Longrightarrow> mq_history m"
  unfolding mq_history_def by blast

lemma mq_historyE:
  assumes "mq_history m"
  obtains qs fs dn rest where "mq_ok (mq_queue m) qs fs {}" "list_all2 carries dn (mq_fetched m)"
    "mq_order m = dn @ rest" "list_all2 (stored (mq_queue m)) rest qs" "length dn = length (mq_fetched m)"
  using assms list_all2_lengthD unfolding mq_history_def by blast

lemma recv_loop_pool:
  assumes "mq_ok mq qs fs {}" "mq_recv_loop mq sz timeout ot s = Some (k, out, mq', s')"
  obtains (none) "out = None" "mq' = mq"
  | (some) n qs' where "qs = n # qs'" "k = Returned RT_EOK" "mq_ok mq' qs' (n # fs) {}" "mq_data mq' = mq_data mq"
      "mq_msg_size mq' = mq_msg_size mq" "out = Some (mq_read n sz mq)"
proof (cases "mq_entry mq = 0")
  case True
  then have "out = None \<and> mq' = mq" using assms(2) by (auto simp: mq_recv_loop_def Some_bind_iff Let_def split: if_splits)
  then show thesis using none by blast
next
  case False
  then obtain n qs' where q: "qs = n # qs'" using mq_okD(7) [OF assms(1)] by (cases qs) (auto simp: unat_eq_zero)
  obtain mq1 where u: "mq_unlink mq = Some (n, mq1)" "mq_ok mq1 qs' fs {n}" "mq_data mq1 = mq_data mq"
    "mq_msg_size mq1 = mq_msg_size mq" using mq_unlink_ok [OF assms(1) [unfolded q]] by auto
  have "mq' = mq_release n mq1" "out = Some (mq_read n sz mq)" "k = Returned RT_EOK"
    using assms(2) False u by (auto simp: mq_recv_loop_def mq_read_def)
  then show thesis using some q mq_release_ok [OF u(2), of n] u(3,4) by simp
qed

lemma read_carries:
  assumes "stored mq b n"
  shows "carries b (sz, mq_read n sz mq)"
proof -
  have "take (length b) (mq_read n sz mq) = take (min (unat (mq_msg_size mq)) (unat sz)) (take (length b) (mq_data mq n))"
    by (simp add: mq_read_def min.commute min.left_commute)
  also have "\<dots> = take (min (unat (mq_msg_size mq)) (unat sz)) b" using assms by (simp only: stored_def)
  also have "\<dots> = take (unat sz) b" using assms
    by (cases "unat sz \<le> unat (mq_msg_size mq)") (simp_all add: stored_def)
  finally show ?thesis by (simp add: carries_def)
qed

lemma history_recv:
  assumes "mq_history m" "mq_recv_loop (mq_queue m) sz timeout ot s = Some (k, out, mq', s')"
  shows "mq_history (m\<lparr>mq_queue := mq', mq_krn := s', mq_fetched := fetch sz out (mq_fetched m)\<rparr>)"
proof -
  obtain qs fs dn rest where h: "mq_ok (mq_queue m) qs fs {}" "list_all2 carries dn (mq_fetched m)"
    "mq_order m = dn @ rest" "list_all2 (stored (mq_queue m)) rest qs" by (rule mq_historyE [OF assms(1)])
  from h(1) assms(2) show ?thesis
  proof (cases rule: recv_loop_pool)
    case none
    then show ?thesis using mq_historyI [where dn = dn and rest = rest] h by (simp add: fetch_def)
  next
    case (some n qs')
    obtain b bs where r: "rest = b # bs" "stored (mq_queue m) b n" "list_all2 (stored (mq_queue m)) bs qs'"
      using h(4) some(1) by (cases rest) auto
    have same: "stored mq' = stored (mq_queue m)" using some(4,5) by (simp add: stored_def fun_eq_iff)
    show ?thesis
      by (rule mq_historyI [where dn = "dn @ [b]" and rest = bs and qs = qs' and fs = "n # fs"])
        (use h r some same read_carries [OF r(2)] in \<open>simp_all add: fetch_def list_all2_appendI\<close>)
  qed
qed

lemma history_accepted:
  assumes "mq_history m" "length b \<le> unat (mq_msg_size (mq_queue m))" "mq_alloc (mq_queue m) = Some (n, mq1)"
  shows "mq_history (m\<lparr>mq_queue := mq_link n (mq_fill n b mq1), mq_krn := s', mq_order := mq_order m @ [b]\<rparr>)"
    "mq_history (m\<lparr>mq_queue := mq_link_front n (mq_copy_in n b mq1), mq_krn := s',
       mq_order := take (length (mq_fetched m)) (mq_order m) @ b # drop (length (mq_fetched m)) (mq_order m)\<rparr>)"
proof -
  obtain qs fs dn rest where h: "mq_ok (mq_queue m) qs fs {}" "list_all2 carries dn (mq_fetched m)"
    "mq_order m = dn @ rest" "list_all2 (stored (mq_queue m)) rest qs" "length dn = length (mq_fetched m)"
    by (rule mq_historyE [OF assms(1)])
  obtain fs' where fs: "fs = n # fs'" using mq_alloc_ok [OF h(1)] assms(3) by (cases fs) auto
  note p = mq_send_pool [OF h(1) [unfolded fs] assms(2,3)]
  let ?s = "mq_link n (mq_fill n b mq1)" and ?u = "mq_link_front n (mq_copy_in n b mq1)"
  have nq: "n \<notin> set qs" using mq_okD(3) [OF h(1)] fs by auto
  have kept: "list_all2 (stored mq') rest qs"
    if "\<And>k. k \<noteq> n \<Longrightarrow> mq_data mq' k = mq_data (mq_queue m) k" "mq_msg_size mq' = mq_msg_size (mq_queue m)" for mq'
  proof (rule list.rel_mono_strong [OF h(4)])
    fix b k assume k: "k \<in> set qs" and b: "stored (mq_queue m) b k"
    have "k \<noteq> n" using nq k by auto
    then show "stored mq' b k" using that b by (simp add: stored_def)
  qed
  have new: "stored ?s b n" "stored ?u b n" using p(4,5,7) assms(2) by (simp_all add: stored_def)
  have old: "list_all2 (stored ?s) rest qs" "list_all2 (stored ?u) rest qs" using p(6,7) by (simp_all add: kept)
  show "mq_history (m\<lparr>mq_queue := ?s, mq_krn := s', mq_order := mq_order m @ [b]\<rparr>)"
    by (rule mq_historyI [where dn = dn and rest = "rest @ [b]" and qs = "qs @ [n]" and fs = fs'])
      (use h(2,3) p(2) new(1) old(1) in \<open>simp_all add: list_all2_appendI\<close>)
  show "mq_history (m\<lparr>mq_queue := ?u, mq_krn := s',
       mq_order := take (length (mq_fetched m)) (mq_order m) @ b # drop (length (mq_fetched m)) (mq_order m)\<rparr>)"
    by (rule mq_historyI [where dn = dn and rest = "b # rest" and qs = "n # qs" and fs = fs'])
      (use h(2,3,5) p(3) new(2) old(2) in simp_all)
qed

lemma history_same: "mq_history m \<Longrightarrow> mq_history (m\<lparr>mq_krn := s'\<rparr>)"
  by (simp add: mq_history_def)

lemma mq_call_history: "mq_call m m' \<Longrightarrow> mq_history m \<Longrightarrow> mq_history m'"
proof (induction rule: mq_call.induct)
  case (send m b e mq' s')
  show ?case
  proof (cases "length b > unat (mq_msg_size (mq_queue m)) \<or> mq_alloc (mq_queue m) = None")
    case True
    then have "mq' = mq_queue m \<and> s' = mq_krn m \<and> e \<noteq> RT_EOK" using send(1)
      by (auto simp: rt_mq_send_def Some_bind_iff split: if_splits)
    then show ?thesis using send(2) by simp
  next
    case False
    then obtain n mq1 where a: "mq_alloc (mq_queue m) = Some (n, mq1)" by auto
    then have "mq' = mq_link n (mq_fill n b mq1) \<and> e = RT_EOK" using send(1) False
      by (auto simp: rt_mq_send_def Some_bind_iff)
    then show ?thesis using history_accepted(1) [OF send(2) _ a] False by simp
  qed
next
  case (urgent m b e mq' s')
  show ?case
  proof (cases "length b > unat (mq_msg_size (mq_queue m)) \<or> mq_alloc (mq_queue m) = None")
    case True
    then have "mq' = mq_queue m \<and> s' = mq_krn m \<and> e \<noteq> RT_EOK" using urgent(1)
      by (auto simp: rt_mq_urgent_def Some_bind_iff split: if_splits)
    then show ?thesis using urgent(2) by simp
  next
    case False
    then obtain n mq1 where a: "mq_alloc (mq_queue m) = Some (n, mq1)" by auto
    then have "mq' = mq_link_front n (mq_copy_in n b mq1) \<and> e = RT_EOK" using urgent(1) False
      by (auto simp: rt_mq_urgent_def Some_bind_iff)
    then show ?thesis using history_accepted(2) [OF urgent(2) _ a] False by simp
  qed
next
  case (recv m sz timeout k out mq' s')
  show ?case
  proof (cases "mq_entry (mq_queue m) = 0 \<and> timeout = 0")
    case True
    then have "out = None \<and> mq' = mq_queue m \<and> s' = mq_krn m" using recv(1) by (simp add: rt_mq_recv_def Some_bind_iff)
    then show ?thesis using recv(2) by (simp add: fetch_def)
  next
    case False
    then have "mq_recv_loop (mq_queue m) sz timeout (current (mq_krn m)) (mq_krn m) = Some (k, out, mq', s')"
      using recv(1) by (auto simp: rt_mq_recv_def Some_bind_iff)
    then show ?thesis by (rule history_recv [OF recv(2)])
  qed
next
  case (wake m sz timeout start t k out mq' s')
  show ?case
  proof (cases "th_error (thr (mq_krn m) t) = RT_EOK")
    case True
    then show ?thesis using history_recv [OF wake(2)] wake(1) by (simp add: rt_mq_recv_wake_def)
  next
    case False
    then have "out = None \<and> mq' = mq_queue m \<and> s' = mq_krn m" using wake(1) by (auto simp: rt_mq_recv_wake_def)
    then show ?thesis using wake(2) by (simp add: fetch_def)
  qed
next
  case (control m cmd e mq' s')
  show ?case
  proof (cases "cmd = RT_IPC_CMD_RESET")
    case True
    obtain qs fs dn rest where h: "mq_ok (mq_queue m) qs fs {}" "list_all2 carries dn (mq_fetched m)"
      "mq_order m = dn @ rest" "length dn = length (mq_fetched m)" by (rule mq_historyE [OF control(2)])
    obtain mq1 where d: "mq_drain (mq_queue m) = Some mq1" "mq' = mq1\<lparr>mq_entry := 0\<rparr>" "e = RT_EOK"
      using control(1) True by (auto simp: rt_mq_control_def Some_bind_iff)
    have "mq_ok ((mq_queue m)\<lparr>mq_entry := mq_entry (mq_queue m)\<rparr>) qs fs {}" using h(1) by simp
    from mq_drain_ok [OF this] d have "mq_ok mq' [] (rev qs @ fs) {}" by auto
    then show ?thesis
      by (intro mq_historyI [where dn = dn and rest = "[]" and qs = "[]" and fs = "rev qs @ fs"])
        (use h d in simp_all)
  next
    case False
    then have "mq' = mq_queue m \<and> s' = mq_krn m \<and> e \<noteq> RT_EOK" using control(1)
      by (auto simp: rt_mq_control_def Some_bind_iff)
    then show ?thesis using control(2) by simp
  qed
qed (rule history_same)

lemma mq_calls_history: "mq_call\<^sup>*\<^sup>* m m' \<Longrightarrow> mq_history m \<Longrightarrow> mq_history m'"
  by (induction rule: rtranclp_induct) (auto intro: mq_call_history)

text \<open>C15: From the initialisation of a message queue on, however the complete calls of \<open>rt_mq_send\<close>,
  \<open>rt_mq_urgent\<close>, \<open>rt_mq_recv\<close> (and its continuation after a wait) and \<open>rt_mq_control\<close> follow each other
  while the rest of the kernel does anything in between: the accepted messages, in the order of their
  delivery (sends at the end, urgent ones next), are those that receives delivered followed by those
  in the queue, never more than it has slots. Each receive got the first bytes of its message, as many as
  its buffer holds. While a message is stored, a receive returns at once with the first of them; while a
  slot is free and nobody waits, a send of a message that fits is accepted.\<close>

theorem mq_delivers_in_order:
  assumes "mq_call\<^sup>*\<^sup>* \<lparr>mq_queue = mq_setup r pool bytes msize msgs, mq_krn = s0, mq_order = [], mq_fetched = []\<rparr> m"
    "\<forall>n < unat msgs. length (bytes n) = unat msize"
    "rt_object_get_type (mq_ref (mq_queue m)) s = RT_Object_Class_MessageQueue"
  shows "\<exists>dn rest. mq_order m = dn @ rest \<and> list_all2 carries dn (mq_fetched m) \<and>
    list_all2 (\<lambda>b d. take (length b) d = b) rest (mq_messages (mq_queue m)) \<and>
    length rest \<le> unat (mq_max_msgs (mq_queue m)) \<and>
    (\<forall>b bs sz timeout. rest = b # bs \<longrightarrow> sz \<noteq> 0 \<longrightarrow>
       (\<exists>d mq'. rt_mq_recv (mq_queue m) sz timeout s = Some (Returned RT_EOK, Some d, mq', s) \<and> carries b (sz, d))) \<and>
    (\<forall>b. length rest < unat (mq_max_msgs (mq_queue m)) \<longrightarrow> b \<noteq> [] \<longrightarrow> length b \<le> unat (mq_msg_size (mq_queue m)) \<longrightarrow>
       queues s (SuspendQ (mq_ref (mq_queue m))) = [] \<longrightarrow>
       (\<exists>mq'. rt_mq_send (mq_queue m) b s = Some (RT_EOK, mq', s)))"
proof -
  let ?q = "mq_queue m"
  have "mq_history \<lparr>mq_queue = mq_setup r pool bytes msize msgs, mq_krn = s0, mq_order = [], mq_fetched = []\<rparr>"
    by (rule mq_historyI [where dn = "[]" and rest = "[]" and qs = "[]" and fs = "rev [0..<unat msgs]"])
      (use mq_setup_ok [of msgs bytes msize r pool] assms(2) in simp_all)
  from mq_calls_history [OF assms(1) this] obtain qs fs dn rest where h: "mq_ok ?q qs fs {}"
    "list_all2 carries dn (mq_fetched m)" "mq_order m = dn @ rest" "list_all2 (stored ?q) rest qs" by (rule mq_historyE)
  have len: "length rest = length qs" by (rule list_all2_lengthD [OF h(4)])
  have "list_all2 (\<lambda>b d. take (length b) d = b) rest (mq_messages ?q)"
    unfolding mq_messages_def mq_slots_eq [OF h(1)] list_all2_map2
    by (rule list_all2_mono [OF h(4)]) (simp add: stored_def)
  moreover have "length rest \<le> unat (mq_max_msgs ?q)" using mq_length [OF h(1)] len by simp
  moreover have "\<exists>d mq'. rt_mq_recv ?q sz timeout s = Some (Returned RT_EOK, Some d, mq', s) \<and> carries b (sz, d)"
    if r: "rest = b # bs" "sz \<noteq> 0" for b bs sz timeout
  proof -
    obtain n qs' where q: "qs = n # qs'" "stored ?q b n" using h(4) r(1) by (cases qs) auto
    have e: "mq_entry ?q \<noteq> 0" using mq_okD(7) [OF h(1)] q(1) by auto
    obtain mq1 where u: "mq_unlink ?q = Some (n, mq1)" "mq_data mq1 = mq_data ?q" "mq_msg_size mq1 = mq_msg_size ?q"
      using mq_unlink_ok [OF h(1) [unfolded q(1)]] by auto
    then have "rt_mq_recv ?q sz timeout s = Some (Returned RT_EOK, Some (mq_read n sz ?q), mq_release n mq1, s)"
      using e r(2) assms(3) by (simp add: rt_mq_recv_def mq_recv_loop_def mq_read_def)
    then show ?thesis using read_carries [OF q(2)] by blast
  qed
  moreover have "\<exists>mq'. rt_mq_send ?q b s = Some (RT_EOK, mq', s)"
    if b: "length rest < unat (mq_max_msgs ?q)" "b \<noteq> []" "length b \<le> unat (mq_msg_size ?q)"
      "queues s (SuspendQ (mq_ref ?q)) = []" for b
  proof -
    obtain n fs' where "fs = n # fs'" using mq_idle_full [OF h(1)] b(1) len by (cases fs) auto
    then obtain mq1 where a: "mq_alloc ?q = Some (n, mq1)" using mq_alloc_ok [OF h(1)] by auto
    then show ?thesis using b assms(3) by (simp add: rt_mq_send_def mb_wake_one_def not_less)
  qed
  ultimately show ?thesis using h(2,3) by (intro exI [of _ dn] exI [of _ rest]) simp
qed

theorem mq_delivers_in_order_witness:
  "\<exists>mq1 d mq2. rt_mq_send demo_mq [1, 2] demo = Some (RT_EOK, mq1, demo) \<and>
     rt_mq_recv mq1 2 0 demo = Some (Returned RT_EOK, Some d, mq2, demo) \<and> take 2 d = [1, 2]"
proof -
  let ?m = "\<lparr>mq_queue = demo_mq, mq_krn = demo, mq_order = [], mq_fetched = []\<rparr>"
  have b: "\<forall>n < unat (2 :: u16). length ((\<lambda>_. replicate 8 0 :: u8 list) n) = unat (8 :: u16)" by simp
  have t: "rt_object_get_type (Obj 15) demo = RT_Object_Class_MessageQueue" by (simp add: rt_object_get_type_def)
  note deliver = mq_delivers_in_order [where r = "Obj 15" and pool = "0x3000" and bytes = "\<lambda>_. replicate 8 0" and
      msize = 8 and msgs = 2 and s = demo and ?s0.0 = demo, folded demo_mq_def, OF _ b]
  have "\<exists>mq1. rt_mq_send demo_mq [1, 2] demo = Some (RT_EOK, mq1, demo)"
    using deliver [of ?m, OF rtranclp.rtrancl_refl] t by auto
  then obtain mq1 where s1: "rt_mq_send demo_mq [1, 2] demo = Some (RT_EOK, mq1, demo)" by blast
  have r: "mq_ref mq1 = Obj 15" using s1 mq_alloc_ok [OF demo_mq_ok]
    by (auto simp: rt_mq_send_def Some_bind_iff mb_wake_one_def)
  let ?m1 = "\<lparr>mq_queue = mq1, mq_krn = demo, mq_order = [[1, 2]], mq_fetched = []\<rparr>"
  have "mq_call ?m ?m1" using mq_call.send [of ?m "[1, 2]" RT_EOK mq1 demo] s1 by simp
  then have run: "mq_call\<^sup>*\<^sup>* ?m ?m1" by blast
  have ty: "rt_object_get_type (mq_ref (mq_queue ?m1)) demo = RT_Object_Class_MessageQueue" using t r by simp
  obtain dn rest where d: "mq_order ?m1 = dn @ rest" "list_all2 carries dn (mq_fetched ?m1)"
    and rec: "\<forall>b bs sz timeout. rest = b # bs \<longrightarrow> sz \<noteq> 0 \<longrightarrow>
       (\<exists>d mq'. rt_mq_recv (mq_queue ?m1) sz timeout demo = Some (Returned RT_EOK, Some d, mq', demo) \<and> carries b (sz, d))"
    using deliver [OF run ty] by blast
  have "rest = [1, 2] # []" using d by simp
  from rec [rule_format, OF this, of 2 0] obtain d mq2 where
    "rt_mq_recv mq1 2 0 demo = Some (Returned RT_EOK, Some d, mq2, demo)" "carries [1, 2] (2, d)" by auto
  moreover have two: "(2 :: nat) = Suc (Suc 0)" by simp
  ultimately have "take 2 d = [1, 2]" unfolding two by (simp add: carries_def)
  then show ?thesis using s1 \<open>rt_mq_recv mq1 2 0 demo = _\<close> by blast
qed

text \<open>An urgent message is the next one received. If a slot is free and no thread waits, an urgent
  send of a message that fits returns without error, and the next receive, with a buffer of the length of
  the message, returns exactly that message and leaves the other messages as they were, in order.\<close>

theorem mq_urgent_is_next:
  assumes "mq_ok mq qs (n # fs) {}" "rt_object_get_type (mq_ref mq) s = RT_Object_Class_MessageQueue"
    "0 < length b" "length b \<le> unat (mq_msg_size mq)" "queues s (SuspendQ (mq_ref mq)) = []"
  shows "\<exists>mq1 mq2. rt_mq_urgent mq b s = Some (RT_EOK, mq1, s) \<and>
    rt_mq_recv mq1 (of_nat (length b)) timeout s = Some (Returned RT_EOK, Some b, mq2, s) \<and>
    mq_messages mq2 = mq_messages mq"
proof -
  obtain mq0 where a: "mq_alloc mq = Some (n, mq0)" using mq_alloc_ok [OF assms(1)] by auto
  note p = mq_send_pool [OF assms(1,4) a]
  let ?m = "mq_link_front n (mq_copy_in n b mq0)"
  have s1: "rt_mq_urgent mq b s = Some (RT_EOK, ?m, s)"
    using assms(2-5) a by (simp add: rt_mq_urgent_def mb_wake_one_def)
  obtain m2 where u: "mq_unlink ?m = Some (n, m2)" "mq_ok m2 qs fs {n}" "mq_data m2 = mq_data ?m"
    "mq_msg_size m2 = mq_msg_size ?m" using mq_unlink_ok [OF p(3)] by auto
  have e: "mq_entry ?m \<noteq> 0" using mq_okD(7) [OF p(3)] by auto
  have "unat (mq_msg_size mq) < 2 ^ 16" by (rule order_less_le_trans [OF unsigned_less]) simp
  then have len: "unat (of_nat (length b) :: u32) = length b"
    using assms(4) by (simp add: unat_of_nat)
  then have nz: "(of_nat (length b) :: u32) \<noteq> 0" using assms(3) by (metis unat_0 less_irrefl)
  have r: "mq_read n (of_nat (length b)) m2 = b"
    using len p(5) u(3,4) p(7) assms(4) by (simp add: mq_read_def)
  have s2: "rt_mq_recv ?m (of_nat (length b)) timeout s = Some (Returned RT_EOK, Some b, mq_release n m2, s)"
    using assms(2) e nz u(1) r p(9) by (simp add: rt_mq_recv_def mq_recv_loop_def)
  have m3: "mq_ok (mq_release n m2) qs (n # fs) {}" using mq_release_ok [OF u(2), of n] by simp
  have nq: "n \<notin> set qs" using mq_okD(3) [OF assms(1)] by auto
  have "map (mq_data ?m) qs = map (mq_data mq) qs"
  proof (rule map_cong [OF refl])
    fix k assume "k \<in> set qs"
    then have "k \<noteq> n" using nq by auto
    then show "mq_data ?m k = mq_data mq k" using p(6) by blast
  qed
  then have "mq_messages (mq_release n m2) = mq_messages mq"
    using mq_slots_eq [OF m3] mq_slots_eq [OF assms(1)] u(3) by (simp add: mq_messages_def)
  then show ?thesis using s1 s2 by blast
qed

theorem mq_urgent_is_next_witness:
  "\<exists>mq1 mq2. rt_mq_urgent demo_mq [1, 2, 3] demo = Some (RT_EOK, mq1, demo) \<and>
    rt_mq_recv mq1 3 0 demo = Some (Returned RT_EOK, Some [1, 2, 3], mq2, demo) \<and>
    mq_messages mq2 = mq_messages demo_mq"
  using mq_urgent_is_next [OF demo_mq_ok, of demo "[1, 2, 3]" 0] by (simp add: rt_object_get_type_def)

text \<open>C16: Refused calls: a message longer than a slot is refused with \<open>RT_ERROR\<close>, one for which no slot
  is free with \<open>RT_EFULL\<close>, and a receive that may not wait on an empty queue returns \<open>RT_ETIMEOUT\<close>; none
  of them changes the queue or the kernel.\<close>

theorem mq_refusals:
  assumes "mq_ok mq qs fs {}" "rt_object_get_type (mq_ref mq) s = RT_Object_Class_MessageQueue" "b \<noteq> []" "sz \<noteq> 0"
  shows "(unat (mq_msg_size mq) < length b \<longrightarrow> rt_mq_send mq b s = Some (- RT_ERROR, mq, s) \<and>
      rt_mq_urgent mq b s = Some (- RT_ERROR, mq, s)) \<and>
    (length b \<le> unat (mq_msg_size mq) \<longrightarrow> length qs = unat (mq_max_msgs mq) \<longrightarrow>
      rt_mq_send mq b s = Some (- RT_EFULL, mq, s) \<and> rt_mq_urgent mq b s = Some (- RT_EFULL, mq, s)) \<and>
    (qs = [] \<longrightarrow> rt_mq_recv mq sz 0 s = Some (Returned (- RT_ETIMEOUT), None, mq, s))"
proof (intro conjI impI)
  assume l: "unat (mq_msg_size mq) < length b"
  show "rt_mq_send mq b s = Some (- RT_ERROR, mq, s)" "rt_mq_urgent mq b s = Some (- RT_ERROR, mq, s)"
    using l assms(2,3) by (simp_all add: rt_mq_send_def rt_mq_urgent_def)
next
  assume l: "length b \<le> unat (mq_msg_size mq)" "length qs = unat (mq_max_msgs mq)"
  have "fs = []" using mq_idle_full [OF assms(1)] l(2) by simp
  then have "mq_alloc mq = None" using mq_alloc_ok [OF assms(1)] by simp
  then show "rt_mq_send mq b s = Some (- RT_EFULL, mq, s)" "rt_mq_urgent mq b s = Some (- RT_EFULL, mq, s)"
    using l(1) assms(2,3) by (simp_all add: rt_mq_send_def rt_mq_urgent_def not_less)
next
  assume "qs = []"
  then have "mq_entry mq = 0" using mq_okD(7) [OF assms(1)] by (simp add: unat_eq_zero)
  then show "rt_mq_recv mq sz 0 s = Some (Returned (- RT_ETIMEOUT), None, mq, s)"
    using assms(2,4) by (simp add: rt_mq_recv_def)
qed

theorem mq_refusals_witness:
  "rt_mq_send demo_mq (replicate 9 1) demo = Some (- RT_ERROR, demo_mq, demo) \<and>
   rt_mq_recv demo_mq 8 0 demo = Some (Returned (- RT_ETIMEOUT), None, demo_mq, demo)"
  using mq_refusals [OF demo_mq_ok, of demo "replicate 9 1" 8] by (simp add: rt_object_get_type_def)

end
