(* ===== verification/Allocator.thy ===== *)
theory Allocator
  imports Prelude
begin

text \<open>
  The contract of the memory allocators of the kernel (\<^verbatim>\<open>mem.c\<close>, \<^verbatim>\<open>memheap.c\<close>, \<^verbatim>\<open>mempool.c\<close>) as a
  locale: the blocks in use are disjoint, an allocation adds one block of at least the requested size or
  changes nothing, a release removes exactly the block released. Its lemmas, proved once, are about runs
  of allocations and releases.

  \<open>add32\<close> and \<open>sub32\<close> are the sums and differences of \<^verbatim>\<open>rt_size_t\<close> and addresses, modulo \<open>2 ^ 32\<close>.
\<close>

section \<open>32-bit arithmetic on natural numbers\<close>

definition add32 :: "nat \<Rightarrow> nat \<Rightarrow> nat" where
  "add32 a b = (a + b) mod 2 ^ 32"

definition sub32 :: "nat \<Rightarrow> nat \<Rightarrow> nat" where
  "sub32 a b = (a + 2 ^ 32 - b) mod 2 ^ 32"

lemma add32_eq [simp]: "a + b < 2 ^ 32 \<Longrightarrow> add32 a b = a + b"
  by (simp add: add32_def)

lemma sub32_eq [simp]: "b \<le> a \<Longrightarrow> a < 2 ^ 32 \<Longrightarrow> sub32 a b = a - b"
  by (simp add: sub32_def le_mod_geq)

definition align_up :: "u32 \<Rightarrow> nat" where
  "align_up n = unat (RT_ALIGN n RT_ALIGN_SIZE)"

lemma and_not_7: "(x :: u32) AND NOT 7 = x - take_bit 3 x"
proof -
  have "x = (x AND mask 3) + (x AND NOT (mask 3))"
    by (subst disjunctive_add) (auto simp: bit_simps simp flip: bit.conj_disj_distrib)
  moreover have "mask 3 = (7 :: u32)" by (simp add: mask_eq_exp_minus_1)
  ultimately show ?thesis by (simp add: take_bit_eq_mask algebra_simps)
qed

lemma unat_and_not_7: "unat ((x :: u32) AND NOT 7) = 8 * (unat x div 8)"
proof -
  have t: "unat (take_bit 3 x) = unat x mod 8" by (simp only: unsigned_take_bit_eq) (simp add: take_bit_eq_mod)
  then have "take_bit 3 x \<le> x" by (simp add: word_le_nat_alt)
  then have "unat (x - take_bit 3 x) = unat x - unat x mod 8" using t by (simp add: unat_sub)
  then show ?thesis unfolding and_not_7 by (simp add: minus_mod_eq_mult_div)
qed

lemma align_up_RT: "align_up n = unat ((n + 7) AND NOT 7)"
  by (simp add: align_up_def RT_ALIGN_def add.commute)

lemma align_up_dvd: "8 dvd align_up n"
  unfolding align_up_RT by (simp only: unat_and_not_7 dvd_triv_left)

lemma align_up_eq: "unat n < 2 ^ 32 - 7 \<Longrightarrow> align_up n = 8 * ((unat n + 7) div 8)"
  unfolding align_up_RT by (simp only: unat_and_not_7) (simp add: unat_word_ariths)

lemma align_up_ge: "unat n < 2 ^ 32 - 7 \<Longrightarrow> unat n \<le> align_up n \<and> align_up n < unat n + 8"
  using align_up_eq [of n] by linarith

lemma align_up_le: "align_up n < 2 ^ 32"
  unfolding align_up_def by (rule order_less_le_trans [OF unsigned_less]) simp

lemma align_up_aligned: "8 dvd n \<Longrightarrow> n < 2 ^ 32 \<Longrightarrow> align_up (of_nat n) = n"
proof -
  assume a: "8 dvd n" "n < 2 ^ 32"
  have u: "unat (of_nat n :: u32) = n" using a(2) by (simp add: unat_of_nat)
  from a(1) obtain k where k: "n = 8 * k" by auto
  then have "n < 2 ^ 32 - 7" using a(2) by simp
  then show ?thesis using align_up_eq [of "of_nat n"] u k by simp
qed

section \<open>The interface\<close>

text \<open>What a client does: allocate, and release what is in use.\<close>

inductive heap_reach :: "(nat \<Rightarrow> 'h \<Rightarrow> (nat option \<times> 'h) option) \<Rightarrow> (nat \<Rightarrow> 'h \<Rightarrow> 'h option) \<Rightarrow>
    ('h \<Rightarrow> (nat \<times> nat) set) \<Rightarrow> 'h \<Rightarrow> 'h \<Rightarrow> bool" for alloc release live h where
  start: "heap_reach alloc release live h h"
| alloc: "heap_reach alloc release live h h1 \<Longrightarrow> n < 2 ^ 31 \<Longrightarrow> alloc n h1 = Some (r, h2) \<Longrightarrow>
    heap_reach alloc release live h h2"
| free: "heap_reach alloc release live h h1 \<Longrightarrow> (p, m) \<in> live h1 \<Longrightarrow> release p h1 = Some h2 \<Longrightarrow>
    heap_reach alloc release live h h2"

locale allocator =
  fixes ok :: "'h \<Rightarrow> bool"
    and live :: "'h \<Rightarrow> (nat \<times> nat) set"
    and alloc :: "nat \<Rightarrow> 'h \<Rightarrow> (nat option \<times> 'h) option"
    and release :: "nat \<Rightarrow> 'h \<Rightarrow> 'h option"
  assumes alloc_ok: "ok h \<Longrightarrow> n < 2 ^ 31 \<Longrightarrow>
      (\<exists>h'. alloc n h = Some (None, h') \<and> ok h' \<and> live h' = live h) \<or>
      (\<exists>p m h'. alloc n h = Some (Some p, h') \<and> ok h' \<and> n \<le> m \<and> 0 < m \<and> (p, m) \<notin> live h \<and>
         live h' = insert (p, m) (live h))"
    and release_ok: "ok h \<Longrightarrow> (p, m) \<in> live h \<Longrightarrow>
      \<exists>h'. release p h = Some h' \<and> ok h' \<and> live h' = live h - {(p, m)}"
    and live_pos: "ok h \<Longrightarrow> (p, m) \<in> live h \<Longrightarrow> 0 < m"
    and live_disjoint: "ok h \<Longrightarrow> (p, m) \<in> live h \<Longrightarrow> (q, k) \<in> live h \<Longrightarrow> (p, m) \<noteq> (q, k) \<Longrightarrow>
      p + m \<le> q \<or> q + k \<le> p"
begin

lemma live_unique: "ok h \<Longrightarrow> (p, m) \<in> live h \<Longrightarrow> (p, k) \<in> live h \<Longrightarrow> m = k"
  using live_disjoint [of h p m p k] live_pos [of h p m] live_pos [of h p k] by fastforce

text \<open>A fresh block overlaps no block in use.\<close>

lemma alloc_disjoint:
  assumes "ok h" "n < 2 ^ 31" "alloc n h = Some (Some p, h')" "(q, k) \<in> live h"
  shows "p + n \<le> q \<or> q + k \<le> p"
proof -
  from alloc_ok [OF assms(1,2)] assms(3) obtain m where m: "ok h'" "n \<le> m" "(p, m) \<notin> live h"
    "live h' = insert (p, m) (live h)" by auto
  have "(p, m) \<noteq> (q, k)" using m(3) assms(4) by auto
  then have "p + m \<le> q \<or> q + k \<le> p" using live_disjoint [OF m(1), of p m q k] m(4) assms(4) by simp
  then show ?thesis using m(2) by linarith
qed

text \<open>An allocation that is released again leaves the blocks in use as they were.\<close>

lemma alloc_release:
  assumes "ok h" "n < 2 ^ 31" "alloc n h = Some (Some p, h')"
  shows "\<exists>h''. release p h' = Some h'' \<and> ok h'' \<and> live h'' = live h"
proof -
  from alloc_ok [OF assms(1,2)] assms(3) obtain m where m: "ok h'" "(p, m) \<notin> live h"
    "live h' = insert (p, m) (live h)" by auto
  have "(p, m) \<in> live h'" using m(3) by simp
  from release_ok [OF m(1) this] m(2,3) show ?thesis by auto
qed

lemma reach_ok: "heap_reach alloc release live h h' \<Longrightarrow> ok h \<Longrightarrow> ok h'"
proof (induction rule: heap_reach.induct)
  case (alloc h1 n r h2)
  then show ?case using alloc_ok [of h1 n] by auto
next
  case (free h1 p m h2)
  then show ?case using release_ok [of h1 p m] by auto
qed

text \<open>In every state that a client reaches, the next call returns.\<close>

lemma reach_progress:
  assumes "heap_reach alloc release live h h'" "ok h" "n < 2 ^ 31"
  shows "alloc n h' \<noteq> None \<and> (\<forall>(p, m) \<in> live h'. release p h' \<noteq> None)"
proof -
  have k: "ok h'" by (rule reach_ok [OF assms(1,2)])
  have "alloc n h' \<noteq> None" using alloc_ok [OF k assms(3)] by auto
  moreover have "release p h' \<noteq> None" if "(p, m) \<in> live h'" for p m using release_ok [OF k that] by auto
  ultimately show ?thesis by auto
qed

text \<open>What a client may rely on, whatever it did before.\<close>

lemma client_safe:
  assumes "heap_reach alloc release live h0 h" "ok h0" "n < 2 ^ 31"
  shows "alloc n h \<noteq> None" "\<forall>(p, m) \<in> live h. release p h \<noteq> None"
    "\<forall>(p, m) \<in> live h. \<forall>(q, k) \<in> live h. (p, m) = (q, k) \<or> p + m \<le> q \<or> q + k \<le> p"
    "\<forall>p h'. alloc n h = Some (Some p, h') \<longrightarrow>
      (\<exists>m \<ge> n. (p, m) \<in> live h' \<and> (\<forall>(q, k) \<in> live h. p + m \<le> q \<or> q + k \<le> p) \<and>
        (\<exists>h''. release p h' = Some h'' \<and> live h'' = live h))"
proof -
  have k: "ok h" by (rule reach_ok [OF assms(1,2)])
  show "alloc n h \<noteq> None" "\<forall>(p, m) \<in> live h. release p h \<noteq> None" using reach_progress [OF assms] by blast+
  show "\<forall>(p, m) \<in> live h. \<forall>(q, k) \<in> live h. (p, m) = (q, k) \<or> p + m \<le> q \<or> q + k \<le> p"
    using live_disjoint [OF k] by fast
  show "\<forall>p h'. alloc n h = Some (Some p, h') \<longrightarrow>
      (\<exists>m \<ge> n. (p, m) \<in> live h' \<and> (\<forall>(q, k) \<in> live h. p + m \<le> q \<or> q + k \<le> p) \<and>
        (\<exists>h''. release p h' = Some h'' \<and> live h'' = live h))"
  proof (intro allI impI)
    fix p h' assume m: "alloc n h = Some (Some p, h')"
    obtain m where m': "ok h'" "n \<le> m" "(p, m) \<notin> live h" "live h' = insert (p, m) (live h)"
      using alloc_ok [OF k assms(3)] m by auto
    have "p + m \<le> q \<or> q + k \<le> p" if "(q, k) \<in> live h" for q k
      using live_disjoint [OF m'(1), of p m q k] m'(3,4) that by auto
    moreover have "\<exists>h''. release p h' = Some h'' \<and> live h'' = live h"
      using alloc_release [OF k assms(3) m] by blast
    ultimately show "\<exists>m \<ge> n. (p, m) \<in> live h' \<and> (\<forall>(q, k) \<in> live h. p + m \<le> q \<or> q + k \<le> p) \<and>
        (\<exists>h''. release p h' = Some h'' \<and> live h'' = live h)" using m' by (intro exI [of _ m]) auto
  qed
qed

end

end
