(* ===== verification/Heap_Mem.thy ===== *)
theory Heap_Mem
  imports Semaphore Allocator
begin

text \<open>
  The small memory allocator of \<^verbatim>\<open>rt-thread/src/mem.c\<close>: first fit over a doubly linked list of blocks
  in address order, free neighbours merged at once.

  Offsets and sizes are natural numbers below \<open>2 ^ 32\<close> (\<open>rt_size_t\<close>), with the wrap-around of the sums
  and differences written out (\<open>add32\<close>, \<open>sub32\<close>). A block is the offset of its header from
  \<open>heap_ptr\<close>; \<open>hp_hdr\<close> is the header there, \<open>hp_bytes\<close> the memory. Memory tracing is not configured,
  so a header has 12 bytes, aligned to 16.

  The bodies of the calls between taking and releasing \<open>heap_sem\<close> are \<open>mem_malloc\<close>, \<open>mem_realloc\<close>,
  \<open>mem_free\<close>; \<open>rt_malloc\<close> and \<open>rt_free\<close> add the context check and the semaphore.
\<close>

section \<open>The code\<close>

abbreviation (input) HEAP_MAGIC :: u16 where "HEAP_MAGIC \<equiv> 0x1ea0"
abbreviation (input) MIN_SIZE :: nat where "MIN_SIZE \<equiv> 12"
abbreviation (input) MIN_SIZE_ALIGNED :: nat where "MIN_SIZE_ALIGNED \<equiv> 16"
abbreviation (input) SIZEOF_STRUCT_MEM :: nat where "SIZEOF_STRUCT_MEM \<equiv> 16"

record heap_mem =
  hm_magic :: u16
  hm_used :: u16
  hm_next :: nat
  hm_prev :: nat

record heap =
  heap_ptr :: nat
  hp_hdr :: "nat \<Rightarrow> heap_mem"
  heap_end :: nat
  lfree :: nat
  heap_sem :: rt_semaphore
  mem_size_aligned :: nat
  used_mem :: nat
  max_mem :: nat
  hp_bytes :: "nat \<Rightarrow> u8"

abbreviation (input) upd_hdr :: "nat \<Rightarrow> (heap_mem \<Rightarrow> heap_mem) \<Rightarrow> heap \<Rightarrow> heap" where
  "upd_hdr mem f h \<equiv> h\<lparr>hp_hdr := (hp_hdr h)(mem := f (hp_hdr h mem))\<rparr>"

definition plug_holes :: "nat \<Rightarrow> heap \<Rightarrow> heap option" where
  "plug_holes mem h = do {
     RT_ASSERT (heap_ptr h \<le> add32 (heap_ptr h) mem);
     RT_ASSERT (add32 (heap_ptr h) mem < add32 (heap_ptr h) (heap_end h));
     RT_ASSERT (hm_used (hp_hdr h mem) = 0);
     let nmem = hm_next (hp_hdr h mem);
     let h1 = (if mem \<noteq> nmem \<and> hm_used (hp_hdr h nmem) = 0 \<and> nmem \<noteq> heap_end h then
                (let ha = (if lfree h = nmem then h\<lparr>lfree := mem\<rparr> else h);
                     nn = hm_next (hp_hdr ha nmem);
                     hb = upd_hdr mem (\<lambda>m. m\<lparr>hm_next := nn\<rparr>) ha
                 in upd_hdr nn (\<lambda>m. m\<lparr>hm_prev := mem\<rparr>) hb)
              else h);
     let pmem = hm_prev (hp_hdr h1 mem);
     Some (if pmem \<noteq> mem \<and> hm_used (hp_hdr h1 pmem) = 0 then
             (let ha = (if lfree h1 = mem then h1\<lparr>lfree := pmem\<rparr> else h1);
                  nn = hm_next (hp_hdr ha mem);
                  hb = upd_hdr pmem (\<lambda>m. m\<lparr>hm_next := nn\<rparr>) ha
              in upd_hdr nn (\<lambda>m. m\<lparr>hm_prev := pmem\<rparr>) hb)
           else h1) }"

text \<open>\<open>None\<close> in the second component: the range is too small, the heap is left alone.\<close>

definition rt_system_heap_init ::
    "oref \<Rightarrow> u32 \<Rightarrow> u32 \<Rightarrow> kern \<times> heap \<Rightarrow> (kern \<times> heap) option" where
  "rt_system_heap_init sem_obj begin_addr end_addr sh = do {
     let (s, h) = sh;
     let begin_align = align_up begin_addr;
     let end_align = unat (RT_ALIGN_DOWN end_addr RT_ALIGN_SIZE);
     RT_DEBUG_NOT_IN_INTERRUPT s;
     if end_align > 2 * SIZEOF_STRUCT_MEM \<and> end_align - 2 * SIZEOF_STRUCT_MEM \<ge> begin_align then do {
       let msa = end_align - begin_align - 2 * SIZEOF_STRUCT_MEM;
       let e = add32 msa SIZEOF_STRUCT_MEM;
       let h1 = h\<lparr>mem_size_aligned := msa, heap_ptr := begin_align,
            hp_hdr := (hp_hdr h)(0 := \<lparr>hm_magic = HEAP_MAGIC, hm_used = 0, hm_next = e, hm_prev = 0\<rparr>,
                                 e := \<lparr>hm_magic = HEAP_MAGIC, hm_used = 1, hm_next = e, hm_prev = e\<rparr>),
            heap_end := e\<rparr>;
       (_, sem, s1) \<leftarrow> rt_sem_init sem_obj ''heap'' 1 RT_IPC_FLAG_FIFO s;
       Some (s1, h1\<lparr>heap_sem := sem, lfree := 0\<rparr>) }
     else Some (s, h) }"

text \<open>The search of \<open>rt_malloc\<close>, from the offset \<open>ptr\<close>: the first free block that is large enough.\<close>

partial_function (option) mem_search :: "nat \<Rightarrow> nat \<Rightarrow> heap \<Rightarrow> nat option option" where
  "mem_search sz ptr h =
     (if ptr < sub32 (mem_size_aligned h) sz then
        (if hm_used (hp_hdr h ptr) = 0 \<and> sub32 (hm_next (hp_hdr h ptr)) (add32 ptr SIZEOF_STRUCT_MEM) \<ge> sz
         then Some (Some ptr)
         else mem_search sz (hm_next (hp_hdr h ptr)) h)
      else Some None)"

text \<open>\<open>while (lfree->used && lfree != heap_end)\<close>\<close>

partial_function (option) lfree_advance :: "heap \<Rightarrow> heap option" where
  "lfree_advance h =
     (if hm_used (hp_hdr h (lfree h)) \<noteq> 0 \<and> lfree h \<noteq> heap_end h
      then lfree_advance (h\<lparr>lfree := hm_next (hp_hdr h (lfree h))\<rparr>)
      else Some h)"

definition count_used :: "nat \<Rightarrow> heap \<Rightarrow> heap" where
  "count_used n h =
     (let u = add32 (used_mem h) n in h\<lparr>used_mem := u, max_mem := (if max_mem h < u then u else max_mem h)\<rparr>)"

text \<open>Taking the block at \<open>ptr\<close>: split it when the rest can hold a block, or use all of it.\<close>

definition mem_take :: "nat \<Rightarrow> nat \<Rightarrow> heap \<Rightarrow> heap" where
  "mem_take ptr sz h =
     (let mem = hp_hdr h ptr;
          h1 = (if sub32 (hm_next mem) (add32 ptr SIZEOF_STRUCT_MEM) \<ge> add32 sz (SIZEOF_STRUCT_MEM + MIN_SIZE_ALIGNED)
            then (let ptr2 = add32 ptr (SIZEOF_STRUCT_MEM + sz);
                      ha = upd_hdr ptr2 (\<lambda>m. m\<lparr>hm_magic := HEAP_MAGIC, hm_used := 0, hm_next := hm_next mem, hm_prev := ptr\<rparr>) h;
                      hb = upd_hdr ptr (\<lambda>m. m\<lparr>hm_next := ptr2, hm_used := 1\<rparr>) ha;
                      nn = hm_next (hp_hdr hb ptr2);
                      hc = (if nn \<noteq> add32 (mem_size_aligned h) SIZEOF_STRUCT_MEM
                            then upd_hdr nn (\<lambda>m. m\<lparr>hm_prev := ptr2\<rparr>) hb else hb)
                  in count_used (sz + SIZEOF_STRUCT_MEM) hc)
            else (let ha = upd_hdr ptr (\<lambda>m. m\<lparr>hm_used := 1\<rparr>) h
                  in count_used (sub32 (hm_next mem) ptr) ha))
      in upd_hdr ptr (\<lambda>m. m\<lparr>hm_magic := HEAP_MAGIC\<rparr>) h1)"

definition mem_malloc :: "u32 \<Rightarrow> heap \<Rightarrow> (nat option \<times> heap) option" where
  "mem_malloc sz h =
     (if sz = 0 then Some (None, h)
      else if align_up sz > mem_size_aligned h then Some (None, h)
      else do {
        let sz = max (align_up sz) MIN_SIZE_ALIGNED;
        found \<leftarrow> mem_search sz (lfree h) h;
        (case found of
           None \<Rightarrow> Some (None, h)
         | Some ptr \<Rightarrow> do {
             let h1 = mem_take ptr sz h;
             h2 \<leftarrow> (if ptr = lfree h1 then do {
                       h2 \<leftarrow> lfree_advance h1;
                       RT_ASSERT (lfree h2 = heap_end h2 \<or> hm_used (hp_hdr h2 (lfree h2)) = 0);
                       Some h2 }
                     else Some h1);
             let mem = add32 (heap_ptr h2) ptr;
             RT_ASSERT (add32 mem (add32 SIZEOF_STRUCT_MEM sz) \<le> add32 (heap_ptr h2) (heap_end h2));
             RT_ASSERT (add32 mem SIZEOF_STRUCT_MEM mod 8 = 0);
             RT_ASSERT (mem mod 8 = 0);
             Some (Some (add32 mem SIZEOF_STRUCT_MEM), h2) }) })"

text \<open>\<open>rmem\<close> is an address; the null pointer is 0.\<close>

definition mem_free :: "nat \<Rightarrow> heap \<Rightarrow> heap option" where
  "mem_free rmem h =
     (if rmem = 0 then Some h
      else do {
        RT_ASSERT (rmem mod 8 = 0);
        RT_ASSERT (heap_ptr h \<le> rmem \<and> rmem < add32 (heap_ptr h) (heap_end h));
        let mem = sub32 (sub32 rmem SIZEOF_STRUCT_MEM) (heap_ptr h);
        RT_ASSERT (hm_used (hp_hdr h mem) \<noteq> 0);
        RT_ASSERT (hm_magic (hp_hdr h mem) = HEAP_MAGIC);
        let h1 = upd_hdr mem (\<lambda>m. m\<lparr>hm_used := 0, hm_magic := HEAP_MAGIC\<rparr>) h;
        let h2 = (if add32 (heap_ptr h) mem < add32 (heap_ptr h) (lfree h1) then h1\<lparr>lfree := mem\<rparr> else h1);
        let h3 = h2\<lparr>used_mem := sub32 (used_mem h2) (sub32 (hm_next (hp_hdr h2 mem)) mem)\<rparr>;
        plug_holes mem h3 })"

definition mem_copy :: "nat \<Rightarrow> nat \<Rightarrow> nat \<Rightarrow> heap \<Rightarrow> heap" where
  "mem_copy dst src n h =
     h\<lparr>hp_bytes := (\<lambda>a. if dst \<le> a \<and> a < dst + n then hp_bytes h (src + (a - dst)) else hp_bytes h a)\<rparr>"

definition mem_fill :: "nat \<Rightarrow> u8 \<Rightarrow> nat \<Rightarrow> heap \<Rightarrow> heap" where
  "mem_fill dst c n h = h\<lparr>hp_bytes := (\<lambda>a. if dst \<le> a \<and> a < dst + n then c else hp_bytes h a)\<rparr>"

text \<open>The work of \<open>rt_realloc\<close> in place, of a positive aligned size: \<open>None\<close> when it is done, else the size to move.\<close>

definition realloc_here :: "nat \<Rightarrow> nat \<Rightarrow> heap \<Rightarrow> (nat option \<times> heap) option" where
  "realloc_here rmem n h =
     (if rmem < heap_ptr h \<or> rmem \<ge> add32 (heap_ptr h) (heap_end h) then Some (None, h)
      else
        (let ptr = sub32 (sub32 rmem SIZEOF_STRUCT_MEM) (heap_ptr h);
             mem = hp_hdr h ptr;
             sz = sub32 (sub32 (hm_next mem) ptr) SIZEOF_STRUCT_MEM
         in if sz = n then Some (None, h)
            else if add32 n (SIZEOF_STRUCT_MEM + MIN_SIZE) < sz then
              (let h0 = h\<lparr>used_mem := sub32 (used_mem h) (sz - n)\<rparr>;
                   ptr2 = add32 ptr (SIZEOF_STRUCT_MEM + n);
                   ha = upd_hdr ptr2 (\<lambda>m. m\<lparr>hm_magic := HEAP_MAGIC, hm_used := 0, hm_next := hm_next mem, hm_prev := ptr\<rparr>) h0;
                   hb = upd_hdr ptr (\<lambda>m. m\<lparr>hm_next := ptr2\<rparr>) ha;
                   nn = hm_next (hp_hdr hb ptr2);
                   hc = (if nn \<noteq> add32 (mem_size_aligned h) SIZEOF_STRUCT_MEM
                         then upd_hdr nn (\<lambda>m. m\<lparr>hm_prev := ptr2\<rparr>) hb else hb)
               in map_option (Pair None) (plug_holes ptr2 hc))
            else Some (Some sz, h)))"

definition mem_realloc :: "nat \<Rightarrow> u32 \<Rightarrow> heap \<Rightarrow> (nat option \<times> heap) option" where
  "mem_realloc rmem newsize h =
     (let n = align_up newsize in
      if n > mem_size_aligned h then Some (None, h)
      else if n = 0 then map_option (Pair None) (mem_free rmem h)
      else if rmem = 0 then mem_malloc (of_nat n) h
      else do {
        (move, h1) \<leftarrow> realloc_here rmem n h;
        (case move of
           None \<Rightarrow> Some (Some rmem, h1)
         | Some sz \<Rightarrow> do {
             (nmem, h2) \<leftarrow> mem_malloc (of_nat n) h1;
             (case nmem of
                None \<Rightarrow> Some (None, h2)
              | Some a \<Rightarrow> map_option (Pair (Some a)) (mem_free rmem (mem_copy a rmem (min sz n) h2))) }) })"

definition mem_calloc :: "u32 \<Rightarrow> u32 \<Rightarrow> heap \<Rightarrow> (nat option \<times> heap) option" where
  "mem_calloc count sz h = do {
     (p, h1) \<leftarrow> mem_malloc (count * sz) h;
     (case p of
        None \<Rightarrow> Some (None, h1)
      | Some a \<Rightarrow> Some (Some a, mem_fill a 0 (unat (count * sz)) h1)) }"

definition rt_memory_info :: "heap \<Rightarrow> nat \<times> nat \<times> nat" where
  "rt_memory_info h = (mem_size_aligned h, used_mem h, max_mem h)"


section \<open>Well-formed heaps\<close>

abbreviation (input) nxt :: "heap \<Rightarrow> nat \<Rightarrow> nat" where "nxt h a \<equiv> hm_next (hp_hdr h a)"
abbreviation (input) prv :: "heap \<Rightarrow> nat \<Rightarrow> nat" where "prv h a \<equiv> hm_prev (hp_hdr h a)"
abbreviation (input) is_used :: "heap \<Rightarrow> nat \<Rightarrow> bool" where "is_used h a \<equiv> hm_used (hp_hdr h a) \<noteq> 0"

definition heap_frame :: "heap \<Rightarrow> bool" where
  "heap_frame h \<longleftrightarrow> heap_end h = mem_size_aligned h + 16 \<and> 16 \<le> mem_size_aligned h \<and>
     8 dvd mem_size_aligned h \<and> 8 dvd heap_ptr h \<and> heap_ptr h + heap_end h + 16 < 2 ^ 32"

text \<open>The offsets \<open>B\<close> of the block headers, that of the end marker included.\<close>

definition heap_wf :: "heap \<Rightarrow> nat set \<Rightarrow> bool" where
  "heap_wf h B \<longleftrightarrow> heap_frame h \<and> 0 \<in> B \<and> heap_end h \<in> B \<and> (\<forall>a\<in>B. a \<le> heap_end h \<and> 8 dvd a) \<and>
     (\<forall>a\<in>B. a < heap_end h \<longrightarrow> nxt h a \<in> B \<and> a + 16 < nxt h a \<and> (\<forall>x\<in>B. x \<le> a \<or> nxt h a \<le> x)) \<and>
     (\<forall>a\<in>B. a < heap_end h \<longrightarrow> nxt h a < heap_end h \<longrightarrow> prv h (nxt h a) = a) \<and> prv h 0 = 0 \<and>
     nxt h (heap_end h) = heap_end h \<and> is_used h (heap_end h) \<and>
     (\<forall>a\<in>B. hm_magic (hp_hdr h a) = HEAP_MAGIC) \<and> lfree h \<in> B"

lemma heap_frameD:
  assumes "heap_frame h"
  shows "heap_end h = mem_size_aligned h + 16" "16 \<le> mem_size_aligned h" "8 dvd mem_size_aligned h"
    "8 dvd heap_ptr h" "heap_ptr h + heap_end h + 16 < 2 ^ 32" "heap_end h < 2 ^ 32" "mem_size_aligned h < 2 ^ 32"
    "0 < heap_end h"
  using assms by (auto simp: heap_frame_def)

lemma heap_wfD:
  assumes "heap_wf h B"
  shows "heap_frame h" "0 \<in> B" "heap_end h \<in> B" "\<And>a. a \<in> B \<Longrightarrow> a \<le> heap_end h" "\<And>a. a \<in> B \<Longrightarrow> 8 dvd a"
    "\<And>a. a \<in> B \<Longrightarrow> a < heap_end h \<Longrightarrow> nxt h a \<in> B" "\<And>a. a \<in> B \<Longrightarrow> a < heap_end h \<Longrightarrow> a + 16 < nxt h a"
    "\<And>a x. a \<in> B \<Longrightarrow> a < heap_end h \<Longrightarrow> x \<in> B \<Longrightarrow> x \<le> a \<or> nxt h a \<le> x"
    "\<And>a. a \<in> B \<Longrightarrow> a < heap_end h \<Longrightarrow> nxt h a < heap_end h \<Longrightarrow> prv h (nxt h a) = a"
    "prv h 0 = 0" "nxt h (heap_end h) = heap_end h" "is_used h (heap_end h)"
    "\<And>a. a \<in> B \<Longrightarrow> hm_magic (hp_hdr h a) = HEAP_MAGIC" "lfree h \<in> B"
  using assms by (auto simp: heap_wf_def)

lemma heap_wf_finite: "heap_wf h B \<Longrightarrow> finite B"
  using finite_subset [of B "{..heap_end h}"] heap_wfD(4) by blast

text \<open>Every block but the first has a predecessor, which its header names.\<close>

lemma heap_pred:
  assumes "heap_wf h B" "a \<in> B" "0 < a"
  obtains p where "p \<in> B" "p < a" "nxt h p = a" "p < heap_end h" "a < heap_end h \<Longrightarrow> prv h a = p"
proof -
  note d = heap_wfD [OF assms(1)]
  let ?P = "{x \<in> B. x < a}"
  have f: "finite ?P" using heap_wf_finite [OF assms(1)] by simp
  have ne: "?P \<noteq> {}" using d(2) assms(3) by auto
  define p where "p = Max ?P"
  have p: "p \<in> B" "p < a" using Max_in [OF f ne] by (simp_all add: p_def)
  have pe: "p < heap_end h" using p(2) d(4) [OF assms(2)] by simp
  have "\<not> nxt h p < a"
  proof
    assume "nxt h p < a"
    then have "nxt h p \<le> p" unfolding p_def using d(6) [OF p(1) pe] by (intro Max_ge [OF f]) (simp add: p_def)
    then show False using d(7) [OF p(1) pe] by simp
  qed
  then have n: "nxt h p = a" using d(8) [OF p(1) pe assms(2)] p(2) by simp
  show ?thesis by (rule that [OF p n pe]) (use d(9) [OF p(1) pe] n in simp)
qed

lemma heap_next_inj:
  assumes "heap_wf h B" "a \<in> B" "b \<in> B" "a < heap_end h" "b < heap_end h" "nxt h a = nxt h b"
  shows "a = b"
  using heap_wfD(8) [OF assms(1,2,4,3)] heap_wfD(8) [OF assms(1,3,5,2)] heap_wfD(7) [OF assms(1,2,4)]
    heap_wfD(7) [OF assms(1,3,5)] assms(6) by linarith

section \<open>Merging and splitting\<close>

text \<open>A block swallows the one behind it; a block is split at the offset \<open>m\<close>.\<close>

definition absorb :: "nat \<Rightarrow> heap \<Rightarrow> heap" where
  "absorb a h =
     (let n = nxt h a;
          ha = (if lfree h = n then h\<lparr>lfree := a\<rparr> else h);
          nn = nxt h n;
          hb = upd_hdr a (\<lambda>m. m\<lparr>hm_next := nn\<rparr>) ha
      in upd_hdr nn (\<lambda>m. m\<lparr>hm_prev := a\<rparr>) hb)"

definition split_at :: "nat \<Rightarrow> nat \<Rightarrow> heap \<Rightarrow> heap" where
  "split_at a m h =
     (let ha = upd_hdr m (\<lambda>b. b\<lparr>hm_magic := HEAP_MAGIC, hm_used := 0, hm_next := nxt h a, hm_prev := a\<rparr>) h;
          hb = upd_hdr a (\<lambda>b. b\<lparr>hm_next := m\<rparr>) ha;
          nn = nxt hb m
      in if nn \<noteq> heap_end h then upd_hdr nn (\<lambda>b. b\<lparr>hm_prev := m\<rparr>) hb else hb)"

lemma absorb_simps [simp]:
  "heap_ptr (absorb a h) = heap_ptr h" "heap_end (absorb a h) = heap_end h"
  "mem_size_aligned (absorb a h) = mem_size_aligned h" "used_mem (absorb a h) = used_mem h"
  "max_mem (absorb a h) = max_mem h" "hp_bytes (absorb a h) = hp_bytes h" "heap_sem (absorb a h) = heap_sem h"
  "lfree (absorb a h) = (if lfree h = nxt h a then a else lfree h)"
  "nxt (absorb a h) x = (if x = a then nxt h (nxt h a) else nxt h x)"
  "prv (absorb a h) x = (if x = nxt h (nxt h a) then a else prv h x)"
  "hm_used (hp_hdr (absorb a h) x) = hm_used (hp_hdr h x)"
  "hm_magic (hp_hdr (absorb a h) x) = hm_magic (hp_hdr h x)"
  "heap_frame (absorb a h) = heap_frame h"
  by (simp_all add: absorb_def Let_def heap_frame_def)

lemma split_at_simps [simp]:
  "heap_ptr (split_at a m h) = heap_ptr h" "heap_end (split_at a m h) = heap_end h"
  "mem_size_aligned (split_at a m h) = mem_size_aligned h" "used_mem (split_at a m h) = used_mem h"
  "max_mem (split_at a m h) = max_mem h" "hp_bytes (split_at a m h) = hp_bytes h"
  "heap_sem (split_at a m h) = heap_sem h" "lfree (split_at a m h) = lfree h"
  "a \<noteq> m \<Longrightarrow> nxt (split_at a m h) x = (if x = a then m else if x = m then nxt h a else nxt h x)"
  "a \<noteq> m \<Longrightarrow> prv (split_at a m h) x =
     (if x = nxt h a \<and> x \<noteq> heap_end h then m else if x = m then a else prv h x)"
  "hm_used (hp_hdr (split_at a m h) x) = (if x = m then 0 else hm_used (hp_hdr h x))"
  "hm_magic (hp_hdr (split_at a m h) x) = (if x = m then HEAP_MAGIC else hm_magic (hp_hdr h x))"
  "heap_frame (split_at a m h) = heap_frame h"
  by (auto simp: split_at_def Let_def heap_frame_def)

lemma absorb_wf:
  assumes "heap_wf h B" "a \<in> B" "a < heap_end h" "nxt h a < heap_end h"
  shows "heap_wf (absorb a h) (B - {nxt h a})"
proof -
  note d = heap_wfD [OF assms(1)]
  let ?n = "nxt h a"
  have n: "?n \<in> B" "a + 16 < ?n" using d(6,7) [OF assms(2,3)] by simp_all
  have nn: "nxt h ?n \<in> B" "?n + 16 < nxt h ?n" using d(6,7) [OF n(1) assms(4)] by simp_all
  have nx: "nxt h x \<noteq> ?n" if "x \<in> B" "x < heap_end h" "x \<noteq> a" for x
    using heap_next_inj [OF assms(1) that(1) assms(2) that(2) assms(3)] that(3) by blast
  have nnx: "nxt h x \<noteq> nxt h ?n" if "x \<in> B" "x < heap_end h" "x \<noteq> ?n" for x
    using heap_next_inj [OF assms(1) that(1) n(1) that(2) assms(4)] that(3) by blast
  have gap: "x \<le> a \<or> nxt h ?n \<le> x" if "x \<in> B - {?n}" for x
    using d(8) [OF assms(2,3), of x] d(8) [OF n(1) assms(4), of x] that by auto
  have links: "nxt (absorb a h) x \<in> B - {?n} \<and> x + 16 < nxt (absorb a h) x \<and>
      (\<forall>y\<in>B - {?n}. y \<le> x \<or> nxt (absorb a h) x \<le> y)"
    if x: "x \<in> B - {?n}" "x < heap_end h" for x
  proof (cases "x = a")
    case True
    then show ?thesis using nn n gap by auto
  next
    case False
    then show ?thesis using d(6-8) [of x] x nx [of x] by auto
  qed
  have backs: "prv (absorb a h) (nxt (absorb a h) x) = x"
    if x: "x \<in> B - {?n}" "x < heap_end h" "nxt (absorb a h) x < heap_end h" for x
  proof (cases "x = a")
    case True
    then show ?thesis by simp
  next
    case False
    then show ?thesis using x d(9) [of x] nnx [of x] by auto
  qed
  have ends: "heap_end h \<noteq> ?n" "heap_end h \<noteq> a" "0 \<noteq> ?n" "0 \<noteq> nxt h ?n" using n(2) nn(2) assms(3,4) by auto
  have lf: "lfree (absorb a h) \<in> B - {?n}" using d(14) assms(2) n(2) by auto
  show ?thesis unfolding heap_wf_def
    using d(1-5) d(10-13) links backs ends lf by (simp add: Ball_def)
qed

lemma split_wf:
  assumes "heap_wf h B" "a \<in> B" "a < heap_end h" "a + 16 < m" "m + 16 < nxt h a" "8 dvd m"
  shows "heap_wf (split_at a m h) (insert m B)" "m \<notin> B"
proof -
  note d = heap_wfD [OF assms(1)]
  let ?n = "nxt h a"
  have n: "?n \<in> B" "?n \<le> heap_end h" using d(6) [OF assms(2,3)] d(4) by blast+
  have gap: "x \<le> a \<or> ?n \<le> x" if "x \<in> B" for x using d(8) [OF assms(2,3) that] .
  show m: "m \<notin> B" using gap [of m] assms(4,5) by auto
  have am: "a \<noteq> m" using assms(4) by simp
  have nx: "nxt h x \<noteq> ?n" if "x \<in> B" "x < heap_end h" "x \<noteq> a" for x
    using heap_next_inj [OF assms(1) that(1) assms(2) that(2) assms(3)] that(3) by blast
  have side: "nxt h x \<le> m \<or> m \<le> x" if "x \<in> B" "x < heap_end h" "x \<noteq> a" for x
    using gap [OF that(1)] gap [OF d(6) [OF that(1,2)]] d(8) [OF that(1,2) assms(2)] that(3) assms(4,5) by linarith
  have links: "nxt (split_at a m h) x \<in> insert m B \<and> x + 16 < nxt (split_at a m h) x \<and>
      (\<forall>y\<in>insert m B. y \<le> x \<or> nxt (split_at a m h) x \<le> y)"
    if x: "x \<in> insert m B" "x < heap_end h" for x
  proof -
    consider "x = a" | "x = m" | "x \<in> B" "x \<noteq> a" "x \<noteq> m" using x(1) by blast
    then show ?thesis
    proof cases
      case 1
      have "y \<le> a \<or> m \<le> y" if "y \<in> insert m B" for y using that gap [of y] assms(5) by auto
      then show ?thesis using 1 am assms(4) by simp
    next
      case 2
      have "y \<le> m \<or> ?n \<le> y" if "y \<in> insert m B" for y using that gap [of y] assms(4) by auto
      then show ?thesis using 2 am assms(5) n(1) by simp
    next
      case 3
      then show ?thesis using am d(6-8) [of x] x(2) side [of x] by auto
    qed
  qed
  have backs: "prv (split_at a m h) (nxt (split_at a m h) x) = x"
    if x: "x \<in> insert m B" "x < heap_end h" "nxt (split_at a m h) x < heap_end h" for x
  proof -
    have nm: "nxt h x \<noteq> m" if "x \<in> B" "x < heap_end h" for x using d(6) [OF that] m by auto
    consider "x = a" | "x = m" | "x \<in> B" "x \<noteq> a" "x \<noteq> m" using x(1) by blast
    then show ?thesis
    proof cases
      case 1
      then show ?thesis using am assms(5) by simp
    next
      case 2
      then show ?thesis using am x(3) by simp
    next
      case 3
      then show ?thesis using am x d(9) [of x] nx [of x] nm [of x] by auto
    qed
  qed
  have ends: "heap_end h \<noteq> m" "heap_end h \<noteq> a" "m \<noteq> 0" "?n \<noteq> 0" using assms(3-5) n(2) by auto
  show "heap_wf (split_at a m h) (insert m B)" unfolding heap_wf_def
    using d(1-5) d(10-14) links backs ends am assms(5,6) n(2) by (simp add: Ball_def)
qed

section \<open>Blocks in use\<close>

definition in_use :: "heap \<Rightarrow> nat set \<Rightarrow> nat set" where
  "in_use h B = {a \<in> B. a < heap_end h \<and> is_used h a}"

definition live_blocks :: "heap \<Rightarrow> nat set \<Rightarrow> (nat \<times> nat) set" where
  "live_blocks h B = (\<lambda>a. (heap_ptr h + a + 16, nxt h a - a - 16)) ` in_use h B"

definition total_used :: "heap \<Rightarrow> nat set \<Rightarrow> nat" where
  "total_used h B = (\<Sum>a\<in>in_use h B. nxt h a - a)"

definition no_seam :: "heap \<Rightarrow> nat set \<Rightarrow> bool" where
  "no_seam h B \<longleftrightarrow> (\<forall>a\<in>B. \<not> is_used h a \<longrightarrow> is_used h (nxt h a))"

text \<open>\<open>lfree\<close> is the first free block, or the end marker when there is none.\<close>

definition tight :: "heap \<Rightarrow> nat set \<Rightarrow> bool" where
  "tight h B \<longleftrightarrow> (\<forall>a\<in>B. a < lfree h \<longrightarrow> is_used h a) \<and> (lfree h = heap_end h \<or> \<not> is_used h (lfree h))"

text \<open>Free blocks were merged, the used ones are the same.\<close>

definition same_use :: "heap \<Rightarrow> nat set \<Rightarrow> heap \<Rightarrow> nat set \<Rightarrow> bool" where
  "same_use h B h' C \<longleftrightarrow> C \<subseteq> B \<and> (\<forall>a. hm_used (hp_hdr h' a) = hm_used (hp_hdr h a)) \<and>
     (\<forall>a\<in>B. is_used h a \<longrightarrow> a \<in> C \<and> nxt h' a = nxt h a) \<and> heap_ptr h' = heap_ptr h \<and>
     heap_end h' = heap_end h \<and> mem_size_aligned h' = mem_size_aligned h \<and> used_mem h' = used_mem h \<and>
     max_mem h' = max_mem h \<and> hp_bytes h' = hp_bytes h \<and> heap_sem h' = heap_sem h"

lemma same_use_refl: "same_use h B h B"
  by (simp add: same_use_def)

lemma same_use_trans: "same_use h B h1 C \<Longrightarrow> same_use h1 C h2 D \<Longrightarrow> same_use h B h2 D"
  unfolding same_use_def by (metis subset_trans subsetD)

lemma same_use_in_use: "same_use h B h' C \<Longrightarrow> in_use h' C = in_use h B"
  by (auto simp: same_use_def in_use_def)

lemma same_use_live: "same_use h B h' C \<Longrightarrow> live_blocks h' C = live_blocks h B"
  unfolding live_blocks_def using same_use_in_use [of h B h' C]
  by (auto simp: same_use_def in_use_def intro!: image_cong)

lemma same_use_total:
  assumes "same_use h B h' C"
  shows "total_used h' C = total_used h B"
proof -
  have "nxt h' a = nxt h a" if "a \<in> in_use h B" for a using assms that by (auto simp: same_use_def in_use_def)
  then show ?thesis unfolding total_used_def same_use_in_use [OF assms] by simp
qed

lemma absorb_step:
  assumes "heap_wf h B" "a \<in> B" "a < heap_end h" "\<not> is_used h a" "\<not> is_used h (nxt h a)"
  shows "heap_wf (absorb a h) (B - {nxt h a})" "same_use h B (absorb a h) (B - {nxt h a})"
    "tight h B \<Longrightarrow> tight (absorb a h) (B - {nxt h a})"
proof -
  note d = heap_wfD [OF assms(1)]
  have "nxt h a \<noteq> heap_end h" using d(12) assms(5) by metis
  then have n: "nxt h a < heap_end h" using d(4) [OF d(6) [OF assms(2,3)]] by simp
  show "heap_wf (absorb a h) (B - {nxt h a})" by (rule absorb_wf [OF assms(1-3) n])
  show "same_use h B (absorb a h) (B - {nxt h a})" using assms(4,5) by (auto simp: same_use_def)
  show "tight (absorb a h) (B - {nxt h a})" if "tight h B"
    using that assms(4) d(7) [OF assms(2,3)] n by (auto simp: tight_def)
qed

lemma plug_holes_eq:
  assumes "heap_wf h B" "a \<in> B" "a < heap_end h" "\<not> is_used h a"
  shows "plug_holes a h = Some (let h1 = (if is_used h (nxt h a) then h else absorb a h)
    in if a = 0 \<or> is_used h (prv h a) then h1 else absorb (prv h a) h1)"
proof -
  note d = heap_wfD [OF assms(1)] and f = heap_frameD [OF heap_wfD(1) [OF assms(1)]]
  let ?h1 = "if is_used h (nxt h a) then h else absorb a h"
  have nn: "nxt h (nxt h a) \<noteq> a" if "\<not> is_used h (nxt h a)"
  proof -
    have "nxt h a \<noteq> heap_end h" using d(12) that by metis
    then have "nxt h a < heap_end h" using d(4) [OF d(6) [OF assms(2,3)]] by simp
    from d(7) [OF d(6) [OF assms(2,3)] this] d(7) [OF assms(2,3)] show ?thesis by simp
  qed
  have first: "(if a \<noteq> nxt h a \<and> hm_used (hp_hdr h (nxt h a)) = 0 \<and> nxt h a \<noteq> heap_end h
      then (let ha = (if lfree h = nxt h a then h\<lparr>lfree := a\<rparr> else h);
                nn = hm_next (hp_hdr ha (nxt h a));
                hb = upd_hdr a (\<lambda>m. m\<lparr>hm_next := nn\<rparr>) ha
            in upd_hdr nn (\<lambda>m. m\<lparr>hm_prev := a\<rparr>) hb) else h) = ?h1"
    using d(7) [OF assms(2,3)] d(12) by (auto simp: absorb_def Let_def)
  have p1: "prv ?h1 a = prv h a" using nn by auto
  have ra: "heap_ptr h \<le> add32 (heap_ptr h) a \<and> add32 (heap_ptr h) a < add32 (heap_ptr h) (heap_end h)"
    using assms(3) f(5) by simp
  show ?thesis
  proof (cases "a = 0")
    case True
    then have "prv ?h1 a = a" using p1 d(10) by simp
    then show ?thesis unfolding plug_holes_def Let_def [of "nxt h a"] first
      using True ra assms(4) by (simp add: Let_def [of ?h1] RT_ASSERT_def del: absorb_simps)
  next
    case False
    then obtain p where p: "p \<in> B" "p < a" "nxt h p = a" "prv h a = p"
      using heap_pred [OF assms(1,2)] assms(3) by blast
    have n1: "nxt ?h1 p = a" using p by simp
    have "(if prv ?h1 a \<noteq> a \<and> hm_used (hp_hdr ?h1 (prv ?h1 a)) = 0
        then (let ha = (if lfree ?h1 = a then ?h1\<lparr>lfree := prv ?h1 a\<rparr> else ?h1);
                nn = hm_next (hp_hdr ha a);
                hb = upd_hdr (prv ?h1 a) (\<lambda>m. m\<lparr>hm_next := nn\<rparr>) ha
            in upd_hdr nn (\<lambda>m. m\<lparr>hm_prev := prv ?h1 a\<rparr>) hb) else ?h1) =
        (if is_used h (prv h a) then ?h1 else absorb (prv h a) ?h1)"
    proof -
      have u: "hm_used (hp_hdr ?h1 p) = hm_used (hp_hdr h p)" by simp
      show ?thesis unfolding p1 p(4) using p(2) u n1 by (simp add: absorb_def [of p] Let_def del: absorb_simps)
    qed
    then show ?thesis unfolding plug_holes_def Let_def [of "nxt h a"] first
      using False ra assms(4) by (simp add: Let_def [of ?h1] Let_def [of "prv ?h1 a"] RT_ASSERT_def del: absorb_simps)
  qed
qed

lemma plug_holes_ok:
  assumes "heap_wf h B" "a \<in> B" "a < heap_end h" "\<not> is_used h a"
    "\<And>x. x \<in> B \<Longrightarrow> \<not> is_used h x \<Longrightarrow> x \<noteq> a \<Longrightarrow> nxt h x \<noteq> a \<Longrightarrow> is_used h (nxt h x)"
  shows "\<exists>h' C. plug_holes a h = Some h' \<and> heap_wf h' C \<and> no_seam h' C \<and> same_use h B h' C \<and>
    (tight h B \<longrightarrow> tight h' C)"
proof -
  note d = heap_wfD [OF assms(1)]
  define h1 where "h1 = (if is_used h (nxt h a) then h else absorb a h)"
  define B1 where "B1 = (if is_used h (nxt h a) then B else B - {nxt h a})"
  have s1: "heap_wf h1 B1" "same_use h B h1 B1" "tight h B \<longrightarrow> tight h1 B1"
    using absorb_step [OF assms(1-4)] assms(1) same_use_refl by (auto simp: h1_def B1_def)
  have an: "a \<noteq> nxt h a" using d(7) [OF assms(2,3)] by simp
  then have a1: "a \<in> B1" using assms(2) by (simp add: B1_def)
  have e1: "heap_end h1 = heap_end h" "hm_used (hp_hdr h1 x) = hm_used (hp_hdr h x)" for x by (simp_all add: h1_def)
  have seam_a: "is_used h1 (nxt h1 a)"
  proof (cases "is_used h (nxt h a)")
    case False
    have "nxt h a \<noteq> heap_end h" using d(12) False by metis
    then have l: "nxt h a < heap_end h" using d(4) [OF d(6) [OF assms(2,3)]] by simp
    have "is_used h (nxt h (nxt h a))"
      using assms(5) [of "nxt h a"] d(6) [OF assms(2,3)] False an d(7) [OF d(6) [OF assms(2,3)] l] d(7) [OF assms(2,3)]
      by simp
    then show ?thesis using False by (simp add: h1_def)
  qed (simp add: h1_def)
  have seam1: "is_used h1 (nxt h1 x)" if "x \<in> B1" "\<not> is_used h1 x" "nxt h1 x \<noteq> a" for x
  proof (cases "x = a")
    case False
    have "x \<in> B" "\<not> is_used h x" using that(1,2) e1 by (auto simp: B1_def split: if_splits)
    then show ?thesis using assms(5) [of x] that(3) False e1 by (simp add: h1_def split: if_splits)
  qed (use seam_a in simp)
  have pl: "plug_holes a h = Some (if a = 0 \<or> is_used h (prv h a) then h1 else absorb (prv h a) h1)"
    using plug_holes_eq [OF assms(1-4)] by (simp add: h1_def Let_def)
  show ?thesis
  proof (cases "a = 0 \<or> is_used h (prv h a)")
    case True
    have "is_used h1 (nxt h1 x)" if x: "x \<in> B1" "\<not> is_used h1 x" for x
    proof (cases "nxt h1 x = a")
      case True
      note nx = this
      have xl: "x < heap_end h1" using x heap_wfD(4,12) [OF s1(1)] le_neq_implies_less by metis
      then have "x < a" using heap_wfD(7) [OF s1(1) x(1) xl] nx by simp
      then have "a \<noteq> 0" by simp
      obtain p where p: "p \<in> B1" "nxt h1 p = a" "p < heap_end h1" "prv h1 a = p"
        using heap_pred [OF s1(1) a1] \<open>a \<noteq> 0\<close> assms(3) e1(1) by (metis gr0I)
      have "x = p" by (rule heap_next_inj [OF s1(1) x(1) p(1) xl p(3)]) (simp add: nx p(2))
      moreover have "prv h1 a = prv h a"
      proof -
        have "a \<noteq> nxt h (nxt h a)" if "\<not> is_used h (nxt h a)"
        proof -
          have "nxt h a < heap_end h" using d(4) [OF d(6) [OF assms(2,3)]] d(12) that le_neq_implies_less by metis
          from d(7) [OF d(6) [OF assms(2,3)] this] d(7) [OF assms(2,3)] show ?thesis by simp
        qed
        then show ?thesis by (simp add: h1_def)
      qed
      ultimately show ?thesis using \<open>a \<noteq> 0\<close> \<open>a = 0 \<or> is_used h (prv h a)\<close> x(2) p(4) e1(2) by simp
    qed (use seam1 x in simp)
    then have "no_seam h1 B1" by (simp add: no_seam_def)
    then show ?thesis using True pl s1 by (intro exI [of _ h1] exI [of _ B1]) simp
  next
    case False
    then obtain p where p: "p \<in> B" "p < a" "nxt h p = a" "p < heap_end h" "prv h a = p"
      using heap_pred [OF assms(1,2)] assms(3) by blast
    have n1: "nxt h1 p = a" using p by (simp add: h1_def)
    have p1: "p \<in> B1" using p(1,2) d(7) [OF assms(2,3)] by (simp add: B1_def)
    have up: "\<not> is_used h1 p" "\<not> is_used h1 a" using False p(5) assms(4) e1(2) by simp_all
    have pe: "p < heap_end h1" using p(4) e1(1) by simp
    have up': "\<not> is_used h1 (nxt h1 p)" using up(2) n1 by simp
    note s2 = absorb_step [OF s1(1) p1 pe up(1) up']
    have "is_used (absorb p h1) (nxt (absorb p h1) x)" if x: "x \<in> B1 - {nxt h1 p}" "\<not> is_used (absorb p h1) x" for x
    proof (cases "x = p")
      case True
      then show ?thesis using seam_a n1 by simp
    next
      case False
      have xl: "x < heap_end h1" using x heap_wfD(4) [OF s1(1), of x] heap_wfD(12) [OF s1(1)] by (metis DiffD1 absorb_simps(11) le_neq_implies_less)
      have "nxt h1 x \<noteq> a"
        using heap_next_inj [OF s1(1) _ p1 xl pe] x(1) n1 False by auto
      then show ?thesis using seam1 [of x] x False by simp
    qed
    then have "no_seam (absorb p h1) (B1 - {nxt h1 p})" by (simp add: no_seam_def)
    then show ?thesis using False p(5) pl s1 s2 same_use_trans [OF s1(2) s2(2)]
      by (intro exI [of _ "absorb p h1"] exI [of _ "B1 - {nxt h1 p}"]) simp
  qed
qed

section \<open>Freeing a block\<close>

definition heap_inv :: "heap \<Rightarrow> nat set \<Rightarrow> bool" where
  "heap_inv h B \<longleftrightarrow> heap_wf h B \<and> no_seam h B \<and> used_mem h = total_used h B"

lemma heap_wf_cong:
  assumes "heap_wf h B" "heap_ptr h' = heap_ptr h" "heap_end h' = heap_end h"
    "mem_size_aligned h' = mem_size_aligned h" "\<And>a. nxt h' a = nxt h a" "\<And>a. prv h' a = prv h a"
    "\<And>a. a \<in> B \<Longrightarrow> hm_magic (hp_hdr h' a) = HEAP_MAGIC" "lfree h' \<in> B" "is_used h' (heap_end h)"
  shows "heap_wf h' B"
  using assms(1,7-9) unfolding heap_wf_def heap_frame_def assms(2-6) by blast

lemma total_used_bound:
  assumes "heap_wf h B"
  shows "total_used h B \<le> heap_end h"
proof -
  note d = heap_wfD [OF assms]
  have fin: "finite (in_use h B)" using heap_wf_finite [OF assms] by (simp add: in_use_def)
  have sub: "(\<Union>a\<in>in_use h B. {a..<nxt h a}) \<subseteq> {0..<heap_end h}"
    using d(4,6) by (fastforce simp: in_use_def)
  have "total_used h B = (\<Sum>a\<in>in_use h B. card {a..<nxt h a})" by (simp add: total_used_def)
  also have "\<dots> = card (\<Union>a\<in>in_use h B. {a..<nxt h a})"
  proof (rule card_UN_disjoint [symmetric])
    show "finite (in_use h B)" by (rule fin)
    show "\<forall>a\<in>in_use h B. finite {a..<nxt h a}" by simp
    show "\<forall>a\<in>in_use h B. \<forall>b\<in>in_use h B. a \<noteq> b \<longrightarrow> {a..<nxt h a} \<inter> {b..<nxt h b} = {}"
    proof (intro ballI impI)
      fix a b assume ab: "a \<in> in_use h B" "b \<in> in_use h B" "a \<noteq> b"
      have "b \<le> a \<or> nxt h a \<le> b" "a \<le> b \<or> nxt h b \<le> a" using d(8) ab(1,2) by (auto simp: in_use_def)
      then show "{a..<nxt h a} \<inter> {b..<nxt h b} = {}" using ab(3) by fastforce
    qed
  qed
  also have "\<dots> \<le> card {0..<heap_end h}" by (rule card_mono [OF _ sub]) simp
  finally show ?thesis by simp
qed

lemma in_use_remove:
  assumes "heap_wf h B" "a \<in> in_use h B"
  shows "(\<Sum>x\<in>in_use h B - {a}. nxt h x - x) = total_used h B - (nxt h a - a)"
    "nxt h a - a \<le> total_used h B"
proof -
  have fin: "finite (in_use h B)" using heap_wf_finite [OF assms(1)] by (simp add: in_use_def)
  show "(\<Sum>x\<in>in_use h B - {a}. nxt h x - x) = total_used h B - (nxt h a - a)"
    "nxt h a - a \<le> total_used h B"
    using sum.remove [OF fin assms(2), of "\<lambda>x. nxt h x - x"] unfolding total_used_def by simp_all
qed

lemma mem_free_ok:
  assumes "heap_inv h B" "a \<in> in_use h B"
  shows "\<exists>h' C. mem_free (heap_ptr h + a + 16) h = Some h' \<and> heap_inv h' C \<and> (tight h B \<longrightarrow> tight h' C) \<and>
    live_blocks h' C = live_blocks h B - {(heap_ptr h + a + 16, nxt h a - a - 16)} \<and>
    heap_ptr h' = heap_ptr h \<and> heap_end h' = heap_end h \<and> hp_bytes h' = hp_bytes h \<and> heap_sem h' = heap_sem h"
proof -
  have wf: "heap_wf h B" and ns: "no_seam h B" and um: "used_mem h = total_used h B"
    using assms(1) by (simp_all add: heap_inv_def)
  have a: "a \<in> B" "a < heap_end h" "is_used h a" using assms(2) by (simp_all add: in_use_def)
  note d = heap_wfD [OF wf] and f = heap_frameD [OF heap_wfD(1) [OF wf]]
  have na: "nxt h a \<le> heap_end h" "a + 16 < nxt h a" using d(4) [OF d(6) [OF a(1,2)]] d(7) [OF a(1,2)] by simp_all
  define r where "r = heap_ptr h + a + 16"
  have r: "r \<noteq> 0" "r mod 8 = 0" "heap_ptr h \<le> r" "r < heap_ptr h + heap_end h" "r < 2 ^ 32"
    using f(4,5) d(5) [OF a(1)] a(2) na f(1,2) by (auto simp: r_def mod_eq_0_iff_dvd)
  have off: "sub32 (sub32 r 16) (heap_ptr h) = a" using f(5) a(2) by (simp add: r_def)
  have pe: "add32 (heap_ptr h) (heap_end h) = heap_ptr h + heap_end h" using f(5) by simp
  define h3 where "h3 = (upd_hdr a (\<lambda>m. m\<lparr>hm_used := 0, hm_magic := HEAP_MAGIC\<rparr>) h)
      \<lparr>lfree := (if a < lfree h then a else lfree h), used_mem := used_mem h - (nxt h a - a)\<rparr>"
  have lf: "add32 (heap_ptr h) a < add32 (heap_ptr h) (lfree h) \<longleftrightarrow> a < lfree h"
    using f(5) a(2) d(4) [OF d(14)] by simp
  have tb: "nxt h a - a \<le> used_mem h" "used_mem h < 2 ^ 32"
    using um in_use_remove(2) [OF wf assms(2)] total_used_bound [OF wf] f(6) by simp_all
  have sub: "sub32 (used_mem h) (sub32 (nxt h a) a) = used_mem h - (nxt h a - a)"
    using tb na f(6) by simp
  have fr: "mem_free r h = plug_holes a h3"
    using r off pe a(3) d(13) [OF a(1)] lf sub by (simp add: mem_free_def Let_def h3_def RT_ASSERT_def)
  have wf3: "heap_wf h3 B"
    by (rule heap_wf_cong [OF wf]) (use d(12-14) a in \<open>auto simp: h3_def\<close>)
  have ns3: "is_used h3 (nxt h3 x)" if "x \<in> B" "\<not> is_used h3 x" "x \<noteq> a" "nxt h3 x \<noteq> a" for x
    using ns that by (auto simp: no_seam_def h3_def)
  have t3: "tight h3 B" if "tight h B" using that a(2) by (auto simp: tight_def h3_def)
  have u3: "in_use h3 B = in_use h B - {a}" by (auto simp: in_use_def h3_def)
  have m3: "used_mem h3 = total_used h3 B"
    using in_use_remove(1) [OF wf assms(2)] um unfolding total_used_def u3 by (simp add: h3_def)
  have l3: "live_blocks h3 B = live_blocks h B - {(r, nxt h a - a - 16)}"
    using a assms(2) unfolding live_blocks_def u3 by (auto simp: h3_def r_def)
  have "a < heap_end h3" "\<not> is_used h3 a" using a(2) by (simp_all add: h3_def)
  from plug_holes_ok [OF wf3 a(1) this ns3] obtain h' C where h': "plug_holes a h3 = Some h'" "heap_wf h' C"
    "no_seam h' C" "same_use h3 B h' C" "tight h3 B \<longrightarrow> tight h' C" by blast
  have s: "heap_ptr h' = heap_ptr h" "heap_end h' = heap_end h" "hp_bytes h' = hp_bytes h" "heap_sem h' = heap_sem h"
    "used_mem h' = used_mem h3" using h'(4) by (simp_all add: same_use_def h3_def)
  have "heap_inv h' C"
    using h'(2,3) m3 same_use_total [OF h'(4)] s(5) by (simp add: heap_inv_def)
  then show ?thesis using fr h'(1,5) t3 same_use_live [OF h'(4)] l3 s(1-4) unfolding r_def by auto
qed

section \<open>Searching and taking a block\<close>

text \<open>First fit, in the words of the loop: the last position looked at is below
  \<open>mem_size_aligned - sz\<close>.\<close>

definition fits :: "heap \<Rightarrow> nat \<Rightarrow> nat \<Rightarrow> bool" where
  "fits h sz a \<longleftrightarrow> \<not> is_used h a \<and> sz \<le> nxt h a - a - 16"

lemma mem_search_ok:
  assumes "heap_wf h B" "ptr \<in> B" "sz \<le> mem_size_aligned h"
  shows "\<exists>r. mem_search sz ptr h = Some r \<and>
    (case r of
       None \<Rightarrow> \<forall>x\<in>B. ptr \<le> x \<longrightarrow> x < mem_size_aligned h - sz \<longrightarrow> \<not> fits h sz x
     | Some a \<Rightarrow> a \<in> B \<and> ptr \<le> a \<and> a < mem_size_aligned h - sz \<and> fits h sz a \<and>
         (\<forall>x\<in>B. ptr \<le> x \<longrightarrow> x < a \<longrightarrow> \<not> fits h sz x))"
  using assms(2)
proof (induction "heap_end h - ptr" arbitrary: ptr rule: less_induct)
  case less
  note d = heap_wfD [OF assms(1)] and f = heap_frameD [OF heap_wfD(1) [OF assms(1)]]
  have sb: "sub32 (mem_size_aligned h) sz = mem_size_aligned h - sz" using assms(3) f(7) by simp
  show ?case
  proof (cases "ptr < mem_size_aligned h - sz")
    case False
    then show ?thesis by (subst mem_search.simps) (simp add: sb)
  next
    case True
    then have pe: "ptr < heap_end h" using f(1) by simp
    have n: "nxt h ptr \<in> B" "ptr + 16 < nxt h ptr" "nxt h ptr \<le> heap_end h"
      using d(4,6,7) less.prems pe by blast+
    have a16: "ptr + 16 < 2 ^ 32" "nxt h ptr < 2 ^ 32" using n f(6) by simp_all
    then have fit: "hm_used (hp_hdr h ptr) = 0 \<and> sz \<le> sub32 (nxt h ptr) (add32 ptr 16) \<longleftrightarrow> fits h sz ptr"
      using n(2) by (simp add: fits_def)
    show ?thesis
    proof (cases "fits h sz ptr")
      case fi: True
      have "mem_search sz ptr h = Some (Some ptr)" using True fi fit by (subst mem_search.simps) (simp add: sb)
      then show ?thesis using less.prems True fi by simp
    next
      case nf: False
      have s: "mem_search sz ptr h = mem_search sz (nxt h ptr) h"
        using True nf fit by (subst mem_search.simps) (auto simp: sb)
      have skip: "x = ptr \<or> nxt h ptr \<le> x" if "x \<in> B" "ptr \<le> x" for x
        using d(8) [OF less.prems pe that(1)] that(2) by auto
      have "heap_end h - nxt h ptr < heap_end h - ptr" using n(2,3) pe by simp
      from less.hyps [OF this n(1)] obtain r where r: "mem_search sz (nxt h ptr) h = Some r"
        "case r of
           None \<Rightarrow> \<forall>x\<in>B. nxt h ptr \<le> x \<longrightarrow> x < mem_size_aligned h - sz \<longrightarrow> \<not> fits h sz x
         | Some a \<Rightarrow> a \<in> B \<and> nxt h ptr \<le> a \<and> a < mem_size_aligned h - sz \<and> fits h sz a \<and>
             (\<forall>x\<in>B. nxt h ptr \<le> x \<longrightarrow> x < a \<longrightarrow> \<not> fits h sz x)" by blast
      have "\<not> fits h sz x" if "x \<in> B" "ptr \<le> x" "nxt h ptr \<le> x \<longrightarrow> \<not> fits h sz x" for x
        using skip [OF that(1,2)] that(3) nf by auto
      then show ?thesis using s r n(2) by (cases r) auto
    qed
  qed
qed

lemma lfree_advance_ok:
  assumes "heap_wf h B"
  shows "\<exists>l. lfree_advance h = Some (h\<lparr>lfree := l\<rparr>) \<and> l \<in> B \<and> lfree h \<le> l \<and>
    (\<forall>x\<in>B. lfree h \<le> x \<longrightarrow> x < l \<longrightarrow> is_used h x) \<and> (l = heap_end h \<or> \<not> is_used h l)"
  using assms
proof (induction "heap_end h - lfree h" arbitrary: h rule: less_induct)
  case less
  note d = heap_wfD [OF less.prems]
  show ?case
  proof (cases "is_used h (lfree h) \<and> lfree h \<noteq> heap_end h")
    case False
    then have "lfree_advance h = Some h" by (subst lfree_advance.simps) auto
    then show ?thesis using d(14) False by (intro exI [of _ "lfree h"]) auto
  next
    case True
    let ?n = "nxt h (lfree h)" and ?h = "h\<lparr>lfree := nxt h (lfree h)\<rparr>"
    have l: "lfree h < heap_end h" using True d(4) [OF d(14)] by simp
    have n: "?n \<in> B" "lfree h + 16 < ?n" "?n \<le> heap_end h" using d(4) d(6,7) [OF d(14) l] by blast+
    have w: "heap_wf ?h B" by (rule heap_wf_cong [OF less.prems]) (use n d in auto)
    have "heap_end ?h - lfree ?h < heap_end h - lfree h" using n(2,3) by simp
    from less.hyps [OF this w] obtain l where l1: "lfree_advance ?h = Some (h\<lparr>lfree := l\<rparr>)" "l \<in> B" "?n \<le> l"
      "\<forall>x\<in>B. ?n \<le> x \<longrightarrow> x < l \<longrightarrow> is_used h x" "l = heap_end h \<or> \<not> is_used h l" by auto
    have "lfree_advance h = Some (h\<lparr>lfree := l\<rparr>)" using True l1(1) by (subst lfree_advance.simps) simp
    moreover have "is_used h x" if "x \<in> B" "lfree h \<le> x" "x < l" for x
      using d(8) [OF d(14) l that(1)] that True l1(4) by (cases "x = lfree h") auto
    ultimately show ?thesis using l1(2,3,5) n(2) by (intro exI [of _ l]) auto
  qed
qed

definition mark :: "nat \<Rightarrow> heap \<Rightarrow> heap" where
  "mark a h = upd_hdr a (\<lambda>m. m\<lparr>hm_used := 1, hm_magic := HEAP_MAGIC\<rparr>) h"

lemma mark_simps [simp]:
  "heap_ptr (mark a h) = heap_ptr h" "heap_end (mark a h) = heap_end h"
  "mem_size_aligned (mark a h) = mem_size_aligned h" "used_mem (mark a h) = used_mem h"
  "hp_bytes (mark a h) = hp_bytes h" "heap_sem (mark a h) = heap_sem h" "lfree (mark a h) = lfree h"
  "nxt (mark a h) x = nxt h x" "prv (mark a h) x = prv h x"
  "hm_used (hp_hdr (mark a h) x) = (if x = a then 1 else hm_used (hp_hdr h x))"
  "hm_magic (hp_hdr (mark a h) x) = (if x = a then HEAP_MAGIC else hm_magic (hp_hdr h x))"
  by (auto simp: mark_def)

lemma count_used_simps [simp]:
  "heap_ptr (count_used n h) = heap_ptr h" "heap_end (count_used n h) = heap_end h"
  "mem_size_aligned (count_used n h) = mem_size_aligned h" "hp_hdr (count_used n h) = hp_hdr h"
  "hp_bytes (count_used n h) = hp_bytes h" "heap_sem (count_used n h) = heap_sem h"
  "lfree (count_used n h) = lfree h" "used_mem (count_used n h) = add32 (used_mem h) n"
  by (simp_all add: count_used_def Let_def)

lemma mem_take_eq:
  assumes "heap_wf h B" "a \<in> B" "a < heap_end h" "sz \<le> nxt h a - a - 16" "0 < sz"
  shows "mem_take a sz h =
    (if sz + 32 \<le> nxt h a - a - 16 then count_used (sz + 16) (mark a (split_at a (a + 16 + sz) h))
     else count_used (nxt h a - a) (mark a h))"
proof -
  note d = heap_wfD [OF assms(1)] and f = heap_frameD [OF heap_wfD(1) [OF assms(1)]]
  have n: "a + 16 < nxt h a" "nxt h a \<le> heap_end h" using d(7) [OF assms(2,3)] d(4) [OF d(6) [OF assms(2,3)]] .
  have w: "sub32 (nxt h a) (add32 a 16) = nxt h a - a - 16" "add32 sz (16 + 16) = sz + 32"
    "sub32 (nxt h a) a = nxt h a - a" "add32 a (16 + sz) = a + 16 + sz" "add32 (mem_size_aligned h) 16 = heap_end h"
    using n f(1,5,6) assms(4) by (simp_all add: add.assoc)
  have count_upd: "(count_used k h)\<lparr>hp_hdr := F\<rparr> = count_used k (h\<lparr>hp_hdr := F\<rparr>)" for F k h
    by (simp add: count_used_def Let_def)
  show ?thesis
  proof (cases "sz + 32 \<le> nxt h a - a - 16")
    case True
    have ne: "a + 16 + sz \<noteq> a" "nxt h a \<noteq> a" "nxt h a \<noteq> a + 16 + sz" using n True by auto
    have fit: "sub32 (nxt h a) (add32 a 16) \<ge> add32 sz (16 + 16)" using w(1,2) True by simp
    show ?thesis
    proof (cases "nxt h a = heap_end h")
      case last: True
      then show ?thesis using True ne fit w(4,5) unfolding mem_take_def Let_def
        by (simp add: count_upd mark_def split_at_def Let_def)
    next
      case False
      then show ?thesis using True ne fit w(4,5) unfolding mem_take_def Let_def
        by (simp add: count_upd mark_def split_at_def Let_def)
    qed
  next
    case False
    then have "\<not> sub32 (nxt h a) (add32 a 16) \<ge> add32 sz (16 + 16)" using w(1,2) by simp
    then show ?thesis using False w(3) unfolding mem_take_def Let_def by (simp add: count_upd mark_def)
  qed
qed

lemma mem_take_ok:
  assumes "heap_inv h B" "a \<in> B" "a < heap_end h" "fits h sz a" "0 < sz" "8 dvd sz"
  shows "\<exists>C. heap_inv (mem_take a sz h) C \<and> B \<subseteq> C \<and> a + 16 + sz \<le> heap_end h \<and>
    (\<exists>m \<ge> sz. live_blocks (mem_take a sz h) C = insert (heap_ptr h + a + 16, m) (live_blocks h B) \<and>
       (heap_ptr h + a + 16, m) \<notin> live_blocks h B) \<and>
    (\<forall>x\<in>C - B. a < x \<and> \<not> is_used (mem_take a sz h) x) \<and>
    (\<forall>x\<in>B. is_used (mem_take a sz h) x \<longleftrightarrow> x = a \<or> is_used h x)"
proof -
  have wf: "heap_wf h B" and ns: "no_seam h B" and um: "used_mem h = total_used h B"
    using assms(1) by (simp_all add: heap_inv_def)
  have nu: "\<not> is_used h a" and sz: "sz \<le> nxt h a - a - 16" using assms(4) by (simp_all add: fits_def)
  note d = heap_wfD [OF wf] and f = heap_frameD [OF heap_wfD(1) [OF wf]]
  have n: "a + 16 < nxt h a" "nxt h a \<le> heap_end h" "nxt h a \<in> B" using d(4,6,7) assms(2,3) by blast+
  have au: "a \<notin> in_use h B" using nu by (simp add: in_use_def)
  have fin: "finite (in_use h B)" using heap_wf_finite [OF wf] by (simp add: in_use_def)
  have fresh: "(heap_ptr h + a + 16, m) \<notin> live_blocks h B" for m using au by (auto simp: live_blocks_def)
  note eq = mem_take_eq [OF wf assms(2,3) sz assms(5)]
  show ?thesis
  proof (cases "sz + 32 \<le> nxt h a - a - 16")
    case True
    let ?m = "a + 16 + sz"
    let ?s = "split_at a ?m h"
    have m: "a + 16 < ?m" "?m + 16 < nxt h a" "8 dvd ?m" "a \<noteq> ?m"
      using True n assms(5,6) d(5) [OF assms(2)] by auto
    have ws: "heap_wf ?s (insert ?m B)" and mB: "?m \<notin> B" using split_wf [OF wf assms(2,3) m(1-3)] by simp_all
    define h' where "h' = count_used (sz + 16) (mark a ?s)"
    have wf': "heap_wf h' (insert ?m B)"
      by (rule heap_wf_cong [OF ws]) (use heap_wfD(12-14) [OF ws] in \<open>auto simp: h'_def\<close>)
    have u': "in_use h' (insert ?m B) = insert a (in_use h B)"
      using assms(2,3) mB m(4) by (auto simp: in_use_def h'_def)
    have nx: "nxt h' x = nxt h x" if "x \<in> in_use h B" for x
      using that m(4) au mB by (auto simp: h'_def in_use_def)
    have na: "nxt h' a = ?m" using m(4) by (simp add: h'_def)
    have tot: "total_used h' (insert ?m B) = total_used h B + (sz + 16)"
      using na nx au fin unfolding total_used_def u' by simp
    moreover have "total_used h' (insert ?m B) \<le> heap_end h" using total_used_bound [OF wf'] by (simp add: h'_def)
    ultimately have "used_mem h' = total_used h' (insert ?m B)" using um f(6) by (simp add: h'_def)
    moreover have "no_seam h' (insert ?m B)"
      unfolding no_seam_def
    proof (intro ballI impI)
      fix x assume x: "x \<in> insert ?m B" "\<not> is_used h' x"
      show "is_used h' (nxt h' x)"
      proof (cases "x = ?m")
        case True
        have "is_used h (nxt h a)" using ns assms(2) nu by (simp add: no_seam_def)
        then show ?thesis using True m(2,4) by (simp add: h'_def)
      next
        case False
        then have xb: "x \<in> B" "x \<noteq> a" "\<not> is_used h x" using x by (auto simp: h'_def split: if_splits)
        then have xl: "x < heap_end h" using d(4,12) le_neq_implies_less by metis
        have "is_used h (nxt h x)" "nxt h x \<noteq> ?m" using ns xb d(6) [OF xb(1) xl] mB by (auto simp: no_seam_def)
        then show ?thesis using False xb m(4) by (simp add: h'_def)
      qed
    qed
    ultimately have "heap_inv h' (insert ?m B)" using wf' by (simp add: heap_inv_def)
    moreover have "live_blocks h' (insert ?m B) = insert (heap_ptr h + a + 16, sz) (live_blocks h B)"
      unfolding live_blocks_def u' using na nx by (auto simp: h'_def)
    moreover have "x = ?m" if "x \<in> insert ?m B - B" for x using that by blast
    moreover have "\<not> is_used h' ?m" using m(4) by (simp add: h'_def)
    moreover have "is_used h' x \<longleftrightarrow> x = a \<or> is_used h x" if "x \<in> B" for x
      using that mB by (auto simp: h'_def)
    moreover have "mem_take a sz h = h'" using eq True by (simp add: h'_def)
    ultimately show ?thesis using fresh m n(2) by (intro exI [of _ "insert ?m B"]) auto
  next
    case False
    define h' where "h' = count_used (nxt h a - a) (mark a h)"
    have wf': "heap_wf h' B"
      by (rule heap_wf_cong [OF wf]) (use d(12-14) in \<open>auto simp: h'_def\<close>)
    have u': "in_use h' B = insert a (in_use h B)" using assms(2,3) by (auto simp: in_use_def h'_def)
    have tot: "total_used h' B = total_used h B + (nxt h a - a)"
      using au fin unfolding total_used_def u' by (simp add: h'_def)
    moreover have "total_used h' B \<le> heap_end h" using total_used_bound [OF wf'] by (simp add: h'_def)
    ultimately have "used_mem h' = total_used h' B" using um f(6) by (simp add: h'_def)
    moreover have "no_seam h' B" using ns by (auto simp: no_seam_def h'_def)
    ultimately have "heap_inv h' B" using wf' by (simp add: heap_inv_def)
    moreover have "live_blocks h' B = insert (heap_ptr h + a + 16, nxt h a - a - 16) (live_blocks h B)"
      unfolding live_blocks_def u' by (auto simp: h'_def)
    moreover have "is_used h' x \<longleftrightarrow> x = a \<or> is_used h x" for x by (simp add: h'_def)
    moreover have "mem_take a sz h = h'" using eq False by (simp add: h'_def)
    ultimately show ?thesis using fresh sz n by (intro exI [of _ B]) auto
  qed
qed

text \<open>The statement for \<open>rt_malloc\<close>: it returns; null leaves the heap alone and, for a block size that
  does not exceed the heap, means that no free block from \<open>lfree\<close> on, other than one that starts at or
  behind \<open>mem_size_aligned - sz\<close>, is large enough.\<close>

definition block_size :: "u32 \<Rightarrow> nat" where
  "block_size n = max (align_up n) MIN_SIZE_ALIGNED"

lemma block_size_props: "8 dvd block_size n" "16 \<le> block_size n"
  using align_up_dvd [of n] by (auto simp: block_size_def max_def)

lemma mem_malloc_ok:
  assumes "heap_inv h B"
  shows "(mem_malloc n h = Some (None, h) \<and>
      (n = 0 \<or> mem_size_aligned h < align_up n \<or>
       (\<forall>x\<in>B. lfree h \<le> x \<longrightarrow> x < mem_size_aligned h - block_size n \<longrightarrow> \<not> fits h (block_size n) x))) \<or>
    (\<exists>a h' C m. mem_malloc n h = Some (Some (heap_ptr h + a + 16), h') \<and> heap_inv h' C \<and>
       (tight h B \<longrightarrow> tight h' C) \<and> a \<in> B \<and> fits h (block_size n) a \<and> block_size n \<le> m \<and>
       (heap_ptr h + a + 16, m) \<notin> live_blocks h B \<and>
       live_blocks h' C = insert (heap_ptr h + a + 16, m) (live_blocks h B) \<and>
       heap_ptr h' = heap_ptr h \<and> heap_end h' = heap_end h \<and> hp_bytes h' = hp_bytes h \<and> heap_sem h' = heap_sem h)"
proof (cases "n = 0 \<or> mem_size_aligned h < align_up n")
  case True
  then show ?thesis by (auto simp: mem_malloc_def)
next
  case False
  have wf: "heap_wf h B" using assms by (simp add: heap_inv_def)
  note d = heap_wfD [OF wf] and f = heap_frameD [OF heap_wfD(1) [OF wf]]
  define sz where "sz = block_size n"
  have sz: "0 < sz" "8 dvd sz" "sz \<le> mem_size_aligned h"
    using block_size_props [of n] False f(2) by (auto simp: sz_def block_size_def)
  obtain r where r: "mem_search sz (lfree h) h = Some r"
    "case r of
       None \<Rightarrow> \<forall>x\<in>B. lfree h \<le> x \<longrightarrow> x < mem_size_aligned h - sz \<longrightarrow> \<not> fits h sz x
     | Some a \<Rightarrow> a \<in> B \<and> lfree h \<le> a \<and> a < mem_size_aligned h - sz \<and> fits h sz a \<and>
         (\<forall>x\<in>B. lfree h \<le> x \<longrightarrow> x < a \<longrightarrow> \<not> fits h sz x)"
    using mem_search_ok [OF wf d(14) sz(3)] by blast
  show ?thesis
  proof (cases r)
    case None
    then show ?thesis using r False by (auto simp: mem_malloc_def block_size_def sz_def)
  next
    case (Some a)
    then have a: "a \<in> B" "lfree h \<le> a" "a < heap_end h" "fits h sz a" using r(2) f(1) by auto
    obtain C m where t: "heap_inv (mem_take a sz h) C" "B \<subseteq> C" "a + 16 + sz \<le> heap_end h" "sz \<le> m"
      "live_blocks (mem_take a sz h) C = insert (heap_ptr h + a + 16, m) (live_blocks h B)"
      "(heap_ptr h + a + 16, m) \<notin> live_blocks h B" "\<And>x. x \<in> C - B \<Longrightarrow> a < x \<and> \<not> is_used (mem_take a sz h) x"
      "\<And>x. x \<in> B \<Longrightarrow> is_used (mem_take a sz h) x \<longleftrightarrow> x = a \<or> is_used h x"
      using mem_take_ok [OF assms a(1,3,4) sz(1,2)] by blast
    let ?h1 = "mem_take a sz h"
    have w1: "heap_wf ?h1 C" using t(1) by (simp add: heap_inv_def)
    have szf: "sz \<le> nxt h a - a - 16" using a(4) by (simp add: fits_def)
    have fr: "heap_ptr ?h1 = heap_ptr h" "heap_end ?h1 = heap_end h" "hp_bytes ?h1 = hp_bytes h"
      "heap_sem ?h1 = heap_sem h" "lfree ?h1 = lfree h"
      using mem_take_eq [OF wf a(1,3) szf sz(1)] by simp_all
    obtain l where l: "(if a = lfree ?h1 then do {
          h2 \<leftarrow> lfree_advance ?h1;
          RT_ASSERT (lfree h2 = heap_end h2 \<or> hm_used (hp_hdr h2 (lfree h2)) = 0);
          Some h2 } else Some ?h1) = Some (?h1\<lparr>lfree := l\<rparr>)" "l \<in> C" "tight h B \<longrightarrow> tight (?h1\<lparr>lfree := l\<rparr>) C"
    proof (cases "a = lfree ?h1")
      case True
      obtain l where l: "lfree_advance ?h1 = Some (?h1\<lparr>lfree := l\<rparr>)" "l \<in> C" "lfree ?h1 \<le> l"
        "\<forall>x\<in>C. lfree ?h1 \<le> x \<longrightarrow> x < l \<longrightarrow> is_used ?h1 x" "l = heap_end ?h1 \<or> \<not> is_used ?h1 l"
        using lfree_advance_ok [OF w1] by blast
      have "tight (?h1\<lparr>lfree := l\<rparr>) C" if "tight h B"
      proof -
        have "is_used ?h1 x" if x: "x \<in> C" "x < l" for x
        proof (cases "x < lfree h")
          case True
          then have "x \<in> B" using t(7) [of x] x(1) a(2) by fastforce
          then show ?thesis using t(8) [of x] \<open>tight h B\<close> True by (auto simp: tight_def)
        qed (use l(4) x fr(5) in auto)
        then show ?thesis using l(5) by (simp add: tight_def)
      qed
      then show ?thesis using that True l(1,2,5) by (auto simp: RT_ASSERT_def)
    next
      case False
      have al: "lfree h < a" using False a(2) fr(5) by simp
      have "tight ?h1 C" if "tight h B"
      proof -
        have "is_used ?h1 x" if x: "x \<in> C" "x < lfree h" for x
        proof -
          have "x \<in> B" using t(7) [of x] x al by fastforce
          then show ?thesis using t(8) [of x] \<open>tight h B\<close> x(2) by (auto simp: tight_def)
        qed
        moreover have "\<not> is_used ?h1 (lfree h)" using t(8) [OF d(14)] \<open>tight h B\<close> al a(3) by (auto simp: tight_def)
        ultimately show ?thesis by (simp add: tight_def fr)
      qed
      moreover have "?h1\<lparr>lfree := lfree h\<rparr> = ?h1" using fr(5) by (metis heap.surjective heap.update_convs(4))
      ultimately show ?thesis using that [of "lfree h"] False d(14) t(2) by auto
    qed
    define h2 where "h2 = ?h1\<lparr>lfree := l\<rparr>"
    have w2: "heap_wf h2 C" by (rule heap_wf_cong [OF w1]) (use l(2) heap_wfD(12,13) [OF w1] in \<open>auto simp: h2_def\<close>)
    have "in_use h2 C = in_use ?h1 C" by (simp add: in_use_def h2_def)
    then have i2: "heap_inv h2 C" "live_blocks h2 C = live_blocks ?h1 C"
      using t(1) w2 by (simp_all add: heap_inv_def no_seam_def total_used_def live_blocks_def h2_def)
    have al: "8 dvd heap_ptr h + a" using f(4) d(5) [OF a(1)] by simp
    then have al2: "(heap_ptr h + a + 16) mod 8 = 0" "(heap_ptr h + a) mod 8 = 0" by auto
    have ad: "add32 (heap_ptr h) a = heap_ptr h + a" "add32 16 sz = 16 + sz"
      "add32 (heap_ptr h + a) (16 + sz) = heap_ptr h + a + (16 + sz)" "add32 (heap_ptr h + a) 16 = heap_ptr h + a + 16"
      "add32 (heap_ptr h) (heap_end h) = heap_ptr h + heap_end h"
      using f(5) t(3) by simp_all
    have nz: "n \<noteq> 0" "\<not> mem_size_aligned h < align_up n" using False by simp_all
    have "mem_malloc n h = Some (Some (heap_ptr h + a + 16), h2)"
      using nz r(1) Some l(1) t(3) al2 unfolding mem_malloc_def block_size_def [symmetric] sz_def [symmetric] Let_def
      by (simp add: h2_def [symmetric] RT_ASSERT_def) (simp add: h2_def fr ad)
    then show ?thesis using i2 l(3) a(1,4) t(4-6) fr
      by (intro disjI2 exI [of _ a] exI [of _ h2] exI [of _ C] exI [of _ m]) (simp add: h2_def sz_def)
  qed
qed

section \<open>The allocator as a whole\<close>

inductive_set offs :: "heap \<Rightarrow> nat set" for h where
  first: "0 \<in> offs h"
| following: "a \<in> offs h \<Longrightarrow> a < heap_end h \<Longrightarrow> nxt h a \<in> offs h"

text \<open>The set of headers of a well-formed heap is determined: follow \<open>next\<close> from the first block.\<close>

lemma heap_wf_offs:
  assumes "heap_wf h B"
  shows "offs h = B"
proof
  note d = heap_wfD [OF assms]
  show "offs h \<subseteq> B"
  proof
    fix x assume "x \<in> offs h"
    then show "x \<in> B" by (induction rule: offs.induct) (use d(2,6) in auto)
  qed
  show "B \<subseteq> offs h"
  proof
    fix x assume "x \<in> B"
    then show "x \<in> offs h"
    proof (induction x rule: less_induct)
      case (less x)
      show ?case
      proof (cases "x = 0")
        case False
        then obtain p where "p \<in> B" "p < x" "nxt h p = x" "p < heap_end h"
          using heap_pred [OF assms less.prems] by blast
        then show ?thesis using less.IH offs.following by metis
      qed (simp add: offs.first)
    qed
  qed
qed

definition heap_ok :: "heap \<Rightarrow> bool" where
  "heap_ok h \<longleftrightarrow> heap_inv h (offs h)"

definition heap_live :: "heap \<Rightarrow> (nat \<times> nat) set" where
  "heap_live h = live_blocks h (offs h)"

lemma heap_okI: "heap_inv h B \<Longrightarrow> heap_ok h \<and> heap_live h = live_blocks h B"
  using heap_wf_offs [of h B] by (simp add: heap_ok_def heap_live_def heap_inv_def)

lemma heap_live_disjoint:
  assumes "heap_ok h" "(p, m) \<in> heap_live h" "(q, k) \<in> heap_live h" "(p, m) \<noteq> (q, k)"
  shows "p + m \<le> q \<or> q + k \<le> p"
proof -
  have wf: "heap_wf h (offs h)" using assms(1) by (simp add: heap_ok_def heap_inv_def)
  obtain a b where a: "p = heap_ptr h + a + 16" "m = nxt h a - a - 16" "a \<in> offs h" "a < heap_end h"
    and b: "q = heap_ptr h + b + 16" "k = nxt h b - b - 16" "b \<in> offs h" "b < heap_end h"
    using assms(2,3) by (auto simp: heap_live_def live_blocks_def in_use_def)
  have "a \<noteq> b" using a b assms(4) by auto
  have "b \<le> a \<or> nxt h a \<le> b" "a \<le> b \<or> nxt h b \<le> a"
    using heap_wfD(8) [OF wf] a b by blast+
  moreover have "a + 16 < nxt h a" "b + 16 < nxt h b" using heap_wfD(7) [OF wf] a b by blast+
  ultimately show ?thesis using a b \<open>a \<noteq> b\<close> by linarith
qed

lemma heap_live_inside:
  assumes "heap_ok h" "(p, m) \<in> heap_live h"
  shows "0 < m" "heap_ptr h + 16 \<le> p" "p + m \<le> heap_ptr h + heap_end h" "8 dvd p"
proof -
  have wf: "heap_wf h (offs h)" using assms(1) by (simp add: heap_ok_def heap_inv_def)
  note d = heap_wfD [OF wf]
  obtain a where a: "p = heap_ptr h + a + 16" "m = nxt h a - a - 16" "a \<in> offs h" "a < heap_end h"
    using assms(2) by (auto simp: heap_live_def live_blocks_def in_use_def)
  have "a + 16 < nxt h a" "nxt h a \<le> heap_end h" "8 dvd a"
    using d(4) [OF d(6) [OF a(3,4)]] d(5,7) a(3,4) by blast+
  then show "0 < m" "heap_ptr h + 16 \<le> p" "p + m \<le> heap_ptr h + heap_end h" "8 dvd p"
    using a(1,2) heap_frameD(4) [OF d(1)] by auto
qed

lemma block_size_ge: "n < 2 ^ 31 \<Longrightarrow> n \<le> block_size (of_nat n)"
proof -
  assume n: "n < 2 ^ 31"
  then have u: "unat (of_nat n :: u32) = n" by (simp add: unat_of_nat)
  then have "n \<le> align_up (of_nat n)" using align_up_ge [of "of_nat n"] n by simp
  then show ?thesis by (simp add: block_size_def)
qed

interpretation hm: allocator heap_ok heap_live "\<lambda>n. mem_malloc (of_nat n)" mem_free
proof (unfold_locales, goal_cases)
  case (1 h n)
  then have i: "heap_inv h (offs h)" by (simp add: heap_ok_def)
  from mem_malloc_ok [OF i, of "of_nat n"] show ?case
  proof
    assume "mem_malloc (of_nat n) h = Some (None, h) \<and>
      (of_nat n = (0 :: u32) \<or> mem_size_aligned h < align_up (of_nat n) \<or>
       (\<forall>x\<in>offs h. lfree h \<le> x \<longrightarrow> x < mem_size_aligned h - block_size (of_nat n) \<longrightarrow> \<not> fits h (block_size (of_nat n)) x))"
    then show ?thesis using 1(1) by auto
  next
    assume "\<exists>a h' C m. mem_malloc (of_nat n) h = Some (Some (heap_ptr h + a + 16), h') \<and> heap_inv h' C \<and>
       (tight h (offs h) \<longrightarrow> tight h' C) \<and> a \<in> offs h \<and> fits h (block_size (of_nat n)) a \<and> block_size (of_nat n) \<le> m \<and>
       (heap_ptr h + a + 16, m) \<notin> live_blocks h (offs h) \<and>
       live_blocks h' C = insert (heap_ptr h + a + 16, m) (live_blocks h (offs h)) \<and>
       heap_ptr h' = heap_ptr h \<and> heap_end h' = heap_end h \<and> hp_bytes h' = hp_bytes h \<and> heap_sem h' = heap_sem h"
    then obtain a h' C m where h': "mem_malloc (of_nat n) h = Some (Some (heap_ptr h + a + 16), h')" "heap_inv h' C"
      "block_size (of_nat n) \<le> m" "(heap_ptr h + a + 16, m) \<notin> live_blocks h (offs h)"
      "live_blocks h' C = insert (heap_ptr h + a + 16, m) (live_blocks h (offs h))" by blast
    have "n \<le> m" "0 < m" using block_size_ge [OF 1(2)] block_size_props(2) [of "of_nat n"] h'(3) by linarith+
    moreover have "heap_ok h'" "heap_live h' = insert (heap_ptr h + a + 16, m) (heap_live h)"
      using heap_okI [OF h'(2)] h'(5) by (simp_all add: heap_live_def)
    moreover have "(heap_ptr h + a + 16, m) \<notin> heap_live h" using h'(4) by (simp add: heap_live_def)
    ultimately show ?thesis using h'(1) by blast
  qed
next
  case (2 h p m)
  then have i: "heap_inv h (offs h)" by (simp add: heap_ok_def)
  obtain a where a: "p = heap_ptr h + a + 16" "m = nxt h a - a - 16" "a \<in> in_use h (offs h)"
    using 2(2) by (auto simp: heap_live_def live_blocks_def)
  obtain h' C where h': "mem_free p h = Some h'" "heap_inv h' C" "live_blocks h' C = live_blocks h (offs h) - {(p, m)}"
    using mem_free_ok [OF i a(3)] a(1,2) by auto
  then show ?case using heap_okI [OF h'(2)] by (auto simp: heap_live_def)
next
  case (3 h p m)
  then show ?case by (rule heap_live_inside(1))
next
  case (4 h p m q k)
  then show ?case by (rule heap_live_disjoint)
qed

text \<open>The heap that \<open>rt_system_heap_init\<close> leaves.\<close>

definition fresh_heap :: "nat \<Rightarrow> nat \<Rightarrow> heap \<Rightarrow> bool" where
  "fresh_heap base msa h \<longleftrightarrow> heap_ptr h = base \<and> mem_size_aligned h = msa \<and> heap_end h = msa + 16 \<and> lfree h = 0 \<and>
     hp_hdr h 0 = \<lparr>hm_magic = HEAP_MAGIC, hm_used = 0, hm_next = msa + 16, hm_prev = 0\<rparr> \<and>
     hp_hdr h (msa + 16) = \<lparr>hm_magic = HEAP_MAGIC, hm_used = 1, hm_next = msa + 16, hm_prev = msa + 16\<rparr>"

lemma fresh_heap_inv:
  assumes "fresh_heap base msa h" "8 dvd base" "8 dvd msa" "16 \<le> msa" "base + msa + 32 < 2 ^ 32" "used_mem h = 0"
  shows "heap_inv h {0, msa + 16}" "tight h {0, msa + 16}" "live_blocks h {0, msa + 16} = {}"
proof -
  have e: "8 dvd msa + 16" using assms(3) by simp
  have "heap_wf h {0, msa + 16}"
    unfolding heap_wf_def heap_frame_def using assms(1-5) e by (auto simp: fresh_heap_def)
  moreover have u: "in_use h {0, msa + 16} = {}"
    using assms(1) unfolding in_use_def fresh_heap_def by (auto intro!: gr0I)
  ultimately show "heap_inv h {0, msa + 16}"
    using assms(1,6) by (simp add: heap_inv_def no_seam_def total_used_def fresh_heap_def)
  show "tight h {0, msa + 16}" using assms(1) by (simp add: tight_def fresh_heap_def)
  show "live_blocks h {0, msa + 16} = {}" using u by (simp add: live_blocks_def)
qed

lemma heap_init_fresh:
  assumes "rt_system_heap_init r begin_addr end_addr (s, h) = Some (s', h')"
    "unat (RT_ALIGN_DOWN end_addr 8) > 32" "unat (RT_ALIGN_DOWN end_addr 8) - 32 \<ge> align_up begin_addr"
  shows "fresh_heap (align_up begin_addr) (unat (RT_ALIGN_DOWN end_addr 8) - align_up begin_addr - 32) h'"
    "used_mem h' = used_mem h"
proof -
  let ?e = "unat (RT_ALIGN_DOWN end_addr 8)" and ?b = "align_up begin_addr"
  have "?e < 2 ^ 32" by (rule order_less_le_trans [OF unsigned_less]) simp
  then have "add32 (?e - ?b - 32) 16 = ?e - ?b - 32 + 16" using assms(2,3) by simp
  then show "fresh_heap ?b (?e - ?b - 32) h'" "used_mem h' = used_mem h"
    using assms by (auto simp: rt_system_heap_init_def Some_bind_iff Let_def fresh_heap_def)
qed

section \<open>The calls with the semaphore\<close>

text \<open>The result is null with \<open>Parked t\<close> when the thread has to wait for the heap; \<open>rt_malloc_wake\<close> is the
  rest of the call, once the thread runs again. The code does not look at the result of
  \<open>rt_sem_take\<close>.\<close>

definition malloc_locked :: "u32 \<Rightarrow> kern \<times> heap \<Rightarrow> (kret \<times> nat option \<times> kern \<times> heap) option" where
  "malloc_locked sz sh = do {
     let (s, h) = sh;
     (p, h1) \<leftarrow> mem_malloc sz h;
     (_, sem, s1) \<leftarrow> rt_sem_release (heap_sem h1) s;
     Some (Returned RT_EOK, p, s1, h1\<lparr>heap_sem := sem\<rparr>) }"

definition rt_malloc :: "u32 \<Rightarrow> kern \<times> heap \<Rightarrow> (kret \<times> nat option \<times> kern \<times> heap) option" where
  "rt_malloc sz sh = do {
     let (s, h) = sh;
     if sz = 0 then Some (Returned RT_EOK, None, s, h)
     else do {
       RT_DEBUG_NOT_IN_INTERRUPT s;
       if align_up sz > mem_size_aligned h then Some (Returned RT_EOK, None, s, h)
       else do {
         (k, sem, s1) \<leftarrow> rt_sem_take (heap_sem h) RT_WAITING_FOREVER s;
         (case k of
            Parked t \<Rightarrow> Some (Parked t, None, s1, h\<lparr>heap_sem := sem\<rparr>)
          | Returned _ \<Rightarrow> malloc_locked sz (s1, h\<lparr>heap_sem := sem\<rparr>)) } } }"

definition rt_malloc_wake :: "u32 \<Rightarrow> kern \<times> heap \<Rightarrow> (kret \<times> nat option \<times> kern \<times> heap) option" where
  "rt_malloc_wake sz sh = malloc_locked sz sh"

definition free_locked :: "nat \<Rightarrow> kern \<times> heap \<Rightarrow> (kret \<times> kern \<times> heap) option" where
  "free_locked rmem sh = do {
     let (s, h) = sh;
     h1 \<leftarrow> mem_free rmem h;
     (_, sem, s1) \<leftarrow> rt_sem_release (heap_sem h1) s;
     Some (Returned RT_EOK, s1, h1\<lparr>heap_sem := sem\<rparr>) }"

definition rt_free :: "nat \<Rightarrow> kern \<times> heap \<Rightarrow> (kret \<times> kern \<times> heap) option" where
  "rt_free rmem sh = do {
     let (s, h) = sh;
     if rmem = 0 then Some (Returned RT_EOK, s, h)
     else do {
       RT_DEBUG_NOT_IN_INTERRUPT s;
       RT_ASSERT (rmem mod 8 = 0);
       RT_ASSERT (heap_ptr h \<le> rmem \<and> rmem < add32 (heap_ptr h) (heap_end h));
       (k, sem, s1) \<leftarrow> rt_sem_take (heap_sem h) RT_WAITING_FOREVER s;
       (case k of
          Parked t \<Rightarrow> Some (Parked t, s1, h\<lparr>heap_sem := sem\<rparr>)
        | Returned _ \<Rightarrow> free_locked rmem (s1, h\<lparr>heap_sem := sem\<rparr>)) } }"

text \<open>
  \<open>rt_realloc\<close> takes the semaphore for the work in place and gives it back before it allocates and releases.
  After a wait the rest is \<open>realloc_locked\<close>, \<open>realloc_move\<close> or \<open>free_locked\<close>, by the call that waited.
\<close>

definition realloc_move ::
    "nat \<Rightarrow> nat \<Rightarrow> nat \<Rightarrow> nat option \<Rightarrow> kern \<times> heap \<Rightarrow> (kret \<times> nat option \<times> kern \<times> heap) option" where
  "realloc_move rmem n sz nmem sh =
     (case nmem of
        None \<Rightarrow> Some (Returned RT_EOK, None, sh)
      | Some a \<Rightarrow> do {
          (k, s1, h1) \<leftarrow> rt_free rmem (fst sh, mem_copy a rmem (min sz n) (snd sh));
          Some (k, Some a, s1, h1) })"

definition realloc_locked :: "nat \<Rightarrow> nat \<Rightarrow> kern \<times> heap \<Rightarrow> (kret \<times> nat option \<times> kern \<times> heap) option" where
  "realloc_locked rmem n sh = do {
     let (s, h) = sh;
     (move, h1) \<leftarrow> realloc_here rmem n h;
     (_, sem, s1) \<leftarrow> rt_sem_release (heap_sem h1) s;
     (case move of
        None \<Rightarrow> Some (Returned RT_EOK, Some rmem, s1, h1\<lparr>heap_sem := sem\<rparr>)
      | Some sz \<Rightarrow> do {
          (k, nmem, s2, h2) \<leftarrow> rt_malloc (of_nat n) (s1, h1\<lparr>heap_sem := sem\<rparr>);
          (case k of
             Parked t \<Rightarrow> Some (Parked t, None, s2, h2)
           | Returned _ \<Rightarrow> realloc_move rmem n sz nmem (s2, h2)) }) }"

definition rt_realloc :: "nat \<Rightarrow> u32 \<Rightarrow> kern \<times> heap \<Rightarrow> (kret \<times> nat option \<times> kern \<times> heap) option" where
  "rt_realloc rmem newsize sh = do {
     let (s, h) = sh;
     RT_DEBUG_NOT_IN_INTERRUPT s;
     let n = align_up newsize;
     if n > mem_size_aligned h then Some (Returned RT_EOK, None, s, h)
     else if n = 0 then do { (k, s1, h1) \<leftarrow> rt_free rmem (s, h); Some (k, None, s1, h1) }
     else if rmem = 0 then rt_malloc (of_nat n) (s, h)
     else do {
       (k, sem, s1) \<leftarrow> rt_sem_take (heap_sem h) RT_WAITING_FOREVER s;
       (case k of
          Parked t \<Rightarrow> Some (Parked t, None, s1, h\<lparr>heap_sem := sem\<rparr>)
        | Returned _ \<Rightarrow> realloc_locked rmem n (s1, h\<lparr>heap_sem := sem\<rparr>)) } }"

definition calloc_fill ::
    "u32 \<Rightarrow> kret \<times> nat option \<times> kern \<times> heap \<Rightarrow> kret \<times> nat option \<times> kern \<times> heap" where
  "calloc_fill n = (\<lambda>(k, p, s, h). (case (k, p) of
     (Returned e, Some a) \<Rightarrow> (k, p, s, mem_fill a 0 (unat n) h) | _ \<Rightarrow> (k, p, s, h)))"

definition rt_calloc :: "u32 \<Rightarrow> u32 \<Rightarrow> kern \<times> heap \<Rightarrow> (kret \<times> nat option \<times> kern \<times> heap) option" where
  "rt_calloc count sz sh = map_option (calloc_fill (count * sz)) (rt_malloc (count * sz) sh)"

end
