(* ===== verification/Heap_Props.thy ===== *)
theory Heap_Props
  imports Heap_Mem Ipc_Props
begin

text \<open>
  The properties of the small memory allocator: safety of every sequence of allocations and releases,
  first fit, the memory statistics, what a reallocation keeps, the calls under the heap semaphore, and
  the request sizes that wrap around.
\<close>

section \<open>A heap to instantiate the properties on\<close>

text \<open>4096 bytes at \<open>0x20000000\<close>.\<close>

definition demo_heap :: heap where
  "demo_heap = \<lparr>heap_ptr = 0x20000000,
     hp_hdr = (\<lambda>_. \<lparr>hm_magic = 0, hm_used = 0, hm_next = 0, hm_prev = 0\<rparr>)
       (0 := \<lparr>hm_magic = HEAP_MAGIC, hm_used = 0, hm_next = 4096 + 16, hm_prev = 0\<rparr>,
        4096 + 16 := \<lparr>hm_magic = HEAP_MAGIC, hm_used = 1, hm_next = 4096 + 16, hm_prev = 4096 + 16\<rparr>),
     heap_end = 4096 + 16, lfree = 0, heap_sem = demo_sem 1, mem_size_aligned = 4096, used_mem = 0, max_mem = 0,
     hp_bytes = (\<lambda>_. 0)\<rparr>"

lemma demo_heap_fresh: "fresh_heap 0x20000000 4096 demo_heap"
  by (simp add: fresh_heap_def demo_heap_def)

lemma demo_heap_inv: "heap_inv demo_heap {0, 4112}" "tight demo_heap {0, 4112}" "live_blocks demo_heap {0, 4112} = {}"
  using fresh_heap_inv [OF demo_heap_fresh] by (simp_all add: demo_heap_def)

lemma demo_heap_ok: "heap_ok demo_heap" "heap_live demo_heap = {}"
  using heap_okI [OF demo_heap_inv(1)] demo_heap_inv(3) by simp_all

lemma align_100: "align_up 100 = 104"
  using align_up_eq [of 100] by simp

lemma demo_malloc: "\<exists>h. mem_malloc 100 demo_heap = Some (Some 0x20000010, h)"
proof -
  have s: "mem_search 104 0 demo_heap = Some (Some 0)"
    by (subst mem_search.simps) (simp add: demo_heap_def)
  from mem_malloc_ok [OF demo_heap_inv(1), of 100] show ?thesis
  proof
    assume "mem_malloc 100 demo_heap = Some (None, demo_heap) \<and> (100 = (0 :: u32) \<or>
       mem_size_aligned demo_heap < align_up 100 \<or> (\<forall>x\<in>{0, 4112}. lfree demo_heap \<le> x \<longrightarrow>
         x < mem_size_aligned demo_heap - block_size 100 \<longrightarrow> \<not> fits demo_heap (block_size 100) x))"
    then show ?thesis by (simp add: align_100 block_size_def demo_heap_def fits_def)
  next
    assume "\<exists>a h' C m. mem_malloc 100 demo_heap = Some (Some (heap_ptr demo_heap + a + 16), h') \<and> heap_inv h' C \<and>
       (tight demo_heap {0, 4112} \<longrightarrow> tight h' C) \<and> a \<in> {0, 4112} \<and> fits demo_heap (block_size 100) a \<and>
       block_size 100 \<le> m \<and> (heap_ptr demo_heap + a + 16, m) \<notin> live_blocks demo_heap {0, 4112} \<and>
       live_blocks h' C = insert (heap_ptr demo_heap + a + 16, m) (live_blocks demo_heap {0, 4112}) \<and>
       heap_ptr h' = heap_ptr demo_heap \<and> heap_end h' = heap_end demo_heap \<and> hp_bytes h' = hp_bytes demo_heap \<and>
       heap_sem h' = heap_sem demo_heap"
    then obtain a h' where "mem_malloc 100 demo_heap = Some (Some (heap_ptr demo_heap + a + 16), h')"
      "a \<in> {0, 4112}" "fits demo_heap (block_size 100) a" by blast
    then show ?thesis by (auto simp: demo_heap_def fits_def)
  qed
qed

text \<open>A block of 24 bytes, one that fills the rest, and the first one released.\<close>

definition demo_taken :: heap where
  "demo_taken = (mem_take 0 24 demo_heap)\<lparr>lfree := 40\<rparr>"

definition demo_full :: heap where
  "demo_full = (mem_take 40 4040 demo_taken)\<lparr>lfree := 4112\<rparr>"

definition demo_hole :: heap where
  "demo_hole = (upd_hdr 0 (\<lambda>m. m\<lparr>hm_used := 0\<rparr>) demo_full)\<lparr>lfree := 0, used_mem := 4072\<rparr>"

lemma demo_aligned: "align_up 24 = 24" "align_up 4040 = 4040" "align_up 32 = 32"
  using align_up_eq [of 24] align_up_eq [of 4040] align_up_eq [of 32] by simp_all

lemma demo_taken_simps:
  "heap_ptr demo_taken = 0x20000000" "heap_end demo_taken = 4112" "mem_size_aligned demo_taken = 4096" "lfree demo_taken = 40"
  "hp_hdr demo_taken = (hp_hdr demo_heap)(0 := \<lparr>hm_magic = HEAP_MAGIC, hm_used = 1, hm_next = 40, hm_prev = 0\<rparr>,
     40 := \<lparr>hm_magic = HEAP_MAGIC, hm_used = 0, hm_next = 4112, hm_prev = 0\<rparr>)" "used_mem demo_taken = 40"
  by (simp_all add: demo_taken_def mem_take_def count_used_def Let_def demo_heap_def add32_def sub32_def fun_eq_iff)

lemma demo_full_simps:
  "heap_ptr demo_full = 0x20000000" "heap_end demo_full = 4112" "mem_size_aligned demo_full = 4096" "lfree demo_full = 4112"
  "hp_hdr demo_full = (hp_hdr demo_taken)(40 := \<lparr>hm_magic = HEAP_MAGIC, hm_used = 1, hm_next = 4112, hm_prev = 0\<rparr>)"
  "used_mem demo_full = 4112"
  by (simp_all add: demo_full_def mem_take_def count_used_def Let_def demo_taken_simps add32_def sub32_def fun_eq_iff)

lemma demo_take:
  assumes "mem_search (max (align_up n) 16) (lfree h) h = Some (Some (lfree h))" "n \<noteq> 0" "align_up n \<le> mem_size_aligned h"
    "h' = (mem_take (lfree h) (max (align_up n) 16) h)\<lparr>lfree := l\<rparr>" "lfree (mem_take (lfree h) (max (align_up n) 16) h) = lfree h"
    "hm_used (hp_hdr h' (lfree h)) \<noteq> 0" "hm_next (hp_hdr h' (lfree h)) = l" "lfree h \<noteq> heap_end h'"
    "hm_used (hp_hdr h' l) = 0 \<or> l = heap_end h'"
    "heap_ptr h' mod 8 = 0" "lfree h mod 8 = 0" "heap_ptr h' + lfree h + 16 + max (align_up n) 16 \<le> heap_ptr h' + heap_end h'"
    "heap_ptr h' + heap_end h' < 2 ^ 32"
  shows "mem_malloc n h = Some (Some (heap_ptr h' + lfree h + 16), h')"
proof -
  let ?t = "mem_take (lfree h) (max (align_up n) 16) h"
  have "lfree_advance h' = Some h'" using assms(4,9) by (subst lfree_advance.simps) auto
  then have "lfree_advance ?t = Some h'" using assms(4-8) by (subst lfree_advance.simps) simp
  moreover have "add32 (heap_ptr h') (lfree h) = heap_ptr h' + lfree h"
    "add32 16 (max (align_up n) 16) = 16 + max (align_up n) 16"
    "add32 (heap_ptr h' + lfree h) (16 + max (align_up n) 16) = heap_ptr h' + lfree h + 16 + max (align_up n) 16"
    "add32 (heap_ptr h') (heap_end h') = heap_ptr h' + heap_end h'"
    "add32 (heap_ptr h' + lfree h) 16 = heap_ptr h' + lfree h + 16" using assms(12,13) by simp_all
  moreover have "(heap_ptr h' + lfree h) mod 8 = 0" "(heap_ptr h' + lfree h + 16) mod 8 = 0"
    using assms(10,11) by presburger+
  moreover have "lfree h' = l" using assms(4) by simp
  ultimately show ?thesis using assms(1-3,5,9,12) unfolding mem_malloc_def Let_def by auto
qed

lemma demo_hole_runs:
  "mem_malloc 24 demo_heap = Some (Some 0x20000010, demo_taken)"
  "mem_malloc 4040 demo_taken = Some (Some 0x20000038, demo_full)"
  "mem_free 0x20000010 demo_full = Some demo_hole"
  "mem_malloc 32 demo_hole = Some (None, demo_hole)"
proof -
  have z: "lfree demo_heap = 0" "mem_size_aligned demo_heap = 4096" by (simp_all add: demo_heap_def)
  have "mem_search 24 0 demo_heap = Some (Some 0)" by (subst mem_search.simps) (simp add: demo_heap_def)
  then show "mem_malloc 24 demo_heap = Some (Some 0x20000010, demo_taken)"
    using demo_take [of 24 demo_heap demo_taken 40]
    by (simp add: demo_aligned demo_taken_simps z) (simp add: demo_taken_def mem_take_def count_used_def Let_def demo_heap_def)
  have "mem_search 4040 40 demo_taken = Some (Some 40)" by (subst mem_search.simps) (simp add: demo_taken_simps)
  then show "mem_malloc 4040 demo_taken = Some (Some 0x20000038, demo_full)"
    using demo_take [of 4040 demo_taken demo_full 4112]
    by (simp add: demo_aligned demo_taken_simps demo_full_simps)
      (simp add: demo_full_def mem_take_def count_used_def Let_def demo_taken_simps demo_heap_def)
  show "mem_free 0x20000010 demo_full = Some demo_hole"
    by (simp add: mem_free_def plug_holes_def Let_def demo_full_simps demo_taken_simps demo_hole_def RT_ASSERT_def add32_def sub32_def)
  have "mem_search 32 4112 demo_hole = Some None"
    by (subst mem_search.simps) (simp add: demo_hole_def demo_full_simps)
  then have "mem_search 32 40 demo_hole = Some None"
    by (subst mem_search.simps) (simp add: demo_hole_def demo_full_simps demo_taken_simps)
  then have "mem_search 32 0 demo_hole = Some None"
    by (subst mem_search.simps) (simp add: demo_hole_def demo_full_simps demo_taken_simps)
  then show "mem_malloc 32 demo_hole = Some (None, demo_hole)"
    by (simp add: mem_malloc_def demo_aligned) (simp add: demo_hole_def demo_full_simps)
qed

section \<open>Safety\<close>

text \<open>C17: Whatever sequence of allocations and releases a client runs, as long as it releases only blocks
  that are in use: every call returns; the blocks in use are aligned, inside the heap and pairwise
  disjoint; a new block has at least the requested size, overlaps no block in use, and releasing it
  leaves exactly the blocks that were in use before.\<close>

theorem heap_safe:
  assumes "heap_reach (\<lambda>n. mem_malloc (of_nat n)) mem_free heap_live h0 h" "heap_ok h0" "n < 2 ^ 31"
  shows "mem_malloc (of_nat n) h \<noteq> None \<and> (\<forall>(p, m) \<in> heap_live h. mem_free p h \<noteq> None \<and>
      8 dvd p \<and> heap_ptr h + 16 \<le> p \<and> p + m \<le> heap_ptr h + heap_end h) \<and>
    (\<forall>(p, m) \<in> heap_live h. \<forall>(q, k) \<in> heap_live h. (p, m) = (q, k) \<or> p + m \<le> q \<or> q + k \<le> p) \<and>
    (\<forall>p h'. mem_malloc (of_nat n) h = Some (Some p, h') \<longrightarrow>
      (\<exists>m \<ge> n. (p, m) \<in> heap_live h' \<and> (\<forall>(q, k) \<in> heap_live h. p + m \<le> q \<or> q + k \<le> p) \<and>
        (\<exists>h''. mem_free p h' = Some h'' \<and> heap_live h'' = heap_live h)))"
proof -
  have k: "heap_ok h" by (rule hm.reach_ok [OF assms(1,2)])
  note safe = hm.client_safe [OF assms]
  have "\<forall>(p, m) \<in> heap_live h. mem_free p h \<noteq> None \<and> 8 dvd p \<and> heap_ptr h + 16 \<le> p \<and>
      p + m \<le> heap_ptr h + heap_end h"
    using heap_live_inside [OF k] safe(2) by fastforce
  with safe(1,3,4) show ?thesis by (intro conjI)
qed

theorem heap_safe_witness:
  "\<exists>h m h'. mem_malloc 100 demo_heap = Some (Some 0x20000010, h) \<and> 100 \<le> m \<and> (0x20000010, m) \<in> heap_live h \<and>
     mem_free 0x20000010 h = Some h' \<and> heap_live h' = {}"
proof -
  obtain h where h: "mem_malloc 100 demo_heap = Some (Some 0x20000010, h)" using demo_malloc by blast
  have "\<exists>m \<ge> 100. (0x20000010, m) \<in> heap_live h \<and> (\<forall>(q, k) \<in> heap_live demo_heap. 0x20000010 + m \<le> q \<or> q + k \<le> 0x20000010) \<and>
        (\<exists>h''. mem_free 0x20000010 h = Some h'' \<and> heap_live h'' = heap_live demo_heap)"
    using heap_safe [OF heap_reach.start demo_heap_ok(1), of 100] h by simp
  then show ?thesis using h demo_heap_ok(2) by blast
qed

section \<open>Completeness\<close>

text \<open>As long as only allocations and releases happen, \<open>lfree\<close> is the first free block.\<close>

lemma reach_tight:
  assumes "heap_reach (\<lambda>n. mem_malloc (of_nat n)) mem_free heap_live h0 h" "heap_ok h0" "tight h0 (offs h0)"
  shows "heap_ok h \<and> tight h (offs h)"
  using assms
proof (induction rule: heap_reach.induct)
  case (alloc h1 n r h2)
  then have i: "heap_inv h1 (offs h1)" "tight h1 (offs h1)" by (simp_all add: heap_ok_def)
  from mem_malloc_ok [OF i(1), of "of_nat n"] alloc.hyps(3) i(2) consider "h2 = h1"
    | C where "heap_inv h2 C" "tight h2 C" by auto
  then show ?case
  proof cases
    case 2
    then show ?thesis using heap_okI [OF 2(1)] heap_wf_offs [of h2 C] by (simp add: heap_inv_def)
  qed (use alloc in simp)
next
  case (free h1 p m h2)
  then have i: "heap_inv h1 (offs h1)" "tight h1 (offs h1)" by (simp_all add: heap_ok_def)
  obtain a where a: "a \<in> in_use h1 (offs h1)" "p = heap_ptr h1 + a + 16" "m = nxt h1 a - a - 16"
    using free.hyps(2) by (auto simp: heap_live_def live_blocks_def)
  obtain C where "heap_inv h2 C" "tight h2 C" using mem_free_ok [OF i(1) a(1)] free.hyps(3) i(2) a(2) by auto
  then show ?case using heap_okI [of h2 C] heap_wf_offs [of h2 C] by (simp add: heap_inv_def)
qed simp

lemma init_heap:
  assumes "rt_system_heap_init r begin_addr end_addr (s, h) = Some (s', h')" "used_mem h = 0"
    "align_up begin_addr + 48 \<le> unat (RT_ALIGN_DOWN end_addr 8)"
  shows "heap_ok h' \<and> tight h' (offs h')"
proof -
  let ?e = "unat (RT_ALIGN_DOWN end_addr 8)" and ?b = "align_up begin_addr"
  have f: "fresh_heap ?b (?e - ?b - 32) h'" "used_mem h' = used_mem h"
    using heap_init_fresh [OF assms(1)] assms(3) by simp_all
  have "RT_ALIGN_DOWN end_addr 8 = end_addr AND NOT 7" by (simp add: RT_ALIGN_DOWN_def)
  then have e: "8 dvd ?e" by (simp only: unat_and_not_7 dvd_triv_left)
  have e8: "8 dvd ?e - ?b - 32" using e align_up_dvd [of begin_addr] by (intro dvd_diff_nat) simp_all
  have "?e < 2 ^ 32" by (rule order_less_le_trans [OF unsigned_less]) simp
  then have i: "heap_inv h' {0, ?e - ?b - 32 + 16}" "tight h' {0, ?e - ?b - 32 + 16}"
    using fresh_heap_inv [OF f(1) align_up_dvd e8] assms(2,3) f(2) by simp_all
  then show ?thesis using heap_okI [OF i(1)] heap_wf_offs [of h' "{0, ?e - ?b - 32 + 16}"] by (simp add: heap_inv_def)
qed

text \<open>C18: Completeness of first fit. In every state that allocations and releases (without reallocations)
  reach from \<open>rt_system_heap_init\<close>: if an allocation returns null for a request that is not 0 and not
  larger than the heap, the heap is as before, and every block of it is in use or too small, unless it
  starts at or behind \<open>mem_size_aligned - size\<close>, where the loop does not look. (So a free block that ends at
  the end of the heap is not used for a request of exactly its size.) In the states that reallocations
  reach as well, the same holds of the blocks from \<open>lfree\<close> on.\<close>

theorem malloc_null_complete:
  assumes "mem_malloc n h = Some (None, h')" "n \<noteq> 0" "align_up n \<le> mem_size_aligned h" "heap_ok h"
  shows "h' = h \<and> (\<forall>a \<in> offs h. lfree h \<le> a \<and> a < mem_size_aligned h - block_size n \<longrightarrow>
      is_used h a \<or> nxt h a - a - 16 < block_size n) \<and>
    (rt_system_heap_init r begin_addr end_addr (s, hz) = Some (s0, h0) \<and> used_mem hz = 0 \<and>
       align_up begin_addr + 48 \<le> unat (RT_ALIGN_DOWN end_addr 8) \<and>
       heap_reach (\<lambda>n. mem_malloc (of_nat n)) mem_free heap_live h0 h \<longrightarrow>
     (\<forall>a \<in> offs h. a < mem_size_aligned h - block_size n \<longrightarrow> is_used h a \<or> nxt h a - a - 16 < block_size n))"
proof -
  have i: "heap_inv h (offs h)" using assms(4) by (simp add: heap_ok_def)
  have c: "h' = h" "\<forall>x\<in>offs h. lfree h \<le> x \<longrightarrow> x < mem_size_aligned h - block_size n \<longrightarrow> \<not> fits h (block_size n) x"
    using mem_malloc_ok [OF i, of n] assms(1-3) by auto
  have "is_used h a" if "a \<in> offs h" "\<not> lfree h \<le> a" "rt_system_heap_init r begin_addr end_addr (s, hz) = Some (s0, h0)"
    "used_mem hz = 0" "align_up begin_addr + 48 \<le> unat (RT_ALIGN_DOWN end_addr 8)"
    "heap_reach (\<lambda>n. mem_malloc (of_nat n)) mem_free heap_live h0 h" for a
    using reach_tight [OF that(6)] init_heap [OF that(3-5)] that(1,2) by (auto simp: tight_def)
  then show ?thesis using c unfolding fits_def by (metis not_le)
qed

text \<open>All of a heap of 4096 bytes cannot be allocated, although it is free.\<close>

lemma demo_malloc_all: "mem_malloc 4096 demo_heap = Some (None, demo_heap)"
proof -
  have "align_up 4096 = 4096" using align_up_eq [of 4096] by simp
  moreover have "mem_search 4096 0 demo_heap = Some None"
    by (subst mem_search.simps) (simp add: demo_heap_def)
  ultimately show ?thesis by (simp add: mem_malloc_def demo_heap_def)
qed

text \<open>A reallocation that gives the end of a block back does not move \<open>lfree\<close>: when the heap was full, all
  further allocations fail, with more than 4000 bytes free.\<close>

definition demo_one :: heap where
  "demo_one = (mem_take 0 4080 demo_heap)\<lparr>lfree := 4112\<rparr>"

lemma realloc_hides_free_block:
  "\<exists>h. mem_malloc 4080 demo_heap = Some (Some 0x20000010, demo_one) \<and>
     mem_realloc 0x20000010 16 demo_one = Some (Some 0x20000010, h) \<and> nxt h 0 = 32 \<and> \<not> is_used h 32 \<and>
     nxt h 32 - 32 - 16 = 4064 \<and> mem_malloc 100 h = Some (None, h)"
proof -
  have al: "align_up 4080 = 4080" "align_up 16 = 16" "align_up 100 = 104"
    using align_up_eq [of 4080] align_up_eq [of 16] align_up_eq [of 100] by simp_all
  have one: "heap_ptr demo_one = 0x20000000" "heap_end demo_one = 4112" "mem_size_aligned demo_one = 4096" "lfree demo_one = 4112"
    "hp_hdr demo_one = (hp_hdr demo_heap)(0 := \<lparr>hm_magic = HEAP_MAGIC, hm_used = 1, hm_next = 4112, hm_prev = 0\<rparr>)"
    by (simp_all add: demo_one_def mem_take_def count_used_def Let_def demo_heap_def add32_def sub32_def fun_eq_iff)
  have d32: "hp_hdr demo_heap 32 = \<lparr>hm_magic = 0, hm_used = 0, hm_next = 0, hm_prev = 0\<rparr>" by (simp add: demo_heap_def)
  have "mem_search 4080 0 demo_heap = Some (Some 0)" by (subst mem_search.simps) (simp add: demo_heap_def)
  moreover have "lfree demo_heap = 0" "mem_size_aligned demo_heap = 4096" by (simp_all add: demo_heap_def)
  ultimately have m: "mem_malloc 4080 demo_heap = Some (Some 0x20000010, demo_one)"
    using demo_take [of 4080 demo_heap demo_one 4112]
    by (simp add: al one) (simp add: demo_one_def mem_take_def count_used_def Let_def demo_heap_def)
  define h where "h = demo_one\<lparr>used_mem := sub32 (used_mem demo_one) 4080,
    hp_hdr := (hp_hdr demo_one)(32 := \<lparr>hm_magic = HEAP_MAGIC, hm_used = 0, hm_next = 4112, hm_prev = 0\<rparr>,
      0 := \<lparr>hm_magic = HEAP_MAGIC, hm_used = 1, hm_next = 32, hm_prev = 0\<rparr>)\<rparr>"
  have r: "mem_realloc 0x20000010 16 demo_one = Some (Some 0x20000010, h)"
    by (simp add: mem_realloc_def realloc_here_def plug_holes_def Let_def al one RT_ASSERT_def add32_def sub32_def h_def
        fun_upd_twist d32)
  have "mem_search 104 4112 h = Some None" by (subst mem_search.simps) (simp add: h_def one)
  then have "mem_malloc 100 h = Some (None, h)" by (simp add: mem_malloc_def al) (simp add: h_def one)
  then show ?thesis using m r by (intro exI [of _ h]) (simp add: h_def one)
qed

theorem malloc_null_complete_witness:
  "\<exists>s0 h0. rt_system_heap_init (Obj 11) 0x20000000 0x20001020 (demo\<lparr>current := None\<rparr>, demo_heap) = Some (s0, h0) \<and>
     mem_malloc 32 demo_hole = Some (None, demo_hole) \<and> nxt demo_hole 0 - 0 - 16 < block_size 32"
proof -
  have hd: "demo_heap\<lparr>mem_size_aligned := 4096, heap_ptr := 0x20000000, hp_hdr := (hp_hdr demo_heap)
      (0 := \<lparr>hm_magic = HEAP_MAGIC, hm_used = 0, hm_next = 4112, hm_prev = 0\<rparr>,
       4112 := \<lparr>hm_magic = HEAP_MAGIC, hm_used = 1, hm_next = 4112, hm_prev = 4112\<rparr>), heap_end := 4112,
      heap_sem := demo_sem 1, lfree := 0\<rparr> = demo_heap" by (simp add: demo_heap_def fun_eq_iff)
  have co: "containers demo 2 = []" by (simp add: demo_def)
  obtain s0 where sem: "rt_sem_init (Obj 11) ''heap'' 1 RT_IPC_FLAG_FIFO (demo\<lparr>current := None\<rparr>) = Some (RT_EOK, demo_sem 1, s0)"
    by (simp add: rt_sem_init_def rt_object_init_def rt_exit_critical_def rt_enter_critical_def rt_object_get_information_def
        rt_object_container_def co demo_sem_def Let_def)
  have ad: "align_up 0x20000000 = 0x20000000" "unat (RT_ALIGN_DOWN 0x20001020 8 :: u32) = 0x20001020"
    using align_up_eq [of "0x20000000"] by (simp_all add: RT_ALIGN_DOWN_def unat_and_not_7)
  have init: "rt_system_heap_init (Obj 11) 0x20000000 0x20001020 (demo\<lparr>current := None\<rparr>, demo_heap) = Some (s0, demo_heap)"
    using sem hd by (simp add: rt_system_heap_init_def ad Let_def RT_DEBUG_NOT_IN_INTERRUPT_def)
  have l: "heap_live demo_heap = {}" by (rule demo_heap_ok(2))
  let ?reach = "heap_reach (\<lambda>n. mem_malloc (of_nat n)) mem_free heap_live demo_heap"
  have r1: "?reach demo_taken" 
    by (rule heap_reach.alloc [OF heap_reach.start, of 24]) (use demo_hole_runs(1) in simp_all)
  have ok1: "heap_ok demo_taken" by (rule hm.reach_ok [OF r1 demo_heap_ok(1)])
  obtain m where l1: "(0x20000010, m) \<in> heap_live demo_taken" using hm.alloc_ok [OF demo_heap_ok(1), of 24] demo_hole_runs(1) by auto
  have r2: "?reach demo_full" 
    by (rule heap_reach.alloc [OF r1, of 4040]) (use demo_hole_runs(2) in simp_all)
  have "(0x20000010, m) \<in> heap_live demo_full" using hm.alloc_ok [OF ok1, of 4040] demo_hole_runs(2) l1 by auto
  then have r3: "?reach demo_hole" using heap_reach.free [OF r2] demo_hole_runs(3) by blast
  have ok3: "heap_ok demo_hole" by (rule hm.reach_ok [OF r3 demo_heap_ok(1)])
  have b: "block_size 32 = 32" "mem_size_aligned demo_hole = 4096" "nxt demo_hole 0 = 40" "\<not> is_used demo_hole 0"
    by (simp_all add: block_size_def demo_aligned demo_hole_def demo_full_simps demo_taken_simps)
  have "\<forall>a \<in> offs demo_hole. a < mem_size_aligned demo_hole - block_size 32 \<longrightarrow>
      is_used demo_hole a \<or> nxt demo_hole a - a - 16 < block_size 32"
    using malloc_null_complete [OF demo_hole_runs(4) _ _ ok3, of "Obj 11" "0x20000000" "0x20001020" "demo\<lparr>current := None\<rparr>" demo_heap s0 demo_heap]
      init r3 ad by (simp add: b demo_aligned) (simp add: demo_heap_def)
  then show ?thesis using init demo_hole_runs(4) offs.first [of demo_hole] b by fastforce
qed

section \<open>Statistics\<close>

text \<open>\<open>rt_memory_info\<close> reports exactly the memory that the blocks in use occupy, headers included,
  in every state that allocations and releases reach.\<close>

theorem memory_info_exact:
  assumes "heap_reach (\<lambda>n. mem_malloc (of_nat n)) mem_free heap_live h0 h" "heap_ok h0"
  shows "fst (snd (rt_memory_info h)) = (\<Sum>(p, m) \<in> heap_live h. m + 16) \<and>
    fst (snd (rt_memory_info h)) \<le> heap_end h"
proof -
  have i: "heap_inv h (offs h)" using hm.reach_ok [OF assms] by (simp add: heap_ok_def)
  then have wf: "heap_wf h (offs h)" and u: "used_mem h = total_used h (offs h)" by (simp_all add: heap_inv_def)
  let ?f = "\<lambda>a. (heap_ptr h + a + 16, nxt h a - a - 16)"
  have "inj_on ?f (in_use h (offs h))" by (auto simp: inj_on_def)
  then have "(\<Sum>(p, m) \<in> heap_live h. m + 16) = (\<Sum>a \<in> in_use h (offs h). nxt h a - a - 16 + 16)"
    unfolding heap_live_def live_blocks_def by (subst sum.reindex) (simp_all add: o_def)
  also have "\<dots> = total_used h (offs h)" unfolding total_used_def
    by (rule sum.cong) (use heap_wfD(7) [OF wf] in \<open>fastforce simp: in_use_def\<close>)+
  finally show ?thesis using u total_used_bound [OF wf] by (simp add: rt_memory_info_def)
qed

theorem memory_info_exact_witness:
  "fst (snd (rt_memory_info demo_heap)) = (\<Sum>(p, m) \<in> heap_live demo_heap. m + 16)"
  using memory_info_exact [OF heap_reach.start demo_heap_ok(1)] by blast

section \<open>Sizes that wrap around\<close>

text \<open>The size rounds up to 0: it is 0, or one of the last seven below \<open>2 ^ 32\<close>, for which the sum wraps.\<close>

lemma align_up_zero: "align_up n = 0 \<longleftrightarrow> n = 0 \<or> 2 ^ 32 - 7 \<le> unat n"
proof (cases "unat n < 2 ^ 32 - 7")
  case True
  then show ?thesis using align_up_ge [of n] align_up_eq [of n] by (auto simp: unat_eq_zero)
next
  case False
  have "unat n < 2 ^ 32" by (rule order_less_le_trans [OF unsigned_less]) simp
  then have "unat (n + 7) = unat n + 7 - 2 ^ 32" using False by (simp add: unat_word_ariths le_mod_geq)
  then have "unat (n + 7) div 8 = 0" using \<open>unat n < 2 ^ 32\<close> by simp
  then show ?thesis using False unfolding align_up_RT unat_and_not_7 by simp
qed

text \<open>The rounding of the request wraps around: a request of the last seven sizes below \<open>2 ^ 32\<close> is
  served like one of 16 bytes, and succeeds whenever that does, with a block far too small.\<close>

theorem malloc_wraps:
  assumes "unat n \<ge> 2 ^ 32 - 7" "16 \<le> mem_size_aligned h"
  shows "mem_malloc n h = mem_malloc 16 h"
proof -
  have z: "align_up n = 0" using assms(1) by (simp add: align_up_zero)
  have n0: "n \<noteq> 0" using assms(1) by auto
  have a: "align_up 16 = 16" using align_up_eq [of 16] by simp
  show ?thesis using z n0 a assms(2) unfolding mem_malloc_def by simp
qed

theorem malloc_wraps_witness:
  "mem_malloc 0xffffffff demo_heap = mem_malloc 16 demo_heap"
  using malloc_wraps [of "0xffffffff" demo_heap] by (simp add: demo_heap_def)

section \<open>Reallocation\<close>

lemma copy_inv:
  "heap_inv (mem_copy d s k h) B = heap_inv h B" "live_blocks (mem_copy d s k h) B = live_blocks h B"
proof -
  have u: "in_use (mem_copy d s k h) B = in_use h B" by (simp add: in_use_def mem_copy_def)
  show "heap_inv (mem_copy d s k h) B = heap_inv h B" "live_blocks (mem_copy d s k h) B = live_blocks h B"
    unfolding heap_inv_def heap_wf_def heap_frame_def no_seam_def total_used_def live_blocks_def u
    by (simp_all add: mem_copy_def)
qed

lemma live_block_at:
  assumes "(heap_ptr h + a + 16, m) \<in> live_blocks h B"
  shows "a \<in> in_use h B" "m = nxt h a - a - 16"
  using assms by (auto simp: live_blocks_def)

text \<open>Giving the end of a block back in place.\<close>

lemma realloc_shrink:
  assumes "heap_inv h B" "a \<in> in_use h B" "n + 28 < nxt h a - a - 16" "8 dvd n" "0 < n"
  defines "h2 \<equiv> split_at a (a + 16 + n) (h\<lparr>used_mem := used_mem h - (nxt h a - a - 16 - n)\<rparr>)"
  shows "\<exists>h' C. plug_holes (a + 16 + n) h2 = Some h' \<and> heap_inv h' C \<and>
    live_blocks h' C = insert (heap_ptr h + a + 16, n) (live_blocks h B - {(heap_ptr h + a + 16, nxt h a - a - 16)}) \<and>
    hp_bytes h' = hp_bytes h"
proof -
  let ?m = "a + 16 + n" and ?h = "h\<lparr>used_mem := used_mem h - (nxt h a - a - 16 - n)\<rparr>"
  have wf: "heap_wf h B" and ns: "no_seam h B" and um: "used_mem h = total_used h B"
    using assms(1) by (simp_all add: heap_inv_def)
  note d = heap_wfD [OF wf]
  have a: "a \<in> B" "a < heap_end h" "is_used h a" using assms(2) by (simp_all add: in_use_def)
  have wf0: "heap_wf ?h B" by (rule heap_wf_cong [OF wf]) (use d in auto)
  have m: "a + 16 < ?m" "?m + 16 < nxt ?h a" "8 dvd ?m" "a \<noteq> ?m" using assms(3-5) d(5) [OF a(1)] by auto
  have w2: "heap_wf h2 (insert ?m B)" and mB: "?m \<notin> B"
    using split_wf [OF wf0 a(1) _ m(1-3)] a(2) unfolding h2_def by simp_all
  have ml: "?m < heap_end h2" using m(2) d(4) [OF d(6) [OF a(1,2)]] by (simp add: h2_def)
  have mu: "\<not> is_used h2 ?m" by (simp add: h2_def)
  have seam: "is_used h2 (nxt h2 x)" if x: "x \<in> insert ?m B" "\<not> is_used h2 x" "x \<noteq> ?m" "nxt h2 x \<noteq> ?m" for x
  proof -
    have xb: "x \<in> B" "\<not> is_used h x" "x \<noteq> a" using x m(4) a(3) by (auto simp: h2_def)
    have "is_used h (nxt h x)" using ns xb by (simp add: no_seam_def)
    then show ?thesis using xb x(3,4) m(4) by (simp add: h2_def)
  qed
  from plug_holes_ok [OF w2 _ ml mu seam] obtain h' C where h': "plug_holes ?m h2 = Some h'" "heap_wf h' C"
    "no_seam h' C" "same_use h2 (insert ?m B) h' C" by auto
  have u2: "in_use h2 (insert ?m B) = in_use h B" using mB by (auto simp: in_use_def h2_def)
  have nx: "nxt h2 x = (if x = a then ?m else nxt h x)" if "x \<in> in_use h B" for x
    using that mB m(4) by (auto simp: in_use_def h2_def)
  have fin: "finite (in_use h B)" using heap_wf_finite [OF wf] by (simp add: in_use_def)
  have "total_used h2 (insert ?m B) = (16 + n) + (\<Sum>x\<in>in_use h B - {a}. nxt h x - x)"
    unfolding total_used_def u2 sum.remove [OF fin assms(2)] using nx assms(2) by simp
  also have "\<dots> = (16 + n) + (total_used h B - (nxt h a - a))" using in_use_remove(1) [OF wf assms(2)] by simp
  finally have "used_mem h2 = total_used h2 (insert ?m B)"
    using in_use_remove(2) [OF wf assms(2)] assms(3) um by (simp add: h2_def)
  moreover have "used_mem h' = used_mem h2" using h'(4) by (simp add: same_use_def)
  ultimately have "heap_inv h' C" using h'(2,3) same_use_total [OF h'(4)] by (simp add: heap_inv_def)
  moreover have "live_blocks h2 (insert ?m B) =
      insert (heap_ptr h + a + 16, n) (live_blocks h B - {(heap_ptr h + a + 16, nxt h a - a - 16)})"
    unfolding live_blocks_def u2 using nx assms(2) by (auto simp: h2_def image_iff)
  moreover have "hp_bytes h' = hp_bytes h" using h'(4) by (simp add: same_use_def h2_def)
  ultimately show ?thesis using h'(1) same_use_live [OF h'(4)] by auto
qed

lemma realloc_here_eq:
  assumes "heap_inv h B" "a \<in> in_use h B" "0 < n" "n \<le> mem_size_aligned h"
  shows "realloc_here (heap_ptr h + a + 16) n h =
    (if nxt h a - a - 16 = n then Some (None, h)
     else if n + 28 < nxt h a - a - 16 then
       map_option (Pair None) (plug_holes (a + 16 + n)
         (split_at a (a + 16 + n) (h\<lparr>used_mem := used_mem h - (nxt h a - a - 16 - n)\<rparr>)))
     else Some (Some (nxt h a - a - 16), h))"
proof -
  have wf: "heap_wf h B" and um: "used_mem h = total_used h B" using assms(1) by (simp_all add: heap_inv_def)
  note d = heap_wfD [OF wf] and f = heap_frameD [OF heap_wfD(1) [OF wf]]
  have a: "a \<in> B" "a < heap_end h" using assms(2) by (simp_all add: in_use_def)
  have n: "a + 16 < nxt h a" "nxt h a \<le> heap_end h" using d(4,6,7) a by blast+
  have ad: "add32 (heap_ptr h) (heap_end h) = heap_ptr h + heap_end h"
    "sub32 (sub32 (heap_ptr h + a + 16) 16) (heap_ptr h) = a" "sub32 (sub32 (nxt h a) a) 16 = nxt h a - a - 16"
    "add32 (mem_size_aligned h) 16 = heap_end h" "add32 n (16 + 12) = n + 28"
    using f n a(2) assms(4) by simp_all
  have rng: "\<not> (heap_ptr h + a + 16 < heap_ptr h \<or> heap_ptr h + heap_end h \<le> heap_ptr h + a + 16)"
    using n by simp
  show ?thesis
  proof (cases "n + 28 < nxt h a - a - 16 \<and> nxt h a - a - 16 \<noteq> n")
    case True
    have "used_mem h < 2 ^ 32" using total_used_bound [OF wf] f(6) um by simp
    moreover have "nxt h a - a \<le> used_mem h" using in_use_remove(2) [OF wf assms(2)] um by simp
    ultimately have um2: "sub32 (used_mem h) (nxt h a - a - 16 - n) = used_mem h - (nxt h a - a - 16 - n)" by simp
    have lt: "a + 16 + n + 28 < nxt h a" using True by linarith
    then have m: "add32 a (16 + n) = a + 16 + n" "a + 16 + n \<noteq> a" "nxt h a \<noteq> a + 16 + n" using n f(6) by simp_all
    show ?thesis using True rng unfolding realloc_here_def Let_def ad um2 m(1)
      by (simp add: split_at_def Let_def m um2)
  next
    case False
    then show ?thesis using rng unfolding realloc_here_def Let_def ad by auto
  qed
qed

text \<open>The contents of the block that is moved: the first bytes are copied, other blocks keep theirs.\<close>

definition moved :: "heap \<Rightarrow> nat \<Rightarrow> nat \<Rightarrow> nat \<Rightarrow> nat option \<times> heap \<Rightarrow> bool" where
  "moved h p m n = (\<lambda>(q, h'). heap_ok h' \<and>
     (\<forall>(r, k) \<in> heap_live h - {(p, m)}. \<forall>i<k. hp_bytes h' (r + i) = hp_bytes h (r + i)) \<and>
     (case q of
        None \<Rightarrow> h' = h
      | Some b \<Rightarrow> (\<forall>i<min m n. hp_bytes h' (b + i) = hp_bytes h (p + i)) \<and>
          (\<exists>k\<ge>n. heap_live h' = insert (b, k) (heap_live h - {(p, m)}))))"

lemma moved_mono:
  assumes "moved h p m n' r" "n \<le> n'"
  shows "moved h p m n r"
proof -
  obtain q h' where r: "r = (q, h')" by fastforce
  have *: "\<exists>k\<ge>n. P k" if "\<exists>k\<ge>n'. P k" for P using that assms(2) order_trans by blast
  show ?thesis
  proof (cases q)
    case None
    then show ?thesis using assms(1) by (auto simp: moved_def r)
  next
    case (Some b)
    then show ?thesis using assms unfolding moved_def r by (simp add: *)
  qed
qed

lemma realloc_move_ok:
  assumes "heap_inv h B" "a \<in> in_use h B" "0 < n" "n < 2 ^ 32" "8 dvd n"
  defines "p \<equiv> heap_ptr h + a + 16" and "m \<equiv> nxt h a - a - 16"
  shows "\<exists>r. (do { (nmem, h2) \<leftarrow> mem_malloc (of_nat n) h;
             (case nmem of
                None \<Rightarrow> Some (None, h2)
              | Some b \<Rightarrow> map_option (Pair (Some b)) (mem_free p (mem_copy b p (min m n) h2))) }) = Some r \<and> moved h p m n r"
proof -
  have ok: "heap_ok h" "heap_live h = live_blocks h B" using heap_okI [OF assms(1)] by simp_all
  have pm: "(p, m) \<in> live_blocks h B" using assms(2) by (auto simp: live_blocks_def p_def m_def)
  from mem_malloc_ok [OF assms(1), of "of_nat n"] show ?thesis
  proof (elim disjE exE conjE)
    assume "mem_malloc (of_nat n) h = Some (None, h)"
    then show ?thesis using ok(1) by (auto simp: moved_def)
  next
    fix b h2 C k
    assume h2: "mem_malloc (of_nat n) h = Some (Some (heap_ptr h + b + 16), h2)" "heap_inv h2 C"
      "block_size (of_nat n) \<le> k" "(heap_ptr h + b + 16, k) \<notin> live_blocks h B"
      "live_blocks h2 C = insert (heap_ptr h + b + 16, k) (live_blocks h B)"
      "heap_ptr h2 = heap_ptr h" "hp_bytes h2 = hp_bytes h"
    let ?q = "heap_ptr h + b + 16"
    define h3 where "h3 = mem_copy ?q p (min m n) h2"
    have i3: "heap_inv h3 C" "live_blocks h3 C = insert (?q, k) (live_blocks h B)"
      using h2(2,5) by (simp_all add: h3_def copy_inv)
    have p3: "heap_ptr h3 = heap_ptr h" using h2(6) by (simp add: h3_def mem_copy_def)
    have a3: "a \<in> in_use h3 C" "m = nxt h3 a - a - 16"
      using live_block_at [of h3 a m C] i3(2) pm p3 by (auto simp: p_def)
    obtain h4 D where h4: "mem_free p h3 = Some h4" "heap_inv h4 D"
      "live_blocks h4 D = live_blocks h3 C - {(p, m)}" "hp_bytes h4 = hp_bytes h3"
      using mem_free_ok [OF i3(1) a3(1)] a3(2) p3 by (auto simp: p_def)
    have ok3: "heap_ok h3" "heap_live h3 = insert (?q, k) (heap_live h)" using heap_okI [OF i3(1)] i3(2) ok(2) by simp_all
    have ne: "(?q, k) \<noteq> (p, m)" using h2(4) pm by auto
    have nk: "n \<le> k" using align_up_aligned [OF assms(5,4)] h2(3) by (simp add: block_size_def)
    have by3: "hp_bytes h3 x = (if ?q \<le> x \<and> x < ?q + min m n then hp_bytes h (p + (x - ?q)) else hp_bytes h x)" for x
      using h2(7) by (simp add: h3_def mem_copy_def)
    have "hp_bytes h4 (r + i) = hp_bytes h (r + i)" if r: "(r, l) \<in> heap_live h - {(p, m)}" "i < l" for r l i
    proof -
      have "(r, l) \<noteq> (?q, k)" using r(1) h2(4) ok(2) by auto
      then have "r + l \<le> ?q \<or> ?q + k \<le> r" using heap_live_disjoint [OF ok3(1), of r l ?q k] r(1) ok3(2) by auto
      then show ?thesis using r(2) nk by (auto simp: h4(4) by3)
    qed
    moreover have "hp_bytes h4 (?q + i) = hp_bytes h (p + i)" if "i < min m n" for i using that by (simp add: h4(4) by3)
    moreover have "heap_ok h4" "heap_live h4 = insert (?q, k) (heap_live h - {(p, m)})"
      using heap_okI [OF h4(2)] h4(3) i3(2) ok(2) ne by auto
    ultimately have "moved h p m n (Some ?q, h4)" using nk unfolding moved_def by auto
    then show ?thesis using h2(1) h4(1) by (auto simp: h3_def)
  qed (auto simp: moved_def ok(1))
qed

text \<open>A size that does not round up to 0.\<close>

lemma realloc_sized:
  assumes "heap_ok h" "(p, m) \<in> heap_live h" "align_up n \<noteq> 0"
  shows "\<exists>r. mem_realloc p n h = Some r \<and> moved h p m (unat n) r"
proof -
  have i: "heap_inv h (offs h)" using assms(1) by (simp add: heap_ok_def)
  obtain a where a: "a \<in> in_use h (offs h)" "p = heap_ptr h + a + 16" "m = nxt h a - a - 16"
    using assms(2) by (auto simp: heap_live_def live_blocks_def)
  let ?n = "align_up n"
  have live: "heap_live h = live_blocks h (offs h)" by (simp add: heap_live_def)
  have p0: "p \<noteq> 0" using a(2) by simp
  have nn: "unat n \<le> ?n" "0 < ?n" "?n < 2 ^ 32" "8 dvd ?n"
    using align_up_ge [of n] align_up_dvd align_up_le assms(3) align_up_zero [of n] by auto
  note mono = moved_mono [OF _ nn(1)]
  show ?thesis
  proof (cases "mem_size_aligned h < ?n")
    case True
    then show ?thesis using assms(1) by (auto simp: mem_realloc_def moved_def)
  next
    case False
    have re: "mem_realloc p n h = do {
        (move, h1) \<leftarrow> realloc_here p ?n h;
        (case move of
           None \<Rightarrow> Some (Some p, h1)
         | Some sz \<Rightarrow> do {
             (nmem, h2) \<leftarrow> mem_malloc (of_nat ?n) h1;
             (case nmem of
                None \<Rightarrow> Some (None, h2)
              | Some a \<Rightarrow> map_option (Pair (Some a)) (mem_free p (mem_copy a p (min sz ?n) h2))) }) }"
      using False nn(2) p0 by (simp add: mem_realloc_def Let_def)
    have here: "realloc_here p ?n h = (if m = ?n then Some (None, h)
       else if ?n + 28 < m then
         map_option (Pair None) (plug_holes (a + 16 + ?n) (split_at a (a + 16 + ?n) (h\<lparr>used_mem := used_mem h - (m - ?n)\<rparr>)))
       else Some (Some m, h))"
      using realloc_here_eq [OF i a(1) nn(2)] False by (simp add: a(2,3))
    consider "m = ?n" | (shrink) "?n + 28 < m" | (move) "m \<noteq> ?n" "\<not> ?n + 28 < m" by linarith
    then show ?thesis
    proof cases
      case 1
      have "moved h p m ?n (Some p, h)" using assms(1,2) 1 by (auto simp: moved_def)
      then show ?thesis using mono re here 1 by auto
    next
      case shrink
      obtain h' C where h': "plug_holes (a + 16 + ?n) (split_at a (a + 16 + ?n) (h\<lparr>used_mem := used_mem h - (m - ?n)\<rparr>)) = Some h'"
        "heap_inv h' C" "live_blocks h' C = insert (p, ?n) (live_blocks h (offs h) - {(p, m)})" "hp_bytes h' = hp_bytes h"
        using realloc_shrink [OF i a(1) _ nn(4,2)] shrink unfolding a(2,3) by auto
      have "moved h p m ?n (Some p, h')" using heap_okI [OF h'(2)] h'(3,4) live by (auto simp: moved_def)
      then show ?thesis using mono re here shrink h'(1) by auto
    next
      case move
      then have "realloc_here p ?n h = Some (Some m, h)" using here by simp
      then show ?thesis using realloc_move_ok [OF i a(1) nn(2-4)] mono re unfolding a(2,3) [symmetric] by auto
    qed
  qed
qed

text \<open>C19: Reallocation never fails on a live block, for any size: it returns null and changes nothing, or a block
  of at least the new size whose first bytes are those of the old block; no other block is touched, and the
  old block is no longer live unless it is the result. The exceptions are the size 0, and the last seven
  sizes below \<open>2 ^ 32\<close>, which round up to 0: then the block is released and null is returned.\<close>

theorem realloc_keeps_contents:
  assumes "heap_ok h" "(p, m) \<in> heap_live h"
  shows "\<exists>q h'. mem_realloc p n h = Some (q, h') \<and>
    (if n = 0 \<or> 2 ^ 32 - 7 \<le> unat n
     then q = None \<and> heap_ok h' \<and> heap_live h' = heap_live h - {(p, m)} \<and> hp_bytes h' = hp_bytes h
     else moved h p m (unat n) (q, h'))"
proof (cases "align_up n = 0")
  case True
  have i: "heap_inv h (offs h)" using assms(1) by (simp add: heap_ok_def)
  obtain a where a: "a \<in> in_use h (offs h)" "p = heap_ptr h + a + 16" "m = nxt h a - a - 16"
    using assms(2) by (auto simp: heap_live_def live_blocks_def)
  obtain h' C where h': "mem_free p h = Some h'" "heap_inv h' C" "live_blocks h' C = live_blocks h (offs h) - {(p, m)}"
    "hp_bytes h' = hp_bytes h" using mem_free_ok [OF i a(1)] unfolding a(2,3) by blast
  then show ?thesis using True align_up_zero [of n] heap_okI [OF h'(2)] by (auto simp: mem_realloc_def heap_live_def)
next
  case False
  then have "\<not> (n = 0 \<or> 2 ^ 32 - 7 \<le> unat n)" using align_up_zero [of n] by simp
  then show ?thesis using realloc_sized [OF assms False] by auto
qed

lemma demo_malloc_live:
  "\<exists>h m. mem_malloc 100 demo_heap = Some (Some 0x20000010, h) \<and> heap_ok h \<and> (0x20000010, m) \<in> heap_live h"
  using hm.alloc_ok [OF demo_heap_ok(1), of 100] demo_malloc by auto

theorem realloc_keeps_contents_witness:
  "\<exists>h m q h' h''. mem_malloc 100 demo_heap = Some (Some 0x20000010, h) \<and> mem_realloc 0x20000010 200 h = Some (q, h') \<and>
    moved h 0x20000010 m 200 (q, h') \<and> mem_realloc 0x20000010 0 h = Some (None, h'') \<and>
    heap_live h'' = heap_live h - {(0x20000010, m)}"
proof -
  obtain h m where h: "mem_malloc 100 demo_heap = Some (Some 0x20000010, h)" "heap_ok h" "(0x20000010, m) \<in> heap_live h"
    using demo_malloc_live by blast
  obtain q h' where q: "mem_realloc 0x20000010 200 h = Some (q, h')" "moved h 0x20000010 m 200 (q, h')"
    using realloc_keeps_contents [OF h(2,3), of 200] by auto
  obtain h'' where "mem_realloc 0x20000010 0 h = Some (None, h'')" "heap_live h'' = heap_live h - {(0x20000010, m)}"
    using realloc_keeps_contents [OF h(2,3), of 0] by auto
  then show ?thesis using h(1) q by blast
qed

section \<open>The lock\<close>

lemma heap_ok_sem: "heap_ok (h\<lparr>heap_sem := x\<rparr>) = heap_ok h" "heap_live (h\<lparr>heap_sem := x\<rparr>) = heap_live h"
proof -
  have *: "heap_inv (h\<lparr>heap_sem := x\<rparr>) B = heap_inv h B \<and> live_blocks (h\<lparr>heap_sem := x\<rparr>) B = live_blocks h B" for h x B
  proof -
    have u: "in_use (h\<lparr>heap_sem := x\<rparr>) B = in_use h B" by (simp add: in_use_def)
    show ?thesis unfolding heap_inv_def heap_wf_def heap_frame_def no_seam_def total_used_def live_blocks_def u by simp
  qed
  have "offs (h\<lparr>heap_sem := x\<rparr>) = offs h"
  proof (rule set_eqI, rule iffI)
    fix a
    show "a \<in> offs h" if "a \<in> offs (h\<lparr>heap_sem := x\<rparr>)" using that by induction (auto intro: offs.intros)
    show "a \<in> offs (h\<lparr>heap_sem := x\<rparr>)" if "a \<in> offs h"
      using that by induction (auto intro: offs.first offs.following [where h = "h\<lparr>heap_sem := x\<rparr>", simplified])
  qed
  then show "heap_ok (h\<lparr>heap_sem := x\<rparr>) = heap_ok h" "heap_live (h\<lparr>heap_sem := x\<rparr>) = heap_live h"
    using * by (simp_all add: heap_ok_def heap_live_def)
qed

text \<open>The lock is free: a positive value, nobody waiting.\<close>

definition lock_free :: "rt_semaphore \<Rightarrow> kern \<Rightarrow> bool" where
  "lock_free sem s \<longleftrightarrow> rt_object_get_type (sem_ref sem) s = RT_Object_Class_Semaphore \<and> 0 < sem_value sem \<and>
     queues s (SuspendQ (sem_ref sem)) = []"

lemma lock_free_take:
  "lock_free sem s \<Longrightarrow> rt_sem_take sem w s = Some (Returned RT_EOK, sem\<lparr>sem_value := sem_value sem - 1\<rparr>, s)"
  by (simp add: lock_free_def rt_sem_take_def RT_ASSERT_def)

lemma lock_free_release:
  "lock_free sem s \<Longrightarrow> rt_sem_release (sem\<lparr>sem_value := sem_value sem - 1\<rparr>) s = Some (RT_EOK, sem, s)"
  by (simp add: lock_free_def rt_sem_release_def RT_ASSERT_def)

lemma malloc_keeps_sem: "heap_ok h \<Longrightarrow> mem_malloc n h = Some (p, h') \<Longrightarrow> heap_sem h' = heap_sem h"
  using mem_malloc_ok [of h "offs h" n] unfolding heap_ok_def by auto

text \<open>With its lock free, \<open>rt_malloc\<close> always returns, leaves the kernel and the lock as they were, and adds one
  block of at least the requested size to the live blocks or none.\<close>

theorem malloc_unlocked:
  assumes "heap_ok h" "lock_free (heap_sem h) s" "irq_nest s = 0" "n < 2 ^ 31"
  shows "\<exists>p h'. rt_malloc (of_nat n) (s, h) = Some (Returned RT_EOK, p, s, h') \<and> heap_ok h' \<and> heap_sem h' = heap_sem h \<and>
    (case p of
       None \<Rightarrow> heap_live h' = heap_live h
     | Some a \<Rightarrow> \<exists>m\<ge>n. (a, m) \<notin> heap_live h \<and> heap_live h' = insert (a, m) (heap_live h))"
proof -
  let ?sem = "heap_sem h"
  define h1 where "h1 = h\<lparr>heap_sem := ?sem\<lparr>sem_value := sem_value ?sem - 1\<rparr>\<rparr>"
  have ok1: "heap_ok h1" "heap_live h1 = heap_live h" using assms(1) by (simp_all add: h1_def heap_ok_sem)
  obtain p h2 where m: "mem_malloc (of_nat n) h1 = Some (p, h2)" "heap_sem h2 = heap_sem h1" "heap_ok h2"
    "case p of None \<Rightarrow> heap_live h2 = heap_live h
     | Some a \<Rightarrow> \<exists>m\<ge>n. (a, m) \<notin> heap_live h \<and> heap_live h2 = insert (a, m) (heap_live h)"
    using hm.alloc_ok [OF ok1(1) assms(4)] malloc_keeps_sem [OF ok1(1), of "of_nat n"] ok1(2) that by (elim disjE) fastforce+
  have rel: "rt_sem_release (heap_sem h2) s = Some (RT_EOK, ?sem, s)"
    using lock_free_release [OF assms(2)] m(2) by (simp add: h1_def)
  have r: "malloc_locked (of_nat n) (s, h1) = Some (Returned RT_EOK, p, s, h2\<lparr>heap_sem := ?sem\<rparr>)"
    using m(1) rel by (simp add: malloc_locked_def)
  show ?thesis
  proof (cases "of_nat n = (0 :: u32) \<or> mem_size_aligned h < align_up (of_nat n)")
    case True
    then show ?thesis using assms(1,3) by (auto simp: rt_malloc_def RT_DEBUG_NOT_IN_INTERRUPT_def)
  next
    case False
    then have "rt_malloc (of_nat n) (s, h) = Some (Returned RT_EOK, p, s, h2\<lparr>heap_sem := ?sem\<rparr>)"
      using r assms(3) lock_free_take [OF assms(2)] by (simp add: rt_malloc_def RT_DEBUG_NOT_IN_INTERRUPT_def h1_def)
    then show ?thesis using m(3,4) unfolding heap_ok_sem [symmetric, where x = ?sem and h = h2]
      by - (intro exI conjI, assumption, assumption, simp, assumption)
  qed
qed

theorem malloc_unlocked_witness:
  "\<exists>p h'. rt_malloc (of_nat 100) (demo, demo_heap\<lparr>heap_sem := demo_sem 1\<rparr>) = Some (Returned RT_EOK, p, demo, h') \<and> heap_ok h'"
proof -
  have "heap_ok (demo_heap\<lparr>heap_sem := demo_sem 1\<rparr>)" "lock_free (demo_sem 1) demo" "irq_nest demo = 0"
    using demo_heap_ok(1) demo_sem_inv(1) by (simp_all add: heap_ok_sem lock_free_def demo_sem_def demo_def rt_object_get_type_def)
  then show ?thesis using malloc_unlocked [of "demo_heap\<lparr>heap_sem := demo_sem 1\<rparr>" demo 100] by auto
qed

end
