(* ===== verification/Ringbuffer.thy ===== *)
theory Ringbuffer
  imports Kernel_State Fifo
begin

text \<open>
  The byte ring buffer of \<^verbatim>\<open>rt-thread/components/drivers/src/ringbuffer.c\<close> (the buffer of the serial and
  pipe drivers): a circular array whose two indices carry a mirror bit, so that a full buffer and an
  empty one differ.

  The indices are the 15-bit and the mirrors the 1-bit fields of the structure. \<open>rb_pool\<close> is the memory at
  \<open>buffer_ptr\<close>; a copy outside of it, or from outside of the caller's bytes, is \<open>None\<close>.
  The first part is the code, then each operation is given in closed form over \<open>rb_contents\<close>, the
  bytes in the order in which they leave; the character operations are a \<open>bounded_fifo\<close>.
\<close>

section \<open>The code\<close>

record rt_ringbuffer =
  rb_ptr :: nat
  rb_pool :: "u8 list"
  read_mirror :: "1 word"
  read_index :: "15 word"
  write_mirror :: "1 word"
  write_index :: "15 word"
  buffer_size :: u16

datatype rt_ringbuffer_state = RT_RINGBUFFER_EMPTY | RT_RINGBUFFER_FULL | RT_RINGBUFFER_HALFFULL

definition rt_ringbuffer_status :: "rt_ringbuffer \<Rightarrow> rt_ringbuffer_state" where
  "rt_ringbuffer_status rb =
     (if read_index rb = write_index rb then
        (if read_mirror rb = write_mirror rb then RT_RINGBUFFER_EMPTY else RT_RINGBUFFER_FULL)
      else RT_RINGBUFFER_HALFFULL)"

definition rt_ringbuffer_data_len :: "rt_ringbuffer \<Rightarrow> u32" where
  "rt_ringbuffer_data_len rb =
     (case rt_ringbuffer_status rb of
        RT_RINGBUFFER_EMPTY \<Rightarrow> 0
      | RT_RINGBUFFER_FULL \<Rightarrow> scast (buffer_size rb)
      | RT_RINGBUFFER_HALFFULL \<Rightarrow>
          (if write_index rb > read_index rb then ucast (write_index rb) - ucast (read_index rb)
           else scast (buffer_size rb) - (ucast (read_index rb) - ucast (write_index rb))))"

definition rt_ringbuffer_space_len :: "rt_ringbuffer \<Rightarrow> u32" where
  "rt_ringbuffer_space_len rb = scast (buffer_size rb) - rt_ringbuffer_data_len rb"

definition rt_ringbuffer_get_size :: "rt_ringbuffer \<Rightarrow> u16" where
  "rt_ringbuffer_get_size rb = buffer_size rb"

definition rt_ringbuffer_init :: "nat \<Rightarrow> u8 list \<Rightarrow> u16 \<Rightarrow> rt_ringbuffer option" where
  "rt_ringbuffer_init ptr pool sz = do {
     RT_ASSERT (sint sz > 0);
     Some \<lparr>rb_ptr = ptr, rb_pool = pool, read_mirror = 0, read_index = 0, write_mirror = 0, write_index = 0,
       buffer_size = ucast (RT_ALIGN_DOWN (scast sz) RT_ALIGN_SIZE)\<rparr> }"

text \<open>\<open>memcpy\<close> into and out of the pool; the count is an \<open>int\<close>.\<close>

definition slice :: "nat \<Rightarrow> int \<Rightarrow> 'a list \<Rightarrow> 'a list option" where
  "slice i n xs = (if 0 \<le> n \<and> i + nat n \<le> length xs then Some (take (nat n) (drop i xs)) else None)"

definition rb_write :: "nat \<Rightarrow> u8 list \<Rightarrow> rt_ringbuffer \<Rightarrow> rt_ringbuffer option" where
  "rb_write i xs rb =
     (if i + length xs \<le> length (rb_pool rb)
      then Some (rb\<lparr>rb_pool := take i (rb_pool rb) @ xs @ drop (i + length xs) (rb_pool rb)\<rparr>) else None)"

text \<open>\<open>buffer_size - write_index\<close>, an \<open>int\<close>\<close>

abbreviation write_room :: "rt_ringbuffer \<Rightarrow> int" where
  "write_room rb \<equiv> sint (buffer_size rb) - uint (write_index rb)"

abbreviation read_room :: "rt_ringbuffer \<Rightarrow> int" where
  "read_room rb \<equiv> sint (buffer_size rb) - uint (read_index rb)"

text \<open>The copies of a put and of a forced put: in one piece, or in two around the end (\<open>True\<close>).\<close>

definition rb_copy_in :: "rt_ringbuffer \<Rightarrow> u8 list \<Rightarrow> u16 \<Rightarrow> (bool \<times> rt_ringbuffer) option" where
  "rb_copy_in rb ptr len =
     (if write_room rb > uint len then do {
        data \<leftarrow> slice 0 (uint len) ptr;
        rb1 \<leftarrow> rb_write (unat (write_index rb)) data rb;
        Some (False, rb1\<lparr>write_index := write_index rb + ucast len\<rparr>) }
      else do {
        d1 \<leftarrow> slice 0 (write_room rb) ptr;
        rb1 \<leftarrow> rb_write (unat (write_index rb)) d1 rb;
        d2 \<leftarrow> slice (nat (write_room rb)) (uint len - write_room rb) ptr;
        rb2 \<leftarrow> rb_write 0 d2 rb1;
        Some (True, rb2\<lparr>write_mirror := NOT (write_mirror rb), write_index := word_of_int (uint len - write_room rb)\<rparr>) })"

definition rt_ringbuffer_put :: "rt_ringbuffer \<Rightarrow> u8 list \<Rightarrow> u16 \<Rightarrow> (u32 \<times> rt_ringbuffer) option" where
  "rt_ringbuffer_put rb ptr len =
     (let size = ucast (rt_ringbuffer_space_len rb) :: u16
      in if size = 0 then Some (0, rb)
         else
           (let len = (if size < len then size else len)
            in map_option (\<lambda>(wrapped, rb1). (ucast len, rb1)) (rb_copy_in rb ptr len)))"

definition rt_ringbuffer_put_force :: "rt_ringbuffer \<Rightarrow> u8 list \<Rightarrow> u16 \<Rightarrow> (u32 \<times> rt_ringbuffer) option" where
  "rt_ringbuffer_put_force rb ptr0 len0 =
     (let space_length = ucast (rt_ringbuffer_space_len rb) :: u16;
          over = uint len0 > sint (buffer_size rb);
          ptr = (if over then drop (nat (uint len0 - sint (buffer_size rb))) ptr0 else ptr0);
          len = (if over then buffer_size rb else len0)
      in map_option (\<lambda>(wrapped, rb1). (ucast len,
           if len > space_length
           then rb1\<lparr>read_mirror := (if wrapped then NOT (read_mirror rb) else read_mirror rb), read_index := write_index rb1\<rparr>
           else rb1)) (rb_copy_in rb ptr len))"

definition rt_ringbuffer_get :: "rt_ringbuffer \<Rightarrow> u16 \<Rightarrow> (u32 \<times> u8 list \<times> rt_ringbuffer) option" where
  "rt_ringbuffer_get rb len =
     (let size = rt_ringbuffer_data_len rb
      in if size = 0 then Some (0, [], rb)
         else
           (let len = (if size < ucast len then ucast size else len)
            in if read_room rb > uint len then do {
                 data \<leftarrow> slice (unat (read_index rb)) (uint len) (rb_pool rb);
                 Some (ucast len, data, rb\<lparr>read_index := read_index rb + ucast len\<rparr>) }
               else do {
                 d1 \<leftarrow> slice (unat (read_index rb)) (read_room rb) (rb_pool rb);
                 d2 \<leftarrow> slice 0 (uint len - read_room rb) (rb_pool rb);
                 Some (ucast len, d1 @ d2, rb\<lparr>read_mirror := NOT (read_mirror rb),
                   read_index := word_of_int (uint len - read_room rb)\<rparr>) }))"

definition rt_ringbuffer_putchar :: "rt_ringbuffer \<Rightarrow> u8 \<Rightarrow> (u32 \<times> rt_ringbuffer) option" where
  "rt_ringbuffer_putchar rb ch =
     (if rt_ringbuffer_space_len rb = 0 then Some (0, rb)
      else do {
        rb1 \<leftarrow> rb_write (unat (write_index rb)) [ch] rb;
        Some (1, if uint (write_index rb) = sint (buffer_size rb) - 1
          then rb1\<lparr>write_mirror := NOT (write_mirror rb), write_index := 0\<rparr>
          else rb1\<lparr>write_index := write_index rb + 1\<rparr>) })"

definition rt_ringbuffer_putchar_force :: "rt_ringbuffer \<Rightarrow> u8 \<Rightarrow> (u32 \<times> rt_ringbuffer) option" where
  "rt_ringbuffer_putchar_force rb ch = do {
     let old_state = rt_ringbuffer_status rb;
     rb1 \<leftarrow> rb_write (unat (write_index rb)) [ch] rb;
     Some (1, if uint (write_index rb) = sint (buffer_size rb) - 1
       then (let rb2 = rb1\<lparr>write_mirror := NOT (write_mirror rb), write_index := 0\<rparr>
             in if old_state = RT_RINGBUFFER_FULL
                then rb2\<lparr>read_mirror := NOT (read_mirror rb), read_index := write_index rb2\<rparr> else rb2)
       else (let rb2 = rb1\<lparr>write_index := write_index rb + 1\<rparr>
             in if old_state = RT_RINGBUFFER_FULL then rb2\<lparr>read_index := write_index rb2\<rparr> else rb2)) }"

definition rt_ringbuffer_getchar :: "rt_ringbuffer \<Rightarrow> (u32 \<times> u8 option \<times> rt_ringbuffer) option" where
  "rt_ringbuffer_getchar rb =
     (if rt_ringbuffer_data_len rb = 0 then Some (0, None, rb)
      else do {
        ch \<leftarrow> slice (unat (read_index rb)) 1 (rb_pool rb);
        Some (1, Some (hd ch), if uint (read_index rb) = sint (buffer_size rb) - 1
          then rb\<lparr>read_mirror := NOT (read_mirror rb), read_index := 0\<rparr>
          else rb\<lparr>read_index := read_index rb + 1\<rparr>) })"

definition rt_ringbuffer_reset :: "rt_ringbuffer \<Rightarrow> rt_ringbuffer" where
  "rt_ringbuffer_reset rb = rb\<lparr>read_mirror := 0, read_index := 0, write_mirror := 0, write_index := 0\<rparr>"

text \<open>\<open>sizeof_rb\<close> is the size of the structure, \<open>bytes a n\<close> what a fresh block holds; the first result is the
  address of the structure.\<close>

definition rt_ringbuffer_create ::
    "(nat \<Rightarrow> 'h \<Rightarrow> nat option \<times> 'h) \<Rightarrow> (nat \<Rightarrow> 'h \<Rightarrow> 'h option) \<Rightarrow> (nat \<Rightarrow> nat \<Rightarrow> 'h \<Rightarrow> u8 list) \<Rightarrow> nat \<Rightarrow> u16 \<Rightarrow> 'h \<Rightarrow>
     ((nat \<times> rt_ringbuffer) option \<times> 'h) option" where
  "rt_ringbuffer_create malloc free bytes sizeof_rb sz h = do {
     RT_ASSERT (sz > 0);
     let n = (ucast (RT_ALIGN_DOWN (ucast sz) RT_ALIGN_SIZE) :: u16);
     (case malloc sizeof_rb h of
        (None, h1) \<Rightarrow> Some (None, h1)
      | (Some a, h1) \<Rightarrow>
          (case malloc (unat n) h1 of
             (None, h2) \<Rightarrow> map_option (Pair None) (free a h2)
           | (Some p, h2) \<Rightarrow> map_option (\<lambda>rb. (Some (a, rb), h2)) (rt_ringbuffer_init p (bytes p (unat n) h2) n))) }"

definition rt_ringbuffer_destroy :: "(nat \<Rightarrow> 'h \<Rightarrow> 'h option) \<Rightarrow> nat \<times> rt_ringbuffer \<Rightarrow> 'h \<Rightarrow> 'h option" where
  "rt_ringbuffer_destroy free rb h = do { h1 \<leftarrow> free (rb_ptr (snd rb)) h; free (fst rb) h1 }"

section \<open>Closed forms\<close>

definition rb_n :: "rt_ringbuffer \<Rightarrow> nat" where
  "rb_n rb = nat (sint (buffer_size rb))"

definition rb_ok :: "rt_ringbuffer \<Rightarrow> bool" where
  "rb_ok rb \<longleftrightarrow> 0 < sint (buffer_size rb) \<and> rb_n rb \<le> length (rb_pool rb) \<and>
     unat (read_index rb) < rb_n rb \<and> unat (write_index rb) < rb_n rb \<and>
     (if read_mirror rb = write_mirror rb then read_index rb \<le> write_index rb else write_index rb \<le> read_index rb)"

definition rb_len :: "rt_ringbuffer \<Rightarrow> nat" where
  "rb_len rb = unat (write_index rb) + (if read_mirror rb = write_mirror rb then 0 else rb_n rb) - unat (read_index rb)"

definition rb_contents :: "rt_ringbuffer \<Rightarrow> u8 list" where
  "rb_contents rb = ring_contents (rb_pool rb) (rb_n rb) (unat (read_index rb)) (rb_len rb)"

lemma not_u1 [simp]: "(NOT x = y) = (x \<noteq> (y :: 1 word))" "(y = NOT x) = (x \<noteq> y)"
proof -
  have "z = 0 \<or> z = 1" for z :: "1 word"
  proof -
    have "unat z < 2 ^ LENGTH(1)" by (rule unsigned_less)
    then show ?thesis by (auto simp: word_unat_eq_iff)
  qed
  from this [of x] this [of y] show "(NOT x = y) = (x \<noteq> y)" "(y = NOT x) = (x \<noteq> y)" by auto
qed

lemma rb_okD:
  assumes "rb_ok rb"
  shows "0 < rb_n rb" "rb_n rb < 2 ^ 15" "sint (buffer_size rb) = int (rb_n rb)" "rb_n rb \<le> length (rb_pool rb)"
    "unat (read_index rb) < rb_n rb" "unat (write_index rb) < rb_n rb" "rb_len rb \<le> rb_n rb"
    "unat (read_index rb) \<le> unat (write_index rb) + (if read_mirror rb = write_mirror rb then 0 else rb_n rb)"
    "read_mirror rb \<noteq> write_mirror rb \<Longrightarrow> unat (write_index rb) \<le> unat (read_index rb)"
  using assms sint_lt [of "buffer_size rb"]
  by (auto simp: rb_ok_def rb_n_def rb_len_def word_le_nat_alt nat_less_iff split: if_splits)

lemma scast_size: "rb_ok rb \<Longrightarrow> (scast (buffer_size rb) :: u32) = of_nat (rb_n rb)"
  using rb_okD(3) [of rb] by (simp add: scast_eq)

lemma data_len_eq: "rb_ok rb \<Longrightarrow> rt_ringbuffer_data_len rb = of_nat (rb_len rb)"
proof -
  assume ok: "rb_ok rb"
  note d = rb_okD [OF ok]
  have u: "(ucast x :: u32) = of_nat (unat x)" for x :: "15 word" by simp
  note defs = rt_ringbuffer_data_len_def rt_ringbuffer_status_def rb_len_def scast_size [OF ok]
  show ?thesis
  proof (cases "read_index rb = write_index rb")
    case True
    then show ?thesis unfolding defs by simp
  next
    case ne: False
    then have ne': "unat (read_index rb) \<noteq> unat (write_index rb)" by (simp add: word_unat_eq_iff)
    show ?thesis
    proof (cases "read_mirror rb = write_mirror rb")
      case True
      then have "read_index rb \<le> write_index rb" using ok by (simp add: rb_ok_def)
      then show ?thesis using True ne ne' unfolding defs u by (simp add: word_less_nat_alt word_le_nat_alt)
    next
      case False
      then have "write_index rb \<le> read_index rb" using ok by (simp add: rb_ok_def)
      then show ?thesis using False ne ne' d(5) unfolding defs u by (simp add: word_less_nat_alt word_le_nat_alt algebra_simps)
    qed
  qed
qed

lemma space_len_eq:
  assumes "rb_ok rb"
  shows "rt_ringbuffer_space_len rb = of_nat (rb_n rb - rb_len rb)"
  using rb_okD(7) [OF assms] unfolding rt_ringbuffer_space_len_def data_len_eq [OF assms] scast_size [OF assms] by simp

text \<open>A write of consecutive bytes around the array, and the step of an index with its mirror.\<close>

definition adv :: "nat \<Rightarrow> nat \<Rightarrow> 1 word \<times> 15 word \<Rightarrow> 1 word \<times> 15 word" where
  "adv n k = (\<lambda>(m, i). if unat i + k < n then (m, of_nat (unat i + k)) else (NOT m, of_nat (unat i + k - n)))"

lemma adv_0: "unat i < n \<Longrightarrow> adv n 0 (m, i) = (m, i)"
  by (simp add: adv_def)

lemma adv_unat:
  assumes "unat i < n" "k \<le> n" "n < 2 ^ 15" "adv n k (m, i) = (m', i')"
  shows "unat i' = (unat i + k) mod n" "(m' = m \<longrightarrow> unat i' = unat i + k) \<and> (m' \<noteq> m \<longrightarrow> unat i' + n = unat i + k)"
proof -
  have v: "unat (of_nat j :: 15 word) = j" if "j < n" for j using that assms(3) by (simp add: unat_of_nat)
  show "unat i' = (unat i + k) mod n" "(m' = m \<longrightarrow> unat i' = unat i + k) \<and> (m' \<noteq> m \<longrightarrow> unat i' + n = unat i + k)"
    using assms v [of "unat i + k"] v [of "unat i + k - n"] by (auto simp: adv_def le_mod_geq split: if_splits)
qed

lemma adv_add:
  assumes "unat i < n" "j + k \<le> n" "n < 2 ^ 15"
  shows "adv n k (adv n j (m, i)) = adv n (j + k) (m, i)"
proof -
  have v: "unat (of_nat j :: 15 word) = j" if "j < n" for j using that assms(3) by (simp add: unat_of_nat)
  show ?thesis
  proof (cases "unat i + j < n")
    case True
    then show ?thesis using assms v [OF True] by (auto simp: adv_def add.assoc simp del: of_nat_add)
  next
    case False
    then have "unat i + j - n < n" using assms(1,2) by linarith
    then show ?thesis using assms False v [of "unat i + j - n"] by (auto simp: adv_def add.assoc simp del: of_nat_add of_nat_diff)
  qed
qed

text \<open>The buffer after storing \<open>xs\<close>, and after fetching \<open>k\<close> bytes.\<close>

definition rb_stored :: "u8 list \<Rightarrow> rt_ringbuffer \<Rightarrow> rt_ringbuffer" where
  "rb_stored xs rb =
     (let (m, i) = adv (rb_n rb) (length xs) (write_mirror rb, write_index rb)
      in rb\<lparr>rb_pool := ring_write (rb_n rb) (unat (write_index rb)) xs (rb_pool rb), write_mirror := m, write_index := i\<rparr>)"

definition rb_fetched :: "nat \<Rightarrow> rt_ringbuffer \<Rightarrow> rt_ringbuffer" where
  "rb_fetched k rb =
     (let (m, i) = adv (rb_n rb) k (read_mirror rb, read_index rb) in rb\<lparr>read_mirror := m, read_index := i\<rparr>)"

lemma rb_stored_nil: "rb_ok rb \<Longrightarrow> rb_stored [] rb = rb"
  using rb_okD(6) [of rb] by (simp add: rb_stored_def adv_0)

lemma rb_stored_append:
  assumes "rb_ok rb" "length xs + length ys \<le> rb_n rb"
  shows "rb_stored ys (rb_stored xs rb) = rb_stored (xs @ ys) rb"
proof -
  note d = rb_okD [OF assms(1)]
  obtain m i where mi: "adv (rb_n rb) (length xs) (write_mirror rb, write_index rb) = (m, i)" by fastforce
  have u: "unat i = (unat (write_index rb) + length xs) mod rb_n rb"
    using adv_unat(1) [OF d(6) _ d(2) mi] assms(2) by simp
  have n: "rb_n (rb\<lparr>rb_pool := p, write_mirror := m, write_index := i\<rparr>) = rb_n rb" for p by (simp add: rb_n_def)
  have "adv (rb_n rb) (length ys) (m, i) = adv (rb_n rb) (length xs + length ys) (write_mirror rb, write_index rb)"
    using adv_add [OF d(6) assms(2) d(2)] mi by metis
  then show ?thesis using u d(6) by (simp add: rb_stored_def mi n ring_write_append split: prod.splits)
qed

lemma rb_stored_contents:
  assumes "rb_ok rb" "rb_len rb + length xs \<le> rb_n rb"
  shows "rb_ok (rb_stored xs rb)" "rb_contents (rb_stored xs rb) = rb_contents rb @ xs"
    "rb_n (rb_stored xs rb) = rb_n rb" "rb_len (rb_stored xs rb) = rb_len rb + length xs"
proof -
  note d = rb_okD [OF assms(1)]
  obtain m i where mi: "adv (rb_n rb) (length xs) (write_mirror rb, write_index rb) = (m, i)" by fastforce
  have k: "length xs \<le> rb_n rb" using assms(2) by simp
  note u = adv_unat [OF d(6) k d(2) mi]
  let ?rb = "rb_stored xs rb"
  have f: "read_mirror ?rb = read_mirror rb" "read_index ?rb = read_index rb" "write_mirror ?rb = m" "write_index ?rb = i"
    "buffer_size ?rb = buffer_size rb" "rb_n ?rb = rb_n rb"
    "rb_pool ?rb = ring_write (rb_n rb) (unat (write_index rb)) xs (rb_pool rb)"
    unfolding rb_stored_def mi by (simp_all add: rb_n_def)
  show "rb_n ?rb = rb_n rb" by (rule f)
  have w: "unat (write_index rb) = (unat (read_index rb) + rb_len rb) mod rb_n rb"
    using d(5,6,8) by (auto simp: rb_len_def split: if_splits)
  have u3: "unat i < rb_n rb" using u(1) d(1) by simp
  have wrap: "read_mirror rb = write_mirror rb" if "m \<noteq> write_mirror rb"
  proof (rule ccontr)
    assume "read_mirror rb \<noteq> write_mirror rb"
    then show False using u(2) that d(8) assms(2) d(5,6) u3 unfolding rb_len_def by simp
  qed
  show l: "rb_len ?rb = rb_len rb + length xs"
    using u(2) wrap d(8) assms(2) unfolding rb_len_def f by (cases "m = write_mirror rb") (simp_all split: if_splits)
  have "if read_mirror rb = m then read_index rb \<le> i else i \<le> read_index rb"
    using u(2) wrap d(8) assms(2) unfolding rb_len_def word_le_nat_alt
    by (cases "m = write_mirror rb") (auto split: if_splits)
  then show "rb_ok ?rb" using assms(1) d(1,4) u3 d(5) unfolding rb_ok_def f by (simp add: rb_n_def)
  have "rb_contents ?rb = ring_contents (ring_write (rb_n rb) ((unat (read_index rb) + rb_len rb) mod rb_n rb) xs (rb_pool rb))
      (rb_n rb) (unat (read_index rb)) (rb_len rb + length xs)"
    unfolding rb_contents_def l f w [symmetric] by simp
  then show "rb_contents ?rb = rb_contents rb @ xs" using ring_write_contents [OF assms(2) d(4)] by (simp add: rb_contents_def)
qed

lemma rb_fetched_contents:
  assumes "rb_ok rb" "k \<le> rb_len rb"
  shows "rb_ok (rb_fetched k rb)" "rb_contents (rb_fetched k rb) = drop k (rb_contents rb)"
    "rb_n (rb_fetched k rb) = rb_n rb" "rb_len (rb_fetched k rb) = rb_len rb - k"
proof -
  note d = rb_okD [OF assms(1)]
  obtain m i where mi: "adv (rb_n rb) k (read_mirror rb, read_index rb) = (m, i)" by fastforce
  have k: "k \<le> rb_n rb" using assms(2) d(7) by simp
  note u = adv_unat [OF d(5) k d(2) mi]
  let ?rb = "rb_fetched k rb"
  have f: "read_mirror ?rb = m" "read_index ?rb = i" "write_mirror ?rb = write_mirror rb" "write_index ?rb = write_index rb"
    "buffer_size ?rb = buffer_size rb" "rb_n ?rb = rb_n rb" "rb_pool ?rb = rb_pool rb"
    unfolding rb_fetched_def mi by (simp_all add: rb_n_def)
  show "rb_n ?rb = rb_n rb" by (rule f)
  have u3: "unat i < rb_n rb" using u(1) d(1) by simp
  have wrap: "read_mirror rb \<noteq> write_mirror rb" if "m \<noteq> read_mirror rb"
  proof
    assume "read_mirror rb = write_mirror rb"
    then show False using u(2) that d(8) assms(2) d(5,6) u3 unfolding rb_len_def by simp
  qed
  have eq: "m = write_mirror rb" if "m \<noteq> read_mirror rb" using wrap [OF that] that not_u1 by metis
  show l: "rb_len ?rb = rb_len rb - k"
    using u(2) wrap eq d(8) assms(2) unfolding rb_len_def f by (cases "m = read_mirror rb") (auto split: if_splits)
  have "if m = write_mirror rb then i \<le> write_index rb else write_index rb \<le> i"
    using u(2) wrap eq d(6,8,9) assms(2) unfolding rb_len_def word_le_nat_alt
    by (cases "m = read_mirror rb") (auto split: if_splits)
  then show "rb_ok ?rb" using assms(1) d(4,6) u3 unfolding rb_ok_def f by (simp add: rb_n_def)
  show "rb_contents ?rb = drop k (rb_contents rb)"
    unfolding rb_contents_def l f u(1) by (rule ring_contents_drop)
qed

lemma contents_length [simp]: "length (rb_contents rb) = rb_len rb"
  by (simp add: rb_contents_def)

lemma slice_eq: "i + k \<le> length xs \<Longrightarrow> slice i (int k) xs = Some (take k (drop i xs))"
  by (simp add: slice_def)

lemma u16_of_nat: "n < 2 ^ 16 \<Longrightarrow> unat (of_nat n :: u16) = n"
  by (simp add: unat_of_nat)

text \<open>The two copies of a block transfer are one run around the array.\<close>

lemma rb_copy_in_eq:
  assumes "rb_ok rb" "k \<le> rb_n rb" "k \<le> length ptr" "unat len = k"
  shows "rb_copy_in rb ptr len = Some (rb_n rb \<le> unat (write_index rb) + k, rb_stored (take k ptr) rb)"
proof -
  note d = rb_okD [OF assms(1)]
  let ?n = "rb_n rb" and ?w = "unat (write_index rb)"
  have len: "uint len = int k" "(ucast len :: u32) = of_nat k" "(ucast len :: 15 word) = of_nat k"
    using assms(4) by auto
  have room: "write_room rb = int (?n - ?w)" using d(3,6) by (simp add: of_nat_diff)
  show ?thesis
  proof (cases "?w + k < ?n")
    case True
    have s: "slice 0 (int k) ptr = Some (take k ptr)" using slice_eq [of 0 k ptr] assms(3) by simp
    have w: "rb_write ?w (take k ptr) rb = Some (rb\<lparr>rb_pool := ring_write ?n ?w (take k ptr) (rb_pool rb)\<rparr>)"
      using True d(4) assms(3) ring_write_straight [of ?w "take k ptr" ?n "rb_pool rb"] by (simp add: rb_write_def)
    have lt: "int k < int (?n - ?w)" using True by linarith
    show ?thesis using True lt assms(3) unfolding rb_copy_in_def len room s by (simp add: w rb_stored_def adv_def)
  next
    case False
    let ?k1 = "?n - ?w"
    have k1: "?k1 \<le> k" "\<not> int k < int ?k1" using False by linarith+
    have s1: "slice 0 (int ?k1) ptr = Some (take ?k1 ptr)" using slice_eq [of 0 ?k1 ptr] assms(3) k1(1) by simp
    have s2: "slice (nat (int ?k1)) (int k - int ?k1) ptr = Some (take (k - ?k1) (drop ?k1 ptr))"
      using slice_eq [of ?k1 "k - ?k1" ptr] k1(1) assms(3) by (simp only: nat_int of_nat_diff)
    let ?p1 = "ring_write ?n ?w (take ?k1 ptr) (rb_pool rb)"
    have w1: "rb_write ?w (take ?k1 ptr) rb = Some (rb\<lparr>rb_pool := ?p1\<rparr>)"
      using d(4,6) assms(3) k1(1) ring_write_straight [of ?w "take ?k1 ptr" ?n "rb_pool rb"] by (simp add: rb_write_def)
    have w2: "rb_write 0 (take (k - ?k1) (drop ?k1 ptr)) (rb\<lparr>rb_pool := ?p1\<rparr>) =
        Some (rb\<lparr>rb_pool := ring_write ?n 0 (take (k - ?k1) (drop ?k1 ptr)) ?p1\<rparr>)"
      using d(4,6) assms(2,3) k1(1) ring_write_straight [of 0 "take (k - ?k1) (drop ?k1 ptr)" ?n ?p1] by (simp add: rb_write_def)
    have app: "ring_write ?n 0 (take (k - ?k1) (drop ?k1 ptr)) ?p1 = ring_write ?n ?w (take k ptr) (rb_pool rb)"
    proof -
      have "(?w + length (take ?k1 ptr)) mod ?n = 0" using d(6) k1(1) assms(3) by simp
      moreover have "take k ptr = take ?k1 ptr @ take (k - ?k1) (drop ?k1 ptr)" using k1(1) by (metis take_add le_add_diff_inverse)
      ultimately show ?thesis using ring_write_append [OF d(6), of "take ?k1 ptr" "take (k - ?k1) (drop ?k1 ptr)" "rb_pool rb"]
        by simp
    qed
    have idx: "(word_of_int (int k - int ?k1) :: 15 word) = of_nat (?w + k - ?n)"
      using k1(1) d(6) by (simp add: add.commute flip: of_nat_diff)
    show ?thesis using False k1(2) assms(3) unfolding rb_copy_in_def len room s1 s2 idx by (simp add: w1 w2 app rb_stored_def adv_def del: of_nat_diff)
  qed
qed

lemma ucast_nat: "n < 2 ^ 16 \<Longrightarrow> unat (ucast (of_nat n :: u32) :: u16) = n"
  by (simp add: unsigned_ucast_eq unsigned_of_nat take_bit_nat_eq_self)

lemma space_u16: "rb_ok rb \<Longrightarrow> unat (ucast (rt_ringbuffer_space_len rb) :: u16) = rb_n rb - rb_len rb"
  using space_len_eq [of rb] rb_okD(2) [of rb] by (simp add: ucast_nat del: of_nat_diff)

lemma put_eq:
  assumes "rb_ok rb" "unat len \<le> length ptr"
  shows "rt_ringbuffer_put rb ptr len =
    Some (of_nat (min (rb_n rb - rb_len rb) (unat len)), rb_stored (take (min (rb_n rb - rb_len rb) (unat len)) ptr) rb)"
proof -
  let ?s = "ucast (rt_ringbuffer_space_len rb) :: u16"
  have s: "unat ?s = rb_n rb - rb_len rb" by (rule space_u16 [OF assms(1)])
  define l where "l = (if ?s < len then ?s else len)"
  have l: "unat l = min (rb_n rb - rb_len rb) (unat len)" using s by (auto simp: l_def word_less_nat_alt)
  show ?thesis
  proof (cases "?s = 0")
    case True
    then show ?thesis using s rb_stored_nil [OF assms(1)] by (simp add: rt_ringbuffer_put_def)
  next
    case False
    have "rb_copy_in rb ptr l = Some (rb_n rb \<le> unat (write_index rb) + unat l, rb_stored (take (unat l) ptr) rb)"
      by (rule rb_copy_in_eq [OF assms(1)]) (use l assms(2) in auto)
    moreover have "(ucast l :: u32) = of_nat (unat l)" by simp
    ultimately show ?thesis using False unfolding rt_ringbuffer_put_def Let_def l_def [symmetric] l by simp
  qed
qed

lemma get_eq:
  assumes "rb_ok rb"
  shows "rt_ringbuffer_get rb len =
    Some (of_nat (min (rb_len rb) (unat len)), take (unat len) (rb_contents rb), rb_fetched (min (rb_len rb) (unat len)) rb)"
proof -
  note d = rb_okD [OF assms]
  let ?n = "rb_n rb" and ?r = "unat (read_index rb)" and ?s = "rt_ringbuffer_data_len rb"
  define k where "k = min (rb_len rb) (unat len)"
  have s: "?s = of_nat (rb_len rb)" "unat ?s = rb_len rb" using data_len_eq [OF assms] d(2,7) by (simp_all add: unat_of_nat)
  define l where "l = (if ?s < ucast len then ucast ?s else len)"
  have "unat len < 2 ^ 32" by (rule order_less_le_trans [OF unsigned_less]) simp
  then have ul: "unat (ucast len :: u32) = unat len" by (simp add: unsigned_ucast_eq take_bit_nat_eq_self)
  have "unat (ucast ?s :: u16) = rb_len rb" unfolding s(1) using d(2,7) by (intro ucast_nat) simp
  then have l: "unat l = k" using s(2) ul by (auto simp: l_def k_def word_less_nat_alt)
  have len: "uint l = int k" "(ucast l :: u32) = of_nat k" "(ucast l :: 15 word) = of_nat k"
    unfolding l [symmetric] by simp_all
  have room: "read_room rb = int (?n - ?r)" using d(3,5) by (simp add: of_nat_diff)
  have kn: "k \<le> ?n" "k \<le> rb_len rb" using d(7) by (simp_all add: k_def)
  have c: "take (unat len) (rb_contents rb) = ring_contents (rb_pool rb) ?n ?r k"
    unfolding rb_contents_def k_def by (cases "unat len \<le> rb_len rb") (simp_all add: ring_contents_take)
  show ?thesis
  proof (cases "?s = 0")
    case True
    then have "k = 0" using s(2) by (simp add: k_def)
    then show ?thesis using True c adv_0 [OF d(5)] unfolding k_def [symmetric]
      by (simp add: rt_ringbuffer_get_def rb_fetched_def)
  next
    case False
    show ?thesis
    proof (cases "?r + k < ?n")
      case True
      have lt: "int k < int (?n - ?r)" using True by linarith
      have sl: "slice ?r (int k) (rb_pool rb) = Some (ring_contents (rb_pool rb) ?n ?r k)"
        using slice_eq [of ?r k "rb_pool rb"] ring_contents_straight [of ?r k ?n "rb_pool rb"] True d(4) by simp
      show ?thesis using False lt True unfolding rt_ringbuffer_get_def Let_def l_def [symmetric] len room sl c k_def [symmetric]
        by (simp add: rb_fetched_def adv_def)
    next
      case wrap: False
      let ?k1 = "?n - ?r"
      have k1: "?k1 \<le> k" "\<not> int k < int ?k1" using wrap by linarith+
      have sl1: "slice ?r (int ?k1) (rb_pool rb) = Some (ring_contents (rb_pool rb) ?n ?r ?k1)"
        using slice_eq [of ?r ?k1 "rb_pool rb"] ring_contents_straight [of ?r ?k1 ?n "rb_pool rb"] d(4,5) by simp
      have sl2: "slice 0 (int k - int ?k1) (rb_pool rb) = Some (ring_contents (rb_pool rb) ?n 0 (k - ?k1))"
        using slice_eq [of 0 "k - ?k1" "rb_pool rb"] ring_contents_straight [of 0 "k - ?k1" ?n "rb_pool rb"] k1(1) kn(1) d(4,5)
        by (simp only: of_nat_diff)
      have idx: "(word_of_int (int k - int ?k1) :: 15 word) = of_nat (?r + k - ?n)"
        using k1(1) d(5) by (simp add: add.commute flip: of_nat_diff)
      have "ring_contents (rb_pool rb) ?n 0 (k - ?k1) = drop ?k1 (ring_contents (rb_pool rb) ?n ?r k)"
        using ring_contents_drop [of "rb_pool rb" ?n ?r ?k1 k] d(5) by simp
      moreover have "ring_contents (rb_pool rb) ?n ?r ?k1 = take ?k1 (ring_contents (rb_pool rb) ?n ?r k)"
        by (rule ring_contents_take [OF k1(1), symmetric])
      ultimately have "ring_contents (rb_pool rb) ?n ?r ?k1 @ ring_contents (rb_pool rb) ?n 0 (k - ?k1) =
          ring_contents (rb_pool rb) ?n ?r k" by (simp only: append_take_drop_id)
      then show ?thesis using False k1(2) wrap
        unfolding rt_ringbuffer_get_def Let_def l_def [symmetric] len room sl1 sl2 idx c k_def [symmetric]
        by (simp add: rb_fetched_def adv_def del: of_nat_diff)
    qed
  qed
qed

lemma last_index:
  assumes "unat i < rb_n rb" "rb_ok rb"
  shows "(uint i = sint (buffer_size rb) - 1) = (\<not> unat i + 1 < rb_n rb)"
proof -
  have "uint i = int (unat i)" by simp
  then show ?thesis using assms(1) unfolding rb_okD(3) [OF assms(2)] by linarith
qed

lemma putchar_eq:
  assumes "rb_ok rb"
  shows "rt_ringbuffer_putchar rb c = (if rb_len rb = rb_n rb then Some (0, rb) else Some (1, rb_stored [c] rb))"
proof -
  note d = rb_okD [OF assms]
  have "unat (rt_ringbuffer_space_len rb) = rb_n rb - rb_len rb"
    using space_len_eq [OF assms] d(2) by (simp add: unat_of_nat del: of_nat_diff)
  then have z: "(rt_ringbuffer_space_len rb = 0) = (rb_len rb = rb_n rb)" using d(7) by (auto simp: word_unat_eq_iff)
  have w: "rb_write (unat (write_index rb)) [c] rb = Some (rb\<lparr>rb_pool := (rb_pool rb)[unat (write_index rb) := c]\<rparr>)"
    using d(4,6) by (simp add: rb_write_def upd_conv_take_nth_drop)
  have n: "unat (write_index rb) + 1 - rb_n rb = 0" if "\<not> unat (write_index rb) + 1 < rb_n rb" using that d(6) by simp
  show ?thesis using z n d(6) unfolding rt_ringbuffer_putchar_def w last_index [OF d(6) assms]
    by (auto simp: rb_stored_def adv_def)
qed

lemma getchar_eq:
  assumes "rb_ok rb"
  shows "rt_ringbuffer_getchar rb =
    (if rb_len rb = 0 then Some (0, None, rb) else Some (1, Some (hd (rb_contents rb)), rb_fetched 1 rb))"
proof -
  note d = rb_okD [OF assms]
  have "unat (rt_ringbuffer_data_len rb) = rb_len rb" using data_len_eq [OF assms] d(2,7) by (simp add: unat_of_nat)
  then have z: "(rt_ringbuffer_data_len rb = 0) = (rb_len rb = 0)" by (simp add: word_unat_eq_iff)
  have h: "hd (rb_contents rb) = rb_pool rb ! unat (read_index rb)" if "rb_len rb \<noteq> 0"
    using that d(5) by (simp add: rb_contents_def ring_contents_def hd_map)
  have w: "slice (unat (read_index rb)) 1 (rb_pool rb) = Some [rb_pool rb ! unat (read_index rb)]"
    using d(4,5) by (simp add: slice_def take_Suc_conv_app_nth [of 0, simplified] hd_drop_conv_nth take_Suc)
  have n: "unat (read_index rb) + 1 - rb_n rb = 0" if "\<not> unat (read_index rb) + 1 < rb_n rb" using that d(5) by simp
  show ?thesis using z n d(5) h unfolding rt_ringbuffer_getchar_def w last_index [OF d(5) assms]
    by (auto simp: rb_fetched_def adv_def)
qed

section \<open>Forced puts\<close>

lemma rb_full:
  assumes "rb_ok rb" "rb_len rb = rb_n rb"
  shows "read_index rb = write_index rb" "read_mirror rb \<noteq> write_mirror rb"
  using rb_okD [OF assms(1)] assms(2) by (auto simp: rb_len_def word_unat_eq_iff split: if_splits)

lemma rb_not_full:
  assumes "rb_ok rb" "rb_len rb \<noteq> rb_n rb"
  shows "rt_ringbuffer_status rb \<noteq> RT_RINGBUFFER_FULL"
  using assms(2) by (auto simp: rt_ringbuffer_status_def rb_len_def)

lemma rb_stored_sel:
  "read_mirror (rb_stored xs rb) = read_mirror rb" "read_index (rb_stored xs rb) = read_index rb"
  "write_mirror (rb_stored xs rb) = (if unat (write_index rb) + length xs < rb_n rb then write_mirror rb else NOT (write_mirror rb))"
  by (auto simp: rb_stored_def adv_def split: prod.splits)

lemma rb_stored_fetched:
  "\<exists>m i. rb_stored xs (rb_fetched k rb) = (rb_stored xs rb)\<lparr>read_mirror := m, read_index := i\<rparr>"
proof -
  obtain m i where mi: "adv (rb_n rb) k (read_mirror rb, read_index rb) = (m, i)" by fastforce
  obtain m' i' where mi': "adv (rb_n rb) (length xs) (write_mirror rb, write_index rb) = (m', i')" by fastforce
  have n: "rb_n (rb\<lparr>read_mirror := m, read_index := i\<rparr>) = rb_n rb" by (simp add: rb_n_def)
  have f: "rb_fetched k rb = rb\<lparr>read_mirror := m, read_index := i\<rparr>" unfolding rb_fetched_def mi by simp
  have "rb_stored xs (rb_fetched k rb) = (rb_stored xs rb)\<lparr>read_mirror := m, read_index := i\<rparr>"
    unfolding f rb_stored_def n by (simp add: mi')
  then show ?thesis by blast
qed

text \<open>Making room for \<open>xs\<close> by dropping the oldest bytes moves the read position to the write position.\<close>

lemma rb_overwrite:
  assumes "rb_ok rb" "length xs \<le> rb_n rb" "rb_n rb < rb_len rb + length xs"
  defines "rb1 \<equiv> rb_stored xs rb" and "d \<equiv> rb_len rb + length xs - rb_n rb"
  shows "rb_stored xs (rb_fetched d rb) = rb1\<lparr>read_mirror := NOT (write_mirror rb1), read_index := write_index rb1\<rparr>"
    "rb_ok (rb_stored xs (rb_fetched d rb))"
    "rb_contents (rb_stored xs (rb_fetched d rb)) = drop d (rb_contents rb @ xs)"
proof -
  note d = rb_okD [OF assms(1)]
  have dl: "d \<le> rb_len rb" using assms(2) by (simp add: d_def)
  note f = rb_fetched_contents [OF assms(1) dl]
  have l: "rb_len (rb_fetched d rb) + length xs = rb_n (rb_fetched d rb)"
    using f(3,4) assms(2,3) d(7) by (simp add: d_def)
  note s = rb_stored_contents [OF f(1) eq_refl [OF l]]
  show "rb_ok (rb_stored xs (rb_fetched d rb))" by (rule s(1))
  show "rb_contents (rb_stored xs (rb_fetched d rb)) = drop d (rb_contents rb @ xs)" using s(2) f(2) dl by simp
  obtain m i where mi: "rb_stored xs (rb_fetched d rb) = rb1\<lparr>read_mirror := m, read_index := i\<rparr>"
    using rb_stored_fetched unfolding rb1_def by blast
  have "i = write_index rb1" "m \<noteq> write_mirror rb1" using rb_full [OF s(1)] s(3,4) l unfolding mi by simp_all
  then show "rb_stored xs (rb_fetched d rb) = rb1\<lparr>read_mirror := NOT (write_mirror rb1), read_index := write_index rb1\<rparr>"
    using mi by simp
qed

text \<open>The bytes that a forced put keeps of \<open>len\<close> bytes at \<open>ptr\<close>: the newest that fit the buffer.\<close>

definition force_bytes :: "rt_ringbuffer \<Rightarrow> u8 list \<Rightarrow> nat \<Rightarrow> u8 list" where
  "force_bytes rb ptr len = take (min (rb_n rb) len) (drop (len - rb_n rb) ptr)"

lemma put_force_eq:
  assumes "rb_ok rb" "unat len \<le> length ptr"
  defines "xs \<equiv> force_bytes rb ptr (unat len)"
  shows "rt_ringbuffer_put_force rb ptr len = Some (of_nat (length xs),
    if rb_n rb < rb_len rb + length xs
    then (rb_stored xs rb)\<lparr>read_mirror := (if rb_n rb \<le> unat (write_index rb) + length xs then NOT (read_mirror rb) else read_mirror rb),
           read_index := write_index (rb_stored xs rb)\<rparr>
    else rb_stored xs rb)" "length xs = min (rb_n rb) (unat len)"
proof -
  note d = rb_okD [OF assms(1)]
  let ?over = "uint len > sint (buffer_size rb)"
  define p where "p = (if ?over then drop (nat (uint len - sint (buffer_size rb))) ptr else ptr)"
  define l where "l = (if ?over then buffer_size rb else len)"
  have len: "uint len = int (unat len)" by simp
  have bs: "unat (buffer_size rb) = rb_n rb"
  proof -
    have "buffer_size rb = word_of_int (sint (buffer_size rb))" by simp
    then have "buffer_size rb = of_nat (rb_n rb)" unfolding d(3) by simp
    then show ?thesis using d(2) by (simp add: u16_of_nat)
  qed
  have ov: "?over = (rb_n rb < unat len)" "nat (uint len - sint (buffer_size rb)) = unat len - rb_n rb"
    unfolding d(3) using len by linarith+
  have l: "unat l = min (rb_n rb) (unat len)" by (auto simp: l_def ov bs)
  have p: "p = drop (unat len - rb_n rb) ptr" by (auto simp: p_def ov)
  show xl: "length xs = min (rb_n rb) (unat len)" using assms(2) by (simp add: xs_def force_bytes_def)
  have xs: "xs = take (unat l) p" by (simp add: xs_def force_bytes_def l p)
  have c: "rb_copy_in rb p l = Some (rb_n rb \<le> unat (write_index rb) + length xs, rb_stored xs rb)"
    using rb_copy_in_eq [OF assms(1), of "unat l" p l] assms(2) l p xl xs by simp
  have ul: "(ucast l :: u32) = of_nat (length xs)" using l xl by (metis of_nat_unat)
  have sp: "(ucast (rt_ringbuffer_space_len rb) < l) = (rb_n rb < rb_len rb + length xs)"
    using space_u16 [OF assms(1)] l xl d(7) by (auto simp: word_less_nat_alt)
  show "rt_ringbuffer_put_force rb ptr len = Some (of_nat (length xs),
    if rb_n rb < rb_len rb + length xs
    then (rb_stored xs rb)\<lparr>read_mirror := (if rb_n rb \<le> unat (write_index rb) + length xs then NOT (read_mirror rb) else read_mirror rb),
           read_index := write_index (rb_stored xs rb)\<rparr>
    else rb_stored xs rb)"
    unfolding rt_ringbuffer_put_force_def Let_def p_def [symmetric] l_def [symmetric] c ul sp by simp
qed

lemma put_force_result:
  assumes "rb_ok rb" "unat len \<le> length ptr" "rb_len rb + min (rb_n rb) (unat len) \<le> rb_n rb \<or> read_mirror rb \<noteq> write_mirror rb"
  defines "xs \<equiv> force_bytes rb ptr (unat len)"
  shows "\<exists>rb'. rt_ringbuffer_put_force rb ptr len = Some (of_nat (length xs), rb') \<and> rb_ok rb' \<and> rb_n rb' = rb_n rb \<and>
    rb_contents rb' = drop (rb_len rb + length xs - rb_n rb) (rb_contents rb @ xs)"
proof (cases "rb_n rb < rb_len rb + length xs")
  case True
  note e = put_force_eq [OF assms(1,2), folded xs_def]
  have ne: "read_mirror rb \<noteq> write_mirror rb" using assms(3) True e(2) by auto
  let ?rb1 = "rb_stored xs rb"
  have "length xs \<le> rb_n rb" using e(2) by simp
  note o = rb_overwrite [OF assms(1) this True]
  have m: "(if rb_n rb \<le> unat (write_index rb) + length xs then NOT (read_mirror rb) else read_mirror rb) = NOT (write_mirror ?rb1)"
    using ne unfolding rb_stored_sel by (auto simp: not_le)
  have "rb_n (rb_stored xs (rb_fetched (rb_len rb + length xs - rb_n rb) rb)) = rb_n rb"
    unfolding o(1) by (simp add: rb_n_def rb_stored_def split: prod.splits)
  then show ?thesis using e(1) True o(1-3) unfolding m by auto
next
  case False
  note e = put_force_eq [OF assms(1,2), folded xs_def]
  have l: "rb_len rb + length xs \<le> rb_n rb" using False by simp
  show ?thesis using e(1) False rb_stored_contents [OF assms(1) l] by simp
qed

text \<open>
  The case that the code misses: read and write position carry the same mirror bit. A wrap then flips both
  bits, and the buffer that should be full counts as empty.
\<close>

lemma put_force_loses_all:
  assumes "rb_ok rb" "unat len \<le> length ptr" "read_mirror rb = write_mirror rb" "rb_n rb < rb_len rb + min (rb_n rb) (unat len)"
  shows "\<exists>rb'. rt_ringbuffer_put_force rb ptr len = Some (of_nat (min (rb_n rb) (unat len)), rb') \<and> rb_contents rb' = []"
proof -
  define xs where "xs = force_bytes rb ptr (unat len)"
  note e = put_force_eq [OF assms(1,2), folded xs_def]
  note d = rb_okD [OF assms(1)]
  let ?rb1 = "rb_stored xs rb"
  have w: "rb_n rb \<le> unat (write_index rb) + length xs" using assms(3,4) e(2) by (simp add: rb_len_def)
  have m: "write_mirror ?rb1 = NOT (read_mirror rb)" using w assms(3) by (simp add: rb_stored_sel)
  have o: "rb_n rb < rb_len rb + length xs" using assms(4) e(2) by simp
  then have "rb_contents (?rb1\<lparr>read_mirror := NOT (read_mirror rb), read_index := write_index ?rb1\<rparr>) = []"
    using m by (simp add: rb_contents_def rb_len_def)
  then show ?thesis using e w o by auto
qed

lemma putchar_force_eq:
  assumes "rb_ok rb"
  shows "\<exists>rb'. rt_ringbuffer_putchar_force rb c = Some (1, rb') \<and> rb_ok rb' \<and> rb_n rb' = rb_n rb \<and>
    rb_contents rb' = drop (rb_len rb + 1 - rb_n rb) (rb_contents rb @ [c])"
proof -
  note d = rb_okD [OF assms]
  let ?w = "unat (write_index rb)" and ?rb1 = "rb_stored [c] rb"
  have w: "rb_write ?w [c] rb = Some (rb\<lparr>rb_pool := (rb_pool rb)[?w := c]\<rparr>)"
    using d(4,6) by (simp add: rb_write_def upd_conv_take_nth_drop)
  have n: "?w + 1 - rb_n rb = 0" if "\<not> ?w + 1 < rb_n rb" using that d(6) by simp
  have st: "rt_ringbuffer_status rb = RT_RINGBUFFER_FULL \<longleftrightarrow> rb_len rb = rb_n rb"
    using rb_full [OF assms] rb_not_full [OF assms] by (cases "rb_len rb = rb_n rb") (simp_all add: rt_ringbuffer_status_def)
  show ?thesis
  proof (cases "rb_len rb = rb_n rb")
    case True
    note f = rb_full [OF assms True]
    have g: "rb_n rb < rb_len rb + length [c]" "length [c] \<le> rb_n rb" using True d(1) by simp_all
    note o = rb_overwrite [OF assms g(2,1)]
    have nn: "rb_n (rb_stored [c] (rb_fetched (rb_len rb + length [c] - rb_n rb) rb)) = rb_n rb"
      unfolding o(1) by (simp add: rb_n_def rb_stored_def split: prod.splits)
    have "rt_ringbuffer_putchar_force rb c =
        Some (1, ?rb1\<lparr>read_mirror := NOT (write_mirror ?rb1), read_index := write_index ?rb1\<rparr>)"
      using True st n f(2) d(6) unfolding rt_ringbuffer_putchar_force_def w last_index [OF d(6) assms]
      by (auto simp: rb_stored_def adv_def Let_def)
    then show ?thesis using o nn by auto
  next
    case False
    then have l: "rb_len rb + length [c] \<le> rb_n rb" using d(7) by simp
    have "rt_ringbuffer_putchar_force rb c = Some (1, ?rb1)"
      using False st n d(6) unfolding rt_ringbuffer_putchar_force_def w last_index [OF d(6) assms]
      by (auto simp: rb_stored_def adv_def Let_def)
    then show ?thesis using rb_stored_contents [OF assms l] l by simp
  qed
qed

section \<open>The interface\<close>

definition rb_try_put :: "u8 \<Rightarrow> rt_ringbuffer \<Rightarrow> rt_ringbuffer option" where
  "rb_try_put c rb = do { (n, rb1) \<leftarrow> rt_ringbuffer_putchar rb c; if n = 0 then None else Some rb1 }"

definition rb_try_get :: "rt_ringbuffer \<Rightarrow> (u8 \<times> rt_ringbuffer) option" where
  "rb_try_get rb = do { (n, c, rb1) \<leftarrow> rt_ringbuffer_getchar rb; c1 \<leftarrow> c; Some (c1, rb1) }"

interpretation ringbuf: bounded_fifo rb_ok "\<lambda>_ _. True" rb_contents rb_n rb_try_put rb_try_get
proof (unfold_locales, goal_cases)
  case (1 rb)
  then show ?case using rb_okD(7) by simp
next
  case (2 rb c)
  then show ?case using putchar_eq [OF 2(1), of c] by (simp add: rb_try_put_def)
next
  case (4 rb c)
  then have l: "rb_len rb + length [c] \<le> rb_n rb" by simp
  then show ?case using putchar_eq [OF 4(1), of c] rb_stored_contents [OF 4(1) l] by (simp add: rb_try_put_def)
next
  case (5 rb)
  then have "rb_len rb = 0" using contents_length [of rb] by simp
  then show ?case using getchar_eq [OF 5(1)] by (simp add: rb_try_get_def)
next
  case (6 rb c cs)
  then have l: "1 \<le> rb_len rb" using contents_length [of rb] by (simp del: contents_length)
  then show ?case using getchar_eq [OF 6(1)] rb_fetched_contents [OF 6(1) l] 6(2) by (simp add: rb_try_get_def)
qed simp

end
