(* ===== verification/Driver_Props.thy ===== *)
theory Driver_Props
  imports Ringbuffer
begin

text \<open>
  The properties of the buffers of the device framework: the byte ring buffer.
\<close>

section \<open>The ring buffer\<close>

fun putchars :: "u8 list \<Rightarrow> rt_ringbuffer \<Rightarrow> (u32 \<times> rt_ringbuffer) option" where
  "putchars [] rb = Some (0, rb)"
| "putchars (c # cs) rb = do {
     (n, rb1) \<leftarrow> rt_ringbuffer_putchar rb c;
     (m, rb2) \<leftarrow> putchars cs rb1;
     Some (n + m, rb2) }"

lemma putchars_eq:
  "rb_ok rb \<Longrightarrow> putchars xs rb = Some (of_nat (min (rb_n rb - rb_len rb) (length xs)),
     rb_stored (take (rb_n rb - rb_len rb) xs) rb)"
proof (induction xs arbitrary: rb)
  case Nil
  then show ?case by (simp add: rb_stored_nil)
next
  case (Cons c cs)
  show ?case
  proof (cases "rb_len rb = rb_n rb")
    case True
    then show ?thesis using putchar_eq [OF Cons.prems, of c] Cons.IH [OF Cons.prems] by simp
  next
    case False
    let ?rb1 = "rb_stored [c] rb" and ?s = "rb_n rb - rb_len rb"
    have l: "rb_len rb + length [c] \<le> rb_n rb" using False rb_okD(7) [OF Cons.prems] by simp
    note s = rb_stored_contents [OF Cons.prems l]
    have k: "?s = Suc (rb_n rb - rb_len ?rb1)" using s(4) l by simp
    have "rb_stored (take (rb_n rb - rb_len ?rb1) cs) ?rb1 = rb_stored (take ?s (c # cs)) rb"
      using rb_stored_append [OF Cons.prems, of "[c]" "take (rb_n rb - rb_len ?rb1) cs"] k by simp
    then show ?thesis using putchar_eq [OF Cons.prems, of c] False Cons.IH [OF s(1)] s(3) k by simp
  qed
qed

definition demo_ring :: "15 word \<Rightarrow> rt_ringbuffer" where
  "demo_ring i = \<lparr>rb_ptr = 4096, rb_pool = [0, 0, 0, 0, 0, 0, 0, 0], read_mirror = 0, read_index = i, write_mirror = 0,
     write_index = i, buffer_size = 8\<rparr>"

lemma demo_ring_ok: "rb_ok (demo_ring 6)" "rb_n (demo_ring 6) = 8" "rb_len (demo_ring 6) = 0"
  by (simp_all add: demo_ring_def rb_ok_def rb_n_def rb_len_def)

text \<open>A block put is the same as putting its bytes one at a time: the same number of bytes is accepted, and the
  buffer, its indices and its mirror bits are the same afterwards.\<close>

theorem ringbuffer_put_is_putchars:
  assumes "rb_ok rb" "length xs < 2 ^ 16"
  shows "rt_ringbuffer_put rb xs (of_nat (length xs)) = putchars xs rb"
proof -
  have u: "unat (of_nat (length xs) :: u16) = length xs" by (rule u16_of_nat [OF assms(2)])
  have "take (min (rb_n rb - rb_len rb) (length xs)) xs = take (rb_n rb - rb_len rb) xs" by (simp add: min_def)
  then show ?thesis using put_eq [OF assms(1), of "of_nat (length xs)" xs] putchars_eq [OF assms(1), of xs] u by simp
qed

theorem ringbuffer_put_is_putchars_witness:
  "rt_ringbuffer_put (demo_ring 6) [1, 2, 3, 4] 4 = putchars [1, 2, 3, 4] (demo_ring 6)"
  using ringbuffer_put_is_putchars [OF demo_ring_ok(1), of "[1, 2, 3, 4]"] by simp

text \<open>C23: What is put is read back: after a put that fits, a get of everything returns the bytes that were in the buffer
  followed by those that were put, and empties the buffer.\<close>

theorem ringbuffer_roundtrip:
  assumes "rb_ok rb" "rb_len rb + length xs \<le> rb_n rb"
  shows "\<exists>rb1 rb2. rt_ringbuffer_put rb xs (of_nat (length xs)) = Some (of_nat (length xs), rb1) \<and>
    rt_ringbuffer_get rb1 (of_nat (rb_len rb + length xs)) = Some (of_nat (rb_len rb + length xs), rb_contents rb @ xs, rb2) \<and>
    rb_ok rb2 \<and> rb_contents rb2 = []"
proof -
  have n: "rb_n rb < 2 ^ 16" using rb_okD(2) [OF assms(1)] by simp
  have u: "unat (of_nat (length xs) :: u16) = length xs" "unat (of_nat (rb_len rb + length xs) :: u16) = rb_len rb + length xs"
    using assms(2) n by (simp_all add: u16_of_nat del: of_nat_add)
  note s = rb_stored_contents [OF assms]
  have p: "rt_ringbuffer_put rb xs (of_nat (length xs)) = Some (of_nat (length xs), rb_stored xs rb)"
    using put_eq [OF assms(1), of "of_nat (length xs)" xs] u(1) assms(2) by (simp add: min_absorb2)
  have g: "rt_ringbuffer_get (rb_stored xs rb) (of_nat (rb_len rb + length xs)) =
      Some (of_nat (rb_len rb + length xs), rb_contents rb @ xs, rb_fetched (rb_len rb + length xs) (rb_stored xs rb))"
    using get_eq [OF s(1), of "of_nat (rb_len rb + length xs)"] s(2,4) u(2) by (simp del: of_nat_add)
  have "rb_len rb + length xs \<le> rb_len (rb_stored xs rb)" using s(4) by simp
  note f = rb_fetched_contents [OF s(1) this]
  show ?thesis using p g f(1,2) s(2) by simp
qed

theorem ringbuffer_roundtrip_witness:
  "\<exists>rb1 rb2. rt_ringbuffer_put (demo_ring 6) [1, 2, 3] 3 = Some (3, rb1) \<and>
    rt_ringbuffer_get rb1 3 = Some (3, [1, 2, 3], rb2) \<and> rb_ok rb2 \<and> rb_contents rb2 = []"
proof -
  have "rb_contents (demo_ring 6) = []" using demo_ring_ok(3) by (simp add: rb_contents_def)
  then show ?thesis using ringbuffer_roundtrip [OF demo_ring_ok(1), of "[1, 2, 3]"] demo_ring_ok(2,3) by simp
qed

text \<open>A forced put that fits, or whose buffer has its two mirror bits different, keeps the newest bytes: afterwards
  the buffer holds the last bytes of the old contents followed by the new ones, as many as it can hold.\<close>

theorem put_force_keeps_newest:
  assumes "rb_ok rb" "length xs < 2 ^ 16"
    "rb_len rb + length xs \<le> rb_n rb \<or> read_mirror rb \<noteq> write_mirror rb"
  shows "\<exists>n rb'. rt_ringbuffer_put_force rb xs (of_nat (length xs)) = Some (n, rb') \<and> rb_ok rb' \<and>
    rb_contents rb' = drop (rb_len rb + length xs - rb_n rb) (rb_contents rb @ xs)"
proof -
  have u: "unat (of_nat (length xs) :: u16) = length xs" by (rule u16_of_nat [OF assms(2)])
  have c: "rb_len rb + min (rb_n rb) (length xs) \<le> rb_n rb \<or> read_mirror rb \<noteq> write_mirror rb" using assms(3) by auto
  let ?f = "force_bytes rb xs (length xs)" and ?n = "rb_n rb"
  have f: "?f = drop (length xs - ?n) xs" by (simp add: force_bytes_def)
  obtain n rb' where r: "rt_ringbuffer_put_force rb xs (of_nat (length xs)) = Some (n, rb')" "rb_ok rb'"
    "rb_contents rb' = drop (rb_len rb + length ?f - ?n) (rb_contents rb @ ?f)"
    using put_force_result [OF assms(1), of "of_nat (length xs)" xs] c unfolding u by auto
  have "drop (rb_len rb + length ?f - ?n) (rb_contents rb @ ?f) = drop (rb_len rb + length xs - ?n) (rb_contents rb @ xs)"
    using rb_okD(7) [OF assms(1)] unfolding f by (cases "length xs \<le> ?n") simp_all
  then show ?thesis using r by auto
qed

theorem put_force_keeps_newest_witness:
  "\<exists>n rb'. rt_ringbuffer_put_force (demo_ring 6) [1, 2, 3] 3 = Some (n, rb') \<and> rb_ok rb' \<and> rb_contents rb' = [1, 2, 3]"
proof -
  have "rb_contents (demo_ring 6) = []" using demo_ring_ok(3) by (simp add: rb_contents_def)
  then show ?thesis using put_force_keeps_newest [OF demo_ring_ok(1), of "[1, 2, 3]"] demo_ring_ok(2,3) by simp
qed

end
