(* ===== verification/Kservice.thy ===== *)
theory Kservice
  imports Clock
begin

text \<open>
  The service functions of \<^verbatim>\<open>rt-thread/src/kservice.c\<close>: the error number of the running thread, and
  the memory and string functions that the kernel uses instead of the C library.

  The memory is a function from addresses to bytes, words are little-endian; addresses and counts are natural
  numbers (an object does not wrap around the address space, and a count is below \<open>2 ^ 31\<close>, as
  \<open>rt_memcpy\<close> keeps it in an \<open>int\<close>). \<^verbatim>\<open>char\<close> is unsigned, as in the ABI of the processor. A scan that
  looks for the end of a string is a partial function: without a terminator it does not return.

  The lemmas show that each function that works on words is the plain byte-wise one.
\<close>

type_synonym mem = "nat \<Rightarrow> u8"

section \<open>The error number\<close>

text \<open>The second component of the state is \<open>__rt_errno\<close>, used before the first thread runs and in interrupts.\<close>

definition rt_get_errno :: "kern \<times> rt_err_t \<Rightarrow> rt_err_t" where
  "rt_get_errno = (\<lambda>(s, g).
     (if rt_interrupt_get_nest s \<noteq> 0 then g
      else case rt_thread_self s of None \<Rightarrow> g | Some t \<Rightarrow> th_error (thr s t)))"

definition rt_set_errno :: "rt_err_t \<Rightarrow> kern \<times> rt_err_t \<Rightarrow> kern \<times> rt_err_t" where
  "rt_set_errno e = (\<lambda>(s, g).
     (if rt_interrupt_get_nest s \<noteq> 0 then (s, e)
      else case rt_thread_self s of None \<Rightarrow> (s, e) | Some t \<Rightarrow> (upd_thr t (\<lambda>th. th\<lparr>th_error := e\<rparr>) s, g)))"

section \<open>Memory\<close>

definition store_word :: "nat \<Rightarrow> u32 \<Rightarrow> mem \<Rightarrow> mem" where
  "store_word a w m = m(a := ucast w, a + 1 := ucast (drop_bit 8 w), a + 2 := ucast (drop_bit 16 w),
     a + 3 := ucast (drop_bit 24 w))"

definition load_word :: "nat \<Rightarrow> mem \<Rightarrow> u32" where
  "load_word a m = ucast (m a) OR push_bit 8 (ucast (m (a + 1))) OR push_bit 16 (ucast (m (a + 2))) OR
     push_bit 24 (ucast (m (a + 3)))"

fun memset_big :: "u32 \<Rightarrow> nat \<Rightarrow> nat \<Rightarrow> mem \<Rightarrow> nat \<times> nat \<times> mem" where
  "memset_big buffer a count m =
     (if count \<ge> 16
      then memset_big buffer (a + 16) (count - 16)
        (store_word (a + 12) buffer (store_word (a + 8) buffer (store_word (a + 4) buffer (store_word a buffer m))))
      else (a, count, m))"

fun memset_words :: "u32 \<Rightarrow> nat \<Rightarrow> nat \<Rightarrow> mem \<Rightarrow> nat \<times> nat \<times> mem" where
  "memset_words buffer a count m =
     (if count \<ge> 4 then memset_words buffer (a + 4) (count - 4) (store_word a buffer m) else (a, count, m))"

fun memset_bytes :: "u8 \<Rightarrow> nat \<Rightarrow> nat \<Rightarrow> mem \<Rightarrow> mem" where
  "memset_bytes d a 0 m = m"
| "memset_bytes d a (Suc count) m = memset_bytes d (a + 1) count (m(a := d))"

definition rt_memset :: "nat \<Rightarrow> u32 \<Rightarrow> nat \<Rightarrow> mem \<Rightarrow> mem" where
  "rt_memset s c count m =
     (let d = c AND 0xff;
          (a, n, m1) =
            (if \<not> count < 4 \<and> s mod 4 = 0
             then (let b = push_bit 8 d OR d;
                       buffer = b OR push_bit 16 b;
                       (a, n, m1) = memset_big buffer s count m
                   in memset_words buffer a n m1)
             else (s, count, m))
      in memset_bytes (ucast d) a n m1)"

definition copy_word :: "nat \<Rightarrow> nat \<Rightarrow> mem \<Rightarrow> mem" where
  "copy_word dst src m = store_word dst (load_word src m) m"

fun memcpy_big :: "nat \<Rightarrow> nat \<Rightarrow> nat \<Rightarrow> mem \<Rightarrow> nat \<times> nat \<times> nat \<times> mem" where
  "memcpy_big dst src len m =
     (if len \<ge> 16
      then memcpy_big (dst + 16) (src + 16) (len - 16)
        (copy_word (dst + 12) (src + 12) (copy_word (dst + 8) (src + 8)
          (copy_word (dst + 4) (src + 4) (copy_word dst src m))))
      else (dst, src, len, m))"

fun memcpy_words :: "nat \<Rightarrow> nat \<Rightarrow> nat \<Rightarrow> mem \<Rightarrow> nat \<times> nat \<times> nat \<times> mem" where
  "memcpy_words dst src len m =
     (if len \<ge> 4 then memcpy_words (dst + 4) (src + 4) (len - 4) (copy_word dst src m) else (dst, src, len, m))"

fun copy_bytes :: "nat \<Rightarrow> nat \<Rightarrow> nat \<Rightarrow> mem \<Rightarrow> mem" where
  "copy_bytes dst src 0 m = m"
| "copy_bytes dst src (Suc n) m = copy_bytes (dst + 1) (src + 1) n (m(dst := m src))"

definition rt_memcpy :: "nat \<Rightarrow> nat \<Rightarrow> nat \<Rightarrow> mem \<Rightarrow> mem" where
  "rt_memcpy dst src count m =
     (let (d, s, len, m1) =
        (if \<not> count < 16 \<and> src mod 4 = 0 \<and> dst mod 4 = 0
         then (let (d, s, len, m1) = memcpy_big dst src count m in memcpy_words d s len m1)
         else (dst, src, count, m))
      in copy_bytes d s len m1)"

text \<open>\<open>*(--tmp) = *(--s)\<close>, \<open>n\<close> times\<close>

fun copy_down :: "nat \<Rightarrow> nat \<Rightarrow> nat \<Rightarrow> mem \<Rightarrow> mem" where
  "copy_down tmp s 0 m = m"
| "copy_down tmp s (Suc n) m = copy_down (tmp - 1) (s - 1) n (m(tmp - 1 := m (s - 1)))"

definition rt_memmove :: "nat \<Rightarrow> nat \<Rightarrow> nat \<Rightarrow> mem \<Rightarrow> mem" where
  "rt_memmove dest src n m =
     (if src < dest \<and> dest < src + n then copy_down (dest + n) (src + n) n m else copy_bytes dest src n m)"

fun rt_memcmp :: "nat \<Rightarrow> nat \<Rightarrow> nat \<Rightarrow> mem \<Rightarrow> int" where
  "rt_memcmp su1 su2 0 m = 0"
| "rt_memcmp su1 su2 (Suc count) m =
     (let res = uint (m su1) - uint (m su2) in if res \<noteq> 0 then res else rt_memcmp (su1 + 1) (su2 + 1) count m)"

section \<open>Strings\<close>

partial_function (option) strlen_from :: "nat \<Rightarrow> mem \<Rightarrow> nat option" where
  "strlen_from sc m = (if m sc \<noteq> 0 then strlen_from (sc + 1) m else Some sc)"

definition rt_strlen :: "nat \<Rightarrow> mem \<Rightarrow> nat option" where
  "rt_strlen s m = map_option (\<lambda>sc. sc - s) (strlen_from s m)"

function strnlen_from :: "nat \<Rightarrow> nat \<Rightarrow> nat \<Rightarrow> mem \<Rightarrow> nat" where
  "strnlen_from s sc maxlen m = (if m sc \<noteq> 0 \<and> sc - s < maxlen then strnlen_from s (sc + 1) maxlen m else sc)"
  by pat_completeness auto
termination by (relation "measure (\<lambda>(s, sc, maxlen, m). s + maxlen - sc)") auto

definition rt_strnlen :: "nat \<Rightarrow> nat \<Rightarrow> mem \<Rightarrow> nat" where
  "rt_strnlen s maxlen m = strnlen_from s s maxlen m - s"

partial_function (option) rt_strcmp :: "nat \<Rightarrow> nat \<Rightarrow> mem \<Rightarrow> int option" where
  "rt_strcmp cs ct m =
     (if m cs \<noteq> 0 \<and> m cs = m ct then rt_strcmp (cs + 1) (ct + 1) m else Some (uint (m cs) - uint (m ct)))"

text \<open>\<open>__res\<close> is a \<^verbatim>\<open>signed char\<close>: the difference is cut to 8 bits.\<close>

fun rt_strncmp :: "nat \<Rightarrow> nat \<Rightarrow> nat \<Rightarrow> mem \<Rightarrow> int" where
  "rt_strncmp cs ct 0 m = 0"
| "rt_strncmp cs ct (Suc count) m =
     (let res = m cs - m ct
      in if res \<noteq> 0 \<or> m cs = 0 then sint res else rt_strncmp (cs + 1) (ct + 1) count m)"

fun zero_bytes :: "nat \<Rightarrow> nat \<Rightarrow> mem \<Rightarrow> mem" where
  "zero_bytes d 0 m = m"
| "zero_bytes d (Suc n) m = zero_bytes (d + 1) n (m(d := 0))"

fun strncpy_loop :: "nat \<Rightarrow> nat \<Rightarrow> nat \<Rightarrow> mem \<Rightarrow> mem" where
  "strncpy_loop d s 0 m = m"
| "strncpy_loop d s (Suc n) m =
     (let m1 = m(d := m s) in if m s = 0 then zero_bytes (d + 1) n m1 else strncpy_loop (d + 1) (s + 1) n m1)"

definition rt_strncpy :: "nat \<Rightarrow> nat \<Rightarrow> nat \<Rightarrow> mem \<Rightarrow> mem" where
  "rt_strncpy dst src n m = strncpy_loop dst src n m"

definition to_lower :: "u8 \<Rightarrow> u8" where
  "to_lower c = (if c \<ge> 65 \<and> c \<le> 90 then c + 32 else c)"

partial_function (option) rt_strcasecmp :: "nat \<Rightarrow> nat \<Rightarrow> mem \<Rightarrow> u32 option" where
  "rt_strcasecmp a b m =
     (let ca = to_lower (m a); cb = to_lower (m b)
      in if ca = cb \<and> ca \<noteq> 0 then rt_strcasecmp (a + 1) (b + 1) m else Some (ucast ca - ucast cb))"

text \<open>\<open>l2\<close> is positive in the only call.\<close>

fun strstr_loop :: "nat \<Rightarrow> nat \<Rightarrow> nat \<Rightarrow> nat \<Rightarrow> mem \<Rightarrow> nat option" where
  "strstr_loop s1 s2 l1 l2 m =
     (if l1 \<ge> l2 \<and> l2 > 0
      then (if rt_memcmp s1 s2 l2 m = 0 then Some s1 else strstr_loop (s1 + 1) s2 (l1 - 1) l2 m)
      else None)"

text \<open>The inner result is the found address, \<open>None\<close> for null.\<close>

definition rt_strstr :: "nat \<Rightarrow> nat \<Rightarrow> mem \<Rightarrow> nat option option" where
  "rt_strstr s1 s2 m = do {
     l2 \<leftarrow> rt_strlen s2 m;
     if l2 = 0 then Some (Some s1)
     else do { l1 \<leftarrow> rt_strlen s1 m; Some (strstr_loop s1 s2 l1 l2 m) } }"

section \<open>Aligned blocks\<close>

text \<open>\<open>malloc\<close> and \<open>free\<close> work on a state of type \<open>'h\<close>; the address of the block is kept in the word below the
  aligned one.\<close>

definition align4 :: "u32 \<Rightarrow> u32" where
  "align4 x = (x + 3) AND NOT 3"

definition rt_malloc_align ::
    "(nat \<Rightarrow> 'h \<Rightarrow> nat option \<times> 'h) \<Rightarrow> u32 \<Rightarrow> u32 \<Rightarrow> mem \<times> 'h \<Rightarrow> u32 option \<times> mem \<times> 'h" where
  "rt_malloc_align malloc sz align mh =
     (let al = align4 align;
          align_size = align4 sz + al
      in case malloc (unat align_size) (snd mh) of
           (None, h1) \<Rightarrow> (None, fst mh, h1)
         | (Some p, h1) \<Rightarrow>
             (let ptr = of_nat p;
                  align_ptr = (if ptr AND (al - 1) = 0 then ptr + al else (ptr + (al - 1)) AND NOT (al - 1))
              in (Some align_ptr, store_word (unat (align_ptr - 4)) ptr (fst mh), h1)))"

definition rt_free_align :: "(nat \<Rightarrow> 'h \<Rightarrow> 'h option) \<Rightarrow> u32 \<Rightarrow> mem \<times> 'h \<Rightarrow> (mem \<times> 'h) option" where
  "rt_free_align free ptr mh =
     map_option (Pair (fst mh)) (free (unat (load_word (unat (ptr - 4)) (fst mh))) (snd mh))"

section \<open>The word-wise functions are the byte-wise ones\<close>

declare memset_big.simps [simp del] memset_words.simps [simp del] memcpy_big.simps [simp del] memcpy_words.simps [simp del]
  strnlen_from.simps [simp del] strstr_loop.simps [simp del]

definition filled :: "nat \<Rightarrow> nat \<Rightarrow> u8 \<Rightarrow> mem \<Rightarrow> mem" where
  "filled a n d m = (\<lambda>x. if a \<le> x \<and> x < a + n then d else m x)"

lemma filled_0 [simp]: "filled a 0 d m = m"
  by (auto simp: filled_def fun_eq_iff)

lemma filled_filled: "filled (a + k) n d (filled a k d m) = filled a (k + n) d m"
  by (auto simp: filled_def fun_eq_iff)

lemma memset_bytes_eq: "memset_bytes d a n m = filled a n d m"
proof (induction n arbitrary: a m)
  case (Suc n)
  then show ?case by (auto simp: filled_def fun_eq_iff)
qed simp

lemma u8_high: "8 \<le> k \<Longrightarrow> \<not> bit (x :: u8) k"
  by (auto dest: bit_imp_le_length)

lemma word_bytes:
  fixes d :: u8
  defines "w \<equiv> (let b = push_bit 8 (ucast d) OR ucast d in b OR push_bit 16 b) :: u32"
  shows "ucast w = d" "ucast (drop_bit 8 w) = d" "ucast (drop_bit 16 w) = d" "ucast (drop_bit 24 w) = d"
  unfolding w_def Let_def by (rule bit_word_eqI, auto simp: bit_simps u8_high)+

lemma load_bytes:
  "ucast (load_word a m) = m a" "ucast (drop_bit 8 (load_word a m)) = m (a + 1)"
  "ucast (drop_bit 16 (load_word a m)) = m (a + 2)" "ucast (drop_bit 24 (load_word a m)) = m (a + 3)"
  unfolding load_word_def by (rule bit_word_eqI, auto simp: bit_simps u8_high)+

lemma store_word_filled:
  assumes "ucast w = d" "ucast (drop_bit 8 w) = d" "ucast (drop_bit 16 w) = d" "ucast (drop_bit 24 w) = d"
  shows "store_word a w m = filled a 4 d m"
  unfolding store_word_def assms by (auto simp: filled_def fun_eq_iff)

lemma memset_big_eq:
  assumes "\<And>a m. store_word a w m = filled a 4 d m"
  shows "memset_big w a n m = (a + 16 * (n div 16), n mod 16, filled a (16 * (n div 16)) d m)"
proof (induction n arbitrary: a m rule: less_induct)
  case (less n)
  show ?case
  proof (cases "n \<ge> 16")
    case True
    have st: "store_word (a + 12) w (store_word (a + 8) w (store_word (a + 4) w (store_word a w m))) = filled a 16 d m"
      unfolding assms using filled_filled [of a 4 4 d m] filled_filled [of a 8 4 d m] filled_filled [of a 12 4 d m] by simp
    have dm: "n div 16 = Suc ((n - 16) div 16)" "n mod 16 = (n - 16) mod 16" using True by (simp_all add: le_div_geq le_mod_geq)
    have "memset_big w a n m = memset_big w (a + 16) (n - 16) (filled a 16 d m)"
      using True st by (subst memset_big.simps) simp
    also have "\<dots> = (a + 16 + 16 * ((n - 16) div 16), (n - 16) mod 16, filled (a + 16) (16 * ((n - 16) div 16)) d (filled a 16 d m))"
      using less [of "n - 16"] True by simp
    finally show ?thesis unfolding dm by (simp add: filled_filled algebra_simps)
  next
    case False
    then show ?thesis by (subst memset_big.simps) simp
  qed
qed

lemma memset_words_eq:
  assumes "\<And>a m. store_word a w m = filled a 4 d m"
  shows "memset_words w a n m = (a + 4 * (n div 4), n mod 4, filled a (4 * (n div 4)) d m)"
proof (induction n arbitrary: a m rule: less_induct)
  case (less n)
  show ?case
  proof (cases "n \<ge> 4")
    case True
    have dm: "n div 4 = Suc ((n - 4) div 4)" "n mod 4 = (n - 4) mod 4" using True by (simp_all add: le_div_geq le_mod_geq)
    have "memset_words w a n m = memset_words w (a + 4) (n - 4) (filled a 4 d m)"
      using True assms by (subst memset_words.simps) simp
    also have "\<dots> = (a + 4 + 4 * ((n - 4) div 4), (n - 4) mod 4, filled (a + 4) (4 * ((n - 4) div 4)) d (filled a 4 d m))"
      using less [of "n - 4"] True by simp
    finally show ?thesis unfolding dm by (simp add: filled_filled algebra_simps)
  next
    case False
    then show ?thesis by (subst memset_words.simps) simp
  qed
qed

lemma rt_memset_eq: "rt_memset s c n m = filled s n (ucast c) m"
proof -
  have ff: "(0xff :: u32) = mask 8" by (simp add: mask_eq_exp_minus_1)
  have dd: "c AND 0xff = ucast (ucast c :: u8)"
    unfolding ff by (rule bit_word_eqI) (auto simp: bit_simps dest: bit_imp_le_length)
  have du: "ucast (ucast (ucast c :: u8) :: u32) = (ucast c :: u8)" by (rule bit_word_eqI) (auto simp: bit_simps)
  define w :: u32 where "w = (push_bit 8 (ucast (ucast c :: u8)) OR ucast (ucast c :: u8)) OR
    push_bit 16 (push_bit 8 (ucast (ucast c :: u8)) OR ucast (ucast c :: u8))"
  have st: "store_word a w m = filled a 4 (ucast c) m" for a m
    unfolding w_def by (rule store_word_filled [OF word_bytes [of "ucast c", unfolded Let_def]])
  show ?thesis
  proof (cases "\<not> n < 4 \<and> s mod 4 = 0")
    case True
    have e: "16 * (n div 16) + (4 * (n mod 16 div 4) + n mod 16 mod 4) = n" by presburger
    show ?thesis using True
      unfolding rt_memset_def Let_def dd du w_def [symmetric] memset_big_eq [OF st] memset_words_eq [OF st] memset_bytes_eq
      by (simp add: memset_words_eq [OF st] memset_bytes_eq filled_filled e add.assoc)
  next
    case False
    then show ?thesis by (auto simp: rt_memset_def Let_def dd du memset_bytes_eq)
  qed
qed

lemma copy_bytes_add: "copy_bytes dst src (j + k) m = copy_bytes (dst + j) (src + j) k (copy_bytes dst src j m)"
  by (induction j arbitrary: dst src m) simp_all

lemma copy_word_eq:
  assumes "dst mod 4 = src mod 4"
  shows "copy_word dst src m = copy_bytes dst src 4 m"
proof (cases "dst = src")
  case True
  then show ?thesis unfolding copy_word_def store_word_def load_bytes by (simp add: eval_nat_numeral)
next
  case False
  define a b r where "a = dst div 4" and "b = src div 4" and "r = src mod 4"
  then have e: "dst = 4 * a + r" "src = 4 * b + r" using assms div_mult_mod_eq [of dst 4] div_mult_mod_eq [of src 4] by simp_all
  then have "a < b \<or> b < a" using False by auto
  then have ne: "src + i \<noteq> dst + j" if "i < 4" "j < 4" for i j using that unfolding e by linarith
  show ?thesis
    using ne [of 1 0] ne [of 2 0] ne [of 3 0] ne [of 2 1] ne [of 3 1] ne [of 3 2]
    unfolding copy_word_def store_word_def load_bytes by (simp add: eval_nat_numeral)
qed

lemma memcpy_big_eq:
  assumes "dst mod 4 = src mod 4"
  shows "memcpy_big dst src n m =
    (dst + 16 * (n div 16), src + 16 * (n div 16), n mod 16, copy_bytes dst src (16 * (n div 16)) m)"
  using assms
proof (induction n arbitrary: dst src m rule: less_induct)
  case (less n)
  show ?case
  proof (cases "n \<ge> 16")
    case True
    have a: "(dst + k) mod 4 = (src + k) mod 4" for k using less.prems by (metis mod_add_left_eq)
    have st: "copy_word (dst + 12) (src + 12) (copy_word (dst + 8) (src + 8) (copy_word (dst + 4) (src + 4)
        (copy_word dst src m))) = copy_bytes dst src 16 m"
      unfolding copy_word_eq [OF less.prems] copy_word_eq [OF a]
      using copy_bytes_add [of dst src 4 4 m] copy_bytes_add [of dst src 8 4 m] copy_bytes_add [of dst src 12 4 m] by simp
    have dm: "n div 16 = Suc ((n - 16) div 16)" "n mod 16 = (n - 16) mod 16" using True by (simp_all add: le_div_geq le_mod_geq)
    have "memcpy_big dst src n m = memcpy_big (dst + 16) (src + 16) (n - 16) (copy_bytes dst src 16 m)"
      using True st by (subst memcpy_big.simps) simp
    also have "\<dots> = (dst + 16 + 16 * ((n - 16) div 16), src + 16 + 16 * ((n - 16) div 16), (n - 16) mod 16,
        copy_bytes (dst + 16) (src + 16) (16 * ((n - 16) div 16)) (copy_bytes dst src 16 m))"
      using less.IH [of "n - 16"] a True by simp
    finally show ?thesis unfolding dm using copy_bytes_add [of dst src 16 "16 * ((n - 16) div 16)" m] by (simp add: algebra_simps)
  next
    case False
    then show ?thesis by (subst memcpy_big.simps) simp
  qed
qed

lemma memcpy_words_eq:
  assumes "dst mod 4 = src mod 4"
  shows "memcpy_words dst src n m =
    (dst + 4 * (n div 4), src + 4 * (n div 4), n mod 4, copy_bytes dst src (4 * (n div 4)) m)"
  using assms
proof (induction n arbitrary: dst src m rule: less_induct)
  case (less n)
  show ?case
  proof (cases "n \<ge> 4")
    case True
    have a: "(dst + 4) mod 4 = (src + 4) mod 4" using less.prems by simp
    have dm: "n div 4 = Suc ((n - 4) div 4)" "n mod 4 = (n - 4) mod 4" using True by (simp_all add: le_div_geq le_mod_geq)
    have "memcpy_words dst src n m = memcpy_words (dst + 4) (src + 4) (n - 4) (copy_bytes dst src 4 m)"
      using True copy_word_eq [OF less.prems] by (subst memcpy_words.simps) simp
    also have "\<dots> = (dst + 4 + 4 * ((n - 4) div 4), src + 4 + 4 * ((n - 4) div 4), (n - 4) mod 4,
        copy_bytes (dst + 4) (src + 4) (4 * ((n - 4) div 4)) (copy_bytes dst src 4 m))"
      using less.IH [OF _ a, of "n - 4"] True by simp
    finally show ?thesis unfolding dm using copy_bytes_add [of dst src 4 "4 * ((n - 4) div 4)" m] by (simp add: algebra_simps)
  next
    case False
    then show ?thesis by (subst memcpy_words.simps) simp
  qed
qed

lemma rt_memcpy_eq: "rt_memcpy dst src n m = copy_bytes dst src n m"
proof (cases "\<not> n < 16 \<and> src mod 4 = 0 \<and> dst mod 4 = 0")
  case True
  then have a: "dst mod 4 = src mod 4" by simp
  have a1: "(dst + 16 * (n div 16)) mod 4 = (src + 16 * (n div 16)) mod 4" using a by (metis mod_add_left_eq)
  let ?j = "16 * (n div 16)" and ?k = "4 * (n mod 16 div 4)" and ?l = "n mod 16 mod 4"
  have e: "?j + (?k + ?l) = n" by presburger
  have "rt_memcpy dst src n m = copy_bytes (dst + ?j + ?k) (src + ?j + ?k) ?l
      (copy_bytes (dst + ?j) (src + ?j) ?k (copy_bytes dst src ?j m))"
    using True unfolding rt_memcpy_def by (simp add: memcpy_big_eq [OF a] memcpy_words_eq [OF a1])
  also have "\<dots> = copy_bytes dst src n m"
    using copy_bytes_add [of dst src ?j ?k m] copy_bytes_add [of dst src "?j + ?k" ?l m] e by (simp only: add.assoc)
  finally show ?thesis .
qed (auto simp: rt_memcpy_def)

text \<open>What a copy does: byte by byte upwards it is the simultaneous copy unless the target starts inside the source.\<close>

definition copied :: "nat \<Rightarrow> nat \<Rightarrow> nat \<Rightarrow> mem \<Rightarrow> mem" where
  "copied dst src n m = (\<lambda>x. if dst \<le> x \<and> x < dst + n then m (src + (x - dst)) else m x)"

lemma copied_0 [simp]: "copied dst src 0 m = m"
  by (auto simp: copied_def fun_eq_iff)

lemma copy_bytes_eq: "\<not> (src < dst \<and> dst < src + n) \<Longrightarrow> copy_bytes dst src n m = copied dst src n m"
proof (induction n arbitrary: dst src m)
  case (Suc n)
  have "copy_bytes (dst + 1) (src + 1) n (m(dst := m src)) = copied (dst + 1) (src + 1) n (m(dst := m src))"
    by (rule Suc.IH) (use Suc.prems in auto)
  also have "\<dots> = copied dst src (Suc n) m"
  proof
    fix x
    consider "x = dst" | "dst < x" "x < dst + Suc n" | "x < dst \<or> dst + Suc n \<le> x" by linarith
    then show "copied (dst + 1) (src + 1) n (m(dst := m src)) x = copied dst src (Suc n) m x"
    proof cases
      case 2
      then have "src + 1 + (x - (dst + 1)) = src + (x - dst)" "src + (x - dst) \<noteq> dst" using Suc.prems by linarith+
      then show ?thesis using 2 by (simp add: copied_def)
    qed (auto simp: copied_def)
  qed
  finally show ?case by simp
qed simp

lemma copy_down_eq: "src < dst \<Longrightarrow> copy_down (dst + n) (src + n) n m = copied dst src n m"
proof (induction n arbitrary: m)
  case (Suc n)
  have "copy_down (dst + n) (src + n) n (m(dst + n := m (src + n))) = copied dst src n (m(dst + n := m (src + n)))"
    by (rule Suc.IH [OF Suc.prems])
  also have "\<dots> = copied dst src (Suc n) m" using Suc.prems by (auto simp: copied_def fun_eq_iff)
  finally show ?case by simp
qed simp

lemma rt_memmove_eq: "rt_memmove dst src n m = copied dst src n m"
  using copy_down_eq [of src dst n m] copy_bytes_eq [of src dst n m] by (auto simp: rt_memmove_def)

section \<open>Strings in memory\<close>

text \<open>The bytes up to the terminator.\<close>

definition cstring :: "nat \<Rightarrow> u8 list \<Rightarrow> mem \<Rightarrow> bool" where
  "cstring s xs m \<longleftrightarrow> 0 \<notin> set xs \<and> (\<forall>i<length xs. m (s + i) = xs ! i) \<and> m (s + length xs) = 0"

lemma cstring_Nil [simp]: "cstring s [] m = (m s = 0)"
  by (simp add: cstring_def)

lemma cstring_Cons [simp]: "cstring s (x # xs) m = (x \<noteq> 0 \<and> m s = x \<and> cstring (s + 1) xs m)"
proof -
  have "(\<forall>i<Suc (length xs). m (s + i) = (x # xs) ! i) = (m s = x \<and> (\<forall>i<length xs. m (s + 1 + i) = xs ! i))"
    by (auto simp: less_Suc_eq_0_disj)
  then show ?thesis by (auto simp: cstring_def)
qed

lemma strlen_from_eq: "cstring s xs m \<Longrightarrow> strlen_from s m = Some (s + length xs)"
proof (induction xs arbitrary: s)
  case Nil
  then show ?case by (subst strlen_from.simps) simp
next
  case (Cons x xs)
  then show ?case by (subst strlen_from.simps) simp
qed

lemma strlen_eq: "cstring s xs m \<Longrightarrow> rt_strlen s m = Some (length xs)"
  by (simp add: rt_strlen_def strlen_from_eq)

text \<open>The order of strings by their first difference, the terminator counted as 0.\<close>

fun string_diff :: "u8 list \<Rightarrow> u8 list \<Rightarrow> int" where
  "string_diff [] [] = 0"
| "string_diff (x # xs) [] = uint x"
| "string_diff [] (y # ys) = - uint y"
| "string_diff (x # xs) (y # ys) = (if x = y then string_diff xs ys else uint x - uint y)"

lemma strcmp_eq: "cstring a xs m \<Longrightarrow> cstring b ys m \<Longrightarrow> rt_strcmp a b m = Some (string_diff xs ys)"
proof (induction xs ys arbitrary: a b rule: string_diff.induct)
  case 1
  then show ?case by (subst rt_strcmp.simps) simp
next
  case (2 x xs)
  then show ?case by (subst rt_strcmp.simps) simp
next
  case (3 y ys)
  then show ?case by (subst rt_strcmp.simps) simp
next
  case (4 x xs y ys)
  then show ?case by (subst rt_strcmp.simps) auto
qed

lemma string_diff_0: "0 \<notin> set xs \<Longrightarrow> 0 \<notin> set ys \<Longrightarrow> string_diff xs ys = 0 \<longleftrightarrow> xs = ys"
  by (induction xs ys rule: string_diff.induct) (auto simp: word_uint_eq_iff)

lemma memcmp_0: "rt_memcmp a b n m = 0 \<longleftrightarrow> (\<forall>i<n. m (a + i) = m (b + i))"
proof (induction n arbitrary: a b)
  case (Suc n)
  have "(\<forall>i<Suc n. m (a + i) = m (b + i)) = (m a = m b \<and> (\<forall>i<n. m (a + 1 + i) = m (b + 1 + i)))"
    by (auto simp: less_Suc_eq_0_disj)
  then show ?case using Suc [of "a + 1" "b + 1"] by (auto simp: Let_def word_uint_eq_iff)
qed simp

text \<open>A search finds the first occurrence.\<close>

definition occurs :: "nat \<Rightarrow> nat \<Rightarrow> nat \<Rightarrow> mem \<Rightarrow> bool" where
  "occurs p s2 l2 m \<longleftrightarrow> (\<forall>i<l2. m (p + i) = m (s2 + i))"

lemma strstr_loop_eq:
  assumes "0 < l2"
  shows "case strstr_loop s1 s2 l1 l2 m of
      None \<Rightarrow> \<forall>j. j + l2 \<le> l1 \<longrightarrow> \<not> occurs (s1 + j) s2 l2 m
    | Some p \<Rightarrow> \<exists>j. p = s1 + j \<and> j + l2 \<le> l1 \<and> occurs p s2 l2 m \<and> (\<forall>i<j. \<not> occurs (s1 + i) s2 l2 m)"
proof (induction l1 arbitrary: s1)
  case 0
  then show ?case using assms by (subst strstr_loop.simps) simp
next
  case (Suc l1)
  show ?case
  proof (cases "l2 \<le> Suc l1")
    case False
    then show ?thesis by (subst strstr_loop.simps) simp
  next
    case True
    show ?thesis
    proof (cases "rt_memcmp s1 s2 l2 m = 0")
      case t: True
      then have "strstr_loop s1 s2 (Suc l1) l2 m = Some s1" using True assms by (subst strstr_loop.simps) simp
      then show ?thesis using t True by (auto simp: memcmp_0 occurs_def intro: exI [of _ 0])
    next
      case f: False
      then have st: "strstr_loop s1 s2 (Suc l1) l2 m = strstr_loop (s1 + 1) s2 l1 l2 m"
        using True assms by (subst strstr_loop.simps) simp
      have no: "\<not> occurs s1 s2 l2 m" using f by (simp add: memcmp_0 occurs_def)
      show ?thesis
      proof (cases "strstr_loop (s1 + 1) s2 l1 l2 m")
        case None
        then have "\<not> occurs (s1 + j) s2 l2 m" if "j + l2 \<le> Suc l1" for j
          using Suc [of "s1 + 1"] no that by (cases j) auto
        then show ?thesis using None st by simp
      next
        case (Some p)
        then obtain j where j: "p = s1 + 1 + j" "j + l2 \<le> l1" "occurs p s2 l2 m" "\<forall>i<j. \<not> occurs (s1 + 1 + i) s2 l2 m"
          using Suc [of "s1 + 1"] by auto
        have "\<not> occurs (s1 + i) s2 l2 m" if "i < Suc j" for i using j(4) no that by (cases i) auto
        then show ?thesis using j(1-3) st Some by (auto intro!: exI [of _ "Suc j"])
      qed
    qed
  qed
qed

section \<open>Aligned blocks: where the aligned address lies\<close>

lemma store_load: "load_word a (store_word a w m) = w"
proof (rule bit_word_eqI)
  fix n assume "n < LENGTH(32)"
  then consider "n < 8" | "8 \<le> n" "n < 16" | "16 \<le> n" "n < 24" | "24 \<le> n" "n < 32" by fastforce
  then show "bit (load_word a (store_word a w m)) n = bit w n"
    by cases (auto simp: load_word_def store_word_def bit_simps u8_high)
qed

lemma and_not_mask:
  assumes "k < 32"
  shows "unat (x AND (2 ^ k - 1) :: u32) = unat x mod 2 ^ k" "unat (x AND NOT (2 ^ k - 1) :: u32) = 2 ^ k * (unat x div 2 ^ k)"
proof -
  have m: "(2 ^ k - 1 :: u32) = mask k" by (simp add: mask_eq_exp_minus_1)
  show r: "unat (x AND (2 ^ k - 1) :: u32) = unat x mod 2 ^ k"
    unfolding m take_bit_eq_mask [symmetric] unsigned_take_bit_eq by (simp add: take_bit_eq_mod)
  have "x = (x AND mask k) + (x AND NOT (mask k))"
    by (subst disjunctive_add) (auto simp: bit_simps simp flip: bit.conj_disj_distrib)
  then have e: "x AND NOT (mask k) = x - (x AND mask k)" by (simp add: algebra_simps)
  have "x AND mask k \<le> x" using r m by (simp add: word_le_nat_alt)
  then have "unat (x - (x AND mask k)) = unat x - unat x mod 2 ^ k" using r m by (simp add: unat_sub)
  then show "unat (x AND NOT (2 ^ k - 1) :: u32) = 2 ^ k * (unat x div 2 ^ k)"
    unfolding m e by (simp add: minus_mod_eq_mult_div)
qed

lemma aligned_ptr:
  assumes "2 \<le> k" "k < 32" "p mod 4 = 0" "p + 2 ^ k < 2 ^ 32"
  defines "q \<equiv> (let ptr = of_nat p :: u32 in if ptr AND (2 ^ k - 1) = 0 then ptr + 2 ^ k else (ptr + (2 ^ k - 1)) AND NOT (2 ^ k - 1))"
  shows "unat q mod 2 ^ k = 0" "p + 4 \<le> unat q" "unat q \<le> p + 2 ^ k"
proof -
  have up: "unat (of_nat p :: u32) = p" using assms(4) by (simp add: unat_of_nat)
  have "(2 :: nat) ^ k < 2 ^ 32" using assms(2) by (intro power_strict_increasing) simp_all
  then have "unat (of_nat (2 ^ k) :: u32) = 2 ^ k" by (subst unat_of_nat) simp
  then have u2: "unat (2 ^ k :: u32) = 2 ^ k" by simp
  have d4: "(4 :: nat) dvd 2 ^ k" using assms(1) by (metis le_imp_power_dvd power2_eq_square mult_2_right numeral_Bit0)
  have "unat q mod 2 ^ k = 0 \<and> p + 4 \<le> unat q \<and> unat q \<le> p + 2 ^ k"
  proof (cases "p mod 2 ^ k = 0")
    case True
    then have "(of_nat p :: u32) AND (2 ^ k - 1) = 0" using and_not_mask(1) [OF assms(2), of "of_nat p"] up by (simp add: word_unat_eq_iff)
    then have "unat q = p + 2 ^ k" using assms(4) up u2 by (simp add: q_def unat_word_ariths)
    moreover have "(4 :: nat) \<le> 2 ^ k" using d4 by (simp add: dvd_imp_le)
    ultimately show ?thesis using True by simp
  next
    case False
    then have "(of_nat p :: u32) AND (2 ^ k - 1) \<noteq> 0" using and_not_mask(1) [OF assms(2), of "of_nat p"] up by (simp add: word_unat_eq_iff)
    moreover have "unat (of_nat p + (2 ^ k - 1) :: u32) = p + (2 ^ k - 1)"
    proof -
      have "unat (2 ^ k - 1 :: u32) = 2 ^ k - 1" using u2 by (simp add: unat_sub word_le_nat_alt)
      then show ?thesis using assms(4) up by (simp add: unat_word_ariths)
    qed
    ultimately have q: "unat q = 2 ^ k * ((p + (2 ^ k - 1)) div 2 ^ k)"
      using and_not_mask(2) [OF assms(2), of "of_nat p + (2 ^ k - 1)"] by (simp add: q_def)
    have s: "(p + (2 ^ k - 1)) div 2 ^ k = Suc (p div 2 ^ k)"
    proof -
      define c where "c = (2 :: nat) ^ k"
      have "p = c * (p div c) + p mod c" "0 < p mod c" "p mod c < c" using False by (simp_all add: c_def)
      then have "c * Suc (p div c) \<le> p + (c - 1)" "p + (c - 1) < c * Suc (Suc (p div c))"
        unfolding mult_Suc_right by linarith+
      then show ?thesis unfolding c_def [symmetric] by (rule div_nat_eqI)
    qed
    have "unat q = p - p mod 2 ^ k + 2 ^ k" unfolding q s mult_Suc_right using mult_div_mod_eq [of "2 ^ k" p] by linarith
    moreover have "(4 :: nat) dvd 2 ^ k - p mod 2 ^ k"
      using d4 assms(3) by (intro dvd_diff_nat dvd_mod) auto
    then have "4 \<le> 2 ^ k - p mod 2 ^ k" by (rule dvd_imp_le) simp
    moreover have "p mod 2 ^ k \<le> p" "p mod 2 ^ k < 2 ^ k" by simp_all
    moreover have "unat q mod 2 ^ k = 0" unfolding q by simp
    ultimately show ?thesis using False by linarith
  qed
  then show "unat q mod 2 ^ k = 0" "p + 4 \<le> unat q" "unat q \<le> p + 2 ^ k" by simp_all
qed

end
