(* ===== verification/Service_Props.thy ===== *)
theory Service_Props
  imports Kservice
begin

text \<open>
  The properties of the memory and string functions: the copies against byte-wise references, the
  search for a substring, and aligned allocation.
\<close>

section \<open>Copies\<close>

text \<open>The copy by words and blocks of words is the copy of one byte after the other, upwards, for every pair of
  addresses and every count, overlapping ranges included.\<close>

theorem memcpy_is_byte_copy: "rt_memcpy dst src n m = copy_bytes dst src n m"
  by (rule rt_memcpy_eq)

text \<open>\<open>rt_memmove\<close> moves a block as it was before the call, however the ranges overlap, and touches nothing else.\<close>

theorem memmove_moves: "rt_memmove dst src n m a = (if dst \<le> a \<and> a < dst + n then m (src + (a - dst)) else m a)"
  by (simp add: rt_memmove_eq copied_def)

section \<open>Search\<close>

text \<open>Searching one terminated string in another returns, and its result is the address of the first place at which
  the second string occurs in the first, or null when there is none.\<close>

theorem strstr_finds_first:
  assumes "cstring s1 xs m" "cstring s2 ys m"
  shows "\<exists>r. rt_strstr s1 s2 m = Some r \<and>
    (case r of
       None \<Rightarrow> \<forall>j. j + length ys \<le> length xs \<longrightarrow> take (length ys) (drop j xs) \<noteq> ys
     | Some p \<Rightarrow> \<exists>j. p = s1 + j \<and> take (length ys) (drop j xs) = ys \<and>
         (\<forall>i<j. take (length ys) (drop i xs) \<noteq> ys))"
proof -
  note l = strlen_eq [OF assms(1)] strlen_eq [OF assms(2)]
  show ?thesis
  proof (cases "ys = []")
    case True
    then show ?thesis using l by (auto simp: rt_strstr_def)
  next
    case False
    have oc: "occurs (s1 + j) s2 (length ys) m \<longleftrightarrow> take (length ys) (drop j xs) = ys" if j: "j + length ys \<le> length xs" for j
    proof -
      have "m (s1 + j + i) = xs ! (j + i)" "m (s2 + i) = ys ! i" if "i < length ys" for i
        using assms j that unfolding cstring_def by (simp_all add: add.assoc)
      then have "occurs (s1 + j) s2 (length ys) m \<longleftrightarrow> (\<forall>i<length ys. xs ! (j + i) = ys ! i)" by (simp add: occurs_def)
      also have "\<dots> \<longleftrightarrow> take (length ys) (drop j xs) = ys" using j by (auto simp: list_eq_iff_nth_eq)
      finally show ?thesis .
    qed
    have r: "rt_strstr s1 s2 m = Some (strstr_loop s1 s2 (length xs) (length ys) m)" using l False by (simp add: rt_strstr_def)
    note st = strstr_loop_eq [of "length ys" "length xs" s1 s2 m]
    show ?thesis
    proof (cases "strstr_loop s1 s2 (length xs) (length ys) m")
      case None
      then show ?thesis using r st False oc by auto
    next
      case (Some p)
      then obtain j where j: "p = s1 + j" "j + length ys \<le> length xs" "occurs p s2 (length ys) m"
        "\<forall>i<j. \<not> occurs (s1 + i) s2 (length ys) m" using st False by auto
      have "take (length ys) (drop i xs) \<noteq> ys" if "i < j" for i using j(2,4) oc [of i] that by auto
      then show ?thesis using r Some j(1,3) oc [OF j(2)] by (auto intro!: exI [of _ j])
    qed
  qed
qed

definition demo_mem :: mem where
  "demo_mem = (\<lambda>_. 0)(100 := 97, 101 := 98, 102 := 97, 103 := 98, 104 := 99, 200 := 98, 201 := 99)"

theorem strstr_finds_first_witness:
  "\<exists>p. rt_strstr 100 200 demo_mem = Some p \<and> cstring 200 [98, 99] demo_mem"
proof -
  have "cstring 100 [97, 98, 97, 98, 99] demo_mem" "cstring 200 [98, 99] demo_mem" by (simp_all add: demo_mem_def)
  from strstr_finds_first [OF this] this(2) show ?thesis by blast
qed

section \<open>Aligned allocation\<close>

text \<open>An aligned block starts at a multiple of the alignment and lies inside the block that was allocated for it,
  leaving room below for the word that \<open>rt_free_align\<close> reads: it releases exactly the allocated block.\<close>

theorem malloc_align_roundtrip:
  assumes "align4 align = 2 ^ k" "2 \<le> k" "k < 32" "p mod 4 = 0" "p + unat (align4 sz) + 2 ^ k < 2 ^ 32"
    "malloc (unat (align4 sz) + 2 ^ k) h = (Some p, h1)"
  shows "\<exists>q m1. rt_malloc_align malloc sz align (m, h) = (Some q, m1, h1) \<and> unat q mod 2 ^ k = 0 \<and> p + 4 \<le> unat q \<and>
    unat q + unat (align4 sz) \<le> p + (unat (align4 sz) + 2 ^ k) \<and>
    rt_free_align free q (m1, h1) = map_option (Pair m1) (free p h1)"
proof -
  define q where "q = (let ptr = of_nat p :: u32 in if ptr AND (2 ^ k - 1) = 0 then ptr + 2 ^ k
    else (ptr + (2 ^ k - 1)) AND NOT (2 ^ k - 1))"
  have "p + 2 ^ k < 2 ^ 32" using assms(5) by linarith
  note q = aligned_ptr [OF assms(2-4) this, folded q_def]
  have "(2 :: nat) ^ k < 2 ^ 32" using assms(3) by (intro power_strict_increasing) simp_all
  then have "unat (of_nat (2 ^ k) :: u32) = 2 ^ k" by (subst unat_of_nat) simp
  then have "unat (align4 sz + 2 ^ k) = unat (align4 sz) + 2 ^ k" using assms(5) by (simp add: unat_word_ariths)
  then have m: "rt_malloc_align malloc sz align (m, h) = (Some q, store_word (unat (q - 4)) (of_nat p) m, h1)"
    using assms(1,6) by (simp add: rt_malloc_align_def Let_def q_def)
  have "unat (of_nat p :: u32) = p" using assms(5) by (simp add: unat_of_nat)
  then have "rt_free_align free q (store_word (unat (q - 4)) (of_nat p) m, h1) =
      map_option (Pair (store_word (unat (q - 4)) (of_nat p) m)) (free p h1)"
    by (simp add: rt_free_align_def store_load)
  then show ?thesis using m q by auto
qed

text \<open>An allocator that hands out one block after the other and ignores releases.\<close>

definition bump :: "nat \<Rightarrow> nat \<Rightarrow> nat option \<times> nat" where
  "bump n a = (Some a, a + 8 * ((n + 7) div 8))"

theorem malloc_align_roundtrip_witness:
  "\<exists>q m1. rt_malloc_align bump 100 64 (demo_mem, 0x2008) = (Some q, m1, 0x20b0) \<and> unat q mod 2 ^ 6 = 0 \<and>
    rt_free_align (\<lambda>a t. if a = 0x2008 then Some t else None) q (m1, 0x20b0) = Some (m1, 0x20b0 :: nat)"
proof -
  have "align4 64 = 2 ^ 6" "align4 100 = 100" by (simp_all add: align4_def)
  then show ?thesis using malloc_align_roundtrip [of 64 6 "0x2008" 100 bump "0x2008" "0x20b0" demo_mem
      "\<lambda>a t. if a = 0x2008 then Some t else None"] by (auto simp: bump_def)
qed

end
