(* ===== verification/Mempool.thy ===== *)
theory Mempool
  imports Mailbox Kservice
begin

text \<open>
  The memory pools of \<^verbatim>\<open>rt-thread/src/mempool.c\<close>: blocks of one size, the free ones chained through the
  word in front of each block, with a waiting list of threads.

  Addresses are 32-bit words. \<open>mp_word\<close> holds the words in front of the blocks: the next free block, or
  the address of the pool for a block in use, which is how \<open>rt_mp_free\<close> finds the pool. As in
  \<open>Mailbox\<close>, a call that waits is cut where the thread is switched out. \<open>mp_step\<close> has the operations of all threads;
  its invariant is that the blocks are partitioned into the free chain and the blocks in use.
\<close>

section \<open>The code\<close>

text \<open>\<open>mp_at\<close> is the address of the pool structure itself.\<close>

record rt_mempool =
  mp_ref :: oref
  mp_at :: u32
  start_address :: u32
  mp_size :: u32
  block_size :: u32
  block_list :: u32
  block_total_count :: u32
  block_free_count :: u32
  suspend_thread_count :: u32
  mp_word :: "u32 \<Rightarrow> u32"

fun link_blocks :: "u32 \<Rightarrow> u32 \<Rightarrow> nat \<Rightarrow> (u32 \<Rightarrow> u32) \<Rightarrow> u32 \<Rightarrow> u32" where
  "link_blocks base stride 0 w = w"
| "link_blocks base stride (Suc n) w =
     (link_blocks base stride n w)(base + of_nat n * stride := base + (of_nat n + 1) * stride)"

definition mp_format :: "u32 \<Rightarrow> u32 \<Rightarrow> u32 \<Rightarrow> (u32 \<Rightarrow> u32) \<Rightarrow> u32 \<Rightarrow> u32" where
  "mp_format base stride n w = (link_blocks base stride (unat n) w)(base + (n - 1) * stride := 0)"

definition rt_mp_init ::
    "oref \<Rightarrow> u32 \<Rightarrow> string \<Rightarrow> u32 \<Rightarrow> u32 \<Rightarrow> u32 \<Rightarrow> (u32 \<Rightarrow> u32) \<Rightarrow> kern \<Rightarrow> (rt_err_t \<times> rt_mempool \<times> kern) option" where
  "rt_mp_init r mp_addr name start sz bsize w s = do {
     s1 \<leftarrow> rt_object_init r RT_Object_Class_MemPool name s;
     let sz = RT_ALIGN_DOWN sz RT_ALIGN_SIZE;
     let bsize = RT_ALIGN bsize RT_ALIGN_SIZE;
     let n = sz div (bsize + 4);
     Some (RT_EOK, \<lparr>mp_ref = r, mp_at = mp_addr, start_address = start, mp_size = sz, block_size = bsize,
       block_list = start, block_total_count = n, block_free_count = n, suspend_thread_count = 0,
       mp_word = mp_format start (bsize + 4) n w\<rparr>, s1\<lparr>queues := (queues s1)(SuspendQ r := [])\<rparr>) }"

text \<open>The loop of detach and delete.\<close>

partial_function (option) mp_resume_all :: "lhead \<Rightarrow> rt_mempool \<Rightarrow> kern \<Rightarrow> (rt_mempool \<times> kern) option" where
  "mp_resume_all q mp s =
     (case queues s q of
        [] \<Rightarrow> Some (mp, s)
      | t # _ \<Rightarrow>
          Option.bind (rt_thread_resume t (upd_thr t (\<lambda>th. th\<lparr>th_error := - RT_ERROR\<rparr>) s)) (\<lambda>(_, s1).
            mp_resume_all q (mp\<lparr>suspend_thread_count := suspend_thread_count mp - 1\<rparr>) s1))"

definition rt_mp_detach :: "rt_mempool \<Rightarrow> kern \<Rightarrow> (rt_err_t \<times> kern) option" where
  "rt_mp_detach mp s = do {
     RT_ASSERT (rt_object_get_type (mp_ref mp) s = RT_Object_Class_MemPool);
     RT_ASSERT (rt_object_is_systemobject (mp_ref mp) s);
     (_, s1) \<leftarrow> mp_resume_all (SuspendQ (mp_ref mp)) mp s;
     Some (RT_EOK, rt_object_detach (mp_ref mp) s1) }"

definition rt_mp_create ::
    "(nat \<Rightarrow> 'h \<Rightarrow> nat option \<times> 'h) \<Rightarrow> (nat \<Rightarrow> 'h \<Rightarrow> 'h option) \<Rightarrow> (u8 \<Rightarrow> nat) \<Rightarrow> (u32 \<Rightarrow> u32) \<Rightarrow> string \<Rightarrow> u32 \<Rightarrow> u32 \<Rightarrow>
     kern \<times> 'h \<Rightarrow> (rt_mempool option \<times> kern \<times> 'h) option" where
  "rt_mp_create malloc free object_size w name block_count bsize sh = do {
     RT_DEBUG_NOT_IN_INTERRUPT (fst sh);
     (mp, s1, h1) \<leftarrow> rt_object_allocate malloc object_size RT_Object_Class_MemPool name sh;
     (case mp of
        None \<Rightarrow> Some (None, s1, h1)
      | Some a \<Rightarrow>
          (let bsize = RT_ALIGN bsize RT_ALIGN_SIZE;
               sz = (bsize + 4) * block_count
           in case malloc (unat sz) h1 of
                (None, h2) \<Rightarrow> map_option (Pair None) (rt_object_delete free a (s1, h2))
              | (Some p, h2) \<Rightarrow>
                  Some (Some \<lparr>mp_ref = Obj a, mp_at = of_nat a, start_address = of_nat p, mp_size = sz, block_size = bsize,
                    block_list = of_nat p, block_total_count = block_count, block_free_count = block_count,
                    suspend_thread_count = 0, mp_word = mp_format (of_nat p) (bsize + 4) block_count w\<rparr>,
                    s1\<lparr>queues := (queues s1)(SuspendQ (Obj a) := [])\<rparr>, h2))) }"

definition rt_mp_delete ::
    "(nat \<Rightarrow> 'h \<Rightarrow> 'h option) \<Rightarrow> rt_mempool \<Rightarrow> nat \<Rightarrow> kern \<times> 'h \<Rightarrow> (rt_err_t \<times> kern \<times> 'h) option" where
  "rt_mp_delete free mp a sh = do {
     let (s, h) = sh;
     RT_DEBUG_NOT_IN_INTERRUPT s;
     RT_ASSERT (rt_object_get_type (Obj a) s = RT_Object_Class_MemPool);
     RT_ASSERT (\<not> rt_object_is_systemobject (Obj a) s);
     (_, s1) \<leftarrow> mp_resume_all (SuspendQ (Obj a)) mp s;
     h1 \<leftarrow> free (unat (start_address mp)) h;
     (s2, h2) \<leftarrow> rt_object_delete free a (s1, h1);
     Some (RT_EOK, s2, h2) }"

text \<open>Waiting for a block: the thread becomes the first of the list.\<close>

definition mp_block :: "lhead \<Rightarrow> tid \<Rightarrow> u32 \<Rightarrow> kern \<Rightarrow> kern option" where
  "mp_block q t time s = do {
     (_, s1) \<leftarrow> rt_thread_suspend t s;
     let s2 = tlist_insert_after q t s1;
     s3 \<leftarrow> (if sint time > 0 then do {
              (_, _, s) \<leftarrow> rt_timer_control (TimerOf t) RT_TIMER_CTRL_SET_TIME time s2;
              (_, s) \<leftarrow> rt_timer_start (TimerOf t) s;
              Some s }
            else Some s2);
     rt_schedule s3 }"

text \<open>Taking the first block of the chain; the result is the address behind its word.\<close>

definition mp_take :: "rt_mempool \<Rightarrow> (u32 \<times> rt_mempool) option" where
  "mp_take mp = do {
     let mp1 = mp\<lparr>block_free_count := block_free_count mp - 1\<rparr>;
     let block_ptr = block_list mp1;
     RT_ASSERT (block_ptr \<noteq> 0);
     Some (block_ptr + 4, mp1\<lparr>block_list := mp_word mp1 block_ptr, mp_word := (mp_word mp1)(block_ptr := mp_at mp1)\<rparr>) }"

definition mp_alloc_loop ::
    "rt_mempool \<Rightarrow> u32 \<Rightarrow> tid option \<Rightarrow> kern \<times> rt_err_t \<Rightarrow> (kret \<times> u32 option \<times> rt_mempool \<times> kern \<times> rt_err_t) option" where
  "mp_alloc_loop mp time ot sg =
     (if block_free_count mp = 0 then
        (if time = 0 then Some (Returned RT_EOK, None, mp, rt_set_errno (- RT_ETIMEOUT) sg)
         else do {
           RT_DEBUG_NOT_IN_INTERRUPT (fst sg);
           t \<leftarrow> ot;
           s2 \<leftarrow> mp_block (SuspendQ (mp_ref mp)) t time (upd_thr t (\<lambda>th. th\<lparr>th_error := RT_EOK\<rparr>) (fst sg));
           Some (Parked t, None, mp\<lparr>suspend_thread_count := suspend_thread_count mp + 1\<rparr>, s2, snd sg) })
      else do {
        (p, mp1) \<leftarrow> mp_take mp;
        Some (Returned RT_EOK, Some p, mp1, sg) })"

definition rt_mp_alloc ::
    "rt_mempool \<Rightarrow> u32 \<Rightarrow> kern \<times> rt_err_t \<Rightarrow> (kret \<times> u32 option \<times> rt_mempool \<times> kern \<times> rt_err_t) option" where
  "rt_mp_alloc mp time sg = mp_alloc_loop mp time (rt_thread_self (fst sg)) sg"

definition rt_mp_alloc_wake ::
    "rt_mempool \<Rightarrow> u32 \<Rightarrow> u32 \<Rightarrow> tid \<Rightarrow> kern \<times> rt_err_t \<Rightarrow> (kret \<times> u32 option \<times> rt_mempool \<times> kern \<times> rt_err_t) option" where
  "rt_mp_alloc_wake mp time before_sleep t sg =
     (if th_error (thr (fst sg) t) \<noteq> RT_EOK then Some (Returned RT_EOK, None, mp, sg)
      else mp_alloc_loop mp (time_left time before_sleep (fst sg)) (Some t) sg)"

text \<open>Putting a block back; \<open>None\<close> when its word does not name this pool.\<close>

definition mp_put :: "u32 \<Rightarrow> rt_mempool \<Rightarrow> rt_mempool option" where
  "mp_put block mp =
     (let block_ptr = block - 4
      in if mp_word mp block_ptr = mp_at mp
         then Some (mp\<lparr>block_free_count := block_free_count mp + 1,
           mp_word := (mp_word mp)(block_ptr := block_list mp), block_list := block_ptr\<rparr>)
         else None)"

text \<open>The first thread of an empty list would be read from the list head: \<open>None\<close>.\<close>

definition rt_mp_free :: "rt_mempool \<Rightarrow> u32 \<Rightarrow> kern \<Rightarrow> (rt_mempool \<times> kern) option" where
  "rt_mp_free mp block s = do {
     mp1 \<leftarrow> mp_put block mp;
     if suspend_thread_count mp1 > 0 then
       (case queues s (SuspendQ (mp_ref mp1)) of
          [] \<Rightarrow> None
        | t # _ \<Rightarrow> do {
            (_, s1) \<leftarrow> rt_thread_resume t (upd_thr t (\<lambda>th. th\<lparr>th_error := RT_EOK\<rparr>) s);
            s2 \<leftarrow> rt_schedule s1;
            Some (mp1\<lparr>suspend_thread_count := suspend_thread_count mp1 - 1\<rparr>, s2) })
     else Some (mp1, s) }"

section \<open>The partition of the blocks\<close>

fun mp_chain :: "(u32 \<Rightarrow> u32) \<Rightarrow> u32 \<Rightarrow> u32 list \<Rightarrow> bool" where
  "mp_chain w p [] = (p = 0)"
| "mp_chain w p (b # bs) = (p = b \<and> b \<noteq> 0 \<and> mp_chain w (w b) bs)"

lemma mp_chain_upd: "b \<notin> set bs \<Longrightarrow> mp_chain (w(b := x)) p bs = mp_chain w p bs"
  by (induction bs arbitrary: p) auto

text \<open>The addresses of the words in front of the blocks.\<close>

definition mp_addr :: "rt_mempool \<Rightarrow> nat \<Rightarrow> u32" where
  "mp_addr mp k = start_address mp + of_nat k * (block_size mp + 4)"

definition mp_blocks :: "rt_mempool \<Rightarrow> u32 set" where
  "mp_blocks mp = mp_addr mp ` {..<unat (block_total_count mp)}"

text \<open>The pool lies in memory, above address 0.\<close>

definition mp_placed :: "rt_mempool \<Rightarrow> bool" where
  "mp_placed mp \<longleftrightarrow> 0 < start_address mp \<and> unat (block_size mp + 4) = unat (block_size mp) + 4 \<and>
     unat (start_address mp) + unat (block_total_count mp) * (unat (block_size mp) + 4) < 2 ^ 32"

definition mp_ok :: "rt_mempool \<Rightarrow> u32 list \<Rightarrow> bool" where
  "mp_ok mp fl \<longleftrightarrow> mp_placed mp \<and> distinct fl \<and> set fl \<subseteq> mp_blocks mp \<and> mp_chain (mp_word mp) (block_list mp) fl \<and>
     unat (block_free_count mp) = length fl \<and> (\<forall>b \<in> mp_blocks mp - set fl. mp_word mp b = mp_at mp)"

lemma mp_addr_unat:
  assumes "mp_placed mp" "k \<le> unat (block_total_count mp)"
  shows "unat (mp_addr mp k) = unat (start_address mp) + k * (unat (block_size mp) + 4)"
proof -
  have "k * (unat (block_size mp) + 4) \<le> unat (block_total_count mp) * (unat (block_size mp) + 4)"
    using assms(2) by (rule mult_le_mono1)
  then have b: "unat (start_address mp) + k * (unat (block_size mp) + 4) < 2 ^ 32"
    using assms(1) unfolding mp_placed_def by linarith
  let ?x = "unat (start_address mp) + k * (unat (block_size mp) + 4)"
  have "block_size mp + 4 = of_nat (unat (block_size mp) + 4)" by simp
  then have "mp_addr mp k = of_nat ?x" unfolding mp_addr_def by simp
  then have "unat (mp_addr mp k) = unat (of_nat ?x :: u32)" by (rule arg_cong)
  also have "\<dots> = ?x mod 2 ^ LENGTH(32)" by (rule unat_of_nat)
  also have "\<dots> = ?x" by (rule mod_less) (use b in simp)
  finally show ?thesis .
qed

lemma mp_addr_inj:
  assumes "mp_placed mp" "j \<le> unat (block_total_count mp)" "k \<le> unat (block_total_count mp)" "mp_addr mp j = mp_addr mp k"
  shows "j = k"
proof -
  have "unat (start_address mp) + j * (unat (block_size mp) + 4) = unat (start_address mp) + k * (unat (block_size mp) + 4)"
    using mp_addr_unat [OF assms(1)] assms(2-4) by metis
  then show ?thesis by simp
qed

lemma mp_blocks_card:
  assumes "mp_placed mp"
  shows "finite (mp_blocks mp)" "card (mp_blocks mp) = unat (block_total_count mp)" "0 \<notin> mp_blocks mp"
proof -
  have "inj_on (mp_addr mp) {..<unat (block_total_count mp)}" using mp_addr_inj [OF assms] by (intro inj_onI) auto
  then show "card (mp_blocks mp) = unat (block_total_count mp)" by (simp add: mp_blocks_def card_image)
  show "finite (mp_blocks mp)" by (simp add: mp_blocks_def)
  show "0 \<notin> mp_blocks mp"
  proof
    assume "0 \<in> mp_blocks mp"
    then obtain k where k: "k < unat (block_total_count mp)" "mp_addr mp k = 0" by (auto simp: mp_blocks_def)
    then have "unat (start_address mp) = 0" using mp_addr_unat [OF assms, of k] by simp
    then show False using assms by (simp add: mp_placed_def word_less_nat_alt)
  qed
qed

text \<open>The formatted pool.\<close>

lemma link_blocks_at:
  assumes "mp_placed mp" "n \<le> unat (block_total_count mp)" "k < n"
  shows "link_blocks (start_address mp) (block_size mp + 4) n w (mp_addr mp k) = mp_addr mp (Suc k)"
  using assms(2,3)
proof (induction n)
  case (Suc n)
  have a: "start_address mp + of_nat n * (block_size mp + 4) = mp_addr mp n"
    "start_address mp + (of_nat n + 1) * (block_size mp + 4) = mp_addr mp (Suc n)" by (simp_all add: mp_addr_def add.commute)
  have ne: "mp_addr mp k \<noteq> mp_addr mp n" if "k \<noteq> n" using mp_addr_inj [OF assms(1), of k n] Suc.prems that by auto
  show ?case using Suc ne by (cases "k = n") (simp_all add: a)
qed simp

lemma mp_chain_upto:
  assumes "k \<le> n" "\<And>j. k \<le> j \<Longrightarrow> j < n \<Longrightarrow> f j \<noteq> 0 \<and> w (f j) = (if Suc j = n then 0 else f (Suc j))"
  shows "mp_chain w (if k = n then 0 else f k) (map f [k..<n])"
  using assms
proof (induction "n - k" arbitrary: k)
  case (Suc m)
  then have kn: "k < n" by simp
  have "mp_chain w (if Suc k = n then 0 else f (Suc k)) (map f [Suc k..<n])"
    using Suc.hyps(1) [of "Suc k"] Suc.hyps(2) Suc.prems(2) kn by simp
  then show ?case using Suc.prems(2) [of k] kn by (simp add: upt_rec [of k n])
qed simp

lemma mp_format_ok:
  assumes "mp_placed mp" "0 < block_total_count mp" "block_list mp = start_address mp" "block_free_count mp = block_total_count mp"
    "mp_word mp = mp_format (start_address mp) (block_size mp + 4) (block_total_count mp) w"
  shows "mp_ok mp (map (mp_addr mp) [0..<unat (block_total_count mp)])"
proof -
  let ?n = "unat (block_total_count mp)"
  have n: "0 < ?n" using assms(2) by (simp add: word_less_nat_alt)
  have "unat (block_total_count mp - 1) = ?n - 1" using n by (simp add: unat_sub word_le_nat_alt)
  then have "block_total_count mp - 1 = of_nat (?n - 1)" by (metis of_nat_unat ucast_id)
  then have l: "start_address mp + (block_total_count mp - 1) * (block_size mp + 4) = mp_addr mp (?n - 1)" by (simp add: mp_addr_def)
  have st: "mp_addr mp j \<noteq> 0 \<and> mp_word mp (mp_addr mp j) = (if Suc j = ?n then 0 else mp_addr mp (Suc j))" if "j < ?n" for j
  proof
    show "mp_addr mp j \<noteq> 0" using mp_blocks_card(3) [OF assms(1)] that by (auto simp: mp_blocks_def)
    have "mp_addr mp j \<noteq> mp_addr mp (?n - 1)" if "Suc j \<noteq> ?n" using mp_addr_inj [OF assms(1), of j "?n - 1"] that \<open>j < ?n\<close> by auto
    moreover have "j = ?n - 1" if "Suc j = ?n" using that by simp
    ultimately show "mp_word mp (mp_addr mp j) = (if Suc j = ?n then 0 else mp_addr mp (Suc j))"
      using link_blocks_at [OF assms(1) order_refl that] unfolding assms(5) mp_format_def l by (cases "Suc j = ?n") simp_all
  qed
  have "mp_chain (mp_word mp) (if 0 = ?n then 0 else mp_addr mp 0) (map (mp_addr mp) [0..<?n])"
    by (rule mp_chain_upto) (use st in auto)
  then have "mp_chain (mp_word mp) (block_list mp) (map (mp_addr mp) [0..<?n])" using n assms(3) by (simp add: mp_addr_def)
  moreover have "distinct (map (mp_addr mp) [0..<?n])"
    using mp_addr_inj [OF assms(1)] by (auto simp: distinct_map intro!: inj_onI)
  moreover have "set (map (mp_addr mp) [0..<?n]) = mp_blocks mp" by (auto simp: mp_blocks_def)
  ultimately show ?thesis using assms(1,4) by (simp add: mp_ok_def)
qed

section \<open>Taking and putting back\<close>

lemma mp_take_ok:
  assumes "mp_ok mp fl" "block_free_count mp \<noteq> 0"
  obtains b bs mp' where "fl = b # bs" "mp_take mp = Some (b + 4, mp')" "mp_ok mp' bs" "mp_blocks mp' = mp_blocks mp"
    "block_total_count mp' = block_total_count mp" "suspend_thread_count mp' = suspend_thread_count mp" "mp_ref mp' = mp_ref mp"
proof -
  have "fl \<noteq> []" using assms by (auto simp: mp_ok_def word_unat_eq_iff)
  then obtain b bs where fl: "fl = b # bs" by (cases fl) auto
  have ch: "block_list mp = b" "b \<noteq> 0" "mp_chain (mp_word mp) (mp_word mp b) bs" "b \<notin> set bs"
    and c: "unat (block_free_count mp) = Suc (length bs)" using assms(1) by (auto simp: mp_ok_def fl)
  define mp' where "mp' = mp\<lparr>block_free_count := block_free_count mp - 1, block_list := mp_word mp b,
    mp_word := (mp_word mp)(b := mp_at mp)\<rparr>"
  have f: "mp_blocks mp' = mp_blocks mp" "mp_placed mp' = mp_placed mp" "block_total_count mp' = block_total_count mp"
    by (simp_all add: mp'_def mp_blocks_def mp_addr_def mp_placed_def)
  have "unat (block_free_count mp - 1) = length bs" using c by (simp add: unat_sub word_le_nat_alt)
  then have "mp_ok mp' bs" using assms(1) ch fl f by (auto simp: mp_ok_def mp'_def mp_chain_upd)
  moreover have "mp_take mp = Some (b + 4, mp')" using ch by (simp add: mp_take_def mp'_def RT_ASSERT_def)
  ultimately show thesis using that [of b bs mp'] fl f by (simp add: mp'_def)
qed

lemma mp_put_ok:
  assumes "mp_ok mp fl" "b \<in> mp_blocks mp - set fl"
  obtains mp' where "mp_put (b + 4) mp = Some mp'" "mp_ok mp' (b # fl)" "mp_blocks mp' = mp_blocks mp"
    "block_total_count mp' = block_total_count mp" "suspend_thread_count mp' = suspend_thread_count mp" "mp_ref mp' = mp_ref mp"
proof -
  have pl: "mp_placed mp" using assms(1) by (simp add: mp_ok_def)
  note card = mp_blocks_card [OF pl]
  define mp' where "mp' = mp\<lparr>block_free_count := block_free_count mp + 1, mp_word := (mp_word mp)(b := block_list mp), block_list := b\<rparr>"
  have f: "mp_blocks mp' = mp_blocks mp" "mp_placed mp' = mp_placed mp" "block_total_count mp' = block_total_count mp"
    by (simp_all add: mp'_def mp_blocks_def mp_addr_def mp_placed_def)
  have b0: "b \<noteq> 0" using assms(2) card(3) by auto
  have "length fl = card (set fl)" using assms(1) by (simp add: mp_ok_def distinct_card)
  also have "\<dots> < card (mp_blocks mp)" using assms by (intro psubset_card_mono card(1)) (auto simp: mp_ok_def)
  finally have "length fl < unat (block_total_count mp)" using card(2) by simp
  then have "block_free_count mp < block_total_count mp" using assms(1) by (simp add: mp_ok_def word_less_nat_alt)
  then have "unat (block_free_count mp + 1) = length (b # fl)" using unat_succ_less assms(1) by (fastforce simp: mp_ok_def)
  then have "mp_ok mp' (b # fl)" using assms b0 f by (auto simp: mp_ok_def mp'_def mp_chain_upd)
  moreover have "mp_put (b + 4) mp = Some mp'" using assms by (simp add: mp_put_def mp_ok_def mp'_def)
  ultimately show thesis using that [of mp'] f by (simp add: mp'_def)
qed

section \<open>The calls\<close>

text \<open>The pool with the blocks in use, and the kernel with the global error number.\<close>

record mp_sys =
  ms_pool :: rt_mempool
  ms_used :: "u32 set"
  ms_kern :: "kern \<times> rt_err_t"

text \<open>\<open>B\<close>: the blocks of the pool, by the addresses of their words.\<close>

definition mp_inv :: "u32 set \<Rightarrow> mp_sys \<Rightarrow> bool" where
  "mp_inv B c \<longleftrightarrow> mp_blocks (ms_pool c) = B \<and>
     (\<exists>fl. mp_ok (ms_pool c) fl \<and> ms_used c = (\<lambda>b. b + 4) ` (B - set fl))"

definition handed_out :: "u32 option \<Rightarrow> u32 set \<Rightarrow> u32 set" where
  "handed_out p U = (case p of None \<Rightarrow> U | Some b \<Rightarrow> insert b U)"

inductive mp_step :: "mp_sys \<Rightarrow> mp_sys \<Rightarrow> bool" where
  alloc: "rt_mp_alloc (ms_pool c) time (ms_kern c) = Some (k, p, mp', sg') \<Longrightarrow>
    mp_step c \<lparr>ms_pool = mp', ms_used = handed_out p (ms_used c), ms_kern = sg'\<rparr>"
| wake: "rt_mp_alloc_wake (ms_pool c) time start t (ms_kern c) = Some (k, p, mp', sg') \<Longrightarrow>
    mp_step c \<lparr>ms_pool = mp', ms_used = handed_out p (ms_used c), ms_kern = sg'\<rparr>"
| free: "b \<in> ms_used c \<Longrightarrow> rt_mp_free (ms_pool c) b (fst (ms_kern c)) = Some (mp', s') \<Longrightarrow>
    mp_step c \<lparr>ms_pool = mp', ms_used = ms_used c - {b}, ms_kern = (s', snd (ms_kern c))\<rparr>"
| env: "mp_step c (c\<lparr>ms_kern := sg\<rparr>)"

lemma mp_alloc_loop_cases:
  assumes "mp_ok mp fl" "mp_alloc_loop mp time ot sg = Some (k, p, mp', sg')"
  obtains (none) "p = None" "mp_ok mp' fl" "mp_blocks mp' = mp_blocks mp" "block_total_count mp' = block_total_count mp"
      "block_free_count mp = 0"
  | (some) b bs where "fl = b # bs" "p = Some (b + 4)" "mp_ok mp' bs" "mp_blocks mp' = mp_blocks mp"
      "block_total_count mp' = block_total_count mp" "sg' = sg"
proof (cases "block_free_count mp = 0")
  case True
  have "p = None \<and> (\<exists>n. mp' = mp\<lparr>suspend_thread_count := n\<rparr>)"
    using assms(2) True by (auto simp: mp_alloc_loop_def Some_bind_iff split: if_splits intro: exI [of _ "suspend_thread_count mp"])
  moreover have "mp_ok (mp\<lparr>suspend_thread_count := n\<rparr>) fl = mp_ok mp fl" "mp_blocks (mp\<lparr>suspend_thread_count := n\<rparr>) = mp_blocks mp" for n
    by (simp_all add: mp_ok_def mp_blocks_def mp_addr_def mp_placed_def)
  ultimately show ?thesis using none True assms(1) by auto
next
  case False
  obtain b bs mp1 where m: "fl = b # bs" "mp_take mp = Some (b + 4, mp1)" "mp_ok mp1 bs" "mp_blocks mp1 = mp_blocks mp"
    "block_total_count mp1 = block_total_count mp" using mp_take_ok [OF assms(1) False] by metis
  then have "p = Some (b + 4) \<and> mp' = mp1 \<and> sg' = sg" using assms(2) False by (simp add: mp_alloc_loop_def)
  then show ?thesis using some m by blast
qed

lemma mp_alloc_inv:
  assumes "mp_inv B c" "mp_alloc_loop (ms_pool c) time ot sg = Some (k, p, mp', sg')"
  shows "mp_inv B \<lparr>ms_pool = mp', ms_used = handed_out p (ms_used c), ms_kern = sg'\<rparr>"
proof -
  obtain fl where fl: "mp_ok (ms_pool c) fl" "ms_used c = (\<lambda>b. b + 4) ` (mp_blocks (ms_pool c) - set fl)"
    and B: "mp_blocks (ms_pool c) = B"
    using assms(1) by (auto simp: mp_inv_def)
  from fl(1) assms(2) show ?thesis
  proof (cases rule: mp_alloc_loop_cases)
    case none
    then show ?thesis using fl(2) B by (auto simp: mp_inv_def handed_out_def)
  next
    case (some b bs)
    have "b \<in> mp_blocks (ms_pool c)" "b \<notin> set bs" using fl(1) some(1) by (auto simp: mp_ok_def)
    then have "mp_blocks (ms_pool c) - set bs = insert b (mp_blocks (ms_pool c) - set fl)" using some(1) by auto
    then show ?thesis using fl(2) some B by (auto simp: mp_inv_def handed_out_def)
  qed
qed

lemma mp_free_inv:
  assumes "mp_inv B c" "b \<in> ms_used c" "rt_mp_free (ms_pool c) b s = Some (mp', s')"
  shows "mp_inv B \<lparr>ms_pool = mp', ms_used = ms_used c - {b}, ms_kern = sg\<rparr>"
proof -
  obtain fl where fl: "mp_ok (ms_pool c) fl" "ms_used c = (\<lambda>b. b + 4) ` (mp_blocks (ms_pool c) - set fl)"
    and B: "mp_blocks (ms_pool c) = B"
    using assms(1) by (auto simp: mp_inv_def)
  obtain a where a: "b = a + 4" "a \<in> mp_blocks (ms_pool c) - set fl" using assms(2) fl(2) by auto
  obtain mp1 where m: "mp_put b (ms_pool c) = Some mp1" "mp_ok mp1 (a # fl)" "mp_blocks mp1 = mp_blocks (ms_pool c)"
    using mp_put_ok [OF fl(1) a(2)] a(1) by metis
  have "\<exists>n. mp' = mp1\<lparr>suspend_thread_count := n\<rparr>" using assms(3) m(1)
    by (auto simp: rt_mp_free_def Some_bind_iff split: if_splits list.splits intro: exI [of _ "suspend_thread_count mp1"])
  moreover have "mp_ok (mp1\<lparr>suspend_thread_count := n\<rparr>) fl = mp_ok mp1 fl" "mp_blocks (mp1\<lparr>suspend_thread_count := n\<rparr>) = mp_blocks mp1" for n fl
    by (simp_all add: mp_ok_def mp_blocks_def mp_addr_def mp_placed_def)
  moreover have "ms_used c - {b} = (\<lambda>b. b + 4) ` (mp_blocks (ms_pool c) - set (a # fl))" using fl(2) a by auto
  ultimately show ?thesis using m(2,3) B unfolding mp_inv_def by (intro conjI exI [of _ "a # fl"]) auto
qed

lemma mp_step_inv: "mp_step c c' \<Longrightarrow> mp_inv B c \<Longrightarrow> mp_inv B c'"
proof (induction rule: mp_step.induct)
  case (alloc c time k p mp' sg')
  then show ?case using mp_alloc_inv unfolding rt_mp_alloc_def by blast
next
  case (wake c time start t k p mp' sg')
  show ?case
  proof (cases "th_error (thr (fst (ms_kern c)) t) \<noteq> RT_EOK")
    case True
    then show ?thesis using wake by (simp add: rt_mp_alloc_wake_def handed_out_def mp_inv_def)
  next
    case False
    then show ?thesis using wake mp_alloc_inv by (simp add: rt_mp_alloc_wake_def)
  qed
next
  case (free b c mp' s')
  then show ?case using mp_free_inv by blast
qed (simp add: mp_inv_def)

lemma mp_steps_inv: "mp_step\<^sup>*\<^sup>* c c' \<Longrightarrow> mp_inv B c \<Longrightarrow> mp_inv B c'"
  by (induction rule: rtranclp_induct) (auto intro: mp_step_inv)

text \<open>
  A waiting thread whose time runs out leaves the list, but stays counted: the next release then takes
  the head of the empty list for a thread.
\<close>

lemma mp_free_stale_count:
  assumes "0 < suspend_thread_count mp" "queues s (SuspendQ (mp_ref mp)) = []"
  shows "rt_mp_free mp b s = None"
  using assms by (auto simp: rt_mp_free_def mp_put_def Let_def)

end
