(* ===== verification/Pool_Props.thy ===== *)
theory Pool_Props
  imports Mempool Ipc_Props
begin

text \<open>
  The properties of the memory pools.
\<close>

text \<open>A pool of four blocks of 16 bytes at address 0x1000, freshly formatted.\<close>

definition demo_pool :: rt_mempool where
  "demo_pool = \<lparr>mp_ref = Obj 15, mp_at = 0x900, start_address = 0x1000, mp_size = 80, block_size = 16, block_list = 0x1000,
     block_total_count = 4, block_free_count = 4, suspend_thread_count = 0, mp_word = mp_format 0x1000 20 4 (\<lambda>_. 0)\<rparr>"

definition demo_pool_sys :: mp_sys where
  "demo_pool_sys = \<lparr>ms_pool = demo_pool, ms_used = {}, ms_kern = (demo, 0)\<rparr>"

lemma demo_pool_inv: "mp_inv (mp_blocks demo_pool) demo_pool_sys"
proof -
  have pl: "mp_placed demo_pool" by (simp add: mp_placed_def demo_pool_def)
  have "mp_ok demo_pool (map (mp_addr demo_pool) [0..<unat (block_total_count demo_pool)])"
    by (rule mp_format_ok [OF pl]) (simp_all add: demo_pool_def)
  moreover have "set (map (mp_addr demo_pool) [0..<unat (block_total_count demo_pool)]) = mp_blocks demo_pool"
    by (auto simp: mp_blocks_def)
  ultimately show ?thesis unfolding mp_inv_def by (auto simp: demo_pool_sys_def)
qed

text \<open>C24: In every state that the calls of all threads reach, the blocks of a pool are partitioned: following the
  chain from \<open>block_list\<close> through the words in front of the blocks visits distinct blocks of the pool and ends
  at null, the blocks in use are exactly those off the chain, and the word of each of them names the pool, so
  that it can be released. The count of free blocks is the length of the chain, and both kinds add up to the
  total. Nothing is lost and nothing is handed out twice.\<close>

theorem mempool_partition:
  assumes "mp_step\<^sup>*\<^sup>* c0 c" "mp_inv B c0"
  shows "\<exists>fl. mp_chain (mp_word (ms_pool c)) (block_list (ms_pool c)) fl \<and> distinct fl \<and> set fl \<subseteq> B \<and>
    ms_used c = (\<lambda>b. b + 4) ` (B - set fl) \<and> (\<forall>b \<in> B - set fl. mp_word (ms_pool c) b = mp_at (ms_pool c)) \<and>
    unat (block_free_count (ms_pool c)) = length fl \<and> card (ms_used c) + length fl = card B \<and>
    card B = unat (block_total_count (ms_pool c))"
proof -
  obtain fl where fl: "mp_blocks (ms_pool c) = B" "mp_ok (ms_pool c) fl" "ms_used c = (\<lambda>b. b + 4) ` (B - set fl)"
    using mp_steps_inv [OF assms] by (auto simp: mp_inv_def)
  have "mp_placed (ms_pool c)" using fl(2) by (simp add: mp_ok_def)
  note cB = mp_blocks_card [OF this, unfolded fl(1)]
  have "card (ms_used c) = card (B - set fl)" unfolding fl(3) by (rule card_image) (simp add: inj_on_def)
  also have "\<dots> = card B - length fl" using fl(1,2) by (simp add: mp_ok_def card_Diff_subset distinct_card)
  finally have "card (ms_used c) = card B - length fl" .
  moreover have "length fl \<le> card B" using fl(1,2) card_mono [OF cB(1), of "set fl"] by (simp add: mp_ok_def distinct_card)
  ultimately show ?thesis using fl cB(2) by (intro exI [of _ fl]) (auto simp: mp_ok_def)
qed

text \<open>Two blocks are taken, and the first of them is given back: the chain starts with it again.\<close>

definition demo_pool_taken :: "u32 \<Rightarrow> u32 \<Rightarrow> (u32 \<Rightarrow> u32) \<Rightarrow> rt_mempool" where
  "demo_pool_taken first n w = demo_pool\<lparr>block_list := first, block_free_count := n, mp_word := w\<rparr>"

lemma demo_pool_run:
  "\<exists>c. mp_step\<^sup>*\<^sup>* demo_pool_sys c \<and> ms_used c = {0x1018} \<and> block_list (ms_pool c) = 0x1000 \<and>
     block_free_count (ms_pool c) = 3 \<and> mp_word (ms_pool c) 0x1000 = 0x1028"
proof -
  let ?w = "mp_word demo_pool"
  let ?p1 = "demo_pool_taken 0x1014 3 (?w(0x1000 := 0x900))"
  let ?p2 = "demo_pool_taken 0x1028 2 (?w(0x1000 := 0x900, 0x1014 := 0x900))"
  let ?p3 = "demo_pool_taken 0x1000 3 (?w(0x1000 := 0x1028, 0x1014 := 0x900))"
  let ?c = "\<lambda>p u. \<lparr>ms_pool = p, ms_used = u, ms_kern = (demo, 0)\<rparr>"
  have d: "{0x1018, 0x1004} - {0x1004} = {0x1018 :: u32}" by auto
  have four: "unat (4 :: u32) = Suc (Suc (Suc (Suc 0)))" by simp
  have w: "?w 0x1000 = 0x1014" "?w 0x1014 = 0x1028"
    unfolding demo_pool_def mp_format_def rt_mempool.select_convs four by simp_all
  have a1: "rt_mp_alloc demo_pool 0 (demo, 0) = Some (Returned RT_EOK, Some 0x1004, ?p1, (demo, 0))"
    using w by (simp add: rt_mp_alloc_def mp_alloc_loop_def mp_take_def demo_pool_taken_def RT_ASSERT_def) (simp add: demo_pool_def)
  have a2: "rt_mp_alloc ?p1 0 (demo, 0) = Some (Returned RT_EOK, Some 0x1018, ?p2, (demo, 0))"
    using w by (simp add: rt_mp_alloc_def mp_alloc_loop_def mp_take_def demo_pool_taken_def RT_ASSERT_def) (simp add: demo_pool_def)
  have f3: "rt_mp_free ?p2 0x1004 demo = Some (?p3, demo)"
    by (simp add: rt_mp_free_def mp_put_def demo_pool_taken_def fun_upd_twist) (simp add: demo_pool_def fun_upd_twist)
  have "mp_step (?c demo_pool {}) (?c ?p1 {0x1004})"
    using mp_step.alloc [of "?c demo_pool {}" 0] a1 by (simp add: handed_out_def)
  moreover have "mp_step (?c ?p1 {0x1004}) (?c ?p2 {0x1018, 0x1004})"
    using mp_step.alloc [of "?c ?p1 {0x1004}" 0] a2 by (simp add: handed_out_def)
  moreover have "mp_step (?c ?p2 {0x1018, 0x1004}) (?c ?p3 {0x1018})"
    using mp_step.free [of "0x1004" "?c ?p2 {0x1018, 0x1004}"] f3 d by simp
  ultimately have "mp_step\<^sup>*\<^sup>* (?c demo_pool {}) (?c ?p3 {0x1018})"
    by (rule rtranclp.rtrancl_into_rtrancl [OF rtranclp.rtrancl_into_rtrancl [OF r_into_rtranclp]])
  then have "mp_step\<^sup>*\<^sup>* demo_pool_sys (?c ?p3 {0x1018})" unfolding demo_pool_sys_def .
  then show ?thesis by (intro exI [of _ "?c ?p3 {0x1018}"]) (simp add: demo_pool_taken_def)
qed

theorem mempool_partition_witness:
  "\<exists>(c :: mp_sys) fl. ms_used c = {0x1018} \<and> mp_chain (mp_word (ms_pool c)) 0x1000 (0x1000 # fl) \<and> length fl = 2 \<and>
     card (ms_used c) + length (0x1000 # fl) = card (mp_blocks demo_pool)"
proof -
  obtain c where c: "mp_step\<^sup>*\<^sup>* demo_pool_sys c" "ms_used c = {0x1018}" "block_list (ms_pool c) = 0x1000"
    "block_free_count (ms_pool c) = 3" using demo_pool_run by blast
  obtain fl where fl: "mp_chain (mp_word (ms_pool c)) (block_list (ms_pool c)) fl"
    "unat (block_free_count (ms_pool c)) = length fl" "card (ms_used c) + length fl = card (mp_blocks demo_pool)"
    using mempool_partition [OF c(1) demo_pool_inv] by blast
  have l: "length fl = 3" using fl(2) c(4) by simp
  then obtain fl' where "fl = 0x1000 # fl'" using fl(1) c(3) by (cases fl) auto
  then show ?thesis using fl c l by (intro exI [of _ c] exI [of _ fl']) simp
qed

text \<open>An allocation that finds a free block returns at once with a block that nobody uses; with none free and no time
  to wait it returns null and records the timeout as the error of the thread.\<close>

theorem mp_alloc_result:
  assumes "mp_inv B c" "k = (if block_free_count (ms_pool c) = 0 then 0 else time)"
  shows "\<exists>p mp' sg'. rt_mp_alloc (ms_pool c) k (ms_kern c) = Some (Returned RT_EOK, p, mp', sg') \<and>
    (case p of
       None \<Rightarrow> block_free_count (ms_pool c) = 0 \<and> mp' = ms_pool c \<and> sg' = rt_set_errno (- RT_ETIMEOUT) (ms_kern c)
     | Some b \<Rightarrow> b - 4 \<in> B \<and> b \<notin> ms_used c \<and> sg' = ms_kern c)"
proof (cases "block_free_count (ms_pool c) = 0")
  case True
  then show ?thesis using assms(2) by (simp add: rt_mp_alloc_def mp_alloc_loop_def)
next
  case False
  obtain fl where fl: "mp_blocks (ms_pool c) = B" "mp_ok (ms_pool c) fl" "ms_used c = (\<lambda>b. b + 4) ` (B - set fl)"
    using assms(1) by (auto simp: mp_inv_def)
  obtain b bs mp' where m: "fl = b # bs" "mp_take (ms_pool c) = Some (b + 4, mp')" using mp_take_ok [OF fl(2) False] by metis
  have "b \<in> B" using fl(1,2) m(1) by (auto simp: mp_ok_def)
  moreover have "b + 4 \<notin> ms_used c" using m(1) unfolding fl(3) by auto
  ultimately show ?thesis using m(2) False by (simp add: rt_mp_alloc_def mp_alloc_loop_def)
qed

theorem mp_alloc_result_witness:
  "\<exists>p mp' sg'. rt_mp_alloc demo_pool 5 (demo, 0) = Some (Returned RT_EOK, p, mp', sg')"
  using mp_alloc_result [OF demo_pool_inv, of 5 5] by (auto simp: demo_pool_sys_def demo_pool_def)

end
