(* ===== verification/Thread_Props.thy ===== *)
theory Thread_Props
  imports Ipc_Props
begin

text \<open>
  The properties of the thread operations together: a step relation with every operation of
  \<^verbatim>\<open>thread.c\<close>, the scheduler and the tick, in which the lists, the states of the threads and the ready
  bitmap agree in every reachable state. Below it, the find-first-set function, the pointer lists
  and the registry of objects that the kernel rests on.
\<close>

section \<open>Initialisation keeps the invariant\<close>

lemma object_init_shape:
  assumes "rt_object_init r type name s = Some s'"
  shows "objs s' = (objs s)(r := (objs s r)\<lparr>obj_type := type OR RT_Object_Class_Static, obj_name := rt_name name\<rparr>)"
    "tmr s' = tmr s" "thr s' = thr s" "queues s' = queues s" "ready_group s' = ready_group s"
    "ready_table s' = ready_table s" "timer_list s' = timer_list s" "soft_timer_list s' = soft_timer_list s"
  using assms by (cases rule: object_init_cases; simp add: container_insert_after_def)+

lemma th_init_stat: "th_stat (th\<lparr>th_entry := a, th_parameter := b, th_stack_addr := c, th_stack_size := d,
    th_stack_magic := m, th_sp := f, th_init_priority := p, th_current_priority := p,
    th_number_mask := 0, th_number := 0, th_high_mask := 0, th_init_tick := k, th_remaining_tick := k,
    th_error := RT_EOK, th_stat := RT_THREAD_INIT, th_cleanup := False, th_user_data := 0\<rparr>) = RT_THREAD_INIT"
  by simp

lemma thread_init_cases:
  assumes "rt_thread_init t name entry parameter stack_start stack_size priority tik texit s = Some (e, s')"
  obtains s1 g s3 n where "rt_object_init (Obj t) RT_Object_Class_Thread name s = Some s1"
    "\<And>th. th_stat (g th) = RT_THREAD_INIT"
    "rt_object_init (TimerOf t) RT_Object_Class_Timer n (upd_thr t g s1) = Some s3"
    "s' = rt_timer_init0 (TimerOf t) (Thread_timeout t) 0 RT_TIMER_FLAG_ONE_SHOT s3"
proof -
  from assms obtain s1 where i: "rt_object_init (Obj t) RT_Object_Class_Thread name s = Some s1"
    and r: "rt_thread_init0 t entry parameter stack_start stack_size priority tik texit s1 = Some (e, s')"
    by (auto simp: rt_thread_init_def Some_bind_iff)
  show ?thesis
    using r unfolding rt_thread_init0_def Let_def rt_timer_init_def Some_bind_iff
    by (elim exE conjE) (rule that [OF i], rule th_init_stat, auto)
qed

text \<open>A thread just initialised: nothing links it, and its timer is at rest.\<close>

lemma fresh_thread_kinv:
  assumes "kinv s" "\<not> is_thread s t"
    and f: "queues s' = queues s" "ready_group s' = ready_group s" "ready_table s' = ready_table s"
      "timer_list s' = timer_list s" "soft_timer_list s' = soft_timer_list s" "thr s' = (thr s)(t := th)"
    and stat: "th_stat th = RT_THREAD_INIT"
    and o: "is_thread s' t" "\<And>u. u \<noteq> t \<Longrightarrow> objs s' (Obj u) = objs s (Obj u)"
    and ot: "obj_type (objs s' (TimerOf t)) = 0x8a" "obj_flag (objs s' (TimerOf t)) = 0"
      "tm_func (tmr s' (TimerOf t)) = Thread_timeout t"
    and ou: "\<And>u. u \<noteq> t \<Longrightarrow> objs s' (TimerOf u) = objs s (TimerOf u) \<and> tmr s' (TimerOf u) = tmr s (TimerOf u)"
  shows "kinv s'"
proof -
  note k = kinvD [OF assms(1)]
  have out: "t \<notin> set (queues s q)" "TimerOf t \<notin> set (timer_list s)" "TimerOf t \<notin> set (soft_timer_list s)" for q
    using k(3) [of t] assms(2) by (auto simp: tinv_def)
  show ?thesis
  proof (rule kinv_step [OF assms(1), where t = t])
    show "tinv s' t"
      using out stat o(1) ot by (simp add: tinv_def thread_ok_def thread_timer_ok_def f
        rt_object_get_type_def rt_object_is_systemobject_def)
  qed (use k assms(1) o(2) ou in \<open>simp_all add: f kinv_def lists_ok_def bitmap_ok_def\<close>)
qed

lemma init_kinv:
  assumes "kinv s" "\<not> is_thread s t"
    "rt_thread_init t name entry parameter stack_start stack_size priority tik texit s = Some (e, s')"
  shows "kinv s'"
proof -
  from assms(3) obtain s1 g s3 n where i: "rt_object_init (Obj t) RT_Object_Class_Thread name s = Some s1"
    and g: "\<And>th. th_stat (g th) = RT_THREAD_INIT"
    and s3: "rt_object_init (TimerOf t) RT_Object_Class_Timer n (upd_thr t g s1) = Some s3"
    and s': "s' = rt_timer_init0 (TimerOf t) (Thread_timeout t) 0 RT_TIMER_FLAG_ONE_SHOT s3"
    by (rule thread_init_cases) blast
  note sh = object_init_shape [OF i] object_init_shape [OF s3]
  show ?thesis
    by (rule fresh_thread_kinv [OF assms(1,2), where th = "g (thr s t)"])
      (use g in \<open>simp_all add: s' rt_timer_init0_def sh rt_object_get_type_def\<close>)
qed

section \<open>The thread operations together\<close>

inductive thread_step :: "kern \<Rightarrow> kern \<Rightarrow> bool" where
  schedule: "rt_schedule s = Some s' \<Longrightarrow> thread_step s s'"
| init: "\<not> is_thread s t \<Longrightarrow>
    rt_thread_init t name entry parameter stack_start stack_size priority tik texit s = Some (e, s') \<Longrightarrow>
    thread_step s s'"
| startup: "rt_thread_startup t s = Some (e, s') \<Longrightarrow> thread_step s s'"
| suspend: "rt_thread_suspend t s = Some (e, s') \<Longrightarrow> thread_step s s'"
| resume: "rt_thread_resume t s = Some (e, s') \<Longrightarrow> thread_step s s'"
| yield: "rt_thread_yield s = Some (e, s') \<Longrightarrow> thread_step s s'"
| sleep: "current s = Some t \<Longrightarrow> thread_stat s t = RT_THREAD_READY \<Longrightarrow> n < RT_TICK_MAX div 2 \<Longrightarrow>
    rt_thread_sleep n s = Some (r, s') \<Longrightarrow> thread_step s s'"
| control: "rt_thread_control t cmd arg s = Some (e, s') \<Longrightarrow> thread_step s s'"
| detach: "rt_thread_detach t s = Some (e, s') \<Longrightarrow> thread_step s s'"
| delete: "rt_thread_delete t s = Some (e, s') \<Longrightarrow> thread_step s s'"
| exit: "current s = Some t \<Longrightarrow> is_thread s t \<Longrightarrow> thread_stat s t \<in> {RT_THREAD_READY, RT_THREAD_SUSPEND} \<Longrightarrow>
    rt_thread_exit s = Some s' \<Longrightarrow> thread_step s s'"
| clock: "sched_fine s \<Longrightarrow> one_shots s \<Longrightarrow> quiet cb \<Longrightarrow> rt_tick_increase cb s = Some s' \<Longrightarrow> thread_step s s'"

lemma tick_kinv:
  assumes "kinv s" "sched_fine s" "one_shots s" "quiet cb" "rt_tick_increase cb s = Some s'"
  shows "kinv s'"
proof -
  let ?s1 = "s\<lparr>tick := tick s + 1\<rparr>"
  have k: "kinv ?s1" by (rule kinv_frame [OF assms(1)]) simp_all
  have f: "sched_fine ?s1" using assms(2) by (simp add: sched_fine_def rt_object_get_type_def)
  obtain t s2 where t: "age_slice t ?s1 = Some s2" and c: "rt_timer_check cb s2 = Some s'"
    using assms(5) by (auto simp: rt_tick_increase_def Some_bind_iff)
  obtain s3 where "age_slice t ?s1 = Some s3" "kinv s3" "sched_fine s3" "objs s3 = objs ?s1" "tmr s3 = tmr ?s1"
    "timer_list s3 = timer_list ?s1"
    by (rule age_slice_returns [OF k f, of t])
  then have s2: "kinv s2" "sched_fine s2" "objs s2 = objs s" "tmr s2 = tmr s" "timer_list s2 = timer_list s"
    using t by simp_all
  have "one_shots s2" using assms(3) s2 by (simp add: one_shots_def)
  from check_loop_fires [OF s2(1,2) assms(4) this] c show ?thesis
    by (auto simp: rt_timer_check_def)
qed

lemma thread_step_kinv: "thread_step s s' \<Longrightarrow> kinv s \<Longrightarrow> kinv s'"
  by (induction rule: thread_step.induct)
    (blast intro: schedule_kinv init_kinv startup_kinv suspend_kinv resume_kinv yield_kinv sleep_kinv
      control_kinv detach_kinv delete_kinv exit_kinv tick_kinv)+

text \<open>C2: Whatever sequence of scheduling, initialisation, startup, suspension, resumption, yielding,
  sleeping, control (change of priority included), detach, deletion, exit and tick interrupts runs, the
  lists stay exact: a ready thread stands in the ready queue of its own current priority and in no
  other; every listed thread is a live thread object in the state the list stands for, and stands there
  once; the ready bitmap has the bit of a priority set exactly when its queue is not empty; and a
  pending thread timer belongs to a suspended thread.\<close>

theorem thread_lists_exact:
  assumes "thread_step\<^sup>*\<^sup>* s s'" "kinv s"
  shows "(\<forall>t p. t \<in> set (queues s' (ReadyQ p)) \<longleftrightarrow>
      is_thread s' t \<and> thread_stat s' t = RT_THREAD_READY \<and> unat (th_current_priority (thr s' t)) = p) \<and>
    (\<forall>t q. t \<in> set (queues s' q) \<longrightarrow> is_thread s' t \<and> thread_stat s' t = head_stat q) \<and>
    (\<forall>q. distinct (queues s' q)) \<and>
    (\<forall>n < 32. \<forall>b < 8. bit (ready_table s' n) b \<longleftrightarrow> queues s' (ReadyQ (8 * n + b)) \<noteq> []) \<and>
    (\<forall>n < 32. bit (ready_group s') n \<longleftrightarrow> ready_table s' n \<noteq> 0) \<and>
    (\<forall>t. TimerOf t \<in> set (timer_list s') \<longrightarrow> is_thread s' t \<and> thread_stat s' t = RT_THREAD_SUSPEND)"
proof -
  have k: "kinv s'" using assms(1)
    by (induction rule: rtranclp_induct) (auto intro: assms(2) thread_step_kinv)
  have "t \<in> set (queues s' (ReadyQ p)) \<longleftrightarrow>
      is_thread s' t \<and> thread_stat s' t = RT_THREAD_READY \<and> unat (th_current_priority (thr s' t)) = p" for t p
    using kinvD(3) [OF k, of t] tinv_threadD(1) [OF kinvD(3) [OF k, of t]] by (auto simp: tinv_def)
  moreover have "t \<in> set (queues s' q) \<longrightarrow> is_thread s' t \<and> thread_stat s' t = head_stat q" for t q
    using tinv_linked [OF kinvD(3) [OF k, of t]] by blast
  moreover have "distinct (queues s' q)" for q using k by (simp add: kinv_def lists_ok_def)
  moreover have "bit (ready_table s' n) b \<longleftrightarrow> queues s' (ReadyQ (8 * n + b)) \<noteq> []" if "n < 32" "b < 8" for n b
    using kinvD(2) [OF k] that by (simp add: bitmap_ok_def)
  moreover have "bit (ready_group s') n \<longleftrightarrow> ready_table s' n \<noteq> 0" if "n < 32" for n
    using kinvD(2) [OF k] that by (simp add: bitmap_ok_def)
  ultimately show ?thesis using timer_suspended [OF k] by blast
qed

theorem thread_lists_exact_witness:
  "\<exists>s'. rt_thread_suspend 2 demo = Some (RT_EOK, s') \<and> thread_stat s' 2 = RT_THREAD_SUSPEND \<and>
     queues s' (ReadyQ 255) = [] \<and> \<not> bit (ready_table s' 31) 7"
proof -
  have th: "is_thread demo 2" "thread_stat demo 2 = RT_THREAD_READY" by (simp_all add: rt_object_get_type_def)
  note e = suspend_eq [OF demo_kinv th]
  have "thread_step\<^sup>*\<^sup>* demo (park 2 demo)" using thread_step.suspend [OF e] by blast
  from thread_lists_exact [OF this demo_kinv]
  have "bit (ready_table (park 2 demo) 31) 7 \<longleftrightarrow> queues (park 2 demo) (ReadyQ 255) \<noteq> []" by fastforce
  then show ?thesis using e by simp
qed

section \<open>What the kernel rests on\<close>

text \<open>The table-driven find-first-set function agrees with its specification on all \<open>2 ^ 32\<close>
  arguments: zero for zero, and otherwise one more than the position of the lowest set bit.\<close>

theorem ffs_is_lowest_bit:
  "rt_ffs v = (if v = 0 then 0 else Suc (LEAST k. bit v k))"
proof (cases "v = 0")
  case False
  note l = rt_ffs_lowest [OF False]
  have "(LEAST k. bit v k) = rt_ffs v - 1"
    by (rule Least_equality) (use l in \<open>auto simp: is_lowest_bit_def not_less [symmetric]\<close>)
  then show ?thesis using False rt_ffs_pos [of v] by simp
qed simp

lemma heap_rep_cyc: "heap_rep h L \<Longrightarrow> cyc h (Head q) (map Node (L q))"
  by (simp add: heap_rep_def)

text \<open>C25: On the pointers, taking a node out of whatever list holds it and linking it at the tail of
  another list refines the same operation on lists: if the heap of next and prev pointers represents a
  family of disjoint lists, then afterwards it represents the family in which the node is gone from
  where it was and stands at the end of the target list, and nothing else has moved; walking and
  counting the target list return, with exactly its nodes in order and their number.\<close>

theorem list_move_refines:
  assumes "heap_rep h L"
  shows "let h' = rt_list_insert_before (Head q) (Node n) (rt_list_remove (Node n) h) in
    heap_rep h' (\<lambda>p. removeAll n (L p) @ (if p = q then [n] else [])) \<and>
    rt_list_for_each (Head q) h' = Some (map Node (removeAll n (L q) @ [n])) \<and>
    rt_list_len (Head q) h' = Some (Suc (length (removeAll n (L q)))) \<and>
    \<not> rt_list_isempty (Head q) h'"
proof -
  let ?h = "rt_list_insert_before (Head q) (Node n) (rt_list_remove (Node n) h)"
  let ?M = "\<lambda>p. removeAll n (L p) @ (if p = q then [n] else [])"
  have "heap_rep ?h ((\<lambda>p. removeAll n (L p))(q := removeAll n (L q) @ [n]))"
    by (rule heap_push_back [OF heap_unlink [OF assms]]) simp
  moreover have "(\<lambda>p. removeAll n (L p))(q := removeAll n (L q) @ [n]) = ?M" by auto
  ultimately have r: "heap_rep ?h ?M" by (simp only:)
  have c: "cyc ?h (Head q) (map Node (removeAll n (L q) @ [n]))"
    using heap_rep_cyc [OF r, of q] by simp
  have "rt_list_len (Head q) ?h = Some (Suc (length (removeAll n (L q))))"
    "\<not> rt_list_isempty (Head q) ?h"
    using len_cyc [OF c] isempty_cyc [OF c] by simp_all
  then show ?thesis using r for_each_cyc [OF c] unfolding Let_def by blast
qed

theorem list_move_refines_witness:
  "rt_list_for_each (Head (1 :: nat)) (rt_list_insert_before (Head 1) (Node (7 :: nat))
     (rt_list_remove (Node 7) \<lparr>lnext = (\<lambda>x. x), lprev = (\<lambda>x. x)\<rparr>)) = Some [Node 7]"
proof -
  have "heap_rep \<lparr>lnext = (\<lambda>x. x), lprev = (\<lambda>x. x)\<rparr> (\<lambda>q :: nat. [] :: nat list)"
    by (simp add: heap_rep_def cyc_Nil)
  from list_move_refines [OF this, of 1 7] show ?thesis
    unfolding Let_def by (elim conjE) (simp only: removeAll.simps append_Nil list.map)
qed

section \<open>The registry\<close>

inductive object_step :: "kern \<times> 'h \<Rightarrow> kern \<times> 'h \<Rightarrow> bool" where
  init: "rt_object_init r type name s = Some s' \<Longrightarrow> (\<And>c. r \<notin> set (containers s c)) \<Longrightarrow>
    object_step (s, h) (s', h)"
| allocate: "rt_object_allocate malloc object_size type name (s, h) = Some (x, s', h') \<Longrightarrow>
    (\<And>a c. x = Some a \<Longrightarrow> Obj a \<notin> set (containers s c)) \<Longrightarrow> object_step (s, h) (s', h')"
| detach: "object_step (s, h) (rt_object_detach r s, h)"
| delete: "rt_object_delete free a (s, h) = Some (s', h') \<Longrightarrow> object_step (s, h) (s', h')"
| find: "rt_object_find name type s = Some (x, s') \<Longrightarrow> object_step (s, h) (s', h)"

lemma object_allocate_registered:
  assumes "registered_ok s" "rt_object_allocate malloc object_size type name (s, h) = Some (x, s', h')"
    "\<And>a c. x = Some a \<Longrightarrow> Obj a \<notin> set (containers s c)"
  shows "registered_ok s'"
proof -
  obtain m h1 where m: "malloc (object_size type) h = (m, h1)" by fastforce
  have t: "type \<in> set rt_object_container"
    using assms(2) by (auto simp: rt_object_allocate_def Some_bind_iff Let_def get_information_iff)
  then have i: "rt_object_get_information type = Some type" by (simp add: get_information_iff)
  show ?thesis
  proof (cases m)
    case None
    then show ?thesis using assms(1,2) m i by (auto simp: rt_object_allocate_def Some_bind_iff Let_def)
  next
    case (Some a)
    then have s': "s' = container_insert_after type (Obj a)
        (upd_obj (Obj a) (\<lambda>_. \<lparr>obj_name = rt_name name, obj_type = type, obj_flag = 0\<rparr>) s)" and "x = Some a"
      using assms(2) m i by (auto simp: rt_object_allocate_def Some_bind_iff Let_def)
    then have n: "Obj a \<notin> set (containers s c)" for c using assms(3) by blast
    show ?thesis
      using assms(1) n t container_class_bits [OF t]
      unfolding registered_ok_def containers_ok_def s'
      by (auto simp: container_insert_after_def rt_object_get_type_def)
  qed
qed

lemma registered_frame:
  "registered_ok s \<Longrightarrow> containers s' = containers s \<Longrightarrow> objs s' = objs s \<Longrightarrow> registered_ok s'"
  by (simp add: registered_ok_def containers_ok_def rt_object_get_type_def)

lemma object_step_registered: "object_step x y \<Longrightarrow> registered_ok (fst x) \<Longrightarrow> registered_ok (fst y)"
proof (induction rule: object_step.induct)
  case (init r type name s s' h)
  then show ?case using object_init_registered by simp
next
  case (allocate malloc object_size type name s h x s' h')
  then show ?case using object_allocate_registered [of s malloc object_size type name h x s' h'] by simp
next
  case (detach s h r)
  then show ?case using object_detach_registered by simp
next
  case (delete free a s h s' h')
  then have "s' = rt_object_detach (Obj a) s"
    by (auto simp: rt_object_delete_def rt_object_detach_def Some_bind_iff Let_def)
  then show ?case using delete object_detach_registered by simp
next
  case (find name type s x s' h)
  then have "s' = s \<or> rt_exit_critical (rt_enter_critical s) = Some s'"
    by (auto simp: rt_object_find_def Some_bind_iff Let_def split: if_splits)
  moreover have "registered_ok s" using find by simp
  ultimately show ?case using registered_frame [of s s'] critical_frame by fastforce
qed

lemma object_init_finds_others:
  assumes "rt_object_init r type name s = Some s'" "rt_name other \<noteq> rt_name name"
    "\<And>c. r \<notin> set (containers s c)"
  shows "container_find type other s' = container_find type other s"
  using assms(1)
proof (cases rule: object_init_cases)
  case (1 l p c)
  have "List.find (\<lambda>x. take RT_NAME_MAX (obj_name (objs s' x)) = take RT_NAME_MAX other) (containers s type) =
      List.find (\<lambda>x. take RT_NAME_MAX (obj_name (objs s x)) = take RT_NAME_MAX other) (containers s type)"
    by (rule find_cong) (use 1 assms(3) [of type] in \<open>auto simp: container_insert_after_def\<close>)
  then show ?thesis using 1 assms(2) by (simp add: container_find_def container_insert_after_def rt_name_def)
qed

text \<open>C26: In every state that registrations and removals of objects reach from a well-formed registry,
  each object is in at most one container, once, and it is the container of the class its header
  names; an object just registered under a name is what a search for that name in its class returns,
  and the search for any other name returns what it did before.\<close>

theorem registry_finds:
  assumes "object_step\<^sup>*\<^sup>* (s0, h0) (s, h)" "registered_ok s0"
    "rt_object_init r type name s = Some s'" "\<And>c. r \<notin> set (containers s c)"
    "irq_nest s' = 0" "rt_exit_critical (rt_enter_critical s') = Some s2"
  shows "(\<forall>c q. q \<in> set (containers s' c) \<longrightarrow> rt_object_get_type q s' = c) \<and>
    (\<forall>c. distinct (containers s' c)) \<and>
    rt_object_find name type s' = Some (Some r, s2) \<and>
    (\<forall>other. rt_name other \<noteq> rt_name name \<longrightarrow>
       rt_object_find other type s' = Some (container_find type other s, s2))"
proof -
  have "registered_ok (fst y)" if "object_step\<^sup>*\<^sup>* x y" "registered_ok (fst x)" for x y :: "kern \<times> 'a"
    using that by (induction rule: rtranclp_induct) (auto intro: object_step_registered)
  from this [OF assms(1)] assms(2) have "registered_ok s" by simp
  then have g: "registered_ok s'" by (rule object_init_registered [OF _ assms(3,4)])
  have t: "type \<in> set rt_object_container" using assms(3) by (cases rule: object_init_cases)
  have cf: "container_find type n (rt_enter_critical s') = container_find type n s'" for n
    by (simp add: rt_enter_critical_def container_find_def)
  have find: "rt_object_find n type s' = Some (container_find type n s', s2)" for n
    using assms(5,6) t cf
    by (auto simp: rt_object_find_def RT_DEBUG_NOT_IN_INTERRUPT_def rt_object_container_def Let_def)
  show ?thesis
    using g find object_init_find [OF assms(3)] object_init_finds_others [OF assms(3) _ assms(4)]
    by (auto simp: registered_ok_def containers_ok_def)
qed

theorem registry_finds_witness:
  "\<exists>s'. rt_object_init (Obj 40) RT_Object_Class_Event ''evt'' (demo\<lparr>lock_nest := 1\<rparr>) = Some s' \<and>
     rt_object_find ''evt'' RT_Object_Class_Event s' = Some (Some (Obj 40), s')"
proof -
  let ?s = "demo\<lparr>lock_nest := 1\<rparr>"
  let ?s' = "container_insert_after RT_Object_Class_Event (Obj 40) (upd_obj (Obj 40)
      (\<lambda>ob. ob\<lparr>obj_type := RT_Object_Class_Event OR RT_Object_Class_Static, obj_name := rt_name ''evt''\<rparr>) ?s)"
  have cs: "containers demo = (\<lambda>c. if c = RT_Object_Class_Thread then [Obj 4, Obj 3, Obj 2, Obj 1]
       else if c = RT_Object_Class_Timer then [TimerOf 4, TimerOf 3, TimerOf 2, TimerOf 1] else [])"
    by (simp add: demo_def)
  have r: "registered_ok ?s"
    by (auto simp: registered_ok_def containers_ok_def cs rt_object_get_type_def rt_object_container_def
        split: if_splits)
  have i: "rt_object_init (Obj 40) RT_Object_Class_Event ''evt'' ?s = Some ?s'"
    by (simp add: rt_object_init_def rt_enter_critical_def rt_exit_critical_def cs)
  have e: "rt_exit_critical (rt_enter_critical ?s') = Some ?s'"
    by (simp add: rt_enter_critical_def rt_exit_critical_def container_insert_after_def)
  have n: "Obj 40 \<notin> set (containers ?s c)" for c by (simp add: cs)
  have "object_step\<^sup>*\<^sup>* (?s, ()) (?s, ())" by simp
  from registry_finds [OF this r i n _ e] i show ?thesis
    by (auto simp: container_insert_after_def)
qed

end
