(* ===== verification/Startup.thy ===== *)
theory Startup
  imports Thread_Props Timer_Check
begin

text \<open>
  The start of the system, \<^verbatim>\<open>rt-thread/src/components.c\<close>, with the thread of the soft timers
  (\<^verbatim>\<open>timer.c\<close>) and the idle thread (\<^verbatim>\<open>idle.c\<close>): what \<open>rtthread_startup\<close> sets up before it switches to the
  first thread, one pass of the timer thread, and the reclaiming of dead threads by the idle thread.

  Addresses that the linker fixes are fields of a record. The board's initialisation, the allocator and
  the cleanup functions of the threads are parameters.

  The lemmas follow the kernel invariant from memory without threads to the running system.
\<close>

section \<open>The code\<close>

record boot_image =
  sym_main_entry :: u32
  sym_exit :: u32
  sym_timer_thread :: tid
  sym_timer_entry :: u32
  sym_timer_stack :: u32
  sym_idle :: tid
  sym_idle_entry :: u32
  sym_idle_stack :: u32

definition rt_application_init ::
    "(nat \<Rightarrow> 'h \<Rightarrow> nat option \<times> 'h) \<Rightarrow> (nat \<Rightarrow> 'h \<Rightarrow> 'h option) \<Rightarrow> (u8 \<Rightarrow> nat) \<Rightarrow> boot_image \<Rightarrow> kern \<times> 'h \<Rightarrow> (kern \<times> 'h) option" where
  "rt_application_init malloc free object_size I sh = do {
     (tid, s, h) \<leftarrow> rt_thread_create malloc free object_size ''main'' (sym_main_entry I) 0 8192 10 20 (sym_exit I) sh;
     RT_ASSERT (tid \<noteq> None);
     t \<leftarrow> tid;
     (_, s) \<leftarrow> rt_thread_startup t s;
     Some (s, h) }"

definition rt_system_timer_thread_init :: "boot_image \<Rightarrow> kern \<Rightarrow> kern option" where
  "rt_system_timer_thread_init I s = do {
     let s = s\<lparr>soft_timer_list := []\<rparr>;
     (_, s) \<leftarrow> rt_thread_init (sym_timer_thread I) ''timer'' (sym_timer_entry I) 0 (sym_timer_stack I) 8192 1 10 (sym_exit I) s;
     (_, s) \<leftarrow> rt_thread_startup (sym_timer_thread I) s;
     Some s }"

definition rt_thread_idle_init :: "boot_image \<Rightarrow> kern \<Rightarrow> kern option" where
  "rt_thread_idle_init I s = do {
     (_, s) \<leftarrow> rt_thread_init (sym_idle I) ''tidle'' (sym_idle_entry I) 0 (sym_idle_stack I) 2048 255 32 (sym_exit I) s;
     (_, s) \<leftarrow> rt_thread_startup (sym_idle I) s;
     Some s }"

definition rtthread_startup ::
    "(nat \<Rightarrow> 'h \<Rightarrow> nat option \<times> 'h) \<Rightarrow> (nat \<Rightarrow> 'h \<Rightarrow> 'h option) \<Rightarrow> (u8 \<Rightarrow> nat) \<Rightarrow> (kern \<times> 'h \<Rightarrow> (kern \<times> 'h) option) \<Rightarrow>
     boot_image \<Rightarrow> kern \<times> 'h \<Rightarrow> (kern \<times> 'h) option" where
  "rtthread_startup malloc free object_size rt_hw_board_init I sh = do {
     (s, h) \<leftarrow> rt_hw_board_init sh;
     let s = rt_system_scheduler_init (rt_system_timer_init s);
     (s, h) \<leftarrow> rt_application_init malloc free object_size I (s, h);
     s \<leftarrow> rt_system_timer_thread_init I s;
     s \<leftarrow> rt_thread_idle_init I s;
     s \<leftarrow> rt_system_scheduler_start s;
     Some (s, h) }"

text \<open>One pass of the loop of \<open>rt_thread_timer_entry\<close>, up to the point where the thread waits; without a
  wait the timers are checked at once, and after one when the thread runs again.\<close>

definition rt_thread_timer_entry_wait :: "kern \<Rightarrow> (kret \<times> kern) option" where
  "rt_thread_timer_entry_wait s = do {
     let next_timeout = rt_timer_list_next_timeout (soft_timer_list s) s;
     if next_timeout = RT_TICK_MAX then do {
       t \<leftarrow> rt_thread_self s;
       (_, s) \<leftarrow> rt_thread_suspend t s;
       s \<leftarrow> rt_schedule s;
       Some (Parked t, s) }
     else if next_timeout - tick s < RT_TICK_MAX div 2 then rt_thread_delay (next_timeout - tick s) s
     else Some (Returned RT_EOK, s) }"

definition rt_thread_timer_entry_pass :: "(nat \<Rightarrow> kern \<Rightarrow> kern option) \<Rightarrow> kern \<Rightarrow> (kret \<times> kern) option" where
  "rt_thread_timer_entry_pass cb s = do {
     (r, s) \<leftarrow> rt_thread_timer_entry_wait s;
     (case r of
        Parked t \<Rightarrow> Some (Parked t, s)
      | Returned e \<Rightarrow> map_option (\<lambda>s. (Returned e, s)) (rt_soft_timer_check cb s)) }"

text \<open>The idle thread takes the dead threads off their list; the object and the stack of a thread that
  was created go back to the heap, a thread that was initialised is only taken from the registry, and
  ends the pass.\<close>

partial_function (option) rt_thread_idle_excute ::
    "(tid \<Rightarrow> kern \<Rightarrow> kern) \<Rightarrow> (nat \<Rightarrow> 'h \<Rightarrow> 'h option) \<Rightarrow> kern \<times> 'h \<Rightarrow> (kern \<times> 'h) option" where
  "rt_thread_idle_excute cleanup free sh =
     (case queues (fst sh) DefunctQ of
        [] \<Rightarrow> Some sh
      | t # _ \<Rightarrow>
          Option.bind (RT_DEBUG_NOT_IN_INTERRUPT (fst sh)) (\<lambda>_.
            let s1 = rt_enter_critical (tlist_remove t (fst sh));
                s2 = (if th_cleanup (thr s1 t) then cleanup t s1 else s1)
            in if rt_object_is_systemobject (Obj t) s2 then
                 Option.bind (rt_exit_critical (rt_object_detach (Obj t) s2)) (\<lambda>s3. Some (s3, snd sh))
               else
                 Option.bind (rt_exit_critical s2) (\<lambda>s3.
                 Option.bind (free (unat (th_stack_addr (thr s3 t))) (snd sh)) (\<lambda>h1.
                 Option.bind (rt_object_delete free t (s3, h1)) (\<lambda>sh2.
                   rt_thread_idle_excute cleanup free sh2)))))"

text \<open>The hooks of the idle thread: a table of four functions.\<close>

definition rt_thread_idle_sethook :: "'f \<Rightarrow> 'f option list \<Rightarrow> rt_err_t \<times> 'f option list" where
  "rt_thread_idle_sethook hook table =
     (let i = length (takeWhile (\<lambda>f. f \<noteq> None) table)
      in if i < length table then (RT_EOK, table[i := Some hook]) else (- RT_EFULL, table))"

definition rt_thread_idle_delhook :: "'f \<Rightarrow> 'f option list \<Rightarrow> rt_err_t \<times> 'f option list" where
  "rt_thread_idle_delhook hook table =
     (let i = length (takeWhile (\<lambda>f. f \<noteq> Some hook) table)
      in if i < length table then (RT_EOK, table[i := None]) else (- RT_ENOSYS, table))"

section \<open>The first threads\<close>

text \<open>Before the scheduler starts: no thread runs, and the scheduler is not locked.\<close>

definition booting :: "kern \<Rightarrow> bool" where
  "booting s \<longleftrightarrow> kinv s \<and> current s = None \<and> lock_nest s = 0 \<and> irq_nest s = 0 \<and>
     (\<forall>t. \<not> is_thread s t \<longrightarrow> Obj t \<notin> set (containers s RT_Object_Class_Thread) \<and>
        TimerOf t \<notin> set (containers s RT_Object_Class_Timer))"

lemma critical_boot: "current s = None \<Longrightarrow> lock_nest s = 0 \<Longrightarrow> rt_exit_critical (rt_enter_critical s) = Some s"
  by (cases s) (simp add: rt_exit_critical_def rt_enter_critical_def Let_def)

lemma object_init_boot:
  assumes "current s = None" "lock_nest s = 0" "rt_object_get_information type = Some type" "r \<notin> set (containers s type)"
  shows "rt_object_init r type name s = Some (container_insert_after type r
    (upd_obj r (\<lambda>ob. ob\<lparr>obj_type := type OR RT_Object_Class_Static, obj_name := rt_name name\<rparr>) s))"
proof -
  have "containers (rt_enter_critical s) = containers s" by (simp add: rt_enter_critical_def)
  then show ?thesis using assms critical_boot [OF assms(1,2)] by (simp add: rt_object_init_def Let_def)
qed

text \<open>The part that initialisation and creation share: the control block is set and the timer
  initialised.\<close>

lemma init0_boot:
  assumes "current s = None" "lock_nest s = 0" "TimerOf t \<notin> set (containers s RT_Object_Class_Timer)"
  obtains s' th where "rt_thread_init0 t entry parameter stack_start stack_size priority tik texit s = Some (RT_EOK, s')"
    "queues s' = queues s" "ready_group s' = ready_group s" "ready_table s' = ready_table s"
    "timer_list s' = timer_list s" "soft_timer_list s' = soft_timer_list s" "thr s' = (thr s)(t := th)"
    "th_stat th = RT_THREAD_INIT" "th_init_priority th = priority"
    "\<And>u. objs s' (Obj u) = objs s (Obj u)" "obj_type (objs s' (TimerOf t)) = 0x8a" "obj_flag (objs s' (TimerOf t)) = 0"
    "tm_func (tmr s' (TimerOf t)) = Thread_timeout t"
    "\<And>u. u \<noteq> t \<Longrightarrow> objs s' (TimerOf u) = objs s (TimerOf u) \<and> tmr s' (TimerOf u) = tmr s (TimerOf u)"
    "current s' = None" "lock_nest s' = 0" "irq_nest s' = irq_nest s"
    "containers s' = (containers s)(RT_Object_Class_Timer := TimerOf t # containers s RT_Object_Class_Timer)"
proof -
  define f where "f = rt_hw_stack_init entry parameter (stack_start + stack_size - 4) texit"
  define g where "g = (\<lambda>th :: rt_thread. th\<lparr>th_entry := entry, th_parameter := parameter,
        th_stack_addr := stack_start, th_stack_size := stack_size,
        th_stack_magic := initial_magic stack_start f, th_sp := fst f,
        th_init_priority := priority, th_current_priority := priority,
        th_number_mask := 0, th_number := 0, th_high_mask := 0,
        th_init_tick := tik, th_remaining_tick := tik,
        th_error := RT_EOK, th_stat := RT_THREAD_INIT, th_cleanup := False, th_user_data := 0\<rparr>)"
  have g: "th_stat (g th) = RT_THREAD_INIT" "th_init_priority (g th) = priority" for th by (simp_all add: g_def)
  let ?s1 = "upd_thr t g s"
  have i: "rt_object_init (TimerOf t) RT_Object_Class_Timer n ?s1 = Some (container_insert_after RT_Object_Class_Timer (TimerOf t)
      (upd_obj (TimerOf t) (\<lambda>ob. ob\<lparr>obj_type := RT_Object_Class_Timer OR RT_Object_Class_Static, obj_name := rt_name n\<rparr>) ?s1))" for n
    by (rule object_init_boot) (use assms in simp_all)
  define s' where "s' = rt_timer_init0 (TimerOf t) (Thread_timeout t) 0 RT_TIMER_FLAG_ONE_SHOT
      (container_insert_after RT_Object_Class_Timer (TimerOf t) (upd_obj (TimerOf t) (\<lambda>ob. ob\<lparr>obj_type :=
        RT_Object_Class_Timer OR RT_Object_Class_Static, obj_name := rt_name (obj_name (objs ?s1 (Obj t)))\<rparr>) ?s1))"
  have "rt_thread_init0 t entry parameter stack_start stack_size priority tik texit s = Some (RT_EOK, s')"
    using i unfolding rt_thread_init0_def rt_timer_init_def Let_def f_def [symmetric] s'_def by (simp add: g_def)
  then show ?thesis
    by (rule that [where th = "g (thr s t)"])
      (simp_all add: s'_def rt_timer_init0_def container_insert_after_def g assms)
qed

text \<open>A thread that has just been initialised or created.\<close>

definition born :: "tid \<Rightarrow> u8 \<Rightarrow> kern \<Rightarrow> kern \<Rightarrow> bool" where
  "born t priority s s' \<longleftrightarrow> booting s' \<and> queues s' = queues s \<and> thread_stat s' t = RT_THREAD_INIT \<and>
     th_init_priority (thr s' t) = priority \<and> (\<forall>u. is_thread s' u \<longleftrightarrow> u = t \<or> is_thread s u)"

lemma init0_born:
  assumes "booting s" "\<not> is_thread s t"
    and s1: "s1 = container_insert_after RT_Object_Class_Thread (Obj t) (upd_obj (Obj t) f s)"
    and ty: "obj_type (f (objs s (Obj t))) AND NOT RT_Object_Class_Static = RT_Object_Class_Thread"
  obtains s' where "rt_thread_init0 t entry parameter stack_start stack_size priority tik texit s1 = Some (RT_EOK, s')"
    "born t priority s s'"
proof -
  note b = assms(1) [unfolded booting_def]
  have f1: "current s1 = None" "lock_nest s1 = 0" "TimerOf t \<notin> set (containers s1 RT_Object_Class_Timer)"
    "irq_nest s1 = 0" using b assms(2) by (simp_all add: s1 container_insert_after_def)
  have s: "queues s1 = queues s" "ready_group s1 = ready_group s" "ready_table s1 = ready_table s"
    "timer_list s1 = timer_list s" "soft_timer_list s1 = soft_timer_list s" "thr s1 = thr s" "tmr s1 = tmr s"
    "objs s1 = (objs s)(Obj t := f (objs s (Obj t)))"
    "containers s1 = (containers s)(RT_Object_Class_Thread := Obj t # containers s RT_Object_Class_Thread)"
    by (simp_all add: s1 container_insert_after_def)
  obtain s' th where i: "rt_thread_init0 t entry parameter stack_start stack_size priority tik texit s1 = Some (RT_EOK, s')"
    and q: "queues s' = queues s1" "ready_group s' = ready_group s1" "ready_table s' = ready_table s1"
    "timer_list s' = timer_list s1" "soft_timer_list s' = soft_timer_list s1" "thr s' = (thr s1)(t := th)"
    and th: "th_stat th = RT_THREAD_INIT" "th_init_priority th = priority"
    and o: "\<And>u. objs s' (Obj u) = objs s1 (Obj u)" "obj_type (objs s' (TimerOf t)) = 0x8a" "obj_flag (objs s' (TimerOf t)) = 0"
    "tm_func (tmr s' (TimerOf t)) = Thread_timeout t"
    and ou: "\<And>u. u \<noteq> t \<Longrightarrow> objs s' (TimerOf u) = objs s1 (TimerOf u) \<and> tmr s' (TimerOf u) = tmr s1 (TimerOf u)"
    and c: "current s' = None" "lock_nest s' = 0" "irq_nest s' = irq_nest s1"
    "containers s' = (containers s1)(RT_Object_Class_Timer := TimerOf t # containers s1 RT_Object_Class_Timer)"
    by (rule init0_boot [OF f1(1-3), of entry parameter stack_start stack_size priority tik texit]) blast
  have it: "is_thread s' u \<longleftrightarrow> u = t \<or> is_thread s u" for u
    using ty by (simp add: rt_object_get_type_def o s)
  have "kinv s'"
    by (rule fresh_thread_kinv [where s = s and t = t and th = th]) (use b assms(2) it in \<open>simp_all add: q th o ou s\<close>)
  then have "booting s'" using b it by (auto simp: booting_def c f1 s)
  then have "born t priority s s'" using it by (simp add: born_def q s th)
  with i show ?thesis by (rule that)
qed

lemma init_born:
  assumes "booting s" "\<not> is_thread s t" "stack_start \<noteq> 0"
  obtains s' where "rt_thread_init t name entry parameter stack_start stack_size priority tik texit s = Some (RT_EOK, s')"
    "born t priority s s'"
proof -
  note b = assms(1) [unfolded booting_def]
  define f where "f = (\<lambda>ob :: rt_object. ob\<lparr>obj_type := RT_Object_Class_Thread OR RT_Object_Class_Static, obj_name := rt_name name\<rparr>)"
  let ?s1 = "container_insert_after RT_Object_Class_Thread (Obj t) (upd_obj (Obj t) f s)"
  have i: "rt_object_init (Obj t) RT_Object_Class_Thread name s = Some ?s1"
    unfolding f_def by (rule object_init_boot) (use b assms(2) in simp_all)
  have "obj_type (f ob) AND NOT RT_Object_Class_Static = RT_Object_Class_Thread" for ob by (simp add: f_def)
  then obtain s' where "rt_thread_init0 t entry parameter stack_start stack_size priority tik texit ?s1 = Some (RT_EOK, s')"
    "born t priority s s'"
    by (rule init0_born [OF assms(1,2) refl, where f = f])
  with that assms(3) i show ?thesis by (simp add: rt_thread_init_def)
qed

text \<open>Startup puts it at the end of the ready queue of its priority.\<close>

lemma startup_born:
  assumes "born t priority s s1"
  obtains s' where "rt_thread_startup t s1 = Some (RT_EOK, s')" "booting s'"
    "queues s' = (\<lambda>q. queues s q @ (if q = ReadyQ (unat priority) then [t] else []))"
    "\<And>u. is_thread s' u \<longleftrightarrow> u = t \<or> is_thread s u"
proof -
  note n = assms [unfolded born_def]
  note b = n [THEN conjunct1, unfolded booting_def]
  have it: "is_thread s1 t" and st: "thread_stat s1 t = RT_THREAD_INIT" using n by simp_all
  let ?s1 = "upd_thr t (\<lambda>th. (set_prio_attr (th\<lparr>th_current_priority := th_init_priority th\<rparr>))
                \<lparr>th_stat := RT_THREAD_SUSPEND\<rparr>) s1"
  have k1: "kinv ?s1" using b by (intro startup_suspended_kinv [OF _ it st]) simp
  have su: "is_thread ?s1 t" "thread_stat ?s1 t = RT_THREAD_SUSPEND" using it by (simp_all add: rt_object_get_type_def)
  have r: "rt_thread_resume t ?s1 = Some (RT_EOK, unpark t ?s1)" by (rule resume_eq [OF k1 su])
  have k2: "kinv (unpark t ?s1)" by (rule unpark_kinv [OF k1 su])
  have out: "t \<notin> set (queues s1 q)" for q
    using tinv_unlinked [OF kinvD(3) st] b by blast
  have it': "is_thread (unpark t ?s1) u \<longleftrightarrow> is_thread s1 u" for u by (simp add: rt_object_get_type_def)
  have s: "rt_thread_startup t s1 = Some (RT_EOK, unpark t ?s1)"
    using it st r b by (simp add: rt_thread_startup_def Let_def)
  show ?thesis
  proof (rule that [OF s])
    show "booting (unpark t ?s1)" using k2 b it' by (simp add: booting_def)
    show "queues (unpark t ?s1) = (\<lambda>q. queues s q @ (if q = ReadyQ (unat priority) then [t] else []))"
      using n out by (auto simp: fun_eq_iff)
    show "is_thread (unpark t ?s1) u \<longleftrightarrow> u = t \<or> is_thread s u" for u using n it' by blast
  qed
qed

section \<open>The running system\<close>

text \<open>Memory as the board hands it over: no thread, nothing listed.\<close>

definition no_threads :: "kern \<Rightarrow> bool" where
  "no_threads s \<longleftrightarrow> (\<forall>t. \<not> is_thread s t \<and> Obj t \<notin> set (containers s RT_Object_Class_Thread) \<and>
       TimerOf t \<notin> set (containers s RT_Object_Class_Timer)) \<and>
     (\<forall>q. (\<forall>p < 256. q \<noteq> ReadyQ p) \<and> q \<noteq> DefunctQ \<longrightarrow> queues s q = []) \<and> irq_nest s = 0"

lemma kinv_soft_clear: "kinv s \<Longrightarrow> kinv (s\<lparr>soft_timer_list := []\<rparr>)"
  by (simp add: kinv_def lists_ok_def bitmap_ok_def tinv_def thread_ok_def thread_timer_ok_def
      rt_object_get_type_def rt_object_is_systemobject_def)

lemma booting_soft_clear: "booting s \<Longrightarrow> booting (s\<lparr>soft_timer_list := []\<rparr>)"
  using kinv_soft_clear [of s] by (simp add: booting_def rt_object_get_type_def)

lemma inits_booting:
  assumes "no_threads s" "soft_timer_list s = []"
  shows "booting (rt_system_scheduler_init (rt_system_timer_init s))"
    "queues (rt_system_scheduler_init (rt_system_timer_init s)) = (\<lambda>_. [])"
proof -
  let ?s = "rt_system_scheduler_init (rt_system_timer_init s)"
  have n: "\<not> is_thread ?s t" "Obj t \<notin> set (containers ?s RT_Object_Class_Thread)"
    "TimerOf t \<notin> set (containers ?s RT_Object_Class_Timer)" for t
    using assms(1) by (simp_all add: no_threads_def rt_system_scheduler_init_def rt_system_timer_init_def rt_object_get_type_def)
  have "queues ?s q = []" for q
    using assms(1) by (cases q) (auto simp: no_threads_def rt_system_scheduler_init_def rt_system_timer_init_def)
  then show q: "queues ?s = (\<lambda>_. [])" by (simp add: fun_eq_iff)
  have r: "ready_group ?s = 0" "\<And>n. n < 32 \<Longrightarrow> ready_table ?s n = 0" "timer_list ?s = []" "soft_timer_list ?s = []"
    "current ?s = None" "lock_nest ?s = 0" "irq_nest ?s = 0"
    using assms by (simp_all add: no_threads_def rt_system_scheduler_init_def rt_system_timer_init_def)
  show "booting ?s"
    using n by (simp add: booting_def kinv_def lists_ok_def bitmap_ok_def tinv_def q r)
qed

text \<open>The three threads, each started in its turn.\<close>

lemma application_boot:
  assumes "booting s" "\<not> is_thread s m" "malloc (object_size RT_Object_Class_Thread) h = (Some m, h1)"
    "malloc 8192 h1 = (Some stack, h2)"
  obtains s' where "rt_application_init malloc free object_size I (s, h) = Some (s', h2)" "booting s'"
    "queues s' = (\<lambda>q. queues s q @ (if q = ReadyQ 10 then [m] else []))"
    "\<And>u. is_thread s' u \<longleftrightarrow> u = m \<or> is_thread s u"
proof -
  define f where "f = (\<lambda>_ :: rt_object. \<lparr>obj_name = rt_name ''main'', obj_type = RT_Object_Class_Thread, obj_flag = 0\<rparr>)"
  let ?s1 = "container_insert_after RT_Object_Class_Thread (Obj m) (upd_obj (Obj m) f s)"
  have "obj_type (f ob) AND NOT RT_Object_Class_Static = RT_Object_Class_Thread" for ob by (simp add: f_def)
  then obtain s2 where i: "rt_thread_init0 m (sym_main_entry I) 0 (of_nat stack) 8192 10 20 (sym_exit I) ?s1 = Some (RT_EOK, s2)"
    and b: "born m 10 s s2"
    by (rule init0_born [OF assms(1,2) refl, where f = f])
  obtain s' where "rt_thread_startup m s2 = Some (RT_EOK, s')" "booting s'"
    "queues s' = (\<lambda>q. queues s q @ (if q = ReadyQ (unat (10 :: u8)) then [m] else []))"
    "\<And>u. is_thread s' u \<longleftrightarrow> u = m \<or> is_thread s u"
    by (rule startup_born [OF b]) blast
  moreover have "rt_object_allocate malloc object_size RT_Object_Class_Thread ''main'' (s, h) = Some (Some m, ?s1, h1)"
    using assms(1,3) by (simp add: rt_object_allocate_def booting_def RT_DEBUG_NOT_IN_INTERRUPT_def f_def)
  ultimately show ?thesis using assms(4) i
    by (intro that [of s']) (simp_all add: rt_application_init_def rt_thread_create_def)
qed

lemma timer_thread_boot:
  assumes "booting s" "\<not> is_thread s (sym_timer_thread I)" "sym_timer_stack I \<noteq> 0"
  obtains s' where "rt_system_timer_thread_init I s = Some s'" "booting s'"
    "queues s' = (\<lambda>q. queues s q @ (if q = ReadyQ 1 then [sym_timer_thread I] else []))"
    "\<And>u. is_thread s' u \<longleftrightarrow> u = sym_timer_thread I \<or> is_thread s u"
proof -
  let ?s = "s\<lparr>soft_timer_list := []\<rparr>"
  have it: "is_thread ?s u \<longleftrightarrow> is_thread s u" for u by (simp add: rt_object_get_type_def)
  then have n: "\<not> is_thread ?s (sym_timer_thread I)" using assms(2) by blast
  obtain s1 where i: "rt_thread_init (sym_timer_thread I) ''timer'' (sym_timer_entry I) 0 (sym_timer_stack I) 8192 1 10
      (sym_exit I) ?s = Some (RT_EOK, s1)" and b: "born (sym_timer_thread I) 1 ?s s1"
    by (rule init_born [OF booting_soft_clear [OF assms(1)] n assms(3)])
  obtain s' where "rt_thread_startup (sym_timer_thread I) s1 = Some (RT_EOK, s')" "booting s'"
    "queues s' = (\<lambda>q. queues ?s q @ (if q = ReadyQ (unat (1 :: u8)) then [sym_timer_thread I] else []))"
    "\<And>u. is_thread s' u \<longleftrightarrow> u = sym_timer_thread I \<or> is_thread ?s u"
    by (rule startup_born [OF b]) blast
  then show ?thesis using i it by (intro that [of s']) (simp_all add: rt_system_timer_thread_init_def)
qed

lemma idle_boot:
  assumes "booting s" "\<not> is_thread s (sym_idle I)" "sym_idle_stack I \<noteq> 0"
  obtains s' where "rt_thread_idle_init I s = Some s'" "booting s'"
    "queues s' = (\<lambda>q. queues s q @ (if q = ReadyQ 255 then [sym_idle I] else []))"
    "\<And>u. is_thread s' u \<longleftrightarrow> u = sym_idle I \<or> is_thread s u"
proof -
  obtain s1 where i: "rt_thread_init (sym_idle I) ''tidle'' (sym_idle_entry I) 0 (sym_idle_stack I) 2048 255 32
      (sym_exit I) s = Some (RT_EOK, s1)" and b: "born (sym_idle I) 255 s s1"
    by (rule init_born [OF assms])
  obtain s' where "rt_thread_startup (sym_idle I) s1 = Some (RT_EOK, s')" "booting s'"
    "queues s' = (\<lambda>q. queues s q @ (if q = ReadyQ (unat (255 :: u8)) then [sym_idle I] else []))"
    "\<And>u. is_thread s' u \<longleftrightarrow> u = sym_idle I \<or> is_thread s u"
    by (rule startup_born [OF b]) blast
  then show ?thesis using i by (intro that [of s']) (simp_all add: rt_thread_idle_init_def)
qed

section \<open>Reclaiming dead threads\<close>

text \<open>The cleanup functions are those of applications that keep to their own data, the \<open>user_data\<close> words:
  the function of the thread \<open>t\<close> applies \<open>g t\<close>. One thread is taken off the list while the scheduler keeps
  its choice.\<close>

definition app_cleanup :: "(tid \<Rightarrow> (tid \<Rightarrow> u32) \<Rightarrow> tid \<Rightarrow> u32) \<Rightarrow> (tid \<Rightarrow> kern \<Rightarrow> kern) \<Rightarrow> bool" where
  "app_cleanup g cleanup \<longleftrightarrow> (\<forall>t s. cleanup t s = set_user_data (g t (user_data s)) s)"

definition cleaned :: "(tid \<Rightarrow> (tid \<Rightarrow> u32) \<Rightarrow> tid \<Rightarrow> u32) \<Rightarrow> tid \<Rightarrow> kern \<Rightarrow> kern" where
  "cleaned g t s = (if th_cleanup (thr s t) then set_user_data (g t (user_data s)) s else s)"

definition reclaimed :: "(tid \<Rightarrow> (tid \<Rightarrow> u32) \<Rightarrow> tid \<Rightarrow> u32) \<Rightarrow> tid \<Rightarrow> kern \<Rightarrow> kern" where
  "reclaimed g t s = rt_object_detach (Obj t) (cleaned g t (tlist_remove t s))"

lemma reclaimed_frame [simp]:
  "queues (reclaimed g t s) = (\<lambda>q. removeAll t (queues s q))" "current (reclaimed g t s) = current s"
  "lock_nest (reclaimed g t s) = lock_nest s" "irq_nest (reclaimed g t s) = irq_nest s"
  "th_stack_addr (thr (reclaimed g t s) u) = th_stack_addr (thr s u)"
  "th_cleanup (thr (reclaimed g t s) u) = th_cleanup (thr s u)"
  "objs (reclaimed g t s) = (objs s)(Obj t := (objs s (Obj t))\<lparr>obj_type := 0\<rparr>)"
  "containers (reclaimed g t s) = (\<lambda>c. removeAll (Obj t) (containers s c))"
  by (simp_all add: reclaimed_def cleaned_def rt_object_detach_def container_remove_def)

lemma reclaimed_data:
  "user_data (reclaimed g t s) = (if th_cleanup (thr s t) then g t (user_data s) else user_data s)"
proof -
  have d: "user_data (rt_object_detach r x) = user_data x" for r x
    by (simp add: user_data_def rt_object_detach_def container_remove_def)
  have "user_data (tlist_remove t s) = user_data s" by (simp add: user_data_def)
  then show ?thesis by (simp add: reclaimed_def d cleaned_def)
qed

text \<open>The scheduler is at rest: unlocked, no interrupt open, and the running thread is the one it would
  choose.\<close>

definition at_rest :: "kern \<Rightarrow> bool" where
  "at_rest s \<longleftrightarrow> lock_nest s = 0 \<and> irq_nest s = 0 \<and>
     (\<exists>p u. current s = Some u \<and> highest_ready_thread s = Some (p, u))"

lemma rest_schedule: "at_rest s \<Longrightarrow> rt_schedule s = Some s"
  by (auto simp: at_rest_def rt_schedule_def)

lemma highest_ready_cong:
  "ready_group s' = ready_group s \<Longrightarrow> ready_table s' = ready_table s \<Longrightarrow> (\<And>p. queues s' (ReadyQ p) = queues s (ReadyQ p)) \<Longrightarrow>
   highest_ready_thread s' = highest_ready_thread s"
  by (simp add: highest_ready_thread_def highest_ready_priority_def)

lemma rest_cong:
  assumes "at_rest s" "ready_group s' = ready_group s" "ready_table s' = ready_table s"
    "\<And>p. queues s' (ReadyQ p) = queues s (ReadyQ p)" "current s' = current s" "lock_nest s' = 0" "irq_nest s' = 0"
  shows "at_rest s'"
  using assms(1) highest_ready_cong [OF assms(2-4)] assms(5-7) by (simp add: at_rest_def)

lemma exit_at_rest:
  assumes "at_rest s"
  shows "rt_exit_critical (rt_enter_critical s) = Some s"
proof -
  have "(rt_enter_critical s)\<lparr>lock_nest := 0\<rparr> = s"
    using assms by (cases s) (simp add: rt_enter_critical_def at_rest_def)
  moreover have "current s \<noteq> None" "lock_nest s = 0" using assms by (auto simp: at_rest_def)
  ultimately show ?thesis using rest_schedule [OF assms]
    by (simp add: rt_exit_critical_def Let_def) (simp add: rt_enter_critical_def)
qed

text \<open>The frees of a pass, in their order: the stack, then the control block.\<close>

definition freed :: "kern \<Rightarrow> tid list \<Rightarrow> nat list" where
  "freed s ts = concat (map (\<lambda>t. [unat (th_stack_addr (thr s t)), t]) ts)"

lemma critical_commute:
  "cleaned g t (rt_enter_critical s) = rt_enter_critical (cleaned g t s)"
  "rt_object_detach r (rt_enter_critical s) = rt_enter_critical (rt_object_detach r s)"
  by (simp_all add: cleaned_def rt_enter_critical_def set_user_data_def user_data_def rt_object_detach_def
      container_remove_def)

lemma reclaimed_at_rest:
  assumes "at_rest s" "queues s DefunctQ = t # ts" "lists_ok s"
  shows "at_rest (cleaned g t (tlist_remove t s))" "at_rest (reclaimed g t s)"
proof -
  have n: "t \<notin> set (queues s (ReadyQ p))" for p
    using assms(2,3) unfolding lists_ok_def by (metis lhead.distinct(1) list.set_intros(1))
  show "at_rest (cleaned g t (tlist_remove t s))"
    by (rule rest_cong [OF assms(1)]) (use assms(1) n in \<open>simp_all add: at_rest_def cleaned_def tlist_remove_def\<close>)
  show "at_rest (reclaimed g t s)"
    by (rule rest_cong [OF assms(1)])
      (use assms(1) n in \<open>simp_all add: at_rest_def reclaimed_def cleaned_def rt_object_detach_def container_remove_def\<close>)
qed

text \<open>One turn of the loop: a thread that was created goes back to the heap and the loop goes on, one that
  was initialised is only detached and ends it.\<close>

lemma idle_step:
  assumes "at_rest s" "queues s DefunctQ = t # ts" "lists_ok s" "app_cleanup g cleanup"
  shows "rt_thread_idle_excute cleanup (\<lambda>a h. Some (h @ [a])) (s, h) =
      (if rt_object_is_systemobject (Obj t) s then Some (reclaimed g t s, h)
       else rt_thread_idle_excute cleanup (\<lambda>a h. Some (h @ [a])) (reclaimed g t s, h @ freed s [t]))"
proof -
  let ?c = "cleaned g t (tlist_remove t s)"
  note r = reclaimed_at_rest [OF assms(1-3), of g]
  have c: "(if th_cleanup (thr (rt_enter_critical (tlist_remove t s)) t) then cleanup t (rt_enter_critical (tlist_remove t s))
      else rt_enter_critical (tlist_remove t s)) = rt_enter_critical ?c"
    using assms(4) unfolding critical_commute(1) [symmetric] by (simp add: cleaned_def app_cleanup_def)
  have so: "rt_object_is_systemobject (Obj t) (rt_enter_critical ?c) = rt_object_is_systemobject (Obj t) s"
    by (simp add: rt_enter_critical_def rt_object_is_systemobject_def cleaned_def)
  have st: "th_stack_addr (thr ?c t) = th_stack_addr (thr s t)" by (simp add: cleaned_def)
  have d: "rt_object_delete (\<lambda>a h. Some (h @ [a])) t (?c, h') = Some (reclaimed g t s, h' @ [t])"
    if "\<not> rt_object_is_systemobject (Obj t) s" for h'
    using that so by (simp add: rt_object_delete_def reclaimed_def rt_object_detach_def rt_enter_critical_def
        rt_object_is_systemobject_def Let_def)
  have e: "rt_exit_critical (rt_object_detach (Obj t) (rt_enter_critical ?c)) = Some (reclaimed g t s)"
    using exit_at_rest [OF r(2)] by (simp add: critical_commute(2) reclaimed_def)
  have i: "irq_nest s = 0" using assms(1) by (simp add: at_rest_def)
  have "rt_thread_idle_excute cleanup (\<lambda>a h. Some (h @ [a])) (s, h) =
    (if rt_object_is_systemobject (Obj t) (rt_enter_critical ?c)
     then Option.bind (rt_exit_critical (rt_object_detach (Obj t) (rt_enter_critical ?c))) (\<lambda>s3. Some (s3, h))
     else Option.bind (rt_exit_critical (rt_enter_critical ?c)) (\<lambda>s3.
       Option.bind (rt_object_delete (\<lambda>a h. Some (h @ [a])) t (s3, h @ [unat (th_stack_addr (thr s3 t))]))
         (rt_thread_idle_excute cleanup (\<lambda>a h. Some (h @ [a])))))"
    using assms(2) i unfolding c [symmetric] by (subst rt_thread_idle_excute.simps) (simp add: Let_def RT_DEBUG_NOT_IN_INTERRUPT_def)
  then show ?thesis using d e exit_at_rest [OF r(1)] by (simp add: so st freed_def)
qed

lemma fold_reclaimed:
  "queues (fold (reclaimed g) ts s) q = filter (\<lambda>u. u \<notin> set ts) (queues s q)"
  "containers (fold (reclaimed g) ts s) c = filter (\<lambda>r. r \<notin> Obj ` set ts) (containers s c)"
  "current (fold (reclaimed g) ts s) = current s"
  "rt_object_get_type (Obj t) (fold (reclaimed g) ts s) = (if t \<in> set ts then 0 else rt_object_get_type (Obj t) s)"
  "user_data (fold (reclaimed g) ts s) = fold g (filter (\<lambda>t. th_cleanup (thr s t)) ts) (user_data s)"
proof (induction ts arbitrary: s t)
  case (Cons u ts)
  {
    case 1 show ?case by (simp add: Cons removeAll_filter_not_eq) (metis (mono_tags))
  next
    case 2 show ?case by (simp add: Cons removeAll_filter_not_eq) (metis (mono_tags))
  next
    case 3 show ?case by (simp add: Cons)
  next
    case 4
    have "rt_object_get_type (Obj t) (reclaimed g u s) = (if t = u then 0 else rt_object_get_type (Obj t) s)"
      by (simp add: rt_object_get_type_def)
    then show ?case by (cases "t = u") (simp_all add: Cons)
  next
    case 5 show ?case by (simp add: Cons reclaimed_data)
  }
qed (simp_all add: rt_object_get_type_def)

text \<open>The whole pass: the created threads in front, and the initialised one behind them.\<close>

definition created :: "kern \<Rightarrow> tid \<Rightarrow> bool" where
  "created s t \<longleftrightarrow> \<not> rt_object_is_systemobject (Obj t) s"

lemma idle_pass:
  assumes "at_rest s" "lists_ok s" "app_cleanup g cleanup"
  shows "rt_thread_idle_excute cleanup (\<lambda>a h. Some (h @ [a])) (s, h) =
    Some (fold (reclaimed g) (takeWhile (created s) (queues s DefunctQ) @ take 1 (dropWhile (created s) (queues s DefunctQ))) s,
      h @ freed s (takeWhile (created s) (queues s DefunctQ)))"
  using assms
proof (induction "queues s DefunctQ" arbitrary: s h)
  case Nil
  then show ?case by (simp add: rt_thread_idle_excute.simps [of _ _ "(s, h)"] freed_def)
next
  case (Cons t ts)
  note q = Cons.hyps(2) [symmetric]
  note st = idle_step [OF Cons.prems(1) q Cons.prems(2,3)]
  show ?case
  proof (cases "created s t")
    case False
    then show ?thesis using st by (simp add: created_def q [symmetric] freed_def) (simp add: q created_def)
  next
    case True
    have d: "t \<notin> set ts" using Cons.prems(2) q unfolding lists_ok_def by (metis distinct.simps(2))
    have q2: "queues (reclaimed g t s) DefunctQ = ts" using q d by simp
    have l: "lists_ok (reclaimed g t s)" by (rule lists_ok_removeAll [OF Cons.prems(2)]) simp
    have cr: "created (reclaimed g t s) u = created s u" if "u \<in> set ts" for u
      using that d by (auto simp: created_def rt_object_is_systemobject_def)
    then have w: "takeWhile (created (reclaimed g t s)) ts = takeWhile (created s) ts"
      "dropWhile (created (reclaimed g t s)) ts = dropWhile (created s) ts"
      by (auto intro!: takeWhile_cong dropWhile_cong)
    from Cons.hyps(1) [OF q2 [symmetric] reclaimed_at_rest(2) [OF Cons.prems(1) q Cons.prems(2)] l Cons.prems(3), of "h @ freed s [t]"]
    show ?thesis using st True unfolding q2 w by (simp add: q created_def [symmetric] freed_def)
  qed
qed

end
