(* ===== verification/Startup_Props.thy ===== *)
theory Startup_Props
  imports Startup
begin

text \<open>
  What the start of the system establishes: the state in which every other property of the kernel
  begins.
\<close>

text \<open>C32: From memory without threads, with an allocator that serves the two requests of the main thread
  and with the statically placed timer and idle threads elsewhere, \<open>rtthread_startup\<close> does reach the first
  thread: all assertions on the way hold, exactly three threads exist, each stands alone in the ready
  queue of its priority (timer thread 1, main thread 10, idle thread 255), nothing else is listed, the
  thread that runs is the timer thread, the scheduler is unlocked and no interrupt is open, and the
  kernel invariant holds.\<close>

theorem startup_reaches_first_thread:
  assumes board: "rt_hw_board_init sh = Some (s, h)" "no_threads s" "soft_timer_list s = []"
    and alloc: "malloc (object_size RT_Object_Class_Thread) h = (Some m, h1)" "malloc 8192 h1 = (Some stack, h2)"
    and image: "distinct [m, sym_timer_thread I, sym_idle I]" "sym_timer_stack I \<noteq> 0" "sym_idle_stack I \<noteq> 0"
  shows "\<exists>s'. rtthread_startup malloc free object_size rt_hw_board_init I sh = Some (s', h2) \<and> kinv s' \<and>
    current s' = Some (sym_timer_thread I) \<and> lock_nest s' = 0 \<and> irq_nest s' = 0 \<and>
    {u. is_thread s' u} = {m, sym_timer_thread I, sym_idle I} \<and>
    queues s' = (\<lambda>q. if q = ReadyQ 1 then [sym_timer_thread I] else if q = ReadyQ 10 then [m]
      else if q = ReadyQ 255 then [sym_idle I] else [])"
proof -
  define s0 where "s0 = rt_system_scheduler_init (rt_system_timer_init s)"
  have b0: "booting s0" and q0: "queues s0 = (\<lambda>_. [])" unfolding s0_def by (rule inits_booting [OF board(2,3)])+
  have n0: "\<not> is_thread s0 u" for u
    using board(2) by (simp add: s0_def no_threads_def rt_system_scheduler_init_def rt_system_timer_init_def rt_object_get_type_def)
  obtain s1 where s1: "rt_application_init malloc free object_size I (s0, h) = Some (s1, h2)" "booting s1"
    and q1: "queues s1 = (\<lambda>q. queues s0 q @ (if q = ReadyQ 10 then [m] else []))"
    and t1: "\<And>u. is_thread s1 u \<longleftrightarrow> u = m \<or> is_thread s0 u"
    by (rule application_boot [where free = free and I = I and object_size = object_size, OF b0 n0 alloc]) blast
  have "\<not> is_thread s1 (sym_timer_thread I)" using t1 n0 image(1) by auto
  then obtain s2 where s2: "rt_system_timer_thread_init I s1 = Some s2" "booting s2"
    and q2: "queues s2 = (\<lambda>q. queues s1 q @ (if q = ReadyQ 1 then [sym_timer_thread I] else []))"
    and t2: "\<And>u. is_thread s2 u \<longleftrightarrow> u = sym_timer_thread I \<or> is_thread s1 u"
    by (rule timer_thread_boot [OF s1(2) _ image(2)]) blast
  have "\<not> is_thread s2 (sym_idle I)" using t1 t2 n0 image(1) by auto
  then obtain s3 where s3: "rt_thread_idle_init I s2 = Some s3" "booting s3"
    and q3: "queues s3 = (\<lambda>q. queues s2 q @ (if q = ReadyQ 255 then [sym_idle I] else []))"
    and t3: "\<And>u. is_thread s3 u \<longleftrightarrow> u = sym_idle I \<or> is_thread s2 u"
    by (rule idle_boot [OF s2(2) _ image(3)]) blast
  have b: "kinv s3" "lock_nest s3 = 0" "irq_nest s3 = 0" using s3(2) by (simp_all add: booting_def)
  have q: "queues s3 = (\<lambda>q. if q = ReadyQ 1 then [sym_timer_thread I] else if q = ReadyQ 10 then [m]
      else if q = ReadyQ 255 then [sym_idle I] else [])"
    by (simp add: fun_eq_iff q3 q2 q1 q0)
  then have "highest_ready_thread s3 = Some (1, sym_timer_thread I)"
    by (simp add: highest_ready_thread_spec [OF kinvD(2) [OF b(1)]])
  then have r: "rtthread_startup malloc free object_size rt_hw_board_init I sh =
      Some (s3\<lparr>current := Some (sym_timer_thread I)\<rparr>, h2)"
    using board(1) s1(1) s2(1) s3(1) by (simp add: rtthread_startup_def rt_system_scheduler_start_def s0_def [symmetric] Let_def)
  have k: "kinv (s3\<lparr>current := Some (sym_timer_thread I)\<rparr>)" by (rule kinv_frame [OF b(1)]) simp_all
  have "{u. is_thread s3 u} = {m, sym_timer_thread I, sym_idle I}" using t1 t2 t3 n0 by auto
  then have "{u. is_thread (s3\<lparr>current := Some (sym_timer_thread I)\<rparr>) u} = {m, sym_timer_thread I, sym_idle I}"
    by (simp add: rt_object_get_type_def)
  then show ?thesis using r k b q by (intro exI [of _ "s3\<lparr>current := Some (sym_timer_thread I)\<rparr>"] conjI) simp_all
qed

definition cold :: kern where
  "cold = demo\<lparr>objs := (\<lambda>_. \<lparr>obj_name = '''', obj_type = 0, obj_flag = 0\<rparr>), containers := (\<lambda>_. []), queues := (\<lambda>_. []),
     current := None, timer_list := []\<rparr>"

definition image :: boot_image where
  "image = \<lparr>sym_main_entry = 0x8001, sym_exit = 0x8101, sym_timer_thread = 0x20000100, sym_timer_entry = 0x8201,
     sym_timer_stack = 0x20001000, sym_idle = 0x20000200, sym_idle_entry = 0x8301, sym_idle_stack = 0x20003000\<rparr>"

theorem startup_reaches_first_thread_witness:
  "\<exists>s'. rtthread_startup (\<lambda>n h. (Some h, h + n)) (\<lambda>_ h. Some h) (\<lambda>_. 128) (\<lambda>_. Some (cold, 0x20010000)) image (cold, 0) =
      Some (s', 0x20012080) \<and> current s' = Some 0x20000100 \<and> queues s' (ReadyQ 10) = [0x20010000]"
proof -
  have n: "no_threads cold" by (simp add: no_threads_def cold_def rt_object_get_type_def demo_def)
  have c: "soft_timer_list cold = []" by (simp add: cold_def demo_def)
  show ?thesis
    using startup_reaches_first_thread [of "\<lambda>_. Some (cold, 0x20010000)" "(cold, 0)" cold "0x20010000"
        "\<lambda>n h. (Some h, h + n)" "\<lambda>_. 128" "0x20010000" "0x20010080" "0x20010080" "0x20012080" image "\<lambda>_ h. Some h",
        OF refl n c] by (fastforce simp: image_def)
qed





end
