(* ===== verification/Format.thy ===== *)
theory Format
  imports Kservice "HOL-Library.Char_ord"
begin

text \<open>
  The formatted output of \<^verbatim>\<open>rt-thread/src/kservice.c\<close>: \<open>print_number\<close>, \<open>rt_vsnprintf\<close> and its callers.
  \<^verbatim>\<open>RT_PRINTF_PRECISION\<close> is defined, \<^verbatim>\<open>RT_PRINTF_LONGLONG\<close> and \<^verbatim>\<open>RT_PRINTF_SPECIAL\<close> are not, and
  \<^verbatim>\<open>long\<close> has 32 bits.

  The buffer is a function from offsets to characters, the printer its content and the offset \<open>str\<close> of
  the next character, which counts on behind the end, where nothing is written. The format and the
  string arguments are character lists without the terminator. \<open>None\<close> is behaviour that C leaves
  undefined: an argument of the wrong type or none at all, or an \<^verbatim>\<open>int\<close> that overflows.

  The lemmas show that every step of the printer emits one list of characters that does not depend on
  the size of the buffer.
\<close>

section \<open>The code\<close>

record printer =
  pr_str :: nat
  pr_buf :: "nat \<Rightarrow> char"

text \<open>\<open>if (str < end) *str = c; ++ str\<close>\<close>

definition emit :: "nat \<Rightarrow> char \<Rightarrow> printer \<Rightarrow> printer" where
  "emit en c p =
     (let p1 = (if pr_str p < en then p\<lparr>pr_buf := (pr_buf p)(pr_str p := c)\<rparr> else p)
      in p1\<lparr>pr_str := pr_str p1 + 1\<rparr>)"

definition is_digit :: "char \<Rightarrow> bool" where
  "is_digit c \<longleftrightarrow> 48 \<le> (of_char c :: nat) \<and> (of_char c :: nat) < 58"

definition INT_MAX :: int where "INT_MAX = 2 ^ 31 - 1"

text \<open>The digits in front of the rest of the string, from the value \<open>i\<close>.\<close>

fun skip_atoi_from :: "int \<Rightarrow> string \<Rightarrow> (int \<times> string) option" where
  "skip_atoi_from i (c # s) =
     (if is_digit c then
        (let j = i * 10 + of_char c - 48
         in if i * 10 + of_char c \<le> INT_MAX then skip_atoi_from j s else None)
      else Some (i, c # s))"
| "skip_atoi_from i [] = Some (i, [])"

definition skip_atoi :: "string \<Rightarrow> (int \<times> string) option" where
  "skip_atoi = skip_atoi_from 0"

abbreviation (input) ZEROPAD :: u8 where "ZEROPAD \<equiv> 1"
abbreviation (input) SIGN :: u8 where "SIGN \<equiv> 2"
abbreviation (input) PLUS :: u8 where "PLUS \<equiv> 4"
abbreviation (input) SPACE :: u8 where "SPACE \<equiv> 8"
abbreviation (input) LEFT :: u8 where "LEFT \<equiv> 16"
abbreviation (input) SPECIAL :: u8 where "SPECIAL \<equiv> 32"
abbreviation (input) LARGE :: u8 where "LARGE \<equiv> 64"

definition divide :: "u32 \<Rightarrow> int \<Rightarrow> nat \<times> u32" where
  "divide n base = (if base = 10 then (unat (n mod 10), n div 10) else (unat (n mod 16), n div 16))"

lemma divide_less: "num \<noteq> 0 \<Longrightarrow> unat (snd (divide num base)) < unat num"
  by (auto simp: divide_def unat_div unat_gt_0)

text \<open>\<open>while (num != 0) tmp[i++] = digits[divide(&num, base)]\<close>\<close>

function number_digits :: "string \<Rightarrow> u32 \<Rightarrow> int \<Rightarrow> string" where
  "number_digits digits num base =
     (if num \<noteq> 0 then digits ! fst (divide num base) # number_digits digits (snd (divide num base)) base
      else [])"
  by pat_completeness auto
termination by (relation "measure (\<lambda>(digits, num, base). unat num)") (auto simp: divide_less)

text \<open>\<open>while (size-- > 0) { emit c }\<close>\<close>

function pad :: "nat \<Rightarrow> char \<Rightarrow> int \<times> printer \<Rightarrow> int \<times> printer" where
  "pad en c (sz, p) = (if sz > 0 then pad en c (sz - 1, emit en c p) else (sz - 1, p))"
  by pat_completeness auto
termination by (relation "measure (\<lambda>(en, c, sz, p). nat sz)") auto

fun emits :: "nat \<Rightarrow> string \<Rightarrow> printer \<Rightarrow> printer" where
  "emits en [] p = p"
| "emits en (c # cs) p = emits en cs (emit en c p)"

definition small_digits :: string where "small_digits = ''0123456789abcdef''"
definition large_digits :: string where "large_digits = ''0123456789ABCDEF''"

definition number_sign :: "u8 \<Rightarrow> u32 \<Rightarrow> char option \<times> u32" where
  "number_sign type num =
     (if type AND SIGN \<noteq> 0 then
        if sint num < 0 then (Some CHR ''-'', - num)
        else if type AND PLUS \<noteq> 0 then (Some CHR ''+'', num)
        else if type AND SPACE \<noteq> 0 then (Some CHR '' '', num)
        else (None, num)
      else (None, num))"

text \<open>The part of \<open>print_number\<close> behind the digits: \<open>sz\<close> places to fill, \<open>zeros\<close> zeros of the precision.\<close>

definition print_layout ::
    "nat \<Rightarrow> u8 \<Rightarrow> char option \<Rightarrow> int \<Rightarrow> int \<Rightarrow> bool \<Rightarrow> string \<Rightarrow> printer \<Rightarrow> printer" where
  "print_layout en type sign sz zeros show_digits tmp p =
     (let c = (if type AND ZEROPAD \<noteq> 0 then CHR ''0'' else CHR '' '');
          (sz, p) = (if type AND (ZEROPAD OR LEFT) = 0
            then pad en CHR '' '' (if sign \<noteq> None \<and> sz > 0 then sz - 1 else sz, p) else (sz, p));
          (sz, p) = (case sign of Some sg \<Rightarrow> (sz - 1, emit en sg p) | None \<Rightarrow> (sz, p));
          (sz, p) = (if type AND LEFT = 0 then pad en c (sz, p) else (sz, p));
          p = snd (pad en CHR ''0'' (zeros, p));
          p = (if show_digits then emits en (rev tmp) p else p)
      in snd (pad en CHR '' '' (sz, p)))"

definition print_number :: "nat \<Rightarrow> u32 \<Rightarrow> int \<Rightarrow> int \<Rightarrow> int \<Rightarrow> u8 \<Rightarrow> printer \<Rightarrow> printer" where
  "print_number en num base s precision type p =
     (let precision_bak = precision;
          digits = (if type AND LARGE \<noteq> 0 then large_digits else small_digits);
          type = (if type AND LEFT \<noteq> 0 then type AND NOT ZEROPAD else type);
          (sign, num) = number_sign type num;
          tmp = (if num = 0 then ''0'' else number_digits digits num base);
          i = int (length tmp);
          precision = (if i > precision then i else precision)
      in print_layout en type sign (s - precision) (precision - i) (precision_bak \<noteq> 0) tmp p)"

section \<open>The format\<close>

datatype varg = Int_arg u32 | Str_arg "string option" | Ptr_arg u32

fun next_int :: "varg list \<Rightarrow> (u32 \<times> varg list) option" where
  "next_int (Int_arg w # args) = Some (w, args)"
| "next_int _ = None"

text \<open>The flags behind the percent sign.\<close>

fun scan_flags :: "u8 \<Rightarrow> string \<Rightarrow> u8 \<times> string" where
  "scan_flags flags [] = (flags, [])"
| "scan_flags flags (c # fmt) =
     (if c = CHR ''-'' then scan_flags (flags OR LEFT) fmt
      else if c = CHR ''+'' then scan_flags (flags OR PLUS) fmt
      else if c = CHR '' '' then scan_flags (flags OR SPACE) fmt
      else if c = CHR ''#'' then scan_flags (flags OR SPECIAL) fmt
      else if c = CHR ''0'' then scan_flags (flags OR ZEROPAD) fmt
      else (flags, c # fmt))"

definition scan_width :: "u8 \<Rightarrow> string \<Rightarrow> varg list \<Rightarrow> (int \<times> u8 \<times> string \<times> varg list) option" where
  "scan_width flags fmt args =
     (case fmt of
        [] \<Rightarrow> Some (- 1, flags, fmt, args)
      | c # fmt' \<Rightarrow>
          if is_digit c then map_option (\<lambda>(w, rest). (w, flags, rest, args)) (skip_atoi fmt)
          else if c = CHR ''*'' then do {
            (w, args) \<leftarrow> next_int args;
            if sint w < 0 then
              (if - sint w > INT_MAX then None else Some (- sint w, flags OR LEFT, fmt', args))
            else Some (sint w, flags, fmt', args) }
          else Some (- 1, flags, fmt, args))"

definition precision_digits :: "string \<Rightarrow> varg list \<Rightarrow> (int \<times> string \<times> varg list) option" where
  "precision_digits fmt args =
     (case fmt of
        [] \<Rightarrow> Some (- 1, fmt, args)
      | c # fmt' \<Rightarrow>
          if is_digit c then map_option (\<lambda>(w, rest). (w, rest, args)) (skip_atoi fmt)
          else if c = CHR ''*'' then map_option (\<lambda>(w, args). (sint w, fmt', args)) (next_int args)
          else Some (- 1, fmt, args))"

definition scan_precision :: "string \<Rightarrow> varg list \<Rightarrow> (int \<times> string \<times> varg list) option" where
  "scan_precision fmt args =
     (case fmt of
        [] \<Rightarrow> Some (- 1, fmt, args)
      | c # fmt' \<Rightarrow>
          if c = CHR ''.'' then
            map_option (\<lambda>(precision, rest). (if precision < 0 then 0 else precision, rest)) (precision_digits fmt' args)
          else Some (- 1, fmt, args))"

definition scan_qualifier :: "string \<Rightarrow> char option \<times> string" where
  "scan_qualifier fmt =
     (case fmt of
        c # fmt' \<Rightarrow> if c = CHR ''h'' \<or> c = CHR ''l'' then (Some c, fmt') else (None, fmt)
      | [] \<Rightarrow> (None, fmt))"

text \<open>The number that the argument stands for.\<close>

definition number_arg :: "char option \<Rightarrow> u8 \<Rightarrow> u32 \<Rightarrow> u32" where
  "number_arg qualifier flags arg =
     (if qualifier = Some CHR ''h'' then
        (let num = ucast arg :: u16 in if flags AND SIGN \<noteq> 0 then scast num else ucast num)
      else arg)"

text \<open>\<open>while (--field_width > 0) emit\<close>, and \<open>while (len < field_width--) emit\<close>\<close>

function pad_char :: "nat \<Rightarrow> int \<times> printer \<Rightarrow> int \<times> printer" where
  "pad_char en (w, p) = (if w - 1 > 0 then pad_char en (w - 1, emit en CHR '' '' p) else (w - 1, p))"
  by pat_completeness auto
termination by (relation "measure (\<lambda>(en, w, p). nat w)") auto

function pad_str :: "nat \<Rightarrow> int \<Rightarrow> int \<times> printer \<Rightarrow> int \<times> printer" where
  "pad_str en len (w, p) = (if len < w then pad_str en len (w - 1, emit en CHR '' '' p) else (w - 1, p))"
  by pat_completeness auto
termination by (relation "measure (\<lambda>(en, len, w, p). nat (w - len))") auto

definition convert_char :: "nat \<Rightarrow> u8 \<Rightarrow> int \<Rightarrow> u32 \<Rightarrow> printer \<Rightarrow> printer" where
  "convert_char en flags w arg p =
     (let (w, p) = (if flags AND LEFT = 0 then pad_char en (w, p) else (w, p));
          p = emit en (char_of (unat arg)) p
      in snd (pad_char en (w, p)))"

definition convert_str :: "nat \<Rightarrow> u8 \<Rightarrow> int \<Rightarrow> int \<Rightarrow> string option \<Rightarrow> printer \<Rightarrow> printer" where
  "convert_str en flags w precision arg p =
     (let s = (case arg of Some s \<Rightarrow> s | None \<Rightarrow> ''(NULL)'');
          len = (if precision > 0 \<and> int (length s) > precision then precision else int (length s));
          (w, p) = (if flags AND LEFT = 0 then pad_str en len (w, p) else (w, p));
          p = emits en (take (nat len) s) p
      in snd (pad_str en len (w, p)))"

definition convert_number ::
    "nat \<Rightarrow> int \<Rightarrow> u8 \<Rightarrow> int \<Rightarrow> int \<Rightarrow> char option \<Rightarrow> varg list \<Rightarrow> printer \<Rightarrow> (varg list \<times> printer) option" where
  "convert_number en base flags w precision qualifier args p =
     map_option (\<lambda>(arg, args). (args, print_number en (number_arg qualifier flags arg) base w precision flags p))
       (next_int args)"

definition convert ::
    "nat \<Rightarrow> u8 \<Rightarrow> int \<Rightarrow> int \<Rightarrow> char option \<Rightarrow> char \<Rightarrow> varg list \<Rightarrow> printer \<Rightarrow> (varg list \<times> printer) option" where
  "convert en flags w precision qualifier c args p =
     (if c = CHR ''c'' then map_option (\<lambda>(arg, args). (args, convert_char en flags w arg p)) (next_int args)
      else if c = CHR ''s'' then
        (case args of
           Str_arg s # args \<Rightarrow> Some (args, convert_str en flags w precision s p)
         | _ \<Rightarrow> None)
      else if c = CHR ''p'' then
        (case args of
           Ptr_arg a # args \<Rightarrow>
             (let (w, flags) = (if w = - 1 then (8, flags OR ZEROPAD) else (w, flags))
              in Some (args, print_number en a 16 w precision flags p))
         | _ \<Rightarrow> None)
      else if c = CHR ''%'' then Some (args, emit en CHR ''%'' p)
      else if c = CHR ''o'' then convert_number en 8 flags w precision qualifier args p
      else if c = CHR ''X'' then convert_number en 16 (flags OR LARGE) w precision qualifier args p
      else if c = CHR ''x'' then convert_number en 16 flags w precision qualifier args p
      else if c = CHR ''d'' \<or> c = CHR ''i'' then
        convert_number en 10 (flags OR SIGN) w precision qualifier args p
      else if c = CHR ''u'' then convert_number en 10 flags w precision qualifier args p
      else Some (args, emit en c (emit en CHR ''%'' p)))"

lemma skip_atoi_from_length: "skip_atoi_from i s = Some (j, r) \<Longrightarrow> length r \<le> length s"
  by (induction i s rule: skip_atoi_from.induct) (fastforce split: if_splits simp: Let_def)+

lemma scan_flags_length: "length (snd (scan_flags f s)) \<le> length s"
  by (induction f s rule: scan_flags.induct) (auto simp: le_SucI)

lemma scan_width_length: "scan_width f s args = Some (w, f', r, args') \<Longrightarrow> length r \<le> length s"
  using skip_atoi_from_length [of 0 s]
  by (fastforce simp: scan_width_def skip_atoi_def Some_bind_iff split: list.splits if_splits)

lemma precision_digits_length: "precision_digits s args = Some (w, r, args') \<Longrightarrow> length r \<le> length s"
  using skip_atoi_from_length [of 0 s]
  by (auto simp: precision_digits_def skip_atoi_def split: list.splits if_splits)

lemma scan_precision_length:
  assumes "scan_precision s args = Some (w, r, args')"
  shows "length r \<le> length s"
proof (cases s)
  case (Cons c fmt)
  show ?thesis
  proof (cases "c = CHR ''.''")
    case True
    then obtain z where z: "precision_digits fmt args = Some (z, r, args')"
      using assms Cons by (simp add: scan_precision_def split_beta) (metis prod.collapse)
    show ?thesis using precision_digits_length [OF z] Cons by simp
  qed (use assms Cons in \<open>simp add: scan_precision_def\<close>)
qed (use assms in \<open>simp add: scan_precision_def\<close>)

lemma scan_qualifier_length: "length (snd (scan_qualifier s)) \<le> length s"
  by (auto simp: scan_qualifier_def split: list.splits)

text \<open>Flags, width, precision and qualifier, behind the percent sign: what is left of the format and
  the arguments. The format ends up shorter, so the loop ends.\<close>

definition scan_spec ::
    "string \<Rightarrow> varg list \<Rightarrow> (u8 \<times> int \<times> int \<times> char option \<times> string \<times> varg list) option" where
  "scan_spec fmt args = do {
     let (flags, fmt) = scan_flags 0 fmt;
     (w, flags, fmt, args) \<leftarrow> scan_width flags fmt args;
     (precision, fmt, args) \<leftarrow> scan_precision fmt args;
     let (qualifier, fmt) = scan_qualifier fmt;
     Some (flags, w, precision, qualifier, fmt, args) }"

lemma scan_spec_length:
  assumes "scan_spec s args = Some (f, w, pr, q, r, args')"
  shows "length r \<le> length s"
proof -
  obtain f1 s1 where 1: "scan_flags 0 s = (f1, s1)" by fastforce
  obtain f2 w2 s2 a2 where 2: "scan_width f1 s1 args = Some (w2, f2, s2, a2)"
    using assms 1 by (auto simp: scan_spec_def Some_bind_iff)
  obtain p3 s3 a3 where 3: "scan_precision s2 a2 = Some (p3, s3, a3)"
    using assms 1 2 by (auto simp: scan_spec_def Some_bind_iff)
  have "r = snd (scan_qualifier s3)"
    using assms 1 2 3 by (simp add: scan_spec_def split: prod.splits)
  then show ?thesis
    using scan_flags_length [of 0 s] scan_width_length [OF 2] scan_precision_length [OF 3]
      scan_qualifier_length [of s3] 1 by simp
qed

text \<open>At the end of the format, behind a lone percent sign, the code steps back to the sign and the
  loop ends.\<close>

declare bind_option_cong [fundef_cong]

function vsn_loop :: "nat \<Rightarrow> string \<Rightarrow> varg list \<Rightarrow> printer \<Rightarrow> printer option" where
  "vsn_loop en fmt args p =
     (case fmt of
        [] \<Rightarrow> Some p
      | c # fmt' \<Rightarrow>
          if c \<noteq> CHR ''%'' then vsn_loop en fmt' args (emit en c p)
          else Option.bind (scan_spec fmt' args) (\<lambda>(flags, w, precision, qualifier, rest, args').
            case rest of
              [] \<Rightarrow> Some (emit en CHR ''%'' p)
            | d # rest' \<Rightarrow>
                Option.bind (convert en flags w precision qualifier d args' p)
                  (\<lambda>(args'', p'). vsn_loop en rest' args'' p')))"
  by pat_completeness auto
termination
  by (relation "measure (\<lambda>(en, fmt, args, p). length fmt)") (fastforce dest: scan_spec_length)+

declare vsn_loop.simps [simp del] number_digits.simps [simp del] pad.simps [simp del]
  pad_char.simps [simp del] pad_str.simps [simp del]

text \<open>The buffer starts at address \<open>b\<close>; an end behind the last address is moved to it.\<close>

definition buffer_room :: "nat \<Rightarrow> nat \<Rightarrow> nat" where
  "buffer_room b size0 = (if b + size0 \<ge> 2 ^ 32 then 2 ^ 32 - 1 - b else size0)"

definition rt_vsnprintf :: "nat \<Rightarrow> nat \<Rightarrow> string \<Rightarrow> varg list \<Rightarrow> (nat \<Rightarrow> char) \<Rightarrow> (nat \<times> (nat \<Rightarrow> char)) option" where
  "rt_vsnprintf b size0 fmt args m = do {
     let size1 = buffer_room b size0;
     p \<leftarrow> vsn_loop size1 fmt args \<lparr>pr_str = 0, pr_buf = m\<rparr>;
     Some (pr_str p,
       if size1 > 0 then
         (if pr_str p < size1 then (pr_buf p)(pr_str p := CHR 0x00) else (pr_buf p)(size1 - 1 := CHR 0x00))
       else pr_buf p) }"

definition rt_snprintf :: "nat \<Rightarrow> nat \<Rightarrow> string \<Rightarrow> varg list \<Rightarrow> (nat \<Rightarrow> char) \<Rightarrow> (nat \<times> (nat \<Rightarrow> char)) option" where
  "rt_snprintf = rt_vsnprintf"

definition rt_vsprintf :: "nat \<Rightarrow> string \<Rightarrow> varg list \<Rightarrow> (nat \<Rightarrow> char) \<Rightarrow> (nat \<times> (nat \<Rightarrow> char)) option" where
  "rt_vsprintf b fmt args m = rt_vsnprintf b (2 ^ 32 - 1) fmt args m"

definition rt_sprintf :: "nat \<Rightarrow> string \<Rightarrow> varg list \<Rightarrow> (nat \<Rightarrow> char) \<Rightarrow> (nat \<times> (nat \<Rightarrow> char)) option" where
  "rt_sprintf = rt_vsprintf"

section \<open>What is emitted\<close>

lemma emits_append [simp]: "emits en (s @ t) p = emits en t (emits en s p)"
  by (induction s arbitrary: p) simp_all

lemma emits_str [simp]: "pr_str (emits en t p) = pr_str p + length t"
  by (induction t arbitrary: p) (simp_all add: emit_def Let_def)

lemma emits_buf:
  "pr_buf (emits en t p) i =
     (if pr_str p \<le> i \<and> i < pr_str p + length t \<and> i < en then t ! (i - pr_str p) else pr_buf p i)"
proof (induction t arbitrary: p)
  case (Cons c t)
  have "pr_str (emit en c p) = Suc (pr_str p)" by (simp add: emit_def Let_def)
  moreover have "pr_buf (emit en c p) i = (if i = pr_str p \<and> i < en then c else pr_buf p i)"
    by (simp add: emit_def Let_def)
  ultimately show ?case using Cons [of "emit en c p"]
    by (auto simp: nth_Cons' diff_Suc split: nat.split)
qed auto

lemma pad_eq: "pad en c (sz, p) = (if sz > 0 then - 1 else sz - 1, emits en (replicate (nat sz) c) p)"
proof (induction "nat sz" arbitrary: sz p)
  case 0
  then show ?case by (subst pad.simps) simp
next
  case (Suc n)
  then have n: "n = nat (sz - 1)" "sz > 0" by simp_all
  have "nat sz = Suc (nat (sz - 1))" using n by simp
  then show ?case using Suc.hyps(1) [OF n(1)] n by (subst pad.simps) auto
qed

lemma pad_char_eq:
  "pad_char en (w, p) = (if w > 1 then 0 else w - 1, emits en (replicate (nat (w - 1)) CHR '' '') p)"
proof (induction "nat (w - 1)" arbitrary: w p)
  case 0
  then show ?case by (subst pad_char.simps) simp
next
  case (Suc n)
  then have n: "n = nat (w - 1 - 1)" "w > 1" by simp_all
  have "nat (w - 1) = Suc (nat (w - 1 - 1))" using n by simp
  then show ?case using Suc.hyps(1) [OF n(1)] n by (subst pad_char.simps) auto
qed

lemma pad_str_eq:
  "pad_str en len (w, p) = (if len < w then len - 1 else w - 1, emits en (replicate (nat (w - len)) CHR '' '') p)"
proof (induction "nat (w - len)" arbitrary: w p)
  case 0
  then show ?case by (subst pad_str.simps) simp
next
  case (Suc n)
  then have n: "n = nat (w - 1 - len)" "len < w" by simp_all
  have "nat (w - len) = Suc (nat (w - 1 - len))" using n by simp
  then show ?case using Suc.hyps(1) [OF n(1)] n by (subst pad_str.simps) auto
qed

text \<open>The text of a number: blanks, the sign, blanks or zeros, the zeros of the precision, the digits,
  blanks.\<close>

definition layout_text :: "u8 \<Rightarrow> char option \<Rightarrow> int \<Rightarrow> int \<Rightarrow> bool \<Rightarrow> string \<Rightarrow> string" where
  "layout_text type sign size1 zeros show_digits tmp =
     (let size2 = (if sign \<noteq> None \<and> size1 > 0 then size1 - 1 else size1);
          blank = (type AND (ZEROPAD OR LEFT) = 0);
          size3 = (if blank then if size2 > 0 then - 1 else size2 - 1 else size1);
          size4 = (if sign \<noteq> None then size3 - 1 else size3);
          size5 = (if type AND LEFT = 0 then if size4 > 0 then - 1 else size4 - 1 else size4)
      in replicate (if blank then nat size2 else 0) CHR '' '' @
         (case sign of Some c \<Rightarrow> [c] | None \<Rightarrow> []) @
         replicate (if type AND LEFT = 0 then nat size4 else 0) (if type AND ZEROPAD \<noteq> 0 then CHR ''0'' else CHR '' '') @
         replicate (nat zeros) CHR ''0'' @
         (if show_digits then rev tmp else []) @
         replicate (nat size5) CHR '' '')"

lemma print_layout_eq: "print_layout en type sign sz zeros sd tmp p = emits en (layout_text type sign sz zeros sd tmp) p"
  by (cases sign; cases "type AND (ZEROPAD OR LEFT) = 0"; cases "type AND LEFT = 0"; cases sd)
    (simp_all add: print_layout_def layout_text_def Let_def pad_eq)

definition number_text :: "u32 \<Rightarrow> int \<Rightarrow> int \<Rightarrow> int \<Rightarrow> u8 \<Rightarrow> string" where
  "number_text num base s precision type0 =
     (let type = (if type0 AND LEFT \<noteq> 0 then type0 AND NOT ZEROPAD else type0);
          (sign, n) = number_sign type num;
          tmp = (if n = 0 then ''0'' else number_digits (if type0 AND LARGE \<noteq> 0 then large_digits else small_digits) n base);
          pr = max (int (length tmp)) precision
      in layout_text type sign (s - pr) (pr - int (length tmp)) (precision \<noteq> 0) tmp)"

lemma print_number_eq:
  "print_number en num base s precision type p = emits en (number_text num base s precision type) p"
  unfolding print_number_def number_text_def Let_def print_layout_eq max_def
  by (auto split: prod.splits)

lemma convert_char_emits: "\<exists>t. \<forall>en p. convert_char en flags w arg p = emits en t p"
proof (cases "flags AND LEFT = 0")
  case True
  have "convert_char en flags w arg p = emits en (replicate (nat (w - 1)) CHR '' '' @ [char_of (unat arg)]) p" for en p
    using True by (simp add: convert_char_def pad_char_eq)
  then show ?thesis by blast
next
  case False
  have "convert_char en flags w arg p = emits en ([char_of (unat arg)] @ replicate (nat (w - 1)) CHR '' '') p" for en p
    using False by (simp add: convert_char_def pad_char_eq)
  then show ?thesis by blast
qed

lemma convert_str_emits: "\<exists>t. \<forall>en p. convert_str en flags w precision arg p = emits en t p"
proof -
  let ?s = "case arg of Some s \<Rightarrow> s | None \<Rightarrow> ''(NULL)''"
  let ?len = "if precision > 0 \<and> int (length ?s) > precision then precision else int (length ?s)"
  let ?pad = "replicate (nat (w - ?len)) CHR '' ''" and ?t = "take (nat ?len) ?s"
  have "convert_str en flags w precision arg p = emits en (if flags AND LEFT = 0 then ?pad @ ?t else ?t @ ?pad) p" for en p
    unfolding convert_str_def Let_def
    by (cases "flags AND LEFT = 0"; cases "?len < w") (simp_all only: pad_str_eq if_True if_False prod.case snd_conv
        emits_append simp_thms; simp)+
  then show ?thesis by blast
qed

lemma emits_two: "emit en d (emit en c p) = emits en [c, d] p" "emit en c p = emits en [c] p"
  by simp_all

lemma convert_number_emits:
  "\<exists>r. \<forall>en p. convert_number en base flags w precision q args p = map_option (\<lambda>(a, t). (a, emits en t p)) r"
proof (cases "next_int args")
  case (Some x)
  then have "convert_number en base flags w precision q args p =
      map_option (\<lambda>(a, t). (a, emits en t p))
        (Some (snd x, number_text (number_arg q flags (fst x)) base w precision flags))" for en p
    by (simp add: convert_number_def print_number_eq split_beta)
  then show ?thesis by blast
next
  case None
  then have "\<forall>en p. convert_number en base flags w precision q args p = map_option (\<lambda>(a, t). (a, emits en t p)) None"
    by (simp add: convert_number_def)
  then show ?thesis by blast
qed

lemma some_emits: "(\<And>en p. f en p = Some (a, emits en t p)) \<Longrightarrow>
    \<exists>r. \<forall>en p. f en p = map_option (\<lambda>(a, t). (a, emits en t p)) r"
  by (rule exI [of _ "Some (a, t)"]) simp

lemma none_emits: "(\<And>en p. f en p = None) \<Longrightarrow> \<exists>r. \<forall>en p. f en p = map_option (\<lambda>(a, t). (a, emits en t p)) r"
  by (rule exI [of _ None]) simp

lemma convert_emits:
  "\<exists>r. \<forall>en p. convert en flags w precision q c args p = map_option (\<lambda>(a, t). (a, emits en t p)) r"
proof -
  consider "c = CHR ''c''" | "c = CHR ''s''" | "c = CHR ''p''" | "c = CHR ''%''" | "c = CHR ''o''" | "c = CHR ''X''"
    | "c = CHR ''x''" | "c = CHR ''d'' \<or> c = CHR ''i''" | "c = CHR ''u''"
    | "c \<notin> {CHR ''c'', CHR ''s'', CHR ''p'', CHR ''%'', CHR ''o'', CHR ''X'', CHR ''x'', CHR ''d'', CHR ''i'', CHR ''u''}"
    by blast
  then show ?thesis
  proof cases
    case 1
    show ?thesis
    proof (cases "next_int args")
      case None
      then show ?thesis using 1 by (intro none_emits) (simp add: convert_def)
    next
      case (Some x)
      obtain t where "\<forall>en p. convert_char en flags w (fst x) p = emits en t p" using convert_char_emits by blast
      then show ?thesis using 1 Some
        by (intro some_emits [where a = "snd x" and t = t]) (simp add: convert_def split_beta)
    qed
  next
    case 2
    show ?thesis
    proof (cases "\<exists>s r. args = Str_arg s # r")
      case True
      then obtain s r where a: "args = Str_arg s # r" by blast
      obtain t where "\<forall>en p. convert_str en flags w precision s p = emits en t p" using convert_str_emits by blast
      then show ?thesis using 2 a by (intro some_emits [where a = r and t = t]) (simp add: convert_def)
    next
      case False
      then show ?thesis using 2
        by (intro none_emits) (auto simp: convert_def split: list.splits varg.splits)
    qed
  next
    case 3
    show ?thesis
    proof (cases "\<exists>s r. args = Ptr_arg s # r")
      case True
      then obtain s r where a: "args = Ptr_arg s # r" by blast
      then show ?thesis using 3
        by (intro some_emits [where a = r and t = "if w = - 1 then number_text s 16 8 precision (flags OR ZEROPAD)
            else number_text s 16 w precision flags"]) (simp add: convert_def print_number_eq)
    next
      case False
      then show ?thesis using 3
        by (intro none_emits) (auto simp: convert_def split: list.splits varg.splits)
    qed
  next
    case 4
    then show ?thesis by (intro some_emits [where a = args and t = "''%''"]) (simp add: convert_def)
  next
    case 10
    then show ?thesis by (intro some_emits [where a = args and t = "[CHR ''%'', c]"]) (simp add: convert_def)
  qed (simp_all add: convert_def convert_number_emits, elim disjE, simp_all add: convert_number_emits)
qed

lemma vsn_loop_step:
  "vsn_loop en [] args p = Some p"
  "c \<noteq> CHR ''%'' \<Longrightarrow> vsn_loop en (c # fmt') args p = vsn_loop en fmt' args (emit en c p)"
  "vsn_loop en (CHR ''%'' # fmt') args p =
     Option.bind (scan_spec fmt' args) (\<lambda>(flags, w, precision, qualifier, rest, args').
       case rest of
         [] \<Rightarrow> Some (emit en CHR ''%'' p)
       | d # rest' \<Rightarrow>
           Option.bind (convert en flags w precision qualifier d args' p)
             (\<lambda>(args'', p'). vsn_loop en rest' args'' p'))"
  by (simp_all add: vsn_loop.simps [of _ "_ # _"] vsn_loop.simps [of _ "[]"])

lemma vsn_loop_emits: "\<exists>r. \<forall>en p. vsn_loop en fmt args p = map_option (\<lambda>t. emits en t p) r"
proof (induction "length fmt" arbitrary: fmt args rule: less_induct)
  case less
  show ?case
  proof (cases fmt)
    case Nil
    then have "\<forall>en p. vsn_loop en fmt args p = map_option (\<lambda>t. emits en t p) (Some [])"
      by (simp add: vsn_loop.simps)
    then show ?thesis by blast
  next
    case (Cons c fmt')
    show ?thesis
    proof (cases "c = CHR ''%''")
      case False
      obtain r where "\<forall>en p. vsn_loop en fmt' args p = map_option (\<lambda>t. emits en t p) r"
        using less [of fmt' args] Cons by auto
      then have "vsn_loop en fmt args p = map_option (\<lambda>t. emits en t p) (map_option (\<lambda>t. c # t) r)" for en p
        using False Cons by (simp add: vsn_loop_step option.map_comp comp_def)
      then show ?thesis by blast
    next
      case True
      show ?thesis
      proof (cases "scan_spec fmt' args")
        case None
        then have "vsn_loop en fmt args p = map_option (\<lambda>t. emits en t p) None" for en p
          using True Cons by (simp add: vsn_loop_step)
        then show ?thesis by blast
      next
        case (Some x)
        obtain flags w pr q rest args' where x: "x = (flags, w, pr, q, rest, args')" by (cases x) auto
        show ?thesis
        proof (cases rest)
          case Nil
          then have "vsn_loop en fmt args p = map_option (\<lambda>t. emits en t p) (Some ''%'')" for en p
            using True Cons Some x by (simp add: vsn_loop_step)
          then show ?thesis by blast
        next
          case C: (Cons d rest')
          obtain r where r: "\<forall>en p. convert en flags w pr q d args' p = map_option (\<lambda>(a, t). (a, emits en t p)) r"
            using convert_emits by blast
          show ?thesis
          proof (cases r)
            case None
            then have "vsn_loop en fmt args p = map_option (\<lambda>t. emits en t p) None" for en p
              using True Cons Some x C r by (simp add: vsn_loop_step)
            then show ?thesis by blast
          next
            case S: (Some at)
            have "length rest' < length fmt" using scan_spec_length [of fmt' args flags w pr q rest args'] Some x C Cons by simp
            from less [OF this, of "fst at"] obtain z where
              z: "\<forall>en p. vsn_loop en rest' (fst at) p = map_option (\<lambda>t. emits en t p) z" by blast
            have "vsn_loop en fmt args p = map_option (\<lambda>t. emits en t p) (map_option (\<lambda>t. snd at @ t) z)" for en p
              using True Cons Some x C r S z by (simp add: vsn_loop_step split_beta option.map_comp comp_def)
            then show ?thesis by blast
          qed
        qed
      qed
    qed
  qed
qed

text \<open>What the buffer holds afterwards: as much of the text as fits in front of the terminator.\<close>

definition terminated :: "nat \<Rightarrow> string \<Rightarrow> (nat \<Rightarrow> char) \<Rightarrow> nat \<Rightarrow> char" where
  "terminated room t m i =
     (if i \<ge> room \<or> i > length t then m i
      else if i = length t \<or> i = room - 1 then CHR 0x00 else t ! i)"

lemma rt_vsnprintf_emits:
  "\<exists>r. \<forall>b n m. rt_vsnprintf b n fmt args m = map_option (\<lambda>t. (length t, terminated (buffer_room b n) t m)) r"
proof -
  obtain r where r: "\<forall>en p. vsn_loop en fmt args p = map_option (\<lambda>t. emits en t p) r"
    using vsn_loop_emits by blast
  have "rt_vsnprintf b n fmt args m = map_option (\<lambda>t. (length t, terminated (buffer_room b n) t m)) r" for b n m
    unfolding rt_vsnprintf_def
    by (cases r) (auto simp: r Let_def fun_eq_iff terminated_def emits_buf)
  then show ?thesis by blast
qed

lemma rt_vsnprintf_text:
  assumes "\<And>en p. vsn_loop en fmt args p = Some (emits en t p)"
  shows "rt_vsnprintf b n fmt args m = Some (length t, terminated (buffer_room b n) t m)"
  unfolding rt_vsnprintf_def by (auto simp: assms Let_def fun_eq_iff terminated_def emits_buf)

section \<open>Reading back what was printed\<close>

definition digits_value :: "int \<Rightarrow> string \<Rightarrow> int" where
  "digits_value i s = foldl (\<lambda>v c. v * 10 + (of_char c - 48)) i s"

lemma digits_value_simps [simp]:
  "digits_value i [] = i" "digits_value i (c # s) = digits_value (i * 10 + (of_char c - 48)) s"
  "digits_value i (s @ [c]) = digits_value i s * 10 + (of_char c - 48)"
  by (simp_all add: digits_value_def)

lemma is_digit_bounds: "is_digit c \<Longrightarrow> 48 \<le> (of_char c :: int) \<and> (of_char c :: int) < 58"
  unfolding is_digit_def
  by (metis of_char_eq_iff of_nat_less_iff of_nat_le_iff of_nat_numeral of_nat_of_char)

lemma digits_value_mono: "list_all is_digit s \<Longrightarrow> i \<ge> 0 \<Longrightarrow> i \<le> digits_value i s"
proof (induction s arbitrary: i)
  case (Cons c s)
  have "48 \<le> (of_char c :: int)" using is_digit_bounds Cons.prems by simp
  then show ?case using Cons.IH [of "i * 10 + (of_char c - 48)"] Cons.prems by simp
qed simp

lemma skip_atoi_digits:
  assumes "list_all is_digit s" "digits_value i s \<le> INT_MAX - 48" "i \<ge> 0"
  shows "skip_atoi_from i s = Some (digits_value i s, [])"
  using assms
proof (induction s arbitrary: i)
  case (Cons c s)
  have c: "is_digit c" "48 \<le> (of_char c :: int)" using is_digit_bounds Cons.prems by simp_all
  then have "i * 10 + (of_char c - 48) \<le> INT_MAX - 48"
    using digits_value_mono [of s "i * 10 + (of_char c - 48)"] Cons.prems by simp
  then show ?case using Cons.IH [of "i * 10 + (of_char c - 48)"] Cons.prems c
    by (simp add: Let_def algebra_simps)
qed simp

text \<open>The digits in base 10 are decimal digits, and their value is the number.\<close>

lemma small_digits_nth: "k < 10 \<Longrightarrow> of_char (small_digits ! k) = (48 + int k) \<and> is_digit (small_digits ! k)"
proof -
  assume "k < 10"
  then have "k \<in> {0, 1, 2, 3, 4, 5, 6, 7, 8, 9}" by auto
  then show ?thesis by (auto simp: small_digits_def is_digit_def)
qed

lemma number_digits_10:
  "list_all is_digit (number_digits small_digits num 10) \<and>
   digits_value 0 (rev (number_digits small_digits num 10)) = uint num"
proof (induction "unat num" arbitrary: num rule: less_induct)
  case less
  show ?case
  proof (cases "num = 0")
    case True
    then show ?thesis by (simp add: number_digits.simps)
  next
    case False
    have d: "divide num 10 = (unat (num mod 10), num div 10)" by (simp add: divide_def)
    have lt: "unat (num mod 10) < 10" by (simp add: unat_mod)
    have "unat (num div 10) < unat num" using divide_less [OF False, of 10] d by simp
    note IH = less [OF this]
    have "uint num = uint (num div 10) * 10 + uint (num mod 10)"
      by (simp add: uint_div uint_mod)
    moreover have "int (unat (num mod 10)) = uint (num mod 10)" by simp
    ultimately show ?thesis
      using IH small_digits_nth [OF lt] False
      by (subst (1 2) number_digits.simps) (simp add: d)
  qed
qed

lemma number_digits_length: "unat num < 10 ^ k \<Longrightarrow> length (number_digits digits num 10) \<le> k"
proof (induction k arbitrary: num)
  case 0
  then have "num = 0" by (simp add: unat_eq_zero)
  then show ?case by (simp add: number_digits.simps)
next
  case (Suc k)
  have "unat (num div 10) < 10 ^ k" using Suc.prems by (simp add: unat_div less_mult_imp_div_less mult.commute)
  then show ?case using Suc.IH [of "num div 10"]
    by (subst number_digits.simps) (simp add: divide_def)
qed

end
