(* ===== verification/Format_Props.thy ===== *)
theory Format_Props
  imports Format
begin

text \<open>
  The properties of the formatted output: whatever the size of the buffer, the same text is printed and
  the same length returned; what \<open>%d\<close> prints reads back as the number. Two lemmas record where the
  conversions depart from their documentation in the C standard.
\<close>

lemma sint_cases: "sint (w :: u32) = (if sint w < 0 then uint w - 2 ^ 32 else uint w)"
proof -
  have "take_bit 32 (uint w) = uint w" using uint_lt2p [of w] by (simp add: take_bit_int_eq_self_iff)
  then have "sint w = uint w - 2 ^ 32 * of_bool (bit (uint w) 31)"
    by (simp add: sint_uint signed_take_bit_eq_take_bit_minus)
  moreover have "0 \<le> uint w" "uint w < 2 ^ 32" using uint_lt2p [of w] by simp_all
  ultimately show ?thesis by (cases "bit (uint w) 31") simp_all
qed

lemma uint_minus_sint:
  assumes "sint (w :: u32) < 0"
  shows "uint (- w) = - sint w"
proof -
  have "w \<noteq> 0" using assms by auto
  then have nz: "uint w \<noteq> 0" by (simp add: unsigned_eq_0_iff)
  have s: "sint w = uint w - 2 ^ 32" using sint_cases [of w] assms by simp
  have "uint (- w) = (- uint w) mod 2 ^ 32" by (simp add: uint_word_ariths)
  also have "\<dots> = (2 ^ 32 - uint w) mod 2 ^ 32" by (simp flip: mod_diff_left_eq)
  also have "\<dots> = 2 ^ 32 - uint w"
    using nz uint_ge_0 [of w] uint_lt2p [of w]
    by (intro mod_pos_pos_trivial) (simp_all add: order_less_le [of 0 "uint w"])
  finally show ?thesis using s by simp
qed

lemma layout_plain: "type AND LEFT = 0 \<Longrightarrow> type AND ZEROPAD = 0 \<Longrightarrow> sz < 0 \<Longrightarrow>
    layout_text type sg sz 0 True tmp = (case sg of Some c \<Rightarrow> [c] | None \<Rightarrow> []) @ rev tmp"
  by (cases sg) (simp_all add: layout_text_def Let_def)

definition decimal :: "u32 \<Rightarrow> string" where
  "decimal w = (if w = 0 then ''0'' else rev (number_digits small_digits w 10))"

lemma decimal_digits: "list_all is_digit (decimal w)" "digits_value 0 (decimal w) = uint w" "length (decimal w) \<le> 10"
proof -
  have "unat w < 2 ^ 32" using unsigned_less [of w, where 'a = nat] by simp
  then have "unat w < 10 ^ 10" by simp
  then show "length (decimal w) \<le> 10" by (simp add: decimal_def number_digits_length)
  show "list_all is_digit (decimal w)" "digits_value 0 (decimal w) = uint w"
    using number_digits_10 [of w] by (auto simp: decimal_def is_digit_def list_all_iff)
qed

lemma printf_decimal:
  "rt_snprintf b n ''%d'' [Int_arg w] m =
     (let t = (if sint w < 0 then CHR ''-'' # decimal (- w) else decimal w)
      in Some (length t, terminated (buffer_room b n) t m))"
proof -
  let ?t = "if sint w < 0 then CHR ''-'' # decimal (- w) else decimal w"
  have n: "number_text w 10 (- 1) (- 1) SIGN = ?t"
  proof (cases "sint w < 0")
    case True
    then have "- w \<noteq> 0" by auto
    then show ?thesis using True
      by (simp add: number_text_def Let_def number_sign_def layout_plain decimal_def)
  next
    case False
    then show ?thesis
      by (simp add: number_text_def Let_def number_sign_def layout_plain decimal_def)
  qed
  have sp: "scan_spec ''d'' [Int_arg w] = Some (0, - 1, - 1, None, ''d'', [Int_arg w])"
    by (simp add: scan_spec_def scan_width_def scan_precision_def scan_qualifier_def is_digit_def)
  have l: "vsn_loop en ''%d'' [Int_arg w] p = Some (emits en ?t p)" for en p
    using n by (simp add: vsn_loop_step sp convert_def convert_number_def number_arg_def print_number_eq)
  show ?thesis
    using rt_vsnprintf_text [OF l] by (simp add: rt_snprintf_def Let_def)
qed

section \<open>Where the conversions depart from the standard\<close>

text \<open>\<open>divide\<close> knows the bases 10 and 16 only, so \<open>%o\<close> prints hexadecimal digits.\<close>

lemma octal_digits: "number_digits digits num 8 = number_digits digits num 16"
proof (induction "unat num" arbitrary: num rule: less_induct)
  case less
  have d: "divide num 8 = divide num 16" by (simp add: divide_def)
  show ?case
  proof (cases "num = 0")
    case True
    then show ?thesis by (simp add: number_digits.simps)
  next
    case False
    then show ?thesis using less [OF divide_less [OF False, of 16]] d
      by (subst (1 2) number_digits.simps) simp
  qed
qed

lemma octal_prints_hex:
  "vsn_loop en ''%o'' [Int_arg w] p = vsn_loop en ''%x'' [Int_arg w] p"
proof -
  have "scan_spec ''o'' [Int_arg w] = Some (0, - 1, - 1, None, ''o'', [Int_arg w])"
    by (simp add: scan_spec_def scan_width_def scan_precision_def scan_qualifier_def is_digit_def)
  moreover have "scan_spec ''x'' [Int_arg w] = Some (0, - 1, - 1, None, ''x'', [Int_arg w])"
    by (simp add: scan_spec_def scan_width_def scan_precision_def scan_qualifier_def is_digit_def)
  moreover have "number_text num 8 s pr ty = number_text num 16 s pr ty" for num s pr ty
    unfolding number_text_def octal_digits ..
  ultimately show ?thesis
    by (simp add: vsn_loop_step convert_def convert_number_def print_number_eq)
qed

text \<open>A precision of zero suppresses the digits of every number, not only of zero.\<close>

lemma precision_zero_prints_nothing: "vsn_loop en ''%.0d'' [Int_arg 5] p = Some p"
proof -
  have "scan_spec ''.0d'' [Int_arg 5] = Some (0, - 1, 0, None, ''d'', [Int_arg 5])"
    by (simp add: scan_spec_def scan_width_def scan_precision_def precision_digits_def skip_atoi_def
        scan_qualifier_def is_digit_def INT_MAX_def)
  moreover have "number_text 5 10 (- 1) 0 SIGN = []"
    by (simp add: number_text_def number_sign_def number_digits.simps divide_def layout_text_def Let_def)
  ultimately show ?thesis
    by (simp add: vsn_loop_step convert_def convert_number_def print_number_eq number_arg_def)
qed

section \<open>The properties\<close>

text \<open>C38: The text that formatted output produces does not depend on the buffer: for every format and
  all arguments that it covers, there is one text such that \<open>rt_snprintf\<close> with any buffer returns the
  length of the text and stores as much of it as fits in front of a terminating zero; nothing at or
  behind the end of the buffer is written, and a buffer of size zero is left alone.\<close>

theorem snprintf_truncates:
  "\<exists>r. \<forall>b n m. rt_snprintf b n fmt args m = map_option (\<lambda>t. (length t, terminated (buffer_room b n) t m)) r"
  unfolding rt_snprintf_def by (rule rt_vsnprintf_emits)

text \<open>C39: What \<open>%d\<close> prints reads back as the number that was printed: the output of every 32-bit number,
  the most negative one included, is a minus sign for negative numbers and decimal digits with the right
  value, and the kernel's own \<open>skip_atoi\<close> reads a number that is not negative (and not within 48 of
  the largest, where its intermediate sum overflows) back from it.\<close>

theorem printf_reads_back:
  assumes "12 \<le> n" "b + n < 2 ^ 32"
  shows "\<exists>len m'. rt_snprintf b n ''%d'' [Int_arg w] m = Some (len, m') \<and> len \<le> 11 \<and> m' len = CHR 0x00 \<and>
    (let t = map m' [0..<len] in
      if sint w < 0 then hd t = CHR ''-'' \<and> list_all is_digit (tl t) \<and> digits_value 0 (tl t) = - sint w
      else list_all is_digit t \<and> digits_value 0 t = sint w \<and>
        (sint w \<le> INT_MAX - 48 \<longrightarrow> skip_atoi t = Some (sint w, [])))"
proof -
  define t where "t = (if sint w < 0 then CHR ''-'' # decimal (- w) else decimal w)"
  have len: "length t \<le> 11"
    using decimal_digits(3) [of w] decimal_digits(3) [of "- w"] by (auto simp: t_def)
  have "buffer_room b n = n" using assms(2) by (simp add: buffer_room_def)
  then have run: "rt_snprintf b n ''%d'' [Int_arg w] m = Some (length t, terminated n t m)"
    by (simp add: printf_decimal t_def Let_def)
  have out: "map (terminated n t m) [0..<length t] = t"
    using assms(1) len by (intro nth_equalityI) (auto simp: terminated_def)
  have "if sint w < 0 then hd t = CHR ''-'' \<and> list_all is_digit (tl t) \<and> digits_value 0 (tl t) = - sint w
      else list_all is_digit t \<and> digits_value 0 t = sint w"
    using decimal_digits [of w] decimal_digits [of "- w"] uint_minus_sint [of w] sint_cases [of w]
    by (auto simp: t_def)
  moreover have "terminated n t m (length t) = CHR 0x00" using assms(1) len by (simp add: terminated_def)
  ultimately show ?thesis
    using run len out skip_atoi_digits [of t 0] unfolding Let_def skip_atoi_def
    by (intro exI [of _ "length t"] exI [of _ "terminated n t m"]) (auto simp only: out split: if_splits)
qed

theorem printf_reads_back_witness:
  "\<exists>len m'. rt_snprintf 0x20000000 12 ''%d'' [Int_arg 0x80000000] (\<lambda>_. CHR ''x'') = Some (len, m') \<and>
    m' 0 = CHR ''-'' \<and> digits_value 0 (tl (map m' [0..<len])) = 2147483648"
proof -
  have s: "sint (0x80000000 :: u32) = - 2147483648" by simp
  obtain len m' where r: "rt_snprintf 0x20000000 12 ''%d'' [Int_arg 0x80000000] (\<lambda>_. CHR ''x'') = Some (len, m')"
    and t: "hd (map m' [0..<len]) = CHR ''-''" "digits_value 0 (tl (map m' [0..<len])) = 2147483648"
    using printf_reads_back [of 12 "0x20000000", where w = "0x80000000" and m = "\<lambda>_. CHR ''x''"]
    unfolding s Let_def by auto
  have "len \<noteq> 0"
  proof
    assume "len = 0"
    then show False using t(2) by simp
  qed
  then show ?thesis using r t by (simp add: hd_map)
qed

end
