(* ===== verification/Msh.thy ===== *)
theory Msh
  imports Kservice
begin

text \<open>
  The command line of the shell, \<^verbatim>\<open>rt-thread/components/finsh/msh.c\<close>: \<open>msh_split\<close>, which cuts a line
  into its arguments in place, the lookup of a command in the symbol table, and \<open>msh_exec\<close>.

  The memory is a function from addresses to characters; an argument is the address of its first
  character, and ends at the next zero. What a command does, the execution of scripts and the console
  are parameters.

  The lemmas relate the in-place loop to a tokenizer on lists.
\<close>

type_synonym cmem = "nat \<Rightarrow> char"

abbreviation (input) FINSH_ARG_MAX :: nat where "FINSH_ARG_MAX \<equiv> 10"

section \<open>The code\<close>

definition is_blank :: "char \<Rightarrow> bool" where
  "is_blank c \<longleftrightarrow> c = CHR '' '' \<or> c = CHR 0x09"

text \<open>The three inner loops of \<open>msh_split\<close>; \<open>ptr\<close> is \<open>cmd + position\<close>.\<close>

function split_blanks :: "nat \<Rightarrow> nat \<Rightarrow> nat \<times> cmem \<Rightarrow> nat \<times> cmem" where
  "split_blanks cmd len (pos, m) =
     (if is_blank (m (cmd + pos)) \<and> pos < len then split_blanks cmd len (pos + 1, m(cmd + pos := CHR 0x00))
      else (pos, m))"
  by pat_completeness auto
termination by (relation "measure (\<lambda>(cmd, len, pos, m). len - pos)") auto

function split_quoted :: "nat \<Rightarrow> nat \<Rightarrow> cmem \<Rightarrow> nat \<Rightarrow> nat" where
  "split_quoted cmd len m pos =
     (if m (cmd + pos) \<noteq> CHR 0x22 \<and> pos < len then
        split_quoted cmd len m
          (if m (cmd + pos) = CHR 0x5C \<and> m (cmd + pos + 1) = CHR 0x22 then pos + 2 else pos + 1)
      else pos)"
  by pat_completeness auto
termination by (relation "measure (\<lambda>(cmd, len, m, pos). len - pos)") auto

function split_word :: "nat \<Rightarrow> nat \<Rightarrow> cmem \<Rightarrow> nat \<Rightarrow> nat" where
  "split_word cmd len m pos =
     (if \<not> is_blank (m (cmd + pos)) \<and> pos < len then split_word cmd len m (pos + 1) else pos)"
  by pat_completeness auto
termination by (relation "measure (\<lambda>(cmd, len, m, pos). len - pos)") auto

declare split_blanks.simps [simp del] split_quoted.simps [simp del] split_word.simps [simp del]

lemma split_blanks_le: "pos \<le> fst (split_blanks cmd len (pos, m))"
proof (induction cmd len "(pos, m)" arbitrary: pos m rule: split_blanks.induct)
  case (1 cmd len pos m)
  then show ?case by (subst split_blanks.simps) (auto intro: Suc_leD)
qed

lemma split_quoted_le: "pos \<le> split_quoted cmd len m pos"
proof (induction cmd len m pos rule: split_quoted.induct)
  case (1 cmd len m pos)
  then show ?case by (subst split_quoted.simps) (auto intro: Suc_leD)
qed

lemma split_word_le: "pos \<le> split_word cmd len m pos"
proof (induction cmd len m pos rule: split_word.induct)
  case (1 cmd len m pos)
  then show ?case by (subst split_word.simps) (auto intro: Suc_leD)
qed

lemma split_blanks_stop:
  "split_blanks cmd len (pos, m) = (pos', m') \<Longrightarrow> pos' < len \<Longrightarrow> \<not> is_blank (m' (cmd + pos'))"
proof (induction cmd len "(pos, m)" arbitrary: pos m rule: split_blanks.induct)
  case (1 cmd len pos m)
  show ?case
  proof (cases "is_blank (m (cmd + pos)) \<and> pos < len")
    case True
    then show ?thesis using 1 by (subst (asm) (2) split_blanks.simps) simp
  next
    case False
    then show ?thesis using "1.prems" by (subst (asm) split_blanks.simps) auto
  qed
qed

lemma split_word_less: "pos < len \<Longrightarrow> \<not> is_blank (m (cmd + pos)) \<Longrightarrow> pos < split_word cmd len m pos"
  using split_word_le [of "pos + 1" cmd len m] by (subst split_word.simps) simp

function msh_split_loop :: "nat \<Rightarrow> nat \<Rightarrow> nat \<Rightarrow> nat list \<Rightarrow> cmem \<Rightarrow> nat list \<times> cmem" where
  "msh_split_loop cmd len position argv m =
     (if position < len then
        (case split_blanks cmd len (position, m) of (pos, m1) \<Rightarrow>
          if length argv \<ge> FINSH_ARG_MAX then (argv, m1)
          else if pos \<ge> len then (argv, m1)
          else if m1 (cmd + pos) = CHR 0x22 then
            (let pos2 = split_quoted cmd len m1 (pos + 1)
             in if pos2 \<ge> len then (argv @ [cmd + pos + 1], m1)
                else msh_split_loop cmd len (pos2 + 1) (argv @ [cmd + pos + 1]) (m1(cmd + pos2 := CHR 0x00)))
          else
            (let pos2 = split_word cmd len m1 pos
             in if pos2 \<ge> len then (argv @ [cmd + pos], m1)
                else msh_split_loop cmd len pos2 (argv @ [cmd + pos]) m1))
      else (argv, m))"
  by pat_completeness auto
termination
proof (relation "measure (\<lambda>(cmd, len, position, argv, m). len - position)", goal_cases)
  case 1
  show ?case by simp
next
  case prems: (2 cmd len position argv m pos m1)
  then have e: "split_blanks cmd len (position, m) = (pos, m1)" by simp
  then have "position \<le> pos" using split_blanks_le [of position cmd len m] by simp
  then show ?case using prems split_quoted_le [of "pos + 1" cmd len m1] by auto
next
  case prems: (3 cmd len position argv m pos m1)
  then have e: "split_blanks cmd len (position, m) = (pos, m1)" by simp
  then have "position \<le> pos" using split_blanks_le [of position cmd len m] by simp
  moreover have "pos < split_word cmd len m1 pos"
    using prems split_word_less [of pos len m1 cmd] split_blanks_stop [OF e] by auto
  ultimately show ?case using prems by auto
qed

declare msh_split_loop.simps [simp del]

definition msh_split :: "nat \<Rightarrow> nat \<Rightarrow> cmem \<Rightarrow> nat list \<times> cmem" where
  "msh_split cmd len m = msh_split_loop cmd len 0 [] m"

text \<open>The symbol table, in order: name and function. Only the names with the prefix are commands.\<close>

definition msh_get_cmd :: "(string \<times> 'f) list \<Rightarrow> string \<Rightarrow> 'f option" where
  "msh_get_cmd table cmd =
     map_option snd (List.find (\<lambda>(name, f). take 6 name = ''__cmd_'' \<and> drop 6 name = cmd) table)"

text \<open>\<open>call f argv m\<close>: the value the command returns, and the state it leaves. The command name ends at
  the first blank; \<open>None\<close> in the first component is a refusal.\<close>

definition msh_exec_cmd ::
    "(string \<times> 'f) list \<Rightarrow> ('f \<Rightarrow> nat list \<Rightarrow> cmem \<Rightarrow> 's \<Rightarrow> int \<times> cmem \<times> 's) \<Rightarrow> nat \<Rightarrow> nat \<Rightarrow> cmem \<times> 's \<Rightarrow>
     int option \<times> cmem \<times> 's" where
  "msh_exec_cmd table call cmd len = (\<lambda>(m, s).
     let cmd0_size = split_word cmd len m 0
     in if cmd0_size = 0 then (None, m, s)
        else (case msh_get_cmd table (map (\<lambda>i. m (cmd + i)) [0..<cmd0_size]) of
            None \<Rightarrow> (None, m, s)
          | Some f \<Rightarrow>
              (let (argv, m1) = msh_split cmd len m
               in if argv = [] then (None, m1, s)
                  else (let (r, m2, s2) = call f argv m1 s in (Some r, m2, s2)))))"

text \<open>Leading blanks are skipped without a look at the length; a line ends with a zero.\<close>

partial_function (option) skip_blanks :: "nat \<Rightarrow> cmem \<Rightarrow> nat option" where
  "skip_blanks cmd m = (if is_blank (m cmd) then skip_blanks (cmd + 1) m else Some cmd)"

partial_function (option) name_end :: "nat \<Rightarrow> cmem \<Rightarrow> nat option" where
  "name_end tcmd m = (if m tcmd \<noteq> CHR '' '' \<and> m tcmd \<noteq> CHR 0x00 then name_end (tcmd + 1) m else Some tcmd)"

definition msh_exec ::
    "(string \<times> 'f) list \<Rightarrow> ('f \<Rightarrow> nat list \<Rightarrow> cmem \<Rightarrow> 's \<Rightarrow> int \<times> cmem \<times> 's) \<Rightarrow>
     (nat \<Rightarrow> nat \<Rightarrow> cmem \<Rightarrow> 's \<Rightarrow> int \<times> cmem \<times> 's) \<Rightarrow> nat \<Rightarrow> nat \<Rightarrow> cmem \<times> 's \<Rightarrow> (int \<times> cmem \<times> 's) option" where
  "msh_exec table call script cmd0 len0 = (\<lambda>(m, s). do {
     cmd \<leftarrow> skip_blanks cmd0 m;
     let len = len0 - (cmd - cmd0);
     if len = 0 then Some (0, m, s)
     else (case msh_exec_cmd table call cmd len (m, s) of
         (Some r, m1, s1) \<Rightarrow> Some (r, m1, s1)
       | (None, m1, s1) \<Rightarrow>
           (case script cmd len m1 s1 of (r, m2, s2) \<Rightarrow>
             if r = 0 then Some (0, m2, s2)
             else map_option (\<lambda>e. (- 1, m2(e := CHR 0x00), s2)) (name_end cmd m2))) })"

fun str_common :: "string \<Rightarrow> string \<Rightarrow> nat" where
  "str_common (a # s) (b # t) = (if a = b then Suc (str_common s t) else 0)"
| "str_common _ _ = 0"

section \<open>The tokenizer\<close>

text \<open>The characters of a quoted argument, behind the opening quote; a quote behind a backslash belongs
  to it (and so does the backslash).\<close>

function quoted :: "string \<Rightarrow> string" where
  "quoted s =
     (case s of
        [] \<Rightarrow> []
      | c # t \<Rightarrow>
          if c = CHR 0x22 then []
          else if c = CHR 0x5C \<and> t \<noteq> [] \<and> hd t = CHR 0x22 then c # hd t # quoted (tl t)
          else c # quoted t)"
  by pat_completeness auto
termination by (relation "measure length") auto

declare quoted.simps [simp del]

function tokens :: "string \<Rightarrow> string list" where
  "tokens s =
     (case dropWhile is_blank s of
        [] \<Rightarrow> []
      | c # t \<Rightarrow>
          if c = CHR 0x22 then quoted t # tokens (drop (length (quoted t) + 1) t)
          else takeWhile (\<lambda>c. \<not> is_blank c) (c # t) # tokens (dropWhile (\<lambda>c. \<not> is_blank c) (c # t)))"
  by pat_completeness auto
termination
proof (relation "measure length", goal_cases)
  case prems: (2 s c t)
  have "length (c # t) \<le> length s" using prems(1) by (metis length_dropWhile_le)
  then show ?case by simp
next
  case prems: (3 s c t)
  have "length (c # t) \<le> length s" using prems(1) by (metis length_dropWhile_le)
  moreover have "\<not> is_blank c" using prems(1) by (metis hd_dropWhile list.distinct(1) list.sel(1))
  ultimately show ?case using length_dropWhile_le [of "\<lambda>c. \<not> is_blank c" t] by simp
qed simp

declare tokens.simps [simp del]

definition seg :: "cmem \<Rightarrow> nat \<Rightarrow> nat \<Rightarrow> string" where
  "seg m a b = map m [a..<b]"

lemma seg_Cons: "a < b \<Longrightarrow> seg m a b = m a # seg m (Suc a) b"
  by (simp add: seg_def upt_conv_Cons)

lemma seg_Nil [simp]: "b \<le> a \<Longrightarrow> seg m a b = []"
  by (simp add: seg_def)

lemma seg_length [simp]: "length (seg m a b) = b - a"
  by (simp add: seg_def)

lemma seg_drop: "drop n (seg m a b) = seg m (a + n) b"
  by (simp add: seg_def drop_map)

lemma seg_cong: "(\<And>i. a \<le> i \<Longrightarrow> i < b \<Longrightarrow> m i = m' i) \<Longrightarrow> seg m a b = seg m' a b"
  by (simp add: seg_def)

lemma split_blanks_eq:
  "pos \<le> len \<Longrightarrow> split_blanks cmd len (pos, m) =
     (let k = length (takeWhile is_blank (seg m (cmd + pos) (cmd + len)))
      in (pos + k, \<lambda>a. if cmd + pos \<le> a \<and> a < cmd + pos + k then CHR 0x00 else m a))"
proof (induction "len - pos" arbitrary: pos m)
  case 0
  then show ?case by (subst split_blanks.simps) (auto simp: Let_def fun_eq_iff)
next
  case (Suc n)
  then have lt: "pos < len" by simp
  note sc = seg_Cons [of "cmd + pos" "cmd + len" m]
  show ?case
  proof (cases "is_blank (m (cmd + pos))")
    case True
    have "seg (m(cmd + pos := CHR 0x00)) (cmd + Suc pos) (cmd + len) = seg m (Suc (cmd + pos)) (cmd + len)"
      by (auto intro: seg_cong)
    then show ?thesis using Suc.hyps(1) [of "Suc pos" "m(cmd + pos := CHR 0x00)"] Suc.hyps(2) lt True sc
      by (subst split_blanks.simps) (auto simp: Let_def fun_eq_iff)
  next
    case False
    then show ?thesis using lt sc by (subst split_blanks.simps) (auto simp: Let_def fun_eq_iff)
  qed
qed

lemma split_word_eq:
  "pos \<le> len \<Longrightarrow> split_word cmd len m pos =
     pos + length (takeWhile (\<lambda>c. \<not> is_blank c) (seg m (cmd + pos) (cmd + len)))"
proof (induction "len - pos" arbitrary: pos)
  case 0
  then show ?case by (subst split_word.simps) simp
next
  case (Suc n)
  then have lt: "pos < len" by simp
  then show ?case using Suc.hyps(1) [of "Suc pos"] Suc.hyps(2) seg_Cons [of "cmd + pos" "cmd + len" m]
    by (subst split_word.simps) simp
qed

lemma split_quoted_eq:
  assumes "m (cmd + len) \<noteq> CHR 0x22"
  shows "pos \<le> len \<Longrightarrow> split_quoted cmd len m pos = pos + length (quoted (seg m (cmd + pos) (cmd + len)))"
proof (induction "len - pos" arbitrary: pos rule: less_induct)
  case less
  show ?case
  proof (cases "pos < len")
    case False
    then show ?thesis using less.prems by (subst split_quoted.simps) (simp add: quoted.simps)
  next
    case True
    note sc = seg_Cons [of "cmd + pos" "cmd + len" m]
    let ?e = "m (cmd + pos) = CHR 0x5C \<and> m (cmd + pos + 1) = CHR 0x22"
    show ?thesis
    proof (cases "m (cmd + pos) = CHR 0x22")
      case q: True
      then show ?thesis using True sc by (subst split_quoted.simps) (simp add: quoted.simps)
    next
      case q: False
      show ?thesis
      proof (cases ?e)
        case e: True
        have lt: "pos + 1 < len"
        proof (rule ccontr)
          assume "\<not> pos + 1 < len"
          then have "len = pos + 1" using True by simp
          then show False using e assms by (simp add: add.assoc)
        qed
        have "quoted (seg m (cmd + pos) (cmd + len)) =
            CHR 0x5C # CHR 0x22 # quoted (seg m (cmd + pos + 2) (cmd + len))"
          using e sc True lt seg_Cons [of "Suc (cmd + pos)" "cmd + len" m] by (subst quoted.simps) simp
        then show ?thesis using less.hyps [of "pos + 2"] lt e q
          by (subst split_quoted.simps) simp
      next
        case e: False
        have "quoted (seg m (cmd + pos) (cmd + len)) = m (cmd + pos) # quoted (seg m (cmd + pos + 1) (cmd + len))"
        proof (cases "pos + 1 < len")
          case True
          then show ?thesis using e q sc seg_Cons [of "Suc (cmd + pos)" "cmd + len" m]
            by (subst quoted.simps) auto
        next
          case False
          then show ?thesis using q sc True by (subst quoted.simps) simp
        qed
        then show ?thesis using less.hyps [of "pos + 1"] True e q
          by (subst split_quoted.simps) auto
      qed
    qed
  qed
qed

section \<open>The arguments\<close>

definition cstr :: "cmem \<Rightarrow> nat \<Rightarrow> string \<Rightarrow> bool" where
  "cstr m a s \<longleftrightarrow> seg m a (a + length s) = s \<and> m (a + length s) = CHR 0x00 \<and> CHR 0x00 \<notin> set s"

lemma quoted_prefix: "take (length (quoted s)) s = quoted s"
proof (induction "length s" arbitrary: s rule: less_induct)
  case less
  show ?case
  proof (cases s)
    case Nil
    then show ?thesis by (simp add: quoted.simps)
  next
    case (Cons c t)
    consider "c = CHR 0x22" | "c \<noteq> CHR 0x22" "c = CHR 0x5C \<and> t \<noteq> [] \<and> hd t = CHR 0x22"
      | "c \<noteq> CHR 0x22" "\<not> (c = CHR 0x5C \<and> t \<noteq> [] \<and> hd t = CHR 0x22)" by blast
    then show ?thesis
    proof cases
      case 1
      then show ?thesis using Cons by (simp add: quoted.simps)
    next
      case 2
      then obtain u where "t = CHR 0x22 # u" by (cases t) auto
      then show ?thesis using 2 Cons less [of u] quoted.simps [of s] by simp
    next
      case 3
      then have "quoted s = c # quoted t" using Cons by (subst quoted.simps) auto
      then show ?thesis using Cons less [of t] by simp
    qed
  qed
qed

lemma quoted_le: "length (quoted t) \<le> length t"
  using quoted_prefix [of t] by (metis length_take min.cobounded1 min.commute)

lemma seg_take: "n \<le> b - a \<Longrightarrow> take n (seg m a b) = seg m a (a + n)"
  by (cases "a + n \<le> b") (auto simp: seg_def take_map take_upt)

lemma takeWhile_seg: "seg m a (a + length (takeWhile P (seg m a b))) = takeWhile P (seg m a b)"
proof -
  have "length (takeWhile P (seg m a b)) \<le> b - a" using length_takeWhile_le [of P "seg m a b"] by simp
  from seg_take [OF this, of m] show ?thesis by (simp add: takeWhile_eq_take [symmetric])
qed

lemma dropWhile_seg: "dropWhile P (seg m a b) = seg m (a + length (takeWhile P (seg m a b))) b"
  by (simp add: dropWhile_eq_drop seg_drop)

lemma cstrI:
  assumes "seg m a (a + length s) = s" "\<And>x. a \<le> x \<Longrightarrow> x < a + length s \<Longrightarrow> m' x = m x"
    "m' (a + length s) = CHR 0x00" "CHR 0x00 \<notin> set s"
  shows "cstr m' a s"
proof -
  have "seg m' a (a + length s) = seg m a (a + length s)" by (rule seg_cong) (use assms(2) in simp)
  then show ?thesis using assms by (simp add: cstr_def)
qed

lemma seg_subset: "a \<le> a' \<Longrightarrow> x \<notin> set (seg m a b) \<Longrightarrow> x \<notin> set (seg m a' b)"
  by (auto simp: seg_def)

lemma split_loop_tokens:
  assumes "msh_split_loop cmd len pos argv m = (argv', m')" "pos \<le> len"
    "CHR 0x00 \<notin> set (seg m (cmd + pos) (cmd + len))" "m (cmd + len) = CHR 0x00"
  shows "\<exists>new. argv' = argv @ new \<and>
    list_all2 (cstr m') new (take (FINSH_ARG_MAX - length argv) (tokens (seg m (cmd + pos) (cmd + len)))) \<and>
    (\<forall>a. a < cmd + pos \<or> cmd + len \<le> a \<longrightarrow> m' a = m a) \<and>
    (pos < len \<longrightarrow> is_blank (m (cmd + pos)) \<longrightarrow> m' (cmd + pos) = CHR 0x00)"
  using assms
proof (induction "len - pos" arbitrary: pos argv m argv' m' rule: less_induct)
  case less
  let ?s = "seg m (cmd + pos) (cmd + len)"
  let ?k = "length (takeWhile is_blank ?s)"
  let ?p = "pos + ?k" and ?m1 = "\<lambda>a. if cmd + pos \<le> a \<and> a < cmd + pos + ?k then CHR 0x00 else m a"
  show ?case
  proof (cases "pos < len")
    case False
    then show ?thesis using less.prems by (subst (asm) msh_split_loop.simps) (auto simp: tokens.simps)
  next
    case True
    have b: "split_blanks cmd len (pos, m) = (?p, ?m1)" using True by (simp add: split_blanks_eq Let_def)
    have kle: "?p \<le> len" using length_takeWhile_le [of is_blank ?s] True by simp
    have s1: "dropWhile is_blank ?s = seg m (cmd + ?p) (cmd + len)" by (simp add: dropWhile_seg add.assoc)
    have blank: "?m1 (cmd + pos) = CHR 0x00" if "is_blank (m (cmd + pos))"
      using that True seg_Cons [of "cmd + pos" "cmd + len" m] by simp
    have nul: "CHR 0x00 \<notin> set (seg m (cmd + ?p) (cmd + len))"
      using less.prems(3) s1 by (metis set_dropWhileD)
    have keep: "\<forall>a. a < cmd + pos \<or> cmd + len \<le> a \<longrightarrow> ?m1 a = m a" using kle by auto
    obtain p m1 where pm: "p = ?p" "m1 = ?m1" by blast
    have m1: "m1 a = m a" if "cmd + p \<le> a" for a using that pm by auto
    have s2: "seg m1 a (cmd + len) = seg m a (cmd + len)" if "cmd + p \<le> a" for a
      using that by (intro seg_cong) (simp add: m1)
    show ?thesis
    proof (cases "length argv \<ge> FINSH_ARG_MAX \<or> p \<ge> len")
      case stop: True
      then have "argv' = argv" "m' = ?m1" using less.prems(1) True b pm
        by (subst (asm) msh_split_loop.simps, auto split: if_splits)+
      moreover have "take (FINSH_ARG_MAX - length argv) (tokens ?s) = []"
        using stop kle s1 pm by (auto simp: tokens.simps)
      ultimately show ?thesis using blank keep by auto
    next
      case go: False
      then have lt: "p < len" "length argv < FINSH_ARG_MAX" by auto
      obtain c t where c: "m (cmd + p) = c" "t = seg m (cmd + p + 1) (cmd + len)"
        "dropWhile is_blank ?s = c # t"
        using s1 pm lt seg_Cons [of "cmd + p" "cmd + len" m] by simp
      have ple: "pos \<le> p" using pm by simp
      have nulp: "CHR 0x00 \<notin> set (seg m a (cmd + len))" if "cmd + p \<le> a" for a
        using seg_subset [OF that] nul pm by simp
      have b': "split_blanks cmd len (pos, m) = (p, m1)" using b pm by simp
      have nt: "CHR 0x00 \<notin> set (c # t)" using nul s1 c(3) pm by simp
      have lent: "length t = len - p - 1" using c(2) by simp
      have end0: "m1 (cmd + len) = CHR 0x00" using less.prems(4) m1 [of "cmd + len"] lt by simp
      show ?thesis
      proof (cases "c = CHR 0x22")
        case True
        let ?q = "length (quoted t)"
        define pos2 where "pos2 = p + 1 + ?q"
        have q: "?q \<le> length t" by (rule quoted_le)
        have arg: "seg m (cmd + p + 1) (cmd + p + 1 + ?q) = quoted t"
          using quoted_prefix [of t] seg_take [of ?q "cmd + len" "cmd + p + 1" m] q c(2) lent by simp
        have na: "CHR 0x00 \<notin> set (quoted t)" using nt quoted_prefix [of t] by (metis in_set_takeD list.set_intros(2))
        have sq: "split_quoted cmd len m1 (p + 1) = pos2"
          using split_quoted_eq [of m1 cmd len "p + 1"] end0 lt s2 [of "cmd + (p + 1)"] c(2) by (simp add: pos2_def)
        have tk: "tokens ?s = quoted t # tokens (seg m (cmd + pos2 + 1) (cmd + len))"
          using c True by (subst tokens.simps) (simp add: seg_drop pos2_def add.assoc)
        show ?thesis
        proof (cases "len \<le> pos2")
          case end_quote: True
          then have l: "pos2 = len" using q lent lt by (simp add: pos2_def)
          have "argv' = argv @ [cmd + p + 1]" "m' = m1"
            using less.prems(1) \<open>pos < len\<close> go b' c(1) m1 [of "cmd + p"] True sq end_quote
            by (subst (asm) msh_split_loop.simps; simp)+
          moreover have "cstr m1 (cmd + p + 1) (quoted t)"
          proof (rule cstrI [OF arg])
            have "cmd + p + 1 + ?q = cmd + len" using l by (simp add: pos2_def)
            then show "m1 (cmd + p + 1 + ?q) = CHR 0x00" using end0 by (simp only:)
          qed (use na in \<open>simp_all add: m1\<close>)
          moreover have "tokens (seg m (cmd + pos2 + 1) (cmd + len)) = []" using l by (simp add: tokens.simps)
          ultimately show ?thesis using keep blank tk lt pm by (auto simp: take_Cons')
        next
          case close_quote: False
          let ?m2 = "m1(cmd + pos2 := CHR 0x00)"
          have run: "msh_split_loop cmd len (pos2 + 1) (argv @ [cmd + p + 1]) ?m2 = (argv', m')"
            using less.prems(1) \<open>pos < len\<close> go b' c(1) m1 [of "cmd + p"] True sq close_quote
            by (subst (asm) msh_split_loop.simps) simp
          have sg: "seg ?m2 (cmd + (pos2 + 1)) (cmd + len) = seg m (cmd + pos2 + 1) (cmd + len)"
            by (rule trans [OF _ s2]) (auto intro: seg_cong simp: pos2_def)
          have "len - (pos2 + 1) < len - pos" "pos2 + 1 \<le> len" "?m2 (cmd + len) = CHR 0x00"
            "CHR 0x00 \<notin> set (seg ?m2 (cmd + (pos2 + 1)) (cmd + len))"
            using ple lt close_quote end0 nulp [of "cmd + pos2 + 1"] unfolding sg by (auto simp: pos2_def)
          from less.hyps [OF this(1) run this(2,4,3)] obtain new where new: "argv' = argv @ [cmd + p + 1] @ new"
            "list_all2 (cstr m') new (take (FINSH_ARG_MAX - Suc (length argv)) (tokens (seg m (cmd + pos2 + 1) (cmd + len))))"
            "\<forall>a. a < cmd + (pos2 + 1) \<or> cmd + len \<le> a \<longrightarrow> m' a = ?m2 a"
            unfolding sg by auto
          have "cstr m' (cmd + p + 1) (quoted t)"
            using na new(3) by (intro cstrI [OF arg]) (simp_all add: m1 pos2_def add.assoc)
          moreover have "\<forall>a. a < cmd + pos \<or> cmd + len \<le> a \<longrightarrow> m' a = m a"
            using new(3) keep pm close_quote by (auto simp: pos2_def)
          moreover have "is_blank (m (cmd + pos)) \<longrightarrow> m' (cmd + pos) = CHR 0x00"
            using new(3) blank pm by (auto simp: pos2_def)
          ultimately show ?thesis
            using new(1,2) tk lt by (intro exI [of _ "(cmd + p + 1) # new"]) (auto simp: take_Cons')
        qed
      next
        case False
        let ?w = "takeWhile (\<lambda>c. \<not> is_blank c) (c # t)"
        define pos2 where "pos2 = p + length ?w"
        have ct: "c # t = seg m (cmd + p) (cmd + len)" using s1 c(3) pm by simp
        have cb: "\<not> is_blank c" using c(3) by (metis hd_dropWhile list.distinct(1) list.sel(1))
        have arg: "seg m (cmd + p) (cmd + p + length ?w) = ?w" unfolding ct by (rule takeWhile_seg)
        have na: "CHR 0x00 \<notin> set ?w" using nt by (meson set_takeWhileD)
        have sw: "split_word cmd len m1 p = pos2"
          using split_word_eq [of p len cmd m1] lt s2 [of "cmd + p"] ct by (simp add: pos2_def)
        have rest: "dropWhile (\<lambda>c. \<not> is_blank c) (c # t) = seg m (cmd + pos2) (cmd + len)"
          unfolding ct dropWhile_seg pos2_def by (simp add: add.assoc)
        have tk: "tokens ?s = ?w # tokens (seg m (cmd + pos2) (cmd + len))"
          using c False rest by (subst tokens.simps) simp
        have pp: "p < pos2" "pos2 \<le> len"
          using cb length_takeWhile_le [of "\<lambda>c. \<not> is_blank c" "c # t"] lent lt by (auto simp: pos2_def)
        show ?thesis
        proof (cases "len \<le> pos2")
          case end_word: True
          then have l: "pos2 = len" using pp by simp
          have "argv' = argv @ [cmd + p]" "m' = m1"
            using less.prems(1) \<open>pos < len\<close> go b' c(1) m1 [of "cmd + p"] False sw end_word
            by (subst (asm) msh_split_loop.simps; simp)+
          moreover have "cstr m1 (cmd + p) ?w"
          proof (rule cstrI [OF arg])
            have "cmd + p + length ?w = cmd + len" using l by (simp add: pos2_def)
            then show "m1 (cmd + p + length ?w) = CHR 0x00" using end0 by (simp only:)
          qed (use na in \<open>simp_all add: m1\<close>)
          moreover have "tokens (seg m (cmd + pos2) (cmd + len)) = []" using l by (simp add: tokens.simps)
          ultimately show ?thesis using keep blank tk lt pm by (auto simp: take_Cons')
        next
          case more: False
          have run: "msh_split_loop cmd len pos2 (argv @ [cmd + p]) m1 = (argv', m')"
            using less.prems(1) \<open>pos < len\<close> go b' c(1) m1 [of "cmd + p"] False sw more
            by (subst (asm) msh_split_loop.simps) simp
          have sg: "seg m1 (cmd + pos2) (cmd + len) = seg m (cmd + pos2) (cmd + len)"
            using pp by (intro s2) simp
          have blank2: "is_blank (m1 (cmd + pos2))"
          proof -
            have "dropWhile (\<lambda>c. \<not> is_blank c) (c # t) \<noteq> []" using rest more by (simp add: seg_def)
            then have "is_blank (hd (dropWhile (\<lambda>c. \<not> is_blank c) (c # t)))" by (metis hd_dropWhile)
            then show ?thesis using rest more pp seg_Cons [of "cmd + pos2" "cmd + len" m] m1 [of "cmd + pos2"] by simp
          qed
          have "len - pos2 < len - pos" "pos2 \<le> len" "CHR 0x00 \<notin> set (seg m1 (cmd + pos2) (cmd + len))"
            using ple lt pp nulp [of "cmd + pos2"] unfolding sg by auto
          from less.hyps [OF this(1) run this(2,3) end0] obtain new where new: "argv' = argv @ [cmd + p] @ new"
            "list_all2 (cstr m') new (take (FINSH_ARG_MAX - Suc (length argv)) (tokens (seg m (cmd + pos2) (cmd + len))))"
            "\<forall>a. a < cmd + pos2 \<or> cmd + len \<le> a \<longrightarrow> m' a = m1 a" "m' (cmd + pos2) = CHR 0x00"
            using more blank2 unfolding sg by auto
          have "cstr m' (cmd + p) ?w"
            using na new(3,4) by (intro cstrI [OF arg]) (simp_all add: m1 pos2_def add.assoc)
          moreover have "\<forall>a. a < cmd + pos \<or> cmd + len \<le> a \<longrightarrow> m' a = m a"
            using new(3) keep pm pp by auto
          moreover have "is_blank (m (cmd + pos)) \<longrightarrow> m' (cmd + pos) = CHR 0x00"
            using new(3) blank pm pp by auto
          ultimately show ?thesis
            using new(1,2) tk lt by (intro exI [of _ "(cmd + p) # new"]) (auto simp: take_Cons')
        qed
      qed
    qed
  qed
qed

end
