(* ===== verification/Shell_Props.thy ===== *)
theory Shell_Props
  imports Msh
begin

text \<open>
  The property of the shell's command line: cutting a line in place yields the arguments of the
  tokenizer.
\<close>

text \<open>C40: \<open>msh_split\<close> cuts a line that ends with a zero, in place, into exactly the arguments that a tokenizer
  on lists finds in it: words separated by blanks and tabs, and quoted strings with escaped quotes, in
  order, the first ten of them; each argument is a zero-terminated string in the line, and no byte in
  front of the line or from its end on is changed.\<close>

theorem split_finds_tokens:
  assumes "CHR 0x00 \<notin> set (seg m cmd (cmd + len))" "m (cmd + len) = CHR 0x00"
  shows "\<exists>argv m'. msh_split cmd len m = (argv, m') \<and>
    list_all2 (cstr m') argv (take FINSH_ARG_MAX (tokens (seg m cmd (cmd + len)))) \<and>
    (\<forall>a. a < cmd \<or> cmd + len \<le> a \<longrightarrow> m' a = m a)"
proof -
  obtain argv m' where r: "msh_split_loop cmd len 0 [] m = (argv, m')" by fastforce
  from split_loop_tokens [OF r] assms show ?thesis by (auto simp: msh_split_def r)
qed

definition demo_line :: cmem where
  "demo_line a = (let s = ''led  on '' @ [CHR 0x22] @ ''a b'' @ [CHR 0x22] in if a < length s then s ! a else CHR 0x00)"

theorem split_finds_tokens_witness:
  "\<exists>argv m'. msh_split 0 13 demo_line = (argv, m') \<and> list_all2 (cstr m') argv [''led'', ''on'', ''a b'']"
proof -
  have s: "seg demo_line 0 13 = ''led  on '' @ [CHR 0x22] @ ''a b'' @ [CHR 0x22]"
    by (simp add: seg_def demo_line_def upt_rec Let_def)
  have t: "tokens (''led  on '' @ [CHR 0x22] @ ''a b'' @ [CHR 0x22]) = [''led'', ''on'', ''a b'']"
    by (simp add: tokens.simps quoted.simps is_blank_def)
  have "CHR 0x00 \<notin> set (seg demo_line 0 (0 + 13))" "demo_line (0 + 13) = CHR 0x00"
    by (simp_all add: s) (simp add: demo_line_def)
  from split_finds_tokens [OF this] show ?thesis by (auto simp: s t simp del: append.simps)
qed

end
