(* ===== verification/Dfs_Path.thy ===== *)
theory Dfs_Path
  imports Format Msh
begin

text \<open>
  Paths in \<^verbatim>\<open>rt-thread/components/dfs/src/dfs.c\<close>: \<open>dfs_normalize_path\<close>, which resolves \<open>.\<close>, \<open>..\<close> and
  repeated slashes of a path in place, and \<open>dfs_subdir\<close>.

  The path under work is a zero-terminated string in a memory of characters, in a block that comes from
  the allocator, a parameter; \<open>src\<close> and \<open>dst\<close> are addresses in it. The loops are partial functions, as
  nothing but the terminator ends them. The outer option says whether the loop returns, the inner one is
  the null pointer of the result.

  The lemmas refine the loop in place to one on lists, and that to a stack of path components.
\<close>

section \<open>The code\<close>

partial_function (option) skip_slashes :: "cmem \<Rightarrow> nat \<Rightarrow> nat option" where
  "skip_slashes m src = (if m src = CHR ''/'' then skip_slashes m (src + 1) else Some src)"

text \<open>\<open>while ((c = *src++) != '\0' && c != '/') *dst++ = c\<close>, with the last \<open>c\<close>\<close>

partial_function (option) copy_name :: "cmem \<Rightarrow> nat \<Rightarrow> nat \<Rightarrow> (char \<times> cmem \<times> nat \<times> nat) option" where
  "copy_name m src dst =
     (let c = m src
      in if c \<noteq> CHR 0x00 \<and> c \<noteq> CHR ''/'' then copy_name (m(dst := c)) (src + 1) (dst + 1)
         else Some (c, m, src + 1, dst))"

text \<open>\<open>while (dst0 < dst && dst[-1] != '/') dst--\<close>\<close>

fun back_up :: "cmem \<Rightarrow> nat \<Rightarrow> nat \<Rightarrow> nat" where
  "back_up m dst0 dst = (if dst0 < dst \<and> m (dst - 1) \<noteq> CHR ''/'' then back_up m dst0 (dst - 1) else dst)"

declare back_up.simps [simp del]

text \<open>One pass of the loop: it goes on with memory, \<open>src\<close> and \<open>dst\<close>, leaves the loop, or gives up.\<close>

datatype norm_next = Again cmem nat nat | Out cmem nat | Null cmem

definition norm_copy :: "cmem \<Rightarrow> nat \<Rightarrow> nat \<Rightarrow> norm_next option" where
  "norm_copy m src dst = do {
     (c, m, src, dst) \<leftarrow> copy_name m src dst;
     if c = CHR ''/'' then
       map_option (\<lambda>src. Again (m(dst := CHR ''/'')) src (dst + 1)) (skip_slashes (m(dst := CHR ''/'')) src)
     else Some (Out m dst) }"

definition norm_up :: "nat \<Rightarrow> cmem \<Rightarrow> nat \<Rightarrow> nat \<Rightarrow> norm_next" where
  "norm_up dst0 m src dst =
     (if dst \<le> dst0 then Null m else Again m src (back_up m dst0 (dst - 1)))"

definition norm_step :: "nat \<Rightarrow> cmem \<Rightarrow> nat \<Rightarrow> nat \<Rightarrow> norm_next option" where
  "norm_step dst0 m src dst =
     (if m src = CHR ''.'' then
        (if m (src + 1) = CHR 0x00 then norm_copy m (src + 1) dst
         else if m (src + 1) = CHR ''/'' then map_option (\<lambda>src. Again m src dst) (skip_slashes m (src + 2))
         else if m (src + 1) = CHR ''.'' \<and> m (src + 2) = CHR 0x00 then Some (norm_up dst0 m (src + 2) dst)
         else if m (src + 1) = CHR ''.'' \<and> m (src + 2) = CHR ''/'' then
           map_option (\<lambda>src. norm_up dst0 m src dst) (skip_slashes m (src + 3))
         else norm_copy m src dst)
      else norm_copy m src dst)"

partial_function (option) norm_loop :: "nat \<Rightarrow> cmem \<Rightarrow> nat \<Rightarrow> nat \<Rightarrow> (cmem \<times> nat option) option" where
  "norm_loop dst0 m src dst =
     Option.bind (norm_step dst0 m src dst) (\<lambda>r. case r of
         Again m src dst \<Rightarrow> norm_loop dst0 m src dst
       | Out m dst \<Rightarrow> Some (m, Some dst)
       | Null m \<Rightarrow> Some (m, None))"

text \<open>What follows the loop. When \<open>dst\<close> is the start of the block, the byte in front of it is read.\<close>

definition norm_end :: "nat \<Rightarrow> cmem \<Rightarrow> nat \<Rightarrow> cmem" where
  "norm_end fullpath m dst =
     (let m = m(dst := CHR 0x00);
          dst = dst - 1;
          m = (if dst \<noteq> fullpath \<and> m dst = CHR ''/'' then m(dst := CHR 0x00) else m)
      in if m fullpath = CHR 0x00 then m(fullpath := CHR ''/'', fullpath + 1 := CHR 0x00) else m)"

text \<open>A string written to a block, with its terminator.\<close>

definition write_string :: "nat \<Rightarrow> string \<Rightarrow> cmem \<Rightarrow> cmem" where
  "write_string a s m = (\<lambda>x. if a \<le> x \<and> x < a + length s then s ! (x - a) else if x = a + length s then CHR 0x00 else m x)"

definition rt_strdup ::
    "(nat \<Rightarrow> 'h \<Rightarrow> nat option \<times> 'h) \<Rightarrow> string \<Rightarrow> cmem \<times> 'h \<Rightarrow> nat option \<times> cmem \<times> 'h" where
  "rt_strdup malloc s = (\<lambda>(m, h).
     case malloc (length s + 1) h of
       (None, h1) \<Rightarrow> (None, m, h1)
     | (Some tmp, h1) \<Rightarrow> (Some tmp, write_string tmp s m, h1))"

definition dfs_normalize_path ::
    "(nat \<Rightarrow> 'h \<Rightarrow> nat option \<times> 'h) \<Rightarrow> (nat \<Rightarrow> 'h \<Rightarrow> 'h) \<Rightarrow> string \<Rightarrow> string option \<Rightarrow> string \<Rightarrow> cmem \<times> 'h \<Rightarrow>
     (nat option \<times> cmem \<times> 'h) option" where
  "dfs_normalize_path malloc free working_directory dir filename mh = do {
     let directory = (case dir of None \<Rightarrow> working_directory | Some d \<Rightarrow> d);
     (block, m1, h1) \<leftarrow>
       (if take 1 filename \<noteq> ''/'' then
          (case malloc (length directory + length filename + 2) (snd mh) of
             (None, h1) \<Rightarrow> Some (None, fst mh, h1)
           | (Some a, h1) \<Rightarrow> do {
               (_, buf) \<leftarrow> rt_snprintf a (length directory + length filename + 2) ''%s/%s''
                  [Str_arg (Some directory), Str_arg (Some filename)] (\<lambda>i. fst mh (a + i));
               Some (Some a, (\<lambda>x. if x < a then fst mh x else buf (x - a)), h1) })
        else Some (rt_strdup malloc filename mh));
     (case block of
        None \<Rightarrow> Some (None, m1, h1)
      | Some fullpath \<Rightarrow> do {
          (m2, r) \<leftarrow> norm_loop fullpath m1 fullpath fullpath;
          (case r of
             None \<Rightarrow> Some (None, m2, free fullpath h1)
           | Some dst \<Rightarrow> Some (Some fullpath, norm_end fullpath m2 dst, h1)) }) }"

text \<open>The part of a file name below a directory, as an offset in the file name; \<open>None\<close> is null.\<close>

definition dfs_subdir :: "string \<Rightarrow> string \<Rightarrow> nat option" where
  "dfs_subdir directory filename =
     (if length directory = length filename then None
      else (let d = length directory
            in Some (if (if d < length filename then filename ! d else CHR 0x00) \<noteq> CHR ''/'' \<and> d \<noteq> 0 then d - 1 else d)))"

section \<open>The reference: a stack of components\<close>

function comps :: "string \<Rightarrow> string list" where
  "comps s =
     (case dropWhile (\<lambda>c. c = CHR ''/'') s of
        [] \<Rightarrow> []
      | c # t \<Rightarrow> takeWhile (\<lambda>c. c \<noteq> CHR ''/'') (c # t) # comps (dropWhile (\<lambda>c. c \<noteq> CHR ''/'') (c # t)))"
  by pat_completeness auto
termination
proof (relation "measure length", goal_cases)
  case prems: (2 s c t)
  have "length (c # t) \<le> length s" using prems(1) by (metis length_dropWhile_le)
  moreover have "c \<noteq> CHR ''/''" using prems(1) by (metis (full_types) hd_dropWhile list.distinct(1) list.sel(1))
  ultimately show ?case using length_dropWhile_le [of "\<lambda>c. c \<noteq> CHR ''/''" t] by simp
qed simp

declare comps.simps [simp del]

fun resolve :: "string list \<Rightarrow> string list \<Rightarrow> string list option" where
  "resolve [] st = Some st"
| "resolve (c # cs) st =
     (if c = ''.'' then resolve cs st
      else if c = ''..'' then (if st = [] then None else resolve cs (butlast st))
      else resolve cs (st @ [c]))"

definition canonical :: "string list \<Rightarrow> string" where
  "canonical st = (if st = [] then ''/'' else concat (map (\<lambda>c. CHR ''/'' # c) st))"

definition dirs :: "string list \<Rightarrow> string" where
  "dirs st = CHR ''/'' # concat (map (\<lambda>c. c @ ''/'') st)"

definition name_ok :: "string \<Rightarrow> bool" where
  "name_ok c \<longleftrightarrow> c \<noteq> [] \<and> CHR ''/'' \<notin> set c \<and> CHR 0x00 \<notin> set c"

lemma dirs_snoc: "dirs (st @ [c]) = dirs st @ c @ ''/''"
  by (simp add: dirs_def)

lemma canonical_snoc: "canonical (st @ [c]) = dirs st @ c"
proof (induction st)
  case (Cons a st)
  then show ?case by (cases st) (auto simp: canonical_def dirs_def)
qed (simp add: canonical_def dirs_def)

lemma comps_slashes: "comps (dropWhile (\<lambda>c. c = CHR ''/'') s) = comps s"
  by (subst (1 2) comps.simps) simp

lemma comps_step:
  "rest \<noteq> [] \<Longrightarrow> hd rest \<noteq> CHR ''/'' \<Longrightarrow>
   comps rest = takeWhile (\<lambda>c. c \<noteq> CHR ''/'') rest # comps (dropWhile (\<lambda>c. c \<noteq> CHR ''/'') rest)"
  by (cases rest) (simp_all add: comps.simps [of rest] comps.simps [of "_ # _"])

section \<open>The loops\<close>

lemma cstr_nth: "cstr m a s \<Longrightarrow> i < length s \<Longrightarrow> m (a + i) = s ! i"
  unfolding cstr_def seg_def by (metis add_diff_cancel_left' length_upt nth_map nth_upt nat_add_left_cancel_less)

lemma cstr_at: "cstr m a s \<Longrightarrow> m a = (case s of [] \<Rightarrow> CHR 0x00 | c # t \<Rightarrow> c)"
  using cstr_nth [of m a s 0] by (cases s) (auto simp: cstr_def)

lemma cstr_Cons: "cstr m a (c # s) \<longleftrightarrow> m a = c \<and> c \<noteq> CHR 0x00 \<and> cstr m (Suc a) s"
  by (auto simp: cstr_def seg_Cons)

lemma cstr_append: "cstr m a (s @ t) \<Longrightarrow> cstr m (a + length s) t"
proof (induction s arbitrary: a)
  case (Cons c s)
  then show ?case using Cons.IH [of "Suc a"] by (simp add: cstr_Cons)
qed simp

lemma cstr_cong: "cstr m a s \<Longrightarrow> (\<And>x. a \<le> x \<Longrightarrow> x \<le> a + length s \<Longrightarrow> m' x = m x) \<Longrightarrow> cstr m' a s"
proof -
  assume c: "cstr m a s" and f: "\<And>x. a \<le> x \<Longrightarrow> x \<le> a + length s \<Longrightarrow> m' x = m x"
  have "seg m' a (a + length s) = seg m a (a + length s)" by (rule seg_cong) (use f in simp)
  then show ?thesis using c f by (simp add: cstr_def)
qed

lemma skip_slashes_eq:
  "cstr m src rest \<Longrightarrow> skip_slashes m src = Some (src + length (takeWhile (\<lambda>c. c = CHR ''/'') rest))"
proof (induction rest arbitrary: src)
  case Nil
  then show ?case by (subst skip_slashes.simps) (simp add: cstr_def)
next
  case (Cons c rest)
  then show ?case using Cons.IH [of "Suc src"] by (subst skip_slashes.simps) (auto simp: cstr_Cons)
qed

lemma cstr_dropWhile: "cstr m src rest \<Longrightarrow> cstr m (src + length (takeWhile P rest)) (dropWhile P rest)"
  using cstr_append [of m src "takeWhile P rest" "dropWhile P rest"] by simp

lemma copy_name_eq:
  assumes "cstr m src (w @ r)" "CHR ''/'' \<notin> set w" "r = [] \<or> hd r = CHR ''/''" "dst \<le> src"
  shows "copy_name m src dst = Some (if r = [] then CHR 0x00 else CHR ''/'',
    \<lambda>x. if dst \<le> x \<and> x < dst + length w then w ! (x - dst) else m x, src + length w + 1, dst + length w)"
  using assms
proof (induction w arbitrary: m src dst)
  case Nil
  then show ?case using cstr_at [of m src r] by (subst copy_name.simps) (cases r; auto simp: fun_eq_iff)
next
  case (Cons c w)
  have c: "m src = c" "c \<noteq> CHR 0x00" "cstr m (Suc src) (w @ r)" using Cons.prems(1) by (auto simp: cstr_Cons)
  have c': "c \<noteq> CHR ''/''" using Cons.prems(2) by auto
  have "cstr (m(dst := c)) (Suc src) (w @ r)" by (rule cstr_cong [OF c(3)]) (use Cons.prems(4) in auto)
  from Cons.IH [OF this _ Cons.prems(3), of "Suc dst"]
  have IH: "copy_name (m(dst := c)) (Suc src) (Suc dst) = Some (if r = [] then CHR 0x00 else CHR ''/'',
      \<lambda>x. if Suc dst \<le> x \<and> x < Suc dst + length w then w ! (x - Suc dst) else (m(dst := c)) x,
      Suc src + length w + 1, Suc dst + length w)" using Cons.prems(2,4) by (simp only: list.set insert_iff de_Morgan_disj Suc_le_mono simp_thms)
  have e: "(\<lambda>x. if Suc dst \<le> x \<and> x < Suc dst + length w then w ! (x - Suc dst) else (m(dst := c)) x) =
      (\<lambda>x. if dst \<le> x \<and> x < dst + length (c # w) then (c # w) ! (x - dst) else m x)"
    by (auto simp: fun_eq_iff nth_Cons')
  have "copy_name m src dst = copy_name (m(dst := c)) (Suc src) (Suc dst)"
    using c c' by (subst copy_name.simps) simp
  also have "\<dots> = Some (if r = [] then CHR 0x00 else CHR ''/'',
      \<lambda>x. if dst \<le> x \<and> x < dst + length (c # w) then (c # w) ! (x - dst) else m x,
      Suc src + length w + 1, Suc dst + length w)" unfolding IH e ..
  finally show ?case by simp
qed

lemma seg_snoc: "a \<le> b \<Longrightarrow> seg m a (Suc b) = seg m a b @ [m b]"
  by (simp add: seg_def)

lemma back_up_eq:
  assumes "seg m dst0 dst = u @ w" "u \<noteq> []" "last u = CHR ''/''" "CHR ''/'' \<notin> set w" "dst0 \<le> dst"
  shows "back_up m dst0 dst = dst - length w"
  using assms
proof (induction w arbitrary: dst rule: rev_induct)
  case Nil
  then have "dst \<noteq> dst0" by auto
  then obtain d where d: "dst = Suc d" "dst0 \<le> d" using Nil.prems(5) by (cases dst) auto
  then have "m d = CHR ''/''" using Nil.prems(1,3) seg_snoc [OF d(2), of m] by auto
  then show ?case using d by (subst back_up.simps) simp
next
  case (snoc c w)
  then have "dst \<noteq> dst0" by auto
  then obtain d where d: "dst = Suc d" "dst0 \<le> d" using snoc.prems(5) by (cases dst) auto
  then have "m d = c" "seg m dst0 d = u @ w" using snoc.prems(1) seg_snoc [OF d(2), of m] by auto
  then show ?case using d snoc by (subst back_up.simps) auto
qed

definition put_word :: "cmem \<Rightarrow> nat \<Rightarrow> string \<Rightarrow> cmem" where
  "put_word m dst w = (\<lambda>x. if dst \<le> x \<and> x < dst + length w then w ! (x - dst) else m x)"

abbreviation (input) is_slash :: "char \<Rightarrow> bool" where "is_slash c \<equiv> c = CHR ''/''"

lemma seg_put_word: "a \<le> dst \<Longrightarrow> seg (put_word m dst w) a (dst + length w) = seg m a dst @ w"
  by (rule nth_equalityI) (auto simp: seg_def put_word_def nth_append add.commute)

lemma put_word_above: "dst + length w \<le> x \<Longrightarrow> put_word m dst w x = m x"
  by (simp add: put_word_def)

lemma put_word_below: "x < dst \<Longrightarrow> put_word m dst w x = m x"
  by (simp add: put_word_def)

lemma norm_step_dot: "cstr m src ''.'' \<Longrightarrow> norm_step dst0 m src dst = Some (Out m dst)"
  by (simp add: cstr_def seg_Cons norm_step_def norm_copy_def copy_name.simps)

lemma norm_step_dot_slash:
  assumes "cstr m src (CHR ''.'' # CHR ''/'' # r)"
  shows "norm_step dst0 m src dst = Some (Again m (src + 2 + length (takeWhile is_slash r)) dst)"
proof -
  have "cstr m (src + 2) r" using assms by (simp add: cstr_Cons)
  from skip_slashes_eq [OF this] show ?thesis using assms by (simp add: cstr_Cons norm_step_def)
qed

lemma norm_step_up: "cstr m src ''..'' \<Longrightarrow> norm_step dst0 m src dst = Some (norm_up dst0 m (src + 2) dst)"
  by (simp add: cstr_def seg_Cons norm_step_def)

lemma norm_step_up_slash:
  assumes "cstr m src (CHR ''.'' # CHR ''.'' # CHR ''/'' # r)"
  shows "norm_step dst0 m src dst = Some (norm_up dst0 m (src + 3 + length (takeWhile is_slash r)) dst)"
proof -
  have "cstr m (src + 3) r" using assms by (simp add: cstr_Cons eval_nat_numeral)
  from skip_slashes_eq [OF this] show ?thesis using assms by (simp add: cstr_Cons norm_step_def)
qed

lemma norm_step_name:
  assumes c: "cstr m src (w @ r)" and w: "CHR ''/'' \<notin> set w" "w \<noteq> ''.''" "w \<noteq> ''..''"
  shows "w \<noteq> [] \<or> r = [] \<Longrightarrow> norm_step dst0 m src dst = norm_copy m src dst"
proof (cases w)
  case Nil
  assume "w \<noteq> [] \<or> r = []"
  then show ?thesis using Nil c by (simp add: cstr_def norm_step_def)
next
  case w1: (Cons a w1)
  show ?thesis
  proof (cases w1)
    case Nil
    then show ?thesis using w1 c w by (simp add: cstr_Cons norm_step_def)
  next
    case w2: (Cons b w2)
    show ?thesis
    proof (cases w2)
      case Nil
      then show ?thesis using w1 w2 c w by (auto simp: cstr_Cons norm_step_def)
    next
      case (Cons d w3)
      then show ?thesis using w1 w2 c w by (auto simp: cstr_Cons norm_step_def)
    qed
  qed
qed

lemma norm_copy_last:
  assumes "cstr m src w" "CHR ''/'' \<notin> set w" "dst \<le> src"
  shows "norm_copy m src dst = Some (Out (put_word m dst w) (dst + length w))"
  using copy_name_eq [of m src w "[]" dst] assms by (simp add: norm_copy_def put_word_def)

lemma norm_copy_slash:
  assumes "cstr m src (w @ CHR ''/'' # r)" "CHR ''/'' \<notin> set w" "dst \<le> src"
  shows "norm_copy m src dst = Some (Again (put_word m dst (w @ ''/''))
    (src + length w + 1 + length (takeWhile is_slash r)) (dst + length w + 1))"
proof -
  let ?m = "(put_word m dst w)(dst + length w := CHR ''/'')"
  have m: "?m = put_word m dst (w @ ''/'')" by (auto simp: put_word_def fun_eq_iff nth_append)
  have "cstr m (src + length w + 1) r" using cstr_append [of m src "w @ ''/''" r] assms(1) by simp
  then have "cstr ?m (src + length w + 1) r"
    by (rule cstr_cong) (use assms(3) in \<open>simp add: put_word_def\<close>)
  from skip_slashes_eq [OF this] copy_name_eq [of m src w "CHR ''/'' # r" dst] assms
  show ?thesis unfolding norm_copy_def m by (simp add: put_word_def [symmetric] m)
qed

lemma norm_up_eq:
  assumes "seg m dst0 dst = dirs (st @ [w])" "name_ok w" "dst0 \<le> dst"
  shows "norm_up dst0 m src dst = Again m src (dst - length w - 1) \<and> seg m dst0 (dst - length w - 1) = dirs st \<and>
    dst0 < dst - length w - 1"
proof -
  have "length (seg m dst0 dst) = length (dirs st) + length w + 1" using assms(1) by (simp add: dirs_snoc)
  then have l: "dst = dst0 + length (dirs st) + length w + 1" using assms(3) by simp
  have dl: "dirs st \<noteq> []" "last (dirs st) = CHR ''/''"
    by (cases st rule: rev_cases; simp add: dirs_snoc dirs_def)+
  have "seg m dst0 (dst - 1) @ [m (dst - 1)] = (dirs st @ w) @ ''/''"
    using seg_snoc [of dst0 "dst - 1" m] assms(1) l by (simp add: dirs_snoc)
  then have s: "seg m dst0 (dst - 1) = dirs st @ w" by (simp only: append1_eq_conv)
  have b: "back_up m dst0 (dst - 1) = dst - 1 - length w"
    by (rule back_up_eq [OF s dl]) (use assms(2) l in \<open>auto simp: name_ok_def\<close>)
  have "seg m dst0 (dst - 1 - length w) = take (length (dirs st)) (seg m dst0 (dst - 1))"
    using l by (simp add: seg_def take_map)
  then have "seg m dst0 (dst - 1 - length w) = dirs st" using s by simp
  moreover have "0 < length (dirs st)" using dl by simp
  ultimately show ?thesis using b l by (simp add: norm_up_def)
qed

text \<open>What the loop promises of the path resolved: \<open>st'\<close>, with a slash behind it or not.\<close>

definition norm_done :: "nat \<Rightarrow> nat \<Rightarrow> cmem \<Rightarrow> (cmem \<times> nat option) option \<Rightarrow> string list \<Rightarrow> bool" where
  "norm_done dst0 hi m r st' \<longleftrightarrow> (\<exists>m' dst'. r = Some (m', Some dst') \<and> dst0 < dst' \<and> dst' \<le> hi \<and>
     (seg m' dst0 dst' = dirs st' \<or> st' \<noteq> [] \<and> seg m' dst0 dst' = butlast (dirs st')) \<and>
     (\<forall>c\<in>set st'. name_ok c) \<and> (\<forall>x. x < dst0 \<or> hi < x \<longrightarrow> m' x = m x))"

lemma norm_done_frame:
  "norm_done dst0 hi m1 r st' \<Longrightarrow> (\<And>x. x < dst0 \<or> hi < x \<Longrightarrow> m1 x = m x) \<Longrightarrow> norm_done dst0 hi m r st'"
  unfolding norm_done_def by metis

lemma norm_loop_next:
  "norm_step dst0 m src dst = Some (Again m1 src1 dst1) \<Longrightarrow> norm_loop dst0 m src dst = norm_loop dst0 m1 src1 dst1"
  "norm_step dst0 m src dst = Some (Out m1 dst1) \<Longrightarrow> norm_loop dst0 m src dst = Some (m1, Some dst1)"
  by (simp_all add: norm_loop.simps [of dst0 m src dst])

lemma comps_word:
  assumes "w \<noteq> []" "CHR ''/'' \<notin> set w"
  shows "comps w = [w]" "comps (w @ CHR ''/'' # r) = w # comps (dropWhile is_slash r)"
proof -
  have h: "hd w \<noteq> CHR ''/''" using assms by (cases w) auto
  have tw: "takeWhile (\<lambda>c. c \<noteq> CHR ''/'') w = w" "dropWhile (\<lambda>c. c \<noteq> CHR ''/'') w = []"
    using assms(2) by (auto simp: takeWhile_eq_all_conv)
  show "comps w = [w]" using comps_step [OF assms(1) h] tw by (simp add: comps.simps [of "[]"])
  have "takeWhile (\<lambda>c. c \<noteq> CHR ''/'') (w @ CHR ''/'' # r) = w"
    "dropWhile (\<lambda>c. c \<noteq> CHR ''/'') (w @ CHR ''/'' # r) = CHR ''/'' # r"
    using assms(2) by (auto simp: takeWhile_append takeWhile_eq_all_conv dropWhile_append)
  moreover have "comps (CHR ''/'' # r) = comps (dropWhile is_slash r)"
    using comps_slashes [of "CHR ''/'' # r"] by simp
  ultimately show "comps (w @ CHR ''/'' # r) = w # comps (dropWhile is_slash r)"
    using comps_step [of "w @ CHR ''/'' # r"] assms(1) h by simp
qed

lemma split_first_word:
  assumes "rest \<noteq> []" "hd rest \<noteq> CHR ''/''"
  obtains w r where "w \<noteq> []" "CHR ''/'' \<notin> set w" "rest = w \<or> rest = w @ CHR ''/'' # r"
proof -
  let ?w = "takeWhile (\<lambda>c. c \<noteq> CHR ''/'') rest" and ?d = "dropWhile (\<lambda>c. c \<noteq> CHR ''/'') rest"
  have "?w \<noteq> []" "CHR ''/'' \<notin> set ?w" using assms by (cases rest; auto dest: set_takeWhileD)+
  moreover have "rest = ?w \<or> rest = ?w @ CHR ''/'' # tl ?d"
  proof (cases "?d = []")
    case True
    then show ?thesis using takeWhile_dropWhile_id [of "\<lambda>c. c \<noteq> CHR ''/''" rest] by (metis append.right_neutral)
  next
    case False
    then have "hd ?d = CHR ''/''" using hd_dropWhile [of "\<lambda>c. c \<noteq> CHR ''/''" rest] by auto
    then have "?d = CHR ''/'' # tl ?d" using False by (cases ?d) auto
    then show ?thesis using takeWhile_dropWhile_id [of "\<lambda>c. c \<noteq> CHR ''/''" rest] by metis
  qed
  ultimately show ?thesis using that by blast
qed

lemma norm_again:
  assumes step: "norm_step dst0 m src dst = Some (Again m1 (src + n + length (takeWhile is_slash r)) dst1)"
    and len: "length rest = n + length r"
    and fin: "norm_done dst0 (src + n + length (takeWhile is_slash r) + length (dropWhile is_slash r)) m1
      (norm_loop dst0 m1 (src + n + length (takeWhile is_slash r)) dst1) st'"
    and fr: "\<And>x. x < dst0 \<or> src + length rest < x \<Longrightarrow> m1 x = m x"
  shows "norm_done dst0 (src + length rest) m (norm_loop dst0 m src dst) st'"
proof -
  have "length (takeWhile is_slash r) + length (dropWhile is_slash r) = length r"
    by (metis length_append takeWhile_dropWhile_id)
  then have e: "src + n + length (takeWhile is_slash r) + length (dropWhile is_slash r) = src + length rest"
    using len by simp
  have "norm_done dst0 (src + length rest) m1 (norm_loop dst0 m src dst) st'"
    using fin unfolding e norm_loop_next(1) [OF step] .
  then show ?thesis by (rule norm_done_frame) (rule fr)
qed

lemma dropWhile_slash_hd: "dropWhile is_slash r = [] \<or> hd (dropWhile is_slash r) \<noteq> CHR ''/''"
  using hd_dropWhile [of is_slash r] by auto

lemma dropWhile_slash_len: "length (dropWhile is_slash r) \<le> length r"
  by (rule length_dropWhile_le)

lemma norm_loop_resolves:
  assumes "cstr m src rest" "rest = [] \<or> hd rest \<noteq> CHR ''/''" "dst0 < dst" "dst \<le> src" "seg m dst0 dst = dirs st"
    "\<forall>c\<in>set st. name_ok c" "resolve (comps rest) st = Some st'"
  shows "norm_done dst0 (src + length rest) m (norm_loop dst0 m src dst) st'"
  using assms
proof (induction rest arbitrary: m src dst st rule: measure_induct_rule [where f = length])
  case (less rest)
  note IH = less.IH and pre = less.prems
  have stop: "norm_step dst0 m src dst = Some (Out m dst) \<Longrightarrow> st' = st \<Longrightarrow> ?case"
    using pre(3-6) unfolding norm_done_def by (auto simp: norm_loop_next(2))
  show ?case
  proof (cases "rest = []")
    case True
    then have "norm_step dst0 m src dst = Some (Out m dst)"
      using pre(1) by (simp add: cstr_def norm_step_def norm_copy_def copy_name.simps [of m src])
    then show ?thesis using stop True pre(7) by (simp add: comps.simps [of "[]"])
  next
    case False
    then obtain w r where w: "w \<noteq> []" "CHR ''/'' \<notin> set w" and rest: "rest = w \<or> rest = w @ CHR ''/'' # r"
      using pre(2) split_first_word by metis
    let ?r = "dropWhile is_slash r" and ?k = "length (takeWhile is_slash r)"
    have nz: "CHR 0x00 \<notin> set rest" using pre(1) by (simp add: cstr_def)
    have again: ?thesis if "rest = w @ CHR ''/'' # r" "norm_step dst0 m src dst = Some (Again m1 (src + (length w + 1) + ?k) dst1)"
      "resolve (comps ?r) st1 = Some st'" "dst0 < dst1" "dst1 \<le> src + length w + 1" "seg m1 dst0 dst1 = dirs st1"
      "\<forall>c\<in>set st1. name_ok c" "\<And>x. x < dst0 \<or> src + length w + 1 \<le> x \<Longrightarrow> m1 x = m x" for m1 dst1 st1
    proof (rule norm_again [OF that(2)])
      have "cstr m (src + (length w + 1)) r" using pre(1) cstr_append [of m src "w @ ''/''" r] that(1) by simp
      then have "cstr m (src + (length w + 1) + ?k) ?r" by (rule cstr_dropWhile)
      then have "cstr m1 (src + (length w + 1) + ?k) ?r" by (rule cstr_cong) (use that(8) in simp)
      moreover have "length ?r < length rest" using dropWhile_slash_len [of r] that(1) by simp
      ultimately show "norm_done dst0 (src + (length w + 1) + ?k + length ?r) m1
          (norm_loop dst0 m1 (src + (length w + 1) + ?k) dst1) st'"
        using that dropWhile_slash_hd by (intro IH [where st = st1]) auto
    qed (use that in auto)
    consider "w = ''.''" | "w = ''..''" | "w \<noteq> ''.''" "w \<noteq> ''..''" by blast
    then show ?thesis
    proof cases
      case dot: 1
      show ?thesis
      proof (cases "rest = w")
        case True
        then show ?thesis using stop norm_step_dot pre(1,7) comps_word(1) [OF w] dot by simp
      next
        case False
        then have r: "rest = w @ CHR ''/'' # r" using rest by simp
        show ?thesis
          by (rule again [OF r, of m dst st])
            (use norm_step_dot_slash [of m src r] r dot pre comps_word(2) [OF w] in simp_all)
      qed
    next
      case up: 2
      have "st \<noteq> []" "resolve (if rest = w then [] else comps ?r) (butlast st) = Some st'"
        using pre(7) rest comps_word [OF w] up by (auto split: if_splits)
      then obtain st0 d where st: "st = st0 @ [d]" "resolve (if rest = w then [] else comps ?r) st0 = Some st'"
        by (metis append_butlast_last_id)
      have ok: "name_ok d" "\<forall>c\<in>set st0. name_ok c" using pre(6) st by auto
      have nu: "norm_up dst0 m s dst = Again m s (dst - length d - 1)" and sg: "seg m dst0 (dst - length d - 1) = dirs st0"
        and lo: "dst0 < dst - length d - 1" for s
        using norm_up_eq [of m dst0 dst st0 d] pre(3,5) ok st by auto
      show ?thesis
      proof (cases "rest = w")
        case True
        then have n: "norm_step dst0 m src dst = Some (Again m (src + 2 + length (takeWhile is_slash [])) (dst - length d - 1))"
          using norm_step_up pre(1) up nu by simp
        have "cstr m (src + 2) []" using cstr_append [of m src w "[]"] True up pre(1) by simp
        then have "norm_done dst0 (src + 2 + length (takeWhile is_slash []) + length (dropWhile is_slash [])) m
            (norm_loop dst0 m (src + 2 + length (takeWhile is_slash [])) (dst - length d - 1)) st'"
          using IH [of "[]" m "src + 2" "dst - length d - 1" st0] True st(2) w pre(4) sg lo ok up
          by (simp add: comps.simps [of "[]"])
        from norm_again [OF n _ this, of rest] show ?thesis using True up by simp
      next
        case False
        then have r: "rest = w @ CHR ''/'' # r" using rest by simp
        show ?thesis
          by (rule again [OF r, of m "dst - length d - 1" st0])
            (use norm_step_up_slash [of m src r] r up pre(1,4) nu sg lo ok st(2) w False in \<open>simp_all add: eval_nat_numeral\<close>)
      qed
    next
      case name: 3
      have ok: "\<forall>c\<in>set (st @ [w]). name_ok c" using pre(6) w nz rest by (auto simp: name_ok_def)
      show ?thesis
      proof (cases "rest = w")
        case True
        have "norm_step dst0 m src dst = Some (Out (put_word m dst w) (dst + length w))"
          using norm_step_name [of m src w "[]"] norm_copy_last [of m src w dst] pre True w name by simp
        moreover have "st' = st @ [w]" using pre(7) comps_word(1) [OF w] True name by simp
        moreover have "seg (put_word m dst w) dst0 (dst + length w) = butlast (dirs (st @ [w]))"
          using seg_put_word [of dst0 dst m w] pre(3,5) by (simp add: dirs_snoc butlast_append)
        ultimately show ?thesis using pre(3,4) ok True unfolding norm_done_def
          by (auto simp: norm_loop_next(2) put_word_def)
      next
        case False
        then have r: "rest = w @ CHR ''/'' # r" using rest by simp
        have s: "norm_step dst0 m src dst = Some (Again (put_word m dst (w @ ''/'')) (src + (length w + 1) + ?k) (dst + length w + 1))"
          using norm_step_name [of m src w "CHR ''/'' # r"] norm_copy_slash [of m src w r dst] pre r w name
          by (simp add: add.assoc)
        have fr: "put_word m dst (w @ ''/'') x = m x" if "x < dst0 \<or> src + length w + 1 \<le> x" for x
          using that pre(3,4) by (auto simp: put_word_def)
        show ?thesis
          by (rule again [OF r s, of "st @ [w]"])
            (use seg_put_word [of dst0 dst m "w @ ''/''"] pre r ok comps_word(2) [OF w] name fr in
              \<open>simp_all add: dirs_snoc\<close>)
      qed
    qed
  qed
qed

lemma canonical_last: "st \<noteq> [] \<Longrightarrow> butlast (dirs st) = canonical st \<and> dirs st = canonical st @ ''/''"
  by (cases st rule: rev_cases) (simp_all add: dirs_snoc canonical_snoc butlast_append)

lemma canonical_ok:
  "\<forall>c\<in>set st. name_ok c \<Longrightarrow> CHR 0x00 \<notin> set (canonical st) \<and> hd (canonical st) = CHR ''/'' \<and> canonical st \<noteq> []"
  by (cases st) (auto simp: canonical_def name_ok_def)

lemma seg_upd_out: "x < a \<or> b \<le> x \<Longrightarrow> seg (m(x := c)) a b = seg m a b"
  by (rule seg_cong) auto

lemma seg_upd_end: "a \<le> b \<Longrightarrow> seg m a b = s \<Longrightarrow> CHR 0x00 \<notin> set s \<Longrightarrow> cstr (m(b := CHR 0x00)) a s"
  using seg_length [of m a b] by (auto simp: cstr_def seg_upd_out)

text \<open>The end of the function: the terminator, and the slash at the end goes.\<close>

lemma norm_end_canonical:
  assumes "a < dst" "seg m a dst = dirs st \<or> st \<noteq> [] \<and> seg m a dst = butlast (dirs st)" "\<forall>c\<in>set st. name_ok c"
  shows "cstr (norm_end a m dst) a (canonical st) \<and> (\<forall>x. x < a \<or> dst < x \<longrightarrow> norm_end a m dst x = m x)"
proof -
  define m1 where "m1 = (m(dst := CHR 0x00))(dst - 1 := if dst - 1 \<noteq> a \<and> m (dst - 1) = CHR ''/'' then CHR 0x00 else m (dst - 1))"
  have ne: "dst - Suc 0 \<noteq> dst" using assms(1) by arith
  then have e: "(m(dst := CHR 0x00)) (dst - 1) = m (dst - 1)" by simp
  have m1: "(if dst - 1 \<noteq> a \<and> (m(dst := CHR 0x00)) (dst - 1) = CHR ''/'' then (m(dst := CHR 0x00))(dst - 1 := CHR 0x00)
      else m(dst := CHR 0x00)) = m1"
    using e ne by (auto simp: m1_def fun_eq_iff)
  have sn: "seg m a dst = seg m a (dst - 1) @ [m (dst - 1)]" using seg_snoc [of a "dst - 1" m] assms(1) by simp
  have ok: "CHR 0x00 \<notin> set (canonical st)" "hd (canonical st) = CHR ''/''" "canonical st \<noteq> []"
    using canonical_ok [OF assms(3)] by simp_all
  have len: "dst - 1 = a \<longleftrightarrow> length (seg m a dst) = 1" using assms(1) by auto
  have c: "cstr m1 a (canonical st)"
  proof (cases "st = []")
    case True
    then have s: "seg m a dst = ''/''" using assms(2) by (simp add: dirs_def)
    then have "m1 = m(dst := CHR 0x00)" using len by (auto simp: m1_def fun_eq_iff)
    then show ?thesis using seg_upd_end [of a dst m "''/''"] assms(1) s True by (simp add: canonical_def)
  next
    case False
    show ?thesis
    proof (cases "seg m a dst = dirs st")
      case True
      then have s: "seg m a (dst - 1) @ [m (dst - 1)] = canonical st @ ''/''" using sn canonical_last [OF False] by simp
      then have "seg m a (dst - 1) = canonical st" "m (dst - 1) = CHR ''/''" by (simp_all only: append1_eq_conv)
      moreover have "dst - 1 \<noteq> a" using len True canonical_last [OF False] ok(3) by (cases "canonical st") simp_all
      ultimately have "m1 = (m(dst := CHR 0x00))(dst - 1 := CHR 0x00)" "seg (m(dst := CHR 0x00)) a (dst - 1) = canonical st"
        by (simp_all add: m1_def seg_upd_out)
      then show ?thesis using seg_upd_end [of a "dst - 1" "m(dst := CHR 0x00)"] assms(1) ok(1) by simp
    next
      case nl: False
      then have s: "seg m a dst = canonical st" using assms(2) canonical_last [OF False] by simp
      have "m (dst - 1) = last (canonical st)" using sn s by (metis last_snoc)
      moreover have "last (canonical st) \<noteq> CHR ''/''"
      proof -
        obtain st0 w where st: "st = st0 @ [w]" using False rev_exhaust by blast
        then have "name_ok w" using assms(3) by simp
        then show ?thesis by (auto simp: st canonical_snoc name_ok_def dest: last_in_set)
      qed
      ultimately have "m1 = m(dst := CHR 0x00)" using ne by (auto simp: m1_def fun_eq_iff)
      then show ?thesis using seg_upd_end [of a dst m] assms(1) s ok(1) by simp
    qed
  qed
  then have "m1 a \<noteq> CHR 0x00" using cstr_at [OF c] ok(2,3) by (cases "canonical st") auto
  then have "norm_end a m dst = m1" unfolding norm_end_def Let_def m1 by simp
  then show ?thesis using c assms(1) by (auto simp: m1_def)
qed

text \<open>The whole of it, from a block that holds an absolute path.\<close>

lemma normalize_absolute:
  assumes "cstr m a (CHR ''/'' # t)" "resolve (comps t) [] = Some st"
  shows "\<exists>m' dst. norm_loop a m a a = Some (m', Some dst) \<and> cstr (norm_end a m' dst) a (canonical st) \<and>
    (\<forall>x. x < a \<or> a + length t + 1 < x \<longrightarrow> norm_end a m' dst x = m x)"
proof -
  let ?k = "length (takeWhile is_slash t)" and ?r = "dropWhile is_slash t" and ?m = "put_word m a ''/''"
  have "norm_step a m a a = norm_copy m a a" using assms(1) by (simp add: cstr_Cons norm_step_def)
  then have s: "norm_step a m a a = Some (Again ?m (a + 1 + ?k) (a + 1))"
    using norm_copy_slash [of m a "[]" t a] assms(1) by simp
  have "cstr m (a + 1 + ?k) ?r" using cstr_dropWhile [of m "a + 1" t] assms(1) by (simp add: cstr_Cons)
  then have c: "cstr ?m (a + 1 + ?k) ?r" by (rule cstr_cong) (simp add: put_word_def)
  have l: "?k + length ?r = length t" by (metis length_append takeWhile_dropWhile_id)
  have "seg ?m a (a + 1) = dirs []" using seg_put_word [of a a m "''/''"] by (simp add: dirs_def)
  moreover have "resolve (comps ?r) [] = Some st" using assms(2) comps_slashes by simp
  ultimately have "norm_done a (a + 1 + ?k + length ?r) ?m (norm_loop a ?m (a + 1 + ?k) (a + 1)) st"
    using norm_loop_resolves [OF c dropWhile_slash_hd, of a "a + 1" "[]" st] by simp
  then obtain m' dst where d: "norm_loop a ?m (a + 1 + ?k) (a + 1) = Some (m', Some dst)" "a < dst"
      "dst \<le> a + 1 + length t" "seg m' a dst = dirs st \<or> st \<noteq> [] \<and> seg m' a dst = butlast (dirs st)"
      "\<forall>c\<in>set st. name_ok c" "\<forall>x. x < a \<or> a + 1 + length t < x \<longrightarrow> m' x = ?m x"
    unfolding norm_done_def using l by (auto simp: add.assoc)
  have "norm_end a m' dst x = m x" if "x < a \<or> a + length t + 1 < x" for x
    using norm_end_canonical [OF d(2,4,5)] d(3,6) that by (auto simp: put_word_def)
  then show ?thesis using norm_end_canonical [OF d(2,4,5)] norm_loop_next(1) [OF s] d(1) by simp
qed

text \<open>The directory, a slash and the file name, printed into the block.\<close>

lemma scan_spec_s: "scan_spec (CHR ''s'' # f) args = Some (0, - 1, - 1, None, CHR ''s'' # f, args)"
  by (simp add: scan_spec_def scan_width_def scan_precision_def scan_qualifier_def is_digit_def)

lemma convert_str_plain: "convert_str en 0 (- 1) (- 1) (Some s) p = emits en s p"
  by (simp add: convert_str_def pad_str.simps Let_def)

lemma join_text:
  "vsn_loop en ''%s/%s'' [Str_arg (Some d), Str_arg (Some f)] p = Some (emits en (d @ ''/'' @ f) p)"
  by (simp add: vsn_loop_step scan_spec_s convert_def convert_str_plain)

lemma join_snprintf:
  "rt_snprintf b n ''%s/%s'' [Str_arg (Some d), Str_arg (Some f)] m =
    Some (length (d @ ''/'' @ f), terminated (buffer_room b n) (d @ ''/'' @ f) m)"
  unfolding rt_snprintf_def by (rule rt_vsnprintf_text) (rule join_text)

lemma cstr_write: "CHR 0x00 \<notin> set s \<Longrightarrow> cstr (write_string a s m) a s"
  by (auto simp: cstr_def write_string_def seg_def intro!: nth_equalityI)

text \<open>Resolving is idempotent.\<close>

lemma resolve_names:
  "resolve cs st = Some st' \<Longrightarrow> set st' \<subseteq> set st \<union> (set cs - {''.'', ''..''})"
proof (induction cs st rule: resolve.induct)
  case (2 c cs st)
  have "set (butlast st) \<subseteq> set st" by (auto dest: in_set_butlastD)
  then show ?case using 2 by (auto split: if_splits)
qed simp

lemma comps_canonical: "\<forall>c\<in>set st. name_ok c \<Longrightarrow> comps (canonical st) = st"
proof (induction st)
  case Nil
  then show ?case by (simp add: canonical_def comps.simps)
next
  case (Cons c st)
  have w: "c \<noteq> []" "CHR ''/'' \<notin> set c" using Cons.prems by (auto simp: name_ok_def)
  have IH: "comps (canonical st) = st" using Cons by simp
  have s: "comps (CHR ''/'' # x) = comps x" for x
    using comps_slashes [of "CHR ''/'' # x"] comps_slashes [of x] by simp
  show ?case
  proof (cases st)
    case Nil
    then show ?thesis using comps_word(1) [OF w] s by (simp add: canonical_def)
  next
    case (Cons d st')
    then obtain r where r: "canonical st = CHR ''/'' # r" "canonical (c # st) = CHR ''/'' # c @ CHR ''/'' # r"
      by (simp add: canonical_def)
    show ?thesis using comps_word(2) [OF w, of r] IH s [of r] s [of "c @ CHR ''/'' # r"] comps_slashes [of r] r by simp
  qed
qed

lemma comps_ok: "CHR 0x00 \<notin> set s \<Longrightarrow> \<forall>c\<in>set (comps s). name_ok c"
proof (induction s rule: comps.induct)
  case (1 s)
  let ?d = "dropWhile is_slash s" and ?P = "\<lambda>c. c \<noteq> CHR ''/''"
  show ?case
  proof (cases ?d)
    case Nil
    then have "comps s = []" by (subst comps.simps) (simp only: list.case)
    then show ?thesis by simp
  next
    case (Cons c t)
    have sub: "set (c # t) \<subseteq> set s" using set_dropWhileD [of _ is_slash s] Cons by auto
    have c: "c \<noteq> CHR ''/''" using dropWhile_slash_hd [of s] Cons by simp
    have "CHR 0x00 \<notin> set (dropWhile ?P (c # t))" using set_dropWhileD [of _ ?P "c # t"] sub "1.prems" by blast
    from "1.IH" [OF Cons this] have r: "\<forall>x\<in>set (comps (dropWhile ?P (c # t))). name_ok x" .
    have "set (takeWhile ?P (c # t)) \<subseteq> set s" using set_takeWhileD [of _ ?P "c # t"] sub by blast
    moreover have "CHR ''/'' \<notin> set (takeWhile ?P (c # t))" using set_takeWhileD [of _ ?P "c # t"] by blast
    moreover have "takeWhile ?P (c # t) \<noteq> []" using c by simp
    ultimately have "name_ok (takeWhile ?P (c # t))" using "1.prems" unfolding name_ok_def by blast
    moreover have "comps s = takeWhile ?P (c # t) # comps (dropWhile ?P (c # t))"
      unfolding comps.simps [of s] Cons by simp
    ultimately show ?thesis using r by simp
  qed
qed

lemma resolve_done: "''.'' \<notin> set cs \<Longrightarrow> ''..'' \<notin> set cs \<Longrightarrow> resolve cs st = Some (st @ cs)"
  by (induction cs arbitrary: st) auto

end
