(* ===== verification/Dfs_Fs.thy ===== *)
theory Dfs_Fs
  imports Dfs_Path
begin

text \<open>
  The tables of the device file system, \<^verbatim>\<open>rt-thread/components/dfs/src\<close>: file system types and mounted
  file systems (\<^verbatim>\<open>dfs_fs.c\<close>), and the file descriptors (\<^verbatim>\<open>dfs.c\<close>).

  A pointer to the operations of a file system, to a device and to a descriptor is an address; a pointer
  into the table of mounted file systems is the index there. A path is the block that holds it, with the
  string in it. The drivers, the device layer and the allocator are functions of an environment record;
  what a driver keeps for itself, devices and the buffers of the caller are in a world of its type.
  \<^verbatim>\<open>dfs_lock\<close> and \<^verbatim>\<open>dfs_unlock\<close> make their section one step, so they do not appear. \<open>None\<close> is a function
  that does not return, or a null pointer dereferenced.
\<close>

abbreviation (input) DFS_FILESYSTEMS_MAX :: nat where "DFS_FILESYSTEMS_MAX \<equiv> 2"
abbreviation (input) DFS_FILESYSTEM_TYPES_MAX :: nat where "DFS_FILESYSTEM_TYPES_MAX \<equiv> 2"
abbreviation (input) DFS_FD_MAX :: nat where "DFS_FD_MAX \<equiv> 16"
abbreviation (input) DFS_FD_OFFSET :: int where "DFS_FD_OFFSET \<equiv> 3"
abbreviation (input) DFS_FD_MAGIC :: u16 where "DFS_FD_MAGIC \<equiv> 0xfdfd"

abbreviation (input) ENOENT :: int where "ENOENT \<equiv> 2"
abbreviation (input) EIO :: int where "EIO \<equiv> 5"
abbreviation (input) ENXIO :: int where "ENXIO \<equiv> 6"
abbreviation (input) ENOMEM :: int where "ENOMEM \<equiv> 12"
abbreviation (input) EBUSY :: int where "EBUSY \<equiv> 16"
abbreviation (input) EEXIST :: int where "EEXIST \<equiv> 17"
abbreviation (input) EXDEV :: int where "EXDEV \<equiv> 18"
abbreviation (input) ENODEV :: int where "ENODEV \<equiv> 19"
abbreviation (input) ENOTDIR :: int where "ENOTDIR \<equiv> 20"
abbreviation (input) EINVAL :: int where "EINVAL \<equiv> 22"
abbreviation (input) ENOSPC :: int where "ENOSPC \<equiv> 28"
abbreviation (input) ENOSYS :: int where "ENOSYS \<equiv> 38"

section \<open>The data\<close>

type_synonym path = "nat \<times> string"

record dfs_filesystem =
  fs_dev_id :: "nat option"
  fs_path :: "path option"
  fs_ops :: "nat option"

text \<open>\<open>memset(fs, 0, sizeof(struct dfs_filesystem))\<close>\<close>

definition no_filesystem :: dfs_filesystem where
  "no_filesystem = \<lparr>fs_dev_id = None, fs_path = None, fs_ops = None\<rparr>"

text \<open>The private data of a descriptor: null, the file system, or what the driver puts there.\<close>

datatype fd_private = No_data | Fs_data nat | Driver_data nat

record dfs_fd =
  fd_magic :: u16
  fd_type :: u16
  fd_path :: "path option"
  fd_ref_count :: int
  fd_fs :: "nat option"
  fd_fops :: "nat option"
  fd_flags :: u32
  fd_size :: nat
  fd_pos :: int
  fd_data :: fd_private

text \<open>Zeroed memory, as \<open>rt_calloc\<close> gives it.\<close>

definition zero_fd :: dfs_fd where
  "zero_fd = \<lparr>fd_magic = 0, fd_type = 0, fd_path = None, fd_ref_count = 0, fd_fs = None, fd_fops = None,
     fd_flags = 0, fd_size = 0, fd_pos = 0, fd_data = No_data\<rparr>"

text \<open>The operations on an open file; a buffer is an address and a length.\<close>

record 'w dfs_file_ops =
  fop_open :: "(dfs_fd \<Rightarrow> 'w \<Rightarrow> int \<times> dfs_fd \<times> 'w) option"
  fop_close :: "(dfs_fd \<Rightarrow> 'w \<Rightarrow> int \<times> dfs_fd \<times> 'w) option"
  fop_ioctl :: "(dfs_fd \<Rightarrow> int \<Rightarrow> u32 \<Rightarrow> 'w \<Rightarrow> int \<times> dfs_fd \<times> 'w) option"
  fop_read :: "(dfs_fd \<Rightarrow> nat \<Rightarrow> nat \<Rightarrow> 'w \<Rightarrow> int \<times> dfs_fd \<times> 'w) option"
  fop_write :: "(dfs_fd \<Rightarrow> nat \<Rightarrow> nat \<Rightarrow> 'w \<Rightarrow> int \<times> dfs_fd \<times> 'w) option"
  fop_flush :: "(dfs_fd \<Rightarrow> 'w \<Rightarrow> int \<times> dfs_fd \<times> 'w) option"
  fop_lseek :: "(dfs_fd \<Rightarrow> int \<Rightarrow> 'w \<Rightarrow> int \<times> dfs_fd \<times> 'w) option"
  fop_getdents :: "(dfs_fd \<Rightarrow> nat \<Rightarrow> nat \<Rightarrow> 'w \<Rightarrow> int \<times> dfs_fd \<times> 'w) option"

text \<open>The operations of a file system type; the first argument is the mounted file system.\<close>

record 'w dfs_filesystem_ops =
  op_name :: string
  op_flags :: u32
  op_fops :: nat
  op_mount :: "(nat \<Rightarrow> dfs_filesystem \<Rightarrow> u32 \<Rightarrow> nat \<Rightarrow> 'w \<Rightarrow> int \<times> 'w) option"
  op_unmount :: "(nat \<Rightarrow> dfs_filesystem \<Rightarrow> 'w \<Rightarrow> int \<times> 'w) option"
  op_mkfs :: "(nat \<Rightarrow> 'w \<Rightarrow> int \<times> 'w) option"
  op_statfs :: "(nat \<Rightarrow> dfs_filesystem \<Rightarrow> nat \<Rightarrow> 'w \<Rightarrow> int \<times> 'w) option"
  op_unlink :: "(nat \<Rightarrow> dfs_filesystem \<Rightarrow> string \<Rightarrow> 'w \<Rightarrow> int \<times> 'w) option"
  op_stat :: "(nat \<Rightarrow> dfs_filesystem \<Rightarrow> string option \<Rightarrow> nat \<Rightarrow> 'w \<Rightarrow> int \<times> 'w) option"
  op_rename :: "(nat \<Rightarrow> dfs_filesystem \<Rightarrow> string option \<Rightarrow> string option \<Rightarrow> 'w \<Rightarrow> int \<times> 'w) option"

text \<open>What the code calls: the allocator, the operations behind the addresses, the device layer, the
  console of the C library, the flag of a directory in the C library's \<^verbatim>\<open>open\<close>,
  the flags \<^verbatim>\<open>O_RDONLY | O_DIRECTORY\<close>, and what \<^verbatim>\<open>stat\<close> stores for
  a directory.\<close>

record ('h, 'w) dfs_env =
  env_malloc :: "nat \<Rightarrow> 'h \<Rightarrow> nat option \<times> 'h"
  env_realloc :: "nat option \<Rightarrow> nat \<Rightarrow> 'h \<Rightarrow> nat option \<times> 'h"
  env_free :: "nat \<Rightarrow> 'h \<Rightarrow> 'h"
  env_ops :: "nat \<Rightarrow> 'w dfs_filesystem_ops"
  env_fops :: "nat \<Rightarrow> 'w dfs_file_ops"
  env_device_find :: "string \<Rightarrow> 'w \<Rightarrow> nat option"
  env_device_open :: "nat \<Rightarrow> 'w \<Rightarrow> int \<times> 'w"
  env_device_close :: "nat \<Rightarrow> 'w \<Rightarrow> 'w"
  env_console :: int
  env_O_DIRECTORY :: u32
  env_open_dir :: u32
  env_stat_dir :: "nat \<Rightarrow> 'w \<Rightarrow> 'w"

record ('h, 'w) dfs_state =
  fs_types :: "nat option list"
  fs_table :: "dfs_filesystem list"
  fd_array :: "nat option"
  fd_table :: "nat option list"
  fd_store :: "nat \<Rightarrow> dfs_fd option"
  dfs_cwd :: string
  dfs_cmem :: cmem
  dfs_heap :: 'h
  dfs_world :: 'w
  dfs_errno :: int
  dfs_ready :: bool

section \<open>Types of file systems\<close>

text \<open>The first free slot, and whether the name is taken.\<close>

fun register_scan :: "(nat \<Rightarrow> string) \<Rightarrow> string \<Rightarrow> nat option list \<Rightarrow> nat \<Rightarrow> nat option \<Rightarrow> nat option \<times> bool" where
  "register_scan name_of name [] i slot = (slot, False)"
| "register_scan name_of name (None # t) i slot =
     register_scan name_of name t (i + 1) (if slot = None then Some i else slot)"
| "register_scan name_of name (Some op # t) i slot =
     (if name_of op = name then (slot, True) else register_scan name_of name t (i + 1) slot)"

definition dfs_register :: "('h, 'w) dfs_env \<Rightarrow> nat \<Rightarrow> ('h, 'w) dfs_state \<Rightarrow> int \<times> ('h, 'w) dfs_state" where
  "dfs_register E op s =
     (let (slot, taken) = register_scan (\<lambda>o'. op_name (env_ops E o')) (op_name (env_ops E op)) (fs_types s) 0 None;
          (ret, s) = (if taken then (- 1, s\<lparr>dfs_errno := - EEXIST\<rparr>) else (0, s))
      in case slot of
           None \<Rightarrow> (- 1, s\<lparr>dfs_errno := - ENOSPC\<rparr>)
         | Some i \<Rightarrow> if ret = 0 then (ret, s\<lparr>fs_types := (fs_types s)[i := Some op]\<rparr>) else (ret, s))"

definition find_type :: "('h, 'w) dfs_env \<Rightarrow> string \<Rightarrow> nat option list \<Rightarrow> nat option" where
  "find_type E name types =
     Option.bind (List.find (\<lambda>t. case t of Some op \<Rightarrow> op_name (env_ops E op) = name | None \<Rightarrow> False) types) id"

section \<open>Mounted file systems\<close>

text \<open>The file system with the longest path that leads to the file, the last of them when there are
  several.\<close>

fun lookup_scan :: "string \<Rightarrow> dfs_filesystem list \<Rightarrow> nat \<Rightarrow> nat \<Rightarrow> nat option \<Rightarrow> nat option" where
  "lookup_scan path [] i prefixlen fs = fs"
| "lookup_scan path (iter # t) i prefixlen fs =
     (case (fs_path iter, fs_ops iter) of
        (Some (_, p), Some _) \<Rightarrow>
          (let fspath = length p
           in if fspath < prefixlen \<or> take fspath path \<noteq> p then lookup_scan path t (i + 1) prefixlen fs
              else if fspath > 1 \<and> length path > fspath \<and> path ! fspath \<noteq> CHR ''/'' then
                lookup_scan path t (i + 1) prefixlen fs
              else lookup_scan path t (i + 1) fspath (Some i))
      | _ \<Rightarrow> lookup_scan path t (i + 1) prefixlen fs)"

definition dfs_filesystem_lookup :: "string \<Rightarrow> ('h, 'w) dfs_state \<Rightarrow> nat option" where
  "dfs_filesystem_lookup path s = lookup_scan path (fs_table s) 0 0 None"

definition dfs_filesystem_get_mounted_path :: "nat option \<Rightarrow> ('h, 'w) dfs_state \<Rightarrow> path option" where
  "dfs_filesystem_get_mounted_path device s =
     Option.bind (List.find (\<lambda>fs. fs_ops fs \<noteq> None \<and> fs_dev_id fs = device) (fs_table s)) fs_path"

text \<open>An entry of the partition table of a disk.\<close>

record dfs_partition =
  part_type :: u8
  part_offset :: u32
  part_size :: u32

definition dpt_word :: "(nat \<Rightarrow> u8) \<Rightarrow> nat \<Rightarrow> u32" where
  "dpt_word buf a = ucast (buf a) OR push_bit 8 (ucast (buf (a + 1))) OR push_bit 16 (ucast (buf (a + 2))) OR
     push_bit 24 (ucast (buf (a + 3)))"

definition dfs_filesystem_get_partition :: "(nat \<Rightarrow> u8) \<Rightarrow> nat \<Rightarrow> dfs_partition \<Rightarrow> int \<times> dfs_partition" where
  "dfs_filesystem_get_partition buf pindex part =
     (let dpt = 0x1be + pindex * 16;
          type = buf (dpt + 4)
      in if buf dpt \<noteq> 0x80 \<and> buf dpt \<noteq> 0 then (- EIO, part)
         else if type = 0 then (- EIO, part)
         else (0, part\<lparr>part_type := type, part_offset := dpt_word buf (dpt + 8), part_size := dpt_word buf (dpt + 12)\<rparr>))"

section \<open>Paths in the state\<close>

partial_function (option) read_string :: "cmem \<Rightarrow> nat \<Rightarrow> string option" where
  "read_string m a = (if m a = CHR 0x00 then Some [] else Option.bind (read_string m (a + 1)) (\<lambda>s. Some (m a # s)))"

definition normal_path :: "('h, 'w) dfs_env \<Rightarrow> string \<Rightarrow> ('h, 'w) dfs_state \<Rightarrow> (path option \<times> ('h, 'w) dfs_state) option" where
  "normal_path E path s = do {
     (r, m, h) \<leftarrow> dfs_normalize_path (env_malloc E) (env_free E) (dfs_cwd s) None path (dfs_cmem s, dfs_heap s);
     let s = s\<lparr>dfs_cmem := m, dfs_heap := h\<rparr>;
     (case r of
        None \<Rightarrow> Some (None, s)
      | Some a \<Rightarrow> map_option (\<lambda>t. (Some (a, t), s)) (read_string m a)) }"

text \<open>\<open>rt_free\<close> of a path, which may be null.\<close>

definition free_path :: "('h, 'w) dfs_env \<Rightarrow> path option \<Rightarrow> ('h, 'w) dfs_state \<Rightarrow> ('h, 'w) dfs_state" where
  "free_path E p s = (case p of None \<Rightarrow> s | Some (a, _) \<Rightarrow> s\<lparr>dfs_heap := env_free E a (dfs_heap s)\<rparr>)"

definition strdup_path :: "('h, 'w) dfs_env \<Rightarrow> string \<Rightarrow> ('h, 'w) dfs_state \<Rightarrow> path option \<times> ('h, 'w) dfs_state" where
  "strdup_path E t s =
     (let (r, m, h) = rt_strdup (env_malloc E) t (dfs_cmem s, dfs_heap s)
      in (map_option (\<lambda>a. (a, t)) r, s\<lparr>dfs_cmem := m, dfs_heap := h\<rparr>))"

section \<open>The lookup\<close>

definition leads :: "string \<Rightarrow> dfs_filesystem \<Rightarrow> bool" where
  "leads path fs \<longleftrightarrow> (case (fs_path fs, fs_ops fs) of
     (Some (_, p), Some _) \<Rightarrow> take (length p) path = p \<and>
       \<not> (length p > 1 \<and> length path > length p \<and> path ! length p \<noteq> CHR ''/'')
   | _ \<Rightarrow> False)"

definition path_len :: "dfs_filesystem \<Rightarrow> nat" where
  "path_len fs = (case fs_path fs of Some (_, p) \<Rightarrow> length p | None \<Rightarrow> 0)"

lemma lookup_scan_Cons:
  "lookup_scan path (fs # t) i n r =
     (if leads path fs \<and> n \<le> path_len fs then lookup_scan path t (i + 1) (path_len fs) (Some i)
      else lookup_scan path t (i + 1) n r)"
  by (auto simp: leads_def path_len_def Let_def split: option.splits)

declare lookup_scan.simps(2) [simp del]

text \<open>The result is the last of the longest mount points that lead to the path, if one is at least as long
  as the bound, and what it was otherwise.\<close>

definition scan_best :: "string \<Rightarrow> dfs_filesystem list \<Rightarrow> nat \<Rightarrow> nat \<Rightarrow> nat \<Rightarrow> bool" where
  "scan_best path t i n j \<longleftrightarrow> (\<exists>k<length t. j = i + k \<and> leads path (t ! k) \<and> n \<le> path_len (t ! k) \<and>
     (\<forall>l<length t. leads path (t ! l) \<longrightarrow> path_len (t ! l) \<le> path_len (t ! k)))"

lemma lookup_scan_best:
  "(lookup_scan path t i n r = r \<and> (\<forall>k<length t. leads path (t ! k) \<longrightarrow> path_len (t ! k) < n)) \<or>
   (\<exists>j. lookup_scan path t i n r = Some j \<and> scan_best path t i n j)"
proof (induction t arbitrary: i n r)
  case (Cons fs t)
  show ?case
  proof (cases "leads path fs \<and> n \<le> path_len fs")
    case True
    then have e: "lookup_scan path (fs # t) i n r = lookup_scan path t (i + 1) (path_len fs) (Some i)"
      by (simp add: lookup_scan_Cons)
    from Cons [of "i + 1" "path_len fs" "Some i"] show ?thesis
    proof (elim disjE exE conjE)
      assume a: "lookup_scan path t (i + 1) (path_len fs) (Some i) = Some i"
        and b: "\<forall>k<length t. leads path (t ! k) \<longrightarrow> path_len (t ! k) < path_len fs"
      have "scan_best path (fs # t) i n i"
        unfolding scan_best_def using True b by (intro exI [of _ 0]) (auto simp: nth_Cons' less_imp_le)
      then show ?thesis using a e by auto
    next
      fix j
      assume a: "lookup_scan path t (i + 1) (path_len fs) (Some i) = Some j" and b: "scan_best path t (i + 1) (path_len fs) j"
      from b obtain k where k: "k < length t" "j = i + 1 + k" "leads path (t ! k)" "path_len fs \<le> path_len (t ! k)"
        "\<forall>l<length t. leads path (t ! l) \<longrightarrow> path_len (t ! l) \<le> path_len (t ! k)" by (auto simp: scan_best_def)
      have "scan_best path (fs # t) i n j"
        unfolding scan_best_def using True k by (intro exI [of _ "Suc k"]) (auto simp: nth_Cons')
      then show ?thesis using a e by auto
    qed
  next
    case False
    then have e: "lookup_scan path (fs # t) i n r = lookup_scan path t (i + 1) n r"
      by (auto simp: lookup_scan_Cons)
    from Cons [of "i + 1" n r] show ?thesis
    proof (elim disjE exE conjE)
      assume a: "lookup_scan path t (i + 1) n r = r" and b: "\<forall>k<length t. leads path (t ! k) \<longrightarrow> path_len (t ! k) < n"
      have "\<forall>k<length (fs # t). leads path ((fs # t) ! k) \<longrightarrow> path_len ((fs # t) ! k) < n"
        using False b by (auto simp: nth_Cons')
      then show ?thesis using a e by simp
    next
      fix j
      assume a: "lookup_scan path t (i + 1) n r = Some j" and b: "scan_best path t (i + 1) n j"
      from b obtain k where k: "k < length t" "j = i + 1 + k" "leads path (t ! k)" "n \<le> path_len (t ! k)"
        "\<forall>l<length t. leads path (t ! l) \<longrightarrow> path_len (t ! l) \<le> path_len (t ! k)" by (auto simp: scan_best_def)
      have "scan_best path (fs # t) i n j"
        unfolding scan_best_def using False k by (intro exI [of _ "Suc k"]) (auto simp: nth_Cons')
      then show ?thesis using a e by auto
    qed
  qed
qed simp

lemma lookup_best:
  "case dfs_filesystem_lookup path s of
     None \<Rightarrow> \<forall>k<length (fs_table s). \<not> leads path (fs_table s ! k)
   | Some i \<Rightarrow> i < length (fs_table s) \<and> leads path (fs_table s ! i) \<and>
       (\<forall>l<length (fs_table s). leads path (fs_table s ! l) \<longrightarrow> path_len (fs_table s ! l) \<le> path_len (fs_table s ! i))"
  using lookup_scan_best [of path "fs_table s" 0 0 None]
  by (auto simp: dfs_filesystem_lookup_def scan_best_def split: option.splits)

text \<open>For normal paths, a mount point leads to a file when its components are the first of the file's.\<close>

definition cat :: "string list \<Rightarrow> string" where
  "cat st = concat (map (\<lambda>c. CHR ''/'' # c) st)"

lemma cat_simps [simp]: "cat [] = []" "cat (c # st) = CHR ''/'' # c @ cat st" "cat (st @ q) = cat st @ cat q"
  by (simp_all add: cat_def)

lemma canonical_cat: "canonical st = (if st = [] then ''/'' else cat st)"
  by (simp add: canonical_def cat_def)

lemma cat_hd: "cat st = [] \<or> hd (cat st) = CHR ''/''"
  by (cases st) simp_all

lemma word_split:
  assumes "c @ x = d @ y" "CHR ''/'' \<notin> set c" "CHR ''/'' \<notin> set d" "x = [] \<or> hd x = CHR ''/''" "y = [] \<or> hd y = CHR ''/''"
  shows "c = d \<and> x = y"
proof -
  have t: "takeWhile (\<lambda>c. c \<noteq> CHR ''/'') (w @ z) = w" if "CHR ''/'' \<notin> set w" "z = [] \<or> hd z = CHR ''/''" for w z
  proof -
    have "takeWhile (\<lambda>c. c \<noteq> CHR ''/'') z = []" using that(2) by (cases z) auto
    then show ?thesis using that(1) by (auto simp: takeWhile_append takeWhile_eq_all_conv)
  qed
  have "c = d" using t [OF assms(2,4)] t [OF assms(3,5)] assms(1) by simp
  then show ?thesis using assms(1) by simp
qed

lemma cat_prefix:
  "\<forall>c\<in>set st. name_ok c \<Longrightarrow> \<forall>c\<in>set q. name_ok c \<Longrightarrow> cat q = cat st @ r \<Longrightarrow> r = [] \<or> hd r = CHR ''/'' \<Longrightarrow>
   take (length st) q = st"
proof (induction st arbitrary: q)
  case (Cons c st)
  then obtain d q' where q: "q = d # q'" by (cases q) auto
  have "d @ cat q' = c @ (cat st @ r)" using Cons.prems(3) q by simp
  moreover have "CHR ''/'' \<notin> set c" "CHR ''/'' \<notin> set d" using Cons.prems(1,2) q by (auto simp: name_ok_def)
  moreover have "cat st @ r = [] \<or> hd (cat st @ r) = CHR ''/''" using cat_hd [of st] Cons.prems(4) by (cases "cat st") auto
  ultimately have "d = c \<and> cat q' = cat st @ r" using word_split cat_hd by metis
  then show ?case using Cons q by simp
qed simp

lemma leads_canonical:
  assumes "fs_path fs = Some (a, canonical st)" "fs_ops fs = Some op" "\<forall>c\<in>set st. name_ok c" "\<forall>c\<in>set q. name_ok c"
  shows "leads (canonical q) fs \<longleftrightarrow> take (length st) q = st"
proof (cases "st = []")
  case True
  then show ?thesis using assms by (cases q) (simp_all add: leads_def canonical_cat)
next
  case False
  then obtain c st' where st: "st = c # st'" "c \<noteq> []" using assms(3) by (cases st) (auto simp: name_ok_def)
  then have p: "canonical st = cat st" "length (cat st) > 1" by (cases c; simp add: canonical_cat)+
  have l: "leads (canonical q) fs \<longleftrightarrow> take (length (cat st)) (canonical q) = cat st \<and>
      (length (cat st) < length (canonical q) \<longrightarrow> canonical q ! length (cat st) = CHR ''/'')"
    using assms(1,2) p by (simp add: leads_def)
  show ?thesis
  proof
    assume "leads (canonical q) fs"
    then have h: "take (length (cat st)) (canonical q) = cat st"
      "length (cat st) < length (canonical q) \<longrightarrow> canonical q ! length (cat st) = CHR ''/''" using l by simp_all
    have "q \<noteq> []"
    proof
      assume "q = []"
      then have "length (take (length (cat st)) (canonical q)) \<le> 1" by (simp add: canonical_cat)
      then show False using h(1) p(2) by simp
    qed
    then have q: "canonical q = cat q" by (simp add: canonical_cat)
    let ?r = "drop (length (cat st)) (cat q)"
    have "cat q = cat st @ ?r" using h(1) q by (metis append_take_drop_id)
    moreover have "?r = [] \<or> hd ?r = CHR ''/''" using h(2) q by (cases "length (cat st) < length (cat q)") (simp_all add: hd_drop_conv_nth)
    ultimately show "take (length st) q = st" using cat_prefix assms(3,4) by blast
  next
    assume "take (length st) q = st"
    then have e: "cat q = cat st @ cat (drop (length st) q)" by (metis append_take_drop_id cat_simps(3))
    then have "q \<noteq> []" using p(2) by auto
    then have q: "canonical q = cat q" by (simp add: canonical_cat)
    have "take (length (cat st)) (canonical q) = cat st \<and>
      (length (cat st) < length (canonical q) \<longrightarrow> canonical q ! length (cat st) = CHR ''/'')"
      unfolding q e using cat_hd [of "drop (length st) q"] by (cases "cat (drop (length st) q)") (auto simp: nth_append)
    then show "leads (canonical q) fs" using l by simp
  qed
qed

section \<open>A normal path in the state\<close>

lemma read_string_cstr: "cstr m a t \<Longrightarrow> read_string m a = Some t"
proof (induction t arbitrary: a)
  case Nil
  then show ?case by (simp add: cstr_def read_string.simps [of m a])
next
  case (Cons c t)
  then show ?case by (simp add: cstr_Cons read_string.simps [of m a])
qed

lemma normalize_eq:
  assumes "CHR 0x00 \<notin> set t" "resolve (comps t) [] = Some st" "env_malloc E (length t + 2) (dfs_heap s) = (Some a, h)"
  shows "\<exists>m. normal_path E (CHR ''/'' # t) s = Some (Some (a, canonical st), s\<lparr>dfs_cmem := m, dfs_heap := h\<rparr>)"
proof -
  let ?m = "write_string a (CHR ''/'' # t) (dfs_cmem s)"
  have "cstr ?m a (CHR ''/'' # t)" using assms(1) by (intro cstr_write) simp
  from normalize_absolute [OF this assms(2)] obtain m' dst where
    l: "norm_loop a ?m a a = Some (m', Some dst)" "cstr (norm_end a m' dst) a (canonical st)" by blast
  have "rt_strdup (env_malloc E) (CHR ''/'' # t) (dfs_cmem s, dfs_heap s) = (Some a, ?m, h)"
    using assms(3) by (simp add: rt_strdup_def)
  then show ?thesis using l(1) read_string_cstr [OF l(2)]
    by (auto simp: normal_path_def dfs_normalize_path_def Let_def)
qed

end
