(* ===== verification/Dfs_Fd.thy ===== *)
theory Dfs_Fd
  imports Dfs_Fs
begin

text \<open>
  The file descriptors of \<^verbatim>\<open>rt-thread/components/dfs/src/dfs.c\<close>: a table of slots that grows, objects with
  reference counts in blocks of the allocator.

  The lemmas refine the table to a map from descriptors to reference counts.
\<close>

section \<open>The code\<close>

definition fd_slot_free :: "('h, 'w) dfs_state \<Rightarrow> nat option \<Rightarrow> bool" where
  "fd_slot_free s slot =
     (case slot of
        None \<Rightarrow> True
      | Some a \<Rightarrow> (case fd_store s a of Some d \<Rightarrow> fd_ref_count d = 0 | None \<Rightarrow> False))"

text \<open>Four more slots, up to the maximum; \<open>None\<close> when there is no memory.\<close>

definition fd_grow :: "('h, 'w) dfs_env \<Rightarrow> ('h, 'w) dfs_state \<Rightarrow> bool \<times> ('h, 'w) dfs_state" where
  "fd_grow E s =
     (let maxfd = length (fd_table s);
          cnt = (if maxfd + 4 > DFS_FD_MAX then DFS_FD_MAX else maxfd + 4);
          (fds, h) = env_realloc E (fd_array s) (cnt * 4) (dfs_heap s);
          s = s\<lparr>dfs_heap := h\<rparr>
      in case fds of
           None \<Rightarrow> (False, s)
         | Some a \<Rightarrow> (True, s\<lparr>fd_array := Some a, fd_table := fd_table s @ replicate (cnt - maxfd) None\<rparr>))"

text \<open>A new object in an empty slot.\<close>

definition fd_fill :: "('h, 'w) dfs_env \<Rightarrow> nat \<Rightarrow> ('h, 'w) dfs_state \<Rightarrow> nat \<times> ('h, 'w) dfs_state" where
  "fd_fill E idx s =
     (if idx < length (fd_table s) \<and> fd_table s ! idx = None then
        (case env_malloc E 36 (dfs_heap s) of
           (None, h) \<Rightarrow> (length (fd_table s), s\<lparr>dfs_heap := h\<rparr>)
         | (Some a, h) \<Rightarrow>
             (idx, s\<lparr>dfs_heap := h, fd_table := (fd_table s)[idx := Some a], fd_store := (fd_store s)(a \<mapsto> zero_fd)\<rparr>))
      else (idx, s))"

definition fd_alloc :: "('h, 'w) dfs_env \<Rightarrow> nat \<Rightarrow> ('h, 'w) dfs_state \<Rightarrow> nat \<times> ('h, 'w) dfs_state" where
  "fd_alloc E startfd s =
     (let idx = startfd + length (takeWhile (\<lambda>slot. \<not> fd_slot_free s slot) (drop startfd (fd_table s)))
      in if idx = length (fd_table s) \<and> length (fd_table s) < DFS_FD_MAX then
           (let (grown, s) = fd_grow E s in if grown then fd_fill E idx s else (idx, s))
         else fd_fill E idx s)"

definition fd_new :: "('h, 'w) dfs_env \<Rightarrow> ('h, 'w) dfs_state \<Rightarrow> (int \<times> ('h, 'w) dfs_state) option" where
  "fd_new E s =
     (let (idx, s) = fd_alloc E 0 s
      in if idx = length (fd_table s) then Some (- (1 + DFS_FD_OFFSET) + DFS_FD_OFFSET, s)
         else do {
           a \<leftarrow> fd_table s ! idx;
           d \<leftarrow> fd_store s a;
           Some (int idx + DFS_FD_OFFSET,
             s\<lparr>fd_store := (fd_store s)(a \<mapsto> d\<lparr>fd_ref_count := 1, fd_magic := DFS_FD_MAGIC\<rparr>)\<rparr>) })"

definition fd_get :: "('h, 'w) dfs_env \<Rightarrow> int \<Rightarrow> ('h, 'w) dfs_state \<Rightarrow> (nat option \<times> ('h, 'w) dfs_state) option" where
  "fd_get E fd0 s =
     (let fd = (if 0 \<le> fd0 \<and> fd0 \<le> 2 then env_console E else fd0) - DFS_FD_OFFSET
      in if fd < 0 \<or> fd \<ge> int (length (fd_table s)) then Some (None, s)
         else (case fd_table s ! nat fd of
             None \<Rightarrow> Some (None, s)
           | Some a \<Rightarrow> do {
               d \<leftarrow> fd_store s a;
               if fd_magic d \<noteq> DFS_FD_MAGIC then Some (None, s)
               else Some (Some a, s\<lparr>fd_store := (fd_store s)(a \<mapsto> d\<lparr>fd_ref_count := fd_ref_count d + 1\<rparr>)\<rparr>) }))"

text \<open>The first slot with the object is emptied, and the object released.\<close>

definition fd_drop :: "('h, 'w) dfs_env \<Rightarrow> nat \<Rightarrow> ('h, 'w) dfs_state \<Rightarrow> ('h, 'w) dfs_state" where
  "fd_drop E a s =
     (let index = length (takeWhile (\<lambda>slot. slot \<noteq> Some a) (fd_table s))
      in if index < length (fd_table s) then
           s\<lparr>dfs_heap := env_free E a (dfs_heap s), fd_store := (fd_store s)(a := None),
             fd_table := (fd_table s)[index := None]\<rparr>
         else s)"

definition fd_put :: "('h, 'w) dfs_env \<Rightarrow> nat option \<Rightarrow> ('h, 'w) dfs_state \<Rightarrow> ('h, 'w) dfs_state option" where
  "fd_put E fd s = do {
     a \<leftarrow> fd;
     d \<leftarrow> fd_store s a;
     let n = fd_ref_count d - 1;
     let s = s\<lparr>fd_store := (fd_store s)(a \<mapsto> d\<lparr>fd_ref_count := n\<rparr>)\<rparr>;
     Some (if n = 0 then fd_drop E a s else s) }"

text \<open>0 when the file is open, and - 1 otherwise, as the code has it.\<close>

definition fd_is_open :: "('h, 'w) dfs_env \<Rightarrow> string \<Rightarrow> ('h, 'w) dfs_state \<Rightarrow> (int \<times> ('h, 'w) dfs_state) option" where
  "fd_is_open E pathname s = do {
     (full, s) \<leftarrow> normal_path E pathname s;
     (case full of
        None \<Rightarrow> Some (- 1, s)
      | Some (_, fullpath) \<Rightarrow>
          (case dfs_filesystem_lookup fullpath s of
             None \<Rightarrow> Some (- 1, free_path E full s)
           | Some i \<Rightarrow> do {
               (_, p) \<leftarrow> fs_path (fs_table s ! i);
               let mountpath = (if p = ''/'' then fullpath else drop (length p) fullpath);
               let hit = (\<lambda>slot. case Option.bind slot (fd_store s) of
                   None \<Rightarrow> False
                 | Some d \<Rightarrow> fd_fops d \<noteq> None \<and> fd_fs d = Some i \<and> map_option snd (fd_path d) = Some mountpath);
               Some (if list_ex hit (fd_table s) then 0 else - 1, free_path E full s) })) }"

section \<open>Reference counts\<close>

text \<open>The object of a descriptor, and the number of its users: zero for a descriptor that is not open.\<close>

definition fd_object :: "('h, 'w) dfs_state \<Rightarrow> int \<Rightarrow> nat option" where
  "fd_object s fd =
     (if DFS_FD_OFFSET \<le> fd \<and> fd < int (length (fd_table s)) + DFS_FD_OFFSET then fd_table s ! nat (fd - DFS_FD_OFFSET)
      else None)"

definition fd_users :: "('h, 'w) dfs_state \<Rightarrow> int \<Rightarrow> int" where
  "fd_users s fd = (case Option.bind (fd_object s fd) (fd_store s) of None \<Rightarrow> 0 | Some d \<Rightarrow> fd_ref_count d)"

text \<open>The table is well formed: at most 16 slots, no two with one object, every object in use and valid.\<close>

definition fds_ok :: "('h, 'w) dfs_state \<Rightarrow> bool" where
  "fds_ok s \<longleftrightarrow> length (fd_table s) \<le> DFS_FD_MAX \<and>
     (\<forall>i j. i < length (fd_table s) \<longrightarrow> j < length (fd_table s) \<longrightarrow> fd_table s ! i \<noteq> None \<longrightarrow>
        fd_table s ! i = fd_table s ! j \<longrightarrow> i = j) \<and>
     (\<forall>i a. i < length (fd_table s) \<longrightarrow> fd_table s ! i = Some a \<longrightarrow>
        (\<exists>d. fd_store s a = Some d \<and> 1 \<le> fd_ref_count d \<and> fd_magic d = DFS_FD_MAGIC))"

text \<open>The block of a new descriptor is not one that is in use; \<open>None\<close> when memory is exhausted.\<close>

definition fd_fresh :: "('h, 'w) dfs_env \<Rightarrow> ('h, 'w) dfs_state \<Rightarrow> bool" where
  "fd_fresh E s \<longleftrightarrow> (\<forall>h \<in> {dfs_heap s, dfs_heap (snd (fd_grow E s))}.
     case fst (env_malloc E 36 h) of Some a \<Rightarrow> fd_store s a = None | None \<Rightarrow> True)"

lemma fds_okD:
  assumes "fds_ok s"
  shows "length (fd_table s) \<le> 16"
    "i < length (fd_table s) \<Longrightarrow> fd_table s ! i = Some a \<Longrightarrow> j < length (fd_table s) \<Longrightarrow> fd_table s ! j = Some a \<Longrightarrow> i = j"
    "i < length (fd_table s) \<Longrightarrow> fd_table s ! i = Some a \<Longrightarrow>
      \<exists>d. fd_store s a = Some d \<and> 1 \<le> fd_ref_count d \<and> fd_magic d = DFS_FD_MAGIC"
  using assms unfolding fds_ok_def by auto

lemma fds_okI:
  assumes "length (fd_table s) \<le> 16"
    "\<And>i j a. i < length (fd_table s) \<Longrightarrow> fd_table s ! i = Some a \<Longrightarrow> j < length (fd_table s) \<Longrightarrow>
      fd_table s ! j = Some a \<Longrightarrow> i = j"
    "\<And>i a. i < length (fd_table s) \<Longrightarrow> fd_table s ! i = Some a \<Longrightarrow>
      \<exists>d. fd_store s a = Some d \<and> 1 \<le> fd_ref_count d \<and> fd_magic d = DFS_FD_MAGIC"
  shows "fds_ok s"
  unfolding fds_ok_def
proof (intro conjI allI impI)
  show "length (fd_table s) \<le> 16" by (rule assms(1))
next
  fix i j
  assume a: "i < length (fd_table s)" "j < length (fd_table s)" "fd_table s ! i \<noteq> None" "fd_table s ! i = fd_table s ! j"
  then obtain b where "fd_table s ! i = Some b" by blast
  then show "i = j" using assms(2) [of i b j] a by simp
next
  fix i a
  assume "i < length (fd_table s)" "fd_table s ! i = Some a"
  then show "\<exists>d. fd_store s a = Some d \<and> 1 \<le> fd_ref_count d \<and> fd_magic d = DFS_FD_MAGIC" by (rule assms(3))
qed

lemma fds_ok_cong: "fd_table s1 = fd_table s \<Longrightarrow> fd_store s1 = fd_store s \<Longrightarrow> fds_ok s1 \<longleftrightarrow> fds_ok s"
  by (simp only: fds_ok_def)

lemma fds_ok_heap [simp]: "fds_ok (s\<lparr>dfs_heap := h\<rparr>) \<longleftrightarrow> fds_ok s"
  by (rule fds_ok_cong) simp_all

lemma fd_users_eq:
  "fd_users s fd = (if 3 \<le> fd \<and> fd < int (length (fd_table s)) + 3 then
     (case Option.bind (fd_table s ! nat (fd - 3)) (fd_store s) of None \<Rightarrow> 0 | Some d \<Rightarrow> fd_ref_count d) else 0)"
  by (simp add: fd_users_def fd_object_def)

lemma fd_slot_free_iff: "fds_ok s \<Longrightarrow> i < length (fd_table s) \<Longrightarrow> fd_slot_free s (fd_table s ! i) \<longleftrightarrow> fd_table s ! i = None"
  using fds_okD(3) [of s i] by (cases "fd_table s ! i") (auto simp: fd_slot_free_def)

lemma fd_users_pos: "fds_ok s \<Longrightarrow> i < length (fd_table s) \<Longrightarrow> 0 < fd_users s (int i + 3) \<longleftrightarrow> fd_table s ! i \<noteq> None"
  using fds_okD(3) [of s i] by (cases "fd_table s ! i") (auto simp: fd_users_eq)

lemma fd_users_object: "fds_ok s \<Longrightarrow> fd_users s fd = 0 \<longleftrightarrow> fd_object s fd = None"
proof -
  assume ok: "fds_ok s"
  show ?thesis
  proof (cases "3 \<le> fd \<and> fd < int (length (fd_table s)) + 3")
    case True
    then have i: "nat (fd - 3) < length (fd_table s)" by auto
    show ?thesis
    proof (cases "fd_table s ! nat (fd - 3)")
      case (Some a)
      then show ?thesis using fds_okD(3) [OF ok i Some] True by (auto simp: fd_users_eq fd_object_def)
    qed (use True in \<open>simp add: fd_users_eq fd_object_def\<close>)
  qed (auto simp: fd_users_eq fd_object_def)
qed

lemma fd_users_nonneg: "fds_ok s \<Longrightarrow> 0 \<le> fd_users s fd"
proof -
  assume ok: "fds_ok s"
  show ?thesis
  proof (cases "fd_object s fd")
    case (Some a)
    then have i: "nat (fd - 3) < length (fd_table s)" "fd_table s ! nat (fd - 3) = Some a"
      by (auto simp: fd_object_def split: if_split_asm)
    then show ?thesis using fds_okD(3) [OF ok i] Some by (auto simp: fd_users_def)
  qed (simp add: fd_users_def)
qed

text \<open>A change of one slot and of its object: a descriptor of another slot has the users it had.\<close>

lemma users_other:
  assumes "\<And>j. j < length (fd_table s) \<Longrightarrow> j \<noteq> i \<Longrightarrow> fd_table s1 ! j = fd_table s ! j"
    and "\<And>j b. j < length (fd_table s) \<Longrightarrow> j \<noteq> i \<Longrightarrow> fd_table s ! j = Some b \<Longrightarrow> fd_store s1 b = fd_store s b"
    and "length (fd_table s1) = length (fd_table s)" "fd_users s1 (int i + 3) = n"
  shows "fd_users s1 = (fd_users s)(int i + 3 := n)"
proof
  fix fd
  show "fd_users s1 fd = ((fd_users s)(int i + 3 := n)) fd"
  proof (cases "fd = int i + 3")
    case True
    then show ?thesis using assms(4) by simp
  next
    case ne: False
    show ?thesis
    proof (cases "3 \<le> fd \<and> fd < int (length (fd_table s)) + 3")
      case True
      then have j: "nat (fd - 3) < length (fd_table s)" "nat (fd - 3) \<noteq> i" using ne by auto
      show ?thesis using assms(1) [OF j] assms(2) [OF j] assms(3) ne True
        by (cases "fd_table s ! nat (fd - 3)") (simp_all add: fd_users_eq)
    next
      case False
      then show ?thesis using ne assms(3) by (auto simp: fd_users_eq)
    qed
  qed
qed

lemma ok_other:
  assumes ok: "fds_ok s" and "\<And>j. j < length (fd_table s) \<Longrightarrow> j \<noteq> i \<Longrightarrow> fd_table s1 ! j = fd_table s ! j"
    and "\<And>j b. j < length (fd_table s) \<Longrightarrow> j \<noteq> i \<Longrightarrow> fd_table s ! j = Some b \<Longrightarrow> fd_store s1 b = fd_store s b"
    and len: "length (fd_table s1) = length (fd_table s)"
    and new: "\<And>b. i < length (fd_table s) \<Longrightarrow> fd_table s1 ! i = Some b \<Longrightarrow>
      (\<forall>j<length (fd_table s). j \<noteq> i \<longrightarrow> fd_table s ! j \<noteq> Some b) \<and>
      (\<exists>d. fd_store s1 b = Some d \<and> 1 \<le> fd_ref_count d \<and> fd_magic d = DFS_FD_MAGIC)"
  shows "fds_ok s1"
proof (rule fds_okI)
  show "length (fd_table s1) \<le> 16" using len fds_okD(1) [OF ok] by simp
next
  fix k j b
  assume kj: "k < length (fd_table s1)" "fd_table s1 ! k = Some b" "j < length (fd_table s1)" "fd_table s1 ! j = Some b"
  then have l: "k < length (fd_table s)" "j < length (fd_table s)" using len by simp_all
  have at: "h = i" if "i < length (fd_table s)" "fd_table s1 ! i = Some b" "h < length (fd_table s)" "fd_table s1 ! h = Some b" for h
  proof (rule ccontr)
    assume "h \<noteq> i"
    then have "fd_table s ! h \<noteq> Some b" "fd_table s1 ! h = fd_table s ! h" using new [OF that(1,2)] assms(2) that(3) by auto
    then show False using that(4) by simp
  qed
  consider "k = i" | "j = i" | "k \<noteq> i" "j \<noteq> i" by blast
  then show "k = j"
  proof cases
    case 1
    then show ?thesis using at [of j] kj l by simp
  next
    case 2
    then show ?thesis using at [of k] kj l by simp
  next
    case 3
    then have "fd_table s ! k = Some b" "fd_table s ! j = Some b" using assms(2) l kj by simp_all
    then show ?thesis using fds_okD(2) [OF ok l(1) _ l(2)] by simp
  qed
next
  fix k b
  assume k: "k < length (fd_table s1)" "fd_table s1 ! k = Some b"
  then have l: "k < length (fd_table s)" using len by simp
  show "\<exists>d. fd_store s1 b = Some d \<and> 1 \<le> fd_ref_count d \<and> fd_magic d = DFS_FD_MAGIC"
  proof (cases "k = i")
    case True
    then show ?thesis using new [of b] k l by simp
  next
    case False
    then show ?thesis using assms(2,3) [OF l False] k fds_okD(3) [OF ok l, of b] by simp
  qed
qed

text \<open>A store to the object of a slot changes the count of its descriptor and of no other.\<close>

lemma users_store:
  assumes "fds_ok s" "i < length (fd_table s)" "fd_table s ! i = Some a"
  shows "fd_users (s\<lparr>fd_store := (fd_store s)(a \<mapsto> d)\<rparr>) = (fd_users s)(int i + 3 := fd_ref_count d)"
    "1 \<le> fd_ref_count d \<Longrightarrow> fd_magic d = DFS_FD_MAGIC \<Longrightarrow> fds_ok (s\<lparr>fd_store := (fd_store s)(a \<mapsto> d)\<rparr>)"
proof -
  let ?s = "s\<lparr>fd_store := (fd_store s)(a \<mapsto> d)\<rparr>"
  have ne: "b \<noteq> a" if "j < length (fd_table s)" "j \<noteq> i" "fd_table s ! j = Some b" for j b
    using fds_okD(2) [OF assms that(1)] that by blast
  show "fd_users ?s = (fd_users s)(int i + 3 := fd_ref_count d)"
    by (rule users_other) (use ne assms(2,3) in \<open>simp_all add: fd_users_eq\<close>)
  show "fds_ok ?s" if "1 \<le> fd_ref_count d" "fd_magic d = DFS_FD_MAGIC"
    by (rule ok_other [OF assms(1), of i]) (use ne assms(3) that in auto)
qed

lemma ok_drop:
  assumes "fds_ok s" "i < length (fd_table s)" "fd_table s ! i = Some a"
  shows "fds_ok (s\<lparr>dfs_heap := h, fd_store := (fd_store s)(a := None), fd_table := (fd_table s)[i := None]\<rparr>)"
    "fd_users (s\<lparr>dfs_heap := h, fd_store := (fd_store s)(a := None), fd_table := (fd_table s)[i := None]\<rparr>) =
      (fd_users s)(int i + 3 := 0)"
proof -
  let ?s = "s\<lparr>dfs_heap := h, fd_store := (fd_store s)(a := None), fd_table := (fd_table s)[i := None]\<rparr>"
  have ne: "b \<noteq> a" if "j < length (fd_table s)" "j \<noteq> i" "fd_table s ! j = Some b" for j b
    using fds_okD(2) [OF assms that(1)] that by blast
  show "fds_ok ?s" by (rule ok_other [OF assms(1), of i]) (use ne in simp_all)
  show "fd_users ?s = (fd_users s)(int i + 3 := 0)"
    by (rule users_other) (use ne assms(2) in \<open>simp_all add: fd_users_eq\<close>)
qed

lemma fd_get_users:
  assumes "fds_ok s" "fd < 0 \<or> 2 < fd"
  shows "if fd_users s fd = 0 then fd_get E fd s = Some (None, s)
    else \<exists>a s1. fd_get E fd s = Some (Some a, s1) \<and> fd_object s fd = Some a \<and> fds_ok s1 \<and>
      fd_users s1 = (fd_users s)(fd := fd_users s fd + 1) \<and> fd_object s1 = fd_object s"
proof (cases "fd_object s fd")
  case None
  then show ?thesis using assms fd_users_object [OF assms(1), of fd]
    by (auto simp: fd_get_def fd_object_def Let_def split: if_splits)
next
  case (Some a)
  then have r: "3 \<le> fd" "fd < int (length (fd_table s)) + 3" and sl: "fd_table s ! nat (fd - 3) = Some a"
    by (auto simp: fd_object_def split: if_splits)
  then have i: "nat (fd - 3) < length (fd_table s)" "int (nat (fd - 3)) + 3 = fd" by auto
  obtain d where d: "fd_store s a = Some d" "1 \<le> fd_ref_count d" "fd_magic d = DFS_FD_MAGIC"
    using fds_okD(3) [OF assms(1) i(1) sl] by blast
  let ?d = "d\<lparr>fd_ref_count := fd_ref_count d + 1\<rparr>"
  let ?s = "s\<lparr>fd_store := (fd_store s)(a \<mapsto> ?d)\<rparr>"
  have "fd_get E fd s = Some (Some a, ?s)" using r sl d assms(2) by (simp add: fd_get_def Let_def)
  moreover have "fd_users s fd = fd_ref_count d" using r sl d by (simp add: fd_users_eq)
  moreover have "fd_users ?s = (fd_users s)(fd := fd_ref_count d + 1)"
    using users_store(1) [OF assms(1) i(1) sl, of ?d] i(2) by simp
  moreover have "fds_ok ?s" using users_store(2) [OF assms(1) i(1) sl, of ?d] d by simp
  moreover have "fd_object ?s = fd_object s" by (simp add: fd_object_def fun_eq_iff)
  ultimately show ?thesis using Some d by simp
qed

lemma fd_drop_eq:
  assumes "\<And>j. j < length (fd_table s) \<Longrightarrow> fd_table s ! j = Some a \<Longrightarrow> j = i" "i < length (fd_table s)" "fd_table s ! i = Some a"
  shows "fd_drop E a s = s\<lparr>dfs_heap := env_free E a (dfs_heap s), fd_store := (fd_store s)(a := None),
    fd_table := (fd_table s)[i := None]\<rparr>"
proof -
  let ?t = "takeWhile (\<lambda>slot. slot \<noteq> Some a) (fd_table s)"
  have le: "length ?t \<le> i"
  proof (rule ccontr)
    assume "\<not> length ?t \<le> i"
    then have "?t ! i = fd_table s ! i" by (simp add: takeWhile_nth)
    moreover have "?t ! i \<in> set ?t" using \<open>\<not> length ?t \<le> i\<close> by (intro nth_mem) simp
    ultimately have "fd_table s ! i \<in> set ?t" by simp
    then show False using assms(3) set_takeWhileD [of "fd_table s ! i" "\<lambda>slot. slot \<noteq> Some a" "fd_table s"] by simp
  qed
  then have lt: "length ?t < length (fd_table s)" using assms(2) by simp
  then have "fd_table s ! length ?t = Some a" using nth_length_takeWhile by blast
  then have "length ?t = i" using assms(1) lt by blast
  then show ?thesis using assms(2) by (simp add: fd_drop_def)
qed

lemma fd_put_users:
  assumes "fds_ok s" "fd_object s fd = Some a"
  shows "\<exists>s1. fd_put E (Some a) s = Some s1 \<and> fds_ok s1 \<and> fd_users s1 = (fd_users s)(fd := fd_users s fd - 1) \<and>
    (if fd_users s fd = 1 then fd_object s1 fd = None \<and> dfs_heap s1 = env_free E a (dfs_heap s)
     else fd_object s1 fd = Some a \<and> dfs_heap s1 = dfs_heap s)"
proof -
  have r: "3 \<le> fd" "fd < int (length (fd_table s)) + 3" and sl: "fd_table s ! nat (fd - 3) = Some a"
    using assms(2) by (auto simp: fd_object_def split: if_splits)
  then have i: "nat (fd - 3) < length (fd_table s)" "int (nat (fd - 3)) + 3 = fd" by auto
  obtain d where d: "fd_store s a = Some d" "1 \<le> fd_ref_count d" "fd_magic d = DFS_FD_MAGIC"
    using fds_okD(3) [OF assms(1) i(1) sl] by blast
  have u: "fd_users s fd = fd_ref_count d" using r sl d by (simp add: fd_users_eq)
  let ?d = "d\<lparr>fd_ref_count := fd_ref_count d - 1\<rparr>"
  let ?s = "s\<lparr>fd_store := (fd_store s)(a \<mapsto> ?d)\<rparr>"
  show ?thesis
  proof (cases "fd_ref_count d = 1")
    case True
    let ?s1 = "s\<lparr>dfs_heap := env_free E a (dfs_heap s), fd_store := (fd_store s)(a := None),
      fd_table := (fd_table s)[nat (fd - 3) := None]\<rparr>"
    have un: "j = nat (fd - 3)" if "j < length (fd_table ?s)" "fd_table ?s ! j = Some a" for j
      using fds_okD(2) [OF assms(1) i(1) sl, of j] that by simp
    have "fd_drop E a ?s = ?s1"
      using fd_drop_eq [of ?s a "nat (fd - 3)" E, OF un] i(1) sl by simp
    then have "fd_put E (Some a) s = Some ?s1" using d True by (simp add: fd_put_def Let_def)
    moreover have "fd_object ?s1 fd = None" using r by (auto simp: fd_object_def)
    ultimately show ?thesis using ok_drop [OF assms(1) i(1) sl, of "env_free E a (dfs_heap s)"] u True i(2) by simp
  next
    case False
    then have "fd_put E (Some a) s = Some ?s" using d by (simp add: fd_put_def Let_def)
    moreover have "fd_users ?s = (fd_users s)(fd := fd_ref_count d - 1)"
      using users_store(1) [OF assms(1) i(1) sl, of ?d] i(2) by simp
    moreover have "fds_ok ?s" using users_store(2) [OF assms(1) i(1) sl, of ?d] d False by simp
    moreover have "fd_object ?s = fd_object s" by (simp add: fd_object_def fun_eq_iff)
    ultimately show ?thesis using u False assms(2) by simp
  qed
qed

section \<open>A new descriptor\<close>

lemma takeWhile_first:
  assumes "j < length (takeWhile P xs)"
  shows "j < length xs \<and> P (xs ! j)"
proof -
  have "takeWhile P xs ! j \<in> set (takeWhile P xs)" using assms by (rule nth_mem)
  then have "P (takeWhile P xs ! j)" using set_takeWhileD by metis
  moreover have "length (takeWhile P xs) \<le> length xs" by (rule length_takeWhile_le)
  ultimately show ?thesis using assms by (simp add: takeWhile_nth)
qed

text \<open>More slots, all of them empty.\<close>

lemma fd_grow_users:
  assumes "fds_ok s" "length (fd_table s) < 16" "fd_grow E s = (g, s1)"
  shows "fds_ok s1 \<and> fd_users s1 = fd_users s \<and> fd_store s1 = fd_store s \<and>
    (if g then length (fd_table s) < length (fd_table s1) \<and> fd_table s1 ! length (fd_table s) = None \<and>
       (\<forall>j<length (fd_table s). fd_table s1 ! j = fd_table s ! j)
     else fd_table s1 = fd_table s)"
proof -
  define cnt where "cnt = (if length (fd_table s) + 4 > 16 then 16 else length (fd_table s) + 4)"
  have c: "length (fd_table s) < cnt" "cnt \<le> 16" using assms(2) by (auto simp: cnt_def)
  obtain fds h where r: "env_realloc E (fd_array s) (cnt * 4) (dfs_heap s) = (fds, h)" by fastforce
  show ?thesis
  proof (cases fds)
    case None
    then have e: "s1 = s\<lparr>dfs_heap := h\<rparr>" "\<not> g" using assms(3) r by (simp_all add: fd_grow_def cnt_def Let_def)
    have "fds_ok s1" using assms(1) e by simp
    moreover have "fd_users s1 = fd_users s" using e by (simp add: fd_users_eq fun_eq_iff)
    ultimately show ?thesis using e by simp
  next
    case (Some a)
    let ?t = "fd_table s @ replicate (cnt - length (fd_table s)) None"
    have e: "s1 = s\<lparr>dfs_heap := h, fd_array := Some a, fd_table := ?t\<rparr>" "g"
      using assms(3) r Some by (simp_all add: fd_grow_def cnt_def Let_def)
    have old: "j < length (fd_table s) \<and> fd_table s ! j = Some b" if "j < length ?t" "?t ! j = Some b" for j b
      using that by (simp add: nth_append split: if_splits)
    have "fds_ok s1"
    proof (rule fds_okI)
      show "length (fd_table s1) \<le> 16" using e c by simp
      show "k = j" if "k < length (fd_table s1)" "fd_table s1 ! k = Some b" "j < length (fd_table s1)"
        "fd_table s1 ! j = Some b" for k j b
        using old [of k b] old [of j b] that e fds_okD(2) [OF assms(1), of k b j] by simp
      show "\<exists>d. fd_store s1 b = Some d \<and> 1 \<le> fd_ref_count d \<and> fd_magic d = DFS_FD_MAGIC"
        if "k < length (fd_table s1)" "fd_table s1 ! k = Some b" for k b
        using old [of k b] that e fds_okD(3) [OF assms(1), of k b] by simp
    qed
    moreover have "fd_users s1 fd = fd_users s fd" for fd
      using e c by (auto simp: fd_users_eq nth_append)
    ultimately show ?thesis using e c by (auto simp: fun_eq_iff nth_append)
  qed
qed

text \<open>An empty slot gets a zeroed object, or there is no memory.\<close>

lemma fd_fill_eq:
  assumes "i < length (fd_table s)" "fd_table s ! i = None"
  shows "(\<exists>h. fd_fill E i s = (length (fd_table s), s\<lparr>dfs_heap := h\<rparr>)) \<or>
    (\<exists>a h. fst (env_malloc E 36 (dfs_heap s)) = Some a \<and>
      fd_fill E i s = (i, s\<lparr>dfs_heap := h, fd_table := (fd_table s)[i := Some a], fd_store := (fd_store s)(a \<mapsto> zero_fd)\<rparr>))"
proof -
  obtain r h where "env_malloc E 36 (dfs_heap s) = (r, h)" by fastforce
  then show ?thesis using assms by (cases r) (auto simp: fd_fill_def)
qed

text \<open>A slot that is filled and counted.\<close>

lemma fd_open_slot:
  fixes h :: 'h
  assumes "fds_ok s" "i < length (fd_table s)" "fd_table s ! i = None" "fd_store s a = None"
  defines "s1 \<equiv> s\<lparr>dfs_heap := h, fd_table := (fd_table s)[i := Some a],
      fd_store := (fd_store s)(a \<mapsto> zero_fd\<lparr>fd_ref_count := 1, fd_magic := DFS_FD_MAGIC\<rparr>)\<rparr>"
  shows "fds_ok s1 \<and> fd_users s1 = (fd_users s)(int i + 3 := 1)"
proof -
  have ne: "b \<noteq> a" if "j < length (fd_table s)" "fd_table s ! j = Some b" for j b
    using fds_okD(3) [OF assms(1) that] assms(4) by auto
  have "fds_ok s1" by (rule ok_other [OF assms(1), of i]) (use ne assms(2) in \<open>auto simp: s1_def\<close>)
  moreover have "fd_users s1 = (fd_users s)(int i + 3 := 1)"
    by (rule users_other) (use ne assms(2) in \<open>simp_all add: fd_users_eq s1_def\<close>)
  ultimately show ?thesis by simp
qed

text \<open>The first free slot.\<close>

definition fd_first :: "('h, 'w) dfs_state \<Rightarrow> nat" where
  "fd_first s = length (takeWhile (\<lambda>slot. \<not> fd_slot_free s slot) (fd_table s))"

lemma fd_first_free:
  assumes "fds_ok s"
  shows "fd_first s \<le> length (fd_table s)"
    "fd_first s < length (fd_table s) \<Longrightarrow> fd_table s ! fd_first s = None"
    "j < fd_first s \<Longrightarrow> 0 < fd_users s (int j + 3)"
proof -
  show "fd_first s \<le> length (fd_table s)" by (simp add: fd_first_def length_takeWhile_le)
  show "fd_table s ! fd_first s = None" if "fd_first s < length (fd_table s)"
  proof -
    have "fd_slot_free s (fd_table s ! fd_first s)"
      using nth_length_takeWhile [of "\<lambda>slot. \<not> fd_slot_free s slot" "fd_table s"] that by (simp add: fd_first_def)
    then show ?thesis using fd_slot_free_iff [OF assms that] by simp
  qed
  show "0 < fd_users s (int j + 3)" if "j < fd_first s"
    using takeWhile_first [of j "\<lambda>slot. \<not> fd_slot_free s slot" "fd_table s"] that fd_slot_free_iff [OF assms, of j]
      fd_users_pos [OF assms, of j] by (simp add: fd_first_def)
qed

definition fd_new_done :: "('h, 'w) dfs_state \<Rightarrow> (int \<times> ('h, 'w) dfs_state) option \<Rightarrow> bool" where
  "fd_new_done s r \<longleftrightarrow> (\<exists>fd s1. r = Some (fd, s1) \<and> fds_ok s1 \<and>
     (if fd = - 1 then fd_users s1 = fd_users s
      else 3 \<le> fd \<and> fd < 19 \<and> fd_users s fd = 0 \<and> (\<forall>x. 3 \<le> x \<longrightarrow> x < fd \<longrightarrow> 0 < fd_users s x) \<and>
        fd_users s1 = (fd_users s)(fd := 1)))"

text \<open>What \<open>fd_new\<close> does with the slot that \<open>fd_fill\<close> leaves.\<close>

definition fd_new_from :: "nat \<times> ('h, 'w) dfs_state \<Rightarrow> (int \<times> ('h, 'w) dfs_state) option" where
  "fd_new_from = (\<lambda>(idx, s). if idx = length (fd_table s) then Some (- (1 + DFS_FD_OFFSET) + DFS_FD_OFFSET, s)
         else do {
           a \<leftarrow> fd_table s ! idx;
           d \<leftarrow> fd_store s a;
           Some (int idx + DFS_FD_OFFSET,
             s\<lparr>fd_store := (fd_store s)(a \<mapsto> d\<lparr>fd_ref_count := 1, fd_magic := DFS_FD_MAGIC\<rparr>)\<rparr>) })"

lemma fd_new_fill:
  assumes ok: "fds_ok s" and i: "i < length (fd_table s)" "fd_table s ! i = None"
    and fresh: "\<And>a. fst (env_malloc E 36 (dfs_heap s)) = Some a \<Longrightarrow> fd_store s a = None"
    and users: "fd_users s = fd_users s0" "\<And>j. j < i \<Longrightarrow> 0 < fd_users s0 (int j + 3)"
  shows "fd_new_done s0 (fd_new_from (fd_fill E i s))"
  using fd_fill_eq [OF i, of E]
proof (elim disjE exE conjE)
  fix h
  assume f: "fd_fill E i s = (length (fd_table s), s\<lparr>dfs_heap := h\<rparr>)"
  have "fds_ok (s\<lparr>dfs_heap := h\<rparr>)" using ok by simp
  moreover have "fd_users (s\<lparr>dfs_heap := h\<rparr>) = fd_users s" by (simp add: fd_users_eq fun_eq_iff)
  ultimately show ?thesis using f users(1) by (simp add: fd_new_done_def fd_new_from_def)
next
  fix a h
  assume a: "fst (env_malloc E 36 (dfs_heap s)) = Some a" and
    f: "fd_fill E i s = (i, s\<lparr>dfs_heap := h, fd_table := (fd_table s)[i := Some a], fd_store := (fd_store s)(a \<mapsto> zero_fd)\<rparr>)"
  have z: "0 = fd_users s0 (int i + 3)" using i users(1) by (simp add: fd_users_eq flip: users(1))
  have below: "0 < fd_users s0 x" if "3 \<le> x" "x < int i + 3" for x
    using users(2) [of "nat (x - 3)"] that by simp
  have "i < 16" using i(1) fds_okD(1) [OF ok] by simp
  then show ?thesis
    using f fd_open_slot [OF ok i fresh [OF a], of h] i(1) users(1) z below
    by (auto simp: fd_new_done_def fd_new_from_def)
qed

lemma fd_new_users:
  assumes ok: "fds_ok s" and fresh: "fd_fresh E s"
  shows "fd_new_done s (fd_new E s)"
proof -
  let ?i = "fd_first s"
  have n: "fd_new E s = fd_new_from (fd_alloc E 0 s)" unfolding fd_new_def fd_new_from_def Let_def by (simp add: split_beta)
  have fr: "fd_store s a = None" if "fst (env_malloc E 36 (dfs_heap s)) = Some a" for a
    using fresh that by (auto simp: fd_fresh_def)
  show ?thesis
  proof (cases "?i < length (fd_table s)")
    case True
    then have "fd_alloc E 0 s = fd_fill E ?i s" by (simp add: fd_alloc_def fd_first_def Let_def)
    then show ?thesis
      using fd_new_fill [OF ok True fd_first_free(2) [OF ok True] fr, where ?s0.0 = s] fd_first_free(3) [OF ok] n by simp
  next
    case False
    then have full: "?i = length (fd_table s)" using fd_first_free(1) [OF ok] by simp
    show ?thesis
    proof (cases "length (fd_table s) < 16")
      case False
      then have "fd_alloc E 0 s = fd_fill E ?i s" by (simp add: fd_alloc_def fd_first_def Let_def)
      moreover have "fd_fill E ?i s = (length (fd_table s), s)" using full by (simp add: fd_fill_def)
      ultimately show ?thesis using n ok by (simp add: fd_new_done_def fd_new_from_def)
    next
      case room: True
      obtain g s1 where g: "fd_grow E s = (g, s1)" by fastforce
      note gr = fd_grow_users [OF ok room g]
      have al: "fd_alloc E 0 s = (if g then fd_fill E ?i s1 else (?i, s1))"
        using full room g unfolding fd_alloc_def Let_def by (simp add: fd_first_def)
      show ?thesis
      proof (cases g)
        case False
        then show ?thesis using al n gr full by (simp add: fd_new_done_def fd_new_from_def)
      next
        case True
        have fr1: "fd_store s1 a = None" if "fst (env_malloc E 36 (dfs_heap s1)) = Some a" for a
          using fresh that gr g by (auto simp: fd_fresh_def)
        have "fd_new_done s (fd_new_from (fd_fill E ?i s1))"
          by (rule fd_new_fill) (use gr True full fr1 fd_first_free(3) [OF ok] in simp_all)
        then show ?thesis using al n True by simp
      qed
    qed
  qed
qed

end
