(* ===== verification/Dfs_File.thy ===== *)
theory Dfs_File
  imports Dfs_Fd
begin

text \<open>
  The operations on files of \<^verbatim>\<open>rt-thread/components/dfs/src/dfs_file.c\<close>, and mounting and unmounting of
  \<^verbatim>\<open>dfs_fs.c\<close>, on the tables of \<open>Dfs_Fs\<close> and \<open>Dfs_Fd\<close>.

  Each operation checks its arguments, dispatches to the driver of the file system that the path leads
  to, and keeps the blocks of the paths it made. A descriptor is a value that the operation returns
  changed; the null pointer is \<open>None\<close>.
\<close>

abbreviation (input) FT_REGULAR :: u16 where "FT_REGULAR \<equiv> 0"
abbreviation (input) FT_DIRECTORY :: u16 where "FT_DIRECTORY \<equiv> 2"
abbreviation (input) DFS_F_OPEN :: u32 where "DFS_F_OPEN \<equiv> 0x01000000"
abbreviation (input) DFS_F_DIRECTORY :: u32 where "DFS_F_DIRECTORY \<equiv> 0x02000000"
abbreviation (input) DFS_F_EOF :: u32 where "DFS_F_EOF \<equiv> 0x04000000"
abbreviation (input) DFS_FS_FLAG_FULLPATH :: u32 where "DFS_FS_FLAG_FULLPATH \<equiv> 1"

section \<open>Open and close\<close>

text \<open>The name that a driver sees: below the mount point, or null for the mount point itself.\<close>

definition sub_path :: "string \<Rightarrow> string \<Rightarrow> string option" where
  "sub_path directory fullpath = map_option (\<lambda>d. drop d fullpath) (dfs_subdir directory fullpath)"

definition open_path ::
    "('h, 'w) dfs_env \<Rightarrow> dfs_filesystem \<Rightarrow> 'w dfs_filesystem_ops \<Rightarrow> path \<Rightarrow> ('h, 'w) dfs_state \<Rightarrow>
     (path option \<times> ('h, 'w) dfs_state) option" where
  "open_path E fs ops full s =
     (if op_flags ops AND DFS_FS_FLAG_FULLPATH = 0 then do {
        (_, dir) \<leftarrow> fs_path fs;
        let (p, s) = strdup_path E (case sub_path dir (snd full) of None \<Rightarrow> ''/'' | Some t \<Rightarrow> t) s;
        Some (p, free_path E (Some full) s) }
      else Some (Some full, s))"

text \<open>The call of the driver, and what is left of the descriptor when it fails.\<close>

definition open_driver ::
    "('h, 'w) dfs_env \<Rightarrow> 'w dfs_file_ops \<Rightarrow> dfs_fd \<Rightarrow> u32 \<Rightarrow> ('h, 'w) dfs_state \<Rightarrow> int \<times> dfs_fd \<times> ('h, 'w) dfs_state" where
  "open_driver E fops fd flags s =
     (case fop_open fops of
        None \<Rightarrow> (- ENOSYS, fd\<lparr>fd_path := None\<rparr>, free_path E (fd_path fd) s)
      | Some drv \<Rightarrow>
          (case drv fd (dfs_world s) of (result, fd, w) \<Rightarrow>
            (let s = s\<lparr>dfs_world := w\<rparr>
             in if result < 0 then (result, fd\<lparr>fd_path := None\<rparr>, free_path E (fd_path fd) s)
                else (let fd = fd\<lparr>fd_flags := fd_flags fd OR DFS_F_OPEN\<rparr>;
                          fd = (if flags AND env_O_DIRECTORY E \<noteq> 0 then
                            fd\<lparr>fd_type := FT_DIRECTORY, fd_flags := fd_flags fd OR DFS_F_DIRECTORY\<rparr> else fd)
                      in (0, fd, s)))))"

definition dfs_file_open ::
    "('h, 'w) dfs_env \<Rightarrow> dfs_fd option \<Rightarrow> string \<Rightarrow> u32 \<Rightarrow> ('h, 'w) dfs_state \<Rightarrow>
     (int \<times> dfs_fd option \<times> ('h, 'w) dfs_state) option" where
  "dfs_file_open E fd path flags s =
     (case fd of
        None \<Rightarrow> Some (- EINVAL, None, s)
      | Some fd \<Rightarrow> do {
          (full, s) \<leftarrow> normal_path E path s;
          (case full of
             None \<Rightarrow> Some (- ENOMEM, Some fd, s)
           | Some fullpath \<Rightarrow>
               (case dfs_filesystem_lookup (snd fullpath) s of
                  None \<Rightarrow> Some (- ENOENT, Some fd, free_path E full s)
                | Some i \<Rightarrow> do {
                    let fs = fs_table s ! i;
                    op \<leftarrow> fs_ops fs;
                    let fd = fd\<lparr>fd_fs := Some i, fd_fops := Some (op_fops (env_ops E op)), fd_type := FT_REGULAR,
                      fd_flags := flags, fd_size := 0, fd_pos := 0, fd_data := Fs_data i\<rparr>;
                    (p, s) \<leftarrow> open_path E fs (env_ops E op) fullpath s;
                    let (r, fd, s) = open_driver E (env_fops E (op_fops (env_ops E op))) (fd\<lparr>fd_path := p\<rparr>) flags s;
                    Some (r, Some fd, s) })) })"

text \<open>The operations of an open file; \<open>None\<close> is a descriptor that was never opened.\<close>

definition file_ops :: "('h, 'w) dfs_env \<Rightarrow> dfs_fd \<Rightarrow> 'w dfs_file_ops option" where
  "file_ops E fd = map_option (env_fops E) (fd_fops fd)"

definition dfs_file_close ::
    "('h, 'w) dfs_env \<Rightarrow> dfs_fd option \<Rightarrow> ('h, 'w) dfs_state \<Rightarrow> (int \<times> dfs_fd option \<times> ('h, 'w) dfs_state) option" where
  "dfs_file_close E fd s =
     (case fd of
        None \<Rightarrow> Some (- ENXIO, None, s)
      | Some fd \<Rightarrow> do {
          fops \<leftarrow> file_ops E fd;
          let (result, fd, w) = (case fop_close fops of None \<Rightarrow> (0, fd, dfs_world s) | Some drv \<Rightarrow> drv fd (dfs_world s));
          let s = s\<lparr>dfs_world := w\<rparr>;
          Some (if result < 0 then (result, Some fd, s)
            else (result, Some (fd\<lparr>fd_path := None\<rparr>), free_path E (fd_path fd) s)) })"

section \<open>Open files\<close>

text \<open>The driver's operation, or an error when the descriptor is null or the driver has none.\<close>

definition file_call ::
    "('h, 'w) dfs_env \<Rightarrow> ('w dfs_file_ops \<Rightarrow> 'f option) \<Rightarrow> ('f \<Rightarrow> dfs_fd \<Rightarrow> 'w \<Rightarrow> int \<times> dfs_fd \<times> 'w) \<Rightarrow> (int \<Rightarrow> dfs_fd \<Rightarrow> dfs_fd) \<Rightarrow>
     dfs_fd option \<Rightarrow> ('h, 'w) dfs_state \<Rightarrow> (int \<times> dfs_fd option \<times> ('h, 'w) dfs_state) option" where
  "file_call E sel call after fd s =
     (case fd of
        None \<Rightarrow> Some (- EINVAL, None, s)
      | Some fd \<Rightarrow> do {
          fops \<leftarrow> file_ops E fd;
          Some (case sel fops of
              None \<Rightarrow> (- ENOSYS, Some fd, s)
            | Some f \<Rightarrow> (case call f fd (dfs_world s) of (r, fd, w) \<Rightarrow> (r, Some (after r fd), s\<lparr>dfs_world := w\<rparr>))) })"

definition dfs_file_read where
  "dfs_file_read E fd buf len =
     file_call E fop_read (\<lambda>f fd. f fd buf len) (\<lambda>r fd. if r < 0 then fd\<lparr>fd_flags := fd_flags fd OR DFS_F_EOF\<rparr> else fd) fd"

definition dfs_file_write where
  "dfs_file_write E fd buf len = file_call E fop_write (\<lambda>f fd. f fd buf len) (\<lambda>r fd. fd) fd"

definition dfs_file_flush where
  "dfs_file_flush E fd = file_call E fop_flush (\<lambda>f. f) (\<lambda>r fd. fd) fd"

definition dfs_file_lseek where
  "dfs_file_lseek E fd offset =
     file_call E fop_lseek (\<lambda>f fd. f fd offset) (\<lambda>r fd. if r \<ge> 0 then fd\<lparr>fd_pos := r\<rparr> else fd) fd"

definition dfs_file_getdents where
  "dfs_file_getdents E fd dirp nbytes s =
     (case fd of
        Some f \<Rightarrow> if fd_type f \<noteq> FT_DIRECTORY then Some (- EINVAL, fd, s)
          else file_call E fop_getdents (\<lambda>f fd. f fd dirp nbytes) (\<lambda>r fd. fd) fd s
      | None \<Rightarrow> Some (- EINVAL, fd, s))"

text \<open>The commands \<open>F_GETFL\<close> and \<open>F_SETFL\<close> and the flags they may set, constants of the C library, are
  parameters.\<close>

definition dfs_file_ioctl where
  "dfs_file_ioctl E F_GETFL F_SETFL settable fd cmd args s =
     (case fd of
        None \<Rightarrow> Some (- EINVAL, None, s)
      | Some f \<Rightarrow>
          if fd_type f = FT_REGULAR \<and> cmd = F_GETFL then Some (sint (fd_flags f), fd, s)
          else if fd_type f = FT_REGULAR \<and> cmd = F_SETFL then
            Some (0, Some (f\<lparr>fd_flags := (fd_flags f AND NOT settable) OR (args AND settable)\<rparr>), s)
          else file_call E fop_ioctl (\<lambda>f fd. f fd cmd args) (\<lambda>r fd. fd) fd s)"

section \<open>Paths\<close>

text \<open>The operations on a path call the driver with the name below the mount point.\<close>

definition driver_path :: "'w dfs_filesystem_ops \<Rightarrow> string \<Rightarrow> string \<Rightarrow> string option" where
  "driver_path ops dir fullpath =
     (if op_flags ops AND DFS_FS_FLAG_FULLPATH \<noteq> 0 then Some fullpath else sub_path dir fullpath)"

definition dfs_file_unlink :: "('h, 'w) dfs_env \<Rightarrow> string \<Rightarrow> ('h, 'w) dfs_state \<Rightarrow> (int \<times> ('h, 'w) dfs_state) option" where
  "dfs_file_unlink E path s = do {
     (full, s) \<leftarrow> normal_path E path s;
     (case full of
        None \<Rightarrow> Some (- EINVAL, s)
      | Some (_, fullpath) \<Rightarrow>
          (case dfs_filesystem_lookup fullpath s of
             None \<Rightarrow> Some (- ENOENT, free_path E full s)
           | Some i \<Rightarrow> do {
               (op, s) \<leftarrow> fd_is_open E fullpath s;
               if op = 0 then Some (- EBUSY, free_path E full s)
               else do {
                 let fs = fs_table s ! i;
                 ops \<leftarrow> map_option (env_ops E) (fs_ops fs);
                 (case op_unlink ops of
                    None \<Rightarrow> Some (- ENOSYS, free_path E full s)
                  | Some drv \<Rightarrow> do {
                      (_, dir) \<leftarrow> fs_path fs;
                      let (r, w) = drv i fs (case driver_path ops dir fullpath of None \<Rightarrow> ''/'' | Some t \<Rightarrow> t) (dfs_world s);
                      Some (r, free_path E full (s\<lparr>dfs_world := w\<rparr>)) }) } })) }"

definition dfs_file_stat :: "('h, 'w) dfs_env \<Rightarrow> string \<Rightarrow> nat \<Rightarrow> ('h, 'w) dfs_state \<Rightarrow> (int \<times> ('h, 'w) dfs_state) option" where
  "dfs_file_stat E path buf s = do {
     (full, s) \<leftarrow> normal_path E path s;
     (case full of
        None \<Rightarrow> Some (- 1, s)
      | Some (_, fullpath) \<Rightarrow>
          (case dfs_filesystem_lookup fullpath s of
             None \<Rightarrow> Some (- ENOENT, free_path E full s)
           | Some i \<Rightarrow> do {
               let fs = fs_table s ! i;
               (_, dir) \<leftarrow> fs_path fs;
               if fullpath = ''/'' \<or> sub_path dir fullpath = None then
                 Some (0, free_path E full (s\<lparr>dfs_world := env_stat_dir E buf (dfs_world s)\<rparr>))
               else do {
                 ops \<leftarrow> map_option (env_ops E) (fs_ops fs);
                 (case op_stat ops of
                    None \<Rightarrow> Some (- ENOSYS, free_path E full s)
                  | Some drv \<Rightarrow>
                      (let (r, w) = drv i fs (driver_path ops dir fullpath) buf (dfs_world s)
                       in Some (r, free_path E full (s\<lparr>dfs_world := w\<rparr>)))) } })) }"

text \<open>Both paths are looked up before the result is compared, so \<open>None\<close> comes out when neither leads to
  a file system: the code dereferences the null pointer.\<close>

definition dfs_file_rename :: "('h, 'w) dfs_env \<Rightarrow> string \<Rightarrow> string \<Rightarrow> ('h, 'w) dfs_state \<Rightarrow> (int \<times> ('h, 'w) dfs_state) option" where
  "dfs_file_rename E oldpath newpath s = do {
     (old, s) \<leftarrow> normal_path E oldpath s;
     (case old of
        None \<Rightarrow> Some (- ENOENT, s)
      | Some (_, oldfull) \<Rightarrow> do {
          (new, s) \<leftarrow> normal_path E newpath s;
          (case new of
             None \<Rightarrow> Some (- ENOENT, free_path E old s)
           | Some (_, newfull) \<Rightarrow> do {
               let oldfs = dfs_filesystem_lookup oldfull s;
               (r, s) \<leftarrow> (if oldfs = dfs_filesystem_lookup newfull s then do {
                   i \<leftarrow> oldfs;
                   let fs = fs_table s ! i;
                   ops \<leftarrow> map_option (env_ops E) (fs_ops fs);
                   (case op_rename ops of
                      None \<Rightarrow> Some (- ENOSYS, s)
                    | Some drv \<Rightarrow> do {
                        (_, dir) \<leftarrow> fs_path fs;
                        let (r, w) = drv i fs (driver_path ops dir oldfull) (driver_path ops dir newfull) (dfs_world s);
                        Some (r, s\<lparr>dfs_world := w\<rparr>) }) }
                 else Some (- EXDEV, s));
               Some (r, free_path E new (free_path E old s)) }) }) }"

section \<open>Mounting\<close>

text \<open>The scan of the table for a free entry stops at an entry with the path given, which is compared as
  the caller wrote it.\<close>

fun mount_scan :: "string \<Rightarrow> dfs_filesystem list \<Rightarrow> nat \<Rightarrow> nat option \<Rightarrow> bool \<times> nat option" where
  "mount_scan path [] i fs = (False, fs)"
| "mount_scan path (iter # t) i fs =
     (if fs_ops iter = None then mount_scan path t (i + 1) (if fs = None then Some i else fs)
      else if map_option snd (fs_path iter) = Some path then (True, fs)
      else mount_scan path t (i + 1) fs)"

text \<open>A path other than the root and \<open>/dev\<close> has to lead to a directory; \<open>fd0\<close> is the descriptor on the
  stack before it is set.\<close>

definition mount_check :: "('h, 'w) dfs_env \<Rightarrow> dfs_fd \<Rightarrow> string \<Rightarrow> ('h, 'w) dfs_state \<Rightarrow> (bool \<times> ('h, 'w) dfs_state) option" where
  "mount_check E fd0 fullpath s =
     (if fullpath \<noteq> ''/'' \<and> fullpath \<noteq> ''/dev'' then do {
        (r, fd, s) \<leftarrow> dfs_file_open E (Some fd0) fullpath (env_open_dir E) s;
        if r < 0 then Some (False, s)
        else map_option (\<lambda>(_, _, s). (True, s)) (dfs_file_close E fd s) }
      else Some (True, s))"

text \<open>The entry is set, the device opened and the driver called; each failure undoes what was done.\<close>

definition mount_entry ::
    "('h, 'w) dfs_env \<Rightarrow> nat option \<Rightarrow> nat \<Rightarrow> (nat \<Rightarrow> dfs_filesystem \<Rightarrow> u32 \<Rightarrow> nat \<Rightarrow> 'w \<Rightarrow> int \<times> 'w) \<Rightarrow> path \<Rightarrow> u32 \<Rightarrow> nat \<Rightarrow> nat \<Rightarrow>
     ('h, 'w) dfs_state \<Rightarrow> int \<times> ('h, 'w) dfs_state" where
  "mount_entry E dev op drv fullpath rwflag data i s =
     (let fs = \<lparr>fs_dev_id = dev, fs_path = Some fullpath, fs_ops = Some op\<rparr>;
          s = s\<lparr>fs_table := (fs_table s)[i := fs]\<rparr>;
          undo = (\<lambda>s. free_path E (Some fullpath) (s\<lparr>fs_table := (fs_table s)[i := no_filesystem]\<rparr>));
          (opened, w) = (case dev of None \<Rightarrow> (0, dfs_world s) | Some d \<Rightarrow> env_device_open E d (dfs_world s));
          s = s\<lparr>dfs_world := w\<rparr>
      in if opened \<noteq> 0 then (- 1, undo s)
         else (case drv i fs rwflag data (dfs_world s) of (r, w) \<Rightarrow>
           if r < 0 then
             (- 1, undo (s\<lparr>dfs_world := (case dev of None \<Rightarrow> w | Some d \<Rightarrow> env_device_close E d w)\<rparr>))
           else (0, s\<lparr>dfs_world := w\<rparr>)))"

definition dfs_mount ::
    "('h, 'w) dfs_env \<Rightarrow> dfs_fd \<Rightarrow> string option \<Rightarrow> string \<Rightarrow> string \<Rightarrow> u32 \<Rightarrow> nat \<Rightarrow> ('h, 'w) dfs_state \<Rightarrow>
     (int \<times> ('h, 'w) dfs_state) option" where
  "dfs_mount E fd0 device_name path filesystemtype rwflag data s =
     (let dev = Option.bind device_name (\<lambda>n. env_device_find E n (dfs_world s))
      in if device_name \<noteq> None \<and> dev = None then Some (- 1, s\<lparr>dfs_errno := - ENODEV\<rparr>)
         else (case find_type E filesystemtype (fs_types s) of
           None \<Rightarrow> Some (- 1, s\<lparr>dfs_errno := - ENODEV\<rparr>)
         | Some op \<Rightarrow>
             (case op_mount (env_ops E op) of
                None \<Rightarrow> Some (- 1, s\<lparr>dfs_errno := - ENOSYS\<rparr>)
              | Some drv \<Rightarrow> do {
                  (full, s) \<leftarrow> normal_path E path s;
                  (case full of
                     None \<Rightarrow> Some (- 1, s\<lparr>dfs_errno := - ENOTDIR\<rparr>)
                   | Some fullpath \<Rightarrow> do {
                       (ok, s) \<leftarrow> mount_check E fd0 (snd fullpath) s;
                       if \<not> ok then Some (- 1, (free_path E full s)\<lparr>dfs_errno := - ENOTDIR\<rparr>)
                       else Some (case mount_scan path (fs_table s) 0 None of
                           (True, _) \<Rightarrow> (- 1, free_path E full (s\<lparr>dfs_errno := - EINVAL\<rparr>))
                         | (False, None) \<Rightarrow> (- 1, free_path E full (s\<lparr>dfs_errno := - ENOSPC\<rparr>))
                         | (False, Some i) \<Rightarrow> mount_entry E dev op drv fullpath rwflag data i s) }) })))"

definition dfs_unmount :: "('h, 'w) dfs_env \<Rightarrow> string \<Rightarrow> ('h, 'w) dfs_state \<Rightarrow> (int \<times> ('h, 'w) dfs_state) option" where
  "dfs_unmount E specialfile s = do {
     (full, s) \<leftarrow> normal_path E specialfile s;
     (case full of
        None \<Rightarrow> Some (- 1, s\<lparr>dfs_errno := - ENOTDIR\<rparr>)
      | Some (_, fullpath) \<Rightarrow>
          (let i = length (takeWhile (\<lambda>iter. map_option snd (fs_path iter) \<noteq> Some fullpath) (fs_table s))
           in if i \<ge> length (fs_table s) then Some (- 1, free_path E full s)
              else do {
                let fs = fs_table s ! i;
                ops \<leftarrow> map_option (env_ops E) (fs_ops fs);
                (case op_unmount ops of
                   None \<Rightarrow> Some (- 1, free_path E full s)
                 | Some drv \<Rightarrow>
                     (case drv i fs (dfs_world s) of (r, w) \<Rightarrow>
                        if r < 0 then Some (- 1, free_path E full (s\<lparr>dfs_world := w\<rparr>))
                        else (let w = (case fs_dev_id fs of None \<Rightarrow> w | Some d \<Rightarrow> env_device_close E d w);
                                  s = free_path E (fs_path fs) (s\<lparr>dfs_world := w\<rparr>);
                                  s = s\<lparr>fs_table := (fs_table s)[i := no_filesystem]\<rparr>
                              in Some (0, free_path E full s)))) })) }"

definition dfs_mkfs :: "('h, 'w) dfs_env \<Rightarrow> string \<Rightarrow> string option \<Rightarrow> ('h, 'w) dfs_state \<Rightarrow> int \<times> ('h, 'w) dfs_state" where
  "dfs_mkfs E fs_name device_name s =
     (case Option.bind device_name (\<lambda>n. env_device_find E n (dfs_world s)) of
        None \<Rightarrow> (- 1, s\<lparr>dfs_errno := - ENODEV\<rparr>)
      | Some dev \<Rightarrow>
          (case find_type E fs_name (fs_types s) of
             None \<Rightarrow> (- 1, s)
           | Some op \<Rightarrow>
               (case op_mkfs (env_ops E op) of
                  None \<Rightarrow> (- 1, s\<lparr>dfs_errno := - ENOSYS\<rparr>)
                | Some drv \<Rightarrow> (case drv dev (dfs_world s) of (r, w) \<Rightarrow> (r, s\<lparr>dfs_world := w\<rparr>)))))"

definition dfs_statfs :: "('h, 'w) dfs_env \<Rightarrow> string \<Rightarrow> nat \<Rightarrow> ('h, 'w) dfs_state \<Rightarrow> (int \<times> ('h, 'w) dfs_state) option" where
  "dfs_statfs E path buffer s =
     (case dfs_filesystem_lookup path s of
        None \<Rightarrow> Some (- 1, s)
      | Some i \<Rightarrow> do {
          let fs = fs_table s ! i;
          ops \<leftarrow> map_option (env_ops E) (fs_ops fs);
          Some (case op_statfs ops of
              None \<Rightarrow> (- 1, s)
            | Some drv \<Rightarrow> (case drv i fs buffer (dfs_world s) of (r, w) \<Rightarrow> (r, s\<lparr>dfs_world := w\<rparr>))) })"

text \<open>The first call clears the tables, registers the file system of the devices and mounts it; \<open>devfs\<close>
  are its operations.\<close>

definition dfs_init :: "('h, 'w) dfs_env \<Rightarrow> dfs_fd \<Rightarrow> nat \<Rightarrow> ('h, 'w) dfs_state \<Rightarrow> (int \<times> ('h, 'w) dfs_state) option" where
  "dfs_init E fd0 devfs s =
     (if dfs_ready s then Some (0, s)
      else do {
        let s = s\<lparr>fs_types := replicate DFS_FILESYSTEM_TYPES_MAX None, fs_table := replicate DFS_FILESYSTEMS_MAX no_filesystem,
          fd_array := None, fd_table := [], dfs_cwd := ''/''\<rparr>;
        let (_, s) = dfs_register E devfs s;
        (_, s) \<leftarrow> dfs_mount E fd0 None ''/dev'' ''devfs'' 0 0 s;
        Some (0, s\<lparr>dfs_ready := True\<rparr>) })"

section \<open>The table of mounted file systems\<close>

abbreviation mount_path :: "dfs_filesystem \<Rightarrow> string option" where
  "mount_path fs \<equiv> map_option snd (fs_path fs)"

text \<open>A free entry is cleared, an entry in use has a path, and no path is mounted twice.\<close>

definition mounts_ok :: "('h, 'w) dfs_state \<Rightarrow> bool" where
  "mounts_ok s \<longleftrightarrow> (\<forall>k<length (fs_table s). fs_ops (fs_table s ! k) = None \<longrightarrow> fs_table s ! k = no_filesystem) \<and>
     (\<forall>k<length (fs_table s). fs_ops (fs_table s ! k) \<noteq> None \<longrightarrow> fs_path (fs_table s ! k) \<noteq> None) \<and>
     (\<forall>k j p. k < length (fs_table s) \<longrightarrow> j < length (fs_table s) \<longrightarrow> mount_path (fs_table s ! k) = Some p \<longrightarrow>
        mount_path (fs_table s ! j) = Some p \<longrightarrow> k = j)"

lemma free_path_table [simp]: "fs_table (free_path E p s) = fs_table s"
  by (simp add: free_path_def split: option.splits prod.splits)

lemma normalize_table: "normal_path E p s = Some (r, s1) \<Longrightarrow> fs_table s1 = fs_table s"
  by (auto simp: normal_path_def Some_bind_iff Let_def split: option.splits)

lemma open_path_table: "open_path E fs ops full s = Some (p, s1) \<Longrightarrow> fs_table s1 = fs_table s"
  by (auto simp: open_path_def strdup_path_def Some_bind_iff Let_def split: if_splits prod.splits)

lemma open_driver_table: "open_driver E fops fd flags s = (r, fd1, s1) \<Longrightarrow> fs_table s1 = fs_table s"
  by (auto simp: open_driver_def Let_def split: option.splits prod.splits if_splits)

lemma file_open_table:
  assumes "dfs_file_open E fd path flags s = Some (r, fd1, s1)"
  shows "fs_table s1 = fs_table s"
proof (cases fd)
  case None
  then show ?thesis using assms by (simp add: dfs_file_open_def)
next
  case fd: (Some d)
  obtain full s2 where n: "normal_path E path s = Some (full, s2)"
    using assms fd by (auto simp: dfs_file_open_def Some_bind_iff)
  note t = normalize_table [OF n]
  show ?thesis
  proof (cases full)
    case None
    then show ?thesis using assms fd n t by (simp add: dfs_file_open_def)
  next
    case full: (Some fp)
    show ?thesis
    proof (cases "dfs_filesystem_lookup (snd fp) s2")
      case None
      then show ?thesis using assms fd n t full by (auto simp: dfs_file_open_def)
    next
      case (Some i)
      then obtain op p s3 where o: "fs_ops (fs_table s2 ! i) = Some op"
        "open_path E (fs_table s2 ! i) (env_ops E op) fp s2 = Some (p, s3)"
        using assms fd n full by (auto simp: dfs_file_open_def Some_bind_iff Let_def)
      let ?d = "d\<lparr>fd_fs := Some i, fd_fops := Some (op_fops (env_ops E op)), fd_type := FT_REGULAR,
        fd_flags := flags, fd_size := 0, fd_pos := 0, fd_data := Fs_data i, fd_path := p\<rparr>"
      obtain r2 d2 s4 where d: "open_driver E (env_fops E (op_fops (env_ops E op))) ?d flags s3 = (r2, d2, s4)"
        by (metis prod_cases3)
      have "s4 = s1" using assms fd n full Some o d by (simp add: dfs_file_open_def Let_def)
      then show ?thesis using open_path_table [OF o(2)] open_driver_table [OF d] t by simp
    qed
  qed
qed

lemma file_close_table:
  assumes "dfs_file_close E fd s = Some (r, fd1, s1)"
  shows "fs_table s1 = fs_table s"
proof (cases fd)
  case None
  then show ?thesis using assms by (simp add: dfs_file_close_def)
next
  case fd: (Some d)
  obtain fops where f: "file_ops E d = Some fops" using assms fd by (auto simp: dfs_file_close_def Some_bind_iff)
  obtain r2 d2 w where "(case fop_close fops of None \<Rightarrow> (0, d, dfs_world s) | Some drv \<Rightarrow> drv d (dfs_world s)) = (r2, d2, w)"
    by (metis prod_cases3)
  then show ?thesis using assms fd f by (auto simp: dfs_file_close_def Let_def split: if_splits)
qed

lemma mount_check_table:
  assumes "mount_check E fd0 fullpath s = Some (ok, s1)"
  shows "fs_table s1 = fs_table s"
proof (cases "fullpath \<noteq> ''/'' \<and> fullpath \<noteq> ''/dev''")
  case True
  then obtain r fd s2 where o: "dfs_file_open E (Some fd0) fullpath (env_open_dir E) s = Some (r, fd, s2)"
    and e: "(if r < 0 then Some (False, s2) else map_option (\<lambda>(_, _, s). (True, s)) (dfs_file_close E fd s2)) = Some (ok, s1)"
    using assms unfolding mount_check_def by (auto simp: Some_bind_iff)
  show ?thesis
  proof (cases "r < 0")
    case False
    then obtain r2 fd2 where "dfs_file_close E fd s2 = Some (r2, fd2, s1)" using e by (auto split: prod.splits)
    then show ?thesis using file_close_table file_open_table [OF o] by metis
  qed (use e file_open_table [OF o] in simp)
qed (use assms in \<open>auto simp: mount_check_def\<close>)

lemma mount_scan_False:
  "mount_scan path t i r = (False, x) \<Longrightarrow>
     (\<forall>k<length t. fs_ops (t ! k) \<noteq> None \<longrightarrow> mount_path (t ! k) \<noteq> Some path) \<and>
     (x = r \<or> (\<exists>k<length t. x = Some (i + k) \<and> fs_ops (t ! k) = None))"
proof (induction t arbitrary: i r)
  case (Cons fs t)
  have m: "mount_scan path t (i + 1) (if fs_ops fs = None \<and> r = None then Some i else r) = (False, x)"
    and n: "fs_ops fs = None \<or> mount_path fs \<noteq> Some path"
    using Cons.prems by (auto split: if_splits)
  from Cons.IH [OF m] show ?case
  proof (elim conjE disjE exE)
    assume a: "\<forall>k<length t. fs_ops (t ! k) \<noteq> None \<longrightarrow> mount_path (t ! k) \<noteq> Some path"
      and x: "x = (if fs_ops fs = None \<and> r = None then Some i else r)"
    show ?thesis using a x n
      by (intro conjI) (auto simp: nth_Cons' intro: exI [of _ 0])
  next
    fix k
    assume a: "\<forall>k<length t. fs_ops (t ! k) \<noteq> None \<longrightarrow> mount_path (t ! k) \<noteq> Some path"
      and k: "k < length t" "x = Some (i + 1 + k)" "fs_ops (t ! k) = None"
    show ?thesis using a k n
      by (intro conjI) (auto simp: nth_Cons' intro!: exI [of _ "Suc k"])
  qed
qed simp

lemma mount_entry_table:
  assumes "mount_entry E dev op drv fullpath rwflag data i s = (r, s1)" "i < length (fs_table s)"
    "fs_table s ! i = no_filesystem"
  shows "r = 0 \<and> fs_table s1 = (fs_table s)[i := \<lparr>fs_dev_id = dev, fs_path = Some fullpath, fs_ops = Some op\<rparr>] \<or>
    r = - 1 \<and> fs_table s1 = fs_table s"
proof -
  have "(fs_table s)[i := x, i := no_filesystem] = fs_table s" for x
    using assms(2,3) by (metis list_update_id list_update_overwrite)
  then show ?thesis using assms(1)
    by (auto simp: mount_entry_def Let_def split: prod.splits if_splits option.splits)
qed

lemma dfs_mount_table:
  assumes "dfs_mount E fd0 device_name path fstype rwflag data s = Some (r, s1)" "mounts_ok s"
  shows "r = - 1 \<and> fs_table s1 = fs_table s \<or>
    r = 0 \<and> (\<exists>full s0 i dev op. normal_path E path s = Some (Some full, s0) \<and> i < length (fs_table s) \<and>
      fs_ops (fs_table s ! i) = None \<and>
      fs_table s1 = (fs_table s)[i := \<lparr>fs_dev_id = dev, fs_path = Some full, fs_ops = Some op\<rparr>] \<and>
      (\<forall>k<length (fs_table s). fs_ops (fs_table s ! k) \<noteq> None \<longrightarrow> mount_path (fs_table s ! k) \<noteq> Some path))"
proof -
  let ?dev = "Option.bind device_name (\<lambda>n. env_device_find E n (dfs_world s))"
  show ?thesis
  proof (cases "device_name \<noteq> None \<and> ?dev = None \<or> find_type E fstype (fs_types s) = None")
    case True
    then show ?thesis using assms(1) by (auto simp: dfs_mount_def Let_def split: if_splits)
  next
    case False
    then obtain op where op: "find_type E fstype (fs_types s) = Some op" by auto
    have c: "(device_name \<noteq> None \<and> ?dev = None) = False" using False by simp
    note m = assms(1) [unfolded dfs_mount_def Let_def c if_False op option.case]
    show ?thesis
    proof (cases "op_mount (env_ops E op)")
      case None
      then show ?thesis using m by auto
    next
      case drv: (Some drv)
      obtain full s2 where n: "normal_path E path s = Some (full, s2)"
        using m drv by (auto simp: Some_bind_iff)
      show ?thesis
      proof (cases full)
        case None
        then show ?thesis using m drv n normalize_table [OF n] by auto
      next
        case full: (Some fp)
        obtain ok s3 where ch: "mount_check E fd0 (snd fp) s2 = Some (ok, s3)"
          using m drv n full by (auto simp: Some_bind_iff)
        have t: "fs_table s3 = fs_table s" using mount_check_table [OF ch] normalize_table [OF n] by simp
        show ?thesis
        proof (cases "ok \<and> (\<exists>i. mount_scan path (fs_table s3) 0 None = (False, Some i))")
          case False
          obtain b x where "mount_scan path (fs_table s3) 0 None = (b, x)" by fastforce
          then show ?thesis using m drv n full ch t False
            by (cases b; cases x; cases ok) auto
        next
          case True
          then obtain i where i: "mount_scan path (fs_table s3) 0 None = (False, Some i)" and ok: "ok" by blast
          have e: "mount_entry E ?dev op drv fp rwflag data i s3 = (r, s1)"
            using m drv n full ch i ok by simp
          have f: "i < length (fs_table s)" "fs_ops (fs_table s ! i) = None"
            "\<forall>k<length (fs_table s). fs_ops (fs_table s ! k) \<noteq> None \<longrightarrow> mount_path (fs_table s ! k) \<noteq> Some path"
            using mount_scan_False [OF i] t by auto
          have "fs_table s3 ! i = no_filesystem" using assms(2) f t by (simp add: mounts_ok_def)
          from mount_entry_table [OF e _ this] f(1) t
          have "r = 0 \<and> fs_table s1 = (fs_table s)[i := \<lparr>fs_dev_id = ?dev, fs_path = Some fp, fs_ops = Some op\<rparr>] \<or>
            r = - 1 \<and> fs_table s1 = fs_table s" by simp
          then show ?thesis
          proof (elim disjE)
            assume a: "r = 0 \<and> fs_table s1 = (fs_table s)[i := \<lparr>fs_dev_id = ?dev, fs_path = Some fp, fs_ops = Some op\<rparr>]"
            show ?thesis
              by (intro disjI2 conjI exI [of _ fp] exI [of _ s2] exI [of _ i] exI [of _ ?dev] exI [of _ op])
                (use a f n full in \<open>simp_all only:\<close>)
          qed simp
        qed
      qed
    qed
  qed
qed

text \<open>A new entry with a path that no other has.\<close>

lemma mounts_ok_update:
  assumes "mounts_ok s" "i < length (fs_table s)" "fs_table s1 = (fs_table s)[i := fs]"
    "fs = no_filesystem \<or> fs_ops fs \<noteq> None \<and> (\<exists>p. mount_path fs = Some p \<and>
      (\<forall>k<length (fs_table s). k \<noteq> i \<longrightarrow> mount_path (fs_table s ! k) \<noteq> Some p))"
  shows "mounts_ok s1"
proof -
  have at: "fs_table s1 ! k = (if k = i then fs else fs_table s ! k)" if "k < length (fs_table s)" for k
    using that assms(3) by simp
  have no: "mount_path no_filesystem = None" "fs_ops no_filesystem = None" by (simp_all add: no_filesystem_def)
  have len: "length (fs_table s1) = length (fs_table s)" using assms(3) by simp
  show ?thesis
    unfolding mounts_ok_def len
  proof (intro conjI allI impI)
    fix k assume k: "k < length (fs_table s)" "fs_ops (fs_table s1 ! k) = None"
    then show "fs_table s1 ! k = no_filesystem" using at [of k] assms(1,4) by (auto simp: mounts_ok_def split: if_splits)
  next
    fix k assume k: "k < length (fs_table s)" "fs_ops (fs_table s1 ! k) \<noteq> None"
    then show "fs_path (fs_table s1 ! k) \<noteq> None" using at [of k] assms(1,4) no by (auto simp: mounts_ok_def split: if_splits)
  next
    fix k j p
    assume k: "k < length (fs_table s)" "j < length (fs_table s)" "mount_path (fs_table s1 ! k) = Some p"
      "mount_path (fs_table s1 ! j) = Some p"
    have old: "a = b" if "a < length (fs_table s)" "b < length (fs_table s)" "mount_path (fs_table s ! a) = Some p"
      "mount_path (fs_table s ! b) = Some p" for a b
      using assms(1) that unfolding mounts_ok_def by blast
    show "k = j"
    proof (cases "k = i \<or> j = i")
      case True
      then show ?thesis using k at [of k] at [of j] assms(4) no by (auto split: if_splits)
    next
      case False
      then show ?thesis using k at [of k] at [of j] old [of k j] by simp
    qed
  qed
qed

text \<open>The file system just mounted is the one that its path leads to.\<close>

lemma lookup_mounted:
  assumes "mounts_ok s1" "i < length (fs_table s1)" "mount_path (fs_table s1 ! i) = Some path" "fs_ops (fs_table s1 ! i) \<noteq> None"
  shows "dfs_filesystem_lookup path s1 = Some i"
proof -
  obtain a op where f: "fs_path (fs_table s1 ! i) = Some (a, path)" "fs_ops (fs_table s1 ! i) = Some op" using assms(3,4) by auto
  then have l: "leads path (fs_table s1 ! i)" by (simp add: leads_def)
  have b: "case dfs_filesystem_lookup path s1 of
     None \<Rightarrow> \<forall>k<length (fs_table s1). \<not> leads path (fs_table s1 ! k)
   | Some j \<Rightarrow> j < length (fs_table s1) \<and> leads path (fs_table s1 ! j) \<and>
       (\<forall>k<length (fs_table s1). leads path (fs_table s1 ! k) \<longrightarrow> path_len (fs_table s1 ! k) \<le> path_len (fs_table s1 ! j))"
    by (rule lookup_best)
  show ?thesis
  proof (cases "dfs_filesystem_lookup path s1")
    case None
    then show ?thesis using b l assms(2) by simp
  next
    case (Some j)
    then have j: "j < length (fs_table s1)" "leads path (fs_table s1 ! j)" "path_len (fs_table s1 ! i) \<le> path_len (fs_table s1 ! j)"
      using b l assms(2) by simp_all
    then obtain c p where p: "fs_path (fs_table s1 ! j) = Some (c, p)" "take (length p) path = p"
      by (auto simp: leads_def split: option.splits prod.splits)
    have "length path \<le> length p" using j(3) f p by (simp add: path_len_def)
    then have "p = path" using p(2) by simp
    then have "mount_path (fs_table s1 ! j) = Some path" using p by simp
    then have "j = i" using assms(1,2,3) j(1) unfolding mounts_ok_def by blast
    then show ?thesis using Some by simp
  qed
qed

lemma dfs_unmount_table:
  assumes "dfs_unmount E path s = Some (r, s1)"
  shows "r = - 1 \<and> fs_table s1 = fs_table s \<or> r = 0 \<and> (\<exists>full s0 i. normal_path E path s = Some (Some full, s0) \<and>
    i < length (fs_table s) \<and> mount_path (fs_table s ! i) = Some (snd full) \<and> fs_table s1 = (fs_table s)[i := no_filesystem])"
proof -
  obtain full s2 where n: "normal_path E path s = Some (full, s2)"
    using assms by (auto simp: dfs_unmount_def Some_bind_iff)
  note t = normalize_table [OF n]
  show ?thesis
  proof (cases full)
    case None
    then show ?thesis using assms n t by (auto simp: dfs_unmount_def)
  next
    case full: (Some fp)
    obtain a p where fp: "fp = (a, p)" by fastforce
    define i where "i = length (takeWhile (\<lambda>iter. mount_path iter \<noteq> Some p) (fs_table s))"
    note m = assms [unfolded dfs_unmount_def n full fp bind.bind_lunit prod.case option.case Let_def t i_def [symmetric]]
    show ?thesis
    proof (cases "i \<ge> length (fs_table s)")
      case True
      then show ?thesis using m t by auto
    next
      case False
      then have i: "i < length (fs_table s)" "mount_path (fs_table s ! i) = Some p"
        using nth_length_takeWhile [of "\<lambda>iter. mount_path iter \<noteq> Some p" "fs_table s"] by (simp_all add: i_def)
      obtain op where op: "fs_ops (fs_table s ! i) = Some op" using m False by (auto simp: Some_bind_iff)
      show ?thesis
      proof (cases "op_unmount (env_ops E op)")
        case None
        then show ?thesis using m False op t by auto
      next
        case (Some drv)
        obtain r2 w where "drv i (fs_table s ! i) (dfs_world s2) = (r2, w)" by fastforce
        then show ?thesis using m False op Some t i n full fp by (auto simp: Let_def split: if_splits)
      qed
    qed
  qed
qed

end
