(* ===== verification/Dfs_Props.thy ===== *)
theory Dfs_Props
  imports Dfs_File
begin

text \<open>
  The properties of the device file system: path resolution.
\<close>

section \<open>Above the root\<close>

text \<open>A \<open>..\<close> directly below the root takes the leading slash away: \<open>/../a\<close> becomes the relative path
  \<open>a\<close>.\<close>

lemma up_from_root_loses_slash:
  assumes "cstr m a ''/../a''"
  shows "\<exists>m' dst. norm_loop a m a a = Some (m', Some dst) \<and> cstr (norm_end a m' dst) a ''a''"
proof -
  let ?m = "put_word m a ''/''"
  have at: "m a = CHR ''/''" "cstr ?m (a + 1) ''../a''" "cstr ?m (a + 4) ''a''"
    using assms by (auto simp: cstr_def seg_def put_word_def upt_conv_Cons eval_nat_numeral)
  have "norm_step a m a a = norm_copy m a a" using at(1) by (simp add: norm_step_def)
  then have 1: "norm_step a m a a = Some (Again ?m (a + 1) (a + 1))"
    using norm_copy_slash [of m a "[]" "''../a''" a] assms by simp
  have "back_up ?m a a = a" by (simp add: back_up.simps)
  then have 2: "norm_step a ?m (a + 1) (a + 1) = Some (Again ?m (a + 4) a)"
    using norm_step_up_slash [of ?m "a + 1" "''a''" a "a + 1"] at(2) by (simp add: norm_up_def)
  have 3: "norm_step a ?m (a + 4) a = Some (Out (put_word ?m a ''a'') (a + 1))"
    using norm_step_name [of ?m "a + 4" "''a''" "[]" a a] norm_copy_last [of ?m "a + 4" "''a''" a] at(3) by simp
  have "cstr (norm_end a (put_word ?m a ''a'') (a + 1)) a ''a''"
    by (simp add: norm_end_def Let_def put_word_def cstr_def seg_def)
  then show ?thesis using norm_loop_next(1) [OF 1] norm_loop_next(1) [OF 2] norm_loop_next(2) [OF 3] by simp
qed

section \<open>The properties\<close>

text \<open>C34: Path resolution: for a path that is absolute, or made absolute by the directory, that never
  climbs above the root (at the root the code goes wrong, \<open>up_from_root_loses_slash\<close>), and an allocator that
  has room, \<open>dfs_normalize_path\<close> returns (its loops end) a new block with the path of
  the components that are left when \<open>.\<close> and empty components are skipped and each \<open>..\<close> removes the one
  before it; it writes nothing outside the block that it asked the allocator for, and what it returns is
  a fixed point of the resolution.\<close>

theorem normalize_resolves:
  fixes directory filename :: string
  defines "full \<equiv> (if take 1 filename = ''/'' then filename else directory @ ''/'' @ filename)"
  assumes "CHR 0x00 \<notin> set full" "take 1 full = ''/''" "resolve (comps full) [] = Some st"
    and "malloc (length full + 1) h = (Some a, h1)" "a + length full + 1 < 2 ^ 32"
  shows "\<exists>m'. dfs_normalize_path malloc free wd (Some directory) filename (m, h) = Some (Some a, m', h1) \<and>
    cstr m' a (canonical st) \<and> (\<forall>x. x < a \<or> a + length full < x \<longrightarrow> m' x = m x) \<and>
    resolve (comps (canonical st)) [] = Some st"
proof -
  obtain t where t: "full = CHR ''/'' # t" using assms(3) by (cases full) auto
  have ct: "comps full = comps t"
    using comps_slashes [of full] comps_slashes [of t] t by simp
  define m1 where "m1 = (if take 1 filename = ''/'' then write_string a filename m
    else (\<lambda>x. if x < a then m x else terminated (Suc (length full)) full (\<lambda>i. m (a + i)) (x - a)))"
  have c: "cstr m1 a full"
  proof (cases "take 1 filename = ''/''")
    case True
    then show ?thesis using cstr_write assms(2) by (simp add: m1_def full_def)
  next
    case False
    then show ?thesis using assms(2)
      by (auto simp: m1_def cstr_def seg_def terminated_def intro!: nth_equalityI)
  qed
  have out: "m1 x = m x" if "x < a \<or> a + length full < x" for x
  proof (cases "take 1 filename = ''/''")
    case True
    then show ?thesis using that by (auto simp: m1_def write_string_def full_def)
  next
    case False
    then show ?thesis using that by (auto simp: m1_def terminated_def)
  qed
  obtain m' dst where l: "norm_loop a m1 a a = Some (m', Some dst)" "cstr (norm_end a m' dst) a (canonical st)"
    "\<forall>x. x < a \<or> a + length t + 1 < x \<longrightarrow> norm_end a m' dst x = m1 x"
    using normalize_absolute [of m1 a t st] c assms(4) t ct by auto
  have run: "dfs_normalize_path malloc free wd (Some directory) filename (m, h) = Some (Some a, norm_end a m' dst, h1)"
  proof (cases "take 1 filename = ''/''")
    case True
    then have "rt_strdup malloc filename (m, h) = (Some a, m1, h1)"
      using assms(5) by (simp add: rt_strdup_def full_def m1_def)
    then show ?thesis using True l(1) by (simp add: dfs_normalize_path_def Let_def)
  next
    case False
    then have f: "full = directory @ ''/'' @ filename" by (simp add: full_def)
    then have len: "length directory + length filename + 2 = length full + 1" by simp
    have room: "buffer_room a (length full + 1) = length full + 1" using assms(6) by (simp add: buffer_room_def)
    define n where "n = length directory + length filename + 2"
    have mal: "malloc n h = (Some a, h1)" using assms(5) len by (simp only: n_def)
    have sn: "rt_snprintf a n ''%s/%s'' [Str_arg (Some directory), Str_arg (Some filename)] m0 =
        Some (length full, terminated (Suc (length full)) full m0)" for m0
      using join_snprintf [of a n directory filename m0] room len f by (simp only: n_def Suc_eq_plus1)
    show ?thesis using False l(1)
      unfolding dfs_normalize_path_def Let_def option.case n_def [symmetric] snd_conv fst_conv mal by (simp add: sn m1_def)
  qed
  have ok: "\<forall>c\<in>set st. name_ok c"
    using comps_ok [OF assms(2)] resolve_names [OF assms(4)] by auto
  then have "resolve (comps (canonical st)) [] = Some st"
    using comps_canonical resolve_names [OF assms(4)] resolve_done [of st "[]"] by auto
  then show ?thesis using run l(2,3) out t by (intro exI [of _ "norm_end a m' dst"]) simp
qed

text \<open>The file \<open>../b//./c/\<close> in the directory \<open>/a/x\<close>, with an allocator that always gives block 4096.\<close>

lemma resolve_demo: "resolve (comps ''/a/x/../b//./c/'') [] = Some [''a'', ''b'', ''c'']"
  by (simp add: comps.simps)

theorem normalize_resolves_witness:
  "\<exists>m'. dfs_normalize_path (\<lambda>n h. (Some 4096, h + n)) (\<lambda>a h. h) ''/'' (Some ''/a/x'') ''../b//./c/'' (\<lambda>_. CHR ''z'', 0) =
      Some (Some 4096, m', 16) \<and> cstr m' 4096 ''/a/b/c''"
proof -
  have "canonical [''a'', ''b'', ''c''] = ''/a/b/c''" by (simp add: canonical_def)
  then show ?thesis
    using normalize_resolves [of "''../b//./c/''" "''/a/x''" "[''a'', ''b'', ''c'']"
        "\<lambda>n h. (Some 4096, h + n)" 0 4096 16 "\<lambda>a h. h" "''/''" "\<lambda>_. CHR ''z''"] resolve_demo by auto
qed

text \<open>C35: File lookup: when the mounted file systems have normal paths, the one that
  \<open>dfs_filesystem_lookup\<close> finds for a normal path is mounted at a directory whose components are the first
  components of the path, and no other such mount point is deeper; when it finds none, there is none. A
  name that only begins like a mount point is not below it.\<close>

theorem lookup_longest:
  assumes "\<forall>i<length (fs_table s). fs_ops (fs_table s ! i) \<noteq> None \<longrightarrow>
      (\<exists>a st. fs_path (fs_table s ! i) = Some (a, canonical st) \<and> (\<forall>c\<in>set st. name_ok c))"
    and "\<forall>c\<in>set q. name_ok c"
  defines "at i st \<equiv> i < length (fs_table s) \<and> fs_ops (fs_table s ! i) \<noteq> None \<and>
      mount_path (fs_table s ! i) = Some (canonical st) \<and> (\<forall>c\<in>set st. name_ok c) \<and> take (length st) q = st"
  shows "case dfs_filesystem_lookup (canonical q) s of
      None \<Rightarrow> \<forall>i st. \<not> at i st
    | Some i \<Rightarrow> \<exists>st. at i st \<and> (\<forall>j st'. at j st' \<longrightarrow> length st' \<le> length st)"
proof -
  have lead: "leads (canonical q) (fs_table s ! i)" if "at i st" for i st
    using that leads_canonical [OF _ _ _ assms(2), of "fs_table s ! i" _ st] unfolding at_def by auto
  have len: "path_len (fs_table s ! i) = length (canonical st)" if "at i st" for i st
    using that unfolding at_def path_len_def by auto
  have at: "\<exists>st. at i st" if i: "i < length (fs_table s)" "leads (canonical q) (fs_table s ! i)" for i
  proof -
    obtain op where op: "fs_ops (fs_table s ! i) = Some op" using i(2) by (auto simp: leads_def split: option.splits prod.splits)
    then obtain a st where st: "fs_path (fs_table s ! i) = Some (a, canonical st)" "\<forall>c\<in>set st. name_ok c"
      using assms(1) i(1) by fastforce
    have "take (length st) q = st" using leads_canonical [OF st(1) op st(2) assms(2)] i(2) by simp
    then show ?thesis using i(1) op st unfolding at_def by auto
  qed
  show ?thesis
  proof (cases "dfs_filesystem_lookup (canonical q) s")
    case None
    have "\<forall>k<length (fs_table s). \<not> leads (canonical q) (fs_table s ! k)"
      using lookup_best [where path = "canonical q" and s = s] unfolding None option.case .
    then show ?thesis using lead None unfolding at_def by fastforce
  next
    case (Some i)
    have b: "i < length (fs_table s) \<and> leads (canonical q) (fs_table s ! i) \<and> (\<forall>l<length (fs_table s).
        leads (canonical q) (fs_table s ! l) \<longrightarrow> path_len (fs_table s ! l) \<le> path_len (fs_table s ! i))"
      using lookup_best [where path = "canonical q" and s = s] unfolding Some option.case .
    obtain st where st: "at i st" using at b by blast
    have "length st' \<le> length st" if st': "at j st'" for j st'
    proof (rule ccontr)
      assume "\<not> length st' \<le> length st"
      moreover have "take (length st) q = st" "take (length st') q = st'" using st st' unfolding at_def by auto
      ultimately obtain r where r: "st' = st @ r" "r \<noteq> []"
        by (metis append_take_drop_id drop_eq_Nil min.absorb1 nle_le take_take)
      have "length (canonical st') \<le> length (canonical st)" using b lead [OF st'] len [OF st] len [OF st'] st'
        unfolding at_def by auto
      moreover have "\<forall>c\<in>set st'. name_ok c" using st' unfolding at_def by auto
      ultimately show False using r by (cases r) (auto simp: canonical_cat name_ok_def split: if_splits)
    qed
    then show ?thesis using st Some by auto
  qed
qed

text \<open>Mounting: for a path in normal form, a mount that succeeds fills a free entry, the path then
  leads to the file system just mounted, no path is mounted twice and the other entries stay as they
  are; a successful unmount of the same path gives the table back. A mount that fails leaves the table
  as it was.\<close>

theorem mount_reachable:
  assumes "mounts_ok s" "normal_path E path s = Some (Some (a, path), s0)"
    and "dfs_mount E fd0 device_name path fstype rwflag data s = Some (r, s1)"
  shows "mounts_ok s1 \<and>
    (if r = 0 then \<exists>i<length (fs_table s). fs_table s ! i = no_filesystem \<and>
       dfs_filesystem_lookup path s1 = Some i \<and> mount_path (fs_table s1 ! i) = Some path \<and>
       fs_table s1 = (fs_table s)[i := fs_table s1 ! i] \<and>
       (\<forall>b s2 s3. normal_path E path s1 = Some (Some (b, path), s2) \<longrightarrow> dfs_unmount E path s1 = Some (0, s3) \<longrightarrow>
          fs_table s3 = fs_table s)
     else r = - 1 \<and> fs_table s1 = fs_table s)"
  using dfs_mount_table [OF assms(3,1)]
proof (elim disjE conjE exE)
  assume "r = - 1" "fs_table s1 = fs_table s"
  then show ?thesis using assms(1) by (simp add: mounts_ok_def)
next
  fix full s2 i dev op
  assume r: "r = 0" and n: "normal_path E path s = Some (Some full, s2)" and i: "i < length (fs_table s)"
    "fs_ops (fs_table s ! i) = None"
    and t: "fs_table s1 = (fs_table s)[i := \<lparr>fs_dev_id = dev, fs_path = Some full, fs_ops = Some op\<rparr>]"
    and new: "\<forall>k<length (fs_table s). fs_ops (fs_table s ! k) \<noteq> None \<longrightarrow> mount_path (fs_table s ! k) \<noteq> Some path"
  have full: "full = (a, path)" using n assms(2) by simp
  have z: "fs_table s ! i = no_filesystem" using assms(1) i by (simp add: mounts_ok_def)
  have new': "mount_path (fs_table s ! k) \<noteq> Some path" if "k < length (fs_table s)" for k
    using new that assms(1) by (cases "fs_ops (fs_table s ! k) = None") (auto simp: mounts_ok_def no_filesystem_def)
  let ?fs = "\<lparr>fs_dev_id = dev, fs_path = Some full, fs_ops = Some op\<rparr>"
  have e: "fs_table s1 ! i = ?fs" using t i(1) by simp
  have ok: "mounts_ok s1"
    by (rule mounts_ok_update [OF assms(1) i(1) t]) (use new' full in auto)
  have l: "dfs_filesystem_lookup path s1 = Some i"
    by (rule lookup_mounted [OF ok]) (use e full i(1) t in simp_all)
  have un: "fs_table s3 = fs_table s"
    if u: "normal_path E path s1 = Some (Some (b, path), s2)" "dfs_unmount E path s1 = Some (0, s3)" for b s2 s3
  proof -
    obtain j where j: "j < length (fs_table s1)" "mount_path (fs_table s1 ! j) = Some path"
      "fs_table s3 = (fs_table s1)[j := no_filesystem]"
      using dfs_unmount_table [OF u(2)] u(1) by auto
    have "mount_path (fs_table s1 ! i) = Some path" using e full by simp
    then have "j = i" using ok j(1,2) i(1) t unfolding mounts_ok_def by (metis length_list_update)
    then show ?thesis using j(3) t z by (metis list_update_id list_update_overwrite)
  qed
  have u: "fs_table s1 = (fs_table s)[i := fs_table s1 ! i]" using e t by simp
  have p: "mount_path (fs_table s1 ! i) = Some path" using e full by simp
  have un': "\<forall>b s2 s3. normal_path E path s1 = Some (Some (b, path), s2) \<longrightarrow> dfs_unmount E path s1 = Some (0, s3) \<longrightarrow>
      fs_table s3 = fs_table s"
    by (intro allI impI) (rule un)
  show ?thesis
    unfolding if_P [OF r] by (intro conjI exI [of _ i]) (fact ok i(1) z l p u un')+
qed

text \<open>C36: File descriptors count their users: on a well-formed table, \<open>fd_new\<close> returns the lowest
  descriptor without users and gives it one, or - 1 and changes no count; \<open>fd_get\<close> finds the object of a
  descriptor that has users, and adds one, and nothing for one that has none; \<open>fd_put\<close> takes one away, and
  only the last one releases the object and frees the descriptor. Every step keeps the table well
  formed.\<close>

theorem descriptors_count_users:
  assumes "fds_ok s" "fd_fresh E s" "fd < 0 \<or> 2 < fd"
  shows "(\<exists>new s1. fd_new E s = Some (new, s1) \<and> fds_ok s1 \<and>
      (if new = - 1 then fd_users s1 = fd_users s
       else 3 \<le> new \<and> new < 19 \<and> fd_users s new = 0 \<and> (\<forall>x. 3 \<le> x \<longrightarrow> x < new \<longrightarrow> 0 < fd_users s x) \<and>
         fd_users s1 = (fd_users s)(new := 1))) \<and>
    (case fd_object s fd of
       None \<Rightarrow> fd_users s fd = 0 \<and> fd_get E fd s = Some (None, s)
     | Some a \<Rightarrow> 0 < fd_users s fd \<and>
         (\<exists>s1. fd_get E fd s = Some (Some a, s1) \<and> fds_ok s1 \<and> fd_users s1 = (fd_users s)(fd := fd_users s fd + 1)) \<and>
         (\<exists>s1. fd_put E (Some a) s = Some s1 \<and> fds_ok s1 \<and> fd_users s1 = (fd_users s)(fd := fd_users s fd - 1) \<and>
           (if fd_users s fd = 1 then fd_object s1 fd = None \<and> dfs_heap s1 = env_free E a (dfs_heap s)
            else fd_object s1 fd = Some a \<and> dfs_heap s1 = dfs_heap s)))"
proof (rule conjI)
  show "\<exists>new s1. fd_new E s = Some (new, s1) \<and> fds_ok s1 \<and>
      (if new = - 1 then fd_users s1 = fd_users s
       else 3 \<le> new \<and> new < 19 \<and> fd_users s new = 0 \<and> (\<forall>x. 3 \<le> x \<longrightarrow> x < new \<longrightarrow> 0 < fd_users s x) \<and>
         fd_users s1 = (fd_users s)(new := 1))"
    using fd_new_users [OF assms(1,2)] unfolding fd_new_done_def .
next
  note g = fd_get_users [OF assms(1,3), of E]
  show "case fd_object s fd of
       None \<Rightarrow> fd_users s fd = 0 \<and> fd_get E fd s = Some (None, s)
     | Some a \<Rightarrow> 0 < fd_users s fd \<and>
         (\<exists>s1. fd_get E fd s = Some (Some a, s1) \<and> fds_ok s1 \<and> fd_users s1 = (fd_users s)(fd := fd_users s fd + 1)) \<and>
         (\<exists>s1. fd_put E (Some a) s = Some s1 \<and> fds_ok s1 \<and> fd_users s1 = (fd_users s)(fd := fd_users s fd - 1) \<and>
           (if fd_users s fd = 1 then fd_object s1 fd = None \<and> dfs_heap s1 = env_free E a (dfs_heap s)
            else fd_object s1 fd = Some a \<and> dfs_heap s1 = dfs_heap s))"
  proof (cases "fd_object s fd")
    case None
    then show ?thesis using g fd_users_object [OF assms(1), of fd] by simp
  next
    case (Some a)
    then have nz: "fd_users s fd \<noteq> 0" using fd_users_object [OF assms(1), of fd] by simp
    then have "\<exists>s1. fd_get E fd s = Some (Some a, s1) \<and> fds_ok s1 \<and> fd_users s1 = (fd_users s)(fd := fd_users s fd + 1)"
      using g Some by auto
    then show ?thesis using fd_put_users [OF assms(1) Some, of E] fd_users_nonneg [OF assms(1), of fd] nz Some by simp
  qed
qed

section \<open>A file system to try them on\<close>

text \<open>Two types, the root mounted and the descriptors 3 and 5 open; blocks come from a counter.\<close>

definition demo_ops :: "nat \<Rightarrow> unit dfs_filesystem_ops" where
  "demo_ops n = \<lparr>op_name = (if n = 1 then ''elm'' else ''devfs''), op_flags = 0, op_fops = 0,
     op_mount = Some (\<lambda>_ _ _ _ w. (0, w)), op_unmount = None, op_mkfs = None, op_statfs = None, op_unlink = None,
     op_stat = None, op_rename = None\<rparr>"

definition demo_fops :: "unit dfs_file_ops" where
  "demo_fops = \<lparr>fop_open = None, fop_close = None, fop_ioctl = None, fop_read = None, fop_write = None,
     fop_flush = None, fop_lseek = None, fop_getdents = None\<rparr>"

definition demo_env :: "(nat, unit) dfs_env" where
  "demo_env = \<lparr>env_malloc = (\<lambda>n h. (Some h, h + n)), env_realloc = (\<lambda>a n h. (Some h, h + n)), env_free = (\<lambda>a h. h),
     env_ops = demo_ops, env_fops = (\<lambda>_. demo_fops), env_device_find = (\<lambda>_ _. None), env_device_open = (\<lambda>_ w. (0, w)),
     env_device_close = (\<lambda>_ w. w), env_console = 3, env_O_DIRECTORY = 0x200000, env_open_dir = 0x200000,
     env_stat_dir = (\<lambda>_ w. w)\<rparr>"

definition root_fs :: dfs_filesystem where
  "root_fs = \<lparr>fs_dev_id = None, fs_path = Some (64, ''/''), fs_ops = Some 1\<rparr>"

definition dev_fs :: dfs_filesystem where
  "dev_fs = \<lparr>fs_dev_id = None, fs_path = Some (96, ''/dev''), fs_ops = Some 2\<rparr>"

definition demo_dfs :: "(nat, unit) dfs_state" where
  "demo_dfs = \<lparr>fs_types = [Some 1, Some 2], fs_table = [root_fs, no_filesystem], fd_array = Some 32,
     fd_table = [Some 128, None, Some 192],
     fd_store = [128 \<mapsto> zero_fd\<lparr>fd_ref_count := 1, fd_magic := 0xfdfd\<rparr>, 192 \<mapsto> zero_fd\<lparr>fd_ref_count := 2, fd_magic := 0xfdfd\<rparr>],
     dfs_cwd = ''/'', dfs_cmem = (\<lambda>_. CHR ''z''), dfs_heap = 4096, dfs_world = (), dfs_errno = 0, dfs_ready = True\<rparr>"

theorem lookup_longest_witness:
  "\<exists>i st. dfs_filesystem_lookup ''/dev/uart1'' (demo_dfs\<lparr>fs_table := [root_fs, dev_fs]\<rparr>) = Some i \<and>
    mount_path ([root_fs, dev_fs] ! i) = Some (canonical st) \<and> take (length st) [''dev'', ''uart1''] = st \<and> 1 \<le> length st"
proof -
  let ?s = "demo_dfs\<lparr>fs_table := [root_fs, dev_fs]\<rparr>" and ?q = "[''dev'', ''uart1'']"
  have ok: "name_ok ''dev''" "name_ok ''uart1''" by (simp_all add: name_ok_def)
  have c: "canonical [] = ''/''" "canonical [''dev''] = ''/dev''" "canonical ?q = ''/dev/uart1''"
    by (simp_all add: canonical_def)
  have r: "fs_path root_fs = Some (64, canonical [])" "fs_path dev_fs = Some (96, canonical [''dev''])" "fs_ops dev_fs = Some 2"
    by (simp_all add: root_fs_def dev_fs_def c)
  have t: "fs_table ?s = [root_fs, dev_fs]" by simp
  have h: "\<forall>i<length (fs_table ?s). fs_ops (fs_table ?s ! i) \<noteq> None \<longrightarrow>
      (\<exists>a st. fs_path (fs_table ?s ! i) = Some (a, canonical st) \<and> (\<forall>c\<in>set st. name_ok c))"
  proof (intro allI impI)
    fix i assume "i < length (fs_table ?s)"
    then have "i = 0 \<or> i = 1" by auto
    then show "\<exists>a st. fs_path (fs_table ?s ! i) = Some (a, canonical st) \<and> (\<forall>c\<in>set st. name_ok c)"
    proof
      assume "i = 0"
      then show ?thesis using r(1) by (intro exI [of _ 64] exI [of _ "[]"]) simp
    next
      assume "i = 1"
      then show ?thesis using r(2) ok by (intro exI [of _ 96] exI [of _ "[''dev'']"]) simp
    qed
  qed
  have q: "\<forall>c\<in>set ?q. name_ok c" using ok by simp
  note l = lookup_longest [OF h q, unfolded t c]
  have at: "1 < length [root_fs, dev_fs] \<and> fs_ops ([root_fs, dev_fs] ! 1) \<noteq> None \<and>
      mount_path ([root_fs, dev_fs] ! 1) = Some (canonical [''dev'']) \<and> (\<forall>c\<in>set [''dev'']. name_ok c) \<and>
      take (length [''dev'']) ?q = [''dev'']" using r(2,3) ok by simp
  show ?thesis
  proof (cases "dfs_filesystem_lookup ''/dev/uart1'' ?s")
    case None
    then show ?thesis using l at by (simp only: option.case)
  next
    case (Some i)
    then obtain st where st: "mount_path ([root_fs, dev_fs] ! i) = Some (canonical st)" "take (length st) ?q = st"
      "length [''dev''] \<le> length st" using l at by (simp only: option.case) blast
    then show ?thesis using Some by auto
  qed
qed

theorem mount_reachable_witness:
  "\<exists>s1. dfs_mount demo_env zero_fd None ''/dev'' ''devfs'' 0 0 demo_dfs = Some (0, s1) \<and> mounts_ok s1 \<and>
    (\<exists>i. dfs_filesystem_lookup ''/dev'' s1 = Some i)"
proof -
  have "resolve (comps ''dev'') [] = Some [''dev'']" by (simp add: comps.simps)
  moreover have "canonical [''dev''] = ''/dev''" by (simp add: canonical_def)
  moreover have m: "env_malloc demo_env n (dfs_heap demo_dfs) = (Some 4096, 4096 + n)" for n
    by (simp add: demo_env_def demo_dfs_def)
  ultimately obtain m h where n: "normal_path demo_env ''/dev'' demo_dfs =
      Some (Some (4096, ''/dev''), demo_dfs\<lparr>dfs_cmem := m, dfs_heap := h\<rparr>)"
    using normalize_eq [of "''dev''" "[''dev'']" demo_env demo_dfs 4096] by auto
  have ok: "mounts_ok demo_dfs"
    by (auto simp: mounts_ok_def demo_dfs_def root_fs_def no_filesystem_def less_Suc_eq nth_Cons')
  have "\<exists>s1. dfs_mount demo_env zero_fd None ''/dev'' ''devfs'' 0 0 demo_dfs = Some (0, s1)"
    using n by (simp add: dfs_mount_def mount_check_def mount_entry_def find_type_def demo_env_def demo_ops_def Let_def
      demo_dfs_def root_fs_def no_filesystem_def)
  then obtain s1 where r: "dfs_mount demo_env zero_fd None ''/dev'' ''devfs'' 0 0 demo_dfs = Some (0, s1)" by blast
  from mount_reachable [OF ok n r] show ?thesis using r by auto
qed

theorem descriptors_count_users_witness:
  "\<exists>s1. fd_get demo_env 5 demo_dfs = Some (Some 192, s1) \<and> fds_ok s1 \<and> fd_users s1 5 = 3"
proof -
  have ok: "fds_ok demo_dfs"
  proof (rule fds_okI)
    have t: "fd_table demo_dfs = [Some 128, None, Some 192]" by (simp add: demo_dfs_def)
    show "length (fd_table demo_dfs) \<le> 16" using t by simp
    show "i = j" if "i < length (fd_table demo_dfs)" "fd_table demo_dfs ! i = Some a" "j < length (fd_table demo_dfs)"
      "fd_table demo_dfs ! j = Some a" for i j a
      using that unfolding t by (auto simp: less_Suc_eq nth_Cons' split: if_splits)
    show "\<exists>d. fd_store demo_dfs a = Some d \<and> 1 \<le> fd_ref_count d \<and> fd_magic d = 0xfdfd"
      if "i < length (fd_table demo_dfs)" "fd_table demo_dfs ! i = Some a" for i a
      using that unfolding t by (auto simp: less_Suc_eq nth_Cons' demo_dfs_def split: if_splits)
  qed
  have fresh: "fd_fresh demo_env demo_dfs"
    by (simp add: fd_fresh_def fd_grow_def demo_env_def demo_dfs_def Let_def)
  have u: "fd_object demo_dfs 5 = Some 192" "fd_users demo_dfs 5 = 2"
    by (simp_all add: fd_object_def fd_users_def demo_dfs_def)
  from descriptors_count_users [OF ok fresh, of 5] u show ?thesis by auto
qed

end
