(* ===== verification/Memheap.thy ===== *)
theory Memheap
  imports Heap_Mem Kservice
begin

text \<open>
  The memory heap objects of \<^verbatim>\<open>rt-thread/src/memheap.c\<close>: blocks in a doubly linked ring in address order
  that ends with a marker in use, and the free ones in a second doubly linked ring, most recent first,
  that starts at a header inside the heap object.

  Addresses and sizes are natural numbers below \<open>2 ^ 32\<close>, with the wrap-around of sums and differences
  written out. \<open>mh_item\<close> is the header at an address, \<open>mh_bytes\<close> the memory between headers.
  The parts of the calls between taking and releasing the lock are \<open>memheap_first\<close>, \<open>memheap_grow\<close>,
  \<open>memheap_shrink\<close> and \<open>memheap_give\<close>.
\<close>

section \<open>The code\<close>

abbreviation (input) RT_MEMHEAP_MAGIC :: u32 where "RT_MEMHEAP_MAGIC \<equiv> 0x1ea01ea0"
abbreviation (input) RT_MEMHEAP_MASK :: u32 where "RT_MEMHEAP_MASK \<equiv> 0xfffffffe"
abbreviation (input) RT_MEMHEAP_USED :: u32 where "RT_MEMHEAP_USED \<equiv> 1"
abbreviation (input) RT_MEMHEAP_MINIALLOC :: nat where "RT_MEMHEAP_MINIALLOC \<equiv> 12"
abbreviation (input) RT_MEMHEAP_SIZE :: nat where "RT_MEMHEAP_SIZE \<equiv> 24"

record rt_memheap_item =
  mi_magic :: u32
  mi_pool_ptr :: nat
  mi_next :: nat
  mi_prev :: nat
  mi_next_free :: nat
  mi_prev_free :: nat

record rt_memheap =
  mh_addr :: nat
  mh_start_addr :: nat
  mh_pool_size :: nat
  mh_available_size :: nat
  mh_max_used_size :: nat
  mh_block_list :: nat
  mh_free_list :: nat
  mh_item :: "nat \<Rightarrow> rt_memheap_item"
  mh_lock :: rt_semaphore
  mh_bytes :: "nat \<Rightarrow> u8"

abbreviation (input) upd_item :: "nat \<Rightarrow> (rt_memheap_item \<Rightarrow> rt_memheap_item) \<Rightarrow> rt_memheap \<Rightarrow> rt_memheap" where
  "upd_item a f h \<equiv> h\<lparr>mh_item := (mh_item h)(a := f (mh_item h a))\<rparr>"

definition RT_MEMHEAP_IS_USED :: "rt_memheap \<Rightarrow> nat \<Rightarrow> bool" where
  "RT_MEMHEAP_IS_USED h a \<longleftrightarrow> mi_magic (mh_item h a) AND RT_MEMHEAP_USED \<noteq> 0"

definition MEMITEM_SIZE :: "rt_memheap \<Rightarrow> nat \<Rightarrow> nat" where
  "MEMITEM_SIZE h a = sub32 (sub32 (mi_next (mh_item h a)) a) RT_MEMHEAP_SIZE"

text \<open>Linking behind the header of the free ring, and unlinking from it.\<close>

definition free_push :: "nat \<Rightarrow> rt_memheap \<Rightarrow> rt_memheap" where
  "free_push a h =
     (let hd = mh_free_list h;
          h1 = upd_item a (\<lambda>i. i\<lparr>mi_next_free := mi_next_free (mh_item h hd), mi_prev_free := hd\<rparr>) h;
          h2 = upd_item (mi_next_free (mh_item h1 hd)) (\<lambda>i. i\<lparr>mi_prev_free := a\<rparr>) h1
      in upd_item hd (\<lambda>i. i\<lparr>mi_next_free := a\<rparr>) h2)"

definition free_unlink :: "nat \<Rightarrow> rt_memheap \<Rightarrow> rt_memheap" where
  "free_unlink a h =
     (let h1 = upd_item (mi_next_free (mh_item h a)) (\<lambda>i. i\<lparr>mi_prev_free := mi_prev_free (mh_item h a)\<rparr>) h
      in upd_item (mi_prev_free (mh_item h1 a)) (\<lambda>i. i\<lparr>mi_next_free := mi_next_free (mh_item h1 a)\<rparr>) h1)"

definition rt_memheap_init :: "oref \<Rightarrow> nat \<Rightarrow> string \<Rightarrow> nat \<Rightarrow> u32 \<Rightarrow> kern \<times> rt_memheap \<Rightarrow> (rt_err_t \<times> kern \<times> rt_memheap) option" where
  "rt_memheap_init sem_obj free_header name start_addr sz sh = do {
     let (s, h) = sh;
     s1 \<leftarrow> rt_object_init (Obj (mh_addr h)) RT_Object_Class_MemHeap name s;
     let pool = unat (RT_ALIGN_DOWN sz RT_ALIGN_SIZE);
     let avail = sub32 pool (2 * RT_MEMHEAP_SIZE);
     let h1 = h\<lparr>mh_start_addr := start_addr, mh_pool_size := pool, mh_available_size := avail,
                mh_max_used_size := sub32 pool avail\<rparr>;
     let h2 = upd_item free_header (\<lambda>_. \<lparr>mi_magic = RT_MEMHEAP_MAGIC, mi_pool_ptr = mh_addr h, mi_next = 0, mi_prev = 0,
                mi_next_free = free_header, mi_prev_free = free_header\<rparr>) (h1\<lparr>mh_free_list := free_header\<rparr>);
     let e = add32 (add32 start_addr avail) RT_MEMHEAP_SIZE;
     let h3 = upd_item start_addr (\<lambda>_. \<lparr>mi_magic = RT_MEMHEAP_MAGIC, mi_pool_ptr = mh_addr h, mi_next = e, mi_prev = e,
                mi_next_free = start_addr, mi_prev_free = start_addr\<rparr>) (h2\<lparr>mh_block_list := start_addr\<rparr>);
     let h4 = free_push start_addr h3;
     let h5 = upd_item e (\<lambda>_. \<lparr>mi_magic = RT_MEMHEAP_MAGIC OR RT_MEMHEAP_USED, mi_pool_ptr = mh_addr h, mi_next = start_addr,
                mi_prev = start_addr, mi_next_free = 0, mi_prev_free = 0\<rparr>) h4;
     (_, sem, s2) \<leftarrow> rt_sem_init sem_obj name 1 RT_IPC_FLAG_FIFO s1;
     Some (RT_EOK, s2, h5\<lparr>mh_lock := sem\<rparr>) }"

definition rt_memheap_detach :: "kern \<times> rt_memheap \<Rightarrow> (rt_err_t \<times> kern) option" where
  "rt_memheap_detach sh = do {
     let (s, h) = sh;
     RT_ASSERT (rt_object_get_type (Obj (mh_addr h)) s = RT_Object_Class_MemHeap);
     RT_ASSERT (rt_object_is_systemobject (Obj (mh_addr h)) s);
     Some (RT_EOK, rt_object_detach (Obj (mh_addr h)) (rt_object_detach (sem_ref (mh_lock h)) s)) }"

definition memheap_round :: "u32 \<Rightarrow> nat" where
  "memheap_round sz = (if align_up sz < RT_MEMHEAP_MINIALLOC then RT_MEMHEAP_MINIALLOC else align_up sz)"

text \<open>The search of the free ring: the block at which the loop stops, and the size of the last one seen.\<close>

partial_function (option) memheap_search :: "nat \<Rightarrow> nat \<Rightarrow> nat \<Rightarrow> rt_memheap \<Rightarrow> (nat \<times> nat) option" where
  "memheap_search sz a free_size h =
     (if a \<noteq> mh_free_list h \<and> free_size < sz then
        (let free_size = MEMITEM_SIZE h a
         in if free_size < sz then memheap_search sz (mi_next_free (mh_item h a)) free_size h
            else memheap_search sz a free_size h)
      else Some (a, free_size))"

definition memheap_count :: "nat \<Rightarrow> rt_memheap \<Rightarrow> rt_memheap" where
  "memheap_count n h =
     (let av = sub32 (mh_available_size h) n;
          u = sub32 (mh_pool_size h) av
      in h\<lparr>mh_available_size := av, mh_max_used_size := (if u > mh_max_used_size h then u else mh_max_used_size h)\<rparr>)"

text \<open>A new block at \<open>n\<close> behind the block at \<open>a\<close>.\<close>

definition chain_insert :: "nat \<Rightarrow> nat \<Rightarrow> rt_memheap \<Rightarrow> rt_memheap" where
  "chain_insert a n h =
     (let h1 = upd_item n (\<lambda>i. i\<lparr>mi_magic := RT_MEMHEAP_MAGIC, mi_pool_ptr := mh_addr h, mi_prev := a,
                mi_next := mi_next (mh_item h a)\<rparr>) h;
          h2 = upd_item (mi_next (mh_item h1 a)) (\<lambda>i. i\<lparr>mi_prev := n\<rparr>) h1
      in upd_item a (\<lambda>i. i\<lparr>mi_next := n\<rparr>) h2)"

definition memheap_take :: "nat \<Rightarrow> nat \<Rightarrow> nat \<Rightarrow> rt_memheap \<Rightarrow> rt_memheap" where
  "memheap_take sz a free_size h =
     (let h1 = (if free_size \<ge> add32 (add32 sz RT_MEMHEAP_SIZE) RT_MEMHEAP_MINIALLOC
            then (let n = add32 (add32 a sz) RT_MEMHEAP_SIZE;
                      ha = chain_insert a n h;
                      hb = free_unlink a ha;
                      hc = upd_item a (\<lambda>i. i\<lparr>mi_next_free := 0, mi_prev_free := 0\<rparr>) hb;
                      hd = free_push n hc
                  in memheap_count (add32 sz RT_MEMHEAP_SIZE) hd)
            else upd_item a (\<lambda>i. i\<lparr>mi_next_free := 0, mi_prev_free := 0\<rparr>) (free_unlink a (memheap_count free_size h)))
      in upd_item a (\<lambda>i. i\<lparr>mi_magic := mi_magic i OR RT_MEMHEAP_USED\<rparr>) h1)"

definition memheap_first :: "nat \<Rightarrow> rt_memheap \<Rightarrow> (nat option \<times> rt_memheap) option" where
  "memheap_first sz h = do {
     (a, free_size) \<leftarrow> memheap_search sz (mi_next_free (mh_item h (mh_free_list h))) 0 h;
     if free_size \<ge> sz then Some (Some (add32 a RT_MEMHEAP_SIZE), memheap_take sz a free_size h)
     else Some (None, h) }"

definition memheap_alloc :: "u32 \<Rightarrow> rt_memheap \<Rightarrow> (nat option \<times> rt_memheap) option" where
  "memheap_alloc sz h =
     (if memheap_round sz < mh_available_size h then memheap_first (memheap_round sz) h else Some (None, h))"

text \<open>\<open>ptr\<close> is not the null pointer; the heap is the one that the header names.\<close>

definition memheap_check :: "nat \<Rightarrow> rt_memheap \<Rightarrow> unit option" where
  "memheap_check ptr h = do {
     let a = sub32 ptr RT_MEMHEAP_SIZE;
     RT_ASSERT (mi_magic (mh_item h a) AND RT_MEMHEAP_MASK = RT_MEMHEAP_MAGIC);
     RT_ASSERT (RT_MEMHEAP_IS_USED h a);
     RT_ASSERT (mi_magic (mh_item h (mi_next (mh_item h a))) AND RT_MEMHEAP_MASK = RT_MEMHEAP_MAGIC);
     RT_ASSERT (mi_pool_ptr (mh_item h a) = mh_addr h) }"

definition avail_add :: "nat \<Rightarrow> rt_memheap \<Rightarrow> rt_memheap" where
  "avail_add n h = h\<lparr>mh_available_size := add32 (mh_available_size h) n\<rparr>"

text \<open>A block leaves the ring of blocks, and its predecessor takes its place.\<close>

definition chain_remove :: "nat \<Rightarrow> rt_memheap \<Rightarrow> rt_memheap" where
  "chain_remove a h =
     (let h1 = upd_item (mi_prev (mh_item h a)) (\<lambda>i. i\<lparr>mi_next := mi_next (mh_item h a)\<rparr>) h
      in upd_item (mi_next (mh_item h1 a)) (\<lambda>i. i\<lparr>mi_prev := mi_prev (mh_item h1 a)\<rparr>) h1)"

text \<open>The block behind the one at \<open>a\<close> is joined to it.\<close>

definition chain_join :: "nat \<Rightarrow> rt_memheap \<Rightarrow> rt_memheap" where
  "chain_join a h =
     (let n = mi_next (mh_item h a);
          h1 = upd_item (mi_next (mh_item h n)) (\<lambda>i. i\<lparr>mi_prev := a\<rparr>) h
      in upd_item a (\<lambda>i. i\<lparr>mi_next := mi_next (mh_item h1 n)\<rparr>) h1)"

definition memheap_give :: "nat \<Rightarrow> rt_memheap \<Rightarrow> rt_memheap" where
  "memheap_give a h =
     (let h1 = upd_item a (\<lambda>i. i\<lparr>mi_magic := mi_magic i AND NOT RT_MEMHEAP_USED\<rparr>) h;
          h2 = avail_add (MEMITEM_SIZE h1 a) h1;
          p = mi_prev (mh_item h2 a);
          (header, insert_header, h3) =
            (if \<not> RT_MEMHEAP_IS_USED h2 p then (p, False, chain_remove a (avail_add RT_MEMHEAP_SIZE h2))
             else (a, True, h2));
          n = mi_next (mh_item h3 header);
          h4 = (if \<not> RT_MEMHEAP_IS_USED h3 n
                then free_unlink n (chain_join header (avail_add RT_MEMHEAP_SIZE h3)) else h3)
      in if insert_header then free_push header h4 else h4)"

definition memheap_free :: "nat \<Rightarrow> rt_memheap \<Rightarrow> rt_memheap option" where
  "memheap_free ptr h =
     (if ptr = 0 then Some h
      else do { _ \<leftarrow> memheap_check ptr h; Some (memheap_give (sub32 ptr RT_MEMHEAP_SIZE) h) })"

text \<open>The same as \<open>chain_remove\<close>, in the order of \<open>rt_memheap_realloc\<close>.\<close>

definition chain_drop :: "nat \<Rightarrow> rt_memheap \<Rightarrow> rt_memheap" where
  "chain_drop a h =
     (let h1 = upd_item (mi_next (mh_item h a)) (\<lambda>i. i\<lparr>mi_prev := mi_prev (mh_item h a)\<rparr>) h
      in upd_item (mi_prev (mh_item h1 a)) (\<lambda>i. i\<lparr>mi_next := mi_next (mh_item h1 a)\<rparr>) h1)"

text \<open>Growing in place: \<open>None\<close> when the block behind is in use or too small.\<close>

definition memheap_grow :: "nat \<Rightarrow> nat \<Rightarrow> rt_memheap \<Rightarrow> rt_memheap option option" where
  "memheap_grow ptr newsize h = do {
     let a = sub32 ptr RT_MEMHEAP_SIZE;
     let oldsize = MEMITEM_SIZE h a;
     let n = mi_next (mh_item h a);
     RT_ASSERT (n > a);
     if \<not> RT_MEMHEAP_IS_USED h n \<and> add32 (MEMITEM_SIZE h n) oldsize > add32 newsize RT_MEMHEAP_MINIALLOC then do {
       let h1 = memheap_count (sub32 newsize oldsize) h;
       let h2 = free_unlink n h1;
       let h3 = chain_drop n h2;
       let m = add32 ptr newsize;
       Some (Some (free_push m (chain_insert a m h3))) }
     else Some None }"

definition memheap_shrink :: "nat \<Rightarrow> nat \<Rightarrow> rt_memheap \<Rightarrow> rt_memheap" where
  "memheap_shrink a newsize h =
     (let n = add32 (add32 a newsize) RT_MEMHEAP_SIZE;
          h1 = chain_insert a n h;
          f = mi_next (mh_item h1 n);
          h2 = (if \<not> RT_MEMHEAP_IS_USED h1 f then
                  (let ha = h1\<lparr>mh_available_size := sub32 (mh_available_size h1) (MEMITEM_SIZE h1 f)\<rparr>
                   in free_unlink f (chain_join n ha))
                else h1);
          h3 = free_push n h2
      in avail_add (MEMITEM_SIZE h3 n) h3)"

section \<open>The calls with the lock\<close>

text \<open>The result is null with \<open>Parked t\<close> when the thread has to wait for the heap; the definitions with the
  suffix \<open>_wake\<close> are the rest of the call when the thread runs again.\<close>

type_synonym errno = rt_err_t

definition memheap_locked :: "(rt_memheap \<Rightarrow> ('a \<times> rt_memheap) option) \<Rightarrow> kern \<times> rt_memheap \<Rightarrow> ('a \<times> kern \<times> rt_memheap) option" where
  "memheap_locked f sh = do {
     let (s, h) = sh;
     (x, h1) \<leftarrow> f h;
     (_, sem, s1) \<leftarrow> rt_sem_release (mh_lock h1) s;
     Some (x, s1, h1\<lparr>mh_lock := sem\<rparr>) }"

definition rt_memheap_alloc ::
    "u32 \<Rightarrow> (kern \<times> errno) \<times> rt_memheap \<Rightarrow> (kret \<times> nat option \<times> (kern \<times> errno) \<times> rt_memheap) option" where
  "rt_memheap_alloc sz gh = do {
     let ((s, g), h) = gh;
     RT_ASSERT (rt_object_get_type (Obj (mh_addr h)) s = RT_Object_Class_MemHeap);
     let n = memheap_round sz;
     if n < mh_available_size h then do {
       (k, sem, s1) \<leftarrow> rt_sem_take (mh_lock h) RT_WAITING_FOREVER s;
       let h1 = h\<lparr>mh_lock := sem\<rparr>;
       (case k of
          Parked t \<Rightarrow> Some (Parked t, None, (s1, g), h1)
        | Returned e \<Rightarrow>
            if e \<noteq> RT_EOK then Some (Returned e, None, rt_set_errno e (s1, g), h1)
            else do { (p, s2, h2) \<leftarrow> memheap_locked (memheap_first n) (s1, h1); Some (Returned RT_EOK, p, (s2, g), h2) }) }
     else Some (Returned RT_EOK, None, (s, g), h) }"

definition rt_memheap_alloc_wake ::
    "tid \<Rightarrow> u32 \<Rightarrow> (kern \<times> errno) \<times> rt_memheap \<Rightarrow> (kret \<times> nat option \<times> (kern \<times> errno) \<times> rt_memheap) option" where
  "rt_memheap_alloc_wake t sz gh = do {
     let ((s, g), h) = gh;
     let e = rt_sem_take_wake t s;
     if e \<noteq> RT_EOK then Some (Returned e, None, rt_set_errno e (s, g), h)
     else do {
       (p, s2, h2) \<leftarrow> memheap_locked (memheap_first (memheap_round sz)) (s, h);
       Some (Returned RT_EOK, p, (s2, g), h2) } }"

definition rt_memheap_free :: "nat \<Rightarrow> (kern \<times> errno) \<times> rt_memheap \<Rightarrow> (kret \<times> (kern \<times> errno) \<times> rt_memheap) option" where
  "rt_memheap_free ptr gh = do {
     let ((s, g), h) = gh;
     if ptr = 0 then Some (Returned RT_EOK, (s, g), h)
     else do {
       _ \<leftarrow> memheap_check ptr h;
       RT_ASSERT (rt_object_get_type (Obj (mh_addr h)) s = RT_Object_Class_MemHeap);
       (k, sem, s1) \<leftarrow> rt_sem_take (mh_lock h) RT_WAITING_FOREVER s;
       let h1 = h\<lparr>mh_lock := sem\<rparr>;
       (case k of
          Parked t \<Rightarrow> Some (Parked t, (s1, g), h1)
        | Returned e \<Rightarrow>
            if e \<noteq> RT_EOK then Some (Returned e, rt_set_errno e (s1, g), h1)
            else do {
              (_, s2, h2) \<leftarrow> memheap_locked (\<lambda>h. Some ((), memheap_give (sub32 ptr RT_MEMHEAP_SIZE) h)) (s1, h1);
              Some (Returned RT_EOK, (s2, g), h2) }) } }"

definition rt_memheap_free_wake :: "tid \<Rightarrow> nat \<Rightarrow> (kern \<times> errno) \<times> rt_memheap \<Rightarrow> (kret \<times> (kern \<times> errno) \<times> rt_memheap) option" where
  "rt_memheap_free_wake t ptr gh = do {
     let ((s, g), h) = gh;
     let e = rt_sem_take_wake t s;
     if e \<noteq> RT_EOK then Some (Returned e, rt_set_errno e (s, g), h)
     else do {
       (_, s2, h2) \<leftarrow> memheap_locked (\<lambda>h. Some ((), memheap_give (sub32 ptr RT_MEMHEAP_SIZE) h)) (s, h);
       Some (Returned RT_EOK, (s2, g), h2) } }"

definition memheap_copy :: "nat \<Rightarrow> nat \<Rightarrow> nat \<Rightarrow> rt_memheap \<Rightarrow> rt_memheap" where
  "memheap_copy dst src n h = h\<lparr>mh_bytes := (\<lambda>x. if dst \<le> x \<and> x < dst + n then mh_bytes h (src + (x - dst)) else mh_bytes h x)\<rparr>"

text \<open>What \<open>rt_memheap_realloc\<close> does under the lock: the block as it stays, or the move that follows once
  the lock is released.\<close>

definition realloc_under_lock :: "nat \<Rightarrow> nat \<Rightarrow> rt_memheap \<Rightarrow> (bool \<times> rt_memheap) option" where
  "realloc_under_lock ptr newsize h = do {
     let a = sub32 ptr RT_MEMHEAP_SIZE;
     if newsize > MEMITEM_SIZE h a then do {
       r \<leftarrow> memheap_grow ptr newsize h;
       Some (case r of None \<Rightarrow> (True, h) | Some h1 \<Rightarrow> (False, h1)) }
     else Some (False, memheap_shrink a newsize h) }"

definition memheap_move ::
    "nat \<Rightarrow> nat \<Rightarrow> nat \<Rightarrow> (kern \<times> errno) \<times> rt_memheap \<Rightarrow> (kret \<times> nat option \<times> (kern \<times> errno) \<times> rt_memheap) option" where
  "memheap_move ptr oldsize newsize gh = do {
     (k, p, g1, h1) \<leftarrow> rt_memheap_alloc (of_nat newsize) gh;
     (case (k, p) of
        (Returned e, Some a) \<Rightarrow> do {
          (k2, g2, h2) \<leftarrow> rt_memheap_free ptr (g1, memheap_copy a ptr (min oldsize newsize) h1);
          Some (k2, Some a, g2, h2) }
      | _ \<Rightarrow> Some (k, p, g1, h1)) }"

definition rt_memheap_realloc ::
    "nat \<Rightarrow> u32 \<Rightarrow> (kern \<times> errno) \<times> rt_memheap \<Rightarrow> (kret \<times> nat option \<times> (kern \<times> errno) \<times> rt_memheap) option" where
  "rt_memheap_realloc ptr sz gh = do {
     let ((s, g), h) = gh;
     RT_ASSERT (rt_object_get_type (Obj (mh_addr h)) s = RT_Object_Class_MemHeap);
     if sz = 0 then do { (k, g1, h1) \<leftarrow> rt_memheap_free ptr gh; Some (k, None, g1, h1) }
     else if ptr = 0 then rt_memheap_alloc (of_nat (memheap_round sz)) gh
     else do {
       let n = memheap_round sz;
       let oldsize = MEMITEM_SIZE h (sub32 ptr RT_MEMHEAP_SIZE);
       if n \<le> oldsize \<and> add32 (add32 n RT_MEMHEAP_SIZE) RT_MEMHEAP_MINIALLOC \<ge> oldsize
       then Some (Returned RT_EOK, Some ptr, gh)
       else do {
         (k, sem, s1) \<leftarrow> rt_sem_take (mh_lock h) RT_WAITING_FOREVER s;
         let h1 = h\<lparr>mh_lock := sem\<rparr>;
         (case k of
            Parked t \<Rightarrow> Some (Parked t, None, (s1, g), h1)
          | Returned e \<Rightarrow>
              if e \<noteq> RT_EOK then Some (Returned e, None, rt_set_errno e (s1, g), h1)
              else do {
                (move, s2, h2) \<leftarrow> memheap_locked (realloc_under_lock ptr n) (s1, h1);
                if move then memheap_move ptr oldsize n ((s2, g), h2)
                else Some (Returned RT_EOK, Some ptr, (s2, g), h2) }) } } }"

definition rt_memheap_realloc_wake ::
    "tid \<Rightarrow> nat \<Rightarrow> u32 \<Rightarrow> (kern \<times> errno) \<times> rt_memheap \<Rightarrow> (kret \<times> nat option \<times> (kern \<times> errno) \<times> rt_memheap) option" where
  "rt_memheap_realloc_wake t ptr sz gh = do {
     let ((s, g), h) = gh;
     let e = rt_sem_take_wake t s;
     if e \<noteq> RT_EOK then Some (Returned e, None, rt_set_errno e (s, g), h)
     else do {
       let n = memheap_round sz;
       let oldsize = MEMITEM_SIZE h (sub32 ptr RT_MEMHEAP_SIZE);
       (move, s2, h2) \<leftarrow> memheap_locked (realloc_under_lock ptr n) (s, h);
       if move then memheap_move ptr oldsize n ((s2, g), h2)
       else Some (Returned RT_EOK, Some ptr, (s2, g), h2) } }"

end
