(* ===== verification/Memheap_Inv.thy ===== *)
theory Memheap_Inv
  imports Memheap
begin

text \<open>
  The invariant of a memory heap object: the blocks and the free blocks as the lists that the two rings
  represent (\<open>mh_inv\<close>), what allocation, release and reallocation in place do to it, and the heap as a
  provider of the allocator interface.
\<close>

section \<open>The two rings\<close>

text \<open>The views of the headers as doubly linked lists.\<close>

definition chain :: "rt_memheap \<Rightarrow> nat list_heap" where
  "chain h = \<lparr>lnext = (\<lambda>a. mi_next (mh_item h a)), lprev = (\<lambda>a. mi_prev (mh_item h a))\<rparr>"

definition ring :: "rt_memheap \<Rightarrow> nat list_heap" where
  "ring h = \<lparr>lnext = (\<lambda>a. mi_next_free (mh_item h a)), lprev = (\<lambda>a. mi_prev_free (mh_item h a))\<rparr>"

abbreviation (input) nextb :: "rt_memheap \<Rightarrow> nat \<Rightarrow> nat" where "nextb h a \<equiv> mi_next (mh_item h a)"
abbreviation (input) used :: "rt_memheap \<Rightarrow> nat \<Rightarrow> bool" where "used \<equiv> RT_MEMHEAP_IS_USED"

definition bsize :: "rt_memheap \<Rightarrow> nat \<Rightarrow> nat" where
  "bsize h a = nextb h a - a - 24"

lemma free_push_frame [simp]:
  "mh_addr (free_push a h) = mh_addr h" "mh_start_addr (free_push a h) = mh_start_addr h"
  "mh_pool_size (free_push a h) = mh_pool_size h" "mh_available_size (free_push a h) = mh_available_size h"
  "mh_max_used_size (free_push a h) = mh_max_used_size h" "mh_free_list (free_push a h) = mh_free_list h"
  "mh_lock (free_push a h) = mh_lock h" "mh_bytes (free_push a h) = mh_bytes h"
  "mi_magic (mh_item (free_push a h) x) = mi_magic (mh_item h x)"
  "mi_pool_ptr (mh_item (free_push a h) x) = mi_pool_ptr (mh_item h x)"
  "mi_next (mh_item (free_push a h) x) = mi_next (mh_item h x)"
  "mi_prev (mh_item (free_push a h) x) = mi_prev (mh_item h x)"
  by (simp_all add: free_push_def Let_def)

lemma free_unlink_frame [simp]:
  "mh_addr (free_unlink a h) = mh_addr h" "mh_start_addr (free_unlink a h) = mh_start_addr h"
  "mh_pool_size (free_unlink a h) = mh_pool_size h" "mh_available_size (free_unlink a h) = mh_available_size h"
  "mh_max_used_size (free_unlink a h) = mh_max_used_size h" "mh_free_list (free_unlink a h) = mh_free_list h"
  "mh_lock (free_unlink a h) = mh_lock h" "mh_bytes (free_unlink a h) = mh_bytes h"
  "mi_magic (mh_item (free_unlink a h) x) = mi_magic (mh_item h x)"
  "mi_pool_ptr (mh_item (free_unlink a h) x) = mi_pool_ptr (mh_item h x)"
  "mi_next (mh_item (free_unlink a h) x) = mi_next (mh_item h x)"
  "mi_prev (mh_item (free_unlink a h) x) = mi_prev (mh_item h x)"
  by (simp_all add: free_unlink_def Let_def)

lemma chain_insert_frame [simp]:
  "mh_addr (chain_insert a n h) = mh_addr h" "mh_start_addr (chain_insert a n h) = mh_start_addr h"
  "mh_pool_size (chain_insert a n h) = mh_pool_size h" "mh_available_size (chain_insert a n h) = mh_available_size h"
  "mh_max_used_size (chain_insert a n h) = mh_max_used_size h" "mh_free_list (chain_insert a n h) = mh_free_list h"
  "mh_lock (chain_insert a n h) = mh_lock h" "mh_bytes (chain_insert a n h) = mh_bytes h"
  "mi_magic (mh_item (chain_insert a n h) x) = (if x = n then RT_MEMHEAP_MAGIC else mi_magic (mh_item h x))"
  "mi_pool_ptr (mh_item (chain_insert a n h) x) = (if x = n then mh_addr h else mi_pool_ptr (mh_item h x))"
  "mi_next_free (mh_item (chain_insert a n h) x) = mi_next_free (mh_item h x)"
  "mi_prev_free (mh_item (chain_insert a n h) x) = mi_prev_free (mh_item h x)"
  by (simp_all add: chain_insert_def Let_def)

lemma chain_remove_frame [simp]:
  "mh_addr (chain_remove a h) = mh_addr h" "mh_start_addr (chain_remove a h) = mh_start_addr h"
  "mh_pool_size (chain_remove a h) = mh_pool_size h" "mh_available_size (chain_remove a h) = mh_available_size h"
  "mh_max_used_size (chain_remove a h) = mh_max_used_size h" "mh_free_list (chain_remove a h) = mh_free_list h"
  "mh_lock (chain_remove a h) = mh_lock h" "mh_bytes (chain_remove a h) = mh_bytes h"
  "mi_magic (mh_item (chain_remove a h) x) = mi_magic (mh_item h x)"
  "mi_pool_ptr (mh_item (chain_remove a h) x) = mi_pool_ptr (mh_item h x)"
  "mi_next_free (mh_item (chain_remove a h) x) = mi_next_free (mh_item h x)"
  "mi_prev_free (mh_item (chain_remove a h) x) = mi_prev_free (mh_item h x)"
  by (simp_all add: chain_remove_def Let_def)

lemma frame_views [simp]:
  "chain (free_push a h) = chain h" "chain (free_unlink a h) = chain h"
  "ring (chain_insert a n h) = ring h" "ring (chain_remove a h) = ring h"
  "used (free_push a h) = used h" "used (free_unlink a h) = used h" "used (chain_remove a h) = used h"
  by (simp_all add: chain_def ring_def RT_MEMHEAP_IS_USED_def fun_eq_iff)

lemma ring_push_view: "a \<noteq> mh_free_list h \<Longrightarrow> a \<noteq> mi_next_free (mh_item h (mh_free_list h)) \<Longrightarrow> ring (free_push a h) = rt_list_insert_after (mh_free_list h) a (ring h)"
  by (auto simp: ring_def free_push_def rt_list_insert_after_def set_next_def set_prev_def Let_def fun_eq_iff)

lemma ring_unlink:
  assumes "cyc (ring h) l (ys @ a # zs)"
  shows "cyc (ring (free_unlink a h)) l (ys @ zs)"
proof -
  have c: "cyc (ring h) a (zs @ l # ys)" using assms by (rule cyc_rotate [THEN iffD1])
  have "lnext (ring h) a \<in> set (zs @ [l])" using cyc_next [OF c] by (cases zs) auto
  moreover have "lprev (ring h) a \<in> set (l # ys)" using cyc_prev [OF c] last_in_set [of "l # ys"] by simp
  ultimately have ne: "mi_next_free (mh_item h a) \<noteq> a" "mi_prev_free (mh_item h a) \<noteq> a"
    using c by (auto simp: cyc_def ring_def)
  have v: "lnext (ring (free_unlink a h)) x = lnext (rt_list_remove a (ring h)) x \<and>
      lprev (ring (free_unlink a h)) x = lprev (rt_list_remove a (ring h)) x" if "x \<noteq> a" for x
    using ne that by (auto simp: ring_def free_unlink_def rt_list_remove_def set_next_def set_prev_def Let_def)
  show ?thesis
  proof (rule cyc_frame [OF remove_cyc(1) [OF assms]])
    fix x assume "x \<in> set (l # ys @ zs)"
    then have "x \<noteq> a" using assms by (auto simp: cyc_def)
    then show "lnext (ring (free_unlink a h)) x = lnext (rt_list_remove a (ring h)) x \<and>
      lprev (ring (free_unlink a h)) x = lprev (rt_list_remove a (ring h)) x" by (rule v)
  qed
qed

lemma cyc_insert_middle:
  assumes "cyc h l (ys @ m # zs)" "n \<notin> set (l # ys @ m # zs)"
  shows "cyc (rt_list_insert_after m n h) l (ys @ m # n # zs)"
proof -
  have "cyc h m (zs @ l # ys)" using assms(1) by (rule cyc_rotate [THEN iffD1])
  then have "cyc (rt_list_insert_after m n h) m (n # zs @ l # ys)"
    by (rule insert_after_cyc) (use assms(2) in auto)
  then show ?thesis using cyc_rotate [of _ l ys m "n # zs"] by simp
qed

lemma chain_insert_view:
  "a \<noteq> n \<Longrightarrow> nextb h a \<noteq> n \<Longrightarrow> chain (chain_insert a n h) = rt_list_insert_after a n (chain h)"
  by (auto simp: chain_def chain_insert_def rt_list_insert_after_def set_next_def set_prev_def Let_def fun_eq_iff)

lemma chain_remove_view:
  assumes "nextb h a \<noteq> a" "mi_prev (mh_item h a) \<noteq> a"
  shows "mi_next (mh_item (chain_remove a h) x) = (if x = mi_prev (mh_item h a) then nextb h a else nextb h x)"
    "x \<noteq> a \<Longrightarrow> lnext (chain (chain_remove a h)) x = lnext (rt_list_remove a (chain h)) x \<and>
      lprev (chain (chain_remove a h)) x = lprev (rt_list_remove a (chain h)) x"
  using assms by (auto simp: chain_def chain_remove_def rt_list_remove_def set_next_def set_prev_def Let_def)

lemma chain_join_eq:
  assumes "mi_prev (mh_item h (nextb h a)) = a" "nextb h (nextb h a) \<noteq> a" "nextb h a \<noteq> a" "nextb h (nextb h a) \<noteq> nextb h a"
  shows "chain_join a h = chain_remove (nextb h a) h"
  using assms by (simp add: chain_join_def chain_remove_def Let_def fun_upd_twist)

lemma cyc_next_in: "cyc h l xs \<Longrightarrow> x \<in> set (l # xs) \<Longrightarrow> lnext h x \<in> set (l # xs)"
proof -
  assume c: "cyc h l xs" and x: "x \<in> set (l # xs)"
  show "lnext h x \<in> set (l # xs)"
  proof (cases "x = l")
    case True
    then show ?thesis using cyc_next [OF c] by (cases xs) auto
  next
    case False
    then obtain ys zs where "xs = ys @ x # zs" using x by (auto dest: split_list)
    then have "cyc h x (zs @ l # ys)" using c cyc_rotate [of h l ys x zs] by simp
    then show ?thesis using cyc_next [of h x "zs @ l # ys"] \<open>xs = ys @ x # zs\<close> by (cases zs) auto
  qed
qed

lemma ring_push:
  assumes "cyc (ring h) (mh_free_list h) fs" "a \<notin> set (mh_free_list h # fs)"
  shows "cyc (ring (free_push a h)) (mh_free_list h) (a # fs)"
proof -
  have "mi_next_free (mh_item h (mh_free_list h)) \<noteq> a"
    using cyc_next_in [OF assms(1), of "mh_free_list h"] assms(2) by (auto simp: ring_def)
  then have "ring (free_push a h) = rt_list_insert_after (mh_free_list h) a (ring h)"
    using assms(2) by (intro ring_push_view) auto
  then show ?thesis using insert_after_cyc [OF assms] by simp
qed

section \<open>The invariant\<close>

text \<open>A list of at least one block in address order, the last one a marker in use; every block has room
  for the smallest allocation. The header of the free ring lies outside of the memory of the heap.\<close>

definition chain_ok :: "rt_memheap \<Rightarrow> nat list \<Rightarrow> bool" where
  "chain_ok h bs \<longleftrightarrow> bs \<noteq> [] \<and> cyc (chain h) (hd bs) (tl bs) \<and> hd bs = mh_start_addr h \<and>
     last bs = mh_start_addr h + mh_pool_size h - 24 \<and> 24 \<le> mh_pool_size h \<and>
     sorted_wrt (\<lambda>b c. b + 36 \<le> c) bs \<and> used h (last bs) \<and>
     (\<forall>b\<in>set bs. mi_magic (mh_item h b) AND RT_MEMHEAP_MASK = RT_MEMHEAP_MAGIC \<and>
        mi_pool_ptr (mh_item h b) = mh_addr h \<and> 4 dvd b) \<and>
     mh_start_addr h + mh_pool_size h < 2 ^ 32 \<and>
     (mh_free_list h < mh_start_addr h \<or> mh_start_addr h + mh_pool_size h \<le> mh_free_list h)"

lemma chain_okD:
  assumes "chain_ok h bs"
  shows "bs \<noteq> []" "cyc (chain h) (hd bs) (tl bs)" "hd bs = mh_start_addr h"
    "last bs = mh_start_addr h + mh_pool_size h - 24" "24 \<le> mh_pool_size h"
    "sorted_wrt (\<lambda>b c. b + 36 \<le> c) bs" "used h (last bs)"
    "\<forall>b\<in>set bs. mi_magic (mh_item h b) AND RT_MEMHEAP_MASK = RT_MEMHEAP_MAGIC \<and>
        mi_pool_ptr (mh_item h b) = mh_addr h \<and> 4 dvd b"
    "mh_start_addr h + mh_pool_size h < 2 ^ 32"
    "mh_free_list h < mh_start_addr h \<or> mh_start_addr h + mh_pool_size h \<le> mh_free_list h"
  using assms unfolding chain_ok_def by blast+

lemma chain_ok_cong:
  assumes "chain_ok h bs" "chain h' = chain h" "mh_start_addr h' = mh_start_addr h" "mh_pool_size h' = mh_pool_size h"
    "mh_addr h' = mh_addr h" "mh_free_list h' = mh_free_list h"
    "\<And>b. mi_magic (mh_item h' b) AND RT_MEMHEAP_MASK = mi_magic (mh_item h b) AND RT_MEMHEAP_MASK"
    "\<And>b. mi_pool_ptr (mh_item h' b) = mi_pool_ptr (mh_item h b)" "used h (last bs) \<Longrightarrow> used h' (last bs)"
  shows "chain_ok h' bs"
  using assms(1,9) unfolding chain_ok_def assms(2-8) by blast

lemma spaced_distinct: "sorted_wrt (\<lambda>b c. b + 36 \<le> c) bs \<Longrightarrow> distinct (bs :: nat list)"
  by (induction bs) auto

lemma spaced_last: "sorted_wrt (\<lambda>b c. b + 36 \<le> c) bs \<Longrightarrow> b \<in> set bs \<Longrightarrow> b \<noteq> last bs \<Longrightarrow> b + 36 \<le> (last bs :: nat)"
proof -
  assume s: "sorted_wrt (\<lambda>b c. b + 36 \<le> c) bs" and b: "b \<in> set bs" "b \<noteq> last bs"
  then have "bs \<noteq> []" by auto
  then have e: "bs = butlast bs @ [last bs]" by simp
  then have "b \<in> set (butlast bs)" using b by (metis Un_iff empty_iff empty_set set_ConsD set_append)
  moreover have "sorted_wrt (\<lambda>b c. b + 36 \<le> c) (butlast bs @ [last bs])" using s e by simp
  ultimately show "b + 36 \<le> last bs" by (auto simp: sorted_wrt_append)
qed

lemma chain_bounds:
  assumes "chain_ok h bs" "b \<in> set bs"
  shows "mh_start_addr h \<le> b" "b + 24 \<le> mh_start_addr h + mh_pool_size h" "b + 24 < 2 ^ 32" "b \<noteq> mh_free_list h"
proof -
  note d = chain_okD [OF assms(1)]
  show s: "mh_start_addr h \<le> b" using d(1,3,6) assms(2) by (cases bs) auto
  show e: "b + 24 \<le> mh_start_addr h + mh_pool_size h"
    using spaced_last [OF d(6) assms(2)] d(4,5) by (cases "b = last bs") auto
  show "b + 24 < 2 ^ 32" using e d(9) by linarith
  show "b \<noteq> mh_free_list h" using s e d(10) by linarith
qed

text \<open>The block behind a block.\<close>

lemma chain_next:
  assumes "chain_ok h (xs @ a # c # ys)"
  shows "nextb h a = c" "mi_prev (mh_item h c) = a" "a + 36 \<le> c" "MEMITEM_SIZE h a = c - a - 24"
proof -
  note d = chain_okD [OF assms]
  have "linked (chain h) ((xs @ a # c # ys) @ [hd (xs @ a # c # ys)])"
    using d(2) by (cases xs) (auto simp: cyc_def)
  then have "linked (chain h) (xs @ a # c # ys @ [hd (xs @ a # c # ys)])" by simp
  then have "linked (chain h) (a # c # ys @ [hd (xs @ a # c # ys)])"
    by (subst (asm) linked_append) simp
  then show n: "nextb h a = c" "mi_prev (mh_item h c) = a" by (simp_all add: chain_def)
  show l: "a + 36 \<le> c" using d(6) by (simp add: sorted_wrt_append)
  have "c + 24 < 2 ^ 32" using chain_bounds(3) [OF assms, of c] by simp
  then show "MEMITEM_SIZE h a = c - a - 24" using n l by (simp add: MEMITEM_SIZE_def)
qed

lemma chain_split:
  assumes "chain_ok h bs" "a \<in> set bs" "a \<noteq> last bs"
  obtains xs c ys where "bs = xs @ a # c # ys"
proof -
  obtain xs zs where b: "bs = xs @ a # zs" using assms(2) by (auto dest: split_list)
  then have "zs \<noteq> []" using assms(3) by auto
  then show ?thesis using b that by (cases zs) auto
qed

lemma hd_tl_middle: "hd (xs @ a # ys) # tl (xs @ a # ys) = xs @ a # ys" "hd (xs @ a # n # ys) = hd (xs @ a # ys)"
  "hd (xs @ a # n # c # ys) = hd (xs @ a # c # ys)"
  by (cases xs; simp)+

lemma cyc_middle: "cyc h (hd (xs @ a # ys)) (tl (xs @ a # ys)) \<longleftrightarrow> cyc h a (ys @ xs)"
proof (cases xs)
  case (Cons x us)
  then show ?thesis using cyc_rotate [of h x us a ys] by simp
qed simp

lemma chain_insert_ok:
  assumes "chain_ok h (xs @ a # c # ys)" "a + 36 \<le> n" "n + 36 \<le> c" "4 dvd n"
  shows "chain_ok (chain_insert a n h) (xs @ a # n # c # ys)"
    "nextb (chain_insert a n h) x = (if x = n then c else if x = a then n else nextb h x)"
    "used (chain_insert a n h) x \<longleftrightarrow> x \<noteq> n \<and> used h x"
proof -
  note d = chain_okD [OF assms(1)]
  have n: "n \<notin> set (xs @ a # c # ys)" using d(6) assms(2,3) by (fastforce simp: sorted_wrt_append)
  have an: "a \<noteq> n" "nextb h a = c" "c \<noteq> n" using n chain_next(1) [OF assms(1)] by auto
  have v: "chain (chain_insert a n h) = rt_list_insert_after a n (chain h)"
    by (rule chain_insert_view) (use an in auto)
  have "cyc (chain h) a ((c # ys) @ xs)" using d(2) by (simp only: cyc_middle)
  then have "cyc (rt_list_insert_after a n (chain h)) a (n # (c # ys) @ xs)"
    by (rule insert_after_cyc) (use n in auto)
  then have cy: "cyc (chain (chain_insert a n h)) (hd (xs @ a # n # c # ys)) (tl (xs @ a # n # c # ys))"
    using cyc_middle [of _ xs a "n # c # ys"] by (simp add: v)
  have s: "sorted_wrt (\<lambda>b c. b + 36 \<le> c) (xs @ a # n # c # ys)"
    using d(6) assms(2,3) by (fastforce simp: sorted_wrt_append)
  have l: "last (xs @ a # n # c # ys) = last (xs @ a # c # ys)" by simp
  have nl: "last (xs @ a # c # ys) \<noteq> n" using n last_in_set [of "xs @ a # c # ys"] by auto
  show u: "used (chain_insert a n h) x \<longleftrightarrow> x \<noteq> n \<and> used h x" for x by (simp add: RT_MEMHEAP_IS_USED_def)
  have "\<forall>b\<in>set (xs @ a # n # c # ys). mi_magic (mh_item (chain_insert a n h) b) AND RT_MEMHEAP_MASK = RT_MEMHEAP_MAGIC \<and>
        mi_pool_ptr (mh_item (chain_insert a n h) b) = mh_addr h \<and> 4 dvd b"
    using d(8) assms(4) by auto
  then show "chain_ok (chain_insert a n h) (xs @ a # n # c # ys)"
    unfolding chain_ok_def hd_tl_middle(3) l u using d(3-5,7,9,10) cy s nl
    by (simp only: hd_tl_middle(3) chain_insert_frame) simp
  show "nextb (chain_insert a n h) x = (if x = n then c else if x = a then n else nextb h x)"
    using an by (auto simp: chain_insert_def Let_def)
qed

lemma chain_remove_ok:
  assumes "chain_ok h (xs @ p # a # c # ys)"
  shows "chain_ok (chain_remove a h) (xs @ p # c # ys)"
    "nextb (chain_remove a h) x = (if x = p then c else nextb h x)"
    "chain_join p h = chain_remove a h"
proof -
  note d = chain_okD [OF assms]
  have ac: "chain_ok h ((xs @ [p]) @ a # c # ys)" using assms by simp
  note n1 = chain_next [OF assms] and n2 = chain_next [OF ac]
  have w: "nextb h a \<noteq> a" "mi_prev (mh_item h a) \<noteq> a" using n1 n2 by auto
  show nx: "nextb (chain_remove a h) x = (if x = p then c else nextb h x)"
    using chain_remove_view(1) [OF w, of x] n1 n2 by simp
  show "chain_join p h = chain_remove a h" using chain_join_eq [of h p] n1 n2 by simp
  have "cyc (chain h) p ((a # c # ys) @ xs)" using d(2) by (simp only: cyc_middle)
  then have "cyc (rt_list_remove a (chain h)) p ((c # ys) @ xs)"
    using remove_cyc(1) [of "chain h" p "[]" a "(c # ys) @ xs"] by simp
  then have "cyc (chain (chain_remove a h)) p ((c # ys) @ xs)"
  proof (rule cyc_frame)
    fix x assume "x \<in> set (p # (c # ys) @ xs)"
    then have "x \<noteq> a" using spaced_distinct [OF d(6)] by auto
    then show "lnext (chain (chain_remove a h)) x = lnext (rt_list_remove a (chain h)) x \<and>
      lprev (chain (chain_remove a h)) x = lprev (rt_list_remove a (chain h)) x"
      by (rule chain_remove_view(2) [OF w])
  qed
  then have cy: "cyc (chain (chain_remove a h)) (hd (xs @ p # c # ys)) (tl (xs @ p # c # ys))"
    by (simp only: cyc_middle)
  have s: "sorted_wrt (\<lambda>b c. b + 36 \<le> c) (xs @ p # c # ys)" using d(6) by (auto simp: sorted_wrt_append)
  have l: "last (xs @ p # c # ys) = last (xs @ p # a # c # ys)" "hd (xs @ p # c # ys) = hd (xs @ p # a # c # ys)"
    by (cases xs; simp)+
  have "\<forall>b\<in>set (xs @ p # c # ys). mi_magic (mh_item (chain_remove a h) b) AND RT_MEMHEAP_MASK = RT_MEMHEAP_MAGIC \<and>
        mi_pool_ptr (mh_item (chain_remove a h) b) = mh_addr h \<and> 4 dvd b"
    using d(8) by auto
  then show "chain_ok (chain_remove a h) (xs @ p # c # ys)"
    unfolding chain_ok_def frame_views l using d(3-5,7,9,10) cy s unfolding l by (simp only: chain_remove_frame) simp
qed

text \<open>The free blocks are the ring, no two of them are neighbours, and their sizes add up to the
  available size.\<close>

definition mh_inv :: "rt_memheap \<Rightarrow> nat list \<Rightarrow> nat list \<Rightarrow> bool" where
  "mh_inv h bs fs \<longleftrightarrow> chain_ok h bs \<and> cyc (ring h) (mh_free_list h) fs \<and>
     set fs = {b \<in> set bs. \<not> used h b} \<and> successively (\<lambda>b c. used h b \<or> used h c) bs \<and>
     mh_available_size h = (\<Sum>b\<in>set fs. bsize h b)"

definition mh_live :: "rt_memheap \<Rightarrow> nat list \<Rightarrow> (nat \<times> nat) set" where
  "mh_live h bs = (\<lambda>b. (b + 24, bsize h b)) ` {b \<in> set bs. used h b \<and> b \<noteq> last bs}"

section \<open>Allocation\<close>

lemma memheap_search_linked:
  assumes "linked (ring h) (vs @ [mh_free_list h])" "mh_free_list h \<notin> set vs" "f < sz"
  shows "memheap_search sz (hd (vs @ [mh_free_list h])) f h =
    (case List.find (\<lambda>b. sz \<le> MEMITEM_SIZE h b) vs of
       Some b \<Rightarrow> Some (b, MEMITEM_SIZE h b) | None \<Rightarrow> Some (mh_free_list h, last (f # map (MEMITEM_SIZE h) vs)))"
  using assms
proof (induction vs arbitrary: f)
  case Nil
  then show ?case by (simp add: memheap_search.simps)
next
  case (Cons a vs)
  have n: "mi_next_free (mh_item h a) = hd (vs @ [mh_free_list h])"
    using Cons.prems(1) by (cases vs) (auto simp: ring_def)
  have l: "linked (ring h) (vs @ [mh_free_list h])" using linked_tail [of "ring h" a] Cons.prems(1) by simp
  show ?case
  proof (cases "sz \<le> MEMITEM_SIZE h a")
    case True
    then show ?thesis using Cons.prems(2,3)
      by (simp add: memheap_search.simps [of sz a f] memheap_search.simps [of sz a "MEMITEM_SIZE h a"] Let_def)
  next
    case False
    have "memheap_search sz a f h = memheap_search sz (hd (vs @ [mh_free_list h])) (MEMITEM_SIZE h a) h"
      using Cons.prems(2,3) False n by (subst memheap_search.simps) (simp add: Let_def)
    then show ?thesis using Cons.IH [OF l, of "MEMITEM_SIZE h a"] Cons.prems(2) False by (simp split: option.split)
  qed
qed

lemma memheap_search_ok:
  assumes "cyc (ring h) (mh_free_list h) fs" "0 < sz"
  shows "memheap_search sz (mi_next_free (mh_item h (mh_free_list h))) 0 h =
    (case List.find (\<lambda>b. sz \<le> MEMITEM_SIZE h b) fs of
       Some b \<Rightarrow> Some (b, MEMITEM_SIZE h b) | None \<Rightarrow> Some (mh_free_list h, last (0 # map (MEMITEM_SIZE h) fs)))"
proof -
  have "mi_next_free (mh_item h (mh_free_list h)) = hd (fs @ [mh_free_list h])"
    using cyc_next [OF assms(1)] by (simp add: ring_def)
  moreover have "linked (ring h) (fs @ [mh_free_list h])" "mh_free_list h \<notin> set fs"
    using assms(1) linked_tail [of "ring h" "mh_free_list h" "fs @ [mh_free_list h]"] by (auto simp: cyc_def)
  ultimately show ?thesis using memheap_search_linked [of h fs 0 sz] assms(2) by simp
qed

text \<open>The frame of the counter and of single fields.\<close>

lemma memheap_count_frame [simp]:
  "mh_addr (memheap_count n h) = mh_addr h" "mh_start_addr (memheap_count n h) = mh_start_addr h"
  "mh_pool_size (memheap_count n h) = mh_pool_size h" "mh_available_size (memheap_count n h) = sub32 (mh_available_size h) n"
  "mh_free_list (memheap_count n h) = mh_free_list h" "mh_item (memheap_count n h) = mh_item h"
  "mh_lock (memheap_count n h) = mh_lock h" "mh_bytes (memheap_count n h) = mh_bytes h"
  by (simp_all add: memheap_count_def Let_def)

lemma avail_add_frame [simp]:
  "mh_addr (avail_add n h) = mh_addr h" "mh_start_addr (avail_add n h) = mh_start_addr h"
  "mh_pool_size (avail_add n h) = mh_pool_size h" "mh_available_size (avail_add n h) = add32 (mh_available_size h) n"
  "mh_free_list (avail_add n h) = mh_free_list h" "mh_item (avail_add n h) = mh_item h"
  "mh_lock (avail_add n h) = mh_lock h" "mh_bytes (avail_add n h) = mh_bytes h"
  by (simp_all add: avail_add_def)

lemma count_views [simp]:
  "chain (memheap_count n h) = chain h" "ring (memheap_count n h) = ring h" "used (memheap_count n h) = used h"
  "bsize (memheap_count n h) = bsize h" "chain (avail_add n h) = chain h" "ring (avail_add n h) = ring h"
  "used (avail_add n h) = used h" "bsize (avail_add n h) = bsize h"
  by (simp_all add: chain_def ring_def RT_MEMHEAP_IS_USED_def bsize_def fun_eq_iff)

text \<open>A block is taken: its links in the free ring are cleared, and it is marked.\<close>

definition mark_used :: "nat \<Rightarrow> rt_memheap \<Rightarrow> rt_memheap" where
  "mark_used a h = upd_item a (\<lambda>i. i\<lparr>mi_magic := mi_magic i OR RT_MEMHEAP_USED\<rparr>) h"

definition null_links :: "nat \<Rightarrow> rt_memheap \<Rightarrow> rt_memheap" where
  "null_links a h = upd_item a (\<lambda>i. i\<lparr>mi_next_free := 0, mi_prev_free := 0\<rparr>) h"

lemma mark_used_frame [simp]:
  "mh_addr (mark_used a h) = mh_addr h" "mh_start_addr (mark_used a h) = mh_start_addr h"
  "mh_pool_size (mark_used a h) = mh_pool_size h" "mh_available_size (mark_used a h) = mh_available_size h"
  "mh_free_list (mark_used a h) = mh_free_list h"
  "mh_lock (mark_used a h) = mh_lock h" "mh_bytes (mark_used a h) = mh_bytes h"
  "chain (mark_used a h) = chain h" "ring (mark_used a h) = ring h" "nextb (mark_used a h) x = nextb h x"
  "used (mark_used a h) x \<longleftrightarrow> x = a \<or> used h x"
proof -
  have "(w OR 1) AND 1 \<noteq> (0 :: u32)" for w by (simp add: bit.conj_disj_distrib2)
  then show "used (mark_used a h) x \<longleftrightarrow> x = a \<or> used h x" by (simp add: mark_used_def RT_MEMHEAP_IS_USED_def)
qed (auto simp: mark_used_def chain_def ring_def)

lemma null_links_frame [simp]:
  "mh_addr (null_links a h) = mh_addr h" "mh_start_addr (null_links a h) = mh_start_addr h"
  "mh_pool_size (null_links a h) = mh_pool_size h" "mh_available_size (null_links a h) = mh_available_size h"
  "mh_free_list (null_links a h) = mh_free_list h"
  "mh_lock (null_links a h) = mh_lock h" "mh_bytes (null_links a h) = mh_bytes h"
  "chain (null_links a h) = chain h" "nextb (null_links a h) x = nextb h x" "used (null_links a h) = used h"
  "mi_magic (mh_item (null_links a h) x) = mi_magic (mh_item h x)"
  "mi_pool_ptr (mh_item (null_links a h) x) = mi_pool_ptr (mh_item h x)"
  by (auto simp: null_links_def chain_def RT_MEMHEAP_IS_USED_def fun_eq_iff)

lemma null_links_ring: "cyc (ring h) l fs \<Longrightarrow> a \<notin> set (l # fs) \<Longrightarrow> cyc (ring (null_links a h)) l fs"
  by (erule cyc_frame) (auto simp: ring_def null_links_def)

lemma mark_used_chain: "chain_ok h bs \<Longrightarrow> chain_ok (mark_used a h) bs"
proof -
  assume c: "chain_ok h bs"
  show ?thesis
    by (rule chain_ok_cong [OF c]) (simp_all, simp_all add: mark_used_def bit.conj_disj_distrib2)
qed

lemma memheap_take_eq:
  "memheap_take sz a free_size h = mark_used a
     (if free_size \<ge> add32 (add32 sz 24) 12
      then let n = add32 (add32 a sz) 24
           in memheap_count (add32 sz 24) (free_push n (null_links a (free_unlink a (chain_insert a n h))))
      else null_links a (free_unlink a (memheap_count free_size h)))"
  by (simp add: memheap_take_def mark_used_def null_links_def Let_def)

lemma telescope:
  assumes "sorted_wrt (\<lambda>b c. b + 36 \<le> c) bs" "bs \<noteq> []" "\<And>xs a c ys. bs = xs @ a # c # ys \<Longrightarrow> f a = c - (a :: nat)"
  shows "(\<Sum>b\<in>set (butlast bs). f b) = last bs - hd bs \<and> hd bs \<le> last bs"
  using assms
proof (induction bs)
  case (Cons a bs)
  show ?case
  proof (cases bs)
    case (Cons c ys)
    have IH: "(\<Sum>b\<in>set (butlast bs). f b) = last bs - hd bs \<and> hd bs \<le> last bs"
    proof (rule Cons.IH)
      show "f b = d - b" if "bs = xs @ b # d # ys" for xs b d ys using Cons.prems(3) [of "a # xs" b d ys] that by simp
    qed (use Cons.prems(1) Cons in simp_all)
    have fa: "f a = c - a" using Cons.prems(3) [of "[]" a c ys] Cons by simp
    have na: "a \<notin> set (butlast bs)" using Cons.prems(1) in_set_butlastD [of a bs] by fastforce
    have "a + 36 \<le> c" using Cons.prems(1) Cons by simp
    then show ?thesis using IH fa na Cons by simp
  qed simp
qed simp

lemma free_total:
  assumes "chain_ok h bs" "F \<subseteq> set bs - {last bs}"
  shows "(\<Sum>b\<in>F. bsize h b + 24) + 24 \<le> mh_pool_size h"
proof -
  note d = chain_okD [OF assms(1)]
  have di: "distinct (butlast bs @ [last bs])" using spaced_distinct [OF d(6)] d(1) by simp
  have bl: "set (butlast bs) = set bs - {last bs}"
    using di append_butlast_last_id [OF d(1)] by (metis Diff_insert_absorb Un_insert_right append_Nil2 distinct.simps(2) distinct_append disjoint_insert(2) list.simps(15) set_append empty_set)
  have g: "nextb h a - a = c - a \<and> bsize h a + 24 = nextb h a - a" if "bs = xs @ a # c # ys" for xs a c ys
    using chain_next [of h xs a c ys] assms(1) that by (simp add: bsize_def)
  have t: "(\<Sum>b\<in>set (butlast bs). nextb h b - b) = last bs - hd bs"
    using telescope [OF d(6,1), of "\<lambda>b. nextb h b - b"] g by blast
  have e: "bsize h b + 24 = nextb h b - b" if "b \<in> F" for b
  proof -
    have "b \<in> set bs" "b \<noteq> last bs" using that assms(2) by auto
    then obtain xs c ys where "bs = xs @ b # c # ys" by (rule chain_split [OF assms(1)])
    then show ?thesis using g by blast
  qed
  have "(\<Sum>b\<in>F. bsize h b + 24) = (\<Sum>b\<in>F. nextb h b - b)" using e by simp
  also have "\<dots> \<le> (\<Sum>b\<in>set (butlast bs). nextb h b - b)"
    by (rule sum_mono2) (use assms(2) bl in auto)
  finally show ?thesis using t d(3-5) by simp
qed

lemma mh_invD:
  assumes "mh_inv h bs fs"
  shows "chain_ok h bs" "cyc (ring h) (mh_free_list h) fs" "set fs = {b \<in> set bs. \<not> used h b}"
    "successively (\<lambda>b c. used h b \<or> used h c) bs" "mh_available_size h = (\<Sum>b\<in>set fs. bsize h b)"
    "mh_available_size h < 2 ^ 32" "b \<in> set fs \<Longrightarrow> bsize h b \<le> mh_available_size h"
proof -
  note i = assms [unfolded mh_inv_def]
  show c: "chain_ok h bs" and "cyc (ring h) (mh_free_list h) fs" and f: "set fs = {b \<in> set bs. \<not> used h b}"
    and "successively (\<lambda>b c. used h b \<or> used h c) bs" and s: "mh_available_size h = (\<Sum>b\<in>set fs. bsize h b)"
    using i by blast+
  have "set fs \<subseteq> set bs - {last bs}" using f chain_okD(7) [OF c] by auto
  from free_total [OF c this] have "(\<Sum>b\<in>set fs. bsize h b) \<le> mh_pool_size h"
    by (simp add: sum.distrib)
  then show "mh_available_size h < 2 ^ 32" using s chain_okD(9) [OF c] by linarith
  show "bsize h b \<le> mh_available_size h" if "b \<in> set fs"
    unfolding s by (rule member_le_sum) (use that in auto)
qed

lemma free_block:
  assumes "mh_inv h bs fs" "a \<in> set fs"
  obtains xs c ys us vs where "bs = xs @ a # c # ys" "fs = us @ a # vs" "\<not> used h a" "used h c"
    "MEMITEM_SIZE h a = bsize h a" "nextb h a = c" "bsize h a = c - a - 24" "a + 36 \<le> c" "c + 24 < 2 ^ 32"
proof -
  note d = mh_invD [OF assms(1)]
  have a: "a \<in> set bs" "\<not> used h a" "a \<noteq> last bs" using d(3) assms(2) chain_okD(7) [OF d(1)] by auto
  obtain xs c ys where b: "bs = xs @ a # c # ys" using chain_split [OF d(1) a(1,3)] .
  obtain us vs where f: "fs = us @ a # vs" using assms(2) by (auto dest: split_list)
  have "used h c" using d(4) a(2) b by (simp add: successively_append_iff)
  moreover have "c + 24 < 2 ^ 32" using chain_bounds(3) [OF d(1), of c] b by simp
  moreover have "chain_ok h (xs @ a # c # ys)" using d(1) b by simp
  ultimately show ?thesis using that [OF b f a(2)] chain_next [of h xs a c ys] by (simp add: bsize_def)
qed

lemma memheap_take_split:
  assumes "mh_inv h bs fs" "a \<in> set fs" "sz + 36 \<le> bsize h a" "12 \<le> sz" "4 dvd sz"
  shows "\<exists>bs' fs'. mh_inv (memheap_take sz a (bsize h a) h) bs' fs' \<and> bsize (memheap_take sz a (bsize h a) h) a = sz \<and>
    mh_live (memheap_take sz a (bsize h a) h) bs' = insert (a + 24, sz) (mh_live h bs)"
proof -
  note d = mh_invD [OF assms(1)]
  obtain xs c ys us vs where b: "bs = xs @ a # c # ys" and f: "fs = us @ a # vs" and u: "\<not> used h a" "used h c"
    and sz: "bsize h a = c - a - 24" "a + 36 \<le> c" "c + 24 < 2 ^ 32" "nextb h a = c"
    using free_block [OF assms(1,2)] by metis
  define n where "n = a + sz + 24"
  let ?h1 = "chain_insert a n h" and ?bs = "xs @ a # n # c # ys" and ?fs = "n # us @ vs"
  define h' where "h' = memheap_take sz a (bsize h a) h"
  have w: "add32 (add32 sz 24) 12 = sz + 36" "add32 (add32 a sz) 24 = n" "add32 sz 24 = sz + 24"
    "add32 (sz + 24) 12 = sz + 36" using assms(3) sz by (simp_all add: n_def)
  have h': "h' = mark_used a (memheap_count (sz + 24) (free_push n (null_links a (free_unlink a ?h1))))"
    using assms(3) by (simp add: h'_def memheap_take_eq w Let_def)
  have ad: "4 dvd a" "4 dvd n" using chain_okD(8) [OF d(1)] b assms(5) by (auto simp: n_def)
  have c1: "chain_ok ?h1 ?bs" "\<And>x. nextb ?h1 x = (if x = n then c else if x = a then n else nextb h x)"
    "\<And>x. used ?h1 x \<longleftrightarrow> x \<noteq> n \<and> used h x"
    using chain_insert_ok [of h xs a c ys n] d(1) b assms(3,4) sz ad by (auto simp: n_def)
  have di: "distinct ?bs" by (rule spaced_distinct [OF chain_okD(6) [OF c1(1)]])
  have hd: "mh_free_list h \<notin> set ?bs" using chain_bounds(4) [OF c1(1)] by auto
  have fsub: "set fs \<subseteq> set bs" using d(3) by auto
  have df: "distinct (mh_free_list h # fs)" using d(2) by (simp add: cyc_def)
  have r: "cyc (ring (null_links a (free_unlink a ?h1))) (mh_free_list h) (us @ vs)"
    by (rule null_links_ring, rule ring_unlink) (use d(2) f df in auto)
  have nf: "n \<notin> set (mh_free_list h # us @ vs)" using hd fsub b f di by auto
  have r': "cyc (ring h') (mh_free_list h) ?fs"
    using ring_push [of "null_links a (free_unlink a ?h1)" "us @ vs" n] r nf by (simp add: h')
  have u': "used h' x \<longleftrightarrow> x = a \<or> x \<noteq> n \<and> used h x" for x by (simp add: h' c1(3))
  have n': "nextb h' x = (if x = n then c else if x = a then n else nextb h x)" for x by (simp add: h' c1(2))
  have co: "chain_ok h' ?bs"
    unfolding h' by (rule mark_used_chain, rule chain_ok_cong [OF c1(1)]) simp_all
  have fs': "set ?fs = {x \<in> set ?bs. \<not> used h' x}" using d(3) f b df di u(2) by (auto simp: u')
  have an: "a \<noteq> n" using di by auto
  have seam: "successively (\<lambda>b c. used h' b \<or> used h' c) ?bs"
  proof -
    have "successively (\<lambda>b c. used h' b \<or> used h' c) xs" "successively (\<lambda>b c. used h' b \<or> used h' c) (c # ys)"
      by (rule successively_mono [of "\<lambda>b c. used h b \<or> used h c"];
          use d(4) b di in \<open>auto simp: successively_append_iff successively_Cons u'\<close>)+
    then show ?thesis using u(2) di by (auto simp: successively_append_iff successively_Cons u')
  qed
  have bz: "bsize h' x = (if x = n then bsize h a - sz - 24 else if x = a then sz else bsize h x)" for x
    using sz(1) by (simp add: bsize_def n' n_def)
  have fin: "set ?fs = insert n (set fs - {a})" "n \<notin> set fs - {a}" using f df nf by auto
  have sum: "(\<Sum>x\<in>set ?fs. bsize h' x) = mh_available_size h - (sz + 24)"
  proof -
    have "(\<Sum>x\<in>set fs - {a}. bsize h' x) = (\<Sum>x\<in>set fs - {a}. bsize h x)" by (rule sum.cong) (use fin in \<open>auto simp: bz\<close>)
    moreover have "mh_available_size h = bsize h a + (\<Sum>x\<in>set fs - {a}. bsize h x)"
      unfolding d(5) using assms(2) by (simp add: sum.remove)
    ultimately show ?thesis unfolding fin(1) using fin(2) assms(3) by (simp add: bz)
  qed
  have av: "mh_available_size h' = mh_available_size h - (sz + 24)"
    using d(6) d(7) [OF assms(2)] assms(3) by (simp add: h')
  have inv: "mh_inv h' ?bs ?fs"
    using co r' fs' seam sum av by (simp add: mh_inv_def h')
  have "{x \<in> set ?bs. used h' x \<and> x \<noteq> last ?bs} = insert a {x \<in> set bs. used h x \<and> x \<noteq> last bs}"
    using di b by (auto simp: u')
  moreover have "bsize h' x = bsize h x" if "x \<in> {x \<in> set bs. used h x \<and> x \<noteq> last bs}" for x
    using that u di b by (auto simp: bz)
  ultimately have "mh_live h' ?bs = insert (a + 24, sz) (mh_live h bs)" by (simp add: mh_live_def bz an)
  with inv bz [of a] an show ?thesis unfolding h'_def by (intro exI conjI) simp_all
qed

lemma memheap_take_whole:
  assumes "mh_inv h bs fs" "a \<in> set fs" "sz \<le> bsize h a" "bsize h a < sz + 36" "12 \<le> sz"
  shows "\<exists>bs' fs'. mh_inv (memheap_take sz a (bsize h a) h) bs' fs' \<and>
    bsize (memheap_take sz a (bsize h a) h) a = bsize h a \<and>
    mh_live (memheap_take sz a (bsize h a) h) bs' = insert (a + 24, bsize h a) (mh_live h bs)"
proof -
  note d = mh_invD [OF assms(1)]
  obtain xs c ys us vs where b: "bs = xs @ a # c # ys" and f: "fs = us @ a # vs" and u: "\<not> used h a" "used h c"
    and sz: "bsize h a = c - a - 24" "a + 36 \<le> c" "c + 24 < 2 ^ 32" "nextb h a = c"
    using free_block [OF assms(1,2)] by metis
  define h' where "h' = memheap_take sz a (bsize h a) h"
  have "sz + 36 < 2 ^ 32 \<or> bsize h a < add32 (add32 sz 24) 12"
  proof (cases "sz + 36 < 2 ^ 32")
    case False
    have "sz < 2 ^ 32 - 24" using assms(3) sz by linarith
    then have "add32 sz 24 = sz + 24" by simp
    moreover have "2 ^ 32 \<le> sz + 36" "sz + 36 \<le> 2 ^ 32 + 12" using False \<open>sz < 2 ^ 32 - 24\<close> by simp_all
    moreover have "c < 2 ^ 32" "sz \<le> c - a - 24" using sz assms(3) by linarith+
    ultimately show ?thesis using sz(2,3) by linarith
  qed simp
  then have nw: "\<not> add32 (add32 sz 24) 12 \<le> bsize h a" using assms(4) by auto
  then have h': "h' = mark_used a (null_links a (free_unlink a (memheap_count (bsize h a) h)))"
    by (simp add: h'_def memheap_take_eq)
  have di: "distinct bs" by (rule spaced_distinct [OF chain_okD(6) [OF d(1)]])
  have df: "distinct (mh_free_list h # fs)" using d(2) by (simp add: cyc_def)
  have r': "cyc (ring h') (mh_free_list h) (us @ vs)"
    unfolding h' mark_used_frame by (rule null_links_ring, rule ring_unlink) (use d(2) f df in auto)
  have u': "used h' x \<longleftrightarrow> x = a \<or> used h x" for x by (simp add: h')
  have co: "chain_ok h' bs" unfolding h' by (rule mark_used_chain, rule chain_ok_cong [OF d(1)]) simp_all
  have fs': "set (us @ vs) = {x \<in> set bs. \<not> used h' x}" using d(3) f df by (auto simp: u')
  have seam: "successively (\<lambda>b c. used h' b \<or> used h' c) bs"
    by (rule successively_mono [OF d(4)]) (auto simp: u')
  have bz: "bsize h' x = bsize h x" for x by (simp add: bsize_def h')
  have fin: "set (us @ vs) = set fs - {a}" using f df by auto
  have "mh_available_size h = bsize h a + (\<Sum>x\<in>set fs - {a}. bsize h x)"
    unfolding d(5) using assms(2) by (simp add: sum.remove)
  moreover have "mh_available_size h' = mh_available_size h - bsize h a"
    using d(6) d(7) [OF assms(2)] by (simp add: h')
  ultimately have sum: "mh_available_size h' = (\<Sum>x\<in>set (us @ vs). bsize h' x)" unfolding fin by (simp add: bz)
  have inv: "mh_inv h' bs (us @ vs)"
    using co r' fs' seam sum by (simp add: mh_inv_def h')
  have "a \<noteq> last bs" using u(1) chain_okD(7) [OF d(1)] by auto
  then have "{x \<in> set bs. used h' x \<and> x \<noteq> last bs} = insert a {x \<in> set bs. used h x \<and> x \<noteq> last bs}"
    using b by (auto simp: u')
  then have "mh_live h' bs = insert (a + 24, bsize h a) (mh_live h bs)" by (simp add: mh_live_def bz)
  with inv bz [of a] show ?thesis unfolding h'_def by blast
qed

lemma take_frame:
  "mh_addr (memheap_take sz a f h) = mh_addr h" "mh_start_addr (memheap_take sz a f h) = mh_start_addr h"
  "mh_pool_size (memheap_take sz a f h) = mh_pool_size h" "mh_lock (memheap_take sz a f h) = mh_lock h"
  "mh_bytes (memheap_take sz a f h) = mh_bytes h"
  by (simp_all add: memheap_take_eq Let_def)

lemma live_mem:
  assumes "mh_inv h bs fs" "(p, m) \<in> mh_live h bs"
  obtains a xs c ys where "bs = xs @ a # c # ys" "p = a + 24" "m = c - a - 24" "used h a" "a + 36 \<le> c" "c + 24 < 2 ^ 32"
    "nextb h a = c" "mh_start_addr h \<le> a" "c + 24 \<le> mh_start_addr h + mh_pool_size h"
proof -
  note d = mh_invD [OF assms(1)]
  from assms(2) obtain a where a: "a \<in> set bs" "used h a" "a \<noteq> last bs" "p = a + 24" "m = bsize h a"
    by (auto simp: mh_live_def)
  obtain xs c ys where b: "bs = xs @ a # c # ys" using chain_split [OF d(1) a(1,3)] .
  then have co: "chain_ok h (xs @ a # c # ys)" using d(1) by simp
  show ?thesis
    by (rule that [OF b a(4) _ a(2)])
      (use chain_next [OF co] chain_bounds [OF co, of a] chain_bounds [OF co, of c] a(5) in \<open>simp_all add: bsize_def\<close>)
qed

text \<open>Blocks in use do not overlap.\<close>

lemma live_apart:
  assumes "mh_inv h bs fs" "(p, m) \<in> mh_live h bs" "(q, k) \<in> mh_live h bs" "(p, m) \<noteq> (q, k)"
  shows "p + m + 24 \<le> q \<or> q + k + 24 \<le> p"
proof -
  note d = mh_invD [OF assms(1)]
  obtain a xs c ys where a: "bs = xs @ a # c # ys" "p = a + 24" "m = c - a - 24" "a + 36 \<le> c"
    using live_mem [OF assms(1,2)] by metis
  obtain b us e vs where b: "bs = us @ b # e # vs" "q = b + 24" "k = e - b - 24" "b + 36 \<le> e"
    using live_mem [OF assms(1,3)] by metis
  have s: "sorted_wrt (\<lambda>b c. b + 36 \<le> c) bs" by (rule chain_okD(6) [OF d(1)])
  have ab: "a \<noteq> b"
  proof
    assume e: "a = b"
    have "nextb h a = c" using chain_next(1) [of h xs a c ys] d(1) a(1) by simp
    moreover have "nextb h b = e" using chain_next(1) [of h us b e vs] d(1) b(1) by simp
    ultimately show False using e a b assms(4) by simp
  qed
  have o: "c \<le> x" if "x \<in> set bs" "a < x" for x
    using that s a(1) by (fastforce simp: sorted_wrt_append)
  have o': "e \<le> x" if "x \<in> set bs" "b < x" for x
    using that s b(1) by (fastforce simp: sorted_wrt_append)
  have "a \<in> set bs" "b \<in> set bs" using a(1) b(1) by (metis in_set_conv_decomp)+
  then have "c \<le> b \<or> e \<le> a" using o [of b] o' [of a] ab by linarith
  then show ?thesis using a b by linarith
qed

lemma memheap_first_ok:
  assumes "mh_inv h bs fs" "12 \<le> sz" "4 dvd sz"
  shows "(if \<forall>b\<in>set fs. bsize h b < sz then memheap_first sz h = Some (None, h)
    else \<exists>a h' bs' fs'. memheap_first sz h = Some (Some (a + 24), h') \<and> mh_inv h' bs' fs' \<and> a \<in> set fs \<and> sz \<le> bsize h' a \<and>
      mh_live h' bs' = insert (a + 24, bsize h' a) (mh_live h bs) \<and> (a + 24, bsize h' a) \<notin> mh_live h bs \<and>
      mh_lock h' = mh_lock h \<and> mh_bytes h' = mh_bytes h \<and> mh_addr h' = mh_addr h \<and> bsize h' a < sz + 36)"
proof -
  note d = mh_invD [OF assms(1)]
  have m: "MEMITEM_SIZE h b = bsize h b" if "b \<in> set fs" for b
    using free_block [OF assms(1) that] by metis
  have s: "memheap_search sz (mi_next_free (mh_item h (mh_free_list h))) 0 h =
    (case List.find (\<lambda>b. sz \<le> MEMITEM_SIZE h b) fs of
       Some b \<Rightarrow> Some (b, MEMITEM_SIZE h b) | None \<Rightarrow> Some (mh_free_list h, last (0 # map (MEMITEM_SIZE h) fs)))"
    by (rule memheap_search_ok [OF d(2)]) (use assms(2) in simp)
  show ?thesis
  proof (cases "List.find (\<lambda>b. sz \<le> MEMITEM_SIZE h b) fs")
    case None
    then have small: "\<forall>b\<in>set fs. bsize h b < sz" using m by (auto simp: find_None_iff)
    have "last (0 # map (MEMITEM_SIZE h) fs) < sz"
    proof (cases fs rule: rev_cases)
      case Nil
      then show ?thesis using assms(2) by simp
    next
      case (snoc ys y)
      then show ?thesis using small m [of y] by simp
    qed
    then show ?thesis using small s None by (simp add: memheap_first_def)
  next
    case (Some a)
    then have a: "a \<in> set fs" "sz \<le> bsize h a" using m by (auto simp: find_Some_iff)
    then have nall: "\<not> (\<forall>b\<in>set fs. bsize h b < sz)" by (meson leD)
    let ?h = "memheap_take sz a (bsize h a) h"
    obtain xs c ys where c: "a + 36 \<le> c" "c + 24 < 2 ^ 32" "\<not> used h a" using free_block [OF assms(1) a(1)] by metis
    have r: "memheap_first sz h = Some (Some (a + 24), ?h)"
      using s Some m [OF a(1)] a(2) c by (simp add: memheap_first_def)
    obtain bs' fs' where t: "mh_inv ?h bs' fs'" "mh_live ?h bs' = insert (a + 24, bsize ?h a) (mh_live h bs)"
      "sz \<le> bsize ?h a" "bsize ?h a < sz + 36"
    proof (cases "sz + 36 \<le> bsize h a")
      case True
      from memheap_take_split [OF assms(1) a(1) True assms(2,3)] that show ?thesis by auto
    next
      case False
      from memheap_take_whole [OF assms(1) a(1,2) _ assms(2)] that a(2) False show ?thesis by auto
    qed
    have new: "(a + 24, bsize ?h a) \<notin> mh_live h bs"
      using c(3) by (auto simp: mh_live_def)
    show ?thesis unfolding if_not_P [OF nall]
      by (intro exI [of _ a] exI [of _ ?h] exI [of _ bs'] exI [of _ fs'])
        (use r t new a(1) in \<open>simp add: take_frame\<close>)
  qed
qed

section \<open>Release\<close>

definition mark_free :: "nat \<Rightarrow> rt_memheap \<Rightarrow> rt_memheap" where
  "mark_free a h = upd_item a (\<lambda>i. i\<lparr>mi_magic := mi_magic i AND NOT RT_MEMHEAP_USED\<rparr>) h"

lemma mark_free_frame [simp]:
  "mh_addr (mark_free a h) = mh_addr h" "mh_start_addr (mark_free a h) = mh_start_addr h"
  "mh_pool_size (mark_free a h) = mh_pool_size h" "mh_available_size (mark_free a h) = mh_available_size h"
  "mh_free_list (mark_free a h) = mh_free_list h"
  "mh_lock (mark_free a h) = mh_lock h" "mh_bytes (mark_free a h) = mh_bytes h"
  "chain (mark_free a h) = chain h" "ring (mark_free a h) = ring h" "nextb (mark_free a h) x = nextb h x"
  "mi_prev (mh_item (mark_free a h) x) = mi_prev (mh_item h x)" "bsize (mark_free a h) = bsize h"
  "MEMITEM_SIZE (mark_free a h) x = MEMITEM_SIZE h x"
  "used (mark_free a h) x \<longleftrightarrow> x \<noteq> a \<and> used h x"
proof -
  have "(w AND - 2) AND 1 = (0 :: u32)" for w by (simp add: and.assoc)
  then show "used (mark_free a h) x \<longleftrightarrow> x \<noteq> a \<and> used h x" by (simp add: mark_free_def RT_MEMHEAP_IS_USED_def)
qed (auto simp: mark_free_def chain_def ring_def MEMITEM_SIZE_def bsize_def)

lemma mark_free_chain: "chain_ok h bs \<Longrightarrow> a \<noteq> last bs \<Longrightarrow> chain_ok (mark_free a h) bs"
proof -
  assume c: "chain_ok h bs" "a \<noteq> last bs"
  have "(w AND NOT RT_MEMHEAP_USED) AND RT_MEMHEAP_MASK = w AND (RT_MEMHEAP_MASK :: u32)" for w
    by (simp add: and.assoc)
  then show ?thesis
    by (intro chain_ok_cong [OF c(1)]) (use c(2) in simp_all, simp_all add: mark_free_def)
qed

text \<open>The rest of a release, once the block is marked and joined to a free one in front of it: the block
  behind is joined, and the block linked when it was not in the ring yet.\<close>

definition give_rest :: "nat \<Rightarrow> bool \<Rightarrow> rt_memheap \<Rightarrow> rt_memheap" where
  "give_rest a fresh h =
     (let n = nextb h a;
          h1 = (if \<not> used h n then free_unlink n (chain_join a (avail_add RT_MEMHEAP_SIZE h)) else h)
      in if fresh then free_push a h1 else h1)"

lemma memheap_give_eq:
  "memheap_give a h =
     (let h2 = avail_add (MEMITEM_SIZE h a) (mark_free a h); p = mi_prev (mh_item h a)
      in if \<not> used h2 p then give_rest p False (chain_remove a (avail_add RT_MEMHEAP_SIZE h2))
         else give_rest a True h2)"
proof -
  have "MEMITEM_SIZE (mark_free a h) a = MEMITEM_SIZE h a" by simp
  then show ?thesis
    unfolding memheap_give_def give_rest_def mark_free_def [symmetric] by (simp add: Let_def)
qed

text \<open>The state in between: all free blocks but \<open>a\<close> are in the ring, and only \<open>a\<close> and the block behind it may
  both be free.\<close>

definition between :: "rt_memheap \<Rightarrow> nat list \<Rightarrow> nat \<Rightarrow> nat list \<Rightarrow> nat list \<Rightarrow> bool" where
  "between h xs a cs fs \<longleftrightarrow> chain_ok h (xs @ a # cs) \<and> cyc (ring h) (mh_free_list h) fs \<and> \<not> used h a \<and>
     insert a (set fs) = {b \<in> set (xs @ a # cs). \<not> used h b} \<and>
     successively (\<lambda>b c. used h b \<or> used h c) (xs @ [a]) \<and> successively (\<lambda>b c. used h b \<or> used h c) cs \<and>
     mh_available_size h = (\<Sum>b\<in>insert a (set fs). bsize h b)"

lemma between_sealed:
  assumes "between h xs a (c # ys) fs" "used h c"
  shows "mh_inv (if a \<notin> set fs then free_push a h else h) (xs @ a # c # ys) (if a \<notin> set fs then a # fs else fs)"
proof -
  note b = assms(1) [unfolded between_def]
  have co: "chain_ok h (xs @ a # c # ys)" and r: "cyc (ring h) (mh_free_list h) fs" and
    f: "insert a (set fs) = {b \<in> set (xs @ a # c # ys). \<not> used h b}" and
    av: "mh_available_size h = (\<Sum>b\<in>insert a (set fs). bsize h b)" using b by blast+
  have s: "successively (\<lambda>b c. used h b \<or> used h c) (xs @ a # c # ys)"
    using b assms(2) by (auto simp: successively_append_iff)
  show ?thesis
  proof (cases "a \<in> set fs")
    case True
    then show ?thesis using co r f s av by (simp add: mh_inv_def insert_absorb)
  next
    case False
    have "a \<noteq> mh_free_list h" using chain_bounds(4) [OF co, of a] by simp
    then have "cyc (ring (free_push a h)) (mh_free_list h) (a # fs)" using False by (intro ring_push [OF r]) simp
    moreover have "chain_ok (free_push a h) (xs @ a # c # ys)" by (rule chain_ok_cong [OF co]) simp_all
    moreover have "bsize (free_push a h) = bsize h" by (simp add: bsize_def fun_eq_iff)
    ultimately show ?thesis using False f s av by (simp add: mh_inv_def)
  qed
qed

lemma live_same:
  assumes "\<And>x. used h' x = used h x" "\<And>x. used h x \<Longrightarrow> bsize h' x = bsize h x"
    "{x \<in> set bs'. used h x \<and> x \<noteq> last bs'} = {x \<in> set bs. used h x \<and> x \<noteq> last bs}"
  shows "mh_live h' bs' = mh_live h bs"
  unfolding mh_live_def assms(1,3) by (rule image_cong) (use assms(2) in auto)

lemma between_join:
  assumes "between h xs a (c # ys) fs" "\<not> used h c"
  obtains us vs d zs where "ys = d # zs" "fs = us @ c # vs" "a \<noteq> c"
    "between (free_unlink c (chain_join a (avail_add 24 h))) xs a ys (us @ vs)"
    "used (free_unlink c (chain_join a (avail_add 24 h))) d"
    "mh_live (free_unlink c (chain_join a (avail_add 24 h))) (xs @ a # ys) = mh_live h (xs @ a # c # ys)"
proof -
  note b = assms(1) [unfolded between_def]
  have co: "chain_ok h (xs @ a # c # ys)" and r: "cyc (ring h) (mh_free_list h) fs" and ua: "\<not> used h a" and
    f: "insert a (set fs) = {b \<in> set (xs @ a # c # ys). \<not> used h b}" and
    sx: "successively (\<lambda>b c. used h b \<or> used h c) (xs @ [a])" and
    sc: "successively (\<lambda>b c. used h b \<or> used h c) (c # ys)" and
    av: "mh_available_size h = (\<Sum>b\<in>insert a (set fs). bsize h b)" using b by blast+
  obtain d zs where ys: "ys = d # zs" using chain_okD(7) [OF co] assms(2) by (cases ys) auto
  have ud: "used h d" using sc assms(2) ys by simp
  have di: "distinct (xs @ a # c # ys)" by (rule spaced_distinct [OF chain_okD(6) [OF co]])
  then have ac: "a \<noteq> c" by auto
  have "c \<in> insert a (set fs)" unfolding f using assms(2) by simp
  then obtain us vs where fs: "fs = us @ c # vs" using ac by (auto dest: split_list)
  have df: "distinct fs" using r by (simp add: cyc_def)
  define g where "g = avail_add 24 h"
  define h' where "h' = free_unlink c (chain_join a g)"
  have cg: "chain_ok g (xs @ a # c # ys)" unfolding g_def by (rule chain_ok_cong [OF co]) simp_all
  note rm = chain_remove_ok [OF cg [unfolded ys]]
  have h': "h' = free_unlink c (chain_remove c g)" by (simp add: h'_def rm(3))
  have co': "chain_ok h' (xs @ a # ys)" unfolding h' ys by (rule chain_ok_cong [OF rm(1)]) simp_all
  have r': "cyc (ring h') (mh_free_list h') (us @ vs)"
    unfolding h' using r fs by (simp add: g_def) (rule ring_unlink, simp add: g_def)
  have u': "used h' x = used h x" for x by (simp add: h' g_def)
  have n': "nextb h' x = (if x = a then d else nextb h x)" for x using rm(2) by (simp add: h' g_def)
  have adc: "a + 36 \<le> c" "c + 36 \<le> d" "nextb h a = c" "nextb h c = d"
    using chain_next [OF co] chain_next [of h "xs @ [a]" c d zs] co ys by simp_all
  have bz: "bsize h' x = (if x = a then bsize h a + bsize h c + 24 else bsize h x)" for x
    using adc by (auto simp: bsize_def n')
  have f': "insert a (set (us @ vs)) = {b \<in> set (xs @ a # ys). \<not> used h' b}" using f fs di df ac by (auto simp: u')
  have sum: "(\<Sum>b\<in>insert a (set (us @ vs)). bsize h' b) = mh_available_size h + 24"
  proof -
    have nc: "set (us @ vs) - {a} - {c} = set (us @ vs) - {a}" using fs df by auto
    have "set fs - {a} = insert c (set (us @ vs) - {a})" using fs ac by auto
    then have "mh_available_size h = bsize h a + (bsize h c + (\<Sum>b\<in>set (us @ vs) - {a}. bsize h b))"
      unfolding av by (simp only: sum.insert_remove finite_set finite_Diff nc)
    moreover have "(\<Sum>b\<in>set (us @ vs) - {a}. bsize h' b) = (\<Sum>b\<in>set (us @ vs) - {a}. bsize h b)"
      by (rule sum.cong) (auto simp: bz)
    moreover have "(\<Sum>b\<in>insert a (set (us @ vs)). bsize h' b) = bsize h' a + (\<Sum>b\<in>set (us @ vs) - {a}. bsize h' b)"
      by (rule sum.insert_remove) simp
    ultimately show ?thesis by (simp add: bz)
  qed
  have "insert a (set (us @ vs)) \<subseteq> set (xs @ a # ys) - {last (xs @ a # ys)}"
    unfolding f' using chain_okD(7) [OF co'] by auto
  from free_total [OF co' this] have "mh_available_size h + 24 < 2 ^ 32"
    using sum chain_okD(9) [OF co'] by (simp add: sum.distrib del: set_append)
  then have av': "mh_available_size h' = (\<Sum>b\<in>insert a (set (us @ vs)). bsize h' b)" using sum by (simp add: h' g_def)
  have "between h' xs a ys (us @ vs)"
    using co' r' f' ua sx sc av' ys by (simp add: between_def u')
  moreover have "mh_live h' (xs @ a # ys) = mh_live h (xs @ a # c # ys)"
    by (rule live_same) (use ua assms(2) ys in \<open>auto simp: u' bz\<close>)
  moreover have "used h' d" using ud by (simp add: u')
  ultimately show ?thesis using that [OF ys fs ac] unfolding h'_def g_def by blast
qed

lemma give_rest_ok:
  assumes "between h xs a (c # ys) fs"
  shows "\<exists>bs' fs'. mh_inv (give_rest a (a \<notin> set fs) h) bs' fs' \<and>
    mh_live (give_rest a (a \<notin> set fs) h) bs' = mh_live h (xs @ a # c # ys)"
proof -
  have n: "nextb h a = c" using assms chain_next(1) by (auto simp: between_def)
  have push: "mh_live (free_push x g) bs = mh_live g bs" for x g bs by (rule live_same) (simp_all add: bsize_def)
  show ?thesis
  proof (cases "used h c")
    case True
    from between_sealed [OF assms True] show ?thesis using n True by (auto simp: give_rest_def Let_def push split: if_splits)
  next
    case False
    define g where "g = free_unlink c (chain_join a (avail_add 24 h))"
    obtain us vs d zs where j: "ys = d # zs" "fs = us @ c # vs" "a \<noteq> c" "between g xs a (d # zs) (us @ vs)" "used g d"
      "mh_live g (xs @ a # ys) = mh_live h (xs @ a # c # ys)"
      using between_join [OF assms False] unfolding g_def by metis
    have e: "a \<notin> set fs \<longleftrightarrow> a \<notin> set (us @ vs)" using j(2,3) by simp
    have "give_rest a (a \<notin> set fs) h = (if a \<notin> set (us @ vs) then free_push a g else g)"
      unfolding e using n False by (simp add: give_rest_def Let_def g_def)
    then show ?thesis using between_sealed [OF j(4,5)] j(1,6) push [of a g "xs @ a # ys"] by (auto split: if_splits)
  qed
qed

lemma memheap_give_ok:
  assumes "mh_inv h bs fs" "(p, m) \<in> mh_live h bs"
  shows "\<exists>bs' fs'. mh_inv (memheap_give (p - 24) h) bs' fs' \<and>
    mh_live (memheap_give (p - 24) h) bs' = mh_live h bs - {(p, m)}"
proof -
  note i = mh_invD [OF assms(1)]
  obtain a xs c ys where b: "bs = xs @ a # c # ys" and p: "p = a + 24" "m = c - a - 24" and ua: "used h a"
    and ac: "a + 36 \<le> c" "c + 24 < 2 ^ 32" "nextb h a = c"
    by (rule live_mem [OF assms])
  have co: "chain_ok h (xs @ a # c # ys)" using i(1) b by simp
  have di: "distinct (xs @ a # c # ys)" by (rule spaced_distinct [OF chain_okD(6) [OF co]])
  have al: "a \<noteq> last (xs @ a # c # ys)" using di by auto
  have az: "MEMITEM_SIZE h a = bsize h a" "bsize h a = c - a - 24"
    using chain_next [OF co] by (simp_all add: bsize_def)
  define h2 where "h2 = avail_add (bsize h a) (mark_free a h)"
  have c2: "chain_ok h2 (xs @ a # c # ys)"
    unfolding h2_def by (rule chain_ok_cong [OF mark_free_chain [OF co al]]) simp_all
  have u2: "used h2 x \<longleftrightarrow> x \<noteq> a \<and> used h x" for x by (simp add: h2_def)
  have b2: "bsize h2 = bsize h" by (simp add: h2_def)
  have nf: "a \<notin> set fs" using i(3) ua by simp
  have f2: "insert a (set fs) = {x \<in> set (xs @ a # c # ys). \<not> used h2 x}" using i(3) b by (auto simp: u2)
  have l2: "mh_live h2 (xs @ a # c # ys) = mh_live h bs - {(p, m)}"
  proof -
    have "{x \<in> set (xs @ a # c # ys). used h2 x \<and> x \<noteq> last (xs @ a # c # ys)} =
        {x \<in> set bs. used h x \<and> x \<noteq> last bs} - {a}" using b by (auto simp: u2)
    then have "mh_live h2 (xs @ a # c # ys) = (\<lambda>x. (x + 24, bsize h x)) ` ({x \<in> set bs. used h x \<and> x \<noteq> last bs} - {a})"
      by (simp add: mh_live_def b2)
    also have "\<dots> = mh_live h bs - {(p, m)}" using p az by (auto simp: mh_live_def image_def)
    finally show ?thesis .
  qed
  have sum2: "(\<Sum>x\<in>insert a (set fs). bsize h x) = mh_available_size h + bsize h a" using nf i(5) by simp
  have "insert a (set fs) \<subseteq> set (xs @ a # c # ys) - {last (xs @ a # c # ys)}"
    unfolding f2 using chain_okD(7) [OF c2] by auto
  from free_total [OF c2 this] have "mh_available_size h + bsize h a < 2 ^ 32"
    using sum2 chain_okD(9) [OF c2] by (simp add: sum.distrib b2 del: set_append)
  then have av2: "mh_available_size h2 = (\<Sum>x\<in>insert a (set fs). bsize h2 x)" using sum2 by (simp add: h2_def)
  have seam_c: "successively (\<lambda>b c. used h2 b \<or> used h2 c) (c # ys)"
    by (rule successively_mono [of "\<lambda>b c. used h b \<or> used h c"])
      (use i(4) b di in \<open>auto simp: successively_append_iff successively_Cons u2\<close>)
  have seam_x: "successively (\<lambda>b c. used h2 b \<or> used h2 c) xs"
    by (rule successively_mono [of "\<lambda>b c. used h b \<or> used h c"])
      (use i(4) b di in \<open>auto simp: successively_append_iff successively_Cons u2\<close>)
  have r2: "cyc (ring h2) (mh_free_list h2) fs" using i(2) by (simp add: h2_def)
  define q where "q = mi_prev (mh_item h a)"
  have g: "memheap_give a h = (if \<not> used h2 q then give_rest q False (chain_remove a (avail_add 24 h2)) else give_rest a True h2)"
    by (simp add: memheap_give_eq az(1) h2_def q_def Let_def)
  have pa: "p - 24 = a" using p by simp
  show ?thesis
  proof (cases "used h2 q")
    case True
    have "successively (\<lambda>b c. used h2 b \<or> used h2 c) (xs @ [a])"
    proof (cases xs rule: rev_cases)
      case (snoc xs' y)
      then have "q = y" using chain_next(2) [of h xs' y a "c # ys"] co by (simp add: q_def)
      then show ?thesis using seam_x snoc True by (simp add: successively_append_iff)
    qed simp
    then have "between h2 xs a (c # ys) fs"
      using c2 r2 f2 seam_c av2 by (simp add: between_def u2)
    from give_rest_ok [OF this] nf l2 show ?thesis unfolding pa g using True by simp
  next
    case False
    have "xs \<noteq> []"
    proof
      assume "xs = []"
      then have "cyc (chain h) a (c # ys)" using chain_okD(2) [OF co] by simp
      then have "q = last (xs @ a # c # ys)" using cyc_prev [of "chain h" a "c # ys"] \<open>xs = []\<close> by (simp add: chain_def q_def)
      then show False using False al chain_okD(7) [OF c2] by simp
    qed
    then obtain xs' y where xs: "xs = xs' @ [y]" by (cases xs rule: rev_cases) auto
    have q: "q = y" using chain_next(2) [of h xs' y a "c # ys"] co xs by (simp add: q_def)
    define g3 where "g3 = avail_add 24 h2"
    define h3 where "h3 = chain_remove a g3"
    have cg: "chain_ok g3 (xs' @ y # a # c # ys)" unfolding g3_def by (rule chain_ok_cong [OF c2 [unfolded xs, simplified]]) simp_all
    note rm = chain_remove_ok [OF cg]
    have c3: "chain_ok h3 (xs' @ y # c # ys)" unfolding h3_def by (rule rm(1))
    have u3: "used h3 x = used h2 x" for x by (simp add: h3_def g3_def)
    have uy: "\<not> used h2 y" using False q by simp
    have yf: "y \<in> set fs"
    proof -
      have "y \<in> insert a (set fs)" unfolding f2 using uy xs by simp
      then show ?thesis using di xs by auto
    qed
    have n3: "nextb h3 x = (if x = y then c else nextb h x)" for x using rm(2) by (simp add: h3_def g3_def h2_def)
    have ya: "y + 36 \<le> a" "nextb h y = a" using chain_next [of h xs' y a "c # ys"] co xs by simp_all
    have b3: "bsize h3 x = (if x = y then bsize h y + bsize h a + 24 else bsize h x)" for x
      using ya ac by (auto simp: bsize_def n3)
    have f3: "insert y (set fs) = {x \<in> set (xs' @ y # c # ys). \<not> used h3 x}" "insert y (set fs) = set fs"
      using f2 nf di xs yf by (auto simp: u3)
    have "(\<Sum>x\<in>set fs. bsize h3 x) = bsize h3 y + (\<Sum>x\<in>set fs - {y}. bsize h3 x)" using yf by (simp add: sum.remove)
    also have "(\<Sum>x\<in>set fs - {y}. bsize h3 x) = (\<Sum>x\<in>set fs - {y}. bsize h x)" by (rule sum.cong) (auto simp: b3)
    also have "bsize h3 y + (\<Sum>x\<in>set fs - {y}. bsize h x) = (\<Sum>x\<in>set fs. bsize h x) + bsize h a + 24"
      using yf by (simp add: b3 sum.remove)
    finally have sum3: "(\<Sum>x\<in>set fs. bsize h3 x) = mh_available_size h2 + 24" using i(5) av2 sum2 by (simp add: b2)
    have f4: "set fs = {x \<in> set (xs' @ y # c # ys). \<not> used h3 x}" using f3 by simp
    have "set fs \<subseteq> set (xs' @ y # c # ys) - {last (xs' @ y # c # ys)}"
      unfolding f4 using chain_okD(7) [OF c3] by auto
    from free_total [OF c3 this] have "mh_available_size h2 + 24 < 2 ^ 32"
      using sum3 chain_okD(9) [OF c3] by (simp add: sum.distrib del: set_append)
    then have av3: "mh_available_size h3 = (\<Sum>x\<in>insert y (set fs). bsize h3 x)"
      unfolding f3(2) using sum3 by (simp add: h3_def g3_def)
    have r3: "cyc (ring h3) (mh_free_list h3) fs" using r2 by (simp add: h3_def g3_def)
    have "between h3 xs' y (c # ys) fs"
      using c3 r3 f3(1) seam_c av3 uy seam_x xs by (simp add: between_def u3)
    from give_rest_ok [OF this] yf obtain bs' fs' where "mh_inv (give_rest y False h3) bs' fs'"
      "mh_live (give_rest y False h3) bs' = mh_live h3 (xs' @ y # c # ys)" by auto
    moreover have "mh_live h3 (xs' @ y # c # ys) = mh_live h2 (xs @ a # c # ys)"
      by (rule live_same) (use uy xs in \<open>auto simp: u3 u2 b3 b2\<close>)
    moreover have "memheap_give (p - 24) h = give_rest y False h3" unfolding pa g using False by (simp add: q h3_def g3_def)
    ultimately show ?thesis using l2 by metis
  qed
qed

section \<open>The heap as an allocator\<close>

definition mh_blocks :: "rt_memheap \<Rightarrow> nat list" where
  "mh_blocks h = (case rt_list_for_each (mh_start_addr h) (chain h) of None \<Rightarrow> [] | Some bs \<Rightarrow> mh_start_addr h # bs)"

definition mh_ok :: "rt_memheap \<Rightarrow> bool" where
  "mh_ok h \<longleftrightarrow> (\<exists>fs. mh_inv h (mh_blocks h) fs)"

definition mh_in_use :: "rt_memheap \<Rightarrow> (nat \<times> nat) set" where
  "mh_in_use h = mh_live h (mh_blocks h)"

lemma mh_okI:
  assumes "mh_inv h bs fs"
  shows "mh_ok h" "mh_in_use h = mh_live h bs" "mh_blocks h = bs"
proof -
  note d = chain_okD [OF mh_invD(1) [OF assms]]
  have "rt_list_for_each (mh_start_addr h) (chain h) = Some (tl bs)"
    using for_each_cyc [OF d(2)] d(3) by simp
  then show b: "mh_blocks h = bs" using d(1,3) by (simp add: mh_blocks_def) (metis list.collapse)
  show "mh_ok h" "mh_in_use h = mh_live h bs" using assms by (auto simp: mh_ok_def mh_in_use_def b)
qed

lemma memheap_round_props: "12 \<le> memheap_round n" "4 dvd memheap_round n" "n < 2 ^ 31 \<Longrightarrow> unat n \<le> memheap_round n"
proof -
  show "12 \<le> memheap_round n" by (simp add: memheap_round_def)
  have "4 dvd align_up n" using align_up_dvd [of n] by (metis dvd_trans dvd_triv_left mult_2_right numeral_Bit0)
  then show "4 dvd memheap_round n" by (simp add: memheap_round_def)
  assume "n < 2 ^ 31"
  then have "unat n < 2 ^ 32 - 7" by (simp add: word_less_nat_alt)
  then show "unat n \<le> memheap_round n" using align_up_ge [of n] by (simp add: memheap_round_def)
qed

lemma memheap_check_live:
  assumes "mh_inv h bs fs" "(p, m) \<in> mh_live h bs"
  shows "memheap_check p h = Some ()" "p \<noteq> 0" "sub32 p 24 = p - 24"
proof -
  obtain a xs c ys where b: "bs = xs @ a # c # ys" and p: "p = a + 24" and ua: "used h a" and
    c: "a + 36 \<le> c" "c + 24 < 2 ^ 32" "nextb h a = c"
    by (rule live_mem [OF assms])
  show "p \<noteq> 0" "sub32 p 24 = p - 24" using p c by simp_all
  then show "memheap_check p h = Some ()"
    using chain_okD(8) [OF mh_invD(1) [OF assms(1)]] b p ua c(3) by (simp add: memheap_check_def)
qed

interpretation mh: allocator mh_ok mh_in_use "\<lambda>n. memheap_alloc (of_nat n)" memheap_free
proof (unfold_locales, goal_cases)
  case (1 h n)
  then obtain fs where i: "mh_inv h (mh_blocks h) fs" by (auto simp: mh_ok_def)
  let ?n = "memheap_round (of_nat n)"
  have n: "n \<le> ?n" using memheap_round_props(3) [of "of_nat n"] 1(2) by (simp add: unat_of_nat word_less_nat_alt)
  show ?case
  proof (cases "?n < mh_available_size h \<and> \<not> (\<forall>b\<in>set fs. bsize h b < ?n)")
    case True
    obtain a h' bs' fs' where r: "memheap_first ?n h = Some (Some (a + 24), h')" "mh_inv h' bs' fs'" "?n \<le> bsize h' a"
      "mh_live h' bs' = insert (a + 24, bsize h' a) (mh_in_use h)" "(a + 24, bsize h' a) \<notin> mh_in_use h"
      using memheap_first_ok [OF i memheap_round_props(1,2), of "of_nat n"] True by (auto simp: mh_in_use_def)
    have "0 < bsize h' a" "n \<le> bsize h' a" using r(3) n memheap_round_props(1) [of "of_nat n"] by linarith+
    then show ?thesis using r True mh_okI [OF r(2)] by (auto simp: memheap_alloc_def)
  next
    case False
    have "memheap_alloc (of_nat n) h = Some (None, h)"
    proof (cases "?n < mh_available_size h")
      case True
      then show ?thesis using memheap_first_ok [OF i memheap_round_props(1,2), of "of_nat n"] False
        by (simp add: memheap_alloc_def)
    qed (simp add: memheap_alloc_def)
    then show ?thesis using 1(1) by auto
  qed
next
  case (2 h p m)
  then obtain fs where i: "mh_inv h (mh_blocks h) fs" by (auto simp: mh_ok_def)
  have l: "(p, m) \<in> mh_live h (mh_blocks h)" using 2(2) by (simp add: mh_in_use_def)
  obtain bs' fs' where g: "mh_inv (memheap_give (p - 24) h) bs' fs'"
    "mh_live (memheap_give (p - 24) h) bs' = mh_live h (mh_blocks h) - {(p, m)}"
    using memheap_give_ok [OF i l] by blast
  then show ?case using memheap_check_live [OF i l] mh_okI [OF g(1)] by (auto simp: memheap_free_def mh_in_use_def)
next
  case (3 h p m)
  then obtain fs where i: "mh_inv h (mh_blocks h) fs" by (auto simp: mh_ok_def)
  have "(p, m) \<in> mh_live h (mh_blocks h)" using 3(2) by (simp add: mh_in_use_def)
  then show ?case by (rule live_mem [OF i]) simp
next
  case (4 h p m q k)
  then obtain fs where i: "mh_inv h (mh_blocks h) fs" by (auto simp: mh_ok_def)
  show ?case using live_apart [OF i, of p m q k] 4(2-4) by (auto simp: mh_in_use_def)
qed

section \<open>A new heap\<close>

lemma memheap_init_inv:
  assumes "rt_memheap_init sem_obj fh name st sz (s, h) = Some (e, s', h')"
    and "4 dvd st" "60 \<le> 8 * (unat sz div 8)" "st + 8 * (unat sz div 8) < 2 ^ 32" "fh < st \<or> st + 8 * (unat sz div 8) \<le> fh"
  shows "mh_inv h' [st, st + 8 * (unat sz div 8) - 24] [st]" "mh_start_addr h' = st" "mh_pool_size h' = 8 * (unat sz div 8)"
    "mh_free_list h' = fh"
proof -
  define pool where "pool = 8 * (unat sz div 8)"
  have pool: "unat (RT_ALIGN_DOWN sz RT_ALIGN_SIZE) = pool" by (simp add: RT_ALIGN_DOWN_def pool_def unat_and_not_7 [simplified])
  note a = assms(3-5) [folded pool_def]
  define m where "m = st + pool - 24"
  have av: "sub32 pool 48 = pool - 48" "add32 (add32 st (pool - 48)) 24 = m" using a by (simp_all add: m_def)
  have ne: "m \<noteq> st" "fh \<noteq> st" "fh \<noteq> m" using a by (auto simp: m_def)
  obtain sem where h': "h' = (upd_item m (\<lambda>_. \<lparr>mi_magic = 0x1ea01ea1, mi_pool_ptr = mh_addr h, mi_next = st, mi_prev = st,
      mi_next_free = 0, mi_prev_free = 0\<rparr>) (free_push st (upd_item st (\<lambda>_. \<lparr>mi_magic = RT_MEMHEAP_MAGIC, mi_pool_ptr = mh_addr h,
      mi_next = m, mi_prev = m, mi_next_free = st, mi_prev_free = st\<rparr>) ((upd_item fh (\<lambda>_. \<lparr>mi_magic = RT_MEMHEAP_MAGIC,
      mi_pool_ptr = mh_addr h, mi_next = 0, mi_prev = 0, mi_next_free = fh, mi_prev_free = fh\<rparr>)
      (h\<lparr>mh_start_addr := st, mh_pool_size := pool, mh_available_size := pool - 48, mh_max_used_size := sub32 pool (pool - 48),
         mh_free_list := fh\<rparr>))\<lparr>mh_block_list := st\<rparr>))))\<lparr>mh_lock := sem\<rparr>"
    using assms(1) av by (auto simp: rt_memheap_init_def Some_bind_iff Let_def pool)
  have f: "mh_start_addr h' = st" "mh_pool_size h' = pool" "mh_free_list h' = fh" "mh_addr h' = mh_addr h"
    "mh_available_size h' = pool - 48" by (simp_all add: h')
  have n: "nextb h' st = m" "nextb h' m = st" "mi_prev (mh_item h' st) = m" "mi_prev (mh_item h' m) = st"
    "mi_magic (mh_item h' st) = RT_MEMHEAP_MAGIC" "mi_magic (mh_item h' m) = 0x1ea01ea1"
    "mi_pool_ptr (mh_item h' st) = mh_addr h" "mi_pool_ptr (mh_item h' m) = mh_addr h"
    using ne by (simp_all add: h')
  have r: "mi_next_free (mh_item h' fh) = st" "mi_prev_free (mh_item h' fh) = st" "mi_next_free (mh_item h' st) = fh"
    "mi_prev_free (mh_item h' st) = fh"
    using ne by (simp_all add: h' free_push_def Let_def)
  have dv: "4 dvd m"
  proof -
    have "4 dvd pool" by (simp add: pool_def)
    then have "4 dvd st + pool" using assms(2) by simp
    moreover have "st + pool = m + 24" using a by (simp add: m_def)
    ultimately show ?thesis by presburger
  qed
  have m36: "st + 36 \<le> m" "last [st, m] = st + pool - 24" using a by (simp_all add: m_def)
  have u: "used h' m" "\<not> used h' st" by (simp_all add: RT_MEMHEAP_IS_USED_def n)
  have "chain_ok h' [st, m]"
    using n m36 dv assms(2) a f ne u(1) by (simp add: chain_ok_def cyc_def chain_def m_def)
  moreover have "cyc (ring h') fh [st]" using r ne by (simp add: cyc_def ring_def)
  moreover have "mh_available_size h' = (\<Sum>b\<in>set [st]. bsize h' b)" using a by (simp add: bsize_def n m_def f)
  moreover have "set [st] = {b \<in> set [st, m]. \<not> used h' b}" using u by auto
  moreover have "successively (\<lambda>b c. used h' b \<or> used h' c) [st, m]" using u by simp
  ultimately have "mh_inv h' [st, m] [st]" using f(3) unfolding mh_inv_def by blast
  then show "mh_inv h' [st, st + 8 * (unat sz div 8) - 24] [st]" by (simp add: m_def pool_def)
  show "mh_start_addr h' = st" "mh_pool_size h' = 8 * (unat sz div 8)" "mh_free_list h' = fh" using f by (simp_all add: pool_def)
qed

text \<open>When every block is free, the heap is one block again.\<close>

lemma no_use_whole:
  assumes "mh_inv h bs fs" "mh_live h bs = {}"
  shows "mh_available_size h = (if mh_pool_size h = 24 then 0 else mh_pool_size h - 48)"
    "fs = (if mh_pool_size h = 24 then [] else [mh_start_addr h])"
proof -
  note i = mh_invD [OF assms(1)]
  note d = chain_okD [OF i(1)]
  have nu: "\<not> used h b" if "b \<in> set bs" "b \<noteq> last bs" for b using assms(2) that by (auto simp: mh_live_def)
  consider (one) b where "bs = [b]" | (two) b c where "bs = [b, c]" | (more) b c e bs' where "bs = b # c # e # bs'"
    using d(1) by (metis neq_Nil_conv)
  then have "mh_available_size h = (if mh_pool_size h = 24 then 0 else mh_pool_size h - 48) \<and>
    fs = (if mh_pool_size h = 24 then [] else [mh_start_addr h])"
  proof cases
    case one
    then have e: "hd bs = b" "last bs = b" by simp_all
    have "mh_pool_size h = 24" using d(3-5) unfolding e by linarith
    moreover have "set fs = {}" using i(3) d(7) e(2) one by auto
    ultimately show ?thesis using i(5) by simp
  next
    case two
    have "\<not> used h b" using nu [of b] two d(6) by auto
    then have fb: "set fs = {b}" using i(3) two d(7) by auto
    have "distinct fs" using i(2) by (simp add: cyc_def)
    then have "length fs = 1" using distinct_card [of fs] fb by simp
    then obtain x where "fs = [x]" by (auto simp: length_Suc_conv)
    then have fs: "fs = [b]" using fb by simp
    have co: "chain_ok h ([] @ b # c # [])" using i(1) two by simp
    note nx = chain_next(1,3) [OF co]
    have e: "hd bs = b" "last bs = c" using two by simp_all
    have "b = mh_start_addr h" "c - b - 24 = mh_pool_size h - 48" "mh_pool_size h \<noteq> 24"
      using d(3-5) nx(2) unfolding e by linarith+
    then show ?thesis using i(5) fs nx(1) by (simp add: bsize_def)
  next
    case more
    have di: "distinct bs" by (rule spaced_distinct [OF d(6)])
    have l: "last bs \<in> set (e # bs')" using more by (cases bs') auto
    then have "b \<noteq> last bs" "c \<noteq> last bs" using di more by (metis distinct.simps(2) list.set_intros(2), metis distinct.simps(2))
    then have "\<not> used h b" "\<not> used h c" using nu more by simp_all
    then show ?thesis using i(4) more by simp
  qed
  then show "mh_available_size h = (if mh_pool_size h = 24 then 0 else mh_pool_size h - 48)"
    "fs = (if mh_pool_size h = 24 then [] else [mh_start_addr h])" by simp_all
qed

end
