(* ===== verification/Memheap_Realloc.thy ===== *)
theory Memheap_Realloc
  imports Memheap_Inv
begin

text \<open>
  Reallocation in place in a memory heap object: the block grows into the free block behind it, or its
  end is cut off and given back.
\<close>

section \<open>Shrinking\<close>

definition avail_set :: "nat \<Rightarrow> rt_memheap \<Rightarrow> rt_memheap" where
  "avail_set n h = h\<lparr>mh_available_size := n\<rparr>"

lemma avail_set_moves:
  "free_push a (avail_set n h) = avail_set n (free_push a h)"
  "free_unlink a (avail_set n h) = avail_set n (free_unlink a h)"
  "chain_join a (avail_set n h) = avail_set n (chain_join a h)"
  by (simp_all add: avail_set_def free_push_def free_unlink_def chain_join_def Let_def)

lemma avail_add_set: "avail_add n h = avail_set (add32 (mh_available_size h) n) h"
  by (simp add: avail_add_def avail_set_def)

lemma avail_set_twice: "avail_set m (avail_set n h) = avail_set m h" "mh_available_size (avail_set n h) = n"
  "MEMITEM_SIZE (avail_set n h) a = MEMITEM_SIZE h a" "used (avail_set n h) = used h" "mh_item (avail_set n h) = mh_item h"
  by (simp_all add: avail_set_def MEMITEM_SIZE_def RT_MEMHEAP_IS_USED_def fun_eq_iff)

lemma add32_reassoc: "f \<le> a \<Longrightarrow> a < 2 ^ 32 \<Longrightarrow> add32 (sub32 a f) (b + f + 24) = add32 (add32 a b) 24"
proof -
  assume a: "f \<le> a" "a < 2 ^ 32"
  have "(a - f) + (b + f + 24) = a + b + 24" using a(1) by simp
  then show ?thesis using a by (simp add: add32_def mod_simps add.assoc)
qed

lemma memheap_shrink_ok:
  assumes "mh_inv h bs fs" "(p, m) \<in> mh_live h bs" "sz + 36 < m" "12 \<le> sz" "4 dvd sz"
  shows "\<exists>bs' fs'. mh_inv (memheap_shrink (p - 24) sz h) bs' fs' \<and>
    mh_live (memheap_shrink (p - 24) sz h) bs' = insert (p, sz) (mh_live h bs - {(p, m)})"
proof -
  note i = mh_invD [OF assms(1)]
  obtain a xs c ys where b: "bs = xs @ a # c # ys" and p: "p = a + 24" "m = c - a - 24" and ua: "used h a"
    and ac: "a + 36 \<le> c" "c + 24 < 2 ^ 32" "nextb h a = c"
    by (rule live_mem [OF assms(1,2)])
  have co: "chain_ok h (xs @ a # c # ys)" using i(1) b by simp
  define n where "n = a + sz + 24"
  have nb: "a + 36 \<le> n" "n + 36 \<le> c" "4 dvd n"
    using assms(3-5) p(2) chain_okD(8) [OF co] by (auto simp: n_def)
  have w: "add32 (add32 a sz) 24 = n" using nb ac by (simp add: n_def)
  define h1 where "h1 = chain_insert a n h"
  define h2 where "h2 = avail_add (bsize h1 n) h1"
  note c1 = chain_insert_ok [OF co nb, folded h1_def]
  have c2: "chain_ok h2 ((xs @ [a]) @ n # c # ys)"
    unfolding h2_def by (rule chain_ok_cong [of h1]) (use c1(1) in simp_all)
  have u2: "used h2 x \<longleftrightarrow> x \<noteq> n \<and> used h x" for x by (simp add: h2_def c1(3))
  have n2: "nextb h2 x = (if x = n then c else if x = a then n else nextb h x)" for x using c1(2) by (simp add: h2_def)
  have di: "distinct (xs @ a # n # c # ys)" by (rule spaced_distinct [OF chain_okD(6) [OF c1(1)]])
  have b2: "bsize h2 x = (if x = n then c - n - 24 else if x = a then sz else bsize h x)" for x
    using nb by (auto simp: bsize_def n2 n_def)
  have b1: "bsize h1 n = c - n - 24" using c1(2) by (simp add: bsize_def)
  have nf: "n \<notin> set fs" using i(3) b di by auto
  have f2: "insert n (set fs) = {x \<in> set ((xs @ [a]) @ n # c # ys). \<not> used h2 x}" using i(3) b di ua by (auto simp: u2)
  have anf: "a \<notin> set fs" using i(3) ua by simp
  have "(\<Sum>x\<in>set fs. bsize h2 x) = (\<Sum>x\<in>set fs. bsize h x)"
    by (rule sum.cong) (use nf anf in \<open>auto simp: b2\<close>)
  then have sum: "(\<Sum>x\<in>insert n (set fs). bsize h2 x) = mh_available_size h + (c - n - 24)"
    using nf i(5) by (simp add: b2)
  have "insert n (set fs) \<subseteq> set ((xs @ [a]) @ n # c # ys) - {last ((xs @ [a]) @ n # c # ys)}"
    unfolding f2 using chain_okD(7) [OF c2] by auto
  from free_total [OF c2 this] have "mh_available_size h + (c - n - 24) < 2 ^ 32"
    using sum chain_okD(9) [OF c2] by (simp add: sum.distrib del: set_append)
  then have av: "mh_available_size h2 = (\<Sum>x\<in>insert n (set fs). bsize h2 x)" using sum b1 by (simp add: h2_def h1_def)
  have r2: "cyc (ring h2) (mh_free_list h2) fs" using i(2) by (simp add: h2_def h1_def)
  have seam: "successively (\<lambda>b c. used h2 b \<or> used h2 c) (c # ys)" "successively (\<lambda>b c. used h2 b \<or> used h2 c) xs"
    by (rule successively_mono [of "\<lambda>b c. used h b \<or> used h c"];
        use i(4) b di in \<open>auto simp: successively_append_iff successively_Cons u2\<close>)+
  have "between h2 (xs @ [a]) n (c # ys) fs"
    using c2 r2 f2 seam av ua nb(1) by (simp add: between_def u2 successively_append_iff)
  from give_rest_ok [OF this] nf obtain bs' fs' where g: "mh_inv (give_rest n True h2) bs' fs'"
    "mh_live (give_rest n True h2) bs' = mh_live h2 (xs @ a # n # c # ys)" by auto
  have s: "memheap_shrink a sz h = give_rest n True h2"
  proof (cases "used h c")
    case True
    have "used h1 c" using True di by (auto simp: c1(3))
    moreover have "MEMITEM_SIZE (free_push n h1) n = bsize h1 n"
      using chain_next(4) [of h1 "xs @ [a]" n c ys] c1(1) b1 by (simp add: MEMITEM_SIZE_def)
    moreover have "nextb h1 n = c" "nextb h2 n = c" "used h2 c" using c1(2) True di by (auto simp: n2 u2)
    ultimately show ?thesis
      by (simp add: memheap_shrink_def give_rest_def w Let_def h1_def [symmetric])
        (simp add: h2_def avail_add_set avail_set_moves)
  next
    case False
    have uc: "\<not> used h1 c" "nextb h1 n = c" "nextb h2 n = c" "\<not> used h2 c" using c1(2) False by (auto simp: c1(3) n2 u2)
    have cf: "c \<in> set fs" using i(3) b False by simp
    obtain d zs where ys: "ys = d # zs" using chain_okD(7) [OF co] False by (cases ys) auto
    have cc: "MEMITEM_SIZE h1 c = d - c - 24" "n + 36 \<le> c" "c + 36 \<le> d" "d + 24 < 2 ^ 32" "bsize h c = d - c - 24"
      using chain_next [of h1 "xs @ [a, n]" c d zs] c1(1) ys chain_bounds(3) [OF co, of d] nb
        chain_next [of h "xs @ [a]" c d zs] co by (simp_all add: bsize_def)
    let ?X = "free_push n (free_unlink c (chain_join n h1))"
    have rm: "nextb (chain_join n h1) n = d"
      using chain_remove_ok(2,3) [of h1 "xs @ [a]" n c d zs] c1(1) ys by simp
    then have z: "MEMITEM_SIZE ?X n = (c - n - 24) + (d - c - 24) + 24"
      using cc by (simp add: MEMITEM_SIZE_def)
    have le: "d - c - 24 \<le> mh_available_size h" using i(7) [OF cf] cc(5) by simp
    have "memheap_shrink a sz h = avail_set (add32 (sub32 (mh_available_size h1) (d - c - 24)) (MEMITEM_SIZE ?X n)) ?X"
      using uc cc(1)
      by (simp add: memheap_shrink_def w Let_def h1_def [symmetric] avail_add_set avail_set_moves avail_set_twice
          flip: avail_set_def)
    also have "\<dots> = avail_set (add32 (add32 (mh_available_size h) (c - n - 24)) 24) ?X"
      unfolding z using add32_reassoc [OF le i(6), of "c - n - 24"] by (simp add: h1_def)
    also have "\<dots> = give_rest n True h2"
      using uc(3,4) b1 by (simp add: give_rest_def Let_def h2_def avail_add_set avail_set_moves avail_set_twice)
        (simp add: h1_def)
    finally show ?thesis .
  qed
  let ?S = "{x \<in> set bs. used h x \<and> x \<noteq> last bs} - {a}"
  have "{x \<in> set (xs @ a # n # c # ys). used h2 x \<and> x \<noteq> last (xs @ a # n # c # ys)} = insert a ?S"
    using b di ua by (auto simp: u2)
  then have "mh_live h2 (xs @ a # n # c # ys) = insert (a + 24, bsize h2 a) ((\<lambda>x. (x + 24, bsize h2 x)) ` ?S)"
    unfolding mh_live_def by (simp only: image_insert)
  also have "(\<lambda>x. (x + 24, bsize h2 x)) ` ?S = (\<lambda>x. (x + 24, bsize h x)) ` ?S"
    by (rule image_cong) (use b di in \<open>auto simp: b2\<close>)
  also have "bsize h2 a = sz" using nb(1) by (simp add: b2)
  also have "(\<lambda>x. (x + 24, bsize h x)) ` ?S = mh_live h bs - {(p, m)}"
    using p ac(3) by (auto simp: mh_live_def bsize_def image_def)
  finally show ?thesis using g s p(1) by auto
qed

section \<open>Growing\<close>

lemma chain_drop_eq:
  "nextb h a \<noteq> a \<Longrightarrow> mi_prev (mh_item h a) \<noteq> a \<Longrightarrow> nextb h a \<noteq> mi_prev (mh_item h a) \<Longrightarrow> chain_drop a h = chain_remove a h"
  by (simp add: chain_drop_def chain_remove_def Let_def fun_upd_twist)

lemma memheap_grow_eq:
  assumes "mh_inv h bs fs" "(p, m) \<in> mh_live h bs" "m < sz" "sz < 2 ^ 32 - 36"
  obtains a n xs ys where "bs = xs @ a # n # ys" "p = a + 24" "m = n - a - 24" "a + 36 \<le> n" "nextb h a = n" "used h a"
    "memheap_grow p sz h = (if \<not> used h n \<and> sz + 12 < bsize h n + m
       then Some (Some (free_push (p + sz) (chain_insert a (p + sz) (chain_remove n (free_unlink n (memheap_count (sz - m) h))))))
       else Some None)"
proof -
  note i = mh_invD [OF assms(1)]
  obtain a xs n ys where b: "bs = xs @ a # n # ys" and p: "p = a + 24" "m = n - a - 24" and ua: "used h a"
    and ac: "a + 36 \<le> n" "n + 24 < 2 ^ 32" "nextb h a = n"
    by (rule live_mem [OF assms(1,2)])
  have co: "chain_ok h (xs @ a # n # ys)" using i(1) b by simp
  have m: "MEMITEM_SIZE h a = m" "sub32 p 24 = a" using chain_next(4) [OF co] p ac by simp_all
  have "memheap_grow p sz h = (if \<not> used h n \<and> sz + 12 < bsize h n + m
       then Some (Some (free_push (p + sz) (chain_insert a (p + sz) (chain_remove n (free_unlink n (memheap_count (sz - m) h))))))
       else Some None)"
  proof (cases "used h n")
    case True
    then show ?thesis using ac m by (simp add: memheap_grow_def Let_def)
  next
    case False
    obtain d zs where ys: "ys = d # zs" using chain_okD(7) [OF co] False by (cases ys) auto
    have nd: "nextb h n = d" "mi_prev (mh_item h n) = a" "mi_prev (mh_item h d) = n" "n + 36 \<le> d" "MEMITEM_SIZE h n = d - n - 24" "d + 24 < 2 ^ 32"
      using chain_next [of h "xs @ [a]" n d zs] chain_next(2) [OF co] co ys chain_bounds(3) [OF co, of d] by simp_all
    have z: "bsize h n = MEMITEM_SIZE h n" using nd by (simp add: bsize_def)
    have w: "add32 (MEMITEM_SIZE h n) m = bsize h n + m" "add32 sz 12 = sz + 12" "sub32 sz m = sz - m"
      using nd p(2) ac assms(3,4) by (simp_all add: z)
    have pm: "add32 p sz = p + sz" if "sz + 12 < bsize h n + m" using that nd p ac by (simp add: z)
    have "chain_drop n (free_unlink n (memheap_count (sz - m) h)) = chain_remove n (free_unlink n (memheap_count (sz - m) h))"
      by (rule chain_drop_eq) (use nd ac in simp_all)
    then show ?thesis using False ac m w pm by (simp add: memheap_grow_def Let_def)
  qed
  then show ?thesis using that b p ac ua by blast
qed

lemma memheap_grow_ok:
  assumes "mh_inv h bs fs" "(p, m) \<in> mh_live h bs" "m < sz" "4 dvd sz" "sz < 2 ^ 32 - 36"
  shows "memheap_grow p sz h = Some None \<or>
    (\<exists>h' bs' fs'. memheap_grow p sz h = Some (Some h') \<and> mh_inv h' bs' fs' \<and>
       mh_live h' bs' = insert (p, sz) (mh_live h bs - {(p, m)}) \<and> mh_bytes h' = mh_bytes h \<and> mh_lock h' = mh_lock h \<and>
       mh_addr h' = mh_addr h)"
proof -
  note i = mh_invD [OF assms(1)]
  obtain a n xs ys where b: "bs = xs @ a # n # ys" and p: "p = a + 24" "m = n - a - 24" and ac: "a + 36 \<le> n" "nextb h a = n"
    and ua: "used h a" and g: "memheap_grow p sz h = (if \<not> used h n \<and> sz + 12 < bsize h n + m
       then Some (Some (free_push (p + sz) (chain_insert a (p + sz) (chain_remove n (free_unlink n (memheap_count (sz - m) h))))))
       else Some None)"
    by (rule memheap_grow_eq [OF assms(1,2,3,5)])
  show ?thesis
  proof (cases "\<not> used h n \<and> sz + 12 < bsize h n + m")
    case True
    have co: "chain_ok h (xs @ a # n # ys)" using i(1) b by simp
    obtain d zs where ys: "ys = d # zs" using chain_okD(7) [OF co] True by (cases ys) auto
    have nd: "nextb h n = d" "n + 36 \<le> d" using chain_next [of h "xs @ [a]" n d zs] co ys by simp_all
    have di: "distinct (xs @ a # n # d # zs)" using spaced_distinct [OF chain_okD(6) [OF co]] ys by simp
    have nfs: "n \<in> set fs" using i(3) b True by simp
    then obtain us vs where fs: "fs = us @ n # vs" by (auto dest: split_list)
    have df: "distinct (mh_free_list h # fs)" using i(2) by (simp add: cyc_def)
    define k where "k = a + 24 + sz"
    have kb: "a + 36 \<le> k" "k + 36 \<le> d" "4 dvd k"
      using True nd ac p(2) assms(3,4) chain_okD(8) [OF co] by (auto simp: k_def bsize_def)
    define g1 where "g1 = free_unlink n (memheap_count (sz - m) h)"
    have c1: "chain_ok g1 (xs @ a # n # d # zs)"
      unfolding g1_def by (rule chain_ok_cong [OF co [unfolded ys]]) simp_all
    note rm = chain_remove_ok [OF c1]
    note ins = chain_insert_ok [OF rm(1) kb]
    define g2 where "g2 = chain_insert a k (chain_remove n g1)"
    define h' where "h' = free_push k g2"
    have r: "memheap_grow p sz h = Some (Some h')"
      using g True p(1) by (simp add: h'_def g2_def g1_def k_def)
    have r1: "cyc (ring g2) (mh_free_list h) (us @ vs)"
      unfolding g2_def g1_def frame_views by (rule ring_unlink) (use i(2) fs in simp)
    have co2: "chain_ok g2 (xs @ a # k # d # zs)" using ins(1) by (simp add: g2_def)
    have dk: "distinct (xs @ a # k # d # zs)" by (rule spaced_distinct [OF chain_okD(6) [OF co2]])
    have kn: "k \<noteq> n" using assms(3) p(2) ac(1) by (simp add: k_def)
    have kf: "k \<notin> set fs" "k \<noteq> mh_free_list h"
      using i(3) b ys dk kn chain_bounds(4) [OF co2, of k] by (auto simp: g2_def g1_def)
    have r2: "cyc (ring h') (mh_free_list h) (k # us @ vs)"
      using ring_push [of g2 "us @ vs" k] r1 kf fs by (simp add: h'_def g2_def g1_def)
    have co': "chain_ok h' (xs @ a # k # d # zs)" unfolding h'_def by (rule chain_ok_cong [OF co2]) simp_all
    have u': "used h' x \<longleftrightarrow> x \<noteq> k \<and> used h x" for x using ins(3) by (simp add: h'_def g2_def g1_def)
    have n': "nextb h' x = (if x = k then d else if x = a then k else nextb h x)" for x
      using ins(2) rm(2) by (simp add: h'_def g2_def g1_def)
    have b': "bsize h' x = (if x = k then d - k - 24 else if x = a then sz else bsize h x)" for x
      by (simp add: bsize_def n' k_def)
    have nk: "bsize h n = d - n - 24" "sz - m = k - n" using nd p(2) ac by (auto simp: bsize_def k_def)
    have ud: "used h d" using i(4) b ys True by (simp add: successively_append_iff)
    have f': "set (k # us @ vs) = {x \<in> set (xs @ a # k # d # zs). \<not> used h' x}"
    proof -
      have "set (k # us @ vs) = insert k (set fs - {n})" using fs df by auto
      also have "set fs = {x \<in> set xs \<union> {a, n, d} \<union> set zs. \<not> used h x}" using i(3) b ys by auto
      also have "insert k ({x \<in> set xs \<union> {a, n, d} \<union> set zs. \<not> used h x} - {n}) =
          {x \<in> set xs \<union> {a, k, d} \<union> set zs. \<not> used h' x}" using di by (auto simp: u')
      finally show ?thesis by simp
    qed
    have seam: "successively (\<lambda>b c. used h' b \<or> used h' c) (xs @ a # k # d # zs)"
    proof -
      have "successively (\<lambda>b c. used h' b \<or> used h' c) (d # zs)" "successively (\<lambda>b c. used h' b \<or> used h' c) xs"
        by (rule successively_mono [of "\<lambda>b c. used h b \<or> used h c"];
            use i(4) b ys dk in \<open>auto simp: successively_append_iff successively_Cons u'\<close>)+
      then show ?thesis using ua ud dk by (auto simp: successively_append_iff successively_Cons u')
    qed
    have anf: "a \<notin> set fs" using i(3) ua by simp
    have e: "set (k # us @ vs) = insert k (set fs - {n})" using fs df by auto
    have "(\<Sum>x\<in>set fs - {n}. bsize h' x) = (\<Sum>x\<in>set fs - {n}. bsize h x)"
      by (rule sum.cong) (use kf anf in \<open>auto simp: b'\<close>)
    moreover have "mh_available_size h = bsize h n + (\<Sum>x\<in>set fs - {n}. bsize h x)"
      unfolding i(5) using nfs by (simp add: sum.remove)
    moreover have "(\<Sum>x\<in>set (k # us @ vs). bsize h' x) = (d - k - 24) + (\<Sum>x\<in>set fs - {n}. bsize h' x)"
      unfolding e using kf(1) by (simp add: b')
    moreover have "sz - m \<le> mh_available_size h" using i(7) [OF nfs] nk kb(2) nd(2) by linarith
    then have "mh_available_size h' = mh_available_size h - (sz - m)"
      using i(6) by (simp add: h'_def g2_def g1_def)
    ultimately have av: "mh_available_size h' = (\<Sum>x\<in>set (k # us @ vs). bsize h' x)"
      using nk kb(2) assms(3) by linarith
    have fl: "mh_free_list h' = mh_free_list h" by (simp add: h'_def g2_def g1_def)
    have inv: "mh_inv h' (xs @ a # k # d # zs) (k # us @ vs)"
      unfolding mh_inv_def fl using co' r2 f' seam av by blast
    let ?S = "{x \<in> set bs. used h x \<and> x \<noteq> last bs} - {a}"
    have "{x \<in> set (xs @ a # k # d # zs). used h' x \<and> x \<noteq> last (xs @ a # k # d # zs)} = insert a ?S"
      using b ys di dk ua True by (auto simp: u')
    then have "mh_live h' (xs @ a # k # d # zs) = insert (a + 24, bsize h' a) ((\<lambda>x. (x + 24, bsize h' x)) ` ?S)"
      unfolding mh_live_def by (simp only: image_insert)
    also have "(\<lambda>x. (x + 24, bsize h' x)) ` ?S = (\<lambda>x. (x + 24, bsize h x)) ` ?S"
      by (rule image_cong) (use b ys dk True kn in \<open>auto simp: b'\<close>)
    also have "bsize h' a = sz" using kb(1) by (simp add: b')
    also have "(\<lambda>x. (x + 24, bsize h x)) ` ?S = mh_live h bs - {(p, m)}"
      using p ac(2) by (auto simp: mh_live_def bsize_def image_def)
    finally have "mh_live h' (xs @ a # k # d # zs) = insert (p, sz) (mh_live h bs - {(p, m)})" using p(1) by simp
    moreover have "mh_bytes h' = mh_bytes h" "mh_lock h' = mh_lock h" "mh_addr h' = mh_addr h"
      by (simp_all add: h'_def g2_def g1_def)
    ultimately show ?thesis using r inv by blast
  qed (use g in auto)
qed

text \<open>The work under the lock as a whole.\<close>

lemma realloc_in_place:
  assumes "mh_ok h" "(p, m) \<in> mh_in_use h" "n < 2 ^ 31"
    "m < memheap_round n \<or> memheap_round n + 36 < m"
  shows "\<exists>move h'. realloc_under_lock p (memheap_round n) h = Some (move, h') \<and>
    (if move then h' = h \<and> m < memheap_round n
     else mh_ok h' \<and> mh_in_use h' = insert (p, memheap_round n) (mh_in_use h - {(p, m)}) \<and> mh_bytes h' = mh_bytes h)"
proof -
  obtain fs where i: "mh_inv h (mh_blocks h) fs" using assms(1) by (auto simp: mh_ok_def)
  have l: "(p, m) \<in> mh_live h (mh_blocks h)" using assms(2) by (simp add: mh_in_use_def)
  obtain a xs c ys where b: "mh_blocks h = xs @ a # c # ys" and p: "p = a + 24" "m = c - a - 24"
    by (rule live_mem [OF i l])
  have sz: "MEMITEM_SIZE h (sub32 p 24) = m"
    using chain_next(4) [of h xs a c ys] mh_invD(1) [OF i] b p memheap_check_live(3) [OF i l] by simp
  note rd = memheap_round_props [of n]
  have r32: "memheap_round n < 2 ^ 32 - 36"
  proof -
    have "unat n < 2 ^ 31" using assms(3) by (simp add: word_less_nat_alt)
    moreover from this have "unat n < 2 ^ 32 - 7" by simp
    ultimately have "align_up n < 2 ^ 31 + 8" using align_up_ge [of n] by linarith
    then show ?thesis by (simp add: memheap_round_def)
  qed
  have use: "mh_in_use h = mh_live h (mh_blocks h)" by (simp add: mh_in_use_def)
  show ?thesis
  proof (cases "m < memheap_round n")
    case True
    from memheap_grow_ok [OF i l True rd(2) r32] show ?thesis
    proof (elim disjE exE conjE)
      assume "memheap_grow p (memheap_round n) h = Some None"
      then show ?thesis using True sz by (auto simp: realloc_under_lock_def Let_def)
    next
      fix h' bs' fs'
      assume g: "memheap_grow p (memheap_round n) h = Some (Some h')" "mh_inv h' bs' fs'"
        "mh_live h' bs' = insert (p, memheap_round n) (mh_live h (mh_blocks h) - {(p, m)})" "mh_bytes h' = mh_bytes h"
      have "realloc_under_lock p (memheap_round n) h = Some (False, h')"
        using g(1) True sz by (simp add: realloc_under_lock_def Let_def)
      then show ?thesis using mh_okI [OF g(2)] g(3,4) use by auto
    qed
  next
    case False
    then have s: "memheap_round n + 36 < m" using assms(4) by blast
    obtain bs' fs' where g: "mh_inv (memheap_shrink (p - 24) (memheap_round n) h) bs' fs'"
      "mh_live (memheap_shrink (p - 24) (memheap_round n) h) bs' = insert (p, memheap_round n) (mh_live h (mh_blocks h) - {(p, m)})"
      using memheap_shrink_ok [OF i l s rd(1,2)] by blast
    have "mh_bytes (memheap_shrink x y h) = mh_bytes h" for x y
      by (simp add: memheap_shrink_def chain_join_def Let_def avail_add_def)
    moreover have "realloc_under_lock p (memheap_round n) h = Some (False, memheap_shrink (p - 24) (memheap_round n) h)"
      using False sz memheap_check_live(3) [OF i l] by (simp add: realloc_under_lock_def Let_def)
    ultimately show ?thesis using mh_okI [OF g(1)] g(2) use by auto
  qed
qed

section \<open>The place of the heap\<close>

lemma mh_inside:
  assumes "mh_ok h" "(p, m) \<in> mh_in_use h"
  shows "4 dvd p" "mh_start_addr h + 24 \<le> p" "p + m + 24 \<le> mh_start_addr h + mh_pool_size h"
proof -
  obtain fs where i: "mh_inv h (mh_blocks h) fs" using assms(1) by (auto simp: mh_ok_def)
  have l: "(p, m) \<in> mh_live h (mh_blocks h)" using assms(2) by (simp add: mh_in_use_def)
  obtain a xs c ys where b: "mh_blocks h = xs @ a # c # ys" and p: "p = a + 24" "m = c - a - 24" and
    c: "a + 36 \<le> c" "mh_start_addr h \<le> a" "c + 24 \<le> mh_start_addr h + mh_pool_size h"
    by (rule live_mem [OF i l])
  have "a \<in> set (mh_blocks h)" using b by simp
  then have "4 dvd a" using chain_okD(8) [OF mh_invD(1) [OF i]] by blast
  then show "4 dvd p" "mh_start_addr h + 24 \<le> p" "p + m + 24 \<le> mh_start_addr h + mh_pool_size h" using p c by auto
qed

lemma give_frame:
  "mh_start_addr (memheap_give a h) = mh_start_addr h" "mh_pool_size (memheap_give a h) = mh_pool_size h"
  by (simp_all add: memheap_give_def chain_join_def Let_def avail_add_def)

lemma first_frame:
  "memheap_first sz h = Some (r, h') \<Longrightarrow> mh_start_addr h' = mh_start_addr h \<and> mh_pool_size h' = mh_pool_size h"
  by (auto simp: memheap_first_def Some_bind_iff take_frame split: if_splits)

lemma chain_drop_place: "mh_start_addr (chain_drop a h) = mh_start_addr h" "mh_pool_size (chain_drop a h) = mh_pool_size h"
  by (simp_all add: chain_drop_def Let_def)

lemma shrink_place:
  "mh_start_addr (memheap_shrink a n h) = mh_start_addr h" "mh_pool_size (memheap_shrink a n h) = mh_pool_size h"
  by (simp_all add: memheap_shrink_def chain_join_def Let_def avail_add_def)

lemma grow_place:
  assumes "memheap_grow p n h = Some (Some h')"
  shows "mh_start_addr h' = mh_start_addr h \<and> mh_pool_size h' = mh_pool_size h"
proof -
  obtain a b c d where "h' = free_push a (chain_insert b c (chain_drop d (free_unlink d (memheap_count (sub32 n (MEMITEM_SIZE h b)) h))))"
    using assms by (simp add: memheap_grow_def Let_def Some_bind_iff split: if_splits) metis
  then show ?thesis by (simp add: chain_drop_place)
qed

lemma realloc_frame:
  assumes "realloc_under_lock p n h = Some (move, h')"
  shows "mh_start_addr h' = mh_start_addr h \<and> mh_pool_size h' = mh_pool_size h"
proof (cases "n > MEMITEM_SIZE h (sub32 p 24)")
  case True
  then obtain r where "memheap_grow p n h = Some r" "h' = (case r of None \<Rightarrow> h | Some h1 \<Rightarrow> h1)"
    using assms by (auto simp: realloc_under_lock_def Let_def Some_bind_iff split: option.splits)
  then show ?thesis using grow_place [of p n h] by (cases r) simp_all
next
  case False
  then show ?thesis using assms by (auto simp: realloc_under_lock_def Let_def shrink_place)
qed

end
