(* ===== verification/Memheap_Props.thy ===== *)
theory Memheap_Props
  imports Memheap_Realloc
begin

text \<open>
  The properties of the memory heap objects: safety of allocation and release, complete merging of what
  is released, and reallocation in place.
\<close>

section \<open>A demonstration heap\<close>

text \<open>4096 bytes at \<open>0x20000000\<close>, as \<open>rt_memheap_init\<close> leaves them.\<close>

definition demo_mheap :: rt_memheap where
  "demo_mheap = \<lparr>mh_addr = 0x100, mh_start_addr = 0x20000000, mh_pool_size = 4096, mh_available_size = 4048,
     mh_max_used_size = 48, mh_block_list = 0x20000000, mh_free_list = 0x124,
     mh_item = (\<lambda>a. if a = 0x20000000 then \<lparr>mi_magic = 0x1ea01ea0, mi_pool_ptr = 0x100, mi_next = 0x20000fe8,
          mi_prev = 0x20000fe8, mi_next_free = 0x124, mi_prev_free = 0x124\<rparr>
        else if a = 0x20000fe8 then \<lparr>mi_magic = 0x1ea01ea1, mi_pool_ptr = 0x100, mi_next = 0x20000000,
          mi_prev = 0x20000000, mi_next_free = 0, mi_prev_free = 0\<rparr>
        else \<lparr>mi_magic = 0x1ea01ea0, mi_pool_ptr = 0x100, mi_next = 0, mi_prev = 0,
          mi_next_free = 0x20000000, mi_prev_free = 0x20000000\<rparr>),
     mh_lock = \<lparr>sem_ref = Obj 21, sem_value = 1\<rparr>, mh_bytes = (\<lambda>_. 0)\<rparr>"

lemma demo_mheap_inv: "mh_inv demo_mheap [0x20000000, 0x20000fe8] [0x20000000]"
proof -
  have u: "used demo_mheap 0x20000fe8" "\<not> used demo_mheap 0x20000000"
    by (simp_all add: RT_MEMHEAP_IS_USED_def demo_mheap_def)
  have "chain_ok demo_mheap [0x20000000, 0x20000fe8]"
    using u(1) by (simp add: chain_ok_def) (simp add: cyc_def chain_def demo_mheap_def)
  moreover have "cyc (ring demo_mheap) (mh_free_list demo_mheap) [0x20000000]"
    by (simp add: cyc_def ring_def demo_mheap_def)
  moreover have "set [0x20000000] = {b \<in> set [0x20000000, 0x20000fe8]. \<not> used demo_mheap b}" using u by auto
  moreover have "successively (\<lambda>b c. used demo_mheap b \<or> used demo_mheap c) [0x20000000, 0x20000fe8]" using u by simp
  moreover have "mh_available_size demo_mheap = (\<Sum>b\<in>set [0x20000000]. bsize demo_mheap b)"
    by (simp add: bsize_def demo_mheap_def)
  ultimately show ?thesis unfolding mh_inv_def by blast
qed

lemma demo_mheap_ok: "mh_ok demo_mheap" "mh_in_use demo_mheap = {}"
proof -
  have "\<not> used demo_mheap 0x20000000" by (simp add: RT_MEMHEAP_IS_USED_def demo_mheap_def)
  then have "mh_live demo_mheap [0x20000000, 0x20000fe8] = {}" by (auto simp: mh_live_def)
  then show "mh_ok demo_mheap" "mh_in_use demo_mheap = {}" using mh_okI [OF demo_mheap_inv] by simp_all
qed

section \<open>Safety\<close>

text \<open>C20: A memory heap object is safe for every client that releases only blocks in use: every call returns; the
  blocks in use are word aligned, inside the heap (24 bytes of header in front of each) and pairwise
  disjoint; a new block has at least the requested size, overlaps no block in use, and releasing it leaves
  exactly the blocks that were in use before.\<close>

theorem memheap_safe:
  assumes "heap_reach (\<lambda>n. memheap_alloc (of_nat n)) memheap_free mh_in_use h0 h" "mh_ok h0" "n < 2 ^ 31"
  shows "memheap_alloc (of_nat n) h \<noteq> None \<and> (\<forall>(p, m) \<in> mh_in_use h. memheap_free p h \<noteq> None \<and>
      4 dvd p \<and> mh_start_addr h + 24 \<le> p \<and> p + m + 24 \<le> mh_start_addr h + mh_pool_size h) \<and>
    (\<forall>(p, m) \<in> mh_in_use h. \<forall>(q, k) \<in> mh_in_use h. (p, m) = (q, k) \<or> p + m \<le> q \<or> q + k \<le> p) \<and>
    (\<forall>p h'. memheap_alloc (of_nat n) h = Some (Some p, h') \<longrightarrow>
      (\<exists>m \<ge> n. (p, m) \<in> mh_in_use h' \<and> (\<forall>(q, k) \<in> mh_in_use h. p + m \<le> q \<or> q + k \<le> p) \<and>
        (\<exists>h''. memheap_free p h' = Some h'' \<and> mh_in_use h'' = mh_in_use h)))"
proof -
  have k: "mh_ok h" by (rule mh.reach_ok [OF assms(1,2)])
  note safe = mh.client_safe [OF assms]
  have "\<forall>(p, m) \<in> mh_in_use h. memheap_free p h \<noteq> None \<and> 4 dvd p \<and> mh_start_addr h + 24 \<le> p \<and>
      p + m + 24 \<le> mh_start_addr h + mh_pool_size h"
    using mh_inside [OF k] safe(2) by fastforce
  with safe(1,3,4) show ?thesis by (intro conjI)
qed

lemma demo_memheap_alloc:
  "\<exists>h m. memheap_alloc 100 demo_mheap = Some (Some 0x20000018, h) \<and> mh_ok h \<and> mh_in_use h = {(0x20000018, m)} \<and> m < 140"
proof -
  have r: "memheap_round 100 = 104" using align_up_eq [of 100] by (simp add: memheap_round_def)
  have b: "bsize demo_mheap 0x20000000 = 4048" "mh_available_size demo_mheap = 4048" by (simp_all add: bsize_def demo_mheap_def)
  have l: "mh_live demo_mheap [0x20000000, 0x20000fe8] = {}"
    using demo_mheap_ok(2) mh_okI(2) [OF demo_mheap_inv] by simp
  obtain h bs fs where h: "memheap_first 104 demo_mheap = Some (Some (0x20000000 + 24), h)" "mh_inv h bs fs"
    "mh_live h bs = {(0x20000000 + 24, bsize h 0x20000000)}" "bsize h 0x20000000 < 104 + 36"
    using memheap_first_ok [OF demo_mheap_inv, of 104] b l by auto
  have "mh_ok h \<and> mh_in_use h = {(0x20000018, bsize h 0x20000000)} \<and> bsize h 0x20000000 < 140"
    using mh_okI [OF h(2)] h(3,4) by simp
  then show ?thesis using h(1) b r by (auto simp: memheap_alloc_def)
qed

theorem memheap_safe_witness:
  "\<exists>h m h'. memheap_alloc 100 demo_mheap = Some (Some 0x20000018, h) \<and> 100 \<le> m \<and> (0x20000018, m) \<in> mh_in_use h \<and>
     memheap_free 0x20000018 h = Some h' \<and> mh_in_use h' = {}"
proof -
  obtain h where h: "memheap_alloc 100 demo_mheap = Some (Some 0x20000018, h)" using demo_memheap_alloc by blast
  have "\<exists>m \<ge> 100. (0x20000018, m) \<in> mh_in_use h \<and> (\<forall>(q, k) \<in> mh_in_use demo_mheap. 0x20000018 + m \<le> q \<or> q + k \<le> 0x20000018) \<and>
        (\<exists>h''. memheap_free 0x20000018 h = Some h'' \<and> mh_in_use h'' = mh_in_use demo_mheap)"
    using memheap_safe [OF heap_reach.start demo_mheap_ok(1), of 100] h by simp
  then show ?thesis using h demo_mheap_ok(2) by blast
qed

section \<open>Merging\<close>

lemma reach_frame:
  assumes "heap_reach (\<lambda>n. memheap_alloc (of_nat n)) memheap_free mh_in_use h0 h"
  shows "mh_start_addr h = mh_start_addr h0 \<and> mh_pool_size h = mh_pool_size h0"
  using assms
proof (induction rule: heap_reach.induct)
  case (alloc h1 n r h2)
  then show ?case using first_frame [of "memheap_round (of_nat n)" h1 r h2] by (auto simp: memheap_alloc_def split: if_splits)
next
  case (free h1 p m h2)
  then show ?case by (auto simp: memheap_free_def Some_bind_iff give_frame split: if_splits)
qed simp

text \<open>C21: Nothing is lost to fragmentation for good: whatever a client allocated and released before, once
  it has released everything, all of the memory is available again as one block, and every request below
  that size is served at the start of the heap.\<close>

theorem memheap_whole_again:
  assumes "heap_reach (\<lambda>n. memheap_alloc (of_nat n)) memheap_free mh_in_use h0 h" "mh_ok h0" "mh_in_use h = {}"
    "24 < mh_pool_size h0"
  shows "mh_available_size h = mh_pool_size h0 - 48 \<and>
    (\<forall>n. memheap_round n < mh_pool_size h0 - 48 \<longrightarrow>
       (\<exists>h'. memheap_alloc n h = Some (Some (mh_start_addr h0 + 24), h')))"
proof -
  have "mh_ok h" by (rule mh.reach_ok [OF assms(1,2)])
  then obtain fs where i: "mh_inv h (mh_blocks h) fs" by (auto simp: mh_ok_def)
  have f: "mh_start_addr h = mh_start_addr h0" "mh_pool_size h = mh_pool_size h0" using reach_frame [OF assms(1)] by simp_all
  have "mh_live h (mh_blocks h) = {}" using assms(3) by (simp add: mh_in_use_def)
  note w = no_use_whole [OF i this]
  have av: "mh_available_size h = mh_pool_size h0 - 48" and fs: "fs = [mh_start_addr h0]" using w f assms(4) by simp_all
  have b: "bsize h (mh_start_addr h0) = mh_pool_size h0 - 48" using mh_invD(5) [OF i] av fs by simp
  have "\<exists>h'. memheap_alloc n h = Some (Some (mh_start_addr h0 + 24), h')" if "memheap_round n < mh_pool_size h0 - 48" for n
    using memheap_first_ok [OF i memheap_round_props(1,2), of n] that av fs b by (auto simp: memheap_alloc_def)
  with av show ?thesis by blast
qed

theorem memheap_whole_again_witness:
  "\<exists>h h'. memheap_alloc 100 demo_mheap = Some (Some 0x20000018, h) \<and> memheap_free 0x20000018 h = Some h' \<and>
     mh_available_size h' = 4048 \<and> (\<exists>h''. memheap_alloc 4000 h' = Some (Some 0x20000018, h''))"
proof -
  obtain h where h: "memheap_alloc (of_nat 100) demo_mheap = Some (Some 0x20000018, h)" using demo_memheap_alloc by auto
  obtain h' where h': "memheap_free 0x20000018 h = Some h'" "mh_ok h'" "mh_in_use h' = mh_in_use demo_mheap"
    using mh.alloc_release [OF demo_mheap_ok(1) _ h] by auto
  obtain m where m: "(0x20000018, m) \<in> mh_in_use h" using mh.alloc_ok [OF demo_mheap_ok(1), of 100] h by auto
  have "heap_reach (\<lambda>n. memheap_alloc (of_nat n)) memheap_free mh_in_use demo_mheap h"
    by (rule heap_reach.alloc [OF heap_reach.start, of 100]) (use h in simp_all)
  then have r: "heap_reach (\<lambda>n. memheap_alloc (of_nat n)) memheap_free mh_in_use demo_mheap h'"
    using m h'(1) by (rule heap_reach.free)
  have d: "mh_pool_size demo_mheap = 4096" "mh_start_addr demo_mheap = 0x20000000" by (simp_all add: demo_mheap_def)
  have n: "memheap_round 4000 = 4000" using align_up_eq [of 4000] by (simp add: memheap_round_def)
  show ?thesis
    using memheap_whole_again [OF r demo_mheap_ok(1)] h h' demo_mheap_ok(2) by (auto simp: d n)
qed

section \<open>Reallocation in place\<close>

text \<open>C22: What \<open>rt_memheap_realloc\<close> does under the lock, for a block in use and any new size that is not the
  old one up to the slack: it returns; either it asks for a move, and then the heap is as it was and
  the block too small, or the block has exactly the new size at its old address, no other block changed,
  and no byte of the memory was written.\<close>

theorem memheap_realloc_in_place:
  assumes "mh_ok h" "(p, m) \<in> mh_in_use h" "n < 2 ^ 31"
    "m < memheap_round n \<or> memheap_round n + 36 < m"
  shows "\<exists>move h'. realloc_under_lock p (memheap_round n) h = Some (move, h') \<and>
    (if move then h' = h \<and> m < memheap_round n
     else mh_ok h' \<and> mh_in_use h' = insert (p, memheap_round n) (mh_in_use h - {(p, m)}) \<and> mh_bytes h' = mh_bytes h)"
  by (rule realloc_in_place [OF assms])

theorem memheap_realloc_in_place_witness:
  "\<exists>h m move h'. memheap_alloc 100 demo_mheap = Some (Some 0x20000018, h) \<and> (0x20000018, m) \<in> mh_in_use h \<and>
     realloc_under_lock 0x20000018 200 h = Some (move, h') \<and> (move \<or> (0x20000018, 200) \<in> mh_in_use h')"
proof -
  obtain h m where h: "memheap_alloc 100 demo_mheap = Some (Some 0x20000018, h)" "mh_ok h"
    "mh_in_use h = {(0x20000018, m)}" "m < 140" using demo_memheap_alloc by blast
  have r: "memheap_round 200 = 200" using align_up_eq [of 200] by (simp add: memheap_round_def)
  have "\<exists>move h'. realloc_under_lock 0x20000018 200 h = Some (move, h') \<and>
    (if move then h' = h \<and> m < 200
     else mh_ok h' \<and> mh_in_use h' = insert (0x20000018, 200) (mh_in_use h - {(0x20000018, m)}) \<and> mh_bytes h' = mh_bytes h)"
    by (rule memheap_realloc_in_place [of h "0x20000018" m 200, unfolded r]) (use h in \<open>simp_all add: word_less_nat_alt\<close>)
  then obtain move h' where "realloc_under_lock 0x20000018 200 h = Some (move, h')" "move \<or> (0x20000018, 200) \<in> mh_in_use h'"
    by (auto split: if_splits)
  then show ?thesis using h(1,3) by auto
qed

text \<open>The smallest size, 12, is not a multiple of the alignment: two allocations of one byte each give a
  second block at an address that is not aligned to 8.\<close>

lemma memheap_alignment_lost:
  "\<exists>h h'. memheap_alloc 1 demo_mheap = Some (Some 0x20000018, h) \<and> memheap_alloc 1 h = Some (Some 0x2000003c, h')"
proof -
  have r: "memheap_round 1 = 12" using align_up_eq [of 1] by (simp add: memheap_round_def)
  define h where "h = memheap_take 12 0x20000000 4048 demo_mheap"
  have d0: "mh_free_list demo_mheap = 0x124" "mh_available_size demo_mheap = 4048" "nextb demo_mheap 0x20000000 = 0x20000fe8"
    by (simp_all add: demo_mheap_def)
  let ?g = "null_links 0x20000000 (free_unlink 0x20000000 (chain_insert 0x20000000 0x20000024 demo_mheap))"
  have h: "h = mark_used 0x20000000 (memheap_count 36 (free_push 0x20000024 ?g))"
    by (simp add: h_def memheap_take_eq Let_def)
  have nf: "mi_next_free (mh_item (mark_used x (memheap_count k (free_push a g))) (mh_free_list g)) = a" for x k a g
    by (simp add: mark_used_def free_push_def Let_def)
  have ni: "nextb (chain_insert 0x20000000 0x20000024 demo_mheap) 0x20000024 = 0x20000fe8"
    by (simp add: chain_insert_def Let_def d0)
  have f: "mh_free_list h = 0x124" "mh_available_size h = 4012" "nextb h 0x20000024 = 0x20000fe8"
    by (simp_all add: h d0 ni)
  have f4: "mi_next_free (mh_item h 0x124) = 0x20000024"
    using nf [of "0x20000000" 36 "0x20000024" ?g] by (simp add: h d0)
  note f = f f4
  have m: "MEMITEM_SIZE h 0x20000024 = 4012" by (simp add: MEMITEM_SIZE_def f)
  have d: "mh_free_list demo_mheap = 0x124" "mh_available_size demo_mheap = 4048"
    "mi_next_free (mh_item demo_mheap 0x124) = 0x20000000" "MEMITEM_SIZE demo_mheap 0x20000000 = 4048"
    by (simp_all add: demo_mheap_def MEMITEM_SIZE_def)
  have "memheap_search 12 0x20000000 4048 demo_mheap = Some (0x20000000, 4048)"
    by (subst memheap_search.simps) simp
  then have "memheap_search 12 0x20000000 0 demo_mheap = Some (0x20000000, 4048)"
    by (subst memheap_search.simps) (simp add: d Let_def)
  then have "memheap_alloc 1 demo_mheap = Some (Some 0x20000018, h)"
    by (simp add: memheap_alloc_def r memheap_first_def d h_def)
  moreover have "memheap_search 12 0x20000024 4012 h = Some (0x20000024, 4012)"
    by (subst memheap_search.simps) simp
  then have "memheap_search 12 0x20000024 0 h = Some (0x20000024, 4012)"
    by (subst memheap_search.simps) (simp add: f m Let_def)
  then have "memheap_alloc 1 h = Some (Some 0x2000003c, memheap_take 12 0x20000024 4012 h)"
    by (simp add: memheap_alloc_def r memheap_first_def f)
  ultimately show ?thesis by blast
qed

end
