(* ===== verification/Waitqueue.thy ===== *)
theory Waitqueue
  imports Mailbox
begin

text \<open>
  The wait queues of \<^verbatim>\<open>rt-thread/components/drivers/src/waitqueue.c\<close>: threads that wait, outside of the
  IPC objects, until a driver or another thread wakes the queue, with the flag that remembers a wake-up
  that found nobody.

  A queue and a node are addresses. A node lies on the stack of the thread that waits; \<open>wq_waiting q\<close> are
  the nodes linked at the queue \<open>q\<close>. The wake functions of \<^verbatim>\<open>poll.c\<close> and others are a parameter that
  works on a state of type \<open>'w\<close>.
\<close>

section \<open>The code\<close>

abbreviation (input) RT_WQ_FLAG_CLEAN :: u32 where "RT_WQ_FLAG_CLEAN \<equiv> 0"
abbreviation (input) RT_WQ_FLAG_WAKEUP :: u32 where "RT_WQ_FLAG_WAKEUP \<equiv> 1"

datatype rt_wqueue_func = Default_wake | Wake_at nat

record rt_wqueue_node =
  wn_polling_thread :: tid
  wn_wakeup :: rt_wqueue_func
  wn_key :: u32

record wq_sys =
  wq_krn :: kern
  wq_flag :: "nat \<Rightarrow> u32"
  wq_waiting :: "nat \<Rightarrow> nat list"
  wq_node :: "nat \<Rightarrow> rt_wqueue_node"

definition rt_wqueue_init :: "nat \<Rightarrow> 'z wq_sys_scheme \<Rightarrow> 'z wq_sys_scheme" where
  "rt_wqueue_init q s =
     s\<lparr>wq_flag := (wq_flag s)(q := RT_WQ_FLAG_CLEAN), wq_waiting := (wq_waiting s)(q := [])\<rparr>"

definition rt_wqueue_add :: "nat \<Rightarrow> nat \<Rightarrow> wq_sys \<Rightarrow> wq_sys" where
  "rt_wqueue_add q n s = s\<lparr>wq_waiting := (wq_waiting s)(q := wq_waiting s q @ [n])\<rparr>"

definition rt_wqueue_remove :: "nat \<Rightarrow> wq_sys \<Rightarrow> wq_sys" where
  "rt_wqueue_remove n s = s\<lparr>wq_waiting := (\<lambda>q. removeAll n (wq_waiting s q))\<rparr>"

definition wqueue_default_wake :: int where
  "wqueue_default_wake = 0"

definition call_wakeup ::
    "(nat \<Rightarrow> nat \<Rightarrow> nat \<Rightarrow> 'w \<Rightarrow> int \<times> 'w) \<Rightarrow> rt_wqueue_func \<Rightarrow> nat \<Rightarrow> nat \<Rightarrow> 'w \<Rightarrow> int \<times> 'w" where
  "call_wakeup wakefn f n key w =
     (case f of Default_wake \<Rightarrow> (wqueue_default_wake, w) | Wake_at a \<Rightarrow> wakefn a n key w)"

text \<open>The loop of a wake-up: the first node whose function accepts.\<close>

fun wakeup_scan ::
    "(nat \<Rightarrow> nat \<Rightarrow> nat \<Rightarrow> 'w \<Rightarrow> int \<times> 'w) \<Rightarrow> (nat \<Rightarrow> rt_wqueue_node) \<Rightarrow> nat \<Rightarrow> nat list \<Rightarrow> 'w \<Rightarrow> nat option \<times> 'w" where
  "wakeup_scan wakefn node key [] w = (None, w)"
| "wakeup_scan wakefn node key (n # ns) w =
     (let (r, w1) = call_wakeup wakefn (wn_wakeup (node n)) n key w
      in if r = 0 then (Some n, w1) else wakeup_scan wakefn node key ns w1)"

definition rt_wqueue_wakeup ::
    "(nat \<Rightarrow> nat \<Rightarrow> nat \<Rightarrow> 'w \<Rightarrow> int \<times> 'w) \<Rightarrow> nat \<Rightarrow> nat \<Rightarrow> wq_sys \<times> 'w \<Rightarrow> (wq_sys \<times> 'w) option" where
  "rt_wqueue_wakeup wakefn q key sw = do {
     let (s, w) = sw;
     let s1 = s\<lparr>wq_flag := (wq_flag s)(q := RT_WQ_FLAG_WAKEUP)\<rparr>;
     (case wakeup_scan wakefn (wq_node s1) key (wq_waiting s1 q) w of
        (None, w1) \<Rightarrow> Some (s1, w1)
      | (Some n, w1) \<Rightarrow> do {
          (_, k1) \<leftarrow> rt_thread_resume (wn_polling_thread (wq_node s1 n)) (wq_krn s1);
          let s2 = rt_wqueue_remove n s1;
          k2 \<leftarrow> rt_schedule k1;
          Some (s2\<lparr>wq_krn := k2\<rparr>, w1) }) }"

text \<open>\<open>n\<close> is the address of the local variable \<^verbatim>\<open>__wait\<close>. The first definition ends where the thread is
  switched out.\<close>

definition wqueue_wait_end :: "nat \<Rightarrow> nat \<Rightarrow> wq_sys \<Rightarrow> wq_sys" where
  "wqueue_wait_end q n s = rt_wqueue_remove n (s\<lparr>wq_flag := (wq_flag s)(q := 0)\<rparr>)"

definition rt_wqueue_wait :: "nat \<Rightarrow> nat \<Rightarrow> bool \<Rightarrow> u32 \<Rightarrow> wq_sys \<Rightarrow> (kret \<times> wq_sys) option" where
  "rt_wqueue_wait q n condition msec s = do {
     RT_DEBUG_NOT_IN_INTERRUPT (wq_krn s);
     let tik = rt_tick_from_millisecond msec;
     if condition \<or> tik = 0 then Some (Returned 0, s)
     else do {
       t \<leftarrow> rt_thread_self (wq_krn s);
       let s1 = s\<lparr>wq_node := (wq_node s)(n :=
                  \<lparr>wn_polling_thread = t, wn_wakeup = Default_wake, wn_key = 0\<rparr>)\<rparr>;
       if wq_flag s1 q = RT_WQ_FLAG_WAKEUP then Some (Returned 0, wqueue_wait_end q n s1)
       else do {
         let s2 = rt_wqueue_add q n s1;
         (_, k1) \<leftarrow> rt_thread_suspend t (wq_krn s2);
         k2 \<leftarrow> (if tik \<noteq> RT_WAITING_FOREVER then do {
                  (_, _, k) \<leftarrow> rt_timer_control (TimerOf t) RT_TIMER_CTRL_SET_TIME tik k1;
                  (_, k) \<leftarrow> rt_timer_start (TimerOf t) k;
                  Some k }
                else Some k1);
         k3 \<leftarrow> rt_schedule k2;
         Some (Parked t, s2\<lparr>wq_krn := k3\<rparr>) } } }"

definition rt_wqueue_wait_wake :: "nat \<Rightarrow> nat \<Rightarrow> wq_sys \<Rightarrow> kret \<times> wq_sys" where
  "rt_wqueue_wait_wake q n s = (Returned 0, wqueue_wait_end q n s)"

section \<open>Wake-ups\<close>

text \<open>A wake-up that finds nobody is remembered: the next wait returns at once and uses it up.\<close>

lemma wakeup_remembered:
  assumes "wq_waiting s q = []"
  shows "rt_wqueue_wakeup wakefn q key (s, w) = Some (s\<lparr>wq_flag := (wq_flag s)(q := RT_WQ_FLAG_WAKEUP)\<rparr>, w)"
  using assms by (simp add: rt_wqueue_wakeup_def)

lemma wait_after_wakeup:
  assumes "wq_flag s q = RT_WQ_FLAG_WAKEUP" "current (wq_krn s) = Some t" "irq_nest (wq_krn s) = 0"
    "rt_tick_from_millisecond msec \<noteq> 0"
  shows "\<exists>s'. rt_wqueue_wait q n False msec s = Some (Returned 0, s') \<and> wq_krn s' = wq_krn s \<and>
    wq_flag s' q = RT_WQ_FLAG_CLEAN"
  using assms
  by (simp add: rt_wqueue_wait_def wqueue_wait_end_def rt_wqueue_remove_def RT_DEBUG_NOT_IN_INTERRUPT_def)

text \<open>A wake-up releases the first thread in the queue and leaves the others.\<close>

lemma wakeup_first:
  assumes "kinv (wq_krn s)" "wq_waiting s q = n # ns" "distinct (n # ns)"
    "wq_node s n = \<lparr>wn_polling_thread = t, wn_wakeup = Default_wake, wn_key = k\<rparr>"
    "is_thread (wq_krn s) t" "thread_stat (wq_krn s) t = RT_THREAD_SUSPEND"
    "rt_wqueue_wakeup wakefn q key (s, w) = Some (s', w')"
  shows "w' = w" "kinv (wq_krn s')" "thread_stat (wq_krn s') t = RT_THREAD_READY" "wq_waiting s' q = ns"
proof -
  have sc: "rt_schedule (unpark t (wq_krn s)) = Some (wq_krn s')" "w' = w"
    and s': "wq_waiting s' = (\<lambda>q. removeAll n (wq_waiting s q))"
    using assms(2,4,7) resume_eq [OF assms(1,5,6)]
    by (auto simp: rt_wqueue_wakeup_def call_wakeup_def wqueue_default_wake_def rt_wqueue_remove_def Some_bind_iff)
  show "w' = w" by (rule sc(2))
  show "kinv (wq_krn s')" by (rule schedule_kinv [OF unpark_kinv [OF assms(1,5,6)] sc(1)])
  show "thread_stat (wq_krn s') t = RT_THREAD_READY" using schedule_same [OF sc(1)] by simp
  show "wq_waiting s' q = ns" using s' assms(2,3) by simp
qed

text \<open>A thread whose wait has timed out keeps its node in the queue until it runs. A wake-up that meets
  this node first is used up by it: the thread behind it goes on waiting, and the flag, which the first
  thread clears when it runs, does not keep the wake-up either.\<close>

lemma wakeup_lost_on_timeout:
  assumes "wq_waiting s q = [n, m]" "n \<noteq> m" "wn_wakeup (wq_node s n) = Default_wake"
    "wn_polling_thread (wq_node s n) = t" "is_thread (wq_krn s) t" "thread_stat (wq_krn s) t = RT_THREAD_READY"
    "rt_wqueue_wakeup wakefn q key (s, w) = Some (s1, w1)" "rt_wqueue_wait_wake q n s1 = (r, s2)"
  shows "wq_waiting s2 q = [m]" "wq_flag s2 q = RT_WQ_FLAG_CLEAN" "thr (wq_krn s2) = thr (wq_krn s)"
proof -
  have r: "rt_thread_resume t (wq_krn s) = Some (- RT_ERROR, wq_krn s)"
    using assms(5,6) by (simp add: rt_thread_resume_def)
  obtain k where k: "rt_schedule (wq_krn s) = Some k" "wq_krn s1 = k" and w: "wq_waiting s1 q = [m]"
    using assms(1-4,7) r
    by (auto simp: rt_wqueue_wakeup_def call_wakeup_def wqueue_default_wake_def rt_wqueue_remove_def Some_bind_iff)
  then show "thr (wq_krn s2) = thr (wq_krn s)" "wq_waiting s2 q = [m]" "wq_flag s2 q = RT_WQ_FLAG_CLEAN"
    using schedule_same [OF k(1)] assms(2,8)
    by (auto simp: rt_wqueue_wait_wake_def wqueue_wait_end_def rt_wqueue_remove_def)
qed

end
