(* ===== verification/Device.thy ===== *)
theory Device
  imports Kservice Waitqueue
begin

text \<open>
  The device framework of \<^verbatim>\<open>rt-thread/src/device.c\<close>: registration, search, and the dispatch of the
  operations of a device to its driver, with the count of the users that have it open.

  A device is named by its address; its object header is \<open>Obj d\<close> of the kernel state, its wait queue
  (\<open>RT_USING_POSIX\<close> is configured) the queue \<open>d\<close>. The drivers are
  parameters: a table of optional functions for each device (\<open>struct rt_device_ops\<close>) that work on the
  whole state. \<open>ds_world\<close> stands for what the drivers and the allocator keep. A callback is the address
  of its function.

  \<open>driver_ok\<close> is what the framework relies on; \<open>dev_step\<close> is a device in use by any number of callers.
\<close>

section \<open>The code\<close>

abbreviation (input) RT_DEVICE_FLAG_STANDALONE :: u16 where "RT_DEVICE_FLAG_STANDALONE \<equiv> 0x008"
abbreviation (input) RT_DEVICE_FLAG_ACTIVATED :: u16 where "RT_DEVICE_FLAG_ACTIVATED \<equiv> 0x010"
abbreviation (input) RT_DEVICE_OFLAG_CLOSE :: u16 where "RT_DEVICE_OFLAG_CLOSE \<equiv> 0x000"
abbreviation (input) RT_DEVICE_OFLAG_OPEN :: u16 where "RT_DEVICE_OFLAG_OPEN \<equiv> 0x008"
abbreviation (input) RT_DEVICE_OFLAG_MASK :: u16 where "RT_DEVICE_OFLAG_MASK \<equiv> 0xf0f"

record rt_device =
  dv_type :: u32
  dv_flag :: u16
  dv_open_flag :: u16
  dv_ref_count :: u8
  dv_device_id :: u8
  dv_rx_indicate :: "nat option"
  dv_tx_complete :: "nat option"
  dv_fops :: "nat option"

record 'w dev_sys = wq_sys +
  ds_errno :: rt_err_t
  ds_dev :: "nat \<Rightarrow> rt_device"
  ds_world :: 'w

record 'w rt_device_ops =
  op_init :: "(nat \<Rightarrow> 'w dev_sys \<Rightarrow> (rt_err_t \<times> 'w dev_sys) option) option"
  op_open :: "(nat \<Rightarrow> u16 \<Rightarrow> 'w dev_sys \<Rightarrow> (rt_err_t \<times> 'w dev_sys) option) option"
  op_close :: "(nat \<Rightarrow> 'w dev_sys \<Rightarrow> (rt_err_t \<times> 'w dev_sys) option) option"
  op_read :: "(nat \<Rightarrow> u32 \<Rightarrow> nat \<Rightarrow> u32 \<Rightarrow> 'w dev_sys \<Rightarrow> (u32 \<times> 'w dev_sys) option) option"
  op_write :: "(nat \<Rightarrow> u32 \<Rightarrow> nat \<Rightarrow> u32 \<Rightarrow> 'w dev_sys \<Rightarrow> (u32 \<times> 'w dev_sys) option) option"
  op_control :: "(nat \<Rightarrow> u32 \<Rightarrow> nat \<Rightarrow> 'w dev_sys \<Rightarrow> (rt_err_t \<times> 'w dev_sys) option) option"

abbreviation upd_dev :: "nat \<Rightarrow> (rt_device \<Rightarrow> rt_device) \<Rightarrow> 'w dev_sys \<Rightarrow> 'w dev_sys" where
  "upd_dev d f s \<equiv> s\<lparr>ds_dev := (ds_dev s)(d := f (ds_dev s d))\<rparr>"

definition dev_errno :: "rt_err_t \<Rightarrow> 'w dev_sys \<Rightarrow> 'w dev_sys" where
  "dev_errno e s = (let (k, g) = rt_set_errno e (wq_krn s, ds_errno s) in s\<lparr>wq_krn := k, ds_errno := g\<rparr>)"

definition rt_device_find :: "string \<Rightarrow> kern \<Rightarrow> (oref option \<times> kern) option" where
  "rt_device_find name s = do {
     let s1 = (if rt_thread_self s \<noteq> None then rt_enter_critical s else s);
     information \<leftarrow> rt_object_get_information RT_Object_Class_Device;
     let found = container_find information name s1;
     s2 \<leftarrow> (if rt_thread_self s1 \<noteq> None then rt_exit_critical s1 else Some s1);
     Some (found, s2) }"

definition rt_device_register :: "nat option \<Rightarrow> string \<Rightarrow> u16 \<Rightarrow> 'w dev_sys \<Rightarrow> (rt_err_t \<times> 'w dev_sys) option" where
  "rt_device_register dev name flags s =
     (case dev of
        None \<Rightarrow> Some (- RT_ERROR, s)
      | Some d \<Rightarrow> do {
          (found, k1) \<leftarrow> rt_device_find name (wq_krn s);
          if found \<noteq> None then Some (- RT_ERROR, s\<lparr>wq_krn := k1\<rparr>)
          else do {
            k2 \<leftarrow> rt_object_init (Obj d) RT_Object_Class_Device name k1;
            let s1 = upd_dev d (\<lambda>dev. dev\<lparr>dv_flag := flags, dv_ref_count := 0, dv_open_flag := 0,
                       dv_fops := None\<rparr>) (s\<lparr>wq_krn := k2\<rparr>);
            Some (RT_EOK, rt_wqueue_init d s1) } })"

definition is_device :: "nat \<Rightarrow> 'w dev_sys \<Rightarrow> bool" where
  "is_device d s \<longleftrightarrow> rt_object_get_type (Obj d) (wq_krn s) = RT_Object_Class_Device"

definition rt_device_unregister :: "nat \<Rightarrow> 'w dev_sys \<Rightarrow> (rt_err_t \<times> 'w dev_sys) option" where
  "rt_device_unregister d s = do {
     RT_ASSERT (is_device d s);
     RT_ASSERT (rt_object_is_systemobject (Obj d) (wq_krn s));
     Some (RT_EOK, s\<lparr>wq_krn := rt_object_detach (Obj d) (wq_krn s)\<rparr>) }"

definition rt_device_init_all :: rt_err_t where
  "rt_device_init_all = RT_EOK"

text \<open>\<open>sz\<close> is \<^verbatim>\<open>sizeof(struct rt_device)\<close>.\<close>

definition rt_device_create ::
    "(nat \<Rightarrow> 'w \<Rightarrow> nat option \<times> 'w) \<Rightarrow> u32 \<Rightarrow> u32 \<Rightarrow> u32 \<Rightarrow> 'w dev_sys \<Rightarrow> nat option \<times> 'w dev_sys" where
  "rt_device_create malloc sz type attach_size s =
     (let n = RT_ALIGN sz RT_ALIGN_SIZE;
          attach_size = RT_ALIGN attach_size RT_ALIGN_SIZE;
          n = n + attach_size
      in case malloc (unat n) (ds_world s) of
           (None, w) \<Rightarrow> (None, s\<lparr>ds_world := w\<rparr>)
         | (Some d, w) \<Rightarrow>
             (Some d, upd_dev d (\<lambda>_. \<lparr>dv_type = type, dv_flag = 0, dv_open_flag = 0, dv_ref_count = 0,
                  dv_device_id = 0, dv_rx_indicate = None, dv_tx_complete = None, dv_fops = None\<rparr>)
                (s\<lparr>ds_world := w, wq_krn := upd_obj (Obj d)
                   (\<lambda>_. \<lparr>obj_name = '''', obj_type = 0, obj_flag = 0\<rparr>) (wq_krn s)\<rparr>)))"

definition rt_device_destroy :: "(nat \<Rightarrow> 'w \<Rightarrow> 'w option) \<Rightarrow> nat \<Rightarrow> 'w dev_sys \<Rightarrow> 'w dev_sys option" where
  "rt_device_destroy free d s = do {
     RT_ASSERT (is_device d s);
     RT_ASSERT (\<not> rt_object_is_systemobject (Obj d) (wq_krn s));
     w \<leftarrow> free d (ds_world s);
     Some (s\<lparr>wq_krn := rt_object_detach (Obj d) (wq_krn s), ds_world := w\<rparr>) }"

definition dev_activated :: "nat \<Rightarrow> 'w dev_sys \<Rightarrow> bool" where
  "dev_activated d s \<longleftrightarrow> dv_flag (ds_dev s d) AND RT_DEVICE_FLAG_ACTIVATED \<noteq> 0"

definition set_activated :: "nat \<Rightarrow> 'w dev_sys \<Rightarrow> 'w dev_sys" where
  "set_activated d = upd_dev d (\<lambda>dev. dev\<lparr>dv_flag := dv_flag dev OR RT_DEVICE_FLAG_ACTIVATED\<rparr>)"

definition rt_device_init :: "(nat \<Rightarrow> 'w rt_device_ops) \<Rightarrow> nat \<Rightarrow> 'w dev_sys \<Rightarrow> (rt_err_t \<times> 'w dev_sys) option" where
  "rt_device_init ops d s =
     (case op_init (ops d) of
        None \<Rightarrow> Some (RT_EOK, s)
      | Some init \<Rightarrow>
          if \<not> dev_activated d s then do {
            (result, s1) \<leftarrow> init d s;
            Some (result, if result \<noteq> RT_EOK then s1 else set_activated d s1) }
          else Some (RT_EOK, s))"

text \<open>The first part of \<open>rt_device_open\<close>: the device is initialised, unless it is already.\<close>

definition open_activate :: "(nat \<Rightarrow> 'w rt_device_ops) \<Rightarrow> nat \<Rightarrow> 'w dev_sys \<Rightarrow> (rt_err_t \<times> 'w dev_sys) option" where
  "open_activate ops d s =
     (if \<not> dev_activated d s then
        (case op_init (ops d) of
           None \<Rightarrow> Some (RT_EOK, set_activated d s)
         | Some init \<Rightarrow> do {
             (result, s1) \<leftarrow> init d s;
             Some (result, if result \<noteq> RT_EOK then s1 else set_activated d s1) })
      else Some (RT_EOK, s))"

definition rt_device_open :: "(nat \<Rightarrow> 'w rt_device_ops) \<Rightarrow> nat \<Rightarrow> u16 \<Rightarrow> 'w dev_sys \<Rightarrow> (rt_err_t \<times> 'w dev_sys) option" where
  "rt_device_open ops d oflag s = do {
     RT_ASSERT (is_device d s);
     (result, s1) \<leftarrow> open_activate ops d s;
     if result \<noteq> RT_EOK then Some (result, s1)
     else if dv_flag (ds_dev s1 d) AND RT_DEVICE_FLAG_STANDALONE \<noteq> 0 \<and>
             dv_open_flag (ds_dev s1 d) AND RT_DEVICE_OFLAG_OPEN \<noteq> 0 then Some (- RT_EBUSY, s1)
     else do {
       (result, s2) \<leftarrow> (case op_open (ops d) of
          Some opn \<Rightarrow> opn d oflag s1
        | None \<Rightarrow> Some (result, upd_dev d (\<lambda>dev. dev\<lparr>dv_open_flag := oflag AND RT_DEVICE_OFLAG_MASK\<rparr>) s1));
       if result = RT_EOK \<or> result = - RT_ENOSYS then do {
         let s3 = upd_dev d (\<lambda>dev. dev\<lparr>dv_open_flag := dv_open_flag dev OR RT_DEVICE_OFLAG_OPEN,
                    dv_ref_count := dv_ref_count dev + 1\<rparr>) s2;
         RT_ASSERT (dv_ref_count (ds_dev s3 d) \<noteq> 0);
         Some (result, s3) }
       else Some (result, s2) } }"

definition rt_device_close :: "(nat \<Rightarrow> 'w rt_device_ops) \<Rightarrow> nat \<Rightarrow> 'w dev_sys \<Rightarrow> (rt_err_t \<times> 'w dev_sys) option" where
  "rt_device_close ops d s = do {
     RT_ASSERT (is_device d s);
     if dv_ref_count (ds_dev s d) = 0 then Some (- RT_ERROR, s)
     else do {
       let s1 = upd_dev d (\<lambda>dev. dev\<lparr>dv_ref_count := dv_ref_count dev - 1\<rparr>) s;
       if dv_ref_count (ds_dev s1 d) \<noteq> 0 then Some (RT_EOK, s1)
       else do {
         (result, s2) \<leftarrow> (case op_close (ops d) of Some cls \<Rightarrow> cls d s1 | None \<Rightarrow> Some (RT_EOK, s1));
         Some (result,
           if result = RT_EOK \<or> result = - RT_ENOSYS
           then upd_dev d (\<lambda>dev. dev\<lparr>dv_open_flag := RT_DEVICE_OFLAG_CLOSE\<rparr>) s2 else s2) } } }"

definition rt_device_read ::
    "(nat \<Rightarrow> 'w rt_device_ops) \<Rightarrow> nat \<Rightarrow> u32 \<Rightarrow> nat \<Rightarrow> u32 \<Rightarrow> 'w dev_sys \<Rightarrow> (u32 \<times> 'w dev_sys) option" where
  "rt_device_read ops d pos buffer len s = do {
     RT_ASSERT (is_device d s);
     if dv_ref_count (ds_dev s d) = 0 then Some (0, dev_errno (- RT_ERROR) s)
     else (case op_read (ops d) of
        Some rd \<Rightarrow> rd d pos buffer len s
      | None \<Rightarrow> Some (0, dev_errno (- RT_ENOSYS) s)) }"

definition rt_device_write ::
    "(nat \<Rightarrow> 'w rt_device_ops) \<Rightarrow> nat \<Rightarrow> u32 \<Rightarrow> nat \<Rightarrow> u32 \<Rightarrow> 'w dev_sys \<Rightarrow> (u32 \<times> 'w dev_sys) option" where
  "rt_device_write ops d pos buffer len s = do {
     RT_ASSERT (is_device d s);
     if dv_ref_count (ds_dev s d) = 0 then Some (0, dev_errno (- RT_ERROR) s)
     else (case op_write (ops d) of
        Some wr \<Rightarrow> wr d pos buffer len s
      | None \<Rightarrow> Some (0, dev_errno (- RT_ENOSYS) s)) }"

definition rt_device_control ::
    "(nat \<Rightarrow> 'w rt_device_ops) \<Rightarrow> nat \<Rightarrow> u32 \<Rightarrow> nat \<Rightarrow> 'w dev_sys \<Rightarrow> (rt_err_t \<times> 'w dev_sys) option" where
  "rt_device_control ops d cmd arg s = do {
     RT_ASSERT (is_device d s);
     (case op_control (ops d) of
        Some ctl \<Rightarrow> ctl d cmd arg s
      | None \<Rightarrow> Some (- RT_ENOSYS, s)) }"

definition rt_device_set_rx_indicate :: "nat \<Rightarrow> nat option \<Rightarrow> 'w dev_sys \<Rightarrow> (rt_err_t \<times> 'w dev_sys) option" where
  "rt_device_set_rx_indicate d rx_ind s = do {
     RT_ASSERT (is_device d s);
     Some (RT_EOK, upd_dev d (\<lambda>dev. dev\<lparr>dv_rx_indicate := rx_ind\<rparr>) s) }"

definition rt_device_set_tx_complete :: "nat \<Rightarrow> nat option \<Rightarrow> 'w dev_sys \<Rightarrow> (rt_err_t \<times> 'w dev_sys) option" where
  "rt_device_set_tx_complete d tx_done s = do {
     RT_ASSERT (is_device d s);
     Some (RT_EOK, upd_dev d (\<lambda>dev. dev\<lparr>dv_tx_complete := tx_done\<rparr>) s) }"

section \<open>The users of a device\<close>

abbreviation dev_opened :: "nat \<Rightarrow> 'w dev_sys \<Rightarrow> bool" where
  "dev_opened d s \<equiv> dv_open_flag (ds_dev s d) AND RT_DEVICE_OFLAG_OPEN \<noteq> 0"

abbreviation dev_standalone :: "nat \<Rightarrow> 'w dev_sys \<Rightarrow> bool" where
  "dev_standalone d s \<equiv> dv_flag (ds_dev s d) AND RT_DEVICE_FLAG_STANDALONE \<noteq> 0"

text \<open>What nobody but the framework changes in a device: its class, the count and whether it is shared;
  and what a driver keeps while the device is in use.\<close>

definition dev_kept :: "nat \<Rightarrow> 'w dev_sys \<Rightarrow> 'w dev_sys \<Rightarrow> bool" where
  "dev_kept d s s' \<longleftrightarrow> is_device d s' = is_device d s \<and> dv_ref_count (ds_dev s' d) = dv_ref_count (ds_dev s d) \<and>
     dev_standalone d s' = dev_standalone d s"

definition use_kept :: "nat \<Rightarrow> 'w dev_sys \<Rightarrow> 'w dev_sys \<Rightarrow> bool" where
  "use_kept d s s' \<longleftrightarrow> dev_kept d s s' \<and> (dev_opened d s \<longrightarrow> dev_opened d s') \<and>
     (dev_activated d s \<longrightarrow> dev_activated d s')"

text \<open>The contract of a driver: its functions return and keep the above. A successful open may set the
  open flags as it likes, a close may deactivate the device, and an initialisation reports its failures
  with another error than the missing function.\<close>

definition driver_ok :: "'w rt_device_ops \<Rightarrow> nat \<Rightarrow> bool" where
  "driver_ok op d \<longleftrightarrow>
     (\<forall>f s. op_init op = Some f \<longrightarrow> (\<exists>r s'. f d s = Some (r, s') \<and> use_kept d s s' \<and> r \<noteq> - RT_ENOSYS)) \<and>
     (\<forall>f s oflag. op_open op = Some f \<longrightarrow> (\<exists>r s'. f d oflag s = Some (r, s') \<and> dev_kept d s s' \<and>
        (dev_activated d s \<longrightarrow> dev_activated d s') \<and> (r \<noteq> RT_EOK \<longrightarrow> r \<noteq> - RT_ENOSYS \<longrightarrow> use_kept d s s'))) \<and>
     (\<forall>f s. op_close op = Some f \<longrightarrow> (\<exists>r s'. f d s = Some (r, s') \<and> dev_kept d s s')) \<and>
     (\<forall>f s pos b n. op_read op = Some f \<longrightarrow> (\<exists>r s'. f d pos b n s = Some (r, s') \<and> use_kept d s s')) \<and>
     (\<forall>f s pos b n. op_write op = Some f \<longrightarrow> (\<exists>r s'. f d pos b n s = Some (r, s') \<and> use_kept d s s')) \<and>
     (\<forall>f s cmd a. op_control op = Some f \<longrightarrow> (\<exists>r s'. f d cmd a s = Some (r, s') \<and> use_kept d s s'))"

lemma driver_okD:
  assumes "driver_ok op d"
  shows "op_init op = Some fi \<Longrightarrow> \<exists>r s'. fi d s = Some (r, s') \<and> use_kept d s s' \<and> r \<noteq> - RT_ENOSYS"
    "op_open op = Some fo \<Longrightarrow> \<exists>r s'. fo d oflag s = Some (r, s') \<and> dev_kept d s s' \<and>
      (dev_activated d s \<longrightarrow> dev_activated d s') \<and> (r \<noteq> RT_EOK \<longrightarrow> r \<noteq> - RT_ENOSYS \<longrightarrow> use_kept d s s')"
    "op_close op = Some fc \<Longrightarrow> \<exists>r s'. fc d s = Some (r, s') \<and> dev_kept d s s'"
    "op_read op = Some fr \<Longrightarrow> \<exists>m s'. fr d pos b n s = Some (m, s') \<and> use_kept d s s'"
    "op_write op = Some fw \<Longrightarrow> \<exists>m s'. fw d pos b n s = Some (m, s') \<and> use_kept d s s'"
    "op_control op = Some ft \<Longrightarrow> \<exists>r s'. ft d cmd a s = Some (r, s') \<and> use_kept d s s'"
  using assms unfolding driver_ok_def by simp_all

text \<open>The device \<open>d\<close> with the number of users that have it open. Only a user closes it.\<close>

inductive dev_step :: "(nat \<Rightarrow> 'w rt_device_ops) \<Rightarrow> nat \<Rightarrow> 'w dev_sys \<times> nat \<Rightarrow> 'w dev_sys \<times> nat \<Rightarrow> bool"
  for ops d where
  opn: "rt_device_open ops d oflag s = Some (r, s') \<Longrightarrow>
    dev_step ops d (s, n) (s', if r = RT_EOK \<or> r = - RT_ENOSYS then Suc n else n)"
| cls: "rt_device_close ops d s = Some (r, s') \<Longrightarrow> dev_step ops d (s, Suc n) (s', n)"
| init: "rt_device_init ops d s = Some (r, s') \<Longrightarrow> dev_step ops d (s, n) (s', n)"
| rd: "rt_device_read ops d pos b len s = Some (m, s') \<Longrightarrow> dev_step ops d (s, n) (s', n)"
| wr: "rt_device_write ops d pos b len s = Some (m, s') \<Longrightarrow> dev_step ops d (s, n) (s', n)"
| ctl: "rt_device_control ops d cmd a s = Some (r, s') \<Longrightarrow> dev_step ops d (s, n) (s', n)"
| env: "use_kept d s s' \<Longrightarrow> dev_step ops d (s, n) (s', n)"

definition dev_inv :: "nat \<Rightarrow> 'w dev_sys \<times> nat \<Rightarrow> bool" where
  "dev_inv d = (\<lambda>(s, n). is_device d s \<and> unat (dv_ref_count (ds_dev s d)) = n \<and>
     (0 < n \<longrightarrow> dev_opened d s \<and> dev_activated d s) \<and> (dev_standalone d s \<longrightarrow> n \<le> 1))"

lemma dev_inv_use: "dev_inv d (s, n) \<Longrightarrow> use_kept d s s' \<Longrightarrow> dev_inv d (s', n)"
  by (auto simp: dev_inv_def use_kept_def dev_kept_def)

lemma or_bit_set:
  "(w OR RT_DEVICE_OFLAG_OPEN) AND RT_DEVICE_OFLAG_OPEN \<noteq> (0 :: u16)"
  "(w OR RT_DEVICE_FLAG_ACTIVATED) AND RT_DEVICE_FLAG_ACTIVATED \<noteq> (0 :: u16)"
  "(w OR RT_DEVICE_FLAG_ACTIVATED) AND RT_DEVICE_FLAG_STANDALONE = w AND (RT_DEVICE_FLAG_STANDALONE :: u16)"
  by (simp_all add: bit.conj_disj_distrib2)

lemma set_activated_kept: "use_kept d s (set_activated d s)" "dev_activated d (set_activated d s)"
  by (simp_all add: set_activated_def use_kept_def dev_kept_def is_device_def dev_activated_def or_bit_set)

lemma use_kept_trans: "use_kept d s s1 \<Longrightarrow> use_kept d s1 s2 \<Longrightarrow> use_kept d s s2"
  by (auto simp: use_kept_def dev_kept_def)

lemma use_kept_refl [simp]: "use_kept d s s"
  by (simp add: use_kept_def dev_kept_def)

lemma dev_errno_kept [simp]: "use_kept d s (dev_errno e s)"
  by (auto simp: dev_errno_def rt_set_errno_def use_kept_def dev_kept_def is_device_def rt_object_get_type_def
      dev_activated_def split: option.split prod.split)

lemma activate_kept:
  assumes "driver_ok (ops d) d"
  shows "\<exists>r s1. open_activate ops d s = Some (r, s1) \<and> use_kept d s s1 \<and> r \<noteq> - RT_ENOSYS \<and>
    (r = RT_EOK \<longrightarrow> dev_activated d s1)"
proof (cases "dev_activated d s \<or> op_init (ops d) = None")
  case True
  then show ?thesis using set_activated_kept [of d s] by (auto simp: open_activate_def)
next
  case False
  then obtain f where f: "op_init (ops d) = Some f" by auto
  obtain r s1 where r: "f d s = Some (r, s1)" "use_kept d s s1" "r \<noteq> - RT_ENOSYS"
    using driver_okD(1) [OF assms f] by blast
  have "use_kept d s (set_activated d s1)" using use_kept_trans r(2) set_activated_kept(1) by blast
  then show ?thesis using False f r set_activated_kept(2) [of d s1] by (simp add: open_activate_def)
qed

text \<open>Opening: the count grows exactly on success.\<close>

lemma device_open_users:
  assumes "dev_inv d (s, n)" "driver_ok (ops d) d" "rt_device_open ops d oflag s = Some (r, s')"
  shows "dev_inv d (s', if r = RT_EOK \<or> r = - RT_ENOSYS then Suc n else n)"
proof -
  obtain e s1 where a: "open_activate ops d s = Some (e, s1)" "use_kept d s s1" "e \<noteq> - RT_ENOSYS"
    "e = RT_EOK \<longrightarrow> dev_activated d s1"
    using activate_kept [of ops d s] assms(2) by blast
  note i1 = dev_inv_use [OF assms(1) a(2)]
  show ?thesis
  proof (cases "e = RT_EOK \<and> \<not> (dev_standalone d s1 \<and> dev_opened d s1)")
    case False
    then have "s' = s1 \<and> r \<noteq> RT_EOK \<and> r \<noteq> - RT_ENOSYS"
      using assms(3) a by (auto simp: rt_device_open_def Some_bind_iff split: if_splits)
    then show ?thesis using i1 by simp
  next
    case True
    let ?o = "case op_open (ops d) of Some opn \<Rightarrow> opn d oflag s1
        | None \<Rightarrow> Some (RT_EOK, upd_dev d (\<lambda>dev. dev\<lparr>dv_open_flag := oflag AND RT_DEVICE_OFLAG_MASK\<rparr>) s1)"
    obtain e2 s2 where o: "?o = Some (e2, s2)" "dev_kept d s1 s2" "dev_activated d s2"
      "e2 \<noteq> RT_EOK \<longrightarrow> e2 \<noteq> - RT_ENOSYS \<longrightarrow> use_kept d s1 s2"
    proof (cases "op_open (ops d)")
      case None
      then show ?thesis using that True a(4) by (auto simp: dev_kept_def is_device_def dev_activated_def)
    next
      case (Some f)
      obtain r2 s2 where "f d oflag s1 = Some (r2, s2)" "dev_kept d s1 s2"
        "dev_activated d s1 \<longrightarrow> dev_activated d s2" "r2 \<noteq> RT_EOK \<longrightarrow> r2 \<noteq> - RT_ENOSYS \<longrightarrow> use_kept d s1 s2"
        using driver_okD(2) [OF assms(2) Some] by blast
      then show ?thesis using that Some True a(4) by simp
    qed
    let ?s3 = "upd_dev d (\<lambda>dev. dev\<lparr>dv_open_flag := dv_open_flag dev OR RT_DEVICE_OFLAG_OPEN,
        dv_ref_count := dv_ref_count dev + 1\<rparr>) s2"
    have i2: "is_device d s2" "unat (dv_ref_count (ds_dev s2 d)) = n" "dev_standalone d s2 \<longrightarrow> n = 0"
      using i1 o(2) True by (auto simp: dev_inv_def dev_kept_def)
    show ?thesis
    proof (cases "e2 = RT_EOK \<or> e2 = - RT_ENOSYS")
      case False
      then have "s' = s2 \<and> r = e2"
        using assms(3) a(1) o(1) True by (auto simp: rt_device_open_def Some_bind_iff split: if_splits)
      then show ?thesis using dev_inv_use [OF i1] o(4) False by auto
    next
      case t: True
      then have s': "s' = ?s3" "r = e2" "dv_ref_count (ds_dev s2 d) + 1 \<noteq> 0"
        using assms(3) a(1) o(1) True by (auto simp: rt_device_open_def Some_bind_iff split: if_splits)
      have "unat (dv_ref_count (ds_dev s2 d) + 1) = Suc n"
        using s'(3) i2(2) by (metis add.commute unatSuc)
      then show ?thesis using s'(1,2) i2 o(3) t
        by (auto simp: dev_inv_def is_device_def dev_activated_def or_bit_set)
    qed
  qed
qed

text \<open>Closing: the driver is called when the last user leaves, and only then.\<close>

lemma device_close_users:
  assumes "dev_inv d (s, Suc n)" "driver_ok (ops d) d" "rt_device_close ops d s = Some (r, s')"
  shows "dev_inv d (s', n)"
proof -
  let ?s1 = "upd_dev d (\<lambda>dev. dev\<lparr>dv_ref_count := dv_ref_count dev - 1\<rparr>) s"
  have c0: "dv_ref_count (ds_dev s d) \<noteq> 0" using assms(1) by (auto simp: dev_inv_def)
  have c: "dv_ref_count (ds_dev s d) \<noteq> 0" "unat (dv_ref_count (ds_dev s d) - 1) = n"
    using assms(1) unat_minus_one [OF c0] c0 by (simp_all add: dev_inv_def)
  have i1: "dev_inv d (?s1, n)" using assms(1) c by (auto simp: dev_inv_def is_device_def dev_activated_def)
  have z: "dv_ref_count (ds_dev s d) - 1 \<noteq> 0 \<longleftrightarrow> n \<noteq> 0" using c(2) by (metis unat_eq_zero)
  show ?thesis
  proof (cases n)
    case (Suc m)
    then have "s' = ?s1" using assms(3) c(1) z by (auto simp: rt_device_close_def Some_bind_iff)
    then show ?thesis using i1 by simp
  next
    case 0
    have "\<exists>r2 s2. (case op_close (ops d) of Some cls \<Rightarrow> cls d ?s1 | None \<Rightarrow> Some (RT_EOK, ?s1)) = Some (r2, s2) \<and>
        dev_kept d ?s1 s2"
    proof (cases "op_close (ops d)")
      case (Some f)
      then show ?thesis using driver_okD(3) [OF assms(2) Some, of ?s1] by simp
    qed (simp add: dev_kept_def)
    then obtain r2 s2 where o: "(case op_close (ops d) of Some cls \<Rightarrow> cls d ?s1 | None \<Rightarrow> Some (RT_EOK, ?s1)) = Some (r2, s2)"
      "dev_kept d ?s1 s2" by blast
    define x where "x = ?s1"
    have t: "RT_ASSERT (is_device d s) = Some ()" using assms(1) by (simp add: dev_inv_def)
    have zero: "\<not> dv_ref_count (ds_dev x d) \<noteq> 0" using z 0 by (simp add: x_def)
    have "Some (r, s') = Some (r2, if r2 = RT_EOK \<or> r2 = - RT_ENOSYS
        then upd_dev d (\<lambda>dev. dev\<lparr>dv_open_flag := RT_DEVICE_OFLAG_CLOSE\<rparr>) s2 else s2)"
      using t c(1) zero o(1) unfolding assms(3) [symmetric] rt_device_close_def Let_def x_def [symmetric] by simp
    then have "s' = s2 \<or> s' = upd_dev d (\<lambda>dev. dev\<lparr>dv_open_flag := RT_DEVICE_OFLAG_CLOSE\<rparr>) s2"
      by (simp split: if_splits)
    then show ?thesis using i1 o(2) 0 by (auto simp: dev_inv_def dev_kept_def is_device_def)
  qed
qed

lemma device_call_kept:
  assumes "driver_ok (ops d) d"
  shows "rt_device_read ops d pos b len s = Some (m, s') \<Longrightarrow> use_kept d s s'"
    "rt_device_write ops d pos b len s = Some (m, s') \<Longrightarrow> use_kept d s s'"
    "rt_device_control ops d cmd a s = Some (r, s') \<Longrightarrow> use_kept d s s'"
    "rt_device_init ops d s = Some (r, s') \<Longrightarrow> use_kept d s s'"
proof -
  note dk = driver_okD [OF assms]
  show "use_kept d s s'" if "rt_device_read ops d pos b len s = Some (m, s')"
  proof (cases "op_read (ops d)")
    case (Some f)
    then show ?thesis using that dk(4) [OF Some, of pos b len s]
      by (auto simp: rt_device_read_def Some_bind_iff split: if_splits)
  qed (use that in \<open>auto simp: rt_device_read_def Some_bind_iff split: if_splits\<close>)
  show "use_kept d s s'" if "rt_device_write ops d pos b len s = Some (m, s')"
  proof (cases "op_write (ops d)")
    case (Some f)
    then show ?thesis using that dk(5) [OF Some, of pos b len s]
      by (auto simp: rt_device_write_def Some_bind_iff split: if_splits)
  qed (use that in \<open>auto simp: rt_device_write_def Some_bind_iff split: if_splits\<close>)
  show "use_kept d s s'" if "rt_device_control ops d cmd a s = Some (r, s')"
  proof (cases "op_control (ops d)")
    case (Some f)
    then show ?thesis using that dk(6) [OF Some, of cmd a s]
      by (auto simp: rt_device_control_def Some_bind_iff)
  qed (use that in \<open>auto simp: rt_device_control_def Some_bind_iff\<close>)
  assume i: "rt_device_init ops d s = Some (r, s')"
  show "use_kept d s s'"
  proof (cases "op_init (ops d) = None \<or> dev_activated d s")
    case True
    then show ?thesis using i by (auto simp: rt_device_init_def split: option.splits)
  next
    case False
    then have "open_activate ops d s = Some (r, s')"
      using i by (auto simp: rt_device_init_def open_activate_def split: option.splits)
    then show ?thesis using activate_kept [of ops d s] assms by auto
  qed
qed

lemma dev_step_inv: "dev_step ops d x y \<Longrightarrow> driver_ok (ops d) d \<Longrightarrow> dev_inv d x \<Longrightarrow> dev_inv d y"
proof (induction rule: dev_step.induct)
  case (opn oflag s r s' n)
  then show ?case using device_open_users [OF opn(3,2,1)] by simp
qed (auto intro: device_close_users dev_inv_use dest: device_call_kept)

lemma dev_steps_inv: "(dev_step ops d)\<^sup>*\<^sup>* x y \<Longrightarrow> driver_ok (ops d) d \<Longrightarrow> dev_inv d x \<Longrightarrow> dev_inv d y"
  by (induction rule: rtranclp_induct) (auto intro: dev_step_inv)

text \<open>When the driver's close fails, nobody uses the device, but the flag stays set: a stand-alone device
  can then neither be opened again nor closed.\<close>

lemma failed_close_wedges:
  assumes "is_device d s" "dv_ref_count (ds_dev s d) = 1" "dev_opened d s" "dev_standalone d s" "dev_activated d s"
    "op_close (ops d) = Some (\<lambda>d s. Some (- RT_EIO, s))"
  obtains s1 where "rt_device_close ops d s = Some (- RT_EIO, s1)"
    "rt_device_open ops d oflag s1 = Some (- RT_EBUSY, s1)" "rt_device_close ops d s1 = Some (- RT_ERROR, s1)"
proof -
  let ?s1 = "upd_dev d (\<lambda>dev. dev\<lparr>dv_ref_count := dv_ref_count dev - 1\<rparr>) s"
  have "rt_device_close ops d s = Some (- RT_EIO, ?s1)" using assms by (simp add: rt_device_close_def)
  moreover have "rt_device_open ops d oflag ?s1 = Some (- RT_EBUSY, ?s1)"
    using assms by (simp add: rt_device_open_def open_activate_def dev_activated_def is_device_def)
  moreover have "rt_device_close ops d ?s1 = Some (- RT_ERROR, ?s1)"
    using assms by (simp add: rt_device_close_def is_device_def)
  ultimately show ?thesis using that by blast
qed

end
