(* ===== verification/Completion.thy ===== *)
theory Completion
  imports Mailbox
begin

text \<open>
  The completions of \<^verbatim>\<open>rt-thread/components/drivers/src/completion.c\<close>, with which one thread waits for an
  event that a driver or another thread signals once.

  The waiting list of the completion at \<open>r\<close> is the queue \<open>SuspendQ r\<close>. \<open>co_step\<close> interleaves the calls,
  the threads that return from a wait, and the rest of the system.
\<close>

section \<open>The code\<close>

abbreviation (input) RT_COMPLETED :: u32 where "RT_COMPLETED \<equiv> 1"
abbreviation (input) RT_UNCOMPLETED :: u32 where "RT_UNCOMPLETED \<equiv> 0"

record rt_completion =
  co_ref :: oref
  co_flag :: u32

abbreviation co_list :: "rt_completion \<Rightarrow> lhead" where
  "co_list co \<equiv> SuspendQ (co_ref co)"

definition rt_completion_init :: "oref \<Rightarrow> kern \<Rightarrow> rt_completion \<times> kern" where
  "rt_completion_init r s =
     (\<lparr>co_ref = r, co_flag = RT_UNCOMPLETED\<rparr>, s\<lparr>queues := (queues s)(SuspendQ r := [])\<rparr>)"

text \<open>The thread is linked at the end of the list and its timer armed as in the waits of \<^verbatim>\<open>ipc.c\<close>.\<close>

definition rt_completion_wait :: "rt_completion \<Rightarrow> u32 \<Rightarrow> kern \<Rightarrow> (kret \<times> rt_completion \<times> kern) option" where
  "rt_completion_wait co timeout s =
     (if co_flag co \<noteq> RT_COMPLETED then do {
        RT_ASSERT (queues s (co_list co) = []);
        if timeout = 0 then Some (Returned (- RT_ETIMEOUT), co, s)
        else do {
          t \<leftarrow> rt_thread_self s;
          let s1 = upd_thr t (\<lambda>th. th\<lparr>th_error := RT_EOK\<rparr>) s;
          RT_DEBUG_NOT_IN_INTERRUPT s1;
          s2 \<leftarrow> ipc_block (co_list co) t RT_IPC_FLAG_FIFO timeout s1;
          Some (Parked t, co, s2) } }
      else Some (Returned RT_EOK, co\<lparr>co_flag := RT_UNCOMPLETED\<rparr>, s))"

definition rt_completion_wait_wake :: "rt_completion \<Rightarrow> tid \<Rightarrow> kern \<Rightarrow> kret \<times> rt_completion" where
  "rt_completion_wait_wake co t s = (Returned (th_error (thr s t)), co\<lparr>co_flag := RT_UNCOMPLETED\<rparr>)"

definition rt_completion_done :: "rt_completion \<Rightarrow> kern \<Rightarrow> (rt_completion \<times> kern) option" where
  "rt_completion_done co s =
     (if co_flag co = RT_COMPLETED then Some (co, s)
      else do {
        let co1 = co\<lparr>co_flag := RT_COMPLETED\<rparr>;
        s1 \<leftarrow> (if queues s (co_list co1) \<noteq> [] then do {
                 s1 \<leftarrow> rt_ipc_list_resume (co_list co1) s;
                 rt_schedule s1 }
               else Some s);
        Some (co1, s1) })"

section \<open>The invariant\<close>

definition co_inv :: "rt_completion \<Rightarrow> kern \<Rightarrow> bool" where
  "co_inv co s \<longleftrightarrow> kinv s \<and> waiters_clean (co_list co) s \<and> length (queues s (co_list co)) \<le> 1 \<and>
     (co_flag co = RT_COMPLETED \<longrightarrow> queues s (co_list co) = [])"

inductive co_step :: "rt_completion \<times> kern \<Rightarrow> rt_completion \<times> kern \<Rightarrow> bool" where
  wait: "runs s t \<Longrightarrow> time_ok timeout \<Longrightarrow> rt_completion_wait co timeout s = Some (k, co', s') \<Longrightarrow>
    co_step (co, s) (co', s')"
| wake: "runs s t \<Longrightarrow> rt_completion_wait_wake co t s = (k, co') \<Longrightarrow> co_step (co, s) (co', s)"
| signal: "rt_completion_done co s = Some (co', s') \<Longrightarrow> co_step (co, s) (co', s')"
| env: "env_step (co_ref co) (co_list co) s s' \<Longrightarrow> co_step (co, s) (co, s')"

inductive_cases co_stepE: "co_step (co, s) (co', s')"

lemma completion_done_eq:
  "rt_completion_done co s =
     (if co_flag co = RT_COMPLETED then Some (co, s)
      else map_option (Pair (co\<lparr>co_flag := RT_COMPLETED\<rparr>)) (mb_wake_one (co_list co) s))"
  by (cases "queues s (co_list co)")
    (auto simp: rt_completion_done_def mb_wake_one_def split: bind_splits option.splits)

lemma co_wait_inv:
  assumes "co_inv co s" "runs s t" "time_ok timeout" "rt_completion_wait co timeout s = Some (k, co', s')"
  shows "co_inv co' s'"
proof (cases "co_flag co = RT_COMPLETED \<or> timeout = 0")
  case True
  then have "s' = s \<and> (co' = co \<or> co' = co\<lparr>co_flag := RT_UNCOMPLETED\<rparr>)"
    using assms(4) by (auto simp: rt_completion_wait_def Some_bind_iff split: if_splits)
  then show ?thesis using assms(1) by (auto simp: co_inv_def)
next
  case False
  let ?q = "co_list co" and ?s = "upd_thr t (\<lambda>th. th\<lparr>th_error := RT_EOK\<rparr>) s"
  have e: "queues s ?q = []" "co' = co" "ipc_block ?q t RT_IPC_FLAG_FIFO timeout ?s = Some s'"
    using assms(2,4) False by (auto simp: rt_completion_wait_def Let_def Some_bind_iff)
  have r: "runs ?s t" using assms(2) by (simp add: rt_object_get_type_def)
  have k: "kinv ?s" using assms(1) by (simp add: co_inv_def set_error_kinv)
  note be = block_effect [OF k r _ assms(3) _ e(3), simplified]
  have "queues s' ?q = [t]" using be(2) e(1) by (simp add: wait_insert_def)
  then show ?thesis using be(1,5) e(2) False by (simp add: co_inv_def waiters_clean_def)
qed

lemma co_done_inv:
  assumes "co_inv co s" "rt_completion_done co s = Some (co', s')"
  shows "co_inv co' s'"
proof (cases "co_flag co = RT_COMPLETED")
  case True
  then show ?thesis using assms by (simp add: rt_completion_done_def)
next
  case False
  then have w: "mb_wake_one (co_list co) s = Some s'" and co': "co' = co\<lparr>co_flag := RT_COMPLETED\<rparr>"
    using assms(2) by (auto simp: completion_done_eq)
  have k: "kinv s" using assms(1) by (simp add: co_inv_def)
  note e = wake_one_effect [OF k w, simplified]
  have "queues s' (co_list co) = []" using e(3) assms(1) by (cases "queues s (co_list co)") (auto simp: co_inv_def)
  then show ?thesis using e(1) co' by (simp add: co_inv_def waiters_clean_def)
qed

lemma co_env_inv:
  assumes "co_inv co s" "env_step (co_ref co) (co_list co) s s'"
  shows "co_inv co s'"
proof -
  have "distinct (queues s' (co_list co))"
    using assms(2) kinvD(1) [of s'] by (auto simp: env_step_def lists_ok_def)
  moreover have sub: "set (queues s' (co_list co)) \<subseteq> set (queues s (co_list co))"
    using assms(2) by (simp add: env_step_def)
  then have "card (set (queues s' (co_list co))) \<le> card (set (queues s (co_list co)))"
    by (simp add: card_mono)
  moreover have "card (set (queues s (co_list co))) \<le> length (queues s (co_list co))" by (rule card_length)
  ultimately have "length (queues s' (co_list co)) \<le> 1"
    using assms(1) by (simp add: distinct_card co_inv_def)
  then show ?thesis using assms sub by (auto simp: co_inv_def env_step_def waiters_clean_def subset_iff)
qed

lemma co_step_inv: "co_step (co, s) (co', s') \<Longrightarrow> co_inv co s \<Longrightarrow> co_inv co' s'"
proof (erule co_stepE, goal_cases)
  case (2 t k)
  then show ?case by (auto simp: rt_completion_wait_wake_def co_inv_def)
qed (auto intro: co_wait_inv co_done_inv co_env_inv)

lemma co_steps_inv: "co_step\<^sup>*\<^sup>* x y \<Longrightarrow> co_inv (fst x) (snd x) \<Longrightarrow> co_inv (fst y) (snd y)"
  by (induction rule: rtranclp_induct) (auto dest: co_step_inv)

text \<open>A thread whose wait timed out clears the flag when it runs. A completion that was signalled in
  between finds the list empty, and is lost: the next wait waits.\<close>

lemma completion_lost_on_timeout:
  assumes "co_flag co = RT_UNCOMPLETED" "queues s (co_list co) = []" "th_error (thr s t) = - RT_ETIMEOUT"
    "rt_completion_done co s = Some (co1, s1)" "rt_completion_wait_wake co1 t s1 = (k, co2)"
  shows "s1 = s" "co_flag co1 = RT_COMPLETED" "k = Returned (- RT_ETIMEOUT)" "co_flag co2 = RT_UNCOMPLETED"
  using assms by (auto simp: rt_completion_done_def rt_completion_wait_wake_def)

end
