(* ===== verification/Dataqueue.thy ===== *)
theory Dataqueue
  imports Mailbox
begin

text \<open>
  The data queues of \<^verbatim>\<open>rt-thread/components/drivers/src/dataqueue.c\<close>: pairs of an address and a length
  passed between threads through a circular array whose 16-bit indices count on without wrapping to the
  array. Threads that wait to push are released only when the queue has drained to its low water mark.

  The list of the threads that wait to pop is \<open>SuspendQ\<close>, that of those that wait to push \<open>SenderQ\<close>. A
  blocking call is cut where the thread is switched out, and continued by the definition with the suffix
  \<open>_wake\<close>. Every call notifies the owner of the queue as its last action; the result names the event.
  The field \<open>waiting_lwm\<close> is never used.

  The indices are compared without a wrap-around, so the invariant speaks of runs in which they have not
  wrapped yet; \<open>data_queue_overruns\<close> shows what happens behind that.
\<close>

section \<open>The code\<close>

abbreviation (input) RT_DATAQUEUE_EVENT_POP :: u32 where "RT_DATAQUEUE_EVENT_POP \<equiv> 1"
abbreviation (input) RT_DATAQUEUE_EVENT_PUSH :: u32 where "RT_DATAQUEUE_EVENT_PUSH \<equiv> 2"
abbreviation (input) RT_DATAQUEUE_EVENT_LWM :: u32 where "RT_DATAQUEUE_EVENT_LWM \<equiv> 3"

text \<open>An item is \<open>data_ptr\<close> and \<open>data_size\<close>; \<open>dq_queue\<close> is the array, or null when it was not allocated.\<close>

type_synonym rt_data_item = "nat \<times> u32"

record rt_data_queue =
  dq_ref :: oref
  dq_size :: u16
  dq_lwm :: u16
  dq_get_index :: u16
  dq_put_index :: u16
  dq_queue :: "rt_data_item list option"
  dq_evt_notify :: "nat option"

text \<open>\<open>items a n\<close>: what the \<open>n\<close> items of the new block at \<open>a\<close> hold.\<close>

definition rt_data_queue_init ::
    "(nat \<Rightarrow> 'h \<Rightarrow> nat option \<times> 'h) \<Rightarrow> (nat \<Rightarrow> nat \<Rightarrow> 'h \<Rightarrow> rt_data_item list) \<Rightarrow> oref \<Rightarrow> u16 \<Rightarrow> u16 \<Rightarrow>
     nat option \<Rightarrow> kern \<times> 'h \<Rightarrow> rt_err_t \<times> rt_data_queue \<times> kern \<times> 'h" where
  "rt_data_queue_init malloc items r sz lwm notify sh =
     (let (s, h) = sh;
          dq = \<lparr>dq_ref = r, dq_size = sz, dq_lwm = lwm, dq_get_index = 0, dq_put_index = 0,
                dq_queue = None, dq_evt_notify = notify\<rparr>;
          s1 = s\<lparr>queues := (queues s)(SenderQ r := [], SuspendQ r := [])\<rparr>
      in case malloc (8 * unat sz) h of
           (None, h1) \<Rightarrow> (- RT_ENOMEM, dq, s1, h1)
         | (Some a, h1) \<Rightarrow> (RT_EOK, dq\<lparr>dq_queue := Some (items a (unat sz) h1)\<rparr>, s1, h1))"

text \<open>The integer \<open>put_index - get_index\<close>, as C computes it for 16-bit operands.\<close>

definition dq_used :: "rt_data_queue \<Rightarrow> int" where
  "dq_used dq = uint (dq_put_index dq) - uint (dq_get_index dq)"

text \<open>The item at an index; \<open>None\<close> is a division by zero or an access outside of the array.\<close>

definition dq_slot :: "rt_data_queue \<Rightarrow> u16 \<Rightarrow> (nat \<times> rt_data_item list) option" where
  "dq_slot dq i = do {
     RT_ASSERT (dq_size dq \<noteq> 0);
     items \<leftarrow> dq_queue dq;
     let k = unat i mod unat (dq_size dq);
     RT_ASSERT (k < length items);
     Some (k, items) }"

definition dq_put :: "rt_data_item \<Rightarrow> rt_data_queue \<Rightarrow> rt_data_queue option" where
  "dq_put d dq = do {
     (k, items) \<leftarrow> dq_slot dq (dq_put_index dq);
     Some (dq\<lparr>dq_queue := Some (items[k := d]), dq_put_index := dq_put_index dq + 1\<rparr>) }"

definition dq_get :: "rt_data_queue \<Rightarrow> (rt_data_item \<times> rt_data_queue) option" where
  "dq_get dq = do {
     (k, items) \<leftarrow> dq_slot dq (dq_get_index dq);
     Some (items ! k, dq\<lparr>dq_get_index := dq_get_index dq + 1\<rparr>) }"

definition dq_event :: "rt_data_queue \<Rightarrow> u32 \<Rightarrow> u32 option" where
  "dq_event dq e = (if dq_evt_notify dq \<noteq> None then Some e else None)"

definition dq_push_loop ::
    "rt_data_queue \<Rightarrow> rt_data_item \<Rightarrow> u32 \<Rightarrow> tid option \<Rightarrow> kern \<Rightarrow> (kret \<times> u32 option \<times> rt_data_queue \<times> kern) option" where
  "dq_push_loop dq d timeout ot s =
     (if dq_used dq = uint (dq_size dq) then
        (if timeout = 0 then Some (Returned (- RT_ETIMEOUT), None, dq, s)
         else do {
           RT_DEBUG_NOT_IN_INTERRUPT s;
           t \<leftarrow> ot;
           let s1 = upd_thr t (\<lambda>th. th\<lparr>th_error := RT_EOK\<rparr>) s;
           s2 \<leftarrow> ipc_block (SenderQ (dq_ref dq)) t RT_IPC_FLAG_FIFO timeout s1;
           Some (Parked t, None, dq, s2) })
      else do {
        dq1 \<leftarrow> dq_put d dq;
        if queues s (SuspendQ (dq_ref dq)) \<noteq> [] then do {
          s1 \<leftarrow> rt_ipc_list_resume (SuspendQ (dq_ref dq)) s;
          s2 \<leftarrow> rt_schedule s1;
          Some (Returned RT_EOK, None, dq1, s2) }
        else Some (Returned RT_EOK, dq_event dq1 RT_DATAQUEUE_EVENT_PUSH, dq1, s) })"

definition rt_data_queue_push ::
    "rt_data_queue \<Rightarrow> rt_data_item \<Rightarrow> u32 \<Rightarrow> kern \<Rightarrow> (kret \<times> u32 option \<times> rt_data_queue \<times> kern) option" where
  "rt_data_queue_push dq d timeout s = dq_push_loop dq d timeout (rt_thread_self s) s"

definition rt_data_queue_push_wake ::
    "rt_data_queue \<Rightarrow> rt_data_item \<Rightarrow> u32 \<Rightarrow> tid \<Rightarrow> kern \<Rightarrow> (kret \<times> u32 option \<times> rt_data_queue \<times> kern) option" where
  "rt_data_queue_push_wake dq d timeout t s =
     (if th_error (thr s t) \<noteq> RT_EOK then Some (Returned (th_error (thr s t)), None, dq, s)
      else dq_push_loop dq d timeout (Some t) s)"

definition dq_pop_loop ::
    "rt_data_queue \<Rightarrow> u32 \<Rightarrow> tid option \<Rightarrow> kern \<Rightarrow>
     (kret \<times> u32 option \<times> rt_data_item option \<times> rt_data_queue \<times> kern) option" where
  "dq_pop_loop dq timeout ot s =
     (if dq_get_index dq = dq_put_index dq then
        (if timeout = 0 then Some (Returned (- RT_ETIMEOUT), None, None, dq, s)
         else do {
           RT_DEBUG_NOT_IN_INTERRUPT s;
           t \<leftarrow> ot;
           let s1 = upd_thr t (\<lambda>th. th\<lparr>th_error := RT_EOK\<rparr>) s;
           s2 \<leftarrow> ipc_block (SuspendQ (dq_ref dq)) t RT_IPC_FLAG_FIFO timeout s1;
           Some (Parked t, None, None, dq, s2) })
      else do {
        (d, dq1) \<leftarrow> dq_get dq;
        if dq_used dq1 \<le> uint (dq_lwm dq1) then do {
          s1 \<leftarrow> (if queues s (SenderQ (dq_ref dq)) \<noteq> [] then do {
                   s1 \<leftarrow> rt_ipc_list_resume (SenderQ (dq_ref dq)) s;
                   rt_schedule s1 }
                 else Some s);
          Some (Returned RT_EOK, dq_event dq1 RT_DATAQUEUE_EVENT_LWM, Some d, dq1, s1) }
        else Some (Returned RT_EOK, dq_event dq1 RT_DATAQUEUE_EVENT_POP, Some d, dq1, s) })"

definition rt_data_queue_pop ::
    "rt_data_queue \<Rightarrow> u32 \<Rightarrow> kern \<Rightarrow> (kret \<times> u32 option \<times> rt_data_item option \<times> rt_data_queue \<times> kern) option" where
  "rt_data_queue_pop dq timeout s = dq_pop_loop dq timeout (rt_thread_self s) s"

definition rt_data_queue_pop_wake ::
    "rt_data_queue \<Rightarrow> u32 \<Rightarrow> tid \<Rightarrow> kern \<Rightarrow> (kret \<times> u32 option \<times> rt_data_item option \<times> rt_data_queue \<times> kern) option" where
  "rt_data_queue_pop_wake dq timeout t s =
     (if th_error (thr s t) \<noteq> RT_EOK then Some (Returned (th_error (thr s t)), None, None, dq, s)
      else dq_pop_loop dq timeout (Some t) s)"

definition rt_data_queue_peak :: "rt_data_queue \<Rightarrow> (rt_err_t \<times> rt_data_item option) option" where
  "rt_data_queue_peak dq =
     (if dq_get_index dq = dq_put_index dq then Some (- RT_EEMPTY, None)
      else do {
        (k, items) \<leftarrow> dq_slot dq (dq_get_index dq);
        Some (RT_EOK, Some (items ! k)) })"

definition rt_data_queue_reset :: "rt_data_queue \<Rightarrow> kern \<Rightarrow> kern option" where
  "rt_data_queue_reset dq s = do {
     let s1 = rt_enter_critical s;
     s2 \<leftarrow> rt_ipc_list_resume_all (SuspendQ (dq_ref dq)) s1;
     s3 \<leftarrow> rt_ipc_list_resume_all (SenderQ (dq_ref dq)) s2;
     s4 \<leftarrow> rt_exit_critical s3;
     rt_schedule s4 }"

section \<open>The array as a queue\<close>

text \<open>The invariant of the array while the indices have not wrapped.\<close>

definition dq_ok :: "rt_data_queue \<Rightarrow> bool" where
  "dq_ok dq \<longleftrightarrow> 0 < dq_size dq \<and> (\<exists>items. dq_queue dq = Some items \<and> unat (dq_size dq) \<le> length items) \<and>
     dq_get_index dq \<le> dq_put_index dq \<and> unat (dq_put_index dq) - unat (dq_get_index dq) \<le> unat (dq_size dq)"

definition dq_len :: "rt_data_queue \<Rightarrow> nat" where
  "dq_len dq = unat (dq_put_index dq) - unat (dq_get_index dq)"

definition dq_items :: "rt_data_queue \<Rightarrow> rt_data_item list" where
  "dq_items dq = ring_contents (the (dq_queue dq)) (unat (dq_size dq))
     (unat (dq_get_index dq) mod unat (dq_size dq)) (dq_len dq)"

lemma dq_items_length [simp]: "length (dq_items dq) = dq_len dq"
  by (simp add: dq_items_def)

lemma dq_okD:
  assumes "dq_ok dq"
  shows "dq_size dq \<noteq> 0" "0 < unat (dq_size dq)" "unat (dq_get_index dq) \<le> unat (dq_put_index dq)"
    "dq_len dq \<le> unat (dq_size dq)"
proof -
  show z: "dq_size dq \<noteq> 0" using assms by (metis dq_ok_def less_irrefl)
  show "0 < unat (dq_size dq)" using z by (simp add: unat_gt_0)
qed (use assms in \<open>simp_all add: dq_ok_def word_le_nat_alt dq_len_def\<close>)

lemma dq_used_eq:
  assumes "dq_ok dq"
  shows "dq_used dq = int (dq_len dq)"
  unfolding dq_used_def dq_len_def uint_nat by (rule of_nat_diff [OF dq_okD(3) [OF assms], symmetric])

lemma dq_empty_iff: "dq_ok dq \<Longrightarrow> dq_get_index dq = dq_put_index dq \<longleftrightarrow> dq_len dq = 0"
  by (auto simp: dq_len_def dq_ok_def word_le_nat_alt word_unat_eq_iff)

lemma dq_put_ok:
  assumes "dq_ok dq" "dq_len dq < unat (dq_size dq)" "dq_put_index dq \<noteq> 0xffff"
  shows "\<exists>dq'. dq_put d dq = Some dq' \<and> dq_ok dq' \<and> dq_items dq' = dq_items dq @ [d] \<and>
    dq_len dq' = Suc (dq_len dq) \<and> dq_size dq' = dq_size dq \<and> dq_ref dq' = dq_ref dq \<and> dq_lwm dq' = dq_lwm dq"
proof -
  let ?n = "unat (dq_size dq)" and ?g = "unat (dq_get_index dq)" and ?p = "unat (dq_put_index dq)"
  obtain items where it: "dq_queue dq = Some items" "?n \<le> length items" using assms(1) by (auto simp: dq_ok_def)
  note n0 = dq_okD(1) [OF assms(1)] and n = dq_okD(2) [OF assms(1)] and gp = dq_okD(3) [OF assms(1)]
  have "?p \<noteq> unat (0xffff :: u16)" using assms(3) by (metis word_unat_eq_iff)
  moreover have "?p < 2 ^ 16" by (rule order_less_le_trans [OF unsigned_less]) simp
  ultimately have p1: "unat (dq_put_index dq + 1) = Suc ?p" by (simp add: unat_word_ariths)
  have k: "?p mod ?n < length items" using n it(2) by (meson mod_less_divisor order_less_le_trans)
  let ?dq = "dq\<lparr>dq_queue := Some (items[?p mod ?n := d]), dq_put_index := dq_put_index dq + 1\<rparr>"
  have e: "dq_put d dq = Some ?dq" using it(1) n0 k by (simp add: dq_put_def dq_slot_def)
  have l: "dq_len ?dq = Suc (dq_len dq)" using p1 gp by (simp add: dq_len_def)
  have "(?g mod ?n + dq_len dq) mod ?n = (?g + dq_len dq) mod ?n" by (simp add: mod_simps)
  also have "\<dots> = ?p mod ?n" using gp by (simp add: dq_len_def)
  finally have "(?g mod ?n + dq_len dq) mod ?n = ?p mod ?n" .
  then have "dq_items ?dq = dq_items dq @ [d]"
    using ring_put [OF assms(2) it(2), of "?g mod ?n" d] it(1) l by (simp add: dq_items_def)
  moreover have "dq_ok ?dq" using assms it p1 gp l by (simp add: dq_ok_def word_le_nat_alt dq_len_def)
  ultimately show ?thesis using e l by (intro exI [of _ ?dq]) simp
qed

lemma dq_get_ok:
  assumes "dq_ok dq" "dq_items dq = d # ds"
  shows "\<exists>dq'. dq_get dq = Some (d, dq') \<and> dq_ok dq' \<and> dq_items dq' = ds \<and> dq_len dq = Suc (dq_len dq') \<and>
    dq_size dq' = dq_size dq \<and> dq_ref dq' = dq_ref dq \<and> dq_lwm dq' = dq_lwm dq \<and> dq_put_index dq' = dq_put_index dq"
proof -
  let ?n = "unat (dq_size dq)" and ?g = "unat (dq_get_index dq)" and ?p = "unat (dq_put_index dq)"
  obtain items where it: "dq_queue dq = Some items" "?n \<le> length items" using assms(1) by (auto simp: dq_ok_def)
  note n0 = dq_okD(1) [OF assms(1)] and n = dq_okD(2) [OF assms(1)]
  have l: "0 < dq_len dq" using arg_cong [OF assms(2), of length] by simp
  then have gp: "?g < ?p" by (simp add: dq_len_def)
  then have g1: "unat (dq_get_index dq + 1) = Suc ?g" using unat_succ_less by (fastforce simp: word_less_nat_alt)
  have k: "?g mod ?n < length items" using n it(2) by (meson mod_less_divisor order_less_le_trans)
  let ?dq = "dq\<lparr>dq_get_index := dq_get_index dq + 1\<rparr>"
  have e: "dq_get dq = Some (items ! (?g mod ?n), ?dq)" using it(1) n0 k by (simp add: dq_get_def dq_slot_def)
  have l1: "dq_len dq = Suc (dq_len ?dq)" using gp g1 by (simp add: dq_len_def)
  have "dq_items dq = items ! (?g mod ?n) # dq_items ?dq"
    using ring_get [of "?g mod ?n" ?n items "dq_len ?dq"] n it(1) l1 g1 by (simp add: dq_items_def mod_simps)
  moreover have "dq_ok ?dq" using assms(1) it gp g1 by (auto simp: dq_ok_def word_le_nat_alt)
  ultimately show ?thesis using e l1 assms(2) by (intro exI [of _ ?dq]) simp
qed

section \<open>The invariant\<close>

text \<open>A queue in the system, with the numbers of threads that were released and did not run yet, and the
  items accepted and delivered.\<close>

record dq_sys =
  dqs_queue :: rt_data_queue
  dqs_krn :: kern
  pops_due :: nat
  pushes_due :: nat
  pushed :: "rt_data_item list"
  popped :: "rt_data_item list"

definition dq_sound :: "rt_data_queue \<Rightarrow> kern \<Rightarrow> nat \<Rightarrow> nat \<Rightarrow> bool" where
  "dq_sound dq s p c \<longleftrightarrow> kinv s \<and> dq_ok dq \<and> dq_lwm dq < dq_size dq \<and>
     waiters_clean (SuspendQ (dq_ref dq)) s \<and> waiters_clean (SenderQ (dq_ref dq)) s \<and>
     (queues s (SuspendQ (dq_ref dq)) \<noteq> [] \<longrightarrow> dq_len dq \<le> p) \<and>
     (queues s (SenderQ (dq_ref dq)) \<noteq> [] \<longrightarrow> unat (dq_lwm dq) < dq_len dq + c)"

definition dq_inv :: "dq_sys \<Rightarrow> bool" where
  "dq_inv m \<longleftrightarrow> dq_sound (dqs_queue m) (dqs_krn m) (pops_due m) (pushes_due m) \<and>
     pushed m = popped m @ dq_items (dqs_queue m)"

text \<open>The waiting thread that a pop releases: only when the queue has drained to its low water mark.\<close>

definition drained :: "rt_data_queue \<Rightarrow> kret \<Rightarrow> kern \<Rightarrow> nat" where
  "drained dq k s = (if dq_len dq \<le> unat (dq_lwm dq) then released (SenderQ (dq_ref dq)) k s else 0)"

inductive dq_step :: "dq_sys \<Rightarrow> dq_sys \<Rightarrow> bool" where
  push: "runs (dqs_krn m) t \<Longrightarrow> time_ok timeout \<Longrightarrow> dq_put_index (dqs_queue m) \<noteq> 0xffff \<Longrightarrow>
    rt_data_queue_push (dqs_queue m) d timeout (dqs_krn m) = Some (k, e, dq', s') \<Longrightarrow>
    dq_step m (m\<lparr>dqs_queue := dq', dqs_krn := s', pushed := pushed m @ accepted k d,
      pops_due := pops_due m + released (SuspendQ (dq_ref (dqs_queue m))) k (dqs_krn m)\<rparr>)"
| push_wake: "runs (dqs_krn m) t \<Longrightarrow> th_error (thr (dqs_krn m) t) = RT_EOK \<Longrightarrow> pushes_due m = Suc c \<Longrightarrow>
    time_ok timeout \<Longrightarrow> dq_put_index (dqs_queue m) \<noteq> 0xffff \<Longrightarrow>
    rt_data_queue_push_wake (dqs_queue m) d timeout t (dqs_krn m) = Some (k, e, dq', s') \<Longrightarrow>
    dq_step m (m\<lparr>dqs_queue := dq', dqs_krn := s', pushed := pushed m @ accepted k d, pushes_due := c,
      pops_due := pops_due m + released (SuspendQ (dq_ref (dqs_queue m))) k (dqs_krn m)\<rparr>)"
| pop: "runs (dqs_krn m) t \<Longrightarrow> time_ok timeout \<Longrightarrow>
    rt_data_queue_pop (dqs_queue m) timeout (dqs_krn m) = Some (k, e, r, dq', s') \<Longrightarrow>
    dq_step m (m\<lparr>dqs_queue := dq', dqs_krn := s', popped := popped m @ (case r of None \<Rightarrow> [] | Some d \<Rightarrow> [d]),
      pushes_due := pushes_due m + drained dq' k (dqs_krn m)\<rparr>)"
| pop_wake: "runs (dqs_krn m) t \<Longrightarrow> th_error (thr (dqs_krn m) t) = RT_EOK \<Longrightarrow> pops_due m = Suc p \<Longrightarrow>
    time_ok timeout \<Longrightarrow> rt_data_queue_pop_wake (dqs_queue m) timeout t (dqs_krn m) = Some (k, e, r, dq', s') \<Longrightarrow>
    dq_step m (m\<lparr>dqs_queue := dq', dqs_krn := s', popped := popped m @ (case r of None \<Rightarrow> [] | Some d \<Rightarrow> [d]),
      pops_due := p, pushes_due := pushes_due m + drained dq' k (dqs_krn m)\<rparr>)"
| reset: "rt_data_queue_reset (dqs_queue m) (dqs_krn m) = Some s' \<Longrightarrow> dq_step m (m\<lparr>dqs_krn := s'\<rparr>)"
| env: "env_step (dq_ref (dqs_queue m)) (SuspendQ (dq_ref (dqs_queue m))) (dqs_krn m) s' \<Longrightarrow>
    env_step (dq_ref (dqs_queue m)) (SenderQ (dq_ref (dqs_queue m))) (dqs_krn m) s' \<Longrightarrow> dq_step m (m\<lparr>dqs_krn := s'\<rparr>)"

section \<open>Preservation\<close>

lemma dq_push_loop_cases:
  assumes "dq_push_loop dq d timeout (Some t) s = Some (k, e, dq', s')" "dq_ok dq"
  obtains (full) "dq_len dq = unat (dq_size dq)" "k = Returned (- RT_ETIMEOUT)" "dq' = dq" "s' = s"
  | (wait) "dq_len dq = unat (dq_size dq)" "k = Parked t" "dq' = dq"
      "ipc_block (SenderQ (dq_ref dq)) t RT_IPC_FLAG_FIFO timeout (upd_thr t (\<lambda>th. th\<lparr>th_error := RT_EOK\<rparr>) s) = Some s'"
  | (put) "dq_len dq < unat (dq_size dq)" "k = Returned RT_EOK" "dq_put d dq = Some dq'"
      "mb_wake_one (SuspendQ (dq_ref dq)) s = Some s'"
proof (cases "dq_len dq = unat (dq_size dq)")
  case True
  then have u: "dq_used dq = uint (dq_size dq)" using dq_used_eq [OF assms(2)] by simp
  show ?thesis
  proof (cases "timeout = 0")
    case t: True
    then show ?thesis using full True u assms(1) by (simp add: dq_push_loop_def)
  next
    case False
    then show ?thesis using wait True u assms(1) by (auto simp: dq_push_loop_def Let_def Some_bind_iff)
  qed
next
  case False
  then have u: "dq_used dq \<noteq> uint (dq_size dq)" using dq_used_eq [OF assms(2)] by (metis uint_nat of_nat_eq_iff)
  show ?thesis using put False u assms(1) dq_okD(4) [OF assms(2)]
    by (auto simp: dq_push_loop_def mb_wake_one_def Some_bind_iff split: if_splits)
qed

lemma dq_pop_loop_cases:
  assumes "dq_pop_loop dq timeout (Some t) s = Some (k, e, r, dq', s')" "dq_ok dq"
  obtains (empty) "dq_len dq = 0" "k = Returned (- RT_ETIMEOUT)" "r = None" "dq' = dq" "s' = s"
  | (wait) "dq_len dq = 0" "k = Parked t" "r = None" "dq' = dq"
      "ipc_block (SuspendQ (dq_ref dq)) t RT_IPC_FLAG_FIFO timeout (upd_thr t (\<lambda>th. th\<lparr>th_error := RT_EOK\<rparr>) s) = Some s'"
  | (get) d where "dq_len dq \<noteq> 0" "k = Returned RT_EOK" "r = Some d" "dq_get dq = Some (d, dq')"
      "(if dq_used dq' \<le> uint (dq_lwm dq') then mb_wake_one (SenderQ (dq_ref dq)) s else Some s) = Some s'"
proof (cases "dq_len dq = 0")
  case True
  then have u: "dq_get_index dq = dq_put_index dq" using dq_empty_iff [OF assms(2)] by simp
  show ?thesis
  proof (cases "timeout = 0")
    case t: True
    then show ?thesis using empty True u assms(1) by (simp add: dq_pop_loop_def)
  next
    case False
    then show ?thesis using wait True u assms(1) by (auto simp: dq_pop_loop_def Let_def Some_bind_iff)
  qed
next
  case False
  then have u: "dq_get_index dq \<noteq> dq_put_index dq" using dq_empty_iff [OF assms(2)] by simp
  show ?thesis using get False u assms(1)
    by (auto simp: dq_pop_loop_def mb_wake_one_def Some_bind_iff split: if_splits)
qed

lemma dq_error_sound:
  assumes "dq_sound dq s p c" "runs s t"
  shows "dq_sound dq (upd_thr t (\<lambda>th. th\<lparr>th_error := e\<rparr>) s) p c"
proof -
  have "t \<notin> set (queues s q')" if "head_stat q' = RT_THREAD_SUSPEND" for q'
    using tinv_linked(2) [OF kinvD(3), of s t q'] assms that by (auto simp: dq_sound_def)
  from this [of "SuspendQ (dq_ref dq)"] this [of "SenderQ (dq_ref dq)"] show ?thesis
    using assms(1) set_error_kinv [of s t e] by (auto simp: dq_sound_def waiters_clean_def)
qed

lemma dq_wait_sound:
  assumes "dq_sound dq s p c" "runs s t" "time_ok timeout" "ql \<in> {SuspendQ (dq_ref dq), SenderQ (dq_ref dq)}"
    "ipc_block ql t RT_IPC_FLAG_FIFO timeout (upd_thr t (\<lambda>th. th\<lparr>th_error := RT_EOK\<rparr>) s) = Some s'"
    "ql = SuspendQ (dq_ref dq) \<Longrightarrow> dq_len dq \<le> p"
    "ql = SenderQ (dq_ref dq) \<Longrightarrow> unat (dq_lwm dq) < dq_len dq + c"
  shows "dq_sound dq s' p c"
proof -
  let ?s = "upd_thr t (\<lambda>th. th\<lparr>th_error := RT_EOK\<rparr>) s"
  have m: "dq_sound dq ?s p c" by (rule dq_error_sound [OF assms(1,2)])
  have k: "kinv ?s" and w: "waiters_clean (SuspendQ (dq_ref dq)) ?s" "waiters_clean (SenderQ (dq_ref dq)) ?s"
    using m by (simp_all add: dq_sound_def)
  have r: "runs ?s t" using assms(2) by (simp add: rt_object_get_type_def)
  have hq: "head_stat ql = RT_THREAD_SUSPEND" using assms(4) by auto
  have fl: "RT_IPC_FLAG_FIFO \<in> {RT_IPC_FLAG_FIFO, RT_IPC_FLAG_PRIO}" by simp
  note be = block_effect [OF k r fl assms(3) hq assms(5)]
  have sub: "set (queues s' p) \<subseteq> insert t (set (queues ?s p))" for p
    using be(2,3) by (cases "p = ql") auto
  have te: "th_error (thr s' t) = RT_EOK" using be(5) by simp
  have "waiters_clean p s'" if "waiters_clean p ?s" for p
    using that sub [of p] te be(8) unfolding waiters_clean_def by (metis insert_iff subsetD)
  moreover have "queues ?s p \<noteq> []" if "p \<noteq> ql" "queues s' p \<noteq> []" for p
    using be(3) [OF that(1)] that(2) by auto
  ultimately show ?thesis using m be(1) w assms(4,6,7) unfolding dq_sound_def by blast
qed

lemma dq_push_loop_sound:
  assumes "dq_sound dq s p (Suc c)" "runs s t" "time_ok timeout" "dq_put_index dq \<noteq> 0xffff"
    "dq_push_loop dq d timeout (Some t) s = Some (k, e, dq', s')"
  shows "dq_sound dq' s' (p + released (SuspendQ (dq_ref dq)) k s) c \<and> dq_items dq' = dq_items dq @ accepted k d \<and>
    dq_ref dq' = dq_ref dq"
proof -
  have ok: "dq_ok dq" and lw: "unat (dq_lwm dq) < unat (dq_size dq)"
    using assms(1) by (simp_all add: dq_sound_def word_less_nat_alt)
  show ?thesis using assms(5) ok
  proof (cases rule: dq_push_loop_cases)
    case full
    then have "dq_sound dq s p c" using assms(1) lw by (simp add: dq_sound_def)
    then show ?thesis using full by (simp add: released_def accepted_def)
  next
    case wait
    have "dq_sound dq s p c" using assms(1) wait(1) lw by (simp add: dq_sound_def)
    then have "dq_sound dq s' p c"
      by (rule dq_wait_sound [OF _ assms(2,3) _ wait(4)]) (use wait(1) lw in simp_all)
    then show ?thesis using wait by (simp add: released_def accepted_def)
  next
    case put
    have m: "kinv s" "waiters_clean (SuspendQ (dq_ref dq)) s" "waiters_clean (SenderQ (dq_ref dq)) s"
      "queues s (SuspendQ (dq_ref dq)) \<noteq> [] \<Longrightarrow> dq_len dq \<le> p"
      "queues s (SenderQ (dq_ref dq)) \<noteq> [] \<Longrightarrow> unat (dq_lwm dq) < dq_len dq + Suc c" "dq_lwm dq < dq_size dq"
      using assms(1) by (simp_all add: dq_sound_def)
    obtain x where x: "dq_put d dq = Some x" "dq_ok x" "dq_items x = dq_items dq @ [d]" "dq_len x = Suc (dq_len dq)"
      "dq_size x = dq_size dq" "dq_ref x = dq_ref dq" "dq_lwm x = dq_lwm dq"
      using dq_put_ok [OF ok put(1) assms(4), of d] by blast
    have d': "dq' = x" using x(1) put(3) by simp
    note w = wake_one_effect [OF m(1) put(4), simplified]
    have sub: "set (queues s' (SuspendQ r)) \<subseteq> set (queues s (SuspendQ r))"
      "set (queues s' (SenderQ r)) \<subseteq> set (queues s (SenderQ r))" for r by (auto dest: subsetD [OF w(2), rotated])
    have "waiters_clean (SuspendQ (dq_ref dq)) s'" "waiters_clean (SenderQ (dq_ref dq)) s'"
      using m(2,3) sub w(5) unfolding waiters_clean_def by (metis subsetD)+
    moreover have "dq_len x \<le> p + released (SuspendQ (dq_ref dq)) k s" if "queues s' (SuspendQ (dq_ref dq)) \<noteq> []"
      using that w(3) m(4) x(4) put(2) by (cases "queues s (SuspendQ (dq_ref dq))") (auto simp: released_def)
    moreover have "unat (dq_lwm dq) < dq_len x + c" if "queues s' (SenderQ (dq_ref dq)) \<noteq> []"
    proof -
      have "queues s (SenderQ (dq_ref dq)) \<noteq> []" using that sub(2) [of "dq_ref dq"] by auto
      from m(5) [OF this] show ?thesis using x(4) by simp
    qed
    ultimately show ?thesis using w(1) x(2,3,5-7) put(2) m(6) d' by (simp add: dq_sound_def accepted_def)
  qed
qed

lemma dq_pop_loop_sound:
  assumes "dq_sound dq s (Suc p) c" "runs s t" "time_ok timeout"
    "dq_pop_loop dq timeout (Some t) s = Some (k, e, r, dq', s')"
  shows "dq_sound dq' s' p (c + drained dq' k s) \<and>
    dq_items dq = (case r of None \<Rightarrow> [] | Some d \<Rightarrow> [d]) @ dq_items dq' \<and> dq_ref dq' = dq_ref dq"
proof -
  have ok: "dq_ok dq" using assms(1) by (simp add: dq_sound_def)
  show ?thesis using assms(4) ok
  proof (cases rule: dq_pop_loop_cases)
    case empty
    then have "dq_sound dq s p c" using assms(1) by (simp add: dq_sound_def)
    then show ?thesis using empty by (simp add: released_def drained_def)
  next
    case wait
    have "dq_sound dq s p c" using assms(1) wait(1) by (simp add: dq_sound_def)
    then have "dq_sound dq s' p c" 
      by (rule dq_wait_sound [OF _ assms(2,3) _ wait(5)]) (use wait(1) in simp_all)
    then show ?thesis using wait by (simp add: released_def drained_def)
  next
    case (get d)
    have m: "kinv s" "waiters_clean (SuspendQ (dq_ref dq)) s" "waiters_clean (SenderQ (dq_ref dq)) s"
      "queues s (SuspendQ (dq_ref dq)) \<noteq> [] \<Longrightarrow> dq_len dq \<le> Suc p"
      "queues s (SenderQ (dq_ref dq)) \<noteq> [] \<Longrightarrow> unat (dq_lwm dq) < dq_len dq + c" "dq_lwm dq < dq_size dq"
      using assms(1) by (simp_all add: dq_sound_def)
    obtain y ys where q: "dq_items dq = y # ys" using get(1) dq_items_length [of dq] by (cases "dq_items dq") auto
    obtain x where x: "dq_get dq = Some (y, x)" "dq_ok x" "dq_items x = ys" "dq_len dq = Suc (dq_len x)"
      "dq_size x = dq_size dq" "dq_ref x = dq_ref dq" "dq_lwm x = dq_lwm dq"
      using dq_get_ok [OF ok q] by blast
    have d': "dq' = x" "d = y" using x(1) get(4) by simp_all
    have u: "dq_used dq' \<le> uint (dq_lwm dq') \<longleftrightarrow> dq_len x \<le> unat (dq_lwm dq)"
      unfolding d'(1) dq_used_eq [OF x(2)] x(7) uint_nat by (rule of_nat_le_iff)
    have "dq_sound x s' p (c + drained x k s)"
    proof (cases "dq_len x \<le> unat (dq_lwm dq)")
      case False
      then have "s' = s" using get(5) u by simp
      then show ?thesis using m x(2,4-7) False by (simp add: dq_sound_def drained_def)
    next
      case True
      then have "mb_wake_one (SenderQ (dq_ref dq)) s = Some s'" using get(5) u by simp
      note w = wake_one_effect [OF m(1) this, simplified]
      have sub: "set (queues s' (SuspendQ r)) \<subseteq> set (queues s (SuspendQ r))"
        "set (queues s' (SenderQ r)) \<subseteq> set (queues s (SenderQ r))" for r by (auto dest: subsetD [OF w(2), rotated])
      have "waiters_clean (SuspendQ (dq_ref dq)) s'" "waiters_clean (SenderQ (dq_ref dq)) s'"
        using m(2,3) sub w(5) unfolding waiters_clean_def by (metis subsetD)+
      moreover have "dq_len x \<le> p" if "queues s' (SuspendQ (dq_ref dq)) \<noteq> []"
      proof -
        have "queues s (SuspendQ (dq_ref dq)) \<noteq> []" using that sub(1) [of "dq_ref dq"] by auto
        from m(4) [OF this] show ?thesis using x(4) by simp
      qed
      moreover have "unat (dq_lwm dq) < dq_len x + (c + drained x k s)" if "queues s' (SenderQ (dq_ref dq)) \<noteq> []"
        using that w(3) m(5) x(4,6,7) get(2) True
        by (cases "queues s (SenderQ (dq_ref dq))") (auto simp: drained_def released_def)
      ultimately show ?thesis using w(1) x(2,5-7) m(6) by (simp add: dq_sound_def)
    qed
    then show ?thesis using d' x(3,6) get(3) q by simp
  qed
qed

lemma dq_sound_mono: "dq_sound dq s p c \<Longrightarrow> p \<le> p' \<Longrightarrow> c \<le> c' \<Longrightarrow> dq_sound dq s p' c'"
  by (auto simp: dq_sound_def)

lemma dq_env_sound:
  assumes "dq_sound dq s p c" "env_step (dq_ref dq) (SuspendQ (dq_ref dq)) s s'"
    "env_step (dq_ref dq) (SenderQ (dq_ref dq)) s s'"
  shows "dq_sound dq s' p c"
proof -
  have sub: "set (queues s' ql) \<subseteq> set (queues s ql) \<and> (waiters_clean ql s \<longrightarrow> waiters_clean ql s')"
    if "env_step (dq_ref dq) ql s s'" for ql
    using that by (auto simp: env_step_def waiters_clean_def)
  have ne: "queues s ql \<noteq> []" if "env_step (dq_ref dq) ql s s'" "queues s' ql \<noteq> []" for ql
    using sub [OF that(1)] that(2) by auto
  have "kinv s'" using assms(2) by (simp add: env_step_def)
  then show ?thesis using assms(1) sub [OF assms(2)] sub [OF assms(3)] ne [OF assms(2)] ne [OF assms(3)]
    unfolding dq_sound_def by blast
qed

lemma dq_reset_sound:
  assumes "dq_sound dq s p c" "rt_data_queue_reset dq s = Some s'"
  shows "dq_sound dq s' p c"
proof -
  let ?r = "dq_ref dq" and ?s = "rt_enter_critical s"
  have k: "kinv ?s" by (rule kinv_frame [of s]) (use assms(1) in \<open>simp_all add: dq_sound_def rt_enter_critical_def\<close>)
  obtain s1 where s1: "rt_ipc_list_resume_all (SuspendQ ?r) ?s = Some s1" "kinv s1" "queues s1 (SuspendQ ?r) = []"
    using resume_all_eq [OF k, of "SuspendQ ?r"] by auto
  obtain s2 where s2: "rt_ipc_list_resume_all (SenderQ ?r) s1 = Some s2" "kinv s2"
    "woken failed (queues s1 (SenderQ ?r)) s1 s2" "queues s2 (SenderQ ?r) = []"
    using resume_all_eq [OF s1(2), of "SenderQ ?r"] by auto
  obtain s3 where s3: "rt_exit_critical s2 = Some s3" and sc: "rt_schedule s3 = Some s'"
    using assms(2) s1(1) s2(1) by (auto simp: rt_data_queue_reset_def Let_def Some_bind_iff)
  obtain l i cu where f: "s3 = s2\<lparr>lock_nest := l, cur_prio := i, current := cu\<rparr>"
    using exit_critical_frame [OF s3] by blast
  have "kinv s3" by (rule kinv_frame [OF s2(2)]) (simp_all add: f)
  then have "kinv s'" using schedule_kinv sc by blast
  moreover have "queues s' (SuspendQ ?r) = []" "queues s' (SenderQ ?r) = []"
    using s2(3,4) s1(3) schedule_same(1) [OF sc] by (simp_all add: f woken_def)
  ultimately show ?thesis using assms(1) by (simp add: dq_sound_def waiters_clean_def)
qed

lemma dq_step_inv: "dq_step m m' \<Longrightarrow> dq_inv m \<Longrightarrow> dq_inv m'"
proof (induction rule: dq_step.induct)
  case (push m t timeout d k e dq' s')
  have l: "dq_push_loop (dqs_queue m) d timeout (Some t) (dqs_krn m) = Some (k, e, dq', s')"
    using push(1,4) by (simp add: rt_data_queue_push_def)
  have "dq_sound (dqs_queue m) (dqs_krn m) (pops_due m) (Suc (pushes_due m))"
    using push(5) dq_sound_mono by (auto simp: dq_inv_def)
  from dq_push_loop_sound [OF this push(1,2,3) l] show ?case using push(5) by (simp add: dq_inv_def)
next
  case (push_wake m t c timeout d k e dq' s')
  have l: "dq_push_loop (dqs_queue m) d timeout (Some t) (dqs_krn m) = Some (k, e, dq', s')"
    using push_wake(2,6) by (simp add: rt_data_queue_push_wake_def)
  have "dq_sound (dqs_queue m) (dqs_krn m) (pops_due m) (Suc c)" using push_wake(3,7) by (simp add: dq_inv_def)
  from dq_push_loop_sound [OF this push_wake(1,4,5) l] show ?case using push_wake(7) by (simp add: dq_inv_def)
next
  case (pop m t timeout k e r dq' s')
  have l: "dq_pop_loop (dqs_queue m) timeout (Some t) (dqs_krn m) = Some (k, e, r, dq', s')"
    using pop(1,3) by (simp add: rt_data_queue_pop_def)
  have "dq_sound (dqs_queue m) (dqs_krn m) (Suc (pops_due m)) (pushes_due m)"
    using pop(4) dq_sound_mono by (auto simp: dq_inv_def)
  from dq_pop_loop_sound [OF this pop(1,2) l] show ?case using pop(4) by (simp add: dq_inv_def)
next
  case (pop_wake m t p timeout k e r dq' s')
  have l: "dq_pop_loop (dqs_queue m) timeout (Some t) (dqs_krn m) = Some (k, e, r, dq', s')"
    using pop_wake(2,5) by (simp add: rt_data_queue_pop_wake_def)
  have "dq_sound (dqs_queue m) (dqs_krn m) (Suc p) (pushes_due m)" using pop_wake(3,6) by (simp add: dq_inv_def)
  from dq_pop_loop_sound [OF this pop_wake(1,4) l] show ?case using pop_wake(6) by (simp add: dq_inv_def)
next
  case (reset m s')
  then show ?case using dq_reset_sound by (auto simp: dq_inv_def)
next
  case (env m s')
  then show ?case using dq_env_sound by (auto simp: dq_inv_def)
qed

lemma dq_steps_inv: "dq_step\<^sup>*\<^sup>* m m' \<Longrightarrow> dq_inv m \<Longrightarrow> dq_inv m'"
  by (induction rule: rtranclp_induct) (auto intro: dq_step_inv)

section \<open>Behind the wrap-around\<close>

text \<open>Behind the wrap-around of the indices a full queue is no longer recognised: the difference is
  negative, the push stores over the oldest item, and then there are more items than places.\<close>

lemma data_queue_overruns:
  assumes "dq_size dq = 2" "dq_get_index dq = 0xfffe" "dq_put_index dq = 0" "dq_queue dq = Some [a, b]"
    "queues s (SuspendQ (dq_ref dq)) = []"
  shows "\<exists>e dq'. rt_data_queue_push dq d 0 s = Some (Returned RT_EOK, e, dq', s) \<and> dq_queue dq' = Some [d, b] \<and>
    rt_data_queue_peak dq = Some (RT_EOK, Some a) \<and> rt_data_queue_peak dq' = Some (RT_EOK, Some d) \<and>
    unat (dq_put_index dq' - dq_get_index dq') = 3"
  using assms
  by (simp add: rt_data_queue_push_def dq_push_loop_def dq_used_def dq_put_def dq_slot_def rt_data_queue_peak_def)

end
