(* ===== verification/Workqueue.thy ===== *)
theory Workqueue
  imports Semaphore
begin

text \<open>
  The work queues of \<^verbatim>\<open>rt-thread/components/drivers/src/workqueue.c\<close>: a thread that runs works in the
  order in which they were submitted, at once or after a delay.

  Queues and works are addresses; \<open>wk_list q\<close> are the works linked at the queue \<open>q\<close>. The semaphore inside
  a queue and the timer inside a delayed work are the kernel objects at their addresses. The endless loop
  of the thread is cut into its sections: the unlocked look at the list, the suspension, the taking of a
  work, and what follows its function; the functions of the works are arbitrary code between the last
  two.
\<close>

section \<open>The code\<close>

abbreviation (input) RT_WORK_STATE_PENDING :: u16 where "RT_WORK_STATE_PENDING \<equiv> 1"
abbreviation (input) RT_WORK_STATE_SUBMITTING :: u16 where "RT_WORK_STATE_SUBMITTING \<equiv> 2"
abbreviation (input) RT_WORK_TYPE_DELAYED :: u16 where "RT_WORK_TYPE_DELAYED \<equiv> 1"
abbreviation (input) EINVAL :: rt_err_t where "EINVAL \<equiv> 22"

record rt_work =
  rw_func :: u32
  rw_data :: u32
  rw_flags :: u16
  rw_type :: u16

text \<open>\<open>dw_queue w\<close> is the field \<open>workqueue\<close> of the delayed work at \<open>w\<close>.\<close>

record wk_sys =
  wk_krn :: kern
  wk_list :: "nat \<Rightarrow> nat list"
  wk_current :: "nat \<Rightarrow> nat option"
  wk_sem :: "nat \<Rightarrow> rt_semaphore"
  wk_thread :: "nat \<Rightarrow> tid"
  wk_work :: "nat \<Rightarrow> rt_work"
  dw_queue :: "nat \<Rightarrow> nat option"

definition wk_sem_at :: "nat \<Rightarrow> oref" where
  "wk_sem_at q = Obj (q + 12)"

definition dw_timer_at :: "nat \<Rightarrow> oref" where
  "dw_timer_at w = Obj (w + 20)"

abbreviation upd_work :: "nat \<Rightarrow> (rt_work \<Rightarrow> rt_work) \<Rightarrow> wk_sys \<Rightarrow> wk_sys" where
  "upd_work w f s \<equiv> s\<lparr>wk_work := (wk_work s)(w := f (wk_work s w))\<rparr>"

definition set_flag :: "u16 \<Rightarrow> nat \<Rightarrow> wk_sys \<Rightarrow> wk_sys" where
  "set_flag f w = upd_work w (\<lambda>wk. wk\<lparr>rw_flags := rw_flags wk OR f\<rparr>)"

definition clear_flag :: "u16 \<Rightarrow> nat \<Rightarrow> wk_sys \<Rightarrow> wk_sys" where
  "clear_flag f w = upd_work w (\<lambda>wk. wk\<lparr>rw_flags := rw_flags wk AND NOT f\<rparr>)"

definition has_flag :: "u16 \<Rightarrow> nat \<Rightarrow> wk_sys \<Rightarrow> bool" where
  "has_flag f w s \<longleftrightarrow> rw_flags (wk_work s w) AND f \<noteq> 0"

text \<open>\<open>rt_list_remove(&(work->list))\<close>, and the insertion behind \<open>work_list.prev\<close>\<close>

definition unlink_work :: "nat \<Rightarrow> wk_sys \<Rightarrow> wk_sys" where
  "unlink_work w s = s\<lparr>wk_list := (\<lambda>q. removeAll w (wk_list s q))\<rparr>"

definition link_work :: "nat \<Rightarrow> nat \<Rightarrow> wk_sys \<Rightarrow> wk_sys" where
  "link_work q w s = s\<lparr>wk_list := (wk_list s)(q := wk_list s q @ [w])\<rparr>"

definition rt_work_init :: "nat \<Rightarrow> u32 \<Rightarrow> u32 \<Rightarrow> wk_sys \<Rightarrow> wk_sys" where
  "rt_work_init w work_func work_data =
     upd_work w (\<lambda>_. \<lparr>rw_func = work_func, rw_data = work_data, rw_flags = 0, rw_type = 0\<rparr>)"

definition rt_delayed_work_init :: "nat \<Rightarrow> u32 \<Rightarrow> u32 \<Rightarrow> wk_sys \<Rightarrow> wk_sys" where
  "rt_delayed_work_init w work_func work_data s =
     upd_work w (\<lambda>wk. wk\<lparr>rw_type := RT_WORK_TYPE_DELAYED\<rparr>) (rt_work_init w work_func work_data s)"

text \<open>Waking the threads that wait for the end of the current work: releases until a take succeeds.\<close>

partial_function (option) completion_loop :: "rt_semaphore \<Rightarrow> kern \<Rightarrow> (rt_err_t \<times> rt_semaphore \<times> kern) option" where
  "completion_loop sem s =
     Option.bind (rt_sem_trytake sem s) (\<lambda>(result, sem1, s1).
       if result = Returned (- RT_ETIMEOUT) then
         Option.bind (rt_sem_release sem1 s1) (\<lambda>(_, sem2, s2). completion_loop sem2 s2)
       else if result = Returned RT_EOK then Some (RT_EOK, sem1, s1)
       else Some (- RT_ERROR, sem1, s1))"

definition workqueue_work_completion :: "nat \<Rightarrow> wk_sys \<Rightarrow> (rt_err_t \<times> wk_sys) option" where
  "workqueue_work_completion q s = do {
     let k1 = rt_enter_critical (wk_krn s);
     (result, sem, k2) \<leftarrow> completion_loop (wk_sem s q) k1;
     k3 \<leftarrow> rt_exit_critical k2;
     Some (result, s\<lparr>wk_sem := (wk_sem s)(q := sem), wk_krn := k3\<rparr>) }"

text \<open>The sections of \<open>_workqueue_thread_entry\<close>. Taking a work from the empty list is \<open>None\<close>: the code
  takes the list head itself for a work.\<close>

definition workqueue_thread_idle :: "nat \<Rightarrow> wk_sys \<Rightarrow> bool" where
  "workqueue_thread_idle q s \<longleftrightarrow> wk_list s q = []"

definition workqueue_thread_wait :: "wk_sys \<Rightarrow> (kret \<times> wk_sys) option" where
  "workqueue_thread_wait s = do {
     t \<leftarrow> rt_thread_self (wk_krn s);
     (_, k1) \<leftarrow> rt_thread_suspend t (wk_krn s);
     k2 \<leftarrow> rt_schedule k1;
     Some (Parked t, s\<lparr>wk_krn := k2\<rparr>) }"

definition workqueue_thread_take :: "nat \<Rightarrow> wk_sys \<Rightarrow> (nat \<times> wk_sys) option" where
  "workqueue_thread_take q s =
     (case wk_list s q of
        [] \<Rightarrow> None
      | w # _ \<Rightarrow>
          (let s1 = unlink_work w s;
               s2 = s1\<lparr>wk_current := (wk_current s1)(q := Some w)\<rparr>
           in Some (w, clear_flag RT_WORK_STATE_PENDING w s2)))"

definition workqueue_thread_done :: "nat \<Rightarrow> wk_sys \<Rightarrow> wk_sys option" where
  "workqueue_thread_done q s = do {
     let s1 = s\<lparr>wk_current := (wk_current s)(q := None)\<rparr>;
     (_, s2) \<leftarrow> workqueue_work_completion q s1;
     Some s2 }"

definition workqueue_wake_thread :: "nat \<Rightarrow> wk_sys \<Rightarrow> wk_sys option" where
  "workqueue_wake_thread q s =
     (if wk_current s q = None then do {
        (_, k1) \<leftarrow> rt_thread_resume (wk_thread s q) (wk_krn s);
        k2 \<leftarrow> rt_schedule k1;
        Some (s\<lparr>wk_krn := k2\<rparr>) }
      else Some s)"

definition workqueue_submit_work0 :: "nat \<Rightarrow> nat \<Rightarrow> wk_sys \<Rightarrow> (rt_err_t \<times> wk_sys) option" where
  "workqueue_submit_work0 q w s =
     (if has_flag RT_WORK_STATE_PENDING w s then Some (- RT_EBUSY, s)
      else if wk_current s q = Some w then Some (- RT_EBUSY, s)
      else do {
        let s1 = unlink_work w s;
        let s2 = link_work q w s1;
        let s3 = set_flag RT_WORK_STATE_PENDING w s2;
        s4 \<leftarrow> workqueue_wake_thread q s3;
        Some (RT_EOK, s4) })"

definition workqueue_cancel_work0 :: "nat \<Rightarrow> nat \<Rightarrow> wk_sys \<Rightarrow> rt_err_t \<times> wk_sys" where
  "workqueue_cancel_work0 q w s =
     (if wk_current s q = Some w then (- RT_EBUSY, s)
      else (RT_EOK, clear_flag RT_WORK_STATE_PENDING w (unlink_work w s)))"

text \<open>\<open>_workqueue_cancel_delayed_work\<close> calls \<open>rt_workqueue_cancel_work\<close> for a pending work, which dispatches
  on the type of the work; the call is written out here, so that the recursion is visible.\<close>

partial_function (option) workqueue_cancel_delayed_work :: "nat \<Rightarrow> wk_sys \<Rightarrow> (rt_err_t \<times> wk_sys) option" where
  "workqueue_cancel_delayed_work w s =
     (case dw_queue s w of
        None \<Rightarrow> Some (- EINVAL, s)
      | Some q \<Rightarrow>
          Option.bind
            (if has_flag RT_WORK_STATE_PENDING w s then
               (if rw_type (wk_work s w) AND RT_WORK_TYPE_DELAYED \<noteq> 0 then workqueue_cancel_delayed_work w s
                else Some (workqueue_cancel_work0 q w s))
             else if has_flag RT_WORK_STATE_SUBMITTING w s then
               Option.bind (rt_timer_stop (dw_timer_at w) (wk_krn s)) (\<lambda>(_, k1).
                 Option.bind (rt_timer_detach (dw_timer_at w) k1) (\<lambda>(_, k2).
                   Some (RT_EOK, clear_flag RT_WORK_STATE_SUBMITTING w (s\<lparr>wk_krn := k2\<rparr>))))
             else Some (RT_EOK, s))
            (\<lambda>(ret, s1).
               if ret \<noteq> RT_EOK then Some (ret, s1)
               else Some (RT_EOK, clear_flag RT_WORK_STATE_PENDING w (s1\<lparr>dw_queue := (dw_queue s1)(w := None)\<rparr>))))"

definition rt_workqueue_cancel_work :: "nat \<Rightarrow> nat \<Rightarrow> wk_sys \<Rightarrow> (rt_err_t \<times> wk_sys) option" where
  "rt_workqueue_cancel_work q w s =
     (if rw_type (wk_work s w) AND RT_WORK_TYPE_DELAYED \<noteq> 0 then workqueue_cancel_delayed_work w s
      else Some (workqueue_cancel_work0 q w s))"

text \<open>The timer calls \<open>_delayed_work_timeout_handler\<close> with the address of the work.\<close>

definition workqueue_submit_delayed_work :: "nat \<Rightarrow> nat \<Rightarrow> u32 \<Rightarrow> wk_sys \<Rightarrow> (rt_err_t \<times> wk_sys) option" where
  "workqueue_submit_delayed_work q w tik s =
     (if dw_queue s w \<noteq> None \<and> dw_queue s w \<noteq> Some q then Some (- RT_EINVAL, s)
      else do {
        (ret, s1) \<leftarrow> (if dw_queue s w = Some q then workqueue_cancel_delayed_work w s else Some (RT_EOK, s));
        if ret < 0 then Some (ret, s1)
        else do {
          let s2 = s1\<lparr>dw_queue := (dw_queue s1)(w := Some q)\<rparr>;
          if tik = 0 then do {
            (_, s3) \<leftarrow> workqueue_submit_work0 q w s2;
            Some (ret, s3) }
          else do {
            let s3 = set_flag RT_WORK_STATE_SUBMITTING w s2;
            k1 \<leftarrow> rt_timer_init (dw_timer_at w) ''work'' (User_timeout w) tik RT_TIMER_FLAG_SOFT_TIMER (wk_krn s3);
            (_, k2) \<leftarrow> rt_timer_start (dw_timer_at w) k1;
            Some (ret, s3\<lparr>wk_krn := k2\<rparr>) } } })"

definition delayed_work_timeout_handler :: "nat \<Rightarrow> wk_sys \<Rightarrow> wk_sys option" where
  "delayed_work_timeout_handler w s = do {
     (_, k1) \<leftarrow> rt_timer_stop (dw_timer_at w) (wk_krn s);
     (_, k2) \<leftarrow> rt_timer_detach (dw_timer_at w) k1;
     let s1 = clear_flag RT_WORK_STATE_SUBMITTING w (s\<lparr>wk_krn := k2\<rparr>);
     q \<leftarrow> dw_queue s1 w;
     (_, s2) \<leftarrow> workqueue_submit_work0 q w s1;
     Some s2 }"

definition rt_workqueue_submit_work :: "nat \<Rightarrow> nat \<Rightarrow> u32 \<Rightarrow> wk_sys \<Rightarrow> (rt_err_t \<times> wk_sys) option" where
  "rt_workqueue_submit_work q w time s =
     (if rw_type (wk_work s w) AND RT_WORK_TYPE_DELAYED \<noteq> 0 then workqueue_submit_delayed_work q w time s
      else workqueue_submit_work0 q w s)"

definition rt_workqueue_dowork :: "nat \<Rightarrow> nat \<Rightarrow> wk_sys \<Rightarrow> (rt_err_t \<times> wk_sys) option" where
  "rt_workqueue_dowork q w s = workqueue_submit_work0 q w s"

definition rt_workqueue_critical_work :: "nat \<Rightarrow> nat \<Rightarrow> wk_sys \<Rightarrow> (rt_err_t \<times> wk_sys) option" where
  "rt_workqueue_critical_work q w s =
     (if wk_current s q = Some w then Some (- RT_EBUSY, s)
      else do {
        let s1 = link_work q w (unlink_work w s);
        s2 \<leftarrow> workqueue_wake_thread q s1;
        Some (RT_EOK, s2) })"

text \<open>Cut where the thread waits for the end of the work.\<close>

definition rt_workqueue_cancel_work_sync :: "nat \<Rightarrow> nat \<Rightarrow> wk_sys \<Rightarrow> (kret \<times> wk_sys) option" where
  "rt_workqueue_cancel_work_sync q w s =
     (if wk_current s q = Some w then do {
        (r, sem, k) \<leftarrow> rt_sem_take (wk_sem s q) RT_WAITING_FOREVER (wk_krn s);
        let s1 = s\<lparr>wk_sem := (wk_sem s)(q := sem), wk_krn := k\<rparr>;
        (case r of
           Parked t \<Rightarrow> Some (Parked t, s1)
         | Returned _ \<Rightarrow> Some (Returned RT_EOK, clear_flag RT_WORK_STATE_PENDING w s1)) }
      else Some (Returned RT_EOK, clear_flag RT_WORK_STATE_PENDING w (unlink_work w s)))"

definition rt_workqueue_cancel_work_sync_wake :: "nat \<Rightarrow> wk_sys \<Rightarrow> kret \<times> wk_sys" where
  "rt_workqueue_cancel_work_sync_wake w s = (Returned RT_EOK, clear_flag RT_WORK_STATE_PENDING w s)"

definition rt_workqueue_cancel_all_work :: "nat \<Rightarrow> wk_sys \<Rightarrow> (rt_err_t \<times> wk_sys) option" where
  "rt_workqueue_cancel_all_work q s = do {
     let k1 = rt_enter_critical (wk_krn s);
     let s1 = s\<lparr>wk_list := (wk_list s)(q := [])\<rparr>;
     k2 \<leftarrow> rt_exit_critical k1;
     Some (RT_EOK, s1\<lparr>wk_krn := k2\<rparr>) }"

text \<open>\<open>queue_size\<close> is \<^verbatim>\<open>sizeof(struct rt_workqueue)\<close>; \<open>entry\<close> and \<open>texit\<close> are the addresses of the
  thread's function and of \<open>rt_thread_exit\<close>.\<close>

definition rt_workqueue_create ::
    "(nat \<Rightarrow> 'h \<Rightarrow> nat option \<times> 'h) \<Rightarrow> (nat \<Rightarrow> 'h \<Rightarrow> 'h option) \<Rightarrow> (u8 \<Rightarrow> nat) \<Rightarrow> nat \<Rightarrow> u32 \<Rightarrow> u32 \<Rightarrow>
     string \<Rightarrow> u16 \<Rightarrow> u8 \<Rightarrow> wk_sys \<times> 'h \<Rightarrow> (nat option \<times> wk_sys \<times> 'h) option" where
  "rt_workqueue_create malloc free object_size queue_size entry texit name stack_size priority sh =
     (let (s, h) = sh
      in case malloc queue_size h of
           (None, h1) \<Rightarrow> Some (None, s, h1)
         | (Some q, h1) \<Rightarrow> do {
             let s1 = s\<lparr>wk_list := (wk_list s)(q := []), wk_current := (wk_current s)(q := None)\<rparr>;
             (_, sem, k1) \<leftarrow> rt_sem_init (wk_sem_at q) ''wqueue'' 0 RT_IPC_FLAG_FIFO (wk_krn s1);
             let s2 = s1\<lparr>wk_sem := (wk_sem s1)(q := sem)\<rparr>;
             (thread, k2, h2) \<leftarrow> rt_thread_create malloc free object_size name entry (of_nat q)
                (ucast stack_size) priority 10 texit (k1, h1);
             (case thread of
                None \<Rightarrow> do {
                  h3 \<leftarrow> free q h2;
                  Some (None, s2\<lparr>wk_krn := k2\<rparr>, h3) }
              | Some t \<Rightarrow> do {
                  (_, k3) \<leftarrow> rt_thread_startup t k2;
                  Some (Some q, s2\<lparr>wk_thread := (wk_thread s2)(q := t), wk_krn := k3\<rparr>, h2) }) })"

definition rt_workqueue_destroy ::
    "(nat \<Rightarrow> 'h \<Rightarrow> 'h option) \<Rightarrow> nat \<Rightarrow> wk_sys \<times> 'h \<Rightarrow> (rt_err_t \<times> wk_sys \<times> 'h) option" where
  "rt_workqueue_destroy free q sh = do {
     let (s, h) = sh;
     (_, k1) \<leftarrow> rt_thread_delete (wk_thread s q) (wk_krn s);
     h1 \<leftarrow> free q h;
     Some (RT_EOK, s\<lparr>wk_krn := k1\<rparr>, h1) }"

text \<open>The queue of the system; its address is the variable \<^verbatim>\<open>sys_workq\<close>.\<close>

definition rt_work_submit :: "nat \<Rightarrow> nat \<Rightarrow> u32 \<Rightarrow> wk_sys \<Rightarrow> (rt_err_t \<times> wk_sys) option" where
  "rt_work_submit sys_workq w time s = rt_workqueue_submit_work sys_workq w time s"

definition rt_work_cancel :: "nat \<Rightarrow> nat \<Rightarrow> wk_sys \<Rightarrow> (rt_err_t \<times> wk_sys) option" where
  "rt_work_cancel sys_workq w s = rt_workqueue_cancel_work sys_workq w s"

definition rt_work_sys_workqueue_init ::
    "(nat \<Rightarrow> 'h \<Rightarrow> nat option \<times> 'h) \<Rightarrow> (nat \<Rightarrow> 'h \<Rightarrow> 'h option) \<Rightarrow> (u8 \<Rightarrow> nat) \<Rightarrow> nat \<Rightarrow> u32 \<Rightarrow> u32 \<Rightarrow>
     wk_sys \<times> 'h \<Rightarrow> (nat option \<times> wk_sys \<times> 'h) option" where
  "rt_work_sys_workqueue_init malloc free object_size queue_size entry texit sh =
     rt_workqueue_create malloc free object_size queue_size entry texit ''sys_work'' 2048 66 sh"

section \<open>The abstract queue\<close>

text \<open>What the works see: for every queue the works that wait, in order, and the one that runs. A work that
  waits anywhere, or runs in the queue, is refused.\<close>

datatype wk_op = Submit nat nat | Cancel nat nat | Take nat | Finish nat

type_synonym wk_abs = "(nat \<Rightarrow> nat list) \<times> (nat \<Rightarrow> nat option)"

fun wk_spec :: "wk_op \<Rightarrow> wk_abs \<Rightarrow> (rt_err_t \<times> wk_abs) option" where
  "wk_spec (Submit q w) (ls, cur) =
     Some (if (\<exists>p. w \<in> set (ls p)) \<or> cur q = Some w then (- RT_EBUSY, ls, cur)
           else (RT_EOK, ls(q := ls q @ [w]), cur))"
| "wk_spec (Cancel q w) (ls, cur) =
     Some (if cur q = Some w then (- RT_EBUSY, ls, cur) else (RT_EOK, \<lambda>p. removeAll w (ls p), cur))"
| "wk_spec (Take q) (ls, cur) =
     (case ls q of [] \<Rightarrow> None | w # ws \<Rightarrow> Some (int w, ls(q := ws), cur(q := Some w)))"
| "wk_spec (Finish q) (ls, cur) = Some (RT_EOK, ls, cur(q := None))"

text \<open>The code of the operations, with the work taken as the result of a take.\<close>

fun wk_run :: "wk_op \<Rightarrow> wk_sys \<Rightarrow> (rt_err_t \<times> wk_sys) option" where
  "wk_run (Submit q w) s = rt_workqueue_submit_work q w 0 s"
| "wk_run (Cancel q w) s = rt_workqueue_cancel_work q w s"
| "wk_run (Take q) s = map_option (\<lambda>(w, s1). (int w, s1)) (workqueue_thread_take q s)"
| "wk_run (Finish q) s = map_option (\<lambda>s1. (RT_EOK, s1)) (workqueue_thread_done q s)"

definition wk_abs :: "wk_sys \<Rightarrow> wk_abs" where
  "wk_abs s = (wk_list s, wk_current s)"

text \<open>The flag says whether a work is linked, and no work is linked twice.\<close>

definition wk_ok :: "wk_sys \<Rightarrow> bool" where
  "wk_ok s \<longleftrightarrow> (\<forall>q. distinct (wk_list s q)) \<and>
     (\<forall>p q w. w \<in> set (wk_list s p) \<longrightarrow> w \<in> set (wk_list s q) \<longrightarrow> p = q) \<and>
     (\<forall>w. has_flag RT_WORK_STATE_PENDING w s \<longleftrightarrow> (\<exists>q. w \<in> set (wk_list s q))) \<and>
     (\<forall>w. rw_type (wk_work s w) AND RT_WORK_TYPE_DELAYED = 0)"

lemma flag_simps [simp]:
  "wk_krn (set_flag f w s) = wk_krn s" "wk_krn (clear_flag f w s) = wk_krn s"
  "wk_list (set_flag f w s) = wk_list s" "wk_list (clear_flag f w s) = wk_list s"
  "wk_current (set_flag f w s) = wk_current s" "wk_current (clear_flag f w s) = wk_current s"
  "rw_type (wk_work (set_flag f w s) v) = rw_type (wk_work s v)"
  "rw_type (wk_work (clear_flag f w s) v) = rw_type (wk_work s v)"
  by (simp_all add: set_flag_def clear_flag_def)

lemma link_simps [simp]:
  "wk_krn (unlink_work w s) = wk_krn s" "wk_krn (link_work q w s) = wk_krn s"
  "wk_list (unlink_work w s) = (\<lambda>p. removeAll w (wk_list s p))"
  "wk_list (link_work q w s) = (wk_list s)(q := wk_list s q @ [w])"
  "wk_current (unlink_work w s) = wk_current s" "wk_current (link_work q w s) = wk_current s"
  "wk_work (unlink_work w s) = wk_work s" "wk_work (link_work q w s) = wk_work s"
  "has_flag f v (unlink_work w s) = has_flag f v s" "has_flag f v (link_work q w s) = has_flag f v s"
  by (simp_all add: unlink_work_def link_work_def has_flag_def)

lemma has_flag_set [simp]: "f \<noteq> 0 \<Longrightarrow> has_flag f v (set_flag f w s) \<longleftrightarrow> v = w \<or> has_flag f v s"
proof -
  have "(x OR f) AND f = f" for x :: u16 by (auto simp: bit_eq_iff bit_simps)
  then show "f \<noteq> 0 \<Longrightarrow> has_flag f v (set_flag f w s) \<longleftrightarrow> v = w \<or> has_flag f v s"
    by (simp add: has_flag_def set_flag_def)
qed

lemma has_flag_clear [simp]: "has_flag f v (clear_flag f w s) \<longleftrightarrow> v \<noteq> w \<and> has_flag f v s"
  by (auto simp: has_flag_def clear_flag_def and.assoc)

lemma has_flag_current [simp]: "has_flag f v (s\<lparr>wk_current := c\<rparr>) = has_flag f v s"
  by (simp add: has_flag_def)

lemma wake_thread_same:
  assumes "workqueue_wake_thread q s = Some s'"
  shows "wk_list s' = wk_list s" "wk_current s' = wk_current s" "wk_work s' = wk_work s"
  using assms by (auto simp: workqueue_wake_thread_def Some_bind_iff split: if_splits)

lemma completion_same:
  assumes "workqueue_work_completion q s = Some (r, s')"
  shows "wk_list s' = wk_list s" "wk_current s' = wk_current s" "wk_work s' = wk_work s"
  using assms by (auto simp: workqueue_work_completion_def Let_def Some_bind_iff)

section \<open>The code refines it\<close>

lemma wk_okD:
  assumes "wk_ok s"
  shows "distinct (wk_list s q)" "w \<in> set (wk_list s p) \<Longrightarrow> w \<in> set (wk_list s q) \<Longrightarrow> p = q"
    "has_flag RT_WORK_STATE_PENDING w s \<longleftrightarrow> (\<exists>q. w \<in> set (wk_list s q))"
    "rw_type (wk_work s w) AND RT_WORK_TYPE_DELAYED = 0"
  using assms unfolding wk_ok_def by blast+

lemma wk_ok_same:
  assumes "wk_ok s" "wk_list s' = wk_list s" "wk_work s' = wk_work s"
  shows "wk_ok s'"
  using assms by (simp add: wk_ok_def has_flag_def)

lemma submit_refines:
  assumes "wk_ok s" "workqueue_submit_work0 q w s = Some (e, s')"
  shows "wk_spec (Submit q w) (wk_abs s) = Some (e, wk_abs s')" "wk_ok s'"
proof -
  note k = wk_okD [OF assms(1)]
  have "wk_spec (Submit q w) (wk_abs s) = Some (e, wk_abs s') \<and> wk_ok s'"
  proof (cases "has_flag RT_WORK_STATE_PENDING w s \<or> wk_current s q = Some w")
    case True
    then have "e = - RT_EBUSY \<and> s' = s"
      using assms(2) by (auto simp: workqueue_submit_work0_def split: if_splits)
    then show ?thesis using True k(3) [of w] assms(1) by (auto simp: wk_abs_def)
  next
    case False
    then have out: "w \<notin> set (wk_list s p)" for p using k(3) [of w] by blast
    let ?s = "set_flag RT_WORK_STATE_PENDING w (link_work q w (unlink_work w s))"
    have e: "e = RT_EOK" "workqueue_wake_thread q ?s = Some s'"
      using False assms(2) by (auto simp: workqueue_submit_work0_def Let_def Some_bind_iff)
    note w = wake_thread_same [OF e(2)]
    have l: "wk_list ?s = (wk_list s)(q := wk_list s q @ [w])" using out by simp
    have mem: "v \<in> set (wk_list ?s p) \<longleftrightarrow> v \<in> set (wk_list s p) \<or> v = w \<and> p = q" for v p
      unfolding l by auto
    have "distinct (wk_list ?s p)" for p using k(1) out unfolding l by simp
    then have "wk_ok ?s" unfolding wk_ok_def mem using k out by auto
    then have "wk_ok s'" by (rule wk_ok_same [OF _ w(1,3)])
    then show ?thesis using False out e(1) w(1,2) l by (simp add: wk_abs_def)
  qed
  then show "wk_spec (Submit q w) (wk_abs s) = Some (e, wk_abs s')" "wk_ok s'" by blast+
qed

lemma cancel_refines:
  assumes "wk_ok s" "workqueue_cancel_work0 q w s = (e, s')"
  shows "wk_spec (Cancel q w) (wk_abs s) = Some (e, wk_abs s')" "wk_ok s'"
proof -
  note k = wk_okD [OF assms(1)]
  have "wk_spec (Cancel q w) (wk_abs s) = Some (e, wk_abs s') \<and> wk_ok s'"
  proof (cases "wk_current s q = Some w")
    case True
    then show ?thesis using assms by (auto simp: workqueue_cancel_work0_def wk_abs_def)
  next
    case False
    let ?s = "clear_flag RT_WORK_STATE_PENDING w (unlink_work w s)"
    have "wk_ok ?s" unfolding wk_ok_def using k by (auto simp: distinct_removeAll)
    then show ?thesis using False assms(2) by (auto simp: workqueue_cancel_work0_def wk_abs_def)
  qed
  then show "wk_spec (Cancel q w) (wk_abs s) = Some (e, wk_abs s')" "wk_ok s'" by blast+
qed

lemma take_refines:
  assumes "wk_ok s" "workqueue_thread_take q s = Some (w, s')"
  shows "wk_spec (Take q) (wk_abs s) = Some (int w, wk_abs s')" "wk_ok s'"
proof -
  note k = wk_okD [OF assms(1)]
  obtain ws where l: "wk_list s q = w # ws"
    and s': "s' = clear_flag RT_WORK_STATE_PENDING w ((unlink_work w s)\<lparr>wk_current := (wk_current s)(q := Some w)\<rparr>)"
    using assms(2) by (auto simp: workqueue_thread_take_def Let_def split: list.splits)
  have other: "w \<notin> set (wk_list s p)" if "p \<noteq> q" for p using k(2) [of w p q] l that by auto
  have "w \<notin> set ws" using k(1) [of q] l by simp
  then have r: "(\<lambda>p. removeAll w (wk_list s p)) = (wk_list s)(q := ws)"
    using other l by (auto simp: fun_eq_iff)
  have "wk_ok s'" unfolding wk_ok_def s' using k by (auto simp: distinct_removeAll)
  then show "wk_spec (Take q) (wk_abs s) = Some (int w, wk_abs s')" "wk_ok s'"
    using l r by (simp_all add: wk_abs_def s')
qed

lemma finish_refines:
  assumes "wk_ok s" "workqueue_thread_done q s = Some s'"
  shows "wk_spec (Finish q) (wk_abs s) = Some (RT_EOK, wk_abs s')" "wk_ok s'"
proof -
  let ?s = "s\<lparr>wk_current := (wk_current s)(q := None)\<rparr>"
  obtain r where c: "workqueue_work_completion q ?s = Some (r, s')"
    using assms(2) by (auto simp: workqueue_thread_done_def Some_bind_iff)
  note w = completion_same [OF c]
  show "wk_ok s'" by (rule wk_ok_same [OF assms(1)]) (simp_all add: w)
  show "wk_spec (Finish q) (wk_abs s) = Some (RT_EOK, wk_abs s')" by (simp add: wk_abs_def w)
qed

lemma wk_run_refines:
  assumes "wk_ok s" "wk_run op s = Some (e, s')"
  shows "wk_spec op (wk_abs s) = Some (e, wk_abs s') \<and> wk_ok s'"
proof -
  note ty = wk_okD(4) [OF assms(1)]
  show ?thesis
  proof (cases op)
    case (Submit q w)
    then show ?thesis using submit_refines [OF assms(1), of q w] assms(2) ty by (simp add: rt_workqueue_submit_work_def)
  next
    case (Cancel q w)
    then show ?thesis using cancel_refines [OF assms(1), of q w] assms(2) ty by (simp add: rt_workqueue_cancel_work_def)
  next
    case (Take q)
    then show ?thesis using take_refines [OF assms(1), of q] assms(2) by auto
  next
    case (Finish q)
    then show ?thesis using finish_refines [OF assms(1), of q] assms(2) by auto
  qed
qed

text \<open>Runs of the abstract queue without cancelling: the works that were accepted are those that were
  taken, in order, and those that still wait.\<close>

fun spec_run :: "nat \<Rightarrow> wk_op list \<Rightarrow> wk_abs \<Rightarrow> (nat list \<times> nat list \<times> wk_abs) option" where
  "spec_run q [] a = Some ([], [], a)"
| "spec_run q (op # ops) a = do {
     (e, a1) \<leftarrow> wk_spec op a;
     (ins, outs, a2) \<leftarrow> spec_run q ops a1;
     Some (case op of
         Submit p w \<Rightarrow> (if p = q \<and> e = RT_EOK then w # ins else ins, outs, a2)
       | Take p \<Rightarrow> (ins, if p = q then nat e # outs else outs, a2)
       | _ \<Rightarrow> (ins, outs, a2)) }"

fun code_run :: "nat \<Rightarrow> wk_op list \<Rightarrow> wk_sys \<Rightarrow> (nat list \<times> nat list \<times> wk_sys) option" where
  "code_run q [] s = Some ([], [], s)"
| "code_run q (op # ops) s = do {
     (e, s1) \<leftarrow> wk_run op s;
     (ins, outs, s2) \<leftarrow> code_run q ops s1;
     Some (case op of
         Submit p w \<Rightarrow> (if p = q \<and> e = RT_EOK then w # ins else ins, outs, s2)
       | Take p \<Rightarrow> (ins, if p = q then nat e # outs else outs, s2)
       | _ \<Rightarrow> (ins, outs, s2)) }"

lemma code_run_refines:
  "wk_ok s \<Longrightarrow> code_run q ops s = Some (ins, outs, s') \<Longrightarrow>
   spec_run q ops (wk_abs s) = Some (ins, outs, wk_abs s') \<and> wk_ok s'"
proof (induction ops arbitrary: s ins outs)
  case (Cons op ops)
  obtain e s1 i1 o1 where 1: "wk_run op s = Some (e, s1)" "code_run q ops s1 = Some (i1, o1, s')"
    and io: "(ins, outs) = (case op of
         Submit p w \<Rightarrow> (if p = q \<and> e = RT_EOK then w # i1 else i1, o1)
       | Take p \<Rightarrow> (i1, if p = q then nat e # o1 else o1)
       | _ \<Rightarrow> (i1, o1))"
    using Cons.prems(2) by (cases op) (auto simp: Some_bind_iff)
  note r = wk_run_refines [OF Cons.prems(1) 1(1)]
  from Cons.IH [OF _ 1(2)] r show ?case using io by (cases op) auto
qed simp

lemma spec_run_order:
  "spec_run q ops a = Some (ins, outs, a') \<Longrightarrow> \<forall>op \<in> set ops. \<forall>p w. op \<noteq> Cancel p w \<Longrightarrow>
   fst a q @ ins = outs @ fst a' q"
proof (induction ops arbitrary: a ins outs)
  case (Cons op ops)
  obtain ls cur where a: "a = (ls, cur)" by fastforce
  obtain e a1 i1 o1 where 1: "wk_spec op a = Some (e, a1)" "spec_run q ops a1 = Some (i1, o1, a')"
    and io: "(ins, outs) = (case op of
         Submit p w \<Rightarrow> (if p = q \<and> e = RT_EOK then w # i1 else i1, o1)
       | Take p \<Rightarrow> (i1, if p = q then nat e # o1 else o1)
       | _ \<Rightarrow> (i1, o1))"
    using Cons.prems(1) by (cases op) (auto simp: Some_bind_iff)
  have IH: "fst a1 q @ i1 = o1 @ fst a' q" using Cons.IH [OF 1(2)] Cons.prems(2) by simp
  show ?case
  proof (cases op)
    case (Submit p w)
    then show ?thesis using 1(1) IH io a by (auto split: if_splits)
  next
    case (Cancel p w)
    then show ?thesis using Cons.prems(2) by auto
  next
    case (Take p)
    then show ?thesis using 1(1) IH io a by (auto split: list.splits if_splits)
  next
    case (Finish p)
    then show ?thesis using 1(1) IH io a by auto
  qed
qed simp

section \<open>The end of a work\<close>

text \<open>With the scheduler locked, the loop releases every thread that waits for the end of the work, and
  returns with the semaphore empty again.\<close>

lemma completion_loop_wakes:
  assumes "sem_inv sem s" "sem_value sem = 0" "lock_nest s \<noteq> 0"
  shows "\<exists>s'. completion_loop sem s = Some (RT_EOK, sem, s') \<and> sem_inv sem s' \<and>
    queues s' (SuspendQ (sem_ref sem)) = [] \<and> lock_nest s' = lock_nest s \<and> current s' = current s \<and>
    (\<forall>t \<in> set (queues s (SuspendQ (sem_ref sem))). thread_stat s' t = RT_THREAD_READY \<and> th_error (thr s' t) = RT_EOK) \<and>
    (\<forall>t. thread_stat s t = RT_THREAD_READY \<longrightarrow> thread_stat s' t = RT_THREAD_READY) \<and>
    (\<forall>t. th_error (thr s' t) = th_error (thr s t))"
  using assms
proof (induction "queues s (SuspendQ (sem_ref sem))" arbitrary: s)
  case Nil
  have ty: "rt_object_get_type (sem_ref sem) s = RT_Object_Class_Semaphore"
    using Nil.prems(1) by (simp add: sem_inv_def ipc_header_def)
  have v: "sem_value sem + 1 - 1 = sem_value sem" "sem_value (sem\<lparr>sem_value := sem_value sem + 1\<rparr>) > 0"
    using Nil.prems(2) by simp_all
  have "completion_loop sem s = Some (RT_EOK, sem, s)"
    using Nil ty v by (subst completion_loop.simps, simp add: rt_sem_trytake_def rt_sem_take_def rt_sem_release_def,
        subst completion_loop.simps, simp add: rt_sem_trytake_def rt_sem_take_def)
  then show ?case using Nil by auto
next
  case (Cons t ts)
  let ?q = "SuspendQ (sem_ref sem)"
  note l = Cons.hyps(2) [symmetric]
  have ty: "rt_object_get_type (sem_ref sem) s = RT_Object_Class_Semaphore" and k: "kinv s"
    and w: "waiters_clean ?q s"
    using Cons.prems(1) by (simp_all add: sem_inv_def ipc_header_def)
  have hq: "head_stat ?q = RT_THREAD_SUSPEND" by simp
  note r = list_resume_eq [OF k l hq]
  have sc: "rt_schedule (unpark t s) = Some (unpark t s)" using Cons.prems(3) by (simp add: rt_schedule_def)
  have rel: "rt_sem_release sem s = Some (RT_EOK, sem, unpark t s)"
    using l ty r(1) sc by (simp add: rt_sem_release_def)
  have step: "completion_loop sem s = completion_loop sem (unpark t s)"
    by (subst completion_loop.simps) (simp add: rt_sem_trytake_def rt_sem_take_def ty Cons.prems(2) rel)
  have i: "sem_inv sem (unpark t s)" by (rule sem_release_inv [OF Cons.prems(1) rel])
  have lk: "lock_nest (unpark t s) \<noteq> 0" using Cons.prems(3) by simp
  from Cons.hyps(1) [OF r(4) [symmetric] i Cons.prems(2) lk] obtain s' where
    s': "completion_loop sem (unpark t s) = Some (RT_EOK, sem, s')" "sem_inv sem s'" "queues s' ?q = []"
      "lock_nest s' = lock_nest s" "current s' = current s"
      "\<forall>u \<in> set ts. thread_stat s' u = RT_THREAD_READY \<and> th_error (thr s' u) = RT_EOK"
      "\<forall>u. thread_stat (unpark t s) u = RT_THREAD_READY \<longrightarrow> thread_stat s' u = RT_THREAD_READY"
      "\<forall>u. th_error (thr s' u) = th_error (thr (unpark t s) u)"
    unfolding r(4) by auto
  have "thread_stat s' t = RT_THREAD_READY" using s'(7) by simp
  moreover have "th_error (thr s' t) = RT_EOK" using s'(8) w l by (simp add: waiters_clean_def)
  moreover have "thread_stat s' u = RT_THREAD_READY" if "thread_stat s u = RT_THREAD_READY" for u
    using s'(7) that by (cases "u = t") simp_all
  moreover have "th_error (thr s' u) = th_error (thr s u)" for u using s'(8) by simp
  ultimately show ?case using s'(1-6) step l by auto
qed

section \<open>Where the code goes wrong\<close>

text \<open>Cancelling a delayed work that waits in the list never returns: the two functions call each other.\<close>

lemma cancel_pending_delayed_diverges:
  assumes "dw_queue s w = Some q" "has_flag RT_WORK_STATE_PENDING w s" "rw_type (wk_work s w) AND RT_WORK_TYPE_DELAYED \<noteq> 0"
  shows "rt_workqueue_cancel_work q w s = None"
proof -
  have "v = w \<and> x = s \<Longrightarrow> False" if "workqueue_cancel_delayed_work v x = Some r" for v x r
  proof (rule workqueue_cancel_delayed_work.raw_induct [of "\<lambda>v x r. \<not> (v = w \<and> x = s)", OF _ that, THEN notE])
    fix f v x r
    assume ih: "\<And>v x r. f v x = Some r \<Longrightarrow> \<not> (v = w \<and> x = s)"
      and "(case dw_queue x v of None \<Rightarrow> Some (- EINVAL, x) | Some q \<Rightarrow>
          Option.bind
            (if has_flag RT_WORK_STATE_PENDING v x then
               (if rw_type (wk_work x v) AND RT_WORK_TYPE_DELAYED \<noteq> 0 then f v x
                else Some (workqueue_cancel_work0 q v x))
             else if has_flag RT_WORK_STATE_SUBMITTING v x then
               Option.bind (rt_timer_stop (dw_timer_at v) (wk_krn x)) (\<lambda>(_, k1).
                 Option.bind (rt_timer_detach (dw_timer_at v) k1) (\<lambda>(_, k2).
                   Some (RT_EOK, clear_flag RT_WORK_STATE_SUBMITTING v (x\<lparr>wk_krn := k2\<rparr>))))
             else Some (RT_EOK, x))
            (\<lambda>(ret, s1).
               if ret \<noteq> RT_EOK then Some (ret, s1)
               else Some (RT_EOK, clear_flag RT_WORK_STATE_PENDING v (s1\<lparr>dw_queue := (dw_queue s1)(v := None)\<rparr>)))) = Some r"
    then show "\<not> (v = w \<and> x = s)" using assms by (auto simp: Some_bind_iff dest: ih)
  qed
  then have "workqueue_cancel_delayed_work w s = None" by (cases "workqueue_cancel_delayed_work w s") auto
  then show ?thesis using assms(3) by (simp add: rt_workqueue_cancel_work_def)
qed

text \<open>Cancelling all works leaves them marked as pending, so that they can never be submitted again.\<close>

lemma cancel_all_leaves_pending:
  assumes "wk_ok s" "w \<in> set (wk_list s q)" "rt_workqueue_cancel_all_work q s = Some (e, s')"
  shows "w \<notin> set (wk_list s' p)" "rt_workqueue_submit_work q w 0 s' = Some (- RT_EBUSY, s')"
proof -
  note k = wk_okD [OF assms(1)]
  have s': "wk_list s' = (wk_list s)(q := [])" "wk_work s' = wk_work s"
    using assms(3) by (auto simp: rt_workqueue_cancel_all_work_def Let_def Some_bind_iff)
  show "w \<notin> set (wk_list s' p)" using k(2) [OF assms(2), of p] s'(1) by auto
  have "has_flag RT_WORK_STATE_PENDING w s'" using k(3) [of w] assms(2) s'(2) by (auto simp: has_flag_def)
  then show "rt_workqueue_submit_work q w 0 s' = Some (- RT_EBUSY, s')"
    using k(4) [of w] s'(2) by (simp add: rt_workqueue_submit_work_def workqueue_submit_work0_def)
qed

text \<open>The thread looks at the list without a lock. A work that is submitted (by an interrupt or a more
  urgent thread) after it found the list empty and before it suspends itself does not wake it.\<close>

lemma submit_lost_in_window:
  assumes "wk_ok s" "workqueue_thread_idle q s" "wk_current s q = None" "wk_thread s q = t"
    "runs (wk_krn s) t" "rt_schedule (wk_krn s) = Some (wk_krn s)" "kinv (wk_krn s)"
    "\<not> has_flag RT_WORK_STATE_PENDING w s" "rt_workqueue_submit_work q w 0 s = Some (e, s1)"
    "workqueue_thread_wait s1 = Some (k, s2)"
  shows "e = RT_EOK" "wk_list s2 q = [w]" "wk_current s2 q = None" "thread_stat (wk_krn s2) t = RT_THREAD_SUSPEND"
proof -
  have r: "rt_thread_resume t (wk_krn s) = Some (- RT_ERROR, wk_krn s)"
    using assms(5) by (simp add: rt_thread_resume_def)
  have out: "w \<notin> set (wk_list s p)" for p using wk_okD(3) [OF assms(1), of w] assms(8) by blast
  have l: "wk_list s q = []" using assms(2) by (simp add: workqueue_thread_idle_def)
  have s1: "e = RT_EOK" "wk_list s1 q = [w]" "wk_current s1 q = None" "wk_krn s1 = wk_krn s"
    using assms(3,4,6,8,9) r l wk_okD(4) [OF assms(1), of w]
    by (auto simp: rt_workqueue_submit_work_def workqueue_submit_work0_def workqueue_wake_thread_def Let_def
        Some_bind_iff set_flag_def link_work_def unlink_work_def)
  have th: "is_thread (wk_krn s) t" "thread_stat (wk_krn s) t = RT_THREAD_READY" using assms(5) by simp_all
  obtain k2 where k2: "rt_schedule (park t (wk_krn s)) = Some k2" "s2 = s1\<lparr>wk_krn := k2\<rparr>"
    using assms(5,10) s1(4) suspend_eq [OF assms(7) th] by (auto simp: workqueue_thread_wait_def Some_bind_iff)
  show "e = RT_EOK" "wk_list s2 q = [w]" "wk_current s2 q = None" using s1 k2(2) by simp_all
  show "thread_stat (wk_krn s2) t = RT_THREAD_SUSPEND" using schedule_same [OF k2(1)] k2(2) by simp
qed

text \<open>A work that is cancelled after its submission woke the thread, and before the thread ran, leaves an
  empty list, from which the thread takes the list head for a work.\<close>

lemma cancel_before_run:
  assumes "wk_list s q = [w]" "wk_current s q = None" "rw_type (wk_work s w) AND RT_WORK_TYPE_DELAYED = 0"
    "rt_workqueue_cancel_work q w s = Some (e, s')"
  shows "e = RT_EOK" "workqueue_thread_take q s' = None"
  using assms by (auto simp: rt_workqueue_cancel_work_def workqueue_cancel_work0_def workqueue_thread_take_def)

end
