(* ===== verification/Device_Props.thy ===== *)
theory Device_Props
  imports Ipc_Props Device Completion Dataqueue Workqueue
begin

text \<open>
  The properties of the device framework and of the communication of the drivers with threads: the users
  of a device, completions, data queues, work queues.
\<close>

section \<open>Devices\<close>






section \<open>Completions\<close>

definition demo_co :: "u32 \<Rightarrow> rt_completion" where
  "demo_co f = \<lparr>co_ref = Obj 17, co_flag = f\<rparr>"

text \<open>Between a signal and the next wait: further signals, and the rest of the system.\<close>

inductive co_idle :: "rt_completion \<times> kern \<Rightarrow> rt_completion \<times> kern \<Rightarrow> bool" where
  signal: "rt_completion_done co s = Some (co', s') \<Longrightarrow> co_idle (co, s) (co', s')"
| env: "env_step (co_ref co) (co_list co) s s' \<Longrightarrow> co_idle (co, s) (co, s')"

lemma co_idle_keeps: "co_idle\<^sup>*\<^sup>* (co, s) (co2, s2) \<Longrightarrow> co_flag co = RT_COMPLETED \<Longrightarrow> co2 = co"
proof (induction rule: rtranclp_induct2)
  case (step a b c d)
  then show ?case by (auto elim!: co_idle.cases simp: rt_completion_done_def)
qed simp

text \<open>C28: A completion is delivered. In every state that waits, signals, wake-ups and the rest of the system
  reach, at most one thread waits, and none while the completion is signalled. A signal returns. If a
  thread waits, it becomes ready, and when it runs, its call returns without error, whatever else
  happened to the completion and the system, as long as nobody overwrote the error code in its control
  block. If none waits, the signal is kept through further signals and all steps of the rest of the
  system, and the next wait returns at once and takes it; only a thread that returns from an earlier,
  timed-out wait of its own in between clears it (\<open>completion_lost_on_timeout\<close>).\<close>

theorem completion_delivered:
  assumes "co_step\<^sup>*\<^sup>* (co0, s0) (co, s)" "co_inv co0 s0" "sched_fine s"
  shows "length (queues s (co_list co)) \<le> 1 \<and>
    (\<exists>co' s'. rt_completion_done co s = Some (co', s') \<and> co_flag co' = RT_COMPLETED \<and>
      (case queues s (co_list co) of
         [] \<Rightarrow> \<forall>co2 s2. co_idle\<^sup>*\<^sup>* (co', s') (co2, s2) \<longrightarrow>
           rt_completion_wait co2 timeout s2 = Some (Returned RT_EOK, co2\<lparr>co_flag := RT_UNCOMPLETED\<rparr>, s2)
       | t # _ \<Rightarrow> thread_stat s' t = RT_THREAD_READY \<and>
           (\<forall>co2 s2. th_error (thr s2 t) = th_error (thr s' t) \<longrightarrow>
              fst (rt_completion_wait_wake co2 t s2) = Returned RT_EOK)))"
proof -
  have i: "co_inv co s" using co_steps_inv [OF assms(1)] assms(2) by simp
  show ?thesis
  proof (cases "queues s (co_list co)")
    case Nil
    obtain co' where d: "rt_completion_done co s = Some (co', s)" "co_flag co' = RT_COMPLETED"
      using Nil by (cases "co_flag co = RT_COMPLETED") (auto simp: rt_completion_done_def)
    have "rt_completion_wait co2 timeout s2 = Some (Returned RT_EOK, co2\<lparr>co_flag := RT_UNCOMPLETED\<rparr>, s2)"
      if "co_idle\<^sup>*\<^sup>* (co', s) (co2, s2)" for co2 s2
      using co_idle_keeps [OF that d(2)] d(2) by (simp add: rt_completion_wait_def)
    then show ?thesis using d Nil by simp
  next
    case (Cons t ts)
    have k: "kinv s" and w: "th_error (thr s t) = RT_EOK" and l: "length (queues s (co_list co)) \<le> 1"
      and f: "co_flag co \<noteq> RT_COMPLETED"
      using i Cons by (auto simp: co_inv_def waiters_clean_def)
    have hq: "head_stat (co_list co) = RT_THREAD_SUSPEND" by simp
    obtain s' where s': "mb_wake_one (co_list co) s = Some s'" "thread_stat s' t = RT_THREAD_READY"
      "\<And>u. th_error (thr s' u) = th_error (thr s u)"
      using wake_one_returns [OF k assms(3) Cons hq] by metis
    have "rt_completion_done co s = Some (co\<lparr>co_flag := RT_COMPLETED\<rparr>, s')"
      using f s'(1) by (simp add: completion_done_eq)
    then show ?thesis using l Cons s'(2,3) w by (simp add: rt_completion_wait_wake_def)
  qed
qed

theorem completion_delivered_witness:
  "(\<exists>co' s'. rt_completion_done (demo_co 0) (demo_wait (SuspendQ (Obj 17))) = Some (co', s') \<and>
     thread_stat s' 5 = RT_THREAD_READY \<and> fst (rt_completion_wait_wake co' 5 s') = Returned RT_EOK) \<and>
   (\<exists>co'. rt_completion_done (demo_co 0) demo = Some (co', demo) \<and>
     rt_completion_wait co' 0 demo = Some (Returned RT_EOK, demo_co 0, demo))"
proof
  have "co_inv (demo_co 0) (demo_wait (SuspendQ (Obj 17)))"
    using demo_wait_kinv [of "SuspendQ (Obj 17)"] by (simp add: co_inv_def demo_co_def waiters_clean_def)
  from completion_delivered [OF rtranclp.rtrancl_refl this demo_wait_fine]
  show "\<exists>co' s'. rt_completion_done (demo_co 0) (demo_wait (SuspendQ (Obj 17))) = Some (co', s') \<and>
     thread_stat s' 5 = RT_THREAD_READY \<and> fst (rt_completion_wait_wake co' 5 s') = Returned RT_EOK"
    by (auto simp: demo_co_def)
  have "co_inv (demo_co 0) demo" using demo_kinv by (simp add: co_inv_def demo_co_def waiters_clean_def)
  note p = completion_delivered [OF rtranclp.rtrancl_refl this demo_fine, of 0]
  have d: "rt_completion_done (demo_co 0) demo = Some (demo_co 1, demo)" by (simp add: rt_completion_done_def demo_co_def)
  have "queues demo (co_list (demo_co 0)) = []" by (simp add: demo_co_def)
  then have "rt_completion_wait (demo_co 1) 0 demo = Some (Returned RT_EOK, (demo_co 1)\<lparr>co_flag := RT_UNCOMPLETED\<rparr>, demo)"
    using p d by auto
  then show "\<exists>co'. rt_completion_done (demo_co 0) demo = Some (co', demo) \<and>
     rt_completion_wait co' 0 demo = Some (Returned RT_EOK, demo_co 0, demo)"
    using d by (intro exI [of _ "demo_co 1"]) (simp add: demo_co_def)
qed

section \<open>Data queues\<close>





section \<open>Work queues\<close>

text \<open>C31: Work queues refine the abstract queue: every run of submissions, cancellations and steps of the
  queue's thread (with works that are not delayed) is a run of the abstract queue with the same works
  accepted and the same works taken, so that a work that waits or runs is refused and any other is
  accepted. Without cancellations, the works accepted are taken in their order, each once.\<close>

theorem workqueue_refines:
  assumes "wk_ok s" "code_run q ops s = Some (ins, outs, s')"
  shows "spec_run q ops (wk_abs s) = Some (ins, outs, wk_abs s') \<and> wk_ok s' \<and>
    (filter (\<lambda>op. \<exists>p w. op = Cancel p w) ops = [] \<longrightarrow> wk_list s q @ ins = outs @ wk_list s' q)"
proof -
  have r: "spec_run q ops (wk_abs s) = Some (ins, outs, wk_abs s')" "wk_ok s'"
    using code_run_refines [OF assms] by simp_all
  moreover have "wk_list s q @ ins = outs @ wk_list s' q" if "filter (\<lambda>op. \<exists>p w. op = Cancel p w) ops = []"
    using spec_run_order [OF r(1)] that by (fastforce simp: wk_abs_def filter_empty_conv)
  ultimately show ?thesis by blast
qed

definition demo_wk :: "wk_sys" where
  "demo_wk = \<lparr>wk_krn = demo, wk_list = (\<lambda>_. []), wk_current = (\<lambda>_. Some 0),
     wk_sem = (\<lambda>_. \<lparr>sem_ref = Obj 11, sem_value = 0\<rparr>), wk_thread = (\<lambda>_. 5),
     wk_work = (\<lambda>_. \<lparr>rw_func = 0, rw_data = 0, rw_flags = 0, rw_type = 0\<rparr>), dw_queue = (\<lambda>_. None)\<rparr>"

theorem workqueue_refines_witness:
  "\<exists>s'. code_run 7 [Submit 7 3, Submit 7 4, Submit 7 3, Take 7] demo_wk = Some ([3, 4], [3], s') \<and>
     [3, 4] = [3] @ wk_list s' 7"
proof -
  have ok: "wk_ok demo_wk" by (simp add: wk_ok_def demo_wk_def has_flag_def)
  have e: "\<exists>s'. code_run 7 [Submit 7 3, Submit 7 4, Submit 7 3, Take 7] demo_wk = Some ([3, 4], [3], s')"
    by (simp add: demo_wk_def rt_workqueue_submit_work_def workqueue_submit_work0_def has_flag_def set_flag_def
        link_work_def unlink_work_def workqueue_wake_thread_def workqueue_thread_take_def Let_def)
  then obtain s' where s': "code_run 7 [Submit 7 3, Submit 7 4, Submit 7 3, Take 7] demo_wk = Some ([3, 4], [3], s')"
    by blast
  from workqueue_refines [OF ok s'] show ?thesis using s' by (simp add: demo_wk_def)
qed

end
