(* ===== verification/Rt_Slist.thy ===== *)
theory Rt_Slist
  imports Prelude
begin

text \<open>
  The singly linked lists of \<^verbatim>\<open>rt-thread/include/rtservice.h\<close>: a heap of \<open>next\<close> pointers, null being
  \<open>None\<close>, one definition per inline function. The loops run to the null pointer, so on a corrupt list
  they need not return. \<open>slist h l xs\<close> says that the head \<open>l\<close> links the nodes \<open>xs\<close>; the lemmas
  compute the list after every operation.
\<close>

section \<open>The code\<close>

type_synonym 'n slist_heap = "'n \<Rightarrow> 'n option"

definition rt_slist_init :: "'n \<Rightarrow> 'n slist_heap \<Rightarrow> 'n slist_heap" where
  "rt_slist_init l h = h(l := None)"

text \<open>\<open>while (node->next) node = node->next\<close>\<close>

partial_function (option) slist_end :: "'n slist_heap \<Rightarrow> 'n \<Rightarrow> 'n option" where
  "slist_end h node = (case h node of None \<Rightarrow> Some node | Some m \<Rightarrow> slist_end h m)"

definition rt_slist_append :: "'n \<Rightarrow> 'n \<Rightarrow> 'n slist_heap \<Rightarrow> 'n slist_heap option" where
  "rt_slist_append l n h = do {
     node \<leftarrow> slist_end h l;
     let h1 = h(node := Some n);
     Some (h1(n := None)) }"

definition rt_slist_insert :: "'n \<Rightarrow> 'n \<Rightarrow> 'n slist_heap \<Rightarrow> 'n slist_heap" where
  "rt_slist_insert l n h = (let h1 = h(n := h l) in h1(l := Some n))"

partial_function (option) slist_len_from :: "'n slist_heap \<Rightarrow> 'n option \<Rightarrow> nat \<Rightarrow> nat option" where
  "slist_len_from h list len =
     (case list of None \<Rightarrow> Some len | Some m \<Rightarrow> slist_len_from h (h m) (len + 1))"

definition rt_slist_len :: "'n \<Rightarrow> 'n slist_heap \<Rightarrow> nat option" where
  "rt_slist_len l h = slist_len_from h (h l) 0"

text \<open>\<open>while (node->next && node->next != n) node = node->next\<close>\<close>

partial_function (option) slist_before :: "'n slist_heap \<Rightarrow> 'n \<Rightarrow> 'n \<Rightarrow> 'n option" where
  "slist_before h n node =
     (case h node of None \<Rightarrow> Some node | Some m \<Rightarrow> if m \<noteq> n then slist_before h n m else Some node)"

definition rt_slist_remove :: "'n \<Rightarrow> 'n \<Rightarrow> 'n slist_heap \<Rightarrow> ('n \<times> 'n slist_heap) option" where
  "rt_slist_remove l n h = do {
     node \<leftarrow> slist_before h n l;
     Some (l, case h node of None \<Rightarrow> h | Some m \<Rightarrow> h(node := h m)) }"

definition rt_slist_first :: "'n \<Rightarrow> 'n slist_heap \<Rightarrow> 'n option" where
  "rt_slist_first l h = h l"

definition rt_slist_tail :: "'n \<Rightarrow> 'n slist_heap \<Rightarrow> 'n option" where
  "rt_slist_tail l h = slist_end h l"

definition rt_slist_next :: "'n \<Rightarrow> 'n slist_heap \<Rightarrow> 'n option" where
  "rt_slist_next n h = h n"

definition rt_slist_isempty :: "'n \<Rightarrow> 'n slist_heap \<Rightarrow> bool" where
  "rt_slist_isempty l h \<longleftrightarrow> h l = None"

section \<open>Chains\<close>

fun schain :: "'n slist_heap \<Rightarrow> 'n \<Rightarrow> 'n list \<Rightarrow> bool" where
  "schain h x [] \<longleftrightarrow> h x = None"
| "schain h x (y # ys) \<longleftrightarrow> h x = Some y \<and> schain h y ys"

definition slist :: "'n slist_heap \<Rightarrow> 'n \<Rightarrow> 'n list \<Rightarrow> bool" where
  "slist h l xs \<longleftrightarrow> distinct (l # xs) \<and> schain h l xs"

lemma schain_frame: "schain h x xs \<Longrightarrow> (\<And>a. a \<in> set (x # xs) \<Longrightarrow> h' a = h a) \<Longrightarrow> schain h' x xs"
  by (induction h x xs rule: schain.induct) auto

lemma schain_end: "schain h x xs \<Longrightarrow> slist_end h x = Some (last (x # xs))"
  by (induction h x xs rule: schain.induct) (simp_all add: slist_end.simps)

lemma schain_last: "schain h x xs \<Longrightarrow> h (last (x # xs)) = None"
  by (induction h x xs rule: schain.induct) auto

lemma schain_append:
  "schain h x xs \<Longrightarrow> distinct (x # xs) \<Longrightarrow> n \<notin> set (x # xs) \<Longrightarrow>
   schain (h(last (x # xs) := Some n, n := None)) x (xs @ [n])"
proof (induction h x xs rule: schain.induct)
  case (2 h x y ys)
  then have "last (y # ys) \<noteq> x" by (metis distinct.simps(2) last_in_set list.distinct(1))
  then show ?case using 2 by auto
qed auto

lemma slist_init: "slist (rt_slist_init l h) l []"
  by (simp add: slist_def rt_slist_init_def)

lemma slist_append:
  assumes "slist h l xs" "n \<notin> set (l # xs)"
  obtains h' where "rt_slist_append l n h = Some h'" "slist h' l (xs @ [n])"
    "\<And>a. a \<notin> set (l # n # xs) \<Longrightarrow> h' a = h a"
proof -
  have c: "schain h l xs" "distinct (l # xs)" using assms(1) by (simp_all add: slist_def)
  let ?h = "h(last (l # xs) := Some n, n := None)"
  have "rt_slist_append l n h = Some ?h" using schain_end [OF c(1)] by (simp add: rt_slist_append_def)
  moreover have "slist ?h l (xs @ [n])" using schain_append [OF c assms(2)] c(2) assms(2) by (auto simp: slist_def)
  moreover have "?h a = h a" if "a \<notin> set (l # n # xs)" for a
  proof -
    have "last (l # xs) \<in> set (l # xs)" by (rule last_in_set) simp
    then show ?thesis using that by auto
  qed
  ultimately show ?thesis by (rule that)
qed

lemma slist_insert:
  assumes "slist h l xs" "n \<notin> set (l # xs)"
  shows "slist (rt_slist_insert l n h) l (n # xs)"
proof (cases xs)
  case Nil
  then show ?thesis using assms by (auto simp: slist_def rt_slist_insert_def)
next
  case (Cons y ys)
  have "schain (h(n := h l, l := Some n)) y ys"
    by (rule schain_frame [of h]) (use assms Cons in \<open>auto simp: slist_def\<close>)
  then show ?thesis using assms Cons by (auto simp: slist_def rt_slist_insert_def)
qed

lemma slist_len:
  assumes "slist h l xs"
  shows "rt_slist_len l h = Some (length xs)"
proof -
  have "slist_len_from h (h x) k = Some (k + length xs)" if "schain h x xs" for x k
    using that by (induction h x xs arbitrary: k rule: schain.induct) (simp_all add: slist_len_from.simps)
  then show ?thesis using assms by (simp add: rt_slist_len_def slist_def)
qed

lemma slist_first: "slist h l xs \<Longrightarrow> rt_slist_first l h = (case xs of [] \<Rightarrow> None | x # _ \<Rightarrow> Some x)"
  by (cases xs) (simp_all add: rt_slist_first_def slist_def)

lemma slist_isempty: "slist h l xs \<Longrightarrow> rt_slist_isempty l h \<longleftrightarrow> xs = []"
  by (cases xs) (simp_all add: rt_slist_isempty_def slist_def)

text \<open>The tail of an empty list is its head.\<close>

lemma slist_tail: "slist h l xs \<Longrightarrow> rt_slist_tail l h = Some (last (l # xs))"
  using schain_end [of h l xs] by (simp add: rt_slist_tail_def slist_def)

lemma before_next: "h x = Some m \<Longrightarrow> m \<noteq> n \<Longrightarrow> slist_before h n x = slist_before h n m"
  by (subst slist_before.simps) simp

lemma before_stop: "h x = None \<or> h x = Some n \<Longrightarrow> slist_before h n x = Some x"
  by (subst slist_before.simps) auto

lemma schain_before_out: "schain h x xs \<Longrightarrow> n \<notin> set xs \<Longrightarrow> slist_before h n x = Some (last (x # xs))"
proof (induction h x xs rule: schain.induct)
  case (2 h x y ys)
  then show ?case using before_next [of h x y n] by auto
qed (simp add: before_stop)

lemma schain_before_in:
  "schain h x (ys @ n # zs) \<Longrightarrow> n \<notin> set ys \<Longrightarrow> slist_before h n x = Some (last (x # ys)) \<and> h (last (x # ys)) = Some n"
proof (induction ys arbitrary: x)
  case (Cons y ys)
  then show ?case using before_next [of h x y n] by auto
qed (simp add: before_stop)

lemma schain_remove:
  "schain h x (ys @ n # zs) \<Longrightarrow> distinct (x # ys @ n # zs) \<Longrightarrow> schain (h(last (x # ys) := h n)) x (ys @ zs)"
proof (induction ys arbitrary: x)
  case Nil
  show ?case
  proof (cases zs)
    case (Cons z zs')
    have "schain (h(x := Some z)) z zs'" by (rule schain_frame [of h]) (use Nil Cons in auto)
    then show ?thesis using Nil Cons by (simp add: fun_upd_def)
  qed (use Nil in simp)
next
  case (Cons y ys)
  then have "last (y # ys) \<noteq> x" by (metis Cons_eq_appendI UnCI distinct.simps(2) last_in_set list.distinct(1) set_append)
  then show ?case using Cons by auto
qed

text \<open>Removing a node that is not in the list changes nothing; a removed node keeps its pointer.\<close>

lemma slist_remove:
  assumes "slist h l xs" "n \<noteq> l"
  obtains h' where "rt_slist_remove l n h = Some (l, h')" "slist h' l (removeAll n xs)" "h' n = h n"
proof (cases "n \<in> set xs")
  case False
  then have "slist_before h n l = Some (last (l # xs))" "h (last (l # xs)) = None"
    using assms(1) schain_before_out [of h l xs n] schain_last [of h l xs] by (simp_all add: slist_def)
  then have "rt_slist_remove l n h = Some (l, h)" by (simp add: rt_slist_remove_def)
  then show ?thesis using that assms(1) False by simp
next
  case True
  then obtain ys zs where x: "xs = ys @ n # zs" "n \<notin> set ys" using split_list_first by metis
  have c: "schain h l (ys @ n # zs)" "distinct (l # ys @ n # zs)" using assms(1) x(1) by (simp_all add: slist_def)
  note b = schain_before_in [OF c(1) x(2)]
  have "rt_slist_remove l n h = Some (l, h(last (l # ys) := h n))" using b by (simp add: rt_slist_remove_def)
  moreover have "n \<notin> set zs" using c(2) by simp
  then have "removeAll n xs = ys @ zs" using x by simp
  moreover have "slist (h(last (l # ys) := h n)) l (ys @ zs)" using schain_remove [OF c] c(2) by (auto simp: slist_def)
  moreover have "(h(last (l # ys) := h n)) n = h n" by simp
  ultimately show ?thesis using that by metis
qed

end
