(* ===== verification/Ringblk.thy ===== *)
theory Ringblk
  imports Kernel_State Allocator Rt_Slist
begin

text \<open>
  The ring block buffer of \<^verbatim>\<open>rt-thread/components/drivers/src/ringblk_buf.c\<close>: variable-sized blocks of one
  buffer, handed from a producer to a consumer in order, so that the data need not be copied.

  A block descriptor is its index in the block set; the list of the descriptors in use is the singly
  linked list of \<open>Rt_Slist\<close>, pointer by pointer. Addresses are natural numbers, sums and differences wrap
  at 32 bits. A loop over the list returns only when the list ends, so it is partial; \<open>None\<close> is also a
  failed assertion.
\<close>

section \<open>The code\<close>

datatype rt_rbb_status = RT_RBB_BLK_UNUSED | RT_RBB_BLK_INITED | RT_RBB_BLK_PUT | RT_RBB_BLK_GET

record rt_rbb_blk =
  bk_status :: rt_rbb_status
  bk_size :: nat
  bk_buf :: nat

text \<open>The nodes of the list: its head, and the one in each block.\<close>

datatype rbb_node = Blk_list | Blk (blk_index: nat)

record rt_rbb =
  rbb_buf :: nat
  rbb_buf_size :: nat
  rbb_blk :: "nat \<Rightarrow> rt_rbb_blk"
  rbb_blk_max_num :: nat
  rbb_next :: "rbb_node slist_heap"

record rt_rbb_blk_queue =
  bq_blocks :: nat
  bq_num :: nat

abbreviation upd_blk :: "nat \<Rightarrow> (rt_rbb_blk \<Rightarrow> rt_rbb_blk) \<Rightarrow> rt_rbb \<Rightarrow> rt_rbb" where
  "upd_blk i f rbb \<equiv> rbb\<lparr>rbb_blk := (rbb_blk rbb)(i := f (rbb_blk rbb i))\<rparr>"

text \<open>The block set and the list nodes in it are memory that the caller hands over.\<close>

definition rt_rbb_init :: "nat \<Rightarrow> nat \<Rightarrow> (nat \<Rightarrow> rt_rbb_blk) \<Rightarrow> rbb_node slist_heap \<Rightarrow> nat \<Rightarrow> rt_rbb" where
  "rt_rbb_init buf buf_size block_set nodes blk_max_num =
     \<lparr>rbb_buf = buf, rbb_buf_size = buf_size,
      rbb_blk = (\<lambda>i. if i < blk_max_num then (block_set i)\<lparr>bk_status := RT_RBB_BLK_UNUSED\<rparr> else block_set i),
      rbb_blk_max_num = blk_max_num, rbb_next = rt_slist_init Blk_list nodes\<rparr>"

text \<open>\<open>blocks a h\<close>: what the memory of the block set at \<open>a\<close> holds. The structures have 20 and 12 bytes.\<close>

definition rt_rbb_create ::
    "(nat \<Rightarrow> 'h \<Rightarrow> nat option \<times> 'h) \<Rightarrow> (nat \<Rightarrow> 'h \<Rightarrow> 'h option) \<Rightarrow>
     (nat \<Rightarrow> 'h \<Rightarrow> (nat \<Rightarrow> rt_rbb_blk) \<times> rbb_node slist_heap) \<Rightarrow> nat \<Rightarrow> nat \<Rightarrow> 'h \<Rightarrow> ((nat \<times> rt_rbb) option \<times> 'h) option" where
  "rt_rbb_create malloc free blocks buf_size blk_max_num h =
     (case malloc 20 h of
        (None, h1) \<Rightarrow> Some (None, h1)
      | (Some rbb, h1) \<Rightarrow>
          (case malloc buf_size h1 of
             (None, h2) \<Rightarrow> map_option (Pair None) (free rbb h2)
           | (Some buf, h2) \<Rightarrow>
               (case malloc ((12 * blk_max_num) mod 2 ^ 32) h2 of
                  (None, h3) \<Rightarrow> do {
                    h4 \<leftarrow> free buf h3;
                    h5 \<leftarrow> free rbb h4;
                    Some (None, h5) }
                | (Some blk_set, h3) \<Rightarrow>
                    (let (bs, ns) = blocks blk_set h3
                     in Some (Some (rbb, rt_rbb_init buf buf_size bs ns blk_max_num), h3)))))"

text \<open>The fields are read after the structure has been freed: \<open>buf_at\<close> and \<open>blk_set_at\<close> read them.\<close>

definition rt_rbb_destroy ::
    "(nat \<Rightarrow> 'h \<Rightarrow> 'h option) \<Rightarrow> (nat \<Rightarrow> 'h \<Rightarrow> nat) \<Rightarrow> (nat \<Rightarrow> 'h \<Rightarrow> nat) \<Rightarrow> nat \<Rightarrow> 'h \<Rightarrow> 'h option" where
  "rt_rbb_destroy free buf_at blk_set_at rbb h = do {
     h1 \<leftarrow> free rbb h;
     h2 \<leftarrow> free (buf_at rbb h1) h1;
     free (blk_set_at rbb h2) h2 }"

definition find_empty_blk_in_set :: "rt_rbb \<Rightarrow> nat option" where
  "find_empty_blk_in_set rbb =
     List.find (\<lambda>i. bk_status (rbb_blk rbb i) = RT_RBB_BLK_UNUSED) [0..<rbb_blk_max_num rbb]"

text \<open>The block that a node is embedded in; the head of the list is embedded in none.\<close>

definition blk_entry :: "rbb_node \<Rightarrow> nat option" where
  "blk_entry node = (case node of Blk_list \<Rightarrow> None | Blk i \<Rightarrow> Some i)"

definition blk_end :: "rt_rbb_blk \<Rightarrow> nat" where
  "blk_end b = add32 (bk_buf b) (bk_size b)"

text \<open>Linking the new block \<open>n\<close> at the address \<open>a\<close>.\<close>

definition rbb_place :: "nat \<Rightarrow> nat \<Rightarrow> nat \<Rightarrow> rt_rbb \<Rightarrow> (nat option \<times> rt_rbb) option" where
  "rbb_place n a blk_size rbb = do {
     next1 \<leftarrow> rt_slist_append Blk_list (Blk n) (rbb_next rbb);
     Some (Some n, upd_blk n (\<lambda>_. \<lparr>bk_status = RT_RBB_BLK_INITED, bk_size = blk_size, bk_buf = a\<rparr>)
       (rbb\<lparr>rbb_next := next1\<rparr>)) }"

definition rt_rbb_blk_alloc :: "nat \<Rightarrow> rt_rbb \<Rightarrow> (nat option \<times> rt_rbb) option" where
  "rt_rbb_blk_alloc blk_size rbb = do {
     RT_ASSERT (blk_size < 2 ^ 24);
     len \<leftarrow> rt_slist_len Blk_list (rbb_next rbb);
     (case find_empty_blk_in_set rbb of
        None \<Rightarrow> Some (None, rbb)
      | Some new \<Rightarrow>
          if \<not> len < rbb_blk_max_num rbb then Some (None, rbb)
          else if len > 0 then do {
            h \<leftarrow> rt_slist_first Blk_list (rbb_next rbb);
            t \<leftarrow> rt_slist_tail Blk_list (rbb_next rbb);
            hi \<leftarrow> blk_entry h;
            ti \<leftarrow> blk_entry t;
            let hd_blk = rbb_blk rbb hi;
            let tl_blk = rbb_blk rbb ti;
            if bk_buf hd_blk \<le> bk_buf tl_blk then do {
              let empty1 = sub32 (add32 (rbb_buf rbb) (rbb_buf_size rbb)) (blk_end tl_blk);
              let empty2 = sub32 (bk_buf hd_blk) (rbb_buf rbb);
              if empty1 \<ge> blk_size then rbb_place new (blk_end tl_blk) blk_size rbb
              else if empty2 \<ge> blk_size then rbb_place new (rbb_buf rbb) blk_size rbb
              else Some (None, rbb) }
            else do {
              let empty1 = sub32 (bk_buf hd_blk) (blk_end tl_blk);
              if empty1 \<ge> blk_size then rbb_place new (blk_end tl_blk) blk_size rbb
              else Some (None, rbb) } }
          else rbb_place new (rbb_buf rbb) blk_size rbb) }"

definition rt_rbb_blk_put :: "nat \<Rightarrow> rt_rbb \<Rightarrow> rt_rbb option" where
  "rt_rbb_blk_put i rbb = do {
     RT_ASSERT (bk_status (rbb_blk rbb i) = RT_RBB_BLK_INITED);
     Some (upd_blk i (\<lambda>b. b\<lparr>bk_status := RT_RBB_BLK_PUT\<rparr>) rbb) }"

partial_function (option) blk_get_from :: "rbb_node option \<Rightarrow> rt_rbb \<Rightarrow> (nat option \<times> rt_rbb) option" where
  "blk_get_from node rbb =
     (case node of
        None \<Rightarrow> Some (None, rbb)
      | Some x \<Rightarrow>
          Option.bind (blk_entry x) (\<lambda>i.
            if bk_status (rbb_blk rbb i) = RT_RBB_BLK_PUT
            then Some (Some i, upd_blk i (\<lambda>b. b\<lparr>bk_status := RT_RBB_BLK_GET\<rparr>) rbb)
            else blk_get_from (rt_slist_next x (rbb_next rbb)) rbb))"

definition rt_rbb_blk_get :: "rt_rbb \<Rightarrow> (nat option \<times> rt_rbb) option" where
  "rt_rbb_blk_get rbb =
     (if rt_slist_isempty Blk_list (rbb_next rbb) then Some (None, rbb)
      else blk_get_from (rt_slist_first Blk_list (rbb_next rbb)) rbb)"

definition rt_rbb_blk_size :: "nat \<Rightarrow> rt_rbb \<Rightarrow> nat" where
  "rt_rbb_blk_size i rbb = bk_size (rbb_blk rbb i)"

definition rt_rbb_blk_buf :: "nat \<Rightarrow> rt_rbb \<Rightarrow> nat" where
  "rt_rbb_blk_buf i rbb = bk_buf (rbb_blk rbb i)"

definition rt_rbb_blk_free :: "nat \<Rightarrow> rt_rbb \<Rightarrow> rt_rbb option" where
  "rt_rbb_blk_free i rbb = do {
     RT_ASSERT (bk_status (rbb_blk rbb i) \<noteq> RT_RBB_BLK_UNUSED);
     (_, next1) \<leftarrow> rt_slist_remove Blk_list (Blk i) (rbb_next rbb);
     Some (upd_blk i (\<lambda>b. b\<lparr>bk_status := RT_RBB_BLK_UNUSED\<rparr>) (rbb\<lparr>rbb_next := next1\<rparr>)) }"

text \<open>What the loop of \<open>rt_rbb_blk_queue_get\<close> does with the block \<open>i\<close>: leave, go on, or take it.\<close>

datatype queue_act = Queue_break | Queue_continue | Queue_take rt_rbb_blk_queue

definition queue_choose :: "nat \<Rightarrow> nat \<Rightarrow> nat option \<Rightarrow> nat \<Rightarrow> rt_rbb_blk_queue \<Rightarrow> rt_rbb \<Rightarrow> queue_act" where
  "queue_choose queue_data_len i last_block data_total bq rbb =
     (let b = rbb_blk rbb i
      in case last_block of
           None \<Rightarrow>
             if bk_status b = RT_RBB_BLK_PUT then Queue_take \<lparr>bq_blocks = i, bq_num = 0\<rparr> else Queue_continue
         | Some l \<Rightarrow>
             if bk_status b \<noteq> RT_RBB_BLK_PUT \<or> bk_buf (rbb_blk rbb l) > bk_buf b \<or>
                add32 data_total (bk_size b) > queue_data_len
             then Queue_break else Queue_take bq)"

text \<open>The loop: the node, \<open>last_block\<close>, \<open>data_total_size\<close> and the queue.\<close>

partial_function (option) queue_get_from ::
    "nat \<Rightarrow> rbb_node option \<Rightarrow> nat option \<Rightarrow> nat \<Rightarrow> rt_rbb_blk_queue \<Rightarrow> rt_rbb \<Rightarrow> (nat \<times> rt_rbb_blk_queue \<times> rt_rbb) option" where
  "queue_get_from queue_data_len node last_block data_total bq rbb =
     (case node of
        None \<Rightarrow> Some (data_total, bq, rbb)
      | Some x \<Rightarrow>
          Option.bind (blk_entry x) (\<lambda>i.
            case queue_choose queue_data_len i last_block data_total bq rbb of
              Queue_break \<Rightarrow> Some (data_total, bq, rbb)
            | Queue_continue \<Rightarrow>
                queue_get_from queue_data_len (rt_slist_next x (rbb_next rbb)) None data_total bq rbb
            | Queue_take bq1 \<Rightarrow>
                Option.bind (rt_slist_remove Blk_list (Blk i) (rbb_next rbb)) (\<lambda>r.
                  queue_get_from queue_data_len (rt_slist_next x (snd r)) (Some i)
                    (add32 data_total (bk_size (rbb_blk rbb i))) (bq1\<lparr>bq_num := add32 (bq_num bq1) 1\<rparr>)
                    (upd_blk i (\<lambda>b. b\<lparr>bk_status := RT_RBB_BLK_GET\<rparr>) (rbb\<lparr>rbb_next := snd r\<rparr>)))))"

definition rt_rbb_blk_queue_get ::
    "nat \<Rightarrow> rt_rbb_blk_queue \<Rightarrow> rt_rbb \<Rightarrow> (nat \<times> rt_rbb_blk_queue \<times> rt_rbb) option" where
  "rt_rbb_blk_queue_get queue_data_len bq rbb =
     (if rt_slist_isempty Blk_list (rbb_next rbb) then Some (0, bq, rbb)
      else queue_get_from queue_data_len (rt_slist_first Blk_list (rbb_next rbb)) None 0 bq rbb)"

definition rt_rbb_blk_queue_len :: "rt_rbb_blk_queue \<Rightarrow> rt_rbb \<Rightarrow> nat" where
  "rt_rbb_blk_queue_len bq rbb =
     foldl add32 0 (map (\<lambda>k. bk_size (rbb_blk rbb (bq_blocks bq + k))) [0..<bq_num bq])"

definition rt_rbb_blk_queue_buf :: "rt_rbb_blk_queue \<Rightarrow> rt_rbb \<Rightarrow> nat" where
  "rt_rbb_blk_queue_buf bq rbb = bk_buf (rbb_blk rbb (bq_blocks bq))"

fun queue_free_loop :: "nat list \<Rightarrow> rt_rbb \<Rightarrow> rt_rbb option" where
  "queue_free_loop [] rbb = Some rbb"
| "queue_free_loop (i # ks) rbb = Option.bind (rt_rbb_blk_free i rbb) (queue_free_loop ks)"

definition rt_rbb_blk_queue_free :: "rt_rbb_blk_queue \<Rightarrow> rt_rbb \<Rightarrow> rt_rbb option" where
  "rt_rbb_blk_queue_free bq rbb = queue_free_loop (map (\<lambda>k. bq_blocks bq + k) [0..<bq_num bq]) rbb"

partial_function (option) next_len_from :: "rt_rbb \<Rightarrow> rbb_node option \<Rightarrow> nat option \<Rightarrow> nat \<Rightarrow> nat option" where
  "next_len_from rbb node last_block data_len =
     (case node of
        None \<Rightarrow> Some data_len
      | Some x \<Rightarrow>
          Option.bind (blk_entry x) (\<lambda>i.
            let b = rbb_blk rbb i; nxt = rt_slist_next x (rbb_next rbb)
            in case last_block of
                 None \<Rightarrow>
                   if bk_status b \<noteq> RT_RBB_BLK_PUT then next_len_from rbb nxt None data_len
                   else next_len_from rbb nxt (Some i) (add32 data_len (bk_size b))
               | Some l \<Rightarrow>
                   if bk_status b \<noteq> RT_RBB_BLK_PUT \<or> bk_buf (rbb_blk rbb l) > bk_buf b then Some data_len
                   else next_len_from rbb nxt (Some i) (add32 data_len (bk_size b))))"

definition rt_rbb_next_blk_queue_len :: "rt_rbb \<Rightarrow> nat option" where
  "rt_rbb_next_blk_queue_len rbb =
     (if rt_slist_isempty Blk_list (rbb_next rbb) then Some 0
      else next_len_from rbb (rt_slist_first Blk_list (rbb_next rbb)) None 0)"

definition rt_rbb_get_buf_size :: "rt_rbb \<Rightarrow> nat" where
  "rt_rbb_get_buf_size rbb = rbb_buf_size rbb"

section \<open>The layout of the ring\<close>

text \<open>The blocks as pairs of an address and a length. In list order they are a rising run at the higher
  addresses and then a rising run that has wrapped below it; either may be empty.\<close>

definition before_blk :: "nat \<times> nat \<Rightarrow> nat \<times> nat \<Rightarrow> bool" where
  "before_blk x y \<longleftrightarrow> fst x + snd x \<le> fst y"

definition inside :: "nat \<Rightarrow> nat \<Rightarrow> nat \<times> nat \<Rightarrow> bool" where
  "inside lo hi x \<longleftrightarrow> lo \<le> fst x \<and> 0 < snd x \<and> fst x + snd x \<le> hi"

definition ring_layout :: "nat \<Rightarrow> nat \<Rightarrow> (nat \<times> nat) list \<Rightarrow> bool" where
  "ring_layout lo hi xs \<longleftrightarrow>
     (\<exists>upper lower. xs = upper @ lower \<and> sorted_wrt before_blk (lower @ upper)) \<and> (\<forall>x\<in>set xs. inside lo hi x)"

definition blk_at :: "rt_rbb \<Rightarrow> nat \<Rightarrow> nat \<times> nat" where
  "blk_at rbb i = (bk_buf (rbb_blk rbb i), bk_size (rbb_blk rbb i))"

definition rbb_wf :: "rt_rbb \<Rightarrow> nat list \<Rightarrow> bool" where
  "rbb_wf rbb ks \<longleftrightarrow>
     slist (rbb_next rbb) Blk_list (map Blk ks) \<and> rbb_buf rbb + rbb_buf_size rbb < 2 ^ 32 \<and>
     (\<forall>i\<in>set ks. i < rbb_blk_max_num rbb \<and> bk_status (rbb_blk rbb i) \<noteq> RT_RBB_BLK_UNUSED) \<and>
     ring_layout (rbb_buf rbb) (rbb_buf rbb + rbb_buf_size rbb) (map (blk_at rbb) ks)"

lemma ring_layoutI:
  "xs = u @ l \<Longrightarrow> sorted_wrt before_blk (l @ u) \<Longrightarrow> \<forall>x\<in>set xs. inside lo hi x \<Longrightarrow> ring_layout lo hi xs"
  unfolding ring_layout_def by blast

lemma ring_layout_nil [simp]: "ring_layout lo hi []"
  by (simp add: ring_layout_def)

lemma ring_layout_one: "inside lo hi x \<Longrightarrow> ring_layout lo hi [x]"
  unfolding ring_layout_def by (intro conjI exI [of _ "[x]"] exI [of _ "[]"]) simp_all

lemma ring_layout_filter: "ring_layout lo hi (map f ks) \<Longrightarrow> ring_layout lo hi (map f (filter P ks))"
proof -
  assume a: "ring_layout lo hi (map f ks)"
  then obtain u l where x: "map f ks = u @ l" "sorted_wrt before_blk (l @ u)" "\<forall>x\<in>set (map f ks). inside lo hi x"
    unfolding ring_layout_def by blast
  from x(1) obtain us ls where k: "ks = us @ ls" "u = map f us" "l = map f ls"
    by (metis append_eq_map_conv)
  have "sorted_wrt (\<lambda>i j. before_blk (f i) (f j)) (ls @ us)" using x(2) k by (simp add: sorted_wrt_append sorted_wrt_map)
  then have "sorted_wrt (\<lambda>i j. before_blk (f i) (f j)) (filter P (ls @ us))" by (rule sorted_wrt_filter)
  then have "sorted_wrt before_blk (map f (filter P ls) @ map f (filter P us))"
    by (simp add: sorted_wrt_append sorted_wrt_map)
  then show ?thesis using x(3) k(1) unfolding ring_layout_def
    by (intro conjI exI [of _ "map f (filter P us)"] exI [of _ "map f (filter P ls)"]) auto
qed

text \<open>Two different blocks of the ring never overlap.\<close>

definition apart :: "nat \<times> nat \<Rightarrow> nat \<times> nat \<Rightarrow> bool" where
  "apart x y \<longleftrightarrow> {fst x ..< fst x + snd x} \<inter> {fst y ..< fst y + snd y} = {}"

lemma before_apart: "before_blk x y \<Longrightarrow> apart x y"
  by (auto simp: before_blk_def apart_def)

lemma apart_sym: "apart x y \<Longrightarrow> apart y x"
  by (auto simp: apart_def)

lemma ring_layout_disjoint:
  assumes "ring_layout lo hi xs" "i < length xs" "j < length xs" "i \<noteq> j"
  shows "apart (xs ! i) (xs ! j)"
proof -
  obtain u l where x: "xs = u @ l" "sorted_wrt before_blk (l @ u)" using assms(1) unfolding ring_layout_def by blast
  have "sorted_wrt apart (l @ u)" by (rule sorted_wrt_mono_rel [OF _ x(2)]) (rule before_apart)
  then have s: "sorted_wrt apart xs" using x(1) apart_sym by (auto simp: sorted_wrt_append)
  from assms(4) consider "i < j" | "j < i" by linarith
  then show ?thesis
  proof cases
    case 1
    show ?thesis by (rule sorted_wrt_nth_less [OF s 1 assms(3)])
  next
    case 2
    show ?thesis by (rule apart_sym [OF sorted_wrt_nth_less [OF s 2 assms(2)]])
  qed
qed

text \<open>The order of the first and the last address tells whether the ring has wrapped.\<close>

lemma ring_layout_runs:
  assumes "ring_layout lo hi xs" "xs \<noteq> []"
  shows "fst (hd xs) \<le> fst (last xs) \<Longrightarrow> sorted_wrt before_blk xs"
    and "fst (last xs) < fst (hd xs) \<Longrightarrow>
      \<exists>upper lower. xs = upper @ lower \<and> upper \<noteq> [] \<and> lower \<noteq> [] \<and> sorted_wrt before_blk (lower @ upper)"
proof -
  obtain u l where x: "xs = u @ l" "sorted_wrt before_blk (l @ u)" "\<forall>x\<in>set xs. inside lo hi x"
    using assms(1) unfolding ring_layout_def by blast
  have wrapped: "fst (last xs) < fst (hd xs)" if "u \<noteq> []" "l \<noteq> []"
  proof -
    have m: "last l \<in> set l" "hd u \<in> set u" using that by simp_all
    then have "before_blk (last l) (hd u)" using x(2) by (simp add: sorted_wrt_append)
    moreover have "0 < snd (last l)" using x(1,3) m by (auto simp: inside_def)
    ultimately show ?thesis using that x(1) by (simp add: before_blk_def)
  qed
  show "sorted_wrt before_blk xs" if "fst (hd xs) \<le> fst (last xs)"
    using wrapped that x by (cases "u = []"; cases "l = []") auto
  have "\<not> fst (last xs) < fst (hd xs)" if "sorted_wrt before_blk xs"
  proof (cases xs)
    case (Cons y ys)
    have "last ys \<in> set ys" if "ys \<noteq> []" using that by simp
    then show ?thesis using that Cons by (cases ys) (fastforce simp: before_blk_def)+
  qed (use assms in simp)
  then show "\<exists>upper lower. xs = upper @ lower \<and> upper \<noteq> [] \<and> lower \<noteq> [] \<and> sorted_wrt before_blk (lower @ upper)"
    if "fst (last xs) < fst (hd xs)"
    using that x by (cases "u = []"; cases "l = []") auto
qed

definition pair_end :: "nat \<times> nat \<Rightarrow> nat" where
  "pair_end x = fst x + snd x"

lemma sorted_snoc_end:
  assumes "sorted_wrt before_blk xs" "xs \<noteq> []"
  shows "sorted_wrt before_blk (xs @ [(pair_end (last xs), n)])"
proof -
  have "sorted_wrt before_blk (butlast xs @ [last xs])" using assms by simp
  then have "\<forall>x\<in>set (butlast xs). before_blk x (last xs)" by (simp add: sorted_wrt_append)
  then have "\<forall>x\<in>set (butlast xs @ [last xs]). pair_end x \<le> pair_end (last xs)"
    by (auto simp: before_blk_def pair_end_def)
  then have "\<forall>x\<in>set xs. pair_end x \<le> pair_end (last xs)" using assms(2) by simp
  then show ?thesis using assms(1) by (auto simp: sorted_wrt_append before_blk_def pair_end_def)
qed

lemma sorted_hd_least:
  assumes "sorted_wrt before_blk xs" "x \<in> set xs"
  shows "fst (hd xs) \<le> fst x"
  using assms by (cases xs) (auto simp: before_blk_def)

lemma layout_extend:
  assumes "ring_layout lo hi xs" "sorted_wrt before_blk xs" "xs \<noteq> []" "inside lo hi (pair_end (last xs), n)"
  shows "ring_layout lo hi (xs @ [(pair_end (last xs), n)])"
proof (rule ring_layoutI [where u = "xs @ [(pair_end (last xs), n)]" and l = "[]"])
  show "sorted_wrt before_blk ([] @ xs @ [(pair_end (last xs), n)])" using sorted_snoc_end [OF assms(2,3)] by simp
qed (use assms in \<open>auto simp: ring_layout_def\<close>)

lemma layout_wrap:
  assumes "ring_layout lo hi xs" "sorted_wrt before_blk xs" "xs \<noteq> []" "0 < n" "lo + n \<le> fst (hd xs)" "lo + n \<le> hi"
  shows "ring_layout lo hi (xs @ [(lo, n)])"
proof (rule ring_layoutI [where u = xs and l = "[(lo, n)]"])
  show "sorted_wrt before_blk ([(lo, n)] @ xs)"
    using assms(2,5) sorted_hd_least [OF assms(2)] by (fastforce simp: before_blk_def)
qed (use assms in \<open>auto simp: ring_layout_def inside_def\<close>)

lemma layout_extend_wrapped:
  assumes "ring_layout lo hi xs" "fst (last xs) < fst (hd xs)" "0 < n" "pair_end (last xs) + n \<le> fst (hd xs)" "xs \<noteq> []"
  shows "ring_layout lo hi (xs @ [(pair_end (last xs), n)])"
proof -
  obtain u l where x: "xs = u @ l" "u \<noteq> []" "l \<noteq> []" "sorted_wrt before_blk (l @ u)"
    using ring_layout_runs(2) [OF assms(1,5,2)] by blast
  let ?x = "(pair_end (last xs), n)"
  have ls: "last xs = last l" "hd xs = hd u" using x by simp_all
  have "sorted_wrt before_blk l" "sorted_wrt before_blk u" using x(4) by (simp_all add: sorted_wrt_append)
  note l = sorted_snoc_end [OF this(1) x(3), of n] and u = sorted_hd_least [OF this(2)]
  have "sorted_wrt before_blk ((l @ [?x]) @ u)"
    using x(4) l u assms(4) unfolding ls by (fastforce simp: sorted_wrt_append before_blk_def)
  then have "\<exists>upper lower. xs @ [?x] = upper @ lower \<and> sorted_wrt before_blk (lower @ upper)"
    using x(1) by (intro exI [of _ u] exI [of _ "l @ [?x]"]) simp
  moreover have "inside lo hi ?x"
  proof -
    have "last xs \<in> set xs" "hd xs \<in> set xs" using assms(5) by simp_all
    then have "inside lo hi (last xs)" "inside lo hi (hd xs)" using assms(1) by (auto simp: ring_layout_def)
    then show ?thesis using assms(3,4) by (auto simp: inside_def pair_end_def)
  qed
  ultimately show ?thesis using assms(1) by (auto simp: ring_layout_def)
qed

section \<open>The operations keep the layout\<close>

text \<open>The result of linking the block \<open>n\<close> behind the blocks \<open>ks\<close>.\<close>

definition rbb_added :: "rt_rbb \<Rightarrow> nat list \<Rightarrow> nat \<Rightarrow> nat \<Rightarrow> rt_rbb \<Rightarrow> bool" where
  "rbb_added rbb ks n sz rbb' \<longleftrightarrow>
     n \<notin> set ks \<and> rbb_wf rbb' (ks @ [n]) \<and> bk_size (rbb_blk rbb' n) = sz \<and>
     bk_status (rbb_blk rbb' n) = RT_RBB_BLK_INITED \<and> (\<forall>i. i \<noteq> n \<longrightarrow> rbb_blk rbb' i = rbb_blk rbb i) \<and>
     rbb_buf rbb' = rbb_buf rbb \<and> rbb_buf_size rbb' = rbb_buf_size rbb \<and>
     rbb_blk_max_num rbb' = rbb_blk_max_num rbb"

lemma rbb_place_added:
  assumes "rbb_wf rbb ks" "n \<notin> set ks" "n < rbb_blk_max_num rbb"
    and "ring_layout (rbb_buf rbb) (rbb_buf rbb + rbb_buf_size rbb) (map (blk_at rbb) ks @ [(a, sz)])"
  shows "\<exists>rbb'. rbb_place n a sz rbb = Some (Some n, rbb') \<and> rbb_added rbb ks n sz rbb'"
proof -
  have "slist (rbb_next rbb) Blk_list (map Blk ks)" "Blk n \<notin> set (Blk_list # map Blk ks)"
    using assms(1,2) by (auto simp: rbb_wf_def)
  then obtain h where h: "rt_slist_append Blk_list (Blk n) (rbb_next rbb) = Some h" "slist h Blk_list (map Blk ks @ [Blk n])"
    by (rule slist_append)
  let ?r = "upd_blk n (\<lambda>_. \<lparr>bk_status = RT_RBB_BLK_INITED, bk_size = sz, bk_buf = a\<rparr>) (rbb\<lparr>rbb_next := h\<rparr>)"
  have "map (blk_at ?r) ks = map (blk_at rbb) ks" using assms(2) by (auto simp: blk_at_def)
  moreover have "blk_at ?r n = (a, sz)" by (simp add: blk_at_def)
  ultimately have m: "map (blk_at ?r) (ks @ [n]) = map (blk_at rbb) ks @ [(a, sz)]"
    by (simp only: map_append list.map)
  have "rbb_wf ?r (ks @ [n])" unfolding rbb_wf_def m using assms h by (auto simp: rbb_wf_def)
  then have "rbb_added rbb ks n sz ?r" using assms(2) by (simp add: rbb_added_def)
  then show ?thesis using h(1) by (simp add: rbb_place_def)
qed

lemma find_empty_some:
  "find_empty_blk_in_set rbb = Some n \<Longrightarrow> n < rbb_blk_max_num rbb \<and> bk_status (rbb_blk rbb n) = RT_RBB_BLK_UNUSED"
  by (auto simp: find_empty_blk_in_set_def find_Some_iff)

lemma rbb_ends:
  assumes "rbb_wf rbb ks" "i \<in> set ks"
  shows "inside (rbb_buf rbb) (rbb_buf rbb + rbb_buf_size rbb) (blk_at rbb i)" and "blk_end (rbb_blk rbb i) = pair_end (blk_at rbb i)"
proof -
  show i: "inside (rbb_buf rbb) (rbb_buf rbb + rbb_buf_size rbb) (blk_at rbb i)"
    using assms by (auto simp: rbb_wf_def ring_layout_def)
  then show "blk_end (rbb_blk rbb i) = pair_end (blk_at rbb i)"
    using assms(1) by (auto simp: rbb_wf_def blk_end_def pair_end_def inside_def blk_at_def)
qed

text \<open>The three places a block can go to when the list is not empty.\<close>

lemma alloc_extend:
  assumes "rbb_wf rbb ks" "ks \<noteq> []" "0 < sz" "fst (blk_at rbb (hd ks)) \<le> fst (blk_at rbb (last ks))"
    and "sz \<le> sub32 (add32 (rbb_buf rbb) (rbb_buf_size rbb)) (blk_end (rbb_blk rbb (last ks)))"
  shows "ring_layout (rbb_buf rbb) (rbb_buf rbb + rbb_buf_size rbb) (map (blk_at rbb) ks @ [(blk_end (rbb_blk rbb (last ks)), sz)])"
proof -
  let ?xs = "map (blk_at rbb) ks"
  have l: "ring_layout (rbb_buf rbb) (rbb_buf rbb + rbb_buf_size rbb) ?xs" "rbb_buf rbb + rbb_buf_size rbb < 2 ^ 32"
    using assms(1) by (simp_all add: rbb_wf_def)
  note e = rbb_ends [OF assms(1) last_in_set [OF assms(2)]]
  have le: "pair_end (blk_at rbb (last ks)) \<le> rbb_buf rbb + rbb_buf_size rbb" using e(1) by (simp add: inside_def pair_end_def)
  then have "sz \<le> rbb_buf rbb + rbb_buf_size rbb - pair_end (blk_at rbb (last ks))"
    using assms(5) l(2) unfolding e(2) by simp
  then have i: "inside (rbb_buf rbb) (rbb_buf rbb + rbb_buf_size rbb) (pair_end (last ?xs), sz)"
    using e(1) le assms(2,3) by (auto simp: inside_def last_map pair_end_def)
  have "sorted_wrt before_blk ?xs"
    by (rule ring_layout_runs(1) [OF l(1)]) (use assms(2,4) in \<open>simp_all add: hd_map last_map\<close>)
  from layout_extend [OF l(1) this _ i] show ?thesis using assms(2) e(2) by (simp add: last_map)
qed

lemma alloc_wrap:
  assumes "rbb_wf rbb ks" "ks \<noteq> []" "0 < sz" "fst (blk_at rbb (hd ks)) \<le> fst (blk_at rbb (last ks))"
    and "sz \<le> sub32 (bk_buf (rbb_blk rbb (hd ks))) (rbb_buf rbb)"
  shows "ring_layout (rbb_buf rbb) (rbb_buf rbb + rbb_buf_size rbb) (map (blk_at rbb) ks @ [(rbb_buf rbb, sz)])"
proof -
  let ?xs = "map (blk_at rbb) ks"
  have l: "ring_layout (rbb_buf rbb) (rbb_buf rbb + rbb_buf_size rbb) ?xs" "rbb_buf rbb + rbb_buf_size rbb < 2 ^ 32"
    using assms(1) by (simp_all add: rbb_wf_def)
  note e = rbb_ends(1) [OF assms(1) hd_in_set [OF assms(2)]]
  have sz: "rbb_buf rbb + sz \<le> fst (blk_at rbb (hd ks))"
    using assms(3,5) e l(2) by (auto simp: inside_def blk_at_def)
  have "sorted_wrt before_blk ?xs"
    by (rule ring_layout_runs(1) [OF l(1)]) (use assms(2,4) in \<open>simp_all add: hd_map last_map\<close>)
  from layout_wrap [OF l(1) this _ assms(3)] show ?thesis using assms(2) sz e by (simp add: hd_map inside_def)
qed

lemma alloc_between:
  assumes "rbb_wf rbb ks" "ks \<noteq> []" "0 < sz" "fst (blk_at rbb (last ks)) < fst (blk_at rbb (hd ks))"
    and "sz \<le> sub32 (bk_buf (rbb_blk rbb (hd ks))) (blk_end (rbb_blk rbb (last ks)))"
  shows "ring_layout (rbb_buf rbb) (rbb_buf rbb + rbb_buf_size rbb) (map (blk_at rbb) ks @ [(blk_end (rbb_blk rbb (last ks)), sz)])"
proof -
  let ?xs = "map (blk_at rbb) ks"
  have l: "ring_layout (rbb_buf rbb) (rbb_buf rbb + rbb_buf_size rbb) ?xs" "rbb_buf rbb + rbb_buf_size rbb < 2 ^ 32"
    using assms(1) by (simp_all add: rbb_wf_def)
  have w: "fst (last ?xs) < fst (hd ?xs)" "?xs \<noteq> []" using assms(2,4) by (simp_all add: hd_map last_map)
  obtain u d where x: "?xs = u @ d" "u \<noteq> []" "d \<noteq> []" "sorted_wrt before_blk (d @ u)"
    using ring_layout_runs(2) [OF l(1) w(2,1)] by blast
  have "before_blk (last d) (hd u)" using x by (simp add: sorted_wrt_append)
  then have b: "pair_end (blk_at rbb (last ks)) \<le> fst (blk_at rbb (hd ks))"
    using x assms(2) by (metis before_blk_def hd_append2 hd_map last_appendR last_map pair_end_def)
  note e = rbb_ends(1) [OF assms(1) hd_in_set [OF assms(2)]] rbb_ends(2) [OF assms(1) last_in_set [OF assms(2)]]
  have f: "fst (blk_at rbb (hd ks)) < 2 ^ 32" using e(1) l(2) by (simp add: inside_def)
  have "pair_end (blk_at rbb (last ks)) + sz \<le> fst (blk_at rbb (hd ks))"
    using assms(5) b f unfolding e(2) by (simp add: blk_at_def)
  then show ?thesis using layout_extend_wrapped [OF l(1) w(1) assms(3) _ w(2)] assms(2) e(2) by (simp add: hd_map last_map)
qed

lemma rbb_list:
  assumes "rbb_wf rbb ks"
  shows "rt_slist_len Blk_list (rbb_next rbb) = Some (length ks)"
    and "rt_slist_isempty Blk_list (rbb_next rbb) \<longleftrightarrow> ks = []"
    and "ks \<noteq> [] \<Longrightarrow> rt_slist_first Blk_list (rbb_next rbb) = Some (Blk (hd ks))"
    and "ks \<noteq> [] \<Longrightarrow> rt_slist_tail Blk_list (rbb_next rbb) = Some (Blk (last ks))"
proof -
  have s: "slist (rbb_next rbb) Blk_list (map Blk ks)" using assms by (simp add: rbb_wf_def)
  show "rt_slist_len Blk_list (rbb_next rbb) = Some (length ks)" using slist_len [OF s] by simp
  show "rt_slist_isempty Blk_list (rbb_next rbb) \<longleftrightarrow> ks = []" using slist_isempty [OF s] by simp
  show "rt_slist_first Blk_list (rbb_next rbb) = Some (Blk (hd ks))" if "ks \<noteq> []"
    using slist_first [OF s] that by (cases ks) simp_all
  show "rt_slist_tail Blk_list (rbb_next rbb) = Some (Blk (last ks))" if "ks \<noteq> []"
    using slist_tail [OF s] that by (simp add: last_map)
qed

text \<open>An allocation with a positive size links a block that fits, or changes nothing.\<close>

lemma rbb_alloc_shape:
  assumes "rbb_wf rbb ks" "ks \<noteq> []" "n \<notin> set ks" "n < rbb_blk_max_num rbb" "0 < sz" "sz < 2 ^ 24"
    and "find_empty_blk_in_set rbb = Some n" "length ks < rbb_blk_max_num rbb"
  shows "rt_rbb_blk_alloc sz rbb = Some (None, rbb) \<or>
    (\<exists>rbb'. rt_rbb_blk_alloc sz rbb = Some (Some n, rbb') \<and> rbb_added rbb ks n sz rbb')"
proof -
  let ?t = "blk_end (rbb_blk rbb (last ks))"
  note l = rbb_list [OF assms(1)]
  note place = rbb_place_added [OF assms(1,3,4)]
  note unfold = rt_rbb_blk_alloc_def l(1) l(3,4) [OF assms(2)] assms(7) blk_entry_def Let_def
  show ?thesis
  proof (cases "bk_buf (rbb_blk rbb (hd ks)) \<le> bk_buf (rbb_blk rbb (last ks))")
    case True
    then have o: "fst (blk_at rbb (hd ks)) \<le> fst (blk_at rbb (last ks))" by (simp add: blk_at_def)
    let ?a = "rt_rbb_blk_alloc sz rbb"
    have "?a = (if sz \<le> sub32 (add32 (rbb_buf rbb) (rbb_buf_size rbb)) ?t then rbb_place n ?t sz rbb
      else if sz \<le> sub32 (bk_buf (rbb_blk rbb (hd ks))) (rbb_buf rbb) then rbb_place n (rbb_buf rbb) sz rbb
      else Some (None, rbb))"
      using True assms(2,6,8) by (simp add: unfold)
    then show ?thesis
      using place [OF alloc_extend [OF assms(1,2,5) o]] place [OF alloc_wrap [OF assms(1,2,5) o]] by metis
  next
    case False
    then have o: "fst (blk_at rbb (last ks)) < fst (blk_at rbb (hd ks))" by (simp add: blk_at_def)
    have "rt_rbb_blk_alloc sz rbb = (if sz \<le> sub32 (bk_buf (rbb_blk rbb (hd ks))) ?t then rbb_place n ?t sz rbb
      else Some (None, rbb))"
      using False assms(2,6,8) by (simp add: unfold)
    then show ?thesis using place [OF alloc_between [OF assms(1,2,5) o]] by metis
  qed
qed

lemma rbb_alloc_empty:
  assumes "rbb_wf rbb []" "0 < sz" "sz < 2 ^ 24" "sz \<le> rbb_buf_size rbb" "find_empty_blk_in_set rbb = Some n"
  shows "\<exists>rbb'. rt_rbb_blk_alloc sz rbb = Some (Some n, rbb') \<and> rbb_added rbb [] n sz rbb'"
proof -
  note f = find_empty_some [OF assms(5)]
  have "rt_rbb_blk_alloc sz rbb = rbb_place n (rbb_buf rbb) sz rbb"
    using assms(3,5) f by (simp add: rt_rbb_blk_alloc_def rbb_list(1) [OF assms(1)])
  moreover have "inside (rbb_buf rbb) (rbb_buf rbb + rbb_buf_size rbb) (rbb_buf rbb, sz)"
    using assms(2,4) by (simp add: inside_def)
  ultimately show ?thesis using rbb_place_added [OF assms(1), of n "rbb_buf rbb" sz] f by (simp add: ring_layout_one)
qed

lemma rbb_alloc:
  assumes "rbb_wf rbb ks" "0 < sz" "sz < 2 ^ 24" "sz \<le> rbb_buf_size rbb"
  obtains "rt_rbb_blk_alloc sz rbb = Some (None, rbb)"
  | n rbb' where "rt_rbb_blk_alloc sz rbb = Some (Some n, rbb')" "rbb_added rbb ks n sz rbb'"
proof (cases "find_empty_blk_in_set rbb")
  case None
  then have "rt_rbb_blk_alloc sz rbb = Some (None, rbb)"
    using assms(3) by (simp add: rt_rbb_blk_alloc_def rbb_list(1) [OF assms(1)])
  then show ?thesis by (rule that(1))
next
  case (Some n)
  note f = find_empty_some [OF Some]
  then have n: "n \<notin> set ks" using assms(1) by (auto simp: rbb_wf_def)
  show ?thesis
  proof (cases "ks = [] \<or> \<not> length ks < rbb_blk_max_num rbb")
    case True
    then show ?thesis
    proof (cases "length ks < rbb_blk_max_num rbb")
      case False
      then have "rt_rbb_blk_alloc sz rbb = Some (None, rbb)"
        using assms(3) Some by (simp add: rt_rbb_blk_alloc_def rbb_list(1) [OF assms(1)])
      then show ?thesis by (rule that(1))
    qed (use rbb_alloc_empty [of rbb sz n] assms Some that(2) in blast)
  next
    case False
    then show ?thesis using rbb_alloc_shape [OF assms(1) _ n conjunct1 [OF f] assms(2,3) Some] that by blast
  qed
qed

text \<open>An empty list is not checked against the size of the buffer, and nothing but the list is checked.\<close>

lemma alloc_first_unchecked:
  assumes "rbb_wf rbb []" "find_empty_blk_in_set rbb = Some n" "sz < 2 ^ 24"
  shows "\<exists>rbb'. rt_rbb_blk_alloc sz rbb = Some (Some n, rbb') \<and>
    rbb_blk rbb' n = \<lparr>bk_status = RT_RBB_BLK_INITED, bk_size = sz, bk_buf = rbb_buf rbb\<rparr> \<and>
    (\<forall>i. i \<noteq> n \<longrightarrow> rbb_blk rbb' i = rbb_blk rbb i)"
proof -
  have "slist (rbb_next rbb) Blk_list (map Blk [])" using assms(1) by (simp add: rbb_wf_def)
  then obtain h where "rt_slist_append Blk_list (Blk n) (rbb_next rbb) = Some h" by (rule slist_append [where n = "Blk n"]) simp
  then show ?thesis
    using assms(2,3) find_empty_some [OF assms(2)]
    by (simp add: rt_rbb_blk_alloc_def rbb_place_def rbb_list(1) [OF assms(1)])
qed

lemma rbb_status_wf:
  assumes "rbb_wf rbb ks" "st \<noteq> RT_RBB_BLK_UNUSED"
  shows "rbb_wf (upd_blk i (\<lambda>b. b\<lparr>bk_status := st\<rparr>) rbb) ks"
proof -
  have "blk_at (upd_blk i (\<lambda>b. b\<lparr>bk_status := st\<rparr>) rbb) = blk_at rbb" by (auto simp: blk_at_def)
  then show ?thesis using assms by (simp add: rbb_wf_def)
qed

lemma rbb_unlink:
  assumes "rbb_wf rbb ks"
  obtains h where "rt_slist_remove Blk_list (Blk i) (rbb_next rbb) = Some (Blk_list, h)" "h (Blk i) = rbb_next rbb (Blk i)"
    "\<And>st. rbb_wf (upd_blk i (\<lambda>b. b\<lparr>bk_status := st\<rparr>) (rbb\<lparr>rbb_next := h\<rparr>)) (removeAll i ks)"
proof -
  have "slist (rbb_next rbb) Blk_list (map Blk ks)" "Blk i \<noteq> Blk_list" using assms by (simp_all add: rbb_wf_def)
  then obtain h where h: "rt_slist_remove Blk_list (Blk i) (rbb_next rbb) = Some (Blk_list, h)"
    "slist h Blk_list (removeAll (Blk i) (map Blk ks))" "h (Blk i) = rbb_next rbb (Blk i)"
    by (rule slist_remove)
  have r: "removeAll (Blk i) (map Blk ks) = map Blk (removeAll i ks)" by (induction ks) auto
  have wf: "rbb_wf (upd_blk i (\<lambda>b. b\<lparr>bk_status := st\<rparr>) (rbb\<lparr>rbb_next := h\<rparr>)) (removeAll i ks)" for st
  proof -
    have "blk_at (upd_blk i (\<lambda>b. b\<lparr>bk_status := st\<rparr>) (rbb\<lparr>rbb_next := h\<rparr>)) = blk_at rbb" by (auto simp: blk_at_def)
    moreover have "ring_layout (rbb_buf rbb) (rbb_buf rbb + rbb_buf_size rbb) (map (blk_at rbb) (removeAll i ks))"
      unfolding removeAll_filter_not_eq by (rule ring_layout_filter) (use assms in \<open>simp add: rbb_wf_def\<close>)
    ultimately show ?thesis using assms h(2) r by (auto simp: rbb_wf_def)
  qed
  show ?thesis by (rule that [OF h(1,3) wf])
qed

lemma rbb_free:
  assumes "rbb_wf rbb ks" "bk_status (rbb_blk rbb i) \<noteq> RT_RBB_BLK_UNUSED"
  obtains rbb' where "rt_rbb_blk_free i rbb = Some rbb'" "rbb_wf rbb' (removeAll i ks)"
    "bk_status (rbb_blk rbb' i) = RT_RBB_BLK_UNUSED" "\<And>j. j \<noteq> i \<Longrightarrow> rbb_blk rbb' j = rbb_blk rbb j"
    "rbb_buf rbb' = rbb_buf rbb" "rbb_buf_size rbb' = rbb_buf_size rbb" "rbb_blk_max_num rbb' = rbb_blk_max_num rbb"
proof -
  obtain h where h: "rt_slist_remove Blk_list (Blk i) (rbb_next rbb) = Some (Blk_list, h)"
    "\<And>st. rbb_wf (upd_blk i (\<lambda>b. b\<lparr>bk_status := st\<rparr>) (rbb\<lparr>rbb_next := h\<rparr>)) (removeAll i ks)"
    using rbb_unlink [OF assms(1)] by metis
  have "rt_rbb_blk_free i rbb = Some (upd_blk i (\<lambda>b. b\<lparr>bk_status := RT_RBB_BLK_UNUSED\<rparr>) (rbb\<lparr>rbb_next := h\<rparr>))"
    using assms(2) h(1) by (simp add: rt_rbb_blk_free_def)
  then show ?thesis by (rule that) (use h(2) in auto)
qed

text \<open>The consumer gets the first block that has been put.\<close>

definition is_put :: "rt_rbb \<Rightarrow> nat \<Rightarrow> bool" where
  "is_put rbb i \<longleftrightarrow> bk_status (rbb_blk rbb i) = RT_RBB_BLK_PUT"

lemma get_from:
  "schain (rbb_next rbb) x (map Blk ks) \<Longrightarrow> blk_get_from (rbb_next rbb x) rbb =
     Some (case List.find (is_put rbb) ks of None \<Rightarrow> (None, rbb)
           | Some i \<Rightarrow> (Some i, upd_blk i (\<lambda>b. b\<lparr>bk_status := RT_RBB_BLK_GET\<rparr>) rbb))"
proof (induction ks arbitrary: x)
  case Nil
  then show ?case by (simp add: blk_get_from.simps)
next
  case (Cons i ks)
  then have n: "rbb_next rbb x = Some (Blk i)" "schain (rbb_next rbb) (Blk i) (map Blk ks)" by simp_all
  have "blk_get_from (Some (Blk i)) rbb = (if is_put rbb i
      then Some (Some i, upd_blk i (\<lambda>b. b\<lparr>bk_status := RT_RBB_BLK_GET\<rparr>) rbb)
      else blk_get_from (rbb_next rbb (Blk i)) rbb)"
    by (subst blk_get_from.simps) (simp add: blk_entry_def is_put_def rt_slist_next_def)
  then show ?case using Cons.IH [OF n(2)] n(1) by simp
qed

lemma rbb_get:
  assumes "rbb_wf rbb ks"
  shows "rt_rbb_blk_get rbb = Some (case List.find (is_put rbb) ks of None \<Rightarrow> (None, rbb)
    | Some i \<Rightarrow> (Some i, upd_blk i (\<lambda>b. b\<lparr>bk_status := RT_RBB_BLK_GET\<rparr>) rbb))"
proof (cases "ks = []")
  case True
  then show ?thesis using rbb_list(2) [OF assms] by (simp add: rt_rbb_blk_get_def)
next
  case False
  have "schain (rbb_next rbb) Blk_list (map Blk ks)" using assms by (simp add: rbb_wf_def slist_def)
  from get_from [OF this] show ?thesis using rbb_list(2) [OF assms] False by (simp add: rt_rbb_blk_get_def rt_slist_first_def)
qed

section \<open>The block queue\<close>

text \<open>What the loop takes behind the block \<open>l\<close> when \<open>t\<close> bytes are already taken: blocks that have been put,
  at rising addresses, as long as the sum stays within \<open>q\<close>.\<close>

fun queue_taken :: "nat \<Rightarrow> (nat \<Rightarrow> rt_rbb_blk) \<Rightarrow> nat \<Rightarrow> nat \<Rightarrow> nat list \<Rightarrow> nat list" where
  "queue_taken q b l t [] = []"
| "queue_taken q b l t (i # ks) =
     (if bk_status (b i) \<noteq> RT_RBB_BLK_PUT \<or> bk_buf (b l) > bk_buf (b i) \<or> add32 t (bk_size (b i)) > q then []
      else i # queue_taken q b i (add32 t (bk_size (b i))) ks)"

lemma queue_taken_prefix: "\<exists>zs. ks = queue_taken q b l t ks @ zs"
  by (induction q b l t ks rule: queue_taken.induct) auto

lemma queue_taken_put: "i \<in> set (queue_taken q b l t ks) \<Longrightarrow> bk_status (b i) = RT_RBB_BLK_PUT"
  by (induction q b l t ks rule: queue_taken.induct) (auto split: if_splits)

lemma queue_taken_rising: "sorted (map (bk_buf \<circ> b) (l # queue_taken q b l t ks))"
proof (induction q b l t ks rule: queue_taken.induct)
  case (2 q b l t i ks)
  show ?case
  proof (cases "bk_status (b i) \<noteq> RT_RBB_BLK_PUT \<or> bk_buf (b l) > bk_buf (b i) \<or> add32 t (bk_size (b i)) > q")
    case False
    then have "sorted (map (bk_buf \<circ> b) (i # queue_taken q b i (add32 t (bk_size (b i))) ks))" by (rule 2)
    moreover have "queue_taken q b l t (i # ks) = i # queue_taken q b i (add32 t (bk_size (b i))) ks" using False by simp
    moreover have "(bk_buf \<circ> b) l \<le> (bk_buf \<circ> b) i" using False by simp
    ultimately show ?thesis by (simp only: list.map sorted2 simp_thms)
  qed simp
qed simp

definition size_sum :: "(nat \<Rightarrow> rt_rbb_blk) \<Rightarrow> nat \<Rightarrow> nat list \<Rightarrow> nat" where
  "size_sum b t ks = foldl (\<lambda>t i. add32 t (bk_size (b i))) t ks"

lemma queue_taken_bound: "t \<le> q \<Longrightarrow> size_sum b t (queue_taken q b l t ks) \<le> q"
  by (induction q b l t ks rule: queue_taken.induct) (auto simp: size_sum_def)

lemma queue_taken_cong: "(\<And>i. i \<in> set ks \<Longrightarrow> b' i = b i) \<Longrightarrow> bk_buf (b' l) = bk_buf (b l) \<Longrightarrow>
    queue_taken q b' l t ks = queue_taken q b l t ks"
proof (induction ks arbitrary: l t)
  case (Cons i ks)
  then have "queue_taken q b' i (add32 t (bk_size (b i))) ks = queue_taken q b i (add32 t (bk_size (b i))) ks" by simp
  then show ?case using Cons.prems by simp
qed simp

lemma size_sum_cong: "(\<And>i. i \<in> set ks \<Longrightarrow> bk_size (b' i) = bk_size (b i)) \<Longrightarrow> size_sum b' t ks = size_sum b t ks"
  by (induction ks arbitrary: t) (simp_all add: size_sum_def)

text \<open>\<open>rbb_took rbb ks ts rbb'\<close>: the blocks \<open>ts\<close> are out of the list \<open>ks\<close> and marked, nothing else has changed.\<close>

definition rbb_took :: "rt_rbb \<Rightarrow> nat list \<Rightarrow> nat list \<Rightarrow> rt_rbb \<Rightarrow> bool" where
  "rbb_took rbb ks ts rbb' \<longleftrightarrow>
     rbb_wf rbb' (filter (\<lambda>i. i \<notin> set ts) ks) \<and>
     rbb_blk rbb' = (\<lambda>i. if i \<in> set ts then (rbb_blk rbb i)\<lparr>bk_status := RT_RBB_BLK_GET\<rparr> else rbb_blk rbb i) \<and>
     rbb_buf rbb' = rbb_buf rbb \<and> rbb_blk_max_num rbb' = rbb_blk_max_num rbb"

lemma took_nil: "rbb_wf rbb ks \<Longrightarrow> rbb_took rbb ks [] rbb"
  by (simp add: rbb_took_def)

lemma took_more:
  assumes "rbb_took rbb1 (removeAll i ks) ts rbb'" "i \<notin> set ts"
    and "rbb_blk rbb1 = (rbb_blk rbb)(i := (rbb_blk rbb i)\<lparr>bk_status := RT_RBB_BLK_GET\<rparr>)"
    "rbb_buf rbb1 = rbb_buf rbb" "rbb_blk_max_num rbb1 = rbb_blk_max_num rbb"
  shows "rbb_took rbb ks (i # ts) rbb'"
proof -
  have "filter (\<lambda>j. j \<notin> set (i # ts)) ks = filter (\<lambda>j. j \<notin> set ts) (removeAll i ks)"
    by (auto simp: removeAll_filter_not_eq intro!: filter_cong)
  then show ?thesis using assms by (auto simp: rbb_took_def)
qed

text \<open>One round that takes the block \<open>i\<close>.\<close>

lemma queue_take_round:
  assumes "rbb_wf rbb ks" "queue_choose q i last_block t bq rbb = Queue_take bq1"
  obtains rbb1 where "rbb_wf rbb1 (removeAll i ks)"
    "rbb_blk rbb1 = (rbb_blk rbb)(i := (rbb_blk rbb i)\<lparr>bk_status := RT_RBB_BLK_GET\<rparr>)"
    "rbb_buf rbb1 = rbb_buf rbb" "rbb_blk_max_num rbb1 = rbb_blk_max_num rbb"
    "queue_get_from q (Some (Blk i)) last_block t bq rbb =
       queue_get_from q (rbb_next rbb (Blk i)) (Some i) (add32 t (bk_size (rbb_blk rbb i)))
         (bq1\<lparr>bq_num := add32 (bq_num bq1) 1\<rparr>) rbb1"
proof -
  obtain h where h: "rt_slist_remove Blk_list (Blk i) (rbb_next rbb) = Some (Blk_list, h)" "h (Blk i) = rbb_next rbb (Blk i)"
    "\<And>st. rbb_wf (upd_blk i (\<lambda>b. b\<lparr>bk_status := st\<rparr>) (rbb\<lparr>rbb_next := h\<rparr>)) (removeAll i ks)"
    using rbb_unlink [OF assms(1)] by metis
  let ?r = "upd_blk i (\<lambda>b. b\<lparr>bk_status := RT_RBB_BLK_GET\<rparr>) (rbb\<lparr>rbb_next := h\<rparr>)"
  have "queue_get_from q (Some (Blk i)) last_block t bq rbb =
       queue_get_from q (rbb_next rbb (Blk i)) (Some i) (add32 t (bk_size (rbb_blk rbb i)))
         (bq1\<lparr>bq_num := add32 (bq_num bq1) 1\<rparr>) ?r"
    by (subst queue_get_from.simps) (simp add: blk_entry_def assms(2) h(1,2) rt_slist_next_def)
  with that [of ?r] h(3) show ?thesis by simp
qed

definition node_of :: "nat list \<Rightarrow> rbb_node option" where
  "node_of ks = (case ks of [] \<Rightarrow> None | i # _ \<Rightarrow> Some (Blk i))"

lemma schain_next: "schain h x (map Blk (ys @ i # zs)) \<Longrightarrow> h (Blk i) = node_of zs"
  by (induction ys arbitrary: x) (auto simp: node_of_def split: list.splits)

lemma rbb_node_next: "rbb_wf rbb (ys @ i # zs) \<Longrightarrow> rbb_next rbb (Blk i) = node_of zs"
  using schain_next [of "rbb_next rbb" Blk_list ys i zs] by (simp add: rbb_wf_def slist_def)

lemma rbb_distinct: "rbb_wf rbb ks \<Longrightarrow> distinct ks"
  by (simp add: rbb_wf_def slist_def distinct_map)

lemma removeAll_mid: "distinct (ys @ i # zs) \<Longrightarrow> removeAll i (ys @ i # zs) = ys @ zs"
  by simp

lemma queue_get_some:
  assumes "rbb_wf rbb (pre @ post)" "bq_num bq < 2 ^ 32" "ts = queue_taken q (rbb_blk rbb) l t post"
  shows "\<exists>rbb'. queue_get_from q (node_of post) (Some l) t bq rbb =
      Some (size_sum (rbb_blk rbb) t ts, bq\<lparr>bq_num := (bq_num bq + length ts) mod 2 ^ 32\<rparr>, rbb') \<and>
    rbb_took rbb (pre @ post) ts rbb'"
  using assms
proof (induction post arbitrary: rbb bq l t ts)
  case Nil
  then show ?case using took_nil [OF Nil(1)] by (simp add: node_of_def queue_get_from.simps size_sum_def)
next
  case (Cons i post)
  let ?b = "rbb_blk rbb"
  show ?case
  proof (cases "queue_taken q ?b l t (i # post)")
    case Nil
    then have "queue_choose q i (Some l) t bq rbb = Queue_break" by (auto simp: queue_choose_def Let_def split: if_splits)
    then have "queue_get_from q (Some (Blk i)) (Some l) t bq rbb = Some (t, bq, rbb)"
      by (subst queue_get_from.simps) (simp add: blk_entry_def)
    then show ?thesis using Cons.prems Nil took_nil [OF Cons.prems(1)] by (simp add: node_of_def size_sum_def)
  next
    case (Cons j js)
    let ?t = "add32 t (bk_size (?b i))"
    have j: "j = i" "js = queue_taken q ?b i ?t post" using Cons by (auto split: if_splits)
    have "queue_choose q i (Some l) t bq rbb = Queue_take bq" using Cons by (auto simp: queue_choose_def Let_def split: if_splits)
    from queue_take_round [OF Cons.prems(1) this] obtain rbb1 where r: "rbb_wf rbb1 (removeAll i (pre @ i # post))"
      "rbb_blk rbb1 = ?b(i := (?b i)\<lparr>bk_status := RT_RBB_BLK_GET\<rparr>)"
      "rbb_buf rbb1 = rbb_buf rbb" "rbb_blk_max_num rbb1 = rbb_blk_max_num rbb"
      "queue_get_from q (Some (Blk i)) (Some l) t bq rbb =
         queue_get_from q (rbb_next rbb (Blk i)) (Some i) ?t (bq\<lparr>bq_num := add32 (bq_num bq) 1\<rparr>) rbb1" .
    have d: "distinct (pre @ i # post)" by (rule rbb_distinct [OF Cons.prems(1)])
    have w: "rbb_wf rbb1 (pre @ post)" using r(1) unfolding removeAll_mid [OF d] .
    have same: "\<And>k. k \<in> set post \<Longrightarrow> rbb_blk rbb1 k = ?b k" using d r(2) by auto
    have js: "js = queue_taken q (rbb_blk rbb1) i ?t post"
      unfolding j(2) by (rule queue_taken_cong [symmetric]) (erule same, simp add: r(2))
    have sub: "set js \<subseteq> set post" using queue_taken_prefix [of post q ?b i ?t] j(2) by (metis set_append sup_ge1)
    have "size_sum (rbb_blk rbb1) ?t js = size_sum ?b ?t js"
      by (rule size_sum_cong) (metis same subsetD [OF sub])
    then have sum: "size_sum (rbb_blk rbb1) ?t js = size_sum ?b t (i # js)" by (simp add: size_sum_def)
    let ?bq = "bq\<lparr>bq_num := add32 (bq_num bq) 1\<rparr>"
    have "bq_num ?bq < 2 ^ 32" by (simp add: add32_def)
    from Cons.IH [OF w this js] obtain rbb' where
      i: "queue_get_from q (node_of post) (Some i) ?t ?bq rbb1 =
        Some (size_sum (rbb_blk rbb1) ?t js, ?bq\<lparr>bq_num := (bq_num ?bq + length js) mod 2 ^ 32\<rparr>, rbb')"
      "rbb_took rbb1 (pre @ post) js rbb'" by blast
    have "rbb_took rbb (pre @ i # post) (i # js) rbb'"
      by (rule took_more [OF _ _ r(2,3,4)]) (use i(2) removeAll_mid [OF d] sub d in auto)
    moreover have "(add32 (bq_num bq) 1 + length js) mod 2 ^ 32 = (bq_num bq + length (i # js)) mod 2 ^ 32"
      by (simp add: add32_def mod_add_left_eq)
    ultimately show ?thesis
      using i(1) r(5) rbb_node_next [OF Cons.prems(1)] sum Cons j(1) Cons.prems(3) by (simp add: node_of_def)
  qed
qed

text \<open>A queue starts at the first block that has been put.\<close>

lemma queue_get_none:
  assumes "rbb_wf rbb (pre @ post)" "\<forall>i\<in>set skip. \<not> is_put rbb i" "post = skip @ rest"
  shows "queue_get_from q (node_of post) None t bq rbb = queue_get_from q (node_of rest) None t bq rbb"
  using assms
proof (induction skip arbitrary: pre post)
  case (Cons i skip)
  then have "queue_choose q i None t bq rbb = Queue_continue" by (simp add: queue_choose_def Let_def is_put_def)
  then have "queue_get_from q (Some (Blk i)) None t bq rbb = queue_get_from q (rbb_next rbb (Blk i)) None t bq rbb"
    by (subst queue_get_from.simps) (simp add: blk_entry_def rt_slist_next_def)
  moreover have "rbb_next rbb (Blk i) = node_of (skip @ rest)"
    by (rule rbb_node_next [of _ pre]) (use Cons.prems in simp)
  ultimately show ?case
    using Cons.IH [of "pre @ [i]" "skip @ rest"] Cons.prems by (simp add: node_of_def)
qed simp

lemma rbb_queue_get:
  assumes "rbb_wf rbb (skip @ i # post)" "\<forall>k\<in>set skip. \<not> is_put rbb k" "is_put rbb i"
    and "ts = i # queue_taken q (rbb_blk rbb) i (add32 0 (bk_size (rbb_blk rbb i))) post"
  shows "\<exists>rbb'. rt_rbb_blk_queue_get q bq rbb =
      Some (size_sum (rbb_blk rbb) 0 ts, \<lparr>bq_blocks = i, bq_num = length ts mod 2 ^ 32\<rparr>, rbb') \<and>
    rbb_took rbb (skip @ i # post) ts rbb'"
proof -
  let ?b = "rbb_blk rbb" and ?bq = "\<lparr>bq_blocks = i, bq_num = 0\<rparr>"
  let ?t = "add32 0 (bk_size (?b i))"
  let ?js = "queue_taken q ?b i ?t post"
  have "schain (rbb_next rbb) Blk_list (map Blk (skip @ i # post))" using assms(1) by (simp add: rbb_wf_def slist_def)
  then have "rt_slist_first Blk_list (rbb_next rbb) = node_of (skip @ i # post)"
    by (cases skip) (simp_all add: rt_slist_first_def node_of_def)
  then have "rt_rbb_blk_queue_get q bq rbb = queue_get_from q (node_of (skip @ i # post)) None 0 bq rbb"
    using rbb_list(2) [OF assms(1)] by (simp add: rt_rbb_blk_queue_get_def)
  also have "\<dots> = queue_get_from q (node_of (i # post)) None 0 bq rbb"
    by (rule queue_get_none [of _ "[]" _ skip]) (use assms(1,2) in simp_all)
  finally have g: "rt_rbb_blk_queue_get q bq rbb = queue_get_from q (Some (Blk i)) None 0 bq rbb" by (simp add: node_of_def)
  have "queue_choose q i None 0 bq rbb = Queue_take ?bq" using assms(3) by (simp add: queue_choose_def Let_def is_put_def)
  from queue_take_round [OF assms(1) this] obtain rbb1 where r: "rbb_wf rbb1 (removeAll i (skip @ i # post))"
    "rbb_blk rbb1 = ?b(i := (?b i)\<lparr>bk_status := RT_RBB_BLK_GET\<rparr>)"
    "rbb_buf rbb1 = rbb_buf rbb" "rbb_blk_max_num rbb1 = rbb_blk_max_num rbb"
    "queue_get_from q (Some (Blk i)) None 0 bq rbb =
       queue_get_from q (rbb_next rbb (Blk i)) (Some i) ?t (?bq\<lparr>bq_num := add32 (bq_num ?bq) 1\<rparr>) rbb1" .
  have d: "distinct (skip @ i # post)" by (rule rbb_distinct [OF assms(1)])
  have w: "rbb_wf rbb1 (skip @ post)" using r(1) unfolding removeAll_mid [OF d] .
  have same: "\<And>k. k \<in> set post \<Longrightarrow> rbb_blk rbb1 k = ?b k" using d r(2) by auto
  have js: "?js = queue_taken q (rbb_blk rbb1) i ?t post"
    by (rule queue_taken_cong [symmetric]) (erule same, simp add: r(2))
  have sub: "set ?js \<subseteq> set post" using queue_taken_prefix [of post q ?b i ?t] by (metis set_append sup_ge1)
  have "size_sum (rbb_blk rbb1) ?t ?js = size_sum ?b ?t ?js"
    by (rule size_sum_cong) (metis same subsetD [OF sub])
  then have sum: "size_sum (rbb_blk rbb1) ?t ?js = size_sum ?b 0 ts" using assms(4) by (simp add: size_sum_def)
  have "bq_num (?bq\<lparr>bq_num := add32 (bq_num ?bq) 1\<rparr>) < 2 ^ 32" by (simp add: add32_def)
  from queue_get_some [OF w this js] obtain rbb' where
    i: "queue_get_from q (node_of post) (Some i) ?t (?bq\<lparr>bq_num := add32 (bq_num ?bq) 1\<rparr>) rbb1 =
      Some (size_sum (rbb_blk rbb1) ?t ?js, \<lparr>bq_blocks = i, bq_num = (1 + length ?js) mod 2 ^ 32\<rparr>, rbb')"
    "rbb_took rbb1 (skip @ post) ?js rbb'" by (auto simp: add32_def)
  have "rbb_took rbb (skip @ i # post) (i # ?js) rbb'"
    by (rule took_more [OF _ _ r(2,3,4)]) (use i(2) removeAll_mid [OF d] sub d in auto)
  then show ?thesis using g i(1) r(5) rbb_node_next [OF assms(1)] sum assms(4) by simp
qed

text \<open>No block that has been put: nothing is taken, and the queue keeps its fields.\<close>

lemma rbb_queue_get_none:
  assumes "rbb_wf rbb ks" "\<forall>k\<in>set ks. \<not> is_put rbb k"
  shows "rt_rbb_blk_queue_get q bq rbb = Some (0, bq, rbb)"
proof -
  have "schain (rbb_next rbb) Blk_list (map Blk ks)" using assms(1) by (simp add: rbb_wf_def slist_def)
  then have f: "rt_slist_first Blk_list (rbb_next rbb) = node_of ks"
    by (cases ks) (simp_all add: rt_slist_first_def node_of_def)
  have "queue_get_from q (node_of ks) None 0 bq rbb = queue_get_from q (node_of []) None 0 bq rbb"
    by (rule queue_get_none [of _ "[]" _ ks]) (use assms in simp_all)
  then show ?thesis using f by (simp add: rt_rbb_blk_queue_get_def node_of_def queue_get_from.simps)
qed

section \<open>Initialisation and the two weak spots\<close>

lemma rbb_init_wf: "buf + sz < 2 ^ 32 \<Longrightarrow> rbb_wf (rt_rbb_init buf sz bs ns m) []"
  by (simp add: rbb_wf_def rt_rbb_init_def slist_init)

text \<open>A block larger than the buffer is handed out when the list is empty.\<close>

lemma rbb_oversize:
  assumes "buf + sz < 2 ^ 32" "0 < m" "sz < n" "n < 2 ^ 24"
  shows "\<exists>i rbb'. rt_rbb_blk_alloc n (rt_rbb_init buf sz bs ns m) = Some (Some i, rbb') \<and>
    bk_buf (rbb_blk rbb' i) + bk_size (rbb_blk rbb' i) > buf + sz"
proof -
  let ?r = "rt_rbb_init buf sz bs ns m"
  obtain m' where m: "m = Suc m'" using assms(2) by (cases m) simp_all
  have f: "find_empty_blk_in_set ?r = Some 0"
    by (simp add: find_empty_blk_in_set_def rt_rbb_init_def m upt_conv_Cons del: upt_Suc)
  have s: "rbb_buf ?r = buf" "rbb_buf_size ?r = sz" by (simp_all add: rt_rbb_init_def)
  from alloc_first_unchecked [OF rbb_init_wf [OF assms(1)] f assms(4)] obtain rbb' where
    "rt_rbb_blk_alloc n ?r = Some (Some 0, rbb')"
    "rbb_blk rbb' 0 = \<lparr>bk_status = RT_RBB_BLK_INITED, bk_size = n, bk_buf = rbb_buf ?r\<rparr>" by blast
  then show ?thesis using s assms(3) by (intro exI [of _ 0] exI [of _ rbb']) simp
qed

text \<open>A queue that has been got is out of the list, so the next allocation may be given its memory while the
  consumer still reads it.\<close>

lemma queue_get_reuses:
  assumes "rbb_wf rbb [i]" "is_put rbb i" "bk_buf (rbb_blk rbb i) = rbb_buf rbb"
    and "find_empty_blk_in_set rbb = Some n" "n \<noteq> i" "sz < 2 ^ 24"
  shows "\<exists>bq' rbb1 rbb2. rt_rbb_blk_queue_get q bq rbb = Some (bk_size (rbb_blk rbb i), bq', rbb1) \<and>
    rbb_blk rbb1 i = (rbb_blk rbb i)\<lparr>bk_status := RT_RBB_BLK_GET\<rparr> \<and>
    rt_rbb_blk_alloc sz rbb1 = Some (Some n, rbb2) \<and> rbb_blk rbb2 i = rbb_blk rbb1 i \<and>
    bk_buf (rbb_blk rbb2 n) = bk_buf (rbb_blk rbb1 i)"
proof -
  have "inside (rbb_buf rbb) (rbb_buf rbb + rbb_buf_size rbb) (blk_at rbb i)" by (rule rbb_ends(1) [OF assms(1)]) simp
  then have sz: "size_sum (rbb_blk rbb) 0 [i] = bk_size (rbb_blk rbb i)"
    using assms(1) by (auto simp: size_sum_def rbb_wf_def inside_def blk_at_def)
  have "rbb_wf rbb ([] @ i # [])" "\<forall>k\<in>set []. \<not> is_put rbb k"
    "[i] = i # queue_taken q (rbb_blk rbb) i (add32 0 (bk_size (rbb_blk rbb i))) []" using assms(1) by simp_all
  from rbb_queue_get [OF this(1,2) assms(2) this(3), of bq] obtain rbb1 where r:
    "rt_rbb_blk_queue_get q bq rbb = Some (size_sum (rbb_blk rbb) 0 [i], \<lparr>bq_blocks = i, bq_num = length [i] mod 2 ^ 32\<rparr>, rbb1)"
    "rbb_took rbb ([] @ i # []) [i] rbb1" by blast
  have b: "rbb_blk rbb1 = (\<lambda>k. if k = i then (rbb_blk rbb k)\<lparr>bk_status := RT_RBB_BLK_GET\<rparr> else rbb_blk rbb k)"
    and m: "rbb_blk_max_num rbb1 = rbb_blk_max_num rbb" and w: "rbb_wf rbb1 []" and u: "rbb_buf rbb1 = rbb_buf rbb"
    using r(2) by (simp_all add: rbb_took_def)
  have st: "(bk_status (rbb_blk rbb1 k) = RT_RBB_BLK_UNUSED) = (bk_status (rbb_blk rbb k) = RT_RBB_BLK_UNUSED)" for k
    using b assms(2) by (simp add: is_put_def)
  have "find_empty_blk_in_set rbb1 = Some n" using assms(4) unfolding find_empty_blk_in_set_def m st .
  from alloc_first_unchecked [OF w this assms(6)] obtain rbb2 where
    "rt_rbb_blk_alloc sz rbb1 = Some (Some n, rbb2)"
    "rbb_blk rbb2 n = \<lparr>bk_status = RT_RBB_BLK_INITED, bk_size = sz, bk_buf = rbb_buf rbb1\<rparr>"
    "\<forall>k. k \<noteq> n \<longrightarrow> rbb_blk rbb2 k = rbb_blk rbb1 k" by blast
  then show ?thesis using r(1) sz b u assms(3,5) by simp
qed

section \<open>Clients that take one block at a time\<close>

text \<open>The states that a client of \<open>alloc\<close>, \<open>put\<close>, \<open>get\<close> and \<open>free\<close> can reach. It asks for positive sizes that
  the buffer can hold.\<close>

inductive rbb_reach :: "rt_rbb \<Rightarrow> rt_rbb \<Rightarrow> bool" for r0 where
  reach_init: "rbb_reach r0 r0"
| reach_alloc: "rbb_reach r0 r \<Longrightarrow> 0 < n \<Longrightarrow> n \<le> rbb_buf_size r \<Longrightarrow> rt_rbb_blk_alloc n r = Some (x, r') \<Longrightarrow> rbb_reach r0 r'"
| reach_put: "rbb_reach r0 r \<Longrightarrow> i < rbb_blk_max_num r \<Longrightarrow> rt_rbb_blk_put i r = Some r' \<Longrightarrow> rbb_reach r0 r'"
| reach_get: "rbb_reach r0 r \<Longrightarrow> rt_rbb_blk_get r = Some (x, r') \<Longrightarrow> rbb_reach r0 r'"
| reach_free: "rbb_reach r0 r \<Longrightarrow> i < rbb_blk_max_num r \<Longrightarrow> rt_rbb_blk_free i r = Some r' \<Longrightarrow> rbb_reach r0 r'"

definition blk_used :: "rt_rbb \<Rightarrow> nat \<Rightarrow> bool" where
  "blk_used r i \<longleftrightarrow> i < rbb_blk_max_num r \<and> bk_status (rbb_blk r i) \<noteq> RT_RBB_BLK_UNUSED"

text \<open>Exactly the blocks in use are linked.\<close>

definition rbb_ok :: "nat \<Rightarrow> nat \<Rightarrow> nat \<Rightarrow> rt_rbb \<Rightarrow> nat list \<Rightarrow> bool" where
  "rbb_ok buf sz m r ks \<longleftrightarrow> rbb_wf r ks \<and> (\<forall>i. blk_used r i \<longleftrightarrow> i \<in> set ks) \<and>
     rbb_buf r = buf \<and> rbb_buf_size r = sz \<and> rbb_blk_max_num r = m"

lemma rbb_ok_init: "buf + sz < 2 ^ 32 \<Longrightarrow> rbb_ok buf sz m (rt_rbb_init buf sz bs ns m) []"
  by (simp add: rbb_ok_def rbb_init_wf blk_used_def) (simp add: rt_rbb_init_def)

lemma rbb_ok_alloc:
  assumes "rbb_ok buf sz m r ks" "0 < n" "n \<le> sz" "rt_rbb_blk_alloc n r = Some (x, r')"
  shows "\<exists>ks'. rbb_ok buf sz m r' ks'"
proof -
  have w: "rbb_wf r ks" "n \<le> rbb_buf_size r" using assms(1,3) by (simp_all add: rbb_ok_def)
  have lt: "n < 2 ^ 24" using assms(4) by (simp add: rt_rbb_blk_alloc_def RT_ASSERT_def split: if_splits)
  show ?thesis
  proof (rule rbb_alloc [OF w(1) assms(2) lt w(2)])
    assume "rt_rbb_blk_alloc n r = Some (None, r)"
    then show ?thesis using assms(1,4) by auto
  next
    fix k r1 assume a: "rt_rbb_blk_alloc n r = Some (Some k, r1)" "rbb_added r ks k n r1"
    then have e: "r1 = r'" using assms(4) by simp
    have wf: "rbb_wf r' (ks @ [k])" and st: "\<And>i. i \<noteq> k \<Longrightarrow> rbb_blk r' i = rbb_blk r i"
      and mx: "rbb_blk_max_num r' = rbb_blk_max_num r" using a(2) e by (auto simp: rbb_added_def)
    have "blk_used r' i \<longleftrightarrow> i \<in> set (ks @ [k])" for i
    proof (cases "i = k")
      case True
      then show ?thesis using wf by (simp add: rbb_wf_def blk_used_def)
    next
      case False
      then have "blk_used r' i = blk_used r i" using st mx by (simp add: blk_used_def)
      then show ?thesis using False assms(1) by (simp add: rbb_ok_def)
    qed
    then show ?thesis using wf a(2) e assms(1) by (intro exI [of _ "ks @ [k]"]) (simp add: rbb_ok_def rbb_added_def)
  qed
qed

lemma rbb_ok_status:
  assumes "rbb_ok buf sz m r ks" "bk_status (rbb_blk r i) \<noteq> RT_RBB_BLK_UNUSED" "st \<noteq> RT_RBB_BLK_UNUSED"
  shows "rbb_ok buf sz m (upd_blk i (\<lambda>b. b\<lparr>bk_status := st\<rparr>) r) ks"
  using assms rbb_status_wf [of r ks st i] by (auto simp: rbb_ok_def blk_used_def)

lemma rbb_ok_free:
  assumes "rbb_ok buf sz m r ks" "rt_rbb_blk_free i r = Some r'"
  shows "\<exists>ks'. rbb_ok buf sz m r' ks'"
proof -
  have w: "rbb_wf r ks" "bk_status (rbb_blk r i) \<noteq> RT_RBB_BLK_UNUSED"
    using assms by (auto simp: rbb_ok_def rt_rbb_blk_free_def RT_ASSERT_def split: if_splits)
  obtain r1 where f: "rt_rbb_blk_free i r = Some r1" "rbb_wf r1 (removeAll i ks)"
    "bk_status (rbb_blk r1 i) = RT_RBB_BLK_UNUSED" "\<And>j. j \<noteq> i \<Longrightarrow> rbb_blk r1 j = rbb_blk r j"
    "rbb_buf r1 = rbb_buf r" "rbb_buf_size r1 = rbb_buf_size r" "rbb_blk_max_num r1 = rbb_blk_max_num r"
    by (rule rbb_free [OF w]) blast
  have "blk_used r1 j \<longleftrightarrow> j \<in> set (removeAll i ks)" for j
  proof (cases "j = i")
    case False
    then have "blk_used r1 j = blk_used r j" using f(4,7) by (simp add: blk_used_def)
    then show ?thesis using False assms(1) by (simp add: rbb_ok_def)
  qed (use f(3) in \<open>simp add: blk_used_def\<close>)
  then have "rbb_ok buf sz m r1 (removeAll i ks)" using f(2,5-7) assms(1) unfolding rbb_ok_def by blast
  then show ?thesis using f(1) assms(2) by auto
qed

lemma rbb_ok_get:
  assumes "rbb_ok buf sz m r ks" "rt_rbb_blk_get r = Some (x, r')"
  shows "rbb_ok buf sz m r' ks"
proof -
  have g: "rt_rbb_blk_get r = Some (case List.find (is_put r) ks of None \<Rightarrow> (None, r)
      | Some i \<Rightarrow> (Some i, upd_blk i (\<lambda>b. b\<lparr>bk_status := RT_RBB_BLK_GET\<rparr>) r))"
    by (rule rbb_get) (use assms(1) in \<open>simp add: rbb_ok_def\<close>)
  show ?thesis
  proof (cases "List.find (is_put r) ks")
    case (Some i)
    then have "bk_status (rbb_blk r i) \<noteq> RT_RBB_BLK_UNUSED" by (auto simp: find_Some_iff is_put_def)
    from rbb_ok_status [OF assms(1) this] show ?thesis using g Some assms(2) by auto
  qed (use g assms in auto)
qed

lemma rbb_reach_ok:
  assumes "rbb_reach (rt_rbb_init buf sz bs ns m) r" "buf + sz < 2 ^ 32"
  shows "\<exists>ks. rbb_ok buf sz m r ks"
  using assms(1)
proof induction
  case reach_init
  show ?case using rbb_ok_init [OF assms(2)] by blast
next
  case (reach_alloc r n x r')
  then obtain ks where "rbb_ok buf sz m r ks" by blast
  moreover from this have "n \<le> sz" using reach_alloc(3) by (simp add: rbb_ok_def)
  ultimately show ?case using rbb_ok_alloc reach_alloc(2,4) by blast
next
  case (reach_put r i r')
  then obtain ks where ok: "rbb_ok buf sz m r ks" by blast
  have "r' = upd_blk i (\<lambda>b. b\<lparr>bk_status := RT_RBB_BLK_PUT\<rparr>) r" "bk_status (rbb_blk r i) = RT_RBB_BLK_INITED"
    using reach_put(3) by (simp_all add: rt_rbb_blk_put_def RT_ASSERT_def split: if_splits)
  then show ?case using rbb_ok_status [OF ok, of i RT_RBB_BLK_PUT] by auto
next
  case (reach_get r x r')
  then show ?case using rbb_ok_get by blast
next
  case (reach_free r i r')
  then show ?case using rbb_ok_free by blast
qed

lemma rbb_ok_apart:
  assumes "rbb_ok buf sz m r ks" "blk_used r i" "blk_used r j" "i \<noteq> j"
  shows "apart (blk_at r i) (blk_at r j)"
proof -
  have k: "i \<in> set ks" "j \<in> set ks" using assms by (simp_all add: rbb_ok_def)
  then obtain a b where ab: "a < length ks" "ks ! a = i" "b < length ks" "ks ! b = j" by (metis in_set_conv_nth)
  have "ring_layout (rbb_buf r) (rbb_buf r + rbb_buf_size r) (map (blk_at r) ks)"
    using assms(1) by (auto simp: rbb_ok_def rbb_wf_def)
  from ring_layout_disjoint [OF this, of a b] show ?thesis using ab assms(4) by auto
qed

end
