(* ===== verification/Ringblk_Props.thy ===== *)
theory Ringblk_Props
  imports Ringblk
begin

text \<open>The property of the ring block buffer, with an instance.\<close>

text \<open>C30: Blocks never overlap: whatever a client does with allocations of positive sizes that the buffer can
  hold, with puts, gets and releases, two different blocks in use share no byte, every block in use lies inside
  the buffer, and the next allocation and the next get return: an allocation with null and nothing changed or
  with a block of the size asked for that was not in use, a get with null or with a block that had been put.\<close>

theorem ringblk_no_overlap:
  assumes "rbb_reach (rt_rbb_init buf sz bs ns m) r" "buf + sz < 2 ^ 32"
  shows "(\<forall>i j. blk_used r i \<and> blk_used r j \<and> i \<noteq> j \<longrightarrow> apart (blk_at r i) (blk_at r j)) \<and>
    (\<forall>i. blk_used r i \<longrightarrow> buf \<le> bk_buf (rbb_blk r i) \<and> bk_buf (rbb_blk r i) + bk_size (rbb_blk r i) \<le> buf + sz) \<and>
    (\<forall>n. 0 < n \<and> n < 2 ^ 24 \<and> n \<le> sz \<longrightarrow> rt_rbb_blk_alloc n r = Some (None, r) \<or>
      (\<exists>k r'. rt_rbb_blk_alloc n r = Some (Some k, r') \<and> \<not> blk_used r k \<and> blk_used r' k \<and>
        bk_size (rbb_blk r' k) = n)) \<and>
    (\<exists>x r'. rt_rbb_blk_get r = Some (x, r') \<and>
      (\<forall>k. x = Some k \<longrightarrow> blk_used r k \<and> is_put r k \<and> bk_status (rbb_blk r' k) = RT_RBB_BLK_GET))"
proof -
  obtain ks where ok: "rbb_ok buf sz m r ks" using rbb_reach_ok [OF assms] by blast
  then have w: "rbb_wf r ks" and u: "\<And>i. blk_used r i \<longleftrightarrow> i \<in> set ks" and f: "rbb_buf r = buf" "rbb_buf_size r = sz"
    by (simp_all add: rbb_ok_def)
  have "buf \<le> bk_buf (rbb_blk r i) \<and> bk_buf (rbb_blk r i) + bk_size (rbb_blk r i) \<le> buf + sz" if "blk_used r i" for i
    using rbb_ends(1) [OF w] that u f by (auto simp: inside_def blk_at_def)
  moreover have "rt_rbb_blk_alloc n r = Some (None, r) \<or>
      (\<exists>k r'. rt_rbb_blk_alloc n r = Some (Some k, r') \<and> \<not> blk_used r k \<and> blk_used r' k \<and> bk_size (rbb_blk r' k) = n)"
    if n: "0 < n \<and> n < 2 ^ 24 \<and> n \<le> sz" for n
  proof (rule rbb_alloc [OF w, of n])
    fix k r' assume a: "rt_rbb_blk_alloc n r = Some (Some k, r')" "rbb_added r ks k n r'"
    then have "blk_used r' k" by (simp add: rbb_added_def rbb_wf_def blk_used_def)
    then show ?thesis using a u by (auto simp: rbb_added_def)
  qed (use n f in simp_all)
  moreover have "\<exists>x r'. rt_rbb_blk_get r = Some (x, r') \<and>
      (\<forall>k. x = Some k \<longrightarrow> blk_used r k \<and> is_put r k \<and> bk_status (rbb_blk r' k) = RT_RBB_BLK_GET)"
  proof (cases "List.find (is_put r) ks")
    case (Some i)
    then have "is_put r i" "i \<in> set ks" by (auto simp: find_Some_iff)
    then show ?thesis using rbb_get [OF w] Some u by simp
  qed (use rbb_get [OF w] in simp)
  ultimately show ?thesis using rbb_ok_apart [OF ok] by blast
qed

definition demo_rbb :: rt_rbb where
  "demo_rbb = rt_rbb_init 1000 100 (\<lambda>_. \<lparr>bk_status = RT_RBB_BLK_GET, bk_size = 7, bk_buf = 0\<rparr>) (\<lambda>_. None) 3"

text \<open>Two blocks are allocated and lie side by side.\<close>

definition demo_rbb1 :: rt_rbb where
  "demo_rbb1 = snd (the (rt_rbb_blk_alloc 40 demo_rbb))"

definition demo_rbb2 :: rt_rbb where
  "demo_rbb2 = snd (the (rt_rbb_blk_alloc 30 demo_rbb1))"

lemma slist_steps:
  "h n = None \<Longrightarrow> slist_end h n = Some n" "h n = Some m \<Longrightarrow> slist_end h n = slist_end h m"
  "slist_len_from h None k = Some k" "slist_len_from h (Some n) k = slist_len_from h (h n) (k + 1)"
  by (subst slist_end.simps slist_len_from.simps, simp)+

lemmas rbb_eval = rt_rbb_blk_alloc_def rbb_place_def find_empty_blk_in_set_def rt_rbb_init_def rt_slist_init_def
  rt_slist_append_def rt_slist_len_def rt_slist_first_def rt_slist_tail_def slist_steps blk_entry_def blk_end_def Let_def
  upt_conv_Cons

lemma demo_rbb1: "rt_rbb_blk_alloc 40 demo_rbb = Some (Some 0, demo_rbb1)"
  by (simp add: demo_rbb1_def demo_rbb_def rbb_eval)

lemma demo_rbb2: "rt_rbb_blk_alloc 30 demo_rbb1 = Some (Some 1, demo_rbb2)"
  by (simp add: demo_rbb2_def demo_rbb1_def demo_rbb_def rbb_eval)

lemma demo_rbb_values:
  "rbb_buf_size demo_rbb = 100" "rbb_buf_size demo_rbb1 = 100" "rbb_blk_max_num demo_rbb2 = 3"
  "map (blk_at demo_rbb2) [0, 1] = [(1000, 40), (1040, 30)]" "blk_used demo_rbb2 0" "blk_used demo_rbb2 1"
  by (simp_all add: demo_rbb2_def demo_rbb1_def demo_rbb_def rbb_eval blk_at_def blk_used_def)

lemma demo_rbb_reach: "rbb_reach demo_rbb demo_rbb2"
proof -
  have "rbb_reach demo_rbb demo_rbb1" by (rule reach_alloc [OF reach_init _ _ demo_rbb1]) (simp_all add: demo_rbb_values)
  then show ?thesis by (rule reach_alloc [OF _ _ _ demo_rbb2]) (simp_all add: demo_rbb_values)
qed

lemma ringblk_no_overlap_witness:
  "rbb_reach demo_rbb demo_rbb2 \<and> map (blk_at demo_rbb2) [0, 1] = [(1000, 40), (1040, 30)] \<and>
   apart (blk_at demo_rbb2 0) (blk_at demo_rbb2 1) \<and> (\<exists>x r. rt_rbb_blk_get demo_rbb2 = Some (x, r))"
proof -
  have "(1000 :: nat) + 100 < 2 ^ 32" by simp
  from ringblk_no_overlap [OF demo_rbb_reach [unfolded demo_rbb_def] this]
  have "apart (blk_at demo_rbb2 0) (blk_at demo_rbb2 1)" "\<exists>x r. rt_rbb_blk_get demo_rbb2 = Some (x, r)"
    using demo_rbb_values(5,6) by auto
  then show ?thesis using demo_rbb_reach demo_rbb_values(4) by simp
qed

end
