(* ===== verification/File_Heap.thy ===== *)
theory File_Heap
  imports Memheap_Realloc
begin

text \<open>
  The memory of a file system in memory: an allocator that can also resize blocks, and the bytes in them.
  The locale \<open>file_heap\<close> states what the file system relies on; it is interpreted on the memory heap
  objects of \<^verbatim>\<open>rt-thread/src/memheap.c\<close>, in the case that nobody else holds their lock.
\<close>

section \<open>The interface\<close>

record 'h heap_calls =
  hc_alloc :: "nat \<Rightarrow> 'h \<Rightarrow> (nat option \<times> 'h) option"
  hc_free :: "nat \<Rightarrow> 'h \<Rightarrow> 'h option"
  hc_realloc :: "nat \<Rightarrow> nat \<Rightarrow> 'h \<Rightarrow> (nat option \<times> 'h) option"
  hc_byte :: "'h \<Rightarrow> nat \<Rightarrow> u8"
  hc_store :: "nat \<Rightarrow> u8 list \<Rightarrow> 'h \<Rightarrow> 'h"
  hc_pool_size :: "'h \<Rightarrow> nat"
  hc_available_size :: "'h \<Rightarrow> nat"

definition bytes_at :: "'h heap_calls \<Rightarrow> 'h \<Rightarrow> nat \<Rightarrow> nat \<Rightarrow> u8 list" where
  "bytes_at C h p n = map (hc_byte C h) [p ..< p + n]"

text \<open>\<open>place\<close> is the memory from which the heap serves its blocks, as a start and a size.\<close>

locale file_heap = allocator ok live "hc_alloc C" "hc_free C"
  for ok :: "'h \<Rightarrow> bool" and live :: "'h \<Rightarrow> (nat \<times> nat) set" and C :: "'h heap_calls" +
  fixes place :: "'h \<Rightarrow> nat \<times> nat"
  assumes live_place: "ok h \<Longrightarrow> (p, m) \<in> live h \<Longrightarrow> fst (place h) \<le> p \<and> p + m \<le> fst (place h) + snd (place h)"
    and place_range: "ok h \<Longrightarrow> fst (place h) + snd (place h) < 2 ^ 32"
    and alloc_place: "hc_alloc C n h = Some (r, h') \<Longrightarrow> place h' = place h"
    and free_place: "hc_free C p h = Some h' \<Longrightarrow> place h' = place h"
    and realloc_place: "hc_realloc C p n h = Some (r, h') \<Longrightarrow> place h' = place h"
    and store_place: "place (hc_store C p bs h) = place h"
    and live_null: "ok h \<Longrightarrow> (p, m) \<in> live h \<Longrightarrow> p \<noteq> 0"
    and alloc_bytes: "hc_alloc C n h = Some (r, h') \<Longrightarrow> hc_byte C h' = hc_byte C h"
    and free_bytes: "hc_free C p h = Some h' \<Longrightarrow> hc_byte C h' = hc_byte C h"
    and realloc_null: "ok h \<Longrightarrow> 0 < n \<Longrightarrow> n < 2 ^ 30 \<Longrightarrow>
      (\<exists>h'. hc_realloc C 0 n h = Some (None, h') \<and> ok h' \<and> live h' = live h \<and> hc_byte C h' = hc_byte C h) \<or>
      (\<exists>q k h'. hc_realloc C 0 n h = Some (Some q, h') \<and> ok h' \<and> n \<le> k \<and> (q, k) \<notin> live h \<and>
        live h' = insert (q, k) (live h) \<and> hc_byte C h' = hc_byte C h)"
    and realloc_ok: "ok h \<Longrightarrow> (p, m) \<in> live h \<Longrightarrow> 0 < n \<Longrightarrow> n < 2 ^ 30 \<Longrightarrow>
      (\<exists>h'. hc_realloc C p n h = Some (None, h') \<and> ok h' \<and> live h' = live h \<and> hc_byte C h' = hc_byte C h) \<or>
      (\<exists>q k h'. hc_realloc C p n h = Some (Some q, h') \<and> ok h' \<and> n \<le> k \<and> (q, k) \<notin> live h - {(p, m)} \<and>
        live h' = insert (q, k) (live h - {(p, m)}) \<and>
        (\<forall>i. i < m \<and> i < n \<longrightarrow> hc_byte C h' (q + i) = hc_byte C h (p + i)) \<and>
        (\<forall>x. \<not> (q \<le> x \<and> x < q + k) \<longrightarrow> hc_byte C h' x = hc_byte C h x))"
    and store_ok: "ok (hc_store C p bs h) = ok h" and store_live: "live (hc_store C p bs h) = live h"
    and store_byte: "hc_byte C (hc_store C p bs h) x = (if p \<le> x \<and> x < p + length bs then bs ! (x - p) else hc_byte C h x)"
begin

lemma bytes_at_length [simp]: "length (bytes_at C h p n) = n"
  by (simp add: bytes_at_def)

lemma bytes_at_nth: "i < n \<Longrightarrow> bytes_at C h p n ! i = hc_byte C h (p + i)"
  by (simp add: bytes_at_def)

lemma bytes_at_cong: "(\<And>i. i < n \<Longrightarrow> hc_byte C h' (q + i) = hc_byte C h (p + i)) \<Longrightarrow> bytes_at C h' q n = bytes_at C h p n"
  by (rule nth_equalityI) (simp_all add: bytes_at_nth)

lemma store_same: "bytes_at C (hc_store C p bs h) p (length bs) = bs"
  by (rule nth_equalityI) (simp_all add: bytes_at_nth store_byte)

lemma store_other:
  "q + n \<le> p \<or> p + length bs \<le> q \<Longrightarrow> bytes_at C (hc_store C p bs h) q n = bytes_at C h q n"
  by (rule nth_equalityI) (auto simp: bytes_at_nth store_byte)

text \<open>Writing into the middle of a range of bytes.\<close>

lemma store_inside:
  assumes "i + length bs \<le> n"
  shows "bytes_at C (hc_store C (p + i) bs h) p n =
    take i (bytes_at C h p n) @ bs @ drop (i + length bs) (bytes_at C h p n)"
  using assms by (intro nth_equalityI) (auto simp: bytes_at_nth store_byte nth_append)

lemma bytes_at_take: "m \<le> n \<Longrightarrow> take m (bytes_at C h p n) = bytes_at C h p m"
  by (simp add: bytes_at_def take_map take_upt)

lemma bytes_at_part: "i + m \<le> n \<Longrightarrow> take m (drop i (bytes_at C h p n)) = bytes_at C h (p + i) m"
  by (intro nth_equalityI) (simp_all add: bytes_at_nth add.assoc)

end

section \<open>Memory heap objects\<close>

text \<open>\<open>rt_memheap_realloc\<close> without the lock.\<close>

definition memheap_realloc :: "nat \<Rightarrow> u32 \<Rightarrow> rt_memheap \<Rightarrow> (nat option \<times> rt_memheap) option" where
  "memheap_realloc ptr sz h =
     (if sz = 0 then map_option (Pair None) (memheap_free ptr h)
      else if ptr = 0 then memheap_alloc (of_nat (memheap_round sz)) h
      else do {
        let n = memheap_round sz;
        let oldsize = MEMITEM_SIZE h (sub32 ptr RT_MEMHEAP_SIZE);
        if n \<le> oldsize \<and> add32 (add32 n RT_MEMHEAP_SIZE) RT_MEMHEAP_MINIALLOC \<ge> oldsize then Some (Some ptr, h)
        else do {
          (move, h1) \<leftarrow> realloc_under_lock ptr n h;
          if move then do {
            (p, h2) \<leftarrow> memheap_alloc (of_nat n) h1;
            (case p of
               None \<Rightarrow> Some (None, h2)
             | Some a \<Rightarrow> do { h3 \<leftarrow> memheap_free ptr (memheap_copy a ptr (min oldsize n) h2); Some (Some a, h3) }) }
          else Some (Some ptr, h1) } })"

definition memheap_calls :: "rt_memheap heap_calls" where
  "memheap_calls = \<lparr>hc_alloc = \<lambda>n. memheap_alloc (of_nat n), hc_free = memheap_free,
     hc_realloc = \<lambda>p n. memheap_realloc p (of_nat n), hc_byte = mh_bytes,
     hc_store = \<lambda>p bs h. h\<lparr>mh_bytes := (\<lambda>x. if p \<le> x \<and> x < p + length bs then bs ! (x - p) else mh_bytes h x)\<rparr>,
     hc_pool_size = mh_pool_size, hc_available_size = mh_available_size\<rparr>"

lemma bytes_frame: "mh_inv (h\<lparr>mh_bytes := b\<rparr>) bs fs = mh_inv h bs fs" "mh_live (h\<lparr>mh_bytes := b\<rparr>) bs = mh_live h bs"
  by (simp_all add: mh_inv_def mh_live_def chain_ok_def chain_def ring_def bsize_def RT_MEMHEAP_IS_USED_def)

lemma bytes_ok: "mh_ok (h\<lparr>mh_bytes := b\<rparr>) = mh_ok h" "mh_in_use (h\<lparr>mh_bytes := b\<rparr>) = mh_in_use h"
proof -
  have "chain (h\<lparr>mh_bytes := b\<rparr>) = chain h" "mh_start_addr (h\<lparr>mh_bytes := b\<rparr>) = mh_start_addr h" by (simp_all add: chain_def)
  then have "mh_blocks (h\<lparr>mh_bytes := b\<rparr>) = mh_blocks h" by (simp only: mh_blocks_def)
  then show "mh_ok (h\<lparr>mh_bytes := b\<rparr>) = mh_ok h" "mh_in_use (h\<lparr>mh_bytes := b\<rparr>) = mh_in_use h"
    by (simp_all only: mh_ok_def mh_in_use_def bytes_frame)
qed

lemma memheap_alloc_bytes: "memheap_alloc n h = Some (r, h') \<Longrightarrow> mh_bytes h' = mh_bytes h"
  by (auto simp: memheap_alloc_def memheap_first_def Some_bind_iff take_frame split: if_splits)

lemma memheap_free_bytes: "memheap_free p h = Some h' \<Longrightarrow> mh_bytes h' = mh_bytes h"
proof -
  have "mh_bytes (memheap_give a h) = mh_bytes h" for a by (simp add: memheap_give_def chain_join_def Let_def avail_add_def)
  then show "memheap_free p h = Some h' \<Longrightarrow> mh_bytes h' = mh_bytes h"
    by (auto simp: memheap_free_def Some_bind_iff split: if_splits)
qed

lemma memheap_round_range:
  assumes "0 < n" "n < 2 ^ 30"
  shows "n \<le> memheap_round (of_nat n)" "memheap_round (of_nat n) < 2 ^ 31" "(of_nat n :: u32) < 2 ^ 31" "of_nat n \<noteq> (0 :: u32)"
proof -
  have u: "unat (of_nat n :: u32) = n" using assms(2) by (simp add: unat_of_nat)
  show w: "(of_nat n :: u32) < 2 ^ 31" using u assms(2) by (simp add: word_less_nat_alt)
  show "of_nat n \<noteq> (0 :: u32)" using u assms(1) by auto
  show "n \<le> memheap_round (of_nat n)" using memheap_round_props(3) [OF w] u by simp
  have "unat (of_nat n :: u32) < 2 ^ 32 - 7" using u assms(2) by simp
  then have "align_up (of_nat n) < n + 8" using align_up_ge [of "of_nat n"] u by linarith
  then show "memheap_round (of_nat n) < 2 ^ 31" using assms(2) by (simp add: memheap_round_def)
qed

lemma live_item_size:
  assumes "mh_ok h" "(p, m) \<in> mh_in_use h"
  shows "MEMITEM_SIZE h (sub32 p 24) = m" "p \<noteq> 0"
proof -
  obtain fs where i: "mh_inv h (mh_blocks h) fs" using assms(1) by (auto simp: mh_ok_def)
  have l: "(p, m) \<in> mh_live h (mh_blocks h)" using assms(2) by (simp add: mh_in_use_def)
  obtain a xs c ys where b: "mh_blocks h = xs @ a # c # ys" and p: "p = a + 24" "m = c - a - 24"
    by (rule live_mem [OF i l])
  show "MEMITEM_SIZE h (sub32 p 24) = m"
    using chain_next(4) [of h xs a c ys] mh_invD(1) [OF i] b p memheap_check_live(3) [OF i l] by simp
  show "p \<noteq> 0" using p by simp
qed

text \<open>The move of a block: a new one, the bytes, and the release of the old one.\<close>

lemma memheap_move_ok:
  assumes "mh_ok h" "(p, m) \<in> mh_in_use h" "m < N" "N < 2 ^ 31"
  defines "r \<equiv> do {
      (q, h2) \<leftarrow> memheap_alloc (of_nat N) h;
      (case q of None \<Rightarrow> Some (None, h2)
       | Some a \<Rightarrow> do { h3 \<leftarrow> memheap_free p (memheap_copy a p (min m N) h2); Some (Some a, h3) }) }"
  shows "(\<exists>h'. r = Some (None, h') \<and> mh_ok h' \<and> mh_in_use h' = mh_in_use h \<and> mh_bytes h' = mh_bytes h) \<or>
    (\<exists>q k h'. r = Some (Some q, h') \<and> mh_ok h' \<and> N \<le> k \<and> (q, k) \<notin> mh_in_use h \<and>
       mh_in_use h' = insert (q, k) (mh_in_use h - {(p, m)}) \<and>
       (\<forall>i < m. mh_bytes h' (q + i) = mh_bytes h (p + i)) \<and>
       (\<forall>x. \<not> (q \<le> x \<and> x < q + k) \<longrightarrow> mh_bytes h' x = mh_bytes h x))"
  using mh.alloc_ok [OF assms(1,4)]
proof (elim disjE exE conjE)
  fix h2 assume a: "memheap_alloc (of_nat N) h = Some (None, h2)" "mh_ok h2" "mh_in_use h2 = mh_in_use h"
  then show ?thesis using memheap_alloc_bytes [OF a(1)] by (simp add: r_def)
next
  fix q k h2 assume a: "memheap_alloc (of_nat N) h = Some (Some q, h2)" "mh_ok h2" "N \<le> k" "(q, k) \<notin> mh_in_use h"
    "mh_in_use h2 = insert (q, k) (mh_in_use h)"
  let ?c = "memheap_copy q p (min m N) h2"
  have c: "mh_ok ?c" "(p, m) \<in> mh_in_use ?c" using a(2,5) assms(2) by (simp_all add: memheap_copy_def bytes_ok)
  from mh.release_ok [OF c] obtain h3 where f: "memheap_free p ?c = Some h3" "mh_ok h3" "mh_in_use h3 = mh_in_use ?c - {(p, m)}"
    by blast
  have by3: "mh_bytes h3 x = (if q \<le> x \<and> x < q + m then mh_bytes h (p + (x - q)) else mh_bytes h x)" for x
    using memheap_free_bytes [OF f(1)] memheap_alloc_bytes [OF a(1)] assms(3) by (simp add: memheap_copy_def)
  have "mh_in_use ?c = insert (q, k) (mh_in_use h)" using a(5) by (simp add: memheap_copy_def bytes_ok)
  then have "mh_in_use h3 = insert (q, k) (mh_in_use h - {(p, m)})" using f(3) a(4) assms(2) by auto
  then have "r = Some (Some q, h3) \<and> mh_ok h3 \<and> N \<le> k \<and> (q, k) \<notin> mh_in_use h \<and>
       mh_in_use h3 = insert (q, k) (mh_in_use h - {(p, m)}) \<and>
       (\<forall>i < m. mh_bytes h3 (q + i) = mh_bytes h (p + i)) \<and>
       (\<forall>x. \<not> (q \<le> x \<and> x < q + k) \<longrightarrow> mh_bytes h3 x = mh_bytes h x)"
    using a(1,3,4) f(1,2) by3 assms(3) by (simp add: r_def)
  then show ?thesis by blast
qed

definition mh_place :: "rt_memheap \<Rightarrow> nat \<times> nat" where
  "mh_place h = (mh_start_addr h, mh_pool_size h)"

lemma mh_place_range: "mh_ok h \<Longrightarrow> fst (mh_place h) + snd (mh_place h) < 2 ^ 32"
  by (auto simp: mh_ok_def mh_place_def dest!: mh_invD(1) chain_okD(9))

lemma memheap_place:
  "memheap_alloc w h = Some (r, h') \<Longrightarrow> mh_place h' = mh_place h" "memheap_free p h = Some h' \<Longrightarrow> mh_place h' = mh_place h"
  using first_frame [of "memheap_round w" h r h']
  by (auto simp: mh_place_def memheap_alloc_def memheap_free_def give_frame Some_bind_iff split: if_splits)

lemma memheap_realloc_place:
  assumes "memheap_realloc p w h = Some (r, h')"
  shows "mh_place h' = mh_place h"
proof -
  define N old where "N = memheap_round w" and "old = MEMITEM_SIZE h (sub32 p 24)"
  have c: "mh_place (memheap_copy a b n h) = mh_place h" for a b n h by (simp add: mh_place_def memheap_copy_def)
  consider "w = 0" | "w \<noteq> 0" "p = 0" | "w \<noteq> 0" "p \<noteq> 0" "N \<le> old \<and> old \<le> add32 (add32 N 24) 12"
    | "w \<noteq> 0" "p \<noteq> 0" "\<not> (N \<le> old \<and> old \<le> add32 (add32 N 24) 12)" by blast
  then show ?thesis
  proof cases
    case 4
    then obtain move h1 where l: "realloc_under_lock p N h = Some (move, h1)" and
      r: "(if move then do {
          (q, h2) \<leftarrow> memheap_alloc (of_nat N) h1;
          (case q of None \<Rightarrow> Some (None, h2)
           | Some a \<Rightarrow> do { h3 \<leftarrow> memheap_free p (memheap_copy a p (min old N) h2); Some (Some a, h3) }) }
        else Some (Some p, h1)) = Some (r, h')"
      using assms unfolding memheap_realloc_def Let_def N_def [symmetric] old_def [symmetric] by (auto simp: Some_bind_iff)
    have p1: "mh_place h1 = mh_place h" using realloc_frame [OF l] by (simp add: mh_place_def)
    show ?thesis
    proof (cases move)
      case True
      with r obtain q h2 where a: "memheap_alloc (of_nat N) h1 = Some (q, h2)" and
        f: "(case q of None \<Rightarrow> Some (None, h2)
           | Some a \<Rightarrow> do { h3 \<leftarrow> memheap_free p (memheap_copy a p (min old N) h2); Some (Some a, h3) }) = Some (r, h')"
        by (auto simp: Some_bind_iff)
      have p2: "mh_place h2 = mh_place h1" by (rule memheap_place(1) [OF a])
      show ?thesis using f p1 p2 c memheap_place(2) by (cases q) (auto simp: Some_bind_iff)
    qed (use r p1 in simp)
  qed (use assms memheap_place in \<open>auto simp: memheap_realloc_def Let_def N_def old_def\<close>)
qed

lemma memheap_realloc_ok:
  assumes "mh_ok h" "(p, m) \<in> mh_in_use h" "0 < n" "n < 2 ^ 30"
  shows "(\<exists>h'. memheap_realloc p (of_nat n) h = Some (None, h') \<and> mh_ok h' \<and> mh_in_use h' = mh_in_use h \<and> mh_bytes h' = mh_bytes h) \<or>
    (\<exists>q k h'. memheap_realloc p (of_nat n) h = Some (Some q, h') \<and> mh_ok h' \<and> n \<le> k \<and> (q, k) \<notin> mh_in_use h - {(p, m)} \<and>
       mh_in_use h' = insert (q, k) (mh_in_use h - {(p, m)}) \<and>
       (\<forall>i. i < m \<and> i < n \<longrightarrow> mh_bytes h' (q + i) = mh_bytes h (p + i)) \<and>
       (\<forall>x. \<not> (q \<le> x \<and> x < q + k) \<longrightarrow> mh_bytes h' x = mh_bytes h x))" (is "?null \<or> ?block")
proof -
  define N where "N = memheap_round (of_nat n)"
  note rr = memheap_round_range [OF assms(3,4)] and sz = live_item_size [OF assms(1,2)]
  have N: "n \<le> N" "N < 2 ^ 31" using rr by (simp_all add: N_def)
  have un: "memheap_realloc p (of_nat n) h = (if N \<le> m \<and> m \<le> add32 (add32 N 24) 12 then Some (Some p, h)
      else do {
        (move, h1) \<leftarrow> realloc_under_lock p N h;
        if move then do {
          (q, h2) \<leftarrow> memheap_alloc (of_nat N) h1;
          (case q of None \<Rightarrow> Some (None, h2)
           | Some a \<Rightarrow> do { h3 \<leftarrow> memheap_free p (memheap_copy a p (min m N) h2); Some (Some a, h3) }) }
        else Some (Some p, h1) })"
    using rr(4) sz by (simp add: memheap_realloc_def Let_def flip: N_def)
  show ?thesis
  proof (cases "N \<le> m \<and> m \<le> add32 (add32 N 24) 12")
    case True
    moreover have "mh_in_use h = insert (p, m) (mh_in_use h - {(p, m)})" using assms(2) by blast
    ultimately have ?block using un assms(1) N by (intro exI [of _ p] exI [of _ m] exI [of _ h]) simp
    then show ?thesis ..
  next
    case False
    then have out: "m < N \<or> N + 36 < m" using N(2) by auto
    from realloc_in_place [OF assms(1,2) rr(3) out [unfolded N_def]] obtain move h1 where
      l: "realloc_under_lock p N h = Some (move, h1)" and
      c: "if move then h1 = h \<and> m < N
          else mh_ok h1 \<and> mh_in_use h1 = insert (p, N) (mh_in_use h - {(p, m)}) \<and> mh_bytes h1 = mh_bytes h"
      by (auto simp: N_def)
    show ?thesis
    proof (cases move)
      case True
      with c have h1: "h1 = h" "m < N" by simp_all
      from un False l True h1(1) have e: "memheap_realloc p (of_nat n) h = do {
          (q, h2) \<leftarrow> memheap_alloc (of_nat N) h;
          (case q of None \<Rightarrow> Some (None, h2)
           | Some a \<Rightarrow> do { h3 \<leftarrow> memheap_free p (memheap_copy a p (min m N) h2); Some (Some a, h3) }) }" by simp
      from memheap_move_ok [OF assms(1,2) h1(2) N(2), folded e] show ?thesis
      proof (elim disjE exE conjE)
        fix q k h' assume a: "memheap_realloc p (of_nat n) h = Some (Some q, h')" "mh_ok h'" "N \<le> k" "(q, k) \<notin> mh_in_use h"
          "mh_in_use h' = insert (q, k) (mh_in_use h - {(p, m)})" "\<forall>i<m. mh_bytes h' (q + i) = mh_bytes h (p + i)"
          "\<forall>x. \<not> (q \<le> x \<and> x < q + k) \<longrightarrow> mh_bytes h' x = mh_bytes h x"
        then have ?block using N(1) by (intro exI [of _ q] exI [of _ k] exI [of _ h']) simp
        then show ?thesis ..
      qed blast
    next
      case False
      with c have g: "mh_ok h1" "mh_in_use h1 = insert (p, N) (mh_in_use h - {(p, m)})" "mh_bytes h1 = mh_bytes h" by simp_all
      have "(p, N) \<notin> mh_in_use h - {(p, m)}" using mh.live_unique [OF assms(1), of p N m] assms(2) by auto
      moreover have "memheap_realloc p (of_nat n) h = Some (Some p, h1)"
        using un \<open>\<not> (N \<le> m \<and> m \<le> add32 (add32 N 24) 12)\<close> l False by simp
      ultimately have ?block using g N(1) by (intro exI [of _ p] exI [of _ N] exI [of _ h1]) simp
      then show ?thesis ..
    qed
  qed
qed

interpretation mhf: file_heap mh_ok mh_in_use memheap_calls mh_place
proof (unfold_locales, goal_cases)
  case (1 h n)
  then show ?case using mh.alloc_ok [of h n] by (simp add: memheap_calls_def)
next
  case (2 h p m)
  then show ?case using mh.release_ok [of h p m] by (simp add: memheap_calls_def)
next
  case (3 h p m)
  then show ?case by (rule mh.live_pos)
next
  case (4 h p m q k)
  then show ?case by (rule mh.live_disjoint)
next
  case (5 h p m)
  then show ?case using mh_inside [of h p m] by (simp add: mh_place_def)
next
  case (6 h)
  then show ?case by (rule mh_place_range)
next
  case (7 n h r h')
  then show ?case using memheap_place(1) by (simp add: memheap_calls_def)
next
  case (8 p h h')
  then show ?case using memheap_place(2) by (simp add: memheap_calls_def)
next
  case (9 p n h r h')
  then show ?case using memheap_realloc_place by (simp add: memheap_calls_def)
next
  case (11 h p m)
  then show ?case by (rule live_item_size(2))
next
  case (12 n h r h')
  then show ?case using memheap_alloc_bytes by (simp add: memheap_calls_def)
next
  case (13 p h h')
  then show ?case using memheap_free_bytes by (simp add: memheap_calls_def)
next
  case (14 h n)
  note rr = memheap_round_range [OF 14(2,3)]
  have e: "hc_realloc memheap_calls 0 n h = memheap_alloc (of_nat (memheap_round (of_nat n))) h"
    using rr(4) by (simp add: memheap_calls_def memheap_realloc_def)
  from mh.alloc_ok [OF 14(1) rr(2)] show ?case
  proof (elim disjE exE conjE)
    fix h' assume a: "memheap_alloc (of_nat (memheap_round (of_nat n))) h = Some (None, h')" "mh_ok h'" "mh_in_use h' = mh_in_use h"
    then show ?thesis using e memheap_alloc_bytes [OF a(1)] by (simp add: memheap_calls_def)
  next
    fix q k h' assume a: "memheap_alloc (of_nat (memheap_round (of_nat n))) h = Some (Some q, h')" "mh_ok h'"
      "memheap_round (of_nat n) \<le> k" "(q, k) \<notin> mh_in_use h" "mh_in_use h' = insert (q, k) (mh_in_use h)"
    then show ?thesis
      unfolding e using memheap_alloc_bytes [OF a(1)] rr(1)
      by (intro disjI2 exI [of _ q] exI [of _ k] exI [of _ h']) (simp add: memheap_calls_def)
  qed
next
  case (15 h p m n)
  from memheap_realloc_ok [OF 15] show ?case by (simp add: memheap_calls_def)
qed (simp_all add: memheap_calls_def bytes_ok mh_place_def)

end
