(* ===== verification/Ramfs.thy ===== *)
theory Ramfs
  imports Dfs_File File_Heap
begin

text \<open>
  The file system in memory of \<^verbatim>\<open>rt-thread/components/dfs/filesystems/ramfs/dfs_ramfs.c\<close>: a flat directory
  of files whose entries and contents are blocks of a memory heap. It is a driver for the operations of
  \<open>Dfs_File\<close>.

  An entry is named by its address; the list of entries is that of the addresses. The memory heap, in which
  the buffers of the caller lie as well, is behind \<open>heap_calls\<close>. \<open>off_t\<close> is a signed and \<open>size_t\<close> an unsigned
  word of 32 bits. Structures that the caller provides are kept under their address in \<open>rf_user\<close>.
  \<open>None\<close> is a failed assertion or a null pointer dereferenced.
\<close>

section \<open>The data\<close>

abbreviation (input) RAMFS_NAME_MAX :: nat where "RAMFS_NAME_MAX \<equiv> 32"

record ramfs_dirent =
  rd_name :: string
  rd_data :: nat
  rd_size :: nat

datatype user_data = Statfs_data nat nat nat | Stat_data nat | Dirent_data "string list"

record 'h dfs_ramfs =
  rf_addr :: nat
  rf_heap :: 'h
  rf_root :: nat
  rf_list :: "nat list"
  rf_dirent :: "nat \<Rightarrow> ramfs_dirent"
  rf_fs_data :: "nat \<Rightarrow> nat"
  rf_user :: "nat \<Rightarrow> user_data option"
  rf_errno :: int

text \<open>The calls of the heap and the flags of the C library.\<close>

record 'h ram_env =
  re_calls :: "'h heap_calls"
  re_O_DIRECTORY :: u32
  re_O_CREAT :: u32
  re_O_WRONLY :: u32
  re_O_TRUNC :: u32
  re_O_APPEND :: u32

abbreviation upd_dirent :: "nat \<Rightarrow> (ramfs_dirent \<Rightarrow> ramfs_dirent) \<Rightarrow> 'h dfs_ramfs \<Rightarrow> 'h dfs_ramfs" where
  "upd_dirent a f F \<equiv> F\<lparr>rf_dirent := (rf_dirent F)(a := f (rf_dirent F a))\<rparr>"

text \<open>\<open>fs->data\<close>, the pointer to the ramfs: null fails the assertion, another ramfs is not this one.\<close>

definition ramfs_of :: "nat \<Rightarrow> 'h dfs_ramfs \<Rightarrow> unit option" where
  "ramfs_of i F = (if rf_fs_data F i = rf_addr F then Some () else None)"

definition s32 :: "nat \<Rightarrow> int" where
  "s32 n = (if n < 2 ^ 31 then int n else int n - 2 ^ 32)"

definition upos :: "dfs_fd \<Rightarrow> nat" where
  "upos fd = nat (fd_pos fd mod 2 ^ 32)"

definition fd_node :: "dfs_fd \<Rightarrow> nat option" where
  "fd_node fd = (case fd_data fd of Driver_data a \<Rightarrow> Some a | _ \<Rightarrow> None)"

section \<open>Mounting and the directory\<close>

definition dfs_ramfs_mount :: "nat \<Rightarrow> nat \<Rightarrow> 'h dfs_ramfs \<Rightarrow> int \<times> 'h dfs_ramfs" where
  "dfs_ramfs_mount i data F =
     (if data = 0 then (- EIO, F) else (0, F\<lparr>rf_fs_data := (rf_fs_data F)(i := data)\<rparr>))"

definition dfs_ramfs_unmount :: "nat \<Rightarrow> 'h dfs_ramfs \<Rightarrow> int \<times> 'h dfs_ramfs" where
  "dfs_ramfs_unmount i F = (0, F\<lparr>rf_fs_data := (rf_fs_data F)(i := 0)\<rparr>)"

definition dfs_ramfs_statfs :: "'h ram_env \<Rightarrow> nat \<Rightarrow> nat \<Rightarrow> 'h dfs_ramfs \<Rightarrow> (int \<times> 'h dfs_ramfs) option" where
  "dfs_ramfs_statfs E i buf F = do {
     _ \<leftarrow> ramfs_of i F;
     RT_ASSERT (buf \<noteq> 0);
     Some (0, F\<lparr>rf_user := (rf_user F)(buf \<mapsto> Statfs_data 512 (hc_pool_size (re_calls E) (rf_heap F) div 512)
       (hc_available_size (re_calls E) (rf_heap F) div 512))\<rparr>) }"

definition dfs_ramfs_ioctl :: "dfs_fd \<Rightarrow> 'h dfs_ramfs \<Rightarrow> int \<times> dfs_fd \<times> 'h dfs_ramfs" where
  "dfs_ramfs_ioctl fd F = (- EIO, fd, F)"

text \<open>\<open>rt_strcmp\<close> of the array of an entry with a string: \<open>None\<close> when it runs past the end of the array.\<close>

fun name_eq :: "string \<Rightarrow> string \<Rightarrow> bool option" where
  "name_eq [] s = None"
| "name_eq (c # cs) [] = Some (c = CHR 0x00)"
| "name_eq (c # cs) (d # ds) = (if c = d then name_eq cs ds else Some False)"

fun ram_scan :: "(nat \<Rightarrow> ramfs_dirent) \<Rightarrow> string \<Rightarrow> nat list \<Rightarrow> nat option option" where
  "ram_scan D subpath [] = Some None"
| "ram_scan D subpath (a # as) =
     Option.bind (name_eq (rd_name (D a)) subpath) (\<lambda>eq. if eq then Some (Some a) else ram_scan D subpath as)"

definition skip_slashes :: "string \<Rightarrow> string" where
  "skip_slashes = dropWhile (\<lambda>c. c = CHR ''/'')"

text \<open>The entry and its size.\<close>

definition dfs_ramfs_lookup :: "string \<Rightarrow> 'h dfs_ramfs \<Rightarrow> (nat \<times> nat) option option" where
  "dfs_ramfs_lookup path F =
     (if skip_slashes path = [] then Some (Some (rf_root F, 0))
      else map_option (map_option (\<lambda>a. (a, rd_size (rf_dirent F a)))) (ram_scan (rf_dirent F) (skip_slashes path) (rf_list F)))"

section \<open>Open files\<close>

definition dfs_ramfs_read :: "'h ram_env \<Rightarrow> dfs_fd \<Rightarrow> nat \<Rightarrow> nat \<Rightarrow> 'h dfs_ramfs \<Rightarrow> (int \<times> dfs_fd \<times> 'h dfs_ramfs) option" where
  "dfs_ramfs_read E file buf count F = do {
     a \<leftarrow> fd_node file;
     let rest = sub32 (fd_size file) (upos file);
     let n = (if count < rest then count else rest);
     let h = (if n > 0 then hc_store (re_calls E) buf
         (bytes_at (re_calls E) (rf_heap F) (add32 (rd_data (rf_dirent F a)) (upos file)) n) (rf_heap F) else rf_heap F);
     Some (s32 n, file\<lparr>fd_pos := s32 (add32 (upos file) n)\<rparr>, F\<lparr>rf_heap := h\<rparr>) }"

text \<open>The file is made longer first: the block is resized, and the entry and the descriptor get the new size.\<close>

definition ram_extend :: "'h ram_env \<Rightarrow> dfs_fd \<Rightarrow> nat \<Rightarrow> nat \<Rightarrow> 'h dfs_ramfs \<Rightarrow> (bool \<times> dfs_fd \<times> 'h dfs_ramfs) option" where
  "ram_extend E fd a count F =
     (if add32 count (upos fd) > fd_size fd then do {
        (ptr, h) \<leftarrow> hc_realloc (re_calls E) (rd_data (rf_dirent F a)) (add32 (upos fd) count) (rf_heap F);
        (case ptr of
           None \<Rightarrow> Some (False, fd, F\<lparr>rf_heap := h, rf_errno := - ENOMEM\<rparr>)
         | Some q \<Rightarrow> Some (True, fd\<lparr>fd_size := add32 (upos fd) count\<rparr>,
             upd_dirent a (\<lambda>d. d\<lparr>rd_data := q, rd_size := add32 (upos fd) count\<rparr>) (F\<lparr>rf_heap := h\<rparr>))) }
      else Some (True, fd, F))"

definition dfs_ramfs_write :: "'h ram_env \<Rightarrow> dfs_fd \<Rightarrow> nat \<Rightarrow> nat \<Rightarrow> 'h dfs_ramfs \<Rightarrow> (int \<times> dfs_fd \<times> 'h dfs_ramfs) option" where
  "dfs_ramfs_write E fd buf count F = do {
     a \<leftarrow> fd_node fd;
     (ok, fd, F) \<leftarrow> ram_extend E fd a count F;
     if \<not> ok then Some (0, fd, F)
     else do {
       let h = (if count > 0 then hc_store (re_calls E) (add32 (rd_data (rf_dirent F a)) (upos fd))
           (bytes_at (re_calls E) (rf_heap F) buf count) (rf_heap F) else rf_heap F);
       Some (s32 count, fd\<lparr>fd_pos := s32 (add32 (upos fd) count)\<rparr>, F\<lparr>rf_heap := h\<rparr>) } }"

definition dfs_ramfs_lseek :: "dfs_fd \<Rightarrow> int \<Rightarrow> 'h dfs_ramfs \<Rightarrow> int \<times> dfs_fd \<times> 'h dfs_ramfs" where
  "dfs_ramfs_lseek file offset F =
     (if offset \<le> s32 (fd_size file) then (offset, file\<lparr>fd_pos := offset\<rparr>, F) else (- EIO, file, F))"

definition dfs_ramfs_close :: "dfs_fd \<Rightarrow> 'h dfs_ramfs \<Rightarrow> int \<times> dfs_fd \<times> 'h dfs_ramfs" where
  "dfs_ramfs_close file F = (0, file\<lparr>fd_data := No_data\<rparr>, F)"

text \<open>\<open>strncpy\<close> to the array of a name, which leaves no end mark behind a long name.\<close>

definition name_array :: "string \<Rightarrow> string" where
  "name_array s = take RAMFS_NAME_MAX (s @ replicate RAMFS_NAME_MAX (CHR 0x00))"

text \<open>A new entry, in front of the others; it has 52 bytes.\<close>

definition ram_create :: "'h ram_env \<Rightarrow> string \<Rightarrow> 'h dfs_ramfs \<Rightarrow> (nat option \<times> 'h dfs_ramfs) option" where
  "ram_create E path F = do {
     (ptr, h) \<leftarrow> hc_alloc (re_calls E) 52 (rf_heap F);
     (case ptr of
        None \<Rightarrow> Some (None, F\<lparr>rf_heap := h\<rparr>)
      | Some a \<Rightarrow> Some (Some a, upd_dirent a (\<lambda>_. \<lparr>rd_name = name_array (skip_slashes path), rd_data = 0, rd_size = 0\<rparr>)
          (F\<lparr>rf_heap := h, rf_list := a # rf_list F\<rparr>))) }"

definition ram_truncate :: "'h ram_env \<Rightarrow> nat \<Rightarrow> 'h dfs_ramfs \<Rightarrow> 'h dfs_ramfs option" where
  "ram_truncate E a F =
     (let F1 = upd_dirent a (\<lambda>d. d\<lparr>rd_size := 0\<rparr>) F; p = rd_data (rf_dirent F1 a)
      in if p \<noteq> 0 then do {
           h \<leftarrow> hc_free (re_calls E) p (rf_heap F1);
           Some (upd_dirent a (\<lambda>d. d\<lparr>rd_data := 0\<rparr>) (F1\<lparr>rf_heap := h\<rparr>)) }
         else Some F1)"

definition ram_open_dir :: "'h ram_env \<Rightarrow> u32 \<Rightarrow> string \<Rightarrow> 'h dfs_ramfs \<Rightarrow> ((int + nat) \<times> 'h dfs_ramfs) option" where
  "ram_open_dir E flags path F =
     (if flags AND re_O_CREAT E \<noteq> 0 then Some (Inl (- ENOSPC), F)
      else do {
        r \<leftarrow> dfs_ramfs_lookup path F;
        (case r of None \<Rightarrow> Some (Inl (- ENOENT), F) | Some (a, _) \<Rightarrow> Some (Inr a, F)) })"

definition ram_open_file :: "'h ram_env \<Rightarrow> u32 \<Rightarrow> string \<Rightarrow> 'h dfs_ramfs \<Rightarrow> ((int + nat) \<times> 'h dfs_ramfs) option" where
  "ram_open_file E flags path F = do {
     l \<leftarrow> dfs_ramfs_lookup path F;
     (r, F1) \<leftarrow>
       (case l of
          Some (a, _) \<Rightarrow> Some (if a = rf_root F then Inl (- ENOENT) else Inr a, F)
        | None \<Rightarrow>
            if flags AND re_O_CREAT E \<noteq> 0 \<or> flags AND re_O_WRONLY E \<noteq> 0 then do {
              (ptr, F1) \<leftarrow> ram_create E path F;
              Some (case ptr of None \<Rightarrow> Inl (- ENOMEM) | Some a \<Rightarrow> Inr a, F1) }
            else Some (Inl (- ENOENT), F));
     (case r of
        Inl e \<Rightarrow> Some (Inl e, F1)
      | Inr a \<Rightarrow>
          if flags AND re_O_TRUNC E \<noteq> 0 then map_option (Pair (Inr a)) (ram_truncate E a F1) else Some (Inr a, F1)) }"

definition dfs_ramfs_open :: "'h ram_env \<Rightarrow> dfs_fd \<Rightarrow> 'h dfs_ramfs \<Rightarrow> (int \<times> dfs_fd \<times> 'h dfs_ramfs) option" where
  "dfs_ramfs_open E file F = do {
     i \<leftarrow> (case fd_data file of Fs_data i \<Rightarrow> Some i | _ \<Rightarrow> None);
     _ \<leftarrow> ramfs_of i F;
     (_, path) \<leftarrow> fd_path file;
     (r, F) \<leftarrow> (if fd_flags file AND re_O_DIRECTORY E \<noteq> 0 then ram_open_dir E (fd_flags file) path F
       else ram_open_file E (fd_flags file) path F);
     (case r of
        Inl e \<Rightarrow> Some (e, file, F)
      | Inr a \<Rightarrow>
          (let n = rd_size (rf_dirent F a)
           in Some (0, file\<lparr>fd_data := Driver_data a, fd_size := n,
                fd_pos := (if fd_flags file AND re_O_APPEND E \<noteq> 0 then s32 n else 0)\<rparr>, F))) }"

section \<open>Paths\<close>

definition dfs_ramfs_stat :: "nat \<Rightarrow> string option \<Rightarrow> nat \<Rightarrow> 'h dfs_ramfs \<Rightarrow> (int \<times> 'h dfs_ramfs) option" where
  "dfs_ramfs_stat i path st F = do {
     _ \<leftarrow> ramfs_of i F;
     p \<leftarrow> path;
     r \<leftarrow> dfs_ramfs_lookup p F;
     Some (case r of
         None \<Rightarrow> (- ENOENT, F)
       | Some (a, _) \<Rightarrow> (0, F\<lparr>rf_user := (rf_user F)(st \<mapsto> Stat_data (rd_size (rf_dirent F a)))\<rparr>)) }"

text \<open>The structure \<^verbatim>\<open>struct dirent\<close> has 260 bytes; the names stored, and the position.\<close>

fun getdents_loop :: "(nat \<Rightarrow> ramfs_dirent) \<Rightarrow> nat list \<Rightarrow> nat \<Rightarrow> nat \<Rightarrow> int \<Rightarrow> string list \<Rightarrow> string list \<times> int" where
  "getdents_loop D [] index stop pos acc = (acc, pos)"
| "getdents_loop D (a # as) index stop pos acc =
     (if index < stop then
        if index \<ge> nat (pos mod 2 ^ 32) then getdents_loop D as (index + 1) stop (pos + 1) (acc @ [rd_name (D a)])
        else getdents_loop D as (index + 1) stop pos acc
      else (acc, pos))"

definition dfs_ramfs_getdents :: "dfs_fd \<Rightarrow> nat \<Rightarrow> nat \<Rightarrow> 'h dfs_ramfs \<Rightarrow> (int \<times> dfs_fd \<times> 'h dfs_ramfs) option" where
  "dfs_ramfs_getdents file dirp count F = do {
     a \<leftarrow> fd_node file;
     if a \<noteq> rf_root F then Some (- EINVAL, file, F)
     else if count div 260 = 0 then Some (- EINVAL, file, F)
     else
       (let (names, pos) = getdents_loop (rf_dirent F) (rf_list F) 0 (add32 (upos file) (count div 260)) (fd_pos file) []
        in Some (s32 (260 * length names), file\<lparr>fd_pos := pos\<rparr>, F\<lparr>rf_user := (rf_user F)(dirp \<mapsto> Dirent_data names)\<rparr>)) }"

text \<open>Unlinking the root itself leaves its list empty.\<close>

definition dfs_ramfs_unlink :: "'h ram_env \<Rightarrow> nat \<Rightarrow> string \<Rightarrow> 'h dfs_ramfs \<Rightarrow> (int \<times> 'h dfs_ramfs) option" where
  "dfs_ramfs_unlink E i path F = do {
     _ \<leftarrow> ramfs_of i F;
     r \<leftarrow> dfs_ramfs_lookup path F;
     (case r of
        None \<Rightarrow> Some (- ENOENT, F)
      | Some (a, _) \<Rightarrow> do {
          let F1 = F\<lparr>rf_list := (if a = rf_root F then [] else removeAll a (rf_list F))\<rparr>;
          let p = rd_data (rf_dirent F a);
          h1 \<leftarrow> (if p \<noteq> 0 then hc_free (re_calls E) p (rf_heap F1) else Some (rf_heap F1));
          h2 \<leftarrow> hc_free (re_calls E) a h1;
          Some (0, F1\<lparr>rf_heap := h2\<rparr>) }) }"

definition dfs_ramfs_rename :: "nat \<Rightarrow> string option \<Rightarrow> string option \<Rightarrow> 'h dfs_ramfs \<Rightarrow> (int \<times> 'h dfs_ramfs) option" where
  "dfs_ramfs_rename i oldpath newpath F = do {
     _ \<leftarrow> ramfs_of i F;
     new \<leftarrow> newpath;
     r \<leftarrow> dfs_ramfs_lookup new F;
     if r \<noteq> None then Some (- EEXIST, F)
     else do {
       old \<leftarrow> oldpath;
       r \<leftarrow> dfs_ramfs_lookup old F;
       Some (case r of
           None \<Rightarrow> (- ENOENT, F)
         | Some (a, _) \<Rightarrow> (0, upd_dirent a (\<lambda>d. d\<lparr>rd_name := name_array new\<rparr>) F)) } }"

section \<open>The driver\<close>

text \<open>As a driver of \<open>Dfs_File\<close>, the ramfs is the world, which is \<open>None\<close> once a call has not returned.\<close>

definition ram_call :: "('h dfs_ramfs \<Rightarrow> (int \<times> 'h dfs_ramfs) option) \<Rightarrow> 'h dfs_ramfs option \<Rightarrow> int \<times> 'h dfs_ramfs option" where
  "ram_call f w = (case Option.bind w f of None \<Rightarrow> (0, None) | Some (r, F) \<Rightarrow> (r, Some F))"

definition ram_file_call ::
    "(dfs_fd \<Rightarrow> 'h dfs_ramfs \<Rightarrow> (int \<times> dfs_fd \<times> 'h dfs_ramfs) option) \<Rightarrow> dfs_fd \<Rightarrow> 'h dfs_ramfs option \<Rightarrow>
     int \<times> dfs_fd \<times> 'h dfs_ramfs option" where
  "ram_file_call f fd w = (case Option.bind w (f fd) of None \<Rightarrow> (0, fd, None) | Some (r, fd, F) \<Rightarrow> (r, fd, Some F))"

definition ram_fops :: "'h ram_env \<Rightarrow> 'h dfs_ramfs option dfs_file_ops" where
  "ram_fops E = \<lparr>fop_open = Some (ram_file_call (dfs_ramfs_open E)),
     fop_close = Some (ram_file_call (\<lambda>fd F. Some (dfs_ramfs_close fd F))),
     fop_ioctl = Some (\<lambda>fd cmd args. ram_file_call (\<lambda>fd F. Some (dfs_ramfs_ioctl fd F)) fd),
     fop_read = Some (\<lambda>fd buf n. ram_file_call (\<lambda>fd. dfs_ramfs_read E fd buf n) fd),
     fop_write = Some (\<lambda>fd buf n. ram_file_call (\<lambda>fd. dfs_ramfs_write E fd buf n) fd),
     fop_flush = None,
     fop_lseek = Some (\<lambda>fd offset. ram_file_call (\<lambda>fd F. Some (dfs_ramfs_lseek fd offset F)) fd),
     fop_getdents = Some (\<lambda>fd dirp n. ram_file_call (\<lambda>fd. dfs_ramfs_getdents fd dirp n) fd)\<rparr>"

text \<open>\<open>fops\<close> is the address of the table \<open>ram_fops\<close>.\<close>

definition ram_ops :: "'h ram_env \<Rightarrow> nat \<Rightarrow> 'h dfs_ramfs option dfs_filesystem_ops" where
  "ram_ops E fops = \<lparr>op_name = ''ram'', op_flags = 0, op_fops = fops,
     op_mount = Some (\<lambda>i fs rwflag data. ram_call (\<lambda>F. Some (dfs_ramfs_mount i data F))),
     op_unmount = Some (\<lambda>i fs. ram_call (\<lambda>F. Some (dfs_ramfs_unmount i F))),
     op_mkfs = None,
     op_statfs = Some (\<lambda>i fs buf. ram_call (dfs_ramfs_statfs E i buf)),
     op_unlink = Some (\<lambda>i fs path. ram_call (dfs_ramfs_unlink E i path)),
     op_stat = Some (\<lambda>i fs path st. ram_call (dfs_ramfs_stat i path st)),
     op_rename = Some (\<lambda>i fs old new. ram_call (dfs_ramfs_rename i old new))\<rparr>"

definition dfs_ramfs_init :: "('h, 'w) dfs_env \<Rightarrow> nat \<Rightarrow> ('h, 'w) dfs_state \<Rightarrow> int \<times> ('h, 'w) dfs_state" where
  "dfs_ramfs_init E ramfs s = (0, snd (dfs_register E ramfs s))"

text \<open>\<open>struct dfs_ramfs\<close> has \<open>fs_size\<close> bytes with the root entry at \<open>root_offset\<close>; \<open>heap_init\<close> is
  \<open>rt_memheap_init\<close> followed by the removal of the object from the registry.\<close>

definition dfs_ramfs_create ::
    "(nat \<Rightarrow> nat \<Rightarrow> int \<times> 'h) \<Rightarrow> nat \<Rightarrow> nat \<Rightarrow> nat \<Rightarrow> nat \<Rightarrow> 'h dfs_ramfs option" where
  "dfs_ramfs_create heap_init fs_size root_offset pool sz =
     (let sz1 = 8 * (sz div 8);
          sz2 = 8 * (sub32 sz1 fs_size div 8);
          (result, h) = heap_init (pool + fs_size) sz2
      in if result \<noteq> 0 then None
         else Some \<lparr>rf_addr = pool, rf_heap = h, rf_root = pool + root_offset, rf_list = [],
           rf_dirent = (\<lambda>_. \<lparr>rd_name = replicate RAMFS_NAME_MAX (CHR 0x00), rd_data = 0, rd_size = 0\<rparr>)
             (pool + root_offset := \<lparr>rd_name = name_array ''.'', rd_data = 0, rd_size = 0\<rparr>),
           rf_fs_data = (\<lambda>_. 0), rf_user = (\<lambda>_. None), rf_errno = 0\<rparr>)"

end
