(* ===== verification/Ramfs_Inv.thy ===== *)
theory Ramfs_Inv
  imports Ramfs
begin

text \<open>
  The invariant of the file system in memory, and what its operations do to the files: a map from names to
  contents. The lemmas are proved once for every heap that keeps the contract \<open>file_heap\<close>.
\<close>

section \<open>Names\<close>

definition fname_ok :: "string \<Rightarrow> bool" where
  "fname_ok arr \<longleftrightarrow> length arr = 32 \<and> CHR 0x00 \<in> set arr \<and> hd arr \<noteq> CHR 0x00 \<and> hd arr \<noteq> CHR ''/''"

definition c_string :: "string \<Rightarrow> string" where
  "c_string arr = takeWhile (\<lambda>c. c \<noteq> CHR 0x00) arr"

lemma name_eq_ok: "CHR 0x00 \<in> set arr \<Longrightarrow> CHR 0x00 \<notin> set s \<Longrightarrow> name_eq arr s = Some (c_string arr = s)"
proof (induction arr s rule: name_eq.induct)
  case (2 c cs)
  then show ?case by (simp add: c_string_def)
next
  case (3 c cs d ds)
  then show ?case by (cases "c = d") (auto simp: c_string_def)
qed simp

lemma name_array_ok:
  assumes "n \<noteq> []" "length n < 32" "CHR 0x00 \<notin> set n" "hd n \<noteq> CHR ''/''"
  shows "fname_ok (name_array n)" "c_string (name_array n) = n"
proof -
  have e: "name_array n = n @ replicate (32 - length n) (CHR 0x00)" using assms(2) by (simp add: name_array_def)
  have "hd n \<in> set n" using assms(1) by simp
  then have "hd n \<noteq> CHR 0x00" using assms(3) by metis
  then show "fname_ok (name_array n)" using assms unfolding e fname_ok_def by simp
  have "takeWhile (\<lambda>c. c \<noteq> CHR 0x00) (n @ replicate k (CHR 0x00)) = n" for k
    using assms(3) by (subst takeWhile_append2) (auto simp: takeWhile_eq_Nil_iff)
  then show "c_string (name_array n) = n" unfolding e c_string_def .
qed

lemma skip_slashes_hd: "skip_slashes path \<noteq> [] \<Longrightarrow> hd (skip_slashes path) \<noteq> CHR ''/''"
  unfolding skip_slashes_def by (rule hd_dropWhile)

lemma skip_slashes_set: "c \<notin> set path \<Longrightarrow> c \<notin> set (skip_slashes path)"
  unfolding skip_slashes_def using set_dropWhileD by metis

section \<open>The files\<close>

definition file_name :: "(nat \<Rightarrow> ramfs_dirent) \<Rightarrow> nat \<Rightarrow> string" where
  "file_name D a = c_string (rd_name (D a))"

definition find_file :: "'h dfs_ramfs \<Rightarrow> string \<Rightarrow> nat option" where
  "find_file F n = List.find (\<lambda>a. file_name (rf_dirent F) a = n) (rf_list F)"

definition file_content :: "'h heap_calls \<Rightarrow> 'h dfs_ramfs \<Rightarrow> nat \<Rightarrow> u8 list" where
  "file_content C F a = bytes_at C (rf_heap F) (rd_data (rf_dirent F a)) (rd_size (rf_dirent F a))"

definition ram_files :: "'h heap_calls \<Rightarrow> 'h dfs_ramfs \<Rightarrow> string \<Rightarrow> u8 list option" where
  "ram_files C F n = map_option (file_content C F) (find_file F n)"

text \<open>Writing \<open>bs\<close> at the position \<open>i\<close>.\<close>

definition overwrite :: "nat \<Rightarrow> u8 list \<Rightarrow> u8 list \<Rightarrow> u8 list" where
  "overwrite i bs c = take i c @ bs @ drop (i + length bs) c"

text \<open>What opening the name \<open>n\<close> means for the files.\<close>

definition opened :: "bool \<Rightarrow> string \<Rightarrow> (string \<Rightarrow> u8 list option) \<Rightarrow> u8 list" where
  "opened trunc n files = (if trunc then [] else case files n of None \<Rightarrow> [] | Some c \<Rightarrow> c)"

section \<open>The invariant\<close>

text \<open>An entry is a block of the heap, and so is what it holds, unless that is empty.\<close>

definition entry_ok :: "(nat \<times> nat) set \<Rightarrow> ramfs_dirent \<Rightarrow> nat \<Rightarrow> bool" where
  "entry_ok L d a \<longleftrightarrow> (\<exists>k. (a, k) \<in> L) \<and> (if rd_data d = 0 then rd_size d = 0 else \<exists>m. (rd_data d, m) \<in> L \<and> rd_size d \<le> m) \<and>
     rd_size d < 2 ^ 30 \<and> fname_ok (rd_name d)"

definition ram_ok :: "('h \<Rightarrow> bool) \<Rightarrow> ('h \<Rightarrow> (nat \<times> nat) set) \<Rightarrow> ('h \<Rightarrow> nat \<times> nat) \<Rightarrow> 'h dfs_ramfs \<Rightarrow> bool" where
  "ram_ok ok live place F \<longleftrightarrow> ok (rf_heap F) \<and> distinct (rf_list F) \<and>
     (rf_root F < fst (place (rf_heap F)) \<or> fst (place (rf_heap F)) + snd (place (rf_heap F)) \<le> rf_root F) \<and>
     (\<forall>a\<in>set (rf_list F). entry_ok (live (rf_heap F)) (rf_dirent F a) a) \<and>
     (\<forall>a\<in>set (rf_list F). \<forall>b\<in>set (rf_list F). rd_data (rf_dirent F a) \<noteq> b \<and>
        (rd_data (rf_dirent F a) = rd_data (rf_dirent F b) \<longrightarrow> rd_data (rf_dirent F a) = 0 \<or> a = b)) \<and>
     distinct (map (file_name (rf_dirent F)) (rf_list F))"

text \<open>A descriptor that knows the size of its file, and a buffer outside of the heap.\<close>

definition fd_ok :: "'h dfs_ramfs \<Rightarrow> dfs_fd \<Rightarrow> nat \<Rightarrow> bool" where
  "fd_ok F fd a \<longleftrightarrow> fd_data fd = Driver_data a \<and> a \<in> set (rf_list F) \<and> fd_size fd = rd_size (rf_dirent F a) \<and>
     0 \<le> fd_pos fd \<and> fd_pos fd \<le> int (fd_size fd)"

definition buffer_ok :: "nat \<times> nat \<Rightarrow> nat \<Rightarrow> nat \<Rightarrow> bool" where
  "buffer_ok pl buf n \<longleftrightarrow> buf + n \<le> fst pl \<or> fst pl + snd pl \<le> buf"

text \<open>A call of the heap that concerns the block \<open>p\<close> only: the other blocks stay, and so do their bytes.\<close>

definition kept :: "('h \<Rightarrow> (nat \<times> nat) set) \<Rightarrow> ('h \<Rightarrow> nat \<times> nat) \<Rightarrow> 'h heap_calls \<Rightarrow> 'h \<Rightarrow> nat \<Rightarrow> 'h \<Rightarrow> bool" where
  "kept live place C h p h' \<longleftrightarrow>
     (\<forall>r l. (r, l) \<in> live h \<and> r \<noteq> p \<longrightarrow> (r, l) \<in> live h' \<and> (\<forall>x. r \<le> x \<and> x < r + l \<longrightarrow> hc_byte C h' x = hc_byte C h x)) \<and>
     (\<forall>x. x < fst (place h) \<or> fst (place h) + snd (place h) \<le> x \<longrightarrow> hc_byte C h' x = hc_byte C h x) \<and> place h' = place h"

lemma find_file_some: "find_file F n = Some a \<Longrightarrow> a \<in> set (rf_list F) \<and> file_name (rf_dirent F) a = n"
  by (auto simp: find_file_def find_Some_iff)

lemma find_file_name:
  assumes "distinct (map (file_name (rf_dirent F)) (rf_list F))" "a \<in> set (rf_list F)"
  shows "find_file F (file_name (rf_dirent F) a) = Some a"
proof (cases "find_file F (file_name (rf_dirent F) a)")
  case None
  then show ?thesis using assms(2) by (auto simp: find_file_def find_None_iff)
next
  case (Some b)
  then have "b \<in> set (rf_list F)" "file_name (rf_dirent F) b = file_name (rf_dirent F) a" using find_file_some by blast+
  then have "b = a" using assms by (metis distinct_map inj_onD)
  then show ?thesis using Some by simp
qed

context file_heap
begin

lemma ram_okD:
  assumes "ram_ok ok live place F"
  shows "ok (rf_heap F)" "distinct (rf_list F)"
    "rf_root F < fst (place (rf_heap F)) \<or> fst (place (rf_heap F)) + snd (place (rf_heap F)) \<le> rf_root F"
    "a \<in> set (rf_list F) \<Longrightarrow> entry_ok (live (rf_heap F)) (rf_dirent F a) a"
    "a \<in> set (rf_list F) \<Longrightarrow> b \<in> set (rf_list F) \<Longrightarrow> rd_data (rf_dirent F a) \<noteq> b"
    "a \<in> set (rf_list F) \<Longrightarrow> b \<in> set (rf_list F) \<Longrightarrow> rd_data (rf_dirent F a) = rd_data (rf_dirent F b) \<Longrightarrow>
      rd_data (rf_dirent F a) = 0 \<or> a = b"
    "distinct (map (file_name (rf_dirent F)) (rf_list F))"
  using assms unfolding ram_ok_def by blast+

lemma live_in_place:
  assumes "ok h" "(p, m) \<in> live h"
  shows "fst (place h) \<le> p" "p + m \<le> fst (place h) + snd (place h)" "0 < m" "p + m < 2 ^ 32"
  using live_place [OF assms] live_pos [OF assms] place_range [OF assms(1)] by auto

lemma root_no_entry: "ram_ok ok live place F \<Longrightarrow> rf_root F \<notin> set (rf_list F)"
proof
  assume r: "ram_ok ok live place F" "rf_root F \<in> set (rf_list F)"
  obtain k where "(rf_root F, k) \<in> live (rf_heap F)" using ram_okD(4) [OF r] by (auto simp: entry_ok_def)
  from live_in_place [OF ram_okD(1) [OF r(1)] this] ram_okD(3) [OF r(1)] show False by linarith
qed

section \<open>The calls of the heap as the file system sees them\<close>

lemma realloc_any:
  assumes "ok h" "0 < n" "n < 2 ^ 30" "if p = 0 then sz = 0 else \<exists>m. (p, m) \<in> live h \<and> sz \<le> m"
  obtains (full) h' where "hc_realloc C p n h = Some (None, h')" "ok h'" "live h' = live h" "hc_byte C h' = hc_byte C h"
    "place h' = place h"
  | (given) q k h' where "hc_realloc C p n h = Some (Some q, h')" "ok h'" "n \<le> k" "(q, k) \<in> live h'" "q \<noteq> 0"
    "\<And>r l. (r, l) \<in> live h \<Longrightarrow> r \<noteq> p \<Longrightarrow> r \<noteq> q" "kept live place C h p h'"
    "\<And>i. i < sz \<Longrightarrow> i < n \<Longrightarrow> hc_byte C h' (q + i) = hc_byte C h (p + i)"
proof (cases "p = 0")
  case True
  from realloc_null [OF assms(1-3)] show ?thesis
  proof (elim disjE exE conjE)
    fix h' assume a: "hc_realloc C 0 n h = Some (None, h')" "ok h'" "live h' = live h" "hc_byte C h' = hc_byte C h"
    then show ?thesis using full True realloc_place [OF a(1)] by blast
  next
    fix q k h' assume a: "hc_realloc C 0 n h = Some (Some q, h')" "ok h'" "n \<le> k" "(q, k) \<notin> live h"
      "live h' = insert (q, k) (live h)" "hc_byte C h' = hc_byte C h"
    have l: "(q, k) \<in> live h'" using a(5) by simp
    have "r \<noteq> q" if "(r, l) \<in> live h" for r l using live_unique [OF a(2) l, of l] that a(4,5) by auto
    moreover have "kept live place C h p h'" using a(5,6) realloc_place [OF a(1)] by (simp add: kept_def)
    ultimately show ?thesis using given [of q h' k] a True l assms(4) live_null [OF a(2) l] by simp
  qed
next
  case False
  then obtain m where m: "(p, m) \<in> live h" "sz \<le> m" using assms(4) by auto
  from realloc_ok [OF assms(1) m(1) assms(2,3)] show ?thesis
  proof (elim disjE exE conjE)
    fix h' assume a: "hc_realloc C p n h = Some (None, h')" "ok h'" "live h' = live h" "hc_byte C h' = hc_byte C h"
    then show ?thesis using full realloc_place [OF a(1)] by blast
  next
    fix q k h' assume a: "hc_realloc C p n h = Some (Some q, h')" "ok h'" "n \<le> k" "(q, k) \<notin> live h - {(p, m)}"
      "live h' = insert (q, k) (live h - {(p, m)})" "\<forall>i. i < m \<and> i < n \<longrightarrow> hc_byte C h' (q + i) = hc_byte C h (p + i)"
      "\<forall>x. \<not> (q \<le> x \<and> x < q + k) \<longrightarrow> hc_byte C h' x = hc_byte C h x"
    have l: "(q, k) \<in> live h'" using a(5) by simp
    have pl: "place h' = place h" by (rule realloc_place [OF a(1)])
    have o: "(r, l) \<in> live h'" "r \<noteq> q" "r + l \<le> q \<or> q + k \<le> r" if "(r, l) \<in> live h" "r \<noteq> p" for r l
    proof -
      show i: "(r, l) \<in> live h'" using that a(5) by simp
      have "(r, l) \<noteq> (q, k)" using that a(4) by auto
      then show "r \<noteq> q" using live_unique [OF a(2) l, of l] i by auto
      show "r + l \<le> q \<or> q + k \<le> r" using live_disjoint [OF a(2) i l \<open>(r, l) \<noteq> (q, k)\<close>] .
    qed
    have "hc_byte C h' x = hc_byte C h x" if "x < fst (place h) \<or> fst (place h) + snd (place h) \<le> x" for x
      using a(7) that live_in_place(1,2) [OF a(2) l] pl by auto
    moreover have "hc_byte C h' x = hc_byte C h x" if "(r, l) \<in> live h" "r \<noteq> p" "r \<le> x" "x < r + l" for r l x
      using a(7) o(3) [OF that(1,2)] that(3,4) by auto
    ultimately have "kept live place C h p h'" using o(1) pl unfolding kept_def by blast
    moreover have "hc_byte C h' (q + i) = hc_byte C h (p + i)" if "i < sz" "i < n" for i
      using a(6) that m(2) by (meson less_le_trans)
    ultimately show ?thesis using given [of q h' k] a(1-3) l o(2) live_null [OF a(2) l] by metis
  qed
qed

lemma entry_kept:
  assumes "entry_ok (live h) d b" "b \<noteq> p" "rd_data d \<noteq> p \<or> rd_data d = 0" "kept live place C h p h'"
  shows "entry_ok (live h') d b"
proof -
  have k: "(r, l) \<in> live h'" if "(r, l) \<in> live h" "r \<noteq> p" for r l using assms(4) that unfolding kept_def by blast
  obtain e where "(b, e) \<in> live h" using assms(1) by (auto simp: entry_ok_def)
  then have "\<exists>e. (b, e) \<in> live h'" using k assms(2) by blast
  moreover have "\<exists>m. (rd_data d, m) \<in> live h' \<and> rd_size d \<le> m" if "rd_data d \<noteq> 0"
    using that assms(1,3) k unfolding entry_ok_def by (metis (full_types))
  ultimately show ?thesis using assms(1) by (simp add: entry_ok_def split: if_splits)
qed

lemma content_kept:
  assumes "entry_ok (live (rf_heap F)) (rf_dirent F b) b" "rd_data (rf_dirent F b) \<noteq> p \<or> rd_data (rf_dirent F b) = 0"
    and "kept live place C (rf_heap F) p (rf_heap F')" "rf_dirent F' b = rf_dirent F b"
  shows "file_content C F' b = file_content C F b"
proof (cases "rd_data (rf_dirent F b) = 0")
  case True
  then show ?thesis using assms(1,4) by (simp add: file_content_def entry_ok_def bytes_at_def)
next
  case False
  then obtain m where m: "(rd_data (rf_dirent F b), m) \<in> live (rf_heap F)" "rd_size (rf_dirent F b) \<le> m"
    using assms(1) by (auto simp: entry_ok_def)
  have "rd_data (rf_dirent F b) \<noteq> p" using False assms(2) by blast
  with m(1) assms(3) have "\<forall>x. rd_data (rf_dirent F b) \<le> x \<and> x < rd_data (rf_dirent F b) + m \<longrightarrow>
      hc_byte C (rf_heap F') x = hc_byte C (rf_heap F) x" unfolding kept_def by blast
  then show ?thesis unfolding file_content_def assms(4) using m(2) by (intro bytes_at_cong) simp
qed

text \<open>Names that the directory knows.\<close>

lemma scan_ok:
  assumes "\<And>a. a \<in> set as \<Longrightarrow> fname_ok (rd_name (D a))" "CHR 0x00 \<notin> set s"
  shows "ram_scan D s as = Some (List.find (\<lambda>a. file_name D a = s) as)"
  using assms
proof (induction as)
  case (Cons a as)
  have "CHR 0x00 \<in> set (rd_name (D a))" using Cons.prems(1) [of a] by (simp add: fname_ok_def)
  from name_eq_ok [OF this Cons.prems(2)] show ?case using Cons.IH Cons.prems by (simp add: file_name_def)
qed simp

lemma lookup_ok:
  assumes "ram_ok ok live place F" "CHR 0x00 \<notin> set path" "skip_slashes path \<noteq> []"
  shows "dfs_ramfs_lookup path F = Some (map_option (\<lambda>a. (a, rd_size (rf_dirent F a))) (find_file F (skip_slashes path)))"
proof -
  have "ram_scan (rf_dirent F) (skip_slashes path) (rf_list F) = Some (find_file F (skip_slashes path))"
    unfolding find_file_def by (rule scan_ok) (use ram_okD(4) [OF assms(1)] skip_slashes_set [OF assms(2)] in \<open>auto simp: entry_ok_def\<close>)
  then show ?thesis using assms(3) by (simp add: dfs_ramfs_lookup_def)
qed

text \<open>Nothing but the heap changes, and it keeps every block.\<close>

lemma files_same:
  assumes "\<And>b. b \<in> set (rf_list F) \<Longrightarrow> file_content C F' b = file_content C F b" "rf_list F' = rf_list F"
    "\<And>b. b \<in> set (rf_list F) \<Longrightarrow> rd_name (rf_dirent F' b) = rd_name (rf_dirent F b)"
  shows "ram_files C F' = ram_files C F"
proof
  fix n
  have "List.find (\<lambda>a. file_name (rf_dirent F') a = n) (rf_list F) = List.find (\<lambda>a. file_name (rf_dirent F) a = n) (rf_list F)"
    by (rule find_cong) (use assms(3) in \<open>simp_all add: file_name_def\<close>)
  then have f: "find_file F' n = find_file F n" using assms(2) by (simp add: find_file_def)
  show "ram_files C F' n = ram_files C F n"
    using assms(1) find_file_some [of F n] by (cases "find_file F n") (simp_all add: ram_files_def f)
qed

text \<open>The content of one file changes.\<close>

lemma files_update:
  assumes "ram_ok ok live place F" "a \<in> set (rf_list F)" "rf_list F' = rf_list F"
    "\<And>b. b \<in> set (rf_list F) \<Longrightarrow> rd_name (rf_dirent F' b) = rd_name (rf_dirent F b)"
    "\<And>b. b \<in> set (rf_list F) \<Longrightarrow> b \<noteq> a \<Longrightarrow> file_content C F' b = file_content C F b"
  shows "ram_files C F' = (ram_files C F)(file_name (rf_dirent F) a \<mapsto> file_content C F' a)"
proof
  fix n
  have "List.find (\<lambda>a. file_name (rf_dirent F') a = n) (rf_list F) = List.find (\<lambda>a. file_name (rf_dirent F) a = n) (rf_list F)"
    by (rule find_cong) (use assms(4) in \<open>simp_all add: file_name_def\<close>)
  then have f: "find_file F' n = find_file F n" using assms(3) by (simp add: find_file_def)
  show "ram_files C F' n = ((ram_files C F)(file_name (rf_dirent F) a \<mapsto> file_content C F' a)) n"
  proof (cases "n = file_name (rf_dirent F) a")
    case True
    then have "find_file F' n = Some a" using find_file_name [OF ram_okD(7) [OF assms(1)] assms(2)] f by simp
    then show ?thesis using True by (simp add: ram_files_def)
  next
    case False
    show ?thesis
    proof (cases "find_file F n")
      case (Some b)
      then have "b \<in> set (rf_list F)" "b \<noteq> a" using find_file_some [OF Some] False by auto
      then show ?thesis using False Some assms(5) by (simp add: ram_files_def f)
    qed (use False in \<open>simp add: ram_files_def f\<close>)
  qed
qed

section \<open>Reading and writing\<close>

lemma fd_okD:
  assumes "ram_ok ok live place F" "fd_ok F fd a"
  shows "fd_node fd = Some a" "a \<in> set (rf_list F)" "fd_size fd = rd_size (rf_dirent F a)" "fd_size fd < 2 ^ 30"
    "int (upos fd) = fd_pos fd" "upos fd \<le> fd_size fd" "entry_ok (live (rf_heap F)) (rf_dirent F a) a"
proof -
  show a: "a \<in> set (rf_list F)" and s: "fd_size fd = rd_size (rf_dirent F a)" and "fd_node fd = Some a"
    using assms(2) by (simp_all add: fd_ok_def fd_node_def)
  show e: "entry_ok (live (rf_heap F)) (rf_dirent F a) a" by (rule ram_okD(4) [OF assms(1) a])
  show l: "fd_size fd < 2 ^ 30" using e s by (simp add: entry_ok_def)
  have "fd_pos fd mod 2 ^ 32 = fd_pos fd" using assms(2) l by (simp add: fd_ok_def)
  then show u: "int (upos fd) = fd_pos fd" using assms(2) by (simp add: upos_def fd_ok_def)
  have "fd_pos fd \<le> int (fd_size fd)" using assms(2) by (simp add: fd_ok_def)
  then show "upos fd \<le> fd_size fd" using u by linarith
qed

lemma data_add32:
  assumes "ram_ok ok live place F" "a \<in> set (rf_list F)" "i < rd_size (rf_dirent F a)"
  shows "add32 (rd_data (rf_dirent F a)) i = rd_data (rf_dirent F a) + i"
proof -
  note e = ram_okD(4) [OF assms(1,2)]
  obtain m where "(rd_data (rf_dirent F a), m) \<in> live (rf_heap F)" "rd_size (rf_dirent F a) \<le> m"
    using e assms(3) by (auto simp: entry_ok_def split: if_splits)
  from live_in_place(4) [OF ram_okD(1) [OF assms(1)] this(1)] this(2) show ?thesis using assms(3) by simp
qed

text \<open>A store outside of the heap, like that of a read into the buffer of the caller.\<close>

lemma store_out_kept:
  assumes "ok h" "buffer_ok (place h) buf (length bs)" "(r, l) \<in> live h" "r \<le> x" "x < r + l"
  shows "hc_byte C (hc_store C buf bs h) x = hc_byte C h x"
  using live_in_place(1,2) [OF assms(1,3)] assms(2,4,5) by (auto simp: store_byte buffer_ok_def)

lemma ram_ok_heap:
  assumes "ram_ok ok live place F" "ok h" "live h = live (rf_heap F)" "place h = place (rf_heap F)"
  shows "ram_ok ok live place (F\<lparr>rf_heap := h\<rparr>)"
  using assms by (simp add: ram_ok_def)

lemma content_heap:
  assumes "ram_ok ok live place F" "b \<in> set (rf_list F)"
    "\<And>x m. (rd_data (rf_dirent F b), m) \<in> live (rf_heap F) \<Longrightarrow> rd_data (rf_dirent F b) \<le> x \<Longrightarrow>
       x < rd_data (rf_dirent F b) + m \<Longrightarrow> hc_byte C h x = hc_byte C (rf_heap F) x"
  shows "file_content C (F\<lparr>rf_heap := h\<rparr>) b = file_content C F b"
proof (cases "rd_data (rf_dirent F b) = 0")
  case True
  then show ?thesis using ram_okD(4) [OF assms(1,2)] by (simp add: file_content_def entry_ok_def bytes_at_def)
next
  case False
  then obtain m where m: "(rd_data (rf_dirent F b), m) \<in> live (rf_heap F)" "rd_size (rf_dirent F b) \<le> m"
    using ram_okD(4) [OF assms(1,2)] by (auto simp: entry_ok_def)
  have "hc_byte C h (rd_data (rf_dirent F b) + i) = hc_byte C (rf_heap F) (rd_data (rf_dirent F b) + i)"
    if "i < rd_size (rf_dirent F b)" for i by (rule assms(3) [OF m(1)]) (use that m(2) in auto)
  from bytes_at_cong [OF this] show ?thesis by (simp add: file_content_def)
qed

lemma read_ok:
  assumes "ram_ok ok live place F" "fd_ok F fd a" "re_calls E = C"
    and "buffer_ok (place (rf_heap F)) buf (min count (fd_size fd - upos fd))"
  defines "n \<equiv> min count (fd_size fd - upos fd)"
  shows "\<exists>h. dfs_ramfs_read E fd buf count F = Some (int n, fd\<lparr>fd_pos := fd_pos fd + int n\<rparr>, F\<lparr>rf_heap := h\<rparr>) \<and>
    ram_ok ok live place (F\<lparr>rf_heap := h\<rparr>) \<and> ram_files C (F\<lparr>rf_heap := h\<rparr>) = ram_files C F \<and>
    fd_ok (F\<lparr>rf_heap := h\<rparr>) (fd\<lparr>fd_pos := fd_pos fd + int n\<rparr>) a \<and>
    bytes_at C h buf n = take n (drop (upos fd) (file_content C F a)) \<and>
    (\<forall>x. \<not> (buf \<le> x \<and> x < buf + n) \<longrightarrow> hc_byte C h x = hc_byte C (rf_heap F) x)"
proof -
  note f = fd_okD [OF assms(1,2)]
  let ?h = "rf_heap F" and ?d = "rd_data (rf_dirent F a)"
  let ?bs = "bytes_at C ?h (?d + upos fd) n"
  have n: "n \<le> fd_size fd - upos fd" "n < 2 ^ 30" using f(4) by (simp_all add: n_def)
  have s: "sub32 (fd_size fd) (upos fd) = fd_size fd - upos fd" using f(4,6) by simp
  have m: "(if count < fd_size fd - upos fd then count else fd_size fd - upos fd) = n" by (simp add: n_def)
  have l: "upos fd + n < 2 ^ 31" using n(1) f(4,6) by simp
  then have "add32 (upos fd) n = upos fd + n" by (intro add32_eq) simp
  then have pos: "s32 (add32 (upos fd) n) = fd_pos fd + int n" "s32 n = int n"
    using l f(5) by (simp_all add: s32_def)
  define h where "h = (if n > 0 then hc_store C buf ?bs ?h else ?h)"
  have "hc_store C buf (bytes_at C ?h (add32 ?d (upos fd)) n) ?h = hc_store C buf ?bs ?h" if "n > 0"
  proof -
    have "add32 ?d (upos fd) = ?d + upos fd" by (rule data_add32 [OF assms(1) f(2)]) (use that n(1) f(3,6) in linarith)
    then show ?thesis by simp
  qed
  then have r: "dfs_ramfs_read E fd buf count F = Some (int n, fd\<lparr>fd_pos := fd_pos fd + int n\<rparr>, F\<lparr>rf_heap := h\<rparr>)"
    unfolding dfs_ramfs_read_def f(1) by (simp add: assms(3) Let_def s m pos h_def)
  have bt: "hc_byte C h x = (if buf \<le> x \<and> x < buf + n then ?bs ! (x - buf) else hc_byte C ?h x)" for x
    by (simp add: h_def store_byte)
  have hk: "ok h" "live h = live ?h" "place h = place ?h"
    using ram_okD(1) [OF assms(1)] by (simp_all add: h_def store_ok store_live store_place)
  have ok: "ram_ok ok live place (F\<lparr>rf_heap := h\<rparr>)" by (rule ram_ok_heap [OF assms(1) hk])
  have "hc_byte C h x = hc_byte C ?h x" if "(r, l) \<in> live ?h" "r \<le> x" "x < r + l" for r l x
    using store_out_kept [OF ram_okD(1) [OF assms(1)], of buf ?bs r l x] that assms(4) by (simp add: h_def n_def)
  then have "ram_files C (F\<lparr>rf_heap := h\<rparr>) = ram_files C F"
    by (intro files_same content_heap [OF assms(1)]) simp_all
  moreover have "fd_ok (F\<lparr>rf_heap := h\<rparr>) (fd\<lparr>fd_pos := fd_pos fd + int n\<rparr>) a"
    using assms(2) n(1) f(5,6) by (simp add: fd_ok_def)
  moreover have "bytes_at C h buf n = ?bs" by (rule nth_equalityI) (simp_all add: bytes_at_nth bt)
  moreover have "?bs = take n (drop (upos fd) (file_content C F a))"
    using bytes_at_part [of "upos fd" n "fd_size fd" ?h ?d] n(1) f(3,6) by (simp add: file_content_def)
  ultimately show ?thesis using r ok bt by (intro exI [of _ h]) auto
qed

text \<open>Writing inside of a file.\<close>

lemma blocks_apart:
  assumes "ram_ok ok live place F" "a \<in> set (rf_list F)" "b \<in> set (rf_list F)" "a \<noteq> b"
    "(rd_data (rf_dirent F a), m) \<in> live (rf_heap F)" "(rd_data (rf_dirent F b), k) \<in> live (rf_heap F)"
  shows "rd_data (rf_dirent F a) + m \<le> rd_data (rf_dirent F b) \<or> rd_data (rf_dirent F b) + k \<le> rd_data (rf_dirent F a)"
proof -
  have "rd_data (rf_dirent F a) \<noteq> rd_data (rf_dirent F b)"
    using ram_okD(6) [OF assms(1-3)] assms(4) live_null [OF ram_okD(1) [OF assms(1)] assms(5)] by blast
  then show ?thesis using live_disjoint [OF ram_okD(1) [OF assms(1)] assms(5,6)] by auto
qed

lemma store_file:
  assumes "ram_ok ok live place F" "a \<in> set (rf_list F)" "i + length bs \<le> rd_size (rf_dirent F a)" "bs \<noteq> []"
  defines "F' \<equiv> F\<lparr>rf_heap := hc_store C (rd_data (rf_dirent F a) + i) bs (rf_heap F)\<rparr>"
  shows "ram_ok ok live place F'" "file_content C F' a = overwrite i bs (file_content C F a)"
    "b \<in> set (rf_list F) \<Longrightarrow> b \<noteq> a \<Longrightarrow> file_content C F' b = file_content C F b"
proof -
  obtain m where m: "(rd_data (rf_dirent F a), m) \<in> live (rf_heap F)" "rd_size (rf_dirent F a) \<le> m"
    using ram_okD(4) [OF assms(1,2)] assms(3,4) by (auto simp: entry_ok_def split: if_splits)
  show "ram_ok ok live place F'"
    unfolding F'_def by (rule ram_ok_heap [OF assms(1)])
      (use ram_okD(1) [OF assms(1)] in \<open>simp_all add: store_ok store_live store_place\<close>)
  show "file_content C F' a = overwrite i bs (file_content C F a)"
    using store_inside [OF assms(3)] by (simp add: F'_def file_content_def overwrite_def)
  show "file_content C F' b = file_content C F b" if b: "b \<in> set (rf_list F)" "b \<noteq> a"
    unfolding F'_def
  proof (rule content_heap [OF assms(1) b(1)])
    fix x l assume l: "(rd_data (rf_dirent F b), l) \<in> live (rf_heap F)" "rd_data (rf_dirent F b) \<le> x"
      "x < rd_data (rf_dirent F b) + l"
    show "hc_byte C (hc_store C (rd_data (rf_dirent F a) + i) bs (rf_heap F)) x = hc_byte C (rf_heap F) x"
      using blocks_apart [OF assms(1,2) b(1) _ m(1) l(1)] b(2) l(2,3) m(2) assms(3) by (auto simp: store_byte)
  qed
qed

text \<open>Making a file longer.\<close>

lemma extend_ok:
  assumes "ram_ok ok live place F" "fd_ok F fd a" "re_calls E = C" "upos fd + count < 2 ^ 30" "fd_size fd < upos fd + count"
  defines "n \<equiv> upos fd + count"
  obtains (full) h where "ram_extend E fd a count F = Some (False, fd, F\<lparr>rf_heap := h, rf_errno := - ENOMEM\<rparr>)"
      "ok h" "live h = live (rf_heap F)" "hc_byte C h = hc_byte C (rf_heap F)" "place h = place (rf_heap F)"
  | (given) F' where "ram_extend E fd a count F = Some (True, fd\<lparr>fd_size := n\<rparr>, F')" "ram_ok ok live place F'"
      "fd_ok F' (fd\<lparr>fd_size := n\<rparr>) a" "rf_list F' = rf_list F" "\<And>b. rd_name (rf_dirent F' b) = rd_name (rf_dirent F b)"
      "take (fd_size fd) (file_content C F' a) = file_content C F a"
      "\<And>b. b \<in> set (rf_list F) \<Longrightarrow> b \<noteq> a \<Longrightarrow> file_content C F' b = file_content C F b"
      "\<And>x. x < fst (place (rf_heap F)) \<or> fst (place (rf_heap F)) + snd (place (rf_heap F)) \<le> x \<Longrightarrow>
        hc_byte C (rf_heap F') x = hc_byte C (rf_heap F) x" "place (rf_heap F') = place (rf_heap F)"
proof -
  note f = fd_okD [OF assms(1,2)]
  let ?p = "rd_data (rf_dirent F a)"
  have "0 < n" using assms(5) unfolding n_def by linarith
  then have add: "add32 count (upos fd) = n" "add32 (upos fd) count = n" "n < 2 ^ 30" "0 < n" "fd_size fd < n"
    using assms(4,5) by (simp_all add: n_def add32_def)
  have x: "ram_extend E fd a count F = Option.bind (hc_realloc C ?p n (rf_heap F)) (\<lambda>(ptr, h).
      case ptr of None \<Rightarrow> Some (False, fd, F\<lparr>rf_heap := h, rf_errno := - ENOMEM\<rparr>)
      | Some q \<Rightarrow> Some (True, fd\<lparr>fd_size := n\<rparr>, upd_dirent a (\<lambda>d. d\<lparr>rd_data := q, rd_size := n\<rparr>) (F\<lparr>rf_heap := h\<rparr>)))"
    unfolding ram_extend_def assms(3) add(1,2) using add(5) by simp
  have sz: "if ?p = 0 then fd_size fd = 0 else \<exists>m. (?p, m) \<in> live (rf_heap F) \<and> fd_size fd \<le> m"
    using f(3,7) by (simp add: entry_ok_def split: if_splits)
  show ?thesis
  proof (rule realloc_any [OF ram_okD(1) [OF assms(1)] add(4,3) sz])
    fix h assume "hc_realloc C ?p n (rf_heap F) = Some (None, h)" "ok h" "live h = live (rf_heap F)"
      "hc_byte C h = hc_byte C (rf_heap F)" "place h = place (rf_heap F)"
    then show ?thesis using full [of h] x by simp
  next
    fix q k h assume g: "hc_realloc C ?p n (rf_heap F) = Some (Some q, h)" "ok h" "n \<le> k" "(q, k) \<in> live h" "q \<noteq> 0"
      "\<And>r l. (r, l) \<in> live (rf_heap F) \<Longrightarrow> r \<noteq> ?p \<Longrightarrow> r \<noteq> q" "kept live place C (rf_heap F) ?p h"
      "\<And>i. i < fd_size fd \<Longrightarrow> i < n \<Longrightarrow> hc_byte C h (q + i) = hc_byte C (rf_heap F) (?p + i)"
    let ?F = "upd_dirent a (\<lambda>d. d\<lparr>rd_data := q, rd_size := n\<rparr>) (F\<lparr>rf_heap := h\<rparr>)"
    have blk: "\<exists>k. (b, k) \<in> live (rf_heap F)" if "b \<in> set (rf_list F)" for b using ram_okD(4) [OF assms(1) that] by (auto simp: entry_ok_def)
    have np: "b \<noteq> ?p" if "b \<in> set (rf_list F)" for b using ram_okD(5) [OF assms(1) f(2) that] by metis
    then have nq: "b \<noteq> q" if "b \<in> set (rf_list F)" for b using g(6) blk that by blast
    have dp: "rd_data (rf_dirent F b) \<noteq> ?p \<or> rd_data (rf_dirent F b) = 0" if "b \<in> set (rf_list F)" "b \<noteq> a" for b
      using ram_okD(6) [OF assms(1) that(1) f(2)] that(2) by (cases "rd_data (rf_dirent F b) = ?p") auto
    have dq: "rd_data (rf_dirent F b) \<noteq> q" if "b \<in> set (rf_list F)" "b \<noteq> a" for b
    proof (cases "rd_data (rf_dirent F b) = 0")
      case False
      have "entry_ok (live (rf_heap F)) (rf_dirent F b) b" by (rule ram_okD(4) [OF assms(1) that(1)])
      then obtain l where "(rd_data (rf_dirent F b), l) \<in> live (rf_heap F)" using False by (auto simp: entry_ok_def)
      then show ?thesis using g(6) dp [OF that] False by blast
    qed (use g(5) in simp)
    have "entry_ok (live h) (rf_dirent ?F b) b" if b: "b \<in> set (rf_list F)" for b
    proof (cases "b = a")
      case True
      obtain l where "(a, l) \<in> live (rf_heap F)" using blk [OF f(2)] by blast
      then have "(a, l) \<in> live h" using g(7) np [OF f(2)] by (auto simp: kept_def)
      then show ?thesis using True f(7) g(3,4,5) add(3) by (auto simp: entry_ok_def)
    next
      case False
      then show ?thesis using entry_kept [OF ram_okD(4) [OF assms(1) b] np [OF b] dp [OF b False] g(7)] by simp
    qed
    moreover have "file_name (rf_dirent ?F) = file_name (rf_dirent F)" by (auto simp: file_name_def)
    moreover have "place h = place (rf_heap F)" using g(7) by (simp add: kept_def)
    ultimately have ok: "ram_ok ok live place ?F"
      using assms(1) g(2) nq dq f(2) unfolding ram_ok_def by (auto split: if_splits)
    have d: "fd_ok ?F (fd\<lparr>fd_size := n\<rparr>) a" using assms(2) add(5) by (simp add: fd_ok_def)
    have t: "take (fd_size fd) (file_content C ?F a) = file_content C F a"
    proof -
      have "take (fd_size fd) (bytes_at C h q n) = bytes_at C h q (fd_size fd)" by (rule bytes_at_take) (use add(5) in simp)
      also have "\<dots> = bytes_at C (rf_heap F) ?p (fd_size fd)" by (rule bytes_at_cong) (use g(8) add(5) in simp)
      finally show ?thesis using f(3) by (simp add: file_content_def)
    qed
    have o: "file_content C ?F b = file_content C F b" if "b \<in> set (rf_list F)" "b \<noteq> a" for b
      by (rule content_kept [OF ram_okD(4) [OF assms(1) that(1)] dp [OF that]]) (use g(7) that(2) in simp_all)
    have e: "ram_extend E fd a count F = Some (True, fd\<lparr>fd_size := n\<rparr>, ?F)" using x g(1) by simp
    show ?thesis by (rule given [OF e ok d _ _ t o]) (use g(7) in \<open>auto simp: kept_def\<close>)
  qed
qed

lemma write_ok:
  assumes "ram_ok ok live place F" "fd_ok F fd a" "re_calls E = C" "upos fd + count < 2 ^ 30"
    and "buffer_ok (place (rf_heap F)) buf count"
  defines "c \<equiv> file_content C F a" and "bs \<equiv> bytes_at C (rf_heap F) buf count"
  obtains (full) F' where "dfs_ramfs_write E fd buf count F = Some (0, fd, F')" "ram_ok ok live place F'"
      "ram_files C F' = ram_files C F" "fd_ok F' fd a" "fd_size fd < upos fd + count" "rf_errno F' = - ENOMEM"
  | (written) fd' F' where "dfs_ramfs_write E fd buf count F = Some (int count, fd', F')" "ram_ok ok live place F'"
      "fd_ok F' fd' a" "fd_pos fd' = fd_pos fd + int count"
      "ram_files C F' = (ram_files C F)(file_name (rf_dirent F) a \<mapsto> overwrite (upos fd) bs c)"
proof -
  note f = fd_okD [OF assms(1,2)]
  have num: "s32 (add32 (upos fd) count) = fd_pos fd + int count" "s32 count = int count"
  proof -
    have l: "upos fd + count < 2 ^ 31" using assms(4) by simp
    then have "add32 (upos fd) count = upos fd + count" by (intro add32_eq) simp
    then show "s32 (add32 (upos fd) count) = fd_pos fd + int count" "s32 count = int count"
      using l f(5) by (simp_all add: s32_def)
  qed
  have copy: thesis if e: "ram_extend E fd a count F = Some (True, fd1, F1)" and F1: "ram_ok ok live place F1" "fd_ok F1 fd1 a"
      "upos fd + count \<le> fd_size fd1" "fd_pos fd1 = fd_pos fd" "rf_list F1 = rf_list F"
      "\<And>b. rd_name (rf_dirent F1 b) = rd_name (rf_dirent F b)" "bytes_at C (rf_heap F1) buf count = bs"
      "overwrite (upos fd) bs (file_content C F1 a) = overwrite (upos fd) bs c"
      "\<And>b. b \<in> set (rf_list F) \<Longrightarrow> b \<noteq> a \<Longrightarrow> file_content C F1 b = file_content C F b" for fd1 F1
  proof -
    note f1 = fd_okD [OF F1(1,2)]
    have up: "upos fd1 = upos fd" using F1(4) by (simp add: upos_def)
    have len: "length bs = count" by (simp add: bs_def)
    define h where "h = (if count > 0 then hc_store C (rd_data (rf_dirent F1 a) + upos fd) bs (rf_heap F1) else rf_heap F1)"
    let ?fd = "fd1\<lparr>fd_pos := fd_pos fd + int count\<rparr>" and ?F = "F1\<lparr>rf_heap := h\<rparr>"
    have "add32 (rd_data (rf_dirent F1 a)) (upos fd) = rd_data (rf_dirent F1 a) + upos fd" if "count > 0"
      by (rule data_add32 [OF F1(1) f1(2)]) (use that F1(3) f1(3) in linarith)
    then have w: "dfs_ramfs_write E fd buf count F = Some (int count, ?fd, ?F)"
      unfolding dfs_ramfs_write_def f(1) by (simp add: e Let_def up num F1(7) assms(3) h_def)
    have s: "ram_ok ok live place ?F \<and> file_content C ?F a = overwrite (upos fd) bs (file_content C F1 a) \<and>
      (\<forall>b\<in>set (rf_list F1). b \<noteq> a \<longrightarrow> file_content C ?F b = file_content C F1 b)"
    proof (cases "count > 0")
      case True
      then have "bs \<noteq> []" using len by auto
      have "upos fd + length bs \<le> rd_size (rf_dirent F1 a)" using F1(3) f1(3) len by simp
      from store_file [OF F1(1) f1(2) this \<open>bs \<noteq> []\<close>] show ?thesis using True by (simp add: h_def)
    qed (use F1(1) len in \<open>simp_all add: h_def overwrite_def\<close>)
    have "ram_files C ?F = (ram_files C F)(file_name (rf_dirent F) a \<mapsto> file_content C ?F a)"
      by (rule files_update [OF assms(1) f(2)]) (use s F1(5,6,9) in simp_all)
    moreover have "fd_ok ?F ?fd a" using F1(2,3) f(5) by (simp add: fd_ok_def)
    ultimately show thesis using written [OF w] s F1(8) by simp
  qed
  show thesis
  proof (cases "fd_size fd < upos fd + count")
    case False
    then have "ram_extend E fd a count F = Some (True, fd, F)" using assms(4) by (simp add: ram_extend_def add32_def)
    then show thesis by (rule copy) (use assms(1,2) False in \<open>simp_all add: bs_def c_def\<close>)
  next
    case True
    show thesis
    proof (rule extend_ok [OF assms(1-4) True])
      fix h assume h: "ram_extend E fd a count F = Some (False, fd, F\<lparr>rf_heap := h, rf_errno := - ENOMEM\<rparr>)" "ok h"
        "live h = live (rf_heap F)" "hc_byte C h = hc_byte C (rf_heap F)" "place h = place (rf_heap F)"
      let ?F = "F\<lparr>rf_heap := h, rf_errno := - ENOMEM\<rparr>"
      have "ram_ok ok live place ?F" using assms(1) h(2,3,5) by (simp add: ram_ok_def)
      moreover have "ram_files C ?F = ram_files C F"
        by (rule files_same) (simp_all add: file_content_def bytes_at_def h(4))
      ultimately show thesis using full [of ?F] h(1) True assms(2) f(1) by (simp add: dfs_ramfs_write_def fd_ok_def)
    next
      fix F' assume g: "ram_extend E fd a count F = Some (True, fd\<lparr>fd_size := upos fd + count\<rparr>, F')" "ram_ok ok live place F'"
        "fd_ok F' (fd\<lparr>fd_size := upos fd + count\<rparr>) a" "rf_list F' = rf_list F"
        "\<And>b. rd_name (rf_dirent F' b) = rd_name (rf_dirent F b)"
        "take (fd_size fd) (file_content C F' a) = file_content C F a"
        "\<And>b. b \<in> set (rf_list F) \<Longrightarrow> b \<noteq> a \<Longrightarrow> file_content C F' b = file_content C F b"
        "\<And>x. x < fst (place (rf_heap F)) \<or> fst (place (rf_heap F)) + snd (place (rf_heap F)) \<le> x \<Longrightarrow>
          hc_byte C (rf_heap F') x = hc_byte C (rf_heap F) x"
      have "bytes_at C (rf_heap F') buf count = bs"
        unfolding bs_def by (rule bytes_at_cong, rule g(8)) (use assms(5) in \<open>auto simp: buffer_ok_def\<close>)
      moreover have "overwrite (upos fd) bs (file_content C F' a) = overwrite (upos fd) bs c"
      proof -
        have len: "length bs = count" "length (file_content C F a) = fd_size fd" using f(3) by (simp_all add: bs_def file_content_def)
        have "length (file_content C F' a) = upos fd + count"
          using fd_okD(3) [OF g(2,3)] by (simp add: file_content_def)
        moreover have "take (upos fd) (file_content C F a) = take (upos fd) (file_content C F' a)"
          unfolding g(6) [symmetric] using f(6) by (simp add: min_def)
        ultimately show ?thesis using len True by (simp add: overwrite_def c_def)
      qed
      ultimately show thesis using copy [OF g(1-3)] g(4,5,7) by simp
    qed
  qed
qed

section \<open>The directory\<close>

lemma alloc_any:
  assumes "ok h" "n < 2 ^ 31"
  obtains (full) h' where "hc_alloc C n h = Some (None, h')" "ok h'" "live h' = live h" "hc_byte C h' = hc_byte C h" "place h' = place h"
  | (given) q k h' where "hc_alloc C n h = Some (Some q, h')" "ok h'" "(q, k) \<in> live h'" "q \<noteq> 0" "kept live place C h 0 h'"
    "\<And>r l. (r, l) \<in> live h \<Longrightarrow> r \<noteq> q"
  using alloc_ok [OF assms]
proof (elim disjE exE conjE)
  fix h' assume a: "hc_alloc C n h = Some (None, h')" "ok h'" "live h' = live h"
  then show thesis using full alloc_bytes [OF a(1)] alloc_place [OF a(1)] by blast
next
  fix q k h' assume a: "hc_alloc C n h = Some (Some q, h')" "ok h'" "(q, k) \<notin> live h" "live h' = insert (q, k) (live h)"
  have l: "(q, k) \<in> live h'" using a(4) by simp
  have "r \<noteq> q" if "(r, l) \<in> live h" for r l using live_unique [OF a(2) l, of l] that a(3,4) by auto
  moreover have "kept live place C h 0 h'" using a(4) alloc_bytes [OF a(1)] alloc_place [OF a(1)] by (simp add: kept_def)
  ultimately show thesis using given [OF a(1,2) l live_null [OF a(2) l]] by blast
qed

lemma free_kept:
  assumes "ok h" "(p, m) \<in> live h"
  obtains h' where "hc_free C p h = Some h'" "ok h'" "live h' = live h - {(p, m)}" "kept live place C h p h'"
proof -
  obtain h' where h: "hc_free C p h = Some h'" "ok h'" "live h' = live h - {(p, m)}" using release_ok [OF assms] by blast
  then have "kept live place C h p h'" using free_bytes [OF h(1)] free_place [OF h(1)] by (auto simp: kept_def)
  with that h show thesis by blast
qed

lemma create_ok:
  assumes "ram_ok ok live place F" "re_calls E = C" "find_file F n = None"
    and "n = skip_slashes path" "n \<noteq> []" "length n < 32" "CHR 0x00 \<notin> set n"
  obtains (full) F' where "ram_create E path F = Some (None, F')" "ram_ok ok live place F'" "ram_files C F' = ram_files C F"
    "rf_root F' = rf_root F"
  | (made) a F' where "ram_create E path F = Some (Some a, F')" "ram_ok ok live place F'" "a \<in> set (rf_list F')"
    "rd_size (rf_dirent F' a) = 0" "file_name (rf_dirent F') a = n" "ram_files C F' = (ram_files C F)(n \<mapsto> [])"
    "rf_root F' = rf_root F"
proof -
  have hn: "hd n \<noteq> CHR ''/''" using skip_slashes_hd assms(4,5) by simp
  note nm = name_array_ok [OF assms(5-7) hn]
  show thesis
  proof (rule alloc_any [OF ram_okD(1) [OF assms(1)], of 52])
    fix h assume h: "hc_alloc C 52 (rf_heap F) = Some (None, h)" "ok h" "live h = live (rf_heap F)"
      "hc_byte C h = hc_byte C (rf_heap F)" "place h = place (rf_heap F)"
    have "ram_files C (F\<lparr>rf_heap := h\<rparr>) = ram_files C F" by (rule files_same) (simp_all add: file_content_def bytes_at_def h(4))
    then show thesis using full [of "F\<lparr>rf_heap := h\<rparr>"] ram_ok_heap [OF assms(1) h(2,3,5)] h(1) assms(2) by (simp add: ram_create_def)
  next
    fix a k h assume h: "hc_alloc C 52 (rf_heap F) = Some (Some a, h)" "ok h" "(a, k) \<in> live h" "a \<noteq> 0"
      "kept live place C (rf_heap F) 0 h" "\<And>r l. (r, l) \<in> live (rf_heap F) \<Longrightarrow> r \<noteq> a"
    let ?D = "(rf_dirent F)(a := \<lparr>rd_name = name_array n, rd_data = 0, rd_size = 0\<rparr>)"
    let ?F = "F\<lparr>rf_heap := h, rf_list := a # rf_list F, rf_dirent := ?D\<rparr>"
    have e: "entry_ok (live (rf_heap F)) (rf_dirent F b) b" if "b \<in> set (rf_list F)" for b by (rule ram_okD(4) [OF assms(1) that])
    have ne: "b \<noteq> a" "b \<noteq> 0" "rd_data (rf_dirent F b) \<noteq> a" if "b \<in> set (rf_list F)" for b
      using e [OF that] h(4,6) live_null [OF ram_okD(1) [OF assms(1)]] by (auto simp: entry_ok_def split: if_splits)
    have na: "a \<notin> set (rf_list F)" using ne(1) by blast
    have en: "entry_ok (live h) (?D b) b" if "b \<in> set (a # rf_list F)" for b
    proof (cases "b = a")
      case True
      then show ?thesis using h(3) nm(1) hn by (auto simp: entry_ok_def)
    next
      case False
      then have b: "b \<in> set (rf_list F)" using that by simp
      have "entry_ok (live h) (rf_dirent F b) b" by (rule entry_kept [OF e [OF b] ne(2) [OF b] _ h(5)]) blast
      then show ?thesis using False by simp
    qed
    have fn: "map (file_name ?D) (rf_list F) = map (file_name (rf_dirent F)) (rf_list F)" using na by (auto simp: file_name_def)
    have fa: "file_name ?D a = n" using nm(2) hn by (simp add: file_name_def)
    have "n \<notin> set (map (file_name (rf_dirent F)) (rf_list F))" using assms(3) by (auto simp: find_file_def find_None_iff)
    then have dn: "distinct (map (file_name ?D) (a # rf_list F))"
      unfolding list.map fn fa using ram_okD(7) [OF assms(1)] by simp
    have pl: "place h = place (rf_heap F)" using h(5) by (simp add: kept_def)
    have ok: "ram_ok ok live place ?F"
      unfolding ram_ok_def using h(2,4) ram_okD(2,3,5,6) [OF assms(1)] na ne en dn pl by auto
    have "ram_files C ?F = (ram_files C F)(n \<mapsto> [])"
    proof
      fix x
      have ff: "find_file ?F x = (if x = n then Some a else find_file F x)"
      proof -
        have "List.find (\<lambda>b. file_name ?D b = x) (rf_list F) = List.find (\<lambda>b. file_name (rf_dirent F) b = x) (rf_list F)"
          by (rule find_cong) (use na in \<open>auto simp: file_name_def\<close>)
        then show ?thesis using fa by (auto simp: find_file_def)
      qed
      have "file_content C ?F b = file_content C F b" if "b \<in> set (rf_list F)" for b
        by (rule content_kept [OF e [OF that] _, of 0]) (use h(5) that na in auto)
      then show "ram_files C ?F x = ((ram_files C F)(n \<mapsto> [])) x"
        using find_file_some [of F x] by (cases "find_file F x") (auto simp: ram_files_def ff file_content_def bytes_at_def)
    qed
    moreover have "ram_create E path F = Some (Some a, ?F)" using h(1) assms(2,4) by (simp add: ram_create_def)
    ultimately show thesis using made [of a ?F] ok fa by simp
  qed simp
qed

lemma truncate_ok:
  assumes "ram_ok ok live place F" "re_calls E = C" "a \<in> set (rf_list F)"
  obtains F' where "ram_truncate E a F = Some F'" "ram_ok ok live place F'" "rf_list F' = rf_list F"
    "rd_size (rf_dirent F' a) = 0" "ram_files C F' = (ram_files C F)(file_name (rf_dirent F) a \<mapsto> [])" "rf_root F' = rf_root F"
proof -
  let ?p = "rd_data (rf_dirent F a)"
  note e = ram_okD(4) [OF assms(1)]
  have "\<exists>h. ok h \<and> kept live place C (rf_heap F) ?p h \<and>
    ram_truncate E a F = Some (F\<lparr>rf_heap := h, rf_dirent := (rf_dirent F)(a := (rf_dirent F a)\<lparr>rd_data := 0, rd_size := 0\<rparr>)\<rparr>)"
  proof (cases "?p = 0")
    case True
    have "kept live place C (rf_heap F) 0 (rf_heap F)" by (simp add: kept_def)
    then show ?thesis using True ram_okD(1) [OF assms(1)]
      by (intro exI [of _ "rf_heap F"]) (cases "rf_dirent F a", simp add: ram_truncate_def)
  next
    case False
    then obtain m where "(?p, m) \<in> live (rf_heap F)" using e [OF assms(3)] by (auto simp: entry_ok_def)
    from free_kept [OF ram_okD(1) [OF assms(1)] this] obtain h where "hc_free C ?p (rf_heap F) = Some h" "ok h"
      "kept live place C (rf_heap F) ?p h" by blast
    then show ?thesis
      using False by (intro exI [of _ h]) (cases "rf_dirent F a", simp add: ram_truncate_def Let_def assms(2))
  qed
  then obtain h where h: "ok h" "kept live place C (rf_heap F) ?p h" and
    t: "ram_truncate E a F = Some (F\<lparr>rf_heap := h, rf_dirent := (rf_dirent F)(a := (rf_dirent F a)\<lparr>rd_data := 0, rd_size := 0\<rparr>)\<rparr>)" by blast
  let ?F = "F\<lparr>rf_heap := h, rf_dirent := (rf_dirent F)(a := (rf_dirent F a)\<lparr>rd_data := 0, rd_size := 0\<rparr>)\<rparr>"
  have np: "b \<noteq> ?p" if "b \<in> set (rf_list F)" for b using ram_okD(5) [OF assms(1,3) that] by metis
  have dp: "rd_data (rf_dirent F b) \<noteq> ?p \<or> rd_data (rf_dirent F b) = 0" if "b \<in> set (rf_list F)" "b \<noteq> a" for b
    using ram_okD(6) [OF assms(1) that(1) assms(3)] that(2) by (cases "rd_data (rf_dirent F b) = ?p") auto
  have b0: "b \<noteq> 0" if "b \<in> set (rf_list F)" for b
    using e [OF that] live_null [OF ram_okD(1) [OF assms(1)]] by (auto simp: entry_ok_def)
  have "entry_ok (live h) (rf_dirent ?F b) b" if b: "b \<in> set (rf_list F)" for b
  proof (cases "b = a")
    case True
    obtain l where "(a, l) \<in> live (rf_heap F)" using e [OF assms(3)] by (auto simp: entry_ok_def)
    then have "(a, l) \<in> live h" using h(2) np [OF assms(3)] by (auto simp: kept_def)
    then show ?thesis using True e [OF assms(3)] by (auto simp: entry_ok_def)
  next
    case False
    then show ?thesis using entry_kept [OF e [OF b] np [OF b] dp [OF b False] h(2)] by simp
  qed
  moreover have "file_name (rf_dirent ?F) = file_name (rf_dirent F)" by (auto simp: file_name_def)
  moreover have "place h = place (rf_heap F)" using h(2) by (simp add: kept_def)
  ultimately have ok: "ram_ok ok live place ?F"
    using ram_okD [OF assms(1)] h(1) b0 unfolding ram_ok_def by (auto split: if_splits)
  have "ram_files C ?F = (ram_files C F)(file_name (rf_dirent F) a \<mapsto> file_content C ?F a)"
  proof (rule files_update [OF assms(1,3)])
    show "file_content C ?F b = file_content C F b" if "b \<in> set (rf_list F)" "b \<noteq> a" for b
      by (rule content_kept [OF e [OF that(1)] dp [OF that]]) (use h(2) that in simp_all)
  qed simp_all
  then have fs: "ram_files C ?F = (ram_files C F)(file_name (rf_dirent F) a \<mapsto> [])" by (simp add: file_content_def bytes_at_def)
  show thesis by (rule that [OF t ok _ _ fs]) simp_all
qed

text \<open>An entry leaves the directory with both of its blocks.\<close>

lemma unlink_ok:
  assumes "ram_ok ok live place F" "re_calls E = C" "rf_fs_data F i = rf_addr F" "CHR 0x00 \<notin> set path"
    and "n = skip_slashes path" "n \<noteq> []" "find_file F n = Some a"
  obtains F' where "dfs_ramfs_unlink E i path F = Some (0, F')" "ram_ok ok live place F'"
    "ram_files C F' = (ram_files C F)(n := None)" "rf_fs_data F' = rf_fs_data F" "rf_addr F' = rf_addr F"
proof -
  let ?p = "rd_data (rf_dirent F a)" and ?L = "removeAll a (rf_list F)"
  note e = ram_okD(4) [OF assms(1)] and k = ram_okD(1) [OF assms(1)]
  have a: "a \<in> set (rf_list F)" "file_name (rf_dirent F) a = n" using find_file_some [OF assms(7)] by simp_all
  have nr: "a \<noteq> rf_root F" using root_no_entry [OF assms(1)] a(1) by metis
  have ap: "a \<noteq> ?p" using ram_okD(5) [OF assms(1) a(1) a(1)] by metis
  obtain l where l: "(a, l) \<in> live (rf_heap F)" using e [OF a(1)] by (auto simp: entry_ok_def)
  obtain h1 where h1: "(if ?p \<noteq> 0 then hc_free C ?p (rf_heap F) else Some (rf_heap F)) = Some h1" "ok h1"
    "kept live place C (rf_heap F) ?p h1"
  proof (cases "?p = 0")
    case True
    then show thesis using that [of "rf_heap F"] k by (simp add: kept_def)
  next
    case False
    then obtain m where "(?p, m) \<in> live (rf_heap F)" using e [OF a(1)] by (auto simp: entry_ok_def)
    from free_kept [OF k this] False that show thesis by metis
  qed
  have "(a, l) \<in> live h1" using l h1(3) ap by (auto simp: kept_def)
  from free_kept [OF h1(2) this] obtain h2 where h2: "hc_free C a h1 = Some h2" "ok h2" "kept live place C h1 a h2" by metis
  let ?F = "F\<lparr>rf_list := ?L, rf_heap := h2\<rparr>" and ?F1 = "F\<lparr>rf_list := ?L, rf_heap := h1\<rparr>"
  have r: "dfs_ramfs_unlink E i path F = Some (0, ?F)"
    using lookup_ok [OF assms(1,4)] assms(2,3,5-7) nr h1(1) h2(1)
    by (simp add: dfs_ramfs_unlink_def ramfs_of_def Let_def split: if_splits)
  have o: "b \<in> set (rf_list F)" "b \<noteq> ?p" "b \<noteq> a" "rd_data (rf_dirent F b) \<noteq> ?p \<or> rd_data (rf_dirent F b) = 0"
    "rd_data (rf_dirent F b) \<noteq> a" if "b \<in> set ?L" for b
  proof -
    show b: "b \<in> set (rf_list F)" and n: "b \<noteq> a" using that by simp_all
    show "b \<noteq> ?p" using ram_okD(5) [OF assms(1) a(1) b] by metis
    show "rd_data (rf_dirent F b) \<noteq> ?p \<or> rd_data (rf_dirent F b) = 0"
      using ram_okD(6) [OF assms(1) b a(1)] n by (cases "rd_data (rf_dirent F b) = ?p") auto
    show "rd_data (rf_dirent F b) \<noteq> a" by (rule ram_okD(5) [OF assms(1) b a(1)])
  qed
  have e1: "entry_ok (live h1) (rf_dirent F b) b" if "b \<in> set ?L" for b
    by (rule entry_kept [OF e [OF o(1)] o(2) o(4) h1(3)]) (rule that)+
  have e2: "entry_ok (live h2) (rf_dirent F b) b" if "b \<in> set ?L" for b
    using entry_kept [OF e1 [OF that] o(3) [OF that] _ h2(3)] o(5) [OF that] by simp
  have pl: "place h2 = place (rf_heap F)" using h1(3) h2(3) by (simp add: kept_def)
  have "distinct (map (file_name (rf_dirent F)) ?L)" using ram_okD(7) [OF assms(1)] by (simp add: distinct_map removeAll_filter_not_eq inj_on_def)
  then have ok: "ram_ok ok live place ?F"
    using ram_okD(2,3,5,6) [OF assms(1)] h2(2) e2 pl unfolding ram_ok_def by (auto simp: distinct_removeAll)
  have c: "file_content C ?F b = file_content C F b" if "b \<in> set ?L" for b
  proof -
    have "file_content C ?F1 b = file_content C F b"
      by (rule content_kept [OF e [OF o(1) [OF that]] o(4) [OF that]]) (use h1(3) in simp_all)
    moreover have "file_content C ?F b = file_content C ?F1 b"
      by (rule content_kept [of _ _ a]) (use e1 [OF that] o(5) [OF that] h2(3) in simp_all)
    ultimately show ?thesis by simp
  qed
  have "ram_files C ?F = (ram_files C F)(n := None)"
  proof
    fix x
    have nm: "b = a" if "b \<in> set (rf_list F)" "file_name (rf_dirent F) b = n" for b
      using find_file_name [OF ram_okD(7) [OF assms(1)] that(1)] that(2) assms(7) by simp
    have "List.find (\<lambda>b. file_name (rf_dirent F) b = x) (removeAll a ks) =
        (if x = n then None else List.find (\<lambda>b. file_name (rf_dirent F) b = x) ks)" if "set ks \<subseteq> set (rf_list F)" for ks
      using that nm a(2) by (induction ks) auto
    then have ff: "find_file ?F x = (if x = n then None else find_file F x)" by (simp add: find_file_def)
    show "ram_files C ?F x = ((ram_files C F)(n := None)) x"
    proof (cases "find_file F x")
      case (Some b)
      then have "b \<in> set ?L" if "x \<noteq> n" using find_file_some [OF Some] that a(2) by auto
      then show ?thesis using Some c by (simp add: ram_files_def ff)
    qed (simp add: ram_files_def ff)
  qed
  with that [OF r ok] show thesis by simp
qed

section \<open>Opening\<close>

lemma fd_ok_open:
  assumes "ram_ok ok live place F" "a \<in> set (rf_list F)"
  shows "fd_ok F (fd\<lparr>fd_data := Driver_data a, fd_size := rd_size (rf_dirent F a),
    fd_pos := (if b then s32 (rd_size (rf_dirent F a)) else 0)\<rparr>) a"
  using assms(2) ram_okD(4) [OF assms] by (simp add: fd_ok_def entry_ok_def s32_def)

lemma open_file_ok:
  fixes flags :: u32
  assumes "ram_ok ok live place F" "re_calls E = C" "CHR 0x00 \<notin> set path"
    and "n = skip_slashes path" "n \<noteq> []" "length n < 32"
  defines "mayc \<equiv> flags AND re_O_CREAT E \<noteq> 0 \<or> flags AND re_O_WRONLY E \<noteq> 0"
  shows "\<exists>r F'. ram_open_file E flags path F = Some (r, F') \<and> ram_ok ok live place F' \<and>
    (case r of
       Inr a \<Rightarrow> a \<in> set (rf_list F') \<and> file_name (rf_dirent F') a = n \<and>
         ram_files C F' = (ram_files C F)(n \<mapsto> opened (flags AND re_O_TRUNC E \<noteq> 0) n (ram_files C F))
     | Inl e \<Rightarrow> ram_files C F' = ram_files C F \<and> ram_files C F n = None \<and> e = (if mayc then - ENOMEM else - ENOENT))"
proof -
  have nn: "CHR 0x00 \<notin> set n" using skip_slashes_set [OF assms(3)] assms(4) by simp
  have lk: "dfs_ramfs_lookup path F = Some (map_option (\<lambda>a. (a, rd_size (rf_dirent F a))) (find_file F n))"
    using lookup_ok [OF assms(1,3)] assms(4,5) by simp
  have fin: "\<exists>r F'. (if flags AND re_O_TRUNC E \<noteq> 0 then map_option (Pair (Inr a)) (ram_truncate E a F1) else Some (Inr a, F1)) =
        Some (r, F') \<and> ram_ok ok live place F' \<and> r = Inr a \<and> a \<in> set (rf_list F') \<and> file_name (rf_dirent F') a = n \<and>
      ram_files C F' = (ram_files C F)(n \<mapsto> opened (flags AND re_O_TRUNC E \<noteq> 0) n (ram_files C F))"
    if F1: "ram_ok ok live place F1" "a \<in> set (rf_list F1)" "file_name (rf_dirent F1) a = n"
      "ram_files C F1 = (ram_files C F)(n \<mapsto> opened False n (ram_files C F))" for a F1
  proof (cases "flags AND re_O_TRUNC E = 0")
    case True
    then show ?thesis using F1 by auto
  next
    case False
    obtain F2 where t: "ram_truncate E a F1 = Some F2" "ram_ok ok live place F2" "rf_list F2 = rf_list F1"
      "ram_files C F2 = (ram_files C F1)(file_name (rf_dirent F1) a \<mapsto> [])"
      using truncate_ok [OF F1(1) assms(2) F1(2)] by metis
    have "rd_name (rf_dirent F2 a) = rd_name (rf_dirent F1 a)"
      using t(1) by (auto simp: ram_truncate_def Let_def Some_bind_iff split: if_splits)
    then have "file_name (rf_dirent F2) a = n" using F1(3) by (simp add: file_name_def)
    then show ?thesis using False t F1 by (simp add: opened_def)
  qed
  show ?thesis
  proof (cases "find_file F n")
    case (Some a)
    then have a: "a \<in> set (rf_list F)" "file_name (rf_dirent F) a = n" using find_file_some by blast+
    have nr: "a \<noteq> rf_root F" using root_no_entry [OF assms(1)] a(1) by metis
    have "ram_files C F = (ram_files C F)(n \<mapsto> opened False n (ram_files C F))" by (simp add: ram_files_def opened_def Some fun_upd_idem)
    from fin [OF assms(1) a this] show ?thesis using lk Some nr by (auto simp: ram_open_file_def)
  next
    case None
    then have fn: "ram_files C F n = None" by (simp add: ram_files_def)
    show ?thesis
    proof (cases mayc)
      case False
      then show ?thesis using lk None assms(1) fn by (simp add: ram_open_file_def mayc_def)
    next
      case True
      show ?thesis
      proof (rule create_ok [OF assms(1,2) None assms(4-6) nn])
        fix F1 assume c: "ram_create E path F = Some (None, F1)" "ram_ok ok live place F1" "ram_files C F1 = ram_files C F"
        then show ?thesis using lk None True fn by (auto simp: ram_open_file_def mayc_def)
      next
        fix a F1 assume c: "ram_create E path F = Some (Some a, F1)" "ram_ok ok live place F1" "a \<in> set (rf_list F1)"
          "file_name (rf_dirent F1) a = n" "ram_files C F1 = (ram_files C F)(n \<mapsto> [])"
        have "ram_files C F1 = (ram_files C F)(n \<mapsto> opened False n (ram_files C F))" using c(5) fn by (simp add: opened_def)
        from fin [OF c(2-4) this] show ?thesis using lk None True c(1) by (auto simp: ram_open_file_def mayc_def)
      qed
    qed
  qed
qed

lemma open_ok:
  assumes "ram_ok ok live place F" "re_calls E = C" "CHR 0x00 \<notin> set path"
    and "n = skip_slashes path" "n \<noteq> []" "length n < 32"
    and "fd_data fd = Fs_data i" "rf_fs_data F i = rf_addr F" "fd_path fd = Some (blk, path)" "fd_flags fd AND re_O_DIRECTORY E = 0"
  shows "\<exists>r fd' F'. dfs_ramfs_open E fd F = Some (r, fd', F') \<and> ram_ok ok live place F' \<and>
    (if r = 0 then (\<exists>a. fd_ok F' fd' a \<and> file_name (rf_dirent F') a = n) \<and>
         ram_files C F' = (ram_files C F)(n \<mapsto> opened (fd_flags fd AND re_O_TRUNC E \<noteq> 0) n (ram_files C F))
     else ram_files C F' = ram_files C F \<and> ram_files C F n = None \<and>
       r = (if fd_flags fd AND re_O_CREAT E \<noteq> 0 \<or> fd_flags fd AND re_O_WRONLY E \<noteq> 0 then - ENOMEM else - ENOENT))"
proof -
  from open_file_ok [OF assms(1-6), of "fd_flags fd"] obtain r F' where r: "ram_open_file E (fd_flags fd) path F = Some (r, F')"
    "ram_ok ok live place F'" and c: "case r of
       Inr a \<Rightarrow> a \<in> set (rf_list F') \<and> file_name (rf_dirent F') a = n \<and>
         ram_files C F' = (ram_files C F)(n \<mapsto> opened (fd_flags fd AND re_O_TRUNC E \<noteq> 0) n (ram_files C F))
     | Inl e \<Rightarrow> ram_files C F' = ram_files C F \<and> ram_files C F n = None \<and>
         e = (if fd_flags fd AND re_O_CREAT E \<noteq> 0 \<or> fd_flags fd AND re_O_WRONLY E \<noteq> 0 then - ENOMEM else - ENOENT)" by blast
  have o: "dfs_ramfs_open E fd F = (case r of Inl e \<Rightarrow> Some (e, fd, F') | Inr a \<Rightarrow>
      Some (0, fd\<lparr>fd_data := Driver_data a, fd_size := rd_size (rf_dirent F' a),
        fd_pos := (if fd_flags fd AND re_O_APPEND E \<noteq> 0 then s32 (rd_size (rf_dirent F' a)) else 0)\<rparr>, F'))"
    using assms(7-10) r(1) by (simp add: dfs_ramfs_open_def ramfs_of_def Let_def split: sum.split)
  show ?thesis
  proof (cases r)
    case (Inl e)
    then show ?thesis using o c r(2) by (simp split: if_splits)
  next
    case (Inr a)
    then have "fd_ok F' (fd\<lparr>fd_data := Driver_data a, fd_size := rd_size (rf_dirent F' a),
        fd_pos := (if fd_flags fd AND re_O_APPEND E \<noteq> 0 then s32 (rd_size (rf_dirent F' a)) else 0)\<rparr>) a"
      using fd_ok_open [OF r(2)] c by simp
    then show ?thesis using o c r(2) Inr by auto
  qed
qed

section \<open>Renaming\<close>

text \<open>The name is stored with its leading slash, and a lookup drops the slashes of the path: a file that
  has been renamed is found neither under its old name nor under its new one.\<close>

lemma rename_hides:
  assumes "ram_ok ok live place F" "rf_fs_data F i = rf_addr F" "CHR 0x00 \<notin> set old" "CHR 0x00 \<notin> set m"
    and "m \<noteq> []" "hd m \<noteq> CHR ''/''" "find_file F m = None" "skip_slashes old \<noteq> []" "find_file F (skip_slashes old) = Some a"
  shows "\<exists>F'. dfs_ramfs_rename i (Some old) (Some (CHR ''/'' # m)) F = Some (0, F') \<and>
    dfs_ramfs_lookup (CHR ''/'' # m) F' = Some None \<and> dfs_ramfs_lookup old F' = Some None"
proof -
  let ?new = "CHR ''/'' # m"
  let ?F = "upd_dirent a (\<lambda>d. d\<lparr>rd_name := name_array ?new\<rparr>) F"
  have sk: "skip_slashes ?new = m" using assms(5,6) by (cases m) (simp_all add: skip_slashes_def)
  have a: "a \<in> set (rf_list F)" "file_name (rf_dirent F) a = skip_slashes old" using find_file_some [OF assms(9)] by simp_all
  have "CHR 0x00 \<notin> set ?new" using assms(4) by simp
  from lookup_ok [OF assms(1) this] lookup_ok [OF assms(1,3,8)]
  have r: "dfs_ramfs_rename i (Some old) (Some ?new) F = Some (0, ?F)"
    using assms(2,5,7,9) sk by (simp add: dfs_ramfs_rename_def ramfs_of_def)
  have gone: "ram_scan (rf_dirent ?F) s ks = Some None"
    if "set ks \<subseteq> set (rf_list F)" "s \<noteq> []" "hd s \<noteq> CHR ''/''" "CHR 0x00 \<notin> set s"
      "\<And>b. b \<in> set (rf_list F) \<Longrightarrow> b \<noteq> a \<Longrightarrow> file_name (rf_dirent F) b \<noteq> s" for s ks
    using that(1)
  proof (induction ks)
    case (Cons b ks)
    have "name_eq (rd_name (rf_dirent ?F b)) s = Some False"
    proof (cases "b = a")
      case True
      then show ?thesis using that(2,3) by (cases s) (simp_all add: name_array_def numeral_eq_Suc)
    next
      case False
      have "CHR 0x00 \<in> set (rd_name (rf_dirent F b))"
        using ram_okD(4) [OF assms(1), of b] Cons.prems by (auto simp: entry_ok_def fname_ok_def)
      from name_eq_ok [OF this that(4)] that(5) [of b] False Cons.prems show ?thesis by (simp add: file_name_def)
    qed
    then show ?case using Cons by simp
  qed simp
  have "dfs_ramfs_lookup ?new ?F = Some None"
    using gone [of "rf_list F" m] assms(4-7) sk by (simp add: dfs_ramfs_lookup_def find_file_def find_None_iff)
  moreover have "dfs_ramfs_lookup old ?F = Some None"
  proof -
    have "file_name (rf_dirent F) b \<noteq> skip_slashes old" if "b \<in> set (rf_list F)" "b \<noteq> a" for b
      using find_file_name [OF ram_okD(7) [OF assms(1)] that(1)] that(2) assms(9) by auto
    then show ?thesis
      using gone [of "rf_list F" "skip_slashes old"] skip_slashes_hd [OF assms(8)] skip_slashes_set [OF assms(3)] assms(8)
      by (simp add: dfs_ramfs_lookup_def)
  qed
  ultimately show ?thesis using r by blast
qed

end

text \<open>A descriptor keeps the size it saw when it was opened. When the file has become longer through another
  one, a write that passes the old size cuts the file.\<close>

lemma stale_size_cuts:
  assumes "fd_size fd < upos fd + count" "upos fd + count < 2 ^ 32" "upos fd + count < rd_size (rf_dirent F a)"
    "hc_realloc (re_calls E) (rd_data (rf_dirent F a)) (upos fd + count) (rf_heap F) = Some (Some q, h)" "fd_node fd = Some a"
  shows "\<exists>fd' F'. dfs_ramfs_write E fd buf count F = Some (s32 count, fd', F') \<and>
    rd_size (rf_dirent F' a) < rd_size (rf_dirent F a)"
proof -
  have "add32 count (upos fd) = upos fd + count" "add32 (upos fd) count = upos fd + count"
    using assms(2) by (simp_all add: add32_def)
  then have "ram_extend E fd a count F = Some (True, fd\<lparr>fd_size := upos fd + count\<rparr>,
      upd_dirent a (\<lambda>d. d\<lparr>rd_data := q, rd_size := upos fd + count\<rparr>) (F\<lparr>rf_heap := h\<rparr>))"
    using assms(1,4) by (simp add: ram_extend_def)
  then show ?thesis using assms(3,5) by (simp add: dfs_ramfs_write_def Let_def)
qed

end
