(* ===== verification/Ramfs_Props.thy ===== *)
theory Ramfs_Props
  imports Ramfs_Inv Memheap_Props
begin

text \<open>
  The property of the file system in memory, on a memory heap object, with an instance: a new ramfs in a
  heap of 4096 bytes.
\<close>

definition ram_inv :: "rt_memheap dfs_ramfs \<Rightarrow> bool" where
  "ram_inv F \<longleftrightarrow> ram_ok mh_ok mh_in_use mh_place F"

abbreviation files :: "rt_memheap dfs_ramfs \<Rightarrow> string \<Rightarrow> u8 list option" where
  "files \<equiv> ram_files memheap_calls"

definition demo_env :: "rt_memheap ram_env" where
  "demo_env = \<lparr>re_calls = memheap_calls, re_O_DIRECTORY = 0x200000, re_O_CREAT = 0x40, re_O_WRONLY = 1, re_O_TRUNC = 0x200,
     re_O_APPEND = 0x400\<rparr>"

text \<open>The ramfs as \<open>dfs_ramfs_create\<close> leaves it, mounted as the file system number 1.\<close>

definition demo_ramfs :: "rt_memheap dfs_ramfs" where
  "demo_ramfs = snd (dfs_ramfs_mount 1 0x1ffff000 (the (dfs_ramfs_create (\<lambda>_ _. (0, demo_mheap)) 160 108 0x1ffff000 4256)))"

definition demo_file :: dfs_fd where
  "demo_file = zero_fd\<lparr>fd_data := Fs_data 1, fd_path := Some (0x100, ''/log''), fd_flags := 0x41\<rparr>"

lemma demo_ramfs_values:
  "rf_heap demo_ramfs = demo_mheap" "rf_list demo_ramfs = []" "rf_root demo_ramfs = 0x1ffff06c" "rf_addr demo_ramfs = 0x1ffff000"
  "rf_fs_data demo_ramfs 1 = 0x1ffff000"
  by (simp_all add: demo_ramfs_def dfs_ramfs_create_def dfs_ramfs_mount_def)

lemma demo_ramfs_inv: "ram_inv demo_ramfs" "files demo_ramfs = Map.empty"
  using demo_mheap_ok(1)
  by (auto simp: ram_inv_def ram_ok_def demo_ramfs_values mh_place_def demo_mheap_def ram_files_def find_file_def)

lemma content_of:
  assumes "ram_inv F" "fd_ok F fd a" "file_name (rf_dirent F) a = n"
  shows "files F n = Some (file_content memheap_calls F a)" "length (file_content memheap_calls F a) = fd_size fd"
proof -
  have inv: "ram_ok mh_ok mh_in_use mh_place F" using assms(1) by (simp add: ram_inv_def)
  show "files F n = Some (file_content memheap_calls F a)" "length (file_content memheap_calls F a) = fd_size fd"
    using mhf.fd_okD(2,3) [OF inv assms(2)] find_file_name [OF mhf.ram_okD(7) [OF inv]] assms(3)
    by (auto simp: ram_files_def file_content_def)
qed

lemma read_step:
  assumes "ram_inv F" "re_calls E = memheap_calls" "fd_ok F fd a" "file_name (rf_dirent F) a = n"
    "buffer_ok (mh_place (rf_heap F)) buf count"
  shows "\<exists>k c F'. files F n = Some c \<and> k = min count (length c - upos fd) \<and>
    dfs_ramfs_read E fd buf count F = Some (int k, fd\<lparr>fd_pos := fd_pos fd + int k\<rparr>, F') \<and> ram_inv F' \<and> files F' = files F \<and>
    fd_ok F' (fd\<lparr>fd_pos := fd_pos fd + int k\<rparr>) a \<and>
    bytes_at memheap_calls (rf_heap F') buf k = take count (drop (upos fd) c)"
proof -
  have inv: "ram_ok mh_ok mh_in_use mh_place F" using assms(1) by (simp add: ram_inv_def)
  have b: "buffer_ok (mh_place (rf_heap F)) buf (min count (fd_size fd - upos fd))" using assms(5) by (auto simp: buffer_ok_def)
  have t: "take (min count (length l)) l = take count l" for l :: "u8 list" by (simp add: min_def)
  from mhf.read_ok [OF inv assms(3,2) b] show ?thesis
    using content_of [OF assms(1,3,4)] t [of "drop (upos fd) (file_content memheap_calls F a)"] unfolding ram_inv_def by fastforce
qed

lemma write_step:
  assumes "ram_inv F" "re_calls E = memheap_calls" "fd_ok F fd a" "file_name (rf_dirent F) a = n"
    "buffer_ok (mh_place (rf_heap F)) buf count" "upos fd + count < 2 ^ 30"
  shows "\<exists>c fd' F'. files F n = Some c \<and> ram_inv F' \<and> fd_ok F' fd' a \<and>
    (dfs_ramfs_write E fd buf count F = Some (0, fd', F') \<and> files F' = files F \<and> fd' = fd \<and>
       length c < upos fd + count \<and> rf_errno F' = - ENOMEM \<or>
     dfs_ramfs_write E fd buf count F = Some (int count, fd', F') \<and> fd_pos fd' = fd_pos fd + int count \<and>
       files F' = (files F)(n \<mapsto> overwrite (upos fd) (bytes_at memheap_calls (rf_heap F) buf count) c))"
proof -
  have inv: "ram_ok mh_ok mh_in_use mh_place F" using assms(1) by (simp add: ram_inv_def)
  note ct = content_of [OF assms(1,3,4)]
  show ?thesis
  proof (rule mhf.write_ok [OF inv assms(3,2,6,5)])
    fix F' assume "dfs_ramfs_write E fd buf count F = Some (0, fd, F')" "ram_ok mh_ok mh_in_use mh_place F'"
      "files F' = files F" "fd_ok F' fd a" "fd_size fd < upos fd + count" "rf_errno F' = - ENOMEM"
    then show ?thesis using ct unfolding ram_inv_def by metis
  next
    fix fd' F' assume "dfs_ramfs_write E fd buf count F = Some (int count, fd', F')" "ram_ok mh_ok mh_in_use mh_place F'"
      "fd_ok F' fd' a" "fd_pos fd' = fd_pos fd + int count"
      "files F' = (files F)(file_name (rf_dirent F) a \<mapsto>
         overwrite (upos fd) (bytes_at memheap_calls (rf_heap F) buf count) (file_content memheap_calls F a))"
    then show ?thesis using ct(1) unfolding ram_inv_def assms(4) by blast
  qed
qed

text \<open>C37: The file system in memory is a map from names to contents. In every state that satisfies the
  invariant, whatever heap operations led to it: opening a name yields a descriptor of the file with that
  name, which is made or emptied as the flags say, or refuses with the error for a missing file or for a
  full heap and changes no file; a read through a descriptor that knows the size of its file copies the
  bytes at its position into the buffer and moves the position; a write replaces the bytes at the position
  and behind it, making the file longer when needed, or reports a full heap and changes no file; unlinking
  removes exactly the file with that name. No other file changes, and the invariant is kept.\<close>

theorem ramfs_refines:
  fixes F :: "rt_memheap dfs_ramfs"
  assumes "ram_inv F" "re_calls E = memheap_calls" "rf_fs_data F i = rf_addr F"
    and "CHR 0x00 \<notin> set path" "n = skip_slashes path" "n \<noteq> []" "length n < 32"
  shows "(\<forall>fd blk. fd_data fd = Fs_data i \<and> fd_path fd = Some (blk, path) \<and> fd_flags fd AND re_O_DIRECTORY E = 0 \<longrightarrow>
      (\<exists>r fd' F'. dfs_ramfs_open E fd F = Some (r, fd', F') \<and> ram_inv F' \<and>
        (if r = 0 then (\<exists>a. fd_ok F' fd' a \<and> file_name (rf_dirent F') a = n) \<and>
             files F' = (files F)(n \<mapsto> opened (fd_flags fd AND re_O_TRUNC E \<noteq> 0) n (files F))
         else files F' = files F \<and> files F n = None \<and>
           r = (if fd_flags fd AND re_O_CREAT E \<noteq> 0 \<or> fd_flags fd AND re_O_WRONLY E \<noteq> 0 then - ENOMEM else - ENOENT)))) \<and>
    (\<forall>fd a buf count. fd_ok F fd a \<and> file_name (rf_dirent F) a = n \<and> buffer_ok (mh_place (rf_heap F)) buf count \<longrightarrow>
      (\<exists>k c F'. files F n = Some c \<and> k = min count (length c - upos fd) \<and>
        dfs_ramfs_read E fd buf count F = Some (int k, fd\<lparr>fd_pos := fd_pos fd + int k\<rparr>, F') \<and> ram_inv F' \<and> files F' = files F \<and>
        fd_ok F' (fd\<lparr>fd_pos := fd_pos fd + int k\<rparr>) a \<and>
        bytes_at memheap_calls (rf_heap F') buf k = take count (drop (upos fd) c))) \<and>
    (\<forall>fd a buf count. fd_ok F fd a \<and> file_name (rf_dirent F) a = n \<and> buffer_ok (mh_place (rf_heap F)) buf count \<and>
        upos fd + count < 2 ^ 30 \<longrightarrow>
      (\<exists>c fd' F'. files F n = Some c \<and> ram_inv F' \<and> fd_ok F' fd' a \<and>
        (dfs_ramfs_write E fd buf count F = Some (0, fd', F') \<and> files F' = files F \<and> fd' = fd \<and>
           length c < upos fd + count \<and> rf_errno F' = - ENOMEM \<or>
         dfs_ramfs_write E fd buf count F = Some (int count, fd', F') \<and> fd_pos fd' = fd_pos fd + int count \<and>
           files F' = (files F)(n \<mapsto> overwrite (upos fd) (bytes_at memheap_calls (rf_heap F) buf count) c)))) \<and>
    (case files F n of
       None \<Rightarrow> dfs_ramfs_unlink E i path F = Some (- ENOENT, F)
     | Some _ \<Rightarrow> \<exists>F'. dfs_ramfs_unlink E i path F = Some (0, F') \<and> ram_inv F' \<and> files F' = (files F)(n := None))"
proof (intro conjI allI impI)
  have inv: "ram_ok mh_ok mh_in_use mh_place F" using assms(1) by (simp add: ram_inv_def)
  show "\<exists>r fd' F'. dfs_ramfs_open E fd F = Some (r, fd', F') \<and> ram_inv F' \<and>
        (if r = 0 then (\<exists>a. fd_ok F' fd' a \<and> file_name (rf_dirent F') a = n) \<and>
             files F' = (files F)(n \<mapsto> opened (fd_flags fd AND re_O_TRUNC E \<noteq> 0) n (files F))
         else files F' = files F \<and> files F n = None \<and>
           r = (if fd_flags fd AND re_O_CREAT E \<noteq> 0 \<or> fd_flags fd AND re_O_WRONLY E \<noteq> 0 then - ENOMEM else - ENOENT))"
    if "fd_data fd = Fs_data i \<and> fd_path fd = Some (blk, path) \<and> fd_flags fd AND re_O_DIRECTORY E = 0" for fd blk
    using mhf.open_ok [OF inv assms(2,4-7) _ assms(3)] that unfolding ram_inv_def by blast
  show "\<exists>k c F'. files F n = Some c \<and> k = min count (length c - upos fd) \<and>
        dfs_ramfs_read E fd buf count F = Some (int k, fd\<lparr>fd_pos := fd_pos fd + int k\<rparr>, F') \<and> ram_inv F' \<and> files F' = files F \<and>
        fd_ok F' (fd\<lparr>fd_pos := fd_pos fd + int k\<rparr>) a \<and>
        bytes_at memheap_calls (rf_heap F') buf k = take count (drop (upos fd) c)"
    if "fd_ok F fd a \<and> file_name (rf_dirent F) a = n \<and> buffer_ok (mh_place (rf_heap F)) buf count" for fd a buf count
    using read_step [OF assms(1,2)] that by blast
  show "\<exists>c fd' F'. files F n = Some c \<and> ram_inv F' \<and> fd_ok F' fd' a \<and>
        (dfs_ramfs_write E fd buf count F = Some (0, fd', F') \<and> files F' = files F \<and> fd' = fd \<and>
           length c < upos fd + count \<and> rf_errno F' = - ENOMEM \<or>
         dfs_ramfs_write E fd buf count F = Some (int count, fd', F') \<and> fd_pos fd' = fd_pos fd + int count \<and>
           files F' = (files F)(n \<mapsto> overwrite (upos fd) (bytes_at memheap_calls (rf_heap F) buf count) c))"
    if "fd_ok F fd a \<and> file_name (rf_dirent F) a = n \<and> buffer_ok (mh_place (rf_heap F)) buf count \<and> upos fd + count < 2 ^ 30"
    for fd a buf count
    using write_step [OF assms(1,2)] that by blast
  show "case files F n of
       None \<Rightarrow> dfs_ramfs_unlink E i path F = Some (- ENOENT, F)
     | Some _ \<Rightarrow> \<exists>F'. dfs_ramfs_unlink E i path F = Some (0, F') \<and> ram_inv F' \<and> files F' = (files F)(n := None)"
  proof (cases "find_file F n")
    case None
    then show ?thesis using mhf.lookup_ok [OF inv assms(4)] assms(3,5,6)
      by (simp add: ram_files_def dfs_ramfs_unlink_def ramfs_of_def)
  next
    case (Some a)
    obtain F' where "dfs_ramfs_unlink E i path F = Some (0, F')" "ram_ok mh_ok mh_in_use mh_place F'"
      "files F' = (files F)(n := None)"
      using mhf.unlink_ok [OF inv assms(2,3,4,5,6) Some] by metis
    then show ?thesis using Some by (simp add: ram_files_def ram_inv_def)
  qed
qed

lemma demo_file_alloc: "\<exists>h. memheap_alloc 52 demo_mheap = Some (Some 0x20000018, h)"
proof -
  have r: "memheap_round 52 = 56" using align_up_eq [of 52] by (simp add: memheap_round_def)
  have b: "bsize demo_mheap 0x20000000 = 4048" "mh_available_size demo_mheap = 4048" by (simp_all add: bsize_def demo_mheap_def)
  obtain h where "memheap_first 56 demo_mheap = Some (Some (0x20000000 + 24), h)"
    using memheap_first_ok [OF demo_mheap_inv, of 56] b by auto
  then show ?thesis using b r by (simp add: memheap_alloc_def)
qed

theorem ramfs_refines_witness:
  "\<exists>fd F a. dfs_ramfs_open demo_env demo_file demo_ramfs = Some (0, fd, F) \<and> ram_inv F \<and> fd_ok F fd a \<and>
     files F = [''log'' \<mapsto> []] \<and> dfs_ramfs_unlink demo_env 1 ''/log'' demo_ramfs = Some (- ENOENT, demo_ramfs)"
proof -
  have sk: "''log'' = skip_slashes ''/log''" by (simp add: skip_slashes_def)
  have fl: "fd_flags demo_file AND re_O_DIRECTORY demo_env = 0" "fd_flags demo_file AND re_O_CREAT demo_env \<noteq> 0"
    "fd_flags demo_file AND re_O_TRUNC demo_env = 0" by (simp_all add: demo_file_def demo_env_def)
  have fd: "fd_data demo_file = Fs_data 1" "fd_path demo_file = Some (0x100, ''/log'')" by (simp_all add: demo_file_def)
  have m: "rf_fs_data demo_ramfs 1 = rf_addr demo_ramfs" by (simp only: demo_ramfs_values)
  have c: "re_calls demo_env = memheap_calls" by (simp add: demo_env_def)
  have n0: "CHR 0x00 \<notin> set ''/log''" "''log'' \<noteq> []" "length ''log'' < 32" by simp_all
  note t = ramfs_refines [OF demo_ramfs_inv(1) c m n0(1) sk n0(2,3)]
  obtain r fd' F' where o: "dfs_ramfs_open demo_env demo_file demo_ramfs = Some (r, fd', F')" "ram_inv F'"
    "if r = 0 then (\<exists>a. fd_ok F' fd' a \<and> file_name (rf_dirent F') a = ''log'') \<and>
         files F' = (files demo_ramfs)(''log'' \<mapsto> opened (fd_flags demo_file AND re_O_TRUNC demo_env \<noteq> 0) ''log'' (files demo_ramfs))
       else files F' = files demo_ramfs \<and> files demo_ramfs ''log'' = None \<and>
         r = (if fd_flags demo_file AND re_O_CREAT demo_env \<noteq> 0 \<or> fd_flags demo_file AND re_O_WRONLY demo_env \<noteq> 0
           then - ENOMEM else - ENOENT)"
    using conjunct1 [OF t] fd fl(1) by blast
  obtain h where "hc_alloc (re_calls demo_env) 52 (rf_heap demo_ramfs) = Some (Some 0x20000018, h)"
    using demo_file_alloc by (auto simp: c memheap_calls_def demo_ramfs_values)
  then have "r = 0"
    using o(1) fl fd m by (auto simp: dfs_ramfs_open_def ram_open_file_def ram_create_def dfs_ramfs_lookup_def demo_ramfs_values
      ramfs_of_def sk [symmetric] Let_def)
  then obtain a where "fd_ok F' fd' a" "files F' = [''log'' \<mapsto> []]"
    using o(3) fl(3) demo_ramfs_inv(2) by (auto simp: opened_def)
  moreover have "dfs_ramfs_unlink demo_env 1 ''/log'' demo_ramfs = Some (- ENOENT, demo_ramfs)"
    using t demo_ramfs_inv(2) by simp
  ultimately show ?thesis using o(1,2) \<open>r = 0\<close> by blast
qed

end
