(* ===== verification/Spec2Isabelle.thy ===== *)
theory Spec2Isabelle
  imports Kernel_Props Lock_Props Message_Props Heap_Props Driver_Props Service_Props Pool_Props Thread_Props
    Startup_Props Format_Props Shell_Props Dfs_Props Memheap_Props Device_Props Ringblk_Props Ramfs_Props
begin

text \<open>
  A verification development for the kernel of RT-Thread 3.1.3 as it is used in mt2625-rt-thread, with
  the allocators, the buffers of the device framework, the formatter, the shell's command line and the
  virtual file system. Source files are named relative to \<^verbatim>\<open>src/rt-thread\<close>; the configuration is that of
  \<^verbatim>\<open>src/project/nbiot_demo/rtconfig.h\<close> (Cortex-M4, 256 priorities, alignment 8, names of 24 characters,
  \<open>RT_DEBUG\<close> on, soft timers on; no modules, signals, tracing or memory heap as system heap).

  \<^bold>\<open>The program.\<close> One processor runs one thread at a time, \<open>current_thread\<close>. A thread is in one of 256
  ready queues, in the waiting list of one IPC object, or in no list. The tick interrupt
  (\<open>rt_tick_increase\<close>) ages the time slice and runs the timers that are due (\<open>rt_timer_check\<close>); the
  timer inside each thread ends its sleep or its wait (\<open>rt_thread_timeout\<close>). Semaphores, mutexes, events,
  mailboxes and message queues park the running thread in a waiting list (\<open>rt_ipc_list_suspend\<close>) and
  release it (\<open>rt_ipc_list_resume\<close>); memory pools and heaps wait the same way. Every one of these ends
  in \<open>rt_schedule\<close>, which makes the most urgent ready thread run. Headers of all objects are linked in
  containers by class. Above the kernel, the device framework calls the drivers through their operation
  tables and gives them buffers (rings of bytes and of blocks, data queues) and ways to wait for an
  interrupt (wait queues, completions) or to have work done by a thread (work queues); the virtual file
  system maps paths to mounted file systems and open files, and the shell cuts lines into commands.

  \<^bold>\<open>State and effects.\<close> The record \<open>kern\<close> (\<open>Kernel_State\<close>) holds the global variables of the kernel, the
  thread control blocks, the timers and all lists of threads; an operation of the source is a function
  from \<open>kern\<close> to its result and the new \<open>kern\<close>. An IPC object, a pool, a buffer or a heap is a record of
  its own that its operations take and return, and the threads waiting for it are the queue
  \<open>SuspendQ r\<close> of \<open>kern\<close> with \<open>r\<close> its address. \<open>None\<close> always means that the C code does not return
  normally: a failed \<open>RT_ASSERT\<close> (which halts), a loop that does not end, or an access that C leaves
  undefined. Error codes and null pointers are values inside the result. Every property that an operation
  works therefore states that the result is \<open>Some\<close>.

  A function that can block is cut at its call of \<open>rt_schedule\<close>: it returns \<open>Parked t\<close> with the state in
  which another thread runs, and what thread \<open>t\<close> does when it runs again is the definition with the
  suffix \<open>_wake\<close>. Interrupts are disabled around each critical section of the source, so the steps of
  the step relations are whole sections; every interleaving of calls, wake-ups and ticks is a sequence of
  such steps.

  \<^bold>\<open>Numbers, loops and bounds.\<close> Machine integers of the structures are words at their width; sizes and
  addresses of the allocators are natural numbers with the wrap-around modulo \<open>2 ^ 32\<close> written out
  (\<open>add32\<close>, \<open>sub32\<close>). A loop over a list is structural recursion; a loop that only a condition in memory
  ends is \<open>partial_function (option)\<close>, and the properties prove that it returns. No fuel is used. The
  assumption that recurs is that of the code itself: a timeout is below \<open>2 ^ 31\<close> ticks (asserted by
  \<open>rt_timer_start\<close>); allocators and pools carry their address range in their invariants.

  \<^bold>\<open>Theories.\<close>
  \<^item> \<open>Prelude\<close>: integer types, error codes, alignment macros, shared lemmas and collections.
  \<^item> \<open>Rt_List\<close> (\<^verbatim>\<open>include/rtservice.h\<close>): the intrusive lists on pointers, and the locales \<open>linked_lists\<close> and
    \<open>list_family\<close>, interpreted there on the pointers, in \<open>Kernel_State\<close> on the thread lists and in
    \<open>Kernel_Object\<close> on the object containers.
  \<^item> \<open>Kernel_State\<close> (\<^verbatim>\<open>include/rtdef.h\<close>), \<open>Bitmap\<close> (\<open>__rt_ffs\<close>), \<open>Scheduler\<close> (\<^verbatim>\<open>src/scheduler.c\<close>),
    \<open>Kernel_Object\<close> (\<^verbatim>\<open>src/object.c\<close>), \<open>Timer_Base\<close>, \<open>Timer\<close> and \<open>Timer_Check\<close> (\<^verbatim>\<open>src/timer.c\<close>), \<open>Thread_Base\<close> and
    \<open>Thread\<close> (\<^verbatim>\<open>src/thread.c\<close>, \<^verbatim>\<open>libcpu/arm/cortex-m4/cpuport.c\<close>), \<open>Clock\<close> (\<^verbatim>\<open>src/clock.c\<close>, \<^verbatim>\<open>src/irq.c\<close>):
    the kernel core. Its invariant \<open>kernel_ok\<close> says that the lists, the states of the threads, the ready
    bitmap and the timer lists agree; every operation keeps it.
  \<^item> \<open>Startup\<close> (\<^verbatim>\<open>src/components.c\<close>, \<^verbatim>\<open>src/idle.c\<close>): the way from memory without threads to that invariant.
  \<^item> \<open>Ipc_Base\<close>, \<open>Semaphore\<close>, \<open>Mutex\<close>, \<open>Event\<close>, \<open>Mailbox\<close>, \<open>Message_Queue\<close> (\<^verbatim>\<open>src/ipc.c\<close>): each object with
    its step relation, its reachable states and the invariants over them.
  \<^item> \<open>Fifo\<close>: the locale \<open>bounded_fifo\<close>, interpreted on the mailbox, the message queue and the ring buffer.
  \<^item> \<open>Allocator\<close>: the locale \<open>allocator\<close>, interpreted on \<open>Heap_Mem\<close> (\<^verbatim>\<open>src/mem.c\<close>) and on
    \<open>Memheap_Inv\<close> (the invariant of \<open>Memheap\<close>, \<^verbatim>\<open>src/memheap.c\<close>; \<open>Memheap_Realloc\<close> adds reallocation).
    \<open>Mempool\<close> is \<^verbatim>\<open>src/mempool.c\<close>.
  \<^item> \<open>Device\<close> (\<^verbatim>\<open>src/device.c\<close>): the reference counts and flags of devices. A driver is a table of arbitrary
    functions; \<open>driver_ok\<close> is the contract on what they leave alone, and \<open>demo_ops\<close> a driver that keeps it.
  \<^item> \<open>Ringbuffer\<close>, \<open>Ringblk\<close>, \<open>Waitqueue\<close>, \<open>Completion\<close>, \<open>Dataqueue\<close>, \<open>Workqueue\<close>
    (\<^verbatim>\<open>components/drivers/src\<close>, one file each): buffers and communication of the drivers; wake functions
    of wait queue nodes and the functions of works are parameters. \<open>Rt_Slist\<close> is the singly linked list of
    \<^verbatim>\<open>include/rtservice.h\<close>, on pointers, that the ring of blocks uses.
  \<^item> \<open>Kservice\<close> and \<open>Format\<close> (\<^verbatim>\<open>src/kservice.c\<close>): memory and string functions, formatted output.
  \<^item> \<open>Msh\<close> (\<^verbatim>\<open>components/finsh/msh.c\<close>): the command line.
  \<^item> \<open>Dfs_Path\<close>, \<open>Dfs_Fs\<close>, \<open>Dfs_Fd\<close>, \<open>Dfs_File\<close> (\<^verbatim>\<open>components/dfs/src\<close>): paths, tables of file systems,
    descriptors, file operations. The file systems behind the operation tables are parameters.
  \<^item> \<open>Ramfs\<close> (\<^verbatim>\<open>components/dfs/filesystems/ramfs/dfs_ramfs.c\<close>): one such file system, as the table \<open>ram_ops\<close>.
    Its memory is behind the locale \<open>file_heap\<close> of \<open>File_Heap\<close>, an extension of \<open>allocator\<close> by reallocation
    and contents, interpreted on the memory heap objects; \<open>Ramfs_Inv\<close> proves the effect of each operation
    on the files for every such heap.
  \<^item> \<open>Demo_State\<close> is a small running system; the theories \<open>*_Props\<close> hold the properties, each with an
    instance on concrete states.

  \<^bold>\<open>What the lemmas show.\<close> Scheduling picks the most urgent ready thread; sleeps and timeouts end after
  exactly their number of ticks; the timer check ends, calls exactly the functions of the timers that are
  due, in order, and restarts the periodic ones (\<open>Timer_Check\<close>, where the functions of the application
  are any that keep to its own data). No semaphore, event or
  mailbox leaves a thread waiting that could proceed; a mutex is exclusive, refines a recursive lock with
  handoff and, with waiting lists in priority order, keeps its owner as urgent as its waiters. Mailboxes,
  message queues and ring buffers deliver what was put in, in order (urgent messages next). The allocators
  keep blocks disjoint, aligned and in bounds for every client; first fit is complete up to the end of its
  search, as long as nothing was reallocated; the memory heap object is whole again when all is released;
  free chain and used blocks partition a pool; and the ring of blocks does not overlap. The reference count of a device is the number of
  its users and its driver is closed with the last of them, a completion reaches the thread that waits or
  the next wait, a data queue delivers in order (as long as its
  16-bit indices have not wrapped), a work queue runs the accepted works in order.
  Starting the system reaches its first thread; the idle thread reclaims dead threads, up to the first
  that was not created. Paths that stay below the root normalise to their resolution; a lookup finds the longest mount; descriptors count their users; the file system in memory is a map from names
  to contents, for descriptors that know the size of their file.
  Formatted numbers read back; the shell's words are those of a tokenizer. Some lemmas record where the
  code departs from what it means to do, for example \<open>put_force_loses_all\<close>, \<open>mp_free_stale_count\<close>,
  \<open>malloc_wraps\<close>, \<open>octal_prints_hex\<close>, \<open>up_from_root_loses_slash\<close>, \<open>memheap_alignment_lost\<close>,
  \<open>data_queue_overruns\<close>, \<open>completion_lost_on_timeout\<close>, \<open>wakeup_lost_on_timeout\<close>, \<open>submit_lost_in_window\<close>,
  \<open>cancel_before_run\<close>, \<open>cancel_pending_delayed_diverges\<close>, \<open>failed_close_wedges\<close>, \<open>queue_get_reuses\<close>,
  \<open>rbb_oversize\<close>, \<open>check_never_returns\<close>, \<open>realloc_hides_free_block\<close>, \<open>rename_hides\<close>, \<open>stale_size_cuts\<close>.

  \<^bold>\<open>Not modelled.\<close> The machine-level context switch (assembly; its effect is the change of
  \<open>current_thread\<close>), hooks (unset at boot), the slab allocator and signals (not configured), the console,
  shell commands that only print, the C expression shell, the drivers of hardware, the other file
  systems, network stacks and packages, and adapters of libc and POSIX, which only call what is modelled.
\<close>

end
